(* ===== verification/Codey_Prelude.thy ===== *)
theory Codey_Prelude
  imports Main "HOL-Library.Word" "HOL-Library.Monad_Syntax"
begin

text \<open>
  Shared vocabulary of the development.  C integers are words of their width, C arrays are
  lists of the array's length, and a computation that may leave the defined behaviour of C
  (an access outside its array, a null pointer, an indeterminate value) has an \<open>option\<close>
  result whose \<open>None\<close> is exactly that: undefined behaviour.  Everything else the code can
  answer (a refusal, an error status) is an ordinary value under \<open>Some\<close>.
\<close>

unbundle bit_operations_syntax

type_synonym u8 = "8 word"
type_synonym u16 = "16 word"
type_synonym u32 = "32 word"
type_synonym u64 = "64 word"

named_theorems mem_simps "bounded array accesses that are in range"

subsection \<open>Bounded array access\<close>

definition rd :: "'a list \<Rightarrow> nat \<Rightarrow> 'a option" where
  "rd a i = (if i < length a then Some (a ! i) else None)"

definition wr :: "'a list \<Rightarrow> nat \<Rightarrow> 'a \<Rightarrow> 'a list option" where
  "wr a i v = (if i < length a then Some (a[i := v]) else None)"

text \<open>\<open>memcpy\<close> from and into the middle of an array.\<close>

definition slice :: "'a list \<Rightarrow> nat \<Rightarrow> nat \<Rightarrow> 'a list option" where
  "slice a off n = (if off + n \<le> length a then Some (take n (drop off a)) else None)"

definition blit :: "'a list \<Rightarrow> nat \<Rightarrow> 'a list \<Rightarrow> 'a list option" where
  "blit dst off src =
     (if off + length src \<le> length dst
      then Some (take off dst @ src @ drop (off + length src) dst) else None)"

lemma rd_in [mem_simps]: "i < length a \<Longrightarrow> rd a i = Some (a ! i)"
  by (simp add: rd_def)

lemma wr_in [mem_simps]: "i < length a \<Longrightarrow> wr a i v = Some (a[i := v])"
  by (simp add: wr_def)

lemma slice_in [mem_simps]: "off + n \<le> length a \<Longrightarrow> slice a off n = Some (take n (drop off a))"
  by (simp add: slice_def)

lemma blit_in [mem_simps]: "off + length src \<le> length dst \<Longrightarrow>
    blit dst off src = Some (take off dst @ src @ drop (off + length src) dst)"
  by (simp add: blit_def)

lemma rd_out: "length a \<le> i \<Longrightarrow> rd a i = None"
  by (simp add: rd_def)

lemma wr_out: "length a \<le> i \<Longrightarrow> wr a i v = None"
  by (simp add: wr_def)

lemma rd_Some_iff: "rd a i = Some v \<longleftrightarrow> i < length a \<and> v = a ! i"
  by (auto simp: rd_def)

lemma wr_Some_iff: "wr a i v = Some b \<longleftrightarrow> i < length a \<and> b = a[i := v]"
  by (auto simp: wr_def)

lemma wr_length: "wr a i v = Some b \<Longrightarrow> length b = length a"
  by (auto simp: wr_def split: if_splits)

lemma blit_length: "blit dst off src = Some b \<Longrightarrow> length b = length dst"
  by (auto simp: blit_def split: if_splits)

lemma take_blit:
  "off + length src \<le> length dst \<Longrightarrow> blit dst off src = Some b \<Longrightarrow>
   take (off + length src) b = take off dst @ src"
  by (auto simp: blit_def)

text \<open>The first \<open>n\<close> cells of an array after a store at cell \<open>n\<close>: an output buffer that grows.\<close>

lemma take_Suc_update: "n < length a \<Longrightarrow> take (Suc n) (a[n := v]) = take n a @ [v]"
  by (simp add: take_Suc_conv_app_nth)

text \<open>
  \<open>filled b x n\<close>: an array of \<open>n\<close> cells whose first cells hold \<open>x\<close>, the state of an output
  buffer that is written from its start.
\<close>

definition filled :: "'a list \<Rightarrow> 'a list \<Rightarrow> nat \<Rightarrow> bool" where
  "filled b x n \<longleftrightarrow> length b = n \<and> length x \<le> n \<and> take (length x) b = x"

lemma filled_empty: "filled b [] (length b)"
  by (simp add: filled_def)

lemma filled_wr:
  assumes "filled b x n" and "i = length x" and "i < n"
  shows "\<exists>b'. wr b i v = Some b' \<and> filled b' (x @ [v]) n"
  using assms by (auto simp: filled_def wr_def take_Suc_update)

lemma filled_blit:
  assumes "filled b x n" and "i = length x" and "i + length src \<le> n"
  shows "\<exists>b'. blit b i src = Some b' \<and> filled b' (x @ src) n"
  using assms by (auto simp: filled_def blit_def)

lemma filled_wr_last:
  assumes "filled b (x @ [u]) n" and "i = length x"
  shows "\<exists>b'. wr b i v = Some b' \<and> filled b' (x @ [v]) n"
proof -
  from assms have "i < length b" "take (Suc i) (b[i := v]) = take i b @ [v]"
    by (auto simp: filled_def take_Suc_update)
  moreover have "take i b = x"
    using assms by (auto simp: filled_def) (metis append_eq_conv_conj append_take_drop_id
        append_assoc length_append_singleton take_Suc_conv_app_nth append1_eq_conv)
  ultimately show ?thesis
    using assms by (auto simp: filled_def wr_def)
qed

lemma filled_nth: "filled b x n \<Longrightarrow> i < length x \<Longrightarrow> i < length b \<and> b ! i = x ! i"
  by (auto simp: filled_def) (metis nth_take)

subsection \<open>Counted loops in the option monad\<close>

fun foldM :: "('a \<Rightarrow> 's \<Rightarrow> 's option) \<Rightarrow> 'a list \<Rightarrow> 's \<Rightarrow> 's option" where
  "foldM f [] s = Some s"
| "foldM f (x # xs) s = Option.bind (f x s) (foldM f xs)"

text \<open>\<open>for(i = lo; i < hi; i++)\<close> with the body a function of the counter and the state.\<close>

definition for_upto :: "nat \<Rightarrow> nat \<Rightarrow> (nat \<Rightarrow> 's \<Rightarrow> 's option) \<Rightarrow> 's \<Rightarrow> 's option" where
  "for_upto lo hi f = foldM f [lo..<hi]"

lemma foldM_append: "foldM f (xs @ ys) s = Option.bind (foldM f xs s) (foldM f ys)"
  by (induction xs arbitrary: s) (auto split: Option.bind_split)

lemma foldM_total: "(\<And>x s. x \<in> set xs \<Longrightarrow> f x s = Some (g x s)) \<Longrightarrow> foldM f xs s = Some (fold g xs s)"
  by (induction xs arbitrary: s) auto

lemma for_upto_empty [simp]: "hi \<le> lo \<Longrightarrow> for_upto lo hi f s = Some s"
  by (simp add: for_upto_def)

lemma for_upto_Suc: "lo \<le> hi \<Longrightarrow>
    for_upto lo (Suc hi) f s = Option.bind (for_upto lo hi f s) (f hi)"
  by (auto simp: for_upto_def foldM_append split: Option.bind_split)

lemma for_upto_rec: "lo < hi \<Longrightarrow> for_upto lo hi f s = Option.bind (f lo s) (for_upto (Suc lo) hi f)"
  by (simp add: for_upto_def upt_conv_Cons)

text \<open>The loop rule: an invariant indexed by the counter, with progress of every iteration.\<close>

lemma for_upto_rule:
  assumes "lo \<le> hi" and "P lo s"
    and "\<And>i s. lo \<le> i \<Longrightarrow> i < hi \<Longrightarrow> P i s \<Longrightarrow> \<exists>s'. f i s = Some s' \<and> P (Suc i) s'"
  shows "\<exists>s'. for_upto lo hi f s = Some s' \<and> P hi s'"
  using assms
proof (induction "hi - lo" arbitrary: hi)
  case 0
  then show ?case by simp
next
  case (Suc n)
  then obtain k where k: "hi = Suc k" "lo \<le> k" "n = k - lo"
    by (cases hi) auto
  have "\<exists>s'. for_upto lo k f s = Some s' \<and> P k s'"
    using k Suc.prems by (intro Suc.hyps(1)) auto
  then obtain s1 where s1: "for_upto lo k f s = Some s1" "P k s1" by blast
  moreover obtain s2 where "f k s1 = Some s2" "P (Suc k) s2"
    using Suc.prems(3) [of k s1] k s1 by auto
  ultimately show ?case
    using k by (auto simp: for_upto_Suc)
qed

subsection \<open>Words\<close>

lemma unat_and_mask: "unat ((x :: 'a::len word) AND mask k) = unat x mod 2 ^ k"
  by (metis take_bit_eq_mask take_bit_eq_mod unsigned_take_bit_eq)

lemma unat_plus_1_and_mask:
  assumes "k \<le> LENGTH('a)"
  shows "unat (((x :: 'a::len word) + 1) AND mask k) = (unat x + 1) mod 2 ^ k"
proof -
  have "(2::nat) ^ k dvd 2 ^ LENGTH('a)" using assms by (simp add: le_imp_power_dvd)
  then show ?thesis
    by (simp add: unat_and_mask unat_word_ariths mod_mod_cancel)
qed

lemma unat_plus_1: "unat (x :: 'a::len word) + 1 < 2 ^ LENGTH('a) \<Longrightarrow> unat (x + 1) = unat x + 1"
  by (simp add: unat_word_ariths)

lemma unat_bound: "unat (x :: 'a::len word) < 2 ^ LENGTH('a)"
  by simp

lemma unat_ucast_mod: "unat (ucast (x :: 'a::len word) :: 'b::len word) = unat x mod 2 ^ LENGTH('b)"
  by (simp add: unsigned_ucast_eq unsigned_take_bit_eq take_bit_eq_mod)

lemma unat_ucast_up:
  assumes "LENGTH('a) \<le> LENGTH('b)"
  shows "unat (ucast (x :: 'a::len word) :: 'b::len word) = unat x"
proof -
  have "unat x < 2 ^ LENGTH('b)"
    using unat_bound [of x] assms by (meson less_le_trans one_le_numeral power_increasing)
  then show ?thesis by (simp add: unat_ucast_mod)
qed

lemma unat_minus_1_word: "unat (-1 :: 'a::len word) = 2 ^ LENGTH('a) - 1"
  by (simp add: unsigned_minus_1_eq_mask mask_eq_exp_minus_1)

lemma word_eq_iff_unat: "(x :: 'a::len word) = y \<longleftrightarrow> unat x = unat y"
  by (simp add: word_unat_eq_iff)

subsection \<open>Little-endian bytes of a 32-bit word\<close>

definition le32 :: "u32 \<Rightarrow> u8 list" where
  "le32 w = [ucast w, ucast (drop_bit 8 w), ucast (drop_bit 16 w), ucast (drop_bit 24 w)]"

definition of_le32 :: "u8 list \<Rightarrow> u32" where
  "of_le32 bs = (case bs of [a, b, c, d] \<Rightarrow>
       ucast a OR push_bit 8 (ucast b) OR push_bit 16 (ucast c) OR push_bit 24 (ucast d)
     | _ \<Rightarrow> 0)"

lemma length_le32 [simp]: "length (le32 w) = 4"
  by (simp add: le32_def)

lemma bit_of_le32:
  "bit (of_le32 [a, b, c, d]) n \<longleftrightarrow>
     (if n < 8 then bit a n else if n < 16 then bit b (n - 8)
      else if n < 24 then bit c (n - 16) else n < 32 \<and> bit d (n - 24))"
proof -
  have far: "\<not> bit x m" if "8 \<le> m" for x :: u8 and m
    using that bit_imp_le_length [of x m] by auto
  show ?thesis
    by (auto simp: of_le32_def bit_simps far)
qed

lemma of_le32_le32 [simp]: "of_le32 (le32 w) = w"
  by (rule bit_word_eqI) (auto simp: le32_def bit_of_le32 bit_simps)

lemma le32_of_le32: "length bs = 4 \<Longrightarrow> le32 (of_le32 bs) = bs"
proof -
  assume "length bs = 4"
  then obtain a b c d where bs: "bs = [a, b, c, d]"
    by (auto simp: numeral_eq_Suc length_Suc_conv)
  show ?thesis
    unfolding bs le32_def
    by (auto intro!: bit_word_eqI simp: bit_simps bit_of_le32)
qed

subsection \<open>Sums of bytes\<close>

lemma fold_plus_sum_list: "fold (\<lambda>x s. s + x) xs (a :: 'a::comm_monoid_add) = a + sum_list xs"
  by (induction xs arbitrary: a) (auto simp: ac_simps)

end
