(* ===== verification/Bounded_Queue.thy ===== *)
theory Bounded_Queue
  imports Codey_Prelude
begin

text \<open>
  The interface the firmware's bounded first-in first-out buffers share: the BLE receive ring
  (\<open>codey_ringbuf.c\<close>), the console ring of the interpreter (\<open>py/ringbuf.h\<close>), the socket
  FIFO of the FTP server (\<open>fifo.c\<close>, \<open>socketfifo.c\<close>) and the two-slot command buffer of
  the neurons engine.  The specification is a list with a capacity; the locale
  \<open>bounded_queue\<close> states the two laws every provider must meet, and what clients need is
  proved once inside it.
\<close>

subsection \<open>The specification\<close>

definition qspec_push :: "nat \<Rightarrow> 'a \<Rightarrow> 'a list \<Rightarrow> bool \<times> 'a list" where
  "qspec_push cap x xs = (if length xs < cap then (True, xs @ [x]) else (False, xs))"

definition qspec_pop :: "'a list \<Rightarrow> 'a option \<times> 'a list" where
  "qspec_pop xs = (case xs of [] \<Rightarrow> (None, []) | y # ys \<Rightarrow> (Some y, ys))"

datatype 'a qop = Push 'a | Pop

datatype 'a qout = Pushed bool | Popped "'a option"

fun qspec_run :: "nat \<Rightarrow> 'a qop list \<Rightarrow> 'a list \<Rightarrow> 'a qout list \<times> 'a list" where
  "qspec_run cap [] xs = ([], xs)"
| "qspec_run cap (Push x # ops) xs =
     (let (b, ys) = qspec_push cap x xs; (os, zs) = qspec_run cap ops ys in (Pushed b # os, zs))"
| "qspec_run cap (Pop # ops) xs =
     (let (v, ys) = qspec_pop xs; (os, zs) = qspec_run cap ops ys in (Popped v # os, zs))"

text \<open>The same sequence of calls on an implementation given by its two operations.\<close>

fun q_run :: "('a \<Rightarrow> 'q \<Rightarrow> (bool \<times> 'q) option) \<Rightarrow> ('q \<Rightarrow> ('a option \<times> 'q) option)
    \<Rightarrow> 'a qop list \<Rightarrow> 'q \<Rightarrow> ('a qout list \<times> 'q) option" where
  "q_run push pop [] q = Some ([], q)"
| "q_run push pop (Push x # ops) q = do {
     (b, q1) \<leftarrow> push x q;
     (os, q2) \<leftarrow> q_run push pop ops q1;
     Some (Pushed b # os, q2) }"
| "q_run push pop (Pop # ops) q = do {
     (v, q1) \<leftarrow> pop q;
     (os, q2) \<leftarrow> q_run push pop ops q1;
     Some (Popped v # os, q2) }"

lemma qspec_run_bound:
  "length xs \<le> cap \<Longrightarrow> length (snd (qspec_run cap ops xs)) \<le> cap"
proof (induction ops arbitrary: xs)
  case (Cons op ops)
  show ?case
  proof (cases op)
    case (Push x)
    with Cons.prems Cons.IH [of "snd (qspec_push cap x xs)"] show ?thesis
      by (auto simp: qspec_push_def Let_def split: prod.splits)
  next
    case Pop
    with Cons.prems Cons.IH [of "snd (qspec_pop xs)"] show ?thesis
      by (cases xs) (auto simp: qspec_pop_def Let_def split: prod.splits)
  qed
qed simp

lemma qspec_push_pop_all:
  "length xs + length ys \<le> cap \<Longrightarrow>
   snd (qspec_run cap (map Push ys @ replicate (length xs + length ys) Pop) xs) = []
   \<and> fst (qspec_run cap (map Push ys @ replicate (length xs + length ys) Pop) xs)
     = map (\<lambda>_. Pushed True) ys @ map (\<lambda>v. Popped (Some v)) (xs @ ys)"
proof (induction ys arbitrary: xs)
  case Nil
  then show ?case
    by (induction xs) (auto simp: qspec_pop_def Let_def split: prod.splits)
next
  case (Cons y ys)
  then have *: "length (xs @ [y]) + length ys \<le> cap" by simp
  from Cons.IH [OF *] Cons.prems show ?case
    by (auto simp: qspec_push_def Let_def split: prod.splits)
qed

subsection \<open>The interface\<close>

locale bounded_queue =
  fixes push :: "'a \<Rightarrow> 'q \<Rightarrow> (bool \<times> 'q) option"
    and pop :: "'q \<Rightarrow> ('a option \<times> 'q) option"
    and items :: "'q \<Rightarrow> 'a list"
    and room :: "'q \<Rightarrow> nat"
    and ok :: "'q \<Rightarrow> bool"
  assumes push_law: "ok q \<Longrightarrow> \<exists>q'. push x q = Some (fst (qspec_push (room q) x (items q)), q') \<and> ok q'
      \<and> items q' = snd (qspec_push (room q) x (items q)) \<and> room q' = room q"
    and pop_law: "ok q \<Longrightarrow> \<exists>q'. pop q = Some (fst (qspec_pop (items q)), q') \<and> ok q'
      \<and> items q' = snd (qspec_pop (items q)) \<and> room q' = room q"
    and items_fit: "ok q \<Longrightarrow> length (items q) \<le> room q"
begin

text \<open>Every call sequence behaves as on the list; in particular none is undefined.\<close>

lemma run_refines:
  "ok q \<Longrightarrow> \<exists>q'. q_run push pop ops q = Some (fst (qspec_run (room q) ops (items q)), q')
     \<and> ok q' \<and> items q' = snd (qspec_run (room q) ops (items q)) \<and> room q' = room q"
proof (induction ops arbitrary: q)
  case Nil
  then show ?case by simp
next
  case (Cons op ops)
  show ?case
  proof (cases op)
    case (Push x)
    from push_law [OF Cons.prems, of x] obtain q1 where
      q1: "push x q = Some (fst (qspec_push (room q) x (items q)), q1)" "ok q1"
        "items q1 = snd (qspec_push (room q) x (items q))" "room q1 = room q" by blast
    from Cons.IH [OF q1(2)] q1 Push show ?thesis
      by (auto simp: Let_def split: prod.splits)
  next
    case Pop
    from pop_law [OF Cons.prems] obtain q1 where
      q1: "pop q = Some (fst (qspec_pop (items q)), q1)" "ok q1"
        "items q1 = snd (qspec_pop (items q))" "room q1 = room q" by blast
    from Cons.IH [OF q1(2)] q1 Pop show ?thesis
      by (auto simp: Let_def split: prod.splits)
  qed
qed

text \<open>First in, first out: what is pushed while there is room comes out in order.\<close>

lemma fifo_order:
  assumes "ok q" and "length (items q) + length ys \<le> room q"
  shows "\<exists>q'. q_run push pop (map Push ys @ replicate (length (items q) + length ys) Pop) q
      = Some (map (\<lambda>_. Pushed True) ys @ map (\<lambda>v. Popped (Some v)) (items q @ ys), q')
      \<and> ok q' \<and> items q' = []"
  using run_refines [OF assms(1), of "map Push ys @ replicate (length (items q) + length ys) Pop"]
    qspec_push_pop_all [OF assms(2)] by auto

lemma push_full: "ok q \<Longrightarrow> length (items q) = room q \<Longrightarrow>
    \<exists>q'. push x q = Some (False, q') \<and> items q' = items q"
  using push_law [of q x] by (auto simp: qspec_push_def)

lemma pop_empty: "ok q \<Longrightarrow> items q = [] \<Longrightarrow> \<exists>q'. pop q = Some (None, q') \<and> items q' = []"
  using pop_law [of q] by (auto simp: qspec_pop_def)

end

subsection \<open>Circular buffers\<close>

text \<open>The \<open>n\<close> elements of a circular buffer that start at cell \<open>g\<close>.\<close>

definition ring_items :: "'a list \<Rightarrow> nat \<Rightarrow> nat \<Rightarrow> 'a list" where
  "ring_items a g n = map (\<lambda>i. a ! ((g + i) mod length a)) [0..<n]"

lemma length_ring_items [simp]: "length (ring_items a g n) = n"
  by (simp add: ring_items_def)

lemma ring_items_0 [simp]: "ring_items a g 0 = []"
  by (simp add: ring_items_def)

lemma ring_items_Suc:
  assumes "g < length a"
  shows "ring_items a g (Suc n) = a ! g # ring_items a (Suc g mod length a) n"
proof -
  have "(g + Suc i) mod length a = (Suc g mod length a + i) mod length a" for i
    by (metis add_Suc_right add_Suc_shift mod_add_left_eq)
  then show ?thesis
    using assms by (simp add: ring_items_def map_upt_Suc del: upt_Suc)
qed

lemma ring_items_put:
  assumes "n < length a"
  shows "ring_items (a[(g + n) mod length a := v]) g (Suc n) = ring_items a g n @ [v]"
proof -
  have ne: "(g + i) mod length a \<noteq> (g + n) mod length a" if "i < n" for i
  proof
    assume "(g + i) mod length a = (g + n) mod length a"
    then have "length a dvd (g + n) - (g + i)"
      using mod_eq_dvd_iff_nat [of "g + i" "g + n" "length a"] that by simp
    with that assms show False
      by (auto dest: dvd_imp_le)
  qed
  have "(g + n) mod length a < length a" using assms by (intro mod_less_divisor) auto
  then show ?thesis
    by (simp add: ring_items_def nth_list_update_neq [OF ne [symmetric]])
qed

text \<open>The number of elements between the read and the write index, and how it moves.\<close>

definition ring_count :: "nat \<Rightarrow> nat \<Rightarrow> nat \<Rightarrow> nat" where
  "ring_count N g p = (p + N - g) mod N"

lemma ring_count_less: "0 < N \<Longrightarrow> ring_count N g p < N"
  by (simp add: ring_count_def)

lemma ring_count_cases: "g < N \<Longrightarrow> p < N \<Longrightarrow>
    ring_count N g p = (if g \<le> p then p - g else p + N - g)"
  by (auto simp: ring_count_def mod_if)

lemma ring_count_zero: "g < N \<Longrightarrow> p < N \<Longrightarrow> ring_count N g p = 0 \<longleftrightarrow> p = g"
  by (auto simp: ring_count_cases)

lemma ring_index_put: "g < N \<Longrightarrow> p < N \<Longrightarrow> (g + ring_count N g p) mod N = p"
  by (auto simp: ring_count_cases)

lemma ring_count_put: "g < N \<Longrightarrow> p < N \<Longrightarrow> Suc p mod N \<noteq> g \<Longrightarrow>
    ring_count N g (Suc p mod N) = Suc (ring_count N g p)"
  by (cases "p + 1 = N") (auto simp: ring_count_cases split: if_splits)

lemma ring_count_get: "g < N \<Longrightarrow> p < N \<Longrightarrow> p \<noteq> g \<Longrightarrow>
    ring_count N g p = Suc (ring_count N (Suc g mod N) p)"
  by (cases "g + 1 = N") (auto simp: ring_count_cases split: if_splits)

lemma ring_full: "g < N \<Longrightarrow> p < N \<Longrightarrow> Suc p mod N = g \<longleftrightarrow> ring_count N g p = N - 1"
  by (cases "p + 1 = N") (auto simp: ring_count_cases split: if_splits)

text \<open>The elements between the read and the write index, and the two moves on them.\<close>

definition ring_list :: "'a list \<Rightarrow> nat \<Rightarrow> nat \<Rightarrow> 'a list" where
  "ring_list a g p = ring_items a g (ring_count (length a) g p)"

lemma ring_list_put:
  assumes "g < length a" and "p < length a" and "Suc p mod length a \<noteq> g"
  shows "ring_list (a[p := v]) g (Suc p mod length a) = ring_list a g p @ [v]"
proof -
  have "ring_count (length a) g p < length a"
    using assms by (intro ring_count_less) auto
  then show ?thesis
    using assms ring_items_put [of "ring_count (length a) g p" a g v]
    by (simp add: ring_list_def ring_count_put ring_index_put)
qed

lemma ring_list_get:
  assumes "g < length a" and "p < length a" and "p \<noteq> g"
  shows "ring_list a g p = a ! g # ring_list a (Suc g mod length a) p"
  using assms by (simp add: ring_list_def ring_count_get ring_items_Suc)

lemma ring_list_empty: "g < length a \<Longrightarrow> p < length a \<Longrightarrow> ring_list a g p = [] \<longleftrightarrow> p = g"
  using ring_count_zero [of g "length a" p] by (auto simp: ring_list_def ring_items_def)

lemma ring_list_full: "g < length a \<Longrightarrow> p < length a \<Longrightarrow>
    length (ring_list a g p) = length a - 1 \<longleftrightarrow> Suc p mod length a = g"
  using ring_full [of g "length a" p] by (auto simp: ring_list_def)

lemma ring_list_bound: "g < length a \<Longrightarrow> p < length a \<Longrightarrow> length (ring_list a g p) \<le> length a - 1"
  using ring_count_less [of "length a" g p] by (cases "length a") (auto simp: ring_list_def)

end
