(* ===== verification/Codey_Utils.thy ===== *)
theory Codey_Utils
  imports Codey_Prelude "HOL-Library.Signed_Division"
begin

text \<open>
  The shared helpers of \<open>utils/codey_utils.c\<close>: hexadecimal text, additive check sums,
  little-endian reads, BLE attribute comparison, file name splitting and the least common
  multiple.  \<open>malloc n\<close> is the block the allocator returns, \<open>None\<close> for NULL; what a fresh
  block holds is not specified.
\<close>

subsection \<open>Check sums and raw reads\<close>

definition codey_calc_add_check_sum :: "u8 list \<Rightarrow> u32 \<Rightarrow> u8 option" where
  "codey_calc_add_check_sum data len =
     for_upto 0 (unat len) (\<lambda>i check_sum. do { b \<leftarrow> rd data i; Some (check_sum + b) }) 0"

lemma add_check_sum_take:
  assumes "n \<le> length data"
  shows "for_upto 0 n (\<lambda>i s. do { b \<leftarrow> rd data i; Some (s + b) }) a = Some (a + sum_list (take n data))"
  using assms
proof (induction n)
  case (Suc n)
  then show ?case
    by (simp add: for_upto_Suc mem_simps take_Suc_conv_app_nth add.assoc)
qed simp

lemma calc_add_check_sum: "unat len \<le> length data \<Longrightarrow>
    codey_calc_add_check_sum data len = Some (sum_list (take (unat len) data))"
  by (simp add: codey_calc_add_check_sum_def add_check_sum_take)

definition codey_read_buffer :: "u8 list \<Rightarrow> nat \<Rightarrow> u8 option" where
  "codey_read_buffer data_buffer index = rd data_buffer index"

definition codey_read_short :: "u8 list \<Rightarrow> nat \<Rightarrow> u16 option" where
  "codey_read_short data_buffer idx = do {
     b0 \<leftarrow> codey_read_buffer data_buffer idx;
     b1 \<leftarrow> codey_read_buffer data_buffer (idx + 1);
     Some (ucast b0 OR push_bit 8 (ucast b1)) }"

text \<open>\<open>codey_read_long\<close> and \<open>codey_read_float\<close> read the same four bytes; only the C type differs.\<close>

definition codey_read_long :: "u8 list \<Rightarrow> nat \<Rightarrow> u32 option" where
  "codey_read_long data_buffer idx = do {
     b0 \<leftarrow> codey_read_buffer data_buffer idx;
     b1 \<leftarrow> codey_read_buffer data_buffer (idx + 1);
     b2 \<leftarrow> codey_read_buffer data_buffer (idx + 2);
     b3 \<leftarrow> codey_read_buffer data_buffer (idx + 3);
     Some (of_le32 [b0, b1, b2, b3]) }"

definition codey_read_float :: "u8 list \<Rightarrow> nat \<Rightarrow> u32 option" where
  "codey_read_float data_buffer idx = do {
     b0 \<leftarrow> codey_read_buffer data_buffer idx;
     b1 \<leftarrow> codey_read_buffer data_buffer (idx + 1);
     b2 \<leftarrow> codey_read_buffer data_buffer (idx + 2);
     b3 \<leftarrow> codey_read_buffer data_buffer (idx + 3);
     Some (of_le32 [b0, b1, b2, b3]) }"

lemma read_long_le32: "codey_read_long (pre @ le32 w @ post) (length pre) = Some w"
  using of_le32_le32 [of w]
  by (simp add: codey_read_long_def codey_read_buffer_def rd_def le32_def nth_append)

subsection \<open>Hexadecimal text\<close>

definition s_hex_table :: "u8 list" where
  "s_hex_table = [0x30, 0x31, 0x32, 0x33, 0x34, 0x35, 0x36, 0x37, 0x38, 0x39,
                  0x41, 0x42, 0x43, 0x44, 0x45, 0x46]"

definition codey_to_hex_str :: "u8 list \<Rightarrow> u16 \<Rightarrow> u8 list \<Rightarrow> u8 list option" where
  "codey_to_hex_str in_data len out_data =
     for_upto 0 (unat len) (\<lambda>i out. do {
       b \<leftarrow> rd in_data i;
       h \<leftarrow> rd s_hex_table (unat (drop_bit 4 b AND 0x0F));
       out \<leftarrow> wr out (2 * i) h;
       l \<leftarrow> rd s_hex_table (unat (b AND 0x0F));
       wr out (2 * i + 1) l }) out_data"

text \<open>The text of a byte list, and how to read it back.\<close>

definition hex_pair :: "u8 \<Rightarrow> u8 list" where
  "hex_pair b = [s_hex_table ! (unat b div 16), s_hex_table ! (unat b mod 16)]"

definition hex_digit_value :: "u8 \<Rightarrow> u8" where
  "hex_digit_value c = (if c \<le> 0x39 then c - 0x30 else c - 0x37)"

fun of_hex_str :: "u8 list \<Rightarrow> u8 list" where
  "of_hex_str (h # l # cs) = (16 * hex_digit_value h + hex_digit_value l) # of_hex_str cs"
| "of_hex_str _ = []"

lemma length_hex_table: "length s_hex_table = 16"
  by (simp add: s_hex_table_def)

lemma hex_nibbles:
  "unat (drop_bit 4 (b :: u8) AND 0x0F) = unat b div 16" "unat ((b :: u8) AND 0x0F) = unat b mod 16"
proof -
  have mask4: "(0x0F :: u8) = mask 4" by (simp add: mask_eq_exp_minus_1)
  have "unat b < 256" using unat_bound [of b] by simp
  then show "unat (drop_bit 4 b AND 0x0F) = unat b div 16"
    unfolding mask4 by (simp add: unat_and_mask drop_bit_eq_div unat_div)
  show "unat (b AND 0x0F) = unat b mod 16"
    unfolding mask4 by (simp add: unat_and_mask)
qed

lemma hex_high: "unat (drop_bit 4 (b :: u8)) mod 16 = unat b div 16"
proof -
  have "unat b < 256" using unat_bound [of b] by simp
  then show ?thesis by (simp add: drop_bit_eq_div unat_div)
qed

lemma hex_digit_table: "i < 16 \<Longrightarrow> hex_digit_value (s_hex_table ! i) = of_nat i"
proof -
  assume "i < 16"
  then have "i \<in> {0..<16}" by simp
  then show ?thesis
    by (simp add: atLeastLessThan_upt upt_rec s_hex_table_def hex_digit_value_def)
       (elim disjE; simp)
qed

lemma of_hex_pairs: "of_hex_str (concat (map hex_pair bs)) = bs"
proof (induction bs)
  case (Cons b bs)
  have "unat b < 256" using unat_bound [of b] by simp
  then have "16 * hex_digit_value (s_hex_table ! (unat b div 16))
      + hex_digit_value (s_hex_table ! (unat b mod 16))
      = 16 * of_nat (unat b div 16) + of_nat (unat b mod 16)"
    by (simp add: hex_digit_table)
  also have "\<dots> = of_nat (16 * (unat b div 16) + unat b mod 16)"
    by (simp only: of_nat_add of_nat_mult of_nat_numeral)
  also have "\<dots> = b" by (simp only: mult_div_mod_eq) simp
  finally show ?case using Cons by (simp add: hex_pair_def)
qed simp

lemma take_two: "2 * n + 1 < length a \<Longrightarrow>
    take (2 * Suc n) (a[2 * n := x, Suc (2 * n) := y]) = take (2 * n) a @ [x, y]"
  by (simp add: take_Suc_conv_app_nth)

lemma to_hex_str:
  assumes "unat len \<le> length in_data" and "2 * unat len \<le> length out_data"
  shows "\<exists>out. codey_to_hex_str in_data len out_data = Some out
    \<and> take (2 * unat len) out = concat (map hex_pair (take (unat len) in_data))
    \<and> length out = length out_data \<and> drop (2 * unat len) out = drop (2 * unat len) out_data"
proof -
  let ?P = "\<lambda>i out. take (2 * i) out = concat (map hex_pair (take i in_data))
      \<and> length out = length out_data \<and> drop (2 * unat len) out = drop (2 * unat len) out_data"
  have "\<exists>s'. codey_to_hex_str in_data len out_data = Some s' \<and> ?P (unat len) s'"
    unfolding codey_to_hex_str_def
  proof (rule for_upto_rule [where P = ?P])
    show "?P 0 out_data" by simp
    fix i out assume i: "0 \<le> i" "i < unat len" and P: "?P i out"
    have "unat (in_data ! i) div 16 < 16" using unat_bound [of "in_data ! i"] by simp
    with i P assms show "\<exists>s'. (do {
         b \<leftarrow> rd in_data i;
         h \<leftarrow> rd s_hex_table (unat (drop_bit 4 b AND 0x0F));
         out \<leftarrow> wr out (2 * i) h;
         l \<leftarrow> rd s_hex_table (unat (b AND 0x0F));
         wr out (2 * i + 1) l }) = Some s' \<and> ?P (Suc i) s'"
      by (simp add: mem_simps hex_nibbles hex_high length_hex_table take_two [simplified] hex_pair_def
          take_Suc_conv_app_nth)
  qed simp
  then show ?thesis by blast
qed

subsection \<open>C strings and file names\<close>

text \<open>\<open>strlen\<close> of the string at the start of a buffer, undefined without a terminator.\<close>

fun strlen :: "u8 list \<Rightarrow> nat option" where
  "strlen [] = None"
| "strlen (c # cs) = (if c = 0 then Some 0 else map_option Suc (strlen cs))"

lemma strlen_append: "0 \<notin> set s \<Longrightarrow> strlen (s @ 0 # rest) = Some (length s)"
  by (induction s) auto

definition slash :: u8 where "slash = 0x2F"

text \<open>
  The backward search both splitting functions share.  Its index is a \<open>size_t\<close>, so the
  loop condition \<open>check_idx >= 0\<close> is always true: the search only ends at a slash.
\<close>

partial_function (option) check_idx_loop :: "u8 list \<Rightarrow> u32 \<Rightarrow> u32 option" where
  "check_idx_loop full_file_name check_idx =
     Option.bind (rd full_file_name (unat check_idx)) (\<lambda>c.
       if c = slash then Some check_idx else check_idx_loop full_file_name (check_idx - 1))"

type_synonym malloc = "nat \<Rightarrow> u8 list option"

definition malloc_ok :: "malloc \<Rightarrow> bool" where
  "malloc_ok malloc \<longleftrightarrow> (\<forall>n m. malloc n = Some m \<longrightarrow> length m = n)"

definition codey_get_path_from_full_file_name :: "malloc \<Rightarrow> u8 list \<Rightarrow> u8 list option option" where
  "codey_get_path_from_full_file_name malloc full_file_name = do {
     n \<leftarrow> strlen full_file_name;
     check_idx \<leftarrow> check_idx_loop full_file_name (of_nat n - 1);
     case malloc (unat (check_idx + 1 + 1)) of
       None \<Rightarrow> Some None
     | Some path \<Rightarrow> do {
         src \<leftarrow> slice full_file_name 0 (unat check_idx);
         path \<leftarrow> blit path 0 src;
         path \<leftarrow> wr path (unat check_idx) 0;
         Some (Some path) } }"

definition codey_get_name_from_full_file_name :: "malloc \<Rightarrow> u8 list \<Rightarrow> u8 list option option" where
  "codey_get_name_from_full_file_name malloc full_file_name = do {
     n \<leftarrow> strlen full_file_name;
     let len = (of_nat n :: u32);
     check_idx \<leftarrow> check_idx_loop full_file_name (len - 1);
     case malloc (unat (len - check_idx)) of
       None \<Rightarrow> Some None
     | Some name \<Rightarrow> do {
         src \<leftarrow> slice full_file_name (unat check_idx + 1) (unat (len - check_idx - 1));
         name \<leftarrow> blit name 0 src;
         name \<leftarrow> wr name (unat (len - check_idx - 1)) 0;
         Some (Some name) } }"

lemma check_idx_loop_finds:
  assumes "slash \<notin> set base" and "k \<le> length base"
    and "length dir + length base < 2 ^ 32"
  shows "check_idx_loop (dir @ slash # base @ rest) (of_nat (length dir + k)) = Some (of_nat (length dir))"
  using assms(2)
proof (induction k)
  case 0
  have "unat (of_nat (length dir) :: u32) = length dir"
    using assms(3) by (simp add: unat_of_nat take_bit_nat_eq_self)
  then show ?case
    by (subst check_idx_loop.simps) (simp add: rd_def nth_append)
next
  case (Suc k)
  have idx: "unat (of_nat (length dir + Suc k) :: u32) = length dir + Suc k"
    using assms(3) Suc.prems by (simp add: unat_of_nat take_bit_nat_eq_self del: of_nat_Suc)
  have "base ! k \<noteq> slash" using assms(1) Suc.prems by (metis nth_mem Suc_le_eq)
  moreover have "(dir @ slash # base @ rest) ! (length dir + Suc k) = base ! k"
    using Suc.prems by (simp add: nth_append)
  moreover have "(of_nat (length dir + Suc k) :: u32) - 1 = of_nat (length dir + k)"
    by simp
  ultimately show ?case
    using Suc idx by (subst check_idx_loop.simps) (simp add: rd_def del: of_nat_add of_nat_Suc)
qed

text \<open>Without a slash the search leaves the buffer at its start.\<close>

lemma check_idx_loop_underflow:
  assumes "slash \<notin> set s" and "length (s @ rest) < 2 ^ 32" and "k \<le> length s"
  shows "check_idx_loop (s @ rest) (of_nat k - 1) = None"
  using assms(3)
proof (induction k)
  case 0
  with assms(2) show ?case
    by (subst check_idx_loop.simps) (simp add: rd_def unat_minus_1_word)
next
  case (Suc k)
  have "unat (of_nat k :: u32) = k"
    using assms(2) Suc.prems by (simp add: unat_of_nat take_bit_nat_eq_self)
  moreover have "s ! k \<noteq> slash" using assms(1) Suc.prems by (metis nth_mem Suc_le_eq)
  ultimately show ?case
    using Suc by (subst check_idx_loop.simps) (simp add: rd_def nth_append)
qed

lemma full_name_search:
  assumes "slash \<notin> set base" and "0 \<notin> set dir \<union> set base"
    and "length dir + length base + 1 < 2 ^ 32"
  shows "strlen (dir @ slash # base @ 0 # rest) = Some (length dir + length base + 1)"
    and "check_idx_loop (dir @ slash # base @ 0 # rest) (of_nat (length dir + length base + 1) - 1)
      = Some (of_nat (length dir))"
proof -
  show "strlen (dir @ slash # base @ 0 # rest) = Some (length dir + length base + 1)"
    using strlen_append [of "dir @ slash # base" rest] assms(2) by (simp add: slash_def)
  show "check_idx_loop (dir @ slash # base @ 0 # rest) (of_nat (length dir + length base + 1) - 1)
      = Some (of_nat (length dir))"
    using check_idx_loop_finds [OF assms(1), of "length base" dir "0 # rest"] assms(3) by simp
qed

lemma get_path_ok:
  assumes "malloc_ok malloc" and "malloc (length dir + 2) = Some m"
    and "slash \<notin> set base" and "0 \<notin> set dir \<union> set base" and "length dir + length base + 2 < 2 ^ 32"
  shows "\<exists>path. codey_get_path_from_full_file_name malloc (dir @ slash # base @ 0 # rest) = Some (Some path)
    \<and> take (length dir + 1) path = dir @ [0]"
proof -
  have m: "length m = length dir + 2" using assms(1,2) by (simp add: malloc_ok_def)
  have idx: "unat (of_nat (length dir) :: u32) = length dir"
    using assms(5) by (simp add: unat_of_nat take_bit_nat_eq_self)
  have "(of_nat (length dir) :: u32) + 1 + 1 = of_nat (length dir + 2)" by simp
  then have size: "unat ((of_nat (length dir) :: u32) + 1 + 1) = length dir + 2"
    using assms(5) by (simp only: unat_of_nat) (simp add: take_bit_nat_eq_self)
  have lt: "length dir + length base + 1 < 2 ^ 32" using assms(5) by simp
  show ?thesis
    unfolding codey_get_path_from_full_file_name_def full_name_search(1) [OF assms(3,4) lt] Option.bind.simps
      full_name_search(2) [OF assms(3,4) lt, of rest] size idx assms(2)
    using m by (simp add: mem_simps take_Suc_update)
qed

lemma get_name_ok:
  assumes "malloc_ok malloc" and "malloc (length base + 1) = Some m"
    and "slash \<notin> set base" and "0 \<notin> set dir \<union> set base" and "length dir + length base + 2 < 2 ^ 32"
  shows "codey_get_name_from_full_file_name malloc (dir @ slash # base @ 0 # rest) = Some (Some (base @ [0]))"
proof -
  have m: "length m = length base + 1" using assms(1,2) by (simp add: malloc_ok_def)
  have idx: "unat (of_nat (length dir) :: u32) = length dir"
    using assms(5) by (simp add: unat_of_nat take_bit_nat_eq_self)
  have diff: "(of_nat (length dir + length base + 1) :: u32) - of_nat (length dir) = of_nat (length base + 1)"
    by simp
  have diff1: "of_nat (length base + 1) - 1 = (of_nat (length base) :: u32)" by simp
  have sizes: "unat (of_nat (length base + 1) :: u32) = length base + 1"
    "unat (of_nat (length base) :: u32) = length base"
    using assms(5) by (simp_all only: unat_of_nat) (simp_all add: take_bit_nat_eq_self)
  have lt: "length dir + length base + 1 < 2 ^ 32" using assms(5) by simp
  have "drop (length base) m = [m ! length base]"
    using Cons_nth_drop_Suc [of "length base" m] m by simp
  then have last: "(base @ drop (length base) m)[length base := 0] = base @ [0]"
    by (simp add: list_update_append)
  show ?thesis
    unfolding codey_get_name_from_full_file_name_def full_name_search(1) [OF assms(3,4) lt]
      Let_def Option.bind.simps
    unfolding full_name_search(2) [OF assms(3,4) lt, of rest] Option.bind.simps diff diff1 sizes idx
    using m assms(2) last by (simp add: mem_simps)
qed

lemma file_name_underflow:
  assumes "slash \<notin> set s" and "0 \<notin> set s" and "length s + length rest + 1 < 2 ^ 32"
  shows "codey_get_path_from_full_file_name malloc (s @ 0 # rest) = None"
    and "codey_get_name_from_full_file_name malloc (s @ 0 # rest) = None"
  using check_idx_loop_underflow [OF assms(1), of "0 # rest" "length s"] assms strlen_append [of s rest]
  by (simp_all add: codey_get_path_from_full_file_name_def codey_get_name_from_full_file_name_def)

subsection \<open>BLE attributes\<close>

text \<open>\<open>memcmp(a, b, n) == 0\<close>.\<close>

definition memcmp_eq :: "u8 list \<Rightarrow> u8 list \<Rightarrow> nat \<Rightarrow> bool option" where
  "memcmp_eq a b n = do { x \<leftarrow> slice a 0 n; y \<leftarrow> slice b 0 n; Some (x = y) }"

record esp_attr_desc_t =
  uuid_length :: u16
  uuid_p :: "u8 list"

record esp_bt_uuid_t =
  uuid_len :: u16
  uuid_bytes :: "u8 list"

definition codey_ble_compare_attr :: "esp_attr_desc_t \<Rightarrow> esp_attr_desc_t \<Rightarrow> bool option" where
  "codey_ble_compare_attr a b =
     (if uuid_length a = uuid_length b then memcmp_eq (uuid_p a) (uuid_p b) (unat (uuid_length a))
      else Some False)"

definition codey_ble_compare_uuid :: "esp_bt_uuid_t \<Rightarrow> esp_bt_uuid_t \<Rightarrow> bool option" where
  "codey_ble_compare_uuid a b =
     (if uuid_len a = uuid_len b then memcmp_eq (uuid_bytes a) (uuid_bytes b) (unat (uuid_len a))
      else Some False)"

lemma compare_uuid_iff:
  "unat (uuid_len a) \<le> length (uuid_bytes a) \<Longrightarrow> unat (uuid_len b) \<le> length (uuid_bytes b) \<Longrightarrow>
   codey_ble_compare_uuid a b = Some (take (unat (uuid_len a)) (uuid_bytes a) = take (unat (uuid_len b)) (uuid_bytes b))"
  by (auto simp: codey_ble_compare_uuid_def memcmp_eq_def mem_simps word_eq_iff_unat
      dest!: arg_cong [where f = length])

subsection \<open>Least common multiple\<close>

text \<open>The loop over the multiples; a product outside \<open>int\<close> or a zero divisor is undefined.\<close>

definition INT_MAX :: int where "INT_MAX = 2147483647"
definition INT_MIN :: int where "INT_MIN = -2147483648"

partial_function (option) lcm_loop :: "int \<Rightarrow> int \<Rightarrow> int \<Rightarrow> int option" where
  "lcm_loop mx mn i =
     (if INT_MIN \<le> mx * i \<and> mx * i \<le> INT_MAX \<and> mn \<noteq> 0 then
        (if (mx * i) smod mn = 0 then Some (mx * i) else lcm_loop mx mn (i + 1))
      else None)"

definition lcm_c :: "int \<Rightarrow> int \<Rightarrow> int option" where
  "lcm_c a b = (let mx = (if a \<ge> b then a else b); mn = (if a < b then a else b) in lcm_loop mx mn 1)"

lemma smod_zero_iff: "0 \<le> (x :: int) \<Longrightarrow> 0 < y \<Longrightarrow> x smod y = 0 \<longleftrightarrow> y dvd x"
  by (simp add: smod_mod_positive dvd_eq_mod_eq_0)

lemma lcm_loop_finds:
  assumes "0 < mx" and "0 < mn" and "lcm mx mn \<le> INT_MAX" and "0 < i" and "mx * i \<le> lcm mx mn"
  shows "lcm_loop mx mn i = Some (lcm mx mn)"
  using assms(4,5)
proof (induction "nat (lcm mx mn - mx * i)" arbitrary: i rule: less_induct)
  case less
  have pos: "0 < mx * i" using assms(1) less.prems(1) by simp
  have range: "INT_MIN \<le> mx * i \<and> mx * i \<le> INT_MAX \<and> mn \<noteq> 0"
    using pos less.prems(2) assms(2,3) unfolding INT_MIN_def by (intro conjI; linarith)
  show ?case
  proof (cases "mn dvd mx * i")
    case True
    then have "lcm mx mn dvd mx * i" by (simp add: lcm_least)
    from zdvd_imp_le [OF this pos] have "lcm mx mn = mx * i"
      using less.prems(2) by simp
    with True range pos assms(2) show ?thesis
      by (subst lcm_loop.simps) (simp add: smod_zero_iff)
  next
    case False
    then have "mx * i \<noteq> lcm mx mn" by (metis dvd_lcm2)
    then have lt: "mx * i < lcm mx mn" using less.prems(2) by simp
    obtain k where k: "lcm mx mn = mx * k" using dvd_lcm1 [of mx mn] by (auto simp: dvd_def)
    with lt assms(1) have "i + 1 \<le> k" by (simp add: mult_less_cancel_left)
    then have le: "mx * (i + 1) \<le> lcm mx mn"
      unfolding k using assms(1) by (intro mult_left_mono) auto
    have "mx * i < mx * (i + 1)" using assms(1) by (simp add: distrib_left)
    then have "nat (lcm mx mn - mx * (i + 1)) < nat (lcm mx mn - mx * i)"
      using le lt by simp
    with less.hyps [of "i + 1"] le less.prems(1) have "lcm_loop mx mn (i + 1) = Some (lcm mx mn)"
      by simp
    then show ?thesis
      using False range pos assms(2) by (subst lcm_loop.simps) (simp add: smod_zero_iff)
  qed
qed

lemma lcm_c_ok:
  assumes "0 < a" and "0 < b" and "lcm a b \<le> INT_MAX"
  shows "lcm_c a b = Some (lcm a b)"
proof -
  have "max a b \<le> lcm a b"
    using assms(1,2) by (auto intro!: zdvd_imp_le simp: lcm_pos_int)
  then show ?thesis
    using assms lcm_loop_finds [of a b 1] lcm_loop_finds [of b a 1]
    by (auto simp: lcm_c_def lcm.commute)
qed

subsection \<open>Properties\<close>

text \<open>A full file name is split at its last slash: for a name \<open>dir/base\<close> without further slash in
  \<open>base\<close>, the two functions return the C strings \<open>dir\<close> and \<open>base\<close>.\<close>

theorem file_name_split:
  assumes "malloc_ok malloc" and "malloc (length dir + 2) = Some m1" and "malloc (length base + 1) = Some m2"
    and "slash \<notin> set base" and "0 \<notin> set dir \<union> set base" and "length dir + length base + 2 < 2 ^ 32"
  shows "\<exists>path. codey_get_path_from_full_file_name malloc (dir @ slash # base @ 0 # rest) = Some (Some path)
    \<and> take (length dir + 1) path = dir @ [0]
    \<and> codey_get_name_from_full_file_name malloc (dir @ slash # base @ 0 # rest) = Some (Some (base @ [0]))"
  using get_path_ok [OF assms(1,2,4,5,6)] get_name_ok [OF assms(1,3,4,5,6)] by auto

theorem file_name_split_witness:
  "\<exists>path. codey_get_path_from_full_file_name (\<lambda>n. Some (replicate n 1)) ([0x2F, 0x66] @ slash # [0x61, 0x2E, 0x70] @ 0 # []) = Some (Some path)
    \<and> take (length [0x2F, 0x66 :: u8] + 1) path = [0x2F, 0x66] @ [0]
    \<and> codey_get_name_from_full_file_name (\<lambda>n. Some (replicate n 1)) ([0x2F, 0x66] @ slash # [0x61, 0x2E, 0x70] @ 0 # [])
      = Some (Some ([0x61, 0x2E, 0x70] @ [0]))"
  by (rule file_name_split) (simp_all add: malloc_ok_def slash_def)

text \<open>A name without any slash runs the search out of the buffer in both functions (the index is an
  unsigned \<open>size_t\<close>, so its test against zero never ends the loop).\<close>

theorem file_name_without_slash:
  assumes "slash \<notin> set s" and "0 \<notin> set s" and "length s + length rest + 1 < 2 ^ 32"
  shows "codey_get_path_from_full_file_name malloc (s @ 0 # rest) = None
    \<and> codey_get_name_from_full_file_name malloc (s @ 0 # rest) = None"
  using file_name_underflow [OF assms] by simp

theorem file_name_without_slash_witness:
  "codey_get_path_from_full_file_name (\<lambda>n. Some (replicate n 1)) ([0x61, 0x2E, 0x70] @ 0 # []) = None
    \<and> codey_get_name_from_full_file_name (\<lambda>n. Some (replicate n 1)) ([0x61, 0x2E, 0x70] @ 0 # []) = None"
  by (rule file_name_without_slash) (simp_all add: slash_def)

text \<open>Hexadecimal text is invertible: the \<open>2 * len\<close> characters written decode to the \<open>len\<close> input
  bytes, and nothing behind them in the output buffer changes.\<close>

theorem hex_text_round_trip:
  assumes "unat len \<le> length in_data" and "2 * unat len \<le> length out_data"
  shows "\<exists>out. codey_to_hex_str in_data len out_data = Some out
    \<and> of_hex_str (take (2 * unat len) out) = take (unat len) in_data
    \<and> drop (2 * unat len) out = drop (2 * unat len) out_data"
  using to_hex_str [OF assms] by (auto simp: of_hex_pairs)

theorem hex_text_round_trip_witness:
  "\<exists>out. codey_to_hex_str [0xA5, 0x3C] 2 [1, 2, 3, 4, 5] = Some out
    \<and> of_hex_str (take (2 * unat (2 :: u16)) out) = take (unat (2 :: u16)) [0xA5, 0x3C]
    \<and> drop (2 * unat (2 :: u16)) out = drop (2 * unat (2 :: u16)) [1, 2, 3, 4, 5]"
  by (rule hex_text_round_trip) simp_all

text \<open>The search for the least common multiple of two positive integers ends, without overflow, at the
  least common multiple whenever that is an \<open>int\<close>.\<close>

theorem lcm_is_least_common_multiple:
  assumes "0 < a" and "0 < b" and "lcm a b \<le> INT_MAX"
  shows "lcm_c a b = Some (lcm a b)"
  using lcm_c_ok [OF assms] .

theorem lcm_is_least_common_multiple_witness: "lcm_c 4 6 = Some (lcm 4 6)"
proof (rule lcm_is_least_common_multiple)
  show "lcm 4 6 \<le> INT_MAX" by code_simp
qed simp_all

end
