(* ===== verification/Codey_Ble.thy ===== *)
theory Codey_Ble
  imports Bounded_Queue
begin

text \<open>
  The byte ring of \<open>utils/codey_ringbuf.[ch]\<close> and its one user, the BLE serial service of
  \<open>bt/codey_ble_sys_dev_func.c\<close>: the write event fills the ring, the communication task
  drains it, and answers leave in blocks of at most twenty bytes.  The ring is an instance of
  the interface \<open>bounded_queue\<close>.
\<close>

subsection \<open>The ring buffer\<close>

text \<open>\<open>rb_size\<close> is the mask: the capacity given to \<open>RING_BUF_INIT\<close>, minus one.\<close>

record codey_ring_buf_t =
  rb_size :: u32
  rb_iput :: u32
  rb_iget :: u32
  rb_buf :: "u8 list"

definition RING_BUF_INIT :: "u8 list \<Rightarrow> u32 \<Rightarrow> codey_ring_buf_t" where
  "RING_BUF_INIT b s = \<lparr>rb_size = s - 1, rb_iput = 0, rb_iget = 0, rb_buf = b\<rparr>"

definition RING_BUF_IS_FULL :: "codey_ring_buf_t \<Rightarrow> bool" where
  "RING_BUF_IS_FULL r \<longleftrightarrow> (rb_iput r + 1) AND rb_size r = rb_iget r"

definition RING_BUF_IS_EMPTY :: "codey_ring_buf_t \<Rightarrow> bool" where
  "RING_BUF_IS_EMPTY r \<longleftrightarrow> rb_iput r = rb_iget r"

definition codey_ring_buf_get :: "codey_ring_buf_t \<Rightarrow> (u8 \<times> codey_ring_buf_t) option" where
  "codey_ring_buf_get r = do {
     ret \<leftarrow> rd (rb_buf r) (unat (rb_iget r));
     Some (ret, r\<lparr>rb_iget := (rb_iget r + 1) AND rb_size r\<rparr>) }"

definition codey_ring_buf_put :: "codey_ring_buf_t \<Rightarrow> u8 \<Rightarrow> codey_ring_buf_t option" where
  "codey_ring_buf_put r val = do {
     b \<leftarrow> wr (rb_buf r) (unat (rb_iput r)) val;
     Some (r\<lparr>rb_buf := b, rb_iput := (rb_iput r + 1) AND rb_size r\<rparr>) }"

text \<open>
  Well-formed rings: the size is a power of two (the mask arithmetic needs it), the storage has
  that many cells and both indices are inside it.
\<close>

definition ring_ok :: "codey_ring_buf_t \<Rightarrow> bool" where
  "ring_ok r \<longleftrightarrow> (\<exists>k\<le>31. rb_size r = mask k \<and> length (rb_buf r) = 2 ^ k)
     \<and> unat (rb_iput r) < length (rb_buf r) \<and> unat (rb_iget r) < length (rb_buf r)"

definition ring_contents :: "codey_ring_buf_t \<Rightarrow> u8 list" where
  "ring_contents r = ring_list (rb_buf r) (unat (rb_iget r)) (unat (rb_iput r))"

definition ring_room :: "codey_ring_buf_t \<Rightarrow> nat" where
  "ring_room r = length (rb_buf r) - 1"

lemma ring_step:
  assumes "ring_ok r"
  shows "unat ((x + 1) AND rb_size r) = Suc (unat x) mod length (rb_buf r)"
proof -
  from assms obtain k where "k \<le> 31" "rb_size r = mask k" "length (rb_buf r) = 2 ^ k"
    by (auto simp: ring_ok_def)
  then show ?thesis by (simp add: unat_plus_1_and_mask)
qed

lemma ring_full_iff: "ring_ok r \<Longrightarrow> RING_BUF_IS_FULL r \<longleftrightarrow> length (ring_contents r) = ring_room r"
  by (auto simp: RING_BUF_IS_FULL_def ring_contents_def ring_room_def word_eq_iff_unat ring_step
      ring_list_full [simplified] ring_ok_def)

lemma ring_empty_iff: "ring_ok r \<Longrightarrow> RING_BUF_IS_EMPTY r \<longleftrightarrow> ring_contents r = []"
  by (auto simp: RING_BUF_IS_EMPTY_def ring_contents_def word_eq_iff_unat ring_list_empty ring_ok_def)

lemma ring_put_accepts:
  assumes "ring_ok r" and "\<not> RING_BUF_IS_FULL r"
  shows "\<exists>r'. codey_ring_buf_put r v = Some r' \<and> ring_ok r' \<and> ring_room r' = ring_room r
     \<and> ring_contents r' = ring_contents r @ [v]"
proof -
  have "Suc (unat (rb_iput r)) mod length (rb_buf r) \<noteq> unat (rb_iget r)"
    using assms ring_step [OF assms(1), of "rb_iput r"]
    by (auto simp: RING_BUF_IS_FULL_def word_eq_iff_unat)
  moreover have "length (rb_buf r) \<noteq> 0" using assms(1) by (auto simp: ring_ok_def)
  ultimately show ?thesis
    using assms(1) ring_step [OF assms(1), of "rb_iput r"]
      ring_list_put [of "unat (rb_iget r)" "rb_buf r" "unat (rb_iput r)" v]
    by (auto simp: codey_ring_buf_put_def ring_ok_def ring_contents_def ring_room_def mem_simps)
qed

lemma ring_get_accepts:
  assumes "ring_ok r" and "\<not> RING_BUF_IS_EMPTY r"
  shows "\<exists>r'. codey_ring_buf_get r = Some (hd (ring_contents r), r') \<and> ring_ok r'
     \<and> ring_room r' = ring_room r \<and> ring_contents r' = tl (ring_contents r)"
proof -
  have "length (rb_buf r) \<noteq> 0" using assms(1) by (auto simp: ring_ok_def)
  then show ?thesis
    using assms ring_step [OF assms(1), of "rb_iget r"]
      ring_list_get [of "unat (rb_iget r)" "rb_buf r" "unat (rb_iput r)"]
    by (auto simp: codey_ring_buf_get_def RING_BUF_IS_EMPTY_def ring_ok_def ring_contents_def
        ring_room_def word_eq_iff_unat mem_simps)
qed

lemma ring_init_ok:
  "k \<le> 31 \<Longrightarrow> length b = 2 ^ k \<Longrightarrow> ring_ok (RING_BUF_INIT b (2 ^ k))"
  by (auto simp: ring_ok_def RING_BUF_INIT_def mask_eq_exp_minus_1)

subsection \<open>The BLE side of the ring\<close>

text \<open>
  One byte of a write event, with the guard of the handler; \<open>codey_ble_rx_write\<close> is its
  loop over the written value, which stops at the first byte that finds the ring full.
\<close>

definition codey_ble_rx_put :: "u8 \<Rightarrow> codey_ring_buf_t \<Rightarrow> (bool \<times> codey_ring_buf_t) option" where
  "codey_ble_rx_put v r =
     (if \<not> RING_BUF_IS_FULL r then do { r' \<leftarrow> codey_ring_buf_put r v; Some (True, r') }
      else Some (False, r))"

fun codey_ble_rx_write :: "u8 list \<Rightarrow> codey_ring_buf_t \<Rightarrow> codey_ring_buf_t option" where
  "codey_ble_rx_write [] r = Some r"
| "codey_ble_rx_write (v # vs) r = do {
     (stored, r') \<leftarrow> codey_ble_rx_put v r;
     if stored then codey_ble_rx_write vs r' else Some r' }"

text \<open>\<open>None\<close> in the first component is the return value -1 (nothing to read).\<close>

definition codey_ble_dev_get_char :: "codey_ring_buf_t \<Rightarrow> (u8 option \<times> codey_ring_buf_t) option" where
  "codey_ble_dev_get_char r =
     (if \<not> RING_BUF_IS_EMPTY r then do { (c, r') \<leftarrow> codey_ring_buf_get r; Some (Some c, r') }
      else Some (None, r))"

text \<open>
  \<open>codey_ble_dev_get_data out_buf len\<close>: the bytes read so far go to \<open>out_buf\<close>; the result
  is the buffer, the number read (\<open>*len\<close>) and the ring.
\<close>

fun ble_get_data_loop :: "nat \<Rightarrow> nat \<Rightarrow> u8 list \<Rightarrow> codey_ring_buf_t
    \<Rightarrow> (u8 list \<times> nat \<times> codey_ring_buf_t) option" where
  "ble_get_data_loop 0 i out_buf r = Some (out_buf, i, r)"
| "ble_get_data_loop (Suc n) i out_buf r =
     (if \<not> RING_BUF_IS_EMPTY r then do {
        (c, r') \<leftarrow> codey_ring_buf_get r;
        out' \<leftarrow> wr out_buf i c;
        ble_get_data_loop n (Suc i) out' r' }
      else Some (out_buf, i, r))"

definition codey_ble_dev_get_data :: "u8 list \<Rightarrow> u16 \<Rightarrow> codey_ring_buf_t
    \<Rightarrow> (u8 list \<times> u16 \<times> codey_ring_buf_t) option" where
  "codey_ble_dev_get_data out_buf len r = do {
     (out', i, r') \<leftarrow> ble_get_data_loop (unat len) 0 out_buf r;
     Some (out', of_nat i, r') }"

interpretation ble_rx: bounded_queue codey_ble_rx_put codey_ble_dev_get_char
  ring_contents ring_room ring_ok
proof unfold_locales
  fix q and x :: u8
  assume ok: "ring_ok q"
  have fit: "length (ring_contents q) \<le> ring_room q"
    using ok by (auto simp: ring_contents_def ring_room_def ring_ok_def ring_list_bound [simplified])
  then show "length (ring_contents q) \<le> ring_room q" .
  show "\<exists>q'. codey_ble_rx_put x q
      = Some (fst (qspec_push (ring_room q) x (ring_contents q)), q') \<and> ring_ok q'
      \<and> ring_contents q' = snd (qspec_push (ring_room q) x (ring_contents q))
      \<and> ring_room q' = ring_room q"
  proof (cases "RING_BUF_IS_FULL q")
    case True
    then show ?thesis
      using ok ring_full_iff [OF ok] by (simp add: codey_ble_rx_put_def qspec_push_def)
  next
    case False
    with ring_put_accepts [OF ok False, of x] ring_full_iff [OF ok] fit show ?thesis
      by (auto simp: codey_ble_rx_put_def qspec_push_def)
  qed
  show "\<exists>q'. codey_ble_dev_get_char q = Some (fst (qspec_pop (ring_contents q)), q') \<and> ring_ok q'
      \<and> ring_contents q' = snd (qspec_pop (ring_contents q)) \<and> ring_room q' = ring_room q"
  proof (cases "RING_BUF_IS_EMPTY q")
    case True
    then show ?thesis
      using ok ring_empty_iff [OF ok] by (simp add: codey_ble_dev_get_char_def qspec_pop_def)
  next
    case False
    with ring_get_accepts [OF ok False] ring_empty_iff [OF ok] show ?thesis
      by (cases "ring_contents q") (auto simp: codey_ble_dev_get_char_def qspec_pop_def)
  qed
qed

text \<open>A write event stores the longest prefix that fits, and never leaves the storage.\<close>

lemma ble_rx_write_prefix:
  "ring_ok r \<Longrightarrow> \<exists>r'. codey_ble_rx_write vs r = Some r' \<and> ring_ok r' \<and> ring_room r' = ring_room r
     \<and> ring_contents r' = ring_contents r @ take (ring_room r - length (ring_contents r)) vs"
proof (induction vs arbitrary: r)
  case Nil
  then show ?case by simp
next
  case (Cons v vs)
  from ble_rx.push_law [OF Cons.prems, of v] obtain q where
    q: "codey_ble_rx_put v r = Some (fst (qspec_push (ring_room r) v (ring_contents r)), q)"
      "ring_ok q" "ring_contents q = snd (qspec_push (ring_room r) v (ring_contents r))"
      "ring_room q = ring_room r" by blast
  show ?case
  proof (cases "length (ring_contents r) < ring_room r")
    case True
    with q Cons.IH [OF q(2)] show ?thesis
      by (auto simp: qspec_push_def take_Cons' )
  next
    case False
    with q show ?thesis by (auto simp: qspec_push_def)
  qed
qed

text \<open>The bulk read delivers a prefix of the ring's contents into the output buffer.\<close>

lemma ble_get_data_loop_reads:
  "ring_ok r \<Longrightarrow> i + n \<le> length out \<Longrightarrow>
   \<exists>out' r'. ble_get_data_loop n i out r
       = Some (out', i + length (take n (ring_contents r)), r')
     \<and> ring_ok r' \<and> length out' = length out
     \<and> take (i + length (take n (ring_contents r))) out' = take i out @ take n (ring_contents r)
     \<and> ring_contents r' = drop n (ring_contents r)"
proof (induction n arbitrary: i out r)
  case 0
  then show ?case by simp
next
  case (Suc n)
  show ?case
  proof (cases "RING_BUF_IS_EMPTY r")
    case True
    with Suc.prems show ?thesis by (simp add: ring_empty_iff)
  next
    case False
    obtain r1 where r1: "codey_ring_buf_get r = Some (hd (ring_contents r), r1)" "ring_ok r1"
      "ring_contents r1 = tl (ring_contents r)"
      using ring_get_accepts [OF Suc.prems(1) False] by blast
    obtain c cs where cs: "ring_contents r = c # cs"
      using False Suc.prems(1) by (cases "ring_contents r") (auto simp: ring_empty_iff)
    have le: "Suc i + n \<le> length (out[i := c])" and i: "i < length out"
      using Suc.prems(2) by auto
    show ?thesis
      using Suc.IH [OF r1(2) le] r1 cs False i
      by (auto simp: mem_simps take_Suc_update)
  qed
qed

subsection \<open>The transmit side\<close>

text \<open>
  \<open>link i = (connected, accepted)\<close> is what the BLE stack says at the \<open>i\<close>-th block: the
  flag \<open>s_gatts_conned\<close> when it is tested and the outcome of \<open>esp_ble_gatts_send_indicate\<close>.
  The result is the return value and the blocks handed to the stack, in order.
\<close>

definition BLE_MAX_ONE_BLOCK_BYTES :: nat where
  "BLE_MAX_ONE_BLOCK_BYTES = 20"

definition ble_tx_block :: "(nat \<Rightarrow> bool \<times> bool) \<Rightarrow> u8 list \<Rightarrow> nat \<Rightarrow> nat \<Rightarrow> u8 list list
    \<Rightarrow> (bool \<times> u8 list list) option" where
  "ble_tx_block link data i n sent =
     (if fst (link i) then do {
        b \<leftarrow> slice data (BLE_MAX_ONE_BLOCK_BYTES * i) n;
        Some (snd (link i), sent @ [b]) }
      else Some (False, sent))"

fun ble_tx_loop :: "(nat \<Rightarrow> bool \<times> bool) \<Rightarrow> u8 list \<Rightarrow> nat \<Rightarrow> nat \<Rightarrow> u8 list list
    \<Rightarrow> (bool \<times> u8 list list) option" where
  "ble_tx_loop link data i 0 sent = Some (True, sent)"
| "ble_tx_loop link data i (Suc n) sent = do {
     (okay, sent') \<leftarrow> ble_tx_block link data i BLE_MAX_ONE_BLOCK_BYTES sent;
     if okay then ble_tx_loop link data (Suc i) n sent' else Some (False, sent') }"

definition codey_ble_dev_put_data :: "(nat \<Rightarrow> bool \<times> bool) \<Rightarrow> u8 list \<Rightarrow> u16
    \<Rightarrow> (int \<times> u8 list list) option" where
  "codey_ble_dev_put_data link data len = do {
     let blocks = unat len div BLE_MAX_ONE_BLOCK_BYTES;
     (okay, sent) \<leftarrow> ble_tx_loop link data 0 blocks [];
     if \<not> okay then Some (-1, sent)
     else do {
       (okay', sent') \<leftarrow> ble_tx_block link data blocks (unat len mod BLE_MAX_ONE_BLOCK_BYTES) sent;
       Some (if okay' then 0 else -1, sent') } }"

lemma ble_tx_loop_all:
  "20 * (i + n) \<le> length data \<Longrightarrow>
   \<exists>bs. ble_tx_loop (\<lambda>_. (True, True)) data i n sent = Some (True, sent @ bs) \<and> length bs = n
     \<and> concat bs = take (20 * n) (drop (20 * i) data) \<and> (\<forall>b\<in>set bs. length b = 20)"
proof (induction n arbitrary: i sent)
  case 0
  then show ?case by simp
next
  case (Suc n)
  let ?b = "take 20 (drop (20 * i) data)"
  have len: "20 * (Suc i + n) \<le> length data" using Suc.prems by simp
  obtain bs where bs: "ble_tx_loop (\<lambda>_. (True, True)) data (Suc i) n (sent @ [?b]) = Some (True, (sent @ [?b]) @ bs)"
    "length bs = n" "concat bs = take (20 * n) (drop (20 * Suc i) data)" "\<forall>b\<in>set bs. length b = 20"
    using Suc.IH [OF len, of "sent @ [?b]"] by blast
  have "?b @ take (20 * n) (drop (20 * Suc i) data) = take (20 * Suc n) (drop (20 * i) data)"
    by (simp add: take_add add.commute)
  with bs Suc.prems show ?case
    by (intro exI [of _ "?b # bs"]) (auto simp: ble_tx_block_def BLE_MAX_ONE_BLOCK_BYTES_def mem_simps)
qed

lemma ble_put_data_delivers:
  assumes "unat len \<le> length data"
  shows "\<exists>sent. codey_ble_dev_put_data (\<lambda>_. (True, True)) data len = Some (0, sent)
     \<and> concat sent = take (unat len) data \<and> (\<forall>b\<in>set sent. length b \<le> 20)
     \<and> length sent = unat len div 20 + 1"
proof -
  let ?n = "unat len div 20"
  let ?b = "take (unat len mod 20) (drop (20 * ?n) data)"
  have le: "20 * (0 + ?n) \<le> length data"
    using assms by (simp add: le_trans [OF times_div_less_eq_dividend])
  obtain bs where bs: "ble_tx_loop (\<lambda>_. (True, True)) data 0 ?n [] = Some (True, bs)" "length bs = ?n"
    "concat bs = take (20 * ?n) data" "\<forall>b\<in>set bs. length b = 20"
    using ble_tx_loop_all [OF le, of "[]"] by auto
  have fits: "20 * ?n + unat len mod 20 \<le> length data"
    using assms by simp
  have "codey_ble_dev_put_data (\<lambda>_. (True, True)) data len = Some (0, bs @ [?b])"
    using bs(1) fits
    by (simp add: codey_ble_dev_put_data_def ble_tx_block_def BLE_MAX_ONE_BLOCK_BYTES_def mem_simps)
  moreover have "concat (bs @ [?b]) = take (20 * ?n) data @ ?b"
    using bs(3) by simp
  moreover have "take (20 * ?n) data @ ?b = take (20 * ?n + unat len mod 20) data"
    by (rule take_add [symmetric])
  moreover have "\<forall>b\<in>set (bs @ [?b]). length b \<le> 20"
    using bs(4) by (auto simp: min_le_iff_disj)
  ultimately show ?thesis
    using bs(2) by (intro exI [of _ "bs @ [?b]"]) auto
qed

subsection \<open>Properties\<close>

text \<open>C20. The BLE receive ring is a first-in first-out queue of one cell less than its storage: any call
  sequence of guarded puts and gets answers and ends as the list specification does, and never
  leaves the storage.\<close>

theorem ble_ring_refines_queue:
  assumes "ring_ok r"
  shows "\<exists>r'. q_run codey_ble_rx_put codey_ble_dev_get_char ops r
      = Some (fst (qspec_run (length (rb_buf r) - 1) ops (ring_contents r)), r') \<and> ring_ok r'
    \<and> ring_contents r' = snd (qspec_run (length (rb_buf r) - 1) ops (ring_contents r))"
  using ble_rx.run_refines [OF assms, of ops] by (auto simp: ring_room_def)

theorem ble_ring_refines_queue_witness:
  "\<exists>r'. q_run codey_ble_rx_put codey_ble_dev_get_char [Push 1, Push 2, Push 3, Push 4, Pop] (RING_BUF_INIT [0, 0, 0, 0] (2 ^ 2))
      = Some (fst (qspec_run (length (rb_buf (RING_BUF_INIT [0, 0, 0, 0 :: u8] (2 ^ 2))) - 1)
          [Push 1, Push 2, Push 3, Push 4, Pop] (ring_contents (RING_BUF_INIT [0, 0, 0, 0] (2 ^ 2)))), r') \<and> ring_ok r'
    \<and> ring_contents r' = snd (qspec_run (length (rb_buf (RING_BUF_INIT [0, 0, 0, 0 :: u8] (2 ^ 2))) - 1)
          [Push 1, Push 2, Push 3, Push 4, Pop] (ring_contents (RING_BUF_INIT [0, 0, 0, 0] (2 ^ 2))))"
  by (rule ble_ring_refines_queue [OF ring_init_ok]) simp_all

text \<open>What a BLE write event stored, the communication task reads: when \<open>vs\<close> is written to an empty
  ring and then up to \<open>len\<close> bytes are read into a buffer that holds them, the buffer starts with
  the first \<open>len\<close> of the bytes that fitted, and their number is reported.\<close>

theorem ble_write_then_read:
  assumes "ring_ok r" and "ring_contents r = []" and "unat len \<le> length out"
  shows "\<exists>r1 out' len' r2. codey_ble_rx_write vs r = Some r1
    \<and> codey_ble_dev_get_data out len r1 = Some (out', len', r2)
    \<and> unat len' = length (take (unat len) (take (length (rb_buf r) - 1) vs))
    \<and> take (unat len') out' = take (unat len) (take (length (rb_buf r) - 1) vs)"
proof -
  obtain r1 where r1: "codey_ble_rx_write vs r = Some r1" "ring_ok r1"
    "ring_contents r1 = take (length (rb_buf r) - 1) vs"
    using ble_rx_write_prefix [OF assms(1), of vs] assms(2) by (auto simp: ring_room_def)
  let ?c = "take (unat len) (ring_contents r1)"
  obtain out' r2 where get: "ble_get_data_loop (unat len) 0 out r1 = Some (out', length ?c, r2)"
    "take (length ?c) out' = ?c"
    using ble_get_data_loop_reads [OF r1(2), of 0 "unat len" out] assms(3) by auto
  have "length ?c < 2 ^ 16" using unat_bound [of len] by simp
  then have "unat (of_nat (length ?c) :: u16) = length ?c"
    by (simp add: unat_of_nat take_bit_nat_eq_self)
  with r1 get show ?thesis by (simp add: codey_ble_dev_get_data_def)
qed

theorem ble_write_then_read_witness:
  "\<exists>r1 out' len' r2. codey_ble_rx_write [1, 2, 3, 4] (RING_BUF_INIT [0, 0, 0, 0] (2 ^ 2)) = Some r1
    \<and> codey_ble_dev_get_data [9, 9] 2 r1 = Some (out', len', r2)
    \<and> unat len' = length (take (unat (2 :: u16)) (take (length (rb_buf (RING_BUF_INIT [0, 0, 0, 0 :: u8] (2 ^ 2))) - 1) [1, 2, 3, 4 :: u8]))
    \<and> take (unat len') out' = take (unat (2 :: u16)) (take (length (rb_buf (RING_BUF_INIT [0, 0, 0, 0 :: u8] (2 ^ 2))) - 1) [1, 2, 3, 4])"
  by (rule ble_write_then_read [OF ring_init_ok])
     (simp_all add: ring_contents_def ring_list_def ring_items_def ring_count_def RING_BUF_INIT_def)

text \<open>On a connected link the transmit routine hands over exactly the bytes it was given, in order, in
  blocks of at most twenty, and reports success.\<close>

theorem ble_transmit_delivers:
  assumes "unat len \<le> length data"
  shows "\<exists>sent. codey_ble_dev_put_data (\<lambda>_. (True, True)) data len = Some (0, sent)
     \<and> concat sent = take (unat len) data \<and> list_all (\<lambda>b. length b \<le> 20) sent
     \<and> length sent = unat len div 20 + 1"
  using ble_put_data_delivers [OF assms] by (simp add: list_all_iff)

theorem ble_transmit_delivers_witness:
  "\<exists>sent. codey_ble_dev_put_data (\<lambda>_. (True, True)) (replicate 45 7) 43 = Some (0, sent)
     \<and> concat sent = take (unat (43 :: u16)) (replicate 45 7) \<and> list_all (\<lambda>b. length b \<le> 20) sent
     \<and> length sent = unat (43 :: u16) div 20 + 1"
  by (rule ble_transmit_delivers) simp

end
