(* ===== verification/FF55_Protocol.thy ===== *)
theory FF55_Protocol
  imports Codey_Utils
begin

text \<open>
  The FF 55 request protocol of \<open>sys/codey_ff_55_comm_protocol.c\<close>, with the strings it
  answers: the firmware version of \<open>sys/codey_firmware.c\<close> and the channel names of
  \<open>sys/codey_get_chn.c\<close>.  One byte automaton per channel; a request names a mode and a
  command and is answered in one frame.
\<close>

subsection \<open>Device strings\<close>

text \<open>
  \<open>g_firmware\<close> is the character array of \<open>codey_firmware.c\<close>; \<open>version_info\<close> is the
  version string of the neurons engine that \<open>neurons_engine_get_version_t\<close> copies out.
\<close>

record device =
  g_firmware :: "u8 list"
  version_info :: "u8 list"

definition g_firmware_init :: "u8 list" where
  "g_firmware_init = [0x32, 0x33, 0x2E, 0x30, 0x31, 0x2E, 0x30, 0x30, 0x31] @ replicate 23 0"

text \<open>\<open>strcpy\<close> into a buffer: the characters and the terminator must fit.\<close>

definition strcpy :: "u8 list \<Rightarrow> u8 list \<Rightarrow> u8 list option" where
  "strcpy dst src = do { n \<leftarrow> strlen src; blit dst 0 (take (n + 1) src) }"

text \<open>\<open>version_temp\<close> is the 32-byte local buffer, whatever it held before.\<close>

definition neurons_engine_get_version_t :: "u8 list \<Rightarrow> device \<Rightarrow> (u8 list \<times> u8) option" where
  "neurons_engine_get_version_t dataout dev = do {
     n \<leftarrow> strlen (version_info dev);
     dataout \<leftarrow> strcpy dataout (version_info dev);
     Some (dataout, of_nat n) }"

definition codey_get_firmware :: "u8 list \<Rightarrow> device \<Rightarrow> device option" where
  "codey_get_firmware version_temp dev = do {
     (version_temp, str_len) \<leftarrow> neurons_engine_get_version_t version_temp dev;
     if str_len < 20 then do {
       g \<leftarrow> wr (g_firmware dev) 9 0x2E;
       v \<leftarrow> slice version_temp 0 (unat str_len);
       g \<leftarrow> blit g 10 v;
       Some (dev\<lparr>g_firmware := g\<rparr>) }
     else Some dev }"

text \<open>The channel names; the third entry of the array is not initialised, a null pointer.\<close>

definition COMM_CHN_NUM :: nat where "COMM_CHN_NUM = 3"

definition s_channel_str :: "u8 list option list" where
  "s_channel_str = [Some [0x42, 0x4C, 0x45, 0], Some [0x55, 0x41, 0x52, 0x54, 0x30, 0], None]"

definition codey_get_chn_tag :: "nat \<Rightarrow> u8 list option option" where
  "codey_get_chn_tag chn = rd s_channel_str chn"

subsection \<open>State and tables\<close>

datatype fw_fsm_state_t = S_FW_HEAD_1 | S_FW_HEAD_2 | S_FW_LEN | S_FW_INDEX | S_FW_MODE | S_FW_CMD
  | S_FW_DATA | S_FW_END

record fw_fsm_t =
  fw_s :: fw_fsm_state_t
  fw_recv_len :: u8
  fw_len :: u8
  fw_index :: u8
  fw_mode :: u8
  fw_cmd :: u8
  fw_data :: "u8 list"

definition FW_MAX_DATA_LEN :: nat where "FW_MAX_DATA_LEN = 0xF0"

datatype fw_pf_t = codey_fw_read_firmware_version_pf | codey_fw_read_commu_chn_pf

record fw_cmd_elem_t =
  cmd_mode :: u8
  cmd_id :: u8
  exp_len :: u8
  cmd_exe :: "fw_pf_t option"

text \<open>\<open>FW_CMD_NUM\<close> is 3 and two entries are initialised: the third is all zero.\<close>

definition s_fw_cmd_tab :: "fw_cmd_elem_t list" where
  "s_fw_cmd_tab =
    [\<lparr>cmd_mode = 1, cmd_id = 0, exp_len = 0, cmd_exe = Some codey_fw_read_firmware_version_pf\<rparr>,
     \<lparr>cmd_mode = 1, cmd_id = 0xF0, exp_len = 0, cmd_exe = Some codey_fw_read_commu_chn_pf\<rparr>,
     \<lparr>cmd_mode = 0, cmd_id = 0, exp_len = 0, cmd_exe = None\<rparr>]"

definition codey_cmd_elem_mode_id :: "u8 \<Rightarrow> u8 \<Rightarrow> fw_cmd_elem_t option" where
  "codey_cmd_elem_mode_id mode cmd = find (\<lambda>e. cmd = cmd_id e \<and> mode = cmd_mode e) s_fw_cmd_tab"

text \<open>An output buffer with its length word.\<close>

record out_t =
  output_buf :: "u8 list"
  output_len :: u32

subsection \<open>Answers\<close>

definition codey_ff_55_comm_build_frame :: "u8 \<Rightarrow> u8 list \<Rightarrow> u8 \<Rightarrow> u8 list \<Rightarrow> (u8 list \<times> u8) option" where
  "codey_ff_55_comm_build_frame cmd_index in_data in_data_len out_buf = do {
     let pos = (0 :: u8);
     out_buf \<leftarrow> wr out_buf (unat pos) 0xFF; let pos = pos + 1;
     out_buf \<leftarrow> wr out_buf (unat pos) 0x55; let pos = pos + 1;
     out_buf \<leftarrow> wr out_buf (unat pos) cmd_index; let pos = pos + 1;
     src \<leftarrow> slice in_data 0 (unat in_data_len);
     out_buf \<leftarrow> blit out_buf (unat pos) src; let pos = pos + in_data_len;
     out_buf \<leftarrow> wr out_buf (unat pos) 0x0D; let pos = pos + 1;
     out_buf \<leftarrow> wr out_buf (unat pos) 0x0A; let pos = pos + 1;
     Some (out_buf, pos) }"

text \<open>The frame's length is stored through a \<open>uint8_t *\<close>: only the low byte of the word changes.\<close>

definition set_low_byte :: "u8 \<Rightarrow> u32 \<Rightarrow> u32" where
  "set_low_byte b w = (w AND 0xFFFFFF00) OR ucast b"

definition fw_answer_string :: "malloc \<Rightarrow> u8 list \<Rightarrow> u8 \<Rightarrow> out_t \<Rightarrow> out_t option" where
  "fw_answer_string malloc str index out = do {
     n \<leftarrow> strlen str;
     case malloc (n + 2) of
       None \<Rightarrow> Some (out\<lparr>output_len := 0\<rparr>)
     | Some buf \<Rightarrow> do {
         buf \<leftarrow> wr buf 0 4;
         buf \<leftarrow> wr buf 1 (of_nat n);
         src \<leftarrow> slice str 0 n;
         buf \<leftarrow> blit buf 2 src;
         (ob, pos) \<leftarrow> codey_ff_55_comm_build_frame index buf (of_nat (n + 2)) (output_buf out);
         Some (out\<lparr>output_buf := ob, output_len := set_low_byte pos (output_len out)\<rparr>) } }"

definition codey_fw_read_firmware_version ::
  "malloc \<Rightarrow> u8 list \<Rightarrow> u8 list \<Rightarrow> out_t \<Rightarrow> device \<Rightarrow> (out_t \<times> device) option" where
  "codey_fw_read_firmware_version malloc version_temp data out dev = do {
     dev \<leftarrow> codey_get_firmware version_temp dev;
     firmware_str_len \<leftarrow> strlen (g_firmware dev);
     if firmware_str_len < FW_MAX_DATA_LEN then do {
       index \<leftarrow> rd data 0;
       out \<leftarrow> fw_answer_string malloc (g_firmware dev) index out;
       Some (out, dev) }
     else Some (out\<lparr>output_len := 0\<rparr>, dev) }"

definition codey_fw_read_commu_chn ::
  "malloc \<Rightarrow> nat \<Rightarrow> u8 list \<Rightarrow> out_t \<Rightarrow> out_t option" where
  "codey_fw_read_commu_chn malloc chn_tag data out = do {
     index \<leftarrow> rd data 0;
     if unat index < COMM_CHN_NUM then do {
       channel_str \<leftarrow> codey_get_chn_tag chn_tag;
       channel_str \<leftarrow> channel_str;
       chanel_str_len \<leftarrow> strlen channel_str;
       if chanel_str_len < FW_MAX_DATA_LEN then fw_answer_string malloc channel_str index out
       else Some out }
     else Some (out\<lparr>output_len := 0\<rparr>) }"

definition fw_exe :: "malloc \<Rightarrow> u8 list \<Rightarrow> fw_pf_t \<Rightarrow> nat \<Rightarrow> u8 list \<Rightarrow> out_t \<Rightarrow> device
    \<Rightarrow> (out_t \<times> device) option" where
  "fw_exe malloc version_temp pf chn_tag data out dev = (case pf of
     codey_fw_read_firmware_version_pf \<Rightarrow>
       codey_fw_read_firmware_version malloc version_temp data out dev
   | codey_fw_read_commu_chn_pf \<Rightarrow>
       do { out \<leftarrow> codey_fw_read_commu_chn malloc chn_tag data out; Some (out, dev) })"

subsection \<open>The byte automaton\<close>

text \<open>\<open>p_fsm->data[p_fsm->recv_len++] = c\<close>.\<close>

definition fw_store :: "u8 \<Rightarrow> fw_fsm_t \<Rightarrow> fw_fsm_t option" where
  "fw_store c f = do {
     d \<leftarrow> wr (fw_data f) (unat (fw_recv_len f)) c;
     Some (f\<lparr>fw_data := d, fw_recv_len := fw_recv_len f + 1\<rparr>) }"

text \<open>\<open>if(p_cmd->cmd_exe) p_cmd->cmd_exe(...)\<close>\<close>

definition fw_run :: "malloc \<Rightarrow> u8 list \<Rightarrow> fw_cmd_elem_t \<Rightarrow> nat \<Rightarrow> u8 list \<Rightarrow> out_t \<Rightarrow> device
    \<Rightarrow> (out_t \<times> device) option" where
  "fw_run malloc version_temp p_cmd chn_tag data out dev = (case cmd_exe p_cmd of
     None \<Rightarrow> Some (out, dev)
   | Some pf \<Rightarrow> fw_exe malloc version_temp pf chn_tag data out dev)"

definition fw_fsm_char :: "malloc \<Rightarrow> u8 list \<Rightarrow> nat \<Rightarrow> u8 \<Rightarrow> fw_fsm_t \<Rightarrow> out_t \<Rightarrow> device
    \<Rightarrow> (fw_fsm_t \<times> out_t \<times> device) option" where
  "fw_fsm_char malloc version_temp chn_tag c f out dev = (case fw_s f of
     S_FW_HEAD_1 \<Rightarrow> Some (if c = 0xFF then f\<lparr>fw_s := S_FW_HEAD_2\<rparr> else f, out, dev)
   | S_FW_HEAD_2 \<Rightarrow> Some (if c = 0x55 then f\<lparr>fw_s := S_FW_LEN\<rparr> else f, out, dev)
   | S_FW_LEN \<Rightarrow> Some (f\<lparr>fw_len := c, fw_recv_len := 0, fw_s := S_FW_INDEX\<rparr>, out, dev)
   | S_FW_INDEX \<Rightarrow> do {
       f \<leftarrow> fw_store c (f\<lparr>fw_index := c\<rparr>);
       Some (f\<lparr>fw_s := S_FW_MODE\<rparr>, out, dev) }
   | S_FW_MODE \<Rightarrow> do {
       f \<leftarrow> fw_store c (f\<lparr>fw_mode := c\<rparr>);
       Some (f\<lparr>fw_s := S_FW_CMD\<rparr>, out, dev) }
   | S_FW_CMD \<Rightarrow> do {
       f \<leftarrow> fw_store c (f\<lparr>fw_cmd := c\<rparr>);
       case codey_cmd_elem_mode_id (fw_mode f) (fw_cmd f) of
         Some p_cmd \<Rightarrow>
           if exp_len p_cmd \<noteq> 0 then Some (f\<lparr>fw_s := S_FW_DATA\<rparr>, out, dev)
           else do {
             (out, dev) \<leftarrow> fw_run malloc version_temp p_cmd chn_tag (fw_data f) out dev;
             Some (f\<lparr>fw_s := S_FW_HEAD_1\<rparr>, out, dev) }
       | None \<Rightarrow> Some (f\<lparr>fw_s := S_FW_HEAD_1\<rparr>, out, dev) }
   | S_FW_DATA \<Rightarrow> do {
       f \<leftarrow> fw_store c f;
       if fw_recv_len f = fw_len f then do {
         (out, dev) \<leftarrow> (case codey_cmd_elem_mode_id (fw_mode f) (fw_cmd f) of
             Some p_cmd \<Rightarrow> fw_run malloc version_temp p_cmd chn_tag (fw_data f) out dev
           | None \<Rightarrow> Some (out, dev));
         Some (f\<lparr>fw_s := S_FW_HEAD_1\<rparr>, out, dev) }
       else Some (f, out, dev) }
   | S_FW_END \<Rightarrow> Some (f, out, dev))"

record fw_state =
  s_fw_fsm_tab :: "fw_fsm_t list"
  fw_dev :: device

definition codey_ff_55_protocol_pump_char :: "malloc \<Rightarrow> u8 list \<Rightarrow> nat \<Rightarrow> u8 \<Rightarrow> out_t option
    \<Rightarrow> fw_state \<Rightarrow> (out_t option \<times> fw_state) option" where
  "codey_ff_55_protocol_pump_char malloc version_temp chn_tag c out st = (case out of
     None \<Rightarrow> Some (None, st)
   | Some o0 \<Rightarrow>
       if chn_tag > COMM_CHN_NUM then Some (out, st)
       else do {
         let o1 = o0\<lparr>output_len := 0\<rparr>;
         f \<leftarrow> rd (s_fw_fsm_tab st) chn_tag;
         (f, o2, dev) \<leftarrow> fw_fsm_char malloc version_temp chn_tag c f o1 (fw_dev st);
         Some (Some o2, st\<lparr>s_fw_fsm_tab := (s_fw_fsm_tab st)[chn_tag := f], fw_dev := dev\<rparr>) })"

subsection \<open>Invariants\<close>

text \<open>
  The received length is what the state says, so the stores of the automaton stay inside the
  data buffer; the two last states are never entered (no table entry expects data).
\<close>

definition fw_fsm_ok :: "fw_fsm_t \<Rightarrow> bool" where
  "fw_fsm_ok f \<longleftrightarrow> length (fw_data f) = FW_MAX_DATA_LEN
     \<and> (case fw_s f of S_FW_INDEX \<Rightarrow> fw_recv_len f = 0 | S_FW_MODE \<Rightarrow> fw_recv_len f = 1
        | S_FW_CMD \<Rightarrow> fw_recv_len f = 2 | S_FW_DATA \<Rightarrow> False | S_FW_END \<Rightarrow> False | _ \<Rightarrow> True)"

definition device_ok :: "device \<Rightarrow> bool" where
  "device_ok dev \<longleftrightarrow> length (g_firmware dev) = 32 \<and> g_firmware dev ! 31 = 0
     \<and> (\<exists>n < 20. strlen (version_info dev) = Some n)"

lemma strlen_bound: "strlen s = Some n \<Longrightarrow> n < length s \<and> s ! n = 0"
  by (induction s arbitrary: n) (auto split: if_splits)

lemma strlen_exists: "i < length s \<Longrightarrow> s ! i = 0 \<Longrightarrow> \<exists>n\<le>i. strlen s = Some n"
proof (induction s arbitrary: i)
  case (Cons c s)
  then show ?case by (cases i) fastforce+
qed simp

lemma get_firmware_ok:
  assumes "device_ok dev" and "length version_temp = 32"
  shows "\<exists>dev'. codey_get_firmware version_temp dev = Some dev' \<and> device_ok dev'"
proof -
  obtain n where n: "n < 20" "strlen (version_info dev) = Some n"
    using assms(1) by (auto simp: device_ok_def)
  have len: "n < length (version_info dev)" using strlen_bound [OF n(2)] by simp
  have small: "(of_nat n :: u8) < 20" "unat (of_nat n :: u8) = n"
    using n(1) by (simp_all add: word_less_nat_alt unat_of_nat take_bit_nat_eq_self)
  let ?g = "take 10 ((g_firmware dev)[9 := 0x2E]) @ take n (version_info dev)
      @ drop (10 + n) ((g_firmware dev)[9 := 0x2E])"
  have g: "length ?g = 32" "?g ! 31 = 0"
    using assms(1) n(1) len by (simp_all add: device_ok_def nth_append min_def)
  have "codey_get_firmware version_temp dev = Some (dev\<lparr>g_firmware := ?g\<rparr>)"
    using n len small assms
    by (simp add: codey_get_firmware_def neurons_engine_get_version_t_def strcpy_def mem_simps
        device_ok_def min_def)
  then show ?thesis using g n by (simp add: device_ok_def)
qed

lemma build_frame_55:
  assumes "unat n \<le> length d" and "unat n + 5 \<le> length ob" and "unat n + 5 < 256"
  shows "\<exists>ob'. codey_ff_55_comm_build_frame idx d n ob = Some (ob', n + 5)
    \<and> filled ob' ([0xFF, 0x55, idx] @ take (unat n) d @ [0x0D, 0x0A]) (length ob)"
proof -
  have pos: "unat (n + 3) = unat n + 3" "unat (n + 4) = unat n + 4"
    using assms(3) by (simp_all add: unat_word_ariths)
  have "ob \<noteq> []" using assms(2) by auto
  with filled_wr [OF filled_empty, of 0 ob 255] obtain b1 where
    b1: "wr ob 0 0xFF = Some b1" "filled b1 [0xFF] (length ob)" by auto
  from filled_wr [OF b1(2), of 1 85] assms obtain b2 where
    b2: "wr b1 1 0x55 = Some b2" "filled b2 [0xFF, 0x55] (length ob)" by auto
  from filled_wr [OF b2(2), of 2 idx] assms obtain b3 where
    b3: "wr b2 2 idx = Some b3" "filled b3 [0xFF, 0x55, idx] (length ob)" by auto
  from filled_blit [OF b3(2), of 3 "take (unat n) d"] assms obtain b4 where
    b4: "blit b3 3 (take (unat n) d) = Some b4" "filled b4 ([0xFF, 0x55, idx] @ take (unat n) d) (length ob)"
    by auto
  from filled_wr [OF b4(2), of "unat n + 3" 13] assms obtain b5 where
    b5: "wr b4 (unat n + 3) 0x0D = Some b5"
    "filled b5 (([0xFF, 0x55, idx] @ take (unat n) d) @ [0x0D]) (length ob)" by auto
  from filled_wr [OF b5(2), of "unat n + 4" 10] assms obtain b6 where
    b6: "wr b5 (unat n + 4) 0x0A = Some b6"
    "filled b6 ((([0xFF, 0x55, idx] @ take (unat n) d) @ [0x0D]) @ [0x0A]) (length ob)" by auto
  show ?thesis
    using b1(1) b2(1) b3(1) b4(1) b5(1) b6 assms(1) pos
    by (simp add: codey_ff_55_comm_build_frame_def Let_def slice_in add.commute [of _ n])
qed

text \<open>The answer to a string request: length, text, terminated frame.\<close>

lemma answer_string:
  assumes "malloc_ok malloc" and "malloc (n + 2) = Some m" and "strlen str = Some n"
    and "n < 240" and "n + 7 \<le> length (output_buf out)" and "output_len out = 0"
  shows "\<exists>out'. fw_answer_string malloc str index out = Some out'
    \<and> output_len out' = of_nat (n + 7)
    \<and> filled (output_buf out') ([0xFF, 0x55, index, 4, of_nat n] @ take n str @ [0x0D, 0x0A])
        (length (output_buf out))"
proof -
  have m: "length m = n + 2" using assms(1,2) by (simp add: malloc_ok_def)
  have len: "n < length str" using strlen_bound [OF assms(3)] by simp
  have n8: "unat (of_nat (n + 2) :: u8) = n + 2" "unat (of_nat (n + 7) :: u8) = n + 7"
    using assms(4) by (simp_all only: unat_of_nat) (simp_all add: take_bit_nat_eq_self)
  let ?buf = "[4, of_nat n] @ take n str"
  have buf: "blit (m[0 := 4, 1 := of_nat n]) 2 (take n str) = Some ?buf"
    using m len by (cases m; cases "tl m") (auto simp: blit_def)
  obtain ob where ob: "codey_ff_55_comm_build_frame index ?buf (of_nat (n + 2)) (output_buf out)
      = Some (ob, of_nat (n + 2) + 5)"
    "filled ob ([0xFF, 0x55, index] @ take (unat (of_nat (n + 2) :: u8)) ?buf @ [0x0D, 0x0A])
       (length (output_buf out))"
    using build_frame_55 [of "of_nat (n + 2)" ?buf "output_buf out" index] n8 assms(4,5) len by auto
  have pos: "of_nat (n + 2) + 5 = (of_nat (n + 7) :: u8)" by simp
  have low: "set_low_byte (of_nat (n + 7)) 0 = of_nat (n + 7)"
    using n8(2) assms(4)
    by (simp add: set_low_byte_def word_eq_iff_unat unat_ucast_up unat_of_nat take_bit_nat_eq_self
        del: of_nat_add)
  have "unat (2 + of_nat n :: u8) = n + 2" using n8(1) by (simp add: add.commute)
  with ob(2) len have filled: "filled ob ([0xFF, 0x55, index, 4, of_nat n] @ take n str @ [0x0D, 0x0A])
      (length (output_buf out))" by (simp add: min_def)
  have wr0: "wr m 0 4 = Some (m[0 := 4])" "wr (m[0 := 4]) 1 (of_nat n) = Some (m[0 := 4, 1 := of_nat n])"
    using m by (simp_all add: wr_in)
  have src: "slice str 0 n = Some (take n str)" using len by (simp add: slice_in)
  show ?thesis
    unfolding fw_answer_string_def assms(3) assms(2) Option.bind.simps option.case wr0 src buf ob(1)
      prod.case pos
    using filled low assms(6) by simp
qed

lemma cmd_elem_exp_len: "codey_cmd_elem_mode_id m c = Some e \<Longrightarrow> exp_len e = 0"
  by (auto simp: codey_cmd_elem_mode_id_def s_fw_cmd_tab_def split: if_splits)

definition fw_state_ok :: "fw_state \<Rightarrow> bool" where
  "fw_state_ok st \<longleftrightarrow> length (s_fw_fsm_tab st) = COMM_CHN_NUM \<and> (\<forall>f\<in>set (s_fw_fsm_tab st). fw_fsm_ok f)
     \<and> device_ok (fw_dev st)"

text \<open>An allocator that may fail, but fills its blocks' length otherwise.\<close>

lemma answer_total:
  assumes "malloc_ok malloc" and "strlen str = Some n"
    and "n < 240" and "n + 7 \<le> length (output_buf out)" and "output_len out = 0"
  shows "\<exists>out'. fw_answer_string malloc str index out = Some out'
     \<and> length (output_buf out') = length (output_buf out)"
proof (cases "malloc (n + 2)")
  case None
  then show ?thesis using assms(2) by (simp add: fw_answer_string_def)
next
  case (Some m)
  from answer_string [OF assms(1) Some assms(2-5), of index] show ?thesis by (auto simp: filled_def)
qed

lemma fw_exe_total:
  assumes "malloc_ok malloc" and "length tmp = 32" and "device_ok dev" and "data \<noteq> []"
    and "chn < 2" and "64 \<le> length (output_buf out)" and "output_len out = 0"
  shows "\<exists>out' dev'. fw_exe malloc tmp pf chn data out dev = Some (out', dev') \<and> device_ok dev'
     \<and> length (output_buf out') = length (output_buf out)"
proof (cases pf)
  case codey_fw_read_firmware_version_pf
  obtain dev' where dev': "codey_get_firmware tmp dev = Some dev'" "device_ok dev'"
    using get_firmware_ok [OF assms(3,2)] by blast
  then obtain n where n: "strlen (g_firmware dev') = Some n" "n \<le> 31"
    using strlen_exists [of 31 "g_firmware dev'"] by (auto simp: device_ok_def)
  obtain out' where "fw_answer_string malloc (g_firmware dev') (data ! 0) out = Some out'"
    "length (output_buf out') = length (output_buf out)"
    using answer_total [OF assms(1) n(1), of out] n(2) assms(6,7) by fastforce
  with dev' n show ?thesis
    using assms(4)
    by (simp add: fw_exe_def codey_fw_read_firmware_version_pf codey_fw_read_firmware_version_def
        FW_MAX_DATA_LEN_def mem_simps)
next
  case codey_fw_read_commu_chn_pf
  have "\<exists>s n. s_channel_str ! chn = Some s \<and> strlen s = Some n \<and> n < 7"
    using assms(5) by (cases chn) (auto simp: s_channel_str_def)
  then obtain s n where s: "s_channel_str ! chn = Some s" "strlen s = Some n" "n < 7" by blast
  obtain out' where "fw_answer_string malloc s (data ! 0) out = Some out'"
    "length (output_buf out') = length (output_buf out)"
    using answer_total [OF assms(1) s(2), of out] s(3) assms(6,7) by fastforce
  with s assms(3-5) show ?thesis
    by (auto simp: fw_exe_def codey_fw_read_commu_chn_pf codey_fw_read_commu_chn_def
        codey_get_chn_tag_def rd_def s_channel_str_def FW_MAX_DATA_LEN_def)
qed

lemma fw_store_ok: "fw_recv_len f < 240 \<Longrightarrow> length (fw_data f) = 240 \<Longrightarrow>
    fw_store c f = Some (f\<lparr>fw_data := (fw_data f)[unat (fw_recv_len f) := c], fw_recv_len := fw_recv_len f + 1\<rparr>)"
  by (simp add: fw_store_def wr_in word_less_nat_alt)

lemma fw_fsm_char_total:
  assumes "malloc_ok malloc" and "length tmp = 32" and "device_ok dev" and "fw_fsm_ok f"
    and "chn < 2" and "64 \<le> length (output_buf out)" and "output_len out = 0"
  shows "\<exists>f' out' dev'. fw_fsm_char malloc tmp chn c f out dev = Some (f', out', dev')
     \<and> fw_fsm_ok f' \<and> device_ok dev' \<and> length (output_buf out') = length (output_buf out)"
proof (cases "fw_s f = S_FW_CMD")
  case False
  with assms show ?thesis
    by (cases "fw_s f")
       (auto simp: fw_fsm_char_def fw_fsm_ok_def FW_MAX_DATA_LEN_def fw_store_ok)
next
  case True
  let ?f = "f\<lparr>fw_cmd := c, fw_data := (fw_data f)[2 := c], fw_recv_len := 3\<rparr>"
  have ok: "length (fw_data f) = 240" "fw_recv_len f = 2"
    using True assms(4) by (auto simp: fw_fsm_ok_def FW_MAX_DATA_LEN_def)
  then have store: "fw_store c (f\<lparr>fw_cmd := c\<rparr>) = Some ?f" by (simp add: fw_store_ok)
  have end_ok: "fw_fsm_ok (?f\<lparr>fw_s := S_FW_HEAD_1\<rparr>)" using ok by (simp add: fw_fsm_ok_def FW_MAX_DATA_LEN_def)
  show ?thesis
  proof (cases "codey_cmd_elem_mode_id (fw_mode f) c")
    case None
    with True store end_ok assms(3) show ?thesis by (simp add: fw_fsm_char_def)
  next
    case (Some e)
    have "\<exists>out' dev'. fw_run malloc tmp e chn ((fw_data f)[2 := c]) out dev = Some (out', dev')
      \<and> device_ok dev' \<and> length (output_buf out') = length (output_buf out)"
    proof (cases "cmd_exe e")
      case None
      then show ?thesis using assms(3) by (simp add: fw_run_def)
    next
      case (Some pf)
      have "(fw_data f)[2 := c] \<noteq> []" using ok by auto
      from fw_exe_total [OF assms(1-3) this assms(5-7), of pf] Some show ?thesis
        by (simp add: fw_run_def)
    qed
    with True store end_ok Some cmd_elem_exp_len [OF Some] show ?thesis
      by (auto simp: fw_fsm_char_def)
  qed
qed

text \<open>
  On the two channels that have a name no byte sequence drives the automaton out of its buffer,
  whatever the output word was before.
\<close>

lemma pump_55_total:
  assumes "malloc_ok malloc" and "length tmp = 32" and "fw_state_ok st"
    and "chn < 2" and "64 \<le> length (output_buf out)"
  shows "\<exists>out' st'. codey_ff_55_protocol_pump_char malloc tmp chn c (Some out) st = Some (Some out', st')
     \<and> fw_state_ok st' \<and> length (output_buf out') = length (output_buf out)"
proof -
  have chn: "chn < length (s_fw_fsm_tab st)"
    using assms(3,4) by (simp add: fw_state_ok_def COMM_CHN_NUM_def)
  then have "fw_fsm_ok (s_fw_fsm_tab st ! chn)" "device_ok (fw_dev st)"
    using assms(3) by (auto simp: fw_state_ok_def)
  from fw_fsm_char_total [OF assms(1,2) this(2,1) assms(4), of "out\<lparr>output_len := 0\<rparr>" c] assms(5)
  obtain f' out' dev' where step:
    "fw_fsm_char malloc tmp chn c (s_fw_fsm_tab st ! chn) (out\<lparr>output_len := 0\<rparr>) (fw_dev st)
      = Some (f', out', dev')" "fw_fsm_ok f'" "device_ok dev'"
    "length (output_buf out') = length (output_buf out)" by auto
  have "fw_state_ok (st\<lparr>s_fw_fsm_tab := (s_fw_fsm_tab st)[chn := f'], fw_dev := dev'\<rparr>)"
    using assms(3) step(2,3) chn by (auto simp: fw_state_ok_def dest!: set_update_subset_insert [THEN subsetD])
  with step chn assms(4) show ?thesis
    by (simp add: codey_ff_55_protocol_pump_char_def rd_in COMM_CHN_NUM_def)
qed

subsection \<open>Properties\<close>

text \<open>C36. On the two channels that have a name, no byte, in no reachable state and with any allocator, drives
  the FF 55 automaton out of its data buffer or of the answer buffer; the states that wait for
  data are never entered.\<close>

theorem ff55_never_overruns:
  assumes "malloc_ok malloc" and "length tmp = 32" and "fw_state_ok st"
    and "chn < 2" and "64 \<le> length (output_buf out)"
  shows "\<exists>out' st'. codey_ff_55_protocol_pump_char malloc tmp chn c (Some out) st = Some (Some out', st')
     \<and> fw_state_ok st' \<and> length (output_buf out') = length (output_buf out)
     \<and> fw_s (s_fw_fsm_tab st' ! chn) \<notin> {S_FW_DATA, S_FW_END}"
proof -
  obtain out' st' where s: "codey_ff_55_protocol_pump_char malloc tmp chn c (Some out) st = Some (Some out', st')"
    "fw_state_ok st'" "length (output_buf out') = length (output_buf out)"
    using pump_55_total [OF assms] by blast
  have "fw_fsm_ok (s_fw_fsm_tab st' ! chn)"
    using s(2) assms(4) by (simp add: fw_state_ok_def COMM_CHN_NUM_def)
  then have "fw_s (s_fw_fsm_tab st' ! chn) \<notin> {S_FW_DATA, S_FW_END}" by (auto simp: fw_fsm_ok_def)
  with s show ?thesis by blast
qed

theorem ff55_never_overruns_witness:
  "\<exists>out' st'. codey_ff_55_protocol_pump_char (\<lambda>n. None) (replicate 32 0) 1 0xFF
        (Some \<lparr>output_buf = replicate 64 0, output_len = 0\<rparr>)
        \<lparr>s_fw_fsm_tab = replicate 3 \<lparr>fw_s = S_FW_HEAD_1, fw_recv_len = 0, fw_len = 0, fw_index = 0, fw_mode = 0,
           fw_cmd = 0, fw_data = replicate 240 0\<rparr>,
         fw_dev = \<lparr>g_firmware = g_firmware_init, version_info = [0x54, 0]\<rparr>\<rparr> = Some (Some out', st')
     \<and> fw_state_ok st' \<and> length (output_buf out') = length (output_buf \<lparr>output_buf = replicate 64 0, output_len = 0\<rparr>)
     \<and> fw_s (s_fw_fsm_tab st' ! 1) \<notin> {S_FW_DATA, S_FW_END}"
  by (rule ff55_never_overruns)
     (simp_all add: malloc_ok_def fw_state_ok_def fw_fsm_ok_def device_ok_def g_firmware_init_def
        COMM_CHN_NUM_def FW_MAX_DATA_LEN_def)

text \<open>A channel name request on channel \<open>chn\<close> with index below 3 is answered by one frame that carries
  the index and the name.\<close>

theorem ff55_channel_request:
  assumes "malloc_ok malloc" and "malloc (n + 2) = Some m" and "s_channel_str ! chn = Some str" and "chn < 2"
    and "strlen str = Some n" and "unat idx < 3" and "n + 7 \<le> length (output_buf out)" and "output_len out = 0"
  shows "\<exists>out'. codey_fw_read_commu_chn malloc chn (idx # rest) out = Some out'
    \<and> output_len out' = of_nat (n + 7)
    \<and> take (n + 7) (output_buf out') = [0xFF, 0x55, idx, 4, of_nat n] @ take n str @ [0x0D, 0x0A]"
proof -
  have "chn = 0 \<or> chn = 1" using assms(4) by auto
  then have n: "n < 240" "rd s_channel_str chn = Some (Some str)"
    using assms(3,5) by (auto simp: s_channel_str_def rd_def)
  obtain out' where out': "fw_answer_string malloc str idx out = Some out'" "output_len out' = of_nat (n + 7)"
    "filled (output_buf out') ([0xFF, 0x55, idx, 4, of_nat n] @ take n str @ [0x0D, 0x0A]) (length (output_buf out))"
    using answer_string [OF assms(1,2,5) n(1) assms(7,8), of idx] by blast
  have "codey_fw_read_commu_chn malloc chn (idx # rest) out = Some out'"
    using out'(1) n assms(5,6)
    by (simp add: codey_fw_read_commu_chn_def codey_get_chn_tag_def rd_in COMM_CHN_NUM_def FW_MAX_DATA_LEN_def)
  moreover have "n < length str" using strlen_bound [OF assms(5)] by simp
  then have "length ([0xFF, 0x55, idx, 4, of_nat n] @ take n str @ [0x0D, 0x0A]) = n + 7" by simp
  with out'(3) have "take (n + 7) (output_buf out') = [0xFF, 0x55, idx, 4, of_nat n] @ take n str @ [0x0D, 0x0A]"
    by (simp only: filled_def)
  ultimately show ?thesis using out'(2) by blast
qed

theorem ff55_channel_request_witness:
  "\<exists>out'. codey_fw_read_commu_chn (\<lambda>n. Some (replicate n 0)) 0 (2 # []) \<lparr>output_buf = replicate 12 0, output_len = 0\<rparr> = Some out'
    \<and> output_len out' = of_nat (3 + 7)
    \<and> take (3 + 7) (output_buf out') = [0xFF, 0x55, 2, 4, of_nat 3] @ take 3 [0x42, 0x4C, 0x45, 0] @ [0x0D, 0x0A]"
  by (rule ff55_channel_request) (simp_all add: malloc_ok_def s_channel_str_def)

text \<open>The third channel has no name: a channel name request that arrives there with an index below 3
  hands a null pointer to \<open>strlen\<close>.\<close>

theorem ff55_channel_request_null:
  assumes "unat idx < 3"
  shows "codey_fw_read_commu_chn malloc 2 (idx # rest) out = None"
  using assms by (simp add: codey_fw_read_commu_chn_def codey_get_chn_tag_def s_channel_str_def rd_def COMM_CHN_NUM_def)

theorem ff55_channel_request_null_witness:
  "codey_fw_read_commu_chn (\<lambda>n. None) 2 (1 # []) \<lparr>output_buf = [], output_len = 0\<rparr> = None"
  by (rule ff55_channel_request_null) simp

end
