(* ===== verification/Comm_Protocol.thy ===== *)
theory Comm_Protocol
  imports FF55_Protocol
begin

text \<open>
  The F3 frame protocol of \<open>sys/codey_comm_protocol.c\<close>: the byte automaton of a channel, the
  dispatch of a received payload to its protocol handler, and the frames sent back.  Every byte
  that produces no answer here also goes to the FF 55 automaton.
\<close>

subsection \<open>Frames\<close>

definition FRAME_HEADER :: u8 where "FRAME_HEADER = 0xF3"
definition FRAME_END :: u8 where "FRAME_END = 0xF4"
definition FRAME_DATA_MAX_LEN :: nat where "FRAME_DATA_MAX_LEN = 384"

lemmas frame_consts = FRAME_HEADER_def FRAME_END_def

text \<open>
  \<open>codey_comm_build_frame\<close>: the answer in \<open>inoutput_data\<close> is replaced by its frame, built in
  a block of the heap.
\<close>

definition codey_comm_build_frame :: "malloc \<Rightarrow> u8 \<Rightarrow> out_t \<Rightarrow> out_t option" where
  "codey_comm_build_frame malloc protocol_id out = (let len = output_len out in
     case malloc (unat (len + 7)) of
       None \<Rightarrow> Some (out\<lparr>output_len := 0\<rparr>)
     | Some tmp_buf \<Rightarrow> do {
         let pos = (0 :: u16);
         tmp_buf \<leftarrow> wr tmp_buf (unat pos) FRAME_HEADER; let pos = pos + 1;
         tmp_buf \<leftarrow> wr tmp_buf (unat pos)
           (FRAME_HEADER + ucast ((len + 1) AND 0xFF) + ucast (drop_bit 8 (len + 1) AND 0xFF));
         let pos = pos + 1;
         tmp_buf \<leftarrow> wr tmp_buf (unat pos) (ucast ((len + 1) AND 0xFF)); let pos = pos + 1;
         tmp_buf \<leftarrow> wr tmp_buf (unat pos) (ucast (drop_bit 8 (len + 1) AND 0xFF)); let pos = pos + 1;
         tmp_buf \<leftarrow> wr tmp_buf (unat pos) protocol_id; let pos = pos + 1;
         src \<leftarrow> slice (output_buf out) 0 (unat len);
         tmp_buf \<leftarrow> blit tmp_buf (unat pos) src;
         let pos = pos + ucast len;
         sum \<leftarrow> codey_calc_add_check_sum (output_buf out) len;
         tmp_buf \<leftarrow> wr tmp_buf (unat pos) sum;
         check \<leftarrow> rd tmp_buf (unat pos);
         tmp_buf \<leftarrow> wr tmp_buf (unat pos) (check + protocol_id); let pos = pos + 1;
         tmp_buf \<leftarrow> wr tmp_buf (unat pos) FRAME_END; let pos = pos + 1;
         frame \<leftarrow> slice tmp_buf 0 (unat pos);
         ob \<leftarrow> blit (output_buf out) 0 frame;
         Some (out\<lparr>output_buf := ob, output_len := ucast pos\<rparr>) })"

text \<open>The frame of a payload (the protocol id and its arguments), as a byte list.\<close>

definition comm_frame :: "u8 list \<Rightarrow> u8 list" where
  "comm_frame p = (let lo = of_nat (length p); hi = of_nat (length p div 256) in
     [FRAME_HEADER, FRAME_HEADER + lo + hi, lo, hi] @ p @ [sum_list p, FRAME_END])"

lemma len_bytes:
  assumes "n < 65536"
  shows "ucast ((of_nat n :: u32) AND 0xFF) = (of_nat n :: u8)"
    and "ucast (drop_bit 8 (of_nat n :: u32) AND 0xFF) = (of_nat (n div 256) :: u8)"
proof -
  have ff: "(0xFF :: u32) = mask 8" by (simp add: mask_eq_exp_minus_1)
  show "ucast ((of_nat n :: u32) AND 0xFF) = (of_nat n :: u8)"
    unfolding ff word_eq_iff_unat
    using assms by (simp only: unat_ucast_mod unat_and_mask unat_of_nat) (simp add: take_bit_eq_mod)
  have "unat (drop_bit 8 (of_nat n :: u32)) = n div 256"
    using assms by (simp add: drop_bit_eq_div unat_div unat_of_nat take_bit_nat_eq_self)
  then show "ucast (drop_bit 8 (of_nat n :: u32) AND 0xFF) = (of_nat (n div 256) :: u8)"
    unfolding ff word_eq_iff_unat
    using assms by (simp only: unat_ucast_mod unat_and_mask unat_of_nat) (simp add: take_bit_eq_mod)
qed

lemma comm_build_frame_ok:
  assumes "malloc_ok malloc" and "malloc (n + 7) = Some m" and "output_len out = of_nat n"
    and "n + 7 \<le> length (output_buf out)" and "n + 7 < 65536"
  shows "\<exists>out'. codey_comm_build_frame malloc pid out = Some out' \<and> output_len out' = of_nat (n + 7)
    \<and> filled (output_buf out') (comm_frame (pid # take n (output_buf out))) (length (output_buf out))"
proof -
  let ?d = "take n (output_buf out)"
  let ?p = "pid # ?d"
  let ?lo = "of_nat (n + 1) :: u8" and ?hi = "of_nat ((n + 1) div 256) :: u8"
  have m: "length m = n + 7" using assms(1,2) by (simp add: malloc_ok_def)
  have n32: "unat (of_nat n :: u32) = n" "unat (of_nat n + 7 :: u32) = n + 7"
    using assms(5) by (simp_all add: unat_word_ariths unat_of_nat take_bit_nat_eq_self)
  have pos: "unat (5 + of_nat n :: u16) = n + 5" "unat (6 + of_nat n :: u16) = n + 6"
    "unat (7 + of_nat n :: u16) = n + 7" "ucast (of_nat n :: u32) = (of_nat n :: u16)"
    using assms(5) by (simp_all add: unat_word_ariths unat_of_nat take_bit_nat_eq_self
        word_eq_iff_unat unat_ucast_mod)
  have bytes: "ucast ((of_nat n + 1 :: u32) AND 0xFF) = ?lo"
    "ucast (drop_bit 8 (of_nat n + 1 :: u32) AND 0xFF) = ?hi"
    using len_bytes [of "n + 1"] assms(5) by (simp_all add: add.commute)
  have "m \<noteq> []" using m by auto
  with filled_wr [OF filled_empty, of 0 m FRAME_HEADER] m obtain b0 where
    b0: "wr m 0 FRAME_HEADER = Some b0" "filled b0 [FRAME_HEADER] (n + 7)" by auto
  from filled_wr [OF b0(2), of 1 "FRAME_HEADER + ?lo + ?hi"] obtain b1 where
    b1: "wr b0 1 (FRAME_HEADER + ?lo + ?hi) = Some b1"
      "filled b1 [FRAME_HEADER, FRAME_HEADER + ?lo + ?hi] (n + 7)" by auto
  from filled_wr [OF b1(2), of 2 ?lo] obtain b2 where
    b2: "wr b1 2 ?lo = Some b2" "filled b2 [FRAME_HEADER, FRAME_HEADER + ?lo + ?hi, ?lo] (n + 7)" by auto
  from filled_wr [OF b2(2), of 3 ?hi] obtain b3 where
    b3: "wr b2 3 ?hi = Some b3"
      "filled b3 [FRAME_HEADER, FRAME_HEADER + ?lo + ?hi, ?lo, ?hi] (n + 7)" by auto
  let ?h = "[FRAME_HEADER, FRAME_HEADER + ?lo + ?hi, ?lo, ?hi]"
  from filled_wr [OF b3(2), of 4 pid] obtain b4 where
    b4: "wr b3 4 pid = Some b4" "filled b4 (?h @ [pid]) (n + 7)" by auto
  from filled_blit [OF b4(2), of 5 ?d] assms(4) obtain b5 where
    b5: "blit b4 5 ?d = Some b5" "filled b5 (?h @ ?p) (n + 7)" by (auto simp: min_def)
  from filled_wr [OF b5(2), of "n + 5" "sum_list ?d"] assms(4) obtain b6 where
    b6: "wr b5 (n + 5) (sum_list ?d) = Some b6" "filled b6 ((?h @ ?p) @ [sum_list ?d]) (n + 7)" by auto
  have r6: "rd b6 (n + 5) = Some (sum_list ?d)"
    using filled_nth [OF b6(2), of "n + 5"] assms(4) by (simp add: rd_def nth_append)
  from filled_wr_last [OF b6(2), of "n + 5" "sum_list ?d + pid"] assms(4) obtain b7 where
    b7: "wr b6 (n + 5) (sum_list ?d + pid) = Some b7" "filled b7 ((?h @ ?p) @ [sum_list ?d + pid]) (n + 7)"
    by auto
  from filled_wr [OF b7(2), of "n + 6" FRAME_END] assms(4) obtain b8 where
    b8: "wr b7 (n + 6) FRAME_END = Some b8"
      "filled b8 (((?h @ ?p) @ [sum_list ?d + pid]) @ [FRAME_END]) (n + 7)" by auto
  have frame: "((?h @ ?p) @ [sum_list ?d + pid]) @ [FRAME_END] = comm_frame ?p"
    using assms(4) by (simp add: comm_frame_def Let_def add.commute)
  have len: "length (comm_frame ?p) = n + 7" using assms(4) by (simp add: comm_frame_def Let_def)
  have "slice b8 0 (n + 7) = Some (comm_frame ?p)"
    using b8(2) len unfolding frame by (simp add: filled_def slice_def)
  moreover from filled_blit [OF filled_empty, of 0 "comm_frame ?p" "output_buf out"] assms(4) len
  obtain ob where "blit (output_buf out) 0 (comm_frame ?p) = Some ob"
    "filled ob (comm_frame ?p) (length (output_buf out))" by auto
  moreover have "slice (output_buf out) 0 n = Some ?d" using assms(4) by (simp add: slice_in)
  moreover have "codey_calc_add_check_sum (output_buf out) (of_nat n) = Some (sum_list ?d)"
    using assms(4) n32 by (simp add: calc_add_check_sum)
  moreover have "ucast (7 + of_nat n :: u16) = (of_nat (n + 7) :: u32)"
    using assms(5) pos(3) by (simp add: word_eq_iff_unat unat_ucast_up unat_of_nat take_bit_nat_eq_self
        unat_word_ariths)
  ultimately show ?thesis
    using assms(2,3) n32 pos bytes b0(1) b1(1) b2(1) b3(1) b4(1) b5(1) b6(1) b7(1) b8(1) r6
    by (simp add: codey_comm_build_frame_def Let_def)
qed

subsection \<open>The byte automaton\<close>

datatype fsm_state_t = S_HEAD | S_HEAD_CHECK | S_LEN1 | S_LEN2 | S_DATA | S_CHECK | S_END

record fsm_t =
  fsm_s :: fsm_state_t
  recv_head_check :: u8
  calc_head_check :: u8
  fsm_len :: u16
  fsm_recv_len :: u16
  fsm_check :: u8
  fsm_data :: "u8 list"

text \<open>
  The \<open>switch\<close> of \<open>codey_comm_protocol_pump_char\<close>, without the call of the handler: the
  second component says that the closing byte arrived and the payload is to be dispatched.
\<close>

definition comm_fsm_char :: "u8 \<Rightarrow> fsm_t \<Rightarrow> (fsm_t \<times> bool) option" where
  "comm_fsm_char c f = (case fsm_s f of
     S_HEAD \<Rightarrow> Some (if c = FRAME_HEADER
         then f\<lparr>fsm_len := 0, recv_head_check := 0, calc_head_check := FRAME_HEADER,
                fsm_recv_len := 0, fsm_check := 0, fsm_s := S_HEAD_CHECK\<rparr> else f, False)
   | S_HEAD_CHECK \<Rightarrow> Some (f\<lparr>recv_head_check := c, fsm_s := S_LEN1\<rparr>, False)
   | S_LEN1 \<Rightarrow> Some (f\<lparr>calc_head_check := calc_head_check f + c, fsm_len := fsm_len f + ucast c,
                fsm_s := S_LEN2\<rparr>, False)
   | S_LEN2 \<Rightarrow>
       (let f = f\<lparr>calc_head_check := calc_head_check f + c, fsm_len := fsm_len f + ucast c * 256\<rparr>
        in Some (if recv_head_check f = calc_head_check f then f\<lparr>fsm_s := S_DATA\<rparr>
                 else f\<lparr>fsm_s := S_HEAD\<rparr>, False))
   | S_DATA \<Rightarrow> do {
       d \<leftarrow> wr (fsm_data f) (unat (fsm_recv_len f)) c;
       let f = f\<lparr>fsm_check := fsm_check f + c, fsm_data := d, fsm_recv_len := fsm_recv_len f + 1\<rparr>;
       Some (if fsm_recv_len f = fsm_len f then f\<lparr>fsm_s := S_CHECK\<rparr> else f, False) }
   | S_CHECK \<Rightarrow> Some (if fsm_check f = c then f\<lparr>fsm_s := S_END\<rparr> else f\<lparr>fsm_s := S_HEAD\<rparr>, False)
   | S_END \<Rightarrow> Some (f\<lparr>fsm_s := S_HEAD\<rparr>, c = FRAME_END))"

text \<open>Feeding bytes, with the payloads that are dispatched on the way.\<close>

fun comm_fsm_run :: "u8 list \<Rightarrow> fsm_t \<Rightarrow> (fsm_t \<times> u8 list list) option" where
  "comm_fsm_run [] f = Some (f, [])"
| "comm_fsm_run (c # cs) f = do {
     (g, deliver) \<leftarrow> comm_fsm_char c f;
     (h, ps) \<leftarrow> comm_fsm_run cs g;
     Some (h, if deliver then take (unat (fsm_len f)) (fsm_data f) # ps else ps) }"

lemma comm_fsm_run_append:
  "comm_fsm_run (xs @ ys) f = do {
     (g, ps) \<leftarrow> comm_fsm_run xs f;
     (h, qs) \<leftarrow> comm_fsm_run ys g;
     Some (h, ps @ qs) }"
  by (induction xs arbitrary: f) (auto split: Option.bind_split)

text \<open>The body of a frame fills the data buffer and sums it up.\<close>

lemma fsm_body:
  assumes "fsm_s f = S_DATA" and "filled (fsm_data f) done N" and "unat (fsm_recv_len f) = length done"
    and "unat (fsm_len f) = length done + length p" and "length done + length p \<le> N" and "p \<noteq> []"
  shows "\<exists>g. comm_fsm_run p f = Some (g, []) \<and> fsm_s g = S_CHECK
     \<and> filled (fsm_data g) (done @ p) N \<and> fsm_len g = fsm_len f
     \<and> fsm_check g = fsm_check f + sum_list p"
  using assms
proof (induction p arbitrary: f "done")
  case Nil
  then show ?case by simp
next
  case (Cons c cs)
  from filled_wr [OF Cons.prems(2), of "length done" c] Cons.prems(5) obtain d where
    d: "wr (fsm_data f) (length done) c = Some d" "filled d (done @ [c]) N" by auto
  have "length done + 1 < 2 ^ LENGTH(16)"
    using Cons.prems(4) unat_bound [of "fsm_len f"] by simp
  then have r: "unat (fsm_recv_len f + 1) = length done + 1"
    using Cons.prems(3) by (simp add: unat_plus_1)
  let ?g = "f\<lparr>fsm_check := fsm_check f + c, fsm_data := d, fsm_recv_len := fsm_recv_len f + 1\<rparr>"
  show ?case
  proof (cases cs)
    case Nil
    then have "fsm_recv_len f + 1 = fsm_len f"
      using Cons.prems(4) r by (simp add: word_eq_iff_unat)
    with Nil d Cons.prems(1,3) show ?thesis by (simp add: comm_fsm_char_def Let_def)
  next
    case (Cons c' cs')
    with Cons.prems(4) r have "fsm_recv_len f + 1 \<noteq> fsm_len f"
      by (simp add: word_eq_iff_unat)
    with d Cons.prems(1,3) have step: "comm_fsm_char c f = Some (?g, False)"
      by (simp add: comm_fsm_char_def Let_def)
    obtain h where "comm_fsm_run cs ?g = Some (h, [])" "fsm_s h = S_CHECK"
      "filled (fsm_data h) ((done @ [c]) @ cs) N" "fsm_len h = fsm_len f"
      "fsm_check h = fsm_check f + c + sum_list cs"
      using Cons.IH [of ?g "done @ [c]"] Cons.prems d r Cons by auto
    with step show ?thesis by (simp add: add.assoc)
  qed
qed

text \<open>The header: five bytes lead from the idle state into the body with the announced length.\<close>

lemma fsm_header:
  assumes "fsm_s f = S_HEAD"
  shows "comm_fsm_run [FRAME_HEADER, hc, lo, hi] f = Some
    (f\<lparr>fsm_len := ucast lo + ucast hi * 256, recv_head_check := hc,
       calc_head_check := FRAME_HEADER + lo + hi, fsm_recv_len := 0, fsm_check := 0,
       fsm_s := (if hc = FRAME_HEADER + lo + hi then S_DATA else S_HEAD)\<rparr>, [])"
  using assms by (simp add: comm_fsm_char_def Let_def)

lemma len16: "n < 65536 \<Longrightarrow> ucast (of_nat n :: u8) + ucast (of_nat (n div 256) :: u8) * 256 = (of_nat n :: u16)"
  by (simp add: word_eq_iff_unat unat_word_ariths unat_ucast_up unat_of_nat take_bit_eq_mod)

definition comm_frame_open :: "u8 list \<Rightarrow> u8 list" where
  "comm_frame_open p = butlast (comm_frame p)"

lemma comm_frame_split: "comm_frame p = comm_frame_open p @ [FRAME_END]"
  by (simp add: comm_frame_open_def comm_frame_def Let_def butlast_append)

lemma comm_frame_received:
  assumes "fsm_s f = S_HEAD" and "length (fsm_data f) = FRAME_DATA_MAX_LEN"
    and "p \<noteq> []" and "length p \<le> FRAME_DATA_MAX_LEN"
  shows "\<exists>g. comm_fsm_run (comm_frame_open p) f = Some (g, []) \<and> fsm_s g = S_END
    \<and> filled (fsm_data g) p FRAME_DATA_MAX_LEN \<and> fsm_len g = of_nat (length p)"
proof -
  let ?lo = "of_nat (length p) :: u8" and ?hi = "of_nat (length p div 256) :: u8"
  let ?b = "f\<lparr>fsm_len := ucast ?lo + ucast ?hi * 256, recv_head_check := FRAME_HEADER + ?lo + ?hi,
       calc_head_check := FRAME_HEADER + ?lo + ?hi, fsm_recv_len := 0, fsm_check := 0, fsm_s := S_DATA\<rparr>"
  have head: "comm_fsm_run [FRAME_HEADER, FRAME_HEADER + ?lo + ?hi, ?lo, ?hi] f = Some (?b, [])"
    using fsm_header [OF assms(1), of "FRAME_HEADER + ?lo + ?hi" ?lo ?hi] by simp
  have n: "length p < 65536" using assms(4) by (simp add: FRAME_DATA_MAX_LEN_def)
  then have len: "fsm_len ?b = of_nat (length p)" "unat (fsm_len ?b) = length p"
    by (simp_all add: len16 unat_of_nat take_bit_nat_eq_self)
  obtain g where g: "comm_fsm_run p ?b = Some (g, [])" "fsm_s g = S_CHECK"
    "filled (fsm_data g) p FRAME_DATA_MAX_LEN" "fsm_len g = fsm_len ?b" "fsm_check g = sum_list p"
    using fsm_body [of ?b "[]" FRAME_DATA_MAX_LEN p] assms len
    by (auto simp: filled_def)
  have tail: "comm_fsm_run [sum_list p] g = Some (g\<lparr>fsm_s := S_END\<rparr>, [])"
    using g(2,5) by (simp add: comm_fsm_char_def)
  have frame: "comm_frame_open p = [FRAME_HEADER, FRAME_HEADER + ?lo + ?hi, ?lo, ?hi] @ p @ [sum_list p]"
    by (simp add: comm_frame_open_def comm_frame_def Let_def butlast_append)
  have "comm_fsm_run (comm_frame_open p) f = Some (g\<lparr>fsm_s := S_END\<rparr>, [])"
    unfolding frame comm_fsm_run_append head Option.bind.simps prod.case g(1) tail by simp
  then show ?thesis using g(3,4) len(1) by simp
qed

lemma comm_frame_delivered:
  assumes "fsm_s f = S_HEAD" and "length (fsm_data f) = FRAME_DATA_MAX_LEN"
    and "p \<noteq> []" and "length p \<le> FRAME_DATA_MAX_LEN"
  shows "\<exists>g. comm_fsm_run (comm_frame p) f = Some (g, [p]) \<and> fsm_s g = S_HEAD
    \<and> length (fsm_data g) = FRAME_DATA_MAX_LEN"
proof -
  obtain g where g: "comm_fsm_run (comm_frame_open p) f = Some (g, [])" "fsm_s g = S_END"
    "filled (fsm_data g) p FRAME_DATA_MAX_LEN" "fsm_len g = of_nat (length p)"
    using comm_frame_received [OF assms] by blast
  have "unat (of_nat (length p) :: u16) = length p"
    using assms(4) by (simp add: FRAME_DATA_MAX_LEN_def unat_of_nat take_bit_nat_eq_self)
  then have "comm_fsm_run [FRAME_END] g = Some (g\<lparr>fsm_s := S_HEAD\<rparr>, [p])"
    using g(2-4) by (simp add: comm_fsm_char_def filled_def)
  then show ?thesis
    using g(1,3) by (simp add: comm_frame_split comm_fsm_run_append filled_def)
qed

text \<open>A stream of frames with noise before each of them (no header byte in the noise).\<close>

definition comm_stream :: "(u8 list \<times> u8 list) list \<Rightarrow> u8 list" where
  "comm_stream xs = concat (map (\<lambda>(noise, p). noise @ comm_frame p) xs)"

lemma fsm_noise:
  "fsm_s f = S_HEAD \<Longrightarrow> FRAME_HEADER \<notin> set noise \<Longrightarrow> comm_fsm_run noise f = Some (f, [])"
  by (induction noise) (auto simp: comm_fsm_char_def)

lemma comm_stream_delivered:
  assumes "fsm_s f = S_HEAD" and "length (fsm_data f) = FRAME_DATA_MAX_LEN"
    and "\<forall>(noise, p) \<in> set xs. FRAME_HEADER \<notin> set noise \<and> p \<noteq> [] \<and> length p \<le> FRAME_DATA_MAX_LEN"
  shows "\<exists>g. comm_fsm_run (comm_stream xs) f = Some (g, map snd xs) \<and> fsm_s g = S_HEAD"
  using assms
proof (induction xs arbitrary: f)
  case Nil
  then show ?case by (simp add: comm_stream_def)
next
  case (Cons x xs)
  obtain noise p where x: "x = (noise, p)" by force
  with Cons.prems have ok: "FRAME_HEADER \<notin> set noise" "p \<noteq> []" "length p \<le> FRAME_DATA_MAX_LEN" by auto
  obtain g where g: "comm_fsm_run (comm_frame p) f = Some (g, [p])" "fsm_s g = S_HEAD"
    "length (fsm_data g) = FRAME_DATA_MAX_LEN"
    using comm_frame_delivered [OF Cons.prems(1,2) ok(2,3)] by blast
  obtain h where h: "comm_fsm_run (comm_stream xs) g = Some (h, map snd xs)" "fsm_s h = S_HEAD"
    using Cons.IH [OF g(2,3)] Cons.prems(3) by auto
  have "comm_stream (x # xs) = noise @ comm_frame p @ comm_stream xs"
    by (simp add: comm_stream_def x)
  then have "comm_fsm_run (comm_stream (x # xs)) f = Some (h, p # map snd xs)"
    by (simp only: comm_fsm_run_append fsm_noise [OF Cons.prems(1) ok(1)] g(1) h(1)
        Option.bind.simps prod.case append.simps)
  with h(2) x show ?case by simp
qed

text \<open>A frame whose head check or check sum is wrong delivers nothing.\<close>

lemma comm_bad_head:
  assumes "fsm_s f = S_HEAD" and "hc \<noteq> FRAME_HEADER + lo + hi"
  shows "\<exists>g. comm_fsm_run [FRAME_HEADER, hc, lo, hi] f = Some (g, []) \<and> fsm_s g = S_HEAD"
  using fsm_header [OF assms(1)] assms(2) by simp

subsection \<open>Safety of the automaton\<close>

text \<open>
  In the body fewer bytes have arrived than were announced, and no more were announced than
  the data buffer holds.
\<close>

definition fsm_inv :: "fsm_t \<Rightarrow> bool" where
  "fsm_inv f \<longleftrightarrow> length (fsm_data f) = FRAME_DATA_MAX_LEN
     \<and> (fsm_s f = S_DATA \<longrightarrow> unat (fsm_recv_len f) < unat (fsm_len f)
         \<and> unat (fsm_len f) \<le> FRAME_DATA_MAX_LEN)
     \<and> (fsm_s f \<in> {S_HEAD_CHECK, S_LEN1, S_LEN2} \<longrightarrow> fsm_recv_len f = 0)
     \<and> (fsm_s f \<in> {S_CHECK, S_END} \<longrightarrow> 1 \<le> unat (fsm_len f) \<and> unat (fsm_len f) \<le> FRAME_DATA_MAX_LEN)"

text \<open>
  A step from a good state is defined; it leaves the good states only by accepting a header
  whose announced length is zero or more than the buffer holds.
\<close>

lemma fsm_inv_step:
  assumes "fsm_inv f"
  shows "\<exists>g d. comm_fsm_char c f = Some (g, d) \<and> (fsm_inv g \<or> fsm_s f = S_LEN2 \<and> fsm_s g = S_DATA
     \<and> (fsm_len g = 0 \<or> FRAME_DATA_MAX_LEN < unat (fsm_len g)))"
proof (cases "fsm_s f")
  case S_DATA
  with assms have f: "unat (fsm_recv_len f) < length (fsm_data f)"
    "unat (fsm_recv_len f) < unat (fsm_len f)" "unat (fsm_len f) \<le> FRAME_DATA_MAX_LEN"
    "length (fsm_data f) = FRAME_DATA_MAX_LEN"
    by (auto simp: fsm_inv_def)
  have "unat (fsm_recv_len f) + 1 < 2 ^ LENGTH(16)"
    using f(2) unat_bound [of "fsm_len f"] by linarith
  then have "unat (fsm_recv_len f + 1) = unat (fsm_recv_len f) + 1" by (rule unat_plus_1)
  with S_DATA f show ?thesis
    by (auto simp: comm_fsm_char_def Let_def fsm_inv_def wr_in word_eq_iff_unat)
next
  case S_LEN2
  with assms show ?thesis
    by (auto simp: comm_fsm_char_def Let_def fsm_inv_def unat_gt_0 unat_eq_0)
qed (use assms in \<open>auto simp: comm_fsm_char_def fsm_inv_def\<close>)

text \<open>An announced length beyond the buffer makes the stores leave it, byte 385 at the latest.\<close>

lemma fsm_overrun:
  assumes "fsm_s f = S_DATA" and "length (fsm_data f) = FRAME_DATA_MAX_LEN"
    and "unat (fsm_recv_len f) = k" and "k \<le> FRAME_DATA_MAX_LEN"
    and "fsm_len f = 0 \<or> FRAME_DATA_MAX_LEN < unat (fsm_len f)"
    and "length cs = FRAME_DATA_MAX_LEN - k"
  shows "comm_fsm_run (cs @ [c]) f = None"
  using assms
proof (induction cs arbitrary: f k)
  case Nil
  then show ?case by (simp add: comm_fsm_char_def wr_def)
next
  case (Cons d cs)
  then have k: "k < FRAME_DATA_MAX_LEN" by auto
  then have "unat (fsm_recv_len f) + 1 < 2 ^ LENGTH(16)"
    using Cons.prems(3) by (simp add: FRAME_DATA_MAX_LEN_def)
  then have r: "unat (fsm_recv_len f + 1) = Suc k" using Cons.prems(3) by (simp add: unat_plus_1)
  have ne: "fsm_recv_len f + 1 \<noteq> fsm_len f"
    using Cons.prems(5) r k by (auto simp: word_eq_iff_unat)
  let ?g = "f\<lparr>fsm_check := fsm_check f + d, fsm_data := (fsm_data f)[k := d],
      fsm_recv_len := fsm_recv_len f + 1\<rparr>"
  have "comm_fsm_char d f = Some (?g, False)"
    using Cons.prems(1-3) k ne by (simp add: comm_fsm_char_def Let_def wr_in)
  moreover have "comm_fsm_run (cs @ [c]) ?g = None"
    by (rule Cons.IH [of ?g "Suc k"]) (use Cons.prems r k in auto)
  ultimately show ?case by simp
qed

subsection \<open>Dispatch and the pump\<close>

text \<open>
  A protocol handler: channel, the payload after its id (with the rest of the data buffer behind
  it), the payload's length, the output, and the state it works on, of which the device strings
  are the part the FF 55 protocol shares.
\<close>

type_synonym 'w pf_protocol_t =
  "nat \<Rightarrow> u8 list \<Rightarrow> u32 \<Rightarrow> out_t \<Rightarrow> device \<times> 'w \<Rightarrow> (out_t \<times> device \<times> 'w) option"

definition PROTOCOL_NUM :: nat where "PROTOCOL_NUM = 13"

text \<open>The outer option is the access to the table, the inner one its null entries.\<close>

definition codey_get_protocol_by_id ::
  "'w pf_protocol_t option list \<Rightarrow> u8 \<Rightarrow> 'w pf_protocol_t option option" where
  "codey_get_protocol_by_id s_protocol_tab i =
     (if unat i > PROTOCOL_NUM then Some None else rd s_protocol_tab (unat i))"

definition comm_dispatch :: "malloc \<Rightarrow> 'w pf_protocol_t option list \<Rightarrow> nat \<Rightarrow> fsm_t \<Rightarrow> out_t
    \<Rightarrow> device \<times> 'w \<Rightarrow> (out_t \<times> device \<times> 'w) option" where
  "comm_dispatch malloc s_protocol_tab chn_tag f out env = do {
     pid \<leftarrow> rd (fsm_data f) 0;
     pf \<leftarrow> codey_get_protocol_by_id s_protocol_tab pid;
     case pf of
       None \<Rightarrow> Some (out, env)
     | Some pf \<Rightarrow> do {
         (out, env) \<leftarrow> pf chn_tag (drop 1 (fsm_data f)) (ucast (fsm_len f) - 1) out env;
         if output_len out \<noteq> 0 then do {
           out \<leftarrow> codey_comm_build_frame malloc pid out;
           Some (out, env) }
         else Some (out, env) } }"

record 'w comm =
  s_fsm_tab :: "fsm_t list"
  comm_fw :: fw_state
  comm_world :: 'w

definition codey_comm_protocol_pump_char :: "malloc \<Rightarrow> u8 list \<Rightarrow> 'w pf_protocol_t option list
    \<Rightarrow> nat \<Rightarrow> u8 \<Rightarrow> out_t option \<Rightarrow> 'w comm \<Rightarrow> (out_t option \<times> 'w comm) option" where
  "codey_comm_protocol_pump_char malloc version_temp s_protocol_tab chn_tag c out st = (case out of
     None \<Rightarrow> Some (None, st)
   | Some o0 \<Rightarrow>
       if chn_tag > COMM_CHN_NUM then Some (out, st)
       else do {
         let o1 = o0\<lparr>output_len := 0\<rparr>;
         f \<leftarrow> rd (s_fsm_tab st) chn_tag;
         (g, deliver) \<leftarrow> comm_fsm_char c f;
         (o2, dev, w) \<leftarrow> (if deliver
            then comm_dispatch malloc s_protocol_tab chn_tag f o1 (fw_dev (comm_fw st), comm_world st)
            else Some (o1, fw_dev (comm_fw st), comm_world st));
         let st = st\<lparr>s_fsm_tab := (s_fsm_tab st)[chn_tag := g],
                     comm_fw := (comm_fw st)\<lparr>fw_dev := dev\<rparr>, comm_world := w\<rparr>;
         if output_len o2 = 0 then do {
           (o3, fw) \<leftarrow> codey_ff_55_protocol_pump_char malloc version_temp chn_tag c (Some o2) (comm_fw st);
           Some (o3, st\<lparr>comm_fw := fw\<rparr>) }
         else Some (Some o2, st) })"

text \<open>A byte string arriving on a channel; each byte gets the same output buffer.\<close>

fun comm_pump_all :: "malloc \<Rightarrow> u8 list \<Rightarrow> 'w pf_protocol_t option list \<Rightarrow> nat \<Rightarrow> u8 list \<Rightarrow> out_t
    \<Rightarrow> 'w comm \<Rightarrow> (out_t \<times> 'w comm) option" where
  "comm_pump_all malloc tmp tab chn [] out st = Some (out, st)"
| "comm_pump_all malloc tmp tab chn (c # cs) out st = do {
     (out', st) \<leftarrow> codey_comm_protocol_pump_char malloc tmp tab chn c (Some out) st;
     out' \<leftarrow> out';
     comm_pump_all malloc tmp tab chn cs out' st }"

lemma comm_pump_all_append:
  "comm_pump_all malloc tmp tab chn (xs @ ys) out st = do {
     (out, st) \<leftarrow> comm_pump_all malloc tmp tab chn xs out st;
     comm_pump_all malloc tmp tab chn ys out st }"
  by (induction xs arbitrary: out st) (auto split: Option.bind_split)

definition comm_ok :: "'w comm \<Rightarrow> bool" where
  "comm_ok st \<longleftrightarrow> length (s_fsm_tab st) = COMM_CHN_NUM \<and> fw_state_ok (comm_fw st)"

text \<open>A byte that delivers nothing advances both automata and leaves the handlers' state alone.\<close>

lemma pump_undelivered:
  assumes "malloc_ok malloc" and "length tmp = 32" and "comm_ok st" and "chn < 2"
    and "64 \<le> length (output_buf out)" and "comm_fsm_char c (s_fsm_tab st ! chn) = Some (g, False)"
  shows "\<exists>out' st'. codey_comm_protocol_pump_char malloc tmp tab chn c (Some out) st = Some (Some out', st')
    \<and> comm_ok st' \<and> s_fsm_tab st' ! chn = g \<and> comm_world st' = comm_world st
    \<and> length (output_buf out') = length (output_buf out)"
proof -
  have chn: "chn < length (s_fsm_tab st)" "\<not> chn > COMM_CHN_NUM"
    using assms(3,4) by (auto simp: comm_ok_def COMM_CHN_NUM_def)
  have fw: "fw_state_ok (comm_fw st)" using assms(3) by (simp add: comm_ok_def)
  obtain o3 fw' where "codey_ff_55_protocol_pump_char malloc tmp chn c (Some (out\<lparr>output_len := 0\<rparr>)) (comm_fw st)
      = Some (Some o3, fw')" "fw_state_ok fw'" "length (output_buf o3) = length (output_buf out)"
    using pump_55_total [OF assms(1,2) fw assms(4), of "out\<lparr>output_len := 0\<rparr>" c] assms(5) by auto
  then show ?thesis
    using assms(3,6) chn by (simp add: codey_comm_protocol_pump_char_def rd_in comm_ok_def)
qed

lemma pump_all_undelivered:
  assumes "malloc_ok malloc" and "length tmp = 32" and "comm_ok st" and "chn < 2"
    and "64 \<le> length (output_buf out)" and "comm_fsm_run cs (s_fsm_tab st ! chn) = Some (g, [])"
  shows "\<exists>out' st'. comm_pump_all malloc tmp tab chn cs out st = Some (out', st')
    \<and> comm_ok st' \<and> s_fsm_tab st' ! chn = g \<and> comm_world st' = comm_world st
    \<and> length (output_buf out') = length (output_buf out)"
  using assms(3,5,6)
proof (induction cs arbitrary: out st)
  case Nil
  then show ?case by simp
next
  case (Cons c cs)
  from Cons.prems(3) obtain h where h: "comm_fsm_char c (s_fsm_tab st ! chn) = Some (h, False)"
    "comm_fsm_run cs h = Some (g, [])"
    by (auto split: bind_splits if_splits)
  obtain out1 st1 where 1: "codey_comm_protocol_pump_char malloc tmp tab chn c (Some out) st = Some (Some out1, st1)"
    "comm_ok st1" "s_fsm_tab st1 ! chn = h" "comm_world st1 = comm_world st"
    "length (output_buf out1) = length (output_buf out)"
    using pump_undelivered [OF assms(1,2) Cons.prems(1) assms(4) Cons.prems(2) h(1)] by blast
  from Cons.IH [OF 1(2), of out1] 1 h(2) Cons.prems(2) show ?case by auto
qed

text \<open>
  A frame without its closing byte delivers nothing; what is left to do is the call of the handler
  of its protocol id, on the payload after the id.
\<close>

lemma comm_open_received:
  assumes "malloc_ok malloc" and "length tmp = 32" and "comm_ok st"
    and "chn < 2" and "64 \<le> length (output_buf out)"
    and "fsm_s (s_fsm_tab st ! chn) = S_HEAD" and "length (fsm_data (s_fsm_tab st ! chn)) = FRAME_DATA_MAX_LEN"
    and "length args < FRAME_DATA_MAX_LEN" and "unat pid < length tab" and "tab ! unat pid = Some pf"
    and "length tab = PROTOCOL_NUM"
  obtains o1 st1 g rest where "comm_pump_all malloc tmp tab chn (comm_frame_open (pid # args)) out st = Some (o1, st1)"
    and "comm_ok st1" and "s_fsm_tab st1 ! chn = g" and "comm_world st1 = comm_world st"
    and "length (output_buf o1) = length (output_buf out)"
    and "comm_fsm_char FRAME_END g = Some (g\<lparr>fsm_s := S_HEAD\<rparr>, True)"
    and "\<And>o2 env. comm_dispatch malloc tab chn g o2 env = do {
      (o3, env) \<leftarrow> pf chn (args @ rest) (of_nat (length args)) o2 env;
      if output_len o3 \<noteq> 0 then do { o4 \<leftarrow> codey_comm_build_frame malloc pid o3; Some (o4, env) } else Some (o3, env) }"
proof -
  let ?p = "pid # args"
  have le: "?p \<noteq> []" "length ?p \<le> FRAME_DATA_MAX_LEN" using assms(8) by simp_all
  obtain g where g: "comm_fsm_run (comm_frame_open ?p) (s_fsm_tab st ! chn) = Some (g, [])"
    "fsm_s g = S_END" "filled (fsm_data g) ?p FRAME_DATA_MAX_LEN" "fsm_len g = of_nat (length ?p)"
    using comm_frame_received [OF assms(6,7) le] by blast
  obtain o1 st1 where 1: "comm_pump_all malloc tmp tab chn (comm_frame_open ?p) out st = Some (o1, st1)"
    "comm_ok st1" "s_fsm_tab st1 ! chn = g" "comm_world st1 = comm_world st"
    "length (output_buf o1) = length (output_buf out)"
    using pump_all_undelivered [OF assms(1-5) g(1)] by blast
  have data: "rd (fsm_data g) 0 = Some pid" "\<exists>rest. drop 1 (fsm_data g) = args @ rest"
    using g(3) filled_nth [OF g(3), of 0] unfolding filled_def
    by (auto simp: rd_def) (metis append_take_drop_id drop_Suc_Cons drop0 append_Cons drop_Suc)
  then obtain rest where rest: "drop 1 (fsm_data g) = args @ rest" by blast
  have "unat (ucast (fsm_len g) :: u32) = Suc (length args)"
    using assms(8) g(4)
    by (simp add: FRAME_DATA_MAX_LEN_def unat_ucast_up unat_of_nat take_bit_nat_eq_self del: of_nat_Suc)
  moreover from this have "(ucast (fsm_len g) :: u32) \<noteq> 0" by auto
  ultimately have "unat (ucast (fsm_len g) - 1 :: u32) = length args"
    by (simp add: unat_minus_one)
  then have len: "ucast (fsm_len g) - 1 = (of_nat (length args) :: u32)"
    using assms(8) by (simp add: FRAME_DATA_MAX_LEN_def word_eq_iff_unat unat_of_nat take_bit_nat_eq_self)
  have pf: "codey_get_protocol_by_id tab pid = Some (Some pf)"
    using assms(9-11) by (simp add: codey_get_protocol_by_id_def rd_in)
  have "comm_dispatch malloc tab chn g o2 env = do {
      (o3, env) \<leftarrow> pf chn (args @ rest) (of_nat (length args)) o2 env;
      if output_len o3 \<noteq> 0 then do { o4 \<leftarrow> codey_comm_build_frame malloc pid o3; Some (o4, env) } else Some (o3, env) }"
    for o2 env
    using data(1) pf rest len by (simp add: comm_dispatch_def)
  moreover have "comm_fsm_char FRAME_END g = Some (g\<lparr>fsm_s := S_HEAD\<rparr>, True)"
    using g(2) by (simp add: comm_fsm_char_def)
  ultimately show thesis using that [OF 1] by blast
qed

text \<open>
  A request: all bytes but the last deliver nothing; the last one runs the handler once, on the
  payload after the id, and frames its answer.
\<close>

lemma comm_request:
  assumes "malloc_ok malloc" and "malloc (n + 7) = Some m" and "length tmp = 32" and "comm_ok st"
    and "chn < 2" and "64 \<le> length (output_buf out)"
    and "fsm_s (s_fsm_tab st ! chn) = S_HEAD" and "length (fsm_data (s_fsm_tab st ! chn)) = FRAME_DATA_MAX_LEN"
    and "length args < FRAME_DATA_MAX_LEN" and "unat pid < length tab" and "tab ! unat pid = Some pf"
    and "length tab = PROTOCOL_NUM"
    and "0 < n" and "n + 7 \<le> length (output_buf out)" and "n + 7 < 65536"
    and handler: "\<And>rest o1 dev. length (output_buf o1) = length (output_buf out) \<Longrightarrow> output_len o1 = 0 \<Longrightarrow>
      \<exists>o2 dev'. pf chn (args @ rest) (of_nat (length args)) o1 (dev, comm_world st) = Some (o2, dev', w)
        \<and> output_len o2 = of_nat n \<and> length (output_buf o2) = length (output_buf out)
        \<and> take n (output_buf o2) = reply"
  shows "\<exists>out' st'. comm_pump_all malloc tmp tab chn (comm_frame (pid # args)) out st = Some (out', st')
    \<and> comm_world st' = w \<and> fsm_s (s_fsm_tab st' ! chn) = S_HEAD
    \<and> output_len out' = of_nat (n + 7)
    \<and> filled (output_buf out') (comm_frame (pid # reply)) (length (output_buf out))"
proof -
  obtain o1 st1 g rest where 1: "comm_pump_all malloc tmp tab chn (comm_frame_open (pid # args)) out st = Some (o1, st1)"
    "comm_ok st1" "s_fsm_tab st1 ! chn = g" "comm_world st1 = comm_world st"
    "length (output_buf o1) = length (output_buf out)" "comm_fsm_char FRAME_END g = Some (g\<lparr>fsm_s := S_HEAD\<rparr>, True)"
    and call: "\<And>o2 env. comm_dispatch malloc tab chn g o2 env = do {
      (o3, env) \<leftarrow> pf chn (args @ rest) (of_nat (length args)) o2 env;
      if output_len o3 \<noteq> 0 then do { o4 \<leftarrow> codey_comm_build_frame malloc pid o3; Some (o4, env) } else Some (o3, env) }"
    by (rule comm_open_received [OF assms(1,3-12)]) (rule that)
  obtain o2 dev' where o2: "pf chn (args @ rest) (of_nat (length args)) (o1\<lparr>output_len := 0\<rparr>)
      (fw_dev (comm_fw st1), comm_world st) = Some (o2, dev', w)" "output_len o2 = of_nat n"
    "length (output_buf o2) = length (output_buf out)" "take n (output_buf o2) = reply"
    using handler [of "o1\<lparr>output_len := 0\<rparr>" rest "fw_dev (comm_fw st1)"] 1(5) by auto
  obtain o3 where o3: "codey_comm_build_frame malloc pid o2 = Some o3" "output_len o3 = of_nat (n + 7)"
    "filled (output_buf o3) (comm_frame (pid # reply)) (length (output_buf out))"
    using comm_build_frame_ok [OF assms(1,2) o2(2), of pid] o2(3,4) assms(14,15) by auto
  have nz: "(of_nat n :: u32) \<noteq> 0" "(of_nat (n + 7) :: u32) \<noteq> 0"
    using assms(13,15) by (auto simp: word_eq_iff_unat unat_of_nat take_bit_nat_eq_self simp del: of_nat_add)
  have chn: "chn < length (s_fsm_tab st1)" "\<not> chn > COMM_CHN_NUM"
    using 1(2) assms(5) by (auto simp: comm_ok_def COMM_CHN_NUM_def)
  have dispatch: "comm_dispatch malloc tab chn g (o1\<lparr>output_len := 0\<rparr>) (fw_dev (comm_fw st1), comm_world st)
      = Some (o3, dev', w)"
    using o2 nz(1) o3(1) by (simp add: call)
  have "\<exists>st'. codey_comm_protocol_pump_char malloc tmp tab chn FRAME_END (Some o1) st1 = Some (Some o3, st')
    \<and> comm_world st' = w \<and> s_fsm_tab st' ! chn = g\<lparr>fsm_s := S_HEAD\<rparr>"
    using chn 1(3,4,6) dispatch o3(2) nz(2)
    by (simp add: codey_comm_protocol_pump_char_def rd_in del: of_nat_add)
  with 1(1) o3(2,3) 1(6) show ?thesis
    by (auto simp: comm_frame_split comm_pump_all_append)
qed

text \<open>A notice: a frame whose handler gives no answer; its closing byte goes to the FF 55 automaton as well.\<close>

lemma comm_notice:
  assumes "malloc_ok malloc" and "length tmp = 32" and "comm_ok st"
    and "chn < 2" and "64 \<le> length (output_buf out)"
    and "fsm_s (s_fsm_tab st ! chn) = S_HEAD" and "length (fsm_data (s_fsm_tab st ! chn)) = FRAME_DATA_MAX_LEN"
    and "length args < FRAME_DATA_MAX_LEN" and "unat pid < length tab" and "tab ! unat pid = Some pf"
    and "length tab = PROTOCOL_NUM"
    and handler: "\<And>rest o1 dev. output_len o1 = 0 \<Longrightarrow>
      pf chn (args @ rest) (of_nat (length args)) o1 (dev, comm_world st) = Some (o1, dev, w)"
  shows "\<exists>out' st'. comm_pump_all malloc tmp tab chn (comm_frame (pid # args)) out st = Some (out', st')
    \<and> comm_world st' = w \<and> comm_ok st' \<and> fsm_s (s_fsm_tab st' ! chn) = S_HEAD
    \<and> length (output_buf out') = length (output_buf out)"
proof -
  obtain o1 st1 g rest where 1: "comm_pump_all malloc tmp tab chn (comm_frame_open (pid # args)) out st = Some (o1, st1)"
    "comm_ok st1" "s_fsm_tab st1 ! chn = g" "comm_world st1 = comm_world st"
    "length (output_buf o1) = length (output_buf out)" "comm_fsm_char FRAME_END g = Some (g\<lparr>fsm_s := S_HEAD\<rparr>, True)"
    and call: "\<And>o2 env. comm_dispatch malloc tab chn g o2 env = do {
      (o3, env) \<leftarrow> pf chn (args @ rest) (of_nat (length args)) o2 env;
      if output_len o3 \<noteq> 0 then do { o4 \<leftarrow> codey_comm_build_frame malloc pid o3; Some (o4, env) } else Some (o3, env) }"
    by (rule comm_open_received [OF assms(1-11)]) (rule that)
  have chn: "chn < length (s_fsm_tab st1)" "\<not> chn > COMM_CHN_NUM"
    using 1(2) assms(4) by (auto simp: comm_ok_def COMM_CHN_NUM_def)
  let ?o = "o1\<lparr>output_len := 0\<rparr>"
  have dispatch: "comm_dispatch malloc tab chn g ?o (fw_dev (comm_fw st1), comm_world st)
      = Some (?o, fw_dev (comm_fw st1), w)"
    using handler [of ?o rest "fw_dev (comm_fw st1)"] by (simp add: call)
  have fw: "fw_state_ok (comm_fw st1)" using 1(2) by (simp add: comm_ok_def)
  obtain o3 fw' where 55: "codey_ff_55_protocol_pump_char malloc tmp chn FRAME_END (Some ?o) (comm_fw st1) = Some (Some o3, fw')"
      "fw_state_ok fw'" "length (output_buf o3) = length (output_buf ?o)"
    using pump_55_total [OF assms(1,2) fw assms(4), of ?o FRAME_END] assms(5) 1(5) by auto
  have "\<exists>st'. codey_comm_protocol_pump_char malloc tmp tab chn FRAME_END (Some o1) st1 = Some (Some o3, st')
    \<and> comm_world st' = w \<and> comm_ok st' \<and> s_fsm_tab st' ! chn = g\<lparr>fsm_s := S_HEAD\<rparr>"
    using chn 1(2-4,6) dispatch 55 by (simp add: codey_comm_protocol_pump_char_def rd_in comm_ok_def)
  with 1(1,5) 55(3) show ?thesis
    by (auto simp: comm_frame_split comm_pump_all_append)
qed

text \<open>The two index tests that let one value too many through.\<close>

lemma protocol_id_13: "length tab = PROTOCOL_NUM \<Longrightarrow> codey_get_protocol_by_id tab 13 = None"
  by (simp add: codey_get_protocol_by_id_def PROTOCOL_NUM_def rd_def)

lemma channel_3: "length (s_fsm_tab st) = COMM_CHN_NUM \<Longrightarrow>
    codey_comm_protocol_pump_char malloc tmp tab 3 c (Some out) st = None"
  by (simp add: codey_comm_protocol_pump_char_def COMM_CHN_NUM_def rd_def)

text \<open>A frame whose check sum is wrong delivers nothing, whatever closes it.\<close>

lemma comm_bad_sum:
  assumes "fsm_s f = S_HEAD" and "length (fsm_data f) = FRAME_DATA_MAX_LEN"
    and "p \<noteq> []" and "length p \<le> FRAME_DATA_MAX_LEN" and "chk \<noteq> sum_list p"
  shows "\<exists>g. comm_fsm_run (butlast (comm_frame_open p) @ [chk]) f = Some (g, []) \<and> fsm_s g = S_HEAD"
proof -
  let ?lo = "of_nat (length p) :: u8" and ?hi = "of_nat (length p div 256) :: u8"
  let ?b = "f\<lparr>fsm_len := ucast ?lo + ucast ?hi * 256, recv_head_check := FRAME_HEADER + ?lo + ?hi,
       calc_head_check := FRAME_HEADER + ?lo + ?hi, fsm_recv_len := 0, fsm_check := 0, fsm_s := S_DATA\<rparr>"
  have head: "comm_fsm_run [FRAME_HEADER, FRAME_HEADER + ?lo + ?hi, ?lo, ?hi] f = Some (?b, [])"
    using fsm_header [OF assms(1), of "FRAME_HEADER + ?lo + ?hi" ?lo ?hi] by simp
  have "length p < 65536" using assms(4) by (simp add: FRAME_DATA_MAX_LEN_def)
  then have len: "unat (fsm_len ?b) = length p" by (simp add: len16 unat_of_nat take_bit_nat_eq_self)
  obtain g where g: "comm_fsm_run p ?b = Some (g, [])" "fsm_s g = S_CHECK" "fsm_check g = sum_list p"
    using fsm_body [of ?b "[]" FRAME_DATA_MAX_LEN p] assms len by (auto simp: filled_def)
  have tail: "comm_fsm_run [chk] g = Some (g\<lparr>fsm_s := S_HEAD\<rparr>, [])"
    using g(2,3) assms(5) by (simp add: comm_fsm_char_def)
  have body: "butlast (comm_frame_open p) @ [chk]
      = [FRAME_HEADER, FRAME_HEADER + ?lo + ?hi, ?lo, ?hi] @ p @ [chk]"
    by (simp add: comm_frame_open_def comm_frame_def Let_def butlast_append)
  have "comm_fsm_run (butlast (comm_frame_open p) @ [chk]) f = Some (g\<lparr>fsm_s := S_HEAD\<rparr>, [])"
    unfolding body comm_fsm_run_append head Option.bind.simps prod.case g(1) tail by simp
  then show ?thesis by simp
qed

subsection \<open>Properties\<close>

text \<open>The state of a channel at start-up, and one after a whole frame.\<close>

definition fsm_init :: fsm_t where
  "fsm_init = \<lparr>fsm_s = S_HEAD, recv_head_check = 0, calc_head_check = 0, fsm_len = 0,
     fsm_recv_len = 0, fsm_check = 0, fsm_data = replicate 384 0\<rparr>"

text \<open>C19. A stream of frames, each with up to 384 payload bytes and any noise without a header
  byte in front, is decoded into exactly its payloads, in order, and the automaton is back at the
  start of a frame.\<close>

theorem frames_are_decoded:
  assumes "fsm_s f = S_HEAD" and "length (fsm_data f) = FRAME_DATA_MAX_LEN"
    and "\<forall>(noise, p) \<in> set xs. FRAME_HEADER \<notin> set noise \<and> p \<noteq> [] \<and> length p \<le> FRAME_DATA_MAX_LEN"
  shows "\<exists>g. comm_fsm_run (concat (map (\<lambda>(noise, p). noise @ comm_frame p) xs)) f = Some (g, map snd xs)
    \<and> fsm_s g = S_HEAD"
  using comm_stream_delivered [OF assms] by (simp add: comm_stream_def)

theorem frames_are_decoded_witness:
  "\<exists>g. comm_fsm_run (concat (map (\<lambda>(noise, p). noise @ comm_frame p) [([7, 8], [5, 1]), ([], [8, 0, 255])])) fsm_init
      = Some (g, map snd [([7, 8], [5, 1]), ([] :: u8 list, [8, 0, 255])]) \<and> fsm_s g = S_HEAD"
  by (rule frames_are_decoded) (simp_all add: fsm_init_def FRAME_DATA_MAX_LEN_def FRAME_HEADER_def)

text \<open>What the device frames, its own automaton (and that of a peer) reads back: the frame that
  \<open>codey_comm_build_frame\<close> writes over an answer of \<open>n\<close> bytes is decoded to the protocol
  id and those bytes.\<close>

theorem built_frame_is_decoded:
  assumes "malloc_ok malloc" and "malloc (n + 7) = Some m" and "output_len out = of_nat n"
    and "n + 7 \<le> length (output_buf out)" and "n < FRAME_DATA_MAX_LEN"
    and "fsm_s f = S_HEAD" and "length (fsm_data f) = FRAME_DATA_MAX_LEN"
  shows "\<exists>out' g. codey_comm_build_frame malloc pid out = Some out'
    \<and> comm_fsm_run (take (unat (output_len out')) (output_buf out')) f
      = Some (g, [pid # take n (output_buf out)]) \<and> fsm_s g = S_HEAD"
proof -
  let ?p = "pid # take n (output_buf out)"
  have p: "?p \<noteq> []" "length ?p \<le> FRAME_DATA_MAX_LEN" using assms(5) by simp_all
  have n: "n + 7 < 65536" using assms(5) by (simp add: FRAME_DATA_MAX_LEN_def)
  obtain out' where out': "codey_comm_build_frame malloc pid out = Some out'"
    "output_len out' = of_nat (n + 7)" "filled (output_buf out') (comm_frame ?p) (length (output_buf out))"
    using comm_build_frame_ok [OF assms(1-4) n] by blast
  have "unat (output_len out') = length (comm_frame ?p)"
    unfolding out'(2) using n assms(4)
    by (simp only: unat_of_nat) (simp add: take_bit_nat_eq_self comm_frame_def Let_def)
  with out'(3) have "take (unat (output_len out')) (output_buf out') = comm_frame ?p"
    by (simp add: filled_def)
  with out'(1) comm_frame_delivered [OF assms(6,7) p] show ?thesis by auto
qed

theorem built_frame_is_decoded_witness:
  "\<exists>out' g. codey_comm_build_frame (\<lambda>n. Some (replicate n 9)) 5
        \<lparr>output_buf = [1, 2, 3] @ replicate 20 0, output_len = 3\<rparr> = Some out'
    \<and> comm_fsm_run (take (unat (output_len out')) (output_buf out')) fsm_init
      = Some (g, [5 # take 3 (output_buf \<lparr>output_buf = [1, 2, 3] @ replicate 20 0, output_len = 3\<rparr>)])
    \<and> fsm_s g = S_HEAD"
  by (rule built_frame_is_decoded [where m = "replicate 10 9"])
     (simp_all add: malloc_ok_def fsm_init_def FRAME_DATA_MAX_LEN_def)

text \<open>C1. A request on the BLE or UART0 channel is answered once: when the frame of a protocol id and its
  arguments arrives and the handler of that id answers with \<open>n\<close> bytes, the handler ran on
  exactly these arguments, the output holds the frame of the answer, and the channel waits for
  the next frame; whatever the FF 55 automaton makes of the same bytes does not interfere.\<close>

theorem request_is_answered:
  assumes "malloc_ok malloc" and "malloc (n + 7) = Some m" and "length tmp = 32" and "comm_ok st"
    and "chn < 2" and "64 \<le> length (output_buf out)"
    and "fsm_s (s_fsm_tab st ! chn) = S_HEAD" and "length (fsm_data (s_fsm_tab st ! chn)) = FRAME_DATA_MAX_LEN"
    and "length args < FRAME_DATA_MAX_LEN" and "unat pid < length tab" and "tab ! unat pid = Some pf"
    and "length tab = PROTOCOL_NUM"
    and "0 < n" and "n + 7 \<le> length (output_buf out)" and "n + 7 < 65536"
    and "\<And>rest o1 dev. length (output_buf o1) = length (output_buf out) \<Longrightarrow> output_len o1 = 0 \<Longrightarrow>
      \<exists>o2 dev'. pf chn (args @ rest) (of_nat (length args)) o1 (dev, comm_world st) = Some (o2, dev', w)
        \<and> output_len o2 = of_nat n \<and> length (output_buf o2) = length (output_buf out)
        \<and> take n (output_buf o2) = reply"
  shows "\<exists>out' st'. comm_pump_all malloc tmp tab chn (comm_frame (pid # args)) out st = Some (out', st')
    \<and> comm_world st' = w \<and> fsm_s (s_fsm_tab st' ! chn) = S_HEAD
    \<and> output_len out' = of_nat (n + 7)
    \<and> take (n + 7) (output_buf out') = comm_frame (pid # reply)"
proof -
  obtain out' st' where o: "comm_pump_all malloc tmp tab chn (comm_frame (pid # args)) out st = Some (out', st')"
    "comm_world st' = w" "fsm_s (s_fsm_tab st' ! chn) = S_HEAD" "output_len out' = of_nat (n + 7)"
    "filled (output_buf out') (comm_frame (pid # reply)) (length (output_buf out))"
    using comm_request [OF assms] by blast
  have "length reply = n"
    using assms(16) [of "out\<lparr>output_len := 0\<rparr>" "[]" "fw_dev (comm_fw st)"] assms(14) by auto
  then have "length (comm_frame (pid # reply)) = n + 7" by (simp add: comm_frame_def Let_def)
  with o show ?thesis by (auto simp: filled_def)
qed

text \<open>The start-up state, with the handlers' state given.\<close>

definition comm_init :: "device \<Rightarrow> 'w \<Rightarrow> 'w comm" where
  "comm_init dev w = \<lparr>s_fsm_tab = replicate 3 fsm_init,
     comm_fw = \<lparr>s_fw_fsm_tab = replicate 3 \<lparr>fw_s = S_FW_HEAD_1, fw_recv_len = 0, fw_len = 0,
       fw_index = 0, fw_mode = 0, fw_cmd = 0, fw_data = replicate 240 0\<rparr>, fw_dev = dev\<rparr>,
     comm_world = w\<rparr>"

lemma comm_init_ok: "device_ok dev \<Longrightarrow> comm_ok (comm_init dev w)"
  by (simp add: comm_ok_def comm_init_def fw_state_ok_def fw_fsm_ok_def COMM_CHN_NUM_def FW_MAX_DATA_LEN_def)

definition device_init :: device where
  "device_init = \<lparr>g_firmware = g_firmware_init, version_info = [0x54, 0x31, 0x31, 0]\<rparr>"

lemma device_init_ok: "device_ok device_init"
  by (simp add: device_ok_def device_init_def g_firmware_init_def)

theorem request_is_answered_witness:
  "\<exists>out' st'. comm_pump_all (\<lambda>n. Some (replicate n 9)) (replicate 32 0)
      (replicate 12 None @ [Some (\<lambda>chn d len o1 (dev, w).
         do { ob \<leftarrow> wr (output_buf o1) 0 (d ! 0 + 1); Some (o1\<lparr>output_buf := ob, output_len := 1\<rparr>, dev, Suc w) })])
      0 (comm_frame (12 # [41])) \<lparr>output_buf = replicate 64 0, output_len = 0\<rparr> (comm_init device_init 0)
      = Some (out', st')
    \<and> comm_world st' = Suc 0 \<and> fsm_s (s_fsm_tab st' ! 0) = S_HEAD
    \<and> output_len out' = of_nat (1 + 7)
    \<and> take (1 + 7) (output_buf out') = comm_frame (12 # [42])"
proof (rule request_is_answered [OF _ _ _ comm_init_ok [OF device_init_ok],
    where pf = "\<lambda>chn d len o1 (dev, w).
         do { ob \<leftarrow> wr (output_buf o1) 0 (d ! 0 + 1); Some (o1\<lparr>output_buf := ob, output_len := 1\<rparr>, dev, Suc w) }"])
  show "malloc_ok (\<lambda>n. Some (replicate n 9))" by (simp add: malloc_ok_def)
  fix o1 :: out_t and dev and rest :: "u8 list"
  assume "length (output_buf o1) = length (output_buf \<lparr>output_buf = replicate 64 0, output_len = 0\<rparr>)"
  then have len: "length (output_buf o1) = 64" by simp
  then have "take 1 ((output_buf o1)[0 := 42]) = [42]" by (cases "output_buf o1") auto
  with len show "\<exists>o2 dev'. (\<lambda>chn d len o1 (dev, w).
         do { ob \<leftarrow> wr (output_buf o1) 0 (d ! 0 + 1); Some (o1\<lparr>output_buf := ob, output_len := 1\<rparr>, dev, Suc w) })
       0 ([41] @ rest) (of_nat (length [41 :: u8])) o1 (dev, comm_world (comm_init device_init 0)) = Some (o2, dev', Suc 0)
     \<and> output_len o2 = of_nat 1
     \<and> length (output_buf o2) = length (output_buf \<lparr>output_buf = replicate 64 0, output_len = 0\<rparr>)
     \<and> take 1 (output_buf o2) = [42]"
    by (simp add: wr_in comm_init_def)
qed (simp_all add: comm_init_def fsm_init_def FRAME_DATA_MAX_LEN_def PROTOCOL_NUM_def nth_append)

text \<open>C31. No byte drives the automaton out of its data buffer as long as the announced length is between
  1 and 384: every step from a good state is defined and leads to a good state again, or it
  accepts a header that announces no byte or more bytes than the buffer has.\<close>

theorem automaton_stays_in_buffer:
  assumes "fsm_inv f"
  shows "\<exists>g d. comm_fsm_char c f = Some (g, d) \<and> (fsm_inv g \<or> fsm_s f = S_LEN2 \<and> fsm_s g = S_DATA
     \<and> (fsm_len g = 0 \<or> 384 < unat (fsm_len g)))"
  using fsm_inv_step [OF assms] by (simp add: FRAME_DATA_MAX_LEN_def)

theorem automaton_stays_in_buffer_witness:
  "\<exists>g d. comm_fsm_char 0xF3 fsm_init = Some (g, d) \<and> (fsm_inv g \<or> fsm_s fsm_init = S_LEN2 \<and> fsm_s g = S_DATA
     \<and> (fsm_len g = 0 \<or> 384 < unat (fsm_len g)))"
  by (rule automaton_stays_in_buffer) (simp add: fsm_inv_def fsm_init_def FRAME_DATA_MAX_LEN_def)

text \<open>C34. The length of a frame is not checked against the 384-byte buffer: a header with a correct head
  check that announces zero or more than 384 bytes, followed by any 385 bytes, makes the
  automaton store outside the buffer.\<close>

theorem announced_length_overruns:
  assumes "fsm_s f = S_HEAD" and "length (fsm_data f) = FRAME_DATA_MAX_LEN"
    and "hc = FRAME_HEADER + lo + hi" and "len = ucast lo + ucast hi * (256 :: u16)"
    and "len = 0 \<or> 384 < unat len" and "length body = 385"
  shows "comm_fsm_run ([FRAME_HEADER, hc, lo, hi] @ body) f = None"
proof -
  obtain cs c where body: "body = cs @ [c]" "length cs = 384"
    using assms(6) by (cases body rule: rev_cases) auto
  let ?b = "f\<lparr>fsm_len := len, recv_head_check := hc, calc_head_check := FRAME_HEADER + lo + hi,
      fsm_recv_len := 0, fsm_check := 0, fsm_s := S_DATA\<rparr>"
  have run: "comm_fsm_run body ?b = None"
    unfolding body(1) by (rule fsm_overrun [where k = 0])
      (use assms(2,5) body(2) in \<open>simp_all add: FRAME_DATA_MAX_LEN_def\<close>)
  have head: "comm_fsm_run [FRAME_HEADER, hc, lo, hi] f = Some (?b, [])"
    using fsm_header [OF assms(1), of hc lo hi] assms(3,4) by simp
  show ?thesis unfolding comm_fsm_run_append head Option.bind.simps prod.case run by simp
qed

theorem announced_length_overruns_witness:
  "comm_fsm_run ([FRAME_HEADER, FRAME_HEADER + 0x81 + 1, 0x81, 1] @ replicate 385 0) fsm_init = None"
  by (rule announced_length_overruns [where len = 385]) (simp_all add: fsm_init_def FRAME_DATA_MAX_LEN_def)

text \<open>C35. Corrupted frames are dropped: with a wrong head check the four header bytes, and with a wrong
  check sum the whole frame up to it, deliver nothing and return the automaton to its start.\<close>

theorem corrupted_frames_are_dropped:
  assumes "fsm_s f = S_HEAD" and "length (fsm_data f) = FRAME_DATA_MAX_LEN"
    and "p \<noteq> []" and "length p \<le> FRAME_DATA_MAX_LEN"
    and "chk \<noteq> sum_list p" and "hc \<noteq> FRAME_HEADER + lo + hi"
  shows "(\<exists>g. comm_fsm_run [FRAME_HEADER, hc, lo, hi] f = Some (g, []) \<and> fsm_s g = S_HEAD)
    \<and> (\<exists>g. comm_fsm_run (butlast (butlast (comm_frame p)) @ [chk]) f = Some (g, []) \<and> fsm_s g = S_HEAD)"
proof
  show "\<exists>g. comm_fsm_run [FRAME_HEADER, hc, lo, hi] f = Some (g, []) \<and> fsm_s g = S_HEAD"
    by (rule comm_bad_head) (use assms in auto)
  have "butlast (butlast (comm_frame p)) = butlast (comm_frame_open p)"
    by (simp add: comm_frame_open_def)
  with comm_bad_sum [OF assms(1-5)]
  show "\<exists>g. comm_fsm_run (butlast (butlast (comm_frame p)) @ [chk]) f = Some (g, []) \<and> fsm_s g = S_HEAD"
    by simp
qed

theorem corrupted_frames_are_dropped_witness:
  "(\<exists>g. comm_fsm_run [FRAME_HEADER, 0, 0, 0] fsm_init = Some (g, []) \<and> fsm_s g = S_HEAD)
    \<and> (\<exists>g. comm_fsm_run (butlast (butlast (comm_frame [5, 1])) @ [7]) fsm_init = Some (g, [])
        \<and> fsm_s g = S_HEAD)"
  by (rule corrupted_frames_are_dropped) (simp_all add: fsm_init_def FRAME_DATA_MAX_LEN_def FRAME_HEADER_def)

text \<open>The two index tests let one value too many through: protocol id 13 reads past the table of 13
  handlers, and channel 3 past the three automata.\<close>

theorem index_tests_off_by_one:
  assumes "length tab = PROTOCOL_NUM" and "length (s_fsm_tab st) = COMM_CHN_NUM"
  shows "codey_get_protocol_by_id tab 13 = None
    \<and> codey_comm_protocol_pump_char malloc tmp tab 3 c (Some out) st = None"
  using protocol_id_13 [OF assms(1)] channel_3 [OF assms(2)] by simp

theorem index_tests_off_by_one_witness:
  "codey_get_protocol_by_id (replicate 13 None :: unit pf_protocol_t option list) 13 = None
    \<and> codey_comm_protocol_pump_char (\<lambda>n. None) [] (replicate 13 None) 3 0xF3 (Some \<lparr>output_buf = [], output_len = 0\<rparr>)
        (comm_init device_init ()) = None"
  by (rule index_tests_off_by_one) (simp_all add: comm_init_def PROTOCOL_NUM_def COMM_CHN_NUM_def)

end
