(* ===== verification/Super_Var.thy ===== *)
theory Super_Var
  imports Comm_Protocol
begin

text \<open>
  The variables that Codeys and the host share (\<open>hardware/onboard/codey_super_var.c\<close>): the list of
  variables, the F3 handler that stores a received value, and the methods of the Python type, which
  send every new value in a frame.  The linked list only grows at its end, so a pointer to a variable is
  its position.
\<close>

subsection \<open>The list of variables\<close>

definition SUPER_VAR_ID :: u8 where "SUPER_VAR_ID = 2"
definition SUPER_VAR_TX_BUF_SIZE :: nat where "SUPER_VAR_TX_BUF_SIZE = 256"

definition SUPER_VAR_NONE_T :: u8 where "SUPER_VAR_NONE_T = 0"
definition SUPER_VAR_INT_T :: u8 where "SUPER_VAR_INT_T = 5"
definition SUPER_VAR_FLOAT_T :: u8 where "SUPER_VAR_FLOAT_T = 9"
definition SUPER_VAR_BOOL_T :: u8 where "SUPER_VAR_BOOL_T = 11"
definition SUPER_VAR_STR_T :: u8 where "SUPER_VAR_STR_T = 12"

lemmas super_var_types = SUPER_VAR_NONE_T_def SUPER_VAR_INT_T_def SUPER_VAR_FLOAT_T_def SUPER_VAR_BOOL_T_def SUPER_VAR_STR_T_def

text \<open>
  A variable: its name (the characters before the terminator), the type as it is sent, and the
  block of its value, whose length is \<open>value_len\<close>.
\<close>

record codey_super_var_obj_t =
  sv_name :: "u8 list"
  sv_type :: u8
  sv_value :: "u8 list"

record super_vars =
  s_super_var_list :: "codey_super_var_obj_t list"
  s_tx_buf :: "u8 list"

fun codey_super_var_find_by_name :: "codey_super_var_obj_t list \<Rightarrow> u8 list \<Rightarrow> nat option" where
  "codey_super_var_find_by_name [] name = None"
| "codey_super_var_find_by_name (node # nodes) name =
     (if sv_name node = name then Some 0 else map_option Suc (codey_super_var_find_by_name nodes name))"

text \<open>The inner \<open>None\<close> is the null pointer; a failed second allocation is a null destination of \<open>strcpy\<close>.\<close>

definition codey_super_var_create :: "malloc \<Rightarrow> u8 list \<Rightarrow> codey_super_var_obj_t option option" where
  "codey_super_var_create malloc name =
     (case malloc 28 of
        None \<Rightarrow> Some None
      | Some super_var \<Rightarrow> do {
          m \<leftarrow> malloc (length name + 1);
          m \<leftarrow> blit m 0 (name @ [0]);
          Some (Some \<lparr>sv_name = name, sv_type = SUPER_VAR_NONE_T, sv_value = []\<rparr>) })"

text \<open>\<open>val_data\<close> is the memory from the pointer on; \<open>memcpy\<close> of no bytes needs no block.\<close>

definition codey_super_var_update_value :: "malloc \<Rightarrow> codey_super_var_obj_t \<Rightarrow> u8 \<Rightarrow> u8 list \<Rightarrow> u8
    \<Rightarrow> codey_super_var_obj_t option" where
  "codey_super_var_update_value malloc super_var val_type val_data value_len = do {
     block \<leftarrow> (if value_len = 0 then Some [] else malloc (unat value_len));
     src \<leftarrow> slice val_data 0 (unat value_len);
     block \<leftarrow> blit block 0 src;
     Some (super_var\<lparr>sv_type := val_type, sv_value := block\<rparr>) }"

definition codey_super_var_add_to_list :: "codey_super_var_obj_t \<Rightarrow> codey_super_var_obj_t list
    \<Rightarrow> codey_super_var_obj_t list" where
  "codey_super_var_add_to_list super_var nodes = nodes @ [super_var]"

subsection \<open>Receiving\<close>

definition codey_super_var_frame_parse :: "malloc \<Rightarrow> u8 list \<Rightarrow> u8 \<Rightarrow> super_vars \<Rightarrow> super_vars option" where
  "codey_super_var_frame_parse malloc data len s = do {
     super_var_name_len \<leftarrow> strlen data;
     if super_var_name_len > 0xff then Some s
     else if unat len \<le> super_var_name_len + 2 then Some s
     else do {
       let super_var_value_len = unat len - (super_var_name_len + 2);
       super_var_type \<leftarrow> rd data (super_var_name_len + 1);
       let super_var_value = drop (super_var_name_len + 2) data;
       let name = take super_var_name_len data;
       case codey_super_var_find_by_name (s_super_var_list s) name of
         None \<Rightarrow> do {
           c \<leftarrow> codey_super_var_create malloc name;
           case c of
             None \<Rightarrow> Some s
           | Some super_var \<Rightarrow> do {
               v \<leftarrow> codey_super_var_update_value malloc super_var super_var_type super_var_value (of_nat super_var_value_len);
               Some (s\<lparr>s_super_var_list := codey_super_var_add_to_list v (s_super_var_list s)\<rparr>) } }
       | Some i \<Rightarrow> do {
           super_var \<leftarrow> rd (s_super_var_list s) i;
           v \<leftarrow> codey_super_var_update_value malloc super_var super_var_type super_var_value (of_nat super_var_value_len);
           l \<leftarrow> wr (s_super_var_list s) i v;
           Some (s\<lparr>s_super_var_list := l\<rparr>) } } }"

text \<open>The F3 handler; the length is passed on as one byte.\<close>

definition codey_super_var :: "malloc \<Rightarrow> u8 list \<Rightarrow> u32 \<Rightarrow> out_t \<Rightarrow> super_vars \<Rightarrow> (out_t \<times> super_vars) option" where
  "codey_super_var malloc data len out s = do {
     s \<leftarrow> codey_super_var_frame_parse malloc data (ucast len) s;
     Some (out\<lparr>output_len := 0\<rparr>, s) }"

definition codey_super_var_clear :: "super_vars \<Rightarrow> super_vars" where
  "codey_super_var_clear s =
     s\<lparr>s_super_var_list := map (\<lambda>v. v\<lparr>sv_value := replicate (length (sv_value v)) 0\<rparr>) (s_super_var_list s)\<rparr>"

subsection \<open>Sending\<close>

definition codey_super_var_build_data :: "codey_super_var_obj_t \<Rightarrow> u8 list \<Rightarrow> (u8 list \<times> nat) option" where
  "codey_super_var_build_data super_var b = do {
     let idx = 0;
     b \<leftarrow> blit b idx (sv_name super_var @ [0]);
     let idx = idx + length (sv_name super_var);
     b \<leftarrow> wr b idx 0; let idx = idx + 1;
     b \<leftarrow> wr b idx (sv_type super_var); let idx = idx + 1;
     b \<leftarrow> blit b idx (sv_value super_var);
     Some (b, idx + length (sv_value super_var)) }"

text \<open>What goes to the UART and to the BLE service.\<close>

definition codey_super_var_send_value :: "malloc \<Rightarrow> codey_super_var_obj_t \<Rightarrow> super_vars \<Rightarrow> (u8 list \<times> super_vars) option" where
  "codey_super_var_send_value malloc super_var s = do {
     (b, data_len) \<leftarrow> codey_super_var_build_data super_var (s_tx_buf s);
     out \<leftarrow> codey_comm_build_frame malloc SUPER_VAR_ID \<lparr>output_buf = b, output_len = of_nat data_len\<rparr>;
     sent \<leftarrow> slice (output_buf out) 0 (unat (output_len out));
     Some (sent, s\<lparr>s_tx_buf := output_buf out\<rparr>) }"

subsection \<open>The Python type\<close>

text \<open>
  The argument of \<open>set_value\<close> by its kind: a string has the bytes of its data, a number in a float the
  four bytes of its single precision value.  An integer outside 32 bits raises.
\<close>

datatype py_value = PyBool bool | PyInt int | PyStr "u8 list" | PyFloat u32 | PyOther

definition set_var :: "malloc \<Rightarrow> nat \<Rightarrow> u8 \<Rightarrow> u8 list \<Rightarrow> u8 \<Rightarrow> super_vars \<Rightarrow> (bool \<times> u8 list \<times> super_vars) option" where
  "set_var malloc self ty val len s = do {
     super_var \<leftarrow> rd (s_super_var_list s) self;
     v \<leftarrow> codey_super_var_update_value malloc super_var ty val len;
     l \<leftarrow> wr (s_super_var_list s) self v;
     (sent, s) \<leftarrow> codey_super_var_send_value malloc v (s\<lparr>s_super_var_list := l\<rparr>);
     Some (True, sent, s) }"

text \<open>The outer \<open>None\<close> is undefined, the inner one the overflow error of an integer.\<close>

definition codey_super_var_set_value :: "malloc \<Rightarrow> nat \<Rightarrow> py_value \<Rightarrow> super_vars
    \<Rightarrow> (bool \<times> u8 list \<times> super_vars) option option" where
  "codey_super_var_set_value malloc self new_value s = (case new_value of
     PyBool b \<Rightarrow> map_option Some (set_var malloc self SUPER_VAR_BOOL_T [if b then 1 else 0] 1 s)
   | PyInt i \<Rightarrow> (if - (2 ^ 31) \<le> i \<and> i < 2 ^ 31
       then map_option Some (set_var malloc self SUPER_VAR_INT_T (le32 (word_of_int i)) 4 s) else Some None)
   | PyStr str_val \<Rightarrow> map_option Some (set_var malloc self SUPER_VAR_STR_T str_val (of_nat (length str_val)) s)
   | PyFloat w \<Rightarrow> map_option Some (set_var malloc self SUPER_VAR_FLOAT_T (le32 w) 4 s)
   | PyOther \<Rightarrow> Some (Some (False, [], s)))"

text \<open>What a value reads as: types that the switch does not convert give \<open>True\<close>.\<close>

definition value_read :: "u8 \<Rightarrow> u8 list \<Rightarrow> py_value option" where
  "value_read ty val =
     (if ty = SUPER_VAR_INT_T then do { b \<leftarrow> slice val 0 4; Some (PyInt (sint (of_le32 b))) }
      else if ty = SUPER_VAR_FLOAT_T then do { b \<leftarrow> slice val 0 4; Some (PyFloat (of_le32 b)) }
      else if ty = SUPER_VAR_BOOL_T then do { b \<leftarrow> rd val 0; Some (PyBool (b \<noteq> 0)) }
      else if ty = SUPER_VAR_STR_T then Some (PyStr val)
      else Some (PyBool True))"

definition codey_super_var_get_value :: "nat \<Rightarrow> super_vars \<Rightarrow> py_value option" where
  "codey_super_var_get_value self s = do {
     v \<leftarrow> rd (s_super_var_list s) self;
     value_read (sv_type v) (sv_value v) }"

text \<open>
  The constructor with one string argument, given by its data: the name ends at its first zero byte.
  A variable that cannot be created is used nevertheless.
\<close>

definition codey_super_var_new :: "malloc \<Rightarrow> u8 list \<Rightarrow> super_vars \<Rightarrow> (nat \<times> super_vars) option" where
  "codey_super_var_new malloc str s =
     (let name = takeWhile (\<lambda>c. c \<noteq> 0) str in
      case codey_super_var_find_by_name (s_super_var_list s) name of
        Some i \<Rightarrow> Some (i, s)
      | None \<Rightarrow> do {
          c \<leftarrow> codey_super_var_create malloc name;
          super_var \<leftarrow> c;
          v \<leftarrow> codey_super_var_update_value malloc super_var SUPER_VAR_INT_T (le32 0) 4;
          Some (length (s_super_var_list s), s\<lparr>s_super_var_list := codey_super_var_add_to_list v (s_super_var_list s)\<rparr>) })"

subsection \<open>The variables as a map\<close>

definition sv_view :: "super_vars \<Rightarrow> u8 list \<Rightarrow> (u8 \<times> u8 list) option" where
  "sv_view s = map_of (map (\<lambda>v. (sv_name v, sv_type v, sv_value v)) (s_super_var_list s))"

definition sv_ok :: "super_vars \<Rightarrow> bool" where
  "sv_ok s \<longleftrightarrow> distinct (map sv_name (s_super_var_list s)) \<and> (\<forall>v \<in> set (s_super_var_list s). 0 \<notin> set (sv_name v))
     \<and> length (s_tx_buf s) = SUPER_VAR_TX_BUF_SIZE"

definition named_value :: "super_vars \<Rightarrow> u8 list \<Rightarrow> py_value option" where
  "named_value s name = do {
     i \<leftarrow> codey_super_var_find_by_name (s_super_var_list s) name;
     codey_super_var_get_value i s }"

text \<open>What a value is sent as.\<close>

fun value_bytes :: "py_value \<Rightarrow> (u8 \<times> u8 list) option" where
  "value_bytes (PyBool b) = Some (SUPER_VAR_BOOL_T, [if b then 1 else 0])"
| "value_bytes (PyInt i) = (if - (2 ^ 31) \<le> i \<and> i < 2 ^ 31 then Some (SUPER_VAR_INT_T, le32 (word_of_int i)) else None)"
| "value_bytes (PyStr str) = Some (SUPER_VAR_STR_T, str)"
| "value_bytes (PyFloat w) = Some (SUPER_VAR_FLOAT_T, le32 w)"
| "value_bytes PyOther = None"

lemma find_name_Some:
  "codey_super_var_find_by_name l name = Some i \<Longrightarrow> i < length l \<and> sv_name (l ! i) = name"
  by (induction l arbitrary: i) (auto split: if_splits)

lemma find_name_None: "codey_super_var_find_by_name l name = None \<longleftrightarrow> name \<notin> sv_name ` set l"
  by (induction l) auto

lemma find_name_nth:
  "distinct (map sv_name l) \<Longrightarrow> i < length l \<Longrightarrow> codey_super_var_find_by_name l (sv_name (l ! i)) = Some i"
proof (induction l arbitrary: i)
  case (Cons v l)
  then show ?case by (cases i) (auto simp: nth_mem)
qed simp

lemma named_view: "sv_view s name = Some (ty, val) \<Longrightarrow> sv_ok s \<Longrightarrow> named_value s name = value_read ty val"
proof -
  assume v: "sv_view s name = Some (ty, val)" and ok: "sv_ok s"
  then obtain x where x: "x \<in> set (s_super_var_list s)" "sv_name x = name" "sv_type x = ty" "sv_value x = val"
    by (auto simp: sv_view_def dest!: map_of_SomeD)
  then obtain i where "i < length (s_super_var_list s)" "s_super_var_list s ! i = x" by (auto simp: in_set_conv_nth)
  then show ?thesis
    using find_name_nth [of "s_super_var_list s" i] x ok
    by (auto simp: named_value_def codey_super_var_get_value_def rd_in sv_ok_def)
qed

text \<open>Storing a value in a variable, and appending a new variable.\<close>

lemma map_of_update:
  "i < length l \<Longrightarrow> distinct (map sv_name l) \<Longrightarrow> sv_name v = sv_name (l ! i)
   \<Longrightarrow> map_of (map (\<lambda>v. (sv_name v, sv_type v, sv_value v)) (l[i := v]))
     = (map_of (map (\<lambda>v. (sv_name v, sv_type v, sv_value v)) l))(sv_name v \<mapsto> (sv_type v, sv_value v))"
proof (induction l arbitrary: i)
  case (Cons a l)
  show ?case
  proof (cases i)
    case (Suc j)
    then have "sv_name a \<noteq> sv_name v" using Cons.prems by (auto simp: nth_mem)
    then show ?thesis using Suc Cons.IH [of j] Cons.prems by (auto simp: fun_eq_iff)
  qed (use Cons.prems in \<open>simp add: fun_eq_iff\<close>)
qed simp

lemma view_update:
  assumes ok: "sv_ok s" and i: "i < length (s_super_var_list s)" and n: "sv_name v = sv_name (s_super_var_list s ! i)"
    and s': "s_super_var_list s' = (s_super_var_list s)[i := v]" "length (s_tx_buf s') = length (s_tx_buf s)"
  shows "sv_ok s' \<and> sv_view s' = (sv_view s)(sv_name v \<mapsto> (sv_type v, sv_value v))"
proof -
  let ?l = "s_super_var_list s" and ?f = "\<lambda>v. (sv_name v, sv_type v, sv_value v)"
  have m: "map sv_name (?l[i := v]) = map sv_name ?l"
    using i n list_update_same_conv [of i "map sv_name ?l"] by (simp add: map_update)
  have "\<forall>x \<in> set (?l[i := v]). 0 \<notin> set (sv_name x)"
  proof
    fix x assume "x \<in> set (?l[i := v])"
    then have "x \<in> insert v (set ?l)" using set_update_subset_insert by (rule rev_subsetD)
    moreover have "0 \<notin> set (sv_name v)" using ok i unfolding n sv_ok_def by (metis nth_mem)
    ultimately show "0 \<notin> set (sv_name x)" using ok by (auto simp: sv_ok_def)
  qed
  then have "sv_ok s'" using ok m s' by (simp add: sv_ok_def)
  moreover have "sv_view s' = (sv_view s)(sv_name v \<mapsto> (sv_type v, sv_value v))"
    using map_of_update [of i ?l v] ok i n by (simp add: sv_view_def s'(1) sv_ok_def)
  ultimately show ?thesis by blast
qed

lemma view_append:
  assumes ok: "sv_ok s" and new: "codey_super_var_find_by_name (s_super_var_list s) (sv_name v) = None" and z: "0 \<notin> set (sv_name v)"
    and s': "s_super_var_list s' = s_super_var_list s @ [v]" "s_tx_buf s' = s_tx_buf s"
  shows "sv_ok s' \<and> sv_view s' = (sv_view s)(sv_name v \<mapsto> (sv_type v, sv_value v))"
proof -
  have n: "sv_name v \<notin> sv_name ` set (s_super_var_list s)" using new by (simp add: find_name_None)
  then have "map_of (map (\<lambda>v. (sv_name v, sv_type v, sv_value v)) (s_super_var_list s)) (sv_name v) = None"
    by (auto simp: map_of_eq_None_iff image_iff)
  then have "sv_view s' = (sv_view s)(sv_name v \<mapsto> (sv_type v, sv_value v))"
    by (auto simp: sv_view_def s'(1) map_add_def split: option.split)
  then show ?thesis using ok n z by (auto simp: sv_ok_def s')
qed

lemma blit_all: "length m = length src \<Longrightarrow> blit m 0 src = Some src"
  by (simp add: blit_in)

text \<open>An allocator that always has memory.\<close>

definition malloc_total :: "malloc \<Rightarrow> bool" where
  "malloc_total malloc \<longleftrightarrow> malloc_ok malloc \<and> (\<forall>n. malloc n \<noteq> None)"

lemma mallocE: "malloc_total malloc \<Longrightarrow> (\<And>m. malloc n = Some m \<Longrightarrow> length m = n \<Longrightarrow> thesis) \<Longrightarrow> thesis"
  unfolding malloc_total_def malloc_ok_def by (metis option.exhaust)

lemma update_value_run:
  assumes "malloc_total malloc" and "unat len \<le> length d"
  shows "codey_super_var_update_value malloc v ty d len = Some (v\<lparr>sv_type := ty, sv_value := take (unat len) d\<rparr>)"
proof (cases "len = 0")
  case True
  then show ?thesis by (simp add: codey_super_var_update_value_def slice_in blit_in)
next
  case False
  obtain m where "malloc (unat len) = Some m" "length m = unat len" by (rule mallocE [OF assms(1)])
  then show ?thesis using assms(2) False by (simp add: codey_super_var_update_value_def slice_in blit_all)
qed

lemma create_run:
  assumes "malloc_total malloc"
  shows "codey_super_var_create malloc name = Some (Some \<lparr>sv_name = name, sv_type = SUPER_VAR_NONE_T, sv_value = []\<rparr>)"
proof -
  obtain m0 where "malloc 28 = Some m0" by (rule mallocE [OF assms])
  moreover obtain m where "malloc (length name + 1) = Some m" "length m = length name + 1" by (rule mallocE [OF assms])
  ultimately show ?thesis by (simp add: codey_super_var_create_def blit_all)
qed

text \<open>A payload that arrives stores its value under its name.\<close>

lemma receive_run:
  assumes mem: "malloc_total malloc" and ok: "sv_ok s" and z: "0 \<notin> set name" and val: "val \<noteq> []"
    and len: "length name + length val \<le> 253"
  shows "\<exists>s'. (\<forall>rest out. codey_super_var malloc ((name @ 0 # ty # val) @ rest) (of_nat (length (name @ 0 # ty # val))) out s
      = Some (out\<lparr>output_len := 0\<rparr>, s')) \<and> sv_ok s' \<and> sv_view s' = (sv_view s)(name \<mapsto> (ty, val))"
proof -
  let ?data = "\<lambda>rest. name @ 0 # ty # val @ rest"
  have l8: "unat (ucast (of_nat (length name + 2 + length val) :: u32) :: u8) = length name + 2 + length val"
  proof -
    define n where "n = length name + 2 + length val"
    have "n < 256" using len by (simp add: n_def)
    then have "unat (ucast (of_nat n :: u32) :: u8) = n" by (simp add: unat_ucast_mod unat_of_nat take_bit_nat_eq_self)
    then show ?thesis by (simp only: n_def)
  qed
  have lv: "unat (of_nat (length val) :: u8) = length val"
    using len by (simp add: unat_of_nat take_bit_nat_eq_self)
  have parts: "strlen (?data rest) = Some (length name)" "rd (?data rest) (Suc (length name)) = Some ty"
    "take (length name) (?data rest) = name" "drop (length name + 2) (?data rest) = val @ rest" for rest
    using strlen_append [OF z] by (simp_all add: rd_def nth_append)
  have upd: "codey_super_var_update_value malloc v ty (val @ rest) (of_nat (length val)) = Some (v\<lparr>sv_type := ty, sv_value := val\<rparr>)" for v rest
    using update_value_run [OF mem, of "of_nat (length val)" "val @ rest" v ty] lv by simp
  have parse: "codey_super_var malloc (?data rest) (of_nat (length name + 2 + length val)) out s = do {
      s \<leftarrow> (case codey_super_var_find_by_name (s_super_var_list s) name of
         None \<Rightarrow> Some (s\<lparr>s_super_var_list := s_super_var_list s @ [\<lparr>sv_name = name, sv_type = ty, sv_value = val\<rparr>]\<rparr>)
       | Some i \<Rightarrow> do {
           super_var \<leftarrow> rd (s_super_var_list s) i;
           l \<leftarrow> wr (s_super_var_list s) i (super_var\<lparr>sv_type := ty, sv_value := val\<rparr>);
           Some (s\<lparr>s_super_var_list := l\<rparr>) });
      Some (out\<lparr>output_len := 0\<rparr>, s) }" for rest out
    using val len unfolding codey_super_var_def codey_super_var_frame_parse_def parts l8
    by (simp add: parts(2,4) create_run [OF mem] upd codey_super_var_add_to_list_def Let_def del: of_nat_add split: option.split)
  show ?thesis
  proof (cases "codey_super_var_find_by_name (s_super_var_list s) name")
    case None
    let ?v = "\<lparr>sv_name = name, sv_type = ty, sv_value = val\<rparr>"
    let ?s = "s\<lparr>s_super_var_list := s_super_var_list s @ [?v]\<rparr>"
    have "sv_ok ?s \<and> sv_view ?s = (sv_view s)(name \<mapsto> (ty, val))"
      using view_append [OF ok, of ?v ?s] None z by simp
    then show ?thesis using parse None by (intro exI [of _ ?s]) simp
  next
    case (Some i)
    let ?v = "(s_super_var_list s ! i)\<lparr>sv_type := ty, sv_value := val\<rparr>"
    let ?s = "s\<lparr>s_super_var_list := (s_super_var_list s)[i := ?v]\<rparr>"
    have i: "i < length (s_super_var_list s)" "sv_name (s_super_var_list s ! i) = name" using find_name_Some [OF Some] by blast+
    have "sv_ok ?s \<and> sv_view ?s = (sv_view s)(name \<mapsto> (ty, val))"
      using view_update [OF ok i(1), of ?v ?s] i(2) by simp
    then show ?thesis using parse Some i(1) by (intro exI [of _ ?s]) (simp add: rd_in wr_in)
  qed
qed

subsection \<open>Sending a value\<close>

lemma build_data_run:
  assumes "length b = SUPER_VAR_TX_BUF_SIZE" and "length (sv_name v) + length (sv_value v) + 2 \<le> SUPER_VAR_TX_BUF_SIZE"
  shows "\<exists>b'. codey_super_var_build_data v b = Some (b', length (sv_name v) + 2 + length (sv_value v))
    \<and> filled b' (sv_name v @ 0 # sv_type v # sv_value v) SUPER_VAR_TX_BUF_SIZE"
proof -
  let ?n = "length (sv_name v)" and ?N = SUPER_VAR_TX_BUF_SIZE
  obtain b1 where b1: "blit b 0 (sv_name v @ [0]) = Some b1" "filled b1 (sv_name v @ [0]) ?N"
    using filled_blit [OF filled_empty, of 0 "sv_name v @ [0]" b] assms by auto
  obtain b2 where b2: "wr b1 ?n 0 = Some b2" "filled b2 (sv_name v @ [0]) ?N"
    using filled_wr_last [OF b1(2), of ?n 0] by auto
  obtain b3 where b3: "wr b2 (Suc ?n) (sv_type v) = Some b3" "filled b3 ((sv_name v @ [0]) @ [sv_type v]) ?N"
    using filled_wr [OF b2(2), of "Suc ?n" "sv_type v"] assms(2) by auto
  obtain b4 where "blit b3 (Suc (Suc ?n)) (sv_value v) = Some b4" "filled b4 (((sv_name v @ [0]) @ [sv_type v]) @ sv_value v) ?N"
    using filled_blit [OF b3(2), of "Suc (Suc ?n)" "sv_value v"] assms(2) by auto
  then show ?thesis using b1(1) b2(1) b3(1) by (simp add: codey_super_var_build_data_def Let_def)
qed

lemma unat32: "n < 2 ^ 32 \<Longrightarrow> unat (of_nat n :: u32) = n"
  by (simp add: unat_of_nat take_bit_nat_eq_self)

lemma send_run:
  assumes mem: "malloc_total malloc" and tx: "length (s_tx_buf s) = SUPER_VAR_TX_BUF_SIZE"
    and len: "length (sv_name v) + length (sv_value v) \<le> 247"
  shows "\<exists>b. codey_super_var_send_value malloc v s
      = Some (comm_frame (SUPER_VAR_ID # sv_name v @ 0 # sv_type v # sv_value v), s\<lparr>s_tx_buf := b\<rparr>)
    \<and> length b = SUPER_VAR_TX_BUF_SIZE"
proof -
  let ?d = "sv_name v @ 0 # sv_type v # sv_value v" and ?n = "length (sv_name v) + 2 + length (sv_value v)"
  obtain b where b: "codey_super_var_build_data v (s_tx_buf s) = Some (b, ?n)" "filled b ?d SUPER_VAR_TX_BUF_SIZE"
    using build_data_run [OF tx, of v] len by (auto simp: SUPER_VAR_TX_BUF_SIZE_def)
  have d: "take ?n b = ?d" "length b = 256" using b(2) by (simp_all add: filled_def SUPER_VAR_TX_BUF_SIZE_def)
  obtain m where "malloc (?n + 7) = Some m" by (rule mallocE [OF mem])
  moreover have "malloc_ok malloc" using mem by (simp add: malloc_total_def)
  ultimately obtain out where out: "codey_comm_build_frame malloc SUPER_VAR_ID \<lparr>output_buf = b, output_len = of_nat ?n\<rparr> = Some out"
      "output_len out = of_nat (?n + 7)" "filled (output_buf out) (comm_frame (SUPER_VAR_ID # ?d)) 256"
    using comm_build_frame_ok [of malloc ?n m "\<lparr>output_buf = b, output_len = of_nat ?n\<rparr>" SUPER_VAR_ID] len d by auto
  have "length (comm_frame (SUPER_VAR_ID # ?d)) = ?n + 7" by (simp add: comm_frame_def Let_def)
  moreover have "unat (of_nat (?n + 7) :: u32) = ?n + 7" using len unat32 [of "?n + 7"] by simp
  ultimately have "slice (output_buf out) 0 (unat (output_len out)) = Some (comm_frame (SUPER_VAR_ID # ?d))"
    using out(2,3) len unfolding filled_def by (simp add: slice_in del: of_nat_add)
  then show ?thesis using b(1) out(1,3)
    by (intro exI [of _ "output_buf out"]) (simp add: codey_super_var_send_value_def filled_def SUPER_VAR_TX_BUF_SIZE_def del: of_nat_add)
qed

lemma value_bytes_read: "value_bytes v = Some (ty, val) \<Longrightarrow> value_read ty val = Some v"
proof (cases v)
  case (PyInt i)
  assume "value_bytes v = Some (ty, val)"
  then have i: "- (2 ^ 31) \<le> i" "i < 2 ^ 31" "ty = SUPER_VAR_INT_T" "val = le32 (word_of_int i)"
    using PyInt by (auto split: if_splits)
  have "sint (word_of_int i :: u32) = i"
    using i(1,2) signed_take_bit_int_eq_self [of 31 i] by (simp add: signed_of_int)
  then show ?thesis using i(3,4) PyInt by (simp add: value_read_def slice_in)
qed (auto simp: value_read_def super_var_types slice_in rd_def split: if_splits)

lemma set_value_run:
  assumes mem: "malloc_total malloc" and ok: "sv_ok s" and i: "i < length (s_super_var_list s)"
    and v: "value_bytes v = Some (ty, val)" and len: "length (sv_name (s_super_var_list s ! i)) + length val \<le> 247"
  shows "\<exists>s'. codey_super_var_set_value malloc i v s
      = Some (Some (True, comm_frame (SUPER_VAR_ID # sv_name (s_super_var_list s ! i) @ 0 # ty # val), s'))
    \<and> sv_ok s' \<and> sv_view s' = (sv_view s)(sv_name (s_super_var_list s ! i) \<mapsto> (ty, val))"
proof -
  let ?x = "s_super_var_list s ! i"
  let ?v = "?x\<lparr>sv_type := ty, sv_value := val\<rparr>"
  let ?s = "s\<lparr>s_super_var_list := (s_super_var_list s)[i := ?v]\<rparr>"
  have lv: "unat (of_nat (length val) :: u8) = length val"
    using len by (simp add: unat_of_nat take_bit_nat_eq_self)
  have tx: "length (s_tx_buf ?s) = SUPER_VAR_TX_BUF_SIZE" using ok by (simp add: sv_ok_def)
  obtain b where b: "codey_super_var_send_value malloc ?v ?s
      = Some (comm_frame (SUPER_VAR_ID # sv_name ?x @ 0 # ty # val), ?s\<lparr>s_tx_buf := b\<rparr>)" "length b = SUPER_VAR_TX_BUF_SIZE"
    using send_run [OF mem tx, of ?v] len by auto
  have up: "sv_ok (?s\<lparr>s_tx_buf := b\<rparr>) \<and> sv_view (?s\<lparr>s_tx_buf := b\<rparr>) = (sv_view s)(sv_name ?x \<mapsto> (ty, val))"
    using view_update [OF ok i, of ?v "?s\<lparr>s_tx_buf := b\<rparr>"] b(2) ok by (simp add: sv_ok_def)
  have set: "set_var malloc i ty val (of_nat (length val)) s
      = Some (True, comm_frame (SUPER_VAR_ID # sv_name ?x @ 0 # ty # val), ?s\<lparr>s_tx_buf := b\<rparr>)"
    using update_value_run [OF mem, of "of_nat (length val)" val ?x ty] lv i b(1)
    by (simp add: set_var_def rd_in wr_in)
  have "codey_super_var_set_value malloc i v s = map_option Some (set_var malloc i ty val (of_nat (length val)) s)"
    using v by (cases v) (auto simp: codey_super_var_set_value_def split: if_splits)
  then show ?thesis using set up by simp
qed

subsection \<open>The handler in the table of the protocol\<close>

definition super_var_handler :: "malloc \<Rightarrow> (super_vars \<times> 'w) pf_protocol_t" where
  "super_var_handler malloc chn data len out env = do {
     (out, sv) \<leftarrow> codey_super_var malloc data len out (fst (snd env));
     Some (out, fst env, sv, snd (snd env)) }"

lemma value_arrives:
  assumes mem: "malloc_total malloc" and a: "sv_ok a" and i: "i < length (s_super_var_list a)"
    and v: "value_bytes v = Some (ty, val)" "val \<noteq> []" and len: "length (sv_name (s_super_var_list a ! i)) + length val \<le> 247"
    and st: "length tmp = 32" "comm_ok st" "chn < 2" "64 \<le> length (output_buf out)" "fsm_s (s_fsm_tab st ! chn) = S_HEAD"
      "length (fsm_data (s_fsm_tab st ! chn)) = FRAME_DATA_MAX_LEN"
    and tab: "length tab = PROTOCOL_NUM" "tab ! 2 = Some (super_var_handler malloc)" and b: "sv_ok (fst (comm_world st))"
  shows "\<exists>sent a' out' st'. codey_super_var_set_value malloc i v a = Some (Some (True, sent, a'))
    \<and> comm_pump_all malloc tmp tab chn sent out st = Some (out', st')
    \<and> comm_ok st' \<and> fsm_s (s_fsm_tab st' ! chn) = S_HEAD \<and> snd (comm_world st') = snd (comm_world st)
    \<and> sv_ok (fst (comm_world st'))
    \<and> sv_view (fst (comm_world st')) = (sv_view (fst (comm_world st)))(sv_name (s_super_var_list a ! i) \<mapsto> (ty, val))"
proof -
  let ?name = "sv_name (s_super_var_list a ! i)"
  let ?args = "?name @ 0 # ty # val"
  have z: "0 \<notin> set ?name" using a i by (auto simp: sv_ok_def)
  obtain a' where a': "codey_super_var_set_value malloc i v a = Some (Some (True, comm_frame (SUPER_VAR_ID # ?args), a'))"
    using set_value_run [OF mem a i v(1) len] by blast
  have l: "length ?name + length val \<le> 253" using len by simp
  obtain b' where b': "sv_ok b'" "sv_view b' = (sv_view (fst (comm_world st)))(?name \<mapsto> (ty, val))"
    and run: "\<And>rest out. codey_super_var malloc (?args @ rest) (of_nat (length ?args)) out (fst (comm_world st)) = Some (out\<lparr>output_len := 0\<rparr>, b')"
    using receive_run [OF mem b z v(2) l, of ty] by auto
  have "\<exists>out' st'. comm_pump_all malloc tmp tab chn (comm_frame (SUPER_VAR_ID # ?args)) out st = Some (out', st')
      \<and> comm_world st' = (b', snd (comm_world st)) \<and> comm_ok st' \<and> fsm_s (s_fsm_tab st' ! chn) = S_HEAD
      \<and> length (output_buf out') = length (output_buf out)"
  proof (rule comm_notice [OF _ st(1-4) st(5,6), where pf = "super_var_handler malloc"])
    show "malloc_ok malloc" using mem by (simp add: malloc_total_def)
    show "super_var_handler malloc chn (?args @ rest) (of_nat (length ?args)) o1 (dev, comm_world st)
        = Some (o1, dev, b', snd (comm_world st))" if o: "output_len o1 = 0" for rest o1 dev
      using run [of rest o1] o by (simp add: super_var_handler_def)
  qed (use len tab in \<open>simp_all add: SUPER_VAR_ID_def PROTOCOL_NUM_def FRAME_DATA_MAX_LEN_def\<close>)
  then show ?thesis using a' b' by (intro exI [of _ "comm_frame (SUPER_VAR_ID # ?args)"] exI [of _ a']) auto
qed


subsection \<open>Clearing\<close>

lemma clear_run:
  "sv_view (codey_super_var_clear s) name = map_option (\<lambda>(ty, val). (ty, replicate (length val) 0)) (sv_view s name)"
proof -
  let ?f = "\<lambda>(ty, val). (ty, replicate (length val) 0)"
  have "map (\<lambda>v. (sv_name v, sv_type v, sv_value v)) (s_super_var_list (codey_super_var_clear s))
      = map (\<lambda>(k, x). (k, ?f x)) (map (\<lambda>v. (sv_name v, sv_type v, sv_value v)) (s_super_var_list s))"
    by (simp add: codey_super_var_clear_def)
  then show ?thesis unfolding sv_view_def by (simp only: map_of_map comp_apply)
qed

subsection \<open>Concrete variables\<close>

definition full_memory :: malloc where
  "full_memory n = Some (replicate n 0)"

lemma full_memory_total: "malloc_total full_memory"
  by (simp add: malloc_total_def malloc_ok_def full_memory_def)

text \<open>A Codey with one variable \<open>a\<close>, and one without.\<close>

definition one_var :: super_vars where
  "one_var = \<lparr>s_super_var_list = [\<lparr>sv_name = [97], sv_type = SUPER_VAR_INT_T, sv_value = [0, 0, 0, 0]\<rparr>],
     s_tx_buf = replicate 256 0\<rparr>"

definition no_vars :: super_vars where
  "no_vars = \<lparr>s_super_var_list = [], s_tx_buf = replicate 256 0\<rparr>"

lemma vars_ok: "sv_ok one_var" "sv_ok no_vars"
  by (simp_all add: sv_ok_def one_var_def no_vars_def SUPER_VAR_TX_BUF_SIZE_def)

definition handler_table :: "(super_vars \<times> unit) pf_protocol_t option list" where
  "handler_table = [None, None, Some (super_var_handler full_memory)] @ replicate 10 None"

subsection \<open>Properties\<close>

text \<open>
  C26. A value that a Python program sets in a shared variable arrives at every other side: the frame that
  \<open>set_value\<close> sends, pumped byte by byte through the protocol automaton of a receiver, stores the value under the
  name of the variable there (creating the variable when it is new), leaves all other variables as
  they are, and \<open>get_value\<close> of that name gives the same Python value.  It holds for every boolean,
  every integer of 32 bits, every float and every non-empty string as long as name and value have at most 247 bytes.
\<close>

theorem shared_value_arrives:
  assumes "malloc_total malloc" and "sv_ok a" and "i < length (s_super_var_list a)"
    and "value_bytes v = Some (ty, val)" and "val \<noteq> []" and "length (sv_name (s_super_var_list a ! i)) + length val \<le> 247"
    and "length tmp = 32" and "comm_ok st" and "chn < 2" and "64 \<le> length (output_buf out)"
    and "fsm_s (s_fsm_tab st ! chn) = S_HEAD" and "length (fsm_data (s_fsm_tab st ! chn)) = FRAME_DATA_MAX_LEN"
    and "length tab = PROTOCOL_NUM" and "tab ! 2 = Some (super_var_handler malloc)" and "sv_ok (fst (comm_world st))"
  shows "\<exists>sent a' out' st'. codey_super_var_set_value malloc i v a = Some (Some (True, sent, a'))
    \<and> comm_pump_all malloc tmp tab chn sent out st = Some (out', st') \<and> fsm_s (s_fsm_tab st' ! chn) = S_HEAD
    \<and> sv_view (fst (comm_world st')) = (sv_view (fst (comm_world st)))(sv_name (s_super_var_list a ! i) \<mapsto> (ty, val))
    \<and> named_value (fst (comm_world st')) (sv_name (s_super_var_list a ! i)) = Some v
    \<and> snd (comm_world st') = snd (comm_world st)"
proof -
  obtain sent a' out' st' where r: "codey_super_var_set_value malloc i v a = Some (Some (True, sent, a'))"
    "comm_pump_all malloc tmp tab chn sent out st = Some (out', st')" "fsm_s (s_fsm_tab st' ! chn) = S_HEAD"
    "snd (comm_world st') = snd (comm_world st)" "sv_ok (fst (comm_world st'))"
    "sv_view (fst (comm_world st')) = (sv_view (fst (comm_world st)))(sv_name (s_super_var_list a ! i) \<mapsto> (ty, val))"
    using value_arrives [OF assms] by blast
  moreover have "named_value (fst (comm_world st')) (sv_name (s_super_var_list a ! i)) = Some v"
    using named_view [OF _ r(5)] r(6) value_bytes_read [OF assms(4)] by simp
  ultimately show ?thesis by blast
qed

theorem shared_value_arrives_witness:
  "\<exists>sent a' out' st'. codey_super_var_set_value full_memory 0 (PyStr [104, 105]) one_var = Some (Some (True, sent, a'))
    \<and> comm_pump_all full_memory (replicate 32 0) handler_table 0 sent \<lparr>output_buf = replicate 64 0, output_len = 0\<rparr>
        (comm_init device_init (no_vars, ())) = Some (out', st')
    \<and> named_value (fst (comm_world st')) [97] = Some (PyStr [104, 105])"
proof -
  let ?st = "comm_init device_init (no_vars, ())" and ?o = "\<lparr>output_buf = replicate 64 0, output_len = 0\<rparr>"
  have n: "sv_name (s_super_var_list one_var ! 0) = [97]" "0 < length (s_super_var_list one_var)" by (simp_all add: one_var_def)
  have s: "fsm_s (s_fsm_tab ?st ! 0) = S_HEAD" "length (fsm_data (s_fsm_tab ?st ! 0)) = FRAME_DATA_MAX_LEN"
    "sv_ok (fst (comm_world ?st))"
    using vars_ok(2) by (simp_all add: comm_init_def fsm_init_def FRAME_DATA_MAX_LEN_def)
  have t: "length handler_table = PROTOCOL_NUM" "handler_table ! 2 = Some (super_var_handler full_memory)"
    by (simp_all add: handler_table_def PROTOCOL_NUM_def)
  have l: "length (sv_name (s_super_var_list one_var ! 0)) + length [104 :: u8, 105] \<le> 247" using n(1) by simp
  have tmp: "length (replicate 32 (0 :: u8)) = 32" "(0 :: nat) < 2" "64 \<le> length (output_buf ?o)" by simp_all
  have v: "value_bytes (PyStr [104, 105]) = Some (SUPER_VAR_STR_T, [104, 105])" "[104 :: u8, 105] \<noteq> []" by simp_all
  obtain sent a' out' st' where "codey_super_var_set_value full_memory 0 (PyStr [104, 105]) one_var = Some (Some (True, sent, a'))"
    "comm_pump_all full_memory (replicate 32 0) handler_table 0 sent ?o ?st = Some (out', st')"
    "named_value (fst (comm_world st')) (sv_name (s_super_var_list one_var ! 0)) = Some (PyStr [104, 105])"
    using shared_value_arrives [OF full_memory_total vars_ok(1) n(2) v l tmp(1) comm_init_ok [OF device_init_ok] tmp(2,3) s(1,2) t s(3)]
    by blast
  then show ?thesis unfolding n(1) by blast
qed

text \<open>
  The type of a received value is stored without a look at its length: after a frame that announces an
  integer with fewer than four bytes of value, \<open>get_value\<close> reads outside the block of the value.
\<close>

theorem short_integer_read_outside:
  assumes "malloc_total malloc" and "sv_ok s" and "0 \<notin> set name" and "val \<noteq> []" and "length val < 4" and "length name \<le> 250"
  shows "\<exists>s'. codey_super_var malloc (name @ 0 # SUPER_VAR_INT_T # val) (of_nat (length name + 2 + length val)) out s
      = Some (out\<lparr>output_len := 0\<rparr>, s') \<and> named_value s' name = None"
proof -
  have len: "length name + length val \<le> 253" using assms(5,6) by simp
  obtain s' where s': "codey_super_var malloc ((name @ 0 # SUPER_VAR_INT_T # val) @ []) (of_nat (length (name @ 0 # SUPER_VAR_INT_T # val))) out s
      = Some (out\<lparr>output_len := 0\<rparr>, s')" "sv_ok s'" "sv_view s' = (sv_view s)(name \<mapsto> (SUPER_VAR_INT_T, val))"
    using receive_run [OF assms(1-4) len, of SUPER_VAR_INT_T] by blast
  have "length (name @ 0 # SUPER_VAR_INT_T # val) = length name + 2 + length val" by simp
  moreover have "named_value s' name = None"
    using named_view [OF _ s'(2), of name] s'(3) assms(5) by (simp add: value_read_def slice_def)
  ultimately show ?thesis using s'(1) by (intro exI [of _ s']) (simp only: append_Nil2 simp_thms)
qed

theorem short_integer_read_outside_witness:
  "\<exists>s'. codey_super_var full_memory ([97] @ 0 # SUPER_VAR_INT_T # [7]) (of_nat (length [97 :: u8] + 2 + length [7 :: u8]))
      \<lparr>output_buf = [], output_len = 3\<rparr> one_var = Some (\<lparr>output_buf = [], output_len = 3\<rparr>\<lparr>output_len := 0\<rparr>, s') \<and> named_value s' [97] = None"
  by (rule short_integer_read_outside [OF full_memory_total vars_ok(1)]) simp_all

text \<open>
  A name of 256 or more bytes, which the constructor accepts, is copied past the end of the send buffer by the first
  \<open>set_value\<close>.
\<close>

theorem long_name_overruns:
  assumes "malloc_total malloc" and "length (s_tx_buf s) = SUPER_VAR_TX_BUF_SIZE" and "0 \<notin> set name" and "256 \<le> length name"
    and "codey_super_var_find_by_name (s_super_var_list s) name = None"
  shows "\<exists>i s'. codey_super_var_new malloc name s = Some (i, s') \<and> codey_super_var_set_value malloc i (PyBool b) s' = None"
proof -
  let ?v = "\<lparr>sv_name = name, sv_type = SUPER_VAR_INT_T, sv_value = le32 0\<rparr>"
  let ?s = "s\<lparr>s_super_var_list := s_super_var_list s @ [?v]\<rparr>"
  have tw: "takeWhile (\<lambda>c. c \<noteq> 0) name = name" using assms(3) by (auto simp: takeWhile_eq_all_conv)
  have new: "codey_super_var_new malloc name s = Some (length (s_super_var_list s), ?s)"
    using assms(5) create_run [OF assms(1)] update_value_run [OF assms(1), of 4 "le32 0"]
    by (simp add: codey_super_var_new_def codey_super_var_add_to_list_def tw)
  have "codey_super_var_build_data v (s_tx_buf s) = None" if "sv_name v = name" for v
    using assms(2,4) that by (simp add: codey_super_var_build_data_def blit_def SUPER_VAR_TX_BUF_SIZE_def)
  then have "set_var malloc (length (s_super_var_list s)) SUPER_VAR_BOOL_T [if b then 1 else 0] 1 ?s = None"
    using update_value_run [OF assms(1), of 1 "[if b then 1 else 0]"]
    by (simp add: set_var_def rd_in wr_in codey_super_var_send_value_def)
  then show ?thesis using new by (simp add: codey_super_var_set_value_def)
qed

theorem long_name_overruns_witness:
  "\<exists>i s'. codey_super_var_new full_memory (replicate 256 97) one_var = Some (i, s')
    \<and> codey_super_var_set_value full_memory i (PyBool True) s' = None"
proof (rule long_name_overruns [OF full_memory_total])
  have "length [97 :: u8] \<noteq> length (replicate 256 (97 :: u8))" by simp
  then have "[97 :: u8] \<noteq> replicate 256 97" by metis
  then show "codey_super_var_find_by_name (s_super_var_list one_var) (replicate 256 97) = None" by (simp add: one_var_def)
qed (simp_all add: one_var_def SUPER_VAR_TX_BUF_SIZE_def)

end
