(* ===== verification/Sensor_Report.thy ===== *)
theory Sensor_Report
  imports Comm_Protocol
begin

text \<open>
  Sensor values for the host (\<open>sys/codey_sensor_report.c\<close>): the F3 handler that switches the report of a sensor
  on and off, and the task that every 200 ms reads the sensors that are on and sends those whose value has changed.
\<close>

subsection \<open>The table of the sensors\<close>

definition SENSOR_REPORT_ID :: u8 where "SENSOR_REPORT_ID = 4"
definition SENSOR_REPORT_TX_BUF_SIZE :: nat where "SENSOR_REPORT_TX_BUF_SIZE = 16"
definition REPORT_DATA_SIZE :: nat where "REPORT_DATA_SIZE = 8"
definition REPORT_MIN_DELAY_MS :: u32 where "REPORT_MIN_DELAY_MS = 200"

definition REQ_REPORT :: u8 where "REQ_REPORT = 1"
definition REQ_STOP :: u8 where "REQ_STOP = 2"
definition REPORT :: u8 where "REPORT = 3"
definition RSP_OK :: u8 where "RSP_OK = 4"
definition RSP_ERR :: u8 where "RSP_ERR = 5"

lemmas sensor_cmds = REQ_REPORT_def REQ_STOP_def REPORT_def RSP_OK_def RSP_ERR_def

record sensor_report_info_t =
  on_or_off :: bool
  sensor_id :: u16
  report_data_len :: u16
  last_report_tick :: u32
  last_report_data :: "u8 list"
  cur_report_data :: "u8 list"

definition s_sensor_report_info_tab :: "sensor_report_info_t list" where
  "s_sensor_report_info_tab = map (\<lambda>i. \<lparr>on_or_off = False, sensor_id = i, report_data_len = 4, last_report_tick = 0,
     last_report_data = replicate REPORT_DATA_SIZE 0, cur_report_data = replicate REPORT_DATA_SIZE 0\<rparr>)
     [1, 2, 3, 4, 5, 6, 7, 8, 9, 10, 100]"

text \<open>The drivers, each with the four bytes of the float that is reported.\<close>

record sensors =
  codey_sound_sensor_value_t :: u32
  codey_light_sensor_value_t :: u32
  codey_dail_sensor_value_t :: u32
  codey_gyro_sensor_value_t :: "nat \<Rightarrow> u32"
  codey_battery_check_get_capacity :: u32
  codey_timer_value_t :: u32

text \<open>The functions \<open>get_data\<close> of the table.\<close>

definition get_data :: "sensors \<Rightarrow> u16 \<Rightarrow> u32" where
  "get_data d i =
     (if i = 1 then codey_sound_sensor_value_t d
      else if i = 2 then codey_light_sensor_value_t d
      else if i = 3 then codey_dail_sensor_value_t d
      else if i = 4 then codey_gyro_sensor_value_t d 1
      else if i = 5 then codey_gyro_sensor_value_t d 2
      else if i = 6 then codey_gyro_sensor_value_t d 3
      else if i = 7 then codey_gyro_sensor_value_t d 4
      else if i = 8 then codey_gyro_sensor_value_t d 5
      else if i = 9 then codey_gyro_sensor_value_t d 6
      else if i = 10 then codey_battery_check_get_capacity d
      else codey_timer_value_t d)"

record sensor_reports =
  sr_tab :: "sensor_report_info_t list"
  sr_tx_buf :: "u8 list"
  sr_module_init :: bool

subsection \<open>Requests\<close>

fun find_sensor :: "sensor_report_info_t list \<Rightarrow> u16 \<Rightarrow> nat option" where
  "find_sensor [] i = None"
| "find_sensor (x # xs) i = (if sensor_id x = i then Some 0 else map_option Suc (find_sensor xs i))"

definition codey_sensor_report_find_info_by_id :: "sensor_reports \<Rightarrow> u16 \<Rightarrow> nat option" where
  "codey_sensor_report_find_info_by_id s i = find_sensor (sr_tab s) i"

definition codey_sensor_report_req :: "u16 \<Rightarrow> sensor_reports \<Rightarrow> (bool \<times> sensor_reports) option" where
  "codey_sensor_report_req i s = (case codey_sensor_report_find_info_by_id s i of
     None \<Rightarrow> Some (False, s)
   | Some p \<Rightarrow> do {
       x \<leftarrow> rd (sr_tab s) p;
       d \<leftarrow> blit (last_report_data x) 0 (replicate REPORT_DATA_SIZE 0);
       t \<leftarrow> wr (sr_tab s) p (x\<lparr>on_or_off := True, last_report_data := d\<rparr>);
       Some (True, s\<lparr>sr_tab := t\<rparr>) })"

definition codey_sensor_report_stop :: "u16 \<Rightarrow> sensor_reports \<Rightarrow> (bool \<times> sensor_reports) option" where
  "codey_sensor_report_stop i s = (case codey_sensor_report_find_info_by_id s i of
     None \<Rightarrow> Some (False, s)
   | Some p \<Rightarrow> do {
       x \<leftarrow> rd (sr_tab s) p;
       t \<leftarrow> wr (sr_tab s) p (x\<lparr>on_or_off := False\<rparr>);
       Some (True, s\<lparr>sr_tab := t\<rparr>) })"

text \<open>The answer to a request: the status and the id, stored as 16 bits.\<close>

definition le16 :: "u16 \<Rightarrow> u8 list" where
  "le16 w = [ucast w, ucast (drop_bit 8 w)]"

definition sensor_answer :: "bool \<Rightarrow> u16 \<Rightarrow> out_t \<Rightarrow> out_t option" where
  "sensor_answer ack i out = do {
     ob \<leftarrow> wr (output_buf out) 0 (if ack then RSP_OK else RSP_ERR);
     ob \<leftarrow> blit ob 1 (le16 i);
     Some (out\<lparr>output_buf := ob, output_len := 3\<rparr>) }"

definition codey_sensor_report_request :: "u8 list \<Rightarrow> u32 \<Rightarrow> out_t \<Rightarrow> sensor_reports \<Rightarrow> (out_t \<times> sensor_reports) option" where
  "codey_sensor_report_request data len out s = do {
     let s = s\<lparr>sr_module_init := True\<rparr>;
     c \<leftarrow> rd data 0;
     if c = REQ_REPORT then do {
       i \<leftarrow> codey_read_short data 1;
       (ack, s) \<leftarrow> codey_sensor_report_req i s;
       out \<leftarrow> sensor_answer ack i out;
       Some (out, s) }
     else if c = REQ_STOP then do {
       i \<leftarrow> codey_read_short data 1;
       (ack, s) \<leftarrow> codey_sensor_report_stop i s;
       out \<leftarrow> sensor_answer ack i out;
       Some (out, s) }
     else if c = REPORT \<or> c = RSP_OK \<or> c = RSP_ERR then Some (out\<lparr>output_len := 0\<rparr>, s)
     else Some (out, s) }"

subsection \<open>Reports\<close>

definition codey_sensor_report_update :: "sensors \<Rightarrow> sensor_reports \<Rightarrow> sensor_reports option" where
  "codey_sensor_report_update d s = for_upto 0 (length (sr_tab s)) (\<lambda>i s. do {
     x \<leftarrow> rd (sr_tab s) i;
     if on_or_off x then do {
       c \<leftarrow> blit (cur_report_data x) 0 (le32 (get_data d (sensor_id x)));
       t \<leftarrow> wr (sr_tab s) i (x\<lparr>cur_report_data := c\<rparr>);
       Some (s\<lparr>sr_tab := t\<rparr>) }
     else Some s }) s"

text \<open>The frame that goes to the UART and to the BLE service.\<close>

definition codey_sensor_report_send :: "malloc \<Rightarrow> sensor_report_info_t \<Rightarrow> sensor_reports \<Rightarrow> (u8 list \<times> sensor_reports) option" where
  "codey_sensor_report_send malloc x s = do {
     b \<leftarrow> wr (sr_tx_buf s) 0 REPORT;
     b \<leftarrow> blit b 1 (le16 (sensor_id x));
     src \<leftarrow> slice (cur_report_data x) 0 (unat (report_data_len x));
     b \<leftarrow> blit b 3 src;
     out \<leftarrow> codey_comm_build_frame malloc SENSOR_REPORT_ID \<lparr>output_buf = b, output_len = 3 + ucast (report_data_len x)\<rparr>;
     sent \<leftarrow> slice (output_buf out) 0 (unat (output_len out));
     Some (sent, s\<lparr>sr_tx_buf := output_buf out\<rparr>) }"

text \<open>\<open>GET_TICK\<close> is read for every sensor before the comparison and again after a report.\<close>

definition codey_sensor_report_to_host :: "malloc \<Rightarrow> (nat \<Rightarrow> u32 \<times> u32) \<Rightarrow> sensor_reports \<Rightarrow> (u8 list list \<times> sensor_reports) option" where
  "codey_sensor_report_to_host malloc tick s = for_upto 0 (length (sr_tab s)) (\<lambda>i (sent, s). do {
     x \<leftarrow> rd (sr_tab s) i;
     if on_or_off x \<and> fst (tick i) - last_report_tick x > REPORT_MIN_DELAY_MS then do {
       old \<leftarrow> slice (last_report_data x) 0 (unat (report_data_len x));
       new \<leftarrow> slice (cur_report_data x) 0 (unat (report_data_len x));
       if old \<noteq> new then do {
         (f, s) \<leftarrow> codey_sensor_report_send malloc x s;
         d \<leftarrow> blit (last_report_data x) 0 new;
         t \<leftarrow> wr (sr_tab s) i (x\<lparr>last_report_tick := snd (tick i), last_report_data := d\<rparr>);
         Some (sent @ [f], s\<lparr>sr_tab := t\<rparr>) }
       else Some (sent, s) }
     else Some (sent, s) }) ([], s)"

text \<open>One round of the main loop.\<close>

definition codey_sensor_report_main_loop :: "malloc \<Rightarrow> sensors \<Rightarrow> (nat \<Rightarrow> u32 \<times> u32) \<Rightarrow> sensor_reports
    \<Rightarrow> (u8 list list \<times> sensor_reports) option" where
  "codey_sensor_report_main_loop malloc d tick s = do {
     s \<leftarrow> codey_sensor_report_update d s;
     codey_sensor_report_to_host malloc tick s }"

subsection \<open>A round of reports\<close>

definition sensor_ok :: "sensor_report_info_t \<Rightarrow> bool" where
  "sensor_ok x \<longleftrightarrow> report_data_len x = 4 \<and> length (last_report_data x) = REPORT_DATA_SIZE
     \<and> length (cur_report_data x) = REPORT_DATA_SIZE"

definition sr_ok :: "sensor_reports \<Rightarrow> bool" where
  "sr_ok s \<longleftrightarrow> (\<forall>x \<in> set (sr_tab s). sensor_ok x) \<and> distinct (map sensor_id (sr_tab s))
     \<and> length (sr_tx_buf s) = SENSOR_REPORT_TX_BUF_SIZE"

text \<open>The bytes of a value, whether it is reported, the frame of the report, and the entry after a round.\<close>

definition value_of :: "sensors \<Rightarrow> sensor_report_info_t \<Rightarrow> u8 list" where
  "value_of d x = le32 (get_data d (sensor_id x))"

definition report_due :: "sensors \<Rightarrow> u32 \<times> u32 \<Rightarrow> sensor_report_info_t \<Rightarrow> bool" where
  "report_due d tk x \<longleftrightarrow> on_or_off x \<and> fst tk - last_report_tick x > REPORT_MIN_DELAY_MS
     \<and> take 4 (last_report_data x) \<noteq> value_of d x"

definition report_frame :: "sensors \<Rightarrow> sensor_report_info_t \<Rightarrow> u8 list" where
  "report_frame d x = comm_frame (SENSOR_REPORT_ID # REPORT # le16 (sensor_id x) @ value_of d x)"

definition read_sensor :: "sensors \<Rightarrow> sensor_report_info_t \<Rightarrow> sensor_report_info_t" where
  "read_sensor d x = (if on_or_off x then x\<lparr>cur_report_data := value_of d x @ drop 4 (cur_report_data x)\<rparr> else x)"

definition after_round :: "sensors \<Rightarrow> u32 \<times> u32 \<Rightarrow> sensor_report_info_t \<Rightarrow> sensor_report_info_t" where
  "after_round d tk x = (if report_due d tk x
     then (read_sensor d x)\<lparr>last_report_tick := snd tk, last_report_data := value_of d x @ drop 4 (last_report_data x)\<rparr>
     else read_sensor d x)"

lemma sensor_ok_changes: "sensor_ok x \<Longrightarrow> sensor_ok (read_sensor d x)" "sensor_ok x \<Longrightarrow> sensor_ok (after_round d tk x)"
  by (auto simp: sensor_ok_def read_sensor_def after_round_def value_of_def REPORT_DATA_SIZE_def)

lemma same_id [simp]: "sensor_id (read_sensor d x) = sensor_id x" "sensor_id (after_round d tk x) = sensor_id x"
  "value_of d (read_sensor d x) = value_of d x"
  by (simp_all add: read_sensor_def after_round_def value_of_def)

text \<open>A table that is changed entry by entry.\<close>

lemma prefix_nth: "i < length t \<Longrightarrow> (map f [0..<i] @ drop i t) ! i = t ! i"
  by (simp add: nth_append)

lemma prefix_update: "i < length t \<Longrightarrow> (map f [0..<i] @ drop i t)[i := f i] = map f [0..<Suc i] @ drop (Suc i) t"
  by (simp add: list_update_append Cons_nth_drop_Suc [symmetric])

lemma prefix_same: "i < length t \<Longrightarrow> f i = t ! i \<Longrightarrow> map f [0..<i] @ drop i t = map f [0..<Suc i] @ drop (Suc i) t"
  by (simp add: Cons_nth_drop_Suc)

lemma update_run:
  assumes ok: "sr_ok s"
  shows "codey_sensor_report_update d s = Some (s\<lparr>sr_tab := map (read_sensor d) (sr_tab s)\<rparr>)"
proof -
  let ?t = "sr_tab s" and ?f = "\<lambda>i. read_sensor d (sr_tab s ! i)"
  have "\<exists>s'. codey_sensor_report_update d s = Some s' \<and> s' = s\<lparr>sr_tab := map ?f [0..<length ?t] @ drop (length ?t) ?t\<rparr>"
    unfolding codey_sensor_report_update_def
  proof (rule for_upto_rule)
    fix i s' assume i: "i < length ?t" and s': "s' = s\<lparr>sr_tab := map ?f [0..<i] @ drop i ?t\<rparr>"
    have "sensor_ok (?t ! i)" using ok i by (simp add: sr_ok_def)
    then have b: "blit (cur_report_data (?t ! i)) 0 (value_of d (?t ! i)) = Some (value_of d (?t ! i) @ drop 4 (cur_report_data (?t ! i)))"
      by (simp add: sensor_ok_def blit_in value_of_def REPORT_DATA_SIZE_def)
    have l: "i < length (sr_tab s')" using i s' by simp
    have r: "rd (sr_tab s') i = Some (?t ! i)" using l i s' by (simp add: rd_in prefix_nth)
    show "\<exists>s''. do {
        x \<leftarrow> rd (sr_tab s') i;
        if on_or_off x then do {
          c \<leftarrow> blit (cur_report_data x) 0 (le32 (get_data d (sensor_id x)));
          t \<leftarrow> wr (sr_tab s') i (x\<lparr>cur_report_data := c\<rparr>);
          Some (s'\<lparr>sr_tab := t\<rparr>) }
        else Some s' } = Some s'' \<and> s'' = s\<lparr>sr_tab := map ?f [0..<Suc i] @ drop (Suc i) ?t\<rparr>"
    proof (cases "on_or_off (?t ! i)")
      case True
      have "wr (sr_tab s') i (?f i) = Some (map ?f [0..<Suc i] @ drop (Suc i) ?t)"
        using l i s' prefix_update [of i ?t ?f] by (simp add: wr_in)
      then show ?thesis using r b True s' by (simp add: read_sensor_def value_of_def)
    next
      case False
      then have "?f i = ?t ! i" by (simp add: read_sensor_def)
      then show ?thesis using r False s' prefix_same [OF i, of ?f] by simp
    qed
  qed simp_all
  then show ?thesis by (simp add: map_nth flip: map_map [unfolded o_def])
qed

lemma sensor_send_run:
  assumes mem: "malloc_ok malloc" "malloc 14 = Some m" and x: "sensor_ok x" and tx: "length (sr_tx_buf s) = SENSOR_REPORT_TX_BUF_SIZE"
  shows "\<exists>b. codey_sensor_report_send malloc x s
      = Some (comm_frame (SENSOR_REPORT_ID # REPORT # le16 (sensor_id x) @ take 4 (cur_report_data x)), s\<lparr>sr_tx_buf := b\<rparr>)
    \<and> length b = SENSOR_REPORT_TX_BUF_SIZE"
proof -
  let ?N = SENSOR_REPORT_TX_BUF_SIZE and ?v = "take 4 (cur_report_data x)"
  let ?d = "REPORT # le16 (sensor_id x) @ ?v"
  have N: "?N = 16" by (simp add: SENSOR_REPORT_TX_BUF_SIZE_def)
  have len: "length (le16 (sensor_id x)) = 2" "length ?v = 4" "unat (report_data_len x) = 4"
    using x by (simp_all add: le16_def sensor_ok_def REPORT_DATA_SIZE_def)
  obtain b1 where b1: "wr (sr_tx_buf s) 0 REPORT = Some b1" "filled b1 [REPORT] ?N"
    using filled_wr [OF filled_empty, of 0 "sr_tx_buf s" REPORT] tx N by auto
  obtain b2 where b2: "blit b1 1 (le16 (sensor_id x)) = Some b2" "filled b2 ([REPORT] @ le16 (sensor_id x)) ?N"
    using filled_blit [OF b1(2), of 1 "le16 (sensor_id x)"] len N by auto
  obtain b3 where b3: "blit b2 3 ?v = Some b3" "filled b3 (([REPORT] @ le16 (sensor_id x)) @ ?v) ?N"
    using filled_blit [OF b2(2), of 3 ?v] len N by auto
  have sl: "slice (cur_report_data x) 0 4 = Some ?v" using x by (simp add: sensor_ok_def slice_in REPORT_DATA_SIZE_def)
  have d: "take 7 b3 = ?d" "length b3 = 16" using b3(2) len N by (simp_all add: filled_def)
  obtain out where out: "codey_comm_build_frame malloc SENSOR_REPORT_ID \<lparr>output_buf = b3, output_len = 7\<rparr> = Some out"
      "output_len out = 14" "filled (output_buf out) (comm_frame (SENSOR_REPORT_ID # ?d)) 16"
    using comm_build_frame_ok [of malloc 7 m "\<lparr>output_buf = b3, output_len = 7\<rparr>" SENSOR_REPORT_ID] mem d by auto
  have "length (comm_frame (SENSOR_REPORT_ID # ?d)) = 14" using len by (simp add: comm_frame_def Let_def)
  then have "slice (output_buf out) 0 (unat (output_len out)) = Some (comm_frame (SENSOR_REPORT_ID # ?d))"
    using out(2,3) by (simp add: filled_def slice_in)
  moreover have "3 + ucast (report_data_len x) = (7 :: u32)" using x by (simp add: sensor_ok_def)
  ultimately show ?thesis
    using b1(1) b2(1) b3(1) sl len(3) out(1,3)
    by (intro exI [of _ "output_buf out"]) (simp add: codey_sensor_report_send_def filled_def N)
qed

lemma to_host_run:
  assumes mem: "malloc_ok malloc" "malloc 14 = Some m" and ok: "sr_ok s" and s1: "s1 = s\<lparr>sr_tab := map (read_sensor d) (sr_tab s)\<rparr>"
  shows "\<exists>s'. codey_sensor_report_to_host malloc tick s1
      = Some (concat (map (\<lambda>i. if report_due d (tick i) (sr_tab s ! i) then [report_frame d (sr_tab s ! i)] else [])
          [0..<length (sr_tab s)]), s')
    \<and> sr_tab s' = map (\<lambda>i. after_round d (tick i) (sr_tab s ! i)) [0..<length (sr_tab s)]
    \<and> length (sr_tx_buf s') = SENSOR_REPORT_TX_BUF_SIZE"
proof -
  let ?t = "sr_tab s" and ?f = "\<lambda>i. after_round d (tick i) (sr_tab s ! i)"
    and ?g = "\<lambda>i. if report_due d (tick i) (sr_tab s ! i) then [report_frame d (sr_tab s ! i)] else []"
  let ?P = "\<lambda>i (sent, s' :: sensor_reports). sent = concat (map ?g [0..<i]) \<and> sr_tab s' = map ?f [0..<i] @ drop i (sr_tab s1)
    \<and> length (sr_tx_buf s') = SENSOR_REPORT_TX_BUF_SIZE"
  have l1: "length (sr_tab s1) = length ?t" by (simp add: s1)
  have "\<exists>r. codey_sensor_report_to_host malloc tick s1 = Some r \<and> ?P (length ?t) r"
    unfolding codey_sensor_report_to_host_def l1
  proof (rule for_upto_rule)
    show "?P 0 ([], s1)" using ok by (simp add: s1 sr_ok_def)
    fix i r assume i: "i < length ?t" and r: "?P i r"
    obtain sent s' where r': "r = (sent, s')" by (cases r)
    have st: "sent = concat (map ?g [0..<i])" "sr_tab s' = map ?f [0..<i] @ drop i (sr_tab s1)"
      "length (sr_tx_buf s') = SENSOR_REPORT_TX_BUF_SIZE"
      using r by (simp_all add: r')
    let ?x = "read_sensor d (?t ! i)"
    have x: "sensor_ok (?t ! i)" "sensor_ok ?x" using ok i sensor_ok_changes(1) by (simp_all add: sr_ok_def)
    have i1: "i < length (sr_tab s1)" using i l1 by simp
    have rdx: "rd (sr_tab s') i = Some ?x" using i i1 st(2) prefix_nth [OF i1, of ?f] by (simp add: rd_in s1)
    have cut: "slice (last_report_data ?x) 0 (unat (report_data_len ?x)) = Some (take 4 (last_report_data ?x))"
      "slice (cur_report_data ?x) 0 (unat (report_data_len ?x)) = Some (take 4 (cur_report_data ?x))"
      using x(2) by (simp_all add: sensor_ok_def slice_in REPORT_DATA_SIZE_def)
    have last: "last_report_data ?x = last_report_data (?t ! i)" "last_report_tick ?x = last_report_tick (?t ! i)"
      "on_or_off ?x = on_or_off (?t ! i)"
      by (simp_all add: read_sensor_def)
    have cur: "on_or_off (?t ! i) \<Longrightarrow> take 4 (cur_report_data ?x) = value_of d (?t ! i)"
      by (simp add: read_sensor_def value_of_def)
    show "\<exists>r'. (case r of (sent, s') \<Rightarrow> do {
        x \<leftarrow> rd (sr_tab s') i;
        if on_or_off x \<and> fst (tick i) - last_report_tick x > REPORT_MIN_DELAY_MS then do {
          old \<leftarrow> slice (last_report_data x) 0 (unat (report_data_len x));
          new \<leftarrow> slice (cur_report_data x) 0 (unat (report_data_len x));
          if old \<noteq> new then do {
            (f, s) \<leftarrow> codey_sensor_report_send malloc x s';
            d \<leftarrow> blit (last_report_data x) 0 new;
            t \<leftarrow> wr (sr_tab s) i (x\<lparr>last_report_tick := snd (tick i), last_report_data := d\<rparr>);
            Some (sent @ [f], s\<lparr>sr_tab := t\<rparr>) }
          else Some (sent, s') }
        else Some (sent, s') }) = Some r' \<and> ?P (Suc i) r'"
    proof (cases "report_due d (tick i) (?t ! i)")
      case True
      then have due: "on_or_off (?t ! i)" "fst (tick i) - last_report_tick (?t ! i) > REPORT_MIN_DELAY_MS"
          "take 4 (last_report_data (?t ! i)) \<noteq> value_of d (?t ! i)" by (simp_all add: report_due_def)
      obtain b where b: "codey_sensor_report_send malloc ?x s' = Some (report_frame d (?t ! i), s'\<lparr>sr_tx_buf := b\<rparr>)"
          "length b = SENSOR_REPORT_TX_BUF_SIZE"
        using sensor_send_run [OF mem x(2) st(3)] cur [OF due(1)] by (auto simp: report_frame_def)
      have bl: "blit (last_report_data ?x) 0 (value_of d (?t ! i)) = Some (value_of d (?t ! i) @ drop 4 (last_report_data (?t ! i)))"
        using x(2) last(1) by (simp add: sensor_ok_def blit_in value_of_def REPORT_DATA_SIZE_def)
      have "wr (sr_tab (s'\<lparr>sr_tx_buf := b\<rparr>)) i (?f i) = Some (map ?f [0..<Suc i] @ drop (Suc i) (sr_tab s1))"
        using i1 st(2) prefix_update [OF i1, of ?f] by (simp add: wr_in)
      moreover have "?f i = ?x\<lparr>last_report_tick := snd (tick i), last_report_data := value_of d (?t ! i) @ drop 4 (last_report_data (?t ! i))\<rparr>"
        using True by (simp add: after_round_def)
      ultimately show ?thesis
        using rdx cut last cur [OF due(1)] due b bl st(1) True by (simp add: r')
    next
      case False
      have f: "?f i = sr_tab s1 ! i" using False i by (simp add: after_round_def s1)
      then have "sr_tab s' = map ?f [0..<Suc i] @ drop (Suc i) (sr_tab s1)" using st(2) prefix_same [of i "sr_tab s1" ?f] i1 by simp
      then show ?thesis
        using rdx cut last cur False st by (auto simp: r' report_due_def)
    qed
  qed simp_all
  then obtain sent s' where "codey_sensor_report_to_host malloc tick s1 = Some (sent, s')" "?P (length ?t) (sent, s')" by auto
  then show ?thesis using l1 by (intro exI [of _ s']) simp
qed

subsection \<open>Requests of the host\<close>

definition switched :: "u8 \<Rightarrow> u16 \<Rightarrow> sensor_report_info_t \<Rightarrow> sensor_report_info_t" where
  "switched cmd i x = (if sensor_id x \<noteq> i then x
     else if cmd = REQ_REPORT then x\<lparr>on_or_off := True, last_report_data := replicate REPORT_DATA_SIZE 0\<rparr>
     else x\<lparr>on_or_off := False\<rparr>)"

lemma switched_id [simp]: "sensor_id (switched cmd i x) = sensor_id x"
  by (simp add: switched_def)

lemma find_sensor_Some: "find_sensor xs i = Some p \<Longrightarrow> p < length xs \<and> sensor_id (xs ! p) = i"
  by (induction xs arbitrary: p) (auto split: if_splits)

lemma find_sensor_None: "find_sensor xs i = None \<longleftrightarrow> i \<notin> sensor_id ` set xs"
  by (induction xs) auto

lemma update_only:
  assumes "distinct (map sensor_id xs)" and "p < length xs" and "sensor_id (xs ! p) = i"
  shows "xs[p := switched cmd i (xs ! p)] = map (switched cmd i) xs"
proof (rule nth_equalityI)
  fix q assume q: "q < length (xs[p := switched cmd i (xs ! p)])"
  show "xs[p := switched cmd i (xs ! p)] ! q = map (switched cmd i) xs ! q"
  proof (cases "q = p")
    case False
    then have "sensor_id (xs ! q) \<noteq> i"
      using assms q nth_eq_iff_index_eq [of "map sensor_id xs" p q] by auto
    then show ?thesis using False q by (simp add: switched_def)
  qed (use q in simp)
qed simp

lemma switched_none: "i \<notin> sensor_id ` set xs \<Longrightarrow> map (switched cmd i) xs = xs"
  by (rule map_idI) (auto simp: switched_def)

lemma req_run:
  assumes ok: "sr_ok s"
  shows "codey_sensor_report_req i s = Some (i \<in> sensor_id ` set (sr_tab s), s\<lparr>sr_tab := map (switched REQ_REPORT i) (sr_tab s)\<rparr>)"
proof (cases "find_sensor (sr_tab s) i")
  case None
  then have "i \<notin> sensor_id ` set (sr_tab s)" by (simp add: find_sensor_None)
  then show ?thesis
    using None by (simp add: codey_sensor_report_req_def codey_sensor_report_find_info_by_id_def switched_none)
next
  case (Some p)
  note p = find_sensor_Some [OF Some, THEN conjunct1] find_sensor_Some [OF Some, THEN conjunct2]
  have "length (last_report_data (sr_tab s ! p)) = REPORT_DATA_SIZE" using ok p by (simp add: sr_ok_def sensor_ok_def)
  then have b: "blit (last_report_data (sr_tab s ! p)) 0 (replicate REPORT_DATA_SIZE 0) = Some (replicate REPORT_DATA_SIZE 0)"
    by (simp add: blit_in)
  have "i \<in> sensor_id ` set (sr_tab s)" using p by force
  then show ?thesis
    using Some p b ok update_only [of "sr_tab s" p i REQ_REPORT]
    by (simp add: codey_sensor_report_req_def codey_sensor_report_find_info_by_id_def rd_in wr_in sr_ok_def switched_def)
qed

lemma stop_run:
  assumes ok: "sr_ok s"
  shows "codey_sensor_report_stop i s = Some (i \<in> sensor_id ` set (sr_tab s), s\<lparr>sr_tab := map (switched REQ_STOP i) (sr_tab s)\<rparr>)"
proof (cases "find_sensor (sr_tab s) i")
  case None
  then have "i \<notin> sensor_id ` set (sr_tab s)" by (simp add: find_sensor_None)
  then show ?thesis
    using None by (simp add: codey_sensor_report_stop_def codey_sensor_report_find_info_by_id_def switched_none)
next
  case (Some p)
  note p = find_sensor_Some [OF Some, THEN conjunct1] find_sensor_Some [OF Some, THEN conjunct2]
  have "i \<in> sensor_id ` set (sr_tab s)" using p by force
  then show ?thesis
    using Some p ok update_only [of "sr_tab s" p i REQ_STOP]
    by (simp add: codey_sensor_report_stop_def codey_sensor_report_find_info_by_id_def rd_in wr_in sr_ok_def switched_def sensor_cmds)
qed

lemma read_short_le16: "codey_read_short (c # le16 i @ rest) 1 = Some i"
proof -
  have "ucast (ucast i :: u8) OR push_bit 8 (ucast (ucast (drop_bit 8 i) :: u8)) = i"
    by (rule bit_word_eqI) (auto simp: bit_simps)
  then show ?thesis by (simp add: codey_read_short_def codey_read_buffer_def rd_def le16_def)
qed

definition status :: "bool \<Rightarrow> u16 \<Rightarrow> u8 list" where
  "status ack i = (if ack then RSP_OK else RSP_ERR) # le16 i"

lemma answer_run:
  assumes "3 \<le> length (output_buf out)"
  shows "\<exists>o2. sensor_answer ack i out = Some o2 \<and> output_len o2 = 3 \<and> length (output_buf o2) = length (output_buf out)
    \<and> take 3 (output_buf o2) = status ack i"
proof -
  let ?r = "if ack then RSP_OK else RSP_ERR"
  have l: "length (le16 i) = 2" by (simp add: le16_def)
  obtain b1 where b1: "wr (output_buf out) 0 ?r = Some b1" "filled b1 [?r] (length (output_buf out))"
    using filled_wr [OF filled_empty, of 0 "output_buf out" ?r] assms by (cases "output_buf out") auto
  obtain b2 where "blit b1 1 (le16 i) = Some b2" "filled b2 ([?r] @ le16 i) (length (output_buf out))"
    using filled_blit [OF b1(2), of 1 "le16 i"] assms l by auto
  then show ?thesis using b1(1) l by (simp add: sensor_answer_def filled_def status_def)
qed

definition sensor_report_handler :: "(sensor_reports \<times> 'w) pf_protocol_t" where
  "sensor_report_handler chn data len out env = do {
     (out, s) \<leftarrow> codey_sensor_report_request data len out (fst (snd env));
     Some (out, fst env, s, snd (snd env)) }"

lemma handler_run:
  assumes ok: "sr_ok (fst w)" and cmd: "cmd = REQ_REPORT \<or> cmd = REQ_STOP" and out: "3 \<le> length (output_buf o1)"
  shows "\<exists>o2. sensor_report_handler chn ((cmd # le16 i) @ rest) len o1 (dev, w)
      = Some (o2, dev, (fst w)\<lparr>sr_module_init := True, sr_tab := map (switched cmd i) (sr_tab (fst w))\<rparr>, snd w)
    \<and> output_len o2 = 3 \<and> length (output_buf o2) = length (output_buf o1)
    \<and> take 3 (output_buf o2) = status (i \<in> sensor_id ` set (sr_tab (fst w))) i"
proof -
  let ?s = "(fst w)\<lparr>sr_module_init := True\<rparr>" and ?ack = "i \<in> sensor_id ` set (sr_tab (fst w))"
  have ok': "sr_ok ?s" using ok by (simp add: sr_ok_def)
  obtain o2 where o2: "sensor_answer ?ack i o1 = Some o2" "output_len o2 = 3" "length (output_buf o2) = length (output_buf o1)"
      "take 3 (output_buf o2) = status ?ack i"
    using answer_run [OF out] by blast
  have "codey_sensor_report_request ((cmd # le16 i) @ rest) len o1 (fst w)
      = Some (o2, ?s\<lparr>sr_tab := map (switched cmd i) (sr_tab (fst w))\<rparr>)"
    using cmd o2(1) req_run [OF ok', of i] stop_run [OF ok', of i] read_short_le16 [of cmd i rest]
    by (elim disjE) (simp_all add: codey_sensor_report_request_def rd_def sensor_cmds)
  then show ?thesis using o2(2-4) by (simp add: sensor_report_handler_def)
qed

subsection \<open>Properties\<close>

definition sr_init :: sensor_reports where
  "sr_init = \<lparr>sr_tab = s_sensor_report_info_tab, sr_tx_buf = replicate 16 0, sr_module_init = False\<rparr>"

lemma sr_init_ok: "sr_ok sr_init"
  by (simp add: sr_ok_def sr_init_def s_sensor_report_info_tab_def sensor_ok_def REPORT_DATA_SIZE_def SENSOR_REPORT_TX_BUF_SIZE_def)

text \<open>
  C29. A round of the report task sends, in the order of the table, exactly one frame for every sensor that is on, whose
  last report is more than 200 ms old and whose present value differs from the last reported one; the frame is the
  F3 frame of the id and the value.  The sent values become the last reported ones, nothing else
  changes, and the table stays well formed.
\<close>

theorem sensor_round:
  assumes "malloc_ok malloc" and "malloc 14 = Some m" and "sr_ok s"
  shows "\<exists>s'. codey_sensor_report_main_loop malloc d tick s
      = Some (concat (map (\<lambda>i. if report_due d (tick i) (sr_tab s ! i) then [report_frame d (sr_tab s ! i)] else [])
          [0..<length (sr_tab s)]), s')
    \<and> sr_ok s' \<and> sr_tab s' = map (\<lambda>i. after_round d (tick i) (sr_tab s ! i)) [0..<length (sr_tab s)]"
proof -
  obtain s' where s': "codey_sensor_report_to_host malloc tick (s\<lparr>sr_tab := map (read_sensor d) (sr_tab s)\<rparr>)
      = Some (concat (map (\<lambda>i. if report_due d (tick i) (sr_tab s ! i) then [report_frame d (sr_tab s ! i)] else [])
          [0..<length (sr_tab s)]), s')"
    "sr_tab s' = map (\<lambda>i. after_round d (tick i) (sr_tab s ! i)) [0..<length (sr_tab s)]"
    "length (sr_tx_buf s') = SENSOR_REPORT_TX_BUF_SIZE"
    using to_host_run [OF assms refl] by blast
  have ids: "map sensor_id (sr_tab s') = map sensor_id (sr_tab s)" unfolding s'(2) by (rule nth_equalityI) simp_all
  have "sensor_ok x" if x: "x \<in> set (sr_tab s')" for x
  proof -
    obtain i where "i < length (sr_tab s)" "x = after_round d (tick i) (sr_tab s ! i)" using x unfolding s'(2) by auto
    then show ?thesis using assms(3) sensor_ok_changes(2) by (simp add: sr_ok_def)
  qed
  then have "sr_ok s'" using assms(3) s'(3) ids by (simp add: sr_ok_def)
  then show ?thesis
    unfolding codey_sensor_report_main_loop_def update_run [OF assms(3)] Option.bind.simps using s'(1,2) by blast
qed

text \<open>Three sensors are on: the sound has changed, the light has not, and the dial was reported 100 ms ago.\<close>

definition demo_sensors :: sensors where
  "demo_sensors = \<lparr>codey_sound_sensor_value_t = 0x41200000, codey_light_sensor_value_t = 0, codey_dail_sensor_value_t = 0x40000000,
     codey_gyro_sensor_value_t = (\<lambda>n. 0), codey_battery_check_get_capacity = 0, codey_timer_value_t = 0\<rparr>"

definition demo_reports :: sensor_reports where
  "demo_reports = sr_init\<lparr>sr_tab := map (\<lambda>x. if sensor_id x \<le> 3
     then x\<lparr>on_or_off := True, last_report_tick := (if sensor_id x = 3 then 900 else 0)\<rparr> else x) (sr_tab sr_init)\<rparr>"

lemma demo_reports_ok: "sr_ok demo_reports"
  by (simp add: demo_reports_def sr_ok_def sr_init_def s_sensor_report_info_tab_def sensor_ok_def REPORT_DATA_SIZE_def SENSOR_REPORT_TX_BUF_SIZE_def)

theorem sensor_round_witness:
  "\<exists>s'. codey_sensor_report_main_loop (\<lambda>n. Some (replicate n 0)) demo_sensors (\<lambda>i. (1000, 1001)) demo_reports
      = Some ([comm_frame [4, 3, 1, 0, 0, 0, 0x20, 0x41]], s')
    \<and> sr_ok s' \<and> map last_report_tick (sr_tab s') = [1001, 0, 900, 0, 0, 0, 0, 0, 0, 0, 0]
    \<and> take 4 (last_report_data (hd (sr_tab s'))) = [0, 0, 0x20, 0x41]"
proof -
  have sent: "concat (map (\<lambda>i. if report_due demo_sensors (1000, 1001) (sr_tab demo_reports ! i)
      then [report_frame demo_sensors (sr_tab demo_reports ! i)] else []) [0..<length (sr_tab demo_reports)])
    = [comm_frame [4, 3, 1, 0, 0, 0, 0x20, 0x41]]" by code_simp
  have kept: "map last_report_tick (map (\<lambda>i. after_round demo_sensors (1000, 1001) (sr_tab demo_reports ! i)) [0..<length (sr_tab demo_reports)])
      = [1001, 0, 900, 0, 0, 0, 0, 0, 0, 0, 0]"
    "take 4 (last_report_data (hd (map (\<lambda>i. after_round demo_sensors (1000, 1001) (sr_tab demo_reports ! i)) [0..<length (sr_tab demo_reports)])))
      = [0, 0, 0x20, 0x41]" by code_simp+
  have m: "malloc_ok (\<lambda>n. Some (replicate n 0))" by (simp add: malloc_ok_def)
  obtain s' where "codey_sensor_report_main_loop (\<lambda>n. Some (replicate n 0)) demo_sensors (\<lambda>i. (1000, 1001)) demo_reports
      = Some ([comm_frame [4, 3, 1, 0, 0, 0, 0x20, 0x41]], s')" "sr_ok s'"
    "sr_tab s' = map (\<lambda>i. after_round demo_sensors (1000, 1001) (sr_tab demo_reports ! i)) [0..<length (sr_tab demo_reports)]"
    using sensor_round [OF m refl demo_reports_ok, of demo_sensors "\<lambda>i. (1000, 1001)"] unfolding sent by blast
  then show ?thesis using kept by (intro exI [of _ s']) simp
qed

text \<open>
  A host that sends the frame of a report request for a sensor gets the framed answer: OK with the id when the
  sensor exists, which then is on with no value reported yet (or off after a stop request), and an error with the
  id otherwise; no other sensor is touched.
\<close>

theorem sensor_request_answered:
  assumes "malloc_ok malloc" and "malloc 10 = Some m" and "length tmp = 32" and "comm_ok st" and "chn < 2"
    and "64 \<le> length (output_buf out)" and "fsm_s (s_fsm_tab st ! chn) = S_HEAD"
    and "length (fsm_data (s_fsm_tab st ! chn)) = FRAME_DATA_MAX_LEN"
    and "length tab = PROTOCOL_NUM" and "tab ! 4 = Some sensor_report_handler" and "sr_ok (fst (comm_world st))"
    and "cmd = REQ_REPORT \<or> cmd = REQ_STOP"
  shows "\<exists>out' st'. comm_pump_all malloc tmp tab chn (comm_frame (SENSOR_REPORT_ID # cmd # le16 i)) out st = Some (out', st')
    \<and> output_len out' = 10
    \<and> take 10 (output_buf out') = comm_frame (SENSOR_REPORT_ID # status (i \<in> sensor_id ` set (sr_tab (fst (comm_world st)))) i)
    \<and> comm_world st' = ((fst (comm_world st))\<lparr>sr_module_init := True,
        sr_tab := map (switched cmd i) (sr_tab (fst (comm_world st)))\<rparr>, snd (comm_world st))"
proof -
  let ?w = "comm_world st" and ?reply = "status (i \<in> sensor_id ` set (sr_tab (fst (comm_world st)))) i"
  let ?w' = "((fst ?w)\<lparr>sr_module_init := True, sr_tab := map (switched cmd i) (sr_tab (fst ?w))\<rparr>, snd ?w)"
  have m: "malloc (3 + 7) = Some m" using assms(2) by simp
  obtain out' st' where o: "comm_pump_all malloc tmp tab chn (comm_frame (SENSOR_REPORT_ID # cmd # le16 i)) out st = Some (out', st')"
    "comm_world st' = ?w'" "output_len out' = of_nat (3 + 7)"
    "filled (output_buf out') (comm_frame (SENSOR_REPORT_ID # ?reply)) (length (output_buf out))"
  proof -
    have "\<exists>out' st'. comm_pump_all malloc tmp tab chn (comm_frame (SENSOR_REPORT_ID # cmd # le16 i)) out st = Some (out', st')
        \<and> comm_world st' = ?w' \<and> fsm_s (s_fsm_tab st' ! chn) = S_HEAD \<and> output_len out' = of_nat (3 + 7)
        \<and> filled (output_buf out') (comm_frame (SENSOR_REPORT_ID # ?reply)) (length (output_buf out))"
    proof (rule comm_request [OF assms(1) m assms(3-8), where pf = sensor_report_handler])
      fix rest and o1 :: out_t and dev
      assume "length (output_buf o1) = length (output_buf out)"
      then have "3 \<le> length (output_buf o1)" "length (output_buf o1) = length (output_buf out)" using assms(6) by simp_all
      then show "\<exists>o2 dev'. sensor_report_handler chn ((cmd # le16 i) @ rest) (of_nat (length (cmd # le16 i))) o1 (dev, ?w)
          = Some (o2, dev', ?w') \<and> output_len o2 = of_nat 3 \<and> length (output_buf o2) = length (output_buf out)
        \<and> take 3 (output_buf o2) = ?reply"
        using handler_run [OF assms(11,12), of o1 chn i rest "of_nat (length (cmd # le16 i))" dev] by auto
    qed (use assms(6,9,10) in \<open>simp_all add: SENSOR_REPORT_ID_def PROTOCOL_NUM_def FRAME_DATA_MAX_LEN_def le16_def\<close>)
    then show thesis using that by blast
  qed
  have "length (comm_frame (SENSOR_REPORT_ID # ?reply)) = 10" by (simp add: comm_frame_def Let_def status_def le16_def)
  then have "take 10 (output_buf out') = comm_frame (SENSOR_REPORT_ID # ?reply)" using o(4) by (simp add: filled_def)
  then show ?thesis using o(1-3) by (intro exI [of _ out'] exI [of _ st']) simp
qed

theorem sensor_request_answered_witness:
  "\<exists>out' st'. comm_pump_all (\<lambda>n. Some (replicate n 0)) (replicate 32 0) ([None, None, None, None, Some sensor_report_handler] @ replicate 8 None)
      0 (comm_frame (SENSOR_REPORT_ID # REQ_REPORT # le16 2)) \<lparr>output_buf = replicate 64 0, output_len = 0\<rparr>
      (comm_init device_init (sr_init, ())) = Some (out', st')
    \<and> output_len out' = 10
    \<and> take 10 (output_buf out') = comm_frame (SENSOR_REPORT_ID # status (2 \<in> sensor_id ` set (sr_tab (fst (comm_world (comm_init device_init (sr_init, ())))))) 2)
    \<and> comm_world st' = ((fst (comm_world (comm_init device_init (sr_init, ()))))\<lparr>sr_module_init := True,
        sr_tab := map (switched REQ_REPORT 2) (sr_tab (fst (comm_world (comm_init device_init (sr_init, ())))))\<rparr>, snd (comm_world (comm_init device_init (sr_init, ()))))"
  by (rule sensor_request_answered [OF _ _ _ comm_init_ok [OF device_init_ok]])
     (simp_all add: malloc_ok_def comm_init_def fsm_init_def FRAME_DATA_MAX_LEN_def PROTOCOL_NUM_def sr_init_ok)

text \<open>
  A request sets the last reported value to zero bytes, so a sensor whose value is 0.0 is not reported
  after its request until the value changes.
\<close>

lemma zero_not_reported:
  assumes "get_data d (sensor_id x) = 0"
  shows "\<not> report_due d tk (switched REQ_REPORT (sensor_id x) x)"
proof -
  have "le32 0 = take 4 (replicate 8 (0 :: u8))" by (simp add: le32_def numeral_eq_Suc)
  then show ?thesis using assms by (simp add: report_due_def switched_def value_of_def REPORT_DATA_SIZE_def)
qed

end
