(* ===== verification/Codey_Commands.thy ===== *)
theory Codey_Commands
  imports Comm_Protocol Codey_Ble
begin

text \<open>
  The small protocol handlers behind the F3 frames: MAC address, firmware, DTR, ready, channel,
  product test, baud rate and file system reads (the files \<open>sys/codey_get_mac.c\<close>,
  \<open>codey_firmware.c\<close>, \<open>codey_dtr_req.c\<close>, \<open>codey_ready_notify.c\<close>, \<open>codey_get_chn.c\<close>,
  \<open>codey_product_test.c\<close>, \<open>codey_baudrate_setting.c\<close> and \<open>codey_get_filesys.c\<close>).
  What they ask of the chip and the operating system is an argument of the definitions.
\<close>

subsection \<open>MAC address\<close>

text \<open>
  \<open>efuse\<close> is \<open>esp_efuse_mac_get_default\<close>: the six bytes of the base address, or \<open>None\<close>
  for an error.  The pointers the dispatcher passes are never null.
\<close>

definition MAC_ADDR_LEN :: nat where "MAC_ADDR_LEN = 6"

definition codey_get_mac_check_len :: "u32 \<Rightarrow> bool" where
  "codey_get_mac_check_len len \<longleftrightarrow> len = 1"

definition codey_get_mac :: "u8 list option \<Rightarrow> u8 list \<Rightarrow> u32 \<Rightarrow> out_t \<Rightarrow> out_t option" where
  "codey_get_mac efuse data len out =
     (if len = 0 then Some out
      else if \<not> codey_get_mac_check_len len then Some out
      else do {
        mac_addr_id \<leftarrow> rd data 0;
        ob \<leftarrow> wr (output_buf out) 0 mac_addr_id;
        ob \<leftarrow> (case efuse of
            Some mac \<Rightarrow> do {
              ob \<leftarrow> blit ob 1 mac;
              if mac_addr_id = 1 then do {
                b \<leftarrow> rd ob (1 + MAC_ADDR_LEN - 1);
                wr ob (1 + MAC_ADDR_LEN - 1) (b + 0) }
              else if mac_addr_id = 2 then do {
                b \<leftarrow> rd ob (1 + MAC_ADDR_LEN - 1);
                wr ob (1 + MAC_ADDR_LEN - 1) (b + 2) }
              else blit ob 1 (replicate MAC_ADDR_LEN 0) }
          | None \<Rightarrow> blit ob 1 (replicate MAC_ADDR_LEN 0));
        Some (out\<lparr>output_buf := ob, output_len := 1 + of_nat MAC_ADDR_LEN\<rparr>) })"

lemma get_mac_answers:
  assumes "efuse = Some [a, b, c, d, e, f]" and "7 \<le> length (output_buf out)"
  shows "\<exists>out'. codey_get_mac efuse (i # rest) 1 out = Some out' \<and> output_len out' = 7
    \<and> filled (output_buf out') (i # (if i = 1 then [a, b, c, d, e, f]
        else if i = 2 then [a, b, c, d, e, f + 2] else replicate 6 0)) (length (output_buf out))"
proof -
  obtain x0 x1 x2 x3 x4 x5 x6 xs where "output_buf out = x0 # x1 # x2 # x3 # x4 # x5 # x6 # xs"
    using assms(2) by (auto simp: Suc_le_length_iff numeral_eq_Suc)
  then show ?thesis
    using assms(1)
    by (auto simp: codey_get_mac_def codey_get_mac_check_len_def rd_def wr_def blit_def MAC_ADDR_LEN_def
        filled_def numeral_eq_Suc)
qed

subsection \<open>Firmware, channel, ready and DTR\<close>

definition codey_comm_get_firmware :: "out_t \<Rightarrow> device \<Rightarrow> out_t option" where
  "codey_comm_get_firmware out dev = do {
     ob \<leftarrow> strcpy (output_buf out) (g_firmware dev);
     n \<leftarrow> strlen (g_firmware dev);
     Some (out\<lparr>output_buf := ob, output_len := of_nat n\<rparr>) }"

definition EXPECT_MODE :: u8 where "EXPECT_MODE = 1"

definition codey_get_chn :: "nat \<Rightarrow> u8 list \<Rightarrow> u32 \<Rightarrow> out_t \<Rightarrow> out_t option" where
  "codey_get_chn chn data len out =
     (if len = 0 then Some out
      else do {
        index \<leftarrow> rd data 0;
        mode \<leftarrow> rd data 1;
        if EXPECT_MODE \<noteq> mode then Some (out\<lparr>output_len := 0\<rparr>)
        else do {
          chn_str \<leftarrow> codey_get_chn_tag chn;
          case chn_str of
            None \<Rightarrow> Some (out\<lparr>output_len := 0\<rparr>)
          | Some chn_str \<Rightarrow> do {
              chn_str_len \<leftarrow> strlen chn_str;
              ob \<leftarrow> wr (output_buf out) 0 index;
              ob \<leftarrow> wr ob 1 4;
              ob \<leftarrow> wr ob 2 (of_nat chn_str_len);
              src \<leftarrow> slice chn_str 0 chn_str_len;
              ob \<leftarrow> blit ob 3 src;
              Some (out\<lparr>output_buf := ob, output_len := of_nat chn_str_len + 3\<rparr>) } } })"

definition READY_CMD :: u8 where "READY_CMD = 0"
definition READY_RSP :: u8 where "READY_RSP = 0x80"

definition codey_ready :: "u8 list \<Rightarrow> u32 \<Rightarrow> out_t \<Rightarrow> out_t option" where
  "codey_ready data len out =
     (if len = 0 then Some out
      else do {
        c \<leftarrow> rd data 0;
        if len = 1 \<and> c = READY_CMD then do {
          ob \<leftarrow> wr (output_buf out) 0 READY_RSP;
          Some (out\<lparr>output_buf := ob, output_len := 1\<rparr>) }
        else Some (out\<lparr>output_len := 0\<rparr>) })"

text \<open>
  \<open>codey_ready_notify\<close>: the 64-byte local buffer (whatever it holds), what goes to the UART and
  what the BLE stack takes.
\<close>

definition codey_ready_notify :: "malloc \<Rightarrow> (nat \<Rightarrow> bool \<times> bool) \<Rightarrow> u8 list
    \<Rightarrow> (u8 list \<times> int \<times> u8 list list) option" where
  "codey_ready_notify malloc link data = do {
     data \<leftarrow> wr data 0 READY_RSP;
     out \<leftarrow> codey_comm_build_frame malloc 8 \<lparr>output_buf = data, output_len = 1\<rparr>;
     uart \<leftarrow> slice (output_buf out) 0 (unat (output_len out));
     (ret, ble) \<leftarrow> codey_ble_dev_put_data link (output_buf out) (ucast (output_len out));
     Some (uart, ret, ble) }"

lemma ready_notify_sends:
  assumes "malloc_ok malloc" and "malloc 8 = Some m" and "length data = 64"
  shows "codey_ready_notify malloc (\<lambda>_. (True, True)) data
     = Some (comm_frame [8, READY_RSP], 0, [comm_frame [8, READY_RSP]])"
proof -
  let ?out = "\<lparr>output_buf = data[0 := READY_RSP], output_len = of_nat 1\<rparr>"
  have d: "take 1 (data[0 := READY_RSP]) = [READY_RSP]" using assms(3) by (cases data) auto
  obtain out where out: "codey_comm_build_frame malloc 8 ?out = Some out" "output_len out = 8"
    "filled (output_buf out) (comm_frame [8, READY_RSP]) 64"
    using comm_build_frame_ok [OF assms(1), of 1 m ?out 8] assms(2,3) d by auto
  have len: "length (comm_frame [8, READY_RSP]) = 8" by (simp add: comm_frame_def Let_def)
  then have uart: "slice (output_buf out) 0 8 = Some (comm_frame [8, READY_RSP])"
    using out(3) by (simp add: slice_def filled_def)
  have blocks: "codey_ble_dev_put_data (\<lambda>_. (True, True)) (output_buf out) 8 = Some (0, [comm_frame [8, READY_RSP]])"
    using uart by (simp add: codey_ble_dev_put_data_def ble_tx_block_def BLE_MAX_ONE_BLOCK_BYTES_def)
  show ?thesis
    using out(1,2) uart blocks assms(3) by (simp add: codey_ready_notify_def wr_in)
qed

text \<open>
  The DTR request gives one semaphore and waits at most two seconds for the other: \<open>give\<close> and
  \<open>take_sema\<close> are the two operating system calls.
\<close>

definition codey_dtr_req :: "('w \<Rightarrow> 'w) \<Rightarrow> ('w \<Rightarrow> bool \<times> 'w) \<Rightarrow> u8 list \<Rightarrow> u32 \<Rightarrow> out_t \<Rightarrow> 'w
    \<Rightarrow> (out_t \<times> 'w) option" where
  "codey_dtr_req give take_sema data len out w =
     (if len = 0 then Some (out, w)
      else if len \<noteq> 1 then Some (out, w)
      else do {
        c \<leftarrow> rd data 0;
        if c = 1 then
          (case take_sema (give w) of (ok, w) \<Rightarrow>
             if ok then do {
               ob \<leftarrow> wr (output_buf out) 0 2;
               Some (out\<lparr>output_buf := ob, output_len := 1\<rparr>, w) }
             else Some (out\<lparr>output_len := 0\<rparr>, w))
        else Some (out\<lparr>output_len := 0\<rparr>, w) })"

subsection \<open>Baud rates\<close>

datatype baudrate_e = BD_NULL | BD_9600 | BD_19200 | BD_38400 | BD_57600 | BD_115200 | BD_256000
  | BD_512000 | BD_921600

definition baudrate_code :: "baudrate_e \<Rightarrow> u8" where
  "baudrate_code b = (case b of BD_NULL \<Rightarrow> 0 | BD_9600 \<Rightarrow> 1 | BD_19200 \<Rightarrow> 2 | BD_38400 \<Rightarrow> 3
     | BD_57600 \<Rightarrow> 4 | BD_115200 \<Rightarrow> 5 | BD_256000 \<Rightarrow> 6 | BD_512000 \<Rightarrow> 7 | BD_921600 \<Rightarrow> 8)"

definition codey_comm_baudrate_to_enum :: "u32 \<Rightarrow> baudrate_e" where
  "codey_comm_baudrate_to_enum baudrate =
     (if 9600 - 9600 div 50 \<le> baudrate \<and> baudrate \<le> 9600 + 9600 div 50 then BD_9600
      else if 19200 - 19200 div 50 \<le> baudrate \<and> baudrate \<le> 19200 + 19200 div 50 then BD_19200
      else if 38400 - 38400 div 50 \<le> baudrate \<and> baudrate \<le> 38400 + 38400 div 50 then BD_38400
      else if 57600 - 57600 div 50 \<le> baudrate \<and> baudrate \<le> 57600 + 57600 div 50 then BD_57600
      else if 115200 - 115200 div 50 \<le> baudrate \<and> baudrate \<le> 115200 + 115200 div 50 then BD_115200
      else if 256000 - 256000 div 50 \<le> baudrate \<and> baudrate \<le> 256000 + 256000 div 50 then BD_256000
      else if 512000 - 512000 div 50 \<le> baudrate \<and> baudrate \<le> 512000 + 512000 div 50 then BD_512000
      else if 921000 - 921000 div 50 \<le> baudrate \<and> baudrate \<le> 921000 + 921000 div 50 then BD_921600
      else BD_NULL)"

text \<open>The argument is the received byte: values that are no enumerator give 0.\<close>

definition codey_comm_enum_to_baudrate :: "u8 \<Rightarrow> u32" where
  "codey_comm_enum_to_baudrate bd_e =
     (if bd_e = baudrate_code BD_9600 then 9600
      else if bd_e = baudrate_code BD_19200 then 19200
      else if bd_e = baudrate_code BD_38400 then 38400
      else if bd_e = baudrate_code BD_57600 then 57600
      else if bd_e = baudrate_code BD_115200 then 115200
      else if bd_e = baudrate_code BD_256000 then 256000
      else if bd_e = baudrate_code BD_512000 then 512000
      else if bd_e = baudrate_code BD_921600 then 921600
      else 0)"

text \<open>\<open>set_bd\<close> and \<open>get_bd\<close> are the UART driver's \<open>uart_set_baudrate\<close> (true for ESP_OK) and \<open>uart_get_baudrate\<close>.\<close>

definition codey_comm_set_uart_baudrate :: "(u8 \<Rightarrow> u32 \<Rightarrow> 'w \<Rightarrow> bool \<times> 'w) \<Rightarrow> u8 \<Rightarrow> u8 \<Rightarrow> 'w \<Rightarrow> bool \<times> 'w" where
  "codey_comm_set_uart_baudrate set_bd uart_num bd_e w =
     (let baudrate = codey_comm_enum_to_baudrate bd_e in
      if baudrate \<noteq> 0 then set_bd uart_num baudrate w else (False, w))"

definition codey_comm_get_uart_baudrate :: "(u8 \<Rightarrow> 'w \<Rightarrow> u32) \<Rightarrow> u8 \<Rightarrow> 'w \<Rightarrow> baudrate_e" where
  "codey_comm_get_uart_baudrate get_bd uart_num w = codey_comm_baudrate_to_enum (get_bd uart_num w)"

definition bd_reply :: "u8 list \<Rightarrow> out_t \<Rightarrow> out_t option" where
  "bd_reply bytes out = do {
     ob \<leftarrow> blit (output_buf out) 0 bytes;
     Some (out\<lparr>output_buf := ob, output_len := of_nat (length bytes)\<rparr>) }"

definition codey_comm_baudrate_setting :: "(u8 \<Rightarrow> u32 \<Rightarrow> 'w \<Rightarrow> bool \<times> 'w) \<Rightarrow> (u8 \<Rightarrow> 'w \<Rightarrow> u32)
    \<Rightarrow> u8 list \<Rightarrow> u32 \<Rightarrow> out_t \<Rightarrow> 'w \<Rightarrow> (out_t \<times> 'w) option" where
  "codey_comm_baudrate_setting set_bd get_bd data len out w = do {
     cmd \<leftarrow> rd data 0;
     if cmd = 0 then
       (if len = 2 then do {
          port \<leftarrow> rd data 1;
          out \<leftarrow> bd_reply [cmd, port, baudrate_code (codey_comm_get_uart_baudrate get_bd port w)] out;
          Some (out, w) }
        else do { out \<leftarrow> bd_reply [0x81, 1] out; Some (out, w) })
     else if cmd = 1 then
       (if len = 3 then do {
          port \<leftarrow> rd data 1;
          bd \<leftarrow> rd data 2;
          case codey_comm_set_uart_baudrate set_bd port bd w of (okay, w) \<Rightarrow> do {
            out \<leftarrow> bd_reply [cmd, port, if okay then 0 else 1] out;
            Some (out, w) } }
        else do { out \<leftarrow> bd_reply [0x81, 1] out; Some (out, w) })
     else Some (out, w) }"

lemma baudrate_codes: "codey_comm_baudrate_to_enum (codey_comm_enum_to_baudrate (baudrate_code b)) = b"
  by (cases b) (simp_all add: baudrate_code_def codey_comm_enum_to_baudrate_def codey_comm_baudrate_to_enum_def)

lemma bd_reply_ok: "length bytes \<le> length (output_buf out) \<Longrightarrow> \<exists>out'. bd_reply bytes out = Some out'
    \<and> output_len out' = of_nat (length bytes) \<and> filled (output_buf out') bytes (length (output_buf out))"
  by (auto simp: bd_reply_def blit_def filled_def)

subsection \<open>File system reads\<close>

text \<open>\<open>spi_flash_read addr\<close> is the status (as the byte it is stored in) and the 256 bytes read.\<close>

definition SFLASH_START_ADDR :: u32 where "SFLASH_START_ADDR = 0x2C0000"

definition codey_get_filesys :: "malloc \<Rightarrow> (u32 \<Rightarrow> u8 \<times> u8 list) \<Rightarrow> u8 list \<Rightarrow> u32 \<Rightarrow> out_t \<Rightarrow> out_t option" where
  "codey_get_filesys heap spi_flash_read data len out =
     (if len = 0 then Some out
      else do {
        buffer \<leftarrow> heap 256;
        addr \<leftarrow> codey_read_short data 0;
        d0 \<leftarrow> rd data 0;
        d1 \<leftarrow> rd data 1;
        ob \<leftarrow> wr (output_buf out) 0 d0;
        ob \<leftarrow> wr ob 1 d1;
        let out = out\<lparr>output_buf := ob, output_len := 2\<rparr>;
        let (ret, block) = spi_flash_read (SFLASH_START_ADDR + ucast addr * 256);
        if ret \<noteq> 0 then Some out
        else do {
          ob \<leftarrow> for_upto 0 256 (\<lambda>i ob. do { b \<leftarrow> rd block i; wr ob (i + 2) b }) ob;
          Some (out\<lparr>output_buf := ob, output_len := output_len out + 256\<rparr>) } })"

lemma filled_copy_loop:
  assumes "length block = 256" and "filled ob [x, y] n" and "258 \<le> n"
  shows "\<exists>ob'. for_upto 0 256 (\<lambda>i ob. do { b \<leftarrow> rd block i; wr ob (i + 2) b }) ob = Some ob'
    \<and> filled ob' ([x, y] @ block) n"
proof -
  have "\<exists>s'. for_upto 0 256 (\<lambda>i ob. do { b \<leftarrow> rd block i; wr ob (i + 2) b }) ob = Some s'
      \<and> filled s' ([x, y] @ take 256 block) n"
  proof (rule for_upto_rule [where P = "\<lambda>i s. filled s ([x, y] @ take i block) n"])
    fix i s assume i: "i < 256" and s: "filled s ([x, y] @ take i block) n"
    from filled_wr [OF s, of "i + 2" "block ! i"] i assms(1,3)
    obtain s' where "wr s (i + 2) (block ! i) = Some s'" "filled s' (([x, y] @ take i block) @ [block ! i]) n"
      by auto
    then show "\<exists>s'. (do { b \<leftarrow> rd block i; wr s (i + 2) b }) = Some s'
        \<and> filled s' ([x, y] @ take (Suc i) block) n"
      using i assms(1) by (simp add: rd_in take_Suc_conv_app_nth)
  qed (use assms(2) in simp_all)
  then show ?thesis using assms(1) by simp
qed

subsection \<open>Product test\<close>

text \<open>
  The hardware behind the product test: what its sensors return (the analogue ones as the
  percentage the code computes from them) and the actions it triggers, recorded in order.
\<close>

datatype pt_action = Stop_play | Play_file "u8 list" | Play_note | Rgb u8 u8 u8 | Faceplate "u8 list"
  | Screen_clean | Ir_send u16

record pt_sensors =
  button_pressed :: "u8 \<Rightarrow> u8"
  dail_percent :: u8
  light_percent :: u8
  sound_percent :: u8
  battery_voltage :: u32
  ir_char :: u8
  gyro_value :: "u8 \<Rightarrow> u32"

record pt_state =
  s_product_test_enable :: bool
  pt_actions :: "pt_action list"

definition cat_wav :: "u8 list" where
  "cat_wav = [0x2F, 0x6D, 0x75, 0x73, 0x69, 0x63, 0x2F, 0x63, 0x61, 0x74, 0x2E, 0x77, 0x61, 0x76, 0]"

definition dog_wav :: "u8 list" where
  "dog_wav = [0x2F, 0x6D, 0x75, 0x73, 0x69, 0x63, 0x2F, 0x64, 0x6F, 0x67, 0x2E, 0x77, 0x61, 0x76, 0]"

definition codey_product_test_set_status :: "u8 list \<Rightarrow> out_t \<Rightarrow> pt_state \<Rightarrow> (out_t \<times> pt_state) option" where
  "codey_product_test_set_status data out st = do {
     d0 \<leftarrow> rd data 0;
     d1 \<leftarrow> rd data 1;
     let st = (if d1 = 1 then st\<lparr>s_product_test_enable := True\<rparr>
               else if d1 = 0 then st\<lparr>s_product_test_enable := False\<rparr> else st);
     out \<leftarrow> bd_reply [d0, d1, 1] out;
     Some (out, st) }"

definition codey_product_test_get_button :: "pt_sensors \<Rightarrow> u8 list \<Rightarrow> out_t \<Rightarrow> out_t option" where
  "codey_product_test_get_button hw data out = do {
     button_id \<leftarrow> rd data 1;
     if button_id > 5 then Some (out\<lparr>output_len := 0\<rparr>)
     else do {
       d0 \<leftarrow> rd data 0;
       bd_reply [d0, button_id, button_pressed hw button_id] out } }"

definition codey_product_test_get_dail :: "pt_sensors \<Rightarrow> u8 list \<Rightarrow> out_t \<Rightarrow> out_t option" where
  "codey_product_test_get_dail hw data out = do { d0 \<leftarrow> rd data 0; bd_reply [d0, dail_percent hw] out }"

definition codey_product_test_get_light :: "pt_sensors \<Rightarrow> u8 list \<Rightarrow> out_t \<Rightarrow> out_t option" where
  "codey_product_test_get_light hw data out = do { d0 \<leftarrow> rd data 0; bd_reply [d0, light_percent hw] out }"

definition codey_product_test_get_sound :: "pt_sensors \<Rightarrow> u8 list \<Rightarrow> out_t \<Rightarrow> out_t option" where
  "codey_product_test_get_sound hw data out = do { d0 \<leftarrow> rd data 0; bd_reply [d0, sound_percent hw] out }"

definition codey_product_test_get_battery :: "pt_sensors \<Rightarrow> u8 list \<Rightarrow> out_t \<Rightarrow> out_t option" where
  "codey_product_test_get_battery hw data out = do { d0 \<leftarrow> rd data 0; bd_reply (d0 # le32 (battery_voltage hw)) out }"

definition codey_product_test_get_ir_rec :: "pt_sensors \<Rightarrow> u8 list \<Rightarrow> out_t \<Rightarrow> out_t option" where
  "codey_product_test_get_ir_rec hw data out = do { d0 \<leftarrow> rd data 0; bd_reply [d0, ir_char hw] out }"

definition codey_product_test_get_gyro :: "pt_sensors \<Rightarrow> u8 list \<Rightarrow> out_t \<Rightarrow> out_t option" where
  "codey_product_test_get_gyro hw data out = do {
     val_index \<leftarrow> rd data 1;
     if val_index \<ge> 7 then Some (out\<lparr>output_len := 0\<rparr>)
     else do { d0 \<leftarrow> rd data 0; bd_reply ([d0, val_index] @ le32 (gyro_value hw val_index)) out } }"

text \<open>The speaker command is the one that does not set the output length.\<close>

definition codey_product_test_set_speaker :: "u8 list \<Rightarrow> pt_state \<Rightarrow> pt_state option" where
  "codey_product_test_set_speaker data st = do {
     ope_id \<leftarrow> rd data 1;
     let acts = (if ope_id = 1 then [Stop_play, Play_file cat_wav]
                 else if ope_id = 2 then [Stop_play, Play_file dog_wav]
                 else if ope_id = 3 then [Stop_play, Play_note] else []);
     Some (st\<lparr>pt_actions := pt_actions st @ acts\<rparr>) }"

definition codey_product_test_set_rgb :: "u8 list \<Rightarrow> pt_state \<Rightarrow> pt_state option" where
  "codey_product_test_set_rgb data st = do {
     r \<leftarrow> rd data 1;
     g \<leftarrow> rd data 2;
     b \<leftarrow> rd data 3;
     Some (st\<lparr>pt_actions := pt_actions st @ [Rgb r g b]\<rparr>) }"

definition codey_product_test_set_ledmatrix :: "u8 list \<Rightarrow> pt_state \<Rightarrow> pt_state option" where
  "codey_product_test_set_ledmatrix data st = do {
     led_all_on \<leftarrow> rd data 1;
     let acts = (if led_all_on = 1 then [Faceplate (replicate 16 0xFF)]
                 else if led_all_on = 2 then [Screen_clean] else []);
     Some (st\<lparr>pt_actions := pt_actions st @ acts\<rparr>) }"

definition codey_product_test_ir_send :: "u8 list \<Rightarrow> pt_state \<Rightarrow> pt_state option" where
  "codey_product_test_ir_send data st = do {
     v \<leftarrow> rd data 1;
     Some (st\<lparr>pt_actions := pt_actions st @ [Ir_send (ucast v)]\<rparr>) }"

definition codey_product_test_request :: "pt_sensors \<Rightarrow> u8 list \<Rightarrow> out_t \<Rightarrow> pt_state
    \<Rightarrow> (out_t \<times> pt_state) option" where
  "codey_product_test_request hw data out st = do {
     sensor_id \<leftarrow> rd data 0;
     if \<not> s_product_test_enable st \<and> sensor_id \<noteq> 0 then Some (out\<lparr>output_len := 0\<rparr>, st)
     else if sensor_id \<ge> 12 then Some (out\<lparr>output_len := 0\<rparr>, st)
     else if sensor_id = 0 then codey_product_test_set_status data out st
     else if sensor_id = 1 then do { out \<leftarrow> codey_product_test_get_button hw data out; Some (out, st) }
     else if sensor_id = 2 then do { out \<leftarrow> codey_product_test_get_dail hw data out; Some (out, st) }
     else if sensor_id = 3 then do { out \<leftarrow> codey_product_test_get_light hw data out; Some (out, st) }
     else if sensor_id = 4 then do { out \<leftarrow> codey_product_test_get_sound hw data out; Some (out, st) }
     else if sensor_id = 5 then do { out \<leftarrow> codey_product_test_get_battery hw data out; Some (out, st) }
     else if sensor_id = 6 then do { out \<leftarrow> codey_product_test_get_ir_rec hw data out; Some (out, st) }
     else if sensor_id = 7 then do { out \<leftarrow> codey_product_test_get_gyro hw data out; Some (out, st) }
     else if sensor_id = 8 then do { st \<leftarrow> codey_product_test_set_speaker data st; Some (out, st) }
     else if sensor_id = 9 then do { st \<leftarrow> codey_product_test_set_rgb data st; Some (out\<lparr>output_len := 0\<rparr>, st) }
     else if sensor_id = 10 then do { st \<leftarrow> codey_product_test_set_ledmatrix data st; Some (out\<lparr>output_len := 0\<rparr>, st) }
     else do { st \<leftarrow> codey_product_test_ir_send data st; Some (out\<lparr>output_len := 0\<rparr>, st) } }"

text \<open>A sequence of product test requests on the same output buffer size.\<close>

fun product_test_run :: "pt_sensors \<Rightarrow> u8 list list \<Rightarrow> out_t \<Rightarrow> pt_state \<Rightarrow> pt_state option" where
  "product_test_run hw [] out st = Some st"
| "product_test_run hw (d # ds) out st = do {
     (out', st) \<leftarrow> codey_product_test_request hw d (out\<lparr>output_len := 0\<rparr>) st;
     product_test_run hw ds out st }"

lemma product_test_disabled:
  assumes "\<not> s_product_test_enable st" and "d \<noteq> []" and "d ! 0 \<noteq> 0"
  shows "codey_product_test_request hw d out st = Some (out\<lparr>output_len := 0\<rparr>, st)"
  using assms by (simp add: codey_product_test_request_def rd_in)

lemma product_test_acts_only_enabled:
  assumes "product_test_run hw ds out st = Some st'" and "\<not> s_product_test_enable st"
    and "\<forall>d\<in>set ds. d \<noteq> [] \<and> (d ! 0 = 0 \<longrightarrow> 2 \<le> length d \<and> d ! 1 \<noteq> 1)"
  shows "pt_actions st' = pt_actions st \<and> \<not> s_product_test_enable st'"
  using assms
proof (induction ds arbitrary: st)
  case (Cons d ds)
  then have d: "d \<noteq> []" "d ! 0 = 0 \<longrightarrow> 2 \<le> length d \<and> d ! 1 \<noteq> 1" by auto
  from Cons.prems(1) obtain o1 st1 where
    s: "codey_product_test_request hw d (out\<lparr>output_len := 0\<rparr>) st = Some (o1, st1)"
    "product_test_run hw ds out st1 = Some st'"
    by (auto split: bind_splits)
  have "pt_actions st1 = pt_actions st \<and> \<not> s_product_test_enable st1"
  proof (cases "d ! 0 = 0")
    case True
    with s(1) d Cons.prems(2) show ?thesis
      by (auto simp: codey_product_test_request_def codey_product_test_set_status_def rd_in Let_def
          split: bind_splits if_splits)
  next
    case False
    show ?thesis
      using s(1) Cons.prems(2) product_test_disabled [OF Cons.prems(2) d(1) False, of hw "out\<lparr>output_len := 0\<rparr>"]
      by auto
  qed
  with Cons.IH [OF s(2)] Cons.prems(3) show ?case by simp
qed simp

subsection \<open>Properties\<close>

text \<open>Baud rates round trip through the handlers: when a set request for one of the eight rates on a
  port succeeds, and the driver then reports the rate it was given, the next read request on that
  port answers with the same rate code.\<close>

theorem baudrate_round_trip:
  assumes "b \<noteq> BD_NULL" and "3 \<le> length (output_buf out)" and "3 \<le> length (output_buf out2)"
    and "set_bd port (codey_comm_enum_to_baudrate (baudrate_code b)) w = (True, w')"
    and "get_bd port w' = codey_comm_enum_to_baudrate (baudrate_code b)"
  shows "\<exists>out' out2'. codey_comm_baudrate_setting set_bd get_bd [1, port, baudrate_code b] 3 out w = Some (out', w')
    \<and> take 3 (output_buf out') = [1, port, 0] \<and> output_len out' = 3
    \<and> codey_comm_baudrate_setting set_bd get_bd [0, port] 2 out2 w' = Some (out2', w')
    \<and> take 3 (output_buf out2') = [0, port, baudrate_code b] \<and> output_len out2' = 3"
proof -
  have nz: "codey_comm_enum_to_baudrate (baudrate_code b) \<noteq> 0"
    using assms(1) by (cases b) (simp_all add: baudrate_code_def codey_comm_enum_to_baudrate_def)
  then have set: "codey_comm_set_uart_baudrate set_bd port (baudrate_code b) w = (True, w')"
    using assms(4) by (simp add: codey_comm_set_uart_baudrate_def)
  have get: "codey_comm_get_uart_baudrate get_bd port w' = b"
    using assms(5) by (simp add: codey_comm_get_uart_baudrate_def baudrate_codes)
  obtain o1 where o1: "bd_reply [1, port, 0] out = Some o1" "output_len o1 = 3"
    "take 3 (output_buf o1) = [1, port, 0]"
    using bd_reply_ok [of "[1, port, 0]" out] assms(2) by (auto simp: filled_def numeral_3_eq_3)
  obtain o2 where o2: "bd_reply [0, port, baudrate_code b] out2 = Some o2" "output_len o2 = 3"
    "take 3 (output_buf o2) = [0, port, baudrate_code b]"
    using bd_reply_ok [of "[0, port, baudrate_code b]" out2] assms(3) by (auto simp: filled_def numeral_3_eq_3)
  show ?thesis
    using set get o1 o2 by (simp add: codey_comm_baudrate_setting_def rd_def)
qed

theorem baudrate_round_trip_witness:
  "\<exists>out' out2'. codey_comm_baudrate_setting (\<lambda>p r w. (True, w(p := r))) (\<lambda>p w. w p) [1, 2, baudrate_code BD_115200] 3
        \<lparr>output_buf = replicate 8 0, output_len = 0\<rparr> (\<lambda>_. 9600)
      = Some (out', (\<lambda>_. 9600)(2 := codey_comm_enum_to_baudrate (baudrate_code BD_115200)))
    \<and> take 3 (output_buf out') = [1, 2, 0] \<and> output_len out' = 3
    \<and> codey_comm_baudrate_setting (\<lambda>p r w. (True, w(p := r))) (\<lambda>p w. w p) [0, 2] 2
        \<lparr>output_buf = replicate 8 0, output_len = 0\<rparr>
        ((\<lambda>_. 9600)(2 := codey_comm_enum_to_baudrate (baudrate_code BD_115200)))
      = Some (out2', (\<lambda>_. 9600)(2 := codey_comm_enum_to_baudrate (baudrate_code BD_115200)))
    \<and> take 3 (output_buf out2') = [0, 2, baudrate_code BD_115200] \<and> output_len out2' = 3"
  by (rule baudrate_round_trip) simp_all

text \<open>The product test is inert until it is switched on: over any sequence of requests without an
  enabling one, from the disabled state, no actuator is driven and the mode stays disabled.\<close>

theorem product_test_inert:
  assumes "product_test_run hw ds out st = Some st'" and "\<not> s_product_test_enable st"
    and "\<forall>d\<in>set ds. d \<noteq> [] \<and> (d ! 0 = 0 \<longrightarrow> 2 \<le> length d \<and> d ! 1 \<noteq> 1)"
  shows "pt_actions st' = pt_actions st \<and> \<not> s_product_test_enable st'"
  using product_test_acts_only_enabled [OF assms] .

theorem product_test_inert_witness:
  "pt_actions \<lparr>s_product_test_enable = False, pt_actions = []\<rparr> = pt_actions \<lparr>s_product_test_enable = False, pt_actions = []\<rparr>
    \<and> \<not> s_product_test_enable \<lparr>s_product_test_enable = False, pt_actions = []\<rparr>"
  by (rule product_test_inert [where ds = "[[9, 1, 2, 3], [0, 0]]" and out = "\<lparr>output_buf = [0, 0, 0], output_len = 0\<rparr>"
        and hw = "\<lparr>button_pressed = \<lambda>_. 0, dail_percent = 0, light_percent = 0, sound_percent = 0,
          battery_voltage = 0, ir_char = 0, gyro_value = \<lambda>_. 0\<rparr>"])
     (simp_all add: codey_product_test_request_def codey_product_test_set_status_def rd_def bd_reply_def blit_def)

text \<open>The ready notice is one well-formed frame of protocol 8 with the byte 0x80, and the UART and the
  BLE link get the same bytes.\<close>

theorem ready_notice_on_both_links:
  assumes "malloc_ok malloc" and "malloc 8 = Some m" and "length data = 64"
  shows "codey_ready_notify malloc (\<lambda>_. (True, True)) data
     = Some (comm_frame [8, 0x80], 0, [comm_frame [8, 0x80]])"
  using ready_notify_sends [OF assms] by (simp add: READY_RSP_def)

theorem ready_notice_on_both_links_witness:
  "codey_ready_notify (\<lambda>n. Some (replicate n 1)) (\<lambda>_. (True, True)) (replicate 64 7)
     = Some (comm_frame [8, 0x80], 0, [comm_frame [8, 0x80]])"
  by (rule ready_notice_on_both_links) (simp_all add: malloc_ok_def)

end
