(* ===== verification/Socket_Fifo.thy ===== *)
theory Socket_Fifo
  imports Bounded_Queue
begin

text \<open>
  The FIFO of the FTP server: the generic queue of \<open>wifi/mb_ftp/drive/fifo.c\<close>, which leaves
  the element copies to two callbacks, and its socket instance \<open>socketfifo.c\<close>.  A null
  pointer is \<open>None\<close>; an element destination is \<open>Some\<close> of what it held.
\<close>

subsection \<open>The generic queue\<close>

record 'e FIFO_t =
  pvElements :: "'e list"
  uiElementCount :: u32
  uiElementsMax :: u32
  uiFirst :: u32
  uiLast :: u32

type_synonym 'e push_cb = "'e FIFO_t \<Rightarrow> 'e option \<Rightarrow> 'e FIFO_t option"
type_synonym 'e pop_cb = "'e FIFO_t \<Rightarrow> 'e option \<Rightarrow> 'e option option"

definition FIFO_Init :: "'e FIFO_t option \<Rightarrow> u32 \<Rightarrow> 'e FIFO_t option" where
  "FIFO_Init fifo maxcount = map_option (\<lambda>f. f\<lparr>uiFirst := 0, uiLast := maxcount - 1,
     uiElementCount := 0, uiElementsMax := maxcount\<rparr>) fifo"

definition FIFO_IsEmpty :: "'e FIFO_t option \<Rightarrow> bool" where
  "FIFO_IsEmpty fifo = (case fifo of Some f \<Rightarrow> uiElementCount f = 0 | None \<Rightarrow> False)"

definition FIFO_IsFull :: "'e FIFO_t option \<Rightarrow> bool" where
  "FIFO_IsFull fifo = (case fifo of Some f \<Rightarrow> \<not> uiElementCount f < uiElementsMax f | None \<Rightarrow> False)"

definition FIFO_bPushElement :: "'e push_cb \<Rightarrow> 'e FIFO_t option \<Rightarrow> 'e option
    \<Rightarrow> (bool \<times> 'e FIFO_t option) option" where
  "FIFO_bPushElement pfElementPush fifo pvElement = (case fifo of
     None \<Rightarrow> Some (False, None)
   | Some f \<Rightarrow>
       if FIFO_IsFull fifo then Some (False, fifo)
       else do {
         let f = (if uiElementsMax f > uiElementCount f
                  then f\<lparr>uiElementCount := uiElementCount f + 1\<rparr> else f);
         let f = f\<lparr>uiLast := uiLast f + 1\<rparr>;
         let f = (if uiLast f = uiElementsMax f then f\<lparr>uiLast := 0\<rparr> else f);
         f \<leftarrow> pfElementPush f pvElement;
         Some (True, Some f) })"

definition FIFO_bPopElement :: "'e pop_cb \<Rightarrow> 'e FIFO_t option \<Rightarrow> 'e option
    \<Rightarrow> (bool \<times> 'e option \<times> 'e FIFO_t option) option" where
  "FIFO_bPopElement pfElementPop fifo pvElement = (case fifo of
     None \<Rightarrow> Some (False, pvElement, None)
   | Some f \<Rightarrow>
       if FIFO_IsEmpty fifo then Some (False, pvElement, fifo)
       else do {
         e \<leftarrow> pfElementPop f pvElement;
         let f = (if uiElementCount f > 0 then f\<lparr>uiElementCount := uiElementCount f - 1\<rparr> else f);
         let f = f\<lparr>uiFirst := uiFirst f + 1\<rparr>;
         let f = (if uiFirst f = uiElementsMax f then f\<lparr>uiFirst := 0\<rparr> else f);
         Some (True, e, Some f) })"

definition FIFO_bPeekElement :: "'e pop_cb \<Rightarrow> 'e FIFO_t option \<Rightarrow> 'e option
    \<Rightarrow> (bool \<times> 'e option) option" where
  "FIFO_bPeekElement pfElementPop fifo pvElement = (case fifo of
     None \<Rightarrow> Some (False, pvElement)
   | Some f \<Rightarrow>
       if FIFO_IsEmpty fifo then Some (False, pvElement)
       else do { e \<leftarrow> pfElementPop f pvElement; Some (True, e) })"

definition FIFO_Flush :: "'e FIFO_t option \<Rightarrow> 'e FIFO_t option" where
  "FIFO_Flush fifo = map_option (\<lambda>f. f\<lparr>uiElementCount := 0, uiFirst := 0,
     uiLast := uiElementsMax f - 1\<rparr>) fifo"

subsection \<open>The socket FIFO\<close>

text \<open>The fields of \<open>SocketFifoElement_t\<close>; \<open>data\<close> is the address of the heap block.\<close>

record SocketFifoElement_t =
  sd :: "u32"
  data :: "u32"
  datasize :: u16
  closesockets :: u8
  freedata :: bool

definition socketfifo_Push :: "'e push_cb" where
  "socketfifo_Push f pvElement = (case pvElement of
     None \<Rightarrow> Some f
   | Some e \<Rightarrow> do { es \<leftarrow> wr (pvElements f) (unat (uiLast f)) e; Some (f\<lparr>pvElements := es\<rparr>) })"

definition socketfifo_Pop :: "'e pop_cb" where
  "socketfifo_Pop f pvElement = (case pvElement of
     None \<Rightarrow> Some None
   | Some _ \<Rightarrow> do { e \<leftarrow> rd (pvElements f) (unat (uiFirst f)); Some (Some e) })"

definition SOCKETFIFO_Init :: "'e FIFO_t \<Rightarrow> 'e list \<Rightarrow> u32 \<Rightarrow> 'e FIFO_t option" where
  "SOCKETFIFO_Init fifo elements maxcount = FIFO_Init (Some (fifo\<lparr>pvElements := elements\<rparr>)) maxcount"

definition SOCKETFIFO_Push :: "'e option \<Rightarrow> 'e FIFO_t option \<Rightarrow> (bool \<times> 'e FIFO_t option) option" where
  "SOCKETFIFO_Push element socketfifo = FIFO_bPushElement socketfifo_Push socketfifo element"

definition SOCKETFIFO_Pop :: "'e option \<Rightarrow> 'e FIFO_t option
    \<Rightarrow> (bool \<times> 'e option \<times> 'e FIFO_t option) option" where
  "SOCKETFIFO_Pop element socketfifo = FIFO_bPopElement socketfifo_Pop socketfifo element"

definition SOCKETFIFO_IsEmpty :: "'e FIFO_t option \<Rightarrow> bool" where
  "SOCKETFIFO_IsEmpty socketfifo = FIFO_IsEmpty socketfifo"

definition SOCKETFIFO_IsFull :: "'e FIFO_t option \<Rightarrow> bool" where
  "SOCKETFIFO_IsFull socketfifo = FIFO_IsFull socketfifo"

definition SOCKETFIFO_Peek :: "'e option \<Rightarrow> 'e FIFO_t option \<Rightarrow> (bool \<times> 'e option) option" where
  "SOCKETFIFO_Peek element socketfifo = FIFO_bPeekElement socketfifo_Pop socketfifo element"

text \<open>
  \<open>SOCKETFIFO_Flush\<close>: the loop over the pops; the result is the list of addresses given to
  \<open>vPortFree\<close> and the emptied FIFO.  \<open>junk\<close> is what the local \<open>element\<close> holds before.
\<close>

partial_function (option) SOCKETFIFO_Flush_loop ::
  "u32 list \<Rightarrow> SocketFifoElement_t \<Rightarrow> SocketFifoElement_t FIFO_t option
    \<Rightarrow> (u32 list \<times> SocketFifoElement_t FIFO_t option) option" where
  "SOCKETFIFO_Flush_loop freed junk socketfifo =
     Option.bind (SOCKETFIFO_Pop (Some junk) socketfifo) (\<lambda>(popped, e, socketfifo').
       if popped
       then (case e of
               Some element \<Rightarrow>
                 SOCKETFIFO_Flush_loop (if freedata element then freed @ [data element] else freed)
                   element socketfifo'
             | None \<Rightarrow> None)
       else Some (freed, socketfifo'))"

definition SOCKETFIFO_Flush :: "SocketFifoElement_t \<Rightarrow> SocketFifoElement_t FIFO_t option
    \<Rightarrow> (u32 list \<times> SocketFifoElement_t FIFO_t option) option" where
  "SOCKETFIFO_Flush junk socketfifo = SOCKETFIFO_Flush_loop [] junk socketfifo"

definition SOCKETFIFO_Count :: "'e FIFO_t option \<Rightarrow> u32 option" where
  "SOCKETFIFO_Count socketfifo = map_option uiElementCount socketfifo"

subsection \<open>Well-formed FIFOs\<close>

text \<open>
  The count and the two indices agree: the last element sits \<open>count - 1\<close> cells after the
  first one (and one cell before it when the FIFO is empty).
\<close>

definition fifo_ok :: "'e FIFO_t \<Rightarrow> bool" where
  "fifo_ok f \<longleftrightarrow> 0 < length (pvElements f) \<and> length (pvElements f) = unat (uiElementsMax f)
     \<and> unat (uiFirst f) < unat (uiElementsMax f) \<and> unat (uiLast f) < unat (uiElementsMax f)
     \<and> unat (uiElementCount f) \<le> unat (uiElementsMax f)
     \<and> Suc (unat (uiLast f)) mod unat (uiElementsMax f)
       = (unat (uiFirst f) + unat (uiElementCount f)) mod unat (uiElementsMax f)"

definition fifo_items :: "'e FIFO_t \<Rightarrow> 'e list" where
  "fifo_items f = ring_items (pvElements f) (unat (uiFirst f)) (unat (uiElementCount f))"

definition fifo_room :: "'e FIFO_t \<Rightarrow> nat" where
  "fifo_room f = length (pvElements f)"

lemma length_fifo_items [simp]: "length (fifo_items f) = unat (uiElementCount f)"
  by (simp add: fifo_items_def)

lemma wrap_eq:
  assumes "unat (x :: u32) < unat (n :: u32)"
  shows "unat (if x + 1 = n then 0 else x + 1) = Suc (unat x) mod unat n"
proof -
  have "unat x + 1 < 2 ^ LENGTH(32)"
    using assms unat_bound [of n] by linarith
  then have "unat (x + 1) = Suc (unat x)" by (simp add: unat_plus_1)
  with assms show ?thesis
    by (cases "Suc (unat x) = unat n") (auto simp: word_eq_iff_unat)
qed

lemma fifo_init_ok:
  assumes "0 < length es" and "length es < 2 ^ 32"
  shows "\<exists>g. SOCKETFIFO_Init f es (of_nat (length es)) = Some g \<and> fifo_ok g
    \<and> fifo_items g = [] \<and> fifo_room g = length es"
proof -
  let ?n = "of_nat (length es) :: u32"
  have n: "unat ?n = length es"
    using assms by (simp add: unat_of_nat take_bit_nat_eq_self)
  moreover from this have "?n \<noteq> 0" using assms by auto
  ultimately have "unat (?n - 1) = length es - 1"
    by (simp add: unat_minus_one)
  with n assms show ?thesis
    by (simp add: SOCKETFIFO_Init_def FIFO_Init_def fifo_ok_def fifo_items_def fifo_room_def
        ring_items_def)
qed

lemma fifo_push_ok:
  assumes "fifo_ok f"
  shows "\<exists>f'. SOCKETFIFO_Push (Some e) (Some f)
      = Some (unat (uiElementCount f) < fifo_room f, Some f') \<and> fifo_ok f' \<and> fifo_room f' = fifo_room f
    \<and> fifo_items f' = (if unat (uiElementCount f) < fifo_room f then fifo_items f @ [e] else fifo_items f)"
proof (cases "unat (uiElementCount f) < unat (uiElementsMax f)")
  case False
  then show ?thesis
    using assms
    by (auto simp: SOCKETFIFO_Push_def FIFO_bPushElement_def FIFO_IsFull_def fifo_room_def fifo_ok_def
        word_less_nat_alt)
next
  case True
  let ?N = "unat (uiElementsMax f)"
  let ?last = "if uiLast f + 1 = uiElementsMax f then 0 else uiLast f + 1"
  have last: "unat ?last = Suc (unat (uiLast f)) mod ?N"
    using assms by (intro wrap_eq) (simp add: fifo_ok_def)
  have count: "unat (uiElementCount f + 1) = Suc (unat (uiElementCount f))"
    using True unat_bound [of "uiElementsMax f"] by (simp add: unat_plus_1)
  have at: "unat ?last = (unat (uiFirst f) + unat (uiElementCount f)) mod length (pvElements f)"
    using last assms by (simp add: fifo_ok_def)
  have less: "unat ?last < length (pvElements f)"
    unfolding at using assms by (intro mod_less_divisor) (simp add: fifo_ok_def)
  let ?g = "f\<lparr>pvElements := (pvElements f)[unat ?last := e],
      uiElementCount := uiElementCount f + 1, uiLast := ?last\<rparr>"
  have push: "SOCKETFIFO_Push (Some e) (Some f) = Some (True, Some ?g)"
    using True less
    by (auto simp: SOCKETFIFO_Push_def FIFO_bPushElement_def FIFO_IsFull_def word_less_nat_alt
        socketfifo_Push_def Let_def mem_simps)
  have "fifo_items ?g = fifo_items f @ [e]"
    using True assms at count
      ring_items_put [of "unat (uiElementCount f)" "pvElements f" "unat (uiFirst f)" e]
    by (simp add: fifo_items_def fifo_ok_def)
  moreover have "fifo_ok ?g"
    using assms True less count at
    by (simp add: fifo_ok_def) (metis add_Suc_right mod_Suc_eq)
  ultimately show ?thesis
    using push True assms by (simp add: fifo_room_def fifo_ok_def)
qed

lemma fifo_pop_ok:
  assumes "fifo_ok f"
  shows "\<exists>f'. SOCKETFIFO_Pop (Some junk) (Some f)
      = Some (case fifo_items f of [] \<Rightarrow> (False, Some junk, Some f') | e # _ \<Rightarrow> (True, Some e, Some f'))
    \<and> fifo_ok f' \<and> fifo_room f' = fifo_room f \<and> fifo_items f' = tl (fifo_items f)"
proof (cases "unat (uiElementCount f)")
  case 0
  moreover from this have "fifo_items f = []" "uiElementCount f = 0"
    by (simp_all add: fifo_items_def ring_items_def unat_eq_0)
  ultimately show ?thesis
    using assms by (simp add: SOCKETFIFO_Pop_def FIFO_bPopElement_def FIFO_IsEmpty_def)
next
  case (Suc n)
  let ?N = "unat (uiElementsMax f)"
  let ?first = "if uiFirst f + 1 = uiElementsMax f then 0 else uiFirst f + 1"
  have first: "unat ?first = Suc (unat (uiFirst f)) mod ?N"
    using assms by (intro wrap_eq) (simp add: fifo_ok_def)
  have pos: "uiElementCount f \<noteq> 0" using Suc by auto
  then have count: "unat (uiElementCount f - 1) = n"
    using Suc by (simp add: unat_minus_one)
  have items: "fifo_items f = pvElements f ! unat (uiFirst f) # ring_items (pvElements f) (unat ?first) n"
    using assms Suc first by (simp add: fifo_items_def ring_items_Suc fifo_ok_def)
  let ?g = "f\<lparr>uiElementCount := uiElementCount f - 1, uiFirst := ?first\<rparr>"
  have pop: "SOCKETFIFO_Pop (Some junk) (Some f) = Some (True, Some (pvElements f ! unat (uiFirst f)), Some ?g)"
    using pos assms
    by (auto simp: SOCKETFIFO_Pop_def FIFO_bPopElement_def FIFO_IsEmpty_def socketfifo_Pop_def
        Let_def mem_simps fifo_ok_def word_gt_0)
  have "fifo_ok ?g"
    using assms Suc count first
    by (simp add: fifo_ok_def mod_add_left_eq)
  then show ?thesis
    using pop items count by (simp add: fifo_room_def fifo_items_def)
qed

subsection \<open>The interface\<close>

definition socket_push :: "'e \<Rightarrow> 'e FIFO_t \<Rightarrow> (bool \<times> 'e FIFO_t) option" where
  "socket_push e f = do { (b, f') \<leftarrow> SOCKETFIFO_Push (Some e) (Some f); f' \<leftarrow> f'; Some (b, f') }"

definition socket_pop :: "'e \<Rightarrow> 'e FIFO_t \<Rightarrow> ('e option \<times> 'e FIFO_t) option" where
  "socket_pop junk f = do {
     (b, e, f') \<leftarrow> SOCKETFIFO_Pop (Some junk) (Some f);
     f' \<leftarrow> f';
     Some (if b then e else None, f') }"

interpretation socket_q: bounded_queue socket_push "socket_pop junk" fifo_items fifo_room fifo_ok
proof unfold_locales
  fix q :: "'a FIFO_t" and x :: 'a
  assume ok: "fifo_ok q"
  show "length (fifo_items q) \<le> fifo_room q"
    using ok by (simp add: fifo_ok_def fifo_room_def)
  show "\<exists>q'. socket_push x q
      = Some (fst (qspec_push (fifo_room q) x (fifo_items q)), q') \<and> fifo_ok q'
      \<and> fifo_items q' = snd (qspec_push (fifo_room q) x (fifo_items q)) \<and> fifo_room q' = fifo_room q"
    using fifo_push_ok [OF ok, of x] by (auto simp: socket_push_def qspec_push_def)
  show "\<exists>q'. socket_pop junk q = Some (fst (qspec_pop (fifo_items q)), q') \<and> fifo_ok q'
      \<and> fifo_items q' = snd (qspec_pop (fifo_items q)) \<and> fifo_room q' = fifo_room q"
    using fifo_pop_ok [OF ok, of junk]
    by (cases "fifo_items q") (auto simp: socket_pop_def qspec_pop_def)
qed

text \<open>Flushing terminates with an empty FIFO and frees exactly the blocks marked for it, in order.\<close>

lemma socketfifo_flush_loop_frees:
  "fifo_ok f \<Longrightarrow> \<exists>f'. SOCKETFIFO_Flush_loop freed junk (Some f)
     = Some (freed @ map data (filter freedata (fifo_items f)), Some f')
   \<and> fifo_ok f' \<and> fifo_items f' = [] \<and> fifo_room f' = fifo_room f"
proof (induction "fifo_items f" arbitrary: f freed junk)
  case Nil
  from fifo_pop_ok [OF Nil.prems, of junk] obtain f' where
    "SOCKETFIFO_Pop (Some junk) (Some f) = Some (False, Some junk, Some f')"
    "fifo_ok f'" "fifo_room f' = fifo_room f" "fifo_items f' = []"
    by (auto simp: Nil.hyps [symmetric])
  then show ?case
    by (subst SOCKETFIFO_Flush_loop.simps) (simp add: Nil.hyps [symmetric])
next
  case (Cons e es)
  from fifo_pop_ok [OF Cons.prems, of junk] obtain f' where
    f': "SOCKETFIFO_Pop (Some junk) (Some f) = Some (True, Some e, Some f')"
    "fifo_ok f'" "fifo_room f' = fifo_room f" "es = fifo_items f'"
    by (auto simp: Cons.hyps(2) [symmetric])
  let ?freed = "if freedata e then freed @ [data e] else freed"
  from Cons.hyps(1) [OF f'(4,2), of ?freed e] f'(3) obtain g where
    g: "SOCKETFIFO_Flush_loop ?freed e (Some f')
      = Some (?freed @ map data (filter freedata (fifo_items f')), Some g)"
    "fifo_ok g" "fifo_items g = []" "fifo_room g = fifo_room f" by auto
  have "fifo_items f = e # fifo_items f'" using Cons.hyps(2) f'(4) by simp
  then show ?case
    using g by (subst SOCKETFIFO_Flush_loop.simps) (auto simp: f'(1))
qed

subsection \<open>Properties\<close>

text \<open>The socket FIFO keeps order: what is pushed while there is room comes out first in, first out, after
  what was already there, and leaves the FIFO empty.\<close>

theorem socket_fifo_order:
  assumes "fifo_ok f" and "length (fifo_items f) + length es \<le> length (pvElements f)"
  shows "\<exists>f'. q_run socket_push (socket_pop junk)
        (map Push es @ replicate (length (fifo_items f) + length es) Pop) f
      = Some (map (\<lambda>_. Pushed True) es @ map (\<lambda>e. Popped (Some e)) (fifo_items f @ es), f')
    \<and> fifo_items f' = []"
  using socket_q.fifo_order [OF assms(1), of es] assms(2) by (auto simp: fifo_room_def)

definition four_free :: "nat FIFO_t" where
  "four_free = \<lparr>pvElements = [0, 0, 0, 0], uiElementCount = 0, uiElementsMax = 4, uiFirst = 0, uiLast = 3\<rparr>"

theorem socket_fifo_order_witness:
  "\<exists>f'. q_run socket_push (socket_pop 0) (map Push [1, 2, 3, 4] @ replicate (length (fifo_items four_free) + length [1, 2, 3, 4 :: nat]) Pop) four_free
      = Some (map (\<lambda>_. Pushed True) [1, 2, 3, 4 :: nat] @ map (\<lambda>e. Popped (Some e)) (fifo_items four_free @ [1, 2, 3, 4]), f')
    \<and> fifo_items f' = []"
  by (rule socket_fifo_order) (simp_all add: fifo_ok_def four_free_def)

text \<open>Flushing the socket FIFO returns, empties it, and frees exactly the data blocks whose element asks
  for it, each once and in queue order.\<close>

theorem socket_fifo_flush:
  assumes "fifo_ok f"
  shows "\<exists>f'. SOCKETFIFO_Flush junk (Some f) = Some (map data (filter freedata (fifo_items f)), Some f')
    \<and> fifo_items f' = [] \<and> fifo_ok f'"
  using socketfifo_flush_loop_frees [OF assms, of "[]" junk] by (auto simp: SOCKETFIFO_Flush_def)

theorem socket_fifo_flush_witness:
  "\<exists>f'. SOCKETFIFO_Flush \<lparr>sd = 0, data = 0, datasize = 0, closesockets = 0, freedata = False\<rparr>
      (Some \<lparr>pvElements = [\<lparr>sd = 1, data = 5, datasize = 0, closesockets = 0, freedata = True\<rparr>],
        uiElementCount = 1, uiElementsMax = 1, uiFirst = 0, uiLast = 0\<rparr>)
    = Some (map data (filter freedata (fifo_items \<lparr>pvElements = [\<lparr>sd = 1, data = 5, datasize = 0, closesockets = 0,
        freedata = True\<rparr>], uiElementCount = 1, uiElementsMax = 1, uiFirst = 0, uiLast = 0\<rparr>)), Some f')
    \<and> fifo_items f' = [] \<and> fifo_ok f'"
  by (rule socket_fifo_flush) (simp add: fifo_ok_def)

end
