(* ===== verification/Py_Scheduler.thy ===== *)
theory Py_Scheduler
  imports Codey_Prelude
begin

text \<open>
  The callback scheduler of the interpreter (\<open>py/scheduler.c\<close>) with the keyboard interrupt
  of \<open>lib/utils/interrupt_char.c\<close>: a state word that says idle, pending or locked (and how
  deep), a stack of eight callbacks, and one pending exception.
\<close>

subsection \<open>State and operations\<close>

text \<open>\<open>sched_state\<close> is an \<open>int16_t\<close>: 1 idle, 0 pending, negative the lock depth.\<close>

record 'o sched =
  sched_state :: int
  sched_sp :: nat
  sched_stack :: "('o \<times> 'o) list"
  mp_pending_exception :: "'o option"

definition MP_SCHED_IDLE :: int where "MP_SCHED_IDLE = 1"
definition MP_SCHED_LOCKED :: int where "MP_SCHED_LOCKED = -1"
definition MP_SCHED_PENDING :: int where "MP_SCHED_PENDING = 0"
definition MICROPY_SCHEDULER_DEPTH :: nat where "MICROPY_SCHEDULER_DEPTH = 8"

lemmas sched_consts = MP_SCHED_IDLE_def MP_SCHED_LOCKED_def MP_SCHED_PENDING_def
  MICROPY_SCHEDULER_DEPTH_def

definition int16 :: "int \<Rightarrow> int" where
  "int16 x = signed_take_bit 15 x"

lemma int16_id: "-32768 \<le> x \<Longrightarrow> x < 32768 \<Longrightarrow> int16 x = x"
  by (simp add: int16_def signed_take_bit_int_eq_self)

definition mp_sched_lock :: "'o sched \<Rightarrow> 'o sched" where
  "mp_sched_lock s =
     (if sched_state s < 0 then s\<lparr>sched_state := int16 (sched_state s - 1)\<rparr>
      else s\<lparr>sched_state := MP_SCHED_LOCKED\<rparr>)"

definition mp_sched_unlock :: "'o sched \<Rightarrow> 'o sched" where
  "mp_sched_unlock s =
     (let st = int16 (sched_state s + 1) in
      if st = 0 then
        (if mp_pending_exception s \<noteq> None \<or> sched_sp s > 0
         then s\<lparr>sched_state := MP_SCHED_PENDING\<rparr> else s\<lparr>sched_state := MP_SCHED_IDLE\<rparr>)
      else s\<lparr>sched_state := st\<rparr>)"

definition mp_sched_schedule :: "'o \<Rightarrow> 'o \<Rightarrow> 'o sched \<Rightarrow> (bool \<times> 'o sched) option" where
  "mp_sched_schedule f arg s =
     (if sched_sp s < MICROPY_SCHEDULER_DEPTH then do {
        let s = (if sched_state s = MP_SCHED_IDLE then s\<lparr>sched_state := MP_SCHED_PENDING\<rparr> else s);
        st \<leftarrow> wr (sched_stack s) (sched_sp s) (f, arg);
        Some (True, s\<lparr>sched_stack := st, sched_sp := sched_sp s + 1\<rparr>) }
      else Some (False, s))"

definition mp_keyboard_interrupt :: "'o \<Rightarrow> 'o sched \<Rightarrow> 'o sched" where
  "mp_keyboard_interrupt exc s =
     (let s = s\<lparr>mp_pending_exception := Some exc\<rparr> in
      if sched_state s = MP_SCHED_IDLE then s\<lparr>sched_state := MP_SCHED_PENDING\<rparr> else s)"

text \<open>
  \<open>mp_handle_pending\<close> either raises the pending exception or runs one callback with the
  scheduler locked.  The callback is Python code: \<open>call f arg\<close> is its effect on the
  scheduler state, whatever it is (it may schedule more work).
\<close>

datatype 'o outcome = Raised 'o | Ran "('o \<times> 'o) option" | Nothing_pending

definition mp_handle_pending_tail ::
  "('o \<Rightarrow> 'o \<Rightarrow> 'o sched \<Rightarrow> 'o sched) \<Rightarrow> 'o sched \<Rightarrow> ('o outcome \<times> 'o sched) option" where
  "mp_handle_pending_tail call s = do {
     let s = s\<lparr>sched_state := MP_SCHED_LOCKED\<rparr>;
     if sched_sp s > 0 then do {
       let s = s\<lparr>sched_sp := sched_sp s - 1\<rparr>;
       item \<leftarrow> rd (sched_stack s) (sched_sp s);
       let s = call (fst item) (snd item) s;
       Some (Ran (Some item), mp_sched_unlock s) }
     else Some (Ran None, mp_sched_unlock s) }"

definition mp_handle_pending ::
  "('o \<Rightarrow> 'o \<Rightarrow> 'o sched \<Rightarrow> 'o sched) \<Rightarrow> 'o sched \<Rightarrow> ('o outcome \<times> 'o sched) option" where
  "mp_handle_pending call s =
     (if sched_state s = MP_SCHED_PENDING then
        (case mp_pending_exception s of
           Some obj \<Rightarrow>
             let s = s\<lparr>mp_pending_exception := None\<rparr>;
                 s = (if sched_sp s = 0 then s\<lparr>sched_state := MP_SCHED_IDLE\<rparr> else s)
             in Some (Raised obj, s)
         | None \<Rightarrow> mp_handle_pending_tail call s)
      else Some (Nothing_pending, s))"

definition mp_sched_init :: "('o \<times> 'o) list \<Rightarrow> 'o sched" where
  "mp_sched_init stack = \<lparr>sched_state = MP_SCHED_IDLE, sched_sp = 0, sched_stack = stack,
     mp_pending_exception = None\<rparr>"

subsection \<open>Invariant and reachable states\<close>

text \<open>
  Idle means that nothing waits; the stack pointer stays inside the stack; the state word is a
  state or a lock depth that has not wrapped.
\<close>

definition sched_inv :: "'o sched \<Rightarrow> bool" where
  "sched_inv s \<longleftrightarrow> length (sched_stack s) = MICROPY_SCHEDULER_DEPTH
     \<and> sched_sp s \<le> MICROPY_SCHEDULER_DEPTH
     \<and> -32768 \<le> sched_state s \<and> sched_state s \<le> 1
     \<and> (sched_state s = MP_SCHED_IDLE \<longrightarrow> sched_sp s = 0 \<and> mp_pending_exception s = None)"

text \<open>What a callback may do: any balanced use of the scheduler leaves it locked once.\<close>

definition callback_ok :: "('o \<Rightarrow> 'o \<Rightarrow> 'o sched \<Rightarrow> 'o sched) \<Rightarrow> bool" where
  "callback_ok call \<longleftrightarrow> (\<forall>f a s. sched_inv s \<and> sched_state s = MP_SCHED_LOCKED \<longrightarrow>
     sched_inv (call f a s) \<and> sched_state (call f a s) = MP_SCHED_LOCKED)"

text \<open>
  The steps of a running system.  The interrupt handler and the tasks may schedule and
  interrupt at any time; locks nest less than 32768 deep; only a holder unlocks.
\<close>

inductive sched_step ::
  "('o \<Rightarrow> 'o \<Rightarrow> 'o sched \<Rightarrow> 'o sched) \<Rightarrow> 'o sched \<Rightarrow> 'o sched \<Rightarrow> bool"
  for call where
  Schedule: "mp_sched_schedule f a s = Some (b, t) \<Longrightarrow> sched_step call s t"
| Interrupt: "sched_step call s (mp_keyboard_interrupt e s)"
| Lock: "-32768 < sched_state s \<Longrightarrow> sched_step call s (mp_sched_lock s)"
| Unlock: "sched_state s < 0 \<Longrightarrow> sched_step call s (mp_sched_unlock s)"
| Handle: "mp_handle_pending call s = Some (out, t) \<Longrightarrow> sched_step call s t"

inductive sched_reachable ::
  "('o \<Rightarrow> 'o \<Rightarrow> 'o sched \<Rightarrow> 'o sched) \<Rightarrow> 'o sched \<Rightarrow> bool"
  for call where
  start: "length stack = MICROPY_SCHEDULER_DEPTH \<Longrightarrow> sched_reachable call (mp_sched_init stack)"
| more: "sched_reachable call s \<Longrightarrow> sched_step call s t \<Longrightarrow> sched_reachable call t"

inductive_cases sched_stepE: "sched_step call s t"

lemma schedule_inv: "sched_inv s \<Longrightarrow> mp_sched_schedule f a s = Some (b, t) \<Longrightarrow> sched_inv t"
  by (auto simp: mp_sched_schedule_def sched_inv_def sched_consts wr_Some_iff Let_def
      split: if_splits bind_splits)

lemma lock_inv: "sched_inv s \<Longrightarrow> -32768 < sched_state s \<Longrightarrow> sched_inv (mp_sched_lock s)"
  by (auto simp: mp_sched_lock_def sched_inv_def sched_consts int16_id)

lemma unlock_inv: "sched_inv s \<Longrightarrow> sched_state s < 0 \<Longrightarrow> sched_inv (mp_sched_unlock s)"
  by (auto simp: mp_sched_unlock_def sched_inv_def sched_consts int16_id Let_def)

lemma interrupt_inv: "sched_inv s \<Longrightarrow> sched_inv (mp_keyboard_interrupt e s)"
  by (auto simp: mp_keyboard_interrupt_def sched_inv_def sched_consts Let_def)

lemma locked_inv: "sched_inv s \<Longrightarrow> n \<le> sched_sp s \<Longrightarrow>
    sched_inv (s\<lparr>sched_state := MP_SCHED_LOCKED, sched_sp := n\<rparr>)"
  by (auto simp: sched_inv_def sched_consts)

lemma tail_inv:
  assumes "callback_ok call" and "sched_inv s"
  shows "\<exists>out t. mp_handle_pending_tail call s = Some (out, t) \<and> sched_inv t"
proof (cases "sched_sp s = 0")
  case True
  have "sched_inv (s\<lparr>sched_state := MP_SCHED_LOCKED\<rparr>)"
    using assms(2) by (auto simp: sched_inv_def sched_consts)
  then have "sched_inv (mp_sched_unlock (s\<lparr>sched_state := MP_SCHED_LOCKED\<rparr>))"
    by (rule unlock_inv) (simp add: sched_consts)
  with True show ?thesis by (simp add: mp_handle_pending_tail_def)
next
  case False
  let ?s = "s\<lparr>sched_state := MP_SCHED_LOCKED, sched_sp := sched_sp s - 1\<rparr>"
  let ?item = "sched_stack s ! (sched_sp s - 1)"
  have in_range: "sched_sp s - 1 < length (sched_stack s)"
    using False assms(2) by (auto simp: sched_inv_def)
  have "sched_inv (call (fst ?item) (snd ?item) ?s)
      \<and> sched_state (call (fst ?item) (snd ?item) ?s) = MP_SCHED_LOCKED"
    using assms locked_inv [OF assms(2), of "sched_sp s - 1"] by (auto simp: callback_ok_def)
  then have "sched_inv (mp_sched_unlock (call (fst ?item) (snd ?item) ?s))"
    by (intro unlock_inv) (simp_all add: sched_consts)
  then show ?thesis
    using False in_range by (simp add: mp_handle_pending_tail_def mem_simps)
qed

lemma handle_inv:
  assumes "callback_ok call" and "sched_inv s"
  shows "\<exists>out t. mp_handle_pending call s = Some (out, t) \<and> sched_inv t"
  using tail_inv [OF assms] assms(2)
  by (auto simp: mp_handle_pending_def sched_inv_def sched_consts Let_def split: option.splits)

lemma reachable_inv: "sched_reachable call s \<Longrightarrow> callback_ok call \<Longrightarrow> sched_inv s"
proof (induction rule: sched_reachable.induct)
  case (start stack)
  then show ?case by (simp add: sched_inv_def mp_sched_init_def sched_consts)
next
  case (more s t)
  then have "sched_inv s" by blast
  with more.hyps(2) more.prems show ?case
    by (auto elim!: sched_stepE intro: schedule_inv lock_inv unlock_inv interrupt_inv
        dest: handle_inv)
qed

subsection \<open>Draining the stack\<close>

text \<open>
  With callbacks that only do their own work, \<open>n\<close> calls of \<open>mp_handle_pending\<close> run the
  \<open>n\<close> pending callbacks, the last scheduled first, and leave the scheduler idle.
\<close>

fun drain :: "('o \<Rightarrow> 'o \<Rightarrow> 'o sched \<Rightarrow> 'o sched) \<Rightarrow> nat \<Rightarrow> 'o sched
    \<Rightarrow> ('o outcome list \<times> 'o sched) option" where
  "drain call 0 s = Some ([], s)"
| "drain call (Suc n) s = do {
     (out, s1) \<leftarrow> mp_handle_pending call s;
     (outs, s2) \<leftarrow> drain call n s1;
     Some (out # outs, s2) }"

lemma drain_all:
  assumes "sched_inv s" and "sched_state s = MP_SCHED_PENDING"
    and "mp_pending_exception s = None" and "sched_sp s = Suc n"
  shows "\<exists>t. drain (\<lambda>f a s. s) (Suc n) s
      = Some (map (\<lambda>i. Ran (Some i)) (rev (take (Suc n) (sched_stack s))), t)
    \<and> sched_state t = MP_SCHED_IDLE \<and> sched_sp t = 0"
  using assms
proof (induction n arbitrary: s)
  case 0
  then have "take 1 (sched_stack s) = [sched_stack s ! 0]"
    by (auto simp: sched_inv_def sched_consts take_Suc_conv_app_nth)
  with 0 show ?case
    by (auto simp: mp_handle_pending_def mp_handle_pending_tail_def mp_sched_unlock_def Let_def
        sched_inv_def sched_consts mem_simps int16_id)
next
  case (Suc n)
  define s1 where "s1 = s\<lparr>sched_state := MP_SCHED_PENDING, sched_sp := Suc n\<rparr>"
  have in_range: "Suc n < length (sched_stack s)"
    using Suc.prems by (auto simp: sched_inv_def)
  have step: "mp_handle_pending (\<lambda>f a s. s) s = Some (Ran (Some (sched_stack s ! Suc n)), s1)"
    using Suc.prems in_range
    by (auto simp: mp_handle_pending_def mp_handle_pending_tail_def mp_sched_unlock_def Let_def
        sched_consts mem_simps int16_id s1_def)
  have "sched_inv s1" "sched_state s1 = MP_SCHED_PENDING" "mp_pending_exception s1 = None"
    "sched_sp s1 = Suc n" "sched_stack s1 = sched_stack s"
    using Suc.prems by (auto simp: s1_def sched_inv_def sched_consts)
  from Suc.IH [OF this(1-4)] this(5) obtain t where
    t: "drain (\<lambda>f a s. s) (Suc n) s1
        = Some (map (\<lambda>i. Ran (Some i)) (rev (take (Suc n) (sched_stack s))), t)"
      "sched_state t = MP_SCHED_IDLE" "sched_sp t = 0" by auto
  have "drain (\<lambda>f a s. s) (Suc (Suc n)) s = do {
      (outs, s2) \<leftarrow> drain (\<lambda>f a s. s) (Suc n) s1;
      Some (Ran (Some (sched_stack s ! Suc n)) # outs, s2) }"
    by (subst drain.simps(2)) (simp add: step del: drain.simps)
  with t show ?case
    using in_range by (simp add: take_Suc_conv_app_nth [of "Suc n"] del: drain.simps)
qed

subsection \<open>Properties\<close>

text \<open>C21. In every reachable state of the scheduler, with any interleaving of scheduling, interrupts, locking
  and callback runs, the stack pointer is inside the stack and an idle scheduler has neither a
  pending exception nor a pending callback: no work is forgotten.\<close>

theorem scheduler_forgets_nothing:
  assumes "sched_reachable call s" and "callback_ok call"
  shows "sched_sp s \<le> 8 \<and> length (sched_stack s) = 8
    \<and> (sched_state s = MP_SCHED_IDLE \<longrightarrow> sched_sp s = 0 \<and> mp_pending_exception s = None)"
  using reachable_inv [OF assms] by (simp add: sched_inv_def MICROPY_SCHEDULER_DEPTH_def)

theorem scheduler_forgets_nothing_witness:
  "sched_sp (mp_sched_unlock (mp_sched_lock (mp_sched_init (replicate 8 (0 :: nat, 0))))) = 0
    \<and> mp_pending_exception (mp_sched_unlock (mp_sched_lock (mp_sched_init (replicate 8 (0 :: nat, 0))))) = None"
proof -
  let ?s = "mp_sched_unlock (mp_sched_lock (mp_sched_init (replicate 8 (0 :: nat, 0))))"
  have "sched_reachable (\<lambda>f a s. s) ?s"
    by (rule sched_reachable.more [OF sched_reachable.more [OF sched_reachable.start] sched_step.Unlock];
        (rule sched_step.Lock)?) (simp_all add: sched_consts mp_sched_init_def mp_sched_lock_def)
  then show ?thesis
    using scheduler_forgets_nothing [of "\<lambda>f a s. s" ?s]
    by (simp add: callback_ok_def mp_sched_init_def mp_sched_lock_def mp_sched_unlock_def sched_consts int16_id)
qed

text \<open>C32. Pending callbacks all run: with \<open>n + 1\<close> of them on the stack and callbacks that schedule nothing,
  \<open>n + 1\<close> calls of the pending handler run each once, the last scheduled first, and leave the
  scheduler idle.\<close>

theorem pending_callbacks_all_run:
  assumes "sched_inv s" and "sched_state s = MP_SCHED_PENDING"
    and "mp_pending_exception s = None" and "sched_sp s = Suc n"
  shows "\<exists>t. drain (\<lambda>f a s. s) (Suc n) s
      = Some (map (\<lambda>i. Ran (Some i)) (rev (take (Suc n) (sched_stack s))), t)
    \<and> sched_state t = MP_SCHED_IDLE \<and> sched_sp t = 0"
  using drain_all [OF assms] .

theorem pending_callbacks_all_run_witness:
  "\<exists>t. drain (\<lambda>f a s. s) (Suc 1) \<lparr>sched_state = 0, sched_sp = 2, sched_stack = (1, 2) # replicate 7 (3 :: nat, 4),
      mp_pending_exception = None\<rparr>
    = Some (map (\<lambda>i. Ran (Some i)) (rev (take (Suc 1) (sched_stack \<lparr>sched_state = 0, sched_sp = 2,
        sched_stack = (1, 2) # replicate 7 (3 :: nat, 4), mp_pending_exception = None\<rparr>))), t)
    \<and> sched_state t = MP_SCHED_IDLE \<and> sched_sp t = 0"
  by (rule pending_callbacks_all_run) (simp_all add: sched_inv_def sched_consts)

end
