(* ===== verification/Py_Console.thy ===== *)
theory Py_Console
  imports Bounded_Queue Py_Scheduler
begin

text \<open>
  The interpreter's console input: the byte ring of \<open>py/ringbuf.h\<close> and the UART interrupt
  handler of \<open>ports/esp32/uart.c\<close> that fills it.  The ring may have any size (its indices
  wrap by comparison, not by a mask); it is a second instance of \<open>bounded_queue\<close>.
\<close>

record ringbuf_t =
  buf :: "u8 list"
  size :: u16
  iget :: u16
  iput :: u16

definition ringbuf_alloc :: "u8 list \<Rightarrow> ringbuf_t" where
  "ringbuf_alloc storage = \<lparr>buf = storage, size = of_nat (length storage), iget = 0, iput = 0\<rparr>"

text \<open>Both operations return a C \<open>int\<close>: -1 for empty, and for full.\<close>

definition ringbuf_get :: "ringbuf_t \<Rightarrow> (int \<times> ringbuf_t) option" where
  "ringbuf_get r =
     (if iget r = iput r then Some (-1, r)
      else do {
        v \<leftarrow> rd (buf r) (unat (iget r));
        let g = iget r + 1;
        Some (uint v, r\<lparr>iget := (if g \<ge> size r then 0 else g)\<rparr>) })"

definition ringbuf_put :: "u8 \<Rightarrow> ringbuf_t \<Rightarrow> (int \<times> ringbuf_t) option" where
  "ringbuf_put v r =
     (let iput_new = (ucast (iput r) + 1 :: u32);
          iput_new = (if iput_new \<ge> ucast (size r) then 0 else iput_new)
      in if iput_new = ucast (iget r) then Some (-1, r)
         else do {
           b \<leftarrow> wr (buf r) (unat (iput r)) v;
           Some (0, r\<lparr>buf := b, iput := ucast iput_new\<rparr>) })"

definition ringbuf_ok :: "ringbuf_t \<Rightarrow> bool" where
  "ringbuf_ok r \<longleftrightarrow> length (buf r) = unat (size r)
     \<and> unat (iget r) < length (buf r) \<and> unat (iput r) < length (buf r)"

definition ringbuf_items :: "ringbuf_t \<Rightarrow> u8 list" where
  "ringbuf_items r = ring_list (buf r) (unat (iget r)) (unat (iput r))"

definition ringbuf_room :: "ringbuf_t \<Rightarrow> nat" where
  "ringbuf_room r = length (buf r) - 1"

text \<open>The wrap by comparison is the successor modulo the size.\<close>

lemma wrap16:
  assumes "unat (x :: u16) < unat s"
  shows "unat (if x + 1 \<ge> s then 0 else x + 1) = Suc (unat x) mod unat s"
proof (cases "unat x + 1 = unat s")
  case True
  then have "x + 1 = s" by (metis of_nat_1 of_nat_add of_nat_unat ucast_id)
  with True show ?thesis by simp
next
  case False
  have "unat s < 2 ^ 16" using unat_bound [of s] by simp
  with False assms have "unat (x + 1) = Suc (unat x)"
    by (simp add: unat_plus_1)
  with False assms show ?thesis by (auto simp: word_le_nat_alt)
qed

lemma wrap32:
  assumes "unat (x :: u16) < unat (s :: u16)"
  shows "unat (let n = (ucast x + 1 :: u32) in if n \<ge> ucast s then 0 else n) = Suc (unat x) mod unat s"
proof -
  have s: "unat (ucast s :: u32) = unat s" and x: "unat (ucast x :: u32) = unat x"
    by (simp_all add: unat_ucast_up)
  have "unat s < 2 ^ 16" using unat_bound [of s] by simp
  with assms x have n: "unat (ucast x + 1 :: u32) = Suc (unat x)"
    by (simp add: unat_plus_1)
  show ?thesis
  proof (cases "Suc (unat x) = unat s")
    case True
    then show ?thesis by (simp add: Let_def word_le_nat_alt n s)
  next
    case False
    with assms show ?thesis by (simp add: Let_def word_le_nat_alt n s)
  qed
qed

lemma ringbuf_get_ok:
  assumes "ringbuf_ok r"
  shows "\<exists>r'. ringbuf_get r = Some (case ringbuf_items r of [] \<Rightarrow> -1 | v # _ \<Rightarrow> uint v, r')
    \<and> ringbuf_ok r' \<and> ringbuf_items r' = tl (ringbuf_items r) \<and> ringbuf_room r' = ringbuf_room r"
proof (cases "iget r = iput r")
  case True
  then have "ringbuf_items r = []"
    using assms by (simp add: ringbuf_items_def ringbuf_ok_def ring_list_empty)
  with True assms show ?thesis by (simp add: ringbuf_get_def)
next
  case False
  have g: "unat (if iget r + 1 \<ge> size r then 0 else iget r + 1) = Suc (unat (iget r)) mod length (buf r)"
    using assms wrap16 [of "iget r" "size r"] by (simp add: ringbuf_ok_def)
  have "ringbuf_items r = buf r ! unat (iget r)
      # ring_list (buf r) (Suc (unat (iget r)) mod length (buf r)) (unat (iput r))"
    using assms False unfolding ringbuf_items_def
    by (intro ring_list_get) (auto simp: ringbuf_ok_def word_eq_iff_unat)
  moreover have "Suc (unat (iget r)) mod length (buf r) < length (buf r)"
    using assms by (intro mod_less_divisor) (auto simp: ringbuf_ok_def)
  ultimately show ?thesis
    using assms False g
    by (auto simp: ringbuf_get_def Let_def mem_simps ringbuf_ok_def ringbuf_items_def ringbuf_room_def)
qed

lemma ringbuf_put_ok:
  assumes "ringbuf_ok r"
  shows "\<exists>r'. ringbuf_put v r
       = Some (if length (ringbuf_items r) < ringbuf_room r then 0 else -1, r')
    \<and> ringbuf_ok r' \<and> ringbuf_room r' = ringbuf_room r
    \<and> ringbuf_items r' = (if length (ringbuf_items r) < ringbuf_room r
                           then ringbuf_items r @ [v] else ringbuf_items r)"
proof -
  let ?n = "let n = (ucast (iput r) + 1 :: u32) in if n \<ge> ucast (size r) then 0 else n"
  let ?p = "Suc (unat (iput r)) mod length (buf r)"
  have ok: "unat (iput r) < unat (size r)" "length (buf r) = unat (size r)"
    "unat (iget r) < length (buf r)" "unat (iput r) < length (buf r)"
    using assms by (auto simp: ringbuf_ok_def)
  have p: "unat ?n = ?p" using wrap32 [OF ok(1)] ok(2) by simp
  have p_less: "?p < length (buf r)" using ok by (intro mod_less_divisor) auto
  have "?p < 2 ^ 16" using p_less ok(2) unat_bound [of "size r"] by simp
  then have p16: "unat (ucast ?n :: u16) = ?p" using p by (simp add: unat_ucast_mod)
  have eq: "?n = ucast (iget r) \<longleftrightarrow> ?p = unat (iget r)"
    using p by (simp add: word_eq_iff_unat unat_ucast_up)
  have full: "length (ringbuf_items r) = ringbuf_room r \<longleftrightarrow> ?p = unat (iget r)"
    using ring_list_full [OF ok(3,4)] by (simp add: ringbuf_items_def ringbuf_room_def)
  have bound: "length (ringbuf_items r) \<le> ringbuf_room r"
    using ring_list_bound [OF ok(3,4)] by (simp add: ringbuf_items_def ringbuf_room_def)
  show ?thesis
  proof (cases "?p = unat (iget r)")
    case True
    with full eq assms show ?thesis by (simp add: ringbuf_put_def Let_def)
  next
    case False
    with full bound have room: "length (ringbuf_items r) < ringbuf_room r" by simp
    have put: "ringbuf_put v r = Some (0, r\<lparr>buf := (buf r)[unat (iput r) := v], iput := ucast ?n\<rparr>)"
      using False eq ok(4) by (simp add: ringbuf_put_def Let_def mem_simps)
    show ?thesis
      using room put p16 p_less ok ring_list_put [OF ok(3,4) False, of v]
      by (simp add: ringbuf_ok_def ringbuf_items_def ringbuf_room_def)
  qed
qed

text \<open>The two operations as the interface has them, with -1 read back as a refusal.\<close>

definition ringbuf_push :: "u8 \<Rightarrow> ringbuf_t \<Rightarrow> (bool \<times> ringbuf_t) option" where
  "ringbuf_push v r = map_option (\<lambda>(ret, r'). (ret \<noteq> -1, r')) (ringbuf_put v r)"

definition ringbuf_pop :: "ringbuf_t \<Rightarrow> (u8 option \<times> ringbuf_t) option" where
  "ringbuf_pop r =
     map_option (\<lambda>(ret, r'). (if ret = -1 then None else Some (word_of_int ret), r')) (ringbuf_get r)"

interpretation stdin_q: bounded_queue ringbuf_push ringbuf_pop ringbuf_items ringbuf_room ringbuf_ok
proof unfold_locales
  fix q and x :: u8
  assume ok: "ringbuf_ok q"
  show "length (ringbuf_items q) \<le> ringbuf_room q"
    using ok ring_list_bound [of "unat (iget q)" "buf q" "unat (iput q)"]
    by (simp add: ringbuf_ok_def ringbuf_items_def ringbuf_room_def)
  show "\<exists>q'. ringbuf_push x q
      = Some (fst (qspec_push (ringbuf_room q) x (ringbuf_items q)), q') \<and> ringbuf_ok q'
      \<and> ringbuf_items q' = snd (qspec_push (ringbuf_room q) x (ringbuf_items q))
      \<and> ringbuf_room q' = ringbuf_room q"
    using ringbuf_put_ok [OF ok, of x] by (auto simp: ringbuf_push_def qspec_push_def)
  have no_clash: "uint v \<noteq> -1" for v :: u8
    using uint_nonnegative [of v] by linarith
  obtain q' where q': "ringbuf_get q = Some (case ringbuf_items q of [] \<Rightarrow> -1 | v # _ \<Rightarrow> uint v, q')"
    "ringbuf_ok q'" "ringbuf_items q' = tl (ringbuf_items q)" "ringbuf_room q' = ringbuf_room q"
    using ringbuf_get_ok [OF ok] by blast
  then have "ringbuf_pop q = Some (fst (qspec_pop (ringbuf_items q)), q')"
    by (cases "ringbuf_items q") (simp_all add: ringbuf_pop_def qspec_pop_def no_clash)
  with q' show "\<exists>q'. ringbuf_pop q
      = Some (fst (qspec_pop (ringbuf_items q)), q') \<and> ringbuf_ok q'
      \<and> ringbuf_items q' = snd (qspec_pop (ringbuf_items q)) \<and> ringbuf_room q' = ringbuf_room q"
    by (cases "ringbuf_items q") (simp_all add: qspec_pop_def)
qed

subsection \<open>The UART interrupt handler\<close>

text \<open>
  One run of \<open>uart_irq_handler\<close> over the bytes in the hardware FIFO: the interrupt character
  (an \<open>int\<close>, -1 when disabled) raises the keyboard interrupt, any other byte goes to the ring,
  and what does not fit is dropped.
\<close>

record 'o console =
  stdin_ringbuf :: ringbuf_t
  vm :: "'o sched"
  mp_interrupt_char :: int

fun uart_irq_handler :: "'o \<Rightarrow> u8 list \<Rightarrow> 'o console \<Rightarrow> 'o console option" where
  "uart_irq_handler kbd [] con = Some con"
| "uart_irq_handler kbd (c # cs) con =
     (if uint c = mp_interrupt_char con
      then uart_irq_handler kbd cs (con\<lparr>vm := mp_keyboard_interrupt kbd (vm con)\<rparr>)
      else do {
        (_, r) \<leftarrow> ringbuf_put c (stdin_ringbuf con);
        uart_irq_handler kbd cs (con\<lparr>stdin_ringbuf := r\<rparr>) })"

lemma uart_irq_delivers:
  "ringbuf_ok (stdin_ringbuf con) \<Longrightarrow>
   \<exists>con'. uart_irq_handler kbd cs con = Some con'
     \<and> ringbuf_ok (stdin_ringbuf con') \<and> mp_interrupt_char con' = mp_interrupt_char con
     \<and> ringbuf_room (stdin_ringbuf con') = ringbuf_room (stdin_ringbuf con)
     \<and> ringbuf_items (stdin_ringbuf con') =
         ringbuf_items (stdin_ringbuf con) @
         take (ringbuf_room (stdin_ringbuf con) - length (ringbuf_items (stdin_ringbuf con)))
           (filter (\<lambda>c. uint c \<noteq> mp_interrupt_char con) cs)
     \<and> mp_pending_exception (vm con') =
         (if \<exists>c\<in>set cs. uint c = mp_interrupt_char con then Some kbd
          else mp_pending_exception (vm con))"
proof (induction cs arbitrary: con)
  case Nil
  then show ?case by simp
next
  case (Cons c cs)
  show ?case
  proof (cases "uint c = mp_interrupt_char con")
    case True
    with Cons.prems Cons.IH [of "con\<lparr>vm := mp_keyboard_interrupt kbd (vm con)\<rparr>"] show ?thesis
      by (auto simp: mp_keyboard_interrupt_def Let_def)
  next
    case False
    obtain ret r where r: "ringbuf_put c (stdin_ringbuf con) = Some (ret, r)" "ringbuf_ok r"
      "ringbuf_room r = ringbuf_room (stdin_ringbuf con)"
      "ringbuf_items r = (if length (ringbuf_items (stdin_ringbuf con)) < ringbuf_room (stdin_ringbuf con)
         then ringbuf_items (stdin_ringbuf con) @ [c] else ringbuf_items (stdin_ringbuf con))"
      using ringbuf_put_ok [OF Cons.prems, of c] by blast
    from Cons.IH [of "con\<lparr>stdin_ringbuf := r\<rparr>"] r False show ?thesis
      by (cases "length (ringbuf_items (stdin_ringbuf con)) < ringbuf_room (stdin_ringbuf con)")
         (auto simp: take_Cons' Suc_diff_Suc)
  qed
qed

subsection \<open>Properties\<close>

text \<open>The UART interrupt handler loses no typed byte while the ring has room: it appends the received
  bytes other than the interrupt character, up to the ring's capacity and in order, and raises the
  keyboard interrupt exactly when the interrupt character was among them.\<close>

theorem uart_input_delivered:
  assumes "ringbuf_ok (stdin_ringbuf con)"
  shows "\<exists>con'. uart_irq_handler kbd cs con = Some con' \<and> ringbuf_ok (stdin_ringbuf con')
    \<and> ringbuf_items (stdin_ringbuf con') =
        ringbuf_items (stdin_ringbuf con) @
        take (length (buf (stdin_ringbuf con)) - 1 - length (ringbuf_items (stdin_ringbuf con)))
          (filter (\<lambda>c. uint c \<noteq> mp_interrupt_char con) cs)
    \<and> mp_pending_exception (vm con') =
        (if \<exists>c\<in>set cs. uint c = mp_interrupt_char con then Some kbd else mp_pending_exception (vm con))"
  using uart_irq_delivers [OF assms, of kbd cs] by (auto simp: ringbuf_room_def)

theorem uart_input_delivered_witness:
  "\<exists>con'. uart_irq_handler (7 :: nat) [65, 3, 66, 67] \<lparr>stdin_ringbuf = ringbuf_alloc [0, 0, 0],
        vm = mp_sched_init [], mp_interrupt_char = 3\<rparr> = Some con' \<and> ringbuf_ok (stdin_ringbuf con')
    \<and> ringbuf_items (stdin_ringbuf con') =
        ringbuf_items (stdin_ringbuf \<lparr>stdin_ringbuf = ringbuf_alloc [0, 0, 0], vm = mp_sched_init [] :: nat sched, mp_interrupt_char = 3\<rparr>) @
        take (length (buf (stdin_ringbuf \<lparr>stdin_ringbuf = ringbuf_alloc [0, 0, 0], vm = mp_sched_init [] :: nat sched, mp_interrupt_char = 3\<rparr>)) - 1
            - length (ringbuf_items (stdin_ringbuf \<lparr>stdin_ringbuf = ringbuf_alloc [0, 0, 0], vm = mp_sched_init [] :: nat sched, mp_interrupt_char = 3\<rparr>)))
          (filter (\<lambda>c. uint c \<noteq> mp_interrupt_char \<lparr>stdin_ringbuf = ringbuf_alloc [0, 0, 0], vm = mp_sched_init [] :: nat sched, mp_interrupt_char = 3\<rparr>) [65, 3, 66, 67])
    \<and> mp_pending_exception (vm con') =
        (if \<exists>c\<in>set [65, 3, 66, 67 :: u8]. uint c = mp_interrupt_char \<lparr>stdin_ringbuf = ringbuf_alloc [0, 0, 0], vm = mp_sched_init [] :: nat sched, mp_interrupt_char = 3\<rparr>
         then Some 7 else mp_pending_exception (vm \<lparr>stdin_ringbuf = ringbuf_alloc [0, 0, 0], vm = mp_sched_init [], mp_interrupt_char = 3\<rparr>))"
  by (rule uart_input_delivered) (simp add: ringbuf_ok_def ringbuf_alloc_def)

end
