(* ===== verification/Py_Mpn.thy ===== *)
theory Py_Mpn
  imports Codey_Prelude
begin

text \<open>
  The digit level of the interpreter's long integers, the \<open>mpn\<close> functions of \<open>py/mpz.c\<close>
  with \<open>MPZ_DIG_SIZE\<close> 16: a natural number is a little-endian array of 16-bit digits, the
  arithmetic runs in 32-bit words, and every function returns the cells it writes and the
  number of digits of its result.
\<close>

type_synonym mpz_dig_t = u16
type_synonym mpz_dbl_dig_t = u32

definition DIG_SIZE :: nat where "DIG_SIZE = 16"
definition DIG_MASK :: u32 where "DIG_MASK = 0xFFFF"

text \<open>The digit kept of a double digit, and what it carries.\<close>

definition dig_low :: "mpz_dbl_dig_t \<Rightarrow> mpz_dig_t" where
  "dig_low c = ucast (c AND DIG_MASK)"

definition dig_carry :: "mpz_dbl_dig_t \<Rightarrow> mpz_dbl_dig_t" where
  "dig_carry c = drop_bit DIG_SIZE c"

subsection \<open>The number a digit array stands for\<close>

fun mval :: "mpz_dig_t list \<Rightarrow> int" where
  "mval [] = 0"
| "mval (d # ds) = uint d + 65536 * mval ds"

definition normalised :: "mpz_dig_t list \<Rightarrow> bool" where
  "normalised ds \<longleftrightarrow> ds = [] \<or> last ds \<noteq> 0"

lemma uint_dig: "0 \<le> uint (d :: u16)" "uint (d :: u16) < 65536"
  using uint_bounded [of d] by simp_all

lemma and_DIG_MASK: "c AND DIG_MASK = take_bit 16 c"
  by (simp add: DIG_MASK_def take_bit_eq_mask mask_eq_exp_minus_1)

lemma dig_low: "uint (dig_low c) = uint c mod 65536"
  by (simp add: dig_low_def and_DIG_MASK unsigned_ucast_eq unsigned_take_bit_eq take_bit_eq_mod uint_mod_distrib)

lemma dig_carry: "uint (dig_carry c) = uint c div 65536"
  by (simp add: dig_carry_def DIG_SIZE_def unsigned_drop_bit_eq take_bit_eq_mod drop_bit_eq_div
      uint_div_distrib)

lemma uint_ucast_dig: "uint (ucast (d :: u16) :: u32) = uint d"
  by (simp add: unsigned_ucast_eq take_bit_eq_mod uint_dig order_less_le_trans [OF uint_dig(2)])

lemma mval_nonneg: "0 \<le> mval ds"
  by (induction ds) (simp_all add: uint_dig)

lemma mval_bound: "mval ds < 65536 ^ length ds"
proof (induction ds)
  case (Cons d ds)
  then have "mval ds + 1 \<le> 65536 ^ length ds" by simp
  then have "65536 * (mval ds + 1) \<le> 65536 * 65536 ^ length ds" by simp
  then show ?case using uint_dig(2) [of d] by simp
qed simp

lemma mval_append: "mval (xs @ ys) = mval xs + 65536 ^ length xs * mval ys"
  by (induction xs) (simp_all add: algebra_simps)

lemma mval_replicate_0 [simp]: "mval (replicate n 0) = 0"
  by (induction n) simp_all

lemma mval_zero_iff: "mval ds = 0 \<longleftrightarrow> (\<forall>d\<in>set ds. d = 0)"
proof (induction ds)
  case (Cons d ds)
  have "uint d + 65536 * mval ds = 0 \<longleftrightarrow> uint d = 0 \<and> mval ds = 0"
    using uint_dig(1) [of d] mval_nonneg [of ds] by linarith
  with Cons show ?case by (simp add: uint_0_iff)
qed simp

lemma normalised_pos: "normalised ds \<Longrightarrow> ds \<noteq> [] \<Longrightarrow> 65536 ^ (length ds - 1) \<le> mval ds"
proof -
  assume n: "normalised ds" "ds \<noteq> []"
  then obtain xs d where ds: "ds = xs @ [d]" "d \<noteq> 0"
    by (cases ds rule: rev_cases) (auto simp: normalised_def)
  then have "1 \<le> uint d" using uint_dig(1) [of d] uint_0_iff [of d] by linarith
  then have "(65536 :: int) ^ length xs * 1 \<le> 65536 ^ length xs * uint d" by (intro mult_left_mono) simp_all
  then have "(65536 :: int) ^ length xs \<le> mval xs + 65536 ^ length xs * uint d"
    using mval_nonneg [of xs] by linarith
  then show ?thesis by (simp add: ds mval_append)
qed

subsection \<open>Trailing zeros and comparison\<close>

text \<open>The loop of \<open>mpn_remove_trailing_zeros\<close>, over the index of the cell before the end.\<close>

fun mpn_remove_trailing_zeros :: "mpz_dig_t list \<Rightarrow> nat \<Rightarrow> nat" where
  "mpn_remove_trailing_zeros oidig 0 = 0"
| "mpn_remove_trailing_zeros oidig (Suc n) =
     (if oidig ! n = 0 then mpn_remove_trailing_zeros oidig n else Suc n)"

lemma remove_trailing_zeros:
  assumes "n \<le> length ds"
  shows "mpn_remove_trailing_zeros ds n \<le> n"
    and "mval (take (mpn_remove_trailing_zeros ds n) ds) = mval (take n ds)"
    and "normalised (take (mpn_remove_trailing_zeros ds n) ds)"
  using assms
proof (induction n)
  case 0
  { case 1 then show ?case by simp }
  { case 2 then show ?case by simp }
  { case 3 then show ?case by (simp add: normalised_def) }
next
  case (Suc n)
  { case 1 with Suc show ?case by fastforce }
  { case 2 with Suc show ?case by (auto simp: take_Suc_conv_app_nth mval_append) }
  { case 3 with Suc show ?case by (auto simp: normalised_def take_Suc_conv_app_nth) }
qed

text \<open>A result: the written cells and the returned length.\<close>

type_synonym mpn_result = "mpz_dig_t list \<times> nat"

definition mpn_digits :: "mpn_result \<Rightarrow> mpz_dig_t list" where
  "mpn_digits r = take (snd r) (fst r)"

definition mpn_trimmed :: "mpz_dig_t list \<Rightarrow> mpn_result" where
  "mpn_trimmed w = (w, mpn_remove_trailing_zeros w (length w))"

lemma mval_trimmed [simp]: "mval (mpn_digits (mpn_trimmed w)) = mval w"
  and normalised_trimmed [simp]: "normalised (mpn_digits (mpn_trimmed w))"
  using remove_trailing_zeros [of "length w" w] by (simp_all add: mpn_digits_def mpn_trimmed_def)

text \<open>The loop of \<open>mpn_cmp\<close> compares from the top digit down.\<close>

fun mpn_cmp_loop :: "mpz_dig_t list \<Rightarrow> mpz_dig_t list \<Rightarrow> nat \<Rightarrow> int" where
  "mpn_cmp_loop idig jdig 0 = 0"
| "mpn_cmp_loop idig jdig (Suc n) =
     (let cmp = sint (ucast (idig ! n) - ucast (jdig ! n) :: 32 word) in
      if cmp < 0 then -1 else if cmp > 0 then 1 else mpn_cmp_loop idig jdig n)"

definition mpn_cmp :: "mpz_dig_t list \<Rightarrow> mpz_dig_t list \<Rightarrow> int" where
  "mpn_cmp idig jdig =
     (if length idig < length jdig then -1
      else if length idig > length jdig then 1
      else mpn_cmp_loop idig jdig (length idig))"

lemma sint_dig_diff: "sint (ucast (x :: u16) - ucast (y :: u16) :: 32 word) = uint x - uint y"
proof -
  have "uint x - uint y < 2147483648"
    using uint_dig [of x] uint_dig [of y] by linarith
  moreover have "-2147483648 \<le> uint x - uint y"
    using uint_dig [of x] uint_dig [of y] by linarith
  ultimately have "signed_take_bit 31 (uint x - uint y) = uint x - uint y"
    by (simp add: signed_take_bit_int_eq_self)
  moreover have "sint (ucast x - ucast y :: 32 word) = signed_take_bit 31 (uint (ucast x - ucast y :: 32 word))"
    by (simp add: sint_uint)
  moreover have "signed_take_bit 31 (uint (ucast x - ucast y :: 32 word)) = signed_take_bit 31 (uint x - uint y)"
    by (simp add: uint_word_ariths uint_ucast_dig signed_take_bit_eq_iff_take_bit_eq)
       (simp add: take_bit_eq_mod)
  ultimately show ?thesis by simp
qed

lemma mpn_cmp_loop:
  "n \<le> length i \<Longrightarrow> n \<le> length j \<Longrightarrow> mpn_cmp_loop i j n = sgn (mval (take n i) - mval (take n j))"
proof (induction n)
  case (Suc n)
  let ?B = "65536 ^ n :: int"
  have v: "mval (take (Suc n) i) - mval (take (Suc n) j)
      = (mval (take n i) - mval (take n j)) + ?B * (uint (i ! n) - uint (j ! n))"
    using Suc.prems by (simp add: take_Suc_conv_app_nth mval_append algebra_simps)
  have lt: "\<bar>mval (take n i) - mval (take n j)\<bar> < ?B"
    using mval_bound [of "take n i"] mval_bound [of "take n j"] mval_nonneg [of "take n i"]
      mval_nonneg [of "take n j"] Suc.prems by (simp add: min_def)
  show ?case
  proof (cases "uint (i ! n) - uint (j ! n)" "0 :: int" rule: linorder_cases)
    case less
    then have "?B * (uint (i ! n) - uint (j ! n)) \<le> ?B * (-1)" by (intro mult_left_mono) simp_all
    with lt v have "mval (take (Suc n) i) - mval (take (Suc n) j) < 0" by linarith
    with less show ?thesis by (simp add: sint_dig_diff Let_def)
  next
    case equal
    with Suc v show ?thesis by (simp add: sint_dig_diff Let_def)
  next
    case greater
    then have "?B * 1 \<le> ?B * (uint (i ! n) - uint (j ! n))" by (intro mult_left_mono) simp_all
    with lt v have "0 < mval (take (Suc n) i) - mval (take (Suc n) j)" by linarith
    with greater show ?thesis by (simp add: sint_dig_diff Let_def)
  qed
qed simp

lemma mpn_cmp_sgn:
  assumes "normalised i" and "normalised j"
  shows "mpn_cmp i j = sgn (mval i - mval j)"
proof -
  have less: "mval x < mval y" if "length x < length y" "normalised y" for x y
  proof -
    have "mval x < 65536 ^ length x" by (rule mval_bound)
    also have "(65536 :: int) ^ length x \<le> 65536 ^ (length y - 1)"
      using that by (intro power_increasing) auto
    also have "\<dots> \<le> mval y" using that by (intro normalised_pos) auto
    finally show ?thesis .
  qed
  show ?thesis
    using assms less [of i j] less [of j i] mpn_cmp_loop [of "length i" i j]
    by (cases "length i" "length j" rule: linorder_cases) (auto simp: mpn_cmp_def sgn_if)
qed

lemma normalised_iff: "ds \<noteq> [] \<Longrightarrow> normalised ds \<longleftrightarrow> 65536 ^ (length ds - 1) \<le> mval ds"
proof
  assume ne: "ds \<noteq> []" and le: "65536 ^ (length ds - 1) \<le> mval ds"
  obtain xs d where ds: "ds = xs @ [d]" using ne by (cases ds rule: rev_cases) auto
  have "d \<noteq> 0"
  proof
    assume "d = 0"
    with le mval_bound [of xs] show False by (simp add: ds mval_append)
  qed
  then show "normalised ds" by (simp add: normalised_def ds)
qed (rule normalised_pos)

lemma uint_add32: "uint a + uint b < 4294967296 \<Longrightarrow> uint (a + b :: u32) = uint a + uint b"
  by (simp add: uint_word_ariths)

lemma uint_mult32: "uint a * uint b < 4294967296 \<Longrightarrow> uint (a * b :: u32) = uint a * uint b"
  by (simp add: uint_word_ariths)

lemma uint_ucast_small: "uint (c :: u32) < 65536 \<Longrightarrow> uint (ucast c :: u16) = uint c"
  by (simp add: unsigned_ucast_eq take_bit_eq_mod)

lemma uint_dig_product: "uint (x :: u16) * uint (y :: u16) \<le> 65535 * 65535"
  using uint_dig [of x] uint_dig [of y] by (intro mult_mono) auto

subsection \<open>Addition and subtraction\<close>

text \<open>
  The two loops run together: the second one (no digits of \<open>k\<close> left) is the same step without
  the second summand.
\<close>

fun mpn_add_loop :: "mpz_dbl_dig_t \<Rightarrow> mpz_dig_t list \<Rightarrow> mpz_dig_t list \<Rightarrow> mpz_dig_t list" where
  "mpn_add_loop carry [] ks = (if carry \<noteq> 0 then [ucast carry] else [])"
| "mpn_add_loop carry (j # js) (k # ks) =
     (let carry = carry + (ucast j + ucast k) in dig_low carry # mpn_add_loop (dig_carry carry) js ks)"
| "mpn_add_loop carry (j # js) [] =
     (let carry = carry + ucast j in dig_low carry # mpn_add_loop (dig_carry carry) js [])"

definition mpn_add :: "mpz_dig_t list \<Rightarrow> mpz_dig_t list \<Rightarrow> mpn_result option" where
  "mpn_add jdig kdig =
     (if length kdig \<le> length jdig
      then (let w = mpn_add_loop 0 jdig kdig in Some (w, length w)) else None)"

lemma mpn_add_loop:
  "length ks \<le> length js \<Longrightarrow> uint c \<le> 1 \<Longrightarrow>
   mval (mpn_add_loop c js ks) = uint c + mval js + mval ks
   \<and> length (mpn_add_loop c js ks) \<in> {length js, Suc (length js)}"
proof (induction c js ks rule: mpn_add_loop.induct)
  case (1 c ks)
  then show ?case using uint_ucast_small [of c] by (auto simp: uint_0_iff)
next
  case (2 c j js k ks)
  let ?c = "c + (ucast j + ucast k)"
  have s: "uint (ucast j + ucast k :: u32) = uint j + uint k"
    using uint_dig(2) [of j] uint_dig(2) [of k] by (subst uint_add32) (simp_all add: uint_ucast_dig)
  have c: "uint ?c = uint c + uint j + uint k"
    using "2.prems"(2) uint_dig(2) [of j] uint_dig(2) [of k] by (subst uint_add32) (simp_all add: s)
  then have "uint (dig_carry ?c) \<le> 1"
    using "2.prems"(2) uint_dig(2) [of j] uint_dig(2) [of k] by (simp add: dig_carry)
  with 2 have IH: "mval (mpn_add_loop (dig_carry ?c) js ks) = uint (dig_carry ?c) + mval js + mval ks"
    "length (mpn_add_loop (dig_carry ?c) js ks) \<in> {length js, Suc (length js)}" by simp_all
  have "uint ?c = uint (dig_low ?c) + 65536 * uint (dig_carry ?c)"
    by (simp add: dig_low dig_carry)
  with IH c show ?case by (simp add: Let_def)
next
  case (3 c j js)
  let ?c = "c + ucast j"
  have c: "uint ?c = uint c + uint j"
    using "3.prems"(2) uint_dig(2) [of j] by (subst uint_add32) (simp_all add: uint_ucast_dig)
  then have "uint (dig_carry ?c) \<le> 1"
    using "3.prems"(2) uint_dig(2) [of j] by (simp add: dig_carry)
  with 3 have IH: "mval (mpn_add_loop (dig_carry ?c) js []) = uint (dig_carry ?c) + mval js"
    "length (mpn_add_loop (dig_carry ?c) js []) \<in> {length js, Suc (length js)}" by simp_all
  have "uint ?c = uint (dig_low ?c) + 65536 * uint (dig_carry ?c)"
    by (simp add: dig_low dig_carry)
  with IH c show ?case by (simp add: Let_def)
qed

text \<open>What a caller needs of a result: its value, its normal form and the cells it takes.\<close>

definition mpn_ok :: "mpn_result \<Rightarrow> int \<Rightarrow> nat \<Rightarrow> bool" where
  "mpn_ok r v cells \<longleftrightarrow> mval (mpn_digits r) = v \<and> normalised (mpn_digits r)
     \<and> length (fst r) \<le> cells \<and> snd r \<le> length (fst r)"

lemma mpn_ok_trimmed: "mval w = v \<Longrightarrow> length w \<le> n \<Longrightarrow> mpn_ok (mpn_trimmed w) v n"
  using remove_trailing_zeros(1) [of "length w" w] by (simp add: mpn_ok_def) (simp add: mpn_trimmed_def)

lemma mpn_add_ok:
  assumes "normalised j" and "length k \<le> length j"
  shows "\<exists>r. mpn_add j k = Some r \<and> mpn_ok r (mval j + mval k) (Suc (length j))"
proof -
  let ?w = "mpn_add_loop 0 j k"
  have w: "mval ?w = mval j + mval k" "length ?w \<in> {length j, Suc (length j)}"
    using mpn_add_loop [OF assms(2), of 0] by simp_all
  have "normalised ?w"
  proof (cases "j = []")
    case True
    then show ?thesis by (simp add: normalised_def)
  next
    case False
    have pos: "65536 ^ (length j - 1) \<le> mval j" using assms(1) False by (rule normalised_pos)
    show ?thesis
    proof (cases "length ?w = length j")
      case True
      then show ?thesis
        using pos w(1) mval_nonneg [of k] False by (subst normalised_iff) auto
    next
      case ext: False
      have "last (mpn_add_loop c js ks) \<noteq> 0"
        if "length (mpn_add_loop c js ks) = Suc (length js)" "uint c \<le> 1" "length ks \<le> length js" for c js ks
        using that
      proof (induction c js ks rule: mpn_add_loop.induct)
        case (1 c ks)
        then show ?case using uint_ucast_small [of c] by (auto simp: word_uint_eq_iff split: if_splits)
      next
        case (2 c j js k ks)
        have "uint (dig_carry (c + (ucast j + ucast k))) \<le> 1"
        proof -
          have "uint (c + (ucast j + ucast k)) = uint c + uint j + uint k"
            using 2 uint_dig(2) [of j] uint_dig(2) [of k]
            by (simp add: uint_word_ariths uint_ucast_dig)
          then show ?thesis using 2 uint_dig(2) [of j] uint_dig(2) [of k] by (simp add: dig_carry)
        qed
        with 2 show ?case by (auto simp: Let_def)
      next
        case (3 c j js)
        have "uint (dig_carry (c + ucast j)) \<le> 1"
        proof -
          have "uint (c + ucast j) = uint c + uint j"
            using 3 uint_dig(2) [of j] by (simp add: uint_word_ariths uint_ucast_dig)
          then show ?thesis using 3 uint_dig(2) [of j] by (simp add: dig_carry)
        qed
        with 3 show ?case by (auto simp: Let_def)
      qed
      from this [of 0 j k] ext w(2) assms(2) show ?thesis by (simp add: normalised_def)
    qed
  qed
  with w assms(2) show ?thesis by (auto simp: mpn_add_def mpn_ok_def mpn_digits_def Let_def)
qed

text \<open>The borrow is a signed double digit, shifted arithmetically.\<close>

fun mpn_sub_loop :: "mpz_dbl_dig_t \<Rightarrow> mpz_dig_t list \<Rightarrow> mpz_dig_t list \<Rightarrow> mpz_dig_t list" where
  "mpn_sub_loop borrow [] ks = []"
| "mpn_sub_loop borrow (j # js) (k # ks) =
     (let borrow = borrow + (ucast j - ucast k)
      in dig_low borrow # mpn_sub_loop (signed_drop_bit DIG_SIZE borrow) js ks)"
| "mpn_sub_loop borrow (j # js) [] =
     (let borrow = borrow + ucast j
      in dig_low borrow # mpn_sub_loop (signed_drop_bit DIG_SIZE borrow) js [])"

definition mpn_sub :: "mpz_dig_t list \<Rightarrow> mpz_dig_t list \<Rightarrow> mpn_result option" where
  "mpn_sub jdig kdig =
     (if length kdig \<le> length jdig then Some (mpn_trimmed (mpn_sub_loop 0 jdig kdig)) else None)"

lemma borrow_step:
  assumes "-65536 \<le> x" and "x < 65536"
  shows "uint (dig_low (word_of_int x)) = x mod 65536"
    and "signed_drop_bit DIG_SIZE (word_of_int x :: u32) = word_of_int (x div 65536)"
proof -
  show "uint (dig_low (word_of_int x)) = x mod 65536"
    by (simp add: dig_low uint_word_of_int mod_mod_cancel)
  have "sint (word_of_int x :: u32) = x"
    using assms by (simp add: sint_sbintrunc' signed_take_bit_int_eq_self)
  then have "sint (signed_drop_bit DIG_SIZE (word_of_int x :: u32)) = x div 65536"
    by (simp add: sint_signed_drop_bit_eq DIG_SIZE_def drop_bit_eq_div)
  then show "signed_drop_bit DIG_SIZE (word_of_int x :: u32) = word_of_int (x div 65536)"
    by (simp add: word_uint_eq_iff uint_sint [of "signed_drop_bit DIG_SIZE _"] uint_word_of_int take_bit_eq_mod)
qed

lemma mpn_sub_loop:
  "length ks \<le> length js \<Longrightarrow> b \<in> {-1, 0} \<Longrightarrow>
   length (mpn_sub_loop (word_of_int b) js ks) = length js
   \<and> (\<exists>b'\<in>{-1, 0}. mval (mpn_sub_loop (word_of_int b) js ks) + 65536 ^ length js * b'
        = b + mval js - mval ks)"
proof (induction js arbitrary: b ks)
  case Nil
  then show ?case by simp
next
  case (Cons j js)
  define k where "k = (case ks of [] \<Rightarrow> 0 | k # _ \<Rightarrow> k)"
  have ks: "mval ks = uint k + 65536 * mval (tl ks)" "length (tl ks) \<le> length js"
    using Cons.prems(1) by (auto simp: k_def split: list.splits)
  define x where "x = b + uint j - uint k"
  have x: "-65536 \<le> x" "x < 65536"
    unfolding x_def using Cons.prems(2) uint_dig [of j] uint_dig [of k] by (elim insertE emptyE; linarith)+
  have w: "word_of_int b + (ucast j - ucast k) = (word_of_int x :: u32)"
    unfolding x_def
    by (simp add: word_uint_eq_iff uint_word_ariths uint_word_of_int uint_ucast_dig mod_simps algebra_simps)
  have step: "mpn_sub_loop (word_of_int b) (j # js) ks
      = dig_low (word_of_int x) # mpn_sub_loop (word_of_int (x div 65536)) js (tl ks)"
  proof (cases ks)
    case Nil
    then have "word_of_int b + ucast j = (word_of_int x :: u32)" using w by (simp only: k_def list.case) simp
    with Nil show ?thesis by (simp only: mpn_sub_loop.simps Let_def borrow_step(2) [OF x] list.sel)
  next
    case (Cons a list)
    then have "word_of_int b + (ucast j - ucast a) = (word_of_int x :: u32)"
      using w by (simp only: k_def list.case)
    with Cons show ?thesis by (simp only: mpn_sub_loop.simps Let_def borrow_step(2) [OF x] list.sel)
  qed
  have b': "x div 65536 \<in> {-1, 0}" using x by auto
  obtain b2 where IH: "b2 \<in> {-1, 0}" "length (mpn_sub_loop (word_of_int (x div 65536)) js (tl ks)) = length js"
    "mval (mpn_sub_loop (word_of_int (x div 65536)) js (tl ks)) + 65536 ^ length js * b2
      = x div 65536 + mval js - mval (tl ks)"
    using Cons.IH [OF ks(2) b'] by blast
  have "mval (mpn_sub_loop (word_of_int b) (j # js) ks) + 65536 ^ length (j # js) * b2
      = x mod 65536 + 65536 * (mval (mpn_sub_loop (word_of_int (x div 65536)) js (tl ks)) + 65536 ^ length js * b2)"
    by (simp add: step borrow_step(1) [OF x] algebra_simps)
  also have "\<dots> = x + 65536 * (mval js - mval (tl ks))"
    unfolding IH(3) using mult_div_mod_eq [of 65536 x] by (simp add: algebra_simps)
  finally have "mval (mpn_sub_loop (word_of_int b) (j # js) ks) + 65536 ^ length (j # js) * b2
      = b + mval (j # js) - mval ks"
    using ks(1) by (simp add: x_def algebra_simps)
  moreover have "length (mpn_sub_loop (word_of_int b) (j # js) ks) = length (j # js)"
    using IH(2) by (simp add: step)
  ultimately show ?case using IH(1) by blast
qed

lemma mpn_sub_ok:
  assumes "length k \<le> length j" and "mval k \<le> mval j"
  shows "\<exists>r. mpn_sub j k = Some r \<and> mpn_ok r (mval j - mval k) (length j)"
proof -
  let ?w = "mpn_sub_loop 0 j k"
  have "length ?w = length j \<and> (\<exists>b\<in>{-1, 0}. mval ?w + 65536 ^ length j * b = mval j - mval k)"
    using mpn_sub_loop [OF assms(1), of 0] by simp
  then obtain b where b: "b \<in> {-1, 0}" "length ?w = length j"
    "mval ?w + 65536 ^ length j * b = mval j - mval k" by blast
  have "b = 0"
  proof (rule ccontr)
    assume "b \<noteq> 0"
    with b(1) have "b = -1" by auto
    with b(2,3) assms(2) mval_bound [of ?w] show False by simp
  qed
  with b assms(1) show ?thesis by (auto simp: mpn_sub_def intro!: mpn_ok_trimmed)
qed

subsection \<open>Shifts\<close>

text \<open>
  \<open>mpn_shl\<close> runs from the top digit down: the loop below takes the digits in that order and
  gives the cells it writes in the same order.  A shift count is a natural number here; the
  code's \<open>n + DIG_SIZE - 1\<close> would only wrap for counts that no memory can hold.
\<close>

fun mpn_shl_loop :: "nat \<Rightarrow> mpz_dbl_dig_t \<Rightarrow> mpz_dig_t list \<Rightarrow> mpz_dig_t list" where
  "mpn_shl_loop n_part d [] = [dig_low (drop_bit (DIG_SIZE - n_part) d)]"
| "mpn_shl_loop n_part d (x # xs) =
     (let d = d OR ucast x
      in dig_low (drop_bit (DIG_SIZE - n_part) d) # mpn_shl_loop n_part (push_bit DIG_SIZE d) xs)"

definition mpn_shl :: "mpz_dig_t list \<Rightarrow> nat \<Rightarrow> mpn_result" where
  "mpn_shl jdig n =
     (let n_whole = (n + DIG_SIZE - 1) div DIG_SIZE;
          n_part = (if n mod DIG_SIZE = 0 then DIG_SIZE else n mod DIG_SIZE);
          w = replicate (n_whole - 1) 0 @ rev (mpn_shl_loop n_part 0 (rev jdig))
      in (w, mpn_remove_trailing_zeros w (length jdig + n_whole)))"

lemma length_shl_loop: "length (mpn_shl_loop p d xs) = Suc (length xs)"
  by (induction p d xs rule: mpn_shl_loop.induct) (simp_all add: Let_def)

lemma uint_drop_bit: "uint (drop_bit n (w :: 'a::len word)) = uint w div 2 ^ n"
proof -
  have "take_bit LENGTH('a) (uint w) = uint w"
    using uint_bounded [of w] by (intro take_bit_int_eq_self) auto
  then show ?thesis by (simp only: unsigned_drop_bit_eq) (simp only: drop_bit_eq_div)
qed

lemma uint_double_digit: "uint (push_bit 16 (ucast (a :: u16)) OR ucast (x :: u16) :: u32) = uint a * 65536 + uint x"
proof -
  have "push_bit 16 (ucast a) OR ucast x = (push_bit 16 (ucast a) + ucast x :: u32)"
    by (rule disjunctive_add [symmetric]) (auto simp: bit_simps dest: bit_imp_le_length)
  moreover have "uint (push_bit 16 (ucast a :: u32)) = uint a * 65536"
    using uint_dig [of a] by (simp add: push_bit_eq_mult uint_word_ariths uint_ucast_dig)
  ultimately show ?thesis
    using uint_dig(2) [of a] uint_dig(2) [of x] by (subst (asm) word_uint_eq_iff) (simp add: uint_word_ariths uint_ucast_dig)
qed

lemma push_double_digit: "push_bit 16 (push_bit 16 (ucast (a :: u16)) OR ucast (x :: u16) :: u32) = push_bit 16 (ucast x)"
  by (rule bit_word_eqI) (auto simp: bit_simps)

lemma shl_digit:
  assumes "0 < p" and "p \<le> 16"
  shows "uint (dig_low (drop_bit (16 - p) (push_bit 16 (ucast (a :: u16)) OR ucast (x :: u16))))
    = (uint a * 2 ^ p + uint x div 2 ^ (16 - p)) mod 65536"
proof -
  have "(2 :: int) ^ 16 = 2 ^ p * 2 ^ (16 - p)" using assms(2) by (simp flip: power_add)
  then have q: "uint a * 65536 + uint x = uint x + (uint a * 2 ^ p) * 2 ^ (16 - p)"
    by simp
  have "(uint a * 65536 + uint x) div 2 ^ (16 - p) = uint a * 2 ^ p + uint x div 2 ^ (16 - p)"
    unfolding q by (subst div_mult_self1) simp_all
  then show ?thesis
    by (simp only: dig_low uint_drop_bit uint_double_digit)
qed

lemma shl_value_step:
  fixes a x v :: int
  assumes "0 < p" and "p \<le> 16" and "0 \<le> v" and "v < 65536 ^ n"
  shows "(x * 65536 ^ n * 2 ^ p + v * 2 ^ p) mod 65536 ^ Suc n
      + 65536 ^ Suc n * ((a * 2 ^ p + x div 2 ^ (16 - p)) mod 65536)
    = (a * 65536 ^ Suc n * 2 ^ p + (v + 65536 ^ n * x) * 2 ^ p) mod 65536 ^ Suc (Suc n)"
proof -
  let ?B = "65536 ^ n :: int" and ?T = "(v + 65536 ^ n * x) * 2 ^ p"
  have q: "(65536 :: int) = 2 ^ (16 - p) * 2 ^ p"
    using assms(2) by (simp flip: power_add)
  have top: "?T div (65536 * ?B) = x div 2 ^ (16 - p)"
  proof -
    have "65536 * ?B = (?B * 2 ^ (16 - p)) * 2 ^ p" using q by simp
    then have "?T div (65536 * ?B) = (v + ?B * x) div (?B * 2 ^ (16 - p))"
      by (simp only: div_mult_mult2 [of "2 ^ p" _ "?B * 2 ^ (16 - p)"]) simp
    also have "\<dots> = ((v + ?B * x) div ?B) div 2 ^ (16 - p)"
      by (simp add: zdiv_zmult2_eq)
    also have "(v + ?B * x) div ?B = x"
      using assms(3,4) by simp
    finally show ?thesis .
  qed
  let ?N = "65536 * ?B"
  let ?S = "a * ?N * 2 ^ p + ?T"
  have "?S = ?T + (a * 2 ^ p) * ?N" by simp
  then have lo: "?S mod ?N = ?T mod ?N" by (simp only: mod_mult_self1)
  have hi: "?S div ?N = a * 2 ^ p + x div 2 ^ (16 - p)"
  proof -
    have "?S = ?T + (a * 2 ^ p) * ?N" by simp
    then show ?thesis by (simp only: div_mult_self1) (simp add: top)
  qed
  have "?S mod (?N * 65536) = ?N * (?S div ?N mod 65536) + ?S mod ?N"
    by (rule zmod_zmult2_eq) simp
  then show ?thesis
    unfolding lo hi by (simp add: algebra_simps)
qed

lemma mpn_shl_loop:
  fixes a :: mpz_dig_t
  assumes "0 < p" and "p \<le> 16"
  shows "mval (rev (mpn_shl_loop p (push_bit 16 (ucast a)) xs))
    = (uint a * 65536 ^ length xs * 2 ^ p + mval (rev xs) * 2 ^ p) mod 65536 ^ Suc (length xs)"
proof (induction xs arbitrary: a)
  case Nil
  have "uint (dig_low (drop_bit (16 - p) (push_bit 16 (ucast a)))) = (uint a * 2 ^ p) mod 65536"
    using shl_digit [OF assms, of a 0] by simp
  then show ?case by (simp add: DIG_SIZE_def)
next
  case (Cons x xs)
  let ?d = "dig_low (drop_bit (16 - p) (push_bit 16 (ucast a) OR ucast x))"
  have "mpn_shl_loop p (push_bit 16 (ucast a)) (x # xs) = ?d # mpn_shl_loop p (push_bit 16 (ucast x)) xs"
    by (simp only: mpn_shl_loop.simps Let_def DIG_SIZE_def push_double_digit)
  then have "mval (rev (mpn_shl_loop p (push_bit 16 (ucast a)) (x # xs)))
      = (uint x * 65536 ^ length xs * 2 ^ p + mval (rev xs) * 2 ^ p) mod 65536 ^ Suc (length xs)
        + 65536 ^ Suc (length xs) * ((uint a * 2 ^ p + uint x div 2 ^ (16 - p)) mod 65536)"
    using Cons.IH [of x] shl_digit [OF assms, of a x]
    by (simp add: mval_append length_shl_loop)
  also have "\<dots> = (uint a * 65536 ^ Suc (length xs) * 2 ^ p
      + (mval (rev xs) + 65536 ^ length xs * uint x) * 2 ^ p) mod 65536 ^ Suc (Suc (length xs))"
    using mval_nonneg [of "rev xs"] mval_bound [of "rev xs"] assms by (intro shl_value_step) simp_all
  finally show ?case by (simp add: mval_append mult.commute)
qed

lemma shl_split:
  assumes "0 < (n :: nat)"
  shows "n = 16 * ((n + 15) div 16 - 1) + (if n mod 16 = 0 then 16 else n mod 16)" (is "?A n")
    and "0 < (n + 15) div 16" (is "?B n")
proof -
  define q r where "q = n div 16" and "r = n mod 16"
  have n: "n = 16 * q + r" "r < 16" by (simp_all add: q_def r_def)
  have "(16 * q + r + 15) div 16 = (if r = 0 then q else q + 1)"
    using n(2) by (auto intro!: div_nat_eqI)
  with n assms show "?A n" "?B n" by auto
qed

lemma mpn_shl_ok:
  assumes "0 < n"
  shows "mpn_ok (mpn_shl j n) (mval j * 2 ^ n) (length j + (n + 15) div 16)"
proof -
  define w p where "w = (n + 15) div 16" and "p = (if n mod 16 = 0 then 16 else n mod 16)"
  have p: "0 < p" "p \<le> 16" by (auto simp: p_def intro: order_less_imp_le)
  have n: "n = 16 * (w - 1) + p" "0 < w"
    using shl_split [OF assms] by (simp_all add: w_def p_def)
  let ?hi = "rev (mpn_shl_loop p 0 (rev j))"
  let ?w = "replicate (w - 1) 0 @ ?hi"
  have len: "length ?w = length j + w" using n(2) by (simp add: length_shl_loop)
  have "mval ?hi = (mval j * 2 ^ p) mod 65536 ^ Suc (length j)"
    using mpn_shl_loop [OF p, of 0 "rev j"] by simp
  moreover have "mval j * 2 ^ p < 65536 ^ length j * 65536"
  proof -
    have "(2 :: int) ^ p \<le> 2 ^ 16" using p(2) by (intro power_increasing) auto
    then have "mval j * 2 ^ p \<le> mval j * 65536"
      using mval_nonneg [of j] by (intro mult_left_mono) auto
    also have "\<dots> < 65536 ^ length j * 65536" using mval_bound [of j] by simp
    finally show ?thesis .
  qed
  ultimately have "mval ?hi = mval j * 2 ^ p"
    using mval_nonneg [of j] by (simp add: mult.commute)
  then have "mval ?w = mval j * 2 ^ p * 65536 ^ (w - 1)"
    by (simp add: mval_append)
  also have "(65536 :: int) ^ (w - 1) = 2 ^ (16 * (w - 1))"
    by (simp add: power_mult)
  also have "mval j * 2 ^ p * 2 ^ (16 * (w - 1)) = mval j * 2 ^ n"
    using n(1) by (simp add: power_add)
  finally have v: "mval ?w = mval j * 2 ^ n" .
  have "mpn_shl j n = mpn_trimmed ?w"
    using len by (simp add: mpn_shl_def mpn_trimmed_def DIG_SIZE_def w_def p_def Let_def add.commute [of 15 n])
  then show ?thesis using v len by (simp add: mpn_ok_trimmed w_def)
qed

text \<open>\<open>mpn_shr\<close>: each digit takes its high bits from its successor.\<close>

fun mpn_shr_loop :: "nat \<Rightarrow> mpz_dig_t list \<Rightarrow> mpz_dig_t list" where
  "mpn_shr_loop n_part [] = []"
| "mpn_shr_loop n_part (j # js) =
     (let d = (ucast j :: mpz_dbl_dig_t);
          d = (case js of [] \<Rightarrow> d | j1 # _ \<Rightarrow> d OR push_bit DIG_SIZE (ucast j1))
      in dig_low (drop_bit n_part d) # mpn_shr_loop n_part js)"

definition mpn_shr :: "mpz_dig_t list \<Rightarrow> nat \<Rightarrow> mpn_result" where
  "mpn_shr jdig n =
     (let n_whole = n div DIG_SIZE; n_part = n mod DIG_SIZE in
      if n_whole \<ge> length jdig then ([], 0)
      else let w = mpn_shr_loop n_part (drop n_whole jdig)
           in (w, if last w = 0 then length w - 1 else length w))"

lemma length_shr_loop [simp]: "length (mpn_shr_loop p js) = length js"
  by (induction p js rule: mpn_shr_loop.induct) (simp_all add: Let_def)

lemma shr_digit:
  assumes "p < 16"
  shows "uint (dig_low (drop_bit p (ucast (j :: u16) OR push_bit 16 (ucast (j1 :: u16)))))
    = ((uint j + 65536 * uint j1) div 2 ^ p) mod 65536"
proof -
  have "ucast j OR push_bit 16 (ucast j1) = (push_bit 16 (ucast j1) OR ucast j :: u32)"
    by (rule or.commute)
  then show ?thesis
    by (simp only: dig_low uint_drop_bit uint_double_digit) (simp add: mult.commute add.commute)
qed

lemma shr_value_step:
  fixes j j1 v :: int
  assumes "p < 16" and that: "0 \<le> j" "j < 65536"
  shows "((j + 65536 * j1) div 2 ^ p) mod 65536 + 65536 * ((j1 + 65536 * v) div 2 ^ p)
    = (j + 65536 * (j1 + 65536 * v)) div 2 ^ p"
proof -
  let ?T = "j + 65536 * (j1 + 65536 * v)"
  have q: "(65536 :: int) = 2 ^ (16 - p) * 2 ^ p"
    using assms(1) by (simp flip: power_add)
  have eq: "?T = (j + 65536 * j1) + (65536 * v * 2 ^ (16 - p)) * 2 ^ p"
    using q by (simp add: algebra_simps)
  have "?T div 2 ^ p = (j + 65536 * j1) div 2 ^ p + 65536 * (v * 2 ^ (16 - p))"
    unfolding eq by (subst div_mult_self1) (simp_all add: algebra_simps)
  then have lo: "(?T div 2 ^ p) mod 65536 = ((j + 65536 * j1) div 2 ^ p) mod 65536"
    by simp
  have "(?T div 2 ^ p) div 65536 = (?T div 65536) div 2 ^ p"
    by (simp add: zdiv_zmult2_eq [symmetric] mult.commute)
  also have "?T div 65536 = j1 + 65536 * v" using that by simp
  finally have hi: "(?T div 2 ^ p) div 65536 = (j1 + 65536 * v) div 2 ^ p" .
  show ?thesis
    using mult_div_mod_eq [of 65536 "?T div 2 ^ p"] unfolding lo hi by simp
qed

lemma mpn_shr_loop:
  assumes "p < 16"
  shows "mval (mpn_shr_loop p js) = mval js div 2 ^ p"
proof (induction js)
  case Nil
  then show ?case by simp
next
  case (Cons j js)
  show ?case
  proof (cases js)
    case Nil
    have "uint (dig_low (drop_bit p (ucast j))) = (uint j div 2 ^ p) mod 65536"
      using shr_digit [OF assms, of j 0] by simp
    moreover have "0 \<le> uint j div 2 ^ p" "uint j div 2 ^ p < 65536"
      using uint_dig [of j] zdiv_mono2 [of "uint j" 1 "2 ^ p"] by (simp_all add: pos_imp_zdiv_nonneg_iff)
    ultimately show ?thesis using Nil by (simp add: Let_def)
  next
    case (Cons j1 js')
    have "mval (mpn_shr_loop p (j # js))
        = ((uint j + 65536 * uint j1) div 2 ^ p) mod 65536 + 65536 * (mval js div 2 ^ p)"
      using Cons.IH shr_digit [OF assms, of j j1] Cons by (simp add: Let_def DIG_SIZE_def)
    also have "\<dots> = (uint j + 65536 * mval js) div 2 ^ p"
      using shr_value_step [OF assms, of "uint j" "uint j1" "mval js'"] uint_dig [of j] Cons by simp
    finally show ?thesis by simp
  qed
qed

lemma mpn_shr_ok:
  assumes "normalised j"
  shows "mpn_ok (mpn_shr j n) (mval j div 2 ^ n) (length j)"
proof (cases "n div 16 \<ge> length j")
  case True
  have "mval j < 2 ^ n"
  proof -
    have "mval j < 65536 ^ length j" by (rule mval_bound)
    also have "(65536 :: int) ^ length j = 2 ^ (16 * length j)" by (simp add: power_mult)
    also have "(2 :: int) ^ (16 * length j) \<le> 2 ^ n" using True by (intro power_increasing) auto
    finally show ?thesis .
  qed
  then have "mval j div 2 ^ n = 0" using mval_nonneg [of j] by simp
  with True show ?thesis
    by (simp add: mpn_shr_def mpn_ok_def mpn_digits_def normalised_def DIG_SIZE_def Let_def)
next
  case False
  let ?q = "n div 16" and ?p = "n mod 16"
  let ?w = "mpn_shr_loop ?p (drop ?q j)"
  let ?t = "if last ?w = 0 then length ?w - 1 else length ?w"
  have len: "length ?w = length j - ?q" "0 < length j - ?q" using False by auto
  then have ne: "?w \<noteq> []" "length ?w = length j - ?q" "0 < length j - ?q" by fastforce+
  have j: "mval j = mval (take ?q j) + 2 ^ (16 * ?q) * mval (drop ?q j)"
    using mval_append [of "take ?q j" "drop ?q j"] False by (simp add: min_def power_mult)
  have bound: "mval (take ?q j) < 2 ^ (16 * ?q)"
    using mval_bound [of "take ?q j"] False by (simp add: min_def power_mult)
  have "mval j div 2 ^ n = (mval j div 2 ^ (16 * ?q)) div 2 ^ ?p"
    by (simp add: zdiv_zmult2_eq [symmetric] power_add [symmetric])
  also have "mval j div 2 ^ (16 * ?q) = mval (drop ?q j)"
    using bound mval_nonneg [of "take ?q j"] by (simp add: j)
  finally have v: "mval ?w = mval j div 2 ^ n" by (simp add: mpn_shr_loop)
  obtain xs d where w: "?w = xs @ [d]" using ne(1) by (cases ?w rule: rev_cases) auto
  have trim: "mval (take ?t ?w) = mval ?w" by (simp add: w mval_append)
  have "normalised (take ?t ?w)"
  proof (cases "last ?w = 0")
    case False
    then show ?thesis by (simp add: normalised_def)
  next
    case True
    show ?thesis
    proof (cases "xs = []")
      case True
      then show ?thesis using \<open>last ?w = 0\<close> by (simp add: w normalised_def)
    next
      case nonempty: False
      have "normalised (drop ?q j)" using assms False by (auto simp: normalised_def last_drop)
      then have "65536 ^ (length j - ?q - 1) \<le> mval (drop ?q j)"
        using normalised_pos [of "drop ?q j"] False by simp
      then have "(65536 :: int) ^ (length j - ?q - 1) div 65536 \<le> mval (drop ?q j) div 2 ^ ?p"
      proof -
        have "(2 :: int) ^ ?p \<le> 2 ^ 16" by (intro power_increasing) auto
        then have "mval (drop ?q j) div 65536 \<le> mval (drop ?q j) div 2 ^ ?p"
          using mval_nonneg [of "drop ?q j"] by (intro zdiv_mono2) auto
        moreover assume "65536 ^ (length j - ?q - 1) \<le> mval (drop ?q j)"
        then have "(65536 :: int) ^ (length j - ?q - 1) div 65536 \<le> mval (drop ?q j) div 65536"
          by (intro zdiv_mono1) auto
        ultimately show ?thesis by linarith
      qed
      moreover have lx: "length xs = length j - ?q - 1" using ne(2) arg_cong [OF w, of length] by simp
      moreover have "(65536 :: int) ^ (length xs - 1) = 65536 ^ (length j - ?q - 1) div 65536"
        unfolding lx [symmetric] using nonempty by (cases xs) auto
      moreover have "mval xs = mval (drop ?q j) div 2 ^ ?p"
        using mpn_shr_loop [of ?p "drop ?q j"] True by (simp add: w mval_append)
      ultimately have "normalised xs"
        using nonempty by (subst normalised_iff) auto
      then show ?thesis using True by (simp add: w)
    qed
  qed
  moreover have "mpn_shr j n = (?w, ?t)" using False by (simp add: mpn_shr_def DIG_SIZE_def Let_def)
  moreover have "?t \<le> length ?w" by (simp del: length_shr_loop)
  ultimately show ?thesis
    using v trim ne(2) by (simp add: mpn_ok_def mpn_digits_def del: length_shr_loop)
qed

subsection \<open>Multiplication\<close>

text \<open>\<open>i = i * d1 + d2\<close>, in place.\<close>

fun mpn_mul_dig_add_dig_loop :: "mpz_dbl_dig_t \<Rightarrow> mpz_dig_t list \<Rightarrow> mpz_dig_t \<Rightarrow> mpz_dig_t list" where
  "mpn_mul_dig_add_dig_loop carry [] dmul = (if carry \<noteq> 0 then [ucast carry] else [])"
| "mpn_mul_dig_add_dig_loop carry (i # is) dmul =
     (let carry = carry + ucast i * ucast dmul
      in dig_low carry # mpn_mul_dig_add_dig_loop (dig_carry carry) is dmul)"

definition mpn_mul_dig_add_dig :: "mpz_dig_t list \<Rightarrow> mpz_dig_t \<Rightarrow> mpz_dig_t \<Rightarrow> mpn_result" where
  "mpn_mul_dig_add_dig idig dmul dadd =
     (let w = mpn_mul_dig_add_dig_loop (ucast dadd) idig dmul in (w, length w))"

lemma mul_step:
  assumes "uint c < 65536"
  shows "uint (c + (ucast (i :: u16) + ucast (x :: u16) * ucast (y :: u16)) :: u32) = uint c + uint i + uint x * uint y"
    and "uint (dig_carry (c + (ucast i + ucast x * ucast y))) < 65536"
    and "uint (dig_low (c + (ucast i + ucast x * ucast y))) + 65536 * uint (dig_carry (c + (ucast i + ucast x * ucast y)))
      = uint c + uint i + uint x * uint y"
proof -
  have p: "uint (ucast x * ucast y :: u32) = uint x * uint y"
    using uint_dig_product [of x y] by (subst uint_mult32) (simp_all add: uint_ucast_dig)
  have s: "uint (ucast i + ucast x * ucast y :: u32) = uint i + uint x * uint y"
    using uint_dig_product [of x y] uint_dig(2) [of i] by (subst uint_add32) (simp_all add: uint_ucast_dig p)
  show e: "uint (c + (ucast i + ucast x * ucast y)) = uint c + uint i + uint x * uint y"
    using uint_dig_product [of x y] uint_dig(2) [of i] assms by (subst uint_add32) (simp_all add: s)
  show "uint (dig_carry (c + (ucast i + ucast x * ucast y))) < 65536"
    using uint_dig_product [of x y] uint_dig(2) [of i] assms by (simp add: dig_carry e)
  show "uint (dig_low (c + (ucast i + ucast x * ucast y))) + 65536 * uint (dig_carry (c + (ucast i + ucast x * ucast y)))
      = uint c + uint i + uint x * uint y"
    unfolding dig_low dig_carry e by simp
qed

lemma mul_dig_add_dig_loop:
  "uint c < 65536 \<Longrightarrow> mval (mpn_mul_dig_add_dig_loop c is d) = uint c + uint d * mval is
   \<and> length (mpn_mul_dig_add_dig_loop c is d) \<le> Suc (length is)"
proof (induction c "is" d rule: mpn_mul_dig_add_dig_loop.induct)
  case (1 c d)
  then show ?case by (simp add: uint_ucast_small)
next
  case (2 c i "is" d)
  note s = mul_step [OF "2.prems", of 0 i d, simplified]
  from 2 s show ?case by (simp add: Let_def algebra_simps)
qed

text \<open>
  One row of the product, \<open>i = i + j * kd\<close>: the carry that is left goes into the next cell.
  The row also returns that carry, which decides the length of the product.
\<close>

fun mpn_mul_row :: "mpz_dbl_dig_t \<Rightarrow> mpz_dig_t list \<Rightarrow> mpz_dig_t list \<Rightarrow> mpz_dig_t
    \<Rightarrow> (mpz_dig_t list \<times> mpz_dbl_dig_t) option" where
  "mpn_mul_row carry is [] kd =
     (if carry \<noteq> 0 then do { is \<leftarrow> wr is 0 (ucast carry); Some (is, carry) } else Some (is, carry))"
| "mpn_mul_row carry [] (j # js) kd = None"
| "mpn_mul_row carry (i # is) (j # js) kd = do {
     let carry = carry + (ucast i + ucast j * ucast kd);
     (is, c) \<leftarrow> mpn_mul_row (dig_carry carry) is js kd;
     Some (dig_low carry # is, c) }"

fun mpn_mul_loop :: "nat \<Rightarrow> nat \<Rightarrow> mpz_dig_t list \<Rightarrow> mpz_dig_t list \<Rightarrow> mpz_dig_t list \<Rightarrow> mpn_result option" where
  "mpn_mul_loop off ilen idig jdig [] = Some (idig, ilen)"
| "mpn_mul_loop off ilen idig jdig (kd # ks) = do {
     (idig, carry) \<leftarrow> mpn_mul_row 0 idig jdig kd;
     let ilen = off + length jdig + (if carry \<noteq> 0 then 1 else 0);
     (case idig of
        [] \<Rightarrow> Some ([], ilen)
      | d # ds \<Rightarrow> do { (w, n) \<leftarrow> mpn_mul_loop (Suc off) ilen ds jdig ks; Some (d # w, n) }) }"

text \<open>The product's cells are zeroed before; \<open>length j + length k\<close> of them can be reached.\<close>

definition mpn_mul :: "mpz_dig_t list \<Rightarrow> mpz_dig_t list \<Rightarrow> mpn_result option" where
  "mpn_mul jdig kdig = mpn_mul_loop 0 0 (replicate (length jdig + length kdig) 0) jdig kdig"

lemma mpn_mul_row:
  "uint c < 65536 \<Longrightarrow> length js < length is \<Longrightarrow> is ! length js = 0 \<Longrightarrow>
   \<exists>w c'. mpn_mul_row c is js kd = Some (w, c') \<and> length w = length is
     \<and> mval w = mval is + uint c + uint kd * mval js
     \<and> drop (Suc (length js)) w = drop (Suc (length js)) is
     \<and> w ! length js = ucast c' \<and> uint c' < 65536"
proof (induction c "is" js kd rule: mpn_mul_row.induct)
  case (1 c "is" kd)
  then obtain i is' where "is": "is = i # is'" "i = 0" by (cases "is") auto
  then show ?case using "1.prems"(1) by (auto simp: wr_def uint_ucast_small)
next
  case (2 c j js kd)
  then show ?case by simp
next
  case (3 c i "is" j js kd)
  let ?c = "c + (ucast i + ucast j * ucast kd)"
  note s = mul_step [OF "3.prems"(1), of i j kd]
  from "3.IH" [OF refl s(2)] "3.prems"(2,3) obtain w c' where
    w: "mpn_mul_row (dig_carry ?c) is js kd = Some (w, c')" "length w = length is"
    "mval w = mval is + uint (dig_carry ?c) + uint kd * mval js"
    "drop (Suc (length js)) w = drop (Suc (length js)) is" "w ! length js = ucast c'" "uint c' < 65536"
    by auto
  with s(3) show ?case by (simp add: Let_def algebra_simps)
qed

lemma mpn_mul_loop:
  assumes "length is = length j + length ks" and "0 < length ks"
    and "\<And>i. length j \<le> i \<Longrightarrow> i < length is \<Longrightarrow> is ! i = 0"
  shows "\<exists>w n. mpn_mul_loop off ilen is j ks = Some (w, n) \<and> length w = length is
    \<and> mval w = mval is + mval j * mval ks
    \<and> n \<in> {off + length is - 1, off + length is}
    \<and> (n = off + length is - 1 \<longrightarrow> last w = 0) \<and> (n = off + length is \<longrightarrow> last w \<noteq> 0)"
  using assms
proof (induction ks arbitrary: "is" off ilen)
  case Nil
  then show ?case by simp
next
  case (Cons kd ks)
  have "length j < length is" "is ! length j = 0" using Cons.prems by auto
  from mpn_mul_row [OF _ this, of 0 kd] obtain w c where
    w: "mpn_mul_row 0 is j kd = Some (w, c)" "length w = length is" "mval w = mval is + uint kd * mval j"
    "drop (Suc (length j)) w = drop (Suc (length j)) is" "w ! length j = ucast c" "uint c < 65536"
    by auto
  obtain d ds where ds: "w = d # ds" using w(2) Cons.prems(1) by (cases w) auto
  show ?case
  proof (cases ks)
    case Nil
    have "last w = ucast c"
      using last_conv_nth [of w] w(2,5) Cons.prems(1) Nil ds by simp
    moreover have "(ucast c :: u16) = 0 \<longleftrightarrow> c = 0"
      using uint_ucast_small [OF w(6)] by (auto simp: word_uint_eq_iff)
    ultimately show ?thesis
      using w ds Nil Cons.prems(1) by (auto simp: algebra_simps)
  next
    case (Cons k ks')
    have zeros: "ds ! i = 0" if "length j \<le> i" "i < length ds" for i
    proof -
      have "ds ! i = drop (Suc (length j)) w ! (i - length j)"
        using that w(2) by (simp add: ds)
      also have "\<dots> = is ! Suc i" using that w(2,4) by (simp add: ds)
      also have "\<dots> = 0" using that w(2) Cons.prems(3) [of "Suc i"] by (simp add: ds)
      finally show ?thesis .
    qed
    have len: "length ds = length j + length ks" "0 < length ks"
      using w(2) Cons.prems(1) Cons by (auto simp: ds)
    from Cons.IH [OF len zeros, of "Suc off" "off + length j + (if c \<noteq> 0 then 1 else 0)"] obtain w2 n where
      w2: "mpn_mul_loop (Suc off) (off + length j + (if c \<noteq> 0 then 1 else 0)) ds j ks = Some (w2, n)"
      "length w2 = length ds" "mval w2 = mval ds + mval j * mval ks"
      "n \<in> {Suc off + length ds - 1, Suc off + length ds}"
      "n = Suc off + length ds - 1 \<longrightarrow> last w2 = 0" "n = Suc off + length ds \<longrightarrow> last w2 \<noteq> 0"
      by blast
    have ne: "w2 \<noteq> []" using w2(2) len by auto
    have "mval (d # w2) = mval is + mval j * mval (kd # ks)"
      using w(3) w2(3) by (simp add: ds algebra_simps)
    moreover have "mpn_mul_loop off ilen is j (kd # ks) = Some (d # w2, n)"
      using w(1) w2(1) by (simp add: ds Let_def)
    moreover have "length (d # w2) = length is" using w(2) w2(2) by (simp add: ds)
    moreover have "length is = Suc (length ds)" using w(2) by (simp add: ds)
    ultimately show ?thesis
      using w2(4-6) ne by (intro exI [of _ "d # w2"] exI [of _ n]) auto
  qed
qed

lemma mpn_mul_ok:
  assumes "normalised j" and "normalised k" and "j \<noteq> []" and "k \<noteq> []"
  shows "\<exists>r. mpn_mul j k = Some r \<and> mpn_ok r (mval j * mval k) (length j + length k)"
proof -
  let ?L = "length j + length k"
  have zeros: "(replicate ?L 0 :: mpz_dig_t list) ! i = 0" if "i < length (replicate ?L (0 :: mpz_dig_t))" for i
    using that by simp
  obtain w n where w: "mpn_mul_loop 0 0 (replicate ?L 0) j k = Some (w, n)" "length w = ?L"
    "mval w = mval j * mval k" "n \<in> {?L - 1, ?L}" "n = ?L - 1 \<longrightarrow> last w = 0" "n = ?L \<longrightarrow> last w \<noteq> 0"
    using mpn_mul_loop [of "replicate ?L 0" j k 0 0] zeros assms(4) by auto
  have ne: "w \<noteq> []" using w(2) assms(3) by auto
  have "mval (take n w) = mval w \<and> normalised (take n w)"
  proof (cases "n = ?L")
    case True
    then show ?thesis using w(2,6) by (simp add: normalised_def)
  next
    case False
    with w(4) have n: "n = ?L - 1" by simp
    obtain xs where xs: "w = xs @ [0]" using ne w(5) n by (cases w rule: rev_cases) auto
    have len: "length xs = ?L - 1" using w(2) xs by simp
    have "xs \<noteq> []" using len assms(3,4) by (cases j; cases k) auto
    have "(65536 :: int) ^ (length j - 1) * 65536 ^ (length k - 1) \<le> mval j * mval k"
      using normalised_pos assms by (intro mult_mono) (simp_all add: mval_nonneg)
    moreover have "(65536 :: int) ^ (length xs - 1) = 65536 ^ (length j - 1) * 65536 ^ (length k - 1)"
      unfolding len power_add [symmetric] using assms(3,4) by (cases j; cases k) simp_all
    moreover have "mval xs = mval j * mval k" using w(3) by (simp add: xs mval_append)
    ultimately have "normalised xs" using \<open>xs \<noteq> []\<close> by (simp add: normalised_iff)
    then show ?thesis using n len by (simp add: xs mval_append)
  qed
  then show ?thesis using w(1-4) by (auto simp: mpn_mul_def mpn_ok_def mpn_digits_def)
qed

subsection \<open>Bitwise operations\<close>

text \<open>The operations on two natural numbers.\<close>

fun mpn_and_loop :: "mpz_dig_t list \<Rightarrow> mpz_dig_t list \<Rightarrow> mpz_dig_t list" where
  "mpn_and_loop (j # js) (k # ks) = (j AND k) # mpn_and_loop js ks"
| "mpn_and_loop js [] = []"
| "mpn_and_loop [] ks = []"

definition mpn_and :: "mpz_dig_t list \<Rightarrow> mpz_dig_t list \<Rightarrow> mpn_result option" where
  "mpn_and jdig kdig =
     (if length kdig \<le> length jdig then Some (mpn_trimmed (mpn_and_loop jdig kdig)) else None)"

fun mpn_or_loop :: "mpz_dig_t list \<Rightarrow> mpz_dig_t list \<Rightarrow> mpz_dig_t list" where
  "mpn_or_loop (j # js) (k # ks) = (j OR k) # mpn_or_loop js ks"
| "mpn_or_loop (j # js) [] = j # mpn_or_loop js []"
| "mpn_or_loop [] ks = []"

definition mpn_or :: "mpz_dig_t list \<Rightarrow> mpz_dig_t list \<Rightarrow> mpn_result option" where
  "mpn_or jdig kdig =
     (if length kdig \<le> length jdig
      then (let w = mpn_or_loop jdig kdig in Some (w, length w)) else None)"

fun mpn_xor_loop :: "mpz_dig_t list \<Rightarrow> mpz_dig_t list \<Rightarrow> mpz_dig_t list" where
  "mpn_xor_loop (j # js) (k # ks) = (j XOR k) # mpn_xor_loop js ks"
| "mpn_xor_loop (j # js) [] = j # mpn_xor_loop js []"
| "mpn_xor_loop [] ks = []"

definition mpn_xor :: "mpz_dig_t list \<Rightarrow> mpz_dig_t list \<Rightarrow> mpn_result option" where
  "mpn_xor jdig kdig =
     (if length kdig \<le> length jdig then Some (mpn_trimmed (mpn_xor_loop jdig kdig)) else None)"

lemma bits_split:
  fixes a b x y :: int
  assumes "0 \<le> a" "a < 65536" "0 \<le> b" "b < 65536"
  shows "(a + 65536 * x) AND (b + 65536 * y) = (a AND b) + 65536 * (x AND y)"
    and "(a + 65536 * x) OR (b + 65536 * y) = (a OR b) + 65536 * (x OR y)"
    and "(a + 65536 * x) XOR (b + 65536 * y) = (a XOR b) + 65536 * (x XOR y)"
proof -
  have s: "c + 65536 * z = concat_bit 16 c z" if "take_bit 16 c = c" for c z :: int
    using that by (simp add: concat_bit_eq push_bit_eq_mult)
  have t: "take_bit 16 a = a" "take_bit 16 b = b"
    using assms by (simp_all add: take_bit_int_eq_self)
  show "(a + 65536 * x) AND (b + 65536 * y) = (a AND b) + 65536 * (x AND y)"
    using t by (simp add: s take_bit_and bit_eq_iff bit_concat_bit_iff bit_and_iff) auto
  show "(a + 65536 * x) OR (b + 65536 * y) = (a OR b) + 65536 * (x OR y)"
    using t by (simp add: s take_bit_or bit_eq_iff bit_concat_bit_iff bit_or_iff) auto
  show "(a + 65536 * x) XOR (b + 65536 * y) = (a XOR b) + 65536 * (x XOR y)"
    using t by (simp add: s take_bit_xor bit_eq_iff bit_concat_bit_iff bit_xor_iff) auto
qed

lemma mpn_and_loop: "mval (mpn_and_loop js ks) = mval js AND mval ks"
  by (induction js ks rule: mpn_and_loop.induct) (simp_all add: unsigned_and_eq bits_split uint_dig)

lemma mpn_or_loop: "length ks \<le> length js \<Longrightarrow> mval (mpn_or_loop js ks) = mval js OR mval ks"
  by (induction js ks rule: mpn_or_loop.induct) (simp_all add: unsigned_or_eq bits_split uint_dig)

lemma mpn_xor_loop: "length ks \<le> length js \<Longrightarrow> mval (mpn_xor_loop js ks) = mval js XOR mval ks"
  by (induction js ks rule: mpn_xor_loop.induct) (simp_all add: unsigned_xor_eq bits_split uint_dig)

lemma length_and_loop: "length (mpn_and_loop js ks) \<le> length ks"
  by (induction js ks rule: mpn_and_loop.induct) simp_all

lemma length_or_loop [simp]: "length (mpn_or_loop js ks) = length js"
  by (induction js ks rule: mpn_or_loop.induct) simp_all

lemma length_xor_loop [simp]: "length (mpn_xor_loop js ks) = length js"
  by (induction js ks rule: mpn_xor_loop.induct) simp_all

lemma mpn_and_ok: "length k \<le> length j \<Longrightarrow> \<exists>r. mpn_and j k = Some r \<and> mpn_ok r (mval j AND mval k) (length j)"
  using length_and_loop [of j k] by (auto simp: mpn_and_def mpn_and_loop intro!: mpn_ok_trimmed)

lemma mpn_xor_ok: "length k \<le> length j \<Longrightarrow> \<exists>r. mpn_xor j k = Some r \<and> mpn_ok r (mval j XOR mval k) (length j)"
  by (auto simp: mpn_xor_def mpn_xor_loop intro!: mpn_ok_trimmed)

lemma or_loop_Nil_iff [simp]: "mpn_or_loop js ks = [] \<longleftrightarrow> js = []"
  using length_or_loop [of js ks] by (metis length_0_conv)

lemma last_or_loop: "js \<noteq> [] \<Longrightarrow> last js \<noteq> 0 \<Longrightarrow> last (mpn_or_loop js ks) \<noteq> 0"
  by (induction js ks rule: mpn_or_loop.induct) (auto simp: or_eq_0_iff)

lemma mpn_or_ok:
  assumes "normalised j" and "length k \<le> length j"
  shows "\<exists>r. mpn_or j k = Some r \<and> mpn_ok r (mval j OR mval k) (length j)"
proof -
  have "normalised (mpn_or_loop j k)"
    using assms(1) last_or_loop [of j k] by (auto simp: normalised_def)
  with assms(2) show ?thesis
    by (auto simp: mpn_or_def mpn_ok_def mpn_digits_def mpn_or_loop)
qed

text \<open>
  The operations with negative operands run over the two's complement digits: \<open>tj\<close> and
  \<open>tk\<close> give what a digit adds to the carry of its number, \<open>ti\<close> what a combined double digit
  adds to the result's.  When the digits of \<open>k\<close> are used up, those of zero follow.  The loop
  returns the digits and the carry that is left.
\<close>

fun mpn_bits_loop :: "(mpz_dbl_dig_t \<Rightarrow> mpz_dbl_dig_t \<Rightarrow> mpz_dbl_dig_t) \<Rightarrow> (mpz_dig_t \<Rightarrow> mpz_dbl_dig_t)
    \<Rightarrow> (mpz_dig_t \<Rightarrow> mpz_dbl_dig_t) \<Rightarrow> (mpz_dbl_dig_t \<Rightarrow> mpz_dbl_dig_t)
    \<Rightarrow> mpz_dbl_dig_t \<Rightarrow> mpz_dbl_dig_t \<Rightarrow> mpz_dbl_dig_t \<Rightarrow> mpz_dig_t list \<Rightarrow> mpz_dig_t list
    \<Rightarrow> mpz_dig_t list \<times> mpz_dbl_dig_t" where
  "mpn_bits_loop bop tj tk ti carryi carryj carryk [] ks = ([], carryi)"
| "mpn_bits_loop bop tj tk ti carryi carryj carryk (j # js) ks =
     (let carryj = carryj + tj j;
          carryk = carryk + tk (case ks of k # _ \<Rightarrow> k | [] \<Rightarrow> 0);
          carryi = carryi + ti (bop carryj carryk);
          (w, c) = mpn_bits_loop bop tj tk ti (dig_carry carryi) (dig_carry carryj) (dig_carry carryk) js (tl ks)
      in (dig_low carryi # w, c))"

definition dig_mask_of :: "mpz_dbl_dig_t \<Rightarrow> mpz_dig_t" where
  "dig_mask_of carry = (if carry = 0 then 0 else ucast DIG_MASK)"

definition mpn_and_neg :: "mpz_dig_t list \<Rightarrow> mpz_dig_t list \<Rightarrow> mpz_dbl_dig_t \<Rightarrow> mpz_dbl_dig_t
    \<Rightarrow> mpz_dbl_dig_t \<Rightarrow> mpn_result" where
  "mpn_and_neg jdig kdig carryi carryj carryk =
     (let imask = dig_mask_of carryi; jmask = dig_mask_of carryj; kmask = dig_mask_of carryk;
          (w, c) = mpn_bits_loop (AND) (\<lambda>d. ucast (d XOR jmask)) (\<lambda>d. ucast (d XOR kmask))
            (\<lambda>x. (x XOR ucast imask) AND DIG_MASK) carryi carryj carryk jdig kdig
      in mpn_trimmed (if c \<noteq> 0 then w @ [ucast c] else w))"

text \<open>The assertion at the end of \<open>mpn_or_neg\<close> is the \<open>None\<close>.\<close>

definition mpn_or_neg :: "mpz_dig_t list \<Rightarrow> mpz_dig_t list \<Rightarrow> mpz_dbl_dig_t \<Rightarrow> mpz_dbl_dig_t
    \<Rightarrow> mpn_result option" where
  "mpn_or_neg jdig kdig carryj carryk =
     (let jmask = dig_mask_of carryj; kmask = dig_mask_of carryk;
          (w, c) = mpn_bits_loop (OR) (\<lambda>d. ucast (d XOR jmask)) (\<lambda>d. ucast (d XOR kmask))
            (\<lambda>x. (x XOR DIG_MASK) AND DIG_MASK) 1 carryj carryk jdig kdig
      in if c = 0 then Some (mpn_trimmed w) else None)"

definition mpn_xor_neg :: "mpz_dig_t list \<Rightarrow> mpz_dig_t list \<Rightarrow> mpz_dbl_dig_t \<Rightarrow> mpz_dbl_dig_t
    \<Rightarrow> mpz_dbl_dig_t \<Rightarrow> mpn_result" where
  "mpn_xor_neg jdig kdig carryi carryj carryk =
     (let (w, c) = mpn_bits_loop (XOR) (\<lambda>d. ucast d + DIG_MASK) (\<lambda>d. ucast d + DIG_MASK)
            (\<lambda>x. x AND DIG_MASK) carryi carryj carryk jdig kdig
      in mpn_trimmed (if c \<noteq> 0 then w @ [ucast c] else w))"

text \<open>
  \<open>digit_stream t F\<close>: adding \<open>t d\<close> to the carry \<open>c\<close> peels the lowest digit off the number
  \<open>F c v\<close>.
\<close>

definition digit_stream :: "(mpz_dig_t \<Rightarrow> mpz_dbl_dig_t) \<Rightarrow> (int \<Rightarrow> int \<Rightarrow> int) \<Rightarrow> bool" where
  "digit_stream t F \<longleftrightarrow> (\<forall>d c v. uint c \<le> 1 \<longrightarrow> uint (dig_carry (c + t d)) \<le> 1
     \<and> F (uint c) (uint d + 65536 * v) = uint (dig_low (c + t d)) + 65536 * F (uint (dig_carry (c + t d))) v)"

definition out_stream :: "(mpz_dbl_dig_t \<Rightarrow> mpz_dbl_dig_t) \<Rightarrow> (int \<Rightarrow> int \<Rightarrow> int) \<Rightarrow> bool" where
  "out_stream t F \<longleftrightarrow> (\<forall>x c v. uint c \<le> 1 \<longrightarrow> uint (dig_carry (c + t x)) \<le> 1
     \<and> F (uint c) (uint x mod 65536 + 65536 * v) = uint (dig_low (c + t x)) + 65536 * F (uint (dig_carry (c + t x))) v)"

definition digit_op :: "(mpz_dbl_dig_t \<Rightarrow> mpz_dbl_dig_t \<Rightarrow> mpz_dbl_dig_t) \<Rightarrow> (int \<Rightarrow> int \<Rightarrow> int) \<Rightarrow> bool" where
  "digit_op bop f \<longleftrightarrow> (\<forall>x y v w. f (uint (dig_low x) + 65536 * v) (uint (dig_low y) + 65536 * w)
     = uint (bop x y) mod 65536 + 65536 * f v w)"

lemma digit_ops: "digit_op (AND) (AND)" "digit_op (OR) (OR)" "digit_op (XOR) (XOR)"
proof -
  have m: "x mod 65536 = take_bit 16 x" for x :: int
    by (simp add: take_bit_eq_mod)
  have s: "(0 :: int) \<le> uint x mod 65536" "uint x mod 65536 < 65536" for x :: u32 by simp_all
  show "digit_op (AND) (AND)"
    by (simp add: digit_op_def dig_low bits_split [OF s s]) (simp add: m unsigned_and_eq)
  show "digit_op (OR) (OR)"
    by (simp add: digit_op_def dig_low bits_split [OF s s]) (simp add: m unsigned_or_eq)
  show "digit_op (XOR) (XOR)"
    by (simp add: digit_op_def dig_low bits_split [OF s s]) (simp add: m unsigned_xor_eq)
qed

lemma mpn_bits_loop:
  assumes "digit_op bop f" and "digit_stream tj Fj" and "digit_stream tk Fk" and "out_stream ti Fi"
  shows "length ks \<le> length js \<Longrightarrow> uint ci \<le> 1 \<Longrightarrow> uint cj \<le> 1 \<Longrightarrow> uint ck \<le> 1 \<Longrightarrow>
    \<exists>w ci' (cj' :: mpz_dbl_dig_t) (ck' :: mpz_dbl_dig_t). mpn_bits_loop bop tj tk ti ci cj ck js ks = (w, ci') \<and> length w = length js
      \<and> uint ci' \<le> 1 \<and> uint cj' \<le> 1 \<and> uint ck' \<le> 1
      \<and> (\<exists>r. 0 \<le> r \<and> r < 65536 ^ length js \<and> Fj (uint cj) (mval js) = r + 65536 ^ length js * Fj (uint cj') 0)
      \<and> (\<exists>r. 0 \<le> r \<and> r < 65536 ^ length js \<and> Fk (uint ck) (mval ks) = r + 65536 ^ length js * Fk (uint ck') 0)
      \<and> Fi (uint ci) (f (Fj (uint cj) (mval js)) (Fk (uint ck) (mval ks)))
        = mval w + 65536 ^ length js * Fi (uint ci') (f (Fj (uint cj') 0) (Fk (uint ck') 0))"
proof (induction js arbitrary: ci cj ck ks)
  case Nil
  then have "ks = []" by simp
  show ?case
    by (rule exI [of _ "[] :: mpz_dig_t list"], rule exI [of _ ci], rule exI [of _ cj], rule exI [of _ ck])
       (use Nil.prems \<open>ks = []\<close> in simp)
next
  case (Cons j js)
  define k where "k = (case ks of k # _ \<Rightarrow> k | [] \<Rightarrow> 0)"
  have ks: "mval ks = uint k + 65536 * mval (tl ks)" "length (tl ks) \<le> length js"
    using Cons.prems(1) by (auto simp: k_def split: list.splits)
  let ?cj = "cj + tj j" and ?ck = "ck + tk k"
  let ?ci = "ci + ti (bop ?cj ?ck)"
  have cj: "uint (dig_carry ?cj) \<le> 1"
    "Fj (uint cj) (mval (j # js)) = uint (dig_low ?cj) + 65536 * Fj (uint (dig_carry ?cj)) (mval js)"
    using assms(2) Cons.prems(3) by (auto simp: digit_stream_def)
  have ck: "uint (dig_carry ?ck) \<le> 1"
    "Fk (uint ck) (mval ks) = uint (dig_low ?ck) + 65536 * Fk (uint (dig_carry ?ck)) (mval (tl ks))"
    using assms(3) Cons.prems(4) ks(1) by (auto simp: digit_stream_def)
  let ?A = "f (Fj (uint (dig_carry ?cj)) (mval js)) (Fk (uint (dig_carry ?ck)) (mval (tl ks)))"
  have ci: "uint (dig_carry ?ci) \<le> 1"
    "Fi (uint ci) (f (Fj (uint cj) (mval (j # js))) (Fk (uint ck) (mval ks)))
      = uint (dig_low ?ci) + 65536 * Fi (uint (dig_carry ?ci)) ?A"
    using assms(1,4) Cons.prems(2) unfolding cj(2) ck(2) by (auto simp: digit_op_def out_stream_def)
  from Cons.IH [OF ks(2) ci(1) cj(1) ck(1)] obtain w ci' r1 r2 and cj' ck' :: mpz_dbl_dig_t where
    w: "mpn_bits_loop bop tj tk ti (dig_carry ?ci) (dig_carry ?cj) (dig_carry ?ck) js (tl ks) = (w, ci')"
      "length w = length js" "uint ci' \<le> 1" "uint cj' \<le> 1" "uint ck' \<le> 1"
    and r1: "0 \<le> r1" "r1 < 65536 ^ length js"
      "Fj (uint (dig_carry ?cj)) (mval js) = r1 + 65536 ^ length js * Fj (uint cj') 0"
    and r2: "0 \<le> r2" "r2 < 65536 ^ length js"
      "Fk (uint (dig_carry ?ck)) (mval (tl ks)) = r2 + 65536 ^ length js * Fk (uint ck') 0"
    and v: "Fi (uint (dig_carry ?ci)) ?A
      = mval w + 65536 ^ length js * Fi (uint ci') (f (Fj (uint cj') 0) (Fk (uint ck') 0))"
    by blast
  have run: "mpn_bits_loop bop tj tk ti ci cj ck (j # js) ks = (dig_low ?ci # w, ci')"
    using w(1) by (simp add: Let_def k_def)
  have fit: "0 \<le> uint d + 65536 * r \<and> uint d + 65536 * r < 65536 ^ length (j # js)"
    if "0 \<le> r" "r < 65536 ^ length js" for d :: mpz_dig_t and r :: int
  proof -
    have "65536 * (r + 1) \<le> 65536 * 65536 ^ length js" using that by (intro mult_left_mono) auto
    then show ?thesis using uint_dig [of d] that by simp
  qed
  have "Fj (uint cj) (mval (j # js)) = (uint (dig_low ?cj) + 65536 * r1) + 65536 ^ length (j # js) * Fj (uint cj') 0"
    unfolding cj(2) r1(3) by (simp add: algebra_simps)
  moreover have "Fk (uint ck) (mval ks) = (uint (dig_low ?ck) + 65536 * r2) + 65536 ^ length (j # js) * Fk (uint ck') 0"
    unfolding ck(2) r2(3) by (simp add: algebra_simps)
  moreover have "Fi (uint ci) (f (Fj (uint cj) (mval (j # js))) (Fk (uint ck) (mval ks)))
      = mval (dig_low ?ci # w) + 65536 ^ length (j # js) * Fi (uint ci') (f (Fj (uint cj') 0) (Fk (uint ck') 0))"
    unfolding ci(2) v by (simp add: algebra_simps)
  ultimately show ?case
    using run w(2-5) fit [OF r1(1,2), of "dig_low ?cj"] fit [OF r2(1,2), of "dig_low ?ck"]
    by (intro exI [of _ "dig_low ?ci # w"] exI [of _ ci'] exI [of _ cj'] exI [of _ ck'] conjI) auto
qed

text \<open>The streams: a two's complement number, and a number less one.\<close>

definition two_stream :: "bool \<Rightarrow> int \<Rightarrow> int \<Rightarrow> int" where
  "two_stream neg c v = (if neg then - v - 1 else v) + c"

definition dec_stream :: "int \<Rightarrow> int \<Rightarrow> int" where
  "dec_stream c v = v - 1 + c"

lemma uint_not16: "uint (NOT (d :: u16)) = 65535 - uint d"
  using uint_dig [of d]
  by (simp add: unsigned_not_eq take_bit_not_eq_mask_diff) (simp add: mask_eq_exp_minus_1 take_bit_int_eq_self)

lemma dig_mask: "dig_mask_of (of_bool n) = (if n then - 1 else 0)"
  by (simp add: dig_mask_of_def DIG_MASK_def)

lemma digit_split: "uint c = uint (dig_low c) + 65536 * uint (dig_carry c)"
  by (simp add: dig_low dig_carry)

lemma small_sum:
  assumes "uint (c :: u32) \<le> 1" and "uint x \<le> 65535"
  shows "uint (c + x) = uint c + uint x" and "uint (dig_carry (c + x)) \<le> 1"
proof -
  show s: "uint (c + x) = uint c + uint x" using assms by (intro uint_add32) simp
  have "uint c + uint x \<le> 65536" using assms by simp
  then have "(uint c + uint x) div 65536 \<le> 65536 div 65536" by (rule zdiv_mono1) simp
  then show "uint (dig_carry (c + x)) \<le> 1" by (simp add: dig_carry s)
qed

lemma two_digit_stream: "digit_stream (\<lambda>d. ucast (d XOR dig_mask_of (of_bool n))) (two_stream n)"
  unfolding digit_stream_def
proof (intro allI impI)
  fix d :: mpz_dig_t and c :: mpz_dbl_dig_t and v :: int
  assume c: "uint c \<le> 1"
  define x :: mpz_dbl_dig_t where "x = ucast (d XOR dig_mask_of (of_bool n))"
  have x: "uint x = (if n then 65535 - uint d else uint d)"
    by (simp add: x_def dig_mask uint_not16 uint_ucast_dig)
  have b: "uint x \<le> 65535" using uint_dig [of d] by (simp add: x)
  note s = small_sum [OF c b]
  have "two_stream n (uint c) (uint d + 65536 * v)
      = uint (c + x) + 65536 * (if n then - v - 1 else v)"
    by (simp add: two_stream_def s(1) x)
  also have "\<dots> = uint (dig_low (c + x)) + 65536 * two_stream n (uint (dig_carry (c + x))) v"
    using digit_split [of "c + x"] by (simp add: two_stream_def)
  finally show "uint (dig_carry (c + ucast (d XOR dig_mask_of (of_bool n)))) \<le> 1
    \<and> two_stream n (uint c) (uint d + 65536 * v)
      = uint (dig_low (c + ucast (d XOR dig_mask_of (of_bool n))))
        + 65536 * two_stream n (uint (dig_carry (c + ucast (d XOR dig_mask_of (of_bool n))))) v"
    using s(2) by (simp add: x_def)
qed

lemma dec_digit_stream: "digit_stream (\<lambda>d. ucast d + DIG_MASK) dec_stream"
  unfolding digit_stream_def
proof (intro allI impI)
  fix d :: mpz_dig_t and c :: mpz_dbl_dig_t and v :: int
  assume c: "uint c \<le> 1"
  define x :: mpz_dbl_dig_t where "x = ucast d + DIG_MASK"
  have x: "uint x = uint d + 65535"
    using uint_dig [of d] by (simp add: x_def uint_add32 uint_ucast_dig DIG_MASK_def)
  have s: "uint (c + x) = uint c + uint d + 65535"
    using c uint_dig [of d] by (subst uint_add32) (simp_all add: x)
  have "(uint c + uint d + 65535) div 65536 \<le> 131071 div 65536"
    using c uint_dig [of d] by (intro zdiv_mono1) simp_all
  then have "uint (dig_carry (c + x)) \<le> 1" by (simp add: dig_carry s)
  moreover have "dec_stream (uint c) (uint d + 65536 * v) = uint (c + x) + 65536 * (v - 1)"
    by (simp add: dec_stream_def s)
  moreover have "\<dots> = uint (dig_low (c + x)) + 65536 * dec_stream (uint (dig_carry (c + x))) v"
    using digit_split [of "c + x"] by (simp add: dec_stream_def)
  ultimately show "uint (dig_carry (c + (ucast d + DIG_MASK))) \<le> 1
    \<and> dec_stream (uint c) (uint d + 65536 * v)
      = uint (dig_low (c + (ucast d + DIG_MASK)))
        + 65536 * dec_stream (uint (dig_carry (c + (ucast d + DIG_MASK)))) v"
    by (simp add: x_def)
qed

lemma DIG_MASK_mask: "DIG_MASK = mask 16"
  by (simp add: DIG_MASK_def mask_eq_exp_minus_1)

lemma two_out_stream: "out_stream (\<lambda>x. (x XOR (if n then DIG_MASK else 0)) AND DIG_MASK) (two_stream n)"
  unfolding out_stream_def
proof (intro allI impI)
  fix y c :: mpz_dbl_dig_t and v :: int
  assume c: "uint c \<le> 1"
  define x where "x = (y XOR (if n then DIG_MASK else 0)) AND DIG_MASK"
  have x: "uint x = (if n then 65535 - uint y mod 65536 else uint y mod 65536)"
  proof (cases n)
    case True
    have "uint (NOT (ucast y :: u16)) = 65535 - uint y mod 65536"
      by (simp add: uint_not16 unsigned_ucast_eq take_bit_eq_mod)
    moreover have "x = ucast (NOT (ucast y :: u16))"
      using True by (intro bit_word_eqI) (auto simp: x_def DIG_MASK_mask bit_simps)
    ultimately show ?thesis using True by (simp add: uint_ucast_dig)
  next
    case False
    have "uint (take_bit 16 y) = uint y mod 65536"
      by (simp only: unsigned_take_bit_eq) (simp add: take_bit_eq_mod)
    then show ?thesis using False by (simp add: x_def and_DIG_MASK)
  qed
  have "uint y mod 65536 < 65536" "0 \<le> uint y mod 65536" by simp_all
  then have b: "uint x \<le> 65535" by (auto simp: x)
  note s = small_sum [OF c b]
  have "two_stream n (uint c) (uint y mod 65536 + 65536 * v)
      = uint (c + x) + 65536 * (if n then - v - 1 else v)"
    by (simp add: two_stream_def s(1) x)
  also have "\<dots> = uint (dig_low (c + x)) + 65536 * two_stream n (uint (dig_carry (c + x))) v"
    using digit_split [of "c + x"] by (simp add: two_stream_def)
  finally show "uint (dig_carry (c + ((y XOR (if n then DIG_MASK else 0)) AND DIG_MASK))) \<le> 1
    \<and> two_stream n (uint c) (uint y mod 65536 + 65536 * v)
      = uint (dig_low (c + ((y XOR (if n then DIG_MASK else 0)) AND DIG_MASK)))
        + 65536 * two_stream n (uint (dig_carry (c + ((y XOR (if n then DIG_MASK else 0)) AND DIG_MASK)))) v"
    using s(2) by (simp add: x_def)
qed

text \<open>What the loop leaves above the digits of an operand is nothing, or the sign.\<close>

lemma two_stream_top:
  assumes "two_stream n (of_bool n) v = r + 65536 ^ l * two_stream n (uint (c :: mpz_dbl_dig_t)) 0"
    and "0 \<le> r" and "r < 65536 ^ l" and "uint c \<le> 1" and "0 \<le> v" and "v < 65536 ^ l" and "n \<Longrightarrow> 0 < v"
  shows "two_stream n (uint c) 0 = (if n then - 1 else 0)"
proof -
  have c: "uint c = 0 \<or> uint c = 1" using assms(4) uint_ge_0 [of c] by linarith
  then show ?thesis using assms by (cases n) (auto simp: two_stream_def)
qed

lemma dec_stream_top:
  assumes "dec_stream (of_bool (\<not> n)) v = r + 65536 ^ l * dec_stream (uint (c :: mpz_dbl_dig_t)) 0"
    and "0 \<le> r" and "r < 65536 ^ l" and "uint c \<le> 1" and "0 \<le> v" and "v < 65536 ^ l" and "n \<Longrightarrow> 0 < v"
  shows "dec_stream (uint c) 0 = 0"
proof -
  have c: "uint c = 0 \<or> uint c = 1" using assms(4) uint_ge_0 [of c] by linarith
  then show ?thesis using assms by (cases n) (auto simp: dec_stream_def)
qed

text \<open>The value of a number of sign and magnitude.\<close>

definition sgn_val :: "bool \<Rightarrow> int \<Rightarrow> int" where
  "sgn_val neg v = (if neg then - v else v)"

lemma two_stream_sgn: "two_stream n (of_bool n) v = sgn_val n v"
  by (simp add: two_stream_def sgn_val_def)

lemma mpn_ok_carry:
  assumes "mval w + 65536 ^ length w * uint (c :: mpz_dbl_dig_t) = v" and "length w < n" and "uint c \<le> 1"
  shows "mpn_ok (mpn_trimmed (if c \<noteq> 0 then w @ [ucast c] else w)) v n"
proof (cases "c = 0")
  case True
  then show ?thesis using assms by (auto intro: mpn_ok_trimmed)
next
  case False
  have "uint (ucast c :: mpz_dig_t) = uint c" using assms(3) by (simp add: uint_ucast_small)
  then show ?thesis using assms False by (auto intro!: mpn_ok_trimmed simp: mval_append)
qed

lemma mval_less_longer: "length k \<le> length j \<Longrightarrow> mval k < 65536 ^ length j"
  by (rule less_le_trans [OF mval_bound power_increasing]) simp_all

lemma of_bool_word_le: "uint (of_bool b :: mpz_dbl_dig_t) \<le> 1" "uint (of_bool b :: mpz_dbl_dig_t) = of_bool b"
  by simp_all

lemma ucast_minus_1: "ucast (- 1 :: mpz_dig_t) = DIG_MASK"
  by (simp add: word_uint_eq_iff uint_ucast_dig DIG_MASK_def) (simp add: unsigned_minus_1_eq_mask mask_eq_exp_minus_1)

lemma mpn_and_neg_ok:
  assumes "length k \<le> length j" and "jn \<Longrightarrow> 0 < mval j" and "kn \<Longrightarrow> 0 < mval k" 
  shows "mpn_ok (mpn_and_neg j k (of_bool (jn \<and> kn)) (of_bool jn) (of_bool kn))
    (sgn_val (jn \<and> kn) (sgn_val jn (mval j) AND sgn_val kn (mval k))) (length j + 1)"
proof -
  let ?m = "\<lambda>n. dig_mask_of (of_bool n)"
  have im: "ucast (?m (jn \<and> kn)) = (if jn \<and> kn then DIG_MASK else 0 :: mpz_dbl_dig_t)"
    by (simp add: dig_mask ucast_minus_1)
  note streams = digit_ops(1) two_digit_stream [of jn] two_digit_stream [of kn] two_out_stream [of "jn \<and> kn"]
  obtain w ci and cj ck :: mpz_dbl_dig_t and r1 r2 where
    w: "mpn_bits_loop (AND) (\<lambda>d. ucast (d XOR ?m jn)) (\<lambda>d. ucast (d XOR ?m kn))
        (\<lambda>x. (x XOR (if jn \<and> kn then DIG_MASK else 0)) AND DIG_MASK)
        (of_bool (jn \<and> kn)) (of_bool jn) (of_bool kn) j k = (w, ci)" "length w = length j"
    and c: "uint ci \<le> 1" "uint cj \<le> 1" "uint ck \<le> 1"
    and r1: "0 \<le> r1" "r1 < 65536 ^ length j"
      "two_stream jn (of_bool jn) (mval j) = r1 + 65536 ^ length j * two_stream jn (uint cj) 0"
    and r2: "0 \<le> r2" "r2 < 65536 ^ length j"
      "two_stream kn (of_bool kn) (mval k) = r2 + 65536 ^ length j * two_stream kn (uint ck) 0"
    and v: "two_stream (jn \<and> kn) (of_bool (jn \<and> kn))
        (two_stream jn (of_bool jn) (mval j) AND two_stream kn (of_bool kn) (mval k))
      = mval w + 65536 ^ length j * two_stream (jn \<and> kn) (uint ci) (two_stream jn (uint cj) 0 AND two_stream kn (uint ck) 0)"
    using mpn_bits_loop [OF streams assms(1), of "of_bool (jn \<and> kn)" "of_bool jn" "of_bool kn"]
    unfolding of_bool_word_le(2) by (auto simp del: of_bool_eq_iff)
  have j0: "two_stream jn (uint cj) 0 = (if jn then - 1 else 0)"
    by (rule two_stream_top [OF r1(3) r1(1,2) c(2) mval_nonneg mval_bound]) (rule assms(2))
  have k0: "two_stream kn (uint ck) 0 = (if kn then - 1 else 0)"
    by (rule two_stream_top [OF r2(3) r2(1,2) c(3) mval_nonneg mval_less_longer [OF assms(1)]]) (rule assms(3))
  have "two_stream (jn \<and> kn) (uint ci) (two_stream jn (uint cj) 0 AND two_stream kn (uint ck) 0) = uint ci"
    unfolding j0 k0 by (auto simp: two_stream_def)
  with v have "mval w + 65536 ^ length w * uint ci
      = sgn_val (jn \<and> kn) (sgn_val jn (mval j) AND sgn_val kn (mval k))"
    by (simp add: two_stream_sgn w(2))
  then show ?thesis
    using mpn_ok_carry [of w ci _ "length j + 1"] c(1) w by (simp add: mpn_and_neg_def Let_def im)
qed

lemma or_int_ge:
  fixes a b :: int
  assumes "a < 0"
  shows "a \<le> a OR b" and "a OR b < 0"
proof -
  have "NOT a AND NOT b \<le> NOT a" using assms by (intro AND_upper1) simp
  moreover have "a OR b = NOT (NOT a AND NOT b)" by (rule or_eq_not_not_and)
  ultimately show "a \<le> a OR b" unfolding not_int_def by linarith
  show "a OR b < 0" using assms by simp
qed

lemma mpn_or_neg_ok:
  assumes "length k \<le> length j" and "jn \<Longrightarrow> 0 < mval j" and "kn \<Longrightarrow> 0 < mval k" and "jn \<or> kn"
  shows "\<exists>r. mpn_or_neg j k (of_bool jn) (of_bool kn) = Some r
    \<and> mpn_ok r (- (sgn_val jn (mval j) OR sgn_val kn (mval k))) (length j)"
proof -
  let ?m = "\<lambda>n. dig_mask_of (of_bool n)"
  let ?V = "sgn_val jn (mval j) OR sgn_val kn (mval k)"
  have out: "out_stream (\<lambda>x. (x XOR DIG_MASK) AND DIG_MASK) (two_stream True)"
    using two_out_stream [of True] by simp
  note streams = digit_ops(2) two_digit_stream [of jn] two_digit_stream [of kn] out
  obtain w ci and cj ck :: mpz_dbl_dig_t and r1 r2 where
    w: "mpn_bits_loop (OR) (\<lambda>d. ucast (d XOR ?m jn)) (\<lambda>d. ucast (d XOR ?m kn))
        (\<lambda>x. (x XOR DIG_MASK) AND DIG_MASK) 1 (of_bool jn) (of_bool kn) j k = (w, ci)" "length w = length j"
    and c: "uint ci \<le> 1" "uint cj \<le> 1" "uint ck \<le> 1"
    and r1: "0 \<le> r1" "r1 < 65536 ^ length j"
      "two_stream jn (of_bool jn) (mval j) = r1 + 65536 ^ length j * two_stream jn (uint cj) 0"
    and r2: "0 \<le> r2" "r2 < 65536 ^ length j"
      "two_stream kn (of_bool kn) (mval k) = r2 + 65536 ^ length j * two_stream kn (uint ck) 0"
    and v: "two_stream True 1
        (two_stream jn (of_bool jn) (mval j) OR two_stream kn (of_bool kn) (mval k))
      = mval w + 65536 ^ length j * two_stream True (uint ci) (two_stream jn (uint cj) 0 OR two_stream kn (uint ck) 0)"
    using mpn_bits_loop [OF streams assms(1), of 1 "of_bool jn" "of_bool kn"]
    unfolding of_bool_word_le(2) by (auto simp del: of_bool_eq_iff)
  have j0: "two_stream jn (uint cj) 0 = (if jn then - 1 else 0)"
    by (rule two_stream_top [OF r1(3) r1(1,2) c(2) mval_nonneg mval_bound]) (rule assms(2))
  have k0: "two_stream kn (uint ck) 0 = (if kn then - 1 else 0)"
    by (rule two_stream_top [OF r2(3) r2(1,2) c(3) mval_nonneg mval_less_longer [OF assms(1)]]) (rule assms(3))
  have "two_stream True (uint ci) (two_stream jn (uint cj) 0 OR two_stream kn (uint ck) 0) = uint ci"
    unfolding j0 k0 using assms(4) by (auto simp: two_stream_def)
  with v have V: "- ?V = mval w + 65536 ^ length w * uint ci"
    by (simp add: two_stream_sgn w(2)) (simp add: two_stream_def)
  have "- ?V < 65536 ^ length w"
  proof (cases jn)
    case True
    then show ?thesis
      using or_int_ge(1) [of "- mval j" "sgn_val kn (mval k)"] assms(2) mval_bound [of j] w(2)
      by (simp add: sgn_val_def)
  next
    case False
    with assms(4) have kn: kn by simp
    then show ?thesis
      using or_int_ge(1) [of "- mval k" "sgn_val jn (mval j)"] assms(3) mval_less_longer [OF assms(1)] w(2)
      by (simp add: sgn_val_def or.commute)
  qed
  with V mval_nonneg [of w] have "65536 ^ length w * uint ci < 65536 ^ length w * 1" by linarith
  then have "uint ci < 1" by (simp only: mult_less_cancel_left_pos zero_less_power zero_less_numeral)
  then have "uint ci = 0" using uint_ge_0 [of ci] by linarith
  then have "ci = 0" by (simp add: word_uint_eq_iff)
  then show ?thesis
    using V w by (auto simp: mpn_or_neg_def Let_def intro!: mpn_ok_trimmed)
qed

lemma neg_xor:
  fixes x y :: int
  shows "of_bool (a \<noteq> b) + ((if a then NOT x else x) XOR (if b then NOT y else y)) = sgn_val (a \<noteq> b) (x XOR y)"
proof -
  have n: "1 + NOT z = - z" for z :: int by (simp add: not_int_def)
  show ?thesis
    by (cases a; cases b) (simp_all add: sgn_val_def n bit.xor_compl_left bit.xor_compl_right)
qed

lemma xor_less_digits:
  fixes x y :: int
  assumes "0 \<le> x" and "x < 65536 ^ n" and "y < 65536 ^ n"
  shows "x XOR y < 65536 ^ n"
proof -
  have "(65536 :: int) ^ n = 2 ^ (16 * n)" by (simp add: power_mult)
  then show ?thesis using assms XOR_upper [of x "16 * n" y] by simp
qed

lemma mpn_xor_neg_ok:
  assumes "length k \<le> length j" and "jn \<Longrightarrow> 0 < mval j" and "kn \<Longrightarrow> 0 < mval k"
  shows "mpn_ok (mpn_xor_neg j k (of_bool (jn \<noteq> kn)) (of_bool (\<not> jn)) (of_bool (\<not> kn)))
    (sgn_val (jn \<noteq> kn) (sgn_val jn (mval j) XOR sgn_val kn (mval k))) (length j + of_bool (jn \<noteq> kn))"
proof -
  have out: "out_stream (\<lambda>x. x AND DIG_MASK) (two_stream False)"
    using two_out_stream [of False] by simp
  note streams = digit_ops(3) dec_digit_stream dec_digit_stream out
  let ?x = "dec_stream (of_bool (\<not> jn)) (mval j) XOR dec_stream (of_bool (\<not> kn)) (mval k)"
  obtain w ci and cj ck :: mpz_dbl_dig_t and r1 r2 where
    w: "mpn_bits_loop (XOR) (\<lambda>d. ucast d + DIG_MASK) (\<lambda>d. ucast d + DIG_MASK) (\<lambda>x. x AND DIG_MASK)
        (of_bool (jn \<noteq> kn)) (of_bool (\<not> jn)) (of_bool (\<not> kn)) j k = (w, ci)" "length w = length j"
    and c: "uint ci \<le> 1" "uint cj \<le> 1" "uint ck \<le> 1"
    and r1: "0 \<le> r1" "r1 < 65536 ^ length j"
      "dec_stream (of_bool (\<not> jn)) (mval j) = r1 + 65536 ^ length j * dec_stream (uint cj) 0"
    and r2: "0 \<le> r2" "r2 < 65536 ^ length j"
      "dec_stream (of_bool (\<not> kn)) (mval k) = r2 + 65536 ^ length j * dec_stream (uint ck) 0"
    and v: "two_stream False (of_bool (jn \<noteq> kn)) ?x
      = mval w + 65536 ^ length j * two_stream False (uint ci) (dec_stream (uint cj) 0 XOR dec_stream (uint ck) 0)"
    using mpn_bits_loop [OF streams assms(1), of "of_bool (jn \<noteq> kn)" "of_bool (\<not> jn)" "of_bool (\<not> kn)"]
    unfolding of_bool_word_le(2) by (auto simp del: of_bool_eq_iff)
  have j0: "dec_stream (uint cj) 0 = 0"
    by (rule dec_stream_top [OF r1(3) r1(1,2) c(2) mval_nonneg mval_bound]) (rule assms(2))
  have k0: "dec_stream (uint ck) 0 = 0"
    by (rule dec_stream_top [OF r2(3) r2(1,2) c(3) mval_nonneg mval_less_longer [OF assms(1)]]) (rule assms(3))
  have d: "dec_stream (of_bool (\<not> n)) u = (if n then NOT (sgn_val n u) else sgn_val n u)" for n u
    by (simp add: dec_stream_def sgn_val_def not_int_def)
  have "of_bool (jn \<noteq> kn) + ?x = sgn_val (jn \<noteq> kn) (sgn_val jn (mval j) XOR sgn_val kn (mval k))"
    unfolding d neg_xor [of jn kn] by (cases jn; cases kn) (simp_all add: sgn_val_def)
  with v have "mval w + 65536 ^ length w * uint ci
      = sgn_val (jn \<noteq> kn) (sgn_val jn (mval j) XOR sgn_val kn (mval k))"
    by (simp add: j0 k0 w(2)) (simp add: two_stream_def)
  moreover have "ci = 0" if "jn = kn"
  proof -
    have "?x < 65536 ^ length w"
      using that assms mval_bound [of j] mval_less_longer [OF assms(1)] mval_nonneg [of j] mval_nonneg [of k]
      by (intro xor_less_digits) (auto simp: dec_stream_def w(2))
    moreover have "0 \<le> mval w" by (rule mval_nonneg)
    moreover have "?x = mval w + 65536 ^ length w * uint ci"
      using v that by (simp add: j0 k0 w(2)) (cases kn; simp add: two_stream_def)
    ultimately have "65536 ^ length w * uint ci < 65536 ^ length w * 1" by linarith
    then have "uint ci < 1" by (simp only: mult_less_cancel_left_pos zero_less_power zero_less_numeral)
    then have "uint ci = 0" using uint_ge_0 [of ci] by linarith
    then show ?thesis by (simp add: word_uint_eq_iff)
  qed
  ultimately show ?thesis
    using mpn_ok_carry [of w ci _ "length j + 1"] c(1) w
    by (cases "jn = kn") (auto simp: mpn_xor_neg_def Let_def intro!: mpn_ok_trimmed)
qed

end
