(* ===== verification/Py_Mpn_Div.thy ===== *)
theory Py_Mpn_Div
  imports Py_Mpn
begin

text \<open>
  The long division of \<open>py/mpz.c\<close>, \<open>mpn_div\<close>, in the configuration of the port: 16-bit digits
  and a 32-bit double digit, so that the borrow has to live in exactly two digits.  The numerator
  is the digit list with the extra top digit; the quotient digit of one place is estimated,
  multiplied and subtracted, and corrected while the borrow is not zero.

  The loop that corrects an estimate has no bound of its own in the code, so it is a partial
  function here, and \<open>None\<close> is that it does not end.  The division is right for a divisor whose shifted digits are not \<open>0xFFFF\<close> and for every divisor of one
  digit; with a longer divisor the borrow can overflow, and the last lemma shows a quotient that
  comes out wrong.
\<close>

section \<open>The code\<close>

fun mpn_norm_shift :: "nat \<Rightarrow> mpz_dig_t \<Rightarrow> nat option" where
  "mpn_norm_shift 0 d = None"
| "mpn_norm_shift (Suc fuel) d =
     (if d AND 0x8000 = 0 then map_option Suc (mpn_norm_shift fuel (push_bit 1 d)) else Some 0)"

fun div_shl_loop :: "nat \<Rightarrow> mpz_dig_t \<Rightarrow> mpz_dig_t list \<Rightarrow> mpz_dig_t list" where
  "div_shl_loop s carry [] = []"
| "div_shl_loop s carry (n # ns) =
     dig_low (push_bit s (ucast n) OR ucast carry)
       # div_shl_loop s (ucast (drop_bit (DIG_SIZE - s) (ucast n :: mpz_dbl_dig_t))) ns"

definition lead_den_digit :: "nat \<Rightarrow> mpz_dig_t list \<Rightarrow> mpz_dbl_dig_t" where
  "lead_den_digit s den =
     (let lead = push_bit s (ucast (last den))
      in if 2 \<le> length den
         then lead OR drop_bit (DIG_SIZE - s) (ucast (den ! (length den - 2))) else lead)"

definition round_up_carry :: "mpz_dbl_dig_t \<Rightarrow> mpz_dbl_dig_t" where
  "round_up_carry borrow = dig_carry borrow + (if borrow AND DIG_MASK = 0 then 0 else 1)"

fun div_sub_loop :: "nat \<Rightarrow> mpz_dbl_dig_t \<Rightarrow> mpz_dbl_dig_t \<Rightarrow> mpz_dbl_dig_t
    \<Rightarrow> mpz_dig_t list \<Rightarrow> mpz_dig_t list \<Rightarrow> mpz_dig_t list \<times> mpz_dbl_dig_t" where
  "div_sub_loop s quo d_norm borrow (n # ns) (d # ds) =
     (let d_norm = push_bit s (ucast d) OR drop_bit DIG_SIZE d_norm;
          x = quo * (d_norm AND DIG_MASK);
          (n', borrow') =
            (if ucast n \<le> x \<or> ucast n - x \<le> borrow
             then (let b = borrow + (x - ucast n) in (dig_low (- b), round_up_carry b))
             else (dig_low (ucast n - x - borrow), 0));
          (w, b) = div_sub_loop s quo d_norm borrow' ns ds
      in (n' # w, b))"
| "div_sub_loop s quo d_norm borrow ns ds = (ns, borrow)"

definition div_sub_top :: "mpz_dbl_dig_t \<Rightarrow> mpz_dig_t \<Rightarrow> mpz_dig_t \<times> mpz_dbl_dig_t" where
  "div_sub_top borrow hi =
     (if ucast hi \<le> borrow
      then (let b = borrow - ucast hi in (dig_low (- b), round_up_carry b))
      else (dig_low (ucast hi - borrow), 0))"

fun div_add_loop :: "nat \<Rightarrow> mpz_dbl_dig_t \<Rightarrow> mpz_dbl_dig_t
    \<Rightarrow> mpz_dig_t list \<Rightarrow> mpz_dig_t list \<Rightarrow> mpz_dig_t list \<times> mpz_dbl_dig_t" where
  "div_add_loop s d_norm carry (n # ns) (d # ds) =
     (let d_norm = push_bit s (ucast d) OR drop_bit DIG_SIZE d_norm;
          carry = carry + (ucast n + (d_norm AND DIG_MASK));
          (w, c) = div_add_loop s d_norm (dig_carry carry) ns ds
      in (dig_low carry # w, c))"
| "div_add_loop s d_norm carry ns ds = (ns, carry)"

text \<open>The correction of the estimate; the window is its lower digits and its top digit.\<close>

partial_function (option) div_adjust :: "nat \<Rightarrow> mpz_dig_t list \<Rightarrow> mpz_dbl_dig_t \<Rightarrow> mpz_dbl_dig_t
    \<Rightarrow> mpz_dig_t list \<Rightarrow> mpz_dig_t \<Rightarrow> (mpz_dbl_dig_t \<times> mpz_dig_t list \<times> mpz_dig_t) option" where
  "div_adjust s den quo borrow ns hi =
     (if borrow = 0 then Some (quo, ns, hi)
      else let (ns, carry) = div_add_loop s 0 0 ns den;
               carry = carry + ucast hi
           in div_adjust s den (quo - 1) (borrow - dig_carry carry) ns (dig_low carry))"

declare div_adjust.simps [code]

text \<open>One quotient digit from the \<open>den_len + 1\<close> topmost digits of what is left.\<close>

definition div_step :: "nat \<Rightarrow> mpz_dig_t list \<Rightarrow> mpz_dig_t list
    \<Rightarrow> (mpz_dig_t \<times> mpz_dig_t list) option" where
  "div_step s den window =
     (let hi = last window; ns = butlast window;
          quo = (push_bit DIG_SIZE (ucast hi) OR ucast (last ns)) div lead_den_digit s den;
          (ns, borrow) = div_sub_loop s quo 0 0 ns den;
          (hi, borrow) = div_sub_top borrow hi
      in case div_adjust s den quo borrow ns hi of
           None \<Rightarrow> None
         | Some (quo, ns, hi) \<Rightarrow> Some (dig_low quo, ns))"

text \<open>The loop over the places: the quotient's digits and the digits that are left.\<close>

function div_loop :: "nat \<Rightarrow> mpz_dig_t list \<Rightarrow> mpz_dig_t list
    \<Rightarrow> (mpz_dig_t list \<times> mpz_dig_t list) option" where
  "div_loop s den num =
     (if length den < length num
      then (let k = length num - Suc (length den)
            in case div_step s den (drop k num) of
                 None \<Rightarrow> None
               | Some (q, ns) \<Rightarrow>
                   (if length ns = length den
                    then (case div_loop s den (take k num @ ns) of
                            None \<Rightarrow> None
                          | Some (qs, rest) \<Rightarrow> Some (qs @ [q], rest))
                    else None))
      else Some ([], num))"
  by pat_completeness auto
termination by (relation "measure (\<lambda>(s, den, num). length num)") auto

declare div_loop.simps [simp del]

text \<open>The remainder is shifted back from its top digit down.\<close>

fun div_shr_loop :: "nat \<Rightarrow> mpz_dig_t \<Rightarrow> mpz_dig_t list \<Rightarrow> mpz_dig_t list" where
  "div_shr_loop s carry [] = []"
| "div_shr_loop s carry (n # ns) =
     (drop_bit s n OR carry) # div_shr_loop s (ucast (push_bit (DIG_SIZE - s) (ucast n :: mpz_dbl_dig_t))) ns"

definition strip_zeros :: "mpz_dig_t list \<Rightarrow> mpz_dig_t list" where
  "strip_zeros w = mpn_digits (mpn_trimmed w)"

text \<open>The remainder and the quotient; \<open>None\<close> where a loop of the code would not end.\<close>

definition mpn_div :: "mpz_dig_t list \<Rightarrow> mpz_dig_t list \<Rightarrow> (mpz_dig_t list \<times> mpz_dig_t list) option" where
  "mpn_div num den =
     (let cmp = mpn_cmp num den
      in if cmp = 0 then Some ([], [1])
         else if cmp < 0 then Some (num, [])
         else case mpn_norm_shift (Suc DIG_SIZE) (last den) of
           None \<Rightarrow> None
         | Some s \<Rightarrow>
             (case div_loop s den (div_shl_loop s 0 (num @ [0])) of
                None \<Rightarrow> None
              | Some (qs, rest) \<Rightarrow>
                  Some (strip_zeros (rev (div_shr_loop s 0 (rev rest))), strip_zeros qs)))"

section \<open>Shifting the operands\<close>

lemma bit15_iff: "(d AND 0x8000 = 0) \<longleftrightarrow> uint (d :: mpz_dig_t) < 32768"
proof -
  have "d AND 0x8000 \<noteq> 0 \<longleftrightarrow> bit d 15"
    by (subst bit_iff_and_push_bit_not_eq_0) (simp add: push_bit_eq_mult)
  also have "\<dots> \<longleftrightarrow> bit (uint d) 15" by (simp add: bit_uint_iff)
  also have "\<dots> \<longleftrightarrow> odd (uint d div 32768)" by (simp add: bit_iff_odd)
  also have "\<dots> \<longleftrightarrow> 32768 \<le> uint d"
  proof (cases "uint d < 32768")
    case True
    then show ?thesis using uint_dig(1) [of d] by simp
  next
    case False
    then have "uint d = 32768 * 1 + (uint d - 32768)" "0 \<le> uint d - 32768" "uint d - 32768 < 32768"
      using uint_dig(2) [of d] by simp_all
    then have "uint d div 32768 = 1" by (rule int_div_pos_eq)
    then show ?thesis using False by simp
  qed
  finally show ?thesis by (metis not_less)
qed

lemma mpn_norm_shift:
  "32768 \<le> uint d * 2 ^ fuel \<Longrightarrow>
    \<exists>s\<le>fuel. mpn_norm_shift (Suc fuel) d = Some s \<and> 32768 \<le> uint d * 2 ^ s \<and> uint d * 2 ^ s < 65536"
proof (induction fuel arbitrary: d)
  case 0
  then show ?case using uint_dig(2) [of d] by (auto simp: bit15_iff)
next
  case (Suc fuel)
  show ?case
  proof (cases "uint d < 32768")
    case True
    have u: "uint (push_bit 1 d) = 2 * uint d"
      using True uint_dig(1) [of d] by (simp add: push_bit_eq_mult uint_word_ariths)
    then obtain s where "s \<le> fuel" "mpn_norm_shift (Suc fuel) (push_bit 1 d) = Some s"
      "32768 \<le> uint (push_bit 1 d) * 2 ^ s" "uint (push_bit 1 d) * 2 ^ s < 65536"
      using Suc.IH [of "push_bit 1 d"] Suc.prems by auto
    moreover have "mpn_norm_shift (Suc (Suc fuel)) d = map_option Suc (mpn_norm_shift (Suc fuel) (push_bit 1 d))"
      using True by (subst mpn_norm_shift.simps(2)) (simp only: bit15_iff if_True)
    ultimately show ?thesis
      by (intro exI [of _ "Suc s"]) (simp only: u, simp)
  next
    case False
    then show ?thesis using uint_dig(2) [of d] by (auto simp: bit15_iff intro!: exI [of _ 0])
  qed
qed

lemma div_shl_digit:
  assumes "uint (c :: mpz_dbl_dig_t) < 2 ^ s" and "s \<le> 15"
  shows "uint (push_bit s (ucast (n :: mpz_dig_t)) OR c) = uint n * 2 ^ s + uint c"
proof -
  have p: "(2 :: int) ^ s \<le> 2 ^ 15" using assms(2) by (intro power_increasing) auto
  have "uint n * 2 ^ s \<le> 65535 * 2 ^ 15" using uint_dig [of n] p by (intro mult_mono) auto
  then have push: "uint (push_bit s (ucast n :: mpz_dbl_dig_t)) = uint n * 2 ^ s"
    using uint_dig(1) [of n] \<open>uint n * 2 ^ s \<le> _\<close>
    by (simp only: unsigned_push_bit_eq uint_ucast_dig) (simp add: push_bit_eq_mult take_bit_int_eq_self)
  have "take_bit s c = c"
    using assms(1) by (simp add: word_uint_eq_iff unsigned_take_bit_eq take_bit_int_eq_self)
  then have hi: "bit c m \<Longrightarrow> m < s" for m by (metis bit_take_bit_iff)
  have "push_bit s (ucast n) OR c = push_bit s (ucast n) + c"
    by (rule disjunctive_add [symmetric]) (auto simp: bit_simps not_less dest!: hi)
  moreover have "uint (push_bit s (ucast n) + c) = uint n * 2 ^ s + uint c"
    using \<open>uint n * 2 ^ s \<le> _\<close> assms(1) p by (subst uint_add32) (simp_all add: push)
  ultimately show ?thesis by simp
qed

lemma div_shl_carry:
  assumes "s \<le> 15"
  shows "uint (drop_bit (16 - s) (ucast (n :: mpz_dig_t) :: mpz_dbl_dig_t)) = uint n div 2 ^ (16 - s)"
    and "uint n div 2 ^ (16 - s) < 2 ^ s"
proof -
  show "uint (drop_bit (16 - s) (ucast n :: mpz_dbl_dig_t)) = uint n div 2 ^ (16 - s)"
    by (simp only: uint_drop_bit uint_ucast_dig)
  have "(65536 :: int) = 2 ^ s * 2 ^ (16 - s)" using assms by (simp flip: power_add)
  then have "uint n < 2 ^ s * 2 ^ (16 - s)" using uint_dig(2) [of n] by simp
  moreover have "uint n div 2 ^ (16 - s) * 2 ^ (16 - s) \<le> uint n"
    by (simp flip: minus_mod_eq_div_mult)
  ultimately have "uint n div 2 ^ (16 - s) * 2 ^ (16 - s) < 2 ^ s * 2 ^ (16 - s)" by linarith
  then show "uint n div 2 ^ (16 - s) < 2 ^ s"
    by (simp only: mult_less_cancel_right_pos zero_less_power zero_less_numeral)
qed

lemma length_div_shl [simp]: "length (div_shl_loop s c ns) = length ns"
  by (induction ns arbitrary: c) simp_all

lemma div_shl_step:
  assumes "uint (c :: mpz_dbl_dig_t) < 2 ^ s" and "s \<le> 15"
  shows "drop_bit DIG_SIZE (push_bit s (ucast (n :: mpz_dig_t)) OR c) = drop_bit (DIG_SIZE - s) (ucast n)"
proof -
  have p: "(65536 :: int) = 2 ^ (16 - s) * 2 ^ s" using assms(2) by (simp flip: power_add)
  have "(uint n * 2 ^ s + uint c) div 65536 = ((uint n * 2 ^ s + uint c) div 2 ^ s) div 2 ^ (16 - s)"
    unfolding p by (simp add: zdiv_zmult2_eq mult.commute)
  also have "(uint n * 2 ^ s + uint c) div 2 ^ s = uint n" using assms(1) by simp
  finally show ?thesis
    by (simp only: word_uint_eq_iff DIG_SIZE_def uint_drop_bit div_shl_digit [OF assms] uint_ucast_dig) simp
qed

lemma mval_div_shl:
  assumes "s \<le> 15"
  shows "uint c < 2 ^ s \<Longrightarrow>
    mval (div_shl_loop s c ns) = (mval ns * 2 ^ s + uint c) mod 65536 ^ length ns"
proof (induction ns arbitrary: c)
  case Nil
  then show ?case by simp
next
  case (Cons n ns)
  let ?c = "ucast (drop_bit (16 - s) (ucast n :: mpz_dbl_dig_t)) :: mpz_dig_t"
  have b: "(2 :: int) ^ s \<le> 2 ^ 15" using assms by (intro power_increasing) auto
  have c: "uint ?c = uint n div 2 ^ (16 - s)"
    using div_shl_carry [OF assms, of n] b by (subst uint_ucast_small) simp_all
  have d: "uint (push_bit s (ucast n) OR ucast c :: mpz_dbl_dig_t) = uint n * 2 ^ s + uint c"
    using div_shl_digit [of "ucast c" s n] Cons.prems assms by (simp add: uint_ucast_dig)
  define x where "x = uint n * 2 ^ s + uint c"
  have hi: "x div 65536 = uint ?c"
    using arg_cong [OF div_shl_step [of "ucast c" s n], of uint] Cons.prems assms
    by (simp only: uint_ucast_dig uint_drop_bit DIG_SIZE_def d c x_def) simp
  have "mval (n # ns) * 2 ^ s + uint c = x + 65536 * (mval ns * 2 ^ s)"
    by (simp add: x_def algebra_simps)
  moreover have "x = x mod 65536 + 65536 * uint ?c"
    using mult_div_mod_eq [of 65536 x] by (simp add: hi)
  ultimately have v: "mval (n # ns) * 2 ^ s + uint c = x mod 65536 + 65536 * (mval ns * 2 ^ s + uint ?c)"
    by (simp add: algebra_simps)
  have "(r + 65536 * t) mod (65536 * m) = r + 65536 * (t mod m)" if "0 \<le> r" "r < 65536" "0 \<le> m" for r t m :: int
    using that by (subst zmod_zmult2_eq) simp_all
  from this [of "x mod 65536" "65536 ^ length ns" "mval ns * 2 ^ s + uint ?c"]
  have "(mval (n # ns) * 2 ^ s + uint c) mod 65536 ^ length (n # ns)
    = x mod 65536 + 65536 * ((mval ns * 2 ^ s + uint ?c) mod 65536 ^ length ns)"
    unfolding v by (simp only: length_Cons power_Suc pos_mod_sign pos_mod_bound zero_less_numeral) simp
  moreover have "uint ?c < 2 ^ s" using div_shl_carry(2) [OF assms] c by simp
  ultimately show ?case
    using Cons.IH [of ?c] by (simp add: dig_low d DIG_SIZE_def x_def)
qed

section \<open>Subtracting and adding a multiple of the divisor\<close>

lemma neg_mod_ceil:
  fixes t :: int
  shows "(- t) mod 65536 - 65536 * (t div 65536 + (if t mod 65536 = 0 then 0 else 1)) = - t"
proof (cases "t mod 65536 = 0")
  case True
  then have "(- t) mod 65536 = 0" by (simp add: zmod_zminus1_eq_if)
  then show ?thesis using True mult_div_mod_eq [of 65536 t] by simp
next
  case False
  then have "(- t) mod 65536 = 65536 - t mod 65536" by (simp add: zmod_zminus1_eq_if)
  then show ?thesis using False mult_div_mod_eq [of 65536 t] by (simp only: if_False distrib_left)
qed

lemma round_up_carry:
  "uint (round_up_carry b) = uint b div 65536 + (if uint b mod 65536 = 0 then 0 else 1)"
  and round_up_carry_le: "uint (round_up_carry b) \<le> 65536"
proof -
  have m: "(b AND DIG_MASK = 0) \<longleftrightarrow> uint b mod 65536 = 0"
    by (simp only: and_DIG_MASK word_uint_eq_iff unsigned_take_bit_eq) (simp add: take_bit_eq_mod)
  have "uint b \<le> 4294967295" using uint_bounded [of b] by simp
  then have "uint b div 65536 \<le> 65535"
    using zdiv_mono1 [of "uint b" 4294967295 65536] by simp
  then show r: "uint (round_up_carry b) = uint b div 65536 + (if uint b mod 65536 = 0 then 0 else 1)"
    unfolding round_up_carry_def m
    by (cases "uint b mod 65536 = 0") (simp_all add: dig_carry uint_add32)
  then show "uint (round_up_carry b) \<le> 65536" using \<open>uint b div 65536 \<le> 65535\<close> by simp
qed

lemma uint_neg_low: "uint (dig_low (- b)) = (- uint b) mod 65536"
proof -
  have "uint (- b) = (- uint b) mod 4294967296" by (simp add: uint_word_ariths)
  moreover have "(- uint b) mod 4294967296 mod 65536 = (- uint b) mod 65536"
    by (rule mod_mod_cancel) simp
  ultimately show ?thesis by (simp add: dig_low)
qed

lemma round_up_step:
  "uint (dig_low (- b)) - 65536 * uint (round_up_carry b) = - uint b"
  using neg_mod_ceil [of "uint b"] by (simp only: uint_neg_low round_up_carry)

lemma sub_digit:
  fixes n :: mpz_dig_t and x borrow :: mpz_dbl_dig_t
  assumes "uint borrow \<le> 65536" and "uint x + 65536 < 4294967296"
    and "(n', borrow') = (if ucast n \<le> x \<or> ucast n - x \<le> borrow
             then (let b = borrow + (x - ucast n) in (dig_low (- b), round_up_carry b))
             else (dig_low (ucast n - x - borrow), 0))"
  shows "uint n' - 65536 * uint borrow' = uint n - uint x - uint borrow" and "uint borrow' \<le> 65536"
proof -
  have nn: "uint (ucast n :: mpz_dbl_dig_t) = uint n" by (rule uint_ucast_dig)
  have diff: "uint (ucast n - x) = uint n - uint x" if "\<not> ucast n \<le> x"
    using that nn by (subst uint_sub_if') (simp add: word_le_def)
  have "uint n' - 65536 * uint borrow' = uint n - uint x - uint borrow \<and> uint borrow' \<le> 65536"
  proof (cases "ucast n \<le> x \<or> ucast n - x \<le> borrow")
    case True
    define b where "b = borrow + (x - ucast n)"
    have "0 \<le> uint borrow + uint x - uint n"
      using True diff nn uint_ge_0 [of borrow]
      unfolding word_le_def nn by (cases "uint n \<le> uint x") linarith+
    moreover have "uint borrow + uint x - uint n < 4294967296"
      using assms(1,2) uint_dig(1) [of n] by linarith
    ultimately have b: "uint b = uint borrow + uint x - uint n"
      by (simp add: b_def uint_word_ariths uint_ucast_dig mod_simps add_diff_eq)
    have "(n', borrow') = (dig_low (- b), round_up_carry b)"
      using True assms(3) by (simp add: b_def)
    then show ?thesis using round_up_step [of b] round_up_carry_le [of b] b by simp
  next
    case False
    then have "uint (ucast n - x - borrow) = uint n - uint x - uint borrow"
      using diff by (subst uint_sub_if') (simp add: word_le_def)
    moreover have "0 \<le> uint n - uint x - uint borrow" "uint n - uint x - uint borrow < 65536"
      using False diff uint_dig(2) [of n] uint_ge_0 [of borrow] uint_ge_0 [of x]
      unfolding word_le_def by linarith+
    ultimately show ?thesis using False assms(3) by (simp add: dig_low)
  qed
  then show "uint n' - 65536 * uint borrow' = uint n - uint x - uint borrow" "uint borrow' \<le> 65536"
    by simp_all
qed

lemma div_sub_top:
  assumes "uint borrow \<le> 65536" and "div_sub_top borrow hi = (hi', borrow')"
  shows "uint hi' - 65536 * uint borrow' = uint hi - uint borrow" and "uint borrow' \<le> 1"
proof -
  have nn: "uint (ucast hi :: mpz_dbl_dig_t) = uint hi" by (rule uint_ucast_dig)
  have "uint hi' - 65536 * uint borrow' = uint hi - uint borrow \<and> uint borrow' \<le> 1"
  proof (cases "ucast hi \<le> borrow")
    case True
    define b where "b = borrow - ucast hi"
    have b: "uint b = uint borrow - uint hi"
      unfolding b_def using True nn by (subst uint_sub_if') (simp add: word_le_def)
    then have le: "uint b \<le> 65536" using assms(1) uint_dig(1) [of hi] by linarith
    have "uint b div 65536 + (if uint b mod 65536 = 0 then 0 else 1) \<le> 1"
    proof (cases "uint b = 65536")
      case False
      with le have "uint b div 65536 = 0" by simp
      then show ?thesis by simp
    qed simp
    moreover have "(hi', borrow') = (dig_low (- b), round_up_carry b)"
      using True assms(2) by (simp add: div_sub_top_def b_def)
    ultimately show ?thesis using round_up_step [of b] b by (simp add: round_up_carry)
  next
    case False
    then have "uint (ucast hi - borrow) = uint hi - uint borrow"
      using nn by (subst uint_sub_if') (simp add: word_le_def)
    moreover have "0 \<le> uint hi - uint borrow" "uint hi - uint borrow < 65536"
      using False nn uint_dig(2) [of hi] uint_ge_0 [of borrow] unfolding word_le_def by linarith+
    ultimately show ?thesis using False assms(2) by (auto simp: div_sub_top_def dig_low)
  qed
  then show "uint hi' - 65536 * uint borrow' = uint hi - uint borrow" "uint borrow' \<le> 1" by simp_all
qed

text \<open>The digits of the shifted divisor, which the loops recompute, are the ones of \<open>div_shl_loop\<close>.\<close>

lemma norm_digit:
  fixes d :: mpz_dig_t
  assumes "uint (drop_bit DIG_SIZE dn :: mpz_dbl_dig_t) < 2 ^ s" and "s \<le> 15"
  defines "dn' \<equiv> push_bit s (ucast d) OR drop_bit DIG_SIZE dn"
  shows "div_shl_loop s (ucast (drop_bit DIG_SIZE dn)) (d # ds)
      = dig_low dn' # div_shl_loop s (ucast (drop_bit DIG_SIZE dn')) ds"
    and "uint (dn' AND DIG_MASK) = uint (dig_low dn')"
    and "uint (drop_bit DIG_SIZE dn') < 2 ^ s"
proof -
  have b: "(2 :: int) ^ s \<le> 2 ^ 15" using assms(2) by (intro power_increasing) auto
  have "uint (ucast (drop_bit DIG_SIZE dn) :: mpz_dig_t) = uint (drop_bit DIG_SIZE dn)"
    using assms(1) b by (intro uint_ucast_small) simp
  then have c: "ucast (ucast (drop_bit DIG_SIZE dn) :: mpz_dig_t) = drop_bit DIG_SIZE dn"
    by (simp only: word_uint_eq_iff uint_ucast_dig)
  show "div_shl_loop s (ucast (drop_bit DIG_SIZE dn)) (d # ds)
      = dig_low dn' # div_shl_loop s (ucast (drop_bit DIG_SIZE dn')) ds"
    unfolding dn'_def div_shl_step [OF assms(1,2)] by (simp only: div_shl_loop.simps c)
  show "uint (dn' AND DIG_MASK) = uint (dig_low dn')"
    by (simp only: and_DIG_MASK unsigned_take_bit_eq dig_low) (simp add: take_bit_eq_mod)
  show "uint (drop_bit DIG_SIZE dn') < 2 ^ s"
    unfolding dn'_def div_shl_step [OF assms(1,2)]
    using div_shl_carry [OF assms(2), of d] by (simp only: DIG_SIZE_def)
qed

lemma div_sub_loop:
  assumes "s \<le> 15"
  shows "length ns = length ds \<Longrightarrow> uint (drop_bit DIG_SIZE dn) < 2 ^ s \<Longrightarrow> uint borrow \<le> 65536 \<Longrightarrow>
    \<forall>d\<in>set (div_shl_loop s (ucast (drop_bit DIG_SIZE dn)) ds). uint quo * uint d + 65536 < 4294967296 \<Longrightarrow>
    \<exists>w b. div_sub_loop s quo dn borrow ns ds = (w, b) \<and> length w = length ns \<and> uint b \<le> 65536
      \<and> mval w - 65536 ^ length ns * uint b
        = mval ns - uint quo * mval (div_shl_loop s (ucast (drop_bit DIG_SIZE dn)) ds) - uint borrow"
proof (induction ds arbitrary: ns dn borrow)
  case Nil
  then show ?case by simp
next
  case (Cons d ds)
  obtain n ns' where ns: "ns = n # ns'" "length ns' = length ds" using Cons.prems(1) by (cases ns) auto
  define dn' where "dn' = push_bit s (ucast d) OR drop_bit DIG_SIZE dn"
  note nd = norm_digit [OF Cons.prems(2) assms, of d, folded dn'_def]
  have fits: "uint quo * uint (dig_low dn') + 65536 < 4294967296"
    "\<forall>d\<in>set (div_shl_loop s (ucast (drop_bit DIG_SIZE dn')) ds). uint quo * uint d + 65536 < 4294967296"
    using Cons.prems(4) unfolding nd(1) by simp_all
  let ?x = "quo * (dn' AND DIG_MASK)"
  have x: "uint ?x = uint quo * uint (dig_low dn')"
    using fits(1) nd(2) by (subst uint_mult32) simp_all
  obtain n' borrow' where digit: "(n', borrow') = (if ucast n \<le> ?x \<or> ucast n - ?x \<le> borrow
             then (let b = borrow + (?x - ucast n) in (dig_low (- b), round_up_carry b))
             else (dig_low (ucast n - ?x - borrow), 0))" by (metis surj_pair)
  have "uint ?x + 65536 < 4294967296" using fits(1) x by simp
  note st = sub_digit [OF Cons.prems(3) this digit]
  from Cons.IH [OF ns(2) nd(3) st(2) fits(2)] obtain w b where
    w: "div_sub_loop s quo dn' borrow' ns' ds = (w, b)" "length w = length ns'" "uint b \<le> 65536"
      "mval w - 65536 ^ length ns' * uint b
        = mval ns' - uint quo * mval (div_shl_loop s (ucast (drop_bit DIG_SIZE dn')) ds) - uint borrow'"
    by blast
  have "div_sub_loop s quo dn borrow ns (d # ds) = (n' # w, b)"
    unfolding ns(1) div_sub_loop.simps Let_def dn'_def [symmetric]
    using digit w(1) by (simp only: Let_def split: prod.splits) (auto split: prod.splits)
  moreover have "mval (n' # w) - 65536 ^ length ns * uint b
      = mval ns - uint quo * mval (div_shl_loop s (ucast (drop_bit DIG_SIZE dn)) (d # ds)) - uint borrow"
  proof -
    have "mval (n' # w) - 65536 ^ length ns * uint b
        = uint n' + 65536 * (mval w - 65536 ^ length ns' * uint b)"
      by (simp add: ns algebra_simps)
    also have "\<dots> = (uint n' - 65536 * uint borrow') + 65536 * mval ns'
        - 65536 * (uint quo * mval (div_shl_loop s (ucast (drop_bit DIG_SIZE dn')) ds))"
      unfolding w(4) by (simp add: algebra_simps)
    also have "\<dots> = mval ns - uint quo * mval (div_shl_loop s (ucast (drop_bit DIG_SIZE dn)) (d # ds)) - uint borrow"
      unfolding st(1) nd(1) x by (simp add: ns algebra_simps)
    finally show ?thesis .
  qed
  ultimately show ?case using w(2,3) ns by auto
qed

lemma div_add_loop:
  assumes "s \<le> 15"
  shows "length ns = length ds \<Longrightarrow> uint (drop_bit DIG_SIZE dn) < 2 ^ s \<Longrightarrow> uint carry \<le> 1 \<Longrightarrow>
    \<exists>w c. div_add_loop s dn carry ns ds = (w, c) \<and> length w = length ns \<and> uint c \<le> 1
      \<and> mval w + 65536 ^ length ns * uint c
        = mval ns + mval (div_shl_loop s (ucast (drop_bit DIG_SIZE dn)) ds) + uint carry"
proof (induction ds arbitrary: ns dn carry)
  case Nil
  then show ?case by simp
next
  case (Cons d ds)
  obtain n ns' where ns: "ns = n # ns'" "length ns' = length ds" using Cons.prems(1) by (cases ns) auto
  define dn' where "dn' = push_bit s (ucast d) OR drop_bit DIG_SIZE dn"
  note nd = norm_digit [OF Cons.prems(2) assms, of d, folded dn'_def]
  define y :: mpz_dbl_dig_t where "y = ucast n + (dn' AND DIG_MASK)"
  have y: "uint y = uint n + uint (dig_low dn')"
    using uint_dig [of n] uint_dig [of "dig_low dn'"]
    unfolding y_def by (subst uint_add32) (simp_all add: nd(2) uint_ucast_dig)
  have cy: "uint (carry + y) = uint carry + uint y"
    using Cons.prems(3) uint_dig [of n] uint_dig [of "dig_low dn'"] by (intro uint_add32) (simp add: y)
  have "uint carry + uint y \<le> 131071"
    using Cons.prems(3) uint_dig [of n] uint_dig [of "dig_low dn'"] by (simp add: y)
  then have "uint (dig_carry (carry + y)) \<le> 1"
    using zdiv_mono1 [of "uint carry + uint y" 131071 65536] by (simp add: dig_carry cy)
  from Cons.IH [OF ns(2) nd(3) this] obtain w c where
    w: "div_add_loop s dn' (dig_carry (carry + y)) ns' ds = (w, c)" "length w = length ns'" "uint c \<le> 1"
      "mval w + 65536 ^ length ns' * uint c
        = mval ns' + mval (div_shl_loop s (ucast (drop_bit DIG_SIZE dn')) ds) + uint (dig_carry (carry + y))"
    by blast
  have "div_add_loop s dn carry ns (d # ds) = (dig_low (carry + y) # w, c)"
    unfolding ns(1) div_add_loop.simps Let_def dn'_def [symmetric] y_def [symmetric]
    using w(1) by simp
  moreover have "mval (dig_low (carry + y) # w) + 65536 ^ length ns * uint c
      = mval ns + mval (div_shl_loop s (ucast (drop_bit DIG_SIZE dn)) (d # ds)) + uint carry"
  proof -
    have "mval (dig_low (carry + y) # w) + 65536 ^ length ns * uint c
        = uint (dig_low (carry + y)) + 65536 * (mval w + 65536 ^ length ns' * uint c)"
      by (simp add: ns algebra_simps)
    also have "\<dots> = uint (carry + y) + 65536 * mval ns'
        + 65536 * mval (div_shl_loop s (ucast (drop_bit DIG_SIZE dn')) ds)"
      unfolding w(4) using digit_split [of "carry + y"] by (simp add: algebra_simps)
    also have "\<dots> = mval ns + mval (div_shl_loop s (ucast (drop_bit DIG_SIZE dn)) (d # ds)) + uint carry"
      unfolding nd(1) cy y by (simp add: ns algebra_simps)
    finally show ?thesis .
  qed
  ultimately show ?case using w(2,3) ns by auto
qed

lemma uint_le_1:
  assumes "uint (w :: mpz_dbl_dig_t) \<le> 1" and "w \<noteq> 0"
  shows "w = 1"
proof -
  have "uint w \<noteq> 0" using assms(2) by (simp add: word_uint_eq_iff)
  then have "uint w = 1" using assms(1) uint_ge_0 [of w] by linarith
  then show ?thesis by (simp add: word_uint_eq_iff)
qed

text \<open>
  \<open>den2\<close> is the value of the shifted divisor; the value \<open>v\<close> of the window after the subtraction may
  be negative, and the correction adds the divisor until it is not.
\<close>

lemma div_adjust:
  fixes den :: "mpz_dig_t list"
  assumes "s \<le> 15" and "den2 = mval (div_shl_loop s 0 den)" and "0 < den2"
  shows "length ns = length den \<Longrightarrow> uint borrow \<le> 1 \<Longrightarrow>
    v = mval ns + 65536 ^ length den * uint hi - 65536 ^ Suc (length den) * uint borrow \<Longrightarrow>
    v < den2 \<Longrightarrow> - (int m * den2) \<le> v \<Longrightarrow> int m \<le> uint quo \<Longrightarrow>
    \<exists>k ns'. div_adjust s den quo borrow ns hi = Some (quo - of_nat k, ns', 0) \<and> k \<le> m
      \<and> length ns' = length den \<and> mval ns' = v + int k * den2 \<and> mval ns' < den2"
proof (induction m arbitrary: quo borrow ns hi v)
  case (0 quo borrow ns hi v)
  have fit: "mval ns + 65536 ^ length den * uint hi < 65536 ^ Suc (length den)"
    using mval_bound [of "ns @ [hi]"] "0.prems"(1) by (simp add: mval_append)
  have "borrow = 0"
  proof (rule ccontr)
    assume "borrow \<noteq> 0"
    then have "uint borrow = 1" using uint_le_1 [OF "0.prems"(2)] by simp
    then show False using "0.prems"(3,5) fit by simp
  qed
  have d2: "den2 < 65536 ^ length den"
    using mval_bound [of "div_shl_loop s 0 den"] by (simp add: assms(2))
  have "uint hi = 0"
  proof (rule ccontr)
    assume "uint hi \<noteq> 0"
    then have "1 \<le> uint hi" using uint_ge_0 [of hi] by linarith
    then have "65536 ^ length den * 1 \<le> 65536 ^ length den * uint hi" by (intro mult_left_mono) simp_all
    moreover have "v = mval ns + 65536 ^ length den * uint hi" using "0.prems"(3) \<open>borrow = 0\<close> by simp
    ultimately show False using "0.prems"(4) d2 mval_nonneg [of ns] by linarith
  qed
  then have "hi = 0" by (simp add: word_uint_eq_iff)
  then show ?case using 0 \<open>borrow = 0\<close> by (intro exI [of _ 0]) (simp add: div_adjust.simps)
next
  case (Suc m quo borrow ns hi v)
  show ?case
  proof (cases "borrow = 0")
    case True
    then have "0 \<le> v" using Suc.prems(3) mval_nonneg [of ns] uint_ge_0 [of hi] by simp
    moreover have "0 \<le> int m * den2" using assms(3) by simp
    ultimately have "- (int m * den2) \<le> v" by linarith
    moreover have "int m \<le> uint quo" using Suc.prems(6) by simp
    ultimately obtain k ns' where
      "div_adjust s den quo borrow ns hi = Some (quo - of_nat k, ns', 0)"
      "k \<le> m" "length ns' = length den" "mval ns' = v + int k * den2" "mval ns' < den2"
      using Suc.IH [OF Suc.prems(1-4)] by blast
    then show ?thesis by (intro exI [of _ k] exI [of _ ns']) simp
  next
    case False
    then have b1: "uint borrow = 1" "borrow = 1"
      using uint_le_1 [OF Suc.prems(2)] by simp_all
    obtain w c where w: "div_add_loop s 0 0 ns den = (w, c)" "length w = length ns" "uint c \<le> 1"
      "mval w + 65536 ^ length ns * uint c = mval ns + den2"
      using div_add_loop [OF assms(1), of ns den 0 0] Suc.prems(1) by (auto simp: assms(2))
    define x where "x = c + ucast hi"
    have x: "uint x = uint c + uint hi"
      using w(3) uint_dig [of hi] unfolding x_def by (subst uint_add32) (simp_all add: uint_ucast_dig)
    have "uint x \<le> 65536" using x w(3) uint_dig [of hi] by simp
    then have cc: "uint (dig_carry x) \<le> 1" using zdiv_mono1 [of "uint x" 65536 65536] by (simp add: dig_carry)
    have run: "div_adjust s den quo borrow ns hi = div_adjust s den (quo - 1) (borrow - dig_carry x) w (dig_low x)"
      using False by (subst div_adjust.simps) (simp add: w(1) x_def Let_def)
    have bb: "uint (borrow - dig_carry x) = 1 - uint (dig_carry x)"
      using b1 cc by (subst uint_sub_if') simp
    have v': "v + den2 = mval w + 65536 ^ length den * uint (dig_low x) - 65536 ^ Suc (length den) * uint (borrow - dig_carry x)"
    proof -
      have "65536 ^ length den * (uint c + uint hi)
          = 65536 ^ length den * (uint (dig_low x) + 65536 * uint (dig_carry x))"
        using digit_split [of x] x by simp
      then show ?thesis
        using w(4) Suc.prems(1,3) unfolding bb b1(1) by (simp add: algebra_simps)
    qed
    have fit: "mval ns + 65536 ^ length den * uint hi < 65536 ^ Suc (length den)"
      using mval_bound [of "ns @ [hi]"] Suc.prems(1) by (simp add: mval_append)
    then have neg: "v + den2 < den2" using Suc.prems(3) b1(1) by simp
    have "int (Suc m) * den2 = int m * den2 + den2" by (simp add: algebra_simps)
    then have low: "- (int m * den2) \<le> v + den2" using Suc.prems(5) by linarith
    have q: "uint (quo - 1) = uint quo - 1"
      using Suc.prems(6) by (subst uint_sub_if') simp
    have le1: "uint (borrow - dig_carry x) \<le> 1" unfolding bb using uint_ge_0 [of "dig_carry x"] by linarith
    have len: "length w = length den" using w(2) Suc.prems(1) by simp
    have mq: "int m \<le> uint (quo - 1)" using q Suc.prems(6) by simp
    from Suc.IH [OF len le1 v' neg low mq] obtain k ns' where
      "div_adjust s den (quo - 1) (borrow - dig_carry x) w (dig_low x) = Some (quo - 1 - of_nat k, ns', 0)"
      "k \<le> m" "length ns' = length den" "mval ns' = v + den2 + int k * den2" "mval ns' < den2"
      by blast
    then show ?thesis
      by (intro exI [of _ "Suc k"] exI [of _ ns']) (simp add: run algebra_simps)
  qed
qed

section \<open>One digit of the quotient\<close>

lemma last_div_shl:
  "last (div_shl_loop s c (ns @ [a, b]))
    = dig_low (push_bit s (ucast b) OR ucast (ucast (drop_bit (DIG_SIZE - s) (ucast a :: mpz_dbl_dig_t)) :: mpz_dig_t))"
proof (induction ns arbitrary: c)
  case (Cons n ns)
  have "div_shl_loop s c' (ns @ [a, b]) \<noteq> []" for c'
    using length_div_shl [of s c' "ns @ [a, b]"] by (intro notI) simp
  then show ?case using Cons.IH by simp
qed simp

lemma shift_fits:
  assumes "s \<le> 15" and "uint (d :: mpz_dig_t) * 2 ^ s < 65536"
  shows "(uint d + 1) * 2 ^ s \<le> 65536"
proof -
  have p: "(65536 :: int) = 2 ^ (16 - s) * 2 ^ s" using assms(1) by (simp flip: power_add)
  have "uint d < 2 ^ (16 - s)"
  proof (rule ccontr)
    assume "\<not> uint d < 2 ^ (16 - s)"
    then have "2 ^ (16 - s) * 2 ^ s \<le> uint d * 2 ^ s" by (intro mult_right_mono) simp_all
    then show False using assms(2) p by simp
  qed
  then have "(uint d + 1) * 2 ^ s \<le> 2 ^ (16 - s) * 2 ^ s" by (intro mult_right_mono) simp_all
  then show ?thesis by (subst p)
qed

lemma lead_den_digit:
  assumes "den \<noteq> []" and "s \<le> 15" and "uint (last den) * 2 ^ s < 65536"
  shows "uint (lead_den_digit s den) = uint (last (div_shl_loop s 0 den))"
proof -
  have small: "uint (dig_low x) = uint x" if "uint x < 65536" for x using that by (simp add: dig_low)
  have b: "(2 :: int) ^ s \<le> 2 ^ 15" using assms(2) by (intro power_increasing) auto
  show ?thesis
  proof (cases "2 \<le> length den")
    case True
    obtain ns a d where den: "den = ns @ [a, d]"
    proof (cases den rule: rev_cases)
      case (snoc ys d)
      then show ?thesis using True that by (cases ys rule: rev_cases) auto
    qed (use True in simp)
    let ?c = "drop_bit (DIG_SIZE - s) (ucast a :: mpz_dbl_dig_t)"
    note c = div_shl_carry [OF assms(2), of a]
    have cc: "uint ?c < 2 ^ s" using c by (simp only: DIG_SIZE_def)
    have "uint (ucast ?c :: mpz_dig_t) = uint ?c" using cc b by (intro uint_ucast_small) simp
    then have "ucast (ucast ?c :: mpz_dig_t) = ?c" by (simp only: word_uint_eq_iff uint_ucast_dig)
    then have l: "last (div_shl_loop s 0 den) = dig_low (push_bit s (ucast d) OR ?c)"
      by (simp only: den last_div_shl)
    have v: "uint (push_bit s (ucast d) OR ?c) = uint d * 2 ^ s + uint ?c"
      by (rule div_shl_digit [OF cc assms(2)])
    have "uint d * 2 ^ s + uint ?c < 65536"
      using shift_fits [OF assms(2), of d] assms(3) cc by (simp add: den algebra_simps)
    then show ?thesis
      unfolding l using True small v by (simp add: lead_den_digit_def den nth_append)
  next
    case False
    then obtain d where den: "den = [d]" using assms(1) by (cases den) (auto simp: Suc_le_eq)
    have "uint (push_bit s (ucast d) OR 0 :: mpz_dbl_dig_t) = uint d * 2 ^ s + uint (0 :: mpz_dbl_dig_t)"
      by (rule div_shl_digit) (simp_all add: assms(2))
    then show ?thesis using small assms(3) by (simp add: lead_den_digit_def den)
  qed
qed

lemma int_div_less: "a < c * L \<Longrightarrow> 0 < L \<Longrightarrow> a div L < c" for a c L :: int
proof -
  assume "a < c * L" "0 < L"
  moreover have "a div L * L \<le> a" using \<open>0 < L\<close> by (simp flip: minus_mod_eq_div_mult)
  ultimately have "a div L * L < c * L" by linarith
  then show "a div L < c" using \<open>0 < L\<close> by simp
qed

text \<open>The estimate from the leading digits is never too small, and by how much it can exceed a digit.\<close>

lemma estimate:
  fixes h x rest L drest b :: int
  assumes "0 \<le> rest" "rest < b" "0 \<le> drest" "drest < b" "32768 \<le> L" "0 \<le> x" "x < 65536" "0 \<le> h"
    and below: "(h * 65536 + x) * b + rest < (L * b + drest) * 65536"
  defines "q \<equiv> (h * 65536 + x) div L"
  shows "(h * 65536 + x) * b + rest < (q + 1) * (L * b + drest)" and "q \<le> 65537" and "0 \<le> q"
    and "drest = 0 \<Longrightarrow> q \<le> 65535" 
proof -
  have "h * 65536 + x < (q + 1) * L"
  proof -
    have "h * 65536 + x = L * q + (h * 65536 + x) mod L" by (simp add: q_def)
    moreover have "(h * 65536 + x) mod L < L" using assms(5) by simp
    moreover have "(q + 1) * L = L * q + L" by (simp add: algebra_simps)
    ultimately show ?thesis by linarith
  qed
  then have "(h * 65536 + x + 1) * b \<le> (q + 1) * L * b" using assms(1,2) by (intro mult_right_mono) simp_all
  moreover show q0: "0 \<le> q" using assms(5-8) by (simp add: q_def pos_imp_zdiv_nonneg_iff)
  then have "0 \<le> (q + 1) * drest" using assms(3) by simp
  ultimately show "(h * 65536 + x) * b + rest < (q + 1) * (L * b + drest)"
    using assms(2) by (simp add: algebra_simps)
  have "h * 65536 * b < (L + 1) * 65536 * b"
  proof -
    have "h * 65536 * b \<le> (h * 65536 + x) * b + rest" using assms(1,2,6) by (simp add: algebra_simps)
    moreover have "(L * b + drest) * 65536 \<le> (L + 1) * 65536 * b" using assms(4) by (simp add: algebra_simps)
    ultimately show ?thesis using below by linarith
  qed
  then have "h * 65536 < (L + 1) * 65536" using assms(1,2) by (simp only: mult_less_cancel_right_disj) simp
  then have "h \<le> L" by simp
  then have "h * 65536 + x < 65538 * L" using assms(5,7) by simp
  then have "(h * 65536 + x) div L < 65538" using assms(5) by (intro int_div_less) simp_all
  then show "q \<le> 65537" by (simp add: q_def)
  assume "drest = 0"
  then have "(h * 65536 + x) * b < L * 65536 * b" using below assms(1) by (simp add: algebra_simps)
  then have "h * 65536 + x < L * 65536" using assms(1,2) by (simp only: mult_less_cancel_right_disj) simp
  then have "(h * 65536 + x) div L < 65536" using assms(5) by (intro int_div_less) (simp_all add: mult.commute)
  then show "q \<le> 65535" by (simp add: q_def)
qed

lemma mval_snoc: "ds \<noteq> [] \<Longrightarrow> mval ds = mval (butlast ds) + 65536 ^ (length ds - 1) * uint (last ds)"
  by (cases ds rule: rev_cases) (simp_all add: mval_append)

lemma shifted_divisor:
  assumes "den \<noteq> []" and "s \<le> 15" and "32768 \<le> uint (last den) * 2 ^ s" and "uint (last den) * 2 ^ s < 65536"
  shows "mval (div_shl_loop s 0 den) = mval den * 2 ^ s" and "32768 \<le> uint (last (div_shl_loop s 0 den))"
proof -
  let ?b = "65536 ^ (length den - 1) :: int" and ?nd = "div_shl_loop s 0 den"
  have b: "65536 ^ length den = ?b * 65536" using assms(1) by (cases den) simp_all
  have low: "mval (butlast den) < ?b" using mval_bound [of "butlast den"] by simp
  have "mval den * 2 ^ s < (?b * (uint (last den) + 1)) * 2 ^ s"
    using low mval_snoc [OF assms(1)] by (intro mult_strict_right_mono) (simp_all add: algebra_simps)
  also have "\<dots> = ?b * ((uint (last den) + 1) * 2 ^ s)" by simp
  also have "\<dots> \<le> ?b * 65536" using shift_fits [OF assms(2,4)] by (intro mult_left_mono) simp_all
  finally show v: "mval ?nd = mval den * 2 ^ s"
    using mval_div_shl [OF assms(2), of 0 den] mval_nonneg [of den] b by simp
  have ne: "?nd \<noteq> []" using assms(1) length_div_shl [of s 0 den] by (metis length_0_conv)
  have "?b * 32768 \<le> ?b * (uint (last den) * 2 ^ s)" using assms(3) by (intro mult_left_mono) simp_all
  also have "\<dots> \<le> mval den * 2 ^ s"
    using mval_snoc [OF assms(1)] mval_nonneg [of "butlast den"] by (simp add: algebra_simps)
  also have "\<dots> = mval (butlast ?nd) + ?b * uint (last ?nd)" using mval_snoc [OF ne] v by simp
  also have "\<dots> < ?b * (uint (last ?nd) + 1)" using mval_bound [of "butlast ?nd"] by (simp add: algebra_simps)
  finally have "32768 < uint (last ?nd) + 1" by (simp only: mult_less_cancel_left_pos zero_less_power zero_less_numeral)
  then show "32768 \<le> uint (last ?nd)" by simp
qed

lemma div_step:
  assumes den: "den \<noteq> []" "s \<le> 15" "32768 \<le> uint (last den) * 2 ^ s" "uint (last den) * 2 ^ s < 65536"
    and digits: "length den = 1 \<or> (\<forall>d\<in>set (div_shl_loop s 0 den). d \<noteq> 0xFFFF)"
    and window: "length window = Suc (length den)" "mval window < mval den * 2 ^ s * 65536"
  shows "\<exists>q ns. div_step s den window = Some (q, ns) \<and> length ns = length den
    \<and> mval ns = mval window mod (mval den * 2 ^ s) \<and> uint q = mval window div (mval den * 2 ^ s)"
proof -
  let ?nd = "div_shl_loop s 0 den" and ?D = "mval den * 2 ^ s" and ?b = "65536 ^ (length den - 1) :: int"
  have b: "65536 ^ length den = ?b * 65536" using den(1) by (cases den) simp_all
  note D = shifted_divisor [OF den]
  have ne: "?nd \<noteq> []" using den(1) length_div_shl [of s 0 den] by (metis length_0_conv)
  obtain rest x hi where w: "window = rest @ [x, hi]" "length rest = length den - 1"
  proof (cases window rule: rev_cases)
    case (snoc ns hi)
    then have "ns \<noteq> []" using window(1) den(1) by auto
    then obtain rest x where "ns = rest @ [x]" by (cases ns rule: rev_cases) auto
    then show ?thesis using that snoc window(1) by auto
  qed (use window(1) in simp)
  have wv: "mval window = (uint hi * 65536 + uint x) * ?b + mval rest"
    by (simp add: w mval_append algebra_simps)
  have Dv: "?D = uint (last ?nd) * ?b + mval (butlast ?nd)"
    using mval_snoc [OF ne] D(1) by (simp add: mult.commute)
  define quo where "quo = (push_bit DIG_SIZE (ucast hi) OR ucast x) div lead_den_digit s den"
  have lead: "uint (lead_den_digit s den) = uint (last ?nd)" by (rule lead_den_digit [OF den(1,2,4)])
  have quo: "uint quo = (uint hi * 65536 + uint x) div uint (last ?nd)"
    unfolding quo_def uint_div DIG_SIZE_def uint_double_digit lead ..
  have bounds: "0 \<le> mval rest" "mval rest < ?b" "0 \<le> mval (butlast ?nd)" "mval (butlast ?nd) < ?b"
    using mval_nonneg mval_bound [of rest] mval_bound [of "butlast ?nd"] w(2) by simp_all
  note est = estimate [OF bounds D(2) _ _ _ window(2) [unfolded wv Dv], folded quo, OF uint_dig(1,2) uint_dig(1)]
  have D0: "0 < ?D" using D(2) Dv bounds(3) by (simp add: add_pos_nonneg)
  have fits: "uint quo * uint d + 65536 < 4294967296" if "d \<in> set ?nd" for d
  proof (cases "length den = 1")
    case True
    then have "butlast ?nd = []" using length_div_shl [of s 0 den] by (metis One_nat_def diff_Suc_1 length_0_conv length_butlast)
    then have "uint quo \<le> 65535" using est(4) by simp
    then have "uint quo * uint d \<le> 65535 * 65535" using est(3) uint_dig [of d] by (intro mult_mono) simp_all
    then show ?thesis by simp
  next
    case False
    then have "d \<noteq> 0xFFFF" using digits that by blast
    then have "uint d \<noteq> 65535" by (simp add: word_uint_eq_iff)
    then have "uint d \<le> 65534" using uint_dig(2) [of d] by linarith
    then have "uint quo * uint d \<le> 65537 * 65534" using est(2,3) by (intro mult_mono) simp_all
    then show ?thesis by simp
  qed
  obtain w bo where sub: "div_sub_loop s quo 0 0 (rest @ [x]) den = (w, bo)" "length w = length den" "uint bo \<le> 65536"
    "mval w - 65536 ^ length den * uint bo = mval (rest @ [x]) - uint quo * ?D"
    using div_sub_loop [OF den(2), of "rest @ [x]" den 0 0 quo] fits w(2) den(1) D(1) by (auto simp: Suc_le_eq)
  obtain hi' bo' where hi': "div_sub_top bo hi = (hi', bo')" by fastforce
  note top = div_sub_top [OF sub(3) hi']
  define v where "v = mval window - uint quo * ?D"
  have wv2: "mval window = mval (rest @ [x]) + 65536 ^ length den * uint hi"
    using w(2) den(1) by (simp add: w mval_append b distrib_left mult.assoc)
  have v: "v = mval w + 65536 ^ length den * uint hi' - 65536 ^ Suc (length den) * uint bo'"
  proof -
    have "65536 ^ length den * (uint hi' - 65536 * uint bo') = 65536 ^ length den * (uint hi - uint bo)"
      by (simp only: top(1))
    then show ?thesis using sub(4) by (simp add: v_def wv2 algebra_simps)
  qed
  have "v < ?D" using est(1) by (simp add: v_def wv Dv algebra_simps)
  moreover have "- (int (nat (uint quo)) * ?D) \<le> v" using mval_nonneg [of window] by (simp add: v_def)
  moreover have "int (nat (uint quo)) \<le> uint quo" by simp
  ultimately obtain k ns' where adj: "div_adjust s den quo bo' w hi' = Some (quo - of_nat k, ns', 0)"
    "k \<le> nat (uint quo)" "length ns' = length den" "mval ns' = v + int k * ?D" "mval ns' < ?D"
    using div_adjust [OF den(2) D(1) [symmetric] D0 sub(2) top(2) v] by blast
  have dq: "uint (quo - of_nat k) = uint quo - int k"
  proof -
    have "int k \<le> uint quo" using adj(2) uint_ge_0 [of quo] by linarith
    moreover from this have "uint (of_nat k :: mpz_dbl_dig_t) = int k"
      using uint_bounded [of quo] by (simp add: unsigned_of_nat take_bit_nat_eq_self_iff take_bit_int_eq_self_iff flip: of_nat_take_bit)
    ultimately show ?thesis by (subst uint_sub_if') simp
  qed
  have eq: "mval window = ?D * (uint quo - int k) + mval ns'"
    using adj(4) by (simp add: v_def algebra_simps)
  have q: "mval window div ?D = uint quo - int k"
    by (rule int_div_pos_eq [OF eq mval_nonneg adj(5)])
  have r: "mval window mod ?D = mval ns'"
    by (rule int_mod_pos_eq [OF eq mval_nonneg adj(5)])
  have "uint quo - int k < 65536"
    using int_div_less [of "mval window" 65536 ?D] window(2) D0 q by (simp add: mult.commute)
  moreover have "0 \<le> uint quo - int k" using adj(2) uint_ge_0 [of quo] by linarith
  ultimately have "uint (dig_low (quo - of_nat k)) = mval window div ?D"
    using dq q by (simp add: dig_low)
  moreover have "div_step s den window = Some (dig_low (quo - of_nat k), ns')"
    using sub(1) hi' adj(1) by (simp add: div_step_def w butlast_append Let_def flip: quo_def)
  ultimately show ?thesis using adj(3) r by (intro exI [of _ "dig_low (quo - of_nat k)"] exI [of _ ns']) simp
qed

section \<open>The whole division\<close>

lemma div_loop:
  assumes den: "den \<noteq> []" "s \<le> 15" "32768 \<le> uint (last den) * 2 ^ s" "uint (last den) * 2 ^ s < 65536"
    and digits: "length den = 1 \<or> (\<forall>d\<in>set (div_shl_loop s 0 den). d \<noteq> 0xFFFF)"
  defines "D \<equiv> mval den * 2 ^ s"
  shows "length num = length den + k \<Longrightarrow> mval num < D * 65536 ^ k \<Longrightarrow>
    \<exists>qs rest. div_loop s den num = Some (qs, rest) \<and> length qs = k \<and> length rest = length den
      \<and> mval rest = mval num mod D \<and> mval qs = mval num div D"
proof (induction k arbitrary: num)
  case 0
  then show ?case using mval_nonneg [of num] by (subst div_loop.simps) simp
next
  case (Suc k)
  let ?lo = "take k num" and ?window = "drop k num"
  have split: "mval num = mval ?lo + 65536 ^ k * mval ?window"
    using Suc.prems(1) mval_append [of ?lo ?window] by simp
  have len: "length ?window = Suc (length den)" "length ?lo = k" using Suc.prems(1) by simp_all
  have "65536 ^ k * mval ?window < 65536 ^ k * (D * 65536)"
  proof -
    have "D * 65536 ^ Suc k = 65536 ^ k * (D * 65536)" by simp
    then show ?thesis using Suc.prems(2) split mval_nonneg [of ?lo] by linarith
  qed
  then have "mval ?window < mval den * 2 ^ s * 65536" by (simp add: D_def)
  from div_step [OF den digits len(1) this] obtain q ns where
    step: "div_step s den ?window = Some (q, ns)" "length ns = length den"
      "mval ns = mval ?window mod D" "uint q = mval ?window div D"
    unfolding D_def by blast
  have "uint (last den) \<noteq> 0" using den(3) by (intro notI) simp
  then have "0 < uint (last den)" using uint_ge_0 [of "last den"] by linarith
  then have D0: "0 < D" using mval_snoc [OF den(1)] mval_nonneg [of "butlast den"]
    by (auto simp: D_def intro!: add_nonneg_pos mult_pos_pos)
  have "mval ns < D" using D0 by (simp add: step(3))
  then have "65536 ^ k * (mval ns + 1) \<le> 65536 ^ k * D" by (intro mult_left_mono) simp_all
  then have "mval (?lo @ ns) < D * 65536 ^ k"
    using mval_bound [of ?lo] len(2) by (simp add: mval_append algebra_simps)
  moreover have "length (?lo @ ns) = length den + k" using len(2) step(2) by simp
  ultimately obtain qs rest where rec: "div_loop s den (?lo @ ns) = Some (qs, rest)" "length qs = k"
    "length rest = length den" "mval rest = mval (?lo @ ns) mod D" "mval qs = mval (?lo @ ns) div D"
    using Suc.IH by blast
  have num: "mval num = mval (?lo @ ns) + (65536 ^ k * uint q) * D"
  proof -
    have "mval ?window = D * uint q + mval ns" using mult_div_mod_eq [of D "mval ?window"] step(3,4) by simp
    then show ?thesis unfolding split by (simp only: mval_append len(2)) (simp add: algebra_simps)
  qed
  have "div_loop s den num = Some (qs @ [q], rest)"
    using Suc.prems(1) step(1,2) rec(1) by (subst div_loop.simps) (simp add: Let_def)
  moreover have "mval (qs @ [q]) = mval num div D" "mval rest = mval num mod D"
    using rec(2,4,5) D0 by (simp_all add: num mval_append)
  ultimately show ?case using rec(2,3) by (intro exI [of _ "qs @ [q]"] exI [of _ rest]) simp
qed

lemma shr_carry: "uint (ucast (push_bit k (ucast (n :: mpz_dig_t) :: mpz_dbl_dig_t)) :: mpz_dig_t) = (uint n * 2 ^ k) mod 65536"
proof -
  have "uint (push_bit k (ucast n :: mpz_dbl_dig_t)) = (uint n * 2 ^ k) mod 4294967296"
    by (simp only: unsigned_push_bit_eq uint_ucast_dig) (simp add: push_bit_eq_mult take_bit_eq_mod)
  moreover have "(uint n * 2 ^ k) mod 4294967296 mod 65536 = (uint n * 2 ^ k) mod 65536"
    by (rule mod_mod_cancel) simp
  ultimately show ?thesis by (simp add: unsigned_ucast_eq take_bit_eq_mod)
qed

lemma shr_join:
  assumes "s \<le> 15" and "uint (c :: mpz_dig_t) = a * 2 ^ (16 - s)" and "0 \<le> a" and "a < 2 ^ s"
  shows "uint (drop_bit s n OR c) = uint n div 2 ^ s + a * 2 ^ (16 - s)"
proof -
  have "uint (take_bit (16 - s) c) = 0"
    by (simp only: unsigned_take_bit_eq assms(2)) (simp add: take_bit_eq_mod)
  then have "take_bit (16 - s) c = 0" by (simp add: word_uint_eq_iff)
  then have lo: "\<not> bit c m" if "m < 16 - s" for m using that by (metis bit_take_bit_iff bit_0_eq bot_apply bot_bool_def)
  have "drop_bit s n OR c = drop_bit s n + c"
    by (rule disjunctive_add [symmetric]) (use lo in \<open>auto simp: bit_simps dest: bit_imp_le_length\<close>)
  moreover have "uint (drop_bit s n) = uint n div 2 ^ s" by (rule uint_drop_bit)
  moreover have "uint n div 2 ^ s + a * 2 ^ (16 - s) < 65536"
  proof -
    have p: "(65536 :: int) = 2 ^ (16 - s) * 2 ^ s" using assms(1) by (simp flip: power_add)
    have "uint n div 2 ^ s < 2 ^ (16 - s)"
      using uint_dig(2) [of n] p by (intro int_div_less) simp_all
    moreover have "(a + 1) * 2 ^ (16 - s) \<le> 2 ^ s * 2 ^ (16 - s)" using assms(4) by (intro mult_right_mono) simp_all
    ultimately show ?thesis using p by (simp add: algebra_simps)
  qed
  ultimately show ?thesis using assms(2,3)
    by (simp add: uint_word_ariths mod_pos_pos_trivial pos_imp_zdiv_nonneg_iff)
qed

lemma div_shr_loop:
  assumes "s \<le> 15"
  shows "uint c = a * 2 ^ (16 - s) \<Longrightarrow> 0 \<le> a \<Longrightarrow> a < 2 ^ s \<Longrightarrow>
    mval (rev (div_shr_loop s c xs)) = (a * 65536 ^ length xs + mval (rev xs)) div 2 ^ s"
proof (induction xs arbitrary: a c)
  case Nil
  then show ?case by simp
next
  case (Cons n xs)
  have p: "(65536 :: int) = 2 ^ (16 - s) * 2 ^ s" using assms by (simp flip: power_add)
  let ?c = "ucast (push_bit (16 - s) (ucast n :: mpz_dbl_dig_t)) :: mpz_dig_t"
  let ?a = "uint n mod 2 ^ s"
  have "uint ?c = (uint n * 2 ^ (16 - s)) mod 65536"
    by (rule shr_carry)
  also have "\<dots> = ?a * 2 ^ (16 - s)" by (simp add: p mult.commute mult_mod_right)
  finally have c: "uint ?c = ?a * 2 ^ (16 - s)" .
  have len: "length (div_shr_loop s c xs) = length xs" for c
    by (induction xs arbitrary: c) simp_all
  have d: "uint (drop_bit s n OR c) = uint n div 2 ^ s + a * 2 ^ (16 - s)"
    by (rule shr_join [OF assms Cons.prems])
  have "a * 65536 ^ length (n # xs) + mval (rev (n # xs))
      = (?a * 65536 ^ length xs + mval (rev xs)) + (uint n div 2 ^ s + a * 2 ^ (16 - s)) * 65536 ^ length xs * 2 ^ s"
    (is "?l = ?m + ?h * 2 ^ s")
  proof -
    define N A :: int where "N = uint n div 2 ^ s" and "A = uint n mod 2 ^ s"
    have n: "uint n = N * 2 ^ s + A" unfolding N_def A_def by (rule div_mult_mod_eq [symmetric])
    have "a * 65536 ^ length (n # xs) = (a * 2 ^ (16 - s)) * 65536 ^ length xs * 2 ^ s"
      by (simp add: p)
    then show ?thesis
      unfolding N_def [symmetric] A_def [symmetric] by (simp add: mval_append n algebra_simps)
  qed
  then have "?l div 2 ^ s = ?h + ?m div 2 ^ s" by simp
  moreover have "mval (rev (div_shr_loop s c (n # xs))) = ?m div 2 ^ s + ?h"
    using Cons.IH [OF c] by (simp add: mval_append len d DIG_SIZE_def)
  ultimately show ?case by simp
qed

lemma mval_strip_zeros [simp]: "mval (strip_zeros w) = mval w" "normalised (strip_zeros w)"
  by (simp_all add: strip_zeros_def)

text \<open>The shift that brings the divisor's top bit up, as the code computes it.\<close>

definition div_shift :: "mpz_dig_t list \<Rightarrow> nat" where
  "div_shift den = (case mpn_norm_shift (Suc DIG_SIZE) (last den) of Some s \<Rightarrow> s | None \<Rightarrow> 0)"

lemma div_shift:
  assumes "normalised den" and "den \<noteq> []"
  shows "mpn_norm_shift (Suc DIG_SIZE) (last den) = Some (div_shift den)" and "div_shift den \<le> 15"
    and "32768 \<le> uint (last den) * 2 ^ div_shift den" and "uint (last den) * 2 ^ div_shift den < 65536"
proof -
  have "last den \<noteq> 0" using assms by (auto simp: normalised_def)
  then have "uint (last den) \<noteq> 0" by (simp add: word_uint_eq_iff)
  then have pos: "1 \<le> uint (last den)" using uint_ge_0 [of "last den"] by linarith
  then have "32768 \<le> uint (last den) * 2 ^ DIG_SIZE" by (simp add: DIG_SIZE_def)
  from mpn_norm_shift [OF this] obtain s where s: "mpn_norm_shift (Suc DIG_SIZE) (last den) = Some s"
    "32768 \<le> uint (last den) * 2 ^ s" "uint (last den) * 2 ^ s < 65536" by blast
  have "s \<le> 15"
  proof (rule ccontr)
    assume "\<not> s \<le> 15"
    then have "(2 :: int) ^ 16 \<le> 2 ^ s" by (intro power_increasing) simp_all
    then have "1 * 2 ^ 16 \<le> uint (last den) * 2 ^ s" using pos by (intro mult_mono) simp_all
    then show False using s(3) by simp
  qed
  with s show "mpn_norm_shift (Suc DIG_SIZE) (last den) = Some (div_shift den)" "div_shift den \<le> 15"
    "32768 \<le> uint (last den) * 2 ^ div_shift den" "uint (last den) * 2 ^ div_shift den < 65536"
    by (simp_all add: div_shift_def)
qed

text \<open>The divisors the borrow of the code is wide enough for.\<close>

definition div_safe :: "mpz_dig_t list \<Rightarrow> bool" where
  "div_safe den \<longleftrightarrow> length den = 1 \<or> list_all (\<lambda>d. d \<noteq> 0xFFFF) (div_shl_loop (div_shift den) 0 den)"

lemma mval_less_iff_cmp:
  assumes "normalised j" and "normalised k"
  shows "mpn_cmp j k = 0 \<longleftrightarrow> mval j = mval k" and "mpn_cmp j k < 0 \<longleftrightarrow> mval j < mval k"
  using mpn_cmp_sgn [OF assms] by (auto simp: sgn_if split: if_splits)

lemma normalised_length:
  assumes "normalised w" and "mval w < 65536 ^ n"
  shows "length w \<le> n"
proof (cases "w = []")
  case False
  have "(65536 :: int) ^ (length w - 1) < 65536 ^ n"
    using normalised_pos [OF assms(1) False] assms(2) by linarith
  then have "length w - 1 < n" by (rule power_less_imp_less_exp [rotated]) simp
  then show ?thesis by simp
qed simp

lemma mpn_div_ok:
  assumes "normalised num" and "normalised den" and "den \<noteq> []" and "div_safe den"
  shows "\<exists>r q. mpn_div num den = Some (r, q) \<and> normalised r \<and> normalised q
    \<and> mval r = mval num mod mval den \<and> mval q = mval num div mval den
    \<and> length r \<le> length den \<and> length q \<le> length num"
proof -
  let ?s = "div_shift den"
  note sh = div_shift [OF assms(2,3)]
  have den0: "65536 ^ (length den - 1) \<le> mval den" by (rule normalised_pos [OF assms(2,3)])
  then have den_pos: "0 < mval den" by (rule less_le_trans [rotated]) simp
  note cmp = mval_less_iff_cmp [OF assms(1,2)]
  consider (eq) "mpn_cmp num den = 0" | (less) "mpn_cmp num den < 0" | (greater) "mpn_cmp num den > 0" by linarith
  then show ?thesis
  proof cases
    case eq
    then have "mval num = mval den" using cmp by simp
    moreover from this have "num \<noteq> []" using den_pos by auto
    ultimately show ?thesis using eq den_pos
      by (auto simp: mpn_div_def normalised_def Suc_le_eq)
  next
    case less
    then have "mval num < mval den" using cmp by simp
    moreover from this have "length num \<le> length den"
      using normalised_length [OF assms(1), of "length den"] mval_bound [of den] by simp
    moreover have "normalised []" by (simp add: normalised_def)
    ultimately show ?thesis using less assms(1) mval_nonneg [of num]
      by (simp add: mpn_div_def)
  next
    case greater
    then have gt: "mval den < mval num" using cmp by linarith
    have len: "length den \<le> length num"
      using normalised_length [OF assms(2), of "length num"] gt mval_bound [of num] by simp
    define k where "k = Suc (length num) - length den"
    define D where "D = mval den * 2 ^ ?s"
    have D0: "0 < D" using den_pos by (simp add: D_def)
    let ?num = "div_shl_loop ?s 0 (num @ [0])"
    have p: "(2 :: int) ^ ?s \<le> 2 ^ 15" using sh(2) by (intro power_increasing) simp_all
    have num_less: "mval num * 2 ^ ?s < 65536 ^ length num * 32768"
    proof -
      have "mval num * 2 ^ ?s \<le> mval num * 32768" using p mval_nonneg [of num] by (intro mult_left_mono) simp_all
      moreover have "mval num * 32768 < 65536 ^ length num * 32768" using mval_bound [of num] by simp
      ultimately show ?thesis by linarith
    qed
    have mnum: "mval ?num = mval num * 2 ^ ?s"
    proof -
      have "(0 :: int) < 65536 ^ length num" by simp
      then have "mval num * 2 ^ ?s < 65536 * 65536 ^ length num" using num_less by linarith
      then show ?thesis
        using mval_div_shl [OF sh(2), of 0 "num @ [0]"] mval_nonneg [of num]
        by (simp add: mval_append mod_pos_pos_trivial)
    qed
    have "32768 * 65536 ^ (length den - 1) \<le> D"
    proof -
      have "32768 * 65536 ^ (length den - 1) \<le> (uint (last den) * 2 ^ ?s) * 65536 ^ (length den - 1)"
        using sh(3) by (intro mult_right_mono) simp_all
      also have "\<dots> \<le> D"
        using mval_snoc [OF assms(3)] mval_nonneg [of "butlast den"] by (simp add: D_def algebra_simps)
      finally show ?thesis .
    qed
    then have le: "32768 * 65536 ^ (length den - 1) * 65536 ^ k \<le> D * 65536 ^ k" by (intro mult_right_mono) simp_all
    have pw: "(65536 :: int) ^ (length den - 1) * 65536 ^ k = 65536 ^ length num"
      unfolding power_add [symmetric] using len assms(3) by (cases den) (simp_all add: k_def)
    have "32768 * 65536 ^ length num \<le> D * 65536 ^ k" using le by (simp only: mult.assoc pw)
    then have fits: "mval ?num < D * 65536 ^ k" using num_less mnum by linarith
    have safe: "length den = 1 \<or> (\<forall>d\<in>set (div_shl_loop ?s 0 den). d \<noteq> 0xFFFF)"
      using assms(4) by (auto simp: div_safe_def list_all_iff)
    have "length ?num = length den + k" using len by (simp add: k_def)
    from div_loop [OF assms(3) sh(2-4) safe this fits [unfolded D_def]] obtain qs rest where
      run: "div_loop ?s den ?num = Some (qs, rest)" "length rest = length den"
        "mval rest = mval ?num mod D" "mval qs = mval ?num div D"
      unfolding D_def by blast
    have q: "mval qs = mval num div mval den" unfolding run(4) mnum D_def by simp
    have "mval (rev (div_shr_loop ?s 0 (rev rest))) = mval rest div 2 ^ ?s"
      using div_shr_loop [OF sh(2), of 0 0 "rev rest"] by simp
    also have "\<dots> = mval num mod mval den"
      unfolding run(3) mnum D_def by (simp add: mult_mod_left [symmetric] mod_mult_mult2)
    finally have r: "mval (rev (div_shr_loop ?s 0 (rev rest))) = mval num mod mval den" .
    have "mval num mod mval den < 65536 ^ length den"
      using pos_mod_bound [OF den_pos] mval_bound [of den] by (rule less_trans)
    then have lr: "length (strip_zeros (rev (div_shr_loop ?s 0 (rev rest)))) \<le> length den"
      by (intro normalised_length) (simp_all add: r)
    have "mval num div mval den \<le> mval num"
      using zdiv_mono2 [of "mval num" 1 "mval den"] den_pos mval_nonneg [of num] by simp
    then have "mval num div mval den < 65536 ^ length num" using mval_bound [of num] by linarith
    then have lq: "length (strip_zeros qs) \<le> length num" by (intro normalised_length) (simp_all add: q)
    show ?thesis using greater sh(1) run(1) lr lq q r by (simp add: mpn_div_def)
  qed
qed

section \<open>The properties of the division\<close>

text \<open>C17. The long division: for normalised operands and a nonzero divisor of one digit, or none of whose shifted digits
  is \<open>0xFFFF\<close>, every loop ends and the quotient and the remainder are the exact ones, normalised and
  no longer than the space they have.\<close>

theorem mpn_long_division:
  assumes "normalised num" and "normalised den" and "den \<noteq> []" and "div_safe den"
  shows "\<exists>r q. mpn_div num den = Some (r, q) \<and> normalised r \<and> normalised q
    \<and> mval r = mval num mod mval den \<and> mval q = mval num div mval den
    \<and> length r \<le> length den \<and> length q \<le> length num"
  by (rule mpn_div_ok [OF assms])

theorem mpn_long_division_witness:
  "\<exists>r q. mpn_div [5, 0, 1] [7, 1] = Some (r, q) \<and> mval r = 54 \<and> mval q = 65529"
proof -
  have "div_safe [7, 1]" by code_simp
  then show ?thesis
    using mpn_long_division [of "[5, 0, 1]" "[7, 1]"] by (auto simp: normalised_def)
qed

text \<open>With a divisor of three digits \<open>0xFFFF\<close> the borrow of \<open>mpn_div\<close> overflows its 32 bits and the quotient is wrong:
  for \<open>2 ^ 64 - 1 - 2 ^ 16\<close> by \<open>2 ^ 48 - 1\<close> it returns the quotient 1 and the remainder 0.\<close>

theorem mpn_div_borrow_overflow:
  "mpn_div [0xFFFF, 0xFFFE, 0xFFFF, 0xFFFF] [0xFFFF, 0xFFFF, 0xFFFF] = Some ([], [1])
   \<and> mval [0xFFFF, 0xFFFE, 0xFFFF, 0xFFFF] = 2 ^ 64 - 1 - 2 ^ 16 \<and> mval [0xFFFF, 0xFFFF, 0xFFFF] = 2 ^ 48 - 1"
proof -
  have "mpn_div [0xFFFF, 0xFFFE, 0xFFFF, 0xFFFF] [0xFFFF, 0xFFFF, 0xFFFF] = Some ([], [1])" by code_simp
  then show ?thesis by simp
qed

end
