(* ===== verification/Py_Mpz.thy ===== *)
theory Py_Mpz
  imports Py_Mpn_Div
begin

text \<open>
  The integers of arbitrary size of the interpreter, \<open>py/mpz.c\<close> from \<open>mpz_init_zero\<close> on: a sign,
  a digit array with its allocation, and the operations that write into a destination.  \<open>dig\<close> is
  the used part of the array.  \<open>mpz_val\<close> reads the number; \<open>mpz_wf\<close> is the representation
  invariant and \<open>mpz_ok\<close> adds that zero carries no sign, which the bitwise operations rely on.
  \<open>None\<close> is a failed assertion or a write outside the allocation.
\<close>

section \<open>Representation\<close>

record mpz_t =
  neg :: bool
  fixed_dig :: bool
  alloc :: nat
  dig :: "mpz_dig_t list"

definition mpz_val :: "mpz_t \<Rightarrow> int" where
  "mpz_val z = sgn_val (neg z) (mval (dig z))"

definition mpz_wf :: "mpz_t \<Rightarrow> bool" where
  "mpz_wf z \<longleftrightarrow> normalised (dig z) \<and> length (dig z) \<le> alloc z"

definition mpz_ok :: "mpz_t \<Rightarrow> bool" where
  "mpz_ok z \<longleftrightarrow> mpz_wf z \<and> (neg z \<longrightarrow> dig z \<noteq> [])"

definition MIN_ALLOC :: nat where "MIN_ALLOC = 2"

definition mpz_init_zero :: mpz_t where
  "mpz_init_zero = \<lparr>neg = False, fixed_dig = False, alloc = 0, dig = []\<rparr>"

definition mpz_is_zero :: "mpz_t \<Rightarrow> bool" where "mpz_is_zero z \<longleftrightarrow> dig z = []"
definition mpz_is_neg :: "mpz_t \<Rightarrow> bool" where "mpz_is_neg z \<longleftrightarrow> dig z \<noteq> [] \<and> neg z"

definition mpz_need_dig :: "mpz_t \<Rightarrow> nat \<Rightarrow> mpz_t option" where
  "mpz_need_dig z need =
     (let need = (if need < MIN_ALLOC then MIN_ALLOC else need)
      in if alloc z < need
         then (if fixed_dig z then None else Some (z\<lparr>alloc := need\<rparr>))
         else Some z)"

text \<open>Storing what an \<open>mpn\<close> routine wrote into the array of \<open>z\<close>.\<close>

definition mpz_put :: "mpz_t \<Rightarrow> mpn_result \<Rightarrow> bool \<Rightarrow> mpz_t option" where
  "mpz_put z r s =
     (if length (fst r) \<le> alloc z then Some (z\<lparr>dig := mpn_digits r, neg := s\<rparr>) else None)"

section \<open>Setting\<close>

definition mpz_set :: "mpz_t \<Rightarrow> mpz_t \<Rightarrow> mpz_t option" where
  "mpz_set dest src = do {
     dest \<leftarrow> mpz_need_dig dest (length (dig src));
     Some (dest\<lparr>neg := neg src, dig := dig src\<rparr>) }"

definition mpz_clone :: "mpz_t \<Rightarrow> mpz_t" where
  "mpz_clone src = src\<lparr>fixed_dig := False\<rparr>"

text \<open>The digits of a machine word, lowest first; a word has at most \<open>fuel\<close> of them.\<close>

fun word_digits :: "nat \<Rightarrow> 'a::len word \<Rightarrow> mpz_dig_t list" where
  "word_digits 0 w = []"
| "word_digits (Suc fuel) w = (if w = 0 then [] else ucast w # word_digits fuel (drop_bit DIG_SIZE w))"

definition MPZ_NUM_DIG_FOR_INT :: nat where "MPZ_NUM_DIG_FOR_INT = 2"
definition MPZ_NUM_DIG_FOR_LL :: nat where "MPZ_NUM_DIG_FOR_LL = 4"

definition mpz_set_from_int :: "mpz_t \<Rightarrow> u32 \<Rightarrow> mpz_t option" where
  "mpz_set_from_int z val =
     (if val = 0 then Some (z\<lparr>dig := []\<rparr>)
      else do {
        z \<leftarrow> mpz_need_dig z MPZ_NUM_DIG_FOR_INT;
        let s = sint val < 0;
        let uval = (if s then - val else val);
        let w = word_digits MPZ_NUM_DIG_FOR_INT uval;
        mpz_put z (w, length w) s })"

definition mpz_set_from_ll :: "mpz_t \<Rightarrow> 64 word \<Rightarrow> bool \<Rightarrow> mpz_t option" where
  "mpz_set_from_ll z val is_signed = do {
     z \<leftarrow> mpz_need_dig z MPZ_NUM_DIG_FOR_LL;
     let s = (is_signed \<and> sint val < 0);
     let uval = (if s then - val else val);
     let w = word_digits MPZ_NUM_DIG_FOR_LL uval;
     mpz_put z (w, length w) s }"

definition mpz_init_from_int :: "u32 \<Rightarrow> mpz_t option" where
  "mpz_init_from_int val = mpz_set_from_int mpz_init_zero val"

definition mpz_init_fixed_from_int :: "nat \<Rightarrow> u32 \<Rightarrow> mpz_t option" where
  "mpz_init_fixed_from_int al val =
     mpz_set_from_int \<lparr>neg = False, fixed_dig = True, alloc = al, dig = []\<rparr> val"

text \<open>Reading a numeral; the result is the number and how many characters were used.\<close>

definition char_digit :: "u8 \<Rightarrow> u32 option" where
  "char_digit c =
     (if 48 \<le> c \<and> c \<le> 57 then Some (ucast (c - 48))
      else if 65 \<le> c \<and> c \<le> 90 then Some (ucast (c - 55))
      else if 97 \<le> c \<and> c \<le> 122 then Some (ucast (c - 87))
      else None)"

fun from_str_loop :: "mpz_t \<Rightarrow> u32 \<Rightarrow> u8 list \<Rightarrow> nat \<Rightarrow> (mpz_t \<times> nat) option" where
  "from_str_loop z base [] n = Some (z, n)"
| "from_str_loop z base (c # cs) n =
     (case char_digit c of
        None \<Rightarrow> Some (z, n)
      | Some v \<Rightarrow>
          (if base \<le> v then Some (z, n)
           else do {
             z \<leftarrow> mpz_put z (mpn_mul_dig_add_dig (dig z) (ucast base) (ucast v)) (neg z);
             from_str_loop z base cs (Suc n) }))"

definition mpz_set_from_str :: "mpz_t \<Rightarrow> u8 list \<Rightarrow> bool \<Rightarrow> u32 \<Rightarrow> (mpz_t \<times> nat) option" where
  "mpz_set_from_str z str s base =
     (if 36 < base then None
      else do {
        z \<leftarrow> mpz_need_dig z (length str * 8 div DIG_SIZE + 1);
        from_str_loop (z\<lparr>neg := s, dig := []\<rparr>) base str 0 })"

text \<open>Two bytes make a digit, the first the low half.\<close>

fun from_bytes_loop :: "u8 list \<Rightarrow> mpz_dig_t list" where
  "from_bytes_loop [] = []"
| "from_bytes_loop [b] = [ucast b]"
| "from_bytes_loop (b # c # bs) = (ucast b OR push_bit 8 (ucast c)) # from_bytes_loop bs"

definition mpz_set_from_bytes :: "mpz_t \<Rightarrow> bool \<Rightarrow> u8 list \<Rightarrow> mpz_t option" where
  "mpz_set_from_bytes z big_endian buf = do {
     z \<leftarrow> mpz_need_dig z ((length buf * 8 + DIG_SIZE - 1) div DIG_SIZE);
     let buf = (if big_endian then rev buf else buf);
     mpz_put z (mpn_trimmed (from_bytes_loop buf)) False }"

section \<open>Comparing, negating, shifting\<close>

definition mpz_cmp :: "mpz_t \<Rightarrow> mpz_t \<Rightarrow> int" where
  "mpz_cmp z1 z2 =
     (if dig z1 = [] \<and> dig z2 = [] then 0
      else let cmp = (of_bool (neg z2) - of_bool (neg z1) :: int)
           in if cmp \<noteq> 0 then cmp
              else let cmp = mpn_cmp (dig z1) (dig z2)
                   in if neg z1 then - cmp else cmp)"

text \<open>\<open>alias\<close> says whether the destination is the operand, which then is not copied.\<close>

definition mpz_copy :: "bool \<Rightarrow> mpz_t \<Rightarrow> mpz_t \<Rightarrow> mpz_t option" where
  "mpz_copy alias dest z = (if alias then Some z else mpz_set dest z)"

definition mpz_abs_inpl :: "bool \<Rightarrow> mpz_t \<Rightarrow> mpz_t \<Rightarrow> mpz_t option" where
  "mpz_abs_inpl alias dest z = do { dest \<leftarrow> mpz_copy alias dest z; Some (dest\<lparr>neg := False\<rparr>) }"

definition mpz_neg_inpl :: "bool \<Rightarrow> mpz_t \<Rightarrow> mpz_t \<Rightarrow> mpz_t option" where
  "mpz_neg_inpl alias dest z = do { dest \<leftarrow> mpz_copy alias dest z; Some (dest\<lparr>neg := \<not> neg dest\<rparr>) }"

definition mpz_not_inpl :: "bool \<Rightarrow> mpz_t \<Rightarrow> mpz_t \<Rightarrow> mpz_t option" where
  "mpz_not_inpl alias dest z = do {
     dest \<leftarrow> mpz_copy alias dest z;
     if dig dest = [] then do {
       dest \<leftarrow> mpz_need_dig dest 1;
       mpz_put dest ([1], 1) True }
     else if neg dest then do {
       r \<leftarrow> mpn_sub (dig dest) [1];
       mpz_put dest r False }
     else do {
       dest \<leftarrow> mpz_need_dig dest (length (dig dest) + 1);
       r \<leftarrow> mpn_add (dig dest) [1];
       mpz_put dest r True } }"

definition mpz_shl_inpl :: "mpz_t \<Rightarrow> mpz_t \<Rightarrow> nat \<Rightarrow> mpz_t option" where
  "mpz_shl_inpl dest lhs rhs =
     (if dig lhs = [] \<or> rhs = 0 then mpz_set dest lhs
      else do {
        dest \<leftarrow> mpz_need_dig dest (length (dig lhs) + (rhs + DIG_SIZE - 1) div DIG_SIZE);
        mpz_put dest (mpn_shl (dig lhs) rhs) (neg lhs) })"

text \<open>
  Whether a digit below the shift is not zero; the code looks at \<open>lhs\<close> after the destination is
  written, so \<open>alias\<close> says whether the two are the same object.
\<close>

definition shr_round_up :: "mpz_dig_t list \<Rightarrow> nat \<Rightarrow> bool" where
  "shr_round_up ds rhs =
     (let n_whole = rhs div DIG_SIZE; n_part = rhs mod DIG_SIZE
      in list_ex (\<lambda>d. d \<noteq> 0) (take n_whole ds)
         \<or> (n_whole < length ds \<and> ds ! n_whole AND (push_bit n_part 1 - 1) \<noteq> 0))"

definition mpz_shr_inpl :: "bool \<Rightarrow> mpz_t \<Rightarrow> mpz_t \<Rightarrow> nat \<Rightarrow> mpz_t option" where
  "mpz_shr_inpl alias dest lhs rhs =
     (if dig lhs = [] \<or> rhs = 0 then mpz_set dest lhs
      else do {
        dest \<leftarrow> mpz_need_dig dest (length (dig lhs));
        dest \<leftarrow> mpz_put dest (mpn_shr (dig lhs) rhs) (neg lhs);
        if neg dest \<and> shr_round_up (if alias then dig dest else dig lhs) rhs
        then (if dig dest = [] then mpz_put dest ([1], 1) True
              else do { r \<leftarrow> mpn_add (dig dest) [1]; mpz_put dest r True })
        else Some dest })"

section \<open>Arithmetic\<close>

definition mpz_add_inpl :: "mpz_t \<Rightarrow> mpz_t \<Rightarrow> mpz_t \<Rightarrow> mpz_t option" where
  "mpz_add_inpl dest lhs rhs =
     (let (lhs, rhs) = (if mpn_cmp (dig lhs) (dig rhs) < 0 then (rhs, lhs) else (lhs, rhs))
      in if neg lhs = neg rhs then do {
           dest \<leftarrow> mpz_need_dig dest (length (dig lhs) + 1);
           r \<leftarrow> mpn_add (dig lhs) (dig rhs);
           mpz_put dest r (neg lhs) }
         else do {
           dest \<leftarrow> mpz_need_dig dest (length (dig lhs));
           r \<leftarrow> mpn_sub (dig lhs) (dig rhs);
           mpz_put dest r (neg lhs) })"

definition mpz_sub_inpl :: "mpz_t \<Rightarrow> mpz_t \<Rightarrow> mpz_t \<Rightarrow> mpz_t option" where
  "mpz_sub_inpl dest lhs rhs =
     (let swap = mpn_cmp (dig lhs) (dig rhs) < 0;
          (lhs, rhs) = (if swap then (rhs, lhs) else (lhs, rhs));
          s = (if swap then \<not> neg lhs else neg lhs)
      in if neg lhs \<noteq> neg rhs then do {
           dest \<leftarrow> mpz_need_dig dest (length (dig lhs) + 1);
           r \<leftarrow> mpn_add (dig lhs) (dig rhs);
           mpz_put dest r s }
         else do {
           dest \<leftarrow> mpz_need_dig dest (length (dig lhs));
           r \<leftarrow> mpn_sub (dig lhs) (dig rhs);
           mpz_put dest r s })"

text \<open>The bitwise operations take the operand with more digits as the left one.\<close>

definition more_digits :: "mpz_t \<Rightarrow> mpz_t \<Rightarrow> mpz_t \<times> mpz_t" where
  "more_digits lhs rhs = (if length (dig lhs) < length (dig rhs) then (rhs, lhs) else (lhs, rhs))"

definition mpz_and_inpl :: "mpz_t \<Rightarrow> mpz_t \<Rightarrow> mpz_t \<Rightarrow> mpz_t option" where
  "mpz_and_inpl dest lhs rhs =
     (let (lhs, rhs) = more_digits lhs rhs
      in if \<not> neg lhs \<and> \<not> neg rhs then do {
           dest \<leftarrow> mpz_need_dig dest (length (dig lhs));
           r \<leftarrow> mpn_and (dig lhs) (dig rhs);
           mpz_put dest r False }
         else do {
           dest \<leftarrow> mpz_need_dig dest (length (dig lhs) + 1);
           mpz_put dest (mpn_and_neg (dig lhs) (dig rhs)
             (of_bool (neg lhs = neg rhs)) (of_bool (neg lhs)) (of_bool (neg rhs)))
             (neg lhs \<and> neg rhs) })"

definition mpz_or_inpl :: "mpz_t \<Rightarrow> mpz_t \<Rightarrow> mpz_t \<Rightarrow> mpz_t option" where
  "mpz_or_inpl dest lhs rhs =
     (let (lhs, rhs) = more_digits lhs rhs
      in if \<not> neg lhs \<and> \<not> neg rhs then do {
           dest \<leftarrow> mpz_need_dig dest (length (dig lhs));
           r \<leftarrow> mpn_or (dig lhs) (dig rhs);
           mpz_put dest r False }
         else do {
           dest \<leftarrow> mpz_need_dig dest (length (dig lhs) + 1);
           r \<leftarrow> mpn_or_neg (dig lhs) (dig rhs) (of_bool (neg lhs)) (of_bool (neg rhs));
           mpz_put dest r True })"

definition mpz_xor_inpl :: "mpz_t \<Rightarrow> mpz_t \<Rightarrow> mpz_t \<Rightarrow> mpz_t option" where
  "mpz_xor_inpl dest lhs rhs =
     (let (lhs, rhs) = more_digits lhs rhs
      in if neg lhs = neg rhs then do {
           dest \<leftarrow> mpz_need_dig dest (length (dig lhs));
           if \<not> neg lhs then do { r \<leftarrow> mpn_xor (dig lhs) (dig rhs); mpz_put dest r False }
           else mpz_put dest (mpn_xor_neg (dig lhs) (dig rhs) 0 0 0) False }
         else do {
           dest \<leftarrow> mpz_need_dig dest (length (dig lhs) + 1);
           mpz_put dest (mpn_xor_neg (dig lhs) (dig rhs) 1 (of_bool (\<not> neg lhs)) (of_bool (\<not> neg rhs))) True })"

definition mpz_mul_inpl :: "mpz_t \<Rightarrow> mpz_t \<Rightarrow> mpz_t \<Rightarrow> mpz_t option" where
  "mpz_mul_inpl dest lhs rhs =
     (if dig lhs = [] \<or> dig rhs = [] then mpz_set_from_int dest 0
      else do {
        dest \<leftarrow> mpz_need_dig dest (length (dig lhs) + length (dig rhs));
        r \<leftarrow> mpn_mul (dig lhs) (dig rhs);
        mpz_put dest r (neg lhs \<noteq> neg rhs) })"

text \<open>The quotient and the remainder, with the signs of Python.\<close>

definition mpz_divmod_inpl :: "mpz_t \<Rightarrow> mpz_t \<Rightarrow> mpz_t \<Rightarrow> mpz_t \<Rightarrow> (mpz_t \<times> mpz_t) option" where
  "mpz_divmod_inpl dest_quo dest_rem lhs rhs =
     (if mpz_is_zero rhs then None
      else do {
        dest_quo \<leftarrow> mpz_need_dig dest_quo (length (dig lhs) + 1);
        dest_rem \<leftarrow> mpz_need_dig dest_rem (length (dig lhs) + 1);
        dest_rem \<leftarrow> mpz_set dest_rem lhs;
        (r, q) \<leftarrow> mpn_div (dig dest_rem) (dig rhs);
        dest_rem \<leftarrow> mpz_put dest_rem (r, length r) (neg dest_rem);
        dest_quo \<leftarrow> mpz_put dest_quo (q, length q) (neg dest_quo);
        if neg lhs \<noteq> neg rhs then do {
          let dest_quo = dest_quo\<lparr>neg := True\<rparr>;
          if \<not> mpz_is_zero dest_rem then do {
            mpzone \<leftarrow> mpz_init_from_int (- 1);
            dest_quo \<leftarrow> mpz_add_inpl dest_quo dest_quo mpzone;
            dest_rem \<leftarrow> mpz_add_inpl dest_rem dest_rem rhs;
            Some (dest_quo, dest_rem) }
          else Some (dest_quo, dest_rem) }
        else Some (dest_quo, dest_rem) })"

partial_function (option) mpz_pow_loop :: "mpz_t \<Rightarrow> mpz_t \<Rightarrow> mpz_dig_t list \<Rightarrow> mpz_t option" where
  "mpz_pow_loop dest x n =
     (if n = [] then Some dest
      else Option.bind (if hd n AND 1 \<noteq> 0 then mpz_mul_inpl dest dest x else Some dest) (\<lambda>dest.
           let n = mpn_digits (mpn_shr n 1)
           in if n = [] then Some dest
              else Option.bind (mpz_mul_inpl x x x) (\<lambda>x. mpz_pow_loop dest x n)))"

definition mpz_pow_inpl :: "mpz_t \<Rightarrow> mpz_t \<Rightarrow> mpz_t \<Rightarrow> mpz_t option" where
  "mpz_pow_inpl dest lhs rhs =
     (if dig lhs = [] \<or> neg rhs then mpz_set_from_int dest 0
      else if dig rhs = [] then mpz_set_from_int dest 1
      else Option.bind (mpz_set_from_int dest 1) (\<lambda>dest. mpz_pow_loop dest (mpz_clone lhs) (dig rhs)))"

partial_function (option) mpz_pow3_loop :: "mpz_t \<Rightarrow> mpz_t \<Rightarrow> mpz_t \<Rightarrow> mpz_dig_t list \<Rightarrow> mpz_t \<Rightarrow> mpz_t option" where
  "mpz_pow3_loop quo dest x n m =
     (if n = [] then Some dest
      else Option.bind
        (if hd n AND 1 \<noteq> 0
         then Option.bind (mpz_mul_inpl dest dest x) (\<lambda>dest. mpz_divmod_inpl quo dest dest m)
         else Some (quo, dest)) (\<lambda>(quo, dest).
           let n = mpn_digits (mpn_shr n 1)
           in if n = [] then Some dest
              else Option.bind (mpz_mul_inpl x x x) (\<lambda>x.
                   Option.bind (mpz_divmod_inpl quo x x m) (\<lambda>(quo, x).
                   mpz_pow3_loop quo dest x n m))))"

definition mpz_pow3_inpl :: "mpz_t \<Rightarrow> mpz_t \<Rightarrow> mpz_t \<Rightarrow> mpz_t \<Rightarrow> mpz_t option" where
  "mpz_pow3_inpl dest lhs rhs m =
     (if dig lhs = [] \<or> neg rhs then mpz_set_from_int dest 0
      else if dig rhs = [] then mpz_set_from_int dest 1
      else Option.bind (mpz_set_from_int dest 1)
        (\<lambda>dest. mpz_pow3_loop mpz_init_zero dest (mpz_clone lhs) (dig rhs) m))"

declare mpz_pow_loop.simps [code] mpz_pow3_loop.simps [code]

section \<open>What the operations return\<close>

text \<open>\<open>mpz_result r v\<close>: a number of value \<open>v\<close> that keeps the invariant is returned.\<close>

definition mpz_result :: "mpz_t option \<Rightarrow> int \<Rightarrow> bool" where
  "mpz_result r v \<longleftrightarrow> (\<exists>z. r = Some z \<and> mpz_wf z \<and> \<not> fixed_dig z \<and> mpz_val z = v)"

text \<open>The same, and zero has no sign.\<close>

definition mpz_canonical :: "mpz_t option \<Rightarrow> int \<Rightarrow> bool" where
  "mpz_canonical r v \<longleftrightarrow> (\<exists>z. r = Some z \<and> mpz_ok z \<and> \<not> fixed_dig z \<and> mpz_val z = v)"

lemma mpz_canonical_result: "mpz_canonical r v \<Longrightarrow> mpz_result r v"
  by (auto simp: mpz_canonical_def mpz_result_def mpz_ok_def)

lemma mpz_need_dig:
  "\<not> fixed_dig z \<Longrightarrow> mpz_need_dig z n = Some (z\<lparr>alloc := max (alloc z) (max n 2)\<rparr>)"
  by (cases z) (auto simp: mpz_need_dig_def MIN_ALLOC_def)

lemma normalised_Nil [simp]: "normalised []"
  by (simp add: normalised_def)

lemma mval_zero_normalised: "normalised w \<Longrightarrow> mval w = 0 \<longleftrightarrow> w = []"
proof (cases "w = []")
  case False
  assume "normalised w"
  then have "65536 ^ (length w - 1) \<le> mval w" using False by (rule normalised_pos)
  moreover have "(0 :: int) < 65536 ^ (length w - 1)" by simp
  ultimately have "mval w \<noteq> 0" by linarith
  then show ?thesis using False by simp
qed simp

lemma mval_pos: "normalised w \<Longrightarrow> w \<noteq> [] \<Longrightarrow> 0 < mval w"
  using mval_zero_normalised [of w] mval_nonneg [of w] by linarith

lemma mpn_ok_mono: "mpn_ok r v m \<Longrightarrow> m \<le> n \<Longrightarrow> mpn_ok r v n"
  by (auto simp: mpn_ok_def)

lemma mpz_put:
  assumes "mpn_ok r v c" and "c \<le> alloc z" and "\<not> fixed_dig z"
  shows "mpz_result (mpz_put z r s) (sgn_val s v)"
    and "(s \<Longrightarrow> v \<noteq> 0) \<Longrightarrow> mpz_canonical (mpz_put z r s) (sgn_val s v)"
proof -
  have w: "length (mpn_digits r) \<le> alloc z" "length (fst r) \<le> alloc z"
    using assms(1,2) by (auto simp: mpn_ok_def mpn_digits_def)
  show "mpz_result (mpz_put z r s) (sgn_val s v)"
    using assms w by (auto simp: mpz_result_def mpz_put_def mpz_wf_def mpz_val_def mpn_ok_def)
  show "mpz_canonical (mpz_put z r s) (sgn_val s v)" if "s \<Longrightarrow> v \<noteq> 0"
    using assms w that
    by (auto simp: mpz_canonical_def mpz_put_def mpz_ok_def mpz_wf_def mpz_val_def mpn_ok_def)
qed

lemma mpz_set [simp]:
  "\<not> fixed_dig dest \<Longrightarrow> mpz_set dest src
    = Some (dest\<lparr>alloc := max (alloc dest) (max (length (dig src)) 2), neg := neg src, dig := dig src\<rparr>)"
  by (simp add: mpz_set_def mpz_need_dig)

lemma mpz_need_put:
  assumes "mpn_ok r v c" and "c \<le> n" and "\<not> fixed_dig z"
  shows "mpz_result (Option.bind (mpz_need_dig z n) (\<lambda>d. mpz_put d r s)) (sgn_val s v)"
    and "(s \<Longrightarrow> v \<noteq> 0) \<Longrightarrow> mpz_canonical (Option.bind (mpz_need_dig z n) (\<lambda>d. mpz_put d r s)) (sgn_val s v)"
  using assms mpz_put [OF assms(1), of "z\<lparr>alloc := max (alloc z) (max n 2)\<rparr>" s]
  by (simp_all add: mpz_need_dig)

lemma mpz_ok_wf: "mpz_ok z \<Longrightarrow> mpz_wf z"
  by (simp add: mpz_ok_def)

lemma mpz_wf_normalised: "mpz_wf z \<Longrightarrow> normalised (dig z)"
  by (simp add: mpz_wf_def)

lemma mpz_ok_neg: "mpz_ok z \<Longrightarrow> neg z \<Longrightarrow> 0 < mval (dig z)"
  by (auto simp: mpz_ok_def mpz_wf_def intro: mval_pos)

lemma sgn_val_simps [simp]: "sgn_val True v = - v" "sgn_val False v = v"
  by (simp_all add: sgn_val_def)

lemma mpz_set_ok: "mpz_ok z \<Longrightarrow> \<not> fixed_dig dest \<Longrightarrow> mpz_canonical (mpz_set dest z) (mpz_val z)"
  by (simp add: mpz_canonical_def mpz_ok_def mpz_wf_def mpz_val_def)

lemma mpz_set_wf: "mpz_wf z \<Longrightarrow> \<not> fixed_dig dest \<Longrightarrow> mpz_result (mpz_set dest z) (mpz_val z)"
  by (simp add: mpz_result_def mpz_wf_def mpz_val_def)

section \<open>Correctness of the operations\<close>

lemma mpn_cmp_swap:
  assumes "normalised j" and "normalised k"
  shows "mpn_cmp j k < 0 \<Longrightarrow> mval j \<le> mval k" and "\<not> mpn_cmp j k < 0 \<Longrightarrow> mval k \<le> mval j"
  using mpn_cmp_sgn [OF assms] by (auto simp: sgn_if split: if_splits)

lemma normalised_length_mono:
  "normalised k \<Longrightarrow> mval k \<le> mval j \<Longrightarrow> length k \<le> length j"
  using normalised_length [of k "length j"] mval_bound [of j] by linarith

lemma mpz_add_bigger:
  assumes "normalised (dig l)" "normalised (dig r)" "mval (dig r) \<le> mval (dig l)" "\<not> fixed_dig dest"
  shows "mpz_result (do { dest \<leftarrow> mpz_need_dig dest (length (dig l) + 1); w \<leftarrow> mpn_add (dig l) (dig r);
      mpz_put dest w s }) (sgn_val s (mval (dig l) + mval (dig r)))"
    and "mpz_result (do { dest \<leftarrow> mpz_need_dig dest (length (dig l)); w \<leftarrow> mpn_sub (dig l) (dig r);
      mpz_put dest w s }) (sgn_val s (mval (dig l) - mval (dig r)))"
proof -
  have len: "length (dig r) \<le> length (dig l)" using assms(2,3) by (rule normalised_length_mono)
  obtain w where "mpn_add (dig l) (dig r) = Some w"
    "mpn_ok w (mval (dig l) + mval (dig r)) (Suc (length (dig l)))"
    using mpn_add_ok [OF assms(1) len] by blast
  then show "mpz_result (do { dest \<leftarrow> mpz_need_dig dest (length (dig l) + 1); w \<leftarrow> mpn_add (dig l) (dig r);
      mpz_put dest w s }) (sgn_val s (mval (dig l) + mval (dig r)))"
    using assms(4) mpz_need_put(1) by simp
  obtain w where "mpn_sub (dig l) (dig r) = Some w"
    "mpn_ok w (mval (dig l) - mval (dig r)) (length (dig l))"
    using mpn_sub_ok [OF len assms(3)] by blast
  then show "mpz_result (do { dest \<leftarrow> mpz_need_dig dest (length (dig l)); w \<leftarrow> mpn_sub (dig l) (dig r);
      mpz_put dest w s }) (sgn_val s (mval (dig l) - mval (dig r)))"
    using assms(4) mpz_need_put(1) by simp
qed

lemma mpz_add_ok:
  assumes "mpz_wf lhs" and "mpz_wf rhs" and "\<not> fixed_dig dest"
  shows "mpz_result (mpz_add_inpl dest lhs rhs) (mpz_val lhs + mpz_val rhs)"
proof -
  note n = assms(1,2) [THEN mpz_wf_normalised]
  show ?thesis
  proof (cases "mpn_cmp (dig lhs) (dig rhs) < 0")
    case True
    note b = mpz_add_bigger [OF n(2,1) mpn_cmp_swap(1) [OF n True] assms(3), of "neg rhs"]
    show ?thesis
      using True b by (cases "neg lhs"; cases "neg rhs") (simp_all add: mpz_add_inpl_def mpz_val_def add.commute)
  next
    case False
    note b = mpz_add_bigger [OF n mpn_cmp_swap(2) [OF n False] assms(3), of "neg lhs"]
    show ?thesis
      using False b by (cases "neg lhs"; cases "neg rhs") (simp_all add: mpz_add_inpl_def mpz_val_def)
  qed
qed

lemma mpz_sub_ok:
  assumes "mpz_wf lhs" and "mpz_wf rhs" and "\<not> fixed_dig dest"
  shows "mpz_result (mpz_sub_inpl dest lhs rhs) (mpz_val lhs - mpz_val rhs)"
proof -
  note n = assms(1,2) [THEN mpz_wf_normalised]
  show ?thesis
  proof (cases "mpn_cmp (dig lhs) (dig rhs) < 0")
    case True
    note b = mpz_add_bigger [OF n(2,1) mpn_cmp_swap(1) [OF n True] assms(3), of "\<not> neg rhs"]
    show ?thesis
      using True b by (cases "neg lhs"; cases "neg rhs") (simp_all add: mpz_sub_inpl_def mpz_val_def add.commute)
  next
    case False
    note b = mpz_add_bigger [OF n mpn_cmp_swap(2) [OF n False] assms(3), of "neg lhs"]
    show ?thesis
      using False b by (cases "neg lhs"; cases "neg rhs") (simp_all add: mpz_sub_inpl_def mpz_val_def)
  qed
qed

lemma mpz_mul_ok:
  assumes "mpz_wf lhs" and "mpz_wf rhs" and "\<not> fixed_dig dest"
  shows "mpz_result (mpz_mul_inpl dest lhs rhs) (mpz_val lhs * mpz_val rhs)"
proof (cases "dig lhs = [] \<or> dig rhs = []")
  case True
  then show ?thesis using assms(3)
    by (auto simp: mpz_mul_inpl_def mpz_set_from_int_def mpz_result_def mpz_wf_def mpz_val_def sgn_val_def)
next
  case False
  obtain w where w: "mpn_mul (dig lhs) (dig rhs) = Some w"
    "mpn_ok w (mval (dig lhs) * mval (dig rhs)) (length (dig lhs) + length (dig rhs))"
    using mpn_mul_ok [of "dig lhs" "dig rhs"] False assms(1,2) by (auto simp: mpz_wf_def)
  have "mpz_val lhs * mpz_val rhs = sgn_val (neg lhs \<noteq> neg rhs) (mval (dig lhs) * mval (dig rhs))"
    by (simp add: mpz_val_def sgn_val_def)
  then show ?thesis
    using False w(1) mpz_need_put(1) [OF w(2) _ assms(3)] by (simp add: mpz_mul_inpl_def)
qed

lemma mpz_cmp_ok:
  assumes "mpz_wf z1" and "mpz_wf z2"
  shows "sgn (mpz_cmp z1 z2) = sgn (mpz_val z1 - mpz_val z2)"
proof -
  note n = assms [THEN mpz_wf_normalised]
  have zero: "mval (dig z) = 0 \<longleftrightarrow> dig z = []" if "mpz_wf z" for z
    using that by (simp add: mval_zero_normalised mpz_wf_def)
  show ?thesis
    using mpn_cmp_sgn [OF n] zero [OF assms(1)] zero [OF assms(2)] mval_nonneg [of "dig z1"] mval_nonneg [of "dig z2"]
    by (auto simp: mpz_cmp_def mpz_val_def Let_def sgn_val_def sgn_if)
qed

lemma mpn_ok_one: "mpn_ok ([1], 1) 1 1"
  by (simp add: mpn_ok_def mpn_digits_def normalised_def)

lemma mpz_not_ok:
  assumes "mpz_wf z" and "\<not> fixed_dig dest" and "\<not> fixed_dig z"
  shows "mpz_canonical (mpz_not_inpl alias dest z) (NOT (mpz_val z))"
proof -
  obtain d where d: "mpz_copy alias dest z = Some d" "dig d = dig z" "neg d = neg z"
    "\<not> fixed_dig d" "length (dig z) \<le> alloc d"
    using assms by (cases "alias") (auto simp: mpz_copy_def mpz_wf_def)
  have n: "normalised (dig z)" using assms(1) by (rule mpz_wf_normalised)
  have not: "NOT v = - v - 1" for v :: int by (simp add: not_int_def)
  show ?thesis
  proof (cases "dig z = []")
    case True
    then show ?thesis
      using d mpz_need_put(2) [OF mpn_ok_one _ d(4), of 1 True]
      by (simp add: mpz_not_inpl_def mpz_val_def sgn_val_def)
  next
    case False
    have pos: "1 \<le> mval (dig z)" using mval_pos [OF n False] by simp
    have len: "length [1 :: mpz_dig_t] \<le> length (dig z)" using False by (simp add: Suc_le_eq)
    show ?thesis
    proof (cases "neg z")
      case True
      obtain w where w: "mpn_sub (dig z) [1] = Some w" "mpn_ok w (mval (dig z) - 1) (length (dig z))"
        using mpn_sub_ok [OF len] pos by auto
      then show ?thesis
        using d False True mpz_put(2) [OF w(2), of d False] by (simp add: mpz_not_inpl_def mpz_val_def not)
    next
      case nn: False
      obtain w where w: "mpn_add (dig z) [1] = Some w" "mpn_ok w (mval (dig z) + 1) (Suc (length (dig z)))"
        using mpn_add_ok [OF n len] by auto
      have "mval (dig z) + 1 \<noteq> 0" using pos by simp
      then show ?thesis
        using d False nn w(1) mpz_need_put(2) [OF w(2) _ d(4), of "length (dig z) + 1" True]
        by (simp add: mpz_not_inpl_def mpz_val_def not mpz_need_dig)
    qed
  qed
qed

lemma more_digits:
  assumes "more_digits lhs rhs = (l, r)"
  shows "length (dig r) \<le> length (dig l)" and "(l, r) = (lhs, rhs) \<or> (l, r) = (rhs, lhs)"
  using assms by (auto simp: more_digits_def split: if_splits)

lemma mpz_and_ok:
  assumes "mpz_ok lhs" and "mpz_ok rhs" and "\<not> fixed_dig dest"
  shows "mpz_canonical (mpz_and_inpl dest lhs rhs) (mpz_val lhs AND mpz_val rhs)"
proof -
  obtain l r where lr: "more_digits lhs rhs = (l, r)" by fastforce
  note m = more_digits [OF lr]
  have ok: "mpz_ok l" "mpz_ok r" "mpz_val lhs AND mpz_val rhs = mpz_val l AND mpz_val r"
    using m(2) assms(1,2) by (auto simp: and.commute)
  show ?thesis
  proof (cases "neg l \<or> neg r")
    case False
    obtain w where w: "mpn_and (dig l) (dig r) = Some w" "mpn_ok w (mval (dig l) AND mval (dig r)) (length (dig l))"
      using mpn_and_ok [OF m(1)] by blast
    then show ?thesis
      using False lr ok(3) mpz_need_put(2) [OF w(2) order_refl assms(3), of False]
      by (simp add: mpz_and_inpl_def mpz_val_def)
  next
    case True
    let ?s = "neg l \<and> neg r"
    have w: "mpn_ok (mpn_and_neg (dig l) (dig r) (of_bool ?s) (of_bool (neg l)) (of_bool (neg r)))
      (sgn_val ?s (mpz_val l AND mpz_val r)) (length (dig l) + 1)"
      unfolding mpz_val_def by (rule mpn_and_neg_ok [OF m(1)]) (use ok mpz_ok_neg in auto)
    have "sgn_val ?s (mpz_val l AND mpz_val r) \<noteq> 0" if ?s
    proof -
      have "mpz_val l AND mpz_val r < 0"
        using that mpz_ok_neg [OF ok(1)] mpz_ok_neg [OF ok(2)] by (simp add: mpz_val_def)
      then have "mpz_val l AND mpz_val r \<noteq> 0" by (rule less_imp_neq)
      then show ?thesis by (simp add: sgn_val_def)
    qed
    moreover have "?s \<longleftrightarrow> neg l = neg r" using True by auto
    moreover have "sgn_val s (sgn_val s v) = v" for s v by (simp add: sgn_val_def)
    ultimately show ?thesis
      using True lr ok(3) mpz_need_put(2) [OF w order_refl assms(3), of ?s]
      by (auto simp: mpz_and_inpl_def)
  qed
qed

lemma mpz_or_ok:
  assumes "mpz_ok lhs" and "mpz_ok rhs" and "\<not> fixed_dig dest"
  shows "mpz_canonical (mpz_or_inpl dest lhs rhs) (mpz_val lhs OR mpz_val rhs)"
proof -
  obtain l r where lr: "more_digits lhs rhs = (l, r)" by fastforce
  note m = more_digits [OF lr]
  have ok: "mpz_ok l" "mpz_ok r" "mpz_val lhs OR mpz_val rhs = mpz_val l OR mpz_val r"
    using m(2) assms(1,2) by (auto simp: or.commute)
  show ?thesis
  proof (cases "neg l \<or> neg r")
    case False
    obtain w where w: "mpn_or (dig l) (dig r) = Some w" "mpn_ok w (mval (dig l) OR mval (dig r)) (length (dig l))"
      using mpn_or_ok [OF mpz_wf_normalised [OF mpz_ok_wf [OF ok(1)]] m(1)] by blast
    then show ?thesis
      using False lr ok(3) w(1) mpz_need_put(2) [OF w(2) order_refl assms(3), of False]
      by (simp add: mpz_or_inpl_def mpz_val_def)
  next
    case True
    obtain w where w: "mpn_or_neg (dig l) (dig r) (of_bool (neg l)) (of_bool (neg r)) = Some w"
      "mpn_ok w (- (mpz_val l OR mpz_val r)) (length (dig l))"
      using mpn_or_neg_ok [OF m(1), of "neg l" "neg r"] True ok mpz_ok_neg unfolding mpz_val_def by auto
    have "mpz_val l OR mpz_val r < 0"
      using True mpz_ok_neg [OF ok(1)] mpz_ok_neg [OF ok(2)] by (auto simp: mpz_val_def)
    then have nz: "mpz_val l OR mpz_val r \<noteq> 0" by (rule less_imp_neq)
    have "mpz_canonical (Option.bind (mpz_need_dig dest (length (dig l) + 1)) (\<lambda>d. mpz_put d w True))
        (sgn_val True (- (mpz_val l OR mpz_val r)))"
      by (rule mpz_need_put(2) [OF w(2) _ assms(3)]) (use nz in simp_all)
    then show ?thesis
      using True lr ok(3) w(1) by (auto simp: mpz_or_inpl_def)
  qed
qed

lemma mpz_xor_ok:
  assumes "mpz_ok lhs" and "mpz_ok rhs" and "\<not> fixed_dig dest"
  shows "mpz_canonical (mpz_xor_inpl dest lhs rhs) (mpz_val lhs XOR mpz_val rhs)"
proof -
  obtain l r where lr: "more_digits lhs rhs = (l, r)" by fastforce
  note m = more_digits [OF lr]
  have ok: "mpz_ok l" "mpz_ok r" "mpz_val lhs XOR mpz_val rhs = mpz_val l XOR mpz_val r"
    using m(2) assms(1,2) by (auto simp: xor.commute)
  have w: "mpn_ok (mpn_xor_neg (dig l) (dig r) (of_bool (neg l \<noteq> neg r)) (of_bool (\<not> neg l)) (of_bool (\<not> neg r)))
      (sgn_val (neg l \<noteq> neg r) (mpz_val l XOR mpz_val r)) (length (dig l) + of_bool (neg l \<noteq> neg r))"
    unfolding mpz_val_def by (rule mpn_xor_neg_ok [OF m(1)]) (use ok mpz_ok_neg in auto)
  show ?thesis
  proof (cases "neg l = neg r")
    case True
    obtain v where v: "mpn_xor (dig l) (dig r) = Some v" "mpn_ok v (mval (dig l) XOR mval (dig r)) (length (dig l))"
      using mpn_xor_ok [OF m(1)] by blast
    show ?thesis
      using True lr ok(3) w v(1) mpz_need_put(2) [OF v(2) order_refl assms(3), of False]
        mpz_need_put(2) [OF w _ assms(3), of "length (dig l)" False]
      by (cases "neg l") (simp_all add: mpz_xor_inpl_def mpz_val_def)
  next
    case False
    have "mpz_val l XOR mpz_val r < 0"
      using False mpz_ok_neg [OF ok(1)] mpz_ok_neg [OF ok(2)] mval_nonneg [of "dig l"] mval_nonneg [of "dig r"]
      by (cases "neg l"; cases "neg r") (auto simp: mpz_val_def)
    then have nz: "mpz_val l XOR mpz_val r \<noteq> 0" by (rule less_imp_neq)
    have "mpz_canonical (Option.bind (mpz_need_dig dest (length (dig l) + 1)) (\<lambda>d. mpz_put d
        (mpn_xor_neg (dig l) (dig r) (of_bool (neg l \<noteq> neg r)) (of_bool (\<not> neg l)) (of_bool (\<not> neg r))) True))
        (sgn_val True (sgn_val (neg l \<noteq> neg r) (mpz_val l XOR mpz_val r)))"
      by (rule mpz_need_put(2) [OF w _ assms(3)]) (use False nz in \<open>simp_all add: sgn_val_def\<close>)
    then show ?thesis
      using False lr ok(3) by (cases "neg r") (simp_all add: mpz_xor_inpl_def)
  qed
qed

lemma mpz_shl_ok:
  assumes "mpz_ok lhs" and "\<not> fixed_dig dest"
  shows "mpz_canonical (mpz_shl_inpl dest lhs rhs) (mpz_val lhs * 2 ^ rhs)"
proof (cases "dig lhs = [] \<or> rhs = 0")
  case True
  then have e: "mpz_val lhs * 2 ^ rhs = mpz_val lhs" by (auto simp: mpz_val_def sgn_val_def)
  show ?thesis unfolding e using True mpz_set_ok [OF assms] by (simp add: mpz_shl_inpl_def del: mpz_set)
next
  case False
  then have "0 < rhs" by simp
  note w = mpn_shl_ok [OF this, of "dig lhs"]
  have pos: "0 < mval (dig lhs)"
    using False assms(1) by (intro mval_pos) (auto simp: mpz_ok_def mpz_wf_def)
  have v: "mpz_val lhs * 2 ^ rhs = sgn_val (neg lhs) (mval (dig lhs) * 2 ^ rhs)"
    by (simp add: mpz_val_def sgn_val_def)
  have "(rhs + DIG_SIZE - 1) div DIG_SIZE = (rhs + 15) div 16" by (simp add: DIG_SIZE_def)
  then show ?thesis
    using False mpz_need_put(2) [OF w order_refl assms(2), of "neg lhs"] pos
    by (simp add: mpz_shl_inpl_def v)
qed

lemma mval_take_zero: "list_ex (\<lambda>d. d \<noteq> 0) ds \<longleftrightarrow> mval ds \<noteq> 0"
  by (auto simp: mval_zero_iff list_ex_iff)

lemma mask_low_bits:
  fixes d :: mpz_dig_t
  assumes "p < 16"
  shows "(d AND (push_bit p 1 - 1) \<noteq> 0) \<longleftrightarrow> uint d mod 2 ^ p \<noteq> 0"
proof -
  have e: "d AND (push_bit p 1 - 1) = take_bit p d"
    by (simp add: take_bit_eq_mask mask_eq_exp_minus_1 push_bit_eq_mult)
  have "uint (take_bit p d) = uint d mod 2 ^ p"
    by (simp only: unsigned_take_bit_eq) (simp add: take_bit_eq_mod)
  then show ?thesis by (simp only: e word_uint_eq_iff uint_0_eq simp_thms)
qed

text \<open>The digits below the shift are not all zero exactly when the division leaves a remainder.\<close>

lemma shr_round_up: "shr_round_up ds n \<longleftrightarrow> mval ds mod 2 ^ n \<noteq> 0"
proof -
  define w p where "w = n div 16" and "p = n mod 16"
  have n: "n = 16 * w + p" "p < 16" by (simp_all add: w_def p_def)
  have B: "(2 :: int) ^ n = 65536 ^ w * 2 ^ p" by (simp add: n(1) power_add power_mult)
  have lo: "list_ex (\<lambda>d. d \<noteq> 0) (take w ds) \<longleftrightarrow> mval (take w ds) \<noteq> 0" by (rule mval_take_zero)
  show ?thesis
  proof (cases "w < length ds")
    case True
    then have "drop w ds = ds ! w # drop (Suc w) ds" by (simp add: Cons_nth_drop_Suc)
    with True have split: "mval ds = mval (take w ds) + 65536 ^ w * (uint (ds ! w) + 65536 * mval (drop (Suc w) ds))"
      using mval_append [of "take w ds" "drop w ds", unfolded append_take_drop_id] by simp
    have "mval ds mod (65536 ^ w * 2 ^ p)
        = 65536 ^ w * ((mval ds div 65536 ^ w) mod 2 ^ p) + mval ds mod 65536 ^ w"
      by (rule zmod_zmult2_eq) simp
    also have "mval ds mod 65536 ^ w = mval (take w ds)"
      using split mval_nonneg [of "take w ds"] mval_bound [of "take w ds"] True by simp
    also have "mval ds div 65536 ^ w = uint (ds ! w) + 65536 * mval (drop (Suc w) ds)"
      using split mval_nonneg [of "take w ds"] mval_bound [of "take w ds"] True by simp
    also have "(uint (ds ! w) + 65536 * mval (drop (Suc w) ds)) mod 2 ^ p = uint (ds ! w) mod 2 ^ p"
    proof -
      have "(65536 :: int) = 2 ^ (16 - p) * 2 ^ p" using n(2) by (simp flip: power_add)
      then have "uint (ds ! w) + 65536 * mval (drop (Suc w) ds)
          = uint (ds ! w) + (2 ^ (16 - p) * mval (drop (Suc w) ds)) * 2 ^ p" by simp
      then show ?thesis by (simp only: mod_mult_self1)
    qed
    finally have m: "mval ds mod 2 ^ n = 65536 ^ w * (uint (ds ! w) mod 2 ^ p) + mval (take w ds)"
      by (simp only: B)
    have "0 \<le> (65536 :: int) ^ w * (uint (ds ! w) mod 2 ^ p)" by simp
    then have "mval ds mod 2 ^ n \<noteq> 0 \<longleftrightarrow> uint (ds ! w) mod 2 ^ p \<noteq> 0 \<or> mval (take w ds) \<noteq> 0"
      unfolding m using mval_nonneg [of "take w ds"] by (simp add: add_nonneg_eq_0_iff)
    then show ?thesis
      using True lo mask_low_bits [OF n(2), of "ds ! w"]
      by (auto simp: shr_round_up_def Let_def DIG_SIZE_def simp flip: w_def p_def)
  next
    case False
    have "mval ds < 2 ^ n"
    proof -
      have "mval ds < 65536 ^ length ds" by (rule mval_bound)
      also have "\<dots> \<le> 65536 ^ w" using False by (intro power_increasing) simp_all
      also have "\<dots> \<le> 65536 ^ w * 2 ^ p" by simp
      finally show ?thesis by (simp only: B)
    qed
    then show ?thesis
      using False lo mval_nonneg [of ds]
      by (simp add: shr_round_up_def Let_def DIG_SIZE_def flip: w_def p_def)
  qed
qed

lemma mpn_add_cells: "mpn_add j k = Some r \<Longrightarrow> snd r = length (fst r)"
  by (auto simp: mpn_add_def Let_def split: if_splits)

lemma neg_floor: "(- v) div 2 ^ n = - (v div 2 ^ n + (if v mod 2 ^ n = 0 then 0 else 1))" for v :: int
  by (simp add: zdiv_zminus1_eq_if)

lemma mpz_shr_ok:
  assumes "mpz_ok lhs" and "\<not> fixed_dig dest"
  shows "mpz_canonical (mpz_shr_inpl False dest lhs rhs) (mpz_val lhs div 2 ^ rhs)"
proof (cases "dig lhs = [] \<or> rhs = 0")
  case True
  then have e: "mpz_val lhs div 2 ^ rhs = mpz_val lhs" by (auto simp: mpz_val_def sgn_val_def)
  show ?thesis unfolding e using True mpz_set_ok [OF assms] by (simp add: mpz_shr_inpl_def del: mpz_set)
next
  case False
  have n: "normalised (dig lhs)" using assms(1) by (simp add: mpz_ok_def mpz_wf_def)
  note w = mpn_shr_ok [OF n, of rhs]
  let ?r = "mpn_shr (dig lhs) rhs" and ?q = "mval (dig lhs) div 2 ^ rhs"
  let ?al = "max (alloc dest) (max (length (dig lhs)) 2)"
  have r: "normalised (mpn_digits ?r)" "mval (mpn_digits ?r) = ?q" "length (fst ?r) \<le> length (dig lhs)"
    "length (mpn_digits ?r) \<le> length (dig lhs)"
    using w by (auto simp: mpn_ok_def mpn_digits_def)
  have pos: "0 < mval (dig lhs)" using False by (intro mval_pos n) simp
  have run: "mpz_shr_inpl False dest lhs rhs = (let d = dest\<lparr>alloc := ?al, dig := mpn_digits ?r, neg := neg lhs\<rparr> in
    if neg lhs \<and> shr_round_up (dig lhs) rhs
    then (if mpn_digits ?r = [] then mpz_put d ([1], 1) True
          else do { r \<leftarrow> mpn_add (mpn_digits ?r) [1]; mpz_put d r True }) else Some d)"
    using False assms(2) r(3) by (simp add: mpz_shr_inpl_def mpz_need_dig mpz_put_def Let_def le_max_iff_disj)
  have le: "2 * ?q \<le> mval (dig lhs)"
  proof -
    have "(2 :: int) ^ 1 \<le> 2 ^ rhs" using False by (intro power_increasing) auto
    then have "?q * 2 \<le> ?q * 2 ^ rhs" using pos by (intro mult_left_mono) (simp_all add: pos_imp_zdiv_nonneg_iff)
    also have "\<dots> \<le> mval (dig lhs)" by (simp flip: minus_mod_eq_div_mult)
    finally show ?thesis by simp
  qed
  show ?thesis
  proof (cases "neg lhs \<and> shr_round_up (dig lhs) rhs")
    case up: True
    then have v: "mpz_val lhs div 2 ^ rhs = - (?q + 1)"
      by (simp add: mpz_val_def neg_floor shr_round_up)
    show ?thesis
    proof (cases "mpn_digits ?r = []")
      case True
      then have "?q = 0" using r(2) by simp
      then show ?thesis
        using up True v mpz_put(2) [OF mpn_ok_one, of "dest\<lparr>alloc := ?al, dig := [], neg := True\<rparr>" True] assms(2)
        by (simp add: run Let_def)
    next
      case nonempty: False
      have len: "length [1 :: mpz_dig_t] \<le> length (mpn_digits ?r)" using nonempty by (simp add: Suc_le_eq)
      obtain a where a: "mpn_add (mpn_digits ?r) [1] = Some a" "mpn_ok a (?q + 1) (Suc (length (mpn_digits ?r)))"
        using mpn_add_ok [OF r(1) len] r(2) by auto
      have q1: "1 \<le> ?q" using mval_pos [OF r(1) nonempty] r(2) by simp
      have "?q + 1 < 65536 ^ length (dig lhs)" using le q1 mval_bound [of "dig lhs"] by linarith
      then have cells: "length (fst a) \<le> length (dig lhs)"
        using a mpn_add_cells [OF a(1)] by (intro normalised_length) (simp_all add: mpn_ok_def mpn_digits_def)
      then have "mpn_ok a (?q + 1) (length (dig lhs))" using a(2) by (simp add: mpn_ok_def)
      then show ?thesis
        using up nonempty v q1 a(1) mpz_put(2) [of a "?q + 1" "length (dig lhs)"
            "dest\<lparr>alloc := ?al, dig := mpn_digits ?r, neg := True\<rparr>" True] assms(2)
        by (simp add: run Let_def)
    qed
  next
    case False
    have "neg lhs \<Longrightarrow> ?q \<noteq> 0"
      using False pos mod_div_mult_eq [of "mval (dig lhs)" "2 ^ rhs"] by (auto simp: shr_round_up)
    moreover have "mpz_val lhs div 2 ^ rhs = sgn_val (neg lhs) ?q"
      using False by (auto simp: mpz_val_def sgn_val_def neg_floor shr_round_up)
    ultimately show ?thesis
      using False r assms(2)
      by (auto simp: run Let_def mpz_canonical_def mpz_ok_def mpz_wf_def mpz_val_def le_max_iff_disj)
  qed
qed

lemma mpz_minus_one: "mpz_init_from_int (- 1) = Some \<lparr>neg = True, fixed_dig = False, alloc = 2, dig = [1]\<rparr>"
  by code_simp

lemma mpz_one: "\<not> fixed_dig z \<Longrightarrow> mpz_set_from_int z 1
    = Some (z\<lparr>alloc := max (alloc z) 2, dig := [1], neg := False\<rparr>)"
proof -
  have "word_digits MPZ_NUM_DIG_FOR_INT (1 :: u32) = [1]" by code_simp
  moreover have "sint (1 :: u32) = 1" by simp
  ultimately show "\<not> fixed_dig z \<Longrightarrow> ?thesis"
    by (simp add: mpz_set_from_int_def MPZ_NUM_DIG_FOR_INT_def mpz_need_dig mpz_put_def mpn_digits_def Let_def)
qed

text \<open>What the divisions of the magnitudes give for the signed ones.\<close>

lemma floor_signs:
  fixes l r :: int
  assumes "0 < r"
  shows "sgn_val a l div sgn_val b r = (if a = b then l div r else if l mod r = 0 then - (l div r) else - (l div r) - 1)"
    and "sgn_val a l mod sgn_val b r = (if a = b \<or> l mod r = 0 then sgn_val a (l mod r) else sgn_val a (l mod r) + sgn_val b r)"
proof -
  have d: "(- l) div (- r) = l div r" "(- l) mod (- r) = - (l mod r)" by simp_all
  have r: "r \<noteq> 0" using assms by simp
  note m1 = zdiv_zminus1_eq_if [OF r, of l] zmod_zminus1_eq_if [of l r]
  note m2 = zdiv_zminus2_eq_if [OF r, of l] zmod_zminus2_eq_if [of l r]
  show "sgn_val a l div sgn_val b r = (if a = b then l div r else if l mod r = 0 then - (l div r) else - (l div r) - 1)"
    by (cases a; cases b) (simp_all only: sgn_val_simps d m1 m2 if_True if_False simp_thms)
  show "sgn_val a l mod sgn_val b r = (if a = b \<or> l mod r = 0 then sgn_val a (l mod r) else sgn_val a (l mod r) + sgn_val b r)"
    by (cases a; cases b; cases "l mod r = 0")
       (simp_all only: sgn_val_simps d m1 m2 if_True if_False simp_thms minus_zero)
qed

text \<open>
  The code never clears the sign of \<open>dest_quo\<close>, so the quotient is right for a destination without
  a sign; the remainder is right in any case.
\<close>

lemma mpz_divmod_any:
  assumes "mpz_wf lhs" and "mpz_wf rhs" and "dig rhs \<noteq> []" and "div_safe (dig rhs)"
    and "\<not> fixed_dig dest_quo" and "\<not> fixed_dig dest_rem"
  shows "\<exists>quo rem. mpz_divmod_inpl dest_quo dest_rem lhs rhs = Some (quo, rem) \<and> \<not> fixed_dig quo
    \<and> mpz_result (Some rem) (mpz_val lhs mod mpz_val rhs)
    \<and> (neg dest_quo \<longrightarrow> neg lhs \<noteq> neg rhs \<longrightarrow> mpz_result (Some quo) (mpz_val lhs div mpz_val rhs))
    \<and> (\<not> neg dest_quo \<longrightarrow> mpz_result (Some quo) (mpz_val lhs div mpz_val rhs))"
proof -
  note n = assms(1,2) [THEN mpz_wf_normalised]
  obtain r q where d: "mpn_div (dig lhs) (dig rhs) = Some (r, q)" "normalised r" "normalised q"
    "mval r = mval (dig lhs) mod mval (dig rhs)" "mval q = mval (dig lhs) div mval (dig rhs)"
    "length q \<le> length (dig lhs)"
    using mpn_div_ok [OF n assms(3,4)] by blast
  have pos: "0 < mval (dig rhs)" using n(2) assms(3) by (rule mval_pos)
  have rl: "length r \<le> length (dig lhs)"
  proof (rule normalised_length [OF d(2)])
    have "mval r \<le> mval (dig lhs)" using d(4) pos mval_nonneg [of "dig lhs"] by (simp add: zmod_le_nonneg_dividend)
    then show "mval r < 65536 ^ length (dig lhs)" using mval_bound [of "dig lhs"] by linarith
  qed
  define al where "al = (\<lambda>z :: mpz_t. max (alloc z) (max (length (dig lhs) + 1) 2))"
  define quo where "quo = dest_quo\<lparr>alloc := al dest_quo, dig := q, neg := neg dest_quo\<rparr>"
  define rem where "rem = dest_rem\<lparr>alloc := al dest_rem, dig := r, neg := neg lhs\<rparr>"
  have put: "mpn_digits (w, length w) = w" "mpn_digits ([], 0) = []" for w by (simp_all add: mpn_digits_def)
  have fit: "length q \<le> Suc (max (length (dig lhs)) (Suc 0))" "length r \<le> Suc (max (length (dig lhs)) (Suc 0))"
    using d(6) rl by simp_all
  have run: "mpz_divmod_inpl dest_quo dest_rem lhs rhs =
     (if neg lhs \<noteq> neg rhs then
        let quo = quo\<lparr>neg := True\<rparr>
        in if r \<noteq> [] then do {
             mpzone \<leftarrow> mpz_init_from_int (- 1);
             quo \<leftarrow> mpz_add_inpl quo quo mpzone;
             rem \<leftarrow> mpz_add_inpl rem rem rhs;
             Some (quo, rem) }
           else Some (quo, rem)
      else Some (quo, rem))"
    using assms(3,5,6) d(1) fit
    by (simp add: mpz_divmod_inpl_def mpz_is_zero_def mpz_need_dig mpz_put_def put Let_def quo_def rem_def al_def
        le_max_iff_disj max.assoc)
  have wf: "mpz_wf (quo\<lparr>neg := s\<rparr>)" "mpz_wf rem" for s
    using d(2,3,6) rl by (auto simp: mpz_wf_def quo_def rem_def al_def)
  have fx: "\<not> fixed_dig (quo\<lparr>neg := s\<rparr>)" "\<not> fixed_dig rem" for s
    using assms(5,6) by (simp_all add: quo_def rem_def)
  have val: "mpz_val (quo\<lparr>neg := s\<rparr>) = sgn_val s (mval (dig lhs) div mval (dig rhs))"
    "mpz_val rem = sgn_val (neg lhs) (mval (dig lhs) mod mval (dig rhs))" for s
    by (simp_all add: mpz_val_def quo_def rem_def d(4,5))
  have r0: "r = [] \<longleftrightarrow> mval (dig lhs) mod mval (dig rhs) = 0"
    using mval_zero_normalised [OF d(2)] d(4) by simp
  note fl = floor_signs [OF pos, of "neg lhs" "mval (dig lhs)" "neg rhs", folded mpz_val_def]
  show ?thesis
  proof (cases "neg lhs = neg rhs")
    case True
    have "quo = quo\<lparr>neg := False\<rparr>" if "\<not> neg dest_quo" using that by (simp add: quo_def)
    moreover have "\<not> fixed_dig quo" using assms(5) by (simp add: quo_def)
    ultimately show ?thesis
      using True wf(1) [of False] wf(2) fx(1) [of False] fx(2) val(1) [of False] val(2)
      by (auto simp: run fl mpz_result_def)
  next
    case False
    show ?thesis
    proof (cases "r = []")
      case True
      then show ?thesis
        using False wf(1) [of True] wf(2) fx(1) [of True] fx(2) val(1) [of True] val(2) r0
        by (simp add: run fl mpz_result_def Let_def)
    next
      case nz: False
      have one: "mpz_wf \<lparr>neg = True, fixed_dig = False, alloc = 2, dig = [1]\<rparr>"
        "mpz_val \<lparr>neg = True, fixed_dig = False, alloc = 2, dig = [1]\<rparr> = - 1"
        by (simp_all add: mpz_wf_def normalised_def mpz_val_def)
      obtain q' where q': "mpz_add_inpl (quo\<lparr>neg := True\<rparr>) (quo\<lparr>neg := True\<rparr>)
          \<lparr>neg = True, fixed_dig = False, alloc = 2, dig = [1]\<rparr> = Some q'"
        "mpz_result (Some q') (- (mval (dig lhs) div mval (dig rhs)) - 1)"
        using mpz_add_ok [OF wf(1) [of True] one(1) fx(1) [of True]] val(1) [of True] one(2)
        by (auto simp: mpz_result_def)
      obtain r' where r': "mpz_add_inpl rem rem rhs = Some r'" "mpz_result (Some r') (mpz_val rem + mpz_val rhs)"
        using mpz_add_ok [OF wf(2) assms(2) fx(2)] by (auto simp: mpz_result_def)
      show ?thesis
        using False nz q' r' val(2) r0
        by (auto simp: run fl mpz_minus_one Let_def mpz_result_def)
    qed
  qed
qed

definition divmod_result :: "(mpz_t \<times> mpz_t) option \<Rightarrow> int \<Rightarrow> int \<Rightarrow> bool" where
  "divmod_result r q m \<longleftrightarrow> (\<exists>quo rem. r = Some (quo, rem) \<and> mpz_result (Some quo) q \<and> mpz_result (Some rem) m)"

lemma mpz_divmod_ok:
  assumes "mpz_wf lhs" and "mpz_wf rhs" and "dig rhs \<noteq> []" and "div_safe (dig rhs)"
    and "\<not> fixed_dig dest_quo" and "\<not> fixed_dig dest_rem" and "\<not> neg dest_quo"
  shows "divmod_result (mpz_divmod_inpl dest_quo dest_rem lhs rhs) (mpz_val lhs div mpz_val rhs) (mpz_val lhs mod mpz_val rhs)"
  using mpz_divmod_any [OF assms(1-6)] assms(7) by (auto simp: divmod_result_def)

text \<open>Halving the exponent.\<close>

lemma halve_exponent:
  assumes "normalised n" and "n \<noteq> []"
  defines "n' \<equiv> mpn_digits (mpn_shr n 1)"
  shows "normalised n'" and "mval n' = mval n div 2" and "hd n AND 1 \<noteq> 0 \<longleftrightarrow> odd (mval n)" and "n' = [] \<longleftrightarrow> mval n = 1"
    and "mval n' < mval n"
proof -
  have "mpn_ok (mpn_shr n 1) (mval n div 2) (length n)" using mpn_shr_ok [OF assms(1), of 1] by simp
  then show nn: "normalised n'" and v: "mval n' = mval n div 2" by (simp_all add: mpn_ok_def n'_def)
  have pos: "0 < mval n" using assms(1,2) by (rule mval_pos)
  show "hd n AND 1 \<noteq> 0 \<longleftrightarrow> odd (mval n)"
  proof -
    have "d AND 1 \<noteq> 0 \<longleftrightarrow> odd (uint d)" for d :: mpz_dig_t
      using bit_iff_and_push_bit_not_eq_0 [of d 0] by (simp add: bit_uint_iff flip: bit_0)
    then show ?thesis using assms(2) by (cases n) simp_all
  qed
  show "n' = [] \<longleftrightarrow> mval n = 1" using mval_zero_normalised [OF nn] v pos by linarith
  show "mval n' < mval n" using v pos by simp
qed

lemma pow_halve: "x ^ nat m = (if odd m then x else 1) * (x * x) ^ nat (m div 2)" if "0 < m" for x m :: int
proof -
  define k where "k = nat m"
  have m: "nat m = k" "odd m \<longleftrightarrow> odd k" "nat (m div 2) = k div 2"
    using that by (simp_all add: k_def nat_div_distrib even_nat_iff)
  have "x ^ k = (if odd k then x else 1) * (x * x) ^ (k div 2)"
  proof (cases "odd k")
    case True
    then have k: "Suc (2 * (k div 2)) = k" by simp
    have "x ^ Suc (2 * (k div 2)) = x * (x ^ 2) ^ (k div 2)" by (simp only: power_Suc power_mult)
    then show ?thesis unfolding k using True by (simp add: power2_eq_square)
  next
    case False
    then have k: "2 * (k div 2) = k" by simp
    have "x ^ (2 * (k div 2)) = (x ^ 2) ^ (k div 2)" by (simp only: power_mult)
    then show ?thesis unfolding k using False by (simp add: power2_eq_square)
  qed
  then show ?thesis by (simp only: m)
qed

lemma mpz_pow_loop:
  "mpz_result (Some dest) d \<Longrightarrow> mpz_result (Some x) v \<Longrightarrow> normalised n \<Longrightarrow>
    mpz_result (mpz_pow_loop dest x n) (d * v ^ nat (mval n))"
proof (induction "nat (mval n)" arbitrary: dest d x v n rule: less_induct)
  case less
  show ?case
  proof (cases "n = []")
    case True
    then show ?thesis using less.prems(1) by (simp add: mpz_pow_loop.simps)
  next
    case False
    note h = halve_exponent [OF less.prems(3) False]
    have pos: "0 < mval n" using less.prems(3) False by (rule mval_pos)
    let ?d = "if hd n AND 1 \<noteq> 0 then mpz_mul_inpl dest dest x else Some dest"
    have wf: "mpz_wf dest" "mpz_wf x" "\<not> fixed_dig dest" "\<not> fixed_dig x" "mpz_val dest = d" "mpz_val x = v"
      using less.prems(1,2) by (auto simp: mpz_result_def)
    have "mpz_result ?d (d * (if odd (mval n) then v else 1))"
      using mpz_mul_ok [OF wf(1,2,3)] less.prems(1) h(3) wf(5,6) by simp
    then obtain dest' where dest': "?d = Some dest'" "mpz_result (Some dest') (d * (if odd (mval n) then v else 1))"
      by (auto simp: mpz_result_def)
    obtain x' where x': "mpz_mul_inpl x x x = Some x'" "mpz_result (Some x') (v * v)"
      using mpz_mul_ok [OF wf(2,2,4)] wf(6) by (auto simp: mpz_result_def)
    show ?thesis
    proof (cases "mpn_digits (mpn_shr n 1) = []")
      case True
      then have "mval n = 1" using h(4) by simp
      then show ?thesis
        using dest' False True by (subst mpz_pow_loop.simps) (simp add: Let_def)
    next
      case rest: False
      have "nat (mval (mpn_digits (mpn_shr n 1))) < nat (mval n)"
        using h(5) mval_nonneg [of "mpn_digits (mpn_shr n 1)"] by linarith
      from less.hyps [OF this dest'(2) x'(2) h(1)] have
        "mpz_result (mpz_pow_loop dest' x' (mpn_digits (mpn_shr n 1))) (d * v ^ nat (mval n))"
        by (simp only: h(2) pow_halve [OF pos] mult.assoc)
      then show ?thesis
        using dest'(1) False rest x'(1) by (subst mpz_pow_loop.simps) (simp add: Let_def)
    qed
  qed
qed

lemma mpz_pow_ok:
  assumes "mpz_wf lhs" and "mpz_wf rhs" and "dig lhs \<noteq> []" and "\<not> neg rhs" and "\<not> fixed_dig dest"
  shows "mpz_result (mpz_pow_inpl dest lhs rhs) (mpz_val lhs ^ nat (mpz_val rhs))"
proof -
  have one: "mpz_result (Some (dest\<lparr>alloc := max (alloc dest) 2, dig := [1], neg := False\<rparr>)) 1"
    using assms(5) by (simp add: mpz_result_def mpz_wf_def normalised_def mpz_val_def)
  have x: "mpz_result (Some (mpz_clone lhs)) (mpz_val lhs)"
    using assms(1) by (simp add: mpz_result_def mpz_clone_def mpz_wf_def mpz_val_def)
  have v: "mpz_val rhs = mval (dig rhs)" using assms(4) by (simp add: mpz_val_def)
  show ?thesis
    using mpz_pow_loop [OF one x mpz_wf_normalised [OF assms(2)]] one assms(3-5)
    by (simp add: mpz_pow_inpl_def mpz_one v)
qed

lemma mpz_pow3_loop:
  assumes m: "mpz_wf m" "dig m \<noteq> []" "div_safe (dig m)"
  shows "\<not> fixed_dig quo \<Longrightarrow> mpz_result (Some dest) d \<Longrightarrow> mpz_result (Some x) v \<Longrightarrow> normalised n \<Longrightarrow> n \<noteq> [] \<Longrightarrow>
    mpz_result (mpz_pow3_loop quo dest x n m) (d * v ^ nat (mval n) mod mpz_val m)"
proof (induction "nat (mval n)" arbitrary: quo dest d x v n rule: less_induct)
  case less
  note h = halve_exponent [OF less.prems(4,5)]
  have pos: "0 < mval n" using less.prems(4,5) by (rule mval_pos)
  have wf: "mpz_wf dest" "mpz_wf x" "\<not> fixed_dig dest" "\<not> fixed_dig x" "mpz_val dest = d" "mpz_val x = v"
    using less.prems(2,3) by (auto simp: mpz_result_def)
  let ?d = "d * (if odd (mval n) then v else 1)"
  let ?s = "if hd n AND 1 \<noteq> 0 then Option.bind (mpz_mul_inpl dest dest x) (\<lambda>dest. mpz_divmod_inpl quo dest dest m)
    else Some (quo, dest)"
  obtain quo' dest' d' where s: "?s = Some (quo', dest')" "\<not> fixed_dig quo'" "mpz_result (Some dest') d'"
    "d' mod mpz_val m = ?d mod mpz_val m" "odd (mval n) \<Longrightarrow> d' = ?d mod mpz_val m"
  proof (cases "hd n AND 1 \<noteq> 0")
    case True
    obtain y where y: "mpz_mul_inpl dest dest x = Some y" "mpz_wf y" "\<not> fixed_dig y" "mpz_val y = d * v"
      using mpz_mul_ok [OF wf(1,2,3)] wf(5,6) by (auto simp: mpz_result_def)
    obtain q r where "mpz_divmod_inpl quo y y m = Some (q, r)" "\<not> fixed_dig q"
      "mpz_result (Some r) (d * v mod mpz_val m)"
      using mpz_divmod_any [OF y(2) m less.prems(1) y(3)] y(4) by auto
    then show ?thesis using that True y(1) h(3) by simp
  next
    case False
    then show ?thesis using that [of quo dest d] less.prems(1,2) h(3) by simp
  qed
  show ?case
  proof (cases "mpn_digits (mpn_shr n 1) = []")
    case True
    then have "mval n = 1" using h(4) by simp
    then show ?thesis
      using s less.prems(5) True by (subst mpz_pow3_loop.simps) (simp add: Let_def)
  next
    case rest: False
    obtain y where y: "mpz_mul_inpl x x x = Some y" "mpz_wf y" "\<not> fixed_dig y" "mpz_val y = v * v"
      using mpz_mul_ok [OF wf(2,2,4)] wf(6) by (auto simp: mpz_result_def)
    obtain q x' where x': "mpz_divmod_inpl quo' y y m = Some (q, x')" "\<not> fixed_dig q"
      "mpz_result (Some x') (v * v mod mpz_val m)"
      using mpz_divmod_any [OF y(2) m s(2) y(3)] y(4) by auto
    have "nat (mval (mpn_digits (mpn_shr n 1))) < nat (mval n)"
      using h(5) mval_nonneg [of "mpn_digits (mpn_shr n 1)"] by linarith
    from less.hyps [OF this x'(2) s(3) x'(3) h(1) rest] have
      "mpz_result (mpz_pow3_loop q dest' x' (mpn_digits (mpn_shr n 1)) m)
        (d' * (v * v mod mpz_val m) ^ nat (mval n div 2) mod mpz_val m)"
      by (simp only: h(2))
    moreover have "d' * (v * v mod mpz_val m) ^ nat (mval n div 2) mod mpz_val m = d * v ^ nat (mval n) mod mpz_val m"
    proof -
      have "d' * (v * v mod mpz_val m) ^ nat (mval n div 2) mod mpz_val m
          = (d' mod mpz_val m) * (v * v) ^ nat (mval n div 2) mod mpz_val m"
        by (metis mod_mult_left_eq mod_mult_right_eq power_mod)
      also have "\<dots> = ?d * (v * v) ^ nat (mval n div 2) mod mpz_val m" unfolding s(4) by (simp add: mod_simps)
      finally show ?thesis by (simp only: pow_halve [OF pos] mult.assoc)
    qed
    moreover have "mpz_pow3_loop quo dest x n m = mpz_pow3_loop q dest' x' (mpn_digits (mpn_shr n 1)) m"
      using s(1) less.prems(5) rest y(1) x'(1) by (subst mpz_pow3_loop.simps) (simp add: Let_def)
    ultimately show ?thesis by simp
  qed
qed

lemma mpz_pow3_ok:
  assumes "mpz_wf lhs" and "mpz_wf rhs" and "dig lhs \<noteq> []" and "dig rhs \<noteq> []" and "\<not> neg rhs"
    and "mpz_wf m" and "dig m \<noteq> []" and "div_safe (dig m)" and "\<not> fixed_dig dest"
  shows "mpz_result (mpz_pow3_inpl dest lhs rhs m) (mpz_val lhs ^ nat (mpz_val rhs) mod mpz_val m)"
proof -
  have one: "mpz_result (Some (dest\<lparr>alloc := max (alloc dest) 2, dig := [1], neg := False\<rparr>)) 1"
    using assms(9) by (simp add: mpz_result_def mpz_wf_def normalised_def mpz_val_def)
  have x: "mpz_result (Some (mpz_clone lhs)) (mpz_val lhs)"
    using assms(1) by (simp add: mpz_result_def mpz_clone_def mpz_wf_def mpz_val_def)
  have "\<not> fixed_dig mpz_init_zero" by (simp add: mpz_init_zero_def)
  from mpz_pow3_loop [OF assms(6-8) this one x mpz_wf_normalised [OF assms(2)] assms(4)]
  show ?thesis
    using assms(3-5,9) by (simp add: mpz_pow3_inpl_def mpz_one mpz_val_def [of rhs])
qed

section \<open>The properties of the arithmetic\<close>

text \<open>Sum, difference and product: for all operands that keep the representation invariant, of either sign and
  with or without a signed zero, the operation returns a number that keeps it and has the exact
  value; the destination is never overrun.\<close>

theorem mpz_ring_operations:
  assumes "mpz_wf lhs" and "mpz_wf rhs" and "\<not> fixed_dig dest"
  shows "mpz_result (mpz_add_inpl dest lhs rhs) (mpz_val lhs + mpz_val rhs)
    \<and> mpz_result (mpz_sub_inpl dest lhs rhs) (mpz_val lhs - mpz_val rhs)
    \<and> mpz_result (mpz_mul_inpl dest lhs rhs) (mpz_val lhs * mpz_val rhs)"
  using mpz_add_ok [OF assms] mpz_sub_ok [OF assms] mpz_mul_ok [OF assms] by simp

lemmas mpz_eval = mpz_ok_def mpz_wf_def mpz_val_def normalised_def mpz_init_zero_def

theorem mpz_ring_operations_witness:
  "mpz_result (mpz_mul_inpl mpz_init_zero \<lparr>neg = True, fixed_dig = False, alloc = 2, dig = [0xFFFF, 1]\<rparr>
     \<lparr>neg = False, fixed_dig = False, alloc = 2, dig = [3]\<rparr>) (- 393213)"
  using mpz_ring_operations [of "\<lparr>neg = True, fixed_dig = False, alloc = 2, dig = [0xFFFF, 1]\<rparr>"
    "\<lparr>neg = False, fixed_dig = False, alloc = 2, dig = [3]\<rparr>" mpz_init_zero]
  by (simp add: mpz_eval)

text \<open>C13. Quotient and remainder round towards minus infinity, with the sign of the divisor, for every nonzero divisor
  the long division is safe for (one digit, or no shifted digit \<open>0xFFFF\<close>); the loops end.\<close>

theorem mpz_floor_division:
  assumes "mpz_wf lhs" and "mpz_wf rhs" and "dig rhs \<noteq> []" and "div_safe (dig rhs)"
    and "\<not> fixed_dig dest_quo" and "\<not> fixed_dig dest_rem" and "\<not> neg dest_quo"
  shows "divmod_result (mpz_divmod_inpl dest_quo dest_rem lhs rhs)
    (mpz_val lhs div mpz_val rhs) (mpz_val lhs mod mpz_val rhs)"
  by (rule mpz_divmod_ok [OF assms])

theorem mpz_floor_division_witness:
  "divmod_result (mpz_divmod_inpl mpz_init_zero mpz_init_zero
     \<lparr>neg = True, fixed_dig = False, alloc = 3, dig = [5, 0, 1]\<rparr> \<lparr>neg = False, fixed_dig = False, alloc = 2, dig = [7, 1]\<rparr>)
     (- 65530) 65489"
proof -
  have "div_safe [7, 1]" by code_simp
  then show ?thesis
    using mpz_floor_division [of "\<lparr>neg = True, fixed_dig = False, alloc = 3, dig = [5, 0, 1]\<rparr>"
      "\<lparr>neg = False, fixed_dig = False, alloc = 2, dig = [7, 1]\<rparr>" mpz_init_zero mpz_init_zero]
    by (simp add: mpz_eval)
qed

text \<open>And, or, exclusive or and complement act on the infinite two's complement of the operands, whatever their
  signs and lengths, and return a zero without a sign; the assertion in the or of negative numbers
  never fails.\<close>

theorem mpz_bitwise_operations:
  assumes "mpz_ok lhs" and "mpz_ok rhs" and "\<not> fixed_dig dest" and "\<not> fixed_dig lhs"
  shows "mpz_canonical (mpz_and_inpl dest lhs rhs) (mpz_val lhs AND mpz_val rhs)
    \<and> mpz_canonical (mpz_or_inpl dest lhs rhs) (mpz_val lhs OR mpz_val rhs)
    \<and> mpz_canonical (mpz_xor_inpl dest lhs rhs) (mpz_val lhs XOR mpz_val rhs)
    \<and> mpz_canonical (mpz_not_inpl alias dest lhs) (NOT (mpz_val lhs))"
  using mpz_and_ok [OF assms(1-3)] mpz_or_ok [OF assms(1-3)] mpz_xor_ok [OF assms(1-3)]
    mpz_not_ok [OF mpz_ok_wf [OF assms(1)] assms(3,4)] by simp

theorem mpz_bitwise_operations_witness:
  "mpz_canonical (mpz_xor_inpl mpz_init_zero \<lparr>neg = True, fixed_dig = False, alloc = 2, dig = [0, 1]\<rparr>
     \<lparr>neg = False, fixed_dig = False, alloc = 2, dig = [5]\<rparr>) (- 65531)"
  using mpz_bitwise_operations [of "\<lparr>neg = True, fixed_dig = False, alloc = 2, dig = [0, 1]\<rparr>"
    "\<lparr>neg = False, fixed_dig = False, alloc = 2, dig = [5]\<rparr>" mpz_init_zero True]
  by (simp add: mpz_eval)

text \<open>A zero with a sign, which adding a number to its opposite leaves (and a division with remainder zero),
  breaks the bitwise operations: its or with 5 is \<open>-65531\<close>.\<close>

theorem mpz_negative_zero:
  "\<exists>z. mpz_add_inpl mpz_init_zero \<lparr>neg = True, fixed_dig = False, alloc = 3, dig = [0, 0, 1]\<rparr>
       \<lparr>neg = False, fixed_dig = False, alloc = 3, dig = [0, 0, 1]\<rparr> = Some z
     \<and> mpz_val z = 0 \<and> neg z
     \<and> (\<exists>r. mpz_or_inpl mpz_init_zero z \<lparr>neg = False, fixed_dig = False, alloc = 2, dig = [5]\<rparr> = Some r
        \<and> mpz_val r = - 65531)"
proof -
  let ?z = "\<lparr>neg = True, fixed_dig = False, alloc = 3, dig = []\<rparr>"
  have "mpz_add_inpl mpz_init_zero \<lparr>neg = True, fixed_dig = False, alloc = 3, dig = [0, 0, 1]\<rparr>
    \<lparr>neg = False, fixed_dig = False, alloc = 3, dig = [0, 0, 1]\<rparr> = Some ?z" by code_simp
  moreover have "mpz_or_inpl mpz_init_zero ?z \<lparr>neg = False, fixed_dig = False, alloc = 2, dig = [5]\<rparr>
    = Some \<lparr>neg = True, fixed_dig = False, alloc = 2, dig = [0xFFFB]\<rparr>" by code_simp
  ultimately show ?thesis by (simp add: mpz_val_def)
qed

text \<open>Shifts: a shift to the left multiplies by the power of two, and one to the right into another object is the
  division that rounds towards minus infinity, for both signs and any count.\<close>

theorem mpz_shifts:
  assumes "mpz_ok lhs" and "\<not> fixed_dig dest"
  shows "mpz_canonical (mpz_shl_inpl dest lhs rhs) (mpz_val lhs * 2 ^ rhs)
    \<and> mpz_canonical (mpz_shr_inpl False dest lhs rhs) (mpz_val lhs div 2 ^ rhs)"
  using mpz_shl_ok [OF assms] mpz_shr_ok [OF assms] by simp

theorem mpz_shifts_witness:
  "mpz_canonical (mpz_shr_inpl False mpz_init_zero \<lparr>neg = True, fixed_dig = False, alloc = 2, dig = [1, 1]\<rparr> 16) (- 2)"
  using mpz_shifts [of "\<lparr>neg = True, fixed_dig = False, alloc = 2, dig = [1, 1]\<rparr>" mpz_init_zero 16]
  by (simp add: mpz_eval)

text \<open>The comment of \<open>mpz_shr_inpl\<close> allows the destination to be the operand: then it rounds the wrong way.\<close>

lemma mpz_shr_in_place:
  "mpz_shr_inpl True \<lparr>neg = True, fixed_dig = False, alloc = 2, dig = [5]\<rparr>
     \<lparr>neg = True, fixed_dig = False, alloc = 2, dig = [5]\<rparr> 1
   = Some \<lparr>neg = True, fixed_dig = False, alloc = 2, dig = [2]\<rparr>"
  by code_simp

text \<open>Powers: the square-and-multiply loops end and compute the power of a nonzero number to a natural exponent,
  and the power modulo a nonzero modulus, with the sign of the modulus.\<close>

theorem mpz_powers:
  assumes "mpz_wf lhs" and "mpz_wf rhs" and "dig lhs \<noteq> []" and "dig rhs \<noteq> []" and "\<not> neg rhs"
    and "mpz_wf m" and "dig m \<noteq> []" and "div_safe (dig m)" and "\<not> fixed_dig dest"
  shows "mpz_result (mpz_pow_inpl dest lhs rhs) (mpz_val lhs ^ nat (mpz_val rhs))
    \<and> mpz_result (mpz_pow3_inpl dest lhs rhs m) (mpz_val lhs ^ nat (mpz_val rhs) mod mpz_val m)"
  using mpz_pow_ok [OF assms(1-3,5,9)] mpz_pow3_ok [OF assms] by simp

theorem mpz_powers_witness:
  "mpz_result (mpz_pow3_inpl mpz_init_zero \<lparr>neg = True, fixed_dig = False, alloc = 2, dig = [3]\<rparr>
     \<lparr>neg = False, fixed_dig = False, alloc = 2, dig = [5]\<rparr> \<lparr>neg = False, fixed_dig = False, alloc = 2, dig = [100]\<rparr>) 57"
proof -
  have "div_safe [100]" by code_simp
  then show ?thesis
    using mpz_powers [of "\<lparr>neg = True, fixed_dig = False, alloc = 2, dig = [3]\<rparr>"
      "\<lparr>neg = False, fixed_dig = False, alloc = 2, dig = [5]\<rparr>" "\<lparr>neg = False, fixed_dig = False, alloc = 2, dig = [100]\<rparr>" mpz_init_zero]
    by (simp add: mpz_eval)
qed

text \<open>The power of zero to the zero, which is 1 in Python, is 0.\<close>

lemma mpz_pow_zero_zero: "mpz_pow_inpl mpz_init_zero mpz_init_zero mpz_init_zero = Some mpz_init_zero"
  by code_simp

text \<open>The comparison has the sign of the difference, a zero with a sign included.\<close>

theorem mpz_comparison:
  assumes "mpz_wf z1" and "mpz_wf z2"
  shows "sgn (mpz_cmp z1 z2) = sgn (mpz_val z1 - mpz_val z2)"
  by (rule mpz_cmp_ok [OF assms])

theorem mpz_comparison_witness:
  "sgn (mpz_cmp \<lparr>neg = True, fixed_dig = False, alloc = 2, dig = [2]\<rparr> \<lparr>neg = True, fixed_dig = False, alloc = 2, dig = []\<rparr>) = - 1"
  using mpz_comparison [of "\<lparr>neg = True, fixed_dig = False, alloc = 2, dig = [2]\<rparr>"
    "\<lparr>neg = True, fixed_dig = False, alloc = 2, dig = []\<rparr>"]
  by (simp add: mpz_eval)

end
