(* ===== verification/Py_Mpz_Text.thy ===== *)
theory Py_Mpz_Text
  imports Py_Mpz
begin

text \<open>
  The way between the integers of \<open>Py_Mpz\<close> and machine words, bytes and text: the remaining
  functions of \<open>py/mpz.c\<close> (\<open>mpz_hash\<close> to \<open>mpz_as_str_inpl\<close>).  Characters are bytes.  What is
  written outside a buffer is \<open>None\<close>.
\<close>

section \<open>Machine words\<close>

definition push_digit :: "mpz_dig_t \<Rightarrow> u32 \<Rightarrow> u32" where
  "push_digit d val = push_bit DIG_SIZE val OR ucast d"

text \<open>
  The accumulator of \<open>mpz_hash\<close> is a signed integer.  Its shifts and its negation are those of the words, as the compiler of
  the port defines signed shifts that leave the type; the standard of C leaves them undefined.
\<close>

definition mpz_hash :: "mpz_t \<Rightarrow> u32" where
  "mpz_hash z =
     (let val = fold push_digit (rev (dig z)) 0 in if neg z then - val else val)"

text \<open>The largest value a further digit may be pushed onto.\<close>

fun as_checked_loop :: "u32 \<Rightarrow> mpz_dig_t list \<Rightarrow> u32 \<Rightarrow> u32 option" where
  "as_checked_loop limit [] val = Some val"
| "as_checked_loop limit (d # ds) val =
     (if limit < val then None else as_checked_loop limit ds (push_digit d val))"

definition WORD_MSBIT_HIGH :: u32 where "WORD_MSBIT_HIGH = 0x80000000"

definition mpz_as_int_checked :: "mpz_t \<Rightarrow> u32 option" where
  "mpz_as_int_checked i = do {
     val \<leftarrow> as_checked_loop (drop_bit DIG_SIZE (NOT WORD_MSBIT_HIGH)) (rev (dig i)) 0;
     Some (if neg i then - val else val) }"

definition mpz_as_uint_checked :: "mpz_t \<Rightarrow> u32 option" where
  "mpz_as_uint_checked i =
     (if neg i then None
      else as_checked_loop (drop_bit (DIG_SIZE - 1) (NOT WORD_MSBIT_HIGH)) (rev (dig i)) 0)"

section \<open>Bytes\<close>

text \<open>One byte of a digit, negated with a carry where the number is negative.\<close>

definition byte_out :: "bool \<Rightarrow> mpz_dbl_dig_t \<Rightarrow> mpz_dbl_dig_t \<Rightarrow> u8 \<times> mpz_dbl_dig_t" where
  "byte_out s d carry =
     (let val = (ucast d :: mpz_dig_t)
      in if s then (let val = (NOT val AND 0xFF) + ucast carry in (ucast val, ucast (drop_bit 8 val)))
         else (ucast val, carry))"

fun as_bytes_stream :: "bool \<Rightarrow> mpz_dbl_dig_t \<Rightarrow> mpz_dbl_dig_t \<Rightarrow> mpz_dig_t list \<Rightarrow> u8 list" where
  "as_bytes_stream s carry d [] = []"
| "as_bytes_stream s carry d (x # xs) =
     (let d = push_bit DIG_SIZE d OR ucast x;
          (b0, carry) = byte_out s d carry;
          d = drop_bit 8 d;
          (b1, carry) = byte_out s d carry
      in b0 # b1 # as_bytes_stream s carry (drop_bit 8 d) xs)"

text \<open>Byte \<open>k\<close> goes to its place from either end; the loop returns once the buffer is full.\<close>

fun store_bytes :: "bool \<Rightarrow> u8 list \<Rightarrow> nat \<Rightarrow> u8 list \<Rightarrow> u8 list option" where
  "store_bytes big_endian buf k [] = Some buf"
| "store_bytes big_endian buf k (b # bs) =
     (if k < length buf
      then (let buf = buf[(if big_endian then length buf - 1 - k else k) := b]
            in if Suc k = length buf then Some buf else store_bytes big_endian buf (Suc k) bs)
      else None)"

definition mpz_as_bytes :: "mpz_t \<Rightarrow> bool \<Rightarrow> u8 list \<Rightarrow> u8 list option" where
  "mpz_as_bytes z big_endian buf =
     store_bytes big_endian buf 0 (as_bytes_stream (neg z) 1 0 (dig z))"

section \<open>Text\<close>

text \<open>Dividing the digits by the base, from the top: the quotients and the remainder.\<close>

fun short_div :: "u32 \<Rightarrow> mpz_dbl_dig_t \<Rightarrow> mpz_dig_t list \<Rightarrow> mpz_dig_t list \<times> mpz_dbl_dig_t" where
  "short_div base a [] = ([], a)"
| "short_div base a (d # ds) =
     (let a = push_bit DIG_SIZE a OR ucast d;
          (qs, r) = short_div base (a mod base) ds
      in (ucast (a div base) # qs, r))"

definition digit_char :: "u8 \<Rightarrow> mpz_dbl_dig_t \<Rightarrow> u8" where
  "digit_char base_char a =
     (let a = a + 48 in ucast (if 57 < a then a + (ucast base_char - 57 - 1) else a))"

partial_function (option) as_str_loop :: "u32 \<Rightarrow> u8 \<Rightarrow> u8 \<Rightarrow> mpz_dig_t list \<Rightarrow> u8 list \<Rightarrow> nat \<Rightarrow> u8 list option" where
  "as_str_loop base base_char comma ds s last_comma =
     (let (qs, a) = short_div base 0 (rev ds);
          s = s @ [digit_char base_char a];
          done = list_all (\<lambda>d. d = 0) qs;
          (s, last_comma) =
            (if comma \<noteq> 0 \<and> length s - last_comma = 3 then (s @ [comma], length s + 1) else (s, last_comma))
      in if done then Some s else as_str_loop base base_char comma (rev qs) s last_comma)"

declare as_str_loop.simps [code]

text \<open>The digits come lowest first; prefix and sign are added and the string is reversed.\<close>

definition mpz_as_str_inpl :: "mpz_t \<Rightarrow> u32 \<Rightarrow> u8 list \<Rightarrow> u8 \<Rightarrow> u8 \<Rightarrow> u8 list option" where
  "mpz_as_str_inpl i base prefix base_char comma =
     (if base < 2 \<or> 32 < base then Some []
      else if dig i = [] then Some (prefix @ [48])
      else do {
        s \<leftarrow> as_str_loop base base_char comma (dig i) [] 0;
        Some (rev (s @ rev prefix @ (if neg i then [45] else []))) })"

section \<open>Words: correctness\<close>

lemma uint_push_digit: "uint val < 65536 \<Longrightarrow> uint (push_digit d val) = uint val * 65536 + uint d"
proof -
  assume "uint val < 65536"
  then have "ucast (ucast val :: mpz_dig_t) = val"
    by (simp add: word_uint_eq_iff uint_ucast_dig uint_ucast_small)
  then show ?thesis
    using uint_double_digit [of "ucast val" d] \<open>uint val < 65536\<close>
    by (simp only: push_digit_def DIG_SIZE_def uint_ucast_small)
qed

lemma push_digit_word: "push_digit d val = val * 65536 + word_of_int (uint d)"
proof -
  have "push_digit d val = push_bit 16 val + ucast d"
    unfolding push_digit_def DIG_SIZE_def
    by (rule disjunctive_add [symmetric]) (auto simp: bit_simps dest: bit_imp_le_length)
  then show ?thesis by (simp add: push_bit_eq_mult)
qed

lemma fold_push_digit:
  "fold push_digit (rev ds) val = val * 65536 ^ length ds + word_of_int (mval ds)"
  by (induction ds arbitrary: val rule: rev_induct)
     (simp_all add: push_digit_word mval_append algebra_simps)

lemma mpz_hash_value: "mpz_hash z = word_of_int (mpz_val z)"
  by (simp add: mpz_hash_def fold_push_digit mpz_val_def Let_def)

lemma as_checked_loop:
  assumes "uint limit < 65536"
  shows "uint val < 4294967296 \<Longrightarrow> as_checked_loop limit (rev ds) val =
    (let t = uint val * 65536 ^ length ds + mval ds
     in if ds = [] \<or> t < (uint limit + 1) * 65536 then Some (word_of_int t) else None)"
proof (induction ds arbitrary: val rule: rev_induct)
  case Nil
  then show ?case by simp
next
  case (snoc d ds)
  have len: "(65536 :: int) ^ length (ds @ [d]) = 65536 * 65536 ^ length ds" by simp
  show ?case
  proof (cases "limit < val")
    case True
    then have "uint limit + 1 \<le> uint val" by (simp add: word_less_def)
    then have "(uint limit + 1) * 65536 * 1 \<le> uint val * 65536 * 65536 ^ length ds"
      by (intro mult_mono) simp_all
    moreover have "0 \<le> mval (ds @ [d])" by (rule mval_nonneg)
    ultimately have "\<not> uint val * 65536 ^ length (ds @ [d]) + mval (ds @ [d]) < (uint limit + 1) * 65536"
      unfolding len by simp
    then show ?thesis using True by (simp add: Let_def)
  next
    case False
    then have small: "uint val \<le> uint limit" by (simp add: word_le_def not_less)
    then have p: "uint (push_digit d val) = uint val * 65536 + uint d"
      using assms by (intro uint_push_digit) simp
    have t: "uint (push_digit d val) * 65536 ^ length ds + mval ds
        = uint val * 65536 ^ length (ds @ [d]) + mval (ds @ [d])"
      by (simp add: p mval_append algebra_simps)
    have b: "uint (push_digit d val) < 4294967296" using uint_bounded [of "push_digit d val"] by simp
    have "uint val * 65536 + uint d < (uint limit + 1) * 65536"
      using small uint_dig(2) [of d] by simp
    then show ?thesis
      using False snoc.IH [OF b] unfolding t by (auto simp: Let_def)
  qed
qed

text \<open>The conversions to machine words: the checked conversion to \<open>mp_int_t\<close> returns the number exactly when its
  magnitude is below \<open>2 ^ 31\<close>, the one to \<open>mp_uint_t\<close> exactly when it carries no sign and is below
  \<open>2 ^ 32\<close>, and otherwise they report overflow; the hash is the number modulo \<open>2 ^ 32\<close>.\<close>

theorem mpz_to_machine_words:
  "mpz_as_int_checked z = (if \<bar>mpz_val z\<bar> < 2 ^ 31 then Some (word_of_int (mpz_val z)) else None)
   \<and> mpz_as_uint_checked z
     = (if neg z then None else if mpz_val z < 2 ^ 32 then Some (word_of_int (mpz_val z)) else None)
   \<and> mpz_hash z = word_of_int (mpz_val z)"
proof -
  have lim: "drop_bit DIG_SIZE (NOT WORD_MSBIT_HIGH) = 0x7FFF"
    "drop_bit (DIG_SIZE - Suc 0) (NOT WORD_MSBIT_HIGH) = 0xFFFF" by code_simp+
  have "\<bar>mpz_val z\<bar> = mval (dig z)"
    using mval_nonneg [of "dig z"] by (simp add: mpz_val_def sgn_val_def)
  then show ?thesis
    using as_checked_loop [of "0x7FFF" 0 "dig z"] as_checked_loop [of "0xFFFF" 0 "dig z"]
    by (simp add: mpz_as_int_checked_def mpz_as_uint_checked_def lim mpz_hash_value mpz_val_def sgn_val_def Let_def)
qed

section \<open>Bytes: correctness\<close>

fun bval :: "u8 list \<Rightarrow> int" where
  "bval [] = 0"
| "bval (b # bs) = uint b + 256 * bval bs"

lemma bval_append: "bval (xs @ ys) = bval xs + 256 ^ length xs * bval ys"
  by (induction xs) (simp_all add: algebra_simps)

lemma bval_bounds: "0 \<le> bval bs" "bval bs < 256 ^ length bs"
proof (induction bs)
  case (Cons b bs)
  have "uint b < 256" using uint_bounded [of b] by simp
  then show "0 \<le> bval (b # bs)" "bval (b # bs) < 256 ^ length (b # bs)" using Cons by simp_all
qed simp_all

lemma bval_zeros [simp]: "bval (replicate n 0) = 0"
  by (induction n) simp_all

lemma bval_take: "bval (take n bs) = bval bs mod 256 ^ n"
proof (cases "n \<le> length bs")
  case True
  then have "bval bs = bval (take n bs) + 256 ^ n * bval (drop n bs)"
    using bval_append [of "take n bs" "drop n bs"] by simp
  then show ?thesis using bval_bounds [of "take n bs"] True by simp
next
  case False
  then have "(256 :: int) ^ length bs \<le> 256 ^ n" by (intro power_increasing) simp_all
  then have "bval bs < 256 ^ n" using bval_bounds(2) [of bs] by linarith
  then show ?thesis using bval_bounds(1) [of bs] False by simp
qed

lemma uint_byte: "uint (b :: u8) < 256" "uint (ucast b :: mpz_dig_t) = uint b"
  using uint_bounded [of b] by (simp_all add: unsigned_ucast_eq take_bit_int_eq_self)

lemma uint_two_bytes: "uint (ucast (b :: u8) OR push_bit 8 (ucast (c :: u8)) :: mpz_dig_t) = uint b + 256 * uint c"
proof -
  have u: "uint (ucast x :: mpz_dig_t) = uint x" "uint x < 256" for x :: u8
    using uint_bounded [of x] by (simp_all add: unsigned_ucast_eq take_bit_int_eq_self)
  have "ucast b OR push_bit 8 (ucast c) = (ucast b + push_bit 8 (ucast c) :: mpz_dig_t)"
    by (rule disjunctive_add [symmetric]) (auto simp: bit_simps dest: bit_imp_le_length)
  moreover have "uint (push_bit 8 (ucast c) :: mpz_dig_t) = 256 * uint c"
    using u(2) [of c] by (simp add: push_bit_eq_mult uint_word_ariths u(1))
  ultimately show ?thesis
    using u [of b] u(2) [of c] by (simp add: uint_word_ariths)
qed

lemma from_bytes_loop: "mval (from_bytes_loop bs) = bval bs"
  by (induction bs rule: from_bytes_loop.induct)
     (simp_all add: uint_two_bytes uint_byte(2) algebra_simps)

lemma length_from_bytes: "length (from_bytes_loop bs) = (length bs + 1) div 2"
  by (induction bs rule: from_bytes_loop.induct) simp_all

lemma mpz_set_from_bytes_ok:
  "mpz_canonical (mpz_set_from_bytes mpz_init_zero big_endian bs) (bval (if big_endian then rev bs else bs))"
proof -
  let ?bs = "if big_endian then rev bs else bs"
  have len: "length (from_bytes_loop ?bs) \<le> (length bs * 8 + DIG_SIZE - 1) div DIG_SIZE"
    by (simp add: length_from_bytes DIG_SIZE_def)
  have "mpn_ok (mpn_trimmed (from_bytes_loop ?bs)) (bval ?bs) ((length bs * 8 + DIG_SIZE - 1) div DIG_SIZE)"
    using len by (intro mpn_ok_trimmed) (simp_all only: from_bytes_loop)
  from mpz_need_put(2) [OF this order_refl, of mpz_init_zero False]
  show ?thesis by (simp add: mpz_set_from_bytes_def mpz_init_zero_def Let_def)
qed

text \<open>The two bytes of a digit, as they are written.\<close>

lemma byte_out_pos: "byte_out False d carry = (ucast d, carry)"
  by (simp add: byte_out_def Let_def) (rule bit_word_eqI, auto simp: bit_simps)

lemma store_bytes_little:
  "k < length buf \<or> bs = [] \<Longrightarrow> store_bytes False buf k bs
    = Some (take k buf @ take (length buf - k) bs @ drop (k + length bs) buf)"
proof (induction bs arbitrary: buf k)
  case (Cons b bs)
  show ?case
  proof (cases "Suc k = length buf")
    case True
    then have "length buf - k = 1" by simp
    then show ?thesis using True by (simp add: Let_def upd_conv_take_nth_drop)
  next
    case False
    have "store_bytes False (buf[k := b]) (Suc k) bs
      = Some (take (Suc k) (buf[k := b]) @ take (length buf - Suc k) bs @ drop (Suc k + length bs) (buf[k := b]))"
      using Cons False by (subst Cons.IH) auto
    moreover have "take (Suc k) (buf[k := b]) = take k buf @ [b]"
      using Cons.prems by (simp add: take_Suc_conv_app_nth)
    moreover have "take (length buf - k) (b # bs) = b # take (length buf - Suc k) bs"
    proof -
      have "length buf - k = Suc (length buf - Suc k)" using Cons.prems by simp
      then show ?thesis by (simp only: take_Suc_Cons)
    qed
    ultimately show ?thesis using Cons.prems False by (simp add: Let_def)
  qed
qed simp

lemma store_bytes_big: "store_bytes True buf k bs = map_option rev (store_bytes False (rev buf) k bs)"
proof (induction bs arbitrary: buf k)
  case (Cons b bs)
  show ?case
  proof (cases "k < length buf")
    case True
    then have "rev (buf[length buf - Suc k := b]) = (rev buf)[k := b]"
      by (simp add: rev_update)
    then have "buf[length buf - Suc k := b] = rev ((rev buf)[k := b])" by (metis rev_rev_ident)
    then show ?thesis using Cons.IH [of "buf[length buf - Suc k := b]" "Suc k"] True by (simp add: Let_def)
  qed simp
qed simp

lemma uint_not8: "uint (NOT (d :: u8)) = 255 - uint d"
  using uint_byte(1) [of d]
  by (simp add: unsigned_not_eq take_bit_not_eq_mask_diff) (simp add: mask_eq_exp_minus_1 take_bit_int_eq_self)

lemma uint_low_byte: "uint (ucast (w :: mpz_dbl_dig_t) :: u8) = uint w mod 256"
  by (simp only: unsigned_ucast_eq) (simp add: take_bit_eq_mod)

lemma byte_out_neg:
  assumes "uint carry \<le> 1" and "byte_out True d carry = (b, carry')"
  shows "uint b + 256 * uint carry' = 255 - uint d mod 256 + uint carry" and "uint carry' \<le> 1"
proof -
  define v :: mpz_dig_t where "v = (NOT (ucast d) AND 0xFF) + ucast carry"
  have m: "uint (NOT (ucast d) AND 0xFF :: mpz_dig_t) = 255 - uint d mod 256"
  proof -
    have e: "(0xFF :: mpz_dig_t) = mask 8" by (simp add: mask_eq_exp_minus_1)
    have "NOT (ucast d) AND 0xFF = (ucast (NOT (ucast d :: u8)) :: mpz_dig_t)"
      unfolding e by (rule bit_word_eqI) (auto simp: bit_simps)
    moreover have "uint (NOT (ucast d :: u8)) = 255 - uint d mod 256"
      unfolding uint_not8 uint_low_byte ..
    ultimately show ?thesis by (simp only: uint_byte(2))
  qed
  have "0 \<le> uint d mod 256" "uint d mod 256 < 256" by simp_all
  then have v: "uint v = 255 - uint d mod 256 + uint carry"
    using assms(1) uint_ge_0 [of carry] m
    by (simp add: v_def uint_word_ariths uint_ucast_small)
  have le: "uint v \<le> 256" using v assms(1) \<open>0 \<le> uint d mod 256\<close> by linarith
  have b: "b = ucast v" "carry' = ucast (drop_bit 8 v)"
    using assms(2) by (simp_all add: byte_out_def Let_def v_def)
  have c: "uint carry' = uint v div 256"
    unfolding b(2) uint_ucast_dig by (simp only: uint_drop_bit) simp
  have "uint b = uint v mod 256" by (simp add: b(1) unsigned_ucast_eq take_bit_eq_mod)
  then show "uint b + 256 * uint carry' = 255 - uint d mod 256 + uint carry" using c v by simp
  show "uint carry' \<le> 1" using zdiv_mono1 [OF le, of 256] c by simp
qed

lemma as_bytes_stream_pos: "bval (as_bytes_stream False carry 0 ds) = mval ds \<and> length (as_bytes_stream False carry 0 ds) = 2 * length ds"
proof (induction ds)
  case (Cons x xs)
  have z: "drop_bit 8 (drop_bit 8 (ucast (x :: mpz_dig_t) :: mpz_dbl_dig_t)) = 0"
    by (rule bit_word_eqI) (auto simp: bit_simps dest: bit_imp_le_length)
  have "uint (ucast (ucast x :: mpz_dbl_dig_t) :: u8) + 256 * uint (ucast (drop_bit 8 (ucast x) :: mpz_dbl_dig_t) :: u8) = uint x"
  proof -
    have "uint x div 256 < 256" using uint_dig [of x] by (intro int_div_less) simp_all
    moreover have "0 \<le> uint x div 256" by (simp add: pos_imp_zdiv_nonneg_iff)
    moreover have "uint (drop_bit 8 (ucast x) :: mpz_dbl_dig_t) = uint x div 256"
      by (simp only: uint_drop_bit uint_ucast_dig) simp
    ultimately have "uint (ucast (drop_bit 8 (ucast x) :: mpz_dbl_dig_t) :: u8) = uint x div 256"
      by (simp only: unsigned_ucast_eq) (simp add: take_bit_int_eq_self)
    moreover have "uint (ucast (ucast x :: mpz_dbl_dig_t) :: u8) = uint x mod 256"
      by (simp only: uint_low_byte uint_ucast_dig)
    ultimately show ?thesis by simp
  qed
  then show ?case using Cons z by (simp add: byte_out_pos Let_def algebra_simps)
qed simp

lemma as_bytes_stream_neg:
  "uint carry \<le> 1 \<Longrightarrow> length (as_bytes_stream True carry 0 ds) = 2 * length ds
    \<and> (\<exists>c. bval (as_bytes_stream True carry 0 ds) + 65536 ^ length ds * c
      = 65536 ^ length ds - 1 - mval ds + uint carry)"
proof (induction ds arbitrary: carry)
  case Nil
  then show ?case by simp
next
  case (Cons x xs)
  let ?d = "ucast x :: mpz_dbl_dig_t"
  have z: "drop_bit 8 (drop_bit 8 ?d) = 0"
    by (rule bit_word_eqI) (auto simp: bit_simps dest: bit_imp_le_length)
  obtain b0 c0 where b0: "byte_out True ?d carry = (b0, c0)" by fastforce
  note s0 = byte_out_neg [OF Cons.prems b0]
  obtain b1 c1 where b1: "byte_out True (drop_bit 8 ?d) c0 = (b1, c1)" by fastforce
  note s1 = byte_out_neg [OF s0(2) b1]
  have d: "uint ?d = uint x" "uint (drop_bit 8 ?d) = uint x div 256"
    by (simp_all only: uint_drop_bit uint_ucast_dig) simp
  have "uint x div 256 < 256" using uint_dig [of x] by (intro int_div_less) simp_all
  then have "uint x div 256 mod 256 = uint x div 256" by (simp add: pos_imp_zdiv_nonneg_iff)
  then have digit: "uint b0 + 256 * uint b1 + 65536 * uint c1 = 65535 - uint x + uint carry"
    using s0(1) s1(1) mult_div_mod_eq [of 256 "uint x"] unfolding d by linarith
  obtain c where c: "bval (as_bytes_stream True c1 0 xs) + 65536 ^ length xs * c
      = 65536 ^ length xs - 1 - mval xs + uint c1" "length (as_bytes_stream True c1 0 xs) = 2 * length xs"
    using Cons.IH [OF s1(2)] by blast
  have run: "as_bytes_stream True carry 0 (x # xs) = b0 # b1 # as_bytes_stream True c1 0 xs"
    using b0 b1 z by (simp add: Let_def)
  have "bval (as_bytes_stream True carry 0 (x # xs)) + 65536 ^ length (x # xs) * c
      = uint b0 + 256 * uint b1 + 65536 * (bval (as_bytes_stream True c1 0 xs) + 65536 ^ length xs * c)"
    unfolding run by (simp add: algebra_simps)
  also have "\<dots> = 65536 ^ length (x # xs) - 1 - mval (x # xs) + uint carry"
    unfolding c(1) using digit by (simp add: algebra_simps)
  finally show ?case using run c(2) by auto
qed

lemma as_bytes_stream:
  "bval (as_bytes_stream (neg z) 1 0 (dig z)) = mpz_val z mod 65536 ^ length (dig z)"
  "length (as_bytes_stream (neg z) 1 0 (dig z)) = 2 * length (dig z)"
proof -
  have p: "(256 :: int) ^ (2 * n) = 65536 ^ n" for n by (simp add: power_mult)
  have len: "length (as_bytes_stream (neg z) 1 0 (dig z)) = 2 * length (dig z)"
    using as_bytes_stream_pos [of 1 "dig z"] as_bytes_stream_neg [of 1 "dig z"] by (cases "neg z") simp_all
  then show "length (as_bytes_stream (neg z) 1 0 (dig z)) = 2 * length (dig z)" .
  show "bval (as_bytes_stream (neg z) 1 0 (dig z)) = mpz_val z mod 65536 ^ length (dig z)"
  proof (cases "neg z")
    case False
    then show ?thesis
      using as_bytes_stream_pos [of 1 "dig z"] mval_nonneg [of "dig z"] mval_bound [of "dig z"]
      by (simp add: mpz_val_def)
  next
    case True
    let ?v = "bval (as_bytes_stream True 1 0 (dig z))"
    obtain c where "?v + 65536 ^ length (dig z) * c = 65536 ^ length (dig z) - 1 - mval (dig z) + 1"
      using as_bytes_stream_neg [of 1 "dig z"] by auto
    then have "- mval (dig z) = ?v + (c - 1) * 65536 ^ length (dig z)" by (simp add: algebra_simps)
    then have "(- mval (dig z)) mod 65536 ^ length (dig z) = ?v mod 65536 ^ length (dig z)"
      by (simp only: mod_mult_self1)
    moreover have "0 \<le> ?v" "?v < 65536 ^ length (dig z)"
      using bval_bounds [of "as_bytes_stream True 1 0 (dig z)"] len True by (simp_all add: p)
    ultimately show ?thesis using True by (simp add: mpz_val_def)
  qed
qed

lemma mpz_as_bytes_value:
  assumes "0 < n"
  shows "\<exists>bs. mpz_as_bytes z big_endian (replicate n 0) = Some bs
    \<and> bval (if big_endian then rev bs else bs) = mpz_val z mod 256 ^ min n (2 * length (dig z))"
proof -
  let ?s = "as_bytes_stream (neg z) 1 0 (dig z)"
  let ?bs = "take n ?s @ drop (length ?s) (replicate n (0 :: u8))"
  have little: "store_bytes False (replicate n 0) 0 ?s = Some ?bs"
    using store_bytes_little [of 0 "replicate n 0" ?s] assms by simp
  have p: "(256 :: int) ^ (2 * m) = 65536 ^ m" for m by (simp add: power_mult)
  have "bval ?bs = mpz_val z mod 65536 ^ length (dig z) mod 256 ^ n"
    by (simp add: bval_append bval_take as_bytes_stream)
  also have "\<dots> = mpz_val z mod 256 ^ (2 * length (dig z)) mod 256 ^ n" by (simp only: p)
  also have "\<dots> = mpz_val z mod 256 ^ min n (2 * length (dig z))"
  proof (cases "n \<le> 2 * length (dig z)")
    case True
    then have "(256 :: int) ^ n dvd 256 ^ (2 * length (dig z))" by (rule le_imp_power_dvd)
    then show ?thesis using True by (simp add: mod_mod_cancel min_def)
  next
    case False
    then have "(256 :: int) ^ (2 * length (dig z)) \<le> 256 ^ n" by (intro power_increasing) simp_all
    moreover have "mpz_val z mod 256 ^ (2 * length (dig z)) < 256 ^ (2 * length (dig z))" by simp
    ultimately have "mpz_val z mod 256 ^ (2 * length (dig z)) < 256 ^ n" by linarith
    then show ?thesis using False by (simp add: min_def)
  qed
  finally have v: "bval ?bs = mpz_val z mod 256 ^ min n (2 * length (dig z))" .
  then show ?thesis
    using little by (cases big_endian) (simp_all add: mpz_as_bytes_def store_bytes_big)
qed

text \<open>Bytes: written into a zeroed buffer of at least one byte and read back, in either byte order, a number
  comes back modulo 256 to the power of the bytes written, which are those of the buffer or of the
  digits, whichever are fewer; nothing is written outside the buffer.\<close>

theorem mpz_bytes_round_trip:
  assumes "0 < n"
  shows "\<exists>bs. mpz_as_bytes z big_endian (replicate n 0) = Some bs
    \<and> mpz_canonical (mpz_set_from_bytes mpz_init_zero big_endian bs)
        (mpz_val z mod 256 ^ min n (2 * length (dig z)))"
  using mpz_as_bytes_value [OF assms, of z big_endian] mpz_set_from_bytes_ok [of big_endian]
  by metis

theorem mpz_bytes_round_trip_witness:
  "\<exists>bs. mpz_as_bytes \<lparr>neg = True, fixed_dig = False, alloc = 2, dig = [5, 1]\<rparr> True (replicate 3 0) = Some bs
    \<and> mpz_canonical (mpz_set_from_bytes mpz_init_zero True bs) ((- 65541) mod 16777216)"
  using mpz_bytes_round_trip [of 3 "\<lparr>neg = True, fixed_dig = False, alloc = 2, dig = [5, 1]\<rparr>" True]
  by (simp add: mpz_val_def)

text \<open>With a buffer of no bytes the test for the end comes too late: the first byte goes outside.\<close>

lemma mpz_as_bytes_empty_buffer: "dig z \<noteq> [] \<Longrightarrow> mpz_as_bytes z big_endian [] = None"
  by (cases "dig z") (simp_all add: mpz_as_bytes_def Let_def split: prod.splits)

section \<open>Text: correctness\<close>

lemma mul_dig_shape:
  "uint c < 65536 \<Longrightarrow> length (mpn_mul_dig_add_dig_loop c ds d) = length ds
    \<or> length (mpn_mul_dig_add_dig_loop c ds d) = Suc (length ds) \<and> last (mpn_mul_dig_add_dig_loop c ds d) \<noteq> 0"
proof (induction c ds d rule: mpn_mul_dig_add_dig_loop.induct)
  case (1 c d)
  have "(ucast c :: mpz_dig_t) = 0 \<Longrightarrow> c = 0"
    using uint_ucast_small [OF "1.prems"] by (simp add: word_uint_eq_iff)
  then show ?case by auto
next
  case (2 c i "is" d)
  note s = mul_step [OF "2.prems", of 0 i d, simplified]
  have "mpn_mul_dig_add_dig_loop c' is d \<noteq> []" if "length (mpn_mul_dig_add_dig_loop c' is d) = Suc (length is)" for c'
    using that by (intro notI) simp
  then show ?case using "2.IH" [OF refl s(2)] by (auto simp: Let_def)
qed

lemma mpn_mul_dig_add_dig_ok:
  assumes "normalised ds" and "dmul \<noteq> 0"
  shows "mpn_ok (mpn_mul_dig_add_dig ds dmul dadd) (mval ds * uint dmul + uint dadd) (Suc (length ds))"
    and "snd (mpn_mul_dig_add_dig ds dmul dadd) = length (fst (mpn_mul_dig_add_dig ds dmul dadd))"
proof -
  let ?w = "mpn_mul_dig_add_dig_loop (ucast dadd) ds dmul"
  have c: "uint (ucast dadd :: mpz_dbl_dig_t) < 65536" by (simp only: uint_ucast_dig uint_dig)
  have v: "mval ?w = mval ds * uint dmul + uint dadd" "length ?w \<le> Suc (length ds)"
    using mul_dig_add_dig_loop [OF c, of ds dmul] by (simp_all add: uint_ucast_dig mult.commute)
  have "normalised ?w"
  proof (cases "length ?w = Suc (length ds)")
    case True
    then show ?thesis using mul_dig_shape [OF c, of ds dmul] by (auto simp: normalised_def)
  next
    case False
    then have len: "length ?w = length ds" using mul_dig_shape [OF c, of ds dmul] by auto
    show ?thesis
    proof (cases "ds = []")
      case True
      then show ?thesis using len by simp
    next
      case ne: False
      have "uint dmul \<noteq> 0" using assms(2) by (simp add: word_uint_eq_iff)
      then have "1 \<le> uint dmul" using uint_ge_0 [of dmul] by linarith
      then have "mval ds * 1 \<le> mval ds * uint dmul" by (intro mult_left_mono) (simp_all add: mval_nonneg)
      then have "65536 ^ (length ?w - 1) \<le> mval ?w"
        using normalised_pos [OF assms(1) ne] uint_ge_0 [of dadd] unfolding v(1) len by linarith
      moreover have "?w \<noteq> []" using len ne by auto
      ultimately show ?thesis by (simp add: normalised_iff)
    qed
  qed
  then show "mpn_ok (mpn_mul_dig_add_dig ds dmul dadd) (mval ds * uint dmul + uint dadd) (Suc (length ds))"
    using v by (simp add: mpn_mul_dig_add_dig_def mpn_ok_def mpn_digits_def Let_def)
  show "snd (mpn_mul_dig_add_dig ds dmul dadd) = length (fst (mpn_mul_dig_add_dig ds dmul dadd))"
    by (simp add: mpn_mul_dig_add_dig_def Let_def)
qed

text \<open>The digits a string stands for, all of them below the base.\<close>

definition numeral_digits :: "u32 \<Rightarrow> u8 list \<Rightarrow> bool" where
  "numeral_digits base cs \<longleftrightarrow> (\<forall>c\<in>set cs. \<exists>v. char_digit c = Some v \<and> v < base)"

fun horner :: "int \<Rightarrow> int \<Rightarrow> u8 list \<Rightarrow> int" where
  "horner base x [] = x"
| "horner base x (c # cs) = horner base (x * base + (case char_digit c of Some v \<Rightarrow> uint v | None \<Rightarrow> 0)) cs"

lemma from_str_loop:
  assumes "2 \<le> uint base" and "uint base \<le> 36"
  shows "numeral_digits base cs \<Longrightarrow> mpz_wf z \<Longrightarrow> \<not> fixed_dig z \<Longrightarrow>
    mval (dig z) < uint base ^ n \<Longrightarrow> uint base ^ (n + length cs) \<le> 65536 ^ alloc z \<Longrightarrow>
    \<exists>z'. from_str_loop z base cs n = Some (z', n + length cs) \<and> mpz_wf z' \<and> \<not> fixed_dig z' \<and> neg z' = neg z
      \<and> mval (dig z') = horner (uint base) (mval (dig z)) cs"
proof (induction cs arbitrary: z n)
  case Nil
  then show ?case by simp
next
  case (Cons c cs)
  obtain v where v: "char_digit c = Some v" "v < base" using Cons.prems(1) by (auto simp: numeral_digits_def)
  have uv: "uint v < uint base" using v(2) by (simp add: word_less_def)
  have b: "uint (ucast base :: mpz_dig_t) = uint base" "uint (ucast v :: mpz_dig_t) = uint v"
    using assms uv by (simp_all add: uint_ucast_small)
  have "(ucast base :: mpz_dig_t) \<noteq> 0" using b(1) assms(1) by (auto simp: word_uint_eq_iff)
  note mk = mpn_mul_dig_add_dig_ok [OF mpz_wf_normalised [OF Cons.prems(2)] this, of "ucast v", unfolded b]
  let ?r = "mpn_mul_dig_add_dig (dig z) (ucast base) (ucast v)"
  let ?x = "mval (dig z) * uint base + uint v"
  have "(mval (dig z) + 1) * uint base \<le> uint base ^ n * uint base"
    using Cons.prems(4) assms(1) by (intro mult_right_mono) simp_all
  then have lt: "?x < uint base ^ Suc n" using uv by (simp add: algebra_simps)
  have "uint base ^ Suc n \<le> uint base ^ (n + length (c # cs))" using assms(1) by (intro power_increasing) simp_all
  then have "?x < 65536 ^ alloc z" using lt Cons.prems(5) by linarith
  then have cells: "length (fst ?r) \<le> alloc z"
    using mk by (intro normalised_length) (simp_all add: mpn_ok_def mpn_digits_def)
  define z' where "z' = z\<lparr>dig := mpn_digits ?r\<rparr>"
  have put: "mpz_put z ?r (neg z) = Some z'"
    using cells by (simp add: mpz_put_def z'_def)
  have z': "mpz_wf z'" "\<not> fixed_dig z'" "mval (dig z') = ?x" "neg z' = neg z" "alloc z' = alloc z"
    using mk cells Cons.prems(3) by (auto simp: z'_def mpz_wf_def mpn_ok_def mpn_digits_def)
  have "numeral_digits base cs" using Cons.prems(1) by (simp add: numeral_digits_def)
  from Cons.IH [OF this z'(1,2), of "Suc n"] z'(3,5) lt Cons.prems(5) obtain z'' where
    "from_str_loop z' base cs (Suc n) = Some (z'', Suc n + length cs)" "mpz_wf z''" "\<not> fixed_dig z''"
    "neg z'' = neg z'" "mval (dig z'') = horner (uint base) ?x cs"
    by auto
  then show ?case
    using v put z'(4) by (auto simp: not_le)
qed

lemma char_digit_char:
  assumes "uint a < 32"
  shows "char_digit (digit_char 97 a) = Some a"
proof -
  have "list_all (\<lambda>k. char_digit (digit_char 97 (word_of_nat k)) = Some (word_of_nat k)) [0..<32]"
    by code_simp
  then have all: "\<forall>k\<in>set [0..<32]. char_digit (digit_char 97 (word_of_nat k)) = Some (word_of_nat k)"
    by (simp only: list_all_iff)
  have "a < 32" using assms by (simp add: word_less_def)
  then have "unat a \<in> set [0..<32]" by (simp add: word_less_nat_alt)
  from bspec [OF all this] show ?thesis by simp
qed

lemma short_div:
  assumes "2 \<le> uint base" and "uint base \<le> 32"
  shows "uint a < uint base \<Longrightarrow> short_div base a ds = (qs, r) \<Longrightarrow>
    length qs = length ds \<and> uint r < uint base
    \<and> uint a * 65536 ^ length ds + mval (rev ds) = uint base * mval (rev qs) + uint r"
proof (induction ds arbitrary: a qs)
  case Nil
  then show ?case by simp
next
  case (Cons d ds)
  define x where "x = push_bit DIG_SIZE a OR ucast d"
  have "uint a < 65536" using Cons.prems(1) assms(2) by simp
  then have x: "uint x = uint a * 65536 + uint d"
    using uint_push_digit [of a d] by (simp only: x_def push_digit_def)
  have xm: "uint (x mod base) = uint x mod uint base" by (rule uint_mod)
  have "uint x mod uint base < uint base" using assms(1) by simp
  then have less: "uint (x mod base) < uint base" by (simp only: xm)
  obtain qs' where q: "short_div base (x mod base) ds = (qs', r)" "qs = ucast (x div base) # qs'"
    using Cons.prems(2) by (auto simp: Let_def simp flip: x_def split: prod.splits)
  note IH = Cons.IH [OF less q(1)]
  have "(uint a + 1) * 65536 \<le> uint base * 65536" using Cons.prems(1) by (intro mult_right_mono) simp_all
  then have "uint x < 65536 * uint base" using uint_dig(2) [of d] by (simp add: x)
  then have "uint x div uint base < 65536" using assms(1) by (intro int_div_less) simp_all
  then have d: "uint (ucast (x div base) :: mpz_dig_t) = uint x div uint base"
    by (subst uint_ucast_small) (simp_all only: uint_div)
  have "uint a * 65536 ^ length (d # ds) + mval (rev (d # ds)) = uint x * 65536 ^ length ds + mval (rev ds)"
    by (simp add: mval_append x algebra_simps)
  also have "\<dots> = uint base * (uint x div uint base) * 65536 ^ length ds
        + (uint (x mod base) * 65536 ^ length ds + mval (rev ds))"
  proof -
    define y where "y = uint x div uint base"
    have "uint x = uint base * y + uint (x mod base)" by (simp add: xm y_def)
    then have "uint x * 65536 ^ length ds = uint base * y * 65536 ^ length ds + uint (x mod base) * 65536 ^ length ds"
      by (simp only: distrib_right [symmetric])
    then show ?thesis unfolding y_def [symmetric] by linarith
  qed
  also have "\<dots> = uint base * mval (rev qs) + uint r"
    using IH by (simp add: q(2) mval_append d algebra_simps)
  finally show ?case using IH q(2) by simp
qed

lemma horner_snoc: "horner b x (cs @ [c]) = horner b x cs * b + (case char_digit c of Some v \<Rightarrow> uint v | None \<Rightarrow> 0)"
  by (induction cs arbitrary: x) simp_all

lemma as_str_loop:
  assumes "2 \<le> uint base" and "uint base \<le> 32"
  shows "\<exists>cs. as_str_loop base 97 0 ds s lc = Some (s @ cs) \<and> numeral_digits base cs
    \<and> horner (uint base) 0 (rev cs) = mval ds"
proof (induction "nat (mval ds)" arbitrary: ds s rule: less_induct)
  case less
  obtain qs a where q: "short_div base 0 (rev ds) = (qs, a)" by fastforce
  have "uint (0 :: u32) < uint base" using assms(1) by simp
  note sd = short_div [OF assms this q, simplified]
  let ?c = "digit_char 97 a"
  have c: "char_digit ?c = Some a" using sd assms(2) by (intro char_digit_char) linarith
  have nd: "a < base" using sd by (simp add: word_less_def)
  have zero: "list_all (\<lambda>d. d = 0) qs \<longleftrightarrow> mval (rev qs) = 0"
    by (simp add: list_all_iff mval_zero_iff)
  show ?case
  proof (cases "mval (rev qs) = 0")
    case True
    then have "as_str_loop base 97 0 ds s lc = Some (s @ [?c])"
      by (subst as_str_loop.simps) (simp add: q zero Let_def)
    moreover have "horner (uint base) 0 (rev [?c]) = mval ds" using c sd True by simp
    moreover have "numeral_digits base [?c]" using c nd by (simp add: numeral_digits_def)
    ultimately show ?thesis by blast
  next
    case False
    then have pos: "0 < mval (rev qs)" using mval_nonneg [of "rev qs"] by linarith
    have "2 * mval (rev qs) \<le> uint base * mval (rev qs)" using assms(1) pos by (intro mult_right_mono) simp_all
    then have "mval (rev qs) < mval ds" using sd pos uint_ge_0 [of a] by linarith
    then have "nat (mval (rev qs)) < nat (mval ds)" using pos by linarith
    from less.hyps [OF this, of "s @ [?c]"] obtain cs where
      cs: "as_str_loop base 97 0 (rev qs) (s @ [?c]) lc = Some ((s @ [?c]) @ cs)" "numeral_digits base cs"
        "horner (uint base) 0 (rev cs) = mval (rev qs)" by blast
    have "as_str_loop base 97 0 ds s lc = Some (s @ ?c # cs)"
      using cs(1) False by (subst as_str_loop.simps) (simp add: q zero Let_def)
    moreover have "horner (uint base) 0 (rev (?c # cs)) = mval ds"
      using c sd cs(3) by (simp add: horner_snoc mult.commute)
    moreover have "numeral_digits base (?c # cs)" using c nd cs(2) by (simp add: numeral_digits_def)
    ultimately show ?thesis by blast
  qed
qed

text \<open>C27. Printing and reading: for every base from 2 to 32 the number is printed (the loop ends), and reading its
  digits with its sign gives the number back, using up every character.\<close>

theorem mpz_print_parse:
  assumes "mpz_ok z" and "2 \<le> uint base" and "uint base \<le> 32"
  shows "\<exists>s z'. mpz_as_str_inpl z base [] 97 0 = Some (if neg z then 45 # s else s)
    \<and> mpz_set_from_str mpz_init_zero s (neg z) base = Some (z', length s)
    \<and> mpz_wf z' \<and> mpz_val z' = mpz_val z"
proof -
  obtain s where s: "mpz_as_str_inpl z base [] 97 0 = Some (if neg z then 45 # s else s)"
    "numeral_digits base s" "horner (uint base) 0 s = mval (dig z)"
  proof (cases "dig z = []")
    case True
    then have "\<not> neg z" using assms(1) by (simp add: mpz_ok_def)
    moreover have "char_digit 48 = Some 0" by code_simp
    ultimately show ?thesis
      using that [of "[48]"] True assms(2,3)
      by (simp add: mpz_as_str_inpl_def numeral_digits_def word_less_def)
  next
    case False
    obtain cs where "as_str_loop base 97 0 (dig z) [] 0 = Some cs" "numeral_digits base cs"
      "horner (uint base) 0 (rev cs) = mval (dig z)"
      using as_str_loop [OF assms(2,3), of "dig z" "[]" 0] by auto
    then show ?thesis
      using that [of "rev cs"] False assms(2,3)
      by (simp add: mpz_as_str_inpl_def numeral_digits_def word_less_def)
  qed
  define w :: mpz_t where "w = \<lparr>neg = neg z, fixed_dig = False, alloc = max (length s * 8 div DIG_SIZE + 1) 2, dig = []\<rparr>"
  have need: "mpz_need_dig mpz_init_zero (length s * 8 div DIG_SIZE + 1)
      = Some (mpz_init_zero\<lparr>alloc := max (length s * 8 div DIG_SIZE + 1) 2\<rparr>)"
    by (simp add: mpz_need_dig mpz_init_zero_def)
  have big: "uint base ^ (0 + length s) \<le> 65536 ^ alloc w"
  proof -
    have "uint base ^ length s \<le> 256 ^ length s" using assms(2,3) by (intro power_mono) simp_all
    also have "\<dots> \<le> (256 :: int) ^ (2 * alloc w)"
      by (intro power_increasing) (simp_all add: w_def DIG_SIZE_def)
    finally show ?thesis by (simp add: power_mult)
  qed
  have "uint base \<le> 36" using assms(3) by simp
  from from_str_loop [OF assms(2) this s(2), of w 0] big obtain z' where
    z': "from_str_loop w base s 0 = Some (z', length s)" "mpz_wf z'" "neg z' = neg z" "mval (dig z') = mval (dig z)"
    using s(3) by (auto simp: w_def mpz_wf_def)
  have "mpz_set_from_str mpz_init_zero s (neg z) base = Some (z', length s)"
    using z'(1) need assms(3) by (simp add: mpz_set_from_str_def word_less_def mpz_init_zero_def w_def)
  then show ?thesis using s(1) z' by (auto simp: mpz_val_def)
qed

theorem mpz_print_parse_witness:
  "\<exists>s z'. mpz_as_str_inpl \<lparr>neg = True, fixed_dig = False, alloc = 2, dig = [0, 1]\<rparr> 10 [] 97 0 = Some (45 # s)
    \<and> mpz_set_from_str mpz_init_zero s True 10 = Some (z', length s) \<and> mpz_val z' = - 65536"
  using mpz_print_parse [of "\<lparr>neg = True, fixed_dig = False, alloc = 2, dig = [0, 1]\<rparr>" 10]
  by (auto simp: mpz_ok_def mpz_wf_def normalised_def mpz_val_def)

text \<open>
  With a thousands separator the loop puts one after every third digit, the last one included, so a
  number of three digits gets one in front.
\<close>

lemma mpz_as_str_leading_comma:
  "mpz_as_str_inpl \<lparr>neg = False, fixed_dig = False, alloc = 2, dig = [123]\<rparr> 10 [] 97 44 = Some [44, 49, 50, 51]"
  by code_simp

end
