(* ===== verification/Neurons_Protocol.thy ===== *)
theory Neurons_Protocol
  imports Codey_Prelude
begin

text \<open>
  The serial protocol of the neuron blocks (\<open>codey_neurons_universal_protocol.c\<close>): values
  are cut into bytes of seven bits, a frame is a head byte, addresses, data, a check sum and an
  end byte, and a received byte stream is collected in a package of 64 bytes until the end byte
  comes.  The model keeps the C layout: the package is an array of 64 bytes with an 8-bit fill
  index; a store at cell 64 or later is undefined (\<open>None\<close>).
\<close>

unbundle bit_operations_syntax

named_theorems neurons_defs "operations on the frame buffer"

subsection \<open>Cutting values into bytes\<close>

text \<open>The members \<open>byte_val\<close> of the unions \<open>val_2_byte\<close> and \<open>val_4_byte\<close>.\<close>

definition byte_val :: "u32 \<Rightarrow> nat \<Rightarrow> u8" where
  "byte_val v i = ucast (drop_bit (8 * i) v)"

definition short_val :: "u8 \<Rightarrow> u8 \<Rightarrow> u16" where
  "short_val b0 b1 = ucast b0 OR push_bit 8 (ucast b1)"

definition value_to_neurons_byte_8 :: "u8 \<Rightarrow> u8 list" where
  "value_to_neurons_byte_8 val = [val]"

definition value_to_neurons_byte_16 :: "u8 \<Rightarrow> u8 list" where
  "value_to_neurons_byte_16 val = [val AND 0x7f, drop_bit 7 val AND 0x7f]"

definition value_to_neurons_short_16 :: "u16 \<Rightarrow> u8 list" where
  "value_to_neurons_short_16 val =
     (let b0 = byte_val (ucast val) 0; b1 = byte_val (ucast val) 1
      in [b0 AND 0x7f, (push_bit 1 b1 OR drop_bit 7 b0) AND 0x7f])"

definition value_to_neurons_short_24 :: "u16 \<Rightarrow> u8 list" where
  "value_to_neurons_short_24 val =
     (let b0 = byte_val (ucast val) 0; b1 = byte_val (ucast val) 1
      in [b0 AND 0x7f, (push_bit 1 b1 OR drop_bit 7 b0) AND 0x7f, drop_bit 6 b1 AND 0x7f])"

definition value_to_neurons_long_40 :: "u32 \<Rightarrow> u8 list" where
  "value_to_neurons_long_40 val =
     (let b0 = byte_val val 0; b1 = byte_val val 1; b2 = byte_val val 2; b3 = byte_val val 3
      in [b0 AND 0x7f,
          (push_bit 1 b1 OR drop_bit 7 b0) AND 0x7f,
          (push_bit 2 b2 OR drop_bit 6 b1) AND 0x7f,
          (push_bit 3 b3 OR drop_bit 5 b2) AND 0x7f,
          drop_bit 4 b3 AND 0x7f])"

text \<open>A \<open>float\<close> is its four bytes.\<close>

definition value_to_neurons_float_40 :: "u32 \<Rightarrow> u8 list" where
  "value_to_neurons_float_40 val =
     (let b0 = byte_val val 0; b1 = byte_val val 1; b2 = byte_val val 2; b3 = byte_val val 3
      in [b0 AND 0x7f,
          (push_bit 1 b1 OR drop_bit 7 b0) AND 0x7f,
          (push_bit 2 b2 OR drop_bit 6 b1) AND 0x7f,
          (push_bit 3 b3 OR drop_bit 5 b2) AND 0x7f,
          drop_bit 4 b3 AND 0x7f])"

text \<open>The readers take the array and the index of the first byte they read.\<close>

definition byte_8_to_value :: "u8 list \<Rightarrow> nat \<Rightarrow> u8 option" where
  "byte_8_to_value d i = do { v0 \<leftarrow> rd d i; Some (v0 AND 0x7f) }"

definition byte_16_to_value :: "u8 list \<Rightarrow> nat \<Rightarrow> u8 option" where
  "byte_16_to_value d i = do {
     v0 \<leftarrow> rd d i; v1 \<leftarrow> rd d (i + 1);
     Some (v0 AND 0x7f OR push_bit 7 v1) }"

definition short_16_to_value :: "u8 list \<Rightarrow> nat \<Rightarrow> u16 option" where
  "short_16_to_value d i = do {
     v0 \<leftarrow> rd d i; v1 \<leftarrow> rd d (i + 1);
     Some (short_val (v0 AND 0x7f OR push_bit 7 v1) (drop_bit 1 v1 AND 0x7f)) }"

definition short_24_to_value :: "u8 list \<Rightarrow> nat \<Rightarrow> u16 option" where
  "short_24_to_value d i = do {
     v0 \<leftarrow> rd d i; v1 \<leftarrow> rd d (i + 1); v2 \<leftarrow> rd d (i + 2);
     Some (short_val (v0 AND 0x7f OR push_bit 7 v1) (drop_bit 1 v1 AND 0x7f OR push_bit 6 v2)) }"

definition long_40_to_value :: "u8 list \<Rightarrow> nat \<Rightarrow> u32 option" where
  "long_40_to_value d i = do {
     v0 \<leftarrow> rd d i; v1 \<leftarrow> rd d (i + 1); v2 \<leftarrow> rd d (i + 2); v3 \<leftarrow> rd d (i + 3); v4 \<leftarrow> rd d (i + 4);
     Some (of_le32 [v0 AND 0x7f OR push_bit 7 v1,
       (drop_bit 1 v1 AND 0x7f) + push_bit 6 v2,
       (drop_bit 2 v2 AND 0x7f) + push_bit 5 v3,
       (drop_bit 3 v3 AND 0x7f) + push_bit 4 v4]) }"

definition float_40_to_value :: "u8 list \<Rightarrow> nat \<Rightarrow> u32 option" where
  "float_40_to_value d i = do {
     v0 \<leftarrow> rd d i; v1 \<leftarrow> rd d (i + 1); v2 \<leftarrow> rd d (i + 2); v3 \<leftarrow> rd d (i + 3); v4 \<leftarrow> rd d (i + 4);
     Some (of_le32 [v0 AND 0x7f OR push_bit 7 v1,
       (drop_bit 1 v1 AND 0x7f) + push_bit 6 v2,
       (drop_bit 2 v2 AND 0x7f) + push_bit 5 v3,
       (drop_bit 3 v3 AND 0x7f) + push_bit 4 v4]) }"

subsection \<open>Frames and packages\<close>

record neurons_command_frame_t =
  head :: u8
  device_id :: u8
  service_id :: u8
  sub_service_id :: u8
  end_byte :: u8

record neurons_commmd_package_t =
  pdata :: "u8 list"
  data_in_index :: u8

definition PACKAGE_LEN :: nat where
  "PACKAGE_LEN = 64"

definition wf_package :: "neurons_commmd_package_t \<Rightarrow> bool" where
  "wf_package p \<longleftrightarrow> length (pdata p) = PACKAGE_LEN \<and> unat (data_in_index p) \<le> PACKAGE_LEN"

text \<open>The indices of the frame fields, in the order of the enumeration.\<close>

datatype neurons_frame_data_index_t =
    NEURONS_FRAME_HEAD | NEURONS_FRAME_DEV_ID | NEURONS_FRAME_SER_ID
  | NEURONS_FRAME_SUB_SER_ID | NEURONS_FRAME_CMD_DATA | NEURONS_FRAME_END

text \<open>The data types have the byte codes the block library uses.\<close>

definition BYTE_8_T :: u8 where "BYTE_8_T = 1"
definition BYTE_16_T :: u8 where "BYTE_16_T = 2"
definition SHORT_16_T :: u8 where "SHORT_16_T = 3"
definition SHORT_24_T :: u8 where "SHORT_24_T = 4"
definition LONG_40_T :: u8 where "LONG_40_T = 5"
definition FLOAT_40_T :: u8 where "FLOAT_40_T = 6"
definition DOUBLE_72_T :: u8 where "DOUBLE_72_T = 7"

lemmas neurons_data_type_t = BYTE_8_T_def BYTE_16_T_def SHORT_16_T_def SHORT_24_T_def
  LONG_40_T_def FLOAT_40_T_def DOUBLE_72_T_def

definition START_SYSEX :: u8 where "START_SYSEX = 0xF0"
definition END_SYSEX :: u8 where "END_SYSEX = 0xF7"
definition END_ESP32_ONLINE :: u8 where "END_ESP32_ONLINE = 0xF7"

definition neurons_frame_struct_init_t :: "u8 \<Rightarrow> u8 \<Rightarrow> u8 \<Rightarrow> u8 \<Rightarrow> u8 \<Rightarrow> neurons_command_frame_t" where
  "neurons_frame_struct_init_t hd_v dev_id ser_id s_ser_id en =
     \<lparr>head = hd_v, device_id = dev_id, service_id = ser_id, sub_service_id = s_ser_id, end_byte = en\<rparr>"

definition neurons_frame_struct_set_by_type_t ::
    "neurons_command_frame_t \<Rightarrow> neurons_frame_data_index_t \<Rightarrow> u8 \<Rightarrow> neurons_command_frame_t" where
  "neurons_frame_struct_set_by_type_t f index v = (case index of
     NEURONS_FRAME_HEAD \<Rightarrow> f\<lparr>head := v\<rparr>
   | NEURONS_FRAME_DEV_ID \<Rightarrow> f\<lparr>device_id := v\<rparr>
   | NEURONS_FRAME_SER_ID \<Rightarrow> f\<lparr>service_id := v\<rparr>
   | NEURONS_FRAME_SUB_SER_ID \<Rightarrow> f\<lparr>sub_service_id := v\<rparr>
   | NEURONS_FRAME_END \<Rightarrow> f\<lparr>end_byte := v\<rparr>
   | NEURONS_FRAME_CMD_DATA \<Rightarrow> f)"

text \<open>\<open>package->cmd_package_info.data[package->data_in_index++] = b\<close>\<close>

definition package_store :: "u8 \<Rightarrow> neurons_commmd_package_t \<Rightarrow> neurons_commmd_package_t option" where
  "package_store b p = do {
     d \<leftarrow> wr (pdata p) (unat (data_in_index p)) b;
     Some (p\<lparr>pdata := d, data_in_index := data_in_index p + 1\<rparr>) }"

text \<open>The bytes a value of a type is sent as; \<open>v\<close> is the memory the pointer argument points to.\<close>

definition neurons_value_bytes :: "u8 \<Rightarrow> u32 \<Rightarrow> u8 list" where
  "neurons_value_bytes cmd_data_type v =
     (if cmd_data_type = BYTE_8_T then value_to_neurons_byte_8 (ucast v)
      else if cmd_data_type = BYTE_16_T then value_to_neurons_byte_16 (ucast v)
      else if cmd_data_type = SHORT_16_T then value_to_neurons_short_16 (ucast v)
      else if cmd_data_type = SHORT_24_T then value_to_neurons_short_24 (ucast v)
      else if cmd_data_type = LONG_40_T then value_to_neurons_long_40 v
      else if cmd_data_type = FLOAT_40_T then value_to_neurons_float_40 v
      else [])"

definition neurons_buffer_add_data_t ::
    "neurons_commmd_package_t \<Rightarrow> u8 \<Rightarrow> u32 \<Rightarrow> neurons_commmd_package_t option" where
  "neurons_buffer_add_data_t p cmd_data_type v =
     foldM package_store (neurons_value_bytes cmd_data_type v) p"

definition neurons_buffer_add_head_frame_t ::
    "neurons_command_frame_t \<Rightarrow> neurons_commmd_package_t \<Rightarrow> bool \<Rightarrow> neurons_commmd_package_t option" where
  "neurons_buffer_add_head_frame_t f p add_sub_ser_id = do {
     p \<leftarrow> neurons_buffer_add_data_t p BYTE_8_T (ucast (head f));
     p \<leftarrow> neurons_buffer_add_data_t p BYTE_8_T (ucast (device_id f));
     p \<leftarrow> neurons_buffer_add_data_t p BYTE_8_T (ucast (service_id f));
     if add_sub_ser_id then neurons_buffer_add_data_t p BYTE_8_T (ucast (sub_service_id f))
     else Some p }"

definition neurons_buffer_add_end_frame_t ::
    "neurons_command_frame_t \<Rightarrow> neurons_commmd_package_t \<Rightarrow> neurons_commmd_package_t option" where
  "neurons_buffer_add_end_frame_t f p = do {
     check_out \<leftarrow> for_upto 1 (unat (data_in_index p))
       (\<lambda>i s. do { b \<leftarrow> rd (pdata p) i; Some (s + b) }) 0;
     p \<leftarrow> neurons_buffer_add_data_t p BYTE_8_T (ucast (check_out AND (0x7f :: u8)));
     p \<leftarrow> neurons_buffer_add_data_t p BYTE_8_T (ucast (end_byte f));
     Some (p\<lparr>data_in_index := 0\<rparr>) }"

definition neurons_command_package_add_bytes_t ::
    "neurons_commmd_package_t \<Rightarrow> u8 list \<Rightarrow> u16 \<Rightarrow> neurons_commmd_package_t option" where
  "neurons_command_package_add_bytes_t p data n =
     for_upto 0 (unat n) (\<lambda>i p. do { b \<leftarrow> rd data i; package_store b p }) p"

definition neurons_command_package_reset :: neurons_commmd_package_t where
  "neurons_command_package_reset = \<lparr>pdata = replicate PACKAGE_LEN 0, data_in_index = 0\<rparr>"

definition neurons_package_check_sum_t :: "neurons_commmd_package_t \<Rightarrow> bool option" where
  "neurons_package_check_sum_t p = do {
     s \<leftarrow> for_upto 1 (unat (data_in_index p) - 2) (\<lambda>i s. do { b \<leftarrow> rd (pdata p) i; Some (s + b) }) 0;
     (if unat (data_in_index p) < 2 then None else do {
       ck \<leftarrow> rd (pdata p) (unat (data_in_index p) - 2);
       Some (s AND (0x7f :: u8) = ck) }) }"

text \<open>
  The receiver.  \<open>begins\<close> is the static array \<open>package_in_begin\<close>, one flag per protocol;
  \<open>nc_cb\<close> is the callback, called with the package and the peripheral on the state \<open>s\<close> of
  the client; the firmware's callbacks only read the package.
\<close>

definition neurons_command_package_put_t ::
    "(neurons_commmd_package_t \<Rightarrow> u8 \<Rightarrow> 's \<Rightarrow> 's option) \<Rightarrow> u8 \<Rightarrow> u8 \<Rightarrow> u8 \<Rightarrow> u8 \<Rightarrow> u8
     \<Rightarrow> neurons_commmd_package_t \<times> bool list \<times> 's \<Rightarrow> (neurons_commmd_package_t \<times> bool list \<times> 's) option" where
  "neurons_command_package_put_t nc_cb hd_b en_b peripheral protocol_index c st =
     (let (p, begins, s) = st in
      if 10 \<le> protocol_index then Some (p, begins, s)
      else if c = hd_b then do {
        begins \<leftarrow> wr begins (unat protocol_index) True;
        p \<leftarrow> neurons_command_package_add_bytes_t neurons_command_package_reset [c] 1;
        Some (p, begins, s) }
      else do {
        b \<leftarrow> rd begins (unat protocol_index);
        if b then do {
          p \<leftarrow> neurons_command_package_add_bytes_t p [c] 1;
          if c = en_b then do {
            begins \<leftarrow> wr begins (unat protocol_index) False;
            ok \<leftarrow> neurons_package_check_sum_t p;
            s \<leftarrow> (if ok then nc_cb p peripheral s else Some s);
            Some (p, begins, s) }
          else Some (p, begins, s) }
        else Some (p, begins, s) })"

text \<open>
  The sender looks for the first end byte in memory, from the start of the package; without one
  it leaves the array.  The bytes go to one of three links.
\<close>

datatype link = Uart0 | Uart1 | Bluetooth

definition neurons_command_packege_send_all ::
    "neurons_commmd_package_t \<Rightarrow> u8 \<Rightarrow> (link \<times> u8 list) list option" where
  "neurons_command_packege_send_all p peripheral =
     (let frame = takeWhile (\<lambda>b. b \<noteq> END_ESP32_ONLINE) (pdata p) in
      if length frame = length (pdata p) then None
      else let out = take (length frame + 1) (pdata p) in
        Some (if peripheral = 1 then [(Uart0, out)]
              else if peripheral = 2 then [(Uart1, out)]
              else if peripheral = 3 then [(Bluetooth, out)]
              else []))"

text \<open>
  What a read gives back: the bits of the value, in the width of its type.  A type without a
  case leaves the result untouched.
\<close>

datatype neurons_value = Val8 u8 | Val16 u16 | Val32 u32 | Untouched

definition neurons_read_value_by_type_t :: "neurons_commmd_package_t \<Rightarrow> u8 \<Rightarrow> u8 \<Rightarrow> neurons_value option" where
  "neurons_read_value_by_type_t p cmd_data_index cmd_data_type =
     (let d = pdata p; i = unat cmd_data_index in
      if cmd_data_type = BYTE_8_T then map_option Val8 (byte_8_to_value d i)
      else if cmd_data_type = BYTE_16_T then map_option Val8 (byte_16_to_value d i)
      else if cmd_data_type = SHORT_16_T then map_option Val16 (short_16_to_value d i)
      else if cmd_data_type = SHORT_24_T then map_option Val16 (short_24_to_value d i)
      else if cmd_data_type = LONG_40_T then map_option Val32 (long_40_to_value d i)
      else if cmd_data_type = FLOAT_40_T then map_option Val32 (float_40_to_value d i)
      else Some Untouched)"

definition neurons_buffer_read_value_t ::
    "neurons_commmd_package_t \<Rightarrow> neurons_frame_data_index_t \<Rightarrow> u8 \<Rightarrow> u8 \<Rightarrow> neurons_value option" where
  "neurons_buffer_read_value_t p index cmd_data_index cmd_data_type = (case index of
     NEURONS_FRAME_HEAD \<Rightarrow> map_option Val8 (rd (pdata p) 0)
   | NEURONS_FRAME_DEV_ID \<Rightarrow> map_option Val8 (rd (pdata p) 1)
   | NEURONS_FRAME_SER_ID \<Rightarrow> map_option Val8 (rd (pdata p) 2)
   | NEURONS_FRAME_SUB_SER_ID \<Rightarrow> map_option Val8 (rd (pdata p) 3)
   | NEURONS_FRAME_CMD_DATA \<Rightarrow> neurons_read_value_by_type_t p cmd_data_index cmd_data_type
   | NEURONS_FRAME_END \<Rightarrow> Some Untouched)"

definition CTL_GENERAL :: u8 where "CTL_GENERAL = 0x61"
definition CTL_SYSTEM_COMMAND_MIN :: u8 where "CTL_SYSTEM_COMMAND_MIN = 0x10"
definition CTL_SYSTEM_COMMAND_MAX :: u8 where "CTL_SYSTEM_COMMAND_MAX = 0x15"

definition neurons_engine_parse_respond_type_t :: "neurons_commmd_package_t \<Rightarrow> u8 option" where
  "neurons_engine_parse_respond_type_t p = do {
     ser \<leftarrow> rd (pdata p) 2;
     Some (if CTL_SYSTEM_COMMAND_MIN \<le> ser \<and> ser \<le> CTL_SYSTEM_COMMAND_MAX then 1
           else if ser = CTL_GENERAL then 2
           else if CTL_GENERAL \<le> ser then 3
           else 0) }"

definition firmata_get_data_type_lenth_t :: "u8 \<Rightarrow> u8" where
  "firmata_get_data_type_lenth_t data_type =
     (if data_type = BYTE_8_T then 1
      else if data_type = BYTE_16_T then 2
      else if data_type = SHORT_16_T then 2
      else if data_type = SHORT_24_T then 3
      else if data_type = LONG_40_T then 5
      else if data_type = FLOAT_40_T then 5
      else if data_type = DOUBLE_72_T then 9
      else 0)"

text \<open>The start index and the length of the data; the length is computed in eight bits.\<close>

definition neurons_get_data_region_from_package_t :: "neurons_commmd_package_t \<Rightarrow> u8 \<times> u8" where
  "neurons_get_data_region_from_package_t p = (5, data_in_index p - 5 - 2)"

subsection \<open>The codecs\<close>

lemma seven_bits: "(0x7f :: u8) = mask 7"
  by (simp add: mask_eq_exp_minus_1)

lemma bit_seven [bit_simps]: "bit (x AND 0x7f) n \<longleftrightarrow> bit x n \<and> n < 7" for x :: u8
  unfolding seven_bits bit_and_iff bit_mask_iff using bit_imp_le_length [of x n] by auto

lemma bit_byte_val [bit_simps]: "bit (byte_val v i) n \<longleftrightarrow> n < 8 \<and> bit v (8 * i + n)"
  by (auto simp: byte_val_def bit_simps)

lemma no_high_bit: "8 \<le> n \<Longrightarrow> \<not> bit (x :: u8) n"
  using bit_imp_le_length [of x n] by auto

lemma bit_short_val [bit_simps]:
  "bit (short_val b0 b1) n \<longleftrightarrow> (if n < 8 then bit b0 n else n < 16 \<and> bit b1 (n - 8))"
  by (auto simp: short_val_def bit_simps no_high_bit)

lemma seven_plus: "(x AND 0x7f) + push_bit k y = (x AND 0x7f) OR push_bit k (y :: u8)"
  if "\<And>n. n < 7 \<Longrightarrow> k \<le> n \<Longrightarrow> \<not> bit x n"
  using that by (intro disjunctive_add) (auto simp: bit_seven bit_push_bit_iff)

lemmas octet_bits = bit_or_iff bit_seven bit_push_bit_iff bit_drop_bit_eq comp_def bit_byte_val
  bit_short_val bit_unsigned_iff possible_bit_word bit_of_le32

lemma byte_16_bits: "(val AND 0x7f) AND 0x7f OR push_bit 7 (drop_bit 7 val AND 0x7f) = (val :: u8)"
proof (rule bit_word_eqI)
  fix n assume "n < LENGTH(8)"
  then show "bit ((val AND 0x7f) AND 0x7f OR push_bit 7 (drop_bit 7 val AND 0x7f)) n = bit val n"
    by (cases "n = 7") (simp_all only: octet_bits, auto)
qed

lemma seven_eqI: "a = b" if "\<And>n. n < LENGTH('a) \<Longrightarrow> n \<noteq> 7 \<Longrightarrow> bit a n = bit b n" and "bit a 7 = bit b 7"
  for a b :: "'a::len word"
  using that by (metis bit_word_eqI)

lemma short_16_bits:
  fixes val :: u16
  defines "v0 \<equiv> byte_val (ucast val) 0 AND 0x7f"
    and "v1 \<equiv> (push_bit 1 (byte_val (ucast val) 1) OR drop_bit 7 (byte_val (ucast val) 0)) AND 0x7f"
  shows "short_val (v0 AND 0x7f OR push_bit 7 v1) (drop_bit 1 v1 AND 0x7f) = take_bit 14 val"
  unfolding v0_def v1_def
  by (rule seven_eqI) (simp_all only: octet_bits bit_take_bit_iff, auto)

lemma short_24_bits:
  fixes val :: u16
  defines "v0 \<equiv> byte_val (ucast val) 0 AND 0x7f"
    and "v1 \<equiv> (push_bit 1 (byte_val (ucast val) 1) OR drop_bit 7 (byte_val (ucast val) 0)) AND 0x7f"
    and "v2 \<equiv> drop_bit 6 (byte_val (ucast val) 1) AND 0x7f"
  shows "short_val (v0 AND 0x7f OR push_bit 7 v1) (drop_bit 1 v1 AND 0x7f OR push_bit 6 v2) = val"
  unfolding v0_def v1_def v2_def
  by (rule seven_eqI) (simp_all only: octet_bits, auto)

lemma plus_octets:
  "(drop_bit 1 (x AND 0x7f) AND 0x7f) + push_bit 6 (y :: u8) = (drop_bit 1 (x AND 0x7f) AND 0x7f) OR push_bit 6 y"
  "(drop_bit 2 (x AND 0x7f) AND 0x7f) + push_bit 5 y = (drop_bit 2 (x AND 0x7f) AND 0x7f) OR push_bit 5 y"
  "(drop_bit 3 (x AND 0x7f) AND 0x7f) + push_bit 4 y = (drop_bit 3 (x AND 0x7f) AND 0x7f) OR push_bit 4 y"
  by (rule seven_plus; simp only: octet_bits; simp)+

lemma fourteen_eqI: "a = b" if "\<And>n. n < LENGTH('a) \<Longrightarrow> n \<noteq> 7 \<Longrightarrow> n < 14 \<Longrightarrow> bit a n = bit b n" and "bit a 7 = bit b 7"
    and "\<And>n. n < LENGTH('a) \<Longrightarrow> 14 \<le> n \<Longrightarrow> bit a n = bit b n"
  for a b :: "'a::len word"
  using that by (metis bit_word_eqI linorder_not_less)

lemma long_40_bits:
  fixes val :: u32
  defines "v0 \<equiv> byte_val val 0 AND 0x7f"
    and "v1 \<equiv> (push_bit 1 (byte_val val 1) OR drop_bit 7 (byte_val val 0)) AND 0x7f"
    and "v2 \<equiv> (push_bit 2 (byte_val val 2) OR drop_bit 6 (byte_val val 1)) AND 0x7f"
    and "v3 \<equiv> (push_bit 3 (byte_val val 3) OR drop_bit 5 (byte_val val 2)) AND 0x7f"
    and "v4 \<equiv> drop_bit 4 (byte_val val 3) AND 0x7f"
  shows "of_le32 [v0 AND 0x7f OR push_bit 7 v1,
       (drop_bit 1 v1 AND 0x7f) + push_bit 6 v2,
       (drop_bit 2 v2 AND 0x7f) + push_bit 5 v3,
       (drop_bit 3 v3 AND 0x7f) + push_bit 4 v4] = val"
proof -
  define w1 w2 w3 where "w1 = push_bit 1 (byte_val val 1) OR drop_bit 7 (byte_val val 0)"
    and "w2 = push_bit 2 (byte_val val 2) OR drop_bit 6 (byte_val val 1)"
    and "w3 = push_bit 3 (byte_val val 3) OR drop_bit 5 (byte_val val 2)"
  have v: "v1 = w1 AND 0x7f" "v2 = w2 AND 0x7f" "v3 = w3 AND 0x7f"
    by (simp_all only: v1_def v2_def v3_def w1_def w2_def w3_def)
  show ?thesis
    unfolding v plus_octets
    unfolding w1_def w2_def w3_def v0_def v4_def
    by (rule fourteen_eqI) (simp_all only: octet_bits, auto)
qed

subsection \<open>The buffer\<close>

lemma store_all:
  assumes "wf_package p" and "unat (data_in_index p) + length bs \<le> PACKAGE_LEN"
  shows "foldM package_store bs p = Some (p\<lparr>
     pdata := take (unat (data_in_index p)) (pdata p) @ bs @ drop (unat (data_in_index p) + length bs) (pdata p),
     data_in_index := data_in_index p + of_nat (length bs)\<rparr>)"
  using assms
proof (induction bs arbitrary: p)
  case Nil
  then show ?case by simp
next
  case (Cons b bs)
  let ?i = "unat (data_in_index p)"
  from Cons.prems have i: "?i < length (pdata p)" "?i < 64" "length (pdata p) = 64"
    by (auto simp: wf_package_def PACKAGE_LEN_def)
  define q where "q = p\<lparr>pdata := (pdata p)[?i := b], data_in_index := data_in_index p + 1\<rparr>"
  from i have u: "unat (data_in_index q) = Suc ?i"
    by (simp add: q_def unat_plus_1)
  with i Cons.prems have q: "package_store b p = Some q" "wf_package q"
      "unat (data_in_index q) + length bs \<le> PACKAGE_LEN"
    by (auto simp: package_store_def q_def wr_in wf_package_def PACKAGE_LEN_def)
  have "take (Suc ?i) ((pdata p)[?i := b]) = take ?i (pdata p) @ [b]"
    using i by (simp add: take_Suc_update)
  moreover have "drop (Suc ?i + length bs) ((pdata p)[?i := b]) = drop (Suc ?i + length bs) (pdata p)"
    by simp
  ultimately show ?case
    using Cons.IH [OF q(2,3)] unfolding u by (simp add: q(1)) (simp add: q_def ac_simps)
qed

lemma store_overflow:
  assumes "length (pdata p) = PACKAGE_LEN" and "unat (data_in_index p) = PACKAGE_LEN" and "bs \<noteq> []"
  shows "foldM package_store bs p = None"
  using assms by (cases bs) (auto simp: package_store_def wr_out)

lemma package_put_one:
  "neurons_command_package_add_bytes_t p [c] 1 = package_store c p"
  by (cases "package_store c p") (simp_all add: neurons_command_package_add_bytes_t_def for_upto_def rd_def)

lemma sum_region:
  assumes "hi \<le> length d"
  shows "for_upto lo hi (\<lambda>i s. do { b \<leftarrow> rd d i; Some (s + b) }) (a :: u8)
    = Some (a + sum_list (take (hi - lo) (drop lo d)))"
proof (cases "lo \<le> hi")
  case True
  have "foldM (\<lambda>i s. do { b \<leftarrow> rd d i; Some (s + b) }) [lo..<hi] a = Some (fold (\<lambda>i s. s + d ! i) [lo..<hi] a)"
    by (rule foldM_total) (use assms in \<open>auto simp: rd_in\<close>)
  also have "fold (\<lambda>i s. s + d ! i) [lo..<hi] a = fold (\<lambda>x s. s + x) (map ((!) d) [lo..<hi]) a"
    by (simp add: fold_map comp_def)
  also have "map ((!) d) [lo..<hi] = take (hi - lo) (drop lo d)"
    using assms True by (intro nth_equalityI) auto
  finally show ?thesis
    by (simp add: for_upto_def fold_plus_sum_list)
qed simp

text \<open>The package that holds the bytes \<open>xs\<close> from its start and zeros behind them.\<close>

definition package_of :: "u8 list \<Rightarrow> neurons_commmd_package_t" where
  "package_of xs = \<lparr>pdata = xs @ replicate (PACKAGE_LEN - length xs) 0, data_in_index = of_nat (length xs)\<rparr>"

lemma package_of_Nil: "package_of [] = neurons_command_package_reset"
  by (simp add: package_of_def neurons_command_package_reset_def)

lemma unat_small: "n < 256 \<Longrightarrow> unat (of_nat n :: u8) = n"
  by (simp add: unat_of_nat)

lemma wf_package_of [simp]: "length xs \<le> PACKAGE_LEN \<Longrightarrow> wf_package (package_of xs)"
  by (simp add: wf_package_def package_of_def PACKAGE_LEN_def unat_small)

lemma store_package_of:
  assumes "length xs + length ys \<le> PACKAGE_LEN"
  shows "foldM package_store ys (package_of xs) = Some (package_of (xs @ ys))"
proof -
  have "unat (data_in_index (package_of xs)) = length xs"
    using assms by (simp add: package_of_def PACKAGE_LEN_def unat_small)
  then show ?thesis
    using assms store_all [of "package_of xs" ys] wf_package_of [of xs]
    by (simp add: package_of_def PACKAGE_LEN_def del: wf_package_of)
qed

lemma add_data_package_of [neurons_defs]:
  "length xs + length (neurons_value_bytes t v) \<le> PACKAGE_LEN \<Longrightarrow>
   neurons_buffer_add_data_t (package_of xs) t v = Some (package_of (xs @ neurons_value_bytes t v))"
  by (simp add: neurons_buffer_add_data_t_def store_package_of)

lemma value_byte_8 [simp]: "neurons_value_bytes BYTE_8_T v = [ucast v]"
  by (simp add: neurons_value_bytes_def value_to_neurons_byte_8_def)

text \<open>The check sum of a frame is the sum of the bytes behind the head, in seven bits.\<close>

definition neurons_check :: "u8 list \<Rightarrow> u8" where
  "neurons_check xs = sum_list xs AND 0x7f"

lemma byte_of_word [simp]: "ucast (ucast (b :: u8) :: u32) = b"
  by (rule bit_word_eqI) (simp add: bit_simps)

definition head_bytes :: "neurons_command_frame_t \<Rightarrow> bool \<Rightarrow> u8 list" where
  "head_bytes f sub = [device_id f, service_id f] @ (if sub then [sub_service_id f] else [])"

lemma add_head_package_of:
  "neurons_buffer_add_head_frame_t f (package_of []) sub = Some (package_of (head f # head_bytes f sub))"
  by (simp add: neurons_buffer_add_head_frame_t_def add_data_package_of PACKAGE_LEN_def head_bytes_def)

lemma add_end_package_of:
  assumes "length xs + 3 \<le> PACKAGE_LEN"
  shows "neurons_buffer_add_end_frame_t f (package_of (h # xs))
    = Some ((package_of (h # xs @ [neurons_check xs, end_byte f]))\<lparr>data_in_index := 0\<rparr>)"
proof -
  have "unat (data_in_index (package_of (h # xs))) = Suc (length xs)"
    using assms by (simp add: package_of_def PACKAGE_LEN_def unat_small del: of_nat_Suc)
  moreover have "for_upto 1 (Suc (length xs)) (\<lambda>i s. do { b \<leftarrow> rd (pdata (package_of (h # xs))) i; Some (s + b) }) 0
      = Some (sum_list xs)"
    using assms by (subst sum_region) (simp_all add: package_of_def)
  ultimately show ?thesis
    using assms
    by (simp add: neurons_buffer_add_end_frame_t_def add_data_package_of PACKAGE_LEN_def neurons_check_def)
qed

subsection \<open>Receiving\<close>

lemma store_one:
  assumes "length xs < PACKAGE_LEN"
  shows "package_store c (package_of xs) = Some (package_of (xs @ [c]))"
  using store_package_of [of xs "[c]"] assms
  by (cases "package_store c (package_of xs)") simp_all

lemma check_sum_package_of:
  assumes "length xs + 3 \<le> PACKAGE_LEN"
  shows "neurons_package_check_sum_t (package_of (h # xs @ [ck, e])) = Some (neurons_check xs = ck)"
proof -
  have u: "unat (data_in_index (package_of (h # xs @ [ck, e]))) = length xs + 3"
    using assms by (simp add: package_of_def PACKAGE_LEN_def unat_small del: of_nat_Suc)
  have "for_upto 1 (length xs + 1)
      (\<lambda>i s. do { b \<leftarrow> rd (pdata (package_of (h # xs @ [ck, e]))) i; Some (s + b) }) 0 = Some (sum_list xs)"
    using assms by (subst sum_region) (simp_all add: package_of_def)
  then show ?thesis
    using assms u
    by (auto simp: neurons_package_check_sum_t_def neurons_check_def rd_def package_of_def
        nth_append PACKAGE_LEN_def)
qed

text \<open>A receiver state is ready for protocol \<open>i\<close> when the flag array has its ten cells.\<close>

lemma put_head:
  assumes "i < 10" and "length begins = 10"
  shows "neurons_command_package_put_t cb h e per i h (p, begins, s)
    = Some (package_of [h], begins[unat i := True], s)"
proof -
  have "unat i < 10" using assms(1) by (simp add: word_less_nat_alt)
  then show ?thesis
    using assms store_one [of "[]" h]
    by (auto simp: neurons_command_package_put_t_def wr_in package_put_one package_of_Nil
        PACKAGE_LEN_def linorder_not_le)
qed

lemma put_body_byte:
  assumes "i < 10" and "length begins = 10" and "begins ! unat i" and "c \<noteq> h" and "c \<noteq> e"
    and "length xs < PACKAGE_LEN"
  shows "neurons_command_package_put_t cb h e per i c (package_of xs, begins, s)
    = Some (package_of (xs @ [c]), begins, s)"
proof -
  have "unat i < 10" using assms(1) by (simp add: word_less_nat_alt)
  then show ?thesis
    using assms store_one [of xs c]
    by (auto simp: neurons_command_package_put_t_def rd_in package_put_one linorder_not_le)
qed

lemma put_body:
  assumes "i < 10" and "length begins = 10" and "begins ! unat i" and "h \<notin> set ys" and "e \<notin> set ys"
    and "length xs + length ys \<le> PACKAGE_LEN"
  shows "foldM (neurons_command_package_put_t cb h e per i) ys (package_of xs, begins, s)
    = Some (package_of (xs @ ys), begins, s)"
  using assms(4-)
proof (induction ys arbitrary: xs)
  case (Cons y ys)
  with assms(1-3) show ?case
    using Cons.IH [of "xs @ [y]"] put_body_byte [of i begins y h e xs cb per s] by auto
qed simp

lemma put_end:
  assumes "i < 10" and "length begins = 10" and "begins ! unat i" and "h \<noteq> e"
    and "length xs + 3 \<le> PACKAGE_LEN"
  shows "neurons_command_package_put_t cb h e per i e (package_of (b # xs @ [ck]), begins, s)
    = do { s' \<leftarrow> (if neurons_check xs = ck then cb (package_of (b # xs @ [ck, e])) per s else Some s);
           Some (package_of (b # xs @ [ck, e]), begins[unat i := False], s') }"
proof -
  have "unat i < 10" using assms(1) by (simp add: word_less_nat_alt)
  then show ?thesis
    using assms store_one [of "b # xs @ [ck]" e] check_sum_package_of [of xs b ck e]
    by (auto simp: neurons_command_package_put_t_def rd_in wr_in package_put_one linorder_not_le)
qed

text \<open>One frame, read from any state.\<close>

lemma receive_frame:
  assumes "i < 10" and "length begins = 10" and "h \<noteq> e" and "h \<notin> set (xs @ [ck])"
    and "e \<notin> set (xs @ [ck])" and "length xs + 3 \<le> PACKAGE_LEN"
  shows "foldM (neurons_command_package_put_t cb h e per i) (h # xs @ [ck, e]) (p, begins, s)
    = do { s' \<leftarrow> (if neurons_check xs = ck then cb (package_of (h # xs @ [ck, e])) per s else Some s);
           Some (package_of (h # xs @ [ck, e]), begins[unat i := False], s') }"
proof -
  let ?put = "neurons_command_package_put_t cb h e per i"
  have u: "unat i < length begins" using assms(1,2) by (simp add: word_less_nat_alt)
  have "foldM ?put (xs @ [ck]) (package_of [h], begins[unat i := True], s)
      = Some (package_of (h # xs @ [ck]), begins[unat i := True], s)"
    using assms u put_body [of i "begins[unat i := True]" h "xs @ [ck]" e "[h]"] by simp
  then have "foldM ?put ((xs @ [ck]) @ [e]) (package_of [h], begins[unat i := True], s)
      = foldM ?put [e] (package_of (h # xs @ [ck]), begins[unat i := True], s)"
    by (subst foldM_append) simp
  then show ?thesis
    using assms u by (simp add: put_head put_end split: option.splits Option.bind_split)
qed

lemma put_noise:
  assumes "i < 10" and "length begins = 10" and "\<not> begins ! unat i" and "h \<notin> set ys"
  shows "foldM (neurons_command_package_put_t cb h e per i) ys (p, begins, s) = Some (p, begins, s)"
  using assms(4)
proof (induction ys)
  case (Cons y ys)
  have "unat i < 10" using assms(1) by (simp add: word_less_nat_alt)
  with Cons.prems assms(1-3) have "neurons_command_package_put_t cb h e per i y (p, begins, s) = Some (p, begins, s)"
    by (auto simp: neurons_command_package_put_t_def rd_in)
  with Cons show ?case by simp
qed simp

text \<open>What a transmission is made of: noise without a head byte, then a body and its check byte.\<close>

type_synonym transmission = "u8 list \<times> u8 list \<times> u8"

definition wf_transmission :: "u8 \<Rightarrow> u8 \<Rightarrow> transmission \<Rightarrow> bool" where
  "wf_transmission h e tr = (case tr of (noise, xs, ck) \<Rightarrow>
     h \<notin> set noise \<and> h \<notin> set (xs @ [ck]) \<and> e \<notin> set (xs @ [ck]) \<and> length xs + 3 \<le> PACKAGE_LEN)"

definition transmitted :: "u8 \<Rightarrow> u8 \<Rightarrow> transmission \<Rightarrow> u8 list" where
  "transmitted h e tr = (case tr of (noise, xs, ck) \<Rightarrow> noise @ h # xs @ [ck, e])"

definition handled :: "(neurons_commmd_package_t \<Rightarrow> u8 \<Rightarrow> 's \<Rightarrow> 's option) \<Rightarrow> u8 \<Rightarrow> u8 \<Rightarrow> u8
    \<Rightarrow> transmission \<Rightarrow> 's \<Rightarrow> 's option" where
  "handled cb h e per tr s = (case tr of (noise, xs, ck) \<Rightarrow>
     if neurons_check xs = ck then cb (package_of (h # xs @ [ck, e])) per s else Some s)"

lemma receive_transmission:
  assumes "i < 10" and "length begins = 10" and "\<not> begins ! unat i" and "h \<noteq> e"
    and "wf_transmission h e (noise, xs, ck)"
  shows "foldM (neurons_command_package_put_t cb h e per i) (transmitted h e (noise, xs, ck)) (p, begins, s)
    = do { s' \<leftarrow> handled cb h e per (noise, xs, ck) s; Some (package_of (h # xs @ [ck, e]), begins, s') }"
proof -
  have same: "begins[unat i := False] = begins"
    using assms(3) by (metis list_update_id)
  have wf: "h \<notin> set noise" "h \<notin> set (xs @ [ck])" "e \<notin> set (xs @ [ck])" "length xs + 3 \<le> PACKAGE_LEN"
    using assms(5) by (auto simp: wf_transmission_def)
  show ?thesis
    unfolding transmitted_def handled_def prod.case foldM_append put_noise [OF assms(1-3) wf(1)]
    by (simp add: receive_frame [OF assms(1,2,4) wf(2-4)] same del: foldM.simps append.simps)
qed

text \<open>
  C9. A stream of frames with noise between them: the receiver calls its callback for exactly
  the frames whose check sum is right, in their order, each with a package that holds the whole
  frame; what the receiver collected before does not matter, and frames with a wrong check sum
  and bytes outside frames are dropped.
\<close>

theorem neurons_stream_received:
  assumes "i < 10" and "length begins = 10" and "\<not> begins ! unat i" and "h \<noteq> e"
    and "list_all (wf_transmission h e) trs"
  shows "map_option (\<lambda>(p, begins, s). (begins, s))
      (foldM (neurons_command_package_put_t cb h e per i) (concat (map (transmitted h e) trs)) (p, begins, s))
    = map_option (\<lambda>s. (begins, s)) (foldM (handled cb h e per) trs s)"
  using assms(3,5)
proof (induction trs arbitrary: p s)
  case (Cons tr trs)
  obtain noise xs ck where tr: "tr = (noise, xs, ck)" by (cases tr)
  with Cons.prems have wf: "wf_transmission h e (noise, xs, ck)" by simp
  show ?case
    using Cons.IH [OF Cons.prems(1)] Cons.prems
    by (cases "handled cb h e per (noise, xs, ck) s")
      (simp_all add: tr foldM_append receive_transmission [OF assms(1,2) Cons.prems(1) assms(4) wf])
qed simp

text \<open>Three transmissions on protocol 2: a good frame, a broken one and noise before a good one.\<close>

theorem neurons_stream_received_witness:
  "map_option (\<lambda>(p, begins, s). (begins, s))
     (foldM (neurons_command_package_put_t (\<lambda>p per log. Some (log @ [take (unat (data_in_index p)) (pdata p)])) 0xF0 0xF7 2 2)
        ([0xF0, 1, 2, 3, 0xF7] @ [0xF0, 1, 2, 4, 0xF7] @ [9, 0xF7, 0xF0, 5, 5, 0xF7])
        (neurons_command_package_reset, replicate 10 False, []))
   = Some (replicate 10 False, [[0xF0, 1, 2, 3, 0xF7], [0xF0, 5, 5, 0xF7]])"
  using neurons_stream_received [of 2 "replicate 10 False" "0xF0" "0xF7"
      "[([], [1, 2], 3), ([], [1, 2], 4), ([9, 0xF7], [5], 5)]"
      "\<lambda>p per log. Some (log @ [take (unat (data_in_index p)) (pdata p)])" 2
      neurons_command_package_reset "[]"]
  by (simp add: wf_transmission_def transmitted_def handled_def neurons_check_def PACKAGE_LEN_def
      package_of_def)

text \<open>
  The package has 64 bytes and the receiver does not count them: a head byte followed by 64
  bytes that are neither a head nor an end byte makes the receiver store outside the array.
\<close>

theorem neurons_package_overrun:
  assumes "i < 10" and "length begins = 10" and "h \<notin> set ys" and "e \<notin> set ys" and "64 \<le> length ys"
  shows "foldM (neurons_command_package_put_t cb h e per i) (h # ys) (p, begins, s) = None"
proof -
  let ?put = "neurons_command_package_put_t cb h e per i" and ?b = "begins[unat i := True]"
  have u: "unat i < length begins" using assms(1,2) by (simp add: word_less_nat_alt)
  define zs c where "zs = take 63 ys" and "c = ys ! 63"
  have ys: "ys = zs @ c # drop 64 ys"
    using assms(5) id_take_nth_drop [of 63 ys] by (simp add: zs_def c_def)
  have c: "c \<noteq> h" "c \<noteq> e" using assms(3-5) by (auto simp: c_def)
  have "set zs \<subseteq> set ys" by (simp add: zs_def set_take_subset)
  then have "foldM ?put zs (package_of [h], ?b, s) = Some (package_of (h # zs), ?b, s)"
    using assms u put_body [of i ?b h zs e "[h]" cb per s] by (auto simp: zs_def PACKAGE_LEN_def)
  moreover have "package_store c (package_of (h # zs)) = None"
    using store_overflow [of "package_of (h # zs)" "[c]"] assms(5)
    by (simp add: zs_def package_of_def PACKAGE_LEN_def unat_small package_store_def wr_out)
  then have "?put c (package_of (h # zs), ?b, s) = None"
    using c u assms(1,2) by (simp add: neurons_command_package_put_t_def rd_in package_put_one linorder_not_le)
  ultimately show ?thesis
    by (subst ys) (simp add: put_head assms(1,2) foldM_append)
qed

theorem neurons_package_overrun_witness:
  "foldM (neurons_command_package_put_t (\<lambda>p per s. Some ()) 0xF0 0xF7 2 2) (0xF0 # replicate 64 1)
     (neurons_command_package_reset, replicate 10 False, ()) = None"
  by (rule neurons_package_overrun) simp_all

text \<open>What a value of a type is worth after the way through a frame.\<close>

definition neurons_value_of :: "u8 \<Rightarrow> u32 \<Rightarrow> neurons_value" where
  "neurons_value_of t v =
     (if t = BYTE_8_T then Val8 (ucast v AND 0x7f)
      else if t = BYTE_16_T then Val8 (ucast v)
      else if t = SHORT_16_T then Val16 (take_bit 14 (ucast v))
      else if t = SHORT_24_T then Val16 (ucast v)
      else if t = LONG_40_T \<or> t = FLOAT_40_T then Val32 v
      else Untouched)"

lemma read_long_40:
  "long_40_to_value (xs @ value_to_neurons_long_40 v @ zs) (length xs) = Some v"
  "float_40_to_value (xs @ value_to_neurons_float_40 v @ zs) (length xs) = Some v"
  by (simp_all add: long_40_to_value_def float_40_to_value_def value_to_neurons_long_40_def
      value_to_neurons_float_40_def Let_def rd_in nth_append long_40_bits [simplified])

lemma read_short_24: "short_24_to_value (xs @ value_to_neurons_short_24 v @ zs) (length xs) = Some v"
  by (simp add: short_24_to_value_def value_to_neurons_short_24_def Let_def rd_in nth_append
      short_24_bits [simplified])

lemma read_short_16:
  "short_16_to_value (xs @ value_to_neurons_short_16 v @ zs) (length xs) = Some (take_bit 14 v)"
  by (simp add: short_16_to_value_def value_to_neurons_short_16_def Let_def rd_in nth_append
      short_16_bits [simplified])

lemma read_byte_16: "byte_16_to_value (xs @ value_to_neurons_byte_16 v @ zs) (length xs) = Some v"
  by (simp add: byte_16_to_value_def value_to_neurons_byte_16_def rd_in nth_append
      byte_16_bits [simplified])

lemma read_byte_8: "byte_8_to_value (xs @ value_to_neurons_byte_8 v @ zs) (length xs) = Some (v AND 0x7f)"
  by (simp add: byte_8_to_value_def value_to_neurons_byte_8_def rd_in nth_append)

lemmas neurons_readers = read_long_40 read_short_24 read_short_16 read_byte_16 read_byte_8

lemma add_data_stored:
  assumes "wf_package p" and "unat (data_in_index p) + length (neurons_value_bytes t v) \<le> PACKAGE_LEN"
  shows "\<exists>q zs. neurons_buffer_add_data_t p t v = Some q \<and> wf_package q
     \<and> pdata q = take (unat (data_in_index p)) (pdata p) @ neurons_value_bytes t v @ zs"
  unfolding neurons_buffer_add_data_t_def store_all [OF assms]
  using assms by (auto simp: wf_package_def PACKAGE_LEN_def unat_word_ariths unat_of_nat)

text \<open>
  A value that is added to a package with room for it is read back from the same index by
  its type: bytes of seven bits, 16-bit signed and 32-bit values exactly, the unsigned 16-bit
  type only in its lower 14 bits.
\<close>

theorem neurons_value_round_trip:
  assumes "wf_package p" and "unat (data_in_index p) + length (neurons_value_bytes t v) \<le> PACKAGE_LEN"
  shows "\<exists>q. neurons_buffer_add_data_t p t v = Some q \<and> wf_package q
     \<and> neurons_buffer_read_value_t q NEURONS_FRAME_CMD_DATA (data_in_index p) t = Some (neurons_value_of t v)"
proof -
  obtain q zs where q: "neurons_buffer_add_data_t p t v = Some q" "wf_package q"
    "pdata q = take (unat (data_in_index p)) (pdata p) @ neurons_value_bytes t v @ zs"
    using add_data_stored [OF assms] by blast
  define xs where "xs = take (unat (data_in_index p)) (pdata p)"
  have len: "unat (data_in_index p) = length xs"
    using assms(1) by (simp add: xs_def wf_package_def)
  have "pdata q = xs @ neurons_value_bytes t v @ zs"
    by (simp add: q(3) xs_def)
  then show ?thesis
    using q(1,2) by (auto simp: neurons_buffer_read_value_t_def neurons_read_value_by_type_t_def len
        neurons_value_bytes_def neurons_value_of_def neurons_readers)
qed

theorem neurons_value_round_trip_witness:
  "\<exists>q. neurons_buffer_add_data_t (package_of [0xF0, 1]) SHORT_16_T 40000 = Some q \<and> wf_package q
     \<and> neurons_buffer_read_value_t q NEURONS_FRAME_CMD_DATA 2 SHORT_16_T = Some (Val16 7232)"
  using neurons_value_round_trip [of "package_of [0xF0, 1]" SHORT_16_T 40000]
  by (simp add: package_of_def wf_package_def PACKAGE_LEN_def neurons_value_bytes_def neurons_data_type_t
      value_to_neurons_short_16_def Let_def neurons_value_of_def)

text \<open>The length of the data of a package of fewer than seven bytes wraps around.\<close>

lemma data_region_wraps:
  "data_in_index p = 4 \<Longrightarrow> neurons_get_data_region_from_package_t p = (5, 253)"
  by (simp add: neurons_get_data_region_from_package_t_def)

end
