(* ===== verification/Neurons_Engine.thy ===== *)
theory Neurons_Engine
  imports Neurons_Protocol Bounded_Queue
begin

text \<open>
  The engine of the neuron blocks (\<open>neurons_engine_list_maintain.c\<close>): the table of the blocks
  that are on line, the look-up of the byte types of a command or an answer in the block
  library, the frames the engine sends, the buffer of commands from the interpreter and the
  reading of answers.  The linked list of the library entries is in \<open>Neurons_Block_List\<close>.

  Pointers are natural numbers, 0 is the null pointer; the objects behind them are maps.
\<close>

unbundle bit_operations_syntax

subsection \<open>The on-line table\<close>

type_synonym pointer = nat

record lib_entry =
  lib_block_type :: u8
  lib_block_sub_type :: u8
  block_num :: u8
  command_data_type :: "u8 list"
  respond_data_type :: "u8 list"

record block_info =
  block_type :: u8
  block_sub_type :: u8
  dev_id :: u8
  offline_time :: u8
  block_ram_addr :: pointer
  respond_data_buffer_size :: u8
  respond_data_buffer :: pointer

record read_cmd =
  rc_dev_id :: u8
  rc_block_id :: u8
  rc_sub_id :: u8
  rc_read_cmd_id :: u8

record engine =
  now_group_index :: u8
  blocks_num :: "u8 list"
  blocks_info :: "block_info list list"
  libs :: "pointer \<Rightarrow> lib_entry option"
  bufs :: "pointer \<Rightarrow> u8 list option"
  read_command :: read_cmd
  read_sema :: bool

definition NEURONS_NODE_MAX :: nat where "NEURONS_NODE_MAX = 50"
definition RESPOND_LEN :: nat where "RESPOND_LEN = 7"
definition COMMAND_LEN :: nat where "COMMAND_LEN = 6"
definition COMMAND_ITEM_MAX :: nat where "COMMAND_ITEM_MAX = 5"
definition RESPOND_ITEM_MAX :: nat where "RESPOND_ITEM_MAX = 5"
definition RES_CMD_TYPE_MAX :: nat where "RES_CMD_TYPE_MAX = 5"
definition ALTERABLE_NUM_BYTE :: u8 where "ALTERABLE_NUM_BYTE = 0xb0"

definition neurons_engine_get_main_list_now_group_t :: "engine \<Rightarrow> nat" where
  "neurons_engine_get_main_list_now_group_t s = (unat (now_group_index s) + 1) mod 2"

definition neurons_engine_get_main_list_length_t :: "engine \<Rightarrow> u8 option" where
  "neurons_engine_get_main_list_length_t s = rd (blocks_num s) ((unat (now_group_index s) + 1) mod 2)"

text \<open>A function that may answer the null pointer has the result \<open>Some None\<close> for it.\<close>

definition block_at :: "engine \<Rightarrow> nat \<Rightarrow> nat \<Rightarrow> block_info option" where
  "block_at s g i = do { row \<leftarrow> rd (blocks_info s) g; rd row i }"

definition neurons_engine_get_main_list_block_info_by_id_t ::
    "engine \<Rightarrow> nat \<Rightarrow> u8 \<Rightarrow> block_info option option" where
  "neurons_engine_get_main_list_block_info_by_id_t s now_group bid =
     (if 1 < now_group \<or> NEURONS_NODE_MAX \<le> unat bid then Some None
      else do {
        b \<leftarrow> block_at s now_group (unat bid);
        Some (if block_ram_addr b = 0 then None else Some b) })"

text \<open>
  The search by position: the \<open>index\<close>-th block of a type.  The 8-bit counter is compared with
  the 8-bit number of blocks, so with 255 blocks in the table the loop does not end.
\<close>

partial_function (option) by_index_loop ::
    "engine \<Rightarrow> nat \<Rightarrow> u8 \<Rightarrow> u8 \<Rightarrow> u8 \<Rightarrow> u8 \<Rightarrow> u8 \<Rightarrow> u8 \<Rightarrow> block_info option option" where
  "by_index_loop s now_group main_list_len index ty sub i now_index =
     (if i \<le> main_list_len then do {
        info \<leftarrow> neurons_engine_get_main_list_block_info_by_id_t s now_group i;
        case info of
          None \<Rightarrow> by_index_loop s now_group main_list_len index ty sub (i + 1) now_index
        | Some b \<Rightarrow> do {
            e \<leftarrow> libs s (block_ram_addr b);
            if lib_block_type e = ty \<and> lib_block_sub_type e = sub then
              (if now_index + 1 = index then Some (Some b)
               else by_index_loop s now_group main_list_len index ty sub (i + 1) (now_index + 1))
            else by_index_loop s now_group main_list_len index ty sub (i + 1) now_index } }
      else Some None)"

declare by_index_loop.simps [code]

definition neurons_engine_get_main_list_block_info_by_index_t ::
    "engine \<Rightarrow> u8 \<Rightarrow> u8 \<Rightarrow> u8 \<Rightarrow> block_info option option" where
  "neurons_engine_get_main_list_block_info_by_index_t s index ty sub =
     (if index = 0 then Some None
      else do {
        n \<leftarrow> neurons_engine_get_main_list_length_t s;
        by_index_loop s (neurons_engine_get_main_list_now_group_t s) n index ty sub 1 0 })"

definition neurons_engine_find_block_in_main_list_by_id_t :: "engine \<Rightarrow> u8 \<Rightarrow> u8 \<Rightarrow> u8 \<Rightarrow> nat option" where
  "neurons_engine_find_block_in_main_list_by_id_t s did ty sub = do {
     info \<leftarrow> neurons_engine_get_main_list_block_info_by_id_t s (neurons_engine_get_main_list_now_group_t s) did;
     Some (case info of None \<Rightarrow> 1
       | Some b \<Rightarrow> if ty = block_type b \<and> sub = block_sub_type b then 0 else 2) }"

definition neurons_engine_find_block_in_main_llist_by_index_t :: "engine \<Rightarrow> u8 \<Rightarrow> u8 \<Rightarrow> u8 \<Rightarrow> nat option" where
  "neurons_engine_find_block_in_main_llist_by_index_t s index ty sub =
     (if index = 0 then Some 1
      else do {
        n \<leftarrow> neurons_engine_get_main_list_length_t s;
        info \<leftarrow> by_index_loop s (neurons_engine_get_main_list_now_group_t s) n index ty sub 1 0;
        Some (case info of None \<Rightarrow> 2 | Some b \<Rightarrow> 0) })"

text \<open>A block that answers the identification request; the device number is the row index.\<close>

definition neurons_engine_add_new_block_t :: "u8 \<Rightarrow> u8 \<Rightarrow> u8 \<Rightarrow> engine \<Rightarrow> engine option" where
  "neurons_engine_add_new_block_t did ty sub s =
     (let g = unat (now_group_index s) in do {
       row \<leftarrow> rd (blocks_info s) g;
       b \<leftarrow> rd row (unat did);
       row \<leftarrow> wr row (unat did) (b\<lparr>block_type := ty, block_sub_type := sub, dev_id := did\<rparr>);
       rows \<leftarrow> wr (blocks_info s) g row;
       n \<leftarrow> rd (blocks_num s) g;
       ns \<leftarrow> wr (blocks_num s) g (n + 1);
       Some (s\<lparr>blocks_info := rows, blocks_num := ns\<rparr>) })"

subsection \<open>The types of a command\<close>

text \<open>The last entry with the wanted number; entries are \<open>step\<close> bytes, the first byte counts them.\<close>

definition entry_offset :: "nat \<Rightarrow> u8 list \<Rightarrow> u8 \<Rightarrow> nat option" where
  "entry_offset step d wanted = do {
     n \<leftarrow> rd d 0;
     for_upto 1 (unat n + 1) (\<lambda>i off. do {
       c \<leftarrow> rd d (1 + (i - 1) * step);
       Some (if c = wanted then 1 + (i - 1) * step else off) }) 0 }"

text \<open>The length of an entry: up to its first zero, at most one more than the bound.\<close>

fun entry_length :: "nat \<Rightarrow> u8 list \<Rightarrow> nat \<Rightarrow> nat \<Rightarrow> nat option" where
  "entry_length 0 d off n = do { c \<leftarrow> rd d (off + n); Some (if c \<noteq> 0 then n + 1 else n) }"
| "entry_length (Suc left) d off n = do {
     c \<leftarrow> rd d (off + n);
     if c \<noteq> 0 then entry_length left d off (n + 1) else Some n }"

definition copy_entry :: "u8 list \<Rightarrow> nat \<Rightarrow> nat \<Rightarrow> u8 list \<Rightarrow> u8 list option" where
  "copy_entry d off n out = for_upto 0 n (\<lambda>i out. do { c \<leftarrow> rd d (off + i); wr out i c }) out"

definition neurons_engine_get_command_info_t ::
    "engine \<Rightarrow> block_info \<Rightarrow> u8 \<Rightarrow> u8 list \<Rightarrow> (u8 list \<times> nat) option" where
  "neurons_engine_get_command_info_t s info cmd_id data = do {
     e \<leftarrow> libs s (block_ram_addr info);
     off \<leftarrow> entry_offset COMMAND_LEN (command_data_type e) cmd_id;
     if off = 0 then Some (data, 0)
     else do {
       n \<leftarrow> entry_length COMMAND_ITEM_MAX (command_data_type e) off 0;
       data \<leftarrow> copy_entry (command_data_type e) off n data;
       Some (data, n) } }"

text \<open>The answer types; \<open>respond_data_offset\<close> is the last byte of the entry.\<close>

definition special_types :: "u8 list \<Rightarrow> nat \<Rightarrow> nat \<Rightarrow> nat option" where
  "special_types d off n = for_upto 0 n (\<lambda>i k. do {
     c \<leftarrow> rd d (off + i);
     Some (if c AND 0xf0 = ALTERABLE_NUM_BYTE then k + 1 else k) }) 0"

definition neurons_engine_get_respond_info_t ::
    "engine \<Rightarrow> block_info \<Rightarrow> u8 \<Rightarrow> u8 list \<Rightarrow> (u8 list \<times> nat \<times> u8 option) option" where
  "neurons_engine_get_respond_info_t s info respond_id data = do {
     e \<leftarrow> libs s (block_ram_addr info);
     off \<leftarrow> entry_offset RESPOND_LEN (respond_data_type e) respond_id;
     if off = 0 then Some (data, 0, None)
     else do {
       n \<leftarrow> entry_length RESPOND_ITEM_MAX (respond_data_type e) off 0;
       k \<leftarrow> special_types (respond_data_type e) off (min n RESPOND_ITEM_MAX);
       data \<leftarrow> copy_entry (respond_data_type e) off n data;
       v \<leftarrow> rd (respond_data_type e) (off + 6);
       Some (data, (if n - k > 5 then 5 else n - k), Some v) } }"

subsection \<open>Numbers from the interpreter\<close>

text \<open>
  A command carries its numbers as \<open>float\<close>, here the 32 bits of one.  Conversion to an integer
  drops the fraction; a value outside the target type is undefined.
\<close>

definition float_trunc :: "u32 \<Rightarrow> int option" where
  "float_trunc b =
     (let e = unat (drop_bit 23 b AND 0xff); m = uint (b AND 0x7fffff);
          mag = (if e < 150 then (m + 2 ^ 23) div 2 ^ (150 - e) else (m + 2 ^ 23) * 2 ^ (e - 150))
      in if e = 255 then None
         else if e = 0 then Some 0
         else Some (if drop_bit 31 b = 1 then - mag else mag))"

definition float_to_unsigned :: "nat \<Rightarrow> u32 \<Rightarrow> u32 option" where
  "float_to_unsigned n b = do {
     i \<leftarrow> float_trunc b;
     if 0 \<le> i \<and> i < 2 ^ n then Some (word_of_int i) else None }"

definition float_to_signed :: "nat \<Rightarrow> u32 \<Rightarrow> u32 option" where
  "float_to_signed n b = do {
     i \<leftarrow> float_trunc b;
     if - (2 ^ (n - 1)) \<le> i \<and> i < 2 ^ (n - 1) then Some (word_of_int i) else None }"

text \<open>The value of a type that is cut out of a number, as in the cases of the sender.\<close>

definition command_value :: "u8 \<Rightarrow> u32 \<Rightarrow> u32 option" where
  "command_value t x =
     (if t = BYTE_8_T then float_to_unsigned 8 x
      else if t = BYTE_16_T then float_to_signed 8 x
      else if t = SHORT_16_T then float_to_unsigned 16 x
      else if t = SHORT_24_T then float_to_signed 16 x
      else if t = LONG_40_T then float_to_signed 32 x
      else Some x)"

subsection \<open>Sending a command\<close>

record neurons_comnad_type_t =
  type_id :: u8
  sub_type_id :: u8
  index :: u8
  cmd_id :: u8
  cmd_data_len :: u8
  cmd_data :: "u32 list"

definition CMD_DATA_BUFFER_LEN :: nat where "CMD_DATA_BUFFER_LEN = 128"

text \<open>
  \<open>count\<close> values of one type, from the position \<open>k\<close> of the numbers; types without a case only
  advance the position.
\<close>

fun add_values :: "u32 list \<Rightarrow> u8 \<Rightarrow> nat \<Rightarrow> u8 \<times> neurons_commmd_package_t \<Rightarrow> (u8 \<times> neurons_commmd_package_t) option" where
  "add_values nums t 0 (k, p) = Some (k, p)"
| "add_values nums t (Suc m) (k, p) = do {
     p \<leftarrow> (if t \<in> {BYTE_8_T, BYTE_16_T, SHORT_16_T, SHORT_24_T, LONG_40_T, FLOAT_40_T}
           then do { x \<leftarrow> rd nums (unat k); v \<leftarrow> command_value t x; neurons_buffer_add_data_t p t v }
           else Some p);
     add_values nums t m (k + 1, p) }"

text \<open>
  One data type of the command: the upper half of its byte is a repetition, or marks a repetition
  given by the number before.  The first type cannot be of that kind: \<open>None\<close> in the second
  component stands for the early return.
\<close>

definition send_type :: "u32 list \<Rightarrow> u8 list \<Rightarrow> nat \<Rightarrow> u8 \<times> neurons_commmd_package_t
    \<Rightarrow> (u8 \<times> neurons_commmd_package_t) option option" where
  "send_type nums types i st =
     (let (k, p) = st in do {
       t \<leftarrow> rd types i;
       if t AND 0xf0 = ALTERABLE_NUM_BYTE then
         (if i = 1 then Some None
          else do {
            x \<leftarrow> rd nums (unat (k - 1));
            n \<leftarrow> float_to_unsigned 8 x;
            st \<leftarrow> add_values nums (t AND 0x0f) (unat n) (k, p);
            Some (Some st) })
       else do {
         st \<leftarrow> add_values nums (t AND 0x0f)
           (let n = unat (drop_bit 4 (t AND 0xf0)) in if n = 0 then 1 else n) (k, p);
         Some (Some st) } })"

fun send_types :: "u32 list \<Rightarrow> u8 list \<Rightarrow> nat list \<Rightarrow> u8 \<times> neurons_commmd_package_t
    \<Rightarrow> neurons_commmd_package_t option option" where
  "send_types nums types [] (k, p) = Some (Some p)"
| "send_types nums types (i # is) (k, p) = do {
     r \<leftarrow> send_type nums types i (k, p);
     case r of None \<Rightarrow> Some None | Some st \<Rightarrow> send_types nums types is st }"

text \<open>The result: the status 0 or 1 and what went to the links.\<close>

definition neurons_engine_send_single_command_t ::
    "engine \<Rightarrow> neurons_comnad_type_t \<Rightarrow> (nat \<times> (link \<times> u8 list) list) option" where
  "neurons_engine_send_single_command_t s c = do {
     info \<leftarrow> neurons_engine_get_main_list_block_info_by_index_t s (index c) (type_id c) (sub_type_id c);
     case info of
       None \<Rightarrow> Some (0, [])
     | Some b \<Rightarrow> do {
         (types, n) \<leftarrow> neurons_engine_get_command_info_t s b (cmd_id c) (replicate RES_CMD_TYPE_MAX 0);
         if n = 0 then Some (0, [])
         else do {
           let f = \<lparr>head = START_SYSEX, device_id = dev_id b, service_id = block_type b,
                     sub_service_id = block_sub_type b, end_byte = END_SYSEX\<rparr>;
           p \<leftarrow> neurons_buffer_add_head_frame_t f (package_of []) True;
           p \<leftarrow> neurons_buffer_add_data_t p BYTE_8_T (ucast (cmd_id c));
           r \<leftarrow> send_types (cmd_data c) types [1..<n] (0, p);
           case r of
             None \<Rightarrow> Some (0, [])
           | Some p \<Rightarrow> do {
               p \<leftarrow> neurons_buffer_add_end_frame_t f p;
               sent \<leftarrow> neurons_command_packege_send_all p 2;
               Some (1, sent) } } } }"

subsection \<open>The frames of the engine\<close>

definition frame :: "u8 \<Rightarrow> u8 \<Rightarrow> u8 \<Rightarrow> neurons_command_frame_t" where
  "frame did ser sub = \<lparr>head = START_SYSEX, device_id = did, service_id = ser,
     sub_service_id = sub, end_byte = END_SYSEX\<rparr>"

definition neurons_engine_alloc_id_t :: "(link \<times> u8 list) list option" where
  "neurons_engine_alloc_id_t = do {
     let f = frame 0xff 0x10 0;
     p \<leftarrow> neurons_buffer_add_head_frame_t f (package_of []) False;
     p \<leftarrow> neurons_buffer_add_data_t p BYTE_8_T 0;
     p \<leftarrow> neurons_buffer_add_end_frame_t f p;
     neurons_command_packege_send_all p 2 }"

definition neurons_engine_reset_block_t :: "u8 \<Rightarrow> (link \<times> u8 list) list option" where
  "neurons_engine_reset_block_t block_id = do {
     let f = frame block_id 0x11 0;
     p \<leftarrow> neurons_buffer_add_head_frame_t f (package_of []) False;
     p \<leftarrow> neurons_buffer_add_end_frame_t f p;
     neurons_command_packege_send_all p 2 }"

definition neurons_engine_check_block_hardware_version_t :: "u8 \<Rightarrow> (link \<times> u8 list) list option" where
  "neurons_engine_check_block_hardware_version_t block_id = do {
     let f = frame block_id 0x12 0;
     p \<leftarrow> neurons_buffer_add_head_frame_t f (package_of []) False;
     p \<leftarrow> neurons_buffer_add_end_frame_t f p;
     neurons_command_packege_send_all p 2 }"

definition neurons_engine_set_block_baudrate_t :: "u8 \<Rightarrow> u8 \<Rightarrow> (link \<times> u8 list) list option" where
  "neurons_engine_set_block_baudrate_t block_id rate_index = do {
     let f = frame block_id 0x13 0;
     p \<leftarrow> neurons_buffer_add_head_frame_t f (package_of []) False;
     p \<leftarrow> neurons_buffer_add_data_t p BYTE_8_T (ucast rate_index);
     p \<leftarrow> neurons_buffer_add_end_frame_t f p;
     neurons_command_packege_send_all p 2 }"

definition neurons_engine_test_command_t :: "u8 \<Rightarrow> (link \<times> u8 list) list option" where
  "neurons_engine_test_command_t block_id = do {
     let f = frame block_id 0x14 0;
     p \<leftarrow> neurons_buffer_add_head_frame_t f (package_of []) False;
     p \<leftarrow> for_upto 1 6 (\<lambda>i p. neurons_buffer_add_data_t p BYTE_8_T (of_nat i)) p;
     p \<leftarrow> neurons_buffer_add_end_frame_t f p;
     neurons_command_packege_send_all p 2 }"

definition neurons_engine_set_if_respond_to_common_cmd_t :: "u8 \<Rightarrow> u8 \<Rightarrow> (link \<times> u8 list) list option" where
  "neurons_engine_set_if_respond_to_common_cmd_t block_id sta = do {
     let f = frame block_id 0x61 0x01;
     p \<leftarrow> neurons_buffer_add_head_frame_t f (package_of []) True;
     p \<leftarrow> neurons_buffer_add_data_t p BYTE_8_T (if sta \<noteq> 0 then 1 else ucast sta);
     p \<leftarrow> neurons_buffer_add_end_frame_t f p;
     neurons_command_packege_send_all p 2 }"

definition neurons_engine_set_indicate_led_t :: "u8 \<Rightarrow> u16 \<Rightarrow> u16 \<Rightarrow> u16 \<Rightarrow> (link \<times> u8 list) list option" where
  "neurons_engine_set_indicate_led_t block_id r g b = do {
     let f = frame block_id 0x61 0x02;
     p \<leftarrow> neurons_buffer_add_head_frame_t f (package_of []) True;
     p \<leftarrow> neurons_buffer_add_data_t p SHORT_16_T (ucast r);
     p \<leftarrow> neurons_buffer_add_data_t p SHORT_16_T (ucast g);
     p \<leftarrow> neurons_buffer_add_data_t p SHORT_16_T (ucast b);
     p \<leftarrow> neurons_buffer_add_end_frame_t f p;
     neurons_command_packege_send_all p 2 }"

definition neurons_engine_find_block_t :: "u8 \<Rightarrow> u8 \<Rightarrow> (link \<times> u8 list) list option" where
  "neurons_engine_find_block_t block_id blink_times = do {
     let f = frame block_id 0x61 0x03;
     p \<leftarrow> neurons_buffer_add_head_frame_t f (package_of []) True;
     p \<leftarrow> neurons_buffer_add_data_t p BYTE_8_T (ucast blink_times);
     p \<leftarrow> neurons_buffer_add_end_frame_t f p;
     neurons_command_packege_send_all p 2 }"

definition neurons_engine_set_report_mode_t :: "u8 \<Rightarrow> u8 \<Rightarrow> u8 \<Rightarrow> u8 \<Rightarrow> u32 \<Rightarrow> (link \<times> u8 list) list option" where
  "neurons_engine_set_report_mode_t block_id ty sub mode period = do {
     let f = frame block_id ty sub;
     p \<leftarrow> neurons_buffer_add_head_frame_t f (package_of []) (sub \<noteq> 0);
     p \<leftarrow> neurons_buffer_add_data_t p BYTE_8_T 0x7f;
     p \<leftarrow> neurons_buffer_add_data_t p BYTE_8_T (ucast mode);
     p \<leftarrow> neurons_buffer_add_data_t p LONG_40_T period;
     p \<leftarrow> neurons_buffer_add_end_frame_t f p;
     neurons_command_packege_send_all p 2 }"

definition neurons_engine_set_rocky_report_mode_t :: "u8 \<Rightarrow> u8 \<Rightarrow> u8 \<Rightarrow> u32 \<Rightarrow> (link \<times> u8 list) list option" where
  "neurons_engine_set_rocky_report_mode_t block_id sensor_id mode period = do {
     let f = frame block_id 0x63 0x10;
     p \<leftarrow> neurons_buffer_add_head_frame_t f (package_of []) True;
     p \<leftarrow> neurons_buffer_add_data_t p BYTE_8_T 0x7f;
     p \<leftarrow> neurons_buffer_add_data_t p BYTE_8_T (ucast sensor_id);
     p \<leftarrow> neurons_buffer_add_data_t p BYTE_8_T (ucast mode);
     p \<leftarrow> neurons_buffer_add_data_t p LONG_40_T period;
     p \<leftarrow> neurons_buffer_add_end_frame_t f p;
     neurons_command_packege_send_all p 2 }"

subsection \<open>Answers\<close>

text \<open>
  Waiting for the answer of a read: the command that is waited for and a binary semaphore of
  the operating system, which is empty when it is created.
\<close>

definition neurons_engine_read_control_set_cmd_t :: "u8 \<Rightarrow> u8 \<Rightarrow> u8 \<Rightarrow> u8 \<Rightarrow> engine \<Rightarrow> engine" where
  "neurons_engine_read_control_set_cmd_t did bid sid rid s = s\<lparr>read_command :=
     \<lparr>rc_dev_id = did, rc_block_id = bid, rc_sub_id = sid, rc_read_cmd_id = rid\<rparr>\<rparr>"

definition neurons_engine_read_reset_wait_status_t :: "engine \<Rightarrow> engine" where
  "neurons_engine_read_reset_wait_status_t s = s\<lparr>read_sema := False\<rparr>"

text \<open>Waiting takes the semaphore if it was given in time.\<close>

definition neurons_engine_read_wait_respond_t :: "engine \<Rightarrow> bool \<times> engine" where
  "neurons_engine_read_wait_respond_t s = (read_sema s, s\<lparr>read_sema := False\<rparr>)"

definition neurons_engine_read_check_t :: "u8 \<Rightarrow> u8 \<Rightarrow> u8 \<Rightarrow> u8 \<Rightarrow> engine \<Rightarrow> engine" where
  "neurons_engine_read_check_t did bid sid rid s =
     (if rc_dev_id (read_command s) = did \<and> rc_sub_id (read_command s) = sid
         \<and> rc_read_cmd_id (read_command s) = rid \<and> rc_block_id (read_command s) = bid
      then s\<lparr>read_sema := True\<rparr> else s)"

text \<open>
  The answer of a block: its data go to the block's buffer, at the offset the library has for
  the answer.  The seven bytes of \<open>respond_data_in_ram\<close> hold the number of the answer, its
  entry from the library and at last the offset.
\<close>

definition neurons_engine_parse_blocks_respond_t :: "neurons_commmd_package_t \<Rightarrow> engine \<Rightarrow> engine option" where
  "neurons_engine_parse_blocks_respond_t p s = do {
     did \<leftarrow> rd (pdata p) 1;
     ty \<leftarrow> rd (pdata p) 2;
     sub \<leftarrow> rd (pdata p) 3;
     cid \<leftarrow> rd (pdata p) 4;
     st \<leftarrow> neurons_engine_find_block_in_main_list_by_id_t s did ty sub;
     if st = 0 then do {
       info \<leftarrow> neurons_engine_get_main_list_block_info_by_id_t s (neurons_engine_get_main_list_now_group_t s) did;
       b \<leftarrow> info;
       (ram, n, off) \<leftarrow> neurons_engine_get_respond_info_t s b cid (replicate 6 0);
       if n = 0 then Some s
       else do {
         value_offset \<leftarrow> (case off of None \<Rightarrow> rd ram 5 | Some v \<Rightarrow> Some v);
         (let (start, len) = neurons_get_data_region_from_package_t p in
          if respond_data_buffer b = 0 then Some s
          else do {
            data \<leftarrow> slice (pdata p) (unat start) (unat len);
            buf \<leftarrow> bufs s (respond_data_buffer b);
            buf \<leftarrow> blit buf (unat value_offset) data;
            Some (neurons_engine_read_check_t did ty sub cid
              (s\<lparr>bufs := (bufs s)(respond_data_buffer b \<mapsto> buf)\<rparr>)) }) } }
     else Some (neurons_engine_read_check_t did ty sub cid s) }"

definition neurons_engine_parse_system_respond_t :: "neurons_commmd_package_t \<Rightarrow> engine \<Rightarrow> engine option" where
  "neurons_engine_parse_system_respond_t p s = do {
     ser \<leftarrow> rd (pdata p) 2;
     if ser = 0x10 then do {
       did \<leftarrow> rd (pdata p) 1;
       ty \<leftarrow> rd (pdata p) 3;
       sub \<leftarrow> rd (pdata p) 4;
       neurons_engine_add_new_block_t did ty sub s }
     else Some s }"

definition neurons_engine_parse_package_t :: "neurons_commmd_package_t \<Rightarrow> engine \<Rightarrow> engine option" where
  "neurons_engine_parse_package_t p s = do {
     command_type \<leftarrow> neurons_engine_parse_respond_type_t p;
     if command_type = 1 then neurons_engine_parse_system_respond_t p s
     else if command_type = 2 then Some s
     else neurons_engine_parse_blocks_respond_t p s }"

definition codey_neurons_uart1_command_package_put ::
    "u8 \<Rightarrow> neurons_commmd_package_t \<times> bool list \<times> engine \<Rightarrow> (neurons_commmd_package_t \<times> bool list \<times> engine) option" where
  "codey_neurons_uart1_command_package_put c st =
     neurons_command_package_put_t (\<lambda>p _ s. neurons_engine_parse_package_t p s) 0xF0 0xF7 2 2 c st"

subsection \<open>The report status of the car\<close>

definition ROCKY_SENSOR_REPORT_MIN :: u8 where "ROCKY_SENSOR_REPORT_MIN = 1"
definition ROCKY_SENSOR_REPORT_MAX :: u8 where "ROCKY_SENSOR_REPORT_MAX = 0x0A"

definition rocky_sensor_set_report_status_t :: "u8 \<Rightarrow> u8 \<Rightarrow> u8 list \<Rightarrow> u8 list option" where
  "rocky_sensor_set_report_status_t ix sta st =
     (if ROCKY_SENSOR_REPORT_MAX < ix \<or> ix < ROCKY_SENSOR_REPORT_MIN then Some st
      else wr st (unat ix) sta)"

text \<open>The status is returned as a signed byte; -1 stands for a bad index.\<close>

definition rocky_sensor_get_report_status_t :: "u8 \<Rightarrow> u8 list \<Rightarrow> u8 option" where
  "rocky_sensor_get_report_status_t ix st =
     (if ROCKY_SENSOR_REPORT_MAX < ix \<or> ix < ROCKY_SENSOR_REPORT_MIN then Some (-1)
      else rd st (unat ix))"

definition neurons_engine_reset_rocky_report_mode_t :: "u8 list \<Rightarrow> u8 list option" where
  "neurons_engine_reset_rocky_report_mode_t st =
     for_upto (unat ROCKY_SENSOR_REPORT_MIN) (unat ROCKY_SENSOR_REPORT_MAX + 1)
       (\<lambda>i st. rocky_sensor_set_report_status_t (of_nat i) 0 st) st"

subsection \<open>The command buffer\<close>

record 'a command_buffer =
  cmd_cash_in_index :: u8
  cmd_cash_out_index :: u8
  slots :: "'a list"

definition CMD_BUFFER_MAX :: nat where "CMD_BUFFER_MAX = 2"

definition neurons_engine_command_buffer_init :: "'a \<Rightarrow> 'a command_buffer" where
  "neurons_engine_command_buffer_init zero =
     \<lparr>cmd_cash_in_index = 0, cmd_cash_out_index = 0, slots = replicate CMD_BUFFER_MAX zero\<rparr>"

text \<open>
  A push waits while the buffer is full; \<open>False\<close> says that the caller is still waiting and the
  buffer is as before.
\<close>

definition neurons_engine_command_buffer_push :: "'a \<Rightarrow> 'a command_buffer \<Rightarrow> (bool \<times> 'a command_buffer) option" where
  "neurons_engine_command_buffer_push c q =
     (if cmd_cash_out_index q = (cmd_cash_in_index q + 1) AND 1 then Some (False, q)
      else do {
        sl \<leftarrow> wr (slots q) (unat (cmd_cash_in_index q)) c;
        Some (True, q\<lparr>slots := sl, cmd_cash_in_index := (cmd_cash_in_index q + 1) AND 1\<rparr>) })"

definition neurons_engine_command_buffer_pop :: "'a command_buffer \<Rightarrow> ('a option \<times> 'a command_buffer) option" where
  "neurons_engine_command_buffer_pop q =
     (if cmd_cash_out_index q \<noteq> cmd_cash_in_index q then do {
        c \<leftarrow> rd (slots q) (unat (cmd_cash_out_index q));
        Some (Some c, q\<lparr>cmd_cash_out_index := (cmd_cash_out_index q + 1) AND 1\<rparr>) }
      else Some (None, q))"

text \<open>The abstract queue, and the interface of \<open>Bounded_Queue\<close>.\<close>

definition command_queue_items :: "'a command_buffer \<Rightarrow> 'a list" where
  "command_queue_items q = ring_list (slots q) (unat (cmd_cash_out_index q)) (unat (cmd_cash_in_index q))"

definition wf_command_buffer :: "'a command_buffer \<Rightarrow> bool" where
  "wf_command_buffer q \<longleftrightarrow> length (slots q) = CMD_BUFFER_MAX
     \<and> unat (cmd_cash_in_index q) < CMD_BUFFER_MAX \<and> unat (cmd_cash_out_index q) < CMD_BUFFER_MAX"

lemma next_slot: "unat (i + 1 AND 1 :: u8) = Suc (unat i) mod 2"
  using unat_plus_1_and_mask [of 1 i] by (simp add: mask_eq_exp_minus_1)

lemma init_command_buffer: "wf_command_buffer (neurons_engine_command_buffer_init z)
    \<and> command_queue_items (neurons_engine_command_buffer_init z) = []"
  by (simp add: wf_command_buffer_def neurons_engine_command_buffer_init_def CMD_BUFFER_MAX_def
      command_queue_items_def ring_list_empty)

interpretation command_q: bounded_queue neurons_engine_command_buffer_push
  neurons_engine_command_buffer_pop command_queue_items "\<lambda>_. CMD_BUFFER_MAX - 1" wf_command_buffer
proof (unfold_locales, goal_cases)
  case (1 q x)
  then have bounds: "unat (cmd_cash_out_index q) < length (slots q)" "unat (cmd_cash_in_index q) < length (slots q)"
    "length (slots q) = 2"
    by (simp_all add: wf_command_buffer_def CMD_BUFFER_MAX_def)
  have full: "cmd_cash_out_index q = (cmd_cash_in_index q + 1) AND 1 \<longleftrightarrow>
      length (command_queue_items q) = 1"
    using ring_list_full [OF bounds(1,2)] bounds(3)
    unfolding command_queue_items_def word_eq_iff_unat next_slot by auto
  have "length (command_queue_items q) \<le> 1"
    using ring_list_bound [OF bounds(1,2)] bounds(3) by (simp add: command_queue_items_def)
  with full bounds show ?case
    using ring_list_put [OF bounds(1,2), of x]
    by (cases "length (command_queue_items q) = 1")
      (auto simp: neurons_engine_command_buffer_push_def qspec_push_def wr_in CMD_BUFFER_MAX_def
        command_queue_items_def next_slot wf_command_buffer_def word_eq_iff_unat le_Suc_eq)
next
  case (2 q)
  then have bounds: "unat (cmd_cash_out_index q) < length (slots q)" "unat (cmd_cash_in_index q) < length (slots q)"
    "length (slots q) = 2"
    by (simp_all add: wf_command_buffer_def CMD_BUFFER_MAX_def)
  show ?case
  proof (cases "cmd_cash_out_index q = cmd_cash_in_index q")
    case True
    with 2 ring_list_empty [OF bounds(1,2)] show ?thesis
      by (simp add: neurons_engine_command_buffer_pop_def qspec_pop_def command_queue_items_def)
  next
    case False
    then have ne: "unat (cmd_cash_in_index q) \<noteq> unat (cmd_cash_out_index q)"
      by (simp add: word_eq_iff_unat)
    show ?thesis
      using False 2 bounds ring_list_get [OF bounds(1,2) ne]
      by (auto simp: neurons_engine_command_buffer_pop_def qspec_pop_def rd_in command_queue_items_def
          next_slot wf_command_buffer_def CMD_BUFFER_MAX_def)
  qed
next
  case (3 q)
  then show ?case
    using ring_list_bound [of "unat (cmd_cash_out_index q)" "slots q" "unat (cmd_cash_in_index q)"]
    by (simp add: command_queue_items_def wf_command_buffer_def)
qed

subsection \<open>Frames on the wire\<close>

lemma seven_bit_7: "\<not> bit (x AND 0x7f :: u8) 7"
  by (simp only: bit_seven) simp

lemma seven_not_frame [simp]: "x AND 0x7f \<noteq> (0xF7 :: u8)" "x AND 0x7f \<noteq> (0xF0 :: u8)"
proof -
  have "bit (0xF7 :: u8) 7" "bit (0xF0 :: u8) 7" by simp_all
  then show "x AND 0x7f \<noteq> (0xF7 :: u8)" "x AND 0x7f \<noteq> (0xF0 :: u8)"
    using seven_bit_7 [of x] by auto
qed

lemma check_not_frame [simp]: "neurons_check xs \<noteq> 0xF7" "neurons_check xs \<noteq> 0xF0"
  by (simp_all add: neurons_check_def)

lemma value_bytes_not_frame:
  "set (neurons_value_bytes t v) \<inter> {0xF0, 0xF7} = {} \<longleftrightarrow> t \<noteq> BYTE_8_T \<or> ucast v \<notin> {0xF0 :: u8, 0xF7}"
  by (auto simp: neurons_value_bytes_def value_to_neurons_byte_8_def value_to_neurons_byte_16_def
      value_to_neurons_short_16_def value_to_neurons_short_24_def value_to_neurons_long_40_def
      value_to_neurons_float_40_def Let_def)

lemma send_built:
  assumes "length xs + 3 \<le> PACKAGE_LEN" and "h \<noteq> 0xF7" and "0xF7 \<notin> set xs" and "end_byte f = 0xF7"
  shows "do { p \<leftarrow> neurons_buffer_add_end_frame_t f (package_of (h # xs)); neurons_command_packege_send_all p 2 }
    = Some [(Uart1, h # xs @ [neurons_check xs, 0xF7])]"
proof -
  let ?d = "h # xs @ [neurons_check xs, 0xF7]"
  have tw: "takeWhile (\<lambda>b. b \<noteq> END_ESP32_ONLINE) (?d @ zs) = h # xs @ [neurons_check xs]" for zs
  proof -
    have "takeWhile (\<lambda>b. b \<noteq> 0xF7) ((h # xs @ [neurons_check xs]) @ 0xF7 # zs) = h # xs @ [neurons_check xs]"
      by (subst takeWhile_append2) (use assms(2,3) in auto)
    then show ?thesis by (simp add: END_ESP32_ONLINE_def)
  qed
  show ?thesis
    unfolding add_end_package_of [OF assms(1)] assms(4) neurons_command_packege_send_all_def bind.simps
    by (simp only: package_of_def Let_def neurons_commmd_package_t.select_convs
        neurons_commmd_package_t.update_convs tw) simp
qed

lemma seven_cells: "length [a, b, c, d, e, f, g] = 7"
  by simp

lemma rocky_report_frame:
  assumes "block_id \<noteq> 0xF7" and "sensor_id \<noteq> 0xF7" and "mode \<noteq> 0xF7"
  shows "neurons_engine_set_rocky_report_mode_t block_id sensor_id mode period
    = (let xs = [block_id, 0x63, 0x10, 0x7f, sensor_id, mode] @ value_to_neurons_long_40 period
       in Some [(Uart1, 0xF0 # xs @ [neurons_check xs, 0xF7])])"
proof -
  let ?xs = "[block_id, 0x63, 0x10, 0x7f, sensor_id, mode] @ value_to_neurons_long_40 period"
  have len: "length (value_to_neurons_long_40 period) = 5"
    by (simp add: value_to_neurons_long_40_def Let_def)
  have long: "neurons_value_bytes LONG_40_T period = value_to_neurons_long_40 period"
    by (simp add: neurons_value_bytes_def neurons_data_type_t)
  have "0xF7 \<notin> set (value_to_neurons_long_40 period)"
    using value_bytes_not_frame [of LONG_40_T period] long by (auto simp: neurons_data_type_t)
  then have xs: "0xF7 \<notin> set ?xs" using assms by auto
  let ?f = "frame block_id 0x63 0x10"
  have "neurons_engine_set_rocky_report_mode_t block_id sensor_id mode period
      = do { p \<leftarrow> neurons_buffer_add_end_frame_t ?f (package_of (0xF0 # ?xs)); neurons_command_packege_send_all p 2 }"
    by (simp add: neurons_engine_set_rocky_report_mode_t_def add_head_package_of add_data_package_of
        head_bytes_def frame_def START_SYSEX_def PACKAGE_LEN_def long len)
  also have "\<dots> = Some [(Uart1, 0xF0 # ?xs @ [neurons_check ?xs, 0xF7])]"
    by (rule send_built) (use xs len in \<open>auto simp: PACKAGE_LEN_def frame_def END_SYSEX_def\<close>)
  finally show ?thesis by (simp add: Let_def)
qed

text \<open>
  C30. The report request for the car arrives: a receiver in any state gets exactly one package
  from the bytes that went to the second serial link, and reads the mode and the 32-bit period
  from it.
\<close>

theorem report_request_arrives:
  assumes "block_id \<notin> {0xF0, 0xF7}" and "sensor_id \<notin> {0xF0, 0xF7}" and "mode < 0x80"
    and "i < 10" and "length begins = 10" and "\<not> begins ! unat i"
  shows "\<exists>bytes p'. neurons_engine_set_rocky_report_mode_t block_id sensor_id mode period = Some [(Uart1, bytes)]
    \<and> foldM (neurons_command_package_put_t (\<lambda>p _ log. Some (p # log)) 0xF0 0xF7 2 i) bytes (p, begins, log)
        = Some (p', begins, p' # log)
    \<and> neurons_buffer_read_value_t p' NEURONS_FRAME_DEV_ID 0 0 = Some (Val8 block_id)
    \<and> neurons_buffer_read_value_t p' NEURONS_FRAME_CMD_DATA 6 BYTE_8_T = Some (Val8 mode)
    \<and> neurons_buffer_read_value_t p' NEURONS_FRAME_CMD_DATA 7 LONG_40_T = Some (Val32 period)"
proof -
  let ?xs = "[block_id, 0x63, 0x10, 0x7f, sensor_id, mode] @ value_to_neurons_long_40 period"
  let ?bytes = "0xF0 # ?xs @ [neurons_check ?xs, 0xF7]"
  let ?cb = "\<lambda>p _ log. Some (p # log)"
  have m: "unat mode < 128" using assms(3) by (simp add: word_less_nat_alt)
  then have seven: "mode AND 0x7f = mode"
    by (simp only: word_eq_iff_unat seven_bits unat_and_mask) simp
  from m have "mode \<noteq> 0xF7" "mode \<noteq> 0xF0" by auto
  moreover have enc: "set (value_to_neurons_long_40 period) \<inter> {0xF0, 0xF7} = {}"
    using value_bytes_not_frame [of LONG_40_T period]
    by (simp add: neurons_value_bytes_def neurons_data_type_t)
  moreover have len: "length (value_to_neurons_long_40 period) = 5"
    by (simp add: value_to_neurons_long_40_def Let_def)
  ultimately have wf: "wf_transmission 0xF0 0xF7 ([], ?xs, neurons_check ?xs)"
    using assms(1,2) by (auto simp: wf_transmission_def PACKAGE_LEN_def)
  define q where "q = package_of ?bytes"
  have sent: "neurons_engine_set_rocky_report_mode_t block_id sensor_id mode period = Some [(Uart1, ?bytes)]"
    using rocky_report_frame [of block_id sensor_id mode period] assms(1,2) \<open>mode \<noteq> 0xF7\<close>
    by (simp add: Let_def)
  have got: "foldM (neurons_command_package_put_t ?cb 0xF0 0xF7 2 i) ?bytes (p, begins, log)
      = Some (q, begins, q # log)"
    using receive_transmission [OF assms(4-6) _ wf, of ?cb 2 p log]
    by (simp add: transmitted_def handled_def q_def)
  have d: "pdata q = [0xF0, block_id, 0x63, 0x10, 0x7f, sensor_id, mode] @ value_to_neurons_long_40 period
      @ neurons_check ?xs # 0xF7 # replicate (PACKAGE_LEN - length ?bytes) 0"
    by (simp add: q_def package_of_def)
  have "neurons_buffer_read_value_t q NEURONS_FRAME_CMD_DATA 7 LONG_40_T = Some (Val32 period)"
    using read_long_40(1) [of "[0xF0, block_id, 0x63, 0x10, 0x7f, sensor_id, mode]" period,
      unfolded seven_cells]
    by (simp add: neurons_buffer_read_value_t_def neurons_read_value_by_type_t_def d neurons_data_type_t)
  then show ?thesis
    using sent got seven
    by (intro exI [of _ ?bytes] exI [of _ q])
      (simp add: neurons_buffer_read_value_t_def neurons_read_value_by_type_t_def d byte_8_to_value_def
        rd_def neurons_data_type_t)
qed

theorem report_request_arrives_witness:
  "\<exists>bytes p'. neurons_engine_set_rocky_report_mode_t 1 2 1 1000 = Some [(Uart1, bytes)]
    \<and> foldM (neurons_command_package_put_t (\<lambda>p _ log. Some (p # log)) 0xF0 0xF7 2 2) bytes
        (neurons_command_package_reset, replicate 10 False, []) = Some (p', replicate 10 False, [p'])
    \<and> neurons_buffer_read_value_t p' NEURONS_FRAME_DEV_ID 0 0 = Some (Val8 1)
    \<and> neurons_buffer_read_value_t p' NEURONS_FRAME_CMD_DATA 6 BYTE_8_T = Some (Val8 1)
    \<and> neurons_buffer_read_value_t p' NEURONS_FRAME_CMD_DATA 7 LONG_40_T = Some (Val32 1000)"
  by (rule report_request_arrives) (simp_all add: word_less_nat_alt)

subsection \<open>What the engine does with a received frame\<close>

definition wf_engine :: "engine \<Rightarrow> bool" where
  "wf_engine s \<longleftrightarrow> unat (now_group_index s) < 2 \<and> length (blocks_num s) = 2
     \<and> length (blocks_info s) = 2 \<and> list_all (\<lambda>row. length row = NEURONS_NODE_MAX) (blocks_info s)"

lemma wf_engine_row: "wf_engine s \<Longrightarrow> g < 2 \<Longrightarrow> length (blocks_info s ! g) = NEURONS_NODE_MAX"
  by (auto simp: wf_engine_def list_all_length)

definition with_block :: "u8 \<Rightarrow> u8 \<Rightarrow> u8 \<Rightarrow> engine \<Rightarrow> engine" where
  "with_block did ty sub s = (let g = unat (now_group_index s); row = blocks_info s ! g in
     s\<lparr>blocks_info := (blocks_info s)[g := row[unat did := (row ! unat did)
          \<lparr>block_type := ty, block_sub_type := sub, dev_id := did\<rparr>]],
       blocks_num := (blocks_num s)[g := blocks_num s ! g + 1]\<rparr>)"

lemma add_new_block:
  assumes "wf_engine s"
  shows "neurons_engine_add_new_block_t did ty sub s
    = (if unat did < NEURONS_NODE_MAX then Some (with_block did ty sub s) else None)"
  using assms wf_engine_row [OF assms, of "unat (now_group_index s)"]
  by (auto simp: neurons_engine_add_new_block_t_def with_block_def Let_def rd_def wr_def wf_engine_def)

lemma with_block_wf: "wf_engine s \<Longrightarrow> wf_engine (with_block did ty sub s)"
  by (auto simp: wf_engine_def with_block_def Let_def list_all_length nth_list_update)

text \<open>A whole frame on the second serial link, without noise, in a state between frames.\<close>

lemma uart1_frame:
  assumes "length begins = 10" and "\<not> begins ! 2" and "0xF0 \<notin> set xs" and "0xF7 \<notin> set xs"
    and "length xs + 3 \<le> PACKAGE_LEN"
  shows "foldM codey_neurons_uart1_command_package_put (0xF0 # xs @ [neurons_check xs, 0xF7]) (p, begins, s)
    = do { s' \<leftarrow> neurons_engine_parse_package_t (package_of (0xF0 # xs @ [neurons_check xs, 0xF7])) s;
           Some (package_of (0xF0 # xs @ [neurons_check xs, 0xF7]), begins, s') }"
proof -
  have eq: "codey_neurons_uart1_command_package_put
      = neurons_command_package_put_t (\<lambda>p _ s. neurons_engine_parse_package_t p s) 0xF0 0xF7 2 2"
    by (intro ext) (simp add: codey_neurons_uart1_command_package_put_def)
  have "wf_transmission 0xF0 0xF7 ([], xs, neurons_check xs)"
    using assms(3-5) by (auto simp: wf_transmission_def)
  from receive_transmission [OF _ assms(1) _ _ this, of 2] assms(2) show ?thesis
    by (simp add: eq transmitted_def handled_def)
qed

text \<open>
  A block that answers the identification request: the device number, which the block sends,
  is the row of the table that is written.  With a number below 50 the block is entered and
  counted; from 50 on the write is outside the table.
\<close>

theorem block_identification:
  assumes "wf_engine s" and "length begins = 10" and "\<not> begins ! 2" and "{did, ty, sub} \<inter> {0xF0, 0xF7} = {}"
  shows "foldM codey_neurons_uart1_command_package_put
      (0xF0 # [did, 0x10, ty, sub] @ [neurons_check [did, 0x10, ty, sub], 0xF7]) (p, begins, s)
    = (if unat did < 50 then Some (package_of (0xF0 # [did, 0x10, ty, sub]
             @ [neurons_check [did, 0x10, ty, sub], 0xF7]), begins, with_block did ty sub s)
       else None)"
  using assms
  by (subst uart1_frame)
    (auto simp: neurons_engine_parse_package_t_def neurons_engine_parse_respond_type_t_def
      neurons_engine_parse_system_respond_t_def package_of_def rd_def PACKAGE_LEN_def add_new_block
      CTL_SYSTEM_COMMAND_MIN_def CTL_SYSTEM_COMMAND_MAX_def NEURONS_NODE_MAX_def)

definition blank_block :: block_info where
  "blank_block = \<lparr>block_type = 0, block_sub_type = 0, dev_id = 0, offline_time = 0, block_ram_addr = 0,
     respond_data_buffer_size = 0, respond_data_buffer = 0\<rparr>"

definition blank_engine :: engine where
  "blank_engine = \<lparr>now_group_index = 0, blocks_num = [0, 0],
     blocks_info = replicate 2 (replicate 50 blank_block), libs = (\<lambda>_. None), bufs = (\<lambda>_. None),
     read_command = \<lparr>rc_dev_id = 0, rc_block_id = 0, rc_sub_id = 0, rc_read_cmd_id = 0\<rparr>, read_sema = False\<rparr>"

lemma wf_blank_engine [simp]: "wf_engine blank_engine"
  by (simp add: wf_engine_def blank_engine_def NEURONS_NODE_MAX_def list_all_iff)

theorem block_identification_witness:
  "foldM codey_neurons_uart1_command_package_put (0xF0 # [60, 0x10, 0x63, 2] @ [0x31, 0xF7])
     (neurons_command_package_reset, replicate 10 False, blank_engine) = None"
  using block_identification [of blank_engine "replicate 10 False" 60 "0x63" 2 neurons_command_package_reset]
  by (simp add: neurons_check_def)

lemma data_region:
  assumes "length payload + 7 \<le> PACKAGE_LEN"
  shows "slice (pdata (package_of (h # [did, ty, sub, cid] @ payload @ [ck, e]))) 5 (length payload) = Some payload"
    and "neurons_get_data_region_from_package_t (package_of (h # [did, ty, sub, cid] @ payload @ [ck, e]))
      = (5, of_nat (length payload))"
  using assms by (simp_all add: slice_def package_of_def PACKAGE_LEN_def neurons_get_data_region_from_package_t_def)

text \<open>
  The answer of a block on line: the data of the frame are copied to the block's buffer at
  the offset of the answer, the rest of the buffer stays, and a reader that waits for exactly
  this answer is woken.  The code does not look at the size of the buffer: data that do not fit
  behind the offset are written outside it.
\<close>

theorem block_answer_stored:
  assumes "length begins = 10" and "\<not> begins ! 2" and "set ([did, ty, sub, cid] @ payload) \<inter> {0xF0, 0xF7} = {}"
    and "length payload + 7 \<le> 64" and "0x61 < ty"
    and "neurons_engine_get_main_list_block_info_by_id_t s (neurons_engine_get_main_list_now_group_t s) did = Some (Some b)"
    and "block_type b = ty" and "block_sub_type b = sub"
    and "neurons_engine_get_respond_info_t s b cid (replicate 6 0) = Some (ram, n, Some off)" and "0 < n"
    and "respond_data_buffer b \<noteq> 0" and "bufs s (respond_data_buffer b) = Some buf"
  shows "map_option (\<lambda>(p, begins, s). s) (foldM codey_neurons_uart1_command_package_put
      (0xF0 # ([did, ty, sub, cid] @ payload) @ [neurons_check ([did, ty, sub, cid] @ payload), 0xF7]) (p, begins, s))
    = (if unat off + length payload \<le> length buf then
         Some (neurons_engine_read_check_t did ty sub cid (s\<lparr>bufs := (bufs s)(respond_data_buffer b \<mapsto>
           take (unat off) buf @ payload @ drop (unat off + length payload) buf)\<rparr>))
       else None)"
proof -
  let ?xs = "[did, ty, sub, cid] @ payload"
  let ?p = "package_of (0xF0 # ?xs @ [neurons_check ?xs, 0xF7])"
  have hd_cells: "rd (pdata ?p) 1 = Some did" "rd (pdata ?p) 2 = Some ty" "rd (pdata ?p) 3 = Some sub"
    "rd (pdata ?p) 4 = Some cid"
    by (simp_all add: package_of_def rd_def)
  have len: "unat (of_nat (length payload) :: u8) = length payload"
    using assms(4) by (simp add: unat_small)
  have ty: "neurons_engine_parse_respond_type_t ?p = Some 3"
    using assms(5) hd_cells(2)
    by (auto simp: neurons_engine_parse_respond_type_t_def CTL_GENERAL_def CTL_SYSTEM_COMMAND_MAX_def
        word_less_nat_alt word_le_nat_alt)
  have "neurons_engine_find_block_in_main_list_by_id_t s did ty sub = Some 0"
    using assms(6-8) by (simp add: neurons_engine_find_block_in_main_list_by_id_t_def)
  then have parse: "neurons_engine_parse_package_t ?p s = do { buf \<leftarrow> blit buf (unat off) payload;
      Some (neurons_engine_read_check_t did ty sub cid (s\<lparr>bufs := (bufs s)(respond_data_buffer b \<mapsto> buf)\<rparr>)) }"
    using assms(4,6-12) hd_cells ty len data_region [of payload "0xF0" did ty sub cid "neurons_check ?xs" "0xF7"]
    by (simp add: neurons_engine_parse_package_t_def neurons_engine_parse_blocks_respond_t_def PACKAGE_LEN_def)
  have "foldM codey_neurons_uart1_command_package_put (0xF0 # ?xs @ [neurons_check ?xs, 0xF7]) (p, begins, s)
      = do { s' \<leftarrow> neurons_engine_parse_package_t ?p s; Some (?p, begins, s') }"
    by (rule uart1_frame) (use assms(1-4) in \<open>auto simp: PACKAGE_LEN_def\<close>)
  then show ?thesis
    unfolding parse by (simp add: blit_def)
qed

text \<open>One block of type 0x63, sub type 2, as number 1, with one command and one answer.\<close>

definition demo_engine :: engine where
  "demo_engine = blank_engine\<lparr>blocks_num := [0, 1],
     blocks_info := [replicate 50 blank_block, (replicate 50 blank_block)[1 :=
       blank_block\<lparr>block_type := 0x63, block_sub_type := 2, dev_id := 1, block_ram_addr := 8,
         respond_data_buffer := 16, respond_data_buffer_size := 4\<rparr>]],
     libs := (\<lambda>_. None)(8 \<mapsto> \<lparr>lib_block_type = 0x63, lib_block_sub_type = 2, block_num = 1,
       command_data_type = [2, 1, 3, 1, 0, 0, 0, 7, 1, 1, 1, 1, 1],
       respond_data_type = [1, 2, 3, 0, 0, 0, 0, 1]\<rparr>),
     bufs := (\<lambda>_. None)(16 \<mapsto> [9, 9, 9, 9]),
     read_command := \<lparr>rc_dev_id = 1, rc_block_id = 0x63, rc_sub_id = 2, rc_read_cmd_id = 2\<rparr>\<rparr>"

lemmas demo_simps = demo_engine_def blank_engine_def blank_block_def rd_def
  neurons_engine_get_main_list_block_info_by_id_t_def block_at_def NEURONS_NODE_MAX_def
  neurons_engine_get_main_list_now_group_t_def neurons_engine_get_main_list_length_t_def

lemma demo_by_id:
  "neurons_engine_get_main_list_block_info_by_id_t demo_engine 1 1 = Some (Some
     (blank_block\<lparr>block_type := 0x63, block_sub_type := 2, dev_id := 1, block_ram_addr := 8,
         respond_data_buffer := 16, respond_data_buffer_size := 4\<rparr>))"
  by (simp add: demo_simps)

lemma demo_by_index:
  "neurons_engine_get_main_list_block_info_by_index_t demo_engine 1 0x63 2
     = neurons_engine_get_main_list_block_info_by_id_t demo_engine 1 1"
  by (simp add: demo_by_id neurons_engine_get_main_list_block_info_by_index_t_def demo_simps by_index_loop.simps)

theorem block_answer_stored_witness:
  "map_option (\<lambda>(p, begins, s). (bufs s 16, read_sema s)) (foldM codey_neurons_uart1_command_package_put
      (0xF0 # ([1, 0x63, 2, 2] @ [5, 6]) @ [0x73, 0xF7]) (neurons_command_package_reset, replicate 10 False, demo_engine))
    = Some (Some [9, 5, 6, 9], True)"
proof -
  let ?b = "blank_block\<lparr>block_type := 0x63, block_sub_type := 2, dev_id := 1, block_ram_addr := 8,
         respond_data_buffer := 16, respond_data_buffer_size := 4\<rparr>"
  have now: "neurons_engine_get_main_list_now_group_t demo_engine = 1"
    by (simp add: demo_simps)
  have resp: "neurons_engine_get_respond_info_t demo_engine ?b 2 (replicate 6 0) = Some ([2, 3, 0, 0, 0, 0], 2, Some 1)"
    by code_simp
  let ?F = "foldM codey_neurons_uart1_command_package_put
      (0xF0 # ([1, 0x63, 2, 2] @ [5, 6]) @ [neurons_check ([1, 0x63, 2, 2] @ [5, 6]), 0xF7])
      (neurons_command_package_reset, replicate 10 False, demo_engine)"
  let ?S = "neurons_engine_read_check_t 1 0x63 2 2 (demo_engine\<lparr>bufs := (bufs demo_engine)(respond_data_buffer ?b \<mapsto>
           take (unat (1 :: u8)) [9, 9, 9, 9] @ [5, 6] @ drop (unat (1 :: u8) + length [5, 6 :: u8]) [9, 9, 9, 9])\<rparr>)"
  let ?h = "\<lambda>s. (bufs s 16, read_sema s)"
  have "map_option (\<lambda>(p, begins, s). s) ?F
    = (if unat (1 :: u8) + length [5, 6 :: u8] \<le> length [9, 9, 9, 9 :: u8] then Some ?S else None)"
    by (rule block_answer_stored [OF _ _ _ _ _ demo_by_id [folded now] _ _ resp])
      (simp_all add: word_less_nat_alt blank_block_def demo_engine_def)
  then have "map_option ?h (map_option (\<lambda>(p, begins, s). s) ?F) = Some (?h ?S)"
    by (simp only: option.map) simp
  also have "?h ?S = (Some [9, 5, 6, 9], True)"
    by (simp add: neurons_engine_read_check_t_def demo_engine_def blank_block_def)
  also have "neurons_check ([1, 0x63, 2, 2] @ [5, 6]) = 0x73"
    by (simp add: neurons_check_def)
  finally show ?thesis
    by (simp only: option.map_comp comp_def case_prod_unfold)
qed

text \<open>The payload of a command: its numbers, each in the bytes of its type.\<close>

fun command_payload :: "u8 list \<Rightarrow> u32 list \<Rightarrow> u8 list option" where
  "command_payload [] nums = Some []"
| "command_payload (t # ts) [] = None"
| "command_payload (t # ts) (x # nums) = do {
     v \<leftarrow> command_value t x;
     bs \<leftarrow> command_payload ts nums;
     Some (neurons_value_bytes t v @ bs) }"

definition plain_type :: "u8 \<Rightarrow> bool" where
  "plain_type t \<longleftrightarrow> t \<in> {BYTE_8_T, BYTE_16_T, SHORT_16_T, SHORT_24_T, LONG_40_T, FLOAT_40_T}"

lemma plain_type_masks:
  assumes "plain_type t"
  shows "t AND 0xf0 = 0" "t AND 0x0f = t"
  using assms by (auto simp: plain_type_def neurons_data_type_t)

lemma send_type_plain:
  assumes "rd types i = Some t" and "plain_type t" and "rd nums (unat k) = Some x" and "command_value t x = Some v"
    and "length xs + length (neurons_value_bytes t v) \<le> PACKAGE_LEN"
  shows "send_type nums types i (k, package_of xs)
    = Some (Some (k + 1, package_of (xs @ neurons_value_bytes t v)))"
proof -
  have "t \<in> {BYTE_8_T, BYTE_16_T, SHORT_16_T, SHORT_24_T, LONG_40_T, FLOAT_40_T}"
    using assms(2) by (simp add: plain_type_def)
  then have "add_values nums t (Suc 0) (k, package_of xs) = Some (k + 1, package_of (xs @ neurons_value_bytes t v))"
    using assms(3-5) by (simp only: add_values.simps) (simp add: add_data_package_of)
  then show ?thesis
    using assms(1) plain_type_masks [OF assms(2)]
    by (simp add: send_type_def ALTERABLE_NUM_BYTE_def Let_def del: add_values.simps)
qed

lemma send_types_plain:
  assumes "list_all plain_type ts" and "command_payload ts (drop j nums) = Some bs"
    and "take (length ts) (drop i types) = ts" and "length xs + length bs \<le> PACKAGE_LEN" and "j + length ts < 256"
  shows "send_types nums types [i..<i + length ts] (of_nat j, package_of xs) = Some (Some (package_of (xs @ bs)))"
  using assms
proof (induction ts arbitrary: i j xs bs)
  case (Cons t ts)
  have j: "j < length nums"
    using Cons.prems(2) by (cases "j < length nums") auto
  then have dj: "drop j nums = nums ! j # drop (Suc j) nums" by (rule Cons_nth_drop_Suc [symmetric])
  obtain v bs' where v: "command_value t (nums ! j) = Some v" "command_payload ts (drop (Suc j) nums) = Some bs'"
    "bs = neurons_value_bytes t v @ bs'"
    using Cons.prems(2) unfolding dj by (auto split: Option.bind_splits)
  have i: "i < length types"
    using Cons.prems(3) by (cases "i < length types") auto
  then have ti: "drop i types = types ! i # drop (Suc i) types" by (rule Cons_nth_drop_Suc [symmetric])
  have ts: "types ! i = t" "take (length ts) (drop (Suc i) types) = ts"
    using Cons.prems(3) unfolding ti by simp_all
  have uj: "unat (of_nat j :: u8) = j" using Cons.prems(5) by (simp add: unat_small)
  have "send_type nums types i (of_nat j, package_of xs)
      = Some (Some (of_nat j + 1, package_of (xs @ neurons_value_bytes t v)))"
    using Cons.prems(1,4) v i j ts uj by (intro send_type_plain) (auto simp: rd_in)
  moreover have "send_types nums types [Suc i..<Suc i + length ts] (of_nat (Suc j), package_of (xs @ neurons_value_bytes t v))
      = Some (Some (package_of ((xs @ neurons_value_bytes t v) @ bs')))"
    using Cons.prems v ts by (intro Cons.IH) auto
  moreover have "[i..<i + length (t # ts)] = i # [Suc i..<Suc i + length ts]"
    using upt_conv_Cons [of i "i + length (t # ts)"] by (simp del: upt_Suc)
  ultimately show ?case
    by (simp add: v(3) ac_simps del: upt_Suc)
qed simp

text \<open>
  A command for a block on line with plain parameter types: exactly one frame goes to the
  second serial link, with the address of the block, the number of the command and the numbers
  of the caller, each converted to its type and cut into the bytes of its type.
\<close>

theorem single_command_sent:
  assumes "neurons_engine_get_main_list_block_info_by_index_t s (index c) (type_id c) (sub_type_id c) = Some (Some b)"
    and "neurons_engine_get_command_info_t s b (cmd_id c) (replicate 5 0) = Some (types, Suc (length ts))"
    and "take (length ts) (drop 1 types) = ts" and "list_all plain_type ts"
    and "command_payload ts (cmd_data c) = Some bytes" and "length bytes + 7 \<le> 64" and "length ts \<le> 5"
    and "0xF7 \<notin> set ([dev_id b, block_type b, block_sub_type b, cmd_id c] @ bytes)"
  shows "neurons_engine_send_single_command_t s c
    = (let xs = [dev_id b, block_type b, block_sub_type b, cmd_id c] @ bytes
       in Some (1, [(Uart1, 0xF0 # xs @ [neurons_check xs, 0xF7])]))"
proof -
  let ?xs = "[dev_id b, block_type b, block_sub_type b, cmd_id c] @ bytes"
  let ?f = "\<lparr>head = START_SYSEX, device_id = dev_id b, service_id = block_type b,
     sub_service_id = block_sub_type b, end_byte = END_SYSEX\<rparr>"
  let ?hd = "[0xF0, dev_id b, block_type b, block_sub_type b]"
  have st: "send_types (cmd_data c) types [1..<Suc (length ts)] (0, package_of (?hd @ [cmd_id c]))
      = Some (Some (package_of ((?hd @ [cmd_id c]) @ bytes)))"
    using send_types_plain [OF assms(4), of 0 "cmd_data c" bytes 1 types "?hd @ [cmd_id c]"] assms(3,5-7)
    by (simp add: PACKAGE_LEN_def del: upt_Suc)
  have hd1: "neurons_buffer_add_head_frame_t ?f (package_of []) True = Some (package_of ?hd)"
    by (simp add: add_head_package_of head_bytes_def START_SYSEX_def)
  have hd2: "neurons_buffer_add_data_t (package_of ?hd) BYTE_8_T (ucast (cmd_id c)) = Some (package_of (?hd @ [cmd_id c]))"
    by (simp add: add_data_package_of PACKAGE_LEN_def)
  have sent: "do { p \<leftarrow> neurons_buffer_add_end_frame_t ?f (package_of (0xF0 # ?xs)); neurons_command_packege_send_all p 2 }
      = Some [(Uart1, 0xF0 # ?xs @ [neurons_check ?xs, 0xF7])]"
    by (rule send_built) (use assms(6,8) in \<open>auto simp: PACKAGE_LEN_def END_SYSEX_def\<close>)
  then obtain p where p: "neurons_buffer_add_end_frame_t ?f (package_of (0xF0 # ?xs)) = Some p"
    "neurons_command_packege_send_all p 2 = Some [(Uart1, 0xF0 # ?xs @ [neurons_check ?xs, 0xF7])]"
    by (auto split: Option.bind_splits)
  have same: "(?hd @ [cmd_id c]) @ bytes = 0xF0 # ?xs" by simp
  show ?thesis
    unfolding neurons_engine_send_single_command_t_def assms(1) bind.simps option.case
      RES_CMD_TYPE_MAX_def assms(2) prod.case Let_def hd1 hd2 st [unfolded same] p
    by simp
qed

text \<open>The command 1 of the demonstration block takes an unsigned 16-bit number and a byte: 1000 and 5.\<close>

definition demo_command :: "u8 \<Rightarrow> neurons_comnad_type_t" where
  "demo_command cid = \<lparr>type_id = 0x63, sub_type_id = 2, index = 1, cmd_id = cid, cmd_data_len = 3,
     cmd_data = [0x447A0000, 0x40A00000] @ replicate 126 0\<rparr>"

theorem single_command_sent_witness:
  "neurons_engine_send_single_command_t demo_engine (demo_command 1)
    = Some (1, [(Uart1, [0xF0, 1, 0x63, 2, 1, 104, 7, 5, 0x5B, 0xF7])])"
proof -
  let ?b = "blank_block\<lparr>block_type := 0x63, block_sub_type := 2, dev_id := 1, block_ram_addr := 8,
         respond_data_buffer := 16, respond_data_buffer_size := 4\<rparr>"
  have info: "neurons_engine_get_command_info_t demo_engine ?b 1 (replicate 5 0) = Some ([1, 3, 1, 0, 0], 3)"
    by code_simp
  have pay: "command_payload [3, 1] [0x447A0000, 0x40A00000] = Some [104, 7, 5]"
    by code_simp
  have "neurons_engine_send_single_command_t demo_engine (demo_command 1)
    = (let xs = [dev_id ?b, block_type ?b, block_sub_type ?b, cmd_id (demo_command 1)] @ [104, 7, 5]
       in Some (1, [(Uart1, 0xF0 # xs @ [neurons_check xs, 0xF7])]))"
    by (rule single_command_sent [where types = "[1, 3, 1, 0, 0]" and ts = "[3, 1]"])
      (use demo_by_index demo_by_id info pay in
        \<open>simp_all add: demo_command_def plain_type_def neurons_data_type_t blank_block_def\<close>)
  then show ?thesis
    by (simp add: demo_command_def neurons_check_def blank_block_def)
qed

lemma entry_length_full:
  assumes "off + n + left < length d" and "list_all (\<lambda>c. c \<noteq> 0) (take (Suc left) (drop (off + n) d))"
  shows "entry_length left d off n = Some (n + left + 1)"
  using assms
proof (induction left arbitrary: n)
  case 0
  then show ?case by (auto simp: rd_in take_Suc_conv_app_nth)
next
  case (Suc left)
  then have "drop (off + n) d = d ! (off + n) # drop (Suc (off + n)) d"
    by (intro Cons_nth_drop_Suc [symmetric]) simp
  with Suc.prems have "d ! (off + n) \<noteq> 0" "list_all (\<lambda>c. c \<noteq> 0) (take (Suc left) (drop (off + Suc n) d))"
    by simp_all
  with Suc.IH [of "Suc n"] Suc.prems(1) show ?case
    by (simp add: rd_in)
qed

lemma copy_entry_overflow:
  assumes "length out < n"
  shows "copy_entry d off n out = None"
proof -
  have len: "length out' = length out0" if "for_upto 0 k (\<lambda>i out. do { c \<leftarrow> rd d (off + i); wr out i c }) out0 = Some out'"
    for k out0 out'
    using that
    by (induction k arbitrary: out') (auto simp: for_upto_Suc wr_def split: Option.bind_splits if_splits)
  have "for_upto 0 (Suc (length out)) (\<lambda>i out. do { c \<leftarrow> rd d (off + i); wr out i c }) out = None"
    by (auto simp: for_upto_Suc wr_def split: Option.bind_split dest!: len [unfolded wr_def])
  moreover have "[0..<n] = [0..<Suc (length out)] @ [Suc (length out)..<n]"
    using assms upt_add_eq_append [of 0 "Suc (length out)" "n - Suc (length out)"] by (simp del: upt_Suc)
  ultimately show ?thesis
    by (simp add: copy_entry_def for_upto_def foldM_append del: upt_Suc)
qed

text \<open>
  The sender keeps the types of a command in an array of five bytes, but an entry of the
  library has the number of the command and up to five types: a command with five types is
  copied past the end of the array.
\<close>


theorem five_parameters_overrun:
  assumes "neurons_engine_get_main_list_block_info_by_index_t s (index c) (type_id c) (sub_type_id c) = Some (Some b)"
    and "libs s (block_ram_addr b) = Some e"
    and "entry_offset COMMAND_LEN (command_data_type e) (cmd_id c) = Some off" and "0 < off"
    and "off + 6 \<le> length (command_data_type e)"
    and "list_all (\<lambda>t. t \<noteq> 0) (take 6 (drop off (command_data_type e)))"
  shows "neurons_engine_send_single_command_t s c = None"
proof -
  have "entry_length COMMAND_ITEM_MAX (command_data_type e) off 0 = Some 6"
    using entry_length_full [of off 0 5 "command_data_type e"] assms(5,6) by (simp add: COMMAND_ITEM_MAX_def)
  moreover have "copy_entry (command_data_type e) off 6 (replicate RES_CMD_TYPE_MAX 0) = None"
    by (rule copy_entry_overflow) (simp add: RES_CMD_TYPE_MAX_def)
  ultimately show ?thesis
    using assms(1-4) by (simp add: neurons_engine_send_single_command_t_def neurons_engine_get_command_info_t_def)
qed

theorem five_parameters_overrun_witness:
  "neurons_engine_send_single_command_t demo_engine (demo_command 7) = None"
proof (rule five_parameters_overrun)
  show "neurons_engine_get_main_list_block_info_by_index_t demo_engine (index (demo_command 7))
      (type_id (demo_command 7)) (sub_type_id (demo_command 7)) = Some (Some
     (blank_block\<lparr>block_type := 0x63, block_sub_type := 2, dev_id := 1, block_ram_addr := 8,
         respond_data_buffer := 16, respond_data_buffer_size := 4\<rparr>))"
    using demo_by_index demo_by_id by (simp add: demo_command_def)
  show "libs demo_engine (block_ram_addr (blank_block\<lparr>block_type := 0x63, block_sub_type := 2, dev_id := 1,
      block_ram_addr := 8, respond_data_buffer := 16, respond_data_buffer_size := 4\<rparr>))
    = Some \<lparr>lib_block_type = 0x63, lib_block_sub_type = 2, block_num = 1,
       command_data_type = [2, 1, 3, 1, 0, 0, 0, 7, 1, 1, 1, 1, 1],
       respond_data_type = [1, 2, 3, 0, 0, 0, 0, 1]\<rparr>"
    by (simp add: demo_engine_def blank_block_def)
  show "entry_offset COMMAND_LEN (command_data_type \<lparr>lib_block_type = 0x63, lib_block_sub_type = 2, block_num = 1,
       command_data_type = [2, 1, 3, 1, 0, 0, 0, 7, 1, 1, 1, 1, 1],
       respond_data_type = [1, 2, 3, 0, 0, 0, 0, 1]\<rparr>) (cmd_id (demo_command 7)) = Some 7"
    by code_simp
qed simp_all

text \<open>
  The buffer between the interpreter and the engine behaves, over every sequence of pushes
  and pops, as a queue of one command: a second push waits until the engine has taken the first.
\<close>

theorem command_buffer_refines_queue:
  "\<exists>q. q_run neurons_engine_command_buffer_push neurons_engine_command_buffer_pop ops
       (neurons_engine_command_buffer_init zero)
     = Some (fst (qspec_run 1 ops []), q) \<and> command_queue_items q = snd (qspec_run 1 ops [])"
  using command_q.run_refines [of "neurons_engine_command_buffer_init zero" ops]
    init_command_buffer [of zero]
  by (auto simp: CMD_BUFFER_MAX_def)

end
