(* ===== verification/Neurons_Block_List.thy ===== *)
theory Neurons_Block_List
  imports Neurons_Engine
begin

text \<open>
  The linked list of the library entries of the blocks on line
  (\<open>neurons_engine_list_maintain.c\<close>).  A node is a heap object with the address of the next
  node and of its entry; freeing an object removes it from the heap, so that a later access is
  undefined.  The loops run over the pointers of the heap and end only if the list does, hence
  \<open>partial_function\<close>; the abstraction \<open>nodes_at\<close> relates a heap to the list of its nodes.
\<close>

record lib_node =
  next_node :: pointer
  lib_addr :: pointer

record lib_list =
  list_head :: pointer
  lnodes :: "pointer \<Rightarrow> lib_node option"
  entries :: "pointer \<Rightarrow> lib_entry option"

definition neurons_engine_online_block_list_is_empty_t :: "lib_list \<Rightarrow> bool" where
  "neurons_engine_online_block_list_is_empty_t s \<longleftrightarrow> list_head s = 0"

definition set_next :: "pointer \<Rightarrow> pointer \<Rightarrow> lib_list \<Rightarrow> lib_list option" where
  "set_next p v s = do { n \<leftarrow> lnodes s p; Some (s\<lparr>lnodes := (lnodes s)(p \<mapsto> n\<lparr>next_node := v\<rparr>)\<rparr>) }"

definition free_node :: "pointer \<Rightarrow> lib_list \<Rightarrow> lib_list option" where
  "free_node p s = (if lnodes s p = None then None else Some (s\<lparr>lnodes := (lnodes s)(p := None)\<rparr>))"

text \<open>\<open>while(p_next->next != NULL) p_next = p_next->next\<close>\<close>

partial_function (option) list_tail :: "(pointer \<Rightarrow> lib_node option) \<Rightarrow> pointer \<Rightarrow> pointer option" where
  "list_tail h p = do {
     n \<leftarrow> h p;
     if next_node n \<noteq> 0 then list_tail h (next_node n) else Some p }"

definition neurons_engine_online_block_list_add_t :: "pointer \<Rightarrow> lib_list \<Rightarrow> lib_list option" where
  "neurons_engine_online_block_list_add_t new s =
     (if neurons_engine_online_block_list_is_empty_t s
      then set_next new 0 (s\<lparr>list_head := new\<rparr>)
      else do {
        p \<leftarrow> list_tail (lnodes s) (list_head s);
        s \<leftarrow> set_next p new s;
        set_next new 0 s })"

text \<open>\<open>while(p_next != node && p_next != NULL)\<close>, with the node before\<close>

partial_function (option) list_seek ::
    "(pointer \<Rightarrow> lib_node option) \<Rightarrow> pointer \<Rightarrow> pointer \<Rightarrow> pointer \<Rightarrow> (pointer \<times> pointer) option" where
  "list_seek h node p_pre p_next =
     (if p_next \<noteq> node \<and> p_next \<noteq> 0 then do { n \<leftarrow> h p_next; list_seek h node p_next (next_node n) }
      else Some (p_pre, p_next))"

definition neurons_engine_online_block_list_delete_t :: "pointer \<Rightarrow> lib_list \<Rightarrow> lib_list option" where
  "neurons_engine_online_block_list_delete_t node s =
     (if neurons_engine_online_block_list_is_empty_t s then Some s
      else if node = list_head s then do {
        n \<leftarrow> lnodes s node;
        free_node node (s\<lparr>list_head := next_node n\<rparr>) }
      else do {
        (p_pre, p_next) \<leftarrow> list_seek (lnodes s) node (list_head s) (list_head s);
        n \<leftarrow> lnodes s p_next;
        s \<leftarrow> set_next p_pre (next_node n) s;
        if p_next \<noteq> 0 then free_node p_next s else Some s })"

partial_function (option) check_loop :: "lib_list \<Rightarrow> u8 \<Rightarrow> u8 \<Rightarrow> pointer \<Rightarrow> pointer option" where
  "check_loop s ty sub p =
     (if p = 0 then Some 0
      else do {
        n \<leftarrow> lnodes s p;
        e \<leftarrow> entries s (lib_addr n);
        if lib_block_type e \<noteq> ty \<or> lib_block_sub_type e \<noteq> sub then check_loop s ty sub (next_node n)
        else Some (lib_addr n) })"

text \<open>The address of the entry of a type, or the null pointer.\<close>

definition neurons_engine_online_block_list_check_t :: "u8 \<Rightarrow> u8 \<Rightarrow> lib_list \<Rightarrow> pointer option" where
  "neurons_engine_online_block_list_check_t ty sub s =
     (if neurons_engine_online_block_list_is_empty_t s then Some 0 else check_loop s ty sub (list_head s))"

partial_function (option) clear_loop :: "pointer \<Rightarrow> lib_list \<Rightarrow> lib_list option" where
  "clear_loop p s =
     (if p = 0 then Some s
      else do {
        n \<leftarrow> lnodes s p;
        s \<leftarrow> (if lib_addr n \<noteq> 0 then do {
                e \<leftarrow> entries s (lib_addr n);
                Some (s\<lparr>entries := (entries s)(lib_addr n \<mapsto> e\<lparr>block_num := 0\<rparr>)\<rparr>) }
              else Some s);
        clear_loop (next_node n) s })"

definition neurons_engine_online_block_list_clear_all_block_num :: "lib_list \<Rightarrow> lib_list option" where
  "neurons_engine_online_block_list_clear_all_block_num s =
     (if list_head s = 0 then Some s else clear_loop (list_head s) s)"

definition free_entry :: "pointer \<Rightarrow> lib_list \<Rightarrow> lib_list option" where
  "free_entry a s = (if entries s a = None then None else Some (s\<lparr>entries := (entries s)(a := None)\<rparr>))"

text \<open>The entry is freed with its two arrays, then its node is taken out of the list.\<close>

partial_function (option) not_used_loop :: "pointer \<Rightarrow> lib_list \<Rightarrow> lib_list option" where
  "not_used_loop p s =
     (if p = 0 then Some s
      else do {
        n \<leftarrow> lnodes s p;
        e \<leftarrow> entries s (lib_addr n);
        if block_num e = 0 then do {
          s \<leftarrow> free_entry (lib_addr n) s;
          s \<leftarrow> neurons_engine_online_block_list_delete_t p s;
          not_used_loop (next_node n) s }
        else not_used_loop (next_node n) s })"

definition neurons_engine_online_block_list_not_used_free :: "lib_list \<Rightarrow> lib_list option" where
  "neurons_engine_online_block_list_not_used_free s = not_used_loop (list_head s) s"

lemmas list_loops [code] = list_tail.simps list_seek.simps check_loop.simps clear_loop.simps not_used_loop.simps

subsection \<open>The list behind the pointers\<close>

text \<open>\<open>lseg h p xs q\<close>: from \<open>p\<close> the nodes \<open>xs\<close>, with their entries, lead to \<open>q\<close>.\<close>

fun lseg :: "(pointer \<Rightarrow> lib_node option) \<Rightarrow> pointer \<Rightarrow> (pointer \<times> pointer) list \<Rightarrow> pointer \<Rightarrow> bool" where
  "lseg h p [] q \<longleftrightarrow> p = q"
| "lseg h p (x # xs) q \<longleftrightarrow> p = fst x \<and> p \<noteq> 0
     \<and> (case h p of None \<Rightarrow> False | Some n \<Rightarrow> lib_addr n = snd x \<and> lseg h (next_node n) xs q)"

definition nodes_at :: "lib_list \<Rightarrow> (pointer \<times> pointer) list \<Rightarrow> bool" where
  "nodes_at s xs \<longleftrightarrow> lseg (lnodes s) (list_head s) xs 0 \<and> distinct (map fst xs)"

lemma lseg_append: "lseg h p (xs @ ys) q \<longleftrightarrow> (\<exists>r. lseg h p xs r \<and> lseg h r ys q)"
  by (induction xs arbitrary: p) (auto split: option.splits)

lemma lseg_update: "a \<notin> set (map fst xs) \<Longrightarrow> lseg (h(a := v)) p xs q = lseg h p xs q"
  by (induction xs arbitrary: p) (auto split: option.splits)

lemma lseg_nonzero: "lseg h p xs q \<Longrightarrow> 0 \<notin> set (map fst xs)"
  by (induction xs arbitrary: p) (auto split: option.splits)

lemma lseg_unique: "lseg h p xs 0 \<Longrightarrow> lseg h p ys 0 \<Longrightarrow> xs = ys"
proof (induction xs arbitrary: p ys)
  case (Cons x xs)
  then show ?case by (cases ys) (auto split: option.splits prod.splits intro: prod_eqI)
next
  case Nil
  then show ?case by (cases ys) (auto split: option.splits)
qed

lemma list_tail_lseg:
  "lseg h p (xs @ [(a, l)]) 0 \<Longrightarrow> list_tail h p = Some a"
proof (induction xs arbitrary: p)
  case Nil
  then show ?case by (subst list_tail.simps) (auto split: option.splits)
next
  case (Cons x xs)
  then obtain n where n: "h p = Some n" "lseg h (next_node n) (xs @ [(a, l)]) 0"
    by (auto split: option.splits)
  then have "next_node n \<noteq> 0" by (cases xs) auto
  with n Cons.IH [OF n(2)] show ?case by (subst list_tail.simps) simp
qed

lemma list_seek_lseg:
  "lseg h p (xs @ (node, l) # ys) 0 \<Longrightarrow> node \<notin> set (map fst xs) \<Longrightarrow>
   list_seek h node pre p = Some (if xs = [] then pre else fst (last xs), node)"
proof (induction xs arbitrary: p pre)
  case Nil
  then show ?case by (subst list_seek.simps) simp
next
  case (Cons x xs)
  then obtain n where n: "h p = Some n" "lseg h (next_node n) (xs @ (node, l) # ys) 0" "p = fst x" "p \<noteq> 0"
    by (auto split: option.splits)
  have "p \<noteq> node" using Cons.prems(2) n(3) by auto
  with n Cons.IH [OF n(2), of p] Cons.prems(2) show ?case
    by (subst list_seek.simps) auto
qed

subsection \<open>The operations on the list\<close>

lemma lseg_head: "lseg h p xs q \<Longrightarrow> xs \<noteq> [] \<Longrightarrow> p \<in> set (map fst xs)"
  by (cases xs) auto

lemma list_empty_iff: "nodes_at s xs \<Longrightarrow> neurons_engine_online_block_list_is_empty_t s \<longleftrightarrow> xs = []"
  by (cases xs) (auto simp: nodes_at_def neurons_engine_online_block_list_is_empty_t_def)

lemma add_appends:
  assumes "nodes_at s xs" and "lnodes s new = Some n" and "new \<noteq> 0" and "new \<notin> set (map fst xs)"
  shows "\<exists>s'. neurons_engine_online_block_list_add_t new s = Some s'
    \<and> nodes_at s' (xs @ [(new, lib_addr n)]) \<and> entries s' = entries s"
proof (cases xs rule: rev_cases)
  case Nil
  with assms show ?thesis
    using list_empty_iff [OF assms(1)]
    by (auto simp: neurons_engine_online_block_list_add_t_def set_next_def nodes_at_def)
next
  case (snoc ys y)
  obtain a l where y: "y = (a, l)" by (cases y)
  from assms(1) have seg: "lseg (lnodes s) (list_head s) (ys @ [(a, l)]) 0" "distinct (map fst (ys @ [(a, l)]))"
    by (auto simp: nodes_at_def snoc y)
  then obtain m where m: "lnodes s a = Some m" "lib_addr m = l" "lseg (lnodes s) (list_head s) ys a" "a \<noteq> 0"
    by (auto simp: lseg_append split: option.splits)
  have "a \<noteq> new" using assms(4) by (auto simp: snoc y)
  then have "neurons_engine_online_block_list_add_t new s = Some (s\<lparr>lnodes :=
      (lnodes s)(a \<mapsto> m\<lparr>next_node := new\<rparr>, new \<mapsto> n\<lparr>next_node := 0\<rparr>)\<rparr>)"
    using list_empty_iff [OF assms(1)] list_tail_lseg [OF seg(1)] m(1) assms(2)
    by (simp add: neurons_engine_online_block_list_add_t_def set_next_def snoc)
  moreover have "a \<notin> set (map fst ys)" "new \<notin> set (map fst ys)"
    using seg(2) assms(4) by (auto simp: snoc)
  ultimately show ?thesis
    using m assms(3,4) seg(2) \<open>a \<noteq> new\<close>
    by (auto simp: nodes_at_def snoc y lseg_append lseg_update)
qed

lemma delete_removes:
  assumes "nodes_at s (xs @ (node, l) # ys)"
  shows "\<exists>s'. neurons_engine_online_block_list_delete_t node s = Some s'
    \<and> nodes_at s' (xs @ ys) \<and> entries s' = entries s \<and> lnodes s' node = None
    \<and> dom (lnodes s') = dom (lnodes s) - {node} \<and> (\<forall>p. p \<notin> fst ` set (xs @ (node, l) # ys) \<longrightarrow> lnodes s' p = lnodes s p)
    \<and> (\<forall>p. lseg (lnodes s') p ys 0 = lseg (lnodes s) p ys 0)"
proof -
  from assms have seg: "lseg (lnodes s) (list_head s) (xs @ (node, l) # ys) 0"
      "distinct (map fst (xs @ (node, l) # ys))"
    by (auto simp: nodes_at_def)
  then obtain n where n: "lnodes s node = Some n" "node \<noteq> 0" "lseg (lnodes s) (next_node n) ys 0"
      "lseg (lnodes s) (list_head s) xs node"
    by (auto simp: lseg_append split: option.splits)
  have ne: "\<not> neurons_engine_online_block_list_is_empty_t s"
    using list_empty_iff [OF assms] by simp
  have notin: "node \<notin> set (map fst xs)" "node \<notin> set (map fst ys)"
    using seg(2) by auto
  show ?thesis
  proof (cases xs rule: rev_cases)
    case Nil
    with n ne seg notin show ?thesis
      by (auto simp: neurons_engine_online_block_list_delete_t_def free_node_def nodes_at_def lseg_update)
  next
    case (snoc zs z)
    obtain a k where z: "z = (a, k)" by (cases z)
    from n(4) obtain m where m: "lnodes s a = Some m" "lib_addr m = k" "next_node m = node" "a \<noteq> 0"
        "lseg (lnodes s) (list_head s) zs a"
      by (auto simp: lseg_append snoc z split: option.splits)
    have dist: "a \<noteq> node" "a \<notin> set (map fst zs)" "a \<notin> set (map fst ys)"
      using seg(2) by (auto simp: snoc z)
    have "node \<noteq> list_head s"
      using lseg_head [OF n(4)] notin(1) by (auto simp: snoc)
    then have "neurons_engine_online_block_list_delete_t node s = Some (s\<lparr>lnodes :=
        (lnodes s)(a \<mapsto> m\<lparr>next_node := next_node n\<rparr>, node := None)\<rparr>)"
      using ne n m(1) dist list_seek_lseg [OF seg(1) notin(1), of "list_head s"]
      by (simp add: neurons_engine_online_block_list_delete_t_def snoc z set_next_def free_node_def)
    with n m dist notin seg(2) show ?thesis
      by (auto simp: nodes_at_def lseg_append lseg_update snoc z)
  qed
qed

lemma list_seek_absent:
  "lseg h p xs 0 \<Longrightarrow> node \<notin> set (map fst xs) \<Longrightarrow> node \<noteq> 0 \<Longrightarrow>
   \<exists>q. list_seek h node pre p = Some (q, 0)"
proof (induction xs arbitrary: p pre)
  case Nil
  then show ?case by (subst list_seek.simps) simp
next
  case (Cons x xs)
  then obtain n where n: "h p = Some n" "lseg h (next_node n) xs 0" "p = fst x" "p \<noteq> 0"
    by (auto split: option.splits)
  have "p \<noteq> node" using Cons.prems(2) n(3) by auto
  with n Cons.IH [OF n(2), of p] Cons.prems(2,3) show ?case
    by (subst list_seek.simps) auto
qed

text \<open>
  Taking out a node that is not in a non-empty list dereferences a null pointer: after the
  search the successor of the node that was not found is read before the test for null.
\<close>

theorem delete_absent_node:
  assumes "nodes_at s xs" and "xs \<noteq> []" and "node \<notin> set (map fst xs)" and "node \<noteq> 0" and "lnodes s 0 = None"
  shows "neurons_engine_online_block_list_delete_t node s = None"
proof -
  have seg: "lseg (lnodes s) (list_head s) xs 0" using assms(1) by (simp add: nodes_at_def)
  have "node \<noteq> list_head s" using seg assms(2,3) by (cases xs) auto
  with assms list_seek_absent [OF seg assms(3,4), of "list_head s"] list_empty_iff [OF assms(1)] show ?thesis
    by (auto simp: neurons_engine_online_block_list_delete_t_def)
qed

definition demo_list :: lib_list where
  "demo_list = (let e = \<lparr>lib_block_type = 0x63, lib_block_sub_type = 2, block_num = 0,
       command_data_type = [0], respond_data_type = [0]\<rparr> in
     \<lparr>list_head = 1,
      lnodes = (\<lambda>_. None)(1 \<mapsto> \<lparr>next_node = 2, lib_addr = 11\<rparr>, 2 \<mapsto> \<lparr>next_node = 3, lib_addr = 12\<rparr>,
        3 \<mapsto> \<lparr>next_node = 0, lib_addr = 13\<rparr>),
      entries = (\<lambda>_. None)(11 \<mapsto> e, 12 \<mapsto> e\<lparr>block_num := 1\<rparr>, 13 \<mapsto> e)\<rparr>)"

lemma nodes_at_demo: "nodes_at demo_list [(1, 11), (2, 12), (3, 13)]"
  by (simp add: demo_list_def nodes_at_def Let_def)

theorem delete_absent_node_witness:
  "neurons_engine_online_block_list_delete_t 4 demo_list = None"
  by (rule delete_absent_node [OF nodes_at_demo]) (simp_all add: demo_list_def Let_def)

lemma check_finds_first:
  assumes "lseg (lnodes s) p xs 0" and "list_all (\<lambda>x. entries s (snd x) \<noteq> None) xs"
  shows "check_loop s ty sub p = Some (case filter (\<lambda>x. case entries s (snd x) of None \<Rightarrow> False
      | Some e \<Rightarrow> lib_block_type e = ty \<and> lib_block_sub_type e = sub) xs of [] \<Rightarrow> 0 | x # _ \<Rightarrow> snd x)"
  using assms
proof (induction xs arbitrary: p)
  case Nil
  then show ?case by (subst check_loop.simps) simp
next
  case (Cons x xs)
  then obtain n e where n: "lnodes s p = Some n" "lib_addr n = snd x" "lseg (lnodes s) (next_node n) xs 0"
      "p = fst x" "p \<noteq> 0" "entries s (snd x) = Some e"
    by (auto split: option.splits)
  with Cons.IH [OF n(3)] Cons.prems(2) show ?case
    by (subst check_loop.simps) auto
qed

text \<open>
  The clean-up.  The entries that no block uses any more are freed with their nodes, the others
  stay, in their order.
\<close>

definition unused :: "lib_list \<Rightarrow> pointer \<times> pointer \<Rightarrow> bool" where
  "unused s x \<longleftrightarrow> (case entries s (snd x) of None \<Rightarrow> False | Some e \<Rightarrow> block_num e = 0)"

lemma not_used_loop_frees:
  assumes "nodes_at s (xs @ ys)" and "lseg (lnodes s) p ys 0"
    and "list_all (\<lambda>x. entries s (snd x) \<noteq> None) ys" and "distinct (map snd ys)"
  shows "\<exists>s'. not_used_loop p s = Some s' \<and> nodes_at s' (xs @ filter (\<lambda>x. \<not> unused s x) ys)
    \<and> entries s' = (entries s) |` (- snd ` set (filter (unused s) ys))
    \<and> dom (lnodes s') = dom (lnodes s) - fst ` set (filter (unused s) ys)
    \<and> (\<forall>q. q \<notin> fst ` set (xs @ ys) \<longrightarrow> lnodes s' q = lnodes s q)"
  using assms
proof (induction ys arbitrary: s xs p)
  case Nil
  then show ?case by (subst not_used_loop.simps) (simp add: nodes_at_def restrict_map_def)
next
  case (Cons y ys)
  obtain a l where y: "y = (a, l)" by (cases y)
  from Cons.prems(2,3) obtain n e where n: "lnodes s a = Some n" "lib_addr n = l" "p = a" "p \<noteq> 0"
      "lseg (lnodes s) (next_node n) ys 0" "entries s l = Some e"
    by (auto simp: y split: option.splits)
  have l: "l \<notin> snd ` set ys" using Cons.prems(4) by (auto simp: y)
  show ?case
  proof (cases "block_num e = 0")
    case True
    let ?s1 = "s\<lparr>entries := (entries s)(l := None)\<rparr>"
    have "nodes_at ?s1 (xs @ (a, l) # ys)" using Cons.prems(1) by (simp add: nodes_at_def y)
    from delete_removes [OF this] obtain s2 where
      s2: "neurons_engine_online_block_list_delete_t a ?s1 = Some s2" "nodes_at s2 (xs @ ys)"
        "entries s2 = entries ?s1" "dom (lnodes s2) = dom (lnodes s) - {a}"
        "\<And>q. q \<notin> fst ` set (xs @ y # ys) \<Longrightarrow> lnodes s2 q = lnodes s q" "lseg (lnodes s2) (next_node n) ys 0 = lseg (lnodes ?s1) (next_node n) ys 0"
      unfolding y by auto
    have seg: "lseg (lnodes s2) (next_node n) ys 0" using s2(6) n(5) by simp
    have same: "unused s2 x = unused s x" if "x \<in> set ys" for x
      using that l s2(3) by (auto simp: unused_def)
    have flt: "filter (\<lambda>x. \<not> unused s2 x) ys = filter (\<lambda>x. \<not> unused s x) ys"
        "filter (unused s2) ys = filter (unused s) ys"
      using same by (auto intro: filter_cong)
    have "list_all (\<lambda>x. entries s2 (snd x) \<noteq> None) ys"
      using Cons.prems(3) l s2(3) by (auto simp: list_all_iff)
    from Cons.IH [OF s2(2) seg this] Cons.prems(4) obtain s' where
      s': "not_used_loop (next_node n) s2 = Some s'" "nodes_at s' (xs @ filter (\<lambda>x. \<not> unused s x) ys)"
        "entries s' = entries s2 |` (- snd ` set (filter (unused s) ys))"
        "dom (lnodes s') = dom (lnodes s2) - fst ` set (filter (unused s) ys)"
        "\<And>q. q \<notin> fst ` set (xs @ ys) \<Longrightarrow> lnodes s' q = lnodes s2 q"
      unfolding flt by auto
    have u: "unused s (a, l)" using n(6) True by (simp add: unused_def)
    have "entries s' = (entries s) |` (- snd ` set (filter (unused s) (y # ys)))"
      using u s'(3) s2(3) by (auto simp: y restrict_map_def fun_eq_iff)
    moreover have "dom (lnodes s') = dom (lnodes s) - fst ` set (filter (unused s) (y # ys))"
      using u s'(4) s2(4) by (auto simp: y)
    moreover have "\<forall>q. q \<notin> fst ` set (xs @ y # ys) \<longrightarrow> lnodes s' q = lnodes s q"
      using s'(5) s2(5) by auto
    moreover have "not_used_loop p s = Some s'"
      using s'(1) s2(1) n True by (subst not_used_loop.simps) (simp add: free_entry_def)
    ultimately show ?thesis using s'(2) u by (simp add: y)
  next
    case False
    have "nodes_at s ((xs @ [(a, l)]) @ ys)" using Cons.prems(1) by (simp add: y)
    from Cons.IH [OF this n(5)] Cons.prems(3,4) n False show ?thesis
      by (subst not_used_loop.simps) (auto simp: unused_def y)
  qed
qed

text \<open>
  C25. After a change of the blocks on line the list is cleaned: exactly the entries that no
  block uses are freed, and exactly their nodes are freed with them, each only once; the other entries and their order
  stay, the list that remains is intact, and no object outside of the list is touched.
\<close>

theorem unused_entries_freed:
  assumes "nodes_at s xs" and "list_all (\<lambda>x. entries s (snd x) \<noteq> None) xs" and "distinct (map snd xs)"
  shows "\<exists>s'. neurons_engine_online_block_list_not_used_free s = Some s'
    \<and> nodes_at s' (filter (\<lambda>x. \<not> unused s x) xs)
    \<and> entries s' = (entries s) |` (- snd ` set (filter (unused s) xs))
    \<and> dom (lnodes s') = dom (lnodes s) - fst ` set (filter (unused s) xs)
    \<and> (\<forall>q. q \<notin> fst ` set xs \<longrightarrow> lnodes s' q = lnodes s q)"
proof -
  have "lseg (lnodes s) (list_head s) xs 0" using assms(1) by (simp add: nodes_at_def)
  then show ?thesis
    using not_used_loop_frees [of s "[]" xs "list_head s"] assms
    by (simp add: neurons_engine_online_block_list_not_used_free_def)
qed

theorem unused_entries_freed_witness:
  "\<exists>s'. neurons_engine_online_block_list_not_used_free demo_list = Some s'
    \<and> nodes_at s' [(2, 12)] \<and> entries s' 11 = None \<and> entries s' 12 = entries demo_list 12 \<and> dom (lnodes s') = {2}"
proof -
  have f: "filter (\<lambda>x. \<not> unused demo_list x) [(1, 11), (2, 12), (3, 13)] = [(2, 12)]"
    "filter (unused demo_list) [(1, 11), (2, 12), (3, 13)] = [(1, 11), (3, 13)]"
    by (simp_all add: unused_def demo_list_def Let_def)
  obtain s' where s': "neurons_engine_online_block_list_not_used_free demo_list = Some s'" "nodes_at s' [(2, 12)]"
    "entries s' = entries demo_list |` (- snd ` set [(1, 11), (3, 13)])"
    "dom (lnodes s') = dom (lnodes demo_list) - fst ` set [(1, 11), (3, 13)]"
    using unused_entries_freed [OF nodes_at_demo] unfolding f by (fastforce simp: demo_list_def Let_def)
  have "dom (lnodes demo_list) = {1, 2, 3}" by (auto simp: demo_list_def Let_def)
  then show ?thesis using s' by (intro exI [of _ s']) auto
qed

end
