(* ===== verification/Py_Gc.thy ===== *)
theory Py_Gc
  imports Codey_Prelude
begin

text \<open>
  The heap of the interpreter (\<open>py/gc.c\<close>).  The pool is divided into blocks of 16 bytes; two
  bits per block in the allocation table say whether it is free, the head or in the tail of an
  object, or a marked head.  One bit per block in the finaliser table, which lies directly behind
  the allocation table, marks objects with a finaliser.  The model keeps both tables in one list
  of bytes, as they lie in memory, because the code may read across the border between them.

  This theory holds the tables, marking with the bounded mark stack and its overflow, and the
  sweep; allocation is in \<open>Py_Gc_Alloc\<close>.
\<close>

unbundle bit_operations_syntax

named_theorems gc_simps "reading and writing the tables"

subsection \<open>The tables\<close>

record gc =
  gtab :: "u8 list"
  atb_len :: nat
  pool_start :: nat
  pool :: "u32 list"
  gc_stack :: "nat list"
  gc_stack_overflow :: bool
  gc_last_free_atb_index :: nat
  gc_lock_depth :: u16
  gc_auto_collect_enabled :: bool
  gc_alloc_threshold :: u32
  gc_alloc_amount :: u32

definition AT_FREE :: u8 where "AT_FREE = 0"
definition AT_HEAD :: u8 where "AT_HEAD = 1"
definition AT_TAIL :: u8 where "AT_TAIL = 2"
definition AT_MARK :: u8 where "AT_MARK = 3"

lemmas AT_defs = AT_FREE_def AT_HEAD_def AT_TAIL_def AT_MARK_def

definition GC_STACK_SIZE :: nat where "GC_STACK_SIZE = 64"

definition num_blocks :: "gc \<Rightarrow> nat" where
  "num_blocks s = 4 * atb_len s"

definition pool_end :: "gc \<Rightarrow> nat" where
  "pool_end s = pool_start s + 16 * num_blocks s"

definition BLOCK_SHIFT :: "nat \<Rightarrow> nat" where
  "BLOCK_SHIFT b = 2 * (b mod 4)"

definition ATB_GET_KIND :: "gc \<Rightarrow> nat \<Rightarrow> u8 option" where
  "ATB_GET_KIND s b = do { a \<leftarrow> rd (gtab s) (b div 4); Some (drop_bit (BLOCK_SHIFT b) a AND 3) }"

definition ATB_UPDATE :: "(u8 \<Rightarrow> u8) \<Rightarrow> nat \<Rightarrow> gc \<Rightarrow> gc option" where
  "ATB_UPDATE f b s = do {
     a \<leftarrow> rd (gtab s) (b div 4); t \<leftarrow> wr (gtab s) (b div 4) (f a); Some (s\<lparr>gtab := t\<rparr>) }"

definition ATB_ANY_TO_FREE :: "nat \<Rightarrow> gc \<Rightarrow> gc option" where
  "ATB_ANY_TO_FREE b = ATB_UPDATE (\<lambda>a. a AND NOT (push_bit (BLOCK_SHIFT b) AT_MARK)) b"

definition ATB_FREE_TO_HEAD :: "nat \<Rightarrow> gc \<Rightarrow> gc option" where
  "ATB_FREE_TO_HEAD b = ATB_UPDATE (\<lambda>a. a OR push_bit (BLOCK_SHIFT b) AT_HEAD) b"

definition ATB_FREE_TO_TAIL :: "nat \<Rightarrow> gc \<Rightarrow> gc option" where
  "ATB_FREE_TO_TAIL b = ATB_UPDATE (\<lambda>a. a OR push_bit (BLOCK_SHIFT b) AT_TAIL) b"

definition ATB_HEAD_TO_MARK :: "nat \<Rightarrow> gc \<Rightarrow> gc option" where
  "ATB_HEAD_TO_MARK b = ATB_UPDATE (\<lambda>a. a OR push_bit (BLOCK_SHIFT b) AT_MARK) b"

definition ATB_MARK_TO_HEAD :: "nat \<Rightarrow> gc \<Rightarrow> gc option" where
  "ATB_MARK_TO_HEAD b = ATB_UPDATE (\<lambda>a. a AND NOT (push_bit (BLOCK_SHIFT b) AT_TAIL)) b"

definition FTB_GET :: "gc \<Rightarrow> nat \<Rightarrow> bool option" where
  "FTB_GET s b = do { a \<leftarrow> rd (gtab s) (atb_len s + b div 8); Some (drop_bit (b mod 8) a AND 1 \<noteq> 0) }"

definition FTB_UPDATE :: "(u8 \<Rightarrow> u8) \<Rightarrow> nat \<Rightarrow> gc \<Rightarrow> gc option" where
  "FTB_UPDATE f b s = do {
     a \<leftarrow> rd (gtab s) (atb_len s + b div 8);
     t \<leftarrow> wr (gtab s) (atb_len s + b div 8) (f a); Some (s\<lparr>gtab := t\<rparr>) }"

definition FTB_SET :: "nat \<Rightarrow> gc \<Rightarrow> gc option" where
  "FTB_SET b = FTB_UPDATE (\<lambda>a. a OR push_bit (b mod 8) 1) b"

definition FTB_CLEAR :: "nat \<Rightarrow> gc \<Rightarrow> gc option" where
  "FTB_CLEAR b = FTB_UPDATE (\<lambda>a. a AND NOT (push_bit (b mod 8) 1)) b"

subsection \<open>Marking\<close>

definition VERIFY_PTR :: "gc \<Rightarrow> u32 \<Rightarrow> bool" where
  "VERIFY_PTR s p \<longleftrightarrow> p AND 15 = 0 \<and> pool_start s \<le> unat p \<and> unat p < pool_end s"

definition BLOCK_FROM_PTR :: "gc \<Rightarrow> u32 \<Rightarrow> nat" where
  "BLOCK_FROM_PTR s p = (unat p - pool_start s) div 16"

definition VERIFY_MARK_AND_PUSH :: "u32 \<Rightarrow> gc \<Rightarrow> gc option" where
  "VERIFY_MARK_AND_PUSH p s =
     (if VERIFY_PTR s p then
        (let block = BLOCK_FROM_PTR s p in do {
          k \<leftarrow> ATB_GET_KIND s block;
          if k = AT_HEAD then do {
            s \<leftarrow> ATB_HEAD_TO_MARK block s;
            Some (if length (gc_stack s) < GC_STACK_SIZE
                  then s\<lparr>gc_stack := block # gc_stack s\<rparr>
                  else s\<lparr>gc_stack_overflow := True\<rparr>) }
          else Some s })
      else Some s)"

text \<open>\<open>do { n++; } while (ATB_GET_KIND(block + n) == AT_TAIL)\<close>\<close>

partial_function (option) chain_blocks :: "gc \<Rightarrow> nat \<Rightarrow> nat \<Rightarrow> nat option" where
  "chain_blocks s b n = do {
     k \<leftarrow> ATB_GET_KIND s (b + n);
     if k = AT_TAIL then chain_blocks s b (n + 1) else Some n }"

definition mark_words :: "nat \<Rightarrow> nat \<Rightarrow> gc \<Rightarrow> gc option" where
  "mark_words lo hi = for_upto lo hi (\<lambda>i s. do { w \<leftarrow> rd (pool s) i; VERIFY_MARK_AND_PUSH w s })"

partial_function (option) gc_drain_stack :: "gc \<Rightarrow> gc option" where
  "gc_drain_stack s = (case gc_stack s of
     [] \<Rightarrow> Some s
   | block # rest \<Rightarrow> do {
       let s = s\<lparr>gc_stack := rest\<rparr>;
       n_blocks \<leftarrow> chain_blocks s block 1;
       s \<leftarrow> mark_words (4 * block) (4 * block + 4 * n_blocks) s;
       gc_drain_stack s })"

definition rescan :: "gc \<Rightarrow> gc option" where
  "rescan s = for_upto 0 (num_blocks s) (\<lambda>block s. do {
     k \<leftarrow> ATB_GET_KIND s block;
     if k = AT_MARK then gc_drain_stack (s\<lparr>gc_stack := block # gc_stack s\<rparr>) else Some s })
     (s\<lparr>gc_stack_overflow := False, gc_stack := []\<rparr>)"

partial_function (option) gc_deal_with_stack_overflow :: "gc \<Rightarrow> gc option" where
  "gc_deal_with_stack_overflow s =
     (if gc_stack_overflow s then do { s \<leftarrow> rescan s; gc_deal_with_stack_overflow s } else Some s)"

declare chain_blocks.simps [code] gc_drain_stack.simps [code] gc_deal_with_stack_overflow.simps [code]

subsection \<open>Sweeping\<close>

text \<open>
  A finaliser is Python code: \<open>del\<close> runs the one of the object in a block, if the object has a
  type and the type a \<open>__del__\<close> method.
\<close>

definition sweep_block :: "(nat \<Rightarrow> gc \<Rightarrow> gc option) \<Rightarrow> nat \<Rightarrow> bool \<times> gc \<Rightarrow> (bool \<times> gc) option" where
  "sweep_block del b st = (let (free_tail, s) = st in do {
     k \<leftarrow> ATB_GET_KIND s b;
     if k = AT_HEAD then do {
       f \<leftarrow> FTB_GET s b;
       s \<leftarrow> (if f then do {
               ty \<leftarrow> rd (pool s) (4 * b);
               s \<leftarrow> (if ty \<noteq> 0 then del b s else Some s);
               FTB_CLEAR b s }
             else Some s);
       s \<leftarrow> ATB_ANY_TO_FREE b s;
       Some (True, s) }
     else if k = AT_TAIL then
       (if free_tail then do { s \<leftarrow> ATB_ANY_TO_FREE b s; Some (free_tail, s) } else Some (free_tail, s))
     else if k = AT_MARK then do { s \<leftarrow> ATB_MARK_TO_HEAD b s; Some (False, s) }
     else Some (free_tail, s) })"

definition gc_sweep :: "(nat \<Rightarrow> gc \<Rightarrow> gc option) \<Rightarrow> gc \<Rightarrow> gc option" where
  "gc_sweep del s = map_option snd (for_upto 0 (num_blocks s) (sweep_block del) (False, s))"

subsection \<open>A collection\<close>

definition gc_collect_root :: "u32 list \<Rightarrow> gc \<Rightarrow> gc option" where
  "gc_collect_root ptrs s = foldM (\<lambda>p s. do { s \<leftarrow> VERIFY_MARK_AND_PUSH p s; gc_drain_stack s }) ptrs s"

text \<open>\<open>globals\<close> are the root pointers of the interpreter state.\<close>

definition gc_collect_start :: "u32 list \<Rightarrow> gc \<Rightarrow> gc option" where
  "gc_collect_start globals s = gc_collect_root globals
     (s\<lparr>gc_lock_depth := gc_lock_depth s + 1, gc_alloc_amount := 0, gc_stack_overflow := False, gc_stack := []\<rparr>)"

definition gc_collect_end :: "(nat \<Rightarrow> gc \<Rightarrow> gc option) \<Rightarrow> gc \<Rightarrow> gc option" where
  "gc_collect_end del s = do {
     s \<leftarrow> gc_deal_with_stack_overflow s;
     s \<leftarrow> gc_sweep del s;
     Some (s\<lparr>gc_last_free_atb_index := 0, gc_lock_depth := gc_lock_depth s - 1\<rparr>) }"

text \<open>
  The port's collection: the roots of the interpreter, then the registers and the stacks of all
  threads, here the list \<open>stacks\<close> of word sequences.
\<close>

definition gc_collect :: "(nat \<Rightarrow> gc \<Rightarrow> gc option) \<Rightarrow> u32 list \<Rightarrow> u32 list list \<Rightarrow> gc \<Rightarrow> gc option" where
  "gc_collect del globals stacks s = do {
     s \<leftarrow> gc_collect_start globals s;
     s \<leftarrow> foldM gc_collect_root stacks s;
     gc_collect_end del s }"

definition gc_lock :: "gc \<Rightarrow> gc" where
  "gc_lock s = s\<lparr>gc_lock_depth := gc_lock_depth s + 1\<rparr>"

definition gc_unlock :: "gc \<Rightarrow> gc" where
  "gc_unlock s = s\<lparr>gc_lock_depth := gc_lock_depth s - 1\<rparr>"

definition gc_is_locked :: "gc \<Rightarrow> bool" where
  "gc_is_locked s \<longleftrightarrow> gc_lock_depth s \<noteq> 0"

subsection \<open>Facts of the tables\<close>

definition kind :: "gc \<Rightarrow> nat \<Rightarrow> u8" where
  "kind s b = drop_bit (BLOCK_SHIFT b) (gtab s ! (b div 4)) AND 3"

definition gtab_ok :: "gc \<Rightarrow> bool" where
  "gtab_ok s \<longleftrightarrow> 0 < atb_len s \<and> length (gtab s) = atb_len s + (num_blocks s + 7) div 8
     \<and> length (pool s) = 4 * num_blocks s \<and> pool_start s mod 16 = 0 \<and> pool_end s \<le> 2 ^ 32"

lemma get_kind [gc_simps]: "b div 4 < length (gtab s) \<Longrightarrow> ATB_GET_KIND s b = Some (kind s b)"
  by (simp add: ATB_GET_KIND_def kind_def rd_in)

lemma table_byte: "gtab_ok s \<Longrightarrow> b < num_blocks s \<Longrightarrow> b div 4 < atb_len s \<and> b div 4 < length (gtab s)"
  by (auto simp: gtab_ok_def num_blocks_def)

lemma get_kind_end [gc_simps]: "gtab_ok s \<Longrightarrow> b \<le> num_blocks s \<Longrightarrow> ATB_GET_KIND s b = Some (kind s b)"
  by (rule get_kind) (auto simp: gtab_ok_def num_blocks_def)

lemma three_bits: "(3 :: u8) = mask 2"
  by (simp add: mask_eq_exp_minus_1)

lemma bit_3_u8: "bit (x AND 3 :: u8) n \<longleftrightarrow> bit x n \<and> n < 2"
  unfolding three_bits bit_and_iff bit_mask_iff using bit_imp_le_length [of x n] by auto

lemma kind_eqI: "kind s b = kind s' b'" if
  "\<And>n. n < 2 \<Longrightarrow> bit (gtab s ! (b div 4)) (BLOCK_SHIFT b + n) = bit (gtab s' ! (b' div 4)) (BLOCK_SHIFT b' + n)"
  using that by (intro bit_word_eqI) (auto simp: kind_def bit_3_u8 bit_drop_bit_eq)

lemma kind_valueI: "kind s b = k" if "k AND 3 = k"
  "\<And>n. n < 2 \<Longrightarrow> bit (gtab s ! (b div 4)) (BLOCK_SHIFT b + n) = bit k n"
proof -
  have "kind s b = k AND 3"
    using that(2) by (intro bit_word_eqI) (auto simp: kind_def bit_3_u8 bit_drop_bit_eq)
  then show ?thesis using that(1) by simp
qed

lemma bit_kind: "n < 2 \<Longrightarrow> bit (kind s b) n \<longleftrightarrow> bit (gtab s ! (b div 4)) (BLOCK_SHIFT b + n)"
  by (simp add: kind_def bit_3_u8 bit_drop_bit_eq)

lemma kind_less: "unat (kind s b) < 4"
  by (simp only: kind_def three_bits unat_and_mask) simp

lemma kind_cases: "kind s b = AT_FREE \<or> kind s b = AT_HEAD \<or> kind s b = AT_TAIL \<or> kind s b = AT_MARK"
  using kind_less [of s b] by (auto simp: AT_defs word_eq_iff_unat)

text \<open>Writing a kind into the table, and the five macros as cases of it.\<close>

definition set_kind :: "nat \<Rightarrow> u8 \<Rightarrow> gc \<Rightarrow> gc" where
  "set_kind b k s = s\<lparr>gtab := (gtab s)[b div 4 :=
     (gtab s ! (b div 4) AND NOT (push_bit (BLOCK_SHIFT b) 3)) OR push_bit (BLOCK_SHIFT b) k]\<rparr>"

lemma bit_3: "bit (3 :: u8) n \<longleftrightarrow> n < 2"
  unfolding three_bits bit_mask_iff by (auto simp: possible_bit_word)

lemma AT_bits: "bit AT_FREE n \<longleftrightarrow> False" "bit AT_HEAD n \<longleftrightarrow> n = 0" "bit AT_TAIL n \<longleftrightarrow> n = 1" "bit AT_MARK n \<longleftrightarrow> n < 2"
proof -
  show "bit AT_TAIL n \<longleftrightarrow> n = 1"
  proof -
    have "(2 :: u8) = push_bit 1 1" by simp
    then show ?thesis unfolding AT_TAIL_def by (simp only: bit_push_bit_iff bit_1_iff) auto
  qed
qed (simp_all add: AT_FREE_def AT_HEAD_def AT_MARK_def bit_1_iff bit_3 del: bit_numeral_word_iff)

lemma bit_set_byte:
  assumes "k AND 3 = k"
  shows "bit ((a AND NOT (push_bit (BLOCK_SHIFT b) 3)) OR push_bit (BLOCK_SHIFT b) k :: u8) n
    \<longleftrightarrow> (if n div 2 = b mod 4 then bit k (n mod 2) else bit a n)"
proof -
  have k: "bit k m \<Longrightarrow> m < 2" for m
    using bit_3_u8 [of k m] assms by simp
  define r where "r = b mod 4"
  have r: "r < 4" by (simp add: r_def)
  have sh: "BLOCK_SHIFT b = 2 * r" by (simp add: BLOCK_SHIFT_def r_def)
  show ?thesis
  proof (cases "n div 2 = r")
    case True
    then have n: "n = 2 * r + n mod 2" "n < 8" using r by auto
    then have "n - 2 * r = n mod 2" "2 * r \<le> n" by linarith+
    with True n show ?thesis
      by (simp add: sh bit_or_iff bit_and_iff bit_not_iff bit_push_bit_iff bit_3 flip: r_def del: bit_numeral_word_iff)
  next
    case False
    then have "n < 2 * r \<or> 2 \<le> n - 2 * r \<and> 2 * r \<le> n" by auto
    with False k [of "n - 2 * r"] bit_imp_le_length [of a n] show ?thesis
      by (auto simp: sh bit_or_iff bit_and_iff bit_not_iff bit_push_bit_iff bit_3 simp del: bit_numeral_word_iff simp flip: r_def)
  qed
qed

lemma kind_and_3: "kind s b AND 3 = kind s b" "AT_FREE AND 3 = AT_FREE" "AT_HEAD AND 3 = AT_HEAD"
    "AT_TAIL AND 3 = AT_TAIL" "AT_MARK AND 3 = AT_MARK"
  by (simp_all add: kind_def AT_defs and.assoc)

lemma kind_set_kind [gc_simps]:
  assumes "k AND 3 = k" and "b div 4 < length (gtab s)"
  shows "kind (set_kind b k s) b' = (if b' = b then k else kind s b')"
proof (cases "b' div 4 = b div 4")
  case True
  have eq: "(BLOCK_SHIFT c + n) div 2 = c mod 4" "(BLOCK_SHIFT c + n) mod 2 = n" if "n < 2" for n c
    using that by (simp_all add: BLOCK_SHIFT_def)
  have same: "b' mod 4 = b mod 4 \<longleftrightarrow> b' = b"
    using True by (metis div_mult_mod_eq)
  show ?thesis
  proof (cases "b' = b")
    case True
    then show ?thesis
      using assms by (auto intro!: kind_valueI simp: set_kind_def bit_set_byte eq)
  next
    case False
    then show ?thesis
      using assms True same
      by (auto intro!: kind_eqI simp: set_kind_def bit_set_byte eq)
  qed
next
  case False
  then show ?thesis by (auto simp: set_kind_def kind_def)
qed

lemma set_kind_same [gc_simps]:
  "atb_len (set_kind b k s) = atb_len s" "pool (set_kind b k s) = pool s" "pool_start (set_kind b k s) = pool_start s"
  "gc_stack (set_kind b k s) = gc_stack s" "gc_stack_overflow (set_kind b k s) = gc_stack_overflow s"
  "gc_last_free_atb_index (set_kind b k s) = gc_last_free_atb_index s"
  "gc_lock_depth (set_kind b k s) = gc_lock_depth s"
  "gc_auto_collect_enabled (set_kind b k s) = gc_auto_collect_enabled s"
  "num_blocks (set_kind b k s) = num_blocks s" "pool_end (set_kind b k s) = pool_end s"
  "length (gtab (set_kind b k s)) = length (gtab s)" "gtab_ok (set_kind b k s) = gtab_ok s"
  by (simp_all add: set_kind_def num_blocks_def pool_end_def gtab_ok_def)

lemma ftb_set_kind [gc_simps]:
  "gtab_ok s \<Longrightarrow> b < num_blocks s \<Longrightarrow> FTB_GET (set_kind b k s) b' = FTB_GET s b'"
  using table_byte [of s b] by (simp add: FTB_GET_def set_kind_def rd_def)

lemma byte_set_eqI:
  assumes "k AND 3 = k"
    and "\<And>i. i < 2 \<Longrightarrow> bit x (BLOCK_SHIFT b + i) = bit k i"
    and "\<And>n. n div 2 \<noteq> b mod 4 \<Longrightarrow> bit x n = bit a n"
  shows "x = (a AND NOT (push_bit (BLOCK_SHIFT b) 3)) OR push_bit (BLOCK_SHIFT b) (k :: u8)"
proof (rule bit_word_eqI)
  fix n
  show "bit x n = bit ((a AND NOT (push_bit (BLOCK_SHIFT b) 3)) OR push_bit (BLOCK_SHIFT b) k) n"
  proof (cases "n div 2 = b mod 4")
    case True
    then have "n = BLOCK_SHIFT b + n mod 2" by (metis BLOCK_SHIFT_def mult_div_mod_eq)
    then show ?thesis
      using assms(2) [of "n mod 2"] True by (simp add: bit_set_byte [OF assms(1)])
  next
    case False
    then show ?thesis using assms(3) by (simp add: bit_set_byte [OF assms(1)])
  qed
qed

lemma shift_outside:
  assumes "n div 2 \<noteq> b mod 4" and "K AND 3 = K"
  shows "\<not> bit (push_bit (BLOCK_SHIFT b) K :: u8) n"
proof -
  have "bit K m \<Longrightarrow> m < 2" for m using bit_3_u8 [of K m] assms(2) by simp
  moreover have "\<not> (BLOCK_SHIFT b \<le> n \<and> n - BLOCK_SHIFT b < 2)"
    using assms(1) by (auto simp: BLOCK_SHIFT_def)
  ultimately show ?thesis by (auto simp: bit_push_bit_iff)
qed

lemma shift_in_byte: "i < 2 \<Longrightarrow> BLOCK_SHIFT b + i < 8"
  using mod_less_divisor [of 4 b] by (simp add: BLOCK_SHIFT_def)

lemma shift_inside: "i < 2 \<Longrightarrow> bit (push_bit (BLOCK_SHIFT b) K :: u8) (BLOCK_SHIFT b + i) = bit K i"
  using shift_in_byte [of i b] by (simp add: bit_push_bit_iff possible_bit_word)

lemma atb_or:
  assumes "K AND 3 = K" and "b div 4 < length (gtab s)"
  shows "ATB_UPDATE (\<lambda>a. a OR push_bit (BLOCK_SHIFT b) K) b s = Some (set_kind b (kind s b OR K) s)"
proof -
  have "(kind s b OR K) AND 3 = kind s b OR K"
    using assms(1) kind_and_3(1) by (simp add: bit.conj_disj_distrib2)
  then have "gtab s ! (b div 4) OR push_bit (BLOCK_SHIFT b) K
    = (gtab s ! (b div 4) AND NOT (push_bit (BLOCK_SHIFT b) 3)) OR push_bit (BLOCK_SHIFT b) (kind s b OR K)"
    using assms by (intro byte_set_eqI) (auto simp: bit_or_iff bit_kind shift_outside shift_inside)
  then show ?thesis
    using assms(2) by (simp add: ATB_UPDATE_def rd_in wr_in set_kind_def)
qed

lemma atb_and:
  assumes "K AND 3 = K" and "b div 4 < length (gtab s)"
  shows "ATB_UPDATE (\<lambda>a. a AND NOT (push_bit (BLOCK_SHIFT b) K)) b s = Some (set_kind b (kind s b AND NOT K) s)"
proof -
  have "(kind s b AND NOT K) AND 3 = kind s b AND NOT K"
    using kind_and_3(1) by (metis and.assoc and.commute)
  then have "gtab s ! (b div 4) AND NOT (push_bit (BLOCK_SHIFT b) K)
    = (gtab s ! (b div 4) AND NOT (push_bit (BLOCK_SHIFT b) 3)) OR push_bit (BLOCK_SHIFT b) (kind s b AND NOT K)"
    using assms shift_in_byte bit_imp_le_length
    by (intro byte_set_eqI) (fastforce simp: bit_and_iff bit_not_iff bit_kind shift_outside shift_inside possible_bit_word)+
  then show ?thesis
    using assms(2) by (simp add: ATB_UPDATE_def rd_in wr_in set_kind_def)
qed

lemma atb_macros:
  assumes "gtab_ok s" and "b < num_blocks s"
  shows "ATB_ANY_TO_FREE b s = Some (set_kind b AT_FREE s)"
    and "kind s b = AT_FREE \<Longrightarrow> ATB_FREE_TO_HEAD b s = Some (set_kind b AT_HEAD s)"
    and "kind s b = AT_FREE \<Longrightarrow> ATB_FREE_TO_TAIL b s = Some (set_kind b AT_TAIL s)"
    and "kind s b = AT_HEAD \<Longrightarrow> ATB_HEAD_TO_MARK b s = Some (set_kind b AT_MARK s)"
    and "kind s b = AT_MARK \<Longrightarrow> ATB_MARK_TO_HEAD b s = Some (set_kind b AT_HEAD s)"
proof -
  have l: "b div 4 < length (gtab s)" using table_byte [OF assms] by simp
  have "kind s b AND NOT AT_MARK = AT_FREE"
    using kind_cases [of s b] by (auto simp: AT_defs)
  then show "ATB_ANY_TO_FREE b s = Some (set_kind b AT_FREE s)"
    using atb_and [OF kind_and_3(5) l] by (simp add: ATB_ANY_TO_FREE_def)
  show "kind s b = AT_FREE \<Longrightarrow> ATB_FREE_TO_HEAD b s = Some (set_kind b AT_HEAD s)"
    using atb_or [OF kind_and_3(3) l] by (simp add: ATB_FREE_TO_HEAD_def AT_FREE_def)
  show "kind s b = AT_FREE \<Longrightarrow> ATB_FREE_TO_TAIL b s = Some (set_kind b AT_TAIL s)"
    using atb_or [OF kind_and_3(4) l] by (simp add: ATB_FREE_TO_TAIL_def AT_FREE_def)
  show "kind s b = AT_HEAD \<Longrightarrow> ATB_HEAD_TO_MARK b s = Some (set_kind b AT_MARK s)"
    using atb_or [OF kind_and_3(5) l] by (simp add: ATB_HEAD_TO_MARK_def AT_HEAD_def AT_MARK_def)
  show "kind s b = AT_MARK \<Longrightarrow> ATB_MARK_TO_HEAD b s = Some (set_kind b AT_HEAD s)"
    using atb_and [OF kind_and_3(4) l] by (simp add: ATB_MARK_TO_HEAD_def AT_defs)
qed

subsection \<open>The finaliser bits\<close>

definition ftb :: "gc \<Rightarrow> nat \<Rightarrow> bool" where
  "ftb s b \<longleftrightarrow> bit (gtab s ! (atb_len s + b div 8)) (b mod 8)"

lemma ftb_byte: "gtab_ok s \<Longrightarrow> b < num_blocks s \<Longrightarrow> atb_len s + b div 8 < length (gtab s)"
  by (auto simp: gtab_ok_def num_blocks_def)

lemma FTB_GET_ftb: "gtab_ok s \<Longrightarrow> b < num_blocks s \<Longrightarrow> FTB_GET s b = Some (ftb s b)"
  using ftb_byte [of s b] by (simp add: FTB_GET_def rd_in ftb_def bit_iff_and_drop_bit_eq_1 and_one_eq)

lemma ftb_set_kind_eq [gc_simps]: "gtab_ok s \<Longrightarrow> b < num_blocks s \<Longrightarrow> ftb (set_kind b k s) c = ftb s c"
  using table_byte [of s b] by (simp add: ftb_def set_kind_def)

text \<open>Setting a finaliser bit to \<open>v\<close>; the allocation table stays as it is.\<close>

definition set_ftb :: "nat \<Rightarrow> bool \<Rightarrow> gc \<Rightarrow> gc" where
  "set_ftb b v s = s\<lparr>gtab := (gtab s)[atb_len s + b div 8 :=
     (if v then gtab s ! (atb_len s + b div 8) OR push_bit (b mod 8) 1
      else gtab s ! (atb_len s + b div 8) AND NOT (push_bit (b mod 8) 1))]\<rparr>"

lemma ftb_macros:
  assumes "gtab_ok s" and "b < num_blocks s"
  shows "FTB_SET b s = Some (set_ftb b True s)" and "FTB_CLEAR b s = Some (set_ftb b False s)"
  using ftb_byte [OF assms] by (simp_all add: FTB_SET_def FTB_CLEAR_def FTB_UPDATE_def rd_in wr_in set_ftb_def)

lemma set_ftb_same [gc_simps]:
  "atb_len (set_ftb b v s) = atb_len s" "pool (set_ftb b v s) = pool s" "pool_start (set_ftb b v s) = pool_start s"
  "gc_stack (set_ftb b v s) = gc_stack s" "gc_stack_overflow (set_ftb b v s) = gc_stack_overflow s"
  "gc_last_free_atb_index (set_ftb b v s) = gc_last_free_atb_index s"
  "gc_lock_depth (set_ftb b v s) = gc_lock_depth s"
  "gc_auto_collect_enabled (set_ftb b v s) = gc_auto_collect_enabled s"
  "gc_alloc_threshold (set_ftb b v s) = gc_alloc_threshold s" "gc_alloc_amount (set_ftb b v s) = gc_alloc_amount s"
  "num_blocks (set_ftb b v s) = num_blocks s" "pool_end (set_ftb b v s) = pool_end s"
  "length (gtab (set_ftb b v s)) = length (gtab s)" "gtab_ok (set_ftb b v s) = gtab_ok s"
  by (simp_all add: set_ftb_def num_blocks_def pool_end_def gtab_ok_def)

lemma kind_set_ftb [gc_simps]: "c < num_blocks s \<Longrightarrow> kind (set_ftb b v s) c = kind s c"
  by (simp add: kind_def set_ftb_def num_blocks_def)

lemma ftb_set_ftb [gc_simps]:
  assumes "gtab_ok s" and "b < num_blocks s"
  shows "ftb (set_ftb b v s) c = (if c = b then v else ftb s c)"
proof (cases "c div 8 = b div 8")
  case True
  then have "c mod 8 = b mod 8 \<longleftrightarrow> c = b" by (metis div_mult_mod_eq)
  moreover have "bit (push_bit (b mod 8) 1 :: u8) (c mod 8) \<longleftrightarrow> c mod 8 = b mod 8"
    by (auto simp: bit_push_bit_iff bit_1_iff bit_exp_iff possible_bit_word)
  ultimately show ?thesis
    using ftb_byte [OF assms] True
    by (auto simp: ftb_def set_ftb_def bit_or_iff bit_and_iff bit_not_iff)
next
  case False
  then show ?thesis by (auto simp: ftb_def set_ftb_def)
qed

lemma ftb_1_guard: "\<not> ftb s 1 \<Longrightarrow> kind s (num_blocks s) \<noteq> AT_TAIL"
  using bit_kind [of 1 s "num_blocks s"] AT_bits(3) [of 1] by (auto simp: ftb_def num_blocks_def BLOCK_SHIFT_def)

end
