(* ===== verification/Py_Gc_Collect.thy ===== *)
theory Py_Gc_Collect
  imports Py_Gc
begin

text \<open>
  Correctness of a collection: what is marked, with a mark stack of bounded size that may
  overflow, is exactly what the roots reach, and the sweep frees exactly the rest.
\<close>

subsection \<open>Chains, words and reachability\<close>

definition heads :: "gc \<Rightarrow> nat set" where
  "heads s = {b. b < num_blocks s \<and> kind s b = AT_HEAD}"

definition marked :: "gc \<Rightarrow> nat set" where
  "marked s = {b. b < num_blocks s \<and> kind s b = AT_MARK}"

text \<open>The number of blocks of the chain that starts in a block.\<close>

definition clen :: "gc \<Rightarrow> nat \<Rightarrow> nat" where
  "clen s b = (LEAST n. 0 < n \<and> kind s (b + n) \<noteq> AT_TAIL)"

text \<open>The two bits behind the allocation table, those of the first two finalisers, are not a tail.\<close>

definition end_guard :: "gc \<Rightarrow> bool" where
  "end_guard s \<longleftrightarrow> kind s (num_blocks s) \<noteq> AT_TAIL"

lemma clen_bound:
  assumes "end_guard s" and "b < num_blocks s"
  shows "0 < clen s b \<and> kind s (b + clen s b) \<noteq> AT_TAIL \<and> b + clen s b \<le> num_blocks s"
proof -
  let ?P = "\<lambda>n. 0 < n \<and> kind s (b + n) \<noteq> AT_TAIL"
  have w: "?P (num_blocks s - b)" using assms by (simp add: end_guard_def)
  have "?P (clen s b)" unfolding clen_def by (rule LeastI [of ?P, OF w])
  moreover have "clen s b \<le> num_blocks s - b" unfolding clen_def by (rule Least_le [of ?P, OF w])
  ultimately show ?thesis using assms(2) by simp
qed

lemma clen_tail: "0 < i \<Longrightarrow> i < clen s b \<Longrightarrow> kind s (b + i) = AT_TAIL"
  unfolding clen_def using not_less_Least [of i "\<lambda>n. 0 < n \<and> kind s (b + n) \<noteq> AT_TAIL"] by blast

lemma clen_cong:
  assumes "\<And>c. kind s c = AT_TAIL \<longleftrightarrow> kind s' c = AT_TAIL"
  shows "clen s b = clen s' b"
  using assms by (simp add: clen_def)

lemma chain_blocks_clen:
  assumes "gtab_ok s" and "end_guard s" and "b < num_blocks s" and "0 < n" and "n \<le> clen s b"
  shows "chain_blocks s b n = Some (clen s b)"
  using assms(4,5)
proof (induction "clen s b - n" arbitrary: n)
  case 0
  then have "n = clen s b" by simp
  then show ?case
    using clen_bound [OF assms(2,3)] assms(1)
    by (subst chain_blocks.simps) (simp add: get_kind_end)
next
  case (Suc k)
  then have n: "n < clen s b" by simp
  then have "ATB_GET_KIND s (b + n) = Some AT_TAIL"
    using clen_bound [OF assms(2,3)] assms(1) clen_tail [of n s b] Suc.prems(1)
    by (simp add: get_kind_end)
  moreover have "chain_blocks s b (n + 1) = Some (clen s b)"
    using Suc.hyps n by (intro Suc.hyps(1)) simp_all
  ultimately show ?case by (subst chain_blocks.simps) simp
qed

definition block_words :: "gc \<Rightarrow> nat \<Rightarrow> u32 list" where
  "block_words s b = take (4 * clen s b) (drop (4 * b) (pool s))"

text \<open>The heads that a word sequence points to.\<close>

definition targets :: "gc \<Rightarrow> u32 list \<Rightarrow> nat set" where
  "targets s ws = {c \<in> heads s. \<exists>w \<in> set ws. VERIFY_PTR s w \<and> BLOCK_FROM_PTR s w = c}"

definition children :: "gc \<Rightarrow> nat \<Rightarrow> nat set" where
  "children s b = targets s (block_words s b)"

inductive_set reach :: "gc \<Rightarrow> u32 list \<Rightarrow> nat set" for s roots where
  root: "c \<in> targets s roots \<Longrightarrow> c \<in> reach s roots"
| child: "b \<in> reach s roots \<Longrightarrow> c \<in> children s b \<Longrightarrow> c \<in> reach s roots"

lemma targets_append: "targets s (xs @ ys) = targets s xs \<union> targets s ys"
  by (auto simp: targets_def)

lemma targets_Nil [simp]: "targets s [] = {}"
  by (simp add: targets_def)

lemma finite_heads [simp]: "finite (heads s)"
  by (simp add: heads_def)

subsection \<open>Marking\<close>

text \<open>A state of a collection that started in \<open>s0\<close>: only marks were added.\<close>

definition same_rest :: "gc \<Rightarrow> gc \<Rightarrow> bool" where
  "same_rest s0 s \<longleftrightarrow> atb_len s = atb_len s0 \<and> pool s = pool s0 \<and> pool_start s = pool_start s0
     \<and> gc_last_free_atb_index s = gc_last_free_atb_index s0 \<and> gc_lock_depth s = gc_lock_depth s0
     \<and> gc_auto_collect_enabled s = gc_auto_collect_enabled s0
     \<and> gc_alloc_threshold s = gc_alloc_threshold s0 \<and> gc_alloc_amount s = gc_alloc_amount s0
     \<and> drop (atb_len s0) (gtab s) = drop (atb_len s0) (gtab s0)"

definition shape :: "gc \<Rightarrow> gc \<Rightarrow> bool" where
  "shape s0 s \<longleftrightarrow> gtab_ok s \<and> same_rest s0 s \<and> marked s \<subseteq> heads s0
     \<and> (\<forall>b. kind s b = (if b \<in> marked s then AT_MARK else kind s0 b))"

lemma AT_distinct [simp]:
  "AT_FREE \<noteq> AT_HEAD" "AT_FREE \<noteq> AT_TAIL" "AT_FREE \<noteq> AT_MARK" "AT_HEAD \<noteq> AT_TAIL" "AT_HEAD \<noteq> AT_MARK"
  "AT_TAIL \<noteq> AT_MARK" "AT_HEAD \<noteq> AT_FREE" "AT_TAIL \<noteq> AT_FREE" "AT_MARK \<noteq> AT_FREE" "AT_TAIL \<noteq> AT_HEAD"
  "AT_MARK \<noteq> AT_HEAD" "AT_MARK \<noteq> AT_TAIL"
  by (simp_all add: AT_defs)

lemma shape_blocks: "shape s0 s \<Longrightarrow> num_blocks s = num_blocks s0 \<and> pool_end s = pool_end s0"
  by (simp add: shape_def same_rest_def num_blocks_def pool_end_def)

lemma shape_tail: "shape s0 s \<Longrightarrow> kind s b = AT_TAIL \<longleftrightarrow> kind s0 b = AT_TAIL"
  by (auto simp: shape_def heads_def)

lemma shape_clen: "shape s0 s \<Longrightarrow> clen s b = clen s0 b"
  by (intro clen_cong) (simp add: shape_tail)

lemma shape_guard: "shape s0 s \<Longrightarrow> end_guard s = end_guard s0"
  using shape_tail [of s0 s "num_blocks s"] by (simp add: end_guard_def shape_blocks)

lemma shape_verify: "shape s0 s \<Longrightarrow> VERIFY_PTR s w = VERIFY_PTR s0 w \<and> BLOCK_FROM_PTR s w = BLOCK_FROM_PTR s0 w"
  using shape_blocks [of s0 s] by (simp add: VERIFY_PTR_def BLOCK_FROM_PTR_def shape_def same_rest_def)

lemma shape_stack [simp]: "shape s0 (s\<lparr>gc_stack := st\<rparr>) = shape s0 s"
    "shape s0 (s\<lparr>gc_stack_overflow := ov\<rparr>) = shape s0 s"
    "marked (s\<lparr>gc_stack := st\<rparr>) = marked s" "marked (s\<lparr>gc_stack_overflow := ov\<rparr>) = marked s"
  by (simp_all add: shape_def marked_def same_rest_def gtab_ok_def num_blocks_def pool_end_def kind_def)

lemma verify_block:
  assumes "VERIFY_PTR s w"
  shows "BLOCK_FROM_PTR s w < num_blocks s"
  using assms by (auto simp: VERIFY_PTR_def BLOCK_FROM_PTR_def pool_end_def)

lemma set_kind_ftb: "gtab_ok s \<Longrightarrow> b < num_blocks s \<Longrightarrow>
    drop (atb_len s) (gtab (set_kind b k s)) = drop (atb_len s) (gtab s)"
  using table_byte [of s b] by (simp add: set_kind_def drop_update_cancel)

lemma set_kind_more [gc_simps]: "gc_alloc_threshold (set_kind b k s) = gc_alloc_threshold s"
    "gc_alloc_amount (set_kind b k s) = gc_alloc_amount s"
  by (simp_all add: set_kind_def)

lemma shape_mark:
  assumes "shape s0 s" and "b \<in> heads s0" and "b \<notin> marked s"
  shows "ATB_HEAD_TO_MARK b s = Some (set_kind b AT_MARK s)"
    and "shape s0 (set_kind b AT_MARK s)" and "marked (set_kind b AT_MARK s) = insert b (marked s)"
proof -
  have ok: "gtab_ok s" "b < num_blocks s" "kind s b = AT_HEAD"
    using assms shape_blocks [OF assms(1)] by (auto simp: shape_def heads_def)
  then show "ATB_HEAD_TO_MARK b s = Some (set_kind b AT_MARK s)" by (intro atb_macros(4))
  have k: "kind (set_kind b AT_MARK s) c = (if c = b then AT_MARK else kind s c)" for c
    using table_byte [OF ok(1,2)] by (simp add: kind_set_kind kind_and_3)
  show m: "marked (set_kind b AT_MARK s) = insert b (marked s)"
    using ok by (auto simp: marked_def k gc_simps)
  show "shape s0 (set_kind b AT_MARK s)"
    using assms ok set_kind_ftb [OF ok(1,2)]
    unfolding shape_def same_rest_def m by (auto simp: gc_simps k)
qed

text \<open>
  What marking the targets of some words does: the targets become marked, each new mark is on
  the stack unless the stack overflowed, and without a new mark nothing happens.
\<close>

definition mark_step :: "gc \<Rightarrow> u32 list \<Rightarrow> gc \<Rightarrow> gc \<Rightarrow> bool" where
  "mark_step s0 ws s s' \<longleftrightarrow> shape s0 s' \<and> marked s' = marked s \<union> targets s0 ws
     \<and> set (gc_stack s) \<subseteq> set (gc_stack s') \<and> set (gc_stack s') \<subseteq> set (gc_stack s) \<union> (marked s' - marked s)
     \<and> (gc_stack_overflow s \<longrightarrow> gc_stack_overflow s')
     \<and> (gc_stack_overflow s' \<or> marked s' - marked s \<subseteq> set (gc_stack s'))
     \<and> (marked s' = marked s \<longrightarrow> s' = s)"

lemma mark_step_refl: "shape s0 s \<Longrightarrow> mark_step s0 [] s s"
  by (simp add: mark_step_def)

lemma mark_step_trans: "mark_step s0 xs s s1 \<Longrightarrow> mark_step s0 ys s1 s2 \<Longrightarrow> mark_step s0 (xs @ ys) s s2"
proof -
  assume a: "mark_step s0 xs s s1" and b: "mark_step s0 ys s1 s2"
  from a have a1: "marked s1 = marked s \<union> targets s0 xs" and a2: "set (gc_stack s) \<subseteq> set (gc_stack s1)"
    and a3: "set (gc_stack s1) \<subseteq> set (gc_stack s) \<union> (marked s1 - marked s)"
    and a4: "gc_stack_overflow s \<Longrightarrow> gc_stack_overflow s1"
    and a5: "gc_stack_overflow s1 \<or> marked s1 - marked s \<subseteq> set (gc_stack s1)"
    and a6: "marked s1 = marked s \<Longrightarrow> s1 = s"
    unfolding mark_step_def by blast+
  from b have b0: "shape s0 s2" and b1: "marked s2 = marked s1 \<union> targets s0 ys" and b2: "set (gc_stack s1) \<subseteq> set (gc_stack s2)"
    and b3: "set (gc_stack s2) \<subseteq> set (gc_stack s1) \<union> (marked s2 - marked s1)"
    and b4: "gc_stack_overflow s1 \<Longrightarrow> gc_stack_overflow s2"
    and b5: "gc_stack_overflow s2 \<or> marked s2 - marked s1 \<subseteq> set (gc_stack s2)"
    and b6: "marked s2 = marked s1 \<Longrightarrow> s2 = s1"
    unfolding mark_step_def by blast+
  have m: "marked s \<subseteq> marked s1" "marked s1 \<subseteq> marked s2" using a1 b1 by blast+
  have "s2 = s" if "marked s2 = marked s"
    using m that a6 b6 by (metis subset_antisym)
  moreover have "marked s2 = marked s \<union> targets s0 (xs @ ys)"
    using a1 b1 by (simp add: targets_append Un_assoc)
  moreover have "gc_stack_overflow s2 \<or> marked s2 - marked s \<subseteq> set (gc_stack s2)"
    using a5 b4 b5 b2 by blast
  moreover have "set (gc_stack s2) \<subseteq> set (gc_stack s) \<union> (marked s2 - marked s)"
    using a3 b3 m by blast
  ultimately show "mark_step s0 (xs @ ys) s s2"
    unfolding mark_step_def using b0 a2 b2 a4 b4 by (intro conjI) blast+
qed

lemma mark_word:
  assumes "shape s0 s"
  shows "\<exists>s'. VERIFY_MARK_AND_PUSH w s = Some s' \<and> mark_step s0 [w] s s'"
proof (cases "VERIFY_PTR s0 w")
  case False
  then show ?thesis
    using assms shape_verify [OF assms, of w]
    by (simp add: VERIFY_MARK_AND_PUSH_def mark_step_def targets_def)
next
  case True
  define b where "b = BLOCK_FROM_PTR s0 w"
  have b: "b < num_blocks s" "VERIFY_PTR s w" "BLOCK_FROM_PTR s w = b"
    using verify_block [OF True] shape_blocks [OF assms] shape_verify [OF assms, of w] True by (simp_all add: b_def)
  have ok: "gtab_ok s" using assms by (simp add: shape_def)
  have k: "kind s b = (if b \<in> marked s then AT_MARK else kind s0 b)"
    using assms by (simp add: shape_def)
  have t: "targets s0 [w] = (if b \<in> heads s0 then {b} else {})"
    using True by (auto simp: targets_def b_def)
  have head: "kind s b = AT_HEAD \<longleftrightarrow> b \<in> heads s0 \<and> b \<notin> marked s"
    using k b(1) shape_blocks [OF assms] by (auto simp: heads_def)
  show ?thesis
  proof (cases "kind s b = AT_HEAD")
    case False
    then have "targets s0 [w] \<subseteq> marked s" using head t by auto
    then show ?thesis
      using assms b ok False
      by (simp add: VERIFY_MARK_AND_PUSH_def get_kind_end mark_step_def Un_absorb2)
  next
    case True
    then have new: "b \<in> heads s0" "b \<notin> marked s" using head by auto
    note sm = shape_mark [OF assms new]
    let ?m = "set_kind b AT_MARK s"
    have run: "VERIFY_MARK_AND_PUSH w s = Some (if length (gc_stack s) < GC_STACK_SIZE
        then ?m\<lparr>gc_stack := b # gc_stack s\<rparr> else ?m\<lparr>gc_stack_overflow := True\<rparr>)"
      using b ok True sm(1) by (simp add: VERIFY_MARK_AND_PUSH_def Let_def get_kind_end set_kind_same)
    have ne: "insert b (marked s) \<noteq> marked s" using new by blast
    show ?thesis
    proof (cases "length (gc_stack s) < GC_STACK_SIZE")
      case True
      have "mark_step s0 [w] s (?m\<lparr>gc_stack := b # gc_stack s\<rparr>)"
        using new ne by (auto simp: mark_step_def sm(2,3) t set_kind_same)
      with True run show ?thesis by simp
    next
      case False
      have "mark_step s0 [w] s (?m\<lparr>gc_stack_overflow := True\<rparr>)"
        using new ne by (simp add: mark_step_def sm(2,3) t set_kind_same)
      with False run show ?thesis by simp
    qed
  qed
qed

lemma mark_list:
  assumes "shape s0 s"
  shows "\<exists>s'. foldM VERIFY_MARK_AND_PUSH ws s = Some s' \<and> mark_step s0 ws s s'"
  using assms
proof (induction ws arbitrary: s)
  case Nil
  then show ?case by (simp add: mark_step_refl)
next
  case (Cons w ws)
  obtain s1 where s1: "VERIFY_MARK_AND_PUSH w s = Some s1" "mark_step s0 [w] s s1"
    using mark_word [OF Cons.prems] by blast
  then have "shape s0 s1" by (simp add: mark_step_def)
  from Cons.IH [OF this] obtain s2 where "foldM VERIFY_MARK_AND_PUSH ws s1 = Some s2" "mark_step s0 ws s1 s2"
    by blast
  with s1 show ?case using mark_step_trans [of s0 "[w]" s s1 ws s2] by auto
qed

lemma mark_words_step:
  assumes "shape s0 s" and "lo \<le> hi" and "hi \<le> length (pool s0)"
  shows "\<exists>s'. mark_words lo hi s = Some s' \<and> mark_step s0 (take (hi - lo) (drop lo (pool s0))) s s'"
  unfolding mark_words_def
proof (rule for_upto_rule [OF assms(2)])
  show "mark_step s0 (take (lo - lo) (drop lo (pool s0))) s s"
    using assms(1) by (simp add: mark_step_refl)
next
  fix i s1
  assume i: "lo \<le> i" "i < hi" and st: "mark_step s0 (take (i - lo) (drop lo (pool s0))) s s1"
  then have sh: "shape s0 s1" by (simp add: mark_step_def)
  then have p: "pool s1 = pool s0" by (simp add: shape_def same_rest_def)
  obtain s2 where s2: "VERIFY_MARK_AND_PUSH (pool s0 ! i) s1 = Some s2" "mark_step s0 [pool s0 ! i] s1 s2"
    using mark_word [OF sh] by blast
  have "take (Suc i - lo) (drop lo (pool s0)) = take (i - lo) (drop lo (pool s0)) @ [pool s0 ! i]"
    using i assms(3) by (simp add: Suc_diff_le take_Suc_conv_app_nth)
  then show "\<exists>s'. do { w \<leftarrow> rd (pool s1) i; VERIFY_MARK_AND_PUSH w s1 } = Some s'
      \<and> mark_step s0 (take (Suc i - lo) (drop lo (pool s0))) s s'"
    using i assms(3) p s2 mark_step_trans [OF st s2(2)] by (simp add: rd_in)
qed

subsection \<open>Draining the stack\<close>

text \<open>
  The invariant of marking: every mark is explained, that is its children are marked too, it is
  on the stack, it waits in the set \<open>P\<close> for a later scan, or the stack has overflowed.
\<close>

definition explained :: "gc \<Rightarrow> nat set \<Rightarrow> gc \<Rightarrow> bool" where
  "explained s0 P s \<longleftrightarrow> (\<forall>b \<in> marked s. children s0 b \<subseteq> marked s \<or> b \<in> set (gc_stack s) \<or> b \<in> P
     \<or> gc_stack_overflow s)"

definition mark_inv :: "gc \<Rightarrow> nat set \<Rightarrow> gc \<Rightarrow> bool" where
  "mark_inv s0 P s \<longleftrightarrow> shape s0 s \<and> set (gc_stack s) \<subseteq> marked s \<and> explained s0 P s"

text \<open>What a run of the marker adds: more marks, all inside every closed set, and no overflow without one.\<close>

definition grows :: "gc \<Rightarrow> gc \<Rightarrow> gc \<Rightarrow> bool" where
  "grows s0 s s' \<longleftrightarrow> marked s \<subseteq> marked s'
     \<and> (\<forall>R. marked s \<subseteq> R \<longrightarrow> (\<forall>b \<in> R. children s0 b \<subseteq> R) \<longrightarrow> marked s' \<subseteq> R)
     \<and> (gc_stack_overflow s \<longrightarrow> gc_stack_overflow s')
     \<and> (gc_stack_overflow s' \<longrightarrow> gc_stack_overflow s \<or> marked s \<noteq> marked s')"

lemma grows_refl: "grows s0 s s"
  by (simp add: grows_def)

lemma grows_trans: "grows s0 s s1 \<Longrightarrow> grows s0 s1 s2 \<Longrightarrow> grows s0 s s2"
proof -
  assume a: "grows s0 s s1" and b: "grows s0 s1 s2"
  have "marked s \<subseteq> marked s1" "marked s1 \<subseteq> marked s2" using a b by (simp_all add: grows_def)
  moreover have "marked s2 \<subseteq> R" if "marked s \<subseteq> R" "\<forall>b \<in> R. children s0 b \<subseteq> R" for R
    using a b that by (simp add: grows_def)
  moreover have "gc_stack_overflow s \<longrightarrow> gc_stack_overflow s1" "gc_stack_overflow s1 \<longrightarrow> gc_stack_overflow s2"
    "gc_stack_overflow s1 \<longrightarrow> gc_stack_overflow s \<or> marked s \<noteq> marked s1"
    "gc_stack_overflow s2 \<longrightarrow> gc_stack_overflow s1 \<or> marked s1 \<noteq> marked s2"
    using a b by (simp_all add: grows_def)
  ultimately show "grows s0 s s2"
    unfolding grows_def by (metis subset_antisym subset_trans)
qed

lemma grows_stack [simp]: "grows s0 (s\<lparr>gc_stack := st\<rparr>) s' = grows s0 s s'"
  by (simp add: grows_def)

lemma drain_run:
  assumes "end_guard s0" and "shape s0 s" and "b \<in> marked s"
  shows "\<exists>s2. chain_blocks s b 1 = Some (clen s0 b)
    \<and> mark_words (4 * b) (4 * b + 4 * clen s0 b) s = Some s2 \<and> mark_step s0 (block_words s0 b) s s2"
proof -
  have bN: "b < num_blocks s0" using assms(3) shape_blocks [OF assms(2)] by (simp add: marked_def)
  have g: "end_guard s" using shape_guard [OF assms(2)] assms(1) by simp
  have bN': "b < num_blocks s" using bN shape_blocks [OF assms(2)] by simp
  have ok: "gtab_ok s" "pool s = pool s0" using assms(2) by (simp_all add: shape_def same_rest_def)
  have "0 < clen s b" using clen_bound [OF g bN'] by simp
  then have chain: "chain_blocks s b 1 = Some (clen s0 b)"
    using chain_blocks_clen [OF ok(1) g bN', of 1] shape_clen [OF assms(2), of b] by simp
  have "length (pool s0) = 4 * num_blocks s0"
    using ok shape_blocks [OF assms(2)] by (simp add: gtab_ok_def)
  then have "4 * b + 4 * clen s0 b \<le> length (pool s0)"
    using clen_bound [OF assms(1) bN] by linarith
  then show ?thesis
    using chain mark_words_step [OF assms(2), of "4 * b" "4 * b + 4 * clen s0 b"] by (simp add: block_words_def)
qed

lemma mark_step_inv:
  assumes step: "mark_step s0 (block_words s0 b) (s\<lparr>gc_stack := rest\<rparr>) s2"
    and inv: "mark_inv s0 P s" and st: "gc_stack s = b # rest"
  shows "mark_inv s0 P s2" and "grows s0 s s2" and "marked s2 = marked s \<Longrightarrow> gc_stack s2 = rest"
proof -
  have bm: "b \<in> marked s" and rest: "set rest \<subseteq> marked s" and ex: "explained s0 P s"
    using inv st by (simp_all add: mark_inv_def)
  have r: "gc_stack (s\<lparr>gc_stack := rest\<rparr>) = rest" "gc_stack_overflow (s\<lparr>gc_stack := rest\<rparr>) = gc_stack_overflow s"
    by simp_all
  have sh: "shape s0 s2" and m: "marked s2 = marked s \<union> children s0 b"
    and s1: "set rest \<subseteq> set (gc_stack s2)" and s2: "set (gc_stack s2) \<subseteq> set rest \<union> (marked s2 - marked s)"
    and ov: "gc_stack_overflow s \<longrightarrow> gc_stack_overflow s2"
    and new: "gc_stack_overflow s2 \<or> marked s2 - marked s \<subseteq> set (gc_stack s2)"
    and same: "marked s2 = marked s \<longrightarrow> s2 = s\<lparr>gc_stack := rest\<rparr>"
    using step unfolding mark_step_def children_def shape_stack r by - (elim conjE, assumption)+
  show "marked s2 = marked s \<Longrightarrow> gc_stack s2 = rest"
    using same by simp
  have "children s0 c \<subseteq> marked s2 \<or> c \<in> set (gc_stack s2) \<or> c \<in> P \<or> gc_stack_overflow s2" if "c \<in> marked s" for c
  proof -
    have "children s0 c \<subseteq> marked s \<or> c \<in> set (gc_stack s) \<or> c \<in> P \<or> gc_stack_overflow s"
      using ex that unfolding explained_def by blast
    then consider "children s0 c \<subseteq> marked s" | "c = b" | "c \<in> set rest" | "c \<in> P" | "gc_stack_overflow s"
      unfolding st by auto
    then show ?thesis
      by cases (use m s1 ov in blast)+
  qed
  moreover have "c \<in> set (gc_stack s2) \<or> gc_stack_overflow s2" if "c \<in> marked s2" "c \<notin> marked s" for c
    using new that by blast
  ultimately have "explained s0 P s2" unfolding explained_def by blast
  moreover have "set (gc_stack s2) \<subseteq> marked s2" using m s2 rest by blast
  ultimately show "mark_inv s0 P s2" using sh unfolding mark_inv_def by blast
  have "marked s2 \<subseteq> R" if "marked s \<subseteq> R" "\<forall>b \<in> R. children s0 b \<subseteq> R" for R
    unfolding m using bm that by blast
  moreover have "marked s \<subseteq> marked s2" unfolding m by blast
  moreover have "gc_stack_overflow s \<or> marked s \<noteq> marked s2" if "gc_stack_overflow s2"
  proof (rule ccontr)
    assume "\<not> (gc_stack_overflow s \<or> marked s \<noteq> marked s2)"
    then have "marked s2 = marked s" "\<not> gc_stack_overflow s" by simp_all
    with same that show False by simp
  qed
  ultimately show "grows s0 s s2" unfolding grows_def using ov by blast
qed

lemma drain_step:
  assumes "end_guard s0" and "mark_inv s0 P s" and "gc_stack s = b # rest"
  shows "\<exists>s2. chain_blocks (s\<lparr>gc_stack := rest\<rparr>) b 1 = Some (clen s0 b)
    \<and> mark_words (4 * b) (4 * b + 4 * clen s0 b) (s\<lparr>gc_stack := rest\<rparr>) = Some s2
    \<and> mark_inv s0 P s2 \<and> grows s0 s s2 \<and> (marked s2 = marked s \<longrightarrow> gc_stack s2 = rest)"
proof -
  have "shape s0 (s\<lparr>gc_stack := rest\<rparr>)" "b \<in> marked (s\<lparr>gc_stack := rest\<rparr>)"
    using assms(2,3) by (simp_all add: mark_inv_def)
  from drain_run [OF assms(1) this] show ?thesis
    using mark_step_inv [OF _ assms(2,3)] by blast
qed

text \<open>The number of heads without a mark, then the length of the stack, fall.\<close>

lemma drain_stack:
  assumes "end_guard s0" and "mark_inv s0 P s"
  shows "\<exists>s'. gc_drain_stack s = Some s' \<and> mark_inv s0 P s' \<and> gc_stack s' = [] \<and> grows s0 s s'"
  using assms(2)
proof (induction "(card (heads s0 - marked s), length (gc_stack s))" arbitrary: s
    rule: wf_induct [OF wf_lex_prod [OF wf_less_than wf_less_than]])
  case (1 s)
  show ?case
  proof (cases "gc_stack s")
    case Nil
    then show ?thesis
      using 1(2) by (subst gc_drain_stack.simps) (simp add: grows_refl)
  next
    case (Cons b rest)
    obtain s2 where s2: "chain_blocks (s\<lparr>gc_stack := rest\<rparr>) b 1 = Some (clen s0 b)"
        "mark_words (4 * b) (4 * b + 4 * clen s0 b) (s\<lparr>gc_stack := rest\<rparr>) = Some s2"
        "mark_inv s0 P s2" "grows s0 s s2" "marked s2 = marked s \<longrightarrow> gc_stack s2 = rest"
      using drain_step [OF assms(1) 1(2) Cons] by blast
    have sub: "marked s \<subseteq> marked s2" "marked s2 \<subseteq> heads s0"
      using s2(3,4) by (simp_all add: grows_def mark_inv_def shape_def)
    have "card (heads s0 - marked s2) < card (heads s0 - marked s)
        \<or> card (heads s0 - marked s2) = card (heads s0 - marked s) \<and> length (gc_stack s2) < length (gc_stack s)"
    proof (cases "marked s2 = marked s")
      case True
      then show ?thesis using s2(5) Cons by simp
    next
      case False
      then have "heads s0 - marked s2 \<subset> heads s0 - marked s" using sub by blast
      then show ?thesis by (simp add: psubset_card_mono)
    qed
    then have "((card (heads s0 - marked s2), length (gc_stack s2)), card (heads s0 - marked s), length (gc_stack s))
        \<in> less_than <*lex*> less_than"
      by auto
    with 1(1) s2(3) obtain s' where "gc_drain_stack s2 = Some s'" "mark_inv s0 P s'" "gc_stack s' = []" "grows s0 s2 s'"
      by blast
    then show ?thesis
      using s2 Cons grows_trans [OF s2(4)] by (subst gc_drain_stack.simps) (simp add: Let_def)
  qed
qed

lemma shape_kind: "shape s0 s \<Longrightarrow> b < num_blocks s0 \<Longrightarrow> ATB_GET_KIND s b = Some (kind s b)"
  using shape_blocks [of s0 s] by (intro get_kind_end) (auto simp: shape_def)

lemma mark_inv_mono: "mark_inv s0 P s \<Longrightarrow> P \<subseteq> Q \<Longrightarrow> mark_inv s0 Q s"
  unfolding mark_inv_def explained_def by blast

text \<open>One pass over the table after an overflow.\<close>

lemma rescan_pass:
  assumes "end_guard s0" and "shape s0 s"
  shows "\<exists>s'. rescan s = Some s' \<and> mark_inv s0 {} s' \<and> gc_stack s' = []
    \<and> grows s0 (s\<lparr>gc_stack_overflow := False\<rparr>) s'"
proof -
  let ?s = "s\<lparr>gc_stack_overflow := False, gc_stack := []\<rparr>"
  let ?I = "\<lambda>i t. mark_inv s0 {b \<in> marked s. i \<le> b} t \<and> gc_stack t = [] \<and> grows s0 ?s t"
  let ?f = "\<lambda>block s. do {
     k \<leftarrow> ATB_GET_KIND s block;
     if k = AT_MARK then gc_drain_stack (s\<lparr>gc_stack := block # gc_stack s\<rparr>) else Some s }"
  have "\<exists>s'. for_upto 0 (num_blocks s0) ?f ?s = Some s' \<and> ?I (num_blocks s0) s'"
  proof (rule for_upto_rule)
    show "?I 0 ?s" using assms(2) by (simp add: mark_inv_def explained_def grows_refl)
  next
    fix i t
    assume i: "i < num_blocks s0" and I: "?I i t"
    have sh: "shape s0 t" using I by (simp add: mark_inv_def)
    have sub: "marked s \<subseteq> marked t" using I by (simp add: grows_def)
    show "\<exists>t'. ?f i t = Some t' \<and> ?I (Suc i) t'"
    proof (cases "kind t i = AT_MARK")
      case False
      then have "i \<notin> marked s" using sub shape_blocks [OF sh] i by (auto simp: marked_def)
      then have "{b \<in> marked s. i \<le> b} = {b \<in> marked s. Suc i \<le> b}"
        by (auto simp: Suc_le_eq le_less)
      then show ?thesis using False I shape_kind [OF sh i] by auto
    next
      case True
      then have im: "i \<in> marked t" using shape_blocks [OF sh] i by (simp add: marked_def)
      let ?t = "t\<lparr>gc_stack := [i]\<rparr>"
      have "explained s0 {b \<in> marked s. Suc i \<le> b} ?t"
        using I unfolding mark_inv_def explained_def by (auto simp: Suc_le_eq le_less)
      then have "mark_inv s0 {b \<in> marked s. Suc i \<le> b} ?t"
        using sh im by (simp add: mark_inv_def)
      from drain_stack [OF assms(1) this] obtain t' where t': "gc_drain_stack ?t = Some t'"
          "mark_inv s0 {b \<in> marked s. Suc i \<le> b} t'" "gc_stack t' = []" "grows s0 t t'"
        by auto
      then show ?thesis
        using I True shape_kind [OF sh i] grows_trans [of s0 ?s t t'] by auto
    qed
  qed simp
  then obtain s' where s': "for_upto 0 (num_blocks s0) ?f ?s = Some s'" "?I (num_blocks s0) s'" by blast
  have "{b \<in> marked s. num_blocks s0 \<le> b} = {}"
    using shape_blocks [OF assms(2)] by (auto simp: marked_def)
  with s' have "mark_inv s0 {} s'" by simp
  moreover have "rescan s = Some s'" using s'(1) shape_blocks [OF assms(2)] by (simp add: rescan_def)
  ultimately show ?thesis using s'(2) by (intro exI [of _ s']) (simp add: grows_def)
qed

lemma deal_with_overflow:
  assumes "end_guard s0" and "mark_inv s0 {} s" and "gc_stack s = []"
  shows "\<exists>s'. gc_deal_with_stack_overflow s = Some s' \<and> mark_inv s0 {} s' \<and> gc_stack s' = []
    \<and> \<not> gc_stack_overflow s' \<and> marked s \<subseteq> marked s'
    \<and> (\<forall>R. marked s \<subseteq> R \<longrightarrow> (\<forall>b \<in> R. children s0 b \<subseteq> R) \<longrightarrow> marked s' \<subseteq> R)"
  using assms(2,3)
proof (induction "card (heads s0 - marked s)" arbitrary: s rule: less_induct)
  case less
  show ?case
  proof (cases "gc_stack_overflow s")
    case False
    then show ?thesis using less.prems by (subst gc_deal_with_stack_overflow.simps) simp
  next
    case True
    have sh: "shape s0 s" using less.prems by (simp add: mark_inv_def)
    obtain s1 where s1: "rescan s = Some s1" "mark_inv s0 {} s1" "gc_stack s1 = []"
        "grows s0 (s\<lparr>gc_stack_overflow := False\<rparr>) s1"
      using rescan_pass [OF assms(1) sh] by blast
    have g: "marked s \<subseteq> marked s1" "\<And>R. marked s \<subseteq> R \<Longrightarrow> (\<forall>b \<in> R. children s0 b \<subseteq> R) \<Longrightarrow> marked s1 \<subseteq> R"
        "gc_stack_overflow s1 \<Longrightarrow> marked s \<noteq> marked s1"
      using s1(4) by (simp_all add: grows_def)
    show ?thesis
    proof (cases "gc_stack_overflow s1")
      case False
      then have "gc_deal_with_stack_overflow s1 = Some s1"
        by (subst gc_deal_with_stack_overflow.simps) simp
      then have "gc_deal_with_stack_overflow s = Some s1"
        using True s1(1) by (subst gc_deal_with_stack_overflow.simps) simp
      then show ?thesis using False s1 g by auto
    next
      case ov: True
      have "marked s1 \<subseteq> heads s0" using s1(2) by (simp add: mark_inv_def shape_def)
      then have "heads s0 - marked s1 \<subset> heads s0 - marked s" using g(1,3) ov by blast
      then have "card (heads s0 - marked s1) < card (heads s0 - marked s)" by (simp add: psubset_card_mono)
      from less.hyps [OF this s1(2,3)] obtain s' where s': "gc_deal_with_stack_overflow s1 = Some s'"
          "mark_inv s0 {} s'" "gc_stack s' = []" "\<not> gc_stack_overflow s'" "marked s1 \<subseteq> marked s'"
          "\<forall>R. marked s1 \<subseteq> R \<longrightarrow> (\<forall>b \<in> R. children s0 b \<subseteq> R) \<longrightarrow> marked s' \<subseteq> R"
        by blast
      then have "gc_deal_with_stack_overflow s = Some s'"
        using True s1(1) by (subst gc_deal_with_stack_overflow.simps) simp
      then show ?thesis using s' g by (intro exI [of _ s']) auto
    qed
  qed
qed

subsection \<open>The roots\<close>

lemma root_word:
  assumes "mark_step s0 ws s s1" and "mark_inv s0 {} s" and "gc_stack s = []"
  shows "marked s1 = marked s \<union> targets s0 ws" and "mark_inv s0 {} s1"
proof -
  have m: "marked s1 = marked s \<union> targets s0 ws" and sh: "shape s0 s1" and st: "set (gc_stack s1) \<subseteq> marked s1 - marked s"
    and ov: "gc_stack_overflow s \<longrightarrow> gc_stack_overflow s1"
    and new: "gc_stack_overflow s1 \<or> marked s1 - marked s \<subseteq> set (gc_stack s1)"
    using assms(1) unfolding mark_step_def assms(3) list.set(1) Un_empty_left by - (elim conjE, assumption)+
  show "marked s1 = marked s \<union> targets s0 ws" by (rule m)
  have "children s0 c \<subseteq> marked s1 \<or> gc_stack_overflow s1" if "c \<in> marked s" for c
  proof -
    have "children s0 c \<subseteq> marked s \<or> gc_stack_overflow s"
      using assms(2,3) that by (auto simp: mark_inv_def explained_def)
    then show ?thesis using m ov by blast
  qed
  moreover have "c \<in> set (gc_stack s1) \<or> gc_stack_overflow s1" if "c \<in> marked s1" "c \<notin> marked s" for c
    using new that by blast
  ultimately have "explained s0 {} s1" unfolding explained_def by blast
  then show "mark_inv s0 {} s1" using sh st unfolding mark_inv_def by blast
qed

lemma root_run:
  assumes "end_guard s0" and "mark_inv s0 {} s" and "gc_stack s = []"
  shows "\<exists>s'. gc_collect_root ptrs s = Some s' \<and> mark_inv s0 {} s' \<and> gc_stack s' = []
    \<and> marked s \<union> targets s0 ptrs \<subseteq> marked s'
    \<and> (\<forall>R. marked s \<union> targets s0 ptrs \<subseteq> R \<longrightarrow> (\<forall>b \<in> R. children s0 b \<subseteq> R) \<longrightarrow> marked s' \<subseteq> R)"
  using assms(2,3)
proof (induction ptrs arbitrary: s)
  case Nil
  then show ?case by (simp add: gc_collect_root_def)
next
  case (Cons p ptrs)
  have sh: "shape s0 s" using Cons.prems by (simp add: mark_inv_def)
  obtain s1 where s1: "VERIFY_MARK_AND_PUSH p s = Some s1" "mark_step s0 [p] s s1"
    using mark_word [OF sh] by blast
  have m1: "marked s1 = marked s \<union> targets s0 [p]" and i1: "mark_inv s0 {} s1"
    using root_word [OF s1(2) Cons.prems] by blast+
  from drain_stack [OF assms(1) i1] obtain s2 where s2: "gc_drain_stack s1 = Some s2" "mark_inv s0 {} s2"
      "gc_stack s2 = []" "grows s0 s1 s2"
    by blast
  from Cons.IH [OF s2(2,3)] obtain s' where s': "gc_collect_root ptrs s2 = Some s'" "mark_inv s0 {} s'" "gc_stack s' = []"
      "marked s2 \<union> targets s0 ptrs \<subseteq> marked s'"
      "\<And>R. marked s2 \<union> targets s0 ptrs \<subseteq> R \<Longrightarrow> (\<forall>b \<in> R. children s0 b \<subseteq> R) \<Longrightarrow> marked s' \<subseteq> R"
    by blast
  have t: "targets s0 (p # ptrs) = targets s0 [p] \<union> targets s0 ptrs"
    using targets_append [of s0 "[p]" ptrs] by simp
  have "gc_collect_root (p # ptrs) s = Some s'"
    using s1(1) s2(1) s'(1) by (simp add: gc_collect_root_def)
  moreover have "marked s \<union> targets s0 (p # ptrs) \<subseteq> marked s'"
  proof -
    have "marked s1 \<subseteq> marked s2" using s2(4) by (simp add: grows_def)
    then show ?thesis using m1 s'(4) unfolding t by blast
  qed
  moreover have "marked s' \<subseteq> R" if R: "marked s \<union> targets s0 (p # ptrs) \<subseteq> R" "\<forall>b \<in> R. children s0 b \<subseteq> R" for R
  proof -
    have "marked s1 \<subseteq> R" using R(1) unfolding m1 t by blast
    then have "marked s2 \<subseteq> R" using s2(4) R(2) by (simp add: grows_def)
    then have "marked s2 \<union> targets s0 ptrs \<subseteq> R" using R(1) unfolding t by blast
    then show ?thesis using R(2) by (rule s'(5))
  qed
  ultimately show ?case using s'(2,3) by blast
qed

lemma roots_run:
  assumes "end_guard s0" and "mark_inv s0 {} s" and "gc_stack s = []"
  shows "\<exists>s'. foldM gc_collect_root stacks s = Some s' \<and> mark_inv s0 {} s' \<and> gc_stack s' = []
    \<and> marked s \<union> targets s0 (concat stacks) \<subseteq> marked s'
    \<and> (\<forall>R. marked s \<union> targets s0 (concat stacks) \<subseteq> R \<longrightarrow> (\<forall>b \<in> R. children s0 b \<subseteq> R) \<longrightarrow> marked s' \<subseteq> R)"
  using assms(2,3)
proof (induction stacks arbitrary: s)
  case (Cons ptrs stacks)
  obtain s1 where s1: "gc_collect_root ptrs s = Some s1" "mark_inv s0 {} s1" "gc_stack s1 = []"
      "marked s \<union> targets s0 ptrs \<subseteq> marked s1"
      "\<And>R. marked s \<union> targets s0 ptrs \<subseteq> R \<Longrightarrow> (\<forall>b \<in> R. children s0 b \<subseteq> R) \<Longrightarrow> marked s1 \<subseteq> R"
    using root_run [OF assms(1) Cons.prems, of ptrs] by blast
  obtain s' where s': "foldM gc_collect_root stacks s1 = Some s'" "mark_inv s0 {} s'" "gc_stack s' = []"
      "marked s1 \<union> targets s0 (concat stacks) \<subseteq> marked s'"
      "\<And>R. marked s1 \<union> targets s0 (concat stacks) \<subseteq> R \<Longrightarrow> (\<forall>b \<in> R. children s0 b \<subseteq> R) \<Longrightarrow> marked s' \<subseteq> R"
    using Cons.IH [OF s1(2,3)] by blast
  have "marked s \<union> targets s0 (concat (ptrs # stacks)) \<subseteq> marked s'"
    using s1(4) s'(4) by (auto simp: targets_append)
  moreover have "marked s' \<subseteq> R" if "marked s \<union> targets s0 (concat (ptrs # stacks)) \<subseteq> R" "\<forall>b \<in> R. children s0 b \<subseteq> R" for R
    using that s1(5) s'(5) by (simp add: targets_append)
  ultimately show ?case using s1(1) s'(1-3) by (intro exI [of _ s']) simp
qed simp

text \<open>All the marking of a collection.\<close>

definition gc_mark :: "u32 list \<Rightarrow> u32 list list \<Rightarrow> gc \<Rightarrow> gc option" where
  "gc_mark globals stacks s = do {
     s \<leftarrow> gc_collect_root globals s;
     s \<leftarrow> foldM gc_collect_root stacks s;
     gc_deal_with_stack_overflow s }"

lemma marking_exact:
  assumes "gtab_ok s" and "end_guard s" and "marked s = {}" and "gc_stack s = []" and "\<not> gc_stack_overflow s"
  shows "\<exists>s'. gc_mark globals stacks s = Some s' \<and> shape s s' \<and> marked s' = reach s (globals @ concat stacks)"
proof -
  let ?roots = "globals @ concat stacks"
  have inv: "mark_inv s {} s"
    using assms by (simp add: mark_inv_def shape_def same_rest_def explained_def)
  obtain s1 where s1: "gc_collect_root globals s = Some s1" "mark_inv s {} s1" "gc_stack s1 = []"
      "marked s \<union> targets s globals \<subseteq> marked s1"
      "\<And>R. marked s \<union> targets s globals \<subseteq> R \<Longrightarrow> (\<forall>b \<in> R. children s b \<subseteq> R) \<Longrightarrow> marked s1 \<subseteq> R"
    using root_run [OF assms(2) inv assms(4), of globals] by blast
  obtain s2 where s2: "foldM gc_collect_root stacks s1 = Some s2" "mark_inv s {} s2" "gc_stack s2 = []"
      "marked s1 \<union> targets s (concat stacks) \<subseteq> marked s2"
      "\<And>R. marked s1 \<union> targets s (concat stacks) \<subseteq> R \<Longrightarrow> (\<forall>b \<in> R. children s b \<subseteq> R) \<Longrightarrow> marked s2 \<subseteq> R"
    using roots_run [OF assms(2) s1(2,3), of stacks] by blast
  obtain s3 where s3: "gc_deal_with_stack_overflow s2 = Some s3" "mark_inv s {} s3" "gc_stack s3 = []"
      "\<not> gc_stack_overflow s3" "marked s2 \<subseteq> marked s3"
      "\<And>R. marked s2 \<subseteq> R \<Longrightarrow> (\<forall>b \<in> R. children s b \<subseteq> R) \<Longrightarrow> marked s3 \<subseteq> R"
    using deal_with_overflow [OF assms(2) s2(2,3)] by blast
  have closed: "\<forall>b \<in> marked s3. children s b \<subseteq> marked s3"
    using s3(2-4) by (simp add: mark_inv_def explained_def)
  have "targets s ?roots \<subseteq> marked s3"
    using s1(4) s2(4) s3(5) by (auto simp: targets_append)
  then have "reach s ?roots \<subseteq> marked s3"
  proof (intro subsetI)
    fix x assume t: "targets s ?roots \<subseteq> marked s3" and "x \<in> reach s ?roots"
    from this(2) show "x \<in> marked s3"
      by induction (use t closed in blast)+
  qed
  moreover have "\<forall>b \<in> reach s ?roots. children s b \<subseteq> reach s ?roots"
    by (auto intro: reach.child)
  then have "marked s3 \<subseteq> reach s ?roots"
    using s1(5) s2(5) s3(6) assms(3) by (simp add: targets_append reach.root subsetI)
  ultimately show ?thesis
    using s1(1) s2(1) s3(1,2) by (intro exI [of _ s3]) (simp add: gc_mark_def mark_inv_def)
qed

subsection \<open>The sweep\<close>

text \<open>A finaliser may change the contents of objects; the allocator is locked while it runs.\<close>

definition del_ok :: "(nat \<Rightarrow> gc \<Rightarrow> gc option) \<Rightarrow> bool" where
  "del_ok del \<longleftrightarrow> (\<forall>b s. \<exists>p. del b s = Some (s\<lparr>pool := p\<rparr>) \<and> length p = length (pool s))"

text \<open>The variable \<open>free_tail\<close> before a block, and the kind of a block after the sweep.\<close>

fun free_tail :: "(nat \<Rightarrow> u8) \<Rightarrow> nat \<Rightarrow> bool" where
  "free_tail k 0 = False"
| "free_tail k (Suc b) = (if k b = AT_HEAD then True else if k b = AT_MARK then False else free_tail k b)"

definition swept :: "(nat \<Rightarrow> u8) \<Rightarrow> nat \<Rightarrow> u8" where
  "swept k b = (if k b = AT_HEAD then AT_FREE else if k b = AT_MARK then AT_HEAD
     else if k b = AT_TAIL \<and> free_tail k b then AT_FREE else k b)"

definition same_tables :: "gc \<Rightarrow> gc \<Rightarrow> bool" where
  "same_tables s s' \<longleftrightarrow> atb_len s' = atb_len s \<and> pool_start s' = pool_start s \<and> length (pool s') = length (pool s)
     \<and> length (gtab s') = length (gtab s) \<and> gc_lock_depth s' = gc_lock_depth s
     \<and> gc_auto_collect_enabled s' = gc_auto_collect_enabled s \<and> gc_alloc_threshold s' = gc_alloc_threshold s
     \<and> gc_alloc_amount s' = gc_alloc_amount s \<and> (\<forall>b < num_blocks s. ftb s' b \<longrightarrow> ftb s b)"

lemma same_tables_refl [simp]: "same_tables s s"
  by (simp add: same_tables_def)

lemma same_tables_trans: "same_tables s s1 \<Longrightarrow> same_tables s1 s2 \<Longrightarrow> same_tables s s2"
  by (simp add: same_tables_def num_blocks_def)

lemma same_tables_ok: "same_tables s s' \<Longrightarrow> gtab_ok s' = gtab_ok s \<and> num_blocks s' = num_blocks s"
  by (simp add: same_tables_def gtab_ok_def num_blocks_def pool_end_def)

lemma same_tables_set_kind: "gtab_ok s \<Longrightarrow> b < num_blocks s \<Longrightarrow> same_tables s (set_kind b k s)"
  by (simp add: same_tables_def gc_simps)

lemma finaliser_run:
  assumes "gtab_ok s" and "b < num_blocks s" and "del_ok del"
  shows "\<exists>f s'. FTB_GET s b = Some f \<and> (if f then do {
               ty \<leftarrow> rd (pool s) (4 * b);
               s \<leftarrow> (if ty \<noteq> 0 then del b s else Some s);
               FTB_CLEAR b s }
             else Some s) = Some s' \<and> same_tables s s' \<and> (\<forall>c < num_blocks s. kind s' c = kind s c)"
proof -
  have i: "atb_len s + b div 8 < length (gtab s)" and p: "4 * b < length (pool s)"
    using assms(1,2) by (auto simp: gtab_ok_def num_blocks_def)
  obtain q where q: "del b s = Some (s\<lparr>pool := q\<rparr>)" "length q = length (pool s)"
    using assms(3) unfolding del_ok_def by blast
  define s1 where "s1 = (if pool s ! (4 * b) \<noteq> 0 then s\<lparr>pool := q\<rparr> else s)"
  have s1: "gtab_ok s1" "num_blocks s1 = num_blocks s" "kind s1 = kind s" "ftb s1 = ftb s" "same_tables s s1"
    using q(2) assms(1)
    by (auto simp: s1_def same_tables_def num_blocks_def gtab_ok_def pool_end_def kind_def ftb_def)
  define s2 where "s2 = (if ftb s b then set_ftb b False s1 else s)"
  have "same_tables s (set_ftb b False s1)"
    using s1 assms(2) by (intro same_tables_trans [OF s1(5)]) (simp add: same_tables_def gc_simps)
  then have "same_tables s s2" by (simp add: s2_def)
  moreover have "kind s2 c = kind s c" if "c < num_blocks s" for c
    using that s1 by (simp add: s2_def gc_simps)
  moreover have "(if ftb s b then do {
               ty \<leftarrow> rd (pool s) (4 * b);
               s \<leftarrow> (if ty \<noteq> 0 then del b s else Some s);
               FTB_CLEAR b s }
             else Some s) = Some s2"
    using p q(1) ftb_macros(2) [OF s1(1), of b] assms(2) s1(2) by (auto simp: s2_def s1_def rd_in)
  ultimately show ?thesis using FTB_GET_ftb [OF assms(1,2)] by blast
qed

lemma sweep_one:
  assumes "gtab_ok s" and "b < num_blocks s" and "del_ok del"
  shows "\<exists>s'. sweep_block del b (ft, s) = Some (if kind s b = AT_HEAD then True else if kind s b = AT_MARK then False else ft, s')
    \<and> same_tables s s'
    \<and> (\<forall>c < num_blocks s. kind s' c = (if c = b then
          (if kind s b = AT_HEAD then AT_FREE else if kind s b = AT_MARK then AT_HEAD
           else if kind s b = AT_TAIL \<and> ft then AT_FREE else kind s b) else kind s c))"
proof -
  have k: "ATB_GET_KIND s b = Some (kind s b)" using assms(1,2) by (simp add: get_kind_end)
  have l: "b div 4 < length (gtab s)" using table_byte [OF assms(1,2)] by simp
  have set: "kind (set_kind b AT_FREE s) c = (if c = b then AT_FREE else kind s c)"
    "kind (set_kind b AT_HEAD s) c = (if c = b then AT_HEAD else kind s c)" for c
    using l by (simp_all add: kind_set_kind kind_and_3)
  consider "kind s b = AT_HEAD" | "kind s b = AT_TAIL" | "kind s b = AT_MARK" | "kind s b = AT_FREE"
    using kind_cases [of s b] by blast
  then show ?thesis
  proof cases
    case 1
    obtain f s1 where f: "FTB_GET s b = Some f" "(if f then do {
               ty \<leftarrow> rd (pool s) (4 * b);
               s \<leftarrow> (if ty \<noteq> 0 then del b s else Some s);
               FTB_CLEAR b s }
             else Some s) = Some s1" "same_tables s s1" "\<forall>c < num_blocks s. kind s1 c = kind s c"
      using finaliser_run [OF assms] by blast
    have ok: "gtab_ok s1" "b < num_blocks s1" using same_tables_ok [OF f(3)] assms by simp_all
    have l1: "b div 4 < length (gtab s1)" using table_byte [OF ok] by simp
    have "sweep_block del b (ft, s) = Some (True, set_kind b AT_FREE s1)"
      unfolding sweep_block_def prod.case Let_def k bind.simps 1 simp_thms if_True f(1)
      using f(2) atb_macros(1) [OF ok] by simp
    moreover have "kind (set_kind b AT_FREE s1) c = (if c = b then AT_FREE else kind s c)" if "c < num_blocks s" for c
      using that f(4) l1 by (simp add: kind_set_kind kind_and_3)
    ultimately show ?thesis
      using 1 same_tables_trans [OF f(3) same_tables_set_kind [OF ok]] by (intro exI [of _ "set_kind b AT_FREE s1"]) simp
  next
    case 2
    then show ?thesis
      using k atb_macros(1) [OF assms(1,2)] set same_tables_set_kind [OF assms(1,2)] by (cases ft) (auto simp: sweep_block_def)
  next
    case 3
    then show ?thesis
      using k atb_macros(5) [OF assms(1,2)] set same_tables_set_kind [OF assms(1,2)] by (auto simp: sweep_block_def)
  next
    case 4
    then show ?thesis using k by (auto simp: sweep_block_def)
  qed
qed

lemma sweep_all:
  assumes "gtab_ok s" and "del_ok del"
  shows "\<exists>s'. gc_sweep del s = Some s' \<and> same_tables s s' \<and> (\<forall>b < num_blocks s. kind s' b = swept (kind s) b)"
proof -
  let ?I = "\<lambda>i st. same_tables s (snd st) \<and> fst st = free_tail (kind s) i
    \<and> (\<forall>c < num_blocks s. kind (snd st) c = (if c < i then swept (kind s) c else kind s c))"
  have "\<exists>st. for_upto 0 (num_blocks s) (sweep_block del) (False, s) = Some st \<and> ?I (num_blocks s) st"
  proof (rule for_upto_rule [where P = ?I])
    fix i st
    assume "0 \<le> i" and i: "i < num_blocks s" and I: "?I i st"
    obtain ft t where st: "st = (ft, t)" by (cases st)
    have t: "same_tables s t" "ft = free_tail (kind s) i" "kind t i = kind s i"
        "\<And>c. c < num_blocks s \<Longrightarrow> kind t c = (if c < i then swept (kind s) c else kind s c)"
      using I i by (auto simp: st)
    have ok: "gtab_ok t" "i < num_blocks t" using same_tables_ok [OF t(1)] assms(1) i by simp_all
    obtain t' where t': "sweep_block del i (ft, t) = Some (if kind t i = AT_HEAD then True else if kind t i = AT_MARK then False else ft, t')"
        "same_tables t t'"
        "\<forall>c < num_blocks t. kind t' c = (if c = i then
          (if kind t i = AT_HEAD then AT_FREE else if kind t i = AT_MARK then AT_HEAD
           else if kind t i = AT_TAIL \<and> ft then AT_FREE else kind t i) else kind t c)"
      using sweep_one [OF ok assms(2)] by blast
    have n: "num_blocks t = num_blocks s" using same_tables_ok [OF t(1)] by simp
    have "kind t' c = (if c < Suc i then swept (kind s) c else kind s c)" if "c < num_blocks s" for c
      using t'(3) that t n i by (cases "c = i") (auto simp: swept_def)
    then show "\<exists>st'. sweep_block del i st = Some st' \<and> ?I (Suc i) st'"
      using t'(1) same_tables_trans [OF t(1) t'(2)] t(2,3) by (auto simp: st)
  qed auto
  then obtain st where st: "for_upto 0 (num_blocks s) (sweep_block del) (False, s) = Some st" "?I (num_blocks s) st" by blast
  then show ?thesis by (intro exI [of _ "snd st"]) (simp add: gc_sweep_def)
qed

subsection \<open>A whole collection\<close>

text \<open>A tail block follows a block that is in use, so it belongs to a chain.\<close>

definition tails_ok :: "gc \<Rightarrow> bool" where
  "tails_ok s \<longleftrightarrow> (\<forall>b < num_blocks s. kind s b = AT_TAIL \<longrightarrow> 0 < b \<and> kind s (b - 1) \<noteq> AT_FREE)"

text \<open>The blocks of the objects that the roots reach.\<close>

definition live :: "gc \<Rightarrow> u32 list \<Rightarrow> nat set" where
  "live s roots = (\<Union>h \<in> reach s roots. {h ..< h + clen s h})"

lemma reach_heads: "reach s roots \<subseteq> heads s"
proof
  fix x assume "x \<in> reach s roots"
  then show "x \<in> heads s" by induction (auto simp: targets_def children_def)
qed

text \<open>The head of the chain that a tail block belongs to.\<close>

lemma tail_owner:
  assumes "tails_ok s" and "marked s = {}"
  shows "b < num_blocks s \<Longrightarrow> kind s b = AT_TAIL \<Longrightarrow>
    \<exists>h < b. h \<in> heads s \<and> (\<forall>j. h < j \<and> j \<le> b \<longrightarrow> kind s j = AT_TAIL)"
proof (induction b)
  case 0
  then show ?case using assms(1) by (auto simp: tails_ok_def)
next
  case (Suc b)
  then have f: "kind s b \<noteq> AT_FREE" using assms(1) by (force simp: tails_ok_def)
  have "kind s b \<noteq> AT_MARK" using Suc.prems(1) assms(2) by (auto simp: marked_def)
  then consider "kind s b = AT_HEAD" | "kind s b = AT_TAIL" using f kind_cases [of s b] by blast
  then show ?case
  proof cases
    case 1
    then have "b \<in> heads s" using Suc.prems(1) by (simp add: heads_def)
    moreover have "\<forall>j. b < j \<and> j \<le> Suc b \<longrightarrow> kind s j = AT_TAIL"
      using Suc.prems(2) by (metis le_SucE not_le)
    ultimately show ?thesis by blast
  next
    case 2
    then obtain h where "h < b" "h \<in> heads s" "\<forall>j. h < j \<and> j \<le> b \<longrightarrow> kind s j = AT_TAIL"
      using Suc.IH Suc.prems(1) by auto
    then show ?thesis using Suc.prems(2) by (metis le_SucE less_SucI)
  qed
qed

lemma chain_tails:
  assumes "\<forall>j. h < j \<and> j \<le> b \<longrightarrow> kind s j = AT_TAIL" and "h < b" and "end_guard s" and "h < num_blocks s"
  shows "b < h + clen s h"
proof (rule ccontr)
  assume "\<not> b < h + clen s h"
  moreover have "0 < clen s h \<and> kind s (h + clen s h) \<noteq> AT_TAIL" using clen_bound [OF assms(3,4)] by simp
  ultimately show False using assms(1) by auto
qed

lemma chain_unique:
  assumes "h \<in> heads s" "h' \<in> heads s" and "\<forall>j. h < j \<and> j \<le> b \<longrightarrow> kind s j = AT_TAIL" and "h < b"
    and "h' \<le> b" and "b < h' + clen s h'"
  shows "h' = h"
proof (rule ccontr)
  assume "h' \<noteq> h"
  then consider "h' < h" | "h < h'" by linarith
  then show False
  proof cases
    case 1
    then have "kind s h = AT_TAIL" using assms(4,6) clen_tail [of "h - h'" s h'] by simp
    then show ?thesis using assms(1) by (simp add: heads_def)
  next
    case 2
    then have "kind s h' = AT_TAIL" using assms(3,5) by blast
    then show ?thesis using assms(2) by (simp add: heads_def)
  qed
qed

lemma free_tail_owner:
  "(\<And>j. h < j \<Longrightarrow> j < b \<Longrightarrow> k j = AT_TAIL) \<Longrightarrow> h < b \<Longrightarrow> k h = AT_HEAD \<or> k h = AT_MARK
    \<Longrightarrow> free_tail k b = (k h = AT_HEAD)"
proof (induction b)
  case (Suc b)
  show ?case
  proof (cases "h = b")
    case False
    then have "h < b" using Suc.prems(2) by simp
    moreover from this have "k b = AT_TAIL" using Suc.prems(1) by simp
    ultimately show ?thesis using Suc by simp
  qed (use Suc.prems(3) in auto)
qed simp

lemma live_tail:
  assumes "end_guard s" and "h \<in> heads s" and "h < b" and "\<forall>j. h < j \<and> j \<le> b \<longrightarrow> kind s j = AT_TAIL"
  shows "b \<in> live s roots \<longleftrightarrow> h \<in> reach s roots"
proof
  assume "b \<in> live s roots"
  then obtain h' where h': "h' \<in> reach s roots" "h' \<le> b" "b < h' + clen s h'" by (auto simp: live_def)
  then have "h' = h" using chain_unique [OF assms(2) _ assms(4,3)] reach_heads by blast
  then show "h \<in> reach s roots" using h'(1) by simp
next
  assume "h \<in> reach s roots"
  moreover have "b < h + clen s h"
    using chain_tails [OF assms(4,3,1)] assms(2) by (simp add: heads_def)
  ultimately show "b \<in> live s roots" using assms(3) by (auto simp: live_def intro!: bexI [of _ h])
qed

lemma live_head:
  assumes "end_guard s" and "h \<in> heads s"
  shows "h \<in> live s roots \<longleftrightarrow> h \<in> reach s roots"
proof
  assume "h \<in> live s roots"
  then obtain h' where h': "h' \<in> reach s roots" "h' \<le> h" "h < h' + clen s h'" by (auto simp: live_def)
  have "h' = h"
  proof (rule ccontr)
    assume "h' \<noteq> h"
    then have "kind s h = AT_TAIL" using h' clen_tail [of "h - h'" s h'] by simp
    then show False using assms(2) by (simp add: heads_def)
  qed
  then show "h \<in> reach s roots" using h'(1) by simp
next
  assume "h \<in> reach s roots"
  then show "h \<in> live s roots"
    using clen_bound [OF assms(1), of h] assms(2) by (auto simp: live_def heads_def intro!: bexI [of _ h])
qed

text \<open>The sweep after the marking keeps the live blocks and frees the others.\<close>

lemma swept_live:
  assumes "end_guard s" and "tails_ok s" and "marked s = {}" and "shape s s'" and "marked s' = reach s roots"
    and "b < num_blocks s"
  shows "swept (kind s') b = (if b \<in> live s roots then kind s b else AT_FREE)"
proof -
  have k: "kind s' c = (if c \<in> reach s roots then AT_MARK else kind s c)" for c
    using assms(4,5) by (simp add: shape_def)
  have nm: "kind s b \<noteq> AT_MARK" using assms(3,6) by (auto simp: marked_def)
  consider "b \<in> heads s" | "kind s b = AT_TAIL" | "kind s b = AT_FREE"
    using kind_cases [of s b] nm assms(6) by (auto simp: heads_def)
  then show ?thesis
  proof cases
    case 1
    then have "kind s b = AT_HEAD" by (simp add: heads_def)
    then show ?thesis using live_head [OF assms(1) 1] by (simp add: swept_def k)
  next
    case 2
    then obtain h where h: "h < b" "h \<in> heads s" "\<forall>j. h < j \<and> j \<le> b \<longrightarrow> kind s j = AT_TAIL"
      using tail_owner [OF assms(2,3,6)] by blast
    have nr: "c \<notin> reach s roots" if "kind s c = AT_TAIL" for c
      using that reach_heads [of s roots] by (auto simp: heads_def)
    have kh: "kind s' h = (if h \<in> reach s roots then AT_MARK else AT_HEAD)"
      using h(2) by (simp add: k heads_def)
    have "free_tail (kind s') b = (kind s' h = AT_HEAD)"
      using h kh nr by (intro free_tail_owner) (auto simp: k)
    then show ?thesis
      using 2 nr [OF 2] live_tail [OF assms(1) h(2,1,3)] kh by (simp add: swept_def k)
  next
    case 3
    then have "b \<notin> reach s roots" using reach_heads [of s roots] by (auto simp: heads_def)
    then show ?thesis using 3 by (simp add: swept_def k)
  qed
qed

text \<open>The start of a collection changes nothing that the reachable objects depend on.\<close>

definition collect_init :: "gc \<Rightarrow> gc" where
  "collect_init s = s\<lparr>gc_lock_depth := gc_lock_depth s + 1, gc_alloc_amount := 0, gc_stack_overflow := False, gc_stack := []\<rparr>"

lemma collect_init_same:
  "kind (collect_init s) = kind s" "num_blocks (collect_init s) = num_blocks s" "pool_end (collect_init s) = pool_end s"
  "heads (collect_init s) = heads s" "marked (collect_init s) = marked s" "clen (collect_init s) = clen s"
  "gtab_ok (collect_init s) = gtab_ok s" "end_guard (collect_init s) = end_guard s"
  "targets (collect_init s) = targets s" "children (collect_init s) = children s"
proof -
  show k: "kind (collect_init s) = kind s" by (rule ext) (simp add: kind_def collect_init_def)
  show n: "num_blocks (collect_init s) = num_blocks s" and p: "pool_end (collect_init s) = pool_end s"
    by (simp_all add: num_blocks_def pool_end_def collect_init_def)
  show h: "heads (collect_init s) = heads s" and "marked (collect_init s) = marked s"
    by (simp_all add: heads_def marked_def k n)
  show c: "clen (collect_init s) = clen s" by (rule ext) (simp add: clen_def k)
  show "gtab_ok (collect_init s) = gtab_ok s" "end_guard (collect_init s) = end_guard s"
    by (simp_all add: gtab_ok_def end_guard_def k n p) (simp_all add: collect_init_def)
  have "VERIFY_PTR (collect_init s) = VERIFY_PTR s" "BLOCK_FROM_PTR (collect_init s) = BLOCK_FROM_PTR s"
    by (rule ext, simp add: VERIFY_PTR_def BLOCK_FROM_PTR_def p, simp add: collect_init_def)+
  then show t: "targets (collect_init s) = targets s" by (intro ext) (simp add: targets_def h)
  show "children (collect_init s) = children s"
    by (rule ext) (simp add: children_def t block_words_def c, simp add: collect_init_def)
qed

lemma collect_init_reach: "reach (collect_init s) roots = reach s roots"
proof (intro equalityI subsetI)
  fix x assume "x \<in> reach (collect_init s) roots"
  then show "x \<in> reach s roots" by induction (auto simp: collect_init_same intro: reach.intros)
next
  fix x assume "x \<in> reach s roots"
  then show "x \<in> reach (collect_init s) roots"
    by induction (auto simp: collect_init_same intro: reach.intros)
qed

lemma gc_collect_phases:
  "gc_collect del globals stacks s = do {
     s \<leftarrow> gc_mark globals stacks (collect_init s);
     s \<leftarrow> gc_sweep del s;
     Some (s\<lparr>gc_last_free_atb_index := 0, gc_lock_depth := gc_lock_depth s - 1\<rparr>) }"
  by (simp add: gc_collect_def gc_collect_start_def gc_collect_end_def gc_mark_def collect_init_def)

lemma live_tails_ok:
  assumes "end_guard s" and "marked s = {}" and "\<forall>b < num_blocks s. kind s' b = (if b \<in> live s roots then kind s b else AT_FREE)"
    and "num_blocks s' = num_blocks s"
  shows "tails_ok s'"
  unfolding tails_ok_def
proof (intro allI impI)
  fix b assume b: "b < num_blocks s'" and t: "kind s' b = AT_TAIL"
  then have l: "b \<in> live s roots" and kt: "kind s b = AT_TAIL"
    using assms(3,4) by (auto split: if_splits)
  then obtain h where h: "h \<in> reach s roots" "h \<le> b" "b < h + clen s h" by (auto simp: live_def)
  have hh: "h \<in> heads s" using h(1) reach_heads by blast
  then have hb: "h < b" using h(2) kt by (cases "h = b") (auto simp: heads_def)
  then have pl: "b - 1 \<in> live s roots" using h by (auto simp: live_def intro!: bexI [of _ h])
  have "kind s (b - 1) \<noteq> AT_FREE"
  proof (cases "b - 1 = h")
    case True
    then show ?thesis using hh by (simp add: heads_def)
  next
    case False
    then have "kind s (h + (b - 1 - h)) = AT_TAIL" using hb h(3) by (intro clen_tail) auto
    then show ?thesis using hb by simp
  qed
  then show "0 < b \<and> kind s' (b - 1) \<noteq> AT_FREE" using hb pl b assms(3,4) by simp
qed

lemma collect_run:
  assumes "gtab_ok s" and "end_guard s" and "tails_ok s" and "marked s = {}" and "del_ok del"
  shows "\<exists>s'. gc_collect del globals stacks s = Some s' \<and> gtab_ok s' \<and> tails_ok s' \<and> marked s' = {}
    \<and> atb_len s' = atb_len s \<and> pool_start s' = pool_start s
    \<and> gc_auto_collect_enabled s' = gc_auto_collect_enabled s \<and> (\<forall>b < num_blocks s. ftb s' b \<longrightarrow> ftb s b) \<and> gc_lock_depth s' = gc_lock_depth s \<and> gc_last_free_atb_index s' = 0
    \<and> (\<forall>b < num_blocks s. kind s' b =
         (if b \<in> live s (globals @ concat stacks) then kind s b else AT_FREE))"
proof -
  let ?roots = "globals @ concat stacks"
  have st: "gc_stack (collect_init s) = []" "\<not> gc_stack_overflow (collect_init s)" by (simp_all add: collect_init_def)
  have ci: "gtab_ok (collect_init s)" "end_guard (collect_init s)" "marked (collect_init s) = {}"
    using assms by (simp_all add: collect_init_same)
  obtain s1 where s1: "gc_mark globals stacks (collect_init s) = Some s1" "shape (collect_init s) s1"
      "marked s1 = reach s ?roots"
    using marking_exact [OF ci st, of globals stacks] unfolding collect_init_reach by blast
  have rest: "gc_auto_collect_enabled s1 = gc_auto_collect_enabled s" "pool_start s1 = pool_start s" "atb_len s1 = atb_len s"
    using s1(2) by (simp_all add: shape_def same_rest_def) (simp_all add: collect_init_def)
  have f1: "ftb s1 = ftb s"
  proof (rule ext)
    fix b
    have "drop (atb_len s) (gtab s1) = drop (atb_len s) (gtab s)" "gtab_ok s1"
      using s1(2) by (simp_all add: shape_def same_rest_def) (simp_all add: collect_init_def)
    moreover have "atb_len s \<le> length (gtab s1)" "atb_len s \<le> length (gtab s)"
      using \<open>gtab_ok s1\<close> assms(1) rest by (simp_all add: gtab_ok_def)
    ultimately have "gtab s1 ! (atb_len s + b div 8) = gtab s ! (atb_len s + b div 8)"
      by (metis nth_drop)
    then show "ftb s1 b = ftb s b" by (simp add: ftb_def rest)
  qed
  have n1: "num_blocks s1 = num_blocks s" using shape_blocks [OF s1(2)] by (simp add: collect_init_same)
  have lk: "gc_lock_depth s1 = gc_lock_depth s + 1"
    using s1(2) by (simp add: shape_def same_rest_def) (simp add: collect_init_def)
  obtain s2 where s2: "gc_sweep del s1 = Some s2" "same_tables s1 s2"
      "\<forall>b < num_blocks s1. kind s2 b = swept (kind s1) b"
    using sweep_all [of s1 del] s1(2) assms(5) by (auto simp: shape_def)
  have live: "live (collect_init s) ?roots = live s ?roots"
    by (simp add: live_def collect_init_same collect_init_reach)
  have tk: "tails_ok (collect_init s)" using assms(3) by (simp add: tails_ok_def collect_init_same)
  have k2: "\<forall>b < num_blocks s. kind s2 b = (if b \<in> live s ?roots then kind s b else AT_FREE)"
    using s2(3) swept_live [OF _ tk _ s1(2), of ?roots] assms(2,4) s1(3) n1
    by (simp add: collect_init_same collect_init_reach live)
  define s' where "s' = s2\<lparr>gc_last_free_atb_index := 0, gc_lock_depth := gc_lock_depth s2 - 1\<rparr>"
  have n2: "num_blocks s2 = num_blocks s" and ok2: "gtab_ok s2"
    using same_tables_ok [OF s2(2)] s1(2) n1 by (simp_all add: shape_def)
  have k': "kind s' = kind s2" "num_blocks s' = num_blocks s" and ok': "gtab_ok s'"
    using n2 ok2 by (auto simp: s'_def kind_def num_blocks_def gtab_ok_def pool_end_def)
  have "marked s' = {}" using k2 assms(4) by (auto simp: marked_def k')
  moreover have "tails_ok s'" using k2 k' by (intro live_tails_ok [OF assms(2,4)]) auto
  moreover have "gc_lock_depth s' = gc_lock_depth s" using s2(2) lk by (simp add: s'_def same_tables_def)
  moreover have "gc_collect del globals stacks s = Some s'"
    by (simp add: gc_collect_phases s1(1) s2(1) s'_def)
  moreover have "gc_last_free_atb_index s' = 0" by (simp add: s'_def)
  moreover have "ftb s' = ftb s2" by (rule ext) (simp add: ftb_def s'_def)
  then have "\<forall>b < num_blocks s. ftb s' b \<longrightarrow> ftb s b" using s2(2) f1 n1 by (simp add: same_tables_def)
  moreover have "atb_len s' = atb_len s" "pool_start s' = pool_start s"
      "gc_auto_collect_enabled s' = gc_auto_collect_enabled s"
    using s2(2) rest by (simp_all add: s'_def same_tables_def)
  ultimately show ?thesis using k2 k' ok' by (intro exI [of _ s']) simp
qed

text \<open>
  C2. A garbage collection is exact: from a consistent heap (tables of the right size, no tail
  block behind a free block, no left-over marks, the two finaliser bits behind the allocation
  table not read as a tail) and with any global roots and any stacks, \<open>gc_collect\<close> returns, and
  afterwards a block is in use exactly when it belongs to an object that the roots reach, directly
  or through the words of reached objects; all other blocks are free.  This holds although the
  mark stack has only 64 entries and may overflow any number of times.  The heap is consistent
  again, nothing stays marked, the lock depth is the one before and the next allocation searches
  from the start of the table.
\<close>

theorem collection_exact:
  assumes "gtab_ok s" and "end_guard s" and "tails_ok s" and "marked s = {}" and "del_ok del"
  shows "\<exists>s'. gc_collect del globals stacks s = Some s' \<and> gtab_ok s' \<and> tails_ok s' \<and> marked s' = {}
    \<and> num_blocks s' = num_blocks s \<and> gc_lock_depth s' = gc_lock_depth s \<and> gc_last_free_atb_index s' = 0
    \<and> (\<forall>b < num_blocks s. kind s' b =
         (if b \<in> live s (globals @ concat stacks) then kind s b else AT_FREE))"
  using collect_run [OF assms, of globals stacks] by (auto simp: num_blocks_def)

text \<open>A heap of four blocks: an object of two blocks that points to the last one, and an unused object.\<close>

definition small_heap :: gc where
  "small_heap = \<lparr>gtab = [0x59, 0], atb_len = 1, pool_start = 0x1000,
     pool = [0, 0, 0, 0, 0x1030, 0, 0, 0, 0, 0, 0, 0, 0, 0, 0, 0], gc_stack = [], gc_stack_overflow = False,
     gc_last_free_atb_index = 0, gc_lock_depth = 0, gc_auto_collect_enabled = True,
     gc_alloc_threshold = 0xFFFFFFFF, gc_alloc_amount = 0\<rparr>"

lemma less_4: "(b :: nat) < 4 \<longleftrightarrow> b = 0 \<or> b = 1 \<or> b = 2 \<or> b = 3"
  by auto

lemma small_heap_kinds:
  "kind small_heap 0 = AT_HEAD" "kind small_heap (Suc 0) = AT_TAIL" "kind small_heap 2 = AT_HEAD" "kind small_heap 3 = AT_HEAD"
  "kind small_heap 4 = AT_FREE" "num_blocks small_heap = 4"
  by (simp_all add: kind_def small_heap_def BLOCK_SHIFT_def AT_defs num_blocks_def)

lemma small_heap_block: "b < num_blocks small_heap \<Longrightarrow> kind small_heap b = AT_HEAD \<or> b = 1 \<and> kind small_heap b = AT_TAIL"
  unfolding small_heap_kinds less_4 by (elim disjE) (simp_all add: small_heap_kinds)

lemma small_heap_ok: "gtab_ok small_heap" "end_guard small_heap" "tails_ok small_heap" "marked small_heap = {}"
proof -
  show "gtab_ok small_heap" by (simp add: gtab_ok_def small_heap_def num_blocks_def pool_end_def)
  show "end_guard small_heap" by (simp add: end_guard_def small_heap_kinds)
  show "tails_ok small_heap" using small_heap_block by (fastforce simp: tails_ok_def small_heap_kinds(1))
  show "marked small_heap = {}" using small_heap_block by (fastforce simp: marked_def)
qed

theorem collection_exact_witness:
  "gtab_ok small_heap \<and> end_guard small_heap \<and> tails_ok small_heap \<and> marked small_heap = {} \<and> del_ok (\<lambda>b. Some)
    \<and> (\<exists>s'. gc_collect (\<lambda>b. Some) [7] [[3, 0x1000]] small_heap = Some s' \<and> gc_lock_depth s' = 0
         \<and> kind s' 2 = (if 2 \<in> live small_heap [7, 3, 0x1000] then AT_HEAD else AT_FREE))"
proof -
  have d: "del_ok (\<lambda>b. Some)" unfolding del_ok_def by (intro allI, rule_tac x = "pool s" in exI) simp
  show ?thesis
    using collection_exact [OF small_heap_ok d, of "[7]" "[[3, 0x1000]]"] small_heap_ok d
    unfolding small_heap_kinds append.simps concat.simps
    by - (elim exE conjE, intro conjI exI, assumption+, simp add: small_heap_def, simp add: small_heap_kinds)
qed

end
