(* ===== verification/Py_Gc_Alloc.thy ===== *)
theory Py_Gc_Alloc
  imports Py_Gc_Collect
begin

text \<open>
  Allocation on the heap of the interpreter (\<open>py/gc.c\<close>): the layout that \<open>gc_init\<close> computes,
  \<open>gc_alloc\<close> with its search by bytes of the allocation table and its two attempts around a
  collection, \<open>gc_free\<close>, \<open>gc_nbytes\<close> and \<open>gc_realloc\<close>.  A pointer is a word of 32 bits
  and 0 is \<open>NULL\<close>; \<open>None\<close> is an access outside the tables or the pool, or a failed
  assertion.  What a collection needs, the finalisers \<open>del\<close>, the root pointers \<open>globals\<close> and
  the stacks \<open>stacks\<close>, are arguments.
\<close>

unbundle bit_operations_syntax

subsection \<open>The layout\<close>

text \<open>\<open>contents\<close> is what the memory of the pool holds before.\<close>

definition gc_init :: "u32 \<Rightarrow> u32 \<Rightarrow> (nat \<Rightarrow> u32) \<Rightarrow> gc option" where
  "gc_init start end' contents =
     (let end' = end' AND NOT 15;
          total_byte_len = end' - start;
          alloc_len = total_byte_len * 8 div (8 + 8 * 4 div 8 + 8 * 4 * 16);
          finaliser_len = (alloc_len * 4 + 8 - 1) div 8;
          finaliser_start = start + alloc_len;
          pool_block_len = alloc_len * 4;
          pool = end' - pool_block_len * 16
      in if pool \<ge> finaliser_start + finaliser_len
         then Some \<lparr>gtab = replicate (unat alloc_len) 0 @ replicate (unat finaliser_len) 0,
                atb_len = unat alloc_len, pool_start = unat pool,
                pool = map contents [0..<unat pool_block_len * 4], gc_stack = [], gc_stack_overflow = False,
                gc_last_free_atb_index = 0, gc_lock_depth = 0, gc_auto_collect_enabled = True,
                gc_alloc_threshold = -1, gc_alloc_amount = 0\<rparr>
         else None)"

subsection \<open>Searching the allocation table\<close>

definition ATB_0_IS_FREE :: "u8 \<Rightarrow> bool" where "ATB_0_IS_FREE a \<longleftrightarrow> a AND 0x03 = 0"
definition ATB_1_IS_FREE :: "u8 \<Rightarrow> bool" where "ATB_1_IS_FREE a \<longleftrightarrow> a AND 0x0C = 0"
definition ATB_2_IS_FREE :: "u8 \<Rightarrow> bool" where "ATB_2_IS_FREE a \<longleftrightarrow> a AND 0x30 = 0"
definition ATB_3_IS_FREE :: "u8 \<Rightarrow> bool" where "ATB_3_IS_FREE a \<longleftrightarrow> a AND 0xC0 = 0"

text \<open>
  One of the four tests: the run of free blocks ends in block \<open>b\<close> and is long enough (\<open>Inl\<close>),
  or the search goes on with the new \<open>n_free\<close> (\<open>Inr\<close>).
\<close>

definition scan_test :: "nat \<Rightarrow> bool \<Rightarrow> nat \<Rightarrow> nat \<Rightarrow> (nat \<times> nat) + nat" where
  "scan_test n_blocks is_free b n_free =
     (if is_free then (if n_free + 1 \<ge> n_blocks then Inl (b, n_free + 1) else Inr (n_free + 1)) else Inr 0)"

fun and_then :: "'a + 'b \<Rightarrow> ('b \<Rightarrow> 'a + 'c) \<Rightarrow> 'a + 'c" where
  "and_then (Inl x) f = Inl x"
| "and_then (Inr y) f = f y"

definition scan_byte :: "nat \<Rightarrow> nat \<Rightarrow> u8 \<Rightarrow> nat \<Rightarrow> (nat \<times> nat) + nat" where
  "scan_byte n_blocks i a n_free =
     and_then (scan_test n_blocks (ATB_0_IS_FREE a) (i * 4 + 0) n_free) (\<lambda>n_free.
     and_then (scan_test n_blocks (ATB_1_IS_FREE a) (i * 4 + 1) n_free) (\<lambda>n_free.
     and_then (scan_test n_blocks (ATB_2_IS_FREE a) (i * 4 + 2) n_free) (\<lambda>n_free.
     scan_test n_blocks (ATB_3_IS_FREE a) (i * 4 + 3) n_free)))"

fun scan_table :: "gc \<Rightarrow> nat \<Rightarrow> nat list \<Rightarrow> nat \<Rightarrow> ((nat \<times> nat) + nat) option" where
  "scan_table s n_blocks [] n_free = Some (Inr n_free)"
| "scan_table s n_blocks (i # is) n_free = do {
     a \<leftarrow> rd (gtab s) i;
     case scan_byte n_blocks i a n_free of
       Inl found \<Rightarrow> Some (Inl found)
     | Inr n_free \<Rightarrow> scan_table s n_blocks is n_free }"

text \<open>The loop \<open>for (;;)\<close> around the search; the second round is the last, as \<open>collected\<close> is 1.\<close>

function alloc_search :: "(nat \<Rightarrow> gc \<Rightarrow> gc option) \<Rightarrow> u32 list \<Rightarrow> u32 list list \<Rightarrow> nat \<Rightarrow> bool \<Rightarrow> nat \<Rightarrow> gc
    \<Rightarrow> ((nat \<times> nat) option \<times> gc) option" where
  "alloc_search del globals stacks n_blocks collected n_free s = do {
     r \<leftarrow> scan_table s n_blocks [gc_last_free_atb_index s ..< atb_len s] n_free;
     case r of
       Inl found \<Rightarrow> Some (Some found, s)
     | Inr n_free \<Rightarrow>
         (if collected then Some (None, s)
          else do {
            s \<leftarrow> gc_collect del globals stacks s;
            alloc_search del globals stacks n_blocks True n_free s }) }"
  by pat_completeness auto
termination by (relation "measure (\<lambda>(d, g, st, n, c, f, s). if c then 0 else 1)") auto

declare alloc_search.simps [simp del]

subsection \<open>Allocation\<close>

definition alloc_found :: "nat \<Rightarrow> bool \<Rightarrow> nat \<Rightarrow> nat \<Rightarrow> gc \<Rightarrow> (u32 \<times> gc) option" where
  "alloc_found n_blocks has_finaliser i n_free s =
     (let end_block = of_nat i :: u32;
          start_block = of_nat i - of_nat n_free + 1 :: u32;
          s = (if n_free = 1 then s\<lparr>gc_last_free_atb_index := (i + 1) div 4\<rparr> else s)
      in do {
        s \<leftarrow> ATB_FREE_TO_HEAD (unat start_block) s;
        s \<leftarrow> for_upto (unat (start_block + 1)) (unat end_block + 1) ATB_FREE_TO_TAIL s;
        let ret_ptr = of_nat (pool_start s) + start_block * 16;
        let s = s\<lparr>gc_alloc_amount := gc_alloc_amount s + of_nat n_blocks\<rparr>;
        p \<leftarrow> blit (pool s) (4 * unat start_block) (replicate (4 * unat (end_block - start_block + 1)) 0);
        let s = s\<lparr>pool := p\<rparr>;
        s \<leftarrow> (if has_finaliser then do {
                p \<leftarrow> wr (pool s) (4 * unat start_block) 0;
                FTB_SET (unat start_block) (s\<lparr>pool := p\<rparr>) }
              else Some s);
        Some (ret_ptr, s) })"

definition gc_alloc :: "(nat \<Rightarrow> gc \<Rightarrow> gc option) \<Rightarrow> u32 list \<Rightarrow> u32 list list \<Rightarrow> u32 \<Rightarrow> bool \<Rightarrow> gc
    \<Rightarrow> (u32 \<times> gc) option" where
  "gc_alloc del globals stacks n_bytes has_finaliser s =
     (let n_blocks = unat (((n_bytes + 16 - 1) AND NOT 15) div 16)
      in if n_blocks = 0 then Some (0, s)
         else if gc_lock_depth s > 0 then Some (0, s)
         else let collected = \<not> gc_auto_collect_enabled s in do {
           s \<leftarrow> (if \<not> collected \<and> gc_alloc_amount s \<ge> gc_alloc_threshold s
                 then gc_collect del globals stacks s else Some s);
           (found, s) \<leftarrow> alloc_search del globals stacks n_blocks collected 0 s;
           case found of
             None \<Rightarrow> Some (0, s)
           | Some (i, n_free) \<Rightarrow> alloc_found n_blocks has_finaliser i n_free s })"

subsection \<open>Freeing\<close>

partial_function (option) free_chain :: "nat \<Rightarrow> gc \<Rightarrow> gc option" where
  "free_chain block s = do {
     s \<leftarrow> ATB_ANY_TO_FREE block s;
     k \<leftarrow> ATB_GET_KIND s (block + 1);
     if k = AT_TAIL then free_chain (block + 1) s else Some s }"

declare free_chain.simps [code]

definition gc_free :: "u32 \<Rightarrow> gc \<Rightarrow> gc option" where
  "gc_free ptr s =
     (if gc_lock_depth s > 0 then Some s
      else if ptr = 0 then Some s
      else if \<not> VERIFY_PTR s ptr then None
      else let block = BLOCK_FROM_PTR s ptr in do {
        k \<leftarrow> ATB_GET_KIND s block;
        if k \<noteq> AT_HEAD then None else do {
          s \<leftarrow> FTB_CLEAR block s;
          let s = (if block div 4 < gc_last_free_atb_index s
                   then s\<lparr>gc_last_free_atb_index := block div 4\<rparr> else s);
          free_chain block s } })"

definition gc_nbytes :: "u32 \<Rightarrow> gc \<Rightarrow> nat option" where
  "gc_nbytes ptr s =
     (if VERIFY_PTR s ptr then
        let block = BLOCK_FROM_PTR s ptr in do {
          k \<leftarrow> ATB_GET_KIND s block;
          if k = AT_HEAD then do { n_blocks \<leftarrow> chain_blocks s block 1; Some (n_blocks * 16) } else Some 0 }
      else Some 0)"

subsection \<open>Reallocation\<close>

fun count_blocks :: "gc \<Rightarrow> nat \<Rightarrow> nat list \<Rightarrow> nat \<Rightarrow> nat \<Rightarrow> (nat \<times> nat) option" where
  "count_blocks s new_blocks [] n_blocks n_free = Some (n_blocks, n_free)"
| "count_blocks s new_blocks (bl # bls) n_blocks n_free = do {
     block_type \<leftarrow> ATB_GET_KIND s bl;
     if block_type = AT_TAIL then count_blocks s new_blocks bls (n_blocks + 1) n_free
     else if block_type = AT_FREE then
       (if n_blocks + (n_free + 1) \<ge> new_blocks then Some (n_blocks, n_free + 1)
        else count_blocks s new_blocks bls n_blocks (n_free + 1))
     else Some (n_blocks, n_free) }"

definition realloc_shrink :: "nat \<Rightarrow> nat \<Rightarrow> nat \<Rightarrow> gc \<Rightarrow> gc option" where
  "realloc_shrink block new_blocks n_blocks s = do {
     s \<leftarrow> for_upto (block + new_blocks) (block + new_blocks + (n_blocks - new_blocks)) ATB_ANY_TO_FREE s;
     Some (if (block + new_blocks) div 4 < gc_last_free_atb_index s
           then s\<lparr>gc_last_free_atb_index := (block + new_blocks) div 4\<rparr> else s) }"

definition realloc_expand :: "nat \<Rightarrow> nat \<Rightarrow> nat \<Rightarrow> gc \<Rightarrow> gc option" where
  "realloc_expand block new_blocks n_blocks s = do {
     s \<leftarrow> for_upto (block + n_blocks) (block + new_blocks) (\<lambda>bl s. do {
            k \<leftarrow> ATB_GET_KIND s bl;
            if k = AT_FREE then ATB_FREE_TO_TAIL bl s else None }) s;
     p \<leftarrow> blit (pool s) (4 * (block + n_blocks)) (replicate (4 * (new_blocks - n_blocks)) 0);
     Some (s\<lparr>pool := p\<rparr>) }"

definition gc_realloc :: "(nat \<Rightarrow> gc \<Rightarrow> gc option) \<Rightarrow> u32 list \<Rightarrow> u32 list list \<Rightarrow> u32 \<Rightarrow> u32 \<Rightarrow> bool \<Rightarrow> gc
    \<Rightarrow> (u32 \<times> gc) option" where
  "gc_realloc del globals stacks ptr_in n_bytes allow_move s =
     (if ptr_in = 0 then gc_alloc del globals stacks n_bytes False s
      else if n_bytes = 0 then do { s \<leftarrow> gc_free ptr_in s; Some (0, s) }
      else if \<not> VERIFY_PTR s ptr_in then Some (0, s)
      else let block = BLOCK_FROM_PTR s ptr_in in do {
        k \<leftarrow> ATB_GET_KIND s block;
        if k \<noteq> AT_HEAD then Some (0, s)
        else if gc_lock_depth s > 0 then Some (0, s)
        else let new_blocks = unat ((n_bytes + 16 - 1) div 16);
                 max_block = num_blocks s in do {
          (n_blocks, n_free) \<leftarrow> count_blocks s new_blocks [block + 1 ..< max_block] 1 0;
          if new_blocks = n_blocks then Some (ptr_in, s)
          else if new_blocks < n_blocks then do {
            s \<leftarrow> realloc_shrink block new_blocks n_blocks s; Some (ptr_in, s) }
          else if new_blocks \<le> n_blocks + n_free then do {
            s \<leftarrow> realloc_expand block new_blocks n_blocks s; Some (ptr_in, s) }
          else do {
            ftb_state \<leftarrow> FTB_GET s block;
            if \<not> allow_move then Some (0, s)
            else do {
              (ptr_out, s) \<leftarrow> gc_alloc del globals stacks n_bytes ftb_state s;
              if ptr_out = 0 then Some (0, s)
              else do {
                old \<leftarrow> slice (pool s) (4 * block) (4 * n_blocks);
                p \<leftarrow> blit (pool s) (4 * BLOCK_FROM_PTR s ptr_out) old;
                s \<leftarrow> gc_free ptr_in (s\<lparr>pool := p\<rparr>);
                Some (ptr_out, s) } } } } })"

subsection \<open>The search is a search block by block\<close>

text \<open>The reference: a run of \<open>n_blocks\<close> free blocks in a sequence of blocks.\<close>

fun find_run :: "(nat \<Rightarrow> bool) \<Rightarrow> nat \<Rightarrow> nat list \<Rightarrow> nat \<Rightarrow> (nat \<times> nat) + nat" where
  "find_run f n_blocks [] n_free = Inr n_free"
| "find_run f n_blocks (b # bs) n_free =
     (if f b then (if n_free + 1 \<ge> n_blocks then Inl (b, n_free + 1) else find_run f n_blocks bs (n_free + 1))
      else find_run f n_blocks bs 0)"

lemma two_bits_free: "drop_bit n a AND 3 = 0 \<longleftrightarrow> a AND push_bit n 3 = (0 :: u8)"
proof -
  have "drop_bit n a AND 3 = 0 \<longleftrightarrow> (\<forall>i. \<not> bit (drop_bit n a AND 3) i)"
    by (metis bit_0_eq bit_word_eqI bot_apply bot_bool_def)
  then have "drop_bit n a AND 3 = 0 \<longleftrightarrow> (\<forall>i < 2. \<not> bit a (n + i))"
    by (auto simp: bit_3_u8 bit_drop_bit_eq)
  moreover have "a AND push_bit n 3 = 0 \<longleftrightarrow> (\<forall>i < 2. \<not> bit a (n + i))"
  proof
    assume e: "a AND push_bit n 3 = 0"
    show "\<forall>i < 2. \<not> bit a (n + i)"
    proof (intro allI impI notI)
      fix i :: nat assume "i < 2" and b: "bit a (n + i)"
      then have "bit (a AND push_bit n 3) (n + i)"
        using bit_imp_le_length [OF b]
        by (simp add: bit_and_iff bit_push_bit_iff bit_3 del: bit_numeral_word_iff)
      then show False using e by simp
    qed
  next
    assume "\<forall>i < 2. \<not> bit a (n + i)"
    then show "a AND push_bit n 3 = 0"
      by (intro bit_word_eqI)
        (auto simp: bit_and_iff bit_push_bit_iff bit_3 simp del: bit_numeral_word_iff dest: le_Suc_ex)
  qed
  ultimately show ?thesis by simp
qed

lemma atb_is_free:
  "ATB_0_IS_FREE (gtab s ! i) \<longleftrightarrow> kind s (i * 4) = AT_FREE"
  "ATB_1_IS_FREE (gtab s ! i) \<longleftrightarrow> kind s (Suc (i * 4)) = AT_FREE"
  "ATB_2_IS_FREE (gtab s ! i) \<longleftrightarrow> kind s (Suc (Suc (i * 4))) = AT_FREE"
  "ATB_3_IS_FREE (gtab s ! i) \<longleftrightarrow> kind s (Suc (Suc (Suc (i * 4)))) = AT_FREE"
proof -
  have d: "Suc (i * 4) div 4 = i" "Suc (Suc (i * 4)) div 4 = i" "Suc (Suc (Suc (i * 4))) div 4 = i"
    "Suc (i * 4) mod 4 = 1" "Suc (Suc (i * 4)) mod 4 = 2" "Suc (Suc (Suc (i * 4))) mod 4 = 3"
    by presburger+
  show "ATB_0_IS_FREE (gtab s ! i) \<longleftrightarrow> kind s (i * 4) = AT_FREE"
    "ATB_1_IS_FREE (gtab s ! i) \<longleftrightarrow> kind s (Suc (i * 4)) = AT_FREE"
    "ATB_2_IS_FREE (gtab s ! i) \<longleftrightarrow> kind s (Suc (Suc (i * 4))) = AT_FREE"
    "ATB_3_IS_FREE (gtab s ! i) \<longleftrightarrow> kind s (Suc (Suc (Suc (i * 4)))) = AT_FREE"
    using two_bits_free [of 0 "gtab s ! i"] two_bits_free [of 2 "gtab s ! i"]
      two_bits_free [of 4 "gtab s ! i"] two_bits_free [of 6 "gtab s ! i"]
    by (simp_all add: ATB_0_IS_FREE_def ATB_1_IS_FREE_def ATB_2_IS_FREE_def ATB_3_IS_FREE_def kind_def AT_FREE_def
        BLOCK_SHIFT_def d)
qed

lemma scan_byte_blocks:
  "find_run (\<lambda>b. kind s b = AT_FREE) n_blocks (4 * i # Suc (4 * i) # Suc (Suc (4 * i)) # Suc (Suc (Suc (4 * i))) # bs) n_free
   = (case scan_byte n_blocks i (gtab s ! i) n_free of
        Inl found \<Rightarrow> Inl found | Inr n \<Rightarrow> find_run (\<lambda>b. kind s b = AT_FREE) n_blocks bs n)"
  by (simp add: scan_byte_def scan_test_def atb_is_free mult.commute)

lemma scan_table_blocks:
  "hi \<le> length (gtab s) \<Longrightarrow> scan_table s n_blocks [lo..<hi] n_free
    = Some (find_run (\<lambda>b. kind s b = AT_FREE) n_blocks [4 * lo..<4 * hi] n_free)"
proof (induction "hi - lo" arbitrary: lo n_free)
  case 0
  then show ?case by simp
next
  case (Suc k)
  then have lo: "lo < hi" by simp
  have up: "[4 * lo..<4 * hi] = 4 * lo # Suc (4 * lo) # Suc (Suc (4 * lo)) # Suc (Suc (Suc (4 * lo))) # [4 * Suc lo..<4 * hi]"
  proof -
    have e: "Suc (Suc (Suc (Suc (4 * lo)))) = 4 * Suc lo" by simp
    have "4 * lo < 4 * hi" "Suc (4 * lo) < 4 * hi" "Suc (Suc (4 * lo)) < 4 * hi" "Suc (Suc (Suc (4 * lo))) < 4 * hi"
      using lo by simp_all
    then show ?thesis by (simp only: upt_conv_Cons e)
  qed
  have "scan_table s n_blocks [Suc lo..<hi] n = Some (find_run (\<lambda>b. kind s b = AT_FREE) n_blocks [4 * Suc lo..<4 * hi] n)" for n
    using Suc by (intro Suc.hyps(1)) auto
  then show ?case
    using lo Suc.prems unfolding up scan_byte_blocks
    by (simp add: upt_conv_Cons rd_in split: sum.split)
qed

text \<open>
  The search of \<open>gc_alloc\<close> is a search block by block.  The code reads the allocation table a
  byte at a time and tests its four pairs of bits with masks, unrolled; from every start index and
  with every initial count this gives what the plain search over the blocks gives, the same last
  block and the same count, or the same count of free blocks at the end.
\<close>

theorem search_by_bytes:
  assumes "gtab_ok s"
  shows "scan_table s n_blocks [lo ..< atb_len s] n_free
    = Some (find_run (\<lambda>b. kind s b = AT_FREE) n_blocks [4 * lo ..< num_blocks s] n_free)"
  using scan_table_blocks [of "atb_len s" s n_blocks lo n_free] assms by (simp add: gtab_ok_def num_blocks_def)

theorem search_by_bytes_witness:
  "gtab_ok small_heap \<and> scan_table small_heap 1 [0 ..< atb_len small_heap] 0
    = Some (find_run (\<lambda>b. kind small_heap b = AT_FREE) 1 [0 ..< 4] 0)"
  using search_by_bytes [OF small_heap_ok(1), of 1 0 0] small_heap_ok(1) by (simp add: small_heap_kinds(6))

text \<open>What the reference finds.\<close>

lemma find_run_found:
  assumes "find_run f n [lo..<hi] m = Inl (e, r)" and "0 < n" and "m < n" and "m \<le> lo" and "\<forall>c. lo - m \<le> c \<and> c < lo \<longrightarrow> f c"
  shows "r = n \<and> e < hi \<and> lo \<le> e \<and> n \<le> e + 1 \<and> lo - m \<le> e + 1 - n \<and> (\<forall>c. e + 1 - n \<le> c \<and> c \<le> e \<longrightarrow> f c)
    \<and> (\<forall>c. lo - m \<le> c \<and> c + n \<le> e \<longrightarrow> (\<exists>d. c \<le> d \<and> d < c + n \<and> \<not> f d))"
  using assms
proof (induction "hi - lo" arbitrary: lo m)
  case 0
  then show ?case by simp
next
  case (Suc k)
  then have lo: "lo < hi" by simp
  show ?case
  proof (cases "f lo")
    case False
    then have r: "find_run f n [Suc lo..<hi] 0 = Inl (e, r)"
      using Suc.prems(1) lo by (simp add: upt_conv_Cons)
    have I: "r = n \<and> e < hi \<and> Suc lo \<le> e \<and> n \<le> e + 1 \<and> Suc lo - 0 \<le> e + 1 - n \<and> (\<forall>c. e + 1 - n \<le> c \<and> c \<le> e \<longrightarrow> f c)
      \<and> (\<forall>c. Suc lo - 0 \<le> c \<and> c + n \<le> e \<longrightarrow> (\<exists>d. c \<le> d \<and> d < c + n \<and> \<not> f d))"
      using Suc.hyps(2) Suc.prems(2) by (intro Suc.hyps(1) [OF _ r]) auto
    have "\<exists>d. c \<le> d \<and> d < c + n \<and> \<not> f d" if "lo - m \<le> c" "c + n \<le> e" for c
    proof (cases "c \<le> lo")
      case True
      then show ?thesis using that Suc.prems(3) False by (intro exI [of _ lo]) auto
    qed (use I that in auto)
    then show ?thesis using I by auto
  next
    case True
    show ?thesis
    proof (cases "n \<le> Suc m")
      case True
      then have "e = lo" "r = n" using Suc.prems(1,3) \<open>f lo\<close> lo by (auto simp: upt_conv_Cons)
      moreover have "n = Suc m" using True Suc.prems(3) by simp
      ultimately show ?thesis using Suc.prems \<open>f lo\<close> lo by (auto simp: nat_less_le)
    next
      case False
      then have r: "find_run f n [Suc lo..<hi] (Suc m) = Inl (e, r)"
        using Suc.prems(1) \<open>f lo\<close> lo by (simp add: upt_conv_Cons)
      have I: "r = n \<and> e < hi \<and> Suc lo \<le> e \<and> n \<le> e + 1 \<and> Suc lo - Suc m \<le> e + 1 - n \<and> (\<forall>c. e + 1 - n \<le> c \<and> c \<le> e \<longrightarrow> f c)
        \<and> (\<forall>c. Suc lo - Suc m \<le> c \<and> c + n \<le> e \<longrightarrow> (\<exists>d. c \<le> d \<and> d < c + n \<and> \<not> f d))"
        using Suc.hyps(2) Suc.prems(2,4,5) False \<open>f lo\<close>
        by (intro Suc.hyps(1) [OF _ r]) (auto simp: less_Suc_eq)
      then show ?thesis by auto
    qed
  qed
qed

lemma find_run_none:
  assumes "find_run f n [lo..<hi] m = Inr r" and "0 < n" and "m < n" and "m \<le> lo" and "\<forall>c. lo - m \<le> c \<and> c < lo \<longrightarrow> f c"
    and "lo \<le> hi"
  shows "r < n \<and> r \<le> hi \<and> (\<forall>c. hi - r \<le> c \<and> c < hi \<longrightarrow> f c)
    \<and> (\<forall>c. lo - m \<le> c \<and> c + n \<le> hi \<longrightarrow> (\<exists>d. c \<le> d \<and> d < c + n \<and> \<not> f d))"
  using assms
proof (induction "hi - lo" arbitrary: lo m)
  case 0
  then show ?case by auto
next
  case (Suc k)
  then have lo: "lo < hi" by simp
  show ?case
  proof (cases "f lo")
    case False
    then have r: "find_run f n [Suc lo..<hi] 0 = Inr r"
      using Suc.prems(1) lo by (simp add: upt_conv_Cons)
    have I: "r < n \<and> r \<le> hi \<and> (\<forall>c. hi - r \<le> c \<and> c < hi \<longrightarrow> f c)
      \<and> (\<forall>c. Suc lo - 0 \<le> c \<and> c + n \<le> hi \<longrightarrow> (\<exists>d. c \<le> d \<and> d < c + n \<and> \<not> f d))"
      using Suc.hyps(2) Suc.prems(2) lo by (intro Suc.hyps(1) [OF _ r]) auto
    have "\<exists>d. c \<le> d \<and> d < c + n \<and> \<not> f d" if "lo - m \<le> c" "c + n \<le> hi" for c
    proof (cases "c \<le> lo")
      case True
      then show ?thesis using that Suc.prems(3) False by (intro exI [of _ lo]) auto
    qed (use I that in auto)
    then show ?thesis using I by auto
  next
    case True
    then have nm: "\<not> n \<le> Suc m" and r: "find_run f n [Suc lo..<hi] (Suc m) = Inr r"
      using Suc.prems(1) lo by (auto simp: upt_conv_Cons split: if_splits)
    have "r < n \<and> r \<le> hi \<and> (\<forall>c. hi - r \<le> c \<and> c < hi \<longrightarrow> f c)
      \<and> (\<forall>c. Suc lo - Suc m \<le> c \<and> c + n \<le> hi \<longrightarrow> (\<exists>d. c \<le> d \<and> d < c + n \<and> \<not> f d))"
      using Suc.hyps(2) Suc.prems(2,4,5) nm True lo
      by (intro Suc.hyps(1) [OF _ r]) (auto simp: less_Suc_eq)
    then show ?thesis by auto
  qed
qed

subsection \<open>Consistent heaps\<close>

definition last_free_ok :: "gc \<Rightarrow> bool" where
  "last_free_ok s \<longleftrightarrow> (\<forall>b < num_blocks s. b < 4 * gc_last_free_atb_index s \<longrightarrow> kind s b \<noteq> AT_FREE)"

text \<open>
  What every operation keeps: tables of the right size, tails behind blocks in use, no marks, and
  no free block before the byte of the table where the next search starts.
\<close>

definition heap_inv :: "gc \<Rightarrow> bool" where
  "heap_inv s \<longleftrightarrow> gtab_ok s \<and> tails_ok s \<and> marked s = {} \<and> last_free_ok s"

lemma heap_invD: "heap_inv s \<Longrightarrow> gtab_ok s" "heap_inv s \<Longrightarrow> tails_ok s" "heap_inv s \<Longrightarrow> marked s = {}"
    "heap_inv s \<Longrightarrow> last_free_ok s"
  by (simp_all add: heap_inv_def)

lemma end_guardI: "\<not> ftb s 1 \<Longrightarrow> end_guard s"
  by (simp add: end_guard_def ftb_1_guard)

text \<open>A state that differs only in the kinds of the blocks.\<close>

definition only_kinds :: "gc \<Rightarrow> gc \<Rightarrow> bool" where
  "only_kinds s s' \<longleftrightarrow> s' = s\<lparr>gtab := gtab s'\<rparr> \<and> length (gtab s') = length (gtab s) \<and> ftb s' = ftb s"

lemma only_kinds_refl [simp]: "only_kinds s s"
  by (simp add: only_kinds_def)

lemma only_kinds_set_kind: "gtab_ok s \<Longrightarrow> b < num_blocks s \<Longrightarrow> only_kinds s (set_kind b k s)"
  by (auto simp: only_kinds_def ftb_set_kind_eq) (simp_all add: set_kind_def)

lemma only_kinds_trans: "only_kinds s s1 \<Longrightarrow> only_kinds s1 s2 \<Longrightarrow> only_kinds s s2"
  unfolding only_kinds_def by (elim conjE) (metis (no_types, lifting) gc.surjective gc.update_convs(1))

lemma only_kinds_same:
  assumes "only_kinds s s'"
  shows "atb_len s' = atb_len s" "pool_start s' = pool_start s" "pool s' = pool s" "num_blocks s' = num_blocks s"
    "gtab_ok s' = gtab_ok s" "gc_last_free_atb_index s' = gc_last_free_atb_index s" "gc_lock_depth s' = gc_lock_depth s"
    "gc_auto_collect_enabled s' = gc_auto_collect_enabled s" "gc_alloc_amount s' = gc_alloc_amount s"
    "ftb s' = ftb s" "length (gtab s') = length (gtab s)"
proof -
  have e: "s' = s\<lparr>gtab := gtab s'\<rparr>" and l: "length (gtab s') = length (gtab s)" and f: "ftb s' = ftb s"
    using assms by (simp_all add: only_kinds_def)
  show "atb_len s' = atb_len s" "pool_start s' = pool_start s" "pool s' = pool s"
    "gc_last_free_atb_index s' = gc_last_free_atb_index s" "gc_lock_depth s' = gc_lock_depth s"
    "gc_auto_collect_enabled s' = gc_auto_collect_enabled s" "gc_alloc_amount s' = gc_alloc_amount s"
    by (subst e, simp)+
  then show "num_blocks s' = num_blocks s" "gtab_ok s' = gtab_ok s"
    using l by (simp_all add: num_blocks_def gtab_ok_def pool_end_def)
qed (use assms in \<open>simp_all add: only_kinds_def\<close>)

text \<open>A loop that gives the blocks of a range a new kind.\<close>

lemma set_kinds_loop:
  assumes ok: "gtab_ok s" and "hi \<le> num_blocks s" and k: "k AND 3 = k"
    and f: "\<And>b t. gtab_ok t \<Longrightarrow> lo \<le> b \<Longrightarrow> b < hi \<Longrightarrow> hi \<le> num_blocks t \<Longrightarrow> kind t b = kind s b \<Longrightarrow> f b t = Some (set_kind b k t)"
  shows "\<exists>s'. for_upto lo hi f s = Some s' \<and> only_kinds s s'
    \<and> (\<forall>b < num_blocks s. kind s' b = (if lo \<le> b \<and> b < hi then k else kind s b))"
proof (cases "lo \<le> hi")
  case True
  let ?I = "\<lambda>i t. only_kinds s t \<and> (\<forall>b < num_blocks s. kind t b = (if lo \<le> b \<and> b < i then k else kind s b))"
  show ?thesis
  proof (rule for_upto_rule [where P = ?I, OF True])
    fix i t assume i: "lo \<le> i" "i < hi" and I: "?I i t"
    have t: "gtab_ok t" "num_blocks t = num_blocks s" using only_kinds_same [of s t] I ok by simp_all
    have "f i t = Some (set_kind i k t)"
      using f [OF t(1) i] I assms(2) t(2) i by auto
    moreover have "?I (Suc i) (set_kind i k t)"
    proof
      have ib: "i < num_blocks t" using i assms(2) t(2) by simp
      show "only_kinds s (set_kind i k t)"
        using I only_kinds_set_kind [OF t(1) ib] only_kinds_trans by blast
      show "\<forall>b < num_blocks s. kind (set_kind i k t) b = (if lo \<le> b \<and> b < Suc i then k else kind s b)"
        using I i table_byte [OF t(1) ib] by (auto simp: kind_set_kind [OF k])
    qed
    ultimately show "\<exists>t'. f i t = Some t' \<and> ?I (Suc i) t'" by blast
  qed auto
next
  case False
  then show ?thesis by auto
qed

text \<open>A new object: \<open>n\<close> free blocks become a chain, its words are cleared.\<close>

definition new_object :: "gc \<Rightarrow> nat \<Rightarrow> nat \<Rightarrow> gc \<Rightarrow> bool" where
  "new_object s b n s' \<longleftrightarrow> b + n \<le> num_blocks s \<and> (\<forall>c. b \<le> c \<and> c < b + n \<longrightarrow> kind s c = AT_FREE)
     \<and> (\<forall>c < num_blocks s. kind s' c = (if c = b then AT_HEAD else if b < c \<and> c < b + n then AT_TAIL else kind s c))
     \<and> length (pool s') = length (pool s)
     \<and> (\<forall>i < length (pool s). pool s' ! i = (if 4 * b \<le> i \<and> i < 4 * (b + n) then 0 else pool s ! i))"

text \<open>Updates of the state that leave the tables alone.\<close>

lemma update_same [simp]:
  "kind (s\<lparr>pool := p\<rparr>) = kind s" "kind (s\<lparr>gc_last_free_atb_index := i\<rparr>) = kind s" "kind (s\<lparr>gc_alloc_amount := a\<rparr>) = kind s"
  "ftb (s\<lparr>pool := p\<rparr>) = ftb s" "ftb (s\<lparr>gc_last_free_atb_index := i\<rparr>) = ftb s" "ftb (s\<lparr>gc_alloc_amount := a\<rparr>) = ftb s"
  "num_blocks (s\<lparr>pool := p\<rparr>) = num_blocks s" "num_blocks (s\<lparr>gc_last_free_atb_index := i\<rparr>) = num_blocks s"
  "num_blocks (s\<lparr>gc_alloc_amount := a\<rparr>) = num_blocks s"
  "gtab_ok (s\<lparr>gc_last_free_atb_index := i\<rparr>) = gtab_ok s" "gtab_ok (s\<lparr>gc_alloc_amount := a\<rparr>) = gtab_ok s"
  by (auto simp: fun_eq_iff kind_def ftb_def num_blocks_def gtab_ok_def pool_end_def)

lemma gtab_ok_pool [simp]: "length p = length (pool s) \<Longrightarrow> gtab_ok (s\<lparr>pool := p\<rparr>) = gtab_ok s"
  by (simp add: gtab_ok_def num_blocks_def pool_end_def)

lemma unat_block:
  assumes "gtab_ok s" and "b \<le> num_blocks s"
  shows "unat (of_nat b :: u32) = b"
  using assms by (auto simp: unat_of_nat gtab_ok_def pool_end_def)

lemma start_block_word:
  assumes "gtab_ok s" and "e < num_blocks s" and "n \<le> e + 1"
  shows "(of_nat e - of_nat n + 1 :: u32) = of_nat (e + 1 - n)"
  using assms(3) by (simp add: of_nat_diff)

lemma blit_zero:
  assumes "lo + k \<le> length p"
  shows "\<exists>q. blit p lo (replicate k 0) = Some q \<and> length q = length p
    \<and> (\<forall>i < length p. q ! i = (if lo \<le> i \<and> i < lo + k then 0 else p ! i))"
  using assms by (auto simp: blit_def nth_append min_def)

lemma alloc_found_run:
  assumes ok: "gtab_ok s" and e: "e < num_blocks s" and n: "0 < n" "n \<le> e + 1"
    and free: "\<forall>c. e + 1 - n \<le> c \<and> c \<le> e \<longrightarrow> kind s c = AT_FREE"
  shows "\<exists>s'. alloc_found n fin e n s = Some (of_nat (pool_start s + 16 * (e + 1 - n)), s')
    \<and> gtab_ok s' \<and> new_object s (e + 1 - n) n s' \<and> atb_len s' = atb_len s \<and> pool_start s' = pool_start s
    \<and> gc_lock_depth s' = gc_lock_depth s \<and> gc_auto_collect_enabled s' = gc_auto_collect_enabled s
    \<and> gc_last_free_atb_index s' = (if n = 1 then (e + 1) div 4 else gc_last_free_atb_index s)
    \<and> ftb s' = (ftb s)(e + 1 - n := fin \<or> ftb s (e + 1 - n))"
proof -
  define b where "b = e + 1 - n"
  have b: "b < num_blocks s" "b + n = e + 1" using e n by (auto simp: b_def)
  have w: "(of_nat e - of_nat n + 1 :: u32) = of_nat b"
    using start_block_word [OF ok e n(2)] by (simp add: b_def)
  have wb: "unat (of_nat b :: u32) = b" "unat (of_nat e :: u32) = e" "unat (of_nat b + 1 :: u32) = b + 1"
    using unat_block [OF ok, of b] unat_block [OF ok, of e] unat_block [OF ok, of "b + 1"] b e by (simp_all add: add.commute)
  have wn: "unat (of_nat e - of_nat b + 1 :: u32) = n"
  proof -
    have "(of_nat e - of_nat b + 1 :: u32) = of_nat n"
    proof -
      have "of_nat (b + n) = (of_nat (e + 1) :: u32)" by (simp only: b(2))
      then have "of_nat b + of_nat n = (of_nat e + 1 :: u32)" by (simp add: add.commute)
      then show ?thesis by (simp add: algebra_simps)
    qed
    then show ?thesis using unat_block [OF ok, of n] b e by simp
  qed
  define s1 where "s1 = (if n = 1 then s\<lparr>gc_last_free_atb_index := (e + 1) div 4\<rparr> else s)"
  have s1: "gtab_ok s1" "num_blocks s1 = num_blocks s" "kind s1 = kind s" "ftb s1 = ftb s" "pool s1 = pool s"
      "gtab s1 = gtab s" "atb_len s1 = atb_len s" "pool_start s1 = pool_start s" "gc_lock_depth s1 = gc_lock_depth s"
      "gc_auto_collect_enabled s1 = gc_auto_collect_enabled s"
      "gc_last_free_atb_index s1 = (if n = 1 then (e + 1) div 4 else gc_last_free_atb_index s)"
    using ok by (auto simp: s1_def)
  have h: "ATB_FREE_TO_HEAD b s1 = Some (set_kind b AT_HEAD s1)"
    using atb_macros(2) [OF s1(1), of b] s1 b free n by (simp add: b_def)
  let ?h = "set_kind b AT_HEAD s1"
  have okh: "gtab_ok ?h" "num_blocks ?h = num_blocks s" using s1 by (simp_all add: set_kind_same)
  have kh: "kind ?h c = (if c = b then AT_HEAD else kind s c)" for c
    using table_byte [OF s1(1), of b] b s1 by (simp add: kind_set_kind kind_and_3)
  obtain s2 where s2: "for_upto (b + 1) (e + 1) ATB_FREE_TO_TAIL ?h = Some s2" "only_kinds ?h s2"
      "\<forall>c < num_blocks s. kind s2 c = (if b + 1 \<le> c \<and> c < e + 1 then AT_TAIL else kind ?h c)"
  proof -
    have "ATB_FREE_TO_TAIL c t = Some (set_kind c AT_TAIL t)"
      if "gtab_ok t" "b + 1 \<le> c" "c < e + 1" "e + 1 \<le> num_blocks t" "kind t c = kind ?h c" for c t
    proof (rule atb_macros(3))
      have "kind ?h c = kind s c" using that(2) by (auto simp: kh)
      moreover have "kind s c = AT_FREE" using that(2,3) free by (auto simp: b_def)
      ultimately have "kind ?h c = AT_FREE" by simp
      then show "kind t c = AT_FREE" using that(5) by simp
    qed (use that in auto)
    then show ?thesis
      using set_kinds_loop [OF okh(1), of "e + 1" AT_TAIL "b + 1" ATB_FREE_TO_TAIL] okh(2) e kind_and_3(4) that by auto
  qed
  have same2: "gtab_ok s2" "num_blocks s2 = num_blocks s" "pool s2 = pool s" "ftb s2 = ftb s" "atb_len s2 = atb_len s"
      "pool_start s2 = pool_start s" "gc_lock_depth s2 = gc_lock_depth s"
      "gc_auto_collect_enabled s2 = gc_auto_collect_enabled s"
      "gc_last_free_atb_index s2 = (if n = 1 then (e + 1) div 4 else gc_last_free_atb_index s)"
  proof -
    have "ftb ?h = ftb s" using ftb_set_kind_eq [OF s1(1), of b] b s1 by (intro ext) simp
    then show "ftb s2 = ftb s" using only_kinds_same(10) [OF s2(2)] by simp
  qed (use only_kinds_same [OF s2(2)] okh s1 in \<open>simp_all only: set_kind_same\<close>)
  have l: "length (pool s) = 4 * num_blocks s" using ok by (simp add: gtab_ok_def)
  obtain q where q: "blit (pool s) (4 * b) (replicate (4 * n) 0) = Some q" "length q = length (pool s)"
      "\<forall>i < length (pool s). q ! i = (if 4 * b \<le> i \<and> i < 4 * b + 4 * n then 0 else pool s ! i)"
    using blit_zero [of "4 * b" "4 * n" "pool s"] l b e by auto
  define s3 where "s3 = s2\<lparr>gc_alloc_amount := gc_alloc_amount s2 + of_nat n, pool := q\<rparr>"
  have s3: "gtab_ok s3" "num_blocks s3 = num_blocks s" "kind s3 = kind s2" "ftb s3 = ftb s"
    using same2 q(2) by (auto simp: s3_def)
  have q0: "q[4 * b := 0] = q" using q(3) l b n by (intro list_update_same_conv [THEN iffD2]) (auto simp: q(2))
  define s4 where "s4 = (if fin then set_ftb b True s3 else s3)"
  have pa: "pool (s2\<lparr>gc_alloc_amount := x\<rparr>) = pool s" for x by (simp add: same2)
  have fin: "(if fin then do { p \<leftarrow> wr (pool s3) (4 * b) 0; FTB_SET b (s3\<lparr>pool := p\<rparr>) } else Some s3) = Some s4"
  proof -
    have "wr (pool s3) (4 * b) 0 = Some q" using q(2) q0 l b n by (simp add: s3_def wr_in)
    moreover have "s3\<lparr>pool := q\<rparr> = s3" by (simp add: s3_def)
    ultimately show ?thesis using ftb_macros(1) [OF s3(1), of b] b s3 by (simp add: s4_def)
  qed
  have "of_nat (pool_start s) + of_nat b * 16 = (of_nat (pool_start s + 16 * b) :: u32)" by simp
  then have "alloc_found n fin e n s = Some (of_nat (pool_start s + 16 * b), s4)"
    unfolding alloc_found_def Let_def w wb wn s1_def [symmetric] h bind.simps s2(1) pa q(1) s3_def [symmetric] fin
    by (simp only: same2)
  moreover have "new_object s b n s4"
  proof -
    have "kind s4 c = kind s2 c" if "c < num_blocks s" for c
      using that s3 by (simp add: s4_def kind_set_ftb)
    then have "\<forall>c < num_blocks s. kind s4 c = (if c = b then AT_HEAD else if b < c \<and> c < b + n then AT_TAIL else kind s c)"
      using s2(3) b n kh by auto
    moreover have "pool s4 = q" by (simp add: s4_def s3_def set_ftb_same)
    ultimately show ?thesis
      using q(2,3) b e free n l unfolding new_object_def by (auto simp: b_def)
  qed
  moreover have "gtab_ok s4" "atb_len s4 = atb_len s" "pool_start s4 = pool_start s"
    "gc_lock_depth s4 = gc_lock_depth s" "gc_auto_collect_enabled s4 = gc_auto_collect_enabled s"
    "gc_last_free_atb_index s4 = (if n = 1 then (e + 1) div 4 else gc_last_free_atb_index s)"
    using s3 same2 by (auto simp: s4_def set_ftb_same) (auto simp: s3_def)
  moreover have "ftb s4 = (ftb s)(b := fin \<or> ftb s b)"
    using ftb_set_ftb [OF s3(1), of b True] b s3 by (auto simp: s4_def fun_eq_iff)
  ultimately show ?thesis by (fold b_def) blast
qed

lemma new_object_tails:
  assumes "tails_ok s" and "new_object s b n s'" and "num_blocks s' = num_blocks s"
  shows "tails_ok s'"
  unfolding tails_ok_def
proof (intro allI impI)
  fix c assume c: "c < num_blocks s'" and t: "kind s' c = AT_TAIL"
  have k: "kind s' d = (if d = b then AT_HEAD else if b < d \<and> d < b + n then AT_TAIL else kind s d)" if "d < num_blocks s" for d
    using assms(2) that by (simp add: new_object_def)
  show "0 < c \<and> kind s' (c - 1) \<noteq> AT_FREE"
  proof (cases "b < c \<and> c < b + n")
    case True
    then show ?thesis using k [of "c - 1"] c assms(3) by auto
  next
    case False
    then have "kind s c = AT_TAIL" using t k [of c] c assms(3) by (auto split: if_splits)
    then have "0 < c" "kind s (c - 1) \<noteq> AT_FREE" using assms(1,3) c by (auto simp: tails_ok_def)
    then show ?thesis using k [of "c - 1"] c assms(3) by auto
  qed
qed

lemma new_object_marked:
  assumes "marked s = {}" and "new_object s b n s'" and "num_blocks s' = num_blocks s"
  shows "marked s' = {}"
proof -
  have "kind s' c \<noteq> AT_MARK" if "c < num_blocks s" for c
  proof -
    have "kind s c \<noteq> AT_MARK" using assms(1) that by (auto simp: marked_def)
    then show ?thesis using assms(2) that by (simp add: new_object_def)
  qed
  then show ?thesis using assms(3) by (simp add: marked_def)
qed

text \<open>A run of free blocks.\<close>

definition free_run :: "gc \<Rightarrow> nat \<Rightarrow> nat \<Rightarrow> bool" where
  "free_run s b n \<longleftrightarrow> b + n \<le> num_blocks s \<and> (\<forall>c. b \<le> c \<and> c < b + n \<longrightarrow> kind s c = AT_FREE)"

lemma scan_run:
  assumes "heap_inv s" and "0 < n" and m: "m = 0 \<or> gc_last_free_atb_index s = 0 \<and> kind s 0 \<noteq> AT_FREE"
  obtains (found) e where "scan_table s n [gc_last_free_atb_index s ..< atb_len s] m = Some (Inl (e, n))"
      "e < num_blocks s" "n \<le> e + 1" "\<forall>c. e + 1 - n \<le> c \<and> c \<le> e \<longrightarrow> kind s c = AT_FREE"
      "n = 1 \<longrightarrow> (\<forall>c < e. kind s c \<noteq> AT_FREE)"
  | (none) r where "scan_table s n [gc_last_free_atb_index s ..< atb_len s] m = Some (Inr r)" "\<forall>b. \<not> free_run s b n"
      "r < n"
proof -
  let ?f = "\<lambda>b. kind s b = AT_FREE" and ?lo = "4 * gc_last_free_atb_index s" and ?hi = "4 * atb_len s"
  have g: "gtab_ok s" and lf: "\<And>b. b < num_blocks s \<Longrightarrow> b < ?lo \<Longrightarrow> kind s b \<noteq> AT_FREE"
    using assms(1) by (auto simp: heap_inv_def last_free_ok_def)
  have nb: "?hi = num_blocks s" "0 < num_blocks s" using g by (simp_all add: num_blocks_def gtab_ok_def)
  have m0: "find_run ?f n [?lo..<?hi] m = find_run ?f n [?lo..<?hi] 0"
    using m nb by (auto simp: upt_conv_Cons)
  have sc: "scan_table s n [gc_last_free_atb_index s ..< atb_len s] m = Some (find_run ?f n [?lo..<?hi] 0)"
    using scan_table_blocks [of "atb_len s" s n "gc_last_free_atb_index s" m] g m0 by (simp add: gtab_ok_def)
  show thesis
  proof (cases "find_run ?f n [?lo..<?hi] 0")
    case (Inl er)
    obtain e r where er: "er = (e, r)" by (cases er)
    have F: "r = n \<and> e < ?hi \<and> ?lo \<le> e \<and> n \<le> e + 1 \<and> ?lo - 0 \<le> e + 1 - n \<and> (\<forall>c. e + 1 - n \<le> c \<and> c \<le> e \<longrightarrow> ?f c)
      \<and> (\<forall>c. ?lo - 0 \<le> c \<and> c + n \<le> e \<longrightarrow> (\<exists>d. c \<le> d \<and> d < c + n \<and> \<not> ?f d))"
      using Inl assms(2) unfolding er by (intro find_run_found) auto
    have one: "\<forall>c < e. kind s c \<noteq> AT_FREE" if "n = 1"
    proof (intro allI impI)
      fix c assume "c < e"
      show "kind s c \<noteq> AT_FREE"
      proof (cases "c < ?lo")
        case True
        then show ?thesis using lf [of c] F \<open>c < e\<close> nb by simp
      next
        case False
        then have "\<exists>d. c \<le> d \<and> d < c + n \<and> \<not> ?f d" using F \<open>c < e\<close> that by auto
        then show ?thesis using that by (auto simp: less_Suc_eq_le dest!: antisym)
      qed
    qed
    show ?thesis
      using F one sc Inl nb by (intro found [of e]) (auto simp: er)
  next
    case (Inr r)
    have "r < n \<and> (\<forall>b. \<not> free_run s b n)"
    proof (cases "?lo \<le> ?hi")
      case True
      have F: "r < n \<and> r \<le> ?hi \<and> (\<forall>c. ?hi - r \<le> c \<and> c < ?hi \<longrightarrow> ?f c)
        \<and> (\<forall>c. ?lo - 0 \<le> c \<and> c + n \<le> ?hi \<longrightarrow> (\<exists>d. c \<le> d \<and> d < c + n \<and> \<not> ?f d))"
        using Inr assms(2) True by (intro find_run_none) auto
      have "\<not> free_run s b n" for b
      proof
        assume r: "free_run s b n"
        then have "?lo \<le> b" using lf [of b] assms(2) by (fastforce simp: free_run_def)
        then show False using F r nb by (auto simp: free_run_def)
      qed
      then show ?thesis using F by blast
    next
      case False
      then have "\<forall>b < num_blocks s. kind s b \<noteq> AT_FREE" using lf nb by auto
      moreover have "r = 0" using Inr False by simp
      ultimately show ?thesis using assms(2) by (auto simp: free_run_def)
    qed
    then show ?thesis using sc Inr by (intro none [of r]) auto
  qed
qed

text \<open>The number of blocks of a request.\<close>

lemma request_blocks:
  assumes "unat n_bytes \<le> 0xFFFFFFF0"
  shows "unat (((n_bytes + 16 - 1) AND NOT 15) div 16 :: u32) = (unat n_bytes + 15) div 16"
proof -
  have "(x AND NOT 15) div 16 = x div 16" for x :: u32
  proof -
    have e: "(15 :: u32) = mask 4" by (simp add: mask_eq_exp_minus_1)
    have d: "y div 16 = drop_bit 4 y" for y :: u32 by (simp add: drop_bit_eq_div)
    show ?thesis unfolding e d
      by (rule bit_word_eqI) (simp only: bit_drop_bit_eq bit_and_iff bit_not_iff bit_mask_iff comp_def,
          auto dest: bit_imp_le_length)
  qed
  moreover have "unat (n_bytes + 16 - 1) = unat n_bytes + 15"
  proof -
    have "n_bytes + 16 - 1 = n_bytes + 15" by simp
    then show ?thesis using assms by (simp add: unat_word_ariths)
  qed
  ultimately show ?thesis by (simp add: unat_div)
qed

subsection \<open>Allocation, with the collections it needs\<close>

text \<open>The states that a number of collections lead to.\<close>

inductive collections :: "(nat \<Rightarrow> gc \<Rightarrow> gc option) \<Rightarrow> u32 list \<Rightarrow> u32 list list \<Rightarrow> gc \<Rightarrow> gc \<Rightarrow> bool"
  for del globals stacks where
  none: "collections del globals stacks s s"
| collect: "collections del globals stacks s s1 \<Longrightarrow> gc_collect del globals stacks s1 = Some s2 \<Longrightarrow>
    collections del globals stacks s s2"

inductive_cases collections_cases: "collections del globals stacks s s1"

text \<open>
  The first block is the head of an object that a root points to, so no collection frees it; and
  the second block has no finaliser, whose bit the code would read behind the allocation table.
\<close>

definition anchored :: "u32 list \<Rightarrow> u32 list list \<Rightarrow> gc \<Rightarrow> bool" where
  "anchored globals stacks s \<longleftrightarrow> heap_inv s \<and> \<not> ftb s 1 \<and> kind s 0 = AT_HEAD
     \<and> of_nat (pool_start s) \<in> set (globals @ concat stacks)"

lemma anchor_live:
  assumes "anchored globals stacks s"
  shows "0 \<in> live s (globals @ concat stacks)"
proof -
  have g: "gtab_ok s" and k: "kind s 0 = AT_HEAD" and r: "of_nat (pool_start s) \<in> set (globals @ concat stacks)"
    and guard: "end_guard s"
    using assms end_guardI by (auto simp: anchored_def heap_inv_def)
  have ps: "pool_start s mod 16 = 0" "pool_start s + 16 * num_blocks s \<le> 2 ^ 32" "0 < num_blocks s"
    using g by (simp_all add: gtab_ok_def pool_end_def num_blocks_def)
  have u: "unat (of_nat (pool_start s) :: u32) = pool_start s" using ps by (simp add: unat_of_nat)
  have "(of_nat (pool_start s) :: u32) AND 15 = 0"
  proof -
    have "(15 :: u32) = mask 4" by (simp add: mask_eq_exp_minus_1)
    then have "unat ((of_nat (pool_start s) :: u32) AND 15) = 0"
      using u ps(1) unat_and_mask [of "of_nat (pool_start s) :: u32" 4] by simp
    then show ?thesis by (simp add: word_eq_iff_unat)
  qed
  then have "VERIFY_PTR s (of_nat (pool_start s))" "BLOCK_FROM_PTR s (of_nat (pool_start s)) = 0"
    using u ps by (simp_all add: VERIFY_PTR_def BLOCK_FROM_PTR_def pool_end_def)
  then have "0 \<in> targets s (globals @ concat stacks)"
    using r k ps(3) by (auto simp: targets_def heads_def)
  then have "0 \<in> reach s (globals @ concat stacks)" by (rule reach.root)
  then show ?thesis using live_head [OF guard, of 0] k ps(3) by (simp add: heads_def)
qed

lemma collect_keeps:
  assumes "anchored globals stacks s" and "del_ok del"
  shows "\<exists>s'. gc_collect del globals stacks s = Some s' \<and> anchored globals stacks s' \<and> gc_last_free_atb_index s' = 0
    \<and> gc_lock_depth s' = gc_lock_depth s \<and> gc_auto_collect_enabled s' = gc_auto_collect_enabled s
    \<and> atb_len s' = atb_len s \<and> pool_start s' = pool_start s
    \<and> (\<forall>b < num_blocks s. kind s' b = (if b \<in> live s (globals @ concat stacks) then kind s b else AT_FREE))"
proof -
  have h: "gtab_ok s" "tails_ok s" "marked s = {}" "\<not> ftb s 1" using assms(1) by (simp_all add: anchored_def heap_inv_def)
  obtain s' where s': "gc_collect del globals stacks s = Some s'" "gtab_ok s'" "tails_ok s'" "marked s' = {}"
      "atb_len s' = atb_len s" "pool_start s' = pool_start s" "gc_auto_collect_enabled s' = gc_auto_collect_enabled s"
      "\<forall>b < num_blocks s. ftb s' b \<longrightarrow> ftb s b" "gc_lock_depth s' = gc_lock_depth s" "gc_last_free_atb_index s' = 0"
      "\<forall>b < num_blocks s. kind s' b = (if b \<in> live s (globals @ concat stacks) then kind s b else AT_FREE)"
    using collect_run [OF h(1) end_guardI [OF h(4)] h(2,3) assms(2), of globals stacks] by blast
  have n: "1 < num_blocks s" using h(1) by (simp add: gtab_ok_def num_blocks_def)
  have "kind s' 0 = AT_HEAD" using s'(11) n anchor_live [OF assms(1)] assms(1) by (simp add: anchored_def)
  moreover have "\<not> ftb s' 1" using s'(8) n h(4) by blast
  moreover have "last_free_ok s'" using s'(10) by (simp add: last_free_ok_def)
  ultimately have "anchored globals stacks s'" using s' assms(1) by (simp add: anchored_def heap_inv_def)
  then show ?thesis using s' by blast
qed

lemma alloc_search_run:
  assumes "anchored globals stacks s" and "del_ok del" and "0 < n"
    and "m = 0 \<or> gc_last_free_atb_index s = 0"
  shows "\<exists>r s1. alloc_search del globals stacks n collected m s = Some (r, s1)
    \<and> collections del globals stacks s s1 \<and> anchored globals stacks s1 \<and> gc_lock_depth s1 = gc_lock_depth s
    \<and> pool_start s1 = pool_start s
    \<and> (case r of
         None \<Rightarrow> (\<forall>b. \<not> free_run s1 b n) \<and> (collected \<or> (\<exists>s0. gc_collect del globals stacks s0 = Some s1))
       | Some (e, k) \<Rightarrow> k = n \<and> e < num_blocks s1 \<and> n \<le> e + 1 \<and> (\<forall>c. e + 1 - n \<le> c \<and> c \<le> e \<longrightarrow> kind s1 c = AT_FREE)
           \<and> (n = 1 \<longrightarrow> (\<forall>c < e. kind s1 c \<noteq> AT_FREE)))"
proof -
  have inv: "heap_inv s" and k0: "kind s 0 \<noteq> AT_FREE" using assms(1) by (simp_all add: anchored_def)
  have m: "m = 0 \<or> gc_last_free_atb_index s = 0 \<and> kind s 0 \<noteq> AT_FREE" using assms(4) k0 by blast
  from inv assms(3) m show ?thesis
  proof (cases rule: scan_run)
    case (found e)
    then show ?thesis
      using assms(1) collections.none [of del globals stacks s] by (subst alloc_search.simps) simp
  next
    case (none r)
    show ?thesis
    proof (cases collected)
      case True
      then show ?thesis
        using none assms(1) collections.none [of del globals stacks s] by (subst alloc_search.simps) simp
    next
      case False
      obtain s2 where s2: "gc_collect del globals stacks s = Some s2" "anchored globals stacks s2"
          "gc_last_free_atb_index s2 = 0" "gc_lock_depth s2 = gc_lock_depth s" "pool_start s2 = pool_start s"
        using collect_keeps [OF assms(1,2)] by blast
      have inv2: "heap_inv s2" and m2: "r = 0 \<or> gc_last_free_atb_index s2 = 0 \<and> kind s2 0 \<noteq> AT_FREE"
        using s2(2,3) by (simp_all add: anchored_def)
      have c2: "collections del globals stacks s s2" using s2(1) by (blast intro: collections.intros)
      have step: "alloc_search del globals stacks n collected m s = alloc_search del globals stacks n True r s2"
        using none(1) False s2(1) by (subst alloc_search.simps) simp
      from inv2 assms(3) m2 show ?thesis
      proof (cases rule: scan_run)
        case (found e)
        then have "alloc_search del globals stacks n True r s2 = Some (Some (e, n), s2)"
          by (subst alloc_search.simps) simp
        then show ?thesis using step found(2-5) s2 c2 by simp
      next
        case r': (none r')
        then have "alloc_search del globals stacks n True r s2 = Some (None, s2)"
          by (subst alloc_search.simps) simp
        then show ?thesis using step r'(2) s2 c2 by auto
      qed
    qed
  qed
qed

lemma new_object_inv:
  assumes "heap_inv s" and "new_object s b n s'" and "num_blocks s' = num_blocks s" and "gtab_ok s'"
    and "gc_last_free_atb_index s' = gc_last_free_atb_index s
      \<or> n = 1 \<and> gc_last_free_atb_index s' = (b + 1) div 4 \<and> (\<forall>c < b. kind s c \<noteq> AT_FREE)"
  shows "heap_inv s'"
proof -
  have "last_free_ok s'"
    unfolding last_free_ok_def
  proof (intro allI impI)
    fix c assume c: "c < num_blocks s'" "c < 4 * gc_last_free_atb_index s'"
    have k: "kind s' c = (if c = b then AT_HEAD else if b < c \<and> c < b + n then AT_TAIL else kind s c)"
      using assms(2,3) c(1) by (simp add: new_object_def)
    have "kind s c \<noteq> AT_FREE \<or> c = b"
      using assms(5)
    proof
      assume "gc_last_free_atb_index s' = gc_last_free_atb_index s"
      then show ?thesis using assms(1,3) c by (simp add: heap_inv_def last_free_ok_def)
    next
      assume a: "n = 1 \<and> gc_last_free_atb_index s' = (b + 1) div 4 \<and> (\<forall>c < b. kind s c \<noteq> AT_FREE)"
      then have "c \<le> b" using c(2) by simp
      then show ?thesis using a by (cases "c = b") auto
    qed
    then show "kind s' c \<noteq> AT_FREE" using k by auto
  qed
  then show ?thesis
    using assms(1,4) new_object_tails [OF _ assms(2,3)] new_object_marked [OF _ assms(2,3)] by (simp add: heap_inv_def)
qed

lemma alloc_run:
  assumes a: "anchored globals stacks s" and d: "del_ok del" and lock: "gc_lock_depth s = 0"
    and n: "0 < unat n_bytes" "unat n_bytes \<le> 0xFFFFFFF0"
  shows "\<exists>p s' s1. gc_alloc del globals stacks n_bytes fin s = Some (p, s') \<and> collections del globals stacks s s1
    \<and> anchored globals stacks s1
    \<and> heap_inv s' \<and> gc_lock_depth s' = 0 \<and> pool_start s' = pool_start s \<and> num_blocks s' = num_blocks s1
    \<and> (if p = 0
       then s' = s1 \<and> (\<forall>b. \<not> free_run s1 b ((unat n_bytes + 15) div 16))
         \<and> (gc_auto_collect_enabled s \<longrightarrow> (\<exists>s0. gc_collect del globals stacks s0 = Some s1))
       else \<exists>b. p = of_nat (pool_start s + 16 * b) \<and> new_object s1 b ((unat n_bytes + 15) div 16) s'
         \<and> ftb s' = (ftb s1)(b := fin \<or> ftb s1 b))"
proof -
  let ?n = "(unat n_bytes + 15) div 16"
  have n0: "0 < ?n" using n(1) by simp
  define thr where "thr \<longleftrightarrow> gc_auto_collect_enabled s \<and> gc_alloc_amount s \<ge> gc_alloc_threshold s"
  obtain s1 where s1: "(if thr then gc_collect del globals stacks s else Some s) = Some s1" "anchored globals stacks s1"
      "gc_lock_depth s1 = 0" "pool_start s1 = pool_start s" "collections del globals stacks s s1"
    using collect_keeps [OF a d] a lock collections.none [of del globals stacks s]
      collections.collect [OF collections.none [of del globals stacks s]]
    by (cases thr) auto
  obtain r s2 where s2: "alloc_search del globals stacks ?n (\<not> gc_auto_collect_enabled s) 0 s1 = Some (r, s2)"
      "collections del globals stacks s1 s2" "anchored globals stacks s2" "gc_lock_depth s2 = gc_lock_depth s1"
      "pool_start s2 = pool_start s1"
      "case r of
         None \<Rightarrow> (\<forall>b. \<not> free_run s2 b ?n) \<and> (\<not> gc_auto_collect_enabled s \<or> (\<exists>s0. gc_collect del globals stacks s0 = Some s2))
       | Some (e, k) \<Rightarrow> k = ?n \<and> e < num_blocks s2 \<and> ?n \<le> e + 1 \<and> (\<forall>c. e + 1 - ?n \<le> c \<and> c \<le> e \<longrightarrow> kind s2 c = AT_FREE)
           \<and> (?n = 1 \<longrightarrow> (\<forall>c < e. kind s2 c \<noteq> AT_FREE))"
    using alloc_search_run [OF s1(2) d n0, of 0 "\<not> gc_auto_collect_enabled s"] by blast
  have cc: "collections del globals stacks s s2"
    using s2(2) s1(5) by induction (blast intro: collections.intros)+
  have start: "gc_alloc del globals stacks n_bytes fin s
    = (case r of None \<Rightarrow> Some (0, s2) | Some (i, n_free) \<Rightarrow> alloc_found ?n fin i n_free s2)"
    using n0 lock s1(1) s2(1) unfolding gc_alloc_def request_blocks [OF n(2)] Let_def thr_def by simp
  have inv2: "heap_inv s2" using s2(3) by (simp add: anchored_def)
  show ?thesis
  proof (cases r)
    case None
    then show ?thesis
      using start cc s2(3-6) s1(3,4) inv2 by (intro exI [of _ 0] exI [of _ s2]) auto
  next
    case (Some ek)
    obtain e where r: "r = Some (e, ?n)" using s2(6) Some by (cases ek) auto
    have e: "e < num_blocks s2" "?n \<le> e + 1" "\<forall>c. e + 1 - ?n \<le> c \<and> c \<le> e \<longrightarrow> kind s2 c = AT_FREE"
        "?n = 1 \<longrightarrow> (\<forall>c < e. kind s2 c \<noteq> AT_FREE)"
      using s2(6) unfolding r by simp_all
    define b where "b = e + 1 - ?n"
    obtain s' where s': "alloc_found ?n fin e ?n s2 = Some (of_nat (pool_start s2 + 16 * b), s')"
        "gtab_ok s'" "new_object s2 b ?n s'" "atb_len s' = atb_len s2" "pool_start s' = pool_start s2"
        "gc_lock_depth s' = gc_lock_depth s2"
        "gc_last_free_atb_index s' = (if ?n = 1 then (e + 1) div 4 else gc_last_free_atb_index s2)"
        "ftb s' = (ftb s2)(b := fin \<or> ftb s2 b)"
      using alloc_found_run [OF _ e(1) n0 e(2,3), of fin] inv2 unfolding heap_inv_def b_def by blast
    have nb: "num_blocks s' = num_blocks s2" using s'(4) by (simp add: num_blocks_def)
    have inv': "heap_inv s'"
      using new_object_inv [OF inv2 s'(3) nb s'(2)] s'(7) e(4) by (auto simp: b_def split: if_splits)
    have b: "b < num_blocks s2" "kind s2 b = AT_FREE" using e n0 by (auto simp: b_def)
    have "kind s2 0 = AT_HEAD" using s2(3) by (simp add: anchored_def)
    then have "0 < b" using b(2) by (cases b) auto
    moreover have "pool_start s2 + 16 * b < 2 ^ 32"
      using inv2 b(1) by (auto simp: heap_inv_def gtab_ok_def pool_end_def)
    ultimately have "(of_nat (pool_start s2 + 16 * b) :: u32) \<noteq> 0"
      by (simp add: word_eq_iff_unat unat_of_nat del: of_nat_add of_nat_mult)
    then show ?thesis
      using start s'(1,3,5,6,8) inv' cc nb s1(3,4) s2(3-5) unfolding r
      by (intro exI [of _ "of_nat (pool_start s2 + 16 * b)"] exI [of _ s'] exI [of _ s2]) auto
  qed
qed

text \<open>
  C8. \<open>gc_alloc\<close> returns a fresh object or shows that there is none.  From a consistent heap whose
  first block stays reachable, for any request of 1 to \<open>0xFFFFFFF0\<close> bytes, with the allocator not
  locked, the call returns after zero or more collections, which the threshold or a failed search
  triggers.  If the pointer is not \<open>NULL\<close>, it is the address of a block, that block and the
  following ones, as many as the request needs in units of 16 bytes, were free after the
  collections, they are now one chain of a head and tails with all words zero, and all other
  blocks and words are as the collections left them.  If it is \<open>NULL\<close>, no run of free blocks in
  the whole heap is long enough, and where automatic collection is on the search followed a
  collection.  The heap stays consistent, with no free block before the start of the next search.
\<close>

theorem alloc_fresh:
  assumes "anchored globals stacks s" and "del_ok del" and "gc_lock_depth s = 0"
    and "0 < unat n_bytes" and "unat n_bytes \<le> 0xFFFFFFF0"
  shows "\<exists>p s' s1. gc_alloc del globals stacks n_bytes fin s = Some (p, s') \<and> collections del globals stacks s s1
    \<and> heap_inv s'
    \<and> (if p = 0
       then s' = s1 \<and> (\<forall>b. \<not> free_run s1 b ((unat n_bytes + 15) div 16))
         \<and> (gc_auto_collect_enabled s \<longrightarrow> (\<exists>s0. gc_collect del globals stacks s0 = Some s1))
       else \<exists>b. p = of_nat (pool_start s + 16 * b) \<and> new_object s1 b ((unat n_bytes + 15) div 16) s')"
  using alloc_run [OF assms, of fin] by (elim exE conjE) (intro exI conjI, assumption+, auto split: if_splits)

lemma small_heap_anchored: "anchored [7] [[3, 0x1000]] small_heap" "gc_lock_depth small_heap = 0"
proof -
  have f: "\<not> ftb small_heap 1" by (simp add: ftb_def small_heap_def)
  have l: "last_free_ok small_heap" by (simp add: last_free_ok_def small_heap_def)
  have p: "(of_nat (pool_start small_heap) :: u32) \<in> set ([7] @ concat [[3, 0x1000]])"
    by (simp add: small_heap_def)
  show "anchored [7] [[3, 0x1000]] small_heap"
    unfolding anchored_def heap_inv_def using small_heap_ok f l p small_heap_kinds(1) by blast
  show "gc_lock_depth small_heap = 0" by (simp add: small_heap_def)
qed

lemma del_none: "del_ok (\<lambda>b. Some)"
  unfolding del_ok_def by (intro allI, rule_tac x = "pool s" in exI) simp

theorem alloc_fresh_witness:
  "anchored [7] [[3, 0x1000]] small_heap \<and> gc_lock_depth small_heap = 0
    \<and> (\<exists>p s'. gc_alloc (\<lambda>b. Some) [7] [[3, 0x1000]] 16 False small_heap = Some (p, s') \<and> heap_inv s')"
proof -
  have n: "0 < unat (16 :: u32)" "unat (16 :: u32) \<le> 0xFFFFFFF0" by simp_all
  show ?thesis
    using alloc_fresh [OF small_heap_anchored(1) del_none small_heap_anchored(2) n, of False] small_heap_anchored by blast
qed

subsection \<open>Freeing an object\<close>

definition PTR_FROM_BLOCK :: "gc \<Rightarrow> nat \<Rightarrow> u32" where
  "PTR_FROM_BLOCK s b = of_nat (b * 16 + pool_start s)"

lemma ptr_block:
  assumes "gtab_ok s" and "b < num_blocks s"
  shows "VERIFY_PTR s (PTR_FROM_BLOCK s b)" "BLOCK_FROM_PTR s (PTR_FROM_BLOCK s b) = b"
    "PTR_FROM_BLOCK s b = 0 \<longleftrightarrow> b = 0 \<and> pool_start s = 0"
proof -
  have ps: "pool_start s mod 16 = 0" "pool_start s + 16 * num_blocks s \<le> 2 ^ 32"
    using assms(1) by (simp_all add: gtab_ok_def pool_end_def)
  have lt: "b * 16 + pool_start s < 2 ^ 32" using ps(2) assms(2) by linarith
  have u: "unat (PTR_FROM_BLOCK s b) = b * 16 + pool_start s"
    unfolding PTR_FROM_BLOCK_def unat_of_nat using lt by simp
  have "PTR_FROM_BLOCK s b AND 15 = 0"
  proof -
    have e: "(15 :: u32) = mask 4" by (simp add: mask_eq_exp_minus_1)
    have "(b * 16 + pool_start s) mod 2 ^ 4 = 0" using ps(1) by (simp add: mod_add_eq [symmetric])
    then have "unat (PTR_FROM_BLOCK s b AND 15) = 0" unfolding e unat_and_mask u .
    then show ?thesis by (simp add: word_eq_iff_unat)
  qed
  then show "VERIFY_PTR s (PTR_FROM_BLOCK s b)" using u assms(2) by (simp add: VERIFY_PTR_def pool_end_def)
  show "BLOCK_FROM_PTR s (PTR_FROM_BLOCK s b) = b" using u by (simp add: BLOCK_FROM_PTR_def)
  show "PTR_FROM_BLOCK s b = 0 \<longleftrightarrow> b = 0 \<and> pool_start s = 0" using u by (auto simp: word_eq_iff_unat)
qed

lemma free_chain_run:
  assumes "gtab_ok s" and "end_guard s" and "b < num_blocks s"
  shows "i < clen s b \<Longrightarrow> gtab_ok t \<Longrightarrow> num_blocks t = num_blocks s \<Longrightarrow>
    \<forall>c \<le> num_blocks s. kind t c = (if b \<le> c \<and> c < b + i then AT_FREE else kind s c) \<Longrightarrow>
    \<exists>t'. free_chain (b + i) t = Some t' \<and> only_kinds t t'
      \<and> (\<forall>c < num_blocks s. kind t' c = (if b \<le> c \<and> c < b + clen s b then AT_FREE else kind s c))"
proof (induction "clen s b - i" arbitrary: i t)
  case 0
  then show ?case by simp
next
  case (Suc k)
  have len: "b + clen s b \<le> num_blocks s" "kind s (b + clen s b) \<noteq> AT_TAIL" using clen_bound [OF assms(2,3)] by simp_all
  have ib: "b + i < num_blocks t" using Suc.prems(1,3) len(1) by simp
  let ?t = "set_kind (b + i) AT_FREE t"
  have a: "ATB_ANY_TO_FREE (b + i) t = Some ?t" by (rule atb_macros(1) [OF Suc.prems(2) ib])
  have okt: "gtab_ok ?t" "num_blocks ?t = num_blocks s" "only_kinds t ?t"
    using Suc.prems(2,3) only_kinds_set_kind [OF Suc.prems(2) ib] by (simp_all add: set_kind_same)
  have kt: "\<forall>c \<le> num_blocks s. kind ?t c = (if b \<le> c \<and> c < b + Suc i then AT_FREE else kind s c)"
    using Suc.prems(4) table_byte [OF Suc.prems(2) ib] by (auto simp: kind_set_kind kind_and_3 less_Suc_eq)
  have g: "ATB_GET_KIND ?t (b + i + 1) = Some (kind s (b + Suc i))"
    using kt len(1) Suc.prems(1) okt by (simp add: get_kind_end)
  show ?case
  proof (cases "Suc i < clen s b")
    case True
    then have "kind s (b + Suc i) = AT_TAIL" using clen_tail [of "Suc i" s b] by simp
    moreover have "k = clen s b - Suc i" using Suc.hyps(2) by simp
    from Suc.hyps(1) [OF this True okt(1,2) kt] obtain t' where "free_chain (b + Suc i) ?t = Some t'" "only_kinds ?t t'"
        "\<forall>c < num_blocks s. kind t' c = (if b \<le> c \<and> c < b + clen s b then AT_FREE else kind s c)"
      by blast
    ultimately show ?thesis
      using a g only_kinds_trans [OF okt(3)] by (subst free_chain.simps) auto
  next
    case False
    then have e: "Suc i = clen s b" using Suc.prems(1) by simp
    then have "kind s (b + Suc i) \<noteq> AT_TAIL" using len(2) by simp
    then show ?thesis
      using a g okt(3) kt e by (subst free_chain.simps) auto
  qed
qed

lemma free_inv:
  assumes "heap_inv s" and "end_guard s" and "b < num_blocks s" and "gtab_ok s'" and "num_blocks s' = num_blocks s"
    and k: "\<forall>c < num_blocks s. kind s' c = (if b \<le> c \<and> c < b + clen s b then AT_FREE else kind s c)"
    and "gc_last_free_atb_index s' = min (gc_last_free_atb_index s) (b div 4)"
  shows "heap_inv s'"
proof -
  have len: "0 < clen s b" "kind s (b + clen s b) \<noteq> AT_TAIL" "b + clen s b \<le> num_blocks s"
    using clen_bound [OF assms(2,3)] by simp_all
  have "tails_ok s'"
    unfolding tails_ok_def
  proof (intro allI impI)
    fix c assume c: "c < num_blocks s'" and "kind s' c = AT_TAIL"
    then have t: "kind s c = AT_TAIL" and out: "\<not> (b \<le> c \<and> c < b + clen s b)"
      using k assms(5) by (auto split: if_splits)
    have p: "0 < c" "kind s (c - 1) \<noteq> AT_FREE" using assms(1,5) c t by (auto simp: heap_inv_def tails_ok_def)
    have "\<not> (b \<le> c - 1 \<and> c - 1 < b + clen s b)"
    proof
      assume "b \<le> c - 1 \<and> c - 1 < b + clen s b"
      then have "c = b + clen s b" using out p(1) by auto
      then show False using t len(2) by simp
    qed
    then show "0 < c \<and> kind s' (c - 1) \<noteq> AT_FREE" using k p c assms(5) by auto
  qed
  moreover have "marked s' = {}"
    using k assms(1,5) by (auto simp: heap_inv_def marked_def)
  moreover have "last_free_ok s'"
    using k assms(1,5,7) by (auto simp: heap_inv_def last_free_ok_def)
  ultimately show ?thesis using assms(4) by (simp add: heap_inv_def)
qed

lemma gc_free_run:
  assumes inv: "heap_inv s" and "\<not> ftb s 1" and "gc_lock_depth s = 0" and b: "b < num_blocks s" and h: "kind s b = AT_HEAD"
    and p: "0 < b + pool_start s"
  shows "\<exists>s'. gc_free (PTR_FROM_BLOCK s b) s = Some s' \<and> heap_inv s' \<and> num_blocks s' = num_blocks s
    \<and> pool_start s' = pool_start s \<and> pool s' = pool s
    \<and> ftb s' = (ftb s)(b := False) \<and> gc_last_free_atb_index s' = min (gc_last_free_atb_index s) (b div 4)
    \<and> (\<forall>c < num_blocks s. kind s' c = (if b \<le> c \<and> c < b + clen s b then AT_FREE else kind s c))"
proof -
  have ok: "gtab_ok s" and eg: "end_guard s" using inv assms(2) by (simp_all add: heap_inv_def end_guardI)
  let ?f = "set_ftb b False s"
  define s1 where "s1 = (if b div 4 < gc_last_free_atb_index s then ?f\<lparr>gc_last_free_atb_index := b div 4\<rparr> else ?f)"
  have s1: "gtab_ok s1" "num_blocks s1 = num_blocks s" "pool s1 = pool s" "pool_start s1 = pool_start s"
      "kind s1 = kind ?f" "ftb s1 = (ftb s)(b := False)"
      "gc_last_free_atb_index s1 = min (gc_last_free_atb_index s) (b div 4)"
    using ok ftb_set_ftb [OF ok b, of False] by (auto simp: s1_def set_ftb_same fun_eq_iff min_def)
  have kf: "kind s1 c = kind s c" if "c < num_blocks s" for c using that s1 by (simp add: kind_set_ftb)
  have f1: "\<not> ftb s1 1" using s1(6) assms(2) by simp
  have eg1: "end_guard s1" by (rule end_guardI [OF f1])
  have cl: "clen s1 b = clen s b"
  proof -
    let ?P = "\<lambda>t n. 0 < n \<and> kind t (b + n) \<noteq> AT_TAIL"
    have B: "?P s (clen s b)" "?P s1 (clen s1 b)" "b + clen s b \<le> num_blocks s" "b + clen s1 b \<le> num_blocks s"
      using clen_bound [OF eg b] clen_bound [OF eg1, of b] b s1(2) by auto
    have E: "kind t (num_blocks s) \<noteq> AT_TAIL" if "t = s \<or> t = s1" for t
      using that eg eg1 s1(2) by (auto simp: end_guard_def)
    have "?P s1 (clen s b)" "?P s (clen s1 b)"
      using B E kf by (metis le_neq_implies_less)+
    then show ?thesis
      unfolding clen_def by (intro antisym Least_le) (simp_all add: clen_def [symmetric])
  qed
  obtain s' where s': "free_chain b s1 = Some s'" "only_kinds s1 s'"
      "\<forall>c < num_blocks s1. kind s' c = (if b \<le> c \<and> c < b + clen s1 b then AT_FREE else kind s1 c)"
  proof -
    have b1: "b < num_blocks s1" using b s1(2) by simp
    then have "0 < clen s1 b" using clen_bound [OF eg1] by blast
    moreover have "\<forall>c \<le> num_blocks s1. kind s1 c = (if b \<le> c \<and> c < b + 0 then AT_FREE else kind s1 c)" by auto
    ultimately show ?thesis using free_chain_run [OF s1(1) eg1 b1 _ s1(1) refl, of 0] that unfolding add_0_right by blast
  qed
  note same = only_kinds_same [OF s'(2)]
  have k': "\<forall>c < num_blocks s. kind s' c = (if b \<le> c \<and> c < b + clen s b then AT_FREE else kind s c)"
    using s'(3) s1(2) kf cl by simp
  have "gc_free (PTR_FROM_BLOCK s b) s = Some s'"
    unfolding gc_free_def ptr_block(2) [OF ok b] Let_def
    using assms(3) p ptr_block(1,3) [OF ok b] get_kind_end [OF ok, of b] b h ftb_macros(2) [OF ok b] s'(1)
    by (auto simp: set_ftb_same s1_def split: if_splits)
  moreover have "heap_inv s'"
    using free_inv [OF inv eg b _ _ k'] same s1 by simp
  ultimately show ?thesis
    using k' same s1 by (intro exI [of _ s']) simp
qed

text \<open>
  C28. \<open>gc_free\<close> frees exactly one object: from a consistent heap, with the allocator not locked,
  the call with the address of a head frees that block and all its tails and nothing else, takes
  back the finaliser bit of the head, leaves all contents, and moves the start of the next search
  back to the freed block where that is earlier, so that the heap is consistent again.
\<close>

theorem object_freed:
  assumes "heap_inv s" and "\<not> ftb s 1" and "gc_lock_depth s = 0" and "b < num_blocks s" and "kind s b = AT_HEAD"
    and "0 < b + pool_start s"
  shows "\<exists>s'. gc_free (PTR_FROM_BLOCK s b) s = Some s' \<and> heap_inv s' \<and> pool s' = pool s
    \<and> ftb s' = (ftb s)(b := False) \<and> gc_last_free_atb_index s' = min (gc_last_free_atb_index s) (b div 4)
    \<and> (\<forall>c < num_blocks s. kind s' c = (if b \<le> c \<and> c < b + clen s b then AT_FREE else kind s c))"
  using gc_free_run [OF assms] by blast

theorem object_freed_witness:
  "heap_inv small_heap \<and> \<not> ftb small_heap 1 \<and> (\<exists>s'. gc_free (PTR_FROM_BLOCK small_heap 2) small_heap = Some s'
    \<and> heap_inv s' \<and> kind s' 2 = AT_FREE \<and> kind s' 0 = AT_HEAD)"
proof -
  have h: "heap_inv small_heap" "\<not> ftb small_heap 1" using small_heap_anchored by (simp_all add: anchored_def)
  have b: "2 < num_blocks small_heap" "(0 :: nat) < 2 + pool_start small_heap" "0 < num_blocks small_heap"
    by (simp_all add: small_heap_kinds)
  obtain s' where s': "gc_free (PTR_FROM_BLOCK small_heap 2) small_heap = Some s'" "heap_inv s'"
      "\<forall>c < num_blocks small_heap. kind s' c = (if 2 \<le> c \<and> c < 2 + clen small_heap 2 then AT_FREE else kind small_heap c)"
    using object_freed [OF h small_heap_anchored(2) b(1) small_heap_kinds(3) b(2)] by blast
  have "0 < clen small_heap 2" using clen_bound [OF end_guardI [OF h(2)] b(1)] by simp
  then have "kind s' 2 = AT_FREE" "kind s' 0 = AT_HEAD" using s'(3) b small_heap_kinds(1) by simp_all
  then show ?thesis using h s'(1,2) by blast
qed

subsection \<open>A run of free blocks that does not exist\<close>

lemma find_run_free:
  "m < n \<Longrightarrow> lo + (n - m) \<le> hi \<Longrightarrow> (\<And>c. lo \<le> c \<Longrightarrow> c < lo + (n - m) \<Longrightarrow> f c) \<Longrightarrow>
    find_run f n [lo..<hi] m = Inl (lo + (n - m) - 1, n)"
proof (induction "n - m" arbitrary: lo m)
  case (Suc k)
  have u: "[lo..<hi] = lo # [Suc lo..<hi]" using Suc.prems by (simp add: upt_conv_Cons)
  have f: "f lo" using Suc.prems by simp
  show ?case
  proof (cases "Suc m = n")
    case True
    then have "n - m = 1" by simp
    then show ?thesis using True f unfolding u by simp
  next
    case False
    then have "find_run f n [Suc lo..<hi] (Suc m) = Inl (Suc lo + (n - Suc m) - 1, n)"
      using Suc.prems Suc.hyps(2) by (intro Suc.hyps(1)) auto
    then show ?thesis using False f Suc.prems(1) unfolding u by (simp add: not_le)
  qed
qed simp

text \<open>
  C33. The count of free blocks survives a collection.  \<open>gc_alloc\<close> does not reset \<open>n_free\<close> before
  its second search: if the first search ends with \<open>k\<close> free blocks at the end of the heap, and the
  collection leaves the first blocks of the heap free, as many as are missing, then the code takes
  the two pieces for one run, computes a first block below 0, which wraps to the end of the address
  range, and marks a head outside of the allocation table.
\<close>

theorem alloc_joins_both_ends:
  assumes inv: "heap_inv s" and f1: "\<not> ftb s 1" and del: "del_ok del" and "gc_lock_depth s = 0"
    and "gc_auto_collect_enabled s" and "gc_alloc_amount s < gc_alloc_threshold s"
    and n: "n = (unat n_bytes + 15) div 16" "0 < unat n_bytes" "unat n_bytes \<le> 0xFFFFFFF0"
    and sc: "scan_table s n [gc_last_free_atb_index s ..< atb_len s] 0 = Some (Inr k)" and k: "0 < k" "k < n"
    and dead: "n - k \<le> num_blocks s" "\<forall>b < n - k. b \<notin> live s (globals @ concat stacks)"
  shows "gc_alloc del globals stacks n_bytes fin s = None"
proof -
  have h: "gtab_ok s" "tails_ok s" "marked s = {}" using inv by (simp_all add: heap_inv_def)
  obtain s' where s': "gc_collect del globals stacks s = Some s'" "gtab_ok s'" "atb_len s' = atb_len s"
      "gc_last_free_atb_index s' = 0"
      "\<forall>b < num_blocks s. kind s' b = (if b \<in> live s (globals @ concat stacks) then kind s b else AT_FREE)"
    using collect_run [OF h(1) end_guardI [OF f1] h(2,3) del, of globals stacks] by blast
  have nb: "num_blocks s' = num_blocks s" using s'(3) by (simp add: num_blocks_def)
  have free: "kind s' c = AT_FREE" if "c < n - k" for c using s'(5) dead that by simp
  have sc': "scan_table s' n [gc_last_free_atb_index s' ..< atb_len s'] k = Some (Inl (n - k - 1, n))"
    using scan_table_blocks [of "atb_len s'" s' n 0 k] s'(2,4) k dead(1) nb free
      find_run_free [of k n 0 "4 * atb_len s'" "\<lambda>b. kind s' b = AT_FREE"]
    by (simp add: gtab_ok_def num_blocks_def)
  have sr: "alloc_search del globals stacks n False 0 s = Some (Some (n - k - 1, n), s')"
    using sc sc' s'(1) by (subst alloc_search.simps, simp, subst alloc_search.simps) simp
  have n28: "n < 2 ^ 28" using n(1,3) unat_bound [of n_bytes] by simp
  have w: "(of_nat (n - k - 1) - of_nat n + 1 :: u32) = - of_nat k"
    using k by (simp add: of_nat_diff algebra_simps)
  have u: "unat (- of_nat k :: u32) = 2 ^ 32 - k"
  proof -
    have "k \<le> 2 ^ 32" using k n28 by simp
    then have "(of_nat (2 ^ 32 - k) :: u32) = of_nat (2 ^ 32) - of_nat k" by (rule of_nat_diff)
    moreover have "(of_nat (2 ^ 32) :: u32) = 0" by (simp add: word_eq_iff_unat unat_of_nat)
    ultimately have "- of_nat k = (of_nat (2 ^ 32 - k) :: u32)" by simp
    then show ?thesis using k(1) by (simp only: unat_of_nat) simp
  qed
  have len: "length (gtab s') < 2 ^ 28"
    using s'(2) by (simp add: gtab_ok_def num_blocks_def pool_end_def) linarith
  have "2 ^ 31 \<le> 2 ^ 32 - k" using n28 k by simp
  then have "2 ^ 31 div 4 \<le> (2 ^ 32 - k) div 4" by (rule div_le_mono)
  then have "\<not> (2 ^ 32 - k) div 4 < length (gtab s')" using len by simp
  then have out: "ATB_FREE_TO_HEAD (2 ^ 32 - k) t = None" if "gtab t = gtab s'" for t
    using that by (simp add: ATB_FREE_TO_HEAD_def ATB_UPDATE_def rd_def)
  have "alloc_found n fin (n - k - 1) n s' = None"
    unfolding alloc_found_def Let_def w u
    by (subst out) simp_all
  moreover have thr: "\<not> gc_alloc_threshold s \<le> gc_alloc_amount s" using assms(6) by simp
  have "gc_alloc del globals stacks n_bytes fin s = alloc_found n fin (n - k - 1) n s'"
    using assms(4,5) thr k sr unfolding gc_alloc_def request_blocks [OF n(3)] n(1) [symmetric] Let_def
    by simp
  ultimately show ?thesis by simp
qed

text \<open>A heap whose first three blocks are in use and unreachable, and whose last block is free.\<close>

definition unused_heap :: gc where
  "unused_heap = small_heap\<lparr>gtab := [0x19, 0]\<rparr>"

lemma unused_heap_kinds:
  "kind unused_heap 0 = AT_HEAD" "kind unused_heap (Suc 0) = AT_TAIL" "kind unused_heap 2 = AT_HEAD"
  "kind unused_heap 3 = AT_FREE" "num_blocks unused_heap = 4"
  by (simp_all add: kind_def unused_heap_def small_heap_def BLOCK_SHIFT_def AT_defs num_blocks_def)

lemma unused_heap_inv: "heap_inv unused_heap" "\<not> ftb unused_heap 1"
proof -
  have block: "b < num_blocks unused_heap \<Longrightarrow> kind unused_heap b = AT_HEAD \<or> b = 1 \<and> kind unused_heap b = AT_TAIL
      \<or> kind unused_heap b = AT_FREE" for b
    unfolding unused_heap_kinds(5) less_4 by (elim disjE) (simp_all add: unused_heap_kinds)
  have "gtab_ok unused_heap" by (simp add: gtab_ok_def unused_heap_def small_heap_def num_blocks_def pool_end_def)
  moreover have "tails_ok unused_heap" using block by (fastforce simp: tails_ok_def unused_heap_kinds(1))
  moreover have "marked unused_heap = {}" using block by (fastforce simp: marked_def)
  moreover have "last_free_ok unused_heap" by (simp add: last_free_ok_def unused_heap_def small_heap_def)
  ultimately show "heap_inv unused_heap" by (simp add: heap_inv_def)
  show "\<not> ftb unused_heap 1" by (simp add: ftb_def unused_heap_def small_heap_def)
qed

theorem alloc_joins_both_ends_witness:
  "heap_inv unused_heap \<and> \<not> ftb unused_heap 1 \<and> gc_alloc (\<lambda>b. Some) [] [[0]] 32 False unused_heap = None"
proof -
  let ?s = unused_heap
  have r: "targets ?s ([] @ concat [[0]]) = {}"
    by (simp add: targets_def VERIFY_PTR_def unused_heap_def small_heap_def)
  have "reach ?s ([] @ concat [[0]]) = {}"
  proof -
    have "c \<notin> reach ?s ([] @ concat [[0]])" for c
    proof
      assume "c \<in> reach ?s ([] @ concat [[0]])"
      then show False by induction (use r in auto)
    qed
    then show ?thesis by blast
  qed
  then have dead: "\<forall>b < 2 - 1 :: nat. b \<notin> live ?s ([] @ concat [[0]])" by (simp add: live_def)
  have sc: "scan_table ?s 2 [gc_last_free_atb_index ?s ..< atb_len ?s] 0 = Some (Inr 1)"
    by code_simp
  have "gc_alloc (\<lambda>b. Some) [] [[0]] 32 False ?s = None"
    by (rule alloc_joins_both_ends [OF unused_heap_inv del_none _ _ _ _ _ _ sc _ _ _ dead])
      (simp_all add: unused_heap_kinds, simp_all add: unused_heap_def small_heap_def)
  then show ?thesis using unused_heap_inv by blast
qed

subsection \<open>Reallocation\<close>

text \<open>What the loop of \<open>gc_realloc\<close> counts: the blocks of the object, and free blocks behind it.\<close>

lemma count_tails:
  assumes "gtab_ok s" and "end_guard s" and "b < num_blocks s"
  shows "i \<le> clen s b \<Longrightarrow> 0 < i \<Longrightarrow>
    count_blocks s new [b + i ..< num_blocks s] i 0 = count_blocks s new [b + clen s b ..< num_blocks s] (clen s b) 0"
proof (induction "clen s b - i" arbitrary: i)
  case (Suc k)
  have len: "b + clen s b \<le> num_blocks s" using clen_bound [OF assms(2,3)] by simp
  have i: "i < clen s b" using Suc.hyps(2) by simp
  then have "ATB_GET_KIND s (b + i) = Some AT_TAIL"
    using clen_tail [of i s b] Suc.prems(2) get_kind_end [OF assms(1), of "b + i"] len by simp
  then have "count_blocks s new [b + i ..< num_blocks s] i 0 = count_blocks s new [b + Suc i ..< num_blocks s] (Suc i) 0"
    using i len by (simp add: upt_conv_Cons)
  then show ?case using Suc.hyps(1) [of "Suc i"] Suc.hyps(2) i by simp
qed simp

lemma count_free:
  assumes "gtab_ok s" and "tails_ok s" and "marked s = {}"
  shows "lo \<le> num_blocks s \<Longrightarrow> 0 < lo \<Longrightarrow> kind s lo \<noteq> AT_TAIL \<or> lo = num_blocks s \<Longrightarrow>
    \<exists>g. count_blocks s new [lo ..< num_blocks s] n f = Some (n, f + g) \<and> lo + g \<le> num_blocks s
      \<and> (\<forall>c. lo \<le> c \<and> c < lo + g \<longrightarrow> kind s c = AT_FREE)
      \<and> (new \<le> n + f + g \<or> lo + g = num_blocks s \<or> kind s (lo + g) = AT_HEAD)"
proof (induction "num_blocks s - lo" arbitrary: lo f)
  case 0
  then show ?case by (intro exI [of _ 0]) auto
next
  case (Suc k)
  have lo: "lo < num_blocks s" using Suc.hyps(2) by simp
  have get: "ATB_GET_KIND s lo = Some (kind s lo)" using get_kind_end [OF assms(1)] lo by simp
  have up: "[lo ..< num_blocks s] = lo # [Suc lo ..< num_blocks s]" using lo by (simp add: upt_conv_Cons)
  have "kind s lo \<noteq> AT_TAIL" "kind s lo \<noteq> AT_MARK" using Suc.prems(3) lo assms(3) by (auto simp: marked_def)
  then consider "kind s lo = AT_HEAD" | "kind s lo = AT_FREE" using kind_cases [of s lo] by blast
  then show ?case
  proof cases
    case 1
    then show ?thesis using get lo unfolding up by (intro exI [of _ 0]) auto
  next
    case 2
    show ?thesis
    proof (cases "new \<le> n + (f + 1)")
      case True
      then show ?thesis using get 2 lo unfolding up by (intro exI [of _ 1]) (auto simp: less_Suc_eq dest!: antisym)
    next
      case False
      have "kind s (Suc lo) \<noteq> AT_TAIL \<or> Suc lo = num_blocks s"
        using assms(2) 2 lo by (metis Suc_lessI diff_Suc_1 tails_ok_def)
      moreover have kk: "k = num_blocks s - Suc lo" using Suc.hyps(2) by simp
      ultimately obtain g where g: "count_blocks s new [Suc lo ..< num_blocks s] n (f + 1) = Some (n, f + 1 + g)"
          "Suc lo + g \<le> num_blocks s" "\<forall>c. Suc lo \<le> c \<and> c < Suc lo + g \<longrightarrow> kind s c = AT_FREE"
          "new \<le> n + (f + 1) + g \<or> Suc lo + g = num_blocks s \<or> kind s (Suc lo + g) = AT_HEAD"
        using Suc.hyps(1) [OF kk, of "f + 1"] lo by (metis Suc_leI zero_less_Suc)
      have "\<forall>c. lo \<le> c \<and> c < lo + Suc g \<longrightarrow> kind s c = AT_FREE"
      proof (intro allI impI)
        fix c assume "lo \<le> c \<and> c < lo + Suc g"
        then show "kind s c = AT_FREE" using g(3) 2 by (cases "c = lo") auto
      qed
      then show ?thesis
        using get 2 g False unfolding up by (intro exI [of _ "Suc g"]) auto
    qed
  qed
qed

lemma count_blocks_run:
  assumes "heap_inv s" and "\<not> ftb s 1" and "b < num_blocks s"
  shows "\<exists>g. count_blocks s new [b + 1 ..< num_blocks s] 1 0 = Some (clen s b, g) \<and> b + clen s b + g \<le> num_blocks s
      \<and> (\<forall>c. b + clen s b \<le> c \<and> c < b + clen s b + g \<longrightarrow> kind s c = AT_FREE)
      \<and> (new \<le> clen s b + g \<or> b + clen s b + g = num_blocks s \<or> kind s (b + clen s b + g) = AT_HEAD)"
proof -
  have h: "gtab_ok s" "tails_ok s" "marked s = {}" "end_guard s"
    using assms by (simp_all add: heap_inv_def end_guardI)
  have len: "0 < clen s b" "kind s (b + clen s b) \<noteq> AT_TAIL" "b + clen s b \<le> num_blocks s"
    using clen_bound [OF h(4) assms(3)] by simp_all
  have c1: "count_blocks s new [b + 1 ..< num_blocks s] 1 0 = count_blocks s new [b + clen s b ..< num_blocks s] (clen s b) 0"
    using count_tails [OF h(1,4) assms(3), of 1] len(1) by simp
  show ?thesis
    using count_free [OF h(1-3), of "b + clen s b" new "clen s b" 0] len unfolding c1 by auto
qed

text \<open>The chain of the object at \<open>b\<close> gets \<open>n\<close> blocks: blocks behind are freed, or free blocks join it.\<close>

definition resized :: "gc \<Rightarrow> nat \<Rightarrow> nat \<Rightarrow> gc \<Rightarrow> bool" where
  "resized s b n s' \<longleftrightarrow> num_blocks s' = num_blocks s
     \<and> (\<forall>c < num_blocks s. kind s' c =
          (if b + n \<le> c \<and> c < b + clen s b then AT_FREE
           else if b + clen s b \<le> c \<and> c < b + n then AT_TAIL else kind s c))"

lemma resized_inv:
  assumes inv: "heap_inv s" and "end_guard s" and b: "b < num_blocks s" and h: "kind s b = AT_HEAD" and n: "0 < n"
    and r: "resized s b n s'" and "gtab_ok s'"
    and lf: "gc_last_free_atb_index s' = (if n < clen s b then min (gc_last_free_atb_index s) ((b + n) div 4)
      else gc_last_free_atb_index s)"
  shows "heap_inv s'"
proof -
  have len: "0 < clen s b" "kind s (b + clen s b) \<noteq> AT_TAIL" "b + clen s b \<le> num_blocks s"
    using clen_bound [OF assms(2) b] by simp_all
  have nb: "num_blocks s' = num_blocks s" and k: "\<And>c. c < num_blocks s \<Longrightarrow> kind s' c =
          (if b + n \<le> c \<and> c < b + clen s b then AT_FREE
           else if b + clen s b \<le> c \<and> c < b + n then AT_TAIL else kind s c)"
    using r by (simp_all add: resized_def)
  have used: "kind s c \<noteq> AT_FREE" if "b \<le> c" "c < b + clen s b" for c
    using that h clen_tail [of "c - b" s b] by (cases "c = b") auto
  have "tails_ok s'"
    unfolding tails_ok_def
  proof (intro allI impI)
    fix c assume c: "c < num_blocks s'" and t: "kind s' c = AT_TAIL"
    then have kc: "\<not> (b + n \<le> c \<and> c < b + clen s b)" "b + clen s b \<le> c \<and> c < b + n \<or> kind s c = AT_TAIL"
      using k [of c] nb by (auto split: if_splits)
    have "0 < c \<and> (kind s (c - 1) \<noteq> AT_FREE \<or> b + clen s b \<le> c - 1 \<and> c - 1 < b + n)"
    proof (cases "b + clen s b \<le> c \<and> c < b + n")
      case True
      then show ?thesis using used [of "c - 1"] len(1) by (cases "c = b + clen s b") auto
    next
      case False
      then have "kind s c = AT_TAIL" using kc by blast
      then show ?thesis using inv c nb by (auto simp: heap_inv_def tails_ok_def)
    qed
    moreover have "\<not> (b + n \<le> c - 1 \<and> c - 1 < b + clen s b)"
    proof
      assume a: "b + n \<le> c - 1 \<and> c - 1 < b + clen s b"
      then have "c = b + clen s b" using kc(1) n by auto
      then show False using kc(2) len(2) a by auto
    qed
    ultimately show "0 < c \<and> kind s' (c - 1) \<noteq> AT_FREE" using k [of "c - 1"] c nb by auto
  qed
  moreover have "marked s' = {}"
    using k nb inv by (auto simp: heap_inv_def marked_def)
  moreover have "last_free_ok s'"
    unfolding last_free_ok_def
  proof (intro allI impI)
    fix c assume c: "c < num_blocks s'" "c < 4 * gc_last_free_atb_index s'"
    then have "c < 4 * gc_last_free_atb_index s" using lf by (auto split: if_splits)
    then have "kind s c \<noteq> AT_FREE" using inv c(1) nb by (simp add: heap_inv_def last_free_ok_def)
    moreover have "\<not> (b + n \<le> c \<and> c < b + clen s b)"
    proof
      assume a: "b + n \<le> c \<and> c < b + clen s b"
      then have "c < 4 * ((b + n) div 4)" using c(2) lf by (auto split: if_splits)
      then show False using a by linarith
    qed
    ultimately show "kind s' c \<noteq> AT_FREE" using k [of c] c(1) nb by auto
  qed
  ultimately show ?thesis using assms(7) by (simp add: heap_inv_def)
qed

lemma shrink_run:
  assumes ok: "gtab_ok s" and eg: "end_guard s" and b: "b < num_blocks s" and n: "n < clen s b"
  shows "\<exists>s'. realloc_shrink b n (clen s b) s = Some s' \<and> resized s b n s' \<and> gtab_ok s' \<and> pool s' = pool s
    \<and> pool_start s' = pool_start s \<and> ftb s' = ftb s
    \<and> gc_last_free_atb_index s' = min (gc_last_free_atb_index s) ((b + n) div 4)"
proof -
  have len: "b + clen s b \<le> num_blocks s" using clen_bound [OF eg b] by simp
  have hi: "b + n + (clen s b - n) = b + clen s b" using n by simp
  obtain s1 where s1: "for_upto (b + n) (b + clen s b) ATB_ANY_TO_FREE s = Some s1" "only_kinds s s1"
      "\<forall>c < num_blocks s. kind s1 c = (if b + n \<le> c \<and> c < b + clen s b then AT_FREE else kind s c)"
    using set_kinds_loop [OF ok len kind_and_3(2), of "b + n" ATB_ANY_TO_FREE] atb_macros(1) by auto
  note same = only_kinds_same [OF s1(2)]
  define s' where "s' = (if (b + n) div 4 < gc_last_free_atb_index s1
      then s1\<lparr>gc_last_free_atb_index := (b + n) div 4\<rparr> else s1)"
  have "realloc_shrink b n (clen s b) s = Some s'"
    using s1(1) by (simp add: realloc_shrink_def hi s'_def)
  moreover have "kind s' = kind s1" "num_blocks s' = num_blocks s" "gtab_ok s'" "pool s' = pool s" "ftb s' = ftb s"
      "pool_start s' = pool_start s"
      "gc_last_free_atb_index s' = min (gc_last_free_atb_index s) ((b + n) div 4)"
    using same ok by (auto simp: s'_def min_def)
  ultimately show ?thesis using s1(3) n by (auto simp: resized_def)
qed

lemma expand_run:
  assumes ok: "gtab_ok s" and b: "b < num_blocks s" and n: "clen s b < n" and free: "free_run s (b + clen s b) (n - clen s b)"
  shows "\<exists>s'. realloc_expand b n (clen s b) s = Some s' \<and> resized s b n s' \<and> gtab_ok s'
    \<and> pool_start s' = pool_start s \<and> ftb s' = ftb s
    \<and> gc_last_free_atb_index s' = gc_last_free_atb_index s \<and> length (pool s') = length (pool s)
    \<and> (\<forall>i < length (pool s). pool s' ! i = (if 4 * (b + clen s b) \<le> i \<and> i < 4 * (b + n) then 0 else pool s ! i))"
proof -
  let ?f = "\<lambda>bl s. do { k \<leftarrow> ATB_GET_KIND s bl; if k = AT_FREE then ATB_FREE_TO_TAIL bl s else None }"
  have hi: "b + n \<le> num_blocks s" and fr: "\<forall>c. b + clen s b \<le> c \<and> c < b + n \<longrightarrow> kind s c = AT_FREE"
    using free n by (auto simp: free_run_def)
  have "?f c t = Some (set_kind c AT_TAIL t)"
    if "gtab_ok t" "b + clen s b \<le> c" "c < b + n" "b + n \<le> num_blocks t" "kind t c = kind s c" for c t
    using that fr get_kind_end [of t c] atb_macros(3) [of t c] by simp
  then obtain s1 where s1: "for_upto (b + clen s b) (b + n) ?f s = Some s1" "only_kinds s s1"
      "\<forall>c < num_blocks s. kind s1 c = (if b + clen s b \<le> c \<and> c < b + n then AT_TAIL else kind s c)"
    using set_kinds_loop [OF ok hi kind_and_3(4), of "b + clen s b" ?f] by blast
  note same = only_kinds_same [OF s1(2)]
  have l: "length (pool s) = 4 * num_blocks s" using ok by (simp add: gtab_ok_def)
  have four: "4 * (b + clen s b) + 4 * (n - clen s b) = 4 * (b + n)" using n by simp
  obtain q where q: "blit (pool s) (4 * (b + clen s b)) (replicate (4 * (n - clen s b)) 0) = Some q" "length q = length (pool s)"
      "\<forall>i < length (pool s). q ! i = (if 4 * (b + clen s b) \<le> i \<and> i < 4 * (b + n) then 0 else pool s ! i)"
    using blit_zero [of "4 * (b + clen s b)" "4 * (n - clen s b)" "pool s"] l hi four by auto
  have "realloc_expand b n (clen s b) s = Some (s1\<lparr>pool := q\<rparr>)"
    using s1(1) q(1) by (simp add: realloc_expand_def same)
  then show ?thesis
    using same ok q s1(3) n by (intro exI [of _ "s1\<lparr>pool := q\<rparr>"]) (auto simp: resized_def)
qed

lemma realloc_blocks:
  "unat ((n_bytes + 16 - 1) div 16 :: u32) = (if unat n_bytes \<le> 0xFFFFFFF0 then (unat n_bytes + 15) div 16 else 0)"
proof -
  have e: "n_bytes + 16 - 1 = n_bytes + 15" by simp
  show ?thesis
  proof (cases "unat n_bytes \<le> 0xFFFFFFF0")
    case True
    then have "unat (n_bytes + 15) = unat n_bytes + 15" by (simp add: unat_word_ariths)
    then show ?thesis using True unfolding e by (simp add: unat_div)
  next
    case False
    then have "unat (n_bytes + 15) = unat n_bytes + 15 - 2 ^ 32"
      using unat_bound [of n_bytes] by (simp add: unat_word_ariths mod_if)
    then have "unat (n_bytes + 15) < 16" using unat_bound [of n_bytes] by simp
    then show ?thesis using False unfolding e by (simp add: unat_div)
  qed
qed

lemma free_run_counted:
  assumes "b + l + g \<le> num_blocks s" and "new \<le> l + g \<or> b + l + g = num_blocks s \<or> kind s (b + l + g) = AT_HEAD"
    and "\<forall>c. b + l \<le> c \<and> c < b + l + g \<longrightarrow> kind s c = AT_FREE" and "l < new"
  shows "new \<le> l + g \<longleftrightarrow> free_run s (b + l) (new - l)"
proof
  assume "new \<le> l + g"
  then show "free_run s (b + l) (new - l)" using assms by (auto simp: free_run_def)
next
  assume f: "free_run s (b + l) (new - l)"
  show "new \<le> l + g"
  proof (rule ccontr)
    assume n: "\<not> new \<le> l + g"
    then have "kind s (b + l + g) = AT_HEAD" using assms(2) f by (auto simp: free_run_def)
    moreover have "kind s (b + l + g) = AT_FREE" using f n by (auto simp: free_run_def)
    ultimately show False by simp
  qed
qed

text \<open>The start of \<open>gc_realloc\<close>, up to the count of the blocks.\<close>

lemma realloc_start:
  assumes inv: "heap_inv s" and f1: "\<not> ftb s 1" and lock: "gc_lock_depth s = 0" and b: "b < num_blocks s"
    and h: "kind s b = AT_HEAD" and p: "0 < b + pool_start s" and n: "n_bytes \<noteq> 0"
    and new: "new = unat ((n_bytes + 16 - 1) div 16)"
  shows "\<exists>g. (new > clen s b \<longrightarrow> (new \<le> clen s b + g) = free_run s (b + clen s b) (new - clen s b)) \<and>
    gc_realloc del globals stacks (PTR_FROM_BLOCK s b) n_bytes move s =
      (if new = clen s b then Some (PTR_FROM_BLOCK s b, s)
       else if new < clen s b then do { s' \<leftarrow> realloc_shrink b new (clen s b) s; Some (PTR_FROM_BLOCK s b, s') }
       else if new \<le> clen s b + g then do { s' \<leftarrow> realloc_expand b new (clen s b) s; Some (PTR_FROM_BLOCK s b, s') }
       else if \<not> move then Some (0, s)
       else do {
         (ptr_out, s1) \<leftarrow> gc_alloc del globals stacks n_bytes (ftb s b) s;
         if ptr_out = 0 then Some (0, s1)
         else do {
           old \<leftarrow> slice (pool s1) (4 * b) (4 * clen s b);
           p \<leftarrow> blit (pool s1) (4 * BLOCK_FROM_PTR s1 ptr_out) old;
           s' \<leftarrow> gc_free (PTR_FROM_BLOCK s b) (s1\<lparr>pool := p\<rparr>);
           Some (ptr_out, s') } })"
proof -
  have ok: "gtab_ok s" using inv by (simp add: heap_inv_def)
  obtain g where g: "count_blocks s new [b + 1 ..< num_blocks s] 1 0 = Some (clen s b, g)" "b + clen s b + g \<le> num_blocks s"
      "\<forall>c. b + clen s b \<le> c \<and> c < b + clen s b + g \<longrightarrow> kind s c = AT_FREE"
      "new \<le> clen s b + g \<or> b + clen s b + g = num_blocks s \<or> kind s (b + clen s b + g) = AT_HEAD"
    using count_blocks_run [OF inv f1 b, of new] by blast
  have p0: "PTR_FROM_BLOCK s b \<noteq> 0" using ptr_block(3) [OF ok b] p by simp
  have k: "ATB_GET_KIND s b = Some AT_HEAD" using get_kind_end [OF ok, of b] b h by simp
  have eq: "gc_realloc del globals stacks (PTR_FROM_BLOCK s b) n_bytes move s =
      (if new = clen s b then Some (PTR_FROM_BLOCK s b, s)
       else if new < clen s b then do { s' \<leftarrow> realloc_shrink b new (clen s b) s; Some (PTR_FROM_BLOCK s b, s') }
       else if new \<le> clen s b + g then do { s' \<leftarrow> realloc_expand b new (clen s b) s; Some (PTR_FROM_BLOCK s b, s') }
       else if \<not> move then Some (0, s)
       else do {
         (ptr_out, s1) \<leftarrow> gc_alloc del globals stacks n_bytes (ftb s b) s;
         if ptr_out = 0 then Some (0, s1)
         else do {
           old \<leftarrow> slice (pool s1) (4 * b) (4 * clen s b);
           p \<leftarrow> blit (pool s1) (4 * BLOCK_FROM_PTR s1 ptr_out) old;
           s' \<leftarrow> gc_free (PTR_FROM_BLOCK s b) (s1\<lparr>pool := p\<rparr>);
           Some (ptr_out, s') } })"
    unfolding gc_realloc_def ptr_block(2) [OF ok b] Let_def k bind.simps new [symmetric] g(1) prod.case
      FTB_GET_ftb [OF ok b]
    using p0 n ptr_block(1) [OF ok b] lock by simp
  have "new > clen s b \<longrightarrow> (new \<le> clen s b + g) = free_run s (b + clen s b) (new - clen s b)"
    using free_run_counted [OF g(2,4,3)] by blast
  then show ?thesis using eq by blast
qed

text \<open>
  \<open>gc_realloc\<close> in place.  If the request fits in the blocks of the object, or the blocks
  missing are free behind it, the pointer stays; the chain has exactly the blocks that the request
  needs, blocks given up are free, the words of the object that remain are unchanged, the words
  of joined blocks are zero, nothing else changes and the heap is consistent.
\<close>

theorem realloc_in_place:
  assumes inv: "heap_inv s" and f1: "\<not> ftb s 1" and lock: "gc_lock_depth s = 0" and b: "b < num_blocks s"
    and h: "kind s b = AT_HEAD" and p: "0 < b + pool_start s"
    and n: "0 < unat n_bytes" "unat n_bytes \<le> 0xFFFFFFF0" "n = (unat n_bytes + 15) div 16"
    and fits: "n \<le> clen s b \<or> free_run s (b + clen s b) (n - clen s b)"
  shows "\<exists>s'. gc_realloc del globals stacks (PTR_FROM_BLOCK s b) n_bytes move s = Some (PTR_FROM_BLOCK s b, s')
    \<and> heap_inv s' \<and> resized s b n s' \<and> length (pool s') = length (pool s)
    \<and> (\<forall>i < length (pool s). pool s' ! i = (if 4 * (b + clen s b) \<le> i \<and> i < 4 * (b + n) then 0 else pool s ! i))"
proof -
  have ok: "gtab_ok s" and eg: "end_guard s" using inv f1 by (simp_all add: heap_inv_def end_guardI)
  have new: "n = unat ((n_bytes + 16 - 1) div 16)" unfolding realloc_blocks using n by simp
  have nz: "n_bytes \<noteq> 0" using n(1) by auto
  have n0: "0 < n" using n(1,3) by simp
  obtain g where g: "n > clen s b \<longrightarrow> (n \<le> clen s b + g) = free_run s (b + clen s b) (n - clen s b)"
      "gc_realloc del globals stacks (PTR_FROM_BLOCK s b) n_bytes move s =
      (if n = clen s b then Some (PTR_FROM_BLOCK s b, s)
       else if n < clen s b then do { s' \<leftarrow> realloc_shrink b n (clen s b) s; Some (PTR_FROM_BLOCK s b, s') }
       else if n \<le> clen s b + g then do { s' \<leftarrow> realloc_expand b n (clen s b) s; Some (PTR_FROM_BLOCK s b, s') }
       else if \<not> move then Some (0, s)
       else do {
         (ptr_out, s1) \<leftarrow> gc_alloc del globals stacks n_bytes (ftb s b) s;
         if ptr_out = 0 then Some (0, s1)
         else do {
           old \<leftarrow> slice (pool s1) (4 * b) (4 * clen s b);
           p \<leftarrow> blit (pool s1) (4 * BLOCK_FROM_PTR s1 ptr_out) old;
           s' \<leftarrow> gc_free (PTR_FROM_BLOCK s b) (s1\<lparr>pool := p\<rparr>);
           Some (ptr_out, s') } })"
    using realloc_start [OF inv f1 lock b h p nz new, of del globals stacks move] by blast
  consider "n = clen s b" | "n < clen s b" | "clen s b < n" by linarith
  then show ?thesis
  proof cases
    case 1
    then show ?thesis using g(2) inv by (intro exI [of _ s]) (auto simp: resized_def)
  next
    case 2
    obtain s' where s': "realloc_shrink b n (clen s b) s = Some s'" "resized s b n s'" "gtab_ok s'" "pool s' = pool s"
        "gc_last_free_atb_index s' = min (gc_last_free_atb_index s) ((b + n) div 4)"
      using shrink_run [OF ok eg b 2] by blast
    have "heap_inv s'" using resized_inv [OF inv eg b h n0 s'(2,3)] s'(5) 2 by simp
    then show ?thesis using g(2) s' 2 by auto
  next
    case 3
    then have fr: "free_run s (b + clen s b) (n - clen s b)" using fits by simp
    obtain s' where s': "realloc_expand b n (clen s b) s = Some s'" "resized s b n s'" "gtab_ok s'"
        "gc_last_free_atb_index s' = gc_last_free_atb_index s" "length (pool s') = length (pool s)"
        "\<forall>i < length (pool s). pool s' ! i = (if 4 * (b + clen s b) \<le> i \<and> i < 4 * (b + n) then 0 else pool s ! i)"
      using expand_run [OF ok b 3 fr] by blast
    have "heap_inv s'" using resized_inv [OF inv eg b h n0 s'(2,3)] s'(4) 3 by simp
    then show ?thesis using g s' 3 fr by auto
  qed
qed

theorem realloc_in_place_witness:
  "heap_inv unused_heap \<and> (\<exists>s'. gc_realloc (\<lambda>b. Some) [] [] (PTR_FROM_BLOCK unused_heap 0) 8 True unused_heap
    = Some (PTR_FROM_BLOCK unused_heap 0, s') \<and> heap_inv s' \<and> kind s' 0 = AT_HEAD)"
proof -
  have b: "0 < num_blocks unused_heap" "(0 :: nat) < 0 + pool_start unused_heap"
    by (simp_all add: unused_heap_kinds) (simp add: unused_heap_def small_heap_def)
  have l: "gc_lock_depth unused_heap = 0" by (simp add: unused_heap_def small_heap_def)
  have n: "0 < unat (8 :: u32)" "unat (8 :: u32) \<le> 0xFFFFFFF0" "1 = (unat (8 :: u32) + 15) div 16" by simp_all
  have c: "1 \<le> clen unused_heap 0 \<or> free_run unused_heap (0 + clen unused_heap 0) (1 - clen unused_heap 0)"
    using clen_bound [OF end_guardI [OF unused_heap_inv(2)] b(1)] by simp
  obtain s' where "gc_realloc (\<lambda>b. Some) [] [] (PTR_FROM_BLOCK unused_heap 0) 8 True unused_heap
      = Some (PTR_FROM_BLOCK unused_heap 0, s')" "heap_inv s'" "resized unused_heap 0 1 s'"
    using realloc_in_place [OF unused_heap_inv l b(1) unused_heap_kinds(1) b(2) n c] by blast
  moreover from this(3) have "kind s' 0 = AT_HEAD"
    using b(1) clen_bound [OF end_guardI [OF unused_heap_inv(2)] b(1)] unused_heap_kinds(1) by (simp add: resized_def)
  ultimately show ?thesis using unused_heap_inv(1) by blast
qed

text \<open>
  A request that wraps frees the object and returns its pointer.  For \<open>n_bytes\<close> from
  \<open>0xFFFFFFF1\<close> on, \<open>gc_realloc\<close> computes 0 blocks, because \<open>n_bytes + 15\<close> wraps around 32
  bits.  It takes this for a shrink, frees the head and all tails, and returns the old pointer as
  if the object had grown: the caller holds a pointer to free blocks.
\<close>

theorem realloc_wraps:
  assumes inv: "heap_inv s" and f1: "\<not> ftb s 1" and lock: "gc_lock_depth s = 0" and b: "b < num_blocks s"
    and h: "kind s b = AT_HEAD" and p: "0 < b + pool_start s" and n: "0xFFFFFFF1 \<le> unat n_bytes"
  shows "\<exists>s'. gc_realloc del globals stacks (PTR_FROM_BLOCK s b) n_bytes move s = Some (PTR_FROM_BLOCK s b, s')
    \<and> (\<forall>c < num_blocks s. kind s' c = (if b \<le> c \<and> c < b + clen s b then AT_FREE else kind s c))"
proof -
  have ok: "gtab_ok s" and eg: "end_guard s" using inv f1 by (simp_all add: heap_inv_def end_guardI)
  have new: "0 = unat ((n_bytes + 16 - 1) div 16)" unfolding realloc_blocks using n by simp
  have nz: "n_bytes \<noteq> 0" using n by auto
  have l: "0 < clen s b" using clen_bound [OF eg b] by simp
  obtain s' where s': "realloc_shrink b 0 (clen s b) s = Some s'" "resized s b 0 s'"
    using shrink_run [OF ok eg b l] by blast
  show ?thesis
    using realloc_start [OF inv f1 lock b h p nz new, of del globals stacks move] s' l by (auto simp: resized_def)
qed

theorem realloc_wraps_witness:
  "heap_inv unused_heap \<and> (\<exists>s'. gc_realloc (\<lambda>b. Some) [] [] (PTR_FROM_BLOCK unused_heap 0) 0xFFFFFFFF True unused_heap
    = Some (PTR_FROM_BLOCK unused_heap 0, s') \<and> kind s' 0 = AT_FREE)"
proof -
  have b: "0 < num_blocks unused_heap" "(0 :: nat) < 0 + pool_start unused_heap"
    by (simp_all add: unused_heap_kinds) (simp add: unused_heap_def small_heap_def)
  have l: "gc_lock_depth unused_heap = 0" by (simp add: unused_heap_def small_heap_def)
  have n: "0xFFFFFFF1 \<le> unat (0xFFFFFFFF :: u32)" by simp
  show ?thesis
    using realloc_wraps [OF unused_heap_inv l b(1) unused_heap_kinds(1) b(2) n, of "\<lambda>b. Some" "[]" "[]" True] b
      unused_heap_inv(1) clen_bound [OF end_guardI [OF unused_heap_inv(2)] b(1)] by auto
qed

subsection \<open>Reallocation that moves the object\<close>

lemma clen_eqI:
  assumes "\<And>i. 0 < i \<Longrightarrow> i < l \<Longrightarrow> kind s (b + i) = AT_TAIL" and "kind s (b + l) \<noteq> AT_TAIL" and "0 < l"
  shows "clen s b = l"
  unfolding clen_def using assms by (intro Least_equality) (auto simp: not_less [symmetric])

lemma root_live:
  assumes "gtab_ok s" and "b < num_blocks s" and "kind s b = AT_HEAD" and "PTR_FROM_BLOCK s b \<in> set roots"
    and "b \<le> c" and "c < b + clen s b"
  shows "c \<in> live s roots"
proof -
  have "b \<in> targets s roots" using ptr_block [OF assms(1,2)] assms by (auto simp: targets_def heads_def)
  then have "b \<in> reach s roots" by (rule reach.root)
  then show ?thesis using assms(5,6) by (auto simp: live_def)
qed

lemma collections_root:
  assumes "collections del globals stacks s s1" and "del_ok del" and "anchored globals stacks s" and "b < num_blocks s"
    and "kind s b = AT_HEAD" and "PTR_FROM_BLOCK s b \<in> set (globals @ concat stacks)"
  shows "anchored globals stacks s1 \<and> pool_start s1 = pool_start s \<and> num_blocks s1 = num_blocks s
    \<and> kind s1 b = AT_HEAD \<and> clen s1 b = clen s b"
  using assms
proof induction
  case (collect s s1 s2)
  then have I: "anchored globals stacks s1" "pool_start s1 = pool_start s" "num_blocks s1 = num_blocks s"
      "kind s1 b = AT_HEAD" "clen s1 b = clen s b"
    by blast+
  obtain s2' where s2': "gc_collect del globals stacks s1 = Some s2'" "anchored globals stacks s2'"
      "pool_start s2' = pool_start s1" "atb_len s2' = atb_len s1"
      "\<forall>b < num_blocks s1. kind s2' b = (if b \<in> live s1 (globals @ concat stacks) then kind s1 b else AT_FREE)"
    using collect_keeps [OF I(1) collect.prems(1)] by blast
  have e: "s2' = s2" using s2'(1) collect.hyps(2) by simp
  have nb: "num_blocks s2 = num_blocks s1" using s2'(4) e by (simp add: num_blocks_def)
  have g: "gtab_ok s1" "end_guard s1" "end_guard s2"
    using I(1) s2'(2) e by (auto simp: anchored_def heap_inv_def end_guardI)
  have b: "b < num_blocks s1" using collect.prems(3) I(3) by simp
  have root: "PTR_FROM_BLOCK s1 b \<in> set (globals @ concat stacks)"
    using collect.prems(5) I(2) by (simp add: PTR_FROM_BLOCK_def)
  have len: "0 < clen s1 b" "kind s1 (b + clen s1 b) \<noteq> AT_TAIL" "b + clen s1 b \<le> num_blocks s1"
    using clen_bound [OF g(2) b] by simp_all
  have same: "kind s2 c = kind s1 c" if "b \<le> c" "c < b + clen s1 b" for c
    using s2'(5) root_live [OF g(1) b I(4) root that] that len(3) e by simp
  have "clen s2 b = clen s1 b"
  proof (rule clen_eqI)
    show "kind s2 (b + i) = AT_TAIL" if "0 < i" "i < clen s1 b" for i
      using same [of "b + i"] that clen_tail [of i s1 b] by simp
    show "kind s2 (b + clen s1 b) \<noteq> AT_TAIL"
    proof (cases "b + clen s1 b < num_blocks s1")
      case True
      then show ?thesis using s2'(5) e len(2) by auto
    next
      case False
      then show ?thesis using g(3) len(3) nb by (simp add: end_guard_def)
    qed
  qed (rule len(1))
  then show ?case using same [of b] len(1) I s2' e nb by simp
qed simp

lemma heap_inv_pool: "length p = length (pool s) \<Longrightarrow> heap_inv (s\<lparr>pool := p\<rparr>) = heap_inv s"
  by (simp add: heap_inv_def tails_ok_def marked_def last_free_ok_def)

text \<open>An object outside of a new one keeps its blocks, its words and its length.\<close>

lemma old_object_kept:
  assumes "gtab_ok s" and "end_guard s" and "end_guard s'" and "num_blocks s' = num_blocks s"
    and new: "new_object s d n s'" and n: "0 < n" and b: "b < num_blocks s" and h: "kind s b = AT_HEAD"
  shows "kind s' b = AT_HEAD" and "clen s' b = clen s b"
    and "b + clen s b \<le> d \<or> d + n \<le> b"
    and "take (4 * clen s b) (drop (4 * b) (pool s')) = take (4 * clen s b) (drop (4 * b) (pool s))"
proof -
  have len: "0 < clen s b" "kind s (b + clen s b) \<noteq> AT_TAIL" "b + clen s b \<le> num_blocks s"
    using clen_bound [OF assms(2) b] by simp_all
  have free: "\<And>c. d \<le> c \<Longrightarrow> c < d + n \<Longrightarrow> kind s c = AT_FREE" and hi: "d + n \<le> num_blocks s"
    and k: "\<And>c. c < num_blocks s \<Longrightarrow> kind s' c = (if c = d then AT_HEAD else if d < c \<and> c < d + n then AT_TAIL else kind s c)"
    and lp: "length (pool s') = length (pool s)"
    and w: "\<And>i. i < length (pool s) \<Longrightarrow> pool s' ! i = (if 4 * d \<le> i \<and> i < 4 * (d + n) then 0 else pool s ! i)"
    using new by (simp_all add: new_object_def)
  have used: "kind s c \<noteq> AT_FREE" if "b \<le> c" "c < b + clen s b" for c
    using that h clen_tail [of "c - b" s b] by (cases "c = b") auto
  show apart: "b + clen s b \<le> d \<or> d + n \<le> b"
  proof (rule ccontr)
    assume "\<not> (b + clen s b \<le> d \<or> d + n \<le> b)"
    then have "b \<le> max b d" "max b d < b + clen s b" "d \<le> max b d" "max b d < d + n" using len(1) n by auto
    then show False using used [of "max b d"] free [of "max b d"] by simp
  qed
  have same: "kind s' c = kind s c" if "b \<le> c" "c < b + clen s b" for c
  proof -
    have "c \<noteq> d" using used [OF that] free [of d] n by auto
    moreover have "\<not> (d < c \<and> c < d + n)" using apart that by auto
    ultimately show ?thesis using k [of c] that len(3) by auto
  qed
  show "kind s' b = AT_HEAD" using same [of b] len(1) h by simp
  show "clen s' b = clen s b"
  proof (rule clen_eqI)
    show "kind s' (b + i) = AT_TAIL" if "0 < i" "i < clen s b" for i
      using same [of "b + i"] that clen_tail [of i s b] by simp
    show "kind s' (b + clen s b) \<noteq> AT_TAIL"
    proof (cases "b + clen s b < num_blocks s")
      case True
      have "\<not> (d < b + clen s b \<and> b + clen s b < d + n)" using apart len(1) by auto
      moreover have "d \<noteq> b + clen s b \<or> kind s' (b + clen s b) = AT_HEAD" using k [of d] True by auto
      ultimately show ?thesis using k [of "b + clen s b"] len(2) True by auto
    next
      case False
      then show ?thesis using assms(3,4) len(3) by (simp add: end_guard_def)
    qed
  qed (rule len(1))
  have l: "length (pool s) = 4 * num_blocks s" using assms(1) by (simp add: gtab_ok_def)
  show "take (4 * clen s b) (drop (4 * b) (pool s')) = take (4 * clen s b) (drop (4 * b) (pool s))"
  proof (rule nth_equalityI)
    fix i assume "i < length (take (4 * clen s b) (drop (4 * b) (pool s')))"
    then have i: "i < 4 * clen s b" "4 * b + i < length (pool s)" using lp by auto
    have "\<not> (4 * d \<le> 4 * b + i \<and> 4 * b + i < 4 * (d + n))" using apart i by auto
    then show "take (4 * clen s b) (drop (4 * b) (pool s')) ! i = take (4 * clen s b) (drop (4 * b) (pool s)) ! i"
      using i lp w [of "4 * b + i"] by auto
  qed (simp add: lp)
qed

text \<open>The copy of the old object into the new one, whose words are zero, and the release of the old blocks.\<close>

lemma moved_words:
  assumes ok: "gtab_ok s1" and new: "new_object s1 d n s2" and len: "b + m \<le> num_blocks s1" "m \<le> n"
  shows "\<exists>t. blit (pool s2) (4 * d) (take (4 * m) (drop (4 * b) (pool s1))) = Some t \<and> length t = length (pool s2)
    \<and> (\<forall>i < 4 * n. t ! (4 * d + i) = (if i < 4 * m then pool s1 ! (4 * b + i) else 0))"
proof -
  let ?old = "take (4 * m) (drop (4 * b) (pool s1))"
  have l1: "length (pool s1) = 4 * num_blocks s1" using ok by (simp add: gtab_ok_def)
  have hi: "d + n \<le> num_blocks s1" and lp: "length (pool s2) = length (pool s1)"
    and w2: "\<And>i. i < length (pool s1) \<Longrightarrow> pool s2 ! i = (if 4 * d \<le> i \<and> i < 4 * (d + n) then 0 else pool s1 ! i)"
    using new by (simp_all add: new_object_def)
  have lo: "length ?old = 4 * m" using l1 len(1) by simp
  have "4 * d + length ?old \<le> length (pool s2)" using lo lp l1 hi len(2) by simp
  moreover have "pool s2 ! (4 * d + i) = 0" if "i < 4 * n" for i using w2 [of "4 * d + i"] that l1 hi by simp
  ultimately show ?thesis using lo lp l1 hi len by (auto simp: blit_def nth_append min_def)
qed

lemma object_moved:
  assumes g: "gtab_ok s1" "end_guard s1" and inv: "heap_inv s2" "gc_lock_depth s2 = 0" "num_blocks s2 = num_blocks s1" "\<not> ftb s2 1"
    and new: "new_object s1 d n s2" and b: "b < num_blocks s1" "kind s1 b = AT_HEAD" "0 < b + pool_start s2" and n: "clen s1 b < n"
  shows "\<exists>old t s'. slice (pool s2) (4 * b) (4 * clen s1 b) = Some old \<and> blit (pool s2) (4 * d) old = Some t
    \<and> gc_free (PTR_FROM_BLOCK s2 b) (s2\<lparr>pool := t\<rparr>) = Some s' \<and> heap_inv s'
    \<and> (\<forall>c < num_blocks s1. kind s' c = (if c = d then AT_HEAD else if d < c \<and> c < d + n then AT_TAIL
         else if b \<le> c \<and> c < b + clen s1 b then AT_FREE else kind s1 c))
    \<and> (\<forall>i < 4 * n. pool s' ! (4 * d + i) = (if i < 4 * clen s1 b then pool s1 ! (4 * b + i) else 0))"
proof -
  have eg: "end_guard s2" using inv(1,4) by (auto simp: heap_inv_def end_guardI)
  have n0: "0 < n" using n by simp
  note old = old_object_kept [OF g eg inv(3) new n0 b(1,2)]
  have len: "b + clen s1 b \<le> num_blocks s1" using clen_bound [OF g(2) b(1)] by simp
  obtain t where t: "blit (pool s2) (4 * d) (take (4 * clen s1 b) (drop (4 * b) (pool s1))) = Some t" "length t = length (pool s2)"
      "\<forall>i < 4 * n. t ! (4 * d + i) = (if i < 4 * clen s1 b then pool s1 ! (4 * b + i) else 0)"
    using moved_words [OF g(1) new len] n by auto
  have sl: "slice (pool s2) (4 * b) (4 * clen s1 b) = Some (take (4 * clen s1 b) (drop (4 * b) (pool s1)))"
    using old(4) g(1) new len by (simp add: slice_def gtab_ok_def new_object_def)
  define s3 where "s3 = s2\<lparr>pool := t\<rparr>"
  have s3: "heap_inv s3" "\<not> ftb s3 1" "gc_lock_depth s3 = 0" "num_blocks s3 = num_blocks s1" "kind s3 = kind s2"
    using inv t(2) by (simp_all add: s3_def heap_inv_pool)
  have b3: "b < num_blocks s3" "kind s3 b = AT_HEAD" "0 < b + pool_start s3" "clen s3 b = clen s1 b"
    "PTR_FROM_BLOCK s3 b = PTR_FROM_BLOCK s2 b"
    using b(1,3) old(1,2) s3 by (simp_all add: clen_def s3_def PTR_FROM_BLOCK_def)
  obtain s' where s': "gc_free (PTR_FROM_BLOCK s3 b) s3 = Some s'" "heap_inv s'" "pool s' = pool s3"
      "\<forall>c < num_blocks s3. kind s' c = (if b \<le> c \<and> c < b + clen s3 b then AT_FREE else kind s3 c)"
    using gc_free_run [OF s3(1-3) b3(1-3)] by blast
  have kinds: "kind s' c = (if c = d then AT_HEAD else if d < c \<and> c < d + n then AT_TAIL
      else if b \<le> c \<and> c < b + clen s1 b then AT_FREE else kind s1 c)" if c: "c < num_blocks s1" for c
  proof -
    have "kind s' c = (if b \<le> c \<and> c < b + clen s1 b then AT_FREE else kind s2 c)"
      using s'(4) s3(4,5) b3(4) c by simp
    moreover have "\<not> (b \<le> c \<and> c < b + clen s1 b \<and> d \<le> c \<and> c < d + n)" using old(3) by auto
    ultimately show ?thesis using new c n0 by (auto simp: new_object_def)
  qed
  have "\<forall>i < 4 * n. pool s' ! (4 * d + i) = (if i < 4 * clen s1 b then pool s1 ! (4 * b + i) else 0)"
    using t(3) s'(3) by (simp add: s3_def)
  moreover have "gc_free (PTR_FROM_BLOCK s2 b) (s2\<lparr>pool := t\<rparr>) = Some s'"
    using s'(1) unfolding b3(5) by (simp add: s3_def)
  ultimately show ?thesis using sl t(1) s'(2) kinds by blast
qed

text \<open>Blocks that are free stay free in a collection.\<close>

lemma collections_free:
  assumes "collections del globals stacks s s1" and "del_ok del" and "anchored globals stacks s"
  shows "anchored globals stacks s1 \<and> num_blocks s1 = num_blocks s \<and> (\<forall>d n. free_run s d n \<longrightarrow> free_run s1 d n)"
  using assms
proof induction
  case (collect s s1 s2)
  then have I: "anchored globals stacks s1" "num_blocks s1 = num_blocks s" "\<And>d n. free_run s d n \<Longrightarrow> free_run s1 d n"
    by blast+
  obtain s2' where s2': "gc_collect del globals stacks s1 = Some s2'" "anchored globals stacks s2'" "atb_len s2' = atb_len s1"
      "\<forall>b < num_blocks s1. kind s2' b = (if b \<in> live s1 (globals @ concat stacks) then kind s1 b else AT_FREE)"
    using collect_keeps [OF I(1) collect.prems(1)] by blast
  have e: "s2' = s2" using s2'(1) collect.hyps(2) by simp
  have "num_blocks s2 = num_blocks s1" using s2'(3) e by (simp add: num_blocks_def)
  then show ?case using I s2' e by (auto simp: free_run_def)
qed simp

text \<open>
  C18. \<open>gc_realloc\<close> that moves.  If the object, which a root points to and which has no finaliser,
  is too short and the blocks behind it are not free, then a call that must not move it returns \<open>NULL\<close>
  and changes nothing.  A call that may move it searches for the blocks.  It returns \<open>NULL\<close> only when there is no run of
  enough free blocks, which is after a collection if collections are enabled, and the
  object is still there with its length; otherwise it returns a new object of
  the length requested, made of blocks that were free after the collections of the search, which
  starts with all the words of the old object followed by zeros, while exactly the blocks of the
  old object become free and all other blocks keep their kind.
\<close>

theorem realloc_moves:
  assumes a: "anchored globals stacks s" and del: "del_ok del" and lock: "gc_lock_depth s = 0" and b: "b < num_blocks s"
    and h: "kind s b = AT_HEAD" and p: "0 < b + pool_start s" and fin: "\<not> ftb s b"
    and root: "PTR_FROM_BLOCK s b \<in> set (globals @ concat stacks)"
    and n: "0 < unat n_bytes" "unat n_bytes \<le> 0xFFFFFFF0" "n = (unat n_bytes + 15) div 16"
    and big: "clen s b < n" "\<not> free_run s (b + clen s b) (n - clen s b)"
  shows "gc_realloc del globals stacks (PTR_FROM_BLOCK s b) n_bytes False s = Some (0, s)
    \<and> (\<exists>q s' s1. gc_realloc del globals stacks (PTR_FROM_BLOCK s b) n_bytes True s = Some (q, s')
    \<and> collections del globals stacks s s1 \<and> heap_inv s' \<and> kind s1 b = AT_HEAD \<and> clen s1 b = clen s b
    \<and> (if q = 0 then s' = s1 \<and> (\<forall>d. \<not> free_run s1 d n)
         \<and> (gc_auto_collect_enabled s \<longrightarrow> (\<exists>s0. gc_collect del globals stacks s0 = Some s1))
       else \<exists>d. q = PTR_FROM_BLOCK s d \<and> free_run s1 d n
         \<and> (\<forall>c < num_blocks s. kind s' c = (if c = d then AT_HEAD else if d < c \<and> c < d + n then AT_TAIL
              else if b \<le> c \<and> c < b + clen s b then AT_FREE else kind s1 c))
         \<and> (\<forall>i < 4 * n. pool s' ! (4 * d + i) = (if i < 4 * clen s b then pool s1 ! (4 * b + i) else 0))))"
    (is "?stays \<and> ?moves")
proof -
  have inv: "heap_inv s" and f1: "\<not> ftb s 1" using a by (simp_all add: anchored_def)
  have new: "n = unat ((n_bytes + 16 - 1) div 16)" unfolding realloc_blocks using n by simp
  have nz: "n_bytes \<noteq> 0" using n(1) by auto
  have start: "gc_realloc del globals stacks (PTR_FROM_BLOCK s b) n_bytes True s = do {
         (ptr_out, s1) \<leftarrow> gc_alloc del globals stacks n_bytes False s;
         if ptr_out = 0 then Some (0, s1)
         else do {
           old \<leftarrow> slice (pool s1) (4 * b) (4 * clen s b);
           p \<leftarrow> blit (pool s1) (4 * BLOCK_FROM_PTR s1 ptr_out) old;
           s' \<leftarrow> gc_free (PTR_FROM_BLOCK s b) (s1\<lparr>pool := p\<rparr>);
           Some (ptr_out, s') } }"
    using realloc_start [OF inv f1 lock b h p nz new, of del globals stacks True] big fin by auto
  have stays: ?stays using realloc_start [OF inv f1 lock b h p nz new, of del globals stacks False] big by auto
  obtain q s2 s1 where al: "gc_alloc del globals stacks n_bytes False s = Some (q, s2)" "collections del globals stacks s s1"
      "anchored globals stacks s1" "heap_inv s2" "gc_lock_depth s2 = 0" "pool_start s2 = pool_start s"
      "num_blocks s2 = num_blocks s1"
    and res: "if q = 0 then s2 = s1 \<and> (\<forall>b. \<not> free_run s1 b n)
         \<and> (gc_auto_collect_enabled s \<longrightarrow> (\<exists>s0. gc_collect del globals stacks s0 = Some s1))
       else \<exists>d. q = of_nat (pool_start s + 16 * d) \<and> new_object s1 d n s2 \<and> ftb s2 = (ftb s1)(d := False \<or> ftb s1 d)"
    using alloc_run [OF a del lock n(1,2), of False] unfolding n(3) [symmetric] by blast
  have kept: "num_blocks s1 = num_blocks s" "kind s1 b = AT_HEAD" "clen s1 b = clen s b"
    using collections_root [OF al(2) del a b h root] by simp_all
  have ?moves
  proof (cases "q = 0")
    case True
    then show ?thesis using start al(1,2,4) res kept by (intro exI [of _ 0] exI [of _ s1]) auto
  next
    case False
    then obtain d where d: "q = PTR_FROM_BLOCK s d" "new_object s1 d n s2" "ftb s2 = ftb s1"
      using res by (auto simp: PTR_FROM_BLOCK_def add.commute mult.commute)
    have hi: "d + n \<le> num_blocks s1" and fr: "free_run s1 d n" using d(2) by (simp_all add: new_object_def free_run_def)
    have g: "gtab_ok s1" "end_guard s1" "\<not> ftb s2 1" "gtab_ok s2"
      using al(3,4) d(3) by (auto simp: anchored_def heap_inv_def end_guardI)
    have b1: "b < num_blocks s1" "0 < b + pool_start s2" "clen s1 b < n" using b p al(6) kept big(1) by simp_all
    obtain old t s' where m: "slice (pool s2) (4 * b) (4 * clen s b) = Some old" "blit (pool s2) (4 * d) old = Some t"
        "gc_free (PTR_FROM_BLOCK s2 b) (s2\<lparr>pool := t\<rparr>) = Some s'" "heap_inv s'"
      and res: "\<forall>c < num_blocks s. kind s' c = (if c = d then AT_HEAD else if d < c \<and> c < d + n then AT_TAIL
          else if b \<le> c \<and> c < b + clen s b then AT_FREE else kind s1 c)"
        "\<forall>i < 4 * n. pool s' ! (4 * d + i) = (if i < 4 * clen s b then pool s1 ! (4 * b + i) else 0)"
      using object_moved [OF g(1,2) al(4,5,7) g(3) d(2) b1(1) kept(2) b1(2,3)] unfolding kept(1,3) by blast
    have eqp: "PTR_FROM_BLOCK s2 = PTR_FROM_BLOCK s" using al(6) by (simp add: PTR_FROM_BLOCK_def fun_eq_iff)
    have db: "BLOCK_FROM_PTR s2 (PTR_FROM_BLOCK s d) = d"
      using ptr_block(2) [OF g(4), of d] hi al(7) big(1) unfolding eqp by simp
    have run: "gc_realloc del globals stacks (PTR_FROM_BLOCK s b) n_bytes True s = Some (q, s')"
      unfolding start al(1) bind.simps prod.case if_not_P [OF False] m(1) d(1) db m(2)
      using m(3) False d(1) unfolding eqp by simp
    show ?thesis
      by (intro exI [of _ q] exI [of _ s'] exI [of _ s1] conjI run al(2) m(4) kept(2,3))
        (simp only: if_not_P [OF False], intro exI [of _ d] conjI d(1) fr res)
  qed
  with stays show ?thesis by blast
qed

definition wide_heap :: gc where
  "wide_heap = small_heap\<lparr>gtab := [0x19, 0, 0], atb_len := 2, pool := replicate 32 0\<rparr>"

lemma wide_heap_kinds:
  "kind wide_heap 0 = AT_HEAD" "kind wide_heap (Suc 0) = AT_TAIL" "kind wide_heap 2 = AT_HEAD" "num_blocks wide_heap = 8"
  "2 < c \<Longrightarrow> c < 8 \<Longrightarrow> kind wide_heap c = AT_FREE"
proof -
  show "kind wide_heap 0 = AT_HEAD" "kind wide_heap (Suc 0) = AT_TAIL" "kind wide_heap 2 = AT_HEAD" "num_blocks wide_heap = 8"
    by (simp_all add: kind_def wide_heap_def small_heap_def BLOCK_SHIFT_def AT_defs num_blocks_def)
  assume "2 < c" "c < 8"
  then have "c = 3 \<or> c = 4 \<or> c = 5 \<or> c = 6 \<or> c = 7" by auto
  then show "kind wide_heap c = AT_FREE"
    by (elim disjE) (simp_all add: kind_def wide_heap_def small_heap_def BLOCK_SHIFT_def AT_defs num_blocks_def)
qed

lemma wide_heap_anchored: "anchored [7] [[3, 0x1000]] wide_heap" "gc_lock_depth wide_heap = 0"
proof -
  have block: "kind wide_heap b = AT_HEAD \<or> b = 1 \<and> kind wide_heap b = AT_TAIL \<or> kind wide_heap b = AT_FREE"
    if "b < num_blocks wide_heap" for b
  proof (cases "2 < b")
    case True
    then show ?thesis using that wide_heap_kinds(5) by (simp add: wide_heap_kinds(4))
  next
    case False
    then have "b = 0 \<or> b = 1 \<or> b = 2" by auto
    then show ?thesis using wide_heap_kinds by auto
  qed
  have "gtab_ok wide_heap" by (simp add: gtab_ok_def wide_heap_def small_heap_def num_blocks_def pool_end_def)
  moreover have "tails_ok wide_heap" using block by (fastforce simp: tails_ok_def wide_heap_kinds(1))
  moreover have "marked wide_heap = {}" using block by (fastforce simp: marked_def)
  moreover have "last_free_ok wide_heap" by (simp add: last_free_ok_def wide_heap_def small_heap_def)
  moreover have "\<not> ftb wide_heap 1" by (simp add: ftb_def wide_heap_def small_heap_def)
  moreover have "(of_nat (pool_start wide_heap) :: u32) \<in> set ([7] @ concat [[3, 0x1000]])"
    by (simp add: wide_heap_def small_heap_def)
  ultimately show "anchored [7] [[3, 0x1000]] wide_heap"
    unfolding anchored_def heap_inv_def using wide_heap_kinds(1) by blast
  show "gc_lock_depth wide_heap = 0" by (simp add: wide_heap_def small_heap_def)
qed

lemma wide_heap_object: "clen wide_heap 0 = 2"
proof (rule clen_eqI)
  show "kind wide_heap (0 + i) = AT_TAIL" if "0 < i" "i < 2" for i
    using that wide_heap_kinds(2) by (cases i) auto
  show "kind wide_heap (0 + 2) \<noteq> AT_TAIL" using wide_heap_kinds(3) by (simp only: add_0_left AT_distinct) simp
qed simp

theorem realloc_moves_witness:
  "anchored [7] [[3, 0x1000]] wide_heap
    \<and> gc_realloc (\<lambda>b. Some) [7] [[3, 0x1000]] (PTR_FROM_BLOCK wide_heap 0) 48 False wide_heap = Some (0, wide_heap)
    \<and> (\<exists>q s' d. gc_realloc (\<lambda>b. Some) [7] [[3, 0x1000]] (PTR_FROM_BLOCK wide_heap 0) 48 True wide_heap = Some (q, s')
      \<and> q \<noteq> 0 \<and> q = PTR_FROM_BLOCK wide_heap d \<and> heap_inv s' \<and> kind s' d = AT_HEAD \<and> kind s' 0 = AT_FREE)"
proof -
  have b: "0 < num_blocks wide_heap" "(0 :: nat) < 0 + pool_start wide_heap" "\<not> ftb wide_heap 0"
    by (simp_all add: wide_heap_kinds) (simp_all add: wide_heap_def small_heap_def ftb_def)
  have r: "PTR_FROM_BLOCK wide_heap 0 \<in> set ([7] @ concat [[3, 0x1000]])"
    by (simp add: PTR_FROM_BLOCK_def wide_heap_def small_heap_def)
  have n: "0 < unat (48 :: u32)" "unat (48 :: u32) \<le> 0xFFFFFFF0" "3 = (unat (48 :: u32) + 15) div 16" by simp_all
  have big: "clen wide_heap 0 < 3" "\<not> free_run wide_heap (0 + clen wide_heap 0) (3 - clen wide_heap 0)"
    using wide_heap_kinds(3) by (auto simp: wide_heap_object free_run_def numeral_2_eq_2 [symmetric])
  obtain q s' s1 where m: "gc_realloc (\<lambda>b. Some) [7] [[3, 0x1000]] (PTR_FROM_BLOCK wide_heap 0) 48 True wide_heap = Some (q, s')"
      "collections (\<lambda>b. Some) [7] [[3, 0x1000]] wide_heap s1" "heap_inv s'" "kind s1 0 = AT_HEAD"
    and res: "if q = 0 then s' = s1 \<and> (\<forall>d. \<not> free_run s1 d 3)
         \<and> (gc_auto_collect_enabled wide_heap \<longrightarrow> (\<exists>s0. gc_collect (\<lambda>b. Some) [7] [[3, 0x1000]] s0 = Some s1))
       else \<exists>d. q = PTR_FROM_BLOCK wide_heap d \<and> free_run s1 d 3
         \<and> (\<forall>c < num_blocks wide_heap. kind s' c = (if c = d then AT_HEAD else if d < c \<and> c < d + 3 then AT_TAIL
              else if 0 \<le> c \<and> c < 0 + clen wide_heap 0 then AT_FREE else kind s1 c))
         \<and> (\<forall>i < 4 * 3. pool s' ! (4 * d + i) = (if i < 4 * clen wide_heap 0 then pool s1 ! (4 * 0 + i) else 0))"
    and stays: "gc_realloc (\<lambda>b. Some) [7] [[3, 0x1000]] (PTR_FROM_BLOCK wide_heap 0) 48 False wide_heap = Some (0, wide_heap)"
    using realloc_moves [OF wide_heap_anchored(1) del_none wide_heap_anchored(2) b(1) wide_heap_kinds(1) b(2,3) r n big] by blast
  have "free_run wide_heap 3 3" using wide_heap_kinds(4,5) by (simp add: free_run_def)
  then have "free_run s1 3 3" and nb: "num_blocks s1 = 8"
    using collections_free [OF m(2) del_none wide_heap_anchored(1)] wide_heap_kinds(4) by simp_all
  then have q: "q \<noteq> 0" using res by auto
  then obtain d where d: "q = PTR_FROM_BLOCK wide_heap d" "free_run s1 d 3"
    "\<forall>c < num_blocks wide_heap. kind s' c = (if c = d then AT_HEAD else if d < c \<and> c < d + 3 then AT_TAIL
              else if 0 \<le> c \<and> c < 0 + clen wide_heap 0 then AT_FREE else kind s1 c)"
    using res by auto
  have "kind s1 d = AT_FREE" using d(2) by (simp add: free_run_def)
  then have "d \<noteq> 0" using m(4) by (cases "d = 0") auto
  moreover have "d < 8" using d(2) nb by (simp add: free_run_def)
  ultimately have "kind s' d = AT_HEAD" "kind s' 0 = AT_FREE" using d(3) by (simp_all add: wide_heap_kinds(4) wide_heap_object)
  then show ?thesis using stays m(1,3) q d(1) wide_heap_anchored(1) by blast
qed

subsection \<open>The heap at the start\<close>

text \<open>
  \<open>gc_init\<close> lays the heap out without overlap.  For a region of at least 66 bytes and less
  than 512 megabytes, the assertion on the layout holds: the allocation table of one byte per four
  blocks, behind it the finaliser table, end at or before the pool, which ends at the aligned end of
  the region.  All blocks are free, no finaliser bit is set, the allocator is not locked, and the
  heap is consistent.
\<close>

theorem gc_init_layout:
  assumes "unat start + 66 \<le> unat (end' AND NOT 15)" and "unat (end' AND NOT 15) < unat start + 2 ^ 29"
  shows "\<exists>s. gc_init start end' contents = Some s \<and> heap_inv s \<and> pool_end s = unat (end' AND NOT 15)
    \<and> unat start + length (gtab s) \<le> pool_start s \<and> 0 < num_blocks s \<and> (\<forall>b < num_blocks s. kind s b = AT_FREE)
    \<and> \<not> ftb s 1 \<and> gc_lock_depth s = 0"
proof -
  define e where "e = end' AND NOT (15 :: u32)"
  define T where "T = unat e - unat start"
  have T: "66 \<le> T" "T < 2 ^ 29" "unat e = unat start + T" using assms by (auto simp: T_def e_def)
  have e16: "unat e mod 16 = 0"
  proof -
    have "(15 :: u32) = mask 4" by (simp add: mask_eq_exp_minus_1)
    then have "e AND mask 4 = 0" by (simp add: e_def and.assoc)
    then show ?thesis using unat_and_mask [of e 4] by simp
  qed
  have le: "start \<le> e" using T(3) by (simp add: word_le_nat_alt)
  have ut: "unat (e - start) = T" using le by (simp add: unat_sub T_def)
  define A where "A = T * 8 div 524"
  have A: "524 * A \<le> 8 * T" "0 < A" using T(1) by (auto simp: A_def)
  then have A2: "2 * A < 2 ^ 24" using T(2) by simp
  have ua: "unat ((e - start) * 8 div (8 + 8 * 4 div 8 + 8 * 4 * 16)) = A"
  proof -
    have m: "unat ((e - start) * 8) = T * 8"
      unfolding unat_word_ariths(2) [of "e - start"] ut using T(2) by simp
    have c: "8 + 8 * 4 div 8 + 8 * 4 * 16 = (524 :: u32)" by simp
    show ?thesis unfolding c unat_div m by (simp add: A_def)
  qed
  define a where "a = (e - start) * 8 div (8 + 8 * 4 div 8 + 8 * 4 * 16)"
  have a: "unat a = A" using ua by (simp add: a_def)
  define F where "F = (A * 4 + 7) div 8"
  have "unat (a * 4 + 8 - 1) = A * 4 + 7"
  proof -
    have "a * 4 + 8 - 1 = a * 4 + 7" by simp
    then show ?thesis using a A2 by (simp add: unat_word_ariths)
  qed
  then have uf: "unat ((a * 4 + 8 - 1) div 8) = F" by (simp add: unat_div F_def)
  have ub: "unat (a * 4) = A * 4" "unat (a * 4 * 16) = A * 64" using a A2 by (simp_all add: unat_word_ariths)
  have AF: "A + F + 64 * A \<le> T" using A(1) by (simp add: F_def)
  have up: "unat (e - a * 4 * 16) = unat e - 64 * A"
    using ub(2) AF T(3) by (subst unat_sub) (simp_all add: word_le_nat_alt)
  have us: "unat (start + a + (a * 4 + 8 - 1) div 8) = unat start + A + F"
  proof -
    have lt: "unat start + A + F < 2 ^ 32" using AF T(3) unat_bound [of e] by simp
    then have "unat (start + a) = unat start + A" using a by (simp add: unat_word_ariths)
    then show ?thesis using uf lt by (simp add: unat_word_ariths)
  qed
  have ass: "e - a * 4 * 16 \<ge> start + a + (a * 4 + 8 - 1) div 8"
    using AF T(3) unfolding word_le_nat_alt us up by simp
  define s where "s = \<lparr>gtab = replicate A 0 @ replicate F 0, atb_len = A, pool_start = unat e - 64 * A,
      pool = map contents [0..<A * 4 * 4], gc_stack = [], gc_stack_overflow = False,
      gc_last_free_atb_index = 0, gc_lock_depth = 0, gc_auto_collect_enabled = True,
      gc_alloc_threshold = -1, gc_alloc_amount = 0\<rparr>"
  have init: "gc_init start end' contents = Some s"
    unfolding gc_init_def Let_def e_def [symmetric] a_def [symmetric] if_P [OF ass] uf a up ub(1) s_def ..
  have nb: "num_blocks s = 4 * A" by (simp add: num_blocks_def s_def)
  have ps: "pool_start s = unat e - 64 * A" by (simp add: s_def)
  have pe: "pool_end s = unat e" unfolding pool_end_def nb ps using AF T(3) by simp
  have "(unat e - 64 * A) mod 16 = 0"
  proof -
    obtain m where m: "unat e = 16 * m" using e16 by auto
    then have "unat e - 64 * A = 16 * (m - 4 * A)" by simp
    then show ?thesis by simp
  qed
  then have ok: "gtab_ok s"
    using A(2) pe unat_bound [of e] by (simp add: gtab_ok_def nb) (simp add: s_def F_def mult.commute)
  have kf: "kind s b = AT_FREE" if "b < num_blocks s" for b
  proof -
    have "b div 4 < A" using that unfolding nb by simp
    then show ?thesis by (simp add: kind_def s_def AT_FREE_def nth_append)
  qed
  have "heap_inv s" using ok kf by (auto simp: heap_inv_def tails_ok_def marked_def last_free_ok_def s_def)
  moreover have "\<not> ftb s 1" using A(2) by (simp add: ftb_def s_def nth_append F_def)
  moreover have "unat start + length (gtab s) \<le> pool_start s" using AF T(3) by (simp add: s_def)
  ultimately show ?thesis using init pe kf A(2) nb by (intro exI [of _ s]) (simp add: e_def s_def)
qed

theorem gc_init_layout_witness:
  "\<exists>s. gc_init 0x1000 0x2007 (\<lambda>i. 0) = Some s \<and> heap_inv s \<and> pool_end s = 0x2000"
proof -
  have e: "(0x2007 :: u32) AND NOT 15 = 0x2000" by simp
  have "unat (0x1000 :: u32) + 66 \<le> unat ((0x2007 :: u32) AND NOT 15)"
    "unat ((0x2007 :: u32) AND NOT 15) < unat (0x1000 :: u32) + 2 ^ 29"
    unfolding e by simp_all
  from gc_init_layout [OF this, of "\<lambda>i. 0"] show ?thesis unfolding e by auto
qed

subsection \<open>Reading behind the allocation table\<close>

lemma ftb_kinds:
  "kind s (num_blocks s) = AT_TAIL \<longleftrightarrow> ftb s 1 \<and> \<not> ftb s 0"
  "kind s (num_blocks s + 1) = AT_TAIL \<longleftrightarrow> ftb s 3 \<and> \<not> ftb s 2"
proof -
  have k: "kind s b = AT_TAIL \<longleftrightarrow> bit (kind s b) 1 \<and> \<not> bit (kind s b) 0" for b
    using kind_cases [of s b] by (elim disjE) (simp_all only: AT_bits AT_distinct, simp_all)
  have d: "num_blocks s div 4 = atb_len s" "(num_blocks s + 1) div 4 = atb_len s"
    "BLOCK_SHIFT (num_blocks s) = 0" "BLOCK_SHIFT (num_blocks s + 1) = 2"
    by (simp_all add: num_blocks_def BLOCK_SHIFT_def)
  have f: "ftb s i = bit (gtab s ! atb_len s) i" if "i < 8" for i using that by (simp add: ftb_def)
  have z: "(0 :: nat) < 2" "(1 :: nat) < 2" "(0 :: nat) + 0 = 0" "(0 :: nat) + 1 = 1" "(2 :: nat) + 0 = 2" "(2 :: nat) + 1 = 3"
    by simp_all
  have "bit (kind s (num_blocks s)) 1 = ftb s 1" "bit (kind s (num_blocks s)) 0 = ftb s 0"
    "bit (kind s (num_blocks s + 1)) 1 = ftb s 3" "bit (kind s (num_blocks s + 1)) 0 = ftb s 2"
    unfolding bit_kind [OF z(1)] bit_kind [OF z(2)] d z by (rule f [symmetric], simp)+
  then show "kind s (num_blocks s) = AT_TAIL \<longleftrightarrow> ftb s 1 \<and> \<not> ftb s 0"
    "kind s (num_blocks s + 1) = AT_TAIL \<longleftrightarrow> ftb s 3 \<and> \<not> ftb s 2"
    unfolding k by blast+
qed

lemma free_chain_over:
  assumes "0 < num_blocks s"
  shows "gtab_ok t \<Longrightarrow> num_blocks t = num_blocks s \<Longrightarrow> c \<le> num_blocks s \<Longrightarrow>
    \<forall>d. c < d \<and> d \<le> num_blocks s \<longrightarrow> kind t d = AT_TAIL \<Longrightarrow> kind t (num_blocks s + 1) \<noteq> AT_TAIL \<Longrightarrow>
    \<exists>t'. free_chain c t = Some t' \<and> kind t' (num_blocks s) = AT_FREE \<and> num_blocks t' = num_blocks s"
proof (induction "num_blocks s - c" arbitrary: c t)
  case 0
  then have c: "c = num_blocks s" by simp
  have l: "num_blocks s div 4 < length (gtab t)" "(num_blocks s + 1) div 4 < length (gtab t)"
    using 0(2,3) by (auto simp: gtab_ok_def num_blocks_def)
  have a: "ATB_ANY_TO_FREE c t = Some (set_kind c AT_FREE t)"
  proof -
    have "kind t c AND NOT AT_MARK = AT_FREE"
      using kind_cases [of t c] by (auto simp: AT_defs)
    then show ?thesis using atb_and [OF kind_and_3(5) l(1) [folded c]] by (simp add: ATB_ANY_TO_FREE_def)
  qed
  have k: "kind (set_kind c AT_FREE t) d = (if d = c then AT_FREE else kind t d)" for d
    using l c by (simp add: kind_set_kind kind_and_3)
  have "ATB_GET_KIND (set_kind c AT_FREE t) (c + 1) = Some (kind t (num_blocks s + 1))"
    using l(2) k c by (simp add: get_kind set_kind_same)
  then show ?case using a 0(6) k 0(3) by (subst free_chain.simps) (simp add: c set_kind_same)
next
  case (Suc k)
  have c: "c < num_blocks t" using Suc.hyps(2) Suc.prems(2) by simp
  let ?t = "set_kind c AT_FREE t"
  have kt: "kind ?t d = (if d = c then AT_FREE else kind t d)" for d
    using table_byte [OF Suc.prems(1) c] by (simp add: kind_set_kind kind_and_3)
  have okt: "gtab_ok ?t" "num_blocks ?t = num_blocks s" using Suc.prems by (simp_all add: set_kind_same)
  have "ATB_GET_KIND ?t (c + 1) = Some AT_TAIL"
    using get_kind_end [OF okt(1), of "c + 1"] okt(2) c Suc.prems(2,4) kt by simp
  moreover have "\<exists>t'. free_chain (c + 1) ?t = Some t' \<and> kind t' (num_blocks s) = AT_FREE \<and> num_blocks t' = num_blocks s"
    using Suc.hyps(2) Suc.prems c by (intro Suc.hyps(1) okt) (auto simp: kt)
  ultimately show ?case
    using atb_macros(1) [OF Suc.prems(1) c] by (subst free_chain.simps) simp
qed

lemma chain_blocks_over:
  assumes "gtab_ok s" and "kind s (num_blocks s + 1) \<noteq> AT_TAIL" and "b < num_blocks s"
    and "\<forall>d. b < d \<and> d \<le> num_blocks s \<longrightarrow> kind s d = AT_TAIL"
  shows "0 < n \<Longrightarrow> n \<le> num_blocks s + 1 - b \<Longrightarrow> chain_blocks s b n = Some (num_blocks s + 1 - b)"
proof (induction "num_blocks s + 1 - b - n" arbitrary: n)
  case 0
  then have n: "b + n = num_blocks s + 1" "n = num_blocks s + 1 - b" using assms(3) by auto
  have "(num_blocks s + 1) div 4 < length (gtab s)" using assms(1) by (auto simp: gtab_ok_def num_blocks_def)
  then have "ATB_GET_KIND s (b + n) = Some (kind s (num_blocks s + 1))" unfolding n(1) by (rule get_kind)
  then show ?case using assms(2) n(2) by (subst chain_blocks.simps) simp
next
  case (Suc k)
  then have "b + n \<le> num_blocks s" by simp
  then have "ATB_GET_KIND s (b + n) = Some AT_TAIL"
    using get_kind_end [OF assms(1)] assms(4) Suc.prems(1) by simp
  moreover have "chain_blocks s b (n + 1) = Some (num_blocks s + 1 - b)"
    using Suc.hyps(2) Suc.prems by (intro Suc.hyps(1)) auto
  ultimately show ?case by (subst chain_blocks.simps) simp
qed

text \<open>
  The loops over an object's tails do not stop at the end of the heap.  For an object that
  reaches up to the last block, the next two bits that \<open>ATB_GET_KIND\<close> reads are the finaliser
  bits of the blocks 0 and 1.  If only block 1 has a finaliser, they read as a tail:
  \<open>gc_nbytes\<close> reports 16 bytes more than the object has, and \<open>gc_free\<close> of that object takes
  away the finaliser of block 1, which belongs to another object.
\<close>

theorem chain_runs_into_finalisers:
  assumes ok: "gtab_ok s" and lock: "gc_lock_depth s = 0" and b: "3 < b" "b < num_blocks s" and h: "kind s b = AT_HEAD"
    and tails: "\<forall>d. b < d \<and> d < num_blocks s \<longrightarrow> kind s d = AT_TAIL"
    and f: "ftb s 1" "\<not> ftb s 0" "\<not> ftb s 3"
  shows "gc_nbytes (PTR_FROM_BLOCK s b) s = Some (16 * (num_blocks s - b) + 16)
    \<and> (\<exists>s'. gc_free (PTR_FROM_BLOCK s b) s = Some s' \<and> \<not> ftb s' 1)"
proof -
  note p = ptr_block [OF ok b(2)]
  have k: "ATB_GET_KIND s b = Some AT_HEAD" using get_kind_end [OF ok, of b] b h by simp
  have t: "\<forall>d. b < d \<and> d \<le> num_blocks s \<longrightarrow> kind s d = AT_TAIL"
    using tails f ftb_kinds(1) [of s] by (auto simp: le_less)
  have e: "kind s (num_blocks s + 1) \<noteq> AT_TAIL" using f ftb_kinds(2) [of s] by simp
  have "chain_blocks s b 1 = Some (num_blocks s + 1 - b)"
    using chain_blocks_over [OF ok e b(2) t, of 1] b(2) by simp
  then have nb: "gc_nbytes (PTR_FROM_BLOCK s b) s = Some (16 * (num_blocks s - b) + 16)"
    using p k b(2) by (simp add: gc_nbytes_def Suc_diff_le)
  let ?f = "set_ftb b False s"
  define s1 where "s1 = (if b div 4 < gc_last_free_atb_index s then ?f\<lparr>gc_last_free_atb_index := b div 4\<rparr> else ?f)"
  have s1: "gtab_ok s1" "num_blocks s1 = num_blocks s" "ftb s1 c = (if c = b then False else ftb s c)"
      "kind s1 = kind ?f" for c
    using ok ftb_set_ftb [OF ok b(2), of False c] by (auto simp: s1_def set_ftb_same)
  have kf: "kind s1 c = kind s c" if "c < num_blocks s" for c using that s1(4) by (simp add: kind_set_ftb)
  have "kind s1 (num_blocks s) = AT_TAIL" "kind s1 (num_blocks s + 1) \<noteq> AT_TAIL"
    using ftb_kinds [of s1] s1(2,3) f b(1) by auto
  moreover have "\<forall>d. b < d \<and> d \<le> num_blocks s \<longrightarrow> kind s1 d = AT_TAIL"
    using kf tails \<open>kind s1 (num_blocks s) = AT_TAIL\<close> by (metis le_neq_implies_less)
  ultimately obtain s' where s': "free_chain b s1 = Some s'" "kind s' (num_blocks s) = AT_FREE" "num_blocks s' = num_blocks s"
    using free_chain_over [of s s1 b] s1(1,2) b(2) by auto
  have "gc_free (PTR_FROM_BLOCK s b) s = Some s'"
    unfolding gc_free_def p(2) Let_def k
    using lock p(1,3) b ftb_macros(2) [OF ok b(2)] s'(1) by (auto simp: set_ftb_same s1_def split: if_splits)
  moreover have "\<not> ftb s' 1"
    using bit_kind [of 1 s' "num_blocks s'"] s'(2,3) AT_bits(1) by (simp add: ftb_def num_blocks_def BLOCK_SHIFT_def)
  ultimately show ?thesis using nb by blast
qed

text \<open>A heap of eight blocks: the object in the last four reaches the end, block 1 has a finaliser.\<close>

definition full_heap :: gc where
  "full_heap = small_heap\<lparr>gtab := [0x05, 0xA9, 0x02], atb_len := 2, pool := replicate 32 0\<rparr>"

theorem chain_runs_into_finalisers_witness:
  "gc_nbytes (PTR_FROM_BLOCK full_heap 4) full_heap = Some 80
    \<and> (\<exists>s'. gc_free (PTR_FROM_BLOCK full_heap 4) full_heap = Some s' \<and> \<not> ftb s' 1)"
proof -
  let ?s = full_heap
  have ok: "gtab_ok ?s" by (simp add: gtab_ok_def full_heap_def small_heap_def num_blocks_def pool_end_def)
  have nb: "num_blocks ?s = 8" by (simp add: num_blocks_def full_heap_def)
  have k: "kind ?s 4 = AT_HEAD" "kind ?s 5 = AT_TAIL" "kind ?s 6 = AT_TAIL" "kind ?s 7 = AT_TAIL"
    by (simp_all add: kind_def full_heap_def BLOCK_SHIFT_def AT_defs)
  have t: "\<forall>d. 4 < d \<and> d < num_blocks ?s \<longrightarrow> kind ?s d = AT_TAIL"
  proof (intro allI impI)
    fix d :: nat assume "4 < d \<and> d < num_blocks ?s"
    then have "d = 5 \<or> d = 6 \<or> d = 7" unfolding nb by auto
    then show "kind ?s d = AT_TAIL" using k by (elim disjE) simp_all
  qed
  have f: "ftb ?s 1" "\<not> ftb ?s 0" "\<not> ftb ?s 3"
    by (simp_all add: ftb_def full_heap_def)
  have l: "gc_lock_depth ?s = 0" by (simp add: full_heap_def small_heap_def)
  have b: "(3 :: nat) < 4" "4 < num_blocks ?s" by (simp_all add: nb)
  show ?thesis using chain_runs_into_finalisers [OF ok l b k(1) t f] unfolding nb by simp
qed

end
