(* ===== verification/Py_Map.thy ===== *)
theory Py_Map
  imports Codey_Prelude
begin

text \<open>
  The map that all name spaces and dictionaries of the interpreter are (\<open>py/map.c\<close>, types in
  \<open>py/obj.h\<close>): a hash table with open addressing, deleted slots and growth, or an ordered array
  with linear search.  A slot pointer is an index into the table, \<open>NULL\<close> is \<open>None\<close>; the whole
  result is \<open>None\<close> for an access outside of the table or a null dereference.
\<close>

unbundle bit_operations_syntax

subsection \<open>Objects\<close>

type_synonym mp_obj_t = u32

definition MP_OBJ_NULL :: mp_obj_t where "MP_OBJ_NULL = 0"
definition MP_OBJ_SENTINEL :: mp_obj_t where "MP_OBJ_SENTINEL = 8"

definition MP_OBJ_IS_QSTR :: "mp_obj_t \<Rightarrow> bool" where
  "MP_OBJ_IS_QSTR p \<longleftrightarrow> p AND 3 = 2"

datatype exc = MemoryError | TypeError | KeyError mp_obj_t | ValueError | IndexError | NotImplementedError | RuntimeError
  | OverflowError | ZeroDivisionError | Raised mp_obj_t

text \<open>
  What the map asks of objects, which can be any Python code: equality, the hash (\<open>None\<close> raises
  a type error), whether the object is a string object; and whether an array of so many elements
  can be allocated.
\<close>

record objects =
  mp_obj_equal :: "mp_obj_t \<Rightarrow> mp_obj_t \<Rightarrow> bool"
  mp_obj_hash :: "mp_obj_t \<Rightarrow> u32 option"
  is_type_str :: "mp_obj_t \<Rightarrow> bool"
  can_alloc :: "nat \<Rightarrow> bool"

datatype mp_map_lookup_kind_t = MP_MAP_LOOKUP | MP_MAP_LOOKUP_ADD_IF_NOT_FOUND | MP_MAP_LOOKUP_REMOVE_IF_FOUND
  | MP_MAP_LOOKUP_ADD_IF_NOT_FOUND_OR_REMOVE_IF_FOUND

subsection \<open>Sizes\<close>

definition hash_allocation_sizes :: "nat list" where
  "hash_allocation_sizes = [0, 2, 4, 6, 8, 10, 12,
    17, 23, 29, 37, 47, 59, 73,
    97, 127, 167, 223, 293, 389, 521, 691, 919, 1223, 1627, 2161,
    3229, 4831, 7243, 10861, 16273, 24407, 36607, 54907]"

definition get_hash_alloc_greater_or_equal_to :: "nat \<Rightarrow> nat" where
  "get_hash_alloc_greater_or_equal_to x =
     (case find (\<lambda>n. n \<ge> x) hash_allocation_sizes of Some n \<Rightarrow> n | None \<Rightarrow> (x + x div 2) OR 1)"

subsection \<open>Probing\<close>

text \<open>The slots in the order of the loop: from \<open>start_pos\<close> around the table.\<close>

definition probe_order :: "nat \<Rightarrow> nat \<Rightarrow> nat list" where
  "probe_order start_pos alloc = map (\<lambda>i. (start_pos + i) mod alloc) [0..<alloc]"

text \<open>
  How the loop ends: at a slot with the key, at an empty slot, or back at the start; \<open>avail_slot\<close>
  is the first deleted slot it passed.
\<close>

datatype probe_end = Found nat | Empty nat "nat option" | Around "nat option"

fun probe :: "(mp_obj_t \<Rightarrow> bool) \<Rightarrow> mp_obj_t list \<Rightarrow> nat list \<Rightarrow> nat option \<Rightarrow> probe_end option" where
  "probe is_index keys [] avail_slot = Some (Around avail_slot)"
| "probe is_index keys (pos # ps) avail_slot = do {
     key \<leftarrow> rd keys pos;
     if key = MP_OBJ_NULL then Some (Empty pos avail_slot)
     else if key = MP_OBJ_SENTINEL then
       probe is_index keys ps (if avail_slot = None then Some pos else avail_slot)
     else if is_index key then Some (Found pos)
     else probe is_index keys ps avail_slot }"

subsection \<open>Maps\<close>

record mp_map_t =
  all_keys_are_qstrs :: bool
  is_fixed :: bool
  is_ordered :: bool
  used :: nat
  alloc :: nat
  "table" :: "(mp_obj_t \<times> mp_obj_t) list"

definition new0 :: "nat \<Rightarrow> (mp_obj_t \<times> mp_obj_t) list" where
  "new0 n = replicate n (MP_OBJ_NULL, MP_OBJ_NULL)"

definition mp_map_init :: "objects \<Rightarrow> nat \<Rightarrow> exc + mp_map_t" where
  "mp_map_init env n =
     (if n = 0 then Inr \<lparr>all_keys_are_qstrs = True, is_fixed = False, is_ordered = False, used = 0, alloc = 0, table = []\<rparr>
      else if can_alloc env n then
        Inr \<lparr>all_keys_are_qstrs = True, is_fixed = False, is_ordered = False, used = 0, alloc = n, table = new0 n\<rparr>
      else Inl MemoryError)"

definition mp_map_init_fixed_table :: "nat \<Rightarrow> (mp_obj_t \<times> mp_obj_t) list \<Rightarrow> mp_map_t" where
  "mp_map_init_fixed_table n tab =
     \<lparr>all_keys_are_qstrs = True, is_fixed = True, is_ordered = True, used = n, alloc = n, table = tab\<rparr>"

definition mp_map_deinit :: "mp_map_t \<Rightarrow> mp_map_t" where
  "mp_map_deinit m = (if \<not> is_fixed m then m\<lparr>table := [], used := 0, alloc := 0\<rparr> else m\<lparr>used := 0, alloc := 0\<rparr>)"

definition mp_map_clear :: "mp_map_t \<Rightarrow> mp_map_t" where
  "mp_map_clear m = m\<lparr>alloc := 0, used := 0, all_keys_are_qstrs := True, is_fixed := False, table := []\<rparr>"

definition MP_MAP_SLOT_IS_FILLED :: "mp_map_t \<Rightarrow> nat \<Rightarrow> bool option" where
  "MP_MAP_SLOT_IS_FILLED m pos = do {
     (key, value) \<leftarrow> rd (table m) pos; Some (key \<noteq> MP_OBJ_NULL \<and> key \<noteq> MP_OBJ_SENTINEL) }"

text \<open>Storing a new key in a slot of the table; \<open>used\<close> was counted before.\<close>

definition add_at :: "mp_map_t \<Rightarrow> nat \<Rightarrow> mp_obj_t \<Rightarrow> ((exc + nat option) \<times> mp_map_t) option" where
  "add_at m pos index = do {
     t \<leftarrow> wr (table m) pos (index, MP_OBJ_NULL);
     Some (Inr (Some pos), m\<lparr>used := used m + 1, table := t,
       all_keys_are_qstrs := (if \<not> MP_OBJ_IS_QSTR index then False else all_keys_are_qstrs m)\<rparr>) }"

text \<open>\<open>lookup\<close> is the recursive call of \<open>mp_map_lookup\<close>.\<close>

fun reinsert :: "(mp_map_t \<Rightarrow> mp_obj_t \<Rightarrow> ((exc + nat option) \<times> mp_map_t) option)
    \<Rightarrow> (mp_obj_t \<times> mp_obj_t) list \<Rightarrow> mp_map_t \<Rightarrow> ((exc + unit) \<times> mp_map_t) option" where
  "reinsert lookup [] m = Some (Inr (), m)"
| "reinsert lookup ((key, value) # es) m =
     (if key \<noteq> MP_OBJ_NULL \<and> key \<noteq> MP_OBJ_SENTINEL then do {
        (r, m) \<leftarrow> lookup m key;
        case r of
          Inl e \<Rightarrow> Some (Inl e, m)
        | Inr None \<Rightarrow> None
        | Inr (Some slot) \<Rightarrow> do {
            (k, v) \<leftarrow> rd (table m) slot;
            t \<leftarrow> wr (table m) slot (k, value);
            reinsert lookup es (m\<lparr>table := t\<rparr>) } }
      else reinsert lookup es m)"

definition mp_map_rehash :: "(mp_map_t \<Rightarrow> mp_obj_t \<Rightarrow> ((exc + nat option) \<times> mp_map_t) option)
    \<Rightarrow> objects \<Rightarrow> mp_map_t \<Rightarrow> ((exc + unit) \<times> mp_map_t) option" where
  "mp_map_rehash lookup env m =
     (let new_alloc = get_hash_alloc_greater_or_equal_to (alloc m + 1)
      in if can_alloc env new_alloc
         then reinsert lookup (table m)
           (m\<lparr>alloc := new_alloc, used := 0, all_keys_are_qstrs := True, table := new0 new_alloc\<rparr>)
         else Some (Inl MemoryError, m))"

text \<open>
  The probing loop with the restarts after a rehash, at most \<open>n\<close> of them; \<open>same\<close> is the test of
  a key, \<open>hash\<close> the hash of the index.
\<close>

fun hash_loop :: "nat \<Rightarrow> (mp_map_t \<Rightarrow> mp_obj_t \<Rightarrow> ((exc + nat option) \<times> mp_map_t) option) \<Rightarrow> objects
    \<Rightarrow> (mp_obj_t \<Rightarrow> bool) \<Rightarrow> nat \<Rightarrow> mp_map_t \<Rightarrow> mp_obj_t \<Rightarrow> mp_map_lookup_kind_t
    \<Rightarrow> ((exc + nat option) \<times> mp_map_t) option" where
  "hash_loop 0 lookup env same hash m index lookup_kind = None"
| "hash_loop (Suc n) lookup env same hash m index lookup_kind =
     (case probe same (map fst (table m)) (probe_order (hash mod alloc m) (alloc m)) None of
        None \<Rightarrow> None
      | Some (Empty pos avail_slot) \<Rightarrow>
          (if lookup_kind = MP_MAP_LOOKUP_ADD_IF_NOT_FOUND
           then add_at m (case avail_slot of None \<Rightarrow> pos | Some a \<Rightarrow> a) index
           else Some (Inr None, m))
      | Some (Found pos) \<Rightarrow>
          (if lookup_kind = MP_MAP_LOOKUP_REMOVE_IF_FOUND
           then do {
             (next_key, next_value) \<leftarrow> rd (table m) ((pos + 1) mod alloc m);
             (key, value) \<leftarrow> rd (table m) pos;
             t \<leftarrow> wr (table m) pos (if next_key = MP_OBJ_NULL then MP_OBJ_NULL else MP_OBJ_SENTINEL, value);
             Some (Inr (Some pos), m\<lparr>used := used m - 1, table := t\<rparr>) }
           else Some (Inr (Some pos), m))
      | Some (Around avail_slot) \<Rightarrow>
          (if lookup_kind = MP_MAP_LOOKUP_ADD_IF_NOT_FOUND
           then (case avail_slot of
                   Some a \<Rightarrow> add_at m a index
                 | None \<Rightarrow> do {
                     (r, m) \<leftarrow> mp_map_rehash lookup env m;
                     case r of
                       Inl e \<Rightarrow> Some (Inl e, m)
                     | Inr u \<Rightarrow> hash_loop n lookup env same hash m index lookup_kind })
           else Some (Inr None, m)))"

definition hash_lookup :: "(mp_map_t \<Rightarrow> mp_obj_t \<Rightarrow> ((exc + nat option) \<times> mp_map_t) option) \<Rightarrow> objects
    \<Rightarrow> (mp_obj_t \<Rightarrow> bool) \<Rightarrow> mp_map_t \<Rightarrow> mp_obj_t \<Rightarrow> mp_map_lookup_kind_t
    \<Rightarrow> ((exc + nat option) \<times> mp_map_t) option" where
  "hash_lookup lookup env same m index lookup_kind =
     (if alloc m = 0 \<and> lookup_kind \<noteq> MP_MAP_LOOKUP_ADD_IF_NOT_FOUND then Some (Inr None, m)
      else do {
        (r, m) \<leftarrow> (if alloc m = 0 then mp_map_rehash lookup env m else Some (Inr (), m));
        case r of
          Inl e \<Rightarrow> Some (Inl e, m)
        | Inr u \<Rightarrow>
            (case mp_obj_hash env index of
               None \<Rightarrow> Some (Inl TypeError, m)
             | Some h \<Rightarrow> hash_loop 2 lookup env same (unat h) m index lookup_kind) })"

text \<open>The linear search of an ordered map.\<close>

fun search_ordered :: "(mp_obj_t \<Rightarrow> bool) \<Rightarrow> (mp_obj_t \<times> mp_obj_t) list \<Rightarrow> nat list \<Rightarrow> nat option option" where
  "search_ordered same tab [] = Some None"
| "search_ordered same tab (i # is) = do {
     (key, value) \<leftarrow> rd tab i;
     if same key then Some (Some i) else search_ordered same tab is }"

definition ordered_lookup :: "objects \<Rightarrow> (mp_obj_t \<Rightarrow> bool) \<Rightarrow> mp_map_t \<Rightarrow> mp_obj_t \<Rightarrow> mp_map_lookup_kind_t
    \<Rightarrow> ((exc + nat option) \<times> mp_map_t) option" where
  "ordered_lookup env same m index lookup_kind = do {
     found \<leftarrow> search_ordered same (table m) [0..<used m];
     case found of
       Some i \<Rightarrow>
         (if lookup_kind = MP_MAP_LOOKUP_REMOVE_IF_FOUND then do {
            (key, value) \<leftarrow> rd (table m) i;
            let top = used m;
            rest \<leftarrow> slice (table m) (i + 1) (top - i - 1);
            t \<leftarrow> blit (table m) i rest;
            t \<leftarrow> wr t (top - 1) (MP_OBJ_NULL, value);
            Some (Inr (Some (top - 1)), m\<lparr>used := top - 1, table := t\<rparr>) }
          else Some (Inr (Some i), m))
     | None \<Rightarrow>
         (if lookup_kind \<noteq> MP_MAP_LOOKUP_ADD_IF_NOT_FOUND then Some (Inr None, m)
          else if used m = alloc m \<and> \<not> can_alloc env (alloc m + 4)
            then Some (Inl MemoryError, m\<lparr>alloc := alloc m + 4\<rparr>)
          else let m = (if used m = alloc m
                  then m\<lparr>alloc := alloc m + 4, table := take (used m) (table m) @ new0 4\<rparr> else m) in do {
            (key, value) \<leftarrow> rd (table m) (used m);
            t \<leftarrow> wr (table m) (used m) (index, value);
            Some (Inr (Some (used m)), m\<lparr>used := used m + 1, table := t,
              all_keys_are_qstrs := (if \<not> MP_OBJ_IS_QSTR index then False else all_keys_are_qstrs m)\<rparr>) }) }"

text \<open>
  \<open>mp_map_lookup\<close>.  The recursion goes through \<open>mp_map_rehash\<close>, which looks keys up in a larger
  table; \<open>lookup_depth\<close> bounds its depth, and depth 2 is enough, as proved below.
\<close>

fun lookup_depth :: "nat \<Rightarrow> objects \<Rightarrow> mp_map_t \<Rightarrow> mp_obj_t \<Rightarrow> mp_map_lookup_kind_t
    \<Rightarrow> ((exc + nat option) \<times> mp_map_t) option" where
  "lookup_depth 0 env m index lookup_kind = None"
| "lookup_depth (Suc d) env m index lookup_kind =
     (if is_fixed m \<and> lookup_kind \<noteq> MP_MAP_LOOKUP then None
      else if all_keys_are_qstrs m \<and> \<not> MP_OBJ_IS_QSTR index \<and> \<not> is_type_str env index
          \<and> lookup_kind \<noteq> MP_MAP_LOOKUP_ADD_IF_NOT_FOUND then Some (Inr None, m)
      else let compare_only_ptrs = (all_keys_are_qstrs m \<and> (MP_OBJ_IS_QSTR index \<or> \<not> is_type_str env index));
               same = (\<lambda>key. key = index \<or> \<not> compare_only_ptrs \<and> mp_obj_equal env key index) in
        if is_ordered m then ordered_lookup env same m index lookup_kind
        else hash_lookup (\<lambda>m key. lookup_depth d env m key MP_MAP_LOOKUP_ADD_IF_NOT_FOUND) env same m index lookup_kind)"

definition mp_map_lookup :: "objects \<Rightarrow> mp_map_t \<Rightarrow> mp_obj_t \<Rightarrow> mp_map_lookup_kind_t
    \<Rightarrow> ((exc + nat option) \<times> mp_map_t) option" where
  "mp_map_lookup env = lookup_depth 2 env"

subsection \<open>What the probing loop finds\<close>

definition slot_filled :: "mp_obj_t list \<Rightarrow> nat \<Rightarrow> bool" where
  "slot_filled ks p \<longleftrightarrow> p < length ks \<and> ks ! p \<noteq> MP_OBJ_NULL \<and> ks ! p \<noteq> MP_OBJ_SENTINEL"

text \<open>The slot after \<open>i\<close> steps, and a slot that the loop passes.\<close>

abbreviation slot_at :: "mp_obj_t list \<Rightarrow> nat \<Rightarrow> nat \<Rightarrow> nat" where
  "slot_at ks s i \<equiv> (s + i) mod length ks"

definition passed :: "(mp_obj_t \<Rightarrow> bool) \<Rightarrow> mp_obj_t list \<Rightarrow> nat \<Rightarrow> bool" where
  "passed f ks p \<longleftrightarrow> ks ! p \<noteq> MP_OBJ_NULL \<and> \<not> (slot_filled ks p \<and> f (ks ! p))"

definition avail_ok :: "mp_obj_t list \<Rightarrow> nat \<Rightarrow> nat \<Rightarrow> nat \<Rightarrow> nat option \<Rightarrow> nat option \<Rightarrow> bool" where
  "avail_ok ks s i j av a \<longleftrightarrow>
     a = av \<and> (av = None \<longrightarrow> (\<forall>k. i \<le> k \<and> k < j \<longrightarrow> ks ! slot_at ks s k \<noteq> MP_OBJ_SENTINEL))
   \<or> av = None \<and> (\<exists>k. i \<le> k \<and> k < j \<and> a = Some (slot_at ks s k) \<and> ks ! slot_at ks s k = MP_OBJ_SENTINEL)"

fun probe_result :: "(mp_obj_t \<Rightarrow> bool) \<Rightarrow> mp_obj_t list \<Rightarrow> nat \<Rightarrow> nat \<Rightarrow> nat option \<Rightarrow> probe_end \<Rightarrow> bool" where
  "probe_result f ks s i av (Found p) \<longleftrightarrow> (\<exists>j. i \<le> j \<and> j < length ks \<and> p = slot_at ks s j \<and> slot_filled ks p \<and> f (ks ! p)
     \<and> (\<forall>k. i \<le> k \<and> k < j \<longrightarrow> passed f ks (slot_at ks s k)))"
| "probe_result f ks s i av (Empty p a) \<longleftrightarrow> (\<exists>j. i \<le> j \<and> j < length ks \<and> p = slot_at ks s j \<and> ks ! p = MP_OBJ_NULL
     \<and> (\<forall>k. i \<le> k \<and> k < j \<longrightarrow> passed f ks (slot_at ks s k)) \<and> avail_ok ks s i j av a)"
| "probe_result f ks s i av (Around a) \<longleftrightarrow> (\<forall>k. i \<le> k \<and> k < length ks \<longrightarrow> passed f ks (slot_at ks s k))
     \<and> avail_ok ks s i (length ks) av a"

lemma obj_distinct [simp]: "MP_OBJ_NULL \<noteq> MP_OBJ_SENTINEL" "MP_OBJ_SENTINEL \<noteq> MP_OBJ_NULL"
  by (simp_all add: MP_OBJ_NULL_def MP_OBJ_SENTINEL_def)

lemma all_from: "i < j \<Longrightarrow> (\<forall>k. i \<le> k \<and> k < j \<longrightarrow> P k) \<longleftrightarrow> P i \<and> (\<forall>k. Suc i \<le> k \<and> k < j \<longrightarrow> P k)"
  by (metis Suc_leD Suc_leI le_neq_implies_less le_refl)

lemma avail_step:
  assumes "avail_ok ks s (Suc i) j av' a" and "i < j"
    and "av' = av \<and> (av = None \<longrightarrow> ks ! slot_at ks s i \<noteq> MP_OBJ_SENTINEL)
      \<or> av = None \<and> av' = Some (slot_at ks s i) \<and> ks ! slot_at ks s i = MP_OBJ_SENTINEL"
  shows "avail_ok ks s i j av a"
  using assms(3)
proof
  assume e: "av' = av \<and> (av = None \<longrightarrow> ks ! slot_at ks s i \<noteq> MP_OBJ_SENTINEL)"
  from assms(1) show ?thesis
    unfolding avail_ok_def
  proof
    assume "a = av' \<and> (av' = None \<longrightarrow> (\<forall>k. Suc i \<le> k \<and> k < j \<longrightarrow> ks ! slot_at ks s k \<noteq> MP_OBJ_SENTINEL))"
    then show "a = av \<and> (av = None \<longrightarrow> (\<forall>k. i \<le> k \<and> k < j \<longrightarrow> ks ! slot_at ks s k \<noteq> MP_OBJ_SENTINEL))
      \<or> av = None \<and> (\<exists>k. i \<le> k \<and> k < j \<and> a = Some (slot_at ks s k) \<and> ks ! slot_at ks s k = MP_OBJ_SENTINEL)"
      using e unfolding all_from [OF assms(2)] by blast
  next
    assume "av' = None \<and> (\<exists>k. Suc i \<le> k \<and> k < j \<and> a = Some (slot_at ks s k) \<and> ks ! slot_at ks s k = MP_OBJ_SENTINEL)"
    then show "a = av \<and> (av = None \<longrightarrow> (\<forall>k. i \<le> k \<and> k < j \<longrightarrow> ks ! slot_at ks s k \<noteq> MP_OBJ_SENTINEL))
      \<or> av = None \<and> (\<exists>k. i \<le> k \<and> k < j \<and> a = Some (slot_at ks s k) \<and> ks ! slot_at ks s k = MP_OBJ_SENTINEL)"
      using e by (blast dest: Suc_leD)
  qed
next
  assume "av = None \<and> av' = Some (slot_at ks s i) \<and> ks ! slot_at ks s i = MP_OBJ_SENTINEL"
  then show ?thesis using assms(1,2) unfolding avail_ok_def by blast
qed

lemma probe_result_step:
  assumes "probe_result f ks s (Suc i) av' r" and "i < length ks" and p: "passed f ks (slot_at ks s i)"
    and av: "av' = av \<and> (av = None \<longrightarrow> ks ! slot_at ks s i \<noteq> MP_OBJ_SENTINEL)
      \<or> av = None \<and> av' = Some (slot_at ks s i) \<and> ks ! slot_at ks s i = MP_OBJ_SENTINEL"
  shows "probe_result f ks s i av r"
proof (cases r)
  case (Found q)
  then obtain j where j: "Suc i \<le> j" "j < length ks" "q = slot_at ks s j" "slot_filled ks q" "f (ks ! q)"
      "\<forall>k. Suc i \<le> k \<and> k < j \<longrightarrow> passed f ks (slot_at ks s k)"
    using assms(1) unfolding Found probe_result.simps by blast
  then have "i < j" "i \<le> j" by simp_all
  then have "\<forall>k. i \<le> k \<and> k < j \<longrightarrow> passed f ks (slot_at ks s k)" using p j(6) by (simp add: all_from)
  then show ?thesis using j(2-5) \<open>i \<le> j\<close> unfolding Found probe_result.simps by blast
next
  case (Empty q a)
  then obtain j where j: "Suc i \<le> j" "j < length ks" "q = slot_at ks s j" "ks ! q = MP_OBJ_NULL"
      "\<forall>k. Suc i \<le> k \<and> k < j \<longrightarrow> passed f ks (slot_at ks s k)" "avail_ok ks s (Suc i) j av' a"
    using assms(1) unfolding Empty probe_result.simps by blast
  then have "i < j" "i \<le> j" by simp_all
  then have "\<forall>k. i \<le> k \<and> k < j \<longrightarrow> passed f ks (slot_at ks s k)" using p j(5) by (simp add: all_from)
  then show ?thesis using j(2-4) \<open>i \<le> j\<close> avail_step [OF j(6) \<open>i < j\<close> av] unfolding Empty probe_result.simps by blast
next
  case (Around a)
  then show ?thesis
    using assms(1) p avail_step [OF _ assms(2) av] unfolding Around probe_result.simps all_from [OF assms(2)] by blast
qed

lemma probe_run:
  "i \<le> length ks \<Longrightarrow> \<exists>r. probe f ks (map (\<lambda>i. slot_at ks s i) [i..<length ks]) av = Some r \<and> probe_result f ks s i av r"
proof (induction "length ks - i" arbitrary: i av)
  case 0
  then show ?case by (auto simp: avail_ok_def)
next
  case (Suc n)
  let ?p = "slot_at ks s i" and ?ps = "\<lambda>i. map (\<lambda>i. slot_at ks s i) [i..<length ks]"
  have i: "i < length ks" using Suc.hyps(2) by simp
  then have p: "?p < length ks" by (intro mod_less_divisor) auto
  have up: "?ps i = ?p # ?ps (Suc i)" using i by (simp add: upt_conv_Cons)
  have IH: "\<exists>r. probe f ks (?ps (Suc i)) av' = Some r \<and> probe_result f ks s (Suc i) av' r" for av'
    using Suc.hyps i by (intro Suc.hyps(1)) simp_all
  consider (null) "ks ! ?p = MP_OBJ_NULL" | (sentinel) "ks ! ?p = MP_OBJ_SENTINEL" | (full) "slot_filled ks ?p"
    using p by (auto simp: slot_filled_def)
  then show ?case
  proof cases
    case null
    then show ?thesis using p i unfolding up by (auto simp: rd_in avail_ok_def intro!: exI [of _ i])
  next
    case sentinel
    then have "passed f ks ?p" by (simp add: passed_def slot_filled_def)
    moreover obtain r where "probe f ks (?ps (Suc i)) (if av = None then Some ?p else av) = Some r"
        "probe_result f ks s (Suc i) (if av = None then Some ?p else av) r"
      using IH by blast
    ultimately show ?thesis
      using p sentinel probe_result_step [of f ks s i "if av = None then Some ?p else av" r av] i unfolding up
      by (simp add: rd_in)
  next
    case full
    show ?thesis
    proof (cases "f (ks ! ?p)")
      case True
      then show ?thesis using p i full unfolding up by (auto simp: rd_in slot_filled_def intro!: exI [of _ i])
    next
      case False
      then have "passed f ks ?p" using full by (simp add: passed_def slot_filled_def)
      moreover obtain r where "probe f ks (?ps (Suc i)) av = Some r" "probe_result f ks s (Suc i) av r"
        using IH by blast
      ultimately show ?thesis
        using p full False probe_result_step [of f ks s i av r av] i unfolding up
        by (simp add: rd_in slot_filled_def)
    qed
  qed
qed

subsection \<open>Tables\<close>

definition hash_of :: "objects \<Rightarrow> mp_obj_t \<Rightarrow> nat" where
  "hash_of env k = (case mp_obj_hash env k of None \<Rightarrow> 0 | Some h \<Rightarrow> unat h)"

text \<open>A slot that the probing for a hash gets to: all slots before it hold something.\<close>

definition on_path :: "mp_obj_t list \<Rightarrow> nat \<Rightarrow> nat \<Rightarrow> bool" where
  "on_path ks h p \<longleftrightarrow> (\<exists>j < length ks. p = slot_at ks (h mod length ks) j
     \<and> (\<forall>i < j. ks ! slot_at ks (h mod length ks) i \<noteq> MP_OBJ_NULL))"

text \<open>
  A consistent table: every key has a hash and is found by probing from it, and no two slots hold
  equal keys.
\<close>

definition table_ok :: "objects \<Rightarrow> mp_obj_t list \<Rightarrow> bool" where
  "table_ok env ks \<longleftrightarrow>
     (\<forall>p. slot_filled ks p \<longrightarrow> mp_obj_hash env (ks ! p) \<noteq> None \<and> on_path ks (hash_of env (ks ! p)) p)
   \<and> (\<forall>p q. slot_filled ks p \<longrightarrow> slot_filled ks q \<longrightarrow> mp_obj_equal env (ks ! p) (ks ! q) \<longrightarrow> p = q)"

definition no_key :: "objects \<Rightarrow> mp_obj_t list \<Rightarrow> mp_obj_t \<Rightarrow> bool" where
  "no_key env ks index \<longleftrightarrow> (\<forall>q. slot_filled ks q \<longrightarrow> \<not> mp_obj_equal env (ks ! q) index)"

definition is_key :: "mp_obj_t \<Rightarrow> bool" where
  "is_key k \<longleftrightarrow> k \<noteq> MP_OBJ_NULL \<and> k \<noteq> MP_OBJ_SENTINEL"

lemma slot_at_surj: "p < length ks \<Longrightarrow> s < length ks \<Longrightarrow> \<exists>k < length ks. p = slot_at ks s k"
proof (cases "s \<le> p")
  case True
  assume "p < length ks"
  then show ?thesis using True by (intro exI [of _ "p - s"]) auto
next
  case False
  assume "p < length ks" "s < length ks"
  then show ?thesis using False by (intro exI [of _ "length ks - s + p"]) (auto simp: mod_if)
qed

lemma slot_filled_update:
  "a < length ks \<Longrightarrow> slot_filled (ks[a := k]) p \<longleftrightarrow> (if p = a then is_key k else slot_filled ks p)"
  by (auto simp: slot_filled_def is_key_def)

lemma on_path_update:
  assumes "on_path ks h p" and "a < length ks" and "k \<noteq> MP_OBJ_NULL"
  shows "on_path (ks[a := k]) h p"
  using assms by (auto simp: on_path_def nth_list_update)

locale object_keys =
  fixes env :: objects
  assumes equal_refl: "mp_obj_equal env k k"
    and equal_sym: "mp_obj_equal env a b \<Longrightarrow> mp_obj_equal env b a"
    and equal_trans: "mp_obj_equal env a b \<Longrightarrow> mp_obj_equal env b c \<Longrightarrow> mp_obj_equal env a c"
    and equal_hash: "mp_obj_equal env a b \<Longrightarrow> mp_obj_hash env a = mp_obj_hash env b"
    and qstr_interned: "MP_OBJ_IS_QSTR a \<Longrightarrow> MP_OBJ_IS_QSTR b \<Longrightarrow> mp_obj_equal env a b \<Longrightarrow> a = b"
    and qstr_equal_str: "MP_OBJ_IS_QSTR a \<Longrightarrow> mp_obj_equal env a b \<Longrightarrow> MP_OBJ_IS_QSTR b \<or> is_type_str env b"
begin

lemma probe_index:
  assumes ok: "table_ok env ks" and ne: "ks \<noteq> []" and h: "mp_obj_hash env index \<noteq> None"
    and same: "\<And>p. slot_filled ks p \<Longrightarrow> same (ks ! p) = mp_obj_equal env (ks ! p) index"
  shows "\<exists>r. probe same ks (probe_order (hash_of env index mod length ks) (length ks)) None = Some r
    \<and> (case r of
         Found p \<Rightarrow> slot_filled ks p \<and> mp_obj_equal env (ks ! p) index
       | Empty p a \<Rightarrow> no_key env ks index \<and> (case a of None \<Rightarrow> p | Some a \<Rightarrow> a) < length ks
           \<and> \<not> slot_filled ks (case a of None \<Rightarrow> p | Some a \<Rightarrow> a)
           \<and> on_path ks (hash_of env index) (case a of None \<Rightarrow> p | Some a \<Rightarrow> a)
       | Around (Some a) \<Rightarrow> no_key env ks index \<and> a < length ks \<and> \<not> slot_filled ks a \<and> on_path ks (hash_of env index) a
       | Around None \<Rightarrow> no_key env ks index \<and> (\<forall>p < length ks. slot_filled ks p))"
proof -
  let ?n = "length ks" and ?s = "hash_of env index mod length ks"
  have n: "0 < ?n" using ne by simp
  have s: "?s < ?n" using n by simp
  obtain r where r: "probe same ks (probe_order ?s ?n) None = Some r" "probe_result same ks ?s 0 None r"
    using probe_run [of 0 ks same ?s None] unfolding probe_order_def by auto
  have lt: "slot_at ks ?s k < ?n" for k using n by simp
  have path: "\<exists>j < ?n. q = slot_at ks ?s j \<and> (\<forall>i < j. ks ! slot_at ks ?s i \<noteq> MP_OBJ_NULL)"
    if "slot_filled ks q" "mp_obj_equal env (ks ! q) index" for q
  proof -
    have e: "hash_of env (ks ! q) = hash_of env index" using equal_hash [OF that(2)] by (simp add: hash_of_def)
    have "on_path ks (hash_of env (ks ! q)) q" using ok that(1) by (simp add: table_ok_def)
    then show ?thesis unfolding e on_path_def .
  qed
  have none: "no_key env ks index"
    if all: "\<And>k. k < j \<Longrightarrow> passed same ks (slot_at ks ?s k)" and stop: "j = ?n \<or> ks ! slot_at ks ?s j = MP_OBJ_NULL" for j
    unfolding no_key_def
  proof (intro allI impI notI)
    fix q assume q: "slot_filled ks q" "mp_obj_equal env (ks ! q) index"
    obtain j' where j': "j' < ?n" "q = slot_at ks ?s j'" "\<forall>i < j'. ks ! slot_at ks ?s i \<noteq> MP_OBJ_NULL"
      using path [OF q] by blast
    consider "j' < j" | "j' = j" | "j < j'" by linarith
    then show False
    proof cases
      case 1
      then show False using all [OF 1] q same [OF q(1)] j'(2) by (simp add: passed_def)
    next
      case 2
      then show False using stop j' q(1) by (auto simp: slot_filled_def)
    next
      case 3
      then show False using stop j' by auto
    qed
  qed
  have nonnull: "ks ! slot_at ks ?s k \<noteq> MP_OBJ_NULL" if "passed same ks (slot_at ks ?s k)" for k
    using that by (simp add: passed_def)
  show ?thesis
  proof (cases r)
    case (Found p)
    then have "slot_filled ks p" "same (ks ! p)" using r(2) by auto
    then show ?thesis using r(1) Found same by auto
  next
    case (Empty p a)
    obtain j where j: "j < ?n" "p = slot_at ks ?s j" "ks ! p = MP_OBJ_NULL"
        "\<forall>k. 0 \<le> k \<and> k < j \<longrightarrow> passed same ks (slot_at ks ?s k)" "avail_ok ks ?s 0 j None a"
      using r(2) unfolding Empty probe_result.simps by blast
    have nk: "no_key env ks index" using none [of j] j by auto
    have "\<exists>i \<le> j. (case a of None \<Rightarrow> p | Some a \<Rightarrow> a) = slot_at ks ?s i \<and> \<not> slot_filled ks (slot_at ks ?s i)"
    proof (cases a)
      case None
      then show ?thesis using j(2,3) by (intro exI [of _ j]) (simp add: slot_filled_def)
    next
      case (Some b)
      then obtain k where "k < j" "b = slot_at ks ?s k" "ks ! slot_at ks ?s k = MP_OBJ_SENTINEL"
        using j(5) by (auto simp: avail_ok_def)
      then show ?thesis using Some by (intro exI [of _ k]) (simp add: slot_filled_def)
    qed
    then obtain i where i: "i \<le> j" "(case a of None \<Rightarrow> p | Some a \<Rightarrow> a) = slot_at ks ?s i"
        "\<not> slot_filled ks (slot_at ks ?s i)"
      by blast
    have "on_path ks (hash_of env index) (slot_at ks ?s i)"
      using i(1) j(1,4) nonnull unfolding on_path_def by (intro exI [of _ i]) auto
    then show ?thesis using r(1) Empty nk i lt by auto
  next
    case (Around a)
    have p: "\<forall>k. 0 \<le> k \<and> k < ?n \<longrightarrow> passed same ks (slot_at ks ?s k)" and a: "avail_ok ks ?s 0 ?n None a"
      using r(2) unfolding Around probe_result.simps by blast+
    have nk: "no_key env ks index" using none [of ?n] p by auto
    show ?thesis
    proof (cases a)
      case None
      have "slot_filled ks q" if q: "q < ?n" for q
      proof -
        obtain k where "k < ?n" "q = slot_at ks ?s k" using slot_at_surj [OF q s] by blast
        then show ?thesis using p a None q by (auto simp: passed_def avail_ok_def slot_filled_def)
      qed
      then show ?thesis using r(1) Around None nk by auto
    next
      case (Some b)
      then obtain k where k: "k < ?n" "b = slot_at ks ?s k" "ks ! b = MP_OBJ_SENTINEL" using a by (auto simp: avail_ok_def)
      have "on_path ks (hash_of env index) b"
        using k p nonnull unfolding on_path_def by (intro exI [of _ k]) auto
      then show ?thesis using r(1) Around Some nk k lt by (auto simp: slot_filled_def)
    qed
  qed
qed

lemma insert_key:
  assumes ok: "table_ok env ks" and h: "mp_obj_hash env index \<noteq> None" and k: "is_key index"
    and nk: "no_key env ks index" and a: "a < length ks" "on_path ks (hash_of env index) a"
  shows "table_ok env (ks[a := index])"
proof -
  have ix: "index \<noteq> MP_OBJ_NULL" using k by (simp add: is_key_def)
  show ?thesis
    unfolding table_ok_def
  proof (intro conjI allI impI)
    fix p assume p: "slot_filled (ks[a := index]) p"
    show "mp_obj_hash env (ks[a := index] ! p) \<noteq> None"
      using p ok h a by (cases "p = a") (auto simp: slot_filled_update table_ok_def)
    show "on_path (ks[a := index]) (hash_of env (ks[a := index] ! p)) p"
      using p ok a on_path_update [OF _ a(1) ix] by (cases "p = a") (auto simp: slot_filled_update table_ok_def)
  next
    fix p q assume p: "slot_filled (ks[a := index]) p" "slot_filled (ks[a := index]) q"
      and e: "mp_obj_equal env (ks[a := index] ! p) (ks[a := index] ! q)"
    show "p = q"
    proof (cases "p = a"; cases "q = a")
      assume "p = a" "q \<noteq> a"
      then have "mp_obj_equal env (ks ! q) index" "slot_filled ks q"
        using p e a equal_sym by (auto simp: slot_filled_update)
      then show ?thesis using nk by (auto simp: no_key_def)
    next
      assume "p \<noteq> a" "q = a"
      then have "mp_obj_equal env (ks ! p) index" "slot_filled ks p"
        using p e a by (auto simp: slot_filled_update)
      then show ?thesis using nk by (auto simp: no_key_def)
    next
      assume "p \<noteq> a" "q \<noteq> a"
      then show ?thesis using p e a ok by (auto simp: slot_filled_update table_ok_def)
    qed simp
  qed
qed

end

text \<open>Deleting a key: the slot becomes empty if the next one is empty, else it is marked.\<close>

lemma remove_key:
  assumes ok: "table_ok env ks" and p: "slot_filled ks p"
    and d: "d = (if ks ! ((p + 1) mod length ks) = MP_OBJ_NULL then MP_OBJ_NULL else MP_OBJ_SENTINEL)"
  shows "table_ok env (ks[p := d])"
proof -
  have pl: "p < length ks" using p by (simp add: slot_filled_def)
  have nd: "\<not> is_key d" by (simp add: d is_key_def)
  have fil: "slot_filled (ks[p := d]) q \<longleftrightarrow> q \<noteq> p \<and> slot_filled ks q" for q
    using slot_filled_update [OF pl] nd by auto
  have path: "on_path (ks[p := d]) h q" if q: "slot_filled ks q" "q \<noteq> p" and o: "on_path ks h q" for h q
  proof (cases "d = MP_OBJ_NULL")
    case False
    then show ?thesis using on_path_update [OF o pl] by blast
  next
    case True
    then have nx: "ks ! ((p + 1) mod length ks) = MP_OBJ_NULL" by (auto simp: d split: if_splits)
    let ?s = "h mod length ks"
    obtain j where j: "j < length ks" "q = slot_at ks ?s j" "\<And>i. i < j \<Longrightarrow> ks ! slot_at ks ?s i \<noteq> MP_OBJ_NULL"
      using o by (auto simp: on_path_def)
    have np: "slot_at ks ?s i \<noteq> p" if i: "i < j" for i
    proof
      assume e: "slot_at ks ?s i = p"
      have "slot_at ks ?s (Suc i) = (p + 1) mod length ks" by (simp add: e [symmetric] mod_Suc_eq)
      then have n: "ks ! slot_at ks ?s (Suc i) = MP_OBJ_NULL" using nx by simp
      show False
      proof (cases "Suc i = j")
        case True
        then show False using n q(1) j(2) by (simp add: slot_filled_def)
      next
        case False
        then show False using n j(3) [of "Suc i"] i by simp
      qed
    qed
    have "(ks[p := d]) ! slot_at ks ?s i \<noteq> MP_OBJ_NULL" if "i < j" for i
      using nth_list_update_neq [OF np [OF that, symmetric]] j(3) [OF that] by metis
    then show ?thesis using j(1,2) unfolding on_path_def by (intro exI [of _ j]) simp
  qed
  show ?thesis
    unfolding table_ok_def fil
  proof (intro conjI allI impI)
    fix q assume q: "q \<noteq> p \<and> slot_filled ks q"
    then have e: "ks[p := d] ! q = ks ! q" by simp
    show "mp_obj_hash env (ks[p := d] ! q) \<noteq> None" "on_path (ks[p := d]) (hash_of env (ks[p := d] ! q)) q"
      unfolding e using q ok path by (auto simp: table_ok_def)
  next
    fix q r assume "q \<noteq> p \<and> slot_filled ks q" "r \<noteq> p \<and> slot_filled ks r" "mp_obj_equal env (ks[p := d] ! q) (ks[p := d] ! r)"
    then show "q = r" using ok by (simp add: table_ok_def)
  qed
qed

subsection \<open>Consistent hash maps and their entries\<close>

definition map_keys :: "mp_map_t \<Rightarrow> mp_obj_t list" where
  "map_keys m = map fst (table m)"

definition qstr_flag_ok :: "mp_map_t \<Rightarrow> bool" where
  "qstr_flag_ok m \<longleftrightarrow> (all_keys_are_qstrs m \<longrightarrow> (\<forall>p. slot_filled (map_keys m) p \<longrightarrow> MP_OBJ_IS_QSTR (map_keys m ! p)))"

definition map_ok :: "objects \<Rightarrow> mp_map_t \<Rightarrow> bool" where
  "map_ok env m \<longleftrightarrow> \<not> is_ordered m \<and> \<not> is_fixed m \<and> length (table m) = alloc m \<and> table_ok env (map_keys m)
     \<and> used m = card {p. slot_filled (map_keys m) p} \<and> qstr_flag_ok m"

definition entries :: "mp_map_t \<Rightarrow> (mp_obj_t \<times> mp_obj_t) set" where
  "entries m = {table m ! p | p. slot_filled (map_keys m) p}"

lemma length_keys [simp]: "length (map_keys m) = length (table m)"
  by (simp add: map_keys_def)

lemma finite_filled [simp]: "finite {p. slot_filled ks p}"
  by (rule finite_subset [of _ "{..< length ks}"]) (auto simp: slot_filled_def)

lemma keys_update: "map fst (t[p := (k, v)]) = (map fst t)[p := k]"
  by (simp add: map_update)

lemma fst_table: "p < length (table m) \<Longrightarrow> fst (table m ! p) = map_keys m ! p"
  by (simp add: map_keys_def)

text \<open>The entries after a slot was written.\<close>

definition others :: "mp_map_t \<Rightarrow> nat \<Rightarrow> (mp_obj_t \<times> mp_obj_t) set" where
  "others m a = {table m ! p | p. slot_filled (map_keys m) p \<and> p \<noteq> a}"

lemma entries_write:
  assumes "a < length (table m)"
  shows "entries (m\<lparr>table := (table m)[a := (k, v)]\<rparr>) = (if is_key k then insert (k, v) (others m a) else others m a)"
proof -
  have f: "slot_filled ((map_keys m)[a := k]) p \<longleftrightarrow> (if p = a then is_key k else slot_filled (map_keys m) p)" for p
    using slot_filled_update [of a "map_keys m" k p] assms by simp
  show ?thesis
    using assms by (auto simp: entries_def others_def map_keys_def keys_update f [unfolded map_keys_def] split: if_splits)
qed

lemma others_free: "\<not> slot_filled (map_keys m) a \<Longrightarrow> others m a = entries m"
  by (auto simp: others_def entries_def)

context object_keys
begin

lemma others_filled:
  assumes "table_ok env (map_keys m)" and "slot_filled (map_keys m) a"
  shows "others m a = entries m - {table m ! a}"
proof -
  have "p = a" if p: "slot_filled (map_keys m) p" and e: "table m ! p = table m ! a" for p
  proof -
    have "map_keys m ! p = map_keys m ! a"
      using p e assms(2) by (metis fst_table length_keys slot_filled_def)
    then show ?thesis using assms p equal_refl by (simp add: table_ok_def)
  qed
  then show ?thesis by (auto simp: others_def entries_def)
qed

text \<open>What the loop compares with is equality of keys, also where it compares pointers only.\<close>

lemma same_is_equal:
  assumes "qstr_flag_ok m" and "slot_filled (map_keys m) p"
    and "cmp = (all_keys_are_qstrs m \<and> (MP_OBJ_IS_QSTR index \<or> \<not> is_type_str env index))"
  shows "(map_keys m ! p = index \<or> \<not> cmp \<and> mp_obj_equal env (map_keys m ! p) index)
    = mp_obj_equal env (map_keys m ! p) index"
proof (cases cmp)
  case True
  then have q: "MP_OBJ_IS_QSTR (map_keys m ! p)" and i: "MP_OBJ_IS_QSTR index \<or> \<not> is_type_str env index"
    using assms by (simp_all add: qstr_flag_ok_def)
  have "map_keys m ! p = index" if e: "mp_obj_equal env (map_keys m ! p) index"
    using qstr_equal_str [OF q e] i qstr_interned [OF q _ e] by blast
  then show ?thesis using True equal_refl [of index] by auto
next
  case False
  then show ?thesis using equal_refl [of index] by auto
qed

text \<open>Adding a key in a slot that the probing found.\<close>

lemma add_at_run:
  assumes ok: "map_ok env m" and h: "mp_obj_hash env index \<noteq> None" and k: "is_key index"
    and nk: "no_key env (map_keys m) index" and a: "a < length (table m)" "\<not> slot_filled (map_keys m) a"
      "on_path (map_keys m) (hash_of env index) a"
  shows "\<exists>m'. add_at m a index = Some (Inr (Some a), m') \<and> map_ok env m' \<and> alloc m' = alloc m \<and> used m' = used m + 1
    \<and> entries m' = insert (index, MP_OBJ_NULL) (entries m) \<and> a < length (table m') \<and> table m' ! a = (index, MP_OBJ_NULL)"
proof -
  define t where "t = (table m)[a := (index, MP_OBJ_NULL)]"
  define m' where "m' = m\<lparr>used := used m + 1, table := t,
       all_keys_are_qstrs := (if \<not> MP_OBJ_IS_QSTR index then False else all_keys_are_qstrs m)\<rparr>"
  have ks: "map_keys m' = (map_keys m)[a := index]" by (simp add: m'_def t_def map_keys_def keys_update)
  have f: "slot_filled (map_keys m') p \<longleftrightarrow> p = a \<or> slot_filled (map_keys m) p" for p
    using slot_filled_update [of a "map_keys m" index p] a k by (auto simp: ks)
  have "{p. slot_filled (map_keys m') p} = insert a {p. slot_filled (map_keys m) p}" by (auto simp: f)
  then have "card {p. slot_filled (map_keys m') p} = Suc (card {p. slot_filled (map_keys m) p})" using a(2) by simp
  moreover have "table_ok env (map_keys m')"
  proof -
    have "table_ok env (map_keys m)" using ok by (simp add: map_ok_def)
    then show ?thesis unfolding ks by (rule insert_key [OF _ h k nk _ a(3)]) (simp add: a(1))
  qed
  moreover have "qstr_flag_ok m'"
    unfolding qstr_flag_ok_def
  proof (intro impI allI)
    fix p assume "all_keys_are_qstrs m'" and p: "slot_filled (map_keys m') p"
    then have q: "MP_OBJ_IS_QSTR index" "all_keys_are_qstrs m" by (auto simp: m'_def split: if_splits)
    show "MP_OBJ_IS_QSTR (map_keys m' ! p)"
    proof (cases "p = a")
      case True
      then show ?thesis using q(1) a(1) by (simp add: ks)
    next
      case False
      then have "slot_filled (map_keys m) p" using p by (simp add: f)
      then show ?thesis using ok q(2) False by (simp add: ks map_ok_def qstr_flag_ok_def)
    qed
  qed
  ultimately have "map_ok env m'" using ok by (simp add: map_ok_def) (simp add: m'_def t_def)
  moreover have "entries m' = insert (index, MP_OBJ_NULL) (entries m)"
  proof -
    have "entries m' = entries (m\<lparr>table := t\<rparr>)" by (simp add: entries_def map_keys_def m'_def)
    then show ?thesis using entries_write [OF a(1)] k others_free [OF a(2)] by (simp add: t_def)
  qed
  moreover have "add_at m a index = Some (Inr (Some a), m')"
    using a(1) by (simp add: add_at_def wr_in m'_def t_def)
  ultimately show ?thesis using a(1) by (intro exI [of _ m']) (simp add: m'_def t_def)
qed

end

subsection \<open>Adding a key\<close>

lemma find_hash_alloc: "x \<le> get_hash_alloc_greater_or_equal_to x"
proof -
  have "x \<le> (x + x div 2) OR 1" unfolding or_one_eq by simp
  then show ?thesis
    by (auto simp: get_hash_alloc_greater_or_equal_to_def find_Some_iff split: option.split)
qed

lemma entries_slot: "slot_filled (map_keys m) p \<Longrightarrow> table m ! p \<in> entries m"
  by (auto simp: entries_def)

lemma entries_key: "(k, v) \<in> entries m \<Longrightarrow> \<exists>p. slot_filled (map_keys m) p \<and> map_keys m ! p = k \<and> table m ! p = (k, v)"
  by (auto simp: entries_def) (metis fst_conv fst_table length_keys slot_filled_def)

lemma no_key_entries: "no_key env (map_keys m) index \<longleftrightarrow> (\<forall>k v. (k, v) \<in> entries m \<longrightarrow> \<not> mp_obj_equal env k index)"
proof
  assume n: "no_key env (map_keys m) index"
  show "\<forall>k v. (k, v) \<in> entries m \<longrightarrow> \<not> mp_obj_equal env k index"
    using n entries_key by (fastforce simp: no_key_def)
next
  assume a: "\<forall>k v. (k, v) \<in> entries m \<longrightarrow> \<not> mp_obj_equal env k index"
  show "no_key env (map_keys m) index"
    unfolding no_key_def
  proof (intro allI impI)
    fix q assume q: "slot_filled (map_keys m) q"
    then have "table m ! q \<in> entries m" by (rule entries_slot)
    moreover have "fst (table m ! q) = map_keys m ! q" using q by (simp add: fst_table slot_filled_def)
    ultimately show "\<not> mp_obj_equal env (map_keys m ! q) index" using a by (metis prod.collapse)
  qed
qed

lemma used_le: "map_ok env m \<Longrightarrow> used m \<le> alloc m"
proof -
  assume "map_ok env m"
  moreover have "card {p. slot_filled (map_keys m) p} \<le> card {..< length (table m)}"
    by (intro card_mono) (auto simp: slot_filled_def)
  ultimately show ?thesis by (simp add: map_ok_def)
qed

lemma all_filled_used: "map_ok env m \<Longrightarrow> (\<forall>p < length (table m). slot_filled (map_keys m) p) \<Longrightarrow> used m = alloc m"
proof -
  assume m: "map_ok env m" and all: "\<forall>p < length (table m). slot_filled (map_keys m) p"
  have "{p. slot_filled (map_keys m) p} = {..< length (table m)}" using all by (auto simp: slot_filled_def)
  then show ?thesis using m by (simp add: map_ok_def)
qed

text \<open>A new table is consistent and empty.\<close>

lemma new0_empty: "\<not> slot_filled (map fst (new0 n)) p"
  by (simp add: slot_filled_def new0_def)

fun key_distinct :: "objects \<Rightarrow> (mp_obj_t \<times> mp_obj_t) list \<Rightarrow> bool" where
  "key_distinct env [] = True"
| "key_distinct env (e # es) = ((is_key (fst e) \<longrightarrow> (\<forall>e' \<in> set es. is_key (fst e') \<longrightarrow> \<not> mp_obj_equal env (fst e) (fst e')))
     \<and> key_distinct env es)"

lemma key_distinct_nth:
  "(\<And>p q. p < q \<Longrightarrow> q < length es \<Longrightarrow> is_key (fst (es ! p)) \<Longrightarrow> is_key (fst (es ! q)) \<Longrightarrow>
      \<not> mp_obj_equal env (fst (es ! p)) (fst (es ! q))) \<Longrightarrow> key_distinct env es"
proof (induction es)
  case (Cons e es)
  have "key_distinct env es"
  proof (rule Cons.IH)
    fix p q assume "p < q" "q < length es" "is_key (fst (es ! p))" "is_key (fst (es ! q))"
    then show "\<not> mp_obj_equal env (fst (es ! p)) (fst (es ! q))" using Cons.prems [of "Suc p" "Suc q"] by simp
  qed
  moreover have "\<not> mp_obj_equal env (fst e) (fst e')" if e': "is_key (fst e)" "e' \<in> set es" "is_key (fst e')" for e'
  proof -
    obtain q where "q < length es" "es ! q = e'" using e'(2) by (auto simp: in_set_conv_nth)
    then show ?thesis using Cons.prems [of 0 "Suc q"] e' by simp
  qed
  ultimately show ?case by simp
qed simp

lemma entries_set: "entries m = {e \<in> set (table m). is_key (fst e)}"
proof (intro equalityI subsetI)
  fix e assume "e \<in> entries m"
  then show "e \<in> {e \<in> set (table m). is_key (fst e)}"
    by (auto simp: entries_def slot_filled_def is_key_def map_keys_def)
next
  fix e assume "e \<in> {e \<in> set (table m). is_key (fst e)}"
  then obtain i where i: "i < length (table m)" "table m ! i = e" "is_key (fst e)" by (auto simp: in_set_conv_nth)
  then have "slot_filled (map_keys m) i" by (simp add: slot_filled_def is_key_def map_keys_def)
  then show "e \<in> entries m" using entries_slot i(2) by blast
qed

lemma used_filter: "map_ok env m \<Longrightarrow> used m = length (filter (\<lambda>e. is_key (fst e)) (table m))"
proof -
  assume m: "map_ok env m"
  have "{p. slot_filled (map_keys m) p} = {i. i < length (table m) \<and> is_key (fst (table m ! i))}"
    by (auto simp: slot_filled_def is_key_def map_keys_def)
  then show ?thesis using m by (simp add: map_ok_def length_filter_conv_card)
qed

text \<open>What \<open>mp_map_lookup\<close> promises for \<open>MP_MAP_LOOKUP_ADD_IF_NOT_FOUND\<close>: the slot of the key, or a new one.\<close>

definition key_added :: "objects \<Rightarrow> mp_map_t \<Rightarrow> mp_obj_t \<Rightarrow> nat \<Rightarrow> mp_map_t \<Rightarrow> bool" where
  "key_added env m index p m' \<longleftrightarrow>
     slot_filled (map_keys m') p \<and> mp_obj_equal env (map_keys m' ! p) index
   \<and> (m' = m \<or> no_key env (map_keys m) index \<and> entries m' = insert (index, MP_OBJ_NULL) (entries m)
       \<and> used m' = used m + 1 \<and> table m' ! p = (index, MP_OBJ_NULL))"

text \<open>The test of the loop agrees with equality on the keys of a map.\<close>

definition same_on :: "objects \<Rightarrow> (mp_obj_t \<Rightarrow> bool) \<Rightarrow> mp_map_t \<Rightarrow> mp_obj_t \<Rightarrow> bool" where
  "same_on env same m index \<longleftrightarrow> (\<forall>p. slot_filled (map_keys m) p \<longrightarrow> same (map_keys m ! p) = mp_obj_equal env (map_keys m ! p) index)"

context object_keys
begin

lemma same_on_entries: "same_on env same m index \<Longrightarrow> entries m' \<subseteq> entries m \<Longrightarrow> same_on env same m' index"
  unfolding same_on_def
proof (intro allI impI)
  fix p assume s: "\<forall>p. slot_filled (map_keys m) p \<longrightarrow> same (map_keys m ! p) = mp_obj_equal env (map_keys m ! p) index"
    and e: "entries m' \<subseteq> entries m" and p: "slot_filled (map_keys m') p"
  have "table m' ! p \<in> entries m" using e entries_slot [OF p] by blast
  moreover have "fst (table m' ! p) = map_keys m' ! p" using p by (simp add: fst_table slot_filled_def)
  ultimately obtain q where "slot_filled (map_keys m) q" "map_keys m ! q = map_keys m' ! p"
    by (metis entries_key prod.collapse)
  then show "same (map_keys m' ! p) = mp_obj_equal env (map_keys m' ! p) index" using s by metis
qed

lemma probe_map:
  assumes ok: "map_ok env m" and a: "0 < alloc m" and h: "mp_obj_hash env index \<noteq> None" and s: "same_on env same m index"
  shows "\<exists>r. probe same (map fst (table m)) (probe_order (hash_of env index mod alloc m) (alloc m)) None = Some r
    \<and> (case r of
         Found p \<Rightarrow> slot_filled (map_keys m) p \<and> mp_obj_equal env (map_keys m ! p) index
       | Empty p a \<Rightarrow> no_key env (map_keys m) index \<and> (case a of None \<Rightarrow> p | Some a \<Rightarrow> a) < length (table m)
           \<and> \<not> slot_filled (map_keys m) (case a of None \<Rightarrow> p | Some a \<Rightarrow> a)
           \<and> on_path (map_keys m) (hash_of env index) (case a of None \<Rightarrow> p | Some a \<Rightarrow> a)
       | Around (Some a) \<Rightarrow> no_key env (map_keys m) index \<and> a < length (table m) \<and> \<not> slot_filled (map_keys m) a
           \<and> on_path (map_keys m) (hash_of env index) a
       | Around None \<Rightarrow> no_key env (map_keys m) index \<and> used m = alloc m)"
proof -
  have t: "table_ok env (map_keys m)" and l: "length (table m) = alloc m" using ok by (simp_all add: map_ok_def)
  have ne: "map_keys m \<noteq> []" using a l by (auto simp: map_keys_def)
  obtain r where r: "probe same (map_keys m) (probe_order (hash_of env index mod length (map_keys m)) (length (map_keys m))) None = Some r"
    "case r of
         Found p \<Rightarrow> slot_filled (map_keys m) p \<and> mp_obj_equal env (map_keys m ! p) index
       | Empty p a \<Rightarrow> no_key env (map_keys m) index \<and> (case a of None \<Rightarrow> p | Some a \<Rightarrow> a) < length (map_keys m)
           \<and> \<not> slot_filled (map_keys m) (case a of None \<Rightarrow> p | Some a \<Rightarrow> a)
           \<and> on_path (map_keys m) (hash_of env index) (case a of None \<Rightarrow> p | Some a \<Rightarrow> a)
       | Around (Some a) \<Rightarrow> no_key env (map_keys m) index \<and> a < length (map_keys m) \<and> \<not> slot_filled (map_keys m) a
           \<and> on_path (map_keys m) (hash_of env index) a
       | Around None \<Rightarrow> no_key env (map_keys m) index \<and> (\<forall>p < length (map_keys m). slot_filled (map_keys m) p)"
    using probe_index [OF t ne h, of same] s unfolding same_on_def by blast
  show ?thesis
  proof (intro exI [of _ r] conjI)
    show "probe same (map fst (table m)) (probe_order (hash_of env index mod alloc m) (alloc m)) None = Some r"
      using r(1) l by (simp add: map_keys_def)
  qed (use r(2) all_filled_used [OF ok] in \<open>auto split: probe_end.splits option.splits\<close>)
qed

text \<open>Writing the value of a slot that holds a key.\<close>

lemma set_value:
  assumes ok: "map_ok env m" and p: "slot_filled (map_keys m) p"
  shows "map_ok env (m\<lparr>table := (table m)[p := (map_keys m ! p, v)]\<rparr>)"
    and "entries (m\<lparr>table := (table m)[p := (map_keys m ! p, v)]\<rparr>) = insert (map_keys m ! p, v) (entries m - {table m ! p})"
    and "map_keys (m\<lparr>table := (table m)[p := (map_keys m ! p, v)]\<rparr>) = map_keys m"
proof -
  have pl: "p < length (table m)" using p by (simp add: slot_filled_def)
  show k: "map_keys (m\<lparr>table := (table m)[p := (map_keys m ! p, v)]\<rparr>) = map_keys m"
    using pl by (simp add: map_keys_def keys_update) (metis length_map list_update_id nth_map)
  show "map_ok env (m\<lparr>table := (table m)[p := (map_keys m ! p, v)]\<rparr>)"
    using ok k by (simp add: map_ok_def qstr_flag_ok_def)
  have "is_key (map_keys m ! p)" using p by (simp add: slot_filled_def is_key_def)
  moreover have "table_ok env (map_keys m)" using ok by (simp add: map_ok_def)
  ultimately show "entries (m\<lparr>table := (table m)[p := (map_keys m ! p, v)]\<rparr>) = insert (map_keys m ! p, v) (entries m - {table m ! p})"
    using entries_write [OF pl] others_filled [OF _ p] by simp
qed

text \<open>A table with room: no rehash.\<close>

lemma loop_add_room:
  assumes ok: "map_ok env m" and room: "used m < alloc m" and h: "mp_obj_hash env index \<noteq> None" and k: "is_key index"
    and s: "same_on env same m index"
  shows "\<exists>p m'. hash_loop (Suc n) lookup env same (hash_of env index) m index MP_MAP_LOOKUP_ADD_IF_NOT_FOUND
      = Some (Inr (Some p), m') \<and> map_ok env m' \<and> alloc m' = alloc m \<and> key_added env m index p m'"
proof -
  have a: "0 < alloc m" using room by simp
  obtain r where r: "probe same (map fst (table m)) (probe_order (hash_of env index mod alloc m) (alloc m)) None = Some r"
    "case r of
         Found p \<Rightarrow> slot_filled (map_keys m) p \<and> mp_obj_equal env (map_keys m ! p) index
       | Empty p a \<Rightarrow> no_key env (map_keys m) index \<and> (case a of None \<Rightarrow> p | Some a \<Rightarrow> a) < length (table m)
           \<and> \<not> slot_filled (map_keys m) (case a of None \<Rightarrow> p | Some a \<Rightarrow> a)
           \<and> on_path (map_keys m) (hash_of env index) (case a of None \<Rightarrow> p | Some a \<Rightarrow> a)
       | Around (Some a) \<Rightarrow> no_key env (map_keys m) index \<and> a < length (table m) \<and> \<not> slot_filled (map_keys m) a
           \<and> on_path (map_keys m) (hash_of env index) a
       | Around None \<Rightarrow> no_key env (map_keys m) index \<and> used m = alloc m"
    using probe_map [OF ok a h s] by blast
  have add: "\<exists>m'. add_at m b index = Some (Inr (Some b), m') \<and> map_ok env m' \<and> alloc m' = alloc m \<and> key_added env m index b m'"
    if nk: "no_key env (map_keys m) index" and b: "b < length (table m)" "\<not> slot_filled (map_keys m) b"
      "on_path (map_keys m) (hash_of env index) b" for b
  proof -
    obtain m' where m': "add_at m b index = Some (Inr (Some b), m')" "map_ok env m'" "alloc m' = alloc m"
        "used m' = used m + 1" "entries m' = insert (index, MP_OBJ_NULL) (entries m)" "b < length (table m')"
        "table m' ! b = (index, MP_OBJ_NULL)"
      using add_at_run [OF ok h k nk b] by blast
    have "map_keys m' ! b = index" using m'(6,7) by (simp add: map_keys_def)
    then have "slot_filled (map_keys m') b" "mp_obj_equal env (map_keys m' ! b) index"
      using k m'(6) equal_refl by (simp_all add: slot_filled_def is_key_def)
    then show ?thesis using m' nk by (simp add: key_added_def)
  qed
  show ?thesis
  proof (cases r)
    case (Found p)
    then show ?thesis using r ok by (simp add: key_added_def)
  next
    case (Empty p b)
    then show ?thesis using r add [of "case b of None \<Rightarrow> p | Some a \<Rightarrow> a"] by simp blast
  next
    case (Around b)
    then obtain c where "b = Some c" using r(2) room by (cases b) auto
    then show ?thesis using r add [of c] Around by simp blast
  qed
qed

lemma lookup_add_room:
  assumes ok: "map_ok env m" and room: "used m < alloc m" and h: "mp_obj_hash env index \<noteq> None" and k: "is_key index"
  shows "\<exists>p m'. lookup_depth (Suc d) env m index MP_MAP_LOOKUP_ADD_IF_NOT_FOUND = Some (Inr (Some p), m')
    \<and> map_ok env m' \<and> alloc m' = alloc m \<and> key_added env m index p m'"
proof -
  define cmp where "cmp = (all_keys_are_qstrs m \<and> (MP_OBJ_IS_QSTR index \<or> \<not> is_type_str env index))"
  have s: "same_on env (\<lambda>key. key = index \<or> \<not> cmp \<and> mp_obj_equal env key index) m index"
    using same_is_equal [of m _ cmp index] ok by (simp add: same_on_def map_ok_def cmp_def)
  obtain x where x: "mp_obj_hash env index = Some x" using h by blast
  then have u: "unat x = hash_of env index" by (simp add: hash_of_def)
  have e: "lookup_depth (Suc d) env m index MP_MAP_LOOKUP_ADD_IF_NOT_FOUND
    = hash_loop (Suc 1) (\<lambda>m key. lookup_depth d env m key MP_MAP_LOOKUP_ADD_IF_NOT_FOUND) env
        (\<lambda>key. key = index \<or> \<not> cmp \<and> mp_obj_equal env key index) (hash_of env index) m index MP_MAP_LOOKUP_ADD_IF_NOT_FOUND"
  proof -
    have "\<not> is_ordered m" "\<not> is_fixed m" "alloc m \<noteq> 0" using ok room by (simp_all add: map_ok_def)
    then show ?thesis
      using x u unfolding lookup_depth.simps Let_def cmp_def hash_lookup_def
      by (simp add: numeral_2_eq_2 del: hash_loop.simps)
  qed
  show ?thesis unfolding e by (rule loop_add_room [OF ok room h k s])
qed

end

subsection \<open>Growing the table\<close>

abbreviation real_entries :: "(mp_obj_t \<times> mp_obj_t) list \<Rightarrow> (mp_obj_t \<times> mp_obj_t) list" where
  "real_entries es \<equiv> filter (\<lambda>e. is_key (fst e)) es"

context object_keys
begin

lemma reinsert_run:
  assumes "map_ok env m" and "key_distinct env es" and "used m + length (real_entries es) \<le> alloc m"
    and "\<And>e. e \<in> set es \<Longrightarrow> is_key (fst e) \<Longrightarrow> mp_obj_hash env (fst e) \<noteq> None \<and> no_key env (map_keys m) (fst e)"
  shows "\<exists>m'. reinsert (\<lambda>m key. lookup_depth (Suc d) env m key MP_MAP_LOOKUP_ADD_IF_NOT_FOUND) es m = Some (Inr (), m')
    \<and> map_ok env m' \<and> alloc m' = alloc m \<and> entries m' = entries m \<union> set (real_entries es)
    \<and> used m' = used m + length (real_entries es)"
  using assms
proof (induction es arbitrary: m)
  case (Cons e es)
  obtain k v where e: "e = (k, v)" by (cases e)
  show ?case
  proof (cases "is_key k")
    case False
    then have skip: "(k \<noteq> MP_OBJ_NULL \<and> k \<noteq> MP_OBJ_SENTINEL) = False" by (simp add: is_key_def)
    have "\<exists>m'. reinsert (\<lambda>m key. lookup_depth (Suc d) env m key MP_MAP_LOOKUP_ADD_IF_NOT_FOUND) es m = Some (Inr (), m')
        \<and> map_ok env m' \<and> alloc m' = alloc m \<and> entries m' = entries m \<union> set (real_entries es)
        \<and> used m' = used m + length (real_entries es)"
      using Cons.prems False by (intro Cons.IH) (auto simp: e)
    then show ?thesis using False by (simp add: e skip del: lookup_depth.simps de_Morgan_conj)
  next
    case True
    have hk: "mp_obj_hash env k \<noteq> None" "no_key env (map_keys m) k"
      using Cons.prems(4) [of e] True by (simp_all add: e)
    have room: "used m < alloc m" using Cons.prems(3) True by (simp add: e)
    obtain p m1 where m1: "lookup_depth (Suc d) env m k MP_MAP_LOOKUP_ADD_IF_NOT_FOUND = Some (Inr (Some p), m1)"
        "map_ok env m1" "alloc m1 = alloc m" "key_added env m k p m1"
      using lookup_add_room [OF Cons.prems(1) room hk(1) True] by blast
    have new: "entries m1 = insert (k, MP_OBJ_NULL) (entries m)" "used m1 = used m + 1" "table m1 ! p = (k, MP_OBJ_NULL)"
      and p: "slot_filled (map_keys m1) p"
    proof -
      have "m1 \<noteq> m"
        using m1(4) hk(2) by (auto simp: key_added_def no_key_def)
      then show "entries m1 = insert (k, MP_OBJ_NULL) (entries m)" "used m1 = used m + 1" "table m1 ! p = (k, MP_OBJ_NULL)"
        "slot_filled (map_keys m1) p"
        using m1(4) by (simp_all add: key_added_def)
    qed
    have pl: "p < length (table m1)" using p by (simp add: slot_filled_def)
    have kp: "map_keys m1 ! p = k" using new(3) fst_table [OF pl] by simp
    define m2 where "m2 = m1\<lparr>table := (table m1)[p := (k, v)]\<rparr>"
    have m2: "map_ok env m2" "map_keys m2 = map_keys m1" "alloc m2 = alloc m" "used m2 = used m + 1"
      using set_value [OF m1(2) p, of v] new(2) m1(3) by (simp_all add: m2_def kp)
    have ent: "entries m2 = insert (k, v) (entries m)"
    proof -
      have "(k, MP_OBJ_NULL) \<notin> entries m" using hk(2) equal_refl by (auto simp: no_key_entries)
      then show ?thesis using set_value(2) [OF m1(2) p, of v] new by (simp add: m2_def kp)
    qed
    have rest: "mp_obj_hash env (fst e') \<noteq> None \<and> no_key env (map_keys m2) (fst e')"
      if "e' \<in> set es" "is_key (fst e')" for e'
    proof -
      have "\<not> mp_obj_equal env k (fst e')" using Cons.prems(2) that True by (simp add: e)
      then show ?thesis
        using Cons.prems(4) [of e'] that ent unfolding no_key_entries by auto
    qed
    have kd: "key_distinct env es" using Cons.prems(2) by simp
    have us: "used m2 + length (real_entries es) \<le> alloc m2" using Cons.prems(3) True m2(3,4) by (simp add: e)
    obtain m' where m': "reinsert (\<lambda>m key. lookup_depth (Suc d) env m key MP_MAP_LOOKUP_ADD_IF_NOT_FOUND) es m2 = Some (Inr (), m')"
        "map_ok env m'" "alloc m' = alloc m2" "entries m' = entries m2 \<union> set (real_entries es)"
        "used m' = used m2 + length (real_entries es)"
      using Cons.IH [OF m2(1) kd us rest] by blast
    have "reinsert (\<lambda>m key. lookup_depth (Suc d) env m key MP_MAP_LOOKUP_ADD_IF_NOT_FOUND) (e # es) m = Some (Inr (), m')"
      using True m1(1) new(3) pl m'(1) by (simp add: e is_key_def rd_in wr_in m2_def del: lookup_depth.simps)
    then show ?thesis using m' m2 ent True by (intro exI [of _ m']) (auto simp: e)
  qed
qed simp

lemma rehash_run:
  assumes ok: "map_ok env m" and mem: "can_alloc env (get_hash_alloc_greater_or_equal_to (alloc m + 1))"
  shows "\<exists>m'. mp_map_rehash (\<lambda>m key. lookup_depth (Suc d) env m key MP_MAP_LOOKUP_ADD_IF_NOT_FOUND) env m = Some (Inr (), m')
    \<and> map_ok env m' \<and> used m' < alloc m' \<and> entries m' = entries m \<and> used m' = used m"
proof -
  let ?n = "get_hash_alloc_greater_or_equal_to (alloc m + 1)"
  define m0 where "m0 = m\<lparr>alloc := ?n, used := 0, all_keys_are_qstrs := True, table := new0 ?n\<rparr>"
  have n: "alloc m < ?n" using find_hash_alloc [of "alloc m + 1"] by simp
  have k0: "\<not> slot_filled (map_keys m0) p" for p using new0_empty by (simp add: m0_def map_keys_def)
  have ok0: "map_ok env m0"
    using ok k0 by (simp add: map_ok_def table_ok_def qstr_flag_ok_def) (simp add: m0_def new0_def)
  have e0: "entries m0 = {}" using k0 by (simp add: entries_def)
  have t: "table_ok env (map_keys m)" and l: "length (table m) = alloc m" using ok by (simp_all add: map_ok_def)
  have kd: "key_distinct env (table m)"
  proof (rule key_distinct_nth)
    fix p q assume pq: "p < q" "q < length (table m)" "is_key (fst (table m ! p))" "is_key (fst (table m ! q))"
    then have "slot_filled (map_keys m) p" "slot_filled (map_keys m) q"
      by (simp_all add: slot_filled_def is_key_def map_keys_def)
    then show "\<not> mp_obj_equal env (fst (table m ! p)) (fst (table m ! q))"
      using t pq by (fastforce simp: table_ok_def map_keys_def)
  qed
  have hs: "mp_obj_hash env (fst e) \<noteq> None \<and> no_key env (map_keys m0) (fst e)" if "e \<in> set (table m)" "is_key (fst e)" for e
  proof -
    obtain p where "p < length (table m)" "table m ! p = e" using \<open>e \<in> set (table m)\<close> by (auto simp: in_set_conv_nth)
    then have "slot_filled (map_keys m) p" "map_keys m ! p = fst e"
      using \<open>is_key (fst e)\<close> by (auto simp: slot_filled_def is_key_def map_keys_def)
    then show ?thesis using t k0 by (fastforce simp: table_ok_def no_key_def)
  qed
  have us: "used m0 + length (real_entries (table m)) \<le> alloc m0"
    using used_filter [OF ok] used_le [OF ok] n by (simp add: m0_def)
  obtain m' where m': "reinsert (\<lambda>m key. lookup_depth (Suc d) env m key MP_MAP_LOOKUP_ADD_IF_NOT_FOUND) (table m) m0 = Some (Inr (), m')"
      "map_ok env m'" "alloc m' = alloc m0" "entries m' = entries m0 \<union> set (real_entries (table m))"
      "used m' = used m0 + length (real_entries (table m))"
    using reinsert_run [OF ok0 kd us hs] by blast
  have "mp_map_rehash (\<lambda>m key. lookup_depth (Suc d) env m key MP_MAP_LOOKUP_ADD_IF_NOT_FOUND) env m = Some (Inr (), m')"
    using mem m'(1) by (simp add: mp_map_rehash_def Let_def m0_def del: lookup_depth.simps)
  moreover have "used m' = used m" using m'(5) used_filter [OF ok] by (simp add: m0_def)
  moreover have "alloc m' = ?n" using m'(3) by (simp add: m0_def)
  moreover have "entries m' = entries m" using m'(4) e0 entries_set by auto
  ultimately show ?thesis using m'(2) used_le [OF ok] n by (intro exI [of _ m']) simp
qed

end

subsection \<open>Lookup, insertion and removal in a hash table\<close>

text \<open>The call that returns at once: no key of the map can be equal to the index.\<close>

definition returns_early :: "objects \<Rightarrow> mp_map_t \<Rightarrow> mp_obj_t \<Rightarrow> bool" where
  "returns_early env m index \<longleftrightarrow> all_keys_are_qstrs m \<and> \<not> MP_OBJ_IS_QSTR index \<and> \<not> is_type_str env index"

definition key_removed :: "objects \<Rightarrow> mp_map_t \<Rightarrow> mp_obj_t \<Rightarrow> nat \<Rightarrow> mp_map_t \<Rightarrow> bool" where
  "key_removed env m index p m' \<longleftrightarrow>
     slot_filled (map_keys m) p \<and> mp_obj_equal env (map_keys m ! p) index
   \<and> entries m' = entries m - {table m ! p} \<and> used m' + 1 = used m
   \<and> p < length (table m') \<and> \<not> slot_filled (map_keys m') p \<and> snd (table m' ! p) = snd (table m ! p)"

context object_keys
begin

lemma early_no_key:
  assumes "map_ok env m" and "returns_early env m index"
  shows "no_key env (map_keys m) index"
  using assms qstr_equal_str unfolding map_ok_def qstr_flag_ok_def returns_early_def no_key_def by blast

lemma lookup_early:
  assumes "map_ok env m" and "returns_early env m index" and "kind \<noteq> MP_MAP_LOOKUP_ADD_IF_NOT_FOUND"
  shows "lookup_depth (Suc d) env m index kind = Some (Inr None, m)"
  using assms by (simp add: map_ok_def returns_early_def)

lemma lookup_hash:
  assumes ok: "map_ok env m" and a: "alloc m \<noteq> 0" and h: "mp_obj_hash env index \<noteq> None"
    and e: "kind = MP_MAP_LOOKUP_ADD_IF_NOT_FOUND \<or> \<not> returns_early env m index"
  shows "\<exists>same. same_on env same m index \<and> lookup_depth (Suc d) env m index kind
    = hash_loop (Suc 1) (\<lambda>m key. lookup_depth d env m key MP_MAP_LOOKUP_ADD_IF_NOT_FOUND) env
        same (hash_of env index) m index kind"
proof -
  define cmp where "cmp = (all_keys_are_qstrs m \<and> (MP_OBJ_IS_QSTR index \<or> \<not> is_type_str env index))"
  have s: "same_on env (\<lambda>key. key = index \<or> \<not> cmp \<and> mp_obj_equal env key index) m index"
    using same_is_equal [of m _ cmp index] ok by (simp add: same_on_def map_ok_def cmp_def)
  obtain x where x: "mp_obj_hash env index = Some x" using h by blast
  then have u: "unat x = hash_of env index" by (simp add: hash_of_def)
  have ne: "(all_keys_are_qstrs m \<and> \<not> MP_OBJ_IS_QSTR index \<and> \<not> is_type_str env index
      \<and> kind \<noteq> MP_MAP_LOOKUP_ADD_IF_NOT_FOUND) = False"
    using e by (auto simp: returns_early_def)
  have "\<not> is_ordered m" "\<not> is_fixed m" using ok by (simp_all add: map_ok_def)
  then have "lookup_depth (Suc d) env m index kind
    = hash_loop (Suc 1) (\<lambda>m key. lookup_depth d env m key MP_MAP_LOOKUP_ADD_IF_NOT_FOUND) env
        (\<lambda>key. key = index \<or> \<not> cmp \<and> mp_obj_equal env key index) (hash_of env index) m index kind"
    using x u a unfolding lookup_depth.simps ne Let_def cmp_def hash_lookup_def
    by (simp add: numeral_2_eq_2 del: hash_loop.simps)
  then show ?thesis using s by blast
qed

lemma empty_no_key:
  assumes "map_ok env m" and "alloc m = 0"
  shows "no_key env (map_keys m) index"
  using assms by (simp add: map_ok_def no_key_def slot_filled_def)

lemma lookup_empty:
  assumes "map_ok env m" and "alloc m = 0" and "kind \<noteq> MP_MAP_LOOKUP_ADD_IF_NOT_FOUND"
  shows "lookup_depth (Suc d) env m index kind = Some (Inr None, m)"
  using assms by (simp add: map_ok_def hash_lookup_def Let_def)

lemma lookup_nothing:
  assumes "map_ok env m" and "alloc m = 0 \<or> returns_early env m index"
  shows "no_key env (map_keys m) index"
    and "kind \<noteq> MP_MAP_LOOKUP_ADD_IF_NOT_FOUND \<Longrightarrow> lookup_depth (Suc d) env m index kind = Some (Inr None, m)"
  using assms empty_no_key early_no_key lookup_empty lookup_early by blast+

lemma probe_key:
  assumes "map_ok env m" and "0 < alloc m" and "mp_obj_hash env index \<noteq> None" and "same_on env same m index"
  obtains p where "probe same (map fst (table m)) (probe_order (hash_of env index mod alloc m) (alloc m)) None = Some (Found p)"
      "slot_filled (map_keys m) p" "mp_obj_equal env (map_keys m ! p) index"
    | r where "probe same (map fst (table m)) (probe_order (hash_of env index mod alloc m) (alloc m)) None = Some r"
      "\<And>p. r \<noteq> Found p" "no_key env (map_keys m) index"
proof -
  obtain r where r: "probe same (map fst (table m)) (probe_order (hash_of env index mod alloc m) (alloc m)) None = Some r"
    "case r of
         Found p \<Rightarrow> slot_filled (map_keys m) p \<and> mp_obj_equal env (map_keys m ! p) index
       | Empty p a \<Rightarrow> no_key env (map_keys m) index \<and> (case a of None \<Rightarrow> p | Some a \<Rightarrow> a) < length (table m)
           \<and> \<not> slot_filled (map_keys m) (case a of None \<Rightarrow> p | Some a \<Rightarrow> a)
           \<and> on_path (map_keys m) (hash_of env index) (case a of None \<Rightarrow> p | Some a \<Rightarrow> a)
       | Around (Some a) \<Rightarrow> no_key env (map_keys m) index \<and> a < length (table m) \<and> \<not> slot_filled (map_keys m) a
           \<and> on_path (map_keys m) (hash_of env index) a
       | Around None \<Rightarrow> no_key env (map_keys m) index \<and> used m = alloc m"
    using probe_map [OF assms] by blast
  show ?thesis
  proof (cases r)
    case (Found p)
    then show ?thesis using r that(1) by simp
  next
    case (Empty p a)
    then show ?thesis using r that(2) by simp
  next
    case (Around a)
    then show ?thesis using r that(2) by (cases a) simp_all
  qed
qed

lemma lookup_run:
  assumes ok: "map_ok env m" and h: "mp_obj_hash env index \<noteq> None"
  shows "\<exists>r. lookup_depth (Suc d) env m index MP_MAP_LOOKUP = Some (Inr r, m)
    \<and> (case r of None \<Rightarrow> no_key env (map_keys m) index
       | Some p \<Rightarrow> slot_filled (map_keys m) p \<and> mp_obj_equal env (map_keys m ! p) index)"
proof (cases "alloc m = 0 \<or> returns_early env m index")
  case True
  then show ?thesis using lookup_nothing [OF ok] by (intro exI [of _ None]) (simp del: lookup_depth.simps)
next
  case False
  obtain same where s: "same_on env same m index" and e: "lookup_depth (Suc d) env m index MP_MAP_LOOKUP
    = hash_loop (Suc 1) (\<lambda>m key. lookup_depth d env m key MP_MAP_LOOKUP_ADD_IF_NOT_FOUND) env
        same (hash_of env index) m index MP_MAP_LOOKUP"
    using lookup_hash [OF ok _ h] False by blast
  have a: "0 < alloc m" using False by simp
  show ?thesis
  proof (cases rule: probe_key [OF ok a h s])
    case (2 r)
    then show ?thesis unfolding e by (cases r) auto
  qed (simp add: e del: lookup_depth.simps)
qed

lemma remove_run:
  assumes ok: "map_ok env m" and h: "mp_obj_hash env index \<noteq> None"
  shows "\<exists>r m'. lookup_depth (Suc d) env m index MP_MAP_LOOKUP_REMOVE_IF_FOUND = Some (Inr r, m') \<and> map_ok env m'
    \<and> (case r of None \<Rightarrow> m' = m \<and> no_key env (map_keys m) index | Some p \<Rightarrow> key_removed env m index p m')"
proof (cases "alloc m = 0 \<or> returns_early env m index")
  case True
  then show ?thesis
    using lookup_nothing [OF ok] ok by (intro exI [of _ None] exI [of _ m]) (simp del: lookup_depth.simps)
next
  case False
  obtain same where s: "same_on env same m index" and e: "lookup_depth (Suc d) env m index MP_MAP_LOOKUP_REMOVE_IF_FOUND
    = hash_loop (Suc 1) (\<lambda>m key. lookup_depth d env m key MP_MAP_LOOKUP_ADD_IF_NOT_FOUND) env
        same (hash_of env index) m index MP_MAP_LOOKUP_REMOVE_IF_FOUND"
    using lookup_hash [OF ok _ h] False by blast
  have a: "0 < alloc m" using False by simp
  have l: "length (table m) = alloc m" and t: "table_ok env (map_keys m)" using ok by (simp_all add: map_ok_def)
  show ?thesis
  proof (cases rule: probe_key [OF ok a h s])
    case (1 p)
    note r = 1(1) and p = 1(2,3)
    define d where "d = (if map_keys m ! ((p + 1) mod length (map_keys m)) = MP_OBJ_NULL then MP_OBJ_NULL else MP_OBJ_SENTINEL)"
    define m' where "m' = m\<lparr>used := used m - 1, table := (table m)[p := (d, snd (table m ! p))]\<rparr>"
    have pl: "p < length (table m)" using p(1) by (simp add: slot_filled_def)
    have nl: "(p + 1) mod alloc m < length (table m)" using a l by simp
    have dk: "\<not> is_key d" by (simp add: d_def is_key_def)
    have k: "map_keys m' = (map_keys m)[p := d]" by (simp add: m'_def map_keys_def keys_update)
    have "{q. slot_filled (map_keys m') q} = {q. slot_filled (map_keys m) q} - {p}"
      using pl dk by (auto simp: k slot_filled_update)
    moreover have um: "used m = card {q. slot_filled (map_keys m) q}" using ok by (simp add: map_ok_def)
    moreover have "0 < card {q. slot_filled (map_keys m) q}" using p(1) by (auto simp: card_gt_0_iff)
    ultimately have u: "used m' = card {q. slot_filled (map_keys m') q}" "used m' + 1 = used m"
      using p(1) by (simp_all add: m'_def card_Diff_singleton)
    have "qstr_flag_ok m'"
      using ok dk pl by (simp add: qstr_flag_ok_def k map_ok_def slot_filled_update) (simp add: m'_def)
    then have ok': "map_ok env m'"
      using ok u(1) remove_key [OF t p(1) d_def] by (simp add: map_ok_def k) (simp add: m'_def)
    have "entries m' = entries m - {table m ! p}"
      using entries_write [OF pl, of d "snd (table m ! p)"] dk others_filled [OF t p(1)]
      by (simp add: m'_def entries_def map_keys_def)
    then have kr: "key_removed env m index p m'"
      using p u(2) pl dk by (simp add: key_removed_def k slot_filled_update) (simp add: m'_def)
    have "fst (table m ! ((p + 1) mod alloc m)) = map_keys m ! ((p + 1) mod length (map_keys m))"
      using nl l by (simp add: map_keys_def)
    then have "hash_loop (Suc 1) lookup env same (hash_of env index) m index MP_MAP_LOOKUP_REMOVE_IF_FOUND
        = Some (Inr (Some p), m')" for lookup
      unfolding hash_loop.simps r using pl nl by (simp add: rd_in wr_in m'_def d_def split_beta)
    then show ?thesis unfolding e using ok' kr
      by (intro exI [of _ "Some p"] exI [of _ m']) (simp del: hash_loop.simps lookup_depth.simps)
  next
    case (2 r)
    then show ?thesis using ok unfolding e by (cases r) auto
  qed
qed

end

context object_keys
begin

lemma loop_add:
  assumes ok: "map_ok env m" and a: "0 < alloc m" and h: "mp_obj_hash env index \<noteq> None" and k: "is_key index"
    and s: "same_on env same m index"
  shows "\<exists>r m'. hash_loop (Suc (Suc n)) (\<lambda>m key. lookup_depth (Suc d) env m key MP_MAP_LOOKUP_ADD_IF_NOT_FOUND) env same
      (hash_of env index) m index MP_MAP_LOOKUP_ADD_IF_NOT_FOUND = Some (r, m') \<and> map_ok env m'
    \<and> (case r of Inl e \<Rightarrow> e = MemoryError \<and> m' = m \<and> no_key env (map_keys m) index
          \<and> \<not> can_alloc env (get_hash_alloc_greater_or_equal_to (alloc m + 1))
       | Inr None \<Rightarrow> False | Inr (Some p) \<Rightarrow> key_added env m index p m')"
proof (cases "used m < alloc m")
  case True
  obtain p m' where "hash_loop (Suc (Suc n)) (\<lambda>m key. lookup_depth (Suc d) env m key MP_MAP_LOOKUP_ADD_IF_NOT_FOUND) env same
      (hash_of env index) m index MP_MAP_LOOKUP_ADD_IF_NOT_FOUND = Some (Inr (Some p), m')" "map_ok env m'" "key_added env m index p m'"
    using loop_add_room [OF ok True h k s] by blast
  then show ?thesis by (intro exI [of _ "Inr (Some p)"] exI [of _ m']) (simp del: hash_loop.simps lookup_depth.simps)
next
  case False
  let ?L = "\<lambda>m key. lookup_depth (Suc d) env m key MP_MAP_LOOKUP_ADD_IF_NOT_FOUND"
  have full: "used m = alloc m" "length (table m) = alloc m"
    using False used_le [OF ok] ok by (simp_all add: map_ok_def)
  have filled: "slot_filled (map_keys m) q" if "q < length (map_keys m)" for q
  proof -
    have "{q. slot_filled (map_keys m) q} \<subseteq> {..<alloc m}" using full by (auto simp: slot_filled_def)
    moreover have "card {q. slot_filled (map_keys m) q} = alloc m" using ok full by (simp add: map_ok_def)
    ultimately have "{q. slot_filled (map_keys m) q} = {..<alloc m}" by (intro card_subset_eq) auto
    then show ?thesis using that full by auto
  qed
  obtain r where r: "probe same (map fst (table m)) (probe_order (hash_of env index mod alloc m) (alloc m)) None = Some r"
    "case r of
         Found p \<Rightarrow> slot_filled (map_keys m) p \<and> mp_obj_equal env (map_keys m ! p) index
       | Empty p a \<Rightarrow> no_key env (map_keys m) index \<and> (case a of None \<Rightarrow> p | Some a \<Rightarrow> a) < length (table m)
           \<and> \<not> slot_filled (map_keys m) (case a of None \<Rightarrow> p | Some a \<Rightarrow> a)
           \<and> on_path (map_keys m) (hash_of env index) (case a of None \<Rightarrow> p | Some a \<Rightarrow> a)
       | Around (Some a) \<Rightarrow> no_key env (map_keys m) index \<and> a < length (table m) \<and> \<not> slot_filled (map_keys m) a
           \<and> on_path (map_keys m) (hash_of env index) a
       | Around None \<Rightarrow> no_key env (map_keys m) index \<and> used m = alloc m"
    using probe_map [OF ok a h s] by blast
  consider (found) p where "r = Found p" | (around) "r = Around None"
    using r(2) filled by (cases r) (auto split: option.splits)
  then show ?thesis
  proof cases
    case (found p)
    then show ?thesis
      using ok r unfolding hash_loop.simps by (intro exI [of _ "Inr (Some p)"] exI [of _ m]) (simp add: key_added_def)
  next
    case around
    then have nk: "no_key env (map_keys m) index" using r(2) by simp
    show ?thesis
    proof (cases "can_alloc env (get_hash_alloc_greater_or_equal_to (alloc m + 1))")
      case False
      then show ?thesis using ok r(1) around nk unfolding hash_loop.simps
        by (intro exI [of _ "Inl MemoryError"] exI [of _ m]) (simp add: mp_map_rehash_def del: lookup_depth.simps)
    next
      case True
      obtain m1 where m1: "mp_map_rehash ?L env m = Some (Inr (), m1)" "map_ok env m1" "used m1 < alloc m1"
          "entries m1 = entries m" "used m1 = used m"
        using rehash_run [OF ok True, of d] by blast
      have s1: "same_on env same m1 index" using same_on_entries [OF s] m1(4) by blast
      obtain p m' where m': "hash_loop (Suc n) ?L env same (hash_of env index) m1 index MP_MAP_LOOKUP_ADD_IF_NOT_FOUND
          = Some (Inr (Some p), m')" "map_ok env m'" "key_added env m1 index p m'"
        using loop_add_room [OF m1(2,3) h k s1] by blast
      have "no_key env (map_keys m1) index" using nk m1(4) by (simp add: no_key_entries)
      then have "key_added env m index p m'"
        using m'(3) m1(4,5) nk by (auto simp: key_added_def no_key_def)
      moreover have "hash_loop (Suc (Suc n)) ?L env same (hash_of env index) m index MP_MAP_LOOKUP_ADD_IF_NOT_FOUND
          = Some (Inr (Some p), m')"
        unfolding hash_loop.simps(2) [of "Suc n"]
        using r(1) around m1(1) m'(1) by (simp del: hash_loop.simps lookup_depth.simps)
      ultimately show ?thesis using m'(2)
        by (intro exI [of _ "Inr (Some p)"] exI [of _ m']) (simp del: hash_loop.simps lookup_depth.simps)
    qed
  qed
qed

end

context object_keys
begin

lemma add_run:
  assumes ok: "map_ok env m" and h: "mp_obj_hash env index \<noteq> None" and k: "is_key index"
  shows "\<exists>r m'. lookup_depth (Suc (Suc d)) env m index MP_MAP_LOOKUP_ADD_IF_NOT_FOUND = Some (r, m') \<and> map_ok env m'
    \<and> (case r of Inl e \<Rightarrow> e = MemoryError \<and> m' = m \<and> no_key env (map_keys m) index
          \<and> \<not> can_alloc env (get_hash_alloc_greater_or_equal_to (alloc m + 1))
       | Inr None \<Rightarrow> False | Inr (Some p) \<Rightarrow> key_added env m index p m')"
proof (cases "alloc m = 0")
  case False
  obtain same where s: "same_on env same m index" and e: "lookup_depth (Suc (Suc d)) env m index MP_MAP_LOOKUP_ADD_IF_NOT_FOUND
    = hash_loop (Suc 1) (\<lambda>m key. lookup_depth (Suc d) env m key MP_MAP_LOOKUP_ADD_IF_NOT_FOUND) env
        same (hash_of env index) m index MP_MAP_LOOKUP_ADD_IF_NOT_FOUND"
    using lookup_hash [OF ok False h, of MP_MAP_LOOKUP_ADD_IF_NOT_FOUND "Suc d"] by blast
  have a: "0 < alloc m" using False by simp
  show ?thesis using loop_add [OF ok a h k s, of 0 d] unfolding e One_nat_def .
next
  case True
  let ?L = "\<lambda>m key. lookup_depth (Suc d) env m key MP_MAP_LOOKUP_ADD_IF_NOT_FOUND"
  define cmp where "cmp = (all_keys_are_qstrs m \<and> (MP_OBJ_IS_QSTR index \<or> \<not> is_type_str env index))"
  let ?same = "\<lambda>key. key = index \<or> \<not> cmp \<and> mp_obj_equal env key index"
  have flags: "\<not> is_ordered m" "\<not> is_fixed m" using ok by (simp_all add: map_ok_def)
  have step: "lookup_depth (Suc (Suc d)) env m index MP_MAP_LOOKUP_ADD_IF_NOT_FOUND
      = hash_lookup ?L env ?same m index MP_MAP_LOOKUP_ADD_IF_NOT_FOUND"
    unfolding lookup_depth.simps(2) [of "Suc d"] Let_def cmp_def using flags by (simp del: lookup_depth.simps)
  obtain x where x: "mp_obj_hash env index = Some x" "unat x = hash_of env index" using h by (auto simp: hash_of_def)
  have nk: "no_key env (map_keys m) index" by (rule empty_no_key [OF ok True])
  show ?thesis
  proof (cases "can_alloc env (get_hash_alloc_greater_or_equal_to (alloc m + 1))")
    case False
    then show ?thesis using ok True nk unfolding step
      by (intro exI [of _ "Inl MemoryError"] exI [of _ m]) (simp add: hash_lookup_def mp_map_rehash_def del: lookup_depth.simps)
  next
    case mem: True
    obtain m1 where m1: "mp_map_rehash ?L env m = Some (Inr (), m1)" "map_ok env m1" "used m1 < alloc m1"
        "entries m1 = entries m" "used m1 = used m"
      using rehash_run [OF ok mem, of d] by blast
    have nk1: "no_key env (map_keys m1) index" using nk m1(4) by (simp add: no_key_entries)
    have "entries m1 = {}" using m1(4) True ok by (simp add: entries_def slot_filled_def map_ok_def)
    then have s1: "same_on env ?same m1 index" using entries_slot by (fastforce simp: same_on_def)
    obtain p m' where m': "hash_loop (Suc 1) ?L env ?same (hash_of env index) m1 index MP_MAP_LOOKUP_ADD_IF_NOT_FOUND
        = Some (Inr (Some p), m')" "map_ok env m'" "key_added env m1 index p m'"
      using loop_add_room [OF m1(2,3) h k s1] by blast
    have "hash_lookup ?L env ?same m index MP_MAP_LOOKUP_ADD_IF_NOT_FOUND = Some (Inr (Some p), m')"
      using True x m1(1) m'(1) by (simp add: hash_lookup_def numeral_2_eq_2 del: hash_loop.simps lookup_depth.simps)
    moreover have "key_added env m index p m'"
      using m'(3) m1(4,5) nk nk1 by (auto simp: key_added_def no_key_def)
    ultimately show ?thesis using m'(2) unfolding step
      by (intro exI [of _ "Inr (Some p)"] exI [of _ m']) (simp del: hash_loop.simps lookup_depth.simps)
  qed
qed

lemma unhashable_run:
  assumes ok: "map_ok env m" and h: "mp_obj_hash env index = None"
  shows "\<exists>r m'. lookup_depth (Suc (Suc d)) env m index kind = Some (r, m') \<and> map_ok env m' \<and> entries m' = entries m
    \<and> (r = Inl TypeError \<or> r = Inl MemoryError \<or> r = Inr None)"
proof -
  have flags: "\<not> is_ordered m" "\<not> is_fixed m" using ok by (simp_all add: map_ok_def)
  obtain u m1 where m1: "mp_map_rehash (\<lambda>m key. lookup_depth (Suc d) env m key MP_MAP_LOOKUP_ADD_IF_NOT_FOUND) env m = Some (u, m1)"
      "map_ok env m1" "entries m1 = entries m" "u = Inr () \<or> u = Inl MemoryError"
  proof (cases "can_alloc env (get_hash_alloc_greater_or_equal_to (alloc m + 1))")
    case True
    then show ?thesis using rehash_run [OF ok True, of d] that by blast
  qed (use that ok in \<open>simp add: mp_map_rehash_def\<close>)
  then show ?thesis
    using ok h flags unfolding lookup_depth.simps(2) [of "Suc d"] Let_def hash_lookup_def
    by (auto simp del: lookup_depth.simps)
qed

end

subsection \<open>The abstract map\<close>

text \<open>What a map holds for an index: the value of the first entry whose key is equal to it.\<close>

definition content_of :: "objects \<Rightarrow> (mp_obj_t \<times> mp_obj_t) list \<Rightarrow> mp_obj_t \<Rightarrow> mp_obj_t option" where
  "content_of env es index = map_option snd (find (\<lambda>e. is_key (fst e) \<and> mp_obj_equal env (fst e) index) es)"

definition content :: "objects \<Rightarrow> mp_map_t \<Rightarrow> mp_obj_t \<Rightarrow> mp_obj_t option" where
  "content env m = content_of env (table m)"

text \<open>The caller's store through the slot that a lookup returned.\<close>

definition set_slot_value :: "mp_map_t \<Rightarrow> nat \<Rightarrow> mp_obj_t \<Rightarrow> mp_map_t option" where
  "set_slot_value m slot v = do {
     (key, old) \<leftarrow> rd (table m) slot;
     t \<leftarrow> wr (table m) slot (key, v);
     Some (m\<lparr>table := t\<rparr>) }"

lemma content_of_simps [simp]:
  "content_of env [] index = None"
  "content_of env (e # es) index = (if is_key (fst e) \<and> mp_obj_equal env (fst e) index then Some (snd e) else content_of env es index)"
  by (simp_all add: content_of_def)

lemma content_of_None: "content_of env es index = None \<longleftrightarrow> (\<forall>e \<in> set es. is_key (fst e) \<longrightarrow> \<not> mp_obj_equal env (fst e) index)"
  by (induction es) auto

lemma content_None: "content env m index = None \<longleftrightarrow> no_key env (map_keys m) index"
  by (auto simp: content_def content_of_None no_key_entries entries_set)

lemma key_distinctD:
  "key_distinct env es \<Longrightarrow> p < q \<Longrightarrow> q < length es \<Longrightarrow> is_key (fst (es ! p)) \<Longrightarrow> is_key (fst (es ! q)) \<Longrightarrow>
    \<not> mp_obj_equal env (fst (es ! p)) (fst (es ! q))"
proof (induction es arbitrary: p q)
  case (Cons e es)
  then show ?case by (cases p; cases q) auto
qed simp

context object_keys
begin

lemma content_of_Some:
  "key_distinct env es \<Longrightarrow> content_of env es index = Some v \<longleftrightarrow> (\<exists>k. (k, v) \<in> set es \<and> is_key k \<and> mp_obj_equal env k index)"
proof (induction es)
  case (Cons e es)
  show ?case
  proof (cases "is_key (fst e) \<and> mp_obj_equal env (fst e) index")
    case True
    have "\<not> (\<exists>k w. (k, w) \<in> set es \<and> is_key k \<and> mp_obj_equal env k index)"
    proof
      assume "\<exists>k w. (k, w) \<in> set es \<and> is_key k \<and> mp_obj_equal env k index"
      then obtain k w where "(k, w) \<in> set es" "is_key k" "mp_obj_equal env k index" by blast
      moreover have "mp_obj_equal env (fst e) k" using True calculation(3) equal_sym equal_trans by blast
      ultimately show False using Cons.prems True by force
    qed
    then show ?thesis using True by (cases e) auto
  next
    case False
    then show ?thesis using Cons by (cases e) auto
  qed
qed simp

lemma content_Some:
  "key_distinct env (table m) \<Longrightarrow> content env m index = Some v \<longleftrightarrow> (\<exists>k. (k, v) \<in> entries m \<and> mp_obj_equal env k index)"
  by (auto simp: content_def content_of_Some entries_set)

lemma map_distinct:
  assumes "map_ok env m"
  shows "key_distinct env (table m)"
proof (rule key_distinct_nth)
  have t: "table_ok env (map_keys m)" using assms by (simp add: map_ok_def)
  fix p q assume pq: "p < q" "q < length (table m)" "is_key (fst (table m ! p))" "is_key (fst (table m ! q))"
  then have "slot_filled (map_keys m) p" "slot_filled (map_keys m) q"
    by (simp_all add: slot_filled_def is_key_def map_keys_def)
  then show "\<not> mp_obj_equal env (fst (table m ! p)) (fst (table m ! q))"
    using t pq by (fastforce simp: table_ok_def map_keys_def)
qed

lemma content_slot:
  assumes "key_distinct env (table m)" and "slot_filled (map_keys m) p" and "mp_obj_equal env (map_keys m ! p) index"
  shows "content env m index = Some (snd (table m ! p))"
proof -
  have "(map_keys m ! p, snd (table m ! p)) \<in> entries m"
    using assms(2) entries_slot [OF assms(2)] by (metis fst_table prod.collapse slot_filled_def length_keys)
  then show ?thesis using assms(3) by (subst content_Some [OF assms(1)]) blast
qed

lemma content_insert:
  assumes "key_distinct env (table m)" and "key_distinct env (table m')"
    and e: "entries m' = insert (k, v) (entries m - {e. mp_obj_equal env (fst e) k})"
  shows "content env m' = (\<lambda>i. if mp_obj_equal env k i then Some v else content env m i)"
proof
  fix i
  show "content env m' i = (if mp_obj_equal env k i then Some v else content env m i)"
  proof (cases "mp_obj_equal env k i")
    case True
    then have "content env m' i = Some v" using e by (subst content_Some [OF assms(2)]) blast
    then show ?thesis using True by simp
  next
    case False
    have ne: "\<not> mp_obj_equal env k' k" if "mp_obj_equal env k' i" for k'
      using False that equal_sym equal_trans by blast
    have "content env m' i = Some w \<longleftrightarrow> content env m i = Some w" for w
      unfolding content_Some [OF assms(1)] content_Some [OF assms(2)] e using False ne by auto
    then have "content env m' i = content env m i" by (metis option.exhaust)
    then show ?thesis using False by simp
  qed
qed

lemma content_remove:
  assumes "key_distinct env (table m)" and "key_distinct env (table m')"
    and e: "entries m' = entries m - {e. mp_obj_equal env (fst e) k}"
  shows "content env m' = (\<lambda>i. if mp_obj_equal env k i then None else content env m i)"
proof
  fix i
  have ne: "mp_obj_equal env k' k \<longleftrightarrow> mp_obj_equal env k i" if "mp_obj_equal env k' i" for k'
    using that equal_sym equal_trans by blast
  have "content env m' i = Some w \<longleftrightarrow> \<not> mp_obj_equal env k i \<and> content env m i = Some w" for w
    unfolding content_Some [OF assms(1)] content_Some [OF assms(2)] e using ne by auto
  then show "content env m' i = (if mp_obj_equal env k i then None else content env m i)"
    by (metis not_None_eq)
qed

lemma same_slot:
  assumes "key_distinct env (table m)" and "slot_filled (map_keys m) p" and "slot_filled (map_keys m) q"
    and "mp_obj_equal env (map_keys m ! p) (map_keys m ! q)"
  shows "p = q"
proof (rule linorder_cases [of p q])
  have k: "r < length (table m)" "is_key (fst (table m ! r))" "fst (table m ! r) = map_keys m ! r"
    if "slot_filled (map_keys m) r" for r
    using that by (simp_all add: slot_filled_def is_key_def fst_table)
  {
    assume "p < q"
    then show "p = q" using key_distinctD [OF assms(1)] k [OF assms(2)] k [OF assms(3)] assms(4) by metis
  next
    assume "q < p"
    then show "p = q" using key_distinctD [OF assms(1)] k [OF assms(2)] k [OF assms(3)] assms(4) equal_sym by metis
  }
qed

lemma equal_entries:
  assumes "key_distinct env (table m)" and "slot_filled (map_keys m) p" and "mp_obj_equal env (map_keys m ! p) k"
  shows "entries m - {table m ! p} = entries m - {e. mp_obj_equal env (fst e) k}"
proof -
  have "e = table m ! p" if e: "e \<in> entries m" "mp_obj_equal env (fst e) k" for e
  proof -
    obtain q where q: "slot_filled (map_keys m) q" "map_keys m ! q = fst e" "table m ! q = e"
      using entries_key [of "fst e" "snd e" m] e(1) by auto
    have "mp_obj_equal env (map_keys m ! p) (map_keys m ! q)"
      using assms(3) e(2) q(2) equal_sym equal_trans by metis
    then show ?thesis using same_slot [OF assms(1,2) q(1)] q(3) by simp
  qed
  moreover have "mp_obj_equal env (fst (table m ! p)) k" using assms(2,3) by (simp add: fst_table slot_filled_def)
  ultimately show ?thesis by auto
qed

end

subsection \<open>The contract of a map\<close>

abbreviation put_value :: "mp_map_t \<Rightarrow> nat \<Rightarrow> mp_obj_t \<Rightarrow> mp_map_t" where
  "put_value m p v \<equiv> m\<lparr>table := (table m)[p := (fst (table m ! p), v)]\<rparr>"

lemma set_slot_value: "p < length (table m) \<Longrightarrow> set_slot_value m p v = Some (put_value m p v)"
  by (simp add: set_slot_value_def rd_in wr_in split_beta)

definition slot_holds :: "objects \<Rightarrow> mp_map_t \<Rightarrow> mp_obj_t \<Rightarrow> nat option \<Rightarrow> bool" where
  "slot_holds env m index r \<longleftrightarrow>
     (case r of None \<Rightarrow> content env m index = None
      | Some p \<Rightarrow> p < length (table m) \<and> content env m index = Some (snd (table m ! p)))"

text \<open>
  The slot of an addition: an old entry in an unchanged map, or a new one; a value stored in it is
  the value of the index from then on.
\<close>

definition slot_added :: "objects \<Rightarrow> (mp_map_t \<Rightarrow> bool) \<Rightarrow> mp_map_t \<Rightarrow> mp_obj_t \<Rightarrow> nat \<Rightarrow> mp_map_t \<Rightarrow> bool" where
  "slot_added env ok m index p m' \<longleftrightarrow> p < length (table m')
   \<and> (content env m index \<noteq> None \<longrightarrow> m' = m \<and> content env m index = Some (snd (table m ! p)))
   \<and> (\<forall>v. ok (put_value m' p v)
        \<and> content env (put_value m' p v) = (\<lambda>i. if mp_obj_equal env index i then Some v else content env m i))"

definition slot_removed :: "objects \<Rightarrow> (mp_map_t \<Rightarrow> bool) \<Rightarrow> mp_map_t \<Rightarrow> mp_obj_t \<Rightarrow> nat \<Rightarrow> mp_map_t \<Rightarrow> bool" where
  "slot_removed env ok m index p m' \<longleftrightarrow> p < length (table m')
   \<and> content env m index = Some (snd (table m' ! p))
   \<and> (\<forall>v. ok (put_value m' p v)
        \<and> content env (put_value m' p v) = (\<lambda>i. if mp_obj_equal env index i then None else content env m i))"

locale lookup_table = object_keys +
  fixes ok :: "mp_map_t \<Rightarrow> bool"
  assumes ok_distinct: "ok m \<Longrightarrow> key_distinct env (table m)"
    and ok_used: "ok m \<Longrightarrow> used m = length (real_entries (table m))"
    and find_law: "ok m \<Longrightarrow> mp_obj_hash env index \<noteq> None \<Longrightarrow>
      \<exists>r. mp_map_lookup env m index MP_MAP_LOOKUP = Some (Inr r, m) \<and> slot_holds env m index r"
    and add_law: "ok m \<Longrightarrow> mp_obj_hash env index \<noteq> None \<Longrightarrow> is_key index \<Longrightarrow>
      \<exists>r m'. mp_map_lookup env m index MP_MAP_LOOKUP_ADD_IF_NOT_FOUND = Some (r, m')
        \<and> (case r of Inl e \<Rightarrow> e = MemoryError \<and> content env m index = None \<and> content env m' = content env m
           | Inr None \<Rightarrow> False | Inr (Some p) \<Rightarrow> slot_added env ok m index p m')"
    and remove_law: "ok m \<Longrightarrow> mp_obj_hash env index \<noteq> None \<Longrightarrow>
      \<exists>r m'. mp_map_lookup env m index MP_MAP_LOOKUP_REMOVE_IF_FOUND = Some (Inr r, m')
        \<and> (case r of None \<Rightarrow> m' = m \<and> content env m index = None | Some p \<Rightarrow> slot_removed env ok m index p m')"

text \<open>A map that is intact after a failed allocation.\<close>

locale robust_table = lookup_table +
  assumes error_law: "ok m \<Longrightarrow> mp_obj_hash env index \<noteq> None \<Longrightarrow> is_key index \<Longrightarrow>
    mp_map_lookup env m index MP_MAP_LOOKUP_ADD_IF_NOT_FOUND = Some (Inl e, m') \<Longrightarrow> ok m'"
    and new_law: "ok m \<Longrightarrow> mp_obj_hash env index \<noteq> None \<Longrightarrow> is_key index \<Longrightarrow> content env m index = None \<Longrightarrow>
    mp_map_lookup env m index MP_MAP_LOOKUP_ADD_IF_NOT_FOUND = Some (Inr (Some p), m') \<Longrightarrow> snd (table m' ! p) = MP_OBJ_NULL"

context object_keys
begin

lemma put_value_free:
  assumes "map_ok env m" and "\<not> slot_filled (map_keys m) p" and "p < length (table m)"
  shows "map_ok env (put_value m p v)" and "entries (put_value m p v) = entries m"
proof -
  have "map_keys (put_value m p v) = map_keys m"
    using assms(3) by (simp add: map_keys_def keys_update) (metis length_map list_update_id nth_map)
  then show "map_ok env (put_value m p v)" using assms(1) by (simp add: map_ok_def qstr_flag_ok_def)
  show "entries (put_value m p v) = entries m"
  proof -
    have "\<not> is_key (fst (table m ! p))" using assms(2,3) by (simp add: slot_filled_def is_key_def fst_table)
    then show ?thesis using entries_write [OF assms(3), of "fst (table m ! p)" v] others_free [OF assms(2)] by simp
  qed
qed

lemma hash_find:
  assumes ok: "map_ok env m" and h: "mp_obj_hash env index \<noteq> None"
  shows "\<exists>r. mp_map_lookup env m index MP_MAP_LOOKUP = Some (Inr r, m) \<and> slot_holds env m index r"
proof -
  obtain r where r: "mp_map_lookup env m index MP_MAP_LOOKUP = Some (Inr r, m)"
    "case r of None \<Rightarrow> no_key env (map_keys m) index
       | Some p \<Rightarrow> slot_filled (map_keys m) p \<and> mp_obj_equal env (map_keys m ! p) index"
    using lookup_run [OF ok h, of 1] unfolding mp_map_lookup_def One_nat_def numeral_2_eq_2 by blast
  have "slot_holds env m index r"
    using r(2) content_slot [OF map_distinct [OF ok]]
    by (auto simp: slot_holds_def content_None slot_filled_def split: option.splits)
  then show ?thesis using r(1) by blast
qed

lemma hash_added:
  assumes ok: "map_ok env m" and ok': "map_ok env m'" and a: "key_added env m index p m'"
  shows "slot_added env (map_ok env) m index p m'"
  unfolding slot_added_def
proof (intro conjI allI impI)
  have p: "slot_filled (map_keys m') p" "mp_obj_equal env (map_keys m' ! p) index"
    using a by (simp_all add: key_added_def)
  then show pl: "p < length (table m')" by (simp add: slot_filled_def)
  assume "content env m index \<noteq> None"
  then show e: "m' = m" using a by (auto simp: key_added_def content_None)
  then show "content env m index = Some (snd (table m ! p))"
    using content_slot [OF map_distinct [OF ok']] p by blast
next
  fix v
  have p: "slot_filled (map_keys m') p" "mp_obj_equal env (map_keys m' ! p) index"
    using a by (simp_all add: key_added_def)
  have eq1: "mp_obj_equal env a index \<longleftrightarrow> mp_obj_equal env a (map_keys m' ! p)" for a
    using p(2) equal_sym equal_trans by blast
  have eq2: "mp_obj_equal env (map_keys m' ! p) i \<longleftrightarrow> mp_obj_equal env index i" for i
    using p(2) equal_sym equal_trans by blast
  have pv: "put_value m' p v = m'\<lparr>table := (table m')[p := (map_keys m' ! p, v)]\<rparr>"
    using p(1) by (simp add: slot_filled_def fst_table)
  show ok'': "map_ok env (put_value m' p v)" unfolding pv by (rule set_value(1) [OF ok' p(1)])
  have "entries (put_value m' p v) = insert (map_keys m' ! p, v) (entries m' - {e. mp_obj_equal env (fst e) index})"
    unfolding pv set_value(2) [OF ok' p(1)] equal_entries [OF map_distinct [OF ok'] p] by simp
  also have "entries m' - {e. mp_obj_equal env (fst e) index} = entries m - {e. mp_obj_equal env (fst e) index}"
    using a equal_refl by (auto simp: key_added_def)
  finally have "entries (put_value m' p v)
      = insert (map_keys m' ! p, v) (entries m - {e. mp_obj_equal env (fst e) (map_keys m' ! p)})"
    by (simp add: eq1)
  then have "content env (put_value m' p v) = (\<lambda>i. if mp_obj_equal env (map_keys m' ! p) i then Some v else content env m i)"
    by (rule content_insert [OF map_distinct [OF ok] map_distinct [OF ok'']])
  then show "content env (put_value m' p v) = (\<lambda>i. if mp_obj_equal env index i then Some v else content env m i)"
    by (simp add: eq2)
qed

lemma hash_removed:
  assumes ok: "map_ok env m" and ok': "map_ok env m'" and r: "key_removed env m index p m'"
  shows "slot_removed env (map_ok env) m index p m'"
  unfolding slot_removed_def
proof (intro conjI allI)
  have p: "slot_filled (map_keys m) p" "mp_obj_equal env (map_keys m ! p) index"
    and e: "entries m' = entries m - {table m ! p}"
    and s: "snd (table m' ! p) = snd (table m ! p)"
    using r by (simp_all add: key_removed_def)
  show pl: "p < length (table m')" using r by (simp add: key_removed_def)
  show "content env m index = Some (snd (table m' ! p))"
    unfolding s by (rule content_slot [OF map_distinct [OF ok] p])
  fix v
  have free: "\<not> slot_filled (map_keys m') p" using r by (simp add: key_removed_def)
  show ok'': "map_ok env (put_value m' p v)" by (rule put_value_free(1) [OF ok' free pl])
  have "entries (put_value m' p v) = entries m - {e. mp_obj_equal env (fst e) index}"
    unfolding put_value_free(2) [OF ok' free pl] e by (rule equal_entries [OF map_distinct [OF ok] p])
  then show "content env (put_value m' p v) = (\<lambda>i. if mp_obj_equal env index i then None else content env m i)"
    by (rule content_remove [OF map_distinct [OF ok] map_distinct [OF ok'']])
qed

end

context object_keys
begin

lemma hash_add:
  assumes ok: "map_ok env m" and h: "mp_obj_hash env index \<noteq> None" and k: "is_key index"
  shows "\<exists>r m'. mp_map_lookup env m index MP_MAP_LOOKUP_ADD_IF_NOT_FOUND = Some (r, m') \<and> map_ok env m'
    \<and> (case r of Inl e \<Rightarrow> e = MemoryError \<and> m' = m \<and> content env m index = None
       | Inr None \<Rightarrow> False
       | Inr (Some p) \<Rightarrow> slot_added env (map_ok env) m index p m'
           \<and> (content env m index = None \<longrightarrow> snd (table m' ! p) = MP_OBJ_NULL))"
proof -
  obtain r m' where r: "mp_map_lookup env m index MP_MAP_LOOKUP_ADD_IF_NOT_FOUND = Some (r, m')" "map_ok env m'"
    "case r of Inl e \<Rightarrow> e = MemoryError \<and> m' = m \<and> no_key env (map_keys m) index
          \<and> \<not> can_alloc env (get_hash_alloc_greater_or_equal_to (alloc m + 1))
       | Inr None \<Rightarrow> False | Inr (Some p) \<Rightarrow> key_added env m index p m'"
    using add_run [OF ok h k, of 0] unfolding mp_map_lookup_def numeral_2_eq_2 by blast
  have "snd (table m' ! p) = MP_OBJ_NULL" if "key_added env m index p m'" "content env m index = None" for p
    using that by (auto simp: key_added_def content_None no_key_def)
  then show ?thesis
    using r hash_added [OF ok r(2)]
    by (intro exI [of _ r] exI [of _ m']) (auto simp: content_None split: sum.splits option.splits)
qed

lemma hash_remove:
  assumes ok: "map_ok env m" and h: "mp_obj_hash env index \<noteq> None"
  shows "\<exists>r m'. mp_map_lookup env m index MP_MAP_LOOKUP_REMOVE_IF_FOUND = Some (Inr r, m')
    \<and> (case r of None \<Rightarrow> m' = m \<and> content env m index = None | Some p \<Rightarrow> slot_removed env (map_ok env) m index p m')"
proof -
  obtain r m' where r: "mp_map_lookup env m index MP_MAP_LOOKUP_REMOVE_IF_FOUND = Some (Inr r, m')" "map_ok env m'"
    "case r of None \<Rightarrow> m' = m \<and> no_key env (map_keys m) index | Some p \<Rightarrow> key_removed env m index p m'"
    using remove_run [OF ok h, of 1] unfolding mp_map_lookup_def One_nat_def numeral_2_eq_2 by blast
  then show ?thesis
    using hash_removed [OF ok r(2)]
    by (intro exI [of _ r] exI [of _ m']) (auto simp: content_None split: option.splits)
qed

end

sublocale object_keys < hash: robust_table env "map_ok env"
proof unfold_locales
  fix m index assume m: "map_ok env m" and h: "mp_obj_hash env index \<noteq> None"
  show "\<exists>r. mp_map_lookup env m index MP_MAP_LOOKUP = Some (Inr r, m) \<and> slot_holds env m index r"
    by (rule hash_find [OF m h])
  show "\<exists>r m'. mp_map_lookup env m index MP_MAP_LOOKUP_REMOVE_IF_FOUND = Some (Inr r, m')
    \<and> (case r of None \<Rightarrow> m' = m \<and> content env m index = None | Some p \<Rightarrow> slot_removed env (map_ok env) m index p m')"
    by (rule hash_remove [OF m h])
  assume k: "is_key index"
  obtain r m' where r: "mp_map_lookup env m index MP_MAP_LOOKUP_ADD_IF_NOT_FOUND = Some (r, m')" "map_ok env m'"
    "case r of Inl e \<Rightarrow> e = MemoryError \<and> m' = m \<and> content env m index = None
       | Inr None \<Rightarrow> False
       | Inr (Some p) \<Rightarrow> slot_added env (map_ok env) m index p m'
           \<and> (content env m index = None \<longrightarrow> snd (table m' ! p) = MP_OBJ_NULL)"
    using hash_add [OF m h k] by blast
  show "\<exists>r m'. mp_map_lookup env m index MP_MAP_LOOKUP_ADD_IF_NOT_FOUND = Some (r, m')
        \<and> (case r of Inl e \<Rightarrow> e = MemoryError \<and> content env m index = None \<and> content env m' = content env m
           | Inr None \<Rightarrow> False | Inr (Some p) \<Rightarrow> slot_added env (map_ok env) m index p m')"
    using r by (intro exI [of _ r] exI [of _ m']) (auto split: sum.splits option.splits)
  show "map_ok env n" if "mp_map_lookup env m index MP_MAP_LOOKUP_ADD_IF_NOT_FOUND = Some (Inl e, n)" for e n
    using that r by simp
  show "snd (table n ! p) = MP_OBJ_NULL" if "content env m index = None"
    "mp_map_lookup env m index MP_MAP_LOOKUP_ADD_IF_NOT_FOUND = Some (Inr (Some p), n)" for p n
    using that r by simp
qed (simp_all add: map_distinct used_filter)

subsection \<open>Ordered maps\<close>

definition ordered_ok :: "objects \<Rightarrow> mp_map_t \<Rightarrow> bool" where
  "ordered_ok env m \<longleftrightarrow> is_ordered m \<and> \<not> is_fixed m \<and> length (table m) = alloc m \<and> used m \<le> alloc m
   \<and> (\<forall>p < used m. is_key (fst (table m ! p))) \<and> (\<forall>p. used m \<le> p \<and> p < alloc m \<longrightarrow> fst (table m ! p) = MP_OBJ_NULL)
   \<and> key_distinct env (table m) \<and> qstr_flag_ok m"

definition first_same :: "(mp_obj_t \<Rightarrow> bool) \<Rightarrow> mp_map_t \<Rightarrow> nat option \<Rightarrow> bool" where
  "first_same same m r \<longleftrightarrow> (case r of None \<Rightarrow> \<forall>p < used m. \<not> same (fst (table m ! p))
     | Some p \<Rightarrow> p < used m \<and> same (fst (table m ! p)))"

lemma search_ordered_run:
  "\<forall>i \<in> set is. i < length tab \<Longrightarrow> \<exists>r. search_ordered same tab is = Some r
    \<and> (case r of None \<Rightarrow> \<forall>i \<in> set is. \<not> same (fst (tab ! i)) | Some i \<Rightarrow> i \<in> set is \<and> same (fst (tab ! i)))"
  by (induction "is") (auto simp: rd_in split_beta split: option.splits)

lemma search_first_same:
  assumes "used m \<le> length (table m)"
  shows "\<exists>r. search_ordered same (table m) [0..<used m] = Some r \<and> first_same same m r"
  using search_ordered_run [of "[0..<used m]" "table m" same] assms by (auto simp: first_same_def split: option.splits)

text \<open>The entries in use in front of the free slots.\<close>

definition ordered_shape :: "objects \<Rightarrow> mp_map_t \<Rightarrow> (mp_obj_t \<times> mp_obj_t) list \<Rightarrow> (mp_obj_t \<times> mp_obj_t) list \<Rightarrow> bool" where
  "ordered_shape env m es zs \<longleftrightarrow> is_ordered m \<and> \<not> is_fixed m \<and> table m = es @ zs \<and> length es = used m
   \<and> length (table m) = alloc m \<and> (\<forall>e \<in> set es. is_key (fst e)) \<and> (\<forall>e \<in> set zs. fst e = MP_OBJ_NULL)
   \<and> key_distinct env es \<and> (all_keys_are_qstrs m \<longrightarrow> (\<forall>e \<in> set es. MP_OBJ_IS_QSTR (fst e)))"

lemma not_is_key_NULL [simp]: "\<not> is_key MP_OBJ_NULL" "\<not> is_key MP_OBJ_SENTINEL"
  by (simp_all add: is_key_def)

lemma key_distinct_append:
  "key_distinct env (xs @ ys) \<longleftrightarrow> key_distinct env xs \<and> key_distinct env ys
   \<and> (\<forall>x \<in> set xs. \<forall>y \<in> set ys. is_key (fst x) \<longrightarrow> is_key (fst y) \<longrightarrow> \<not> mp_obj_equal env (fst x) (fst y))"
  by (induction xs) auto

lemma key_distinct_free: "\<forall>e \<in> set zs. \<not> is_key (fst e) \<Longrightarrow> key_distinct env zs"
  by (induction zs) auto

lemma content_of_append:
  "content_of env (xs @ ys) i = (case content_of env xs i of None \<Rightarrow> content_of env ys i | Some v \<Rightarrow> Some v)"
  by (induction xs) auto

lemma content_of_free: "\<forall>e \<in> set zs. \<not> is_key (fst e) \<Longrightarrow> content_of env zs i = None"
  by (induction zs) auto

lemma ordered_ok_shape: "ordered_ok env m \<longleftrightarrow> (\<exists>es zs. ordered_shape env m es zs)"
proof
  assume ok: "ordered_ok env m"
  let ?es = "take (used m) (table m)" and ?zs = "drop (used m) (table m)"
  have l: "length (table m) = alloc m" "used m \<le> alloc m" and kd: "key_distinct env (table m)"
    and q: "qstr_flag_ok m" and io: "is_ordered m" "\<not> is_fixed m"
    using ok by (simp_all add: ordered_ok_def)
  have k: "\<forall>e \<in> set ?es. is_key (fst e)"
    using ok by (fastforce simp: ordered_ok_def in_set_conv_nth)
  have z: "\<forall>e \<in> set ?zs. fst e = MP_OBJ_NULL"
  proof
    fix e assume "e \<in> set ?zs"
    then obtain i where "i < alloc m - used m" "e = table m ! (used m + i)"
      using l by (auto simp: in_set_conv_nth)
    moreover have "fst (table m ! (used m + i)) = MP_OBJ_NULL" if "used m \<le> used m + i \<and> used m + i < alloc m" for i
      using ok that unfolding ordered_ok_def by blast
    ultimately show "fst e = MP_OBJ_NULL" by simp
  qed
  have "key_distinct env ?es" using kd key_distinct_append [of env ?es ?zs] by simp
  moreover have "MP_OBJ_IS_QSTR (fst e)" if flag: "all_keys_are_qstrs m" and e: "e \<in> set ?es" for e
  proof -
    obtain p where p: "p < used m" "table m ! p = e" using e by (auto simp: in_set_conv_nth)
    then have "slot_filled (map_keys m) p" "map_keys m ! p = fst e"
      using k e l by (auto simp: slot_filled_def is_key_def map_keys_def)
    then show ?thesis using q flag by (auto simp: qstr_flag_ok_def)
  qed
  ultimately have "ordered_shape env m ?es ?zs" using l k z io by (simp add: ordered_shape_def)
  then show "\<exists>es zs. ordered_shape env m es zs" by blast
next
  assume "\<exists>es zs. ordered_shape env m es zs"
  then obtain es zs where s: "ordered_shape env m es zs" by blast
  then have t: "table m = es @ zs" "length es = used m" "length (table m) = alloc m"
    and k: "\<forall>e \<in> set es. is_key (fst e)" and z: "\<forall>e \<in> set zs. fst e = MP_OBJ_NULL" and kd: "key_distinct env es"
    and q: "all_keys_are_qstrs m \<longrightarrow> (\<forall>e \<in> set es. MP_OBJ_IS_QSTR (fst e))"
    unfolding ordered_shape_def by blast+
  have "\<forall>p < used m. is_key (fst (table m ! p))" using t(1,2) k by (auto simp: nth_append)
  moreover have "\<forall>p. used m \<le> p \<and> p < alloc m \<longrightarrow> fst (table m ! p) = MP_OBJ_NULL"
    using t z by (auto simp: nth_append)
  moreover have "key_distinct env (table m)"
    using kd z unfolding t(1) key_distinct_append by (auto intro!: key_distinct_free)
  moreover have "qstr_flag_ok m"
  proof -
    have "p < length es" if "slot_filled (map_keys m) p" for p
    proof (rule ccontr)
      assume "\<not> p < length es"
      then have "map_keys m ! p = MP_OBJ_NULL" using that z t(1) by (auto simp: slot_filled_def map_keys_def nth_append)
      then show False using that by (simp add: slot_filled_def)
    qed
    then show ?thesis using q t(1) by (auto simp: qstr_flag_ok_def map_keys_def nth_append)
  qed
  moreover have "is_ordered m" "\<not> is_fixed m" using s by (simp_all add: ordered_shape_def)
  ultimately show "ordered_ok env m" using t by (simp add: ordered_ok_def)
qed

lemma shape_ok: "ordered_shape env m es zs \<Longrightarrow> ordered_ok env m"
  using ordered_ok_shape by blast

lemma shape_content: "ordered_shape env m es zs \<Longrightarrow> content env m = content_of env es"
  by (rule ext) (auto simp: ordered_shape_def content_def content_of_append content_of_free split: option.splits)

lemma shape_entries: "ordered_shape env m es zs \<Longrightarrow> real_entries (table m) = es"
  by (auto simp: ordered_shape_def filter_id_conv filter_empty_conv)

text \<open>The entry in a slot, with the entries before and behind it.\<close>

lemma shape_entry:
  assumes "ordered_shape env m es zs" and "p < used m"
  obtains xs k w ys where "es = xs @ (k, w) # ys" "length xs = p" "table m ! p = (k, w)" "table m = xs @ (k, w) # ys @ zs"
proof -
  have l: "p < length es" and t: "table m = es @ zs" using assms by (simp_all add: ordered_shape_def)
  obtain k w where kw: "es ! p = (k, w)" by (cases "es ! p")
  have "es = take p es @ (k, w) # drop (Suc p) es" using id_take_nth_drop [OF l] kw by simp
  moreover have "table m = take p es @ (k, w) # drop (Suc p) es @ zs" using t calculation by simp
  ultimately show ?thesis using that [of "take p es" k w "drop (Suc p) es"] l t kw by (simp add: nth_append)
qed

context object_keys
begin

lemma content_of_set:
  assumes "key_distinct env (xs @ (k, w) # ys)" and "is_key k" and "mp_obj_equal env k index"
  shows "content_of env (xs @ (k, v) # ys) = (\<lambda>i. if mp_obj_equal env index i then Some v else content_of env (xs @ (k, w) # ys) i)"
proof
  fix i
  have k: "mp_obj_equal env k i \<longleftrightarrow> mp_obj_equal env index i" using assms(3) equal_sym equal_trans by blast
  have "content_of env xs i = None" if i: "mp_obj_equal env index i"
  proof -
    have "\<not> mp_obj_equal env (fst e) i" if "e \<in> set xs" "is_key (fst e)" for e
    proof
      assume "mp_obj_equal env (fst e) i"
      then have "mp_obj_equal env (fst e) k" using i k equal_sym equal_trans by blast
      then show False using assms(1,2) that by (auto simp: key_distinct_append)
    qed
    then show ?thesis by (simp add: content_of_None)
  qed
  then show "content_of env (xs @ (k, v) # ys) i = (if mp_obj_equal env index i then Some v else content_of env (xs @ (k, w) # ys) i)"
    using assms(2) k by (simp add: content_of_append split: option.split)
qed

lemma content_of_drop:
  assumes "key_distinct env (xs @ (k, w) # ys)" and "is_key k" and "mp_obj_equal env k index"
  shows "content_of env (xs @ ys) = (\<lambda>i. if mp_obj_equal env index i then None else content_of env (xs @ (k, w) # ys) i)"
proof
  fix i
  have k: "mp_obj_equal env k i \<longleftrightarrow> mp_obj_equal env index i" using assms(3) equal_sym equal_trans by blast
  have "content_of env (xs @ ys) i = None" if i: "mp_obj_equal env index i"
  proof -
    have "\<not> mp_obj_equal env (fst e) i" if "e \<in> set (xs @ ys)" "is_key (fst e)" for e
    proof
      assume "mp_obj_equal env (fst e) i"
      then have "mp_obj_equal env (fst e) k" "mp_obj_equal env k (fst e)" using i k equal_sym equal_trans by blast+
      then show False using assms(1,2) that by (auto simp: key_distinct_append)
    qed
    then show ?thesis by (simp add: content_of_None)
  qed
  then show "content_of env (xs @ ys) i = (if mp_obj_equal env index i then None else content_of env (xs @ (k, w) # ys) i)"
    using assms(2) k by (simp add: content_of_append split: option.split)
qed

lemma content_of_new:
  assumes "content_of env es index = None" and "is_key index"
  shows "content_of env (es @ [(index, v)]) = (\<lambda>i. if mp_obj_equal env index i then Some v else content_of env es i)"
proof
  fix i
  have "content_of env es i = None" if "mp_obj_equal env index i"
    using assms(1) that equal_sym equal_trans unfolding content_of_None by blast
  then show "content_of env (es @ [(index, v)]) i = (if mp_obj_equal env index i then Some v else content_of env es i)"
    using assms(2) by (auto simp: content_of_append split: option.splits)
qed

end

context object_keys
begin

lemma shape_flag: "ordered_shape env m es zs \<Longrightarrow> qstr_flag_ok m"
  using ordered_ok_shape [of env m] by (auto simp: ordered_ok_def)

lemma shape_filled: "ordered_shape env m es zs \<Longrightarrow> p < used m \<Longrightarrow> slot_filled (map_keys m) p"
  by (auto simp: ordered_shape_def slot_filled_def map_keys_def is_key_def nth_append)

lemma ordered_search:
  assumes s: "ordered_shape env m es zs"
    and c: "cmp = (all_keys_are_qstrs m \<and> (MP_OBJ_IS_QSTR index \<or> \<not> is_type_str env index))"
  shows "\<exists>r. search_ordered (\<lambda>key. key = index \<or> \<not> cmp \<and> mp_obj_equal env key index) (table m) [0..<used m] = Some r
    \<and> (case r of None \<Rightarrow> content_of env es index = None
       | Some p \<Rightarrow> p < used m \<and> mp_obj_equal env (fst (table m ! p)) index)"
proof -
  let ?same = "\<lambda>key. key = index \<or> \<not> cmp \<and> mp_obj_equal env key index"
  have l: "used m \<le> length (table m)" and t: "table m = es @ zs" "length es = used m"
    using s by (auto simp: ordered_shape_def)
  have e: "?same (fst (table m ! p)) = mp_obj_equal env (fst (table m ! p)) index" if "p < used m" for p
    using same_is_equal [OF shape_flag [OF s] shape_filled [OF s that] c] that l by (simp add: fst_table)
  obtain r where r: "search_ordered ?same (table m) [0..<used m] = Some r" "first_same ?same m r"
    using search_first_same [OF l] by blast
  have "case r of None \<Rightarrow> content_of env es index = None
       | Some p \<Rightarrow> p < used m \<and> mp_obj_equal env (fst (table m ! p)) index"
  proof (cases r)
    case None
    have "\<not> mp_obj_equal env (fst x) index" if xe: "x \<in> set es" for x
    proof -
      obtain p where "p < length es" "es ! p = x" using xe by (auto simp: in_set_conv_nth)
      then have "p < used m" "table m ! p = x" using t by (simp_all add: nth_append)
      then show ?thesis using r(2) None e [of p] by (auto simp: first_same_def)
    qed
    then show ?thesis using None by (simp add: content_of_None)
  next
    case (Some p)
    then show ?thesis using r(2) e [of p] by (simp add: first_same_def)
  qed
  then show ?thesis using r(1) by blast
qed

lemma ordered_early:
  assumes s: "ordered_shape env m es zs" and e: "returns_early env m index"
  shows "content_of env es index = None"
  using assms qstr_equal_str unfolding content_of_None ordered_shape_def returns_early_def by blast

lemma ordered_step:
  assumes s: "ordered_shape env m es zs" and e: "kind = MP_MAP_LOOKUP_ADD_IF_NOT_FOUND \<or> \<not> returns_early env m index"
  shows "mp_map_lookup env m index kind = ordered_lookup env
    (\<lambda>key. key = index \<or> \<not> (all_keys_are_qstrs m \<and> (MP_OBJ_IS_QSTR index \<or> \<not> is_type_str env index))
      \<and> mp_obj_equal env key index) m index kind"
proof -
  have ne: "(all_keys_are_qstrs m \<and> \<not> MP_OBJ_IS_QSTR index \<and> \<not> is_type_str env index
      \<and> kind \<noteq> MP_MAP_LOOKUP_ADD_IF_NOT_FOUND) = False"
    using e by (auto simp: returns_early_def)
  have "is_ordered m" "\<not> is_fixed m" using s by (simp_all add: ordered_shape_def)
  then show ?thesis
    unfolding mp_map_lookup_def numeral_2_eq_2 lookup_depth.simps ne Let_def by simp
qed

lemma shape_value:
  assumes s: "ordered_shape env m es zs" and p: "p < used m" "mp_obj_equal env (fst (table m ! p)) index"
  shows "content env m index = Some (snd (table m ! p))"
proof -
  have "key_distinct env (table m)" using shape_ok [OF s] by (simp add: ordered_ok_def)
  moreover have "slot_filled (map_keys m) p" by (rule shape_filled [OF s p(1)])
  ultimately show ?thesis using content_slot p(2) by (simp add: fst_table slot_filled_def)
qed

lemma ordered_find:
  assumes s: "ordered_shape env m es zs"
  shows "\<exists>r. mp_map_lookup env m index MP_MAP_LOOKUP = Some (Inr r, m) \<and> slot_holds env m index r"
proof (cases "returns_early env m index")
  case True
  have "mp_map_lookup env m index MP_MAP_LOOKUP = Some (Inr None, m)"
    using True s unfolding mp_map_lookup_def numeral_2_eq_2 by (simp add: returns_early_def)
  then show ?thesis using ordered_early [OF s True] by (simp add: slot_holds_def shape_content [OF s])
next
  case False
  obtain r where r: "search_ordered (\<lambda>key. key = index \<or> \<not> (all_keys_are_qstrs m \<and> (MP_OBJ_IS_QSTR index \<or> \<not> is_type_str env index))
      \<and> mp_obj_equal env key index) (table m) [0..<used m] = Some r"
    "case r of None \<Rightarrow> content_of env es index = None
       | Some p \<Rightarrow> p < used m \<and> mp_obj_equal env (fst (table m ! p)) index"
    using ordered_search [OF s refl, of index] by blast
  have "mp_map_lookup env m index MP_MAP_LOOKUP = Some (Inr r, m)"
    using r(1) False by (cases r) (simp_all add: ordered_step [OF s] ordered_lookup_def)
  moreover have "slot_holds env m index r"
  proof (cases r)
    case (Some p)
    then have p: "p < used m" "mp_obj_equal env (fst (table m ! p)) index" using r(2) by simp_all
    have "content env m index = Some (snd (table m ! p))" by (rule shape_value [OF s p])
    moreover have "p < length (table m)" using p(1) s by (auto simp: ordered_shape_def)
    ultimately show ?thesis using Some by (simp add: slot_holds_def)
  qed (use r(2) in \<open>simp add: slot_holds_def shape_content [OF s]\<close>)
  ultimately show ?thesis by blast
qed

lemma shape_put:
  assumes s: "ordered_shape env m es zs" and p: "p < used m" and e: "mp_obj_equal env (fst (table m ! p)) index"
  shows "ordered_ok env (put_value m p v)"
    and "content env (put_value m p v) = (\<lambda>i. if mp_obj_equal env index i then Some v else content env m i)"
proof -
  obtain xs k w ys where x: "es = xs @ (k, w) # ys" "length xs = p" "table m ! p = (k, w)" "table m = xs @ (k, w) # ys @ zs"
    by (rule shape_entry [OF s p])
  have s': "ordered_shape env (put_value m p v) (xs @ (k, v) # ys) zs"
    using s x by (simp add: ordered_shape_def list_update_append key_distinct_append)
  then show "ordered_ok env (put_value m p v)" by (rule shape_ok)
  have "key_distinct env (xs @ (k, w) # ys)" "is_key k" using s x(1) by (simp_all add: ordered_shape_def)
  then show "content env (put_value m p v) = (\<lambda>i. if mp_obj_equal env index i then Some v else content env m i)"
    unfolding shape_content [OF s] shape_content [OF s'] x(1) using e x(3) by (intro content_of_set) simp_all
qed

lemma shape_put_free:
  assumes s: "ordered_shape env m es zs" and p: "used m \<le> p" "p < length (table m)"
  shows "ordered_ok env (put_value m p v)" and "content env (put_value m p v) = content env m"
proof -
  have z: "p - used m < length zs" "table m = es @ zs" "length es = used m" using s p by (auto simp: ordered_shape_def)
  then have n: "fst (table m ! p) = MP_OBJ_NULL" using s p(1) by (simp add: ordered_shape_def nth_append)
  have "ordered_shape env (put_value m p v) es (zs[p - used m := (MP_OBJ_NULL, v)])"
    using s p(1) z(1) n by (auto simp: ordered_shape_def list_update_append dest!: subsetD [OF set_update_subset_insert])
  then show "ordered_ok env (put_value m p v)" "content env (put_value m p v) = content env m"
    using shape_ok shape_content shape_content [OF s] by metis+
qed

lemma ordered_removed:
  assumes s: "ordered_shape env m es zs"
  shows "\<exists>r m'. mp_map_lookup env m index MP_MAP_LOOKUP_REMOVE_IF_FOUND = Some (Inr r, m')
    \<and> (case r of None \<Rightarrow> m' = m \<and> content env m index = None | Some p \<Rightarrow> slot_removed env (ordered_ok env) m index p m')"
proof (cases "returns_early env m index")
  case True
  have "mp_map_lookup env m index MP_MAP_LOOKUP_REMOVE_IF_FOUND = Some (Inr None, m)"
    using True s unfolding mp_map_lookup_def numeral_2_eq_2 by (simp add: returns_early_def ordered_shape_def)
  then show ?thesis using ordered_early [OF s True] by (simp add: shape_content [OF s])
next
  case False
  obtain r where r: "search_ordered (\<lambda>key. key = index \<or> \<not> (all_keys_are_qstrs m \<and> (MP_OBJ_IS_QSTR index \<or> \<not> is_type_str env index))
      \<and> mp_obj_equal env key index) (table m) [0..<used m] = Some r"
    "case r of None \<Rightarrow> content_of env es index = None
       | Some p \<Rightarrow> p < used m \<and> mp_obj_equal env (fst (table m ! p)) index"
    using ordered_search [OF s refl, of index] by blast
  show ?thesis
  proof (cases r)
    case None
    then show ?thesis using r False by (simp add: ordered_step [OF s] ordered_lookup_def shape_content [OF s])
  next
    case (Some p)
    then have p: "p < used m" "mp_obj_equal env (fst (table m ! p)) index" using r(2) by simp_all
    obtain xs k w ys where x: "es = xs @ (k, w) # ys" "length xs = p" "table m ! p = (k, w)" "table m = xs @ (k, w) # ys @ zs"
      by (rule shape_entry [OF s p(1)])
    have u: "used m = p + 1 + length ys" using s x(1,2) by (simp add: ordered_shape_def)
    define m' where "m' = m\<lparr>used := used m - 1, table := xs @ ys @ (MP_OBJ_NULL, w) # zs\<rparr>"
    have s': "ordered_shape env m' (xs @ ys) ((MP_OBJ_NULL, w) # zs)"
      using s x by (auto simp: ordered_shape_def m'_def key_distinct_append)
    have step: "mp_map_lookup env m index MP_MAP_LOOKUP_REMOVE_IF_FOUND = Some (Inr (Some (used m - 1)), m')"
    proof -
      let ?y = "((k, w) # ys @ zs) ! length ys"
      have d: "drop (length ys) ((k, w) # ys @ zs) = ?y # zs"
        by (subst Cons_nth_drop_Suc [symmetric]) simp_all
      have "slice (table m) (p + 1) (used m - p - 1) = Some ys"
        using x(2,4) u by (simp add: slice_in)
      moreover have "blit (table m) p ys = Some (xs @ ys @ ?y # zs)"
        using x(2,4) d by (simp add: blit_in)
      moreover have "wr (xs @ ys @ ?y # zs) (used m - 1) (MP_OBJ_NULL, w) = Some (xs @ ys @ (MP_OBJ_NULL, w) # zs)"
        using x(2) u by (simp add: wr_in list_update_append)
      moreover have "p < length (table m)" using x(2,4) by simp
      then have "rd (table m) p = Some (k, w)" using x(3) by (simp add: rd_in)
      ultimately show ?thesis
        using r(1) Some False by (simp add: ordered_step [OF s] ordered_lookup_def m'_def Let_def)
    qed
    have c: "content env m index = Some w" using shape_value [OF s p] x(3) by simp
    have kd: "key_distinct env (xs @ (k, w) # ys)" "is_key k" using s x(1) by (simp_all add: ordered_shape_def)
    have c': "content env m' = (\<lambda>i. if mp_obj_equal env index i then None else content env m i)"
      unfolding shape_content [OF s] shape_content [OF s'] x(1) using kd p(2) x(3) by (intro content_of_drop) simp_all
    have l: "used m' \<le> used m - 1" "used m - 1 < length (table m')" "table m' ! (used m - 1) = (MP_OBJ_NULL, w)"
      using u x(2) by (simp_all add: m'_def nth_append)
    have "slot_removed env (ordered_ok env) m index (used m - 1) m'"
      unfolding slot_removed_def using shape_put_free [OF s' l(1,2)] c c' l by simp
    then show ?thesis using step by (intro exI [of _ "Some (used m - 1)"] exI [of _ m']) simp
  qed
qed

text \<open>Room for one more entry: the free slots behind the entries.\<close>

lemma ordered_added:
  assumes s: "ordered_shape env m es (z # zs)" and k: "is_key index" and c: "content_of env es index = None"
    and m': "m' = m\<lparr>used := used m + 1, table := (table m)[used m := (index, snd z)],
      all_keys_are_qstrs := (if \<not> MP_OBJ_IS_QSTR index then False else all_keys_are_qstrs m)\<rparr>"
  shows "slot_added env (ordered_ok env) m index (used m) m'"
proof -
  have t: "table m = es @ z # zs" "length es = used m" using s by (simp_all add: ordered_shape_def)
  have t': "table m' = (es @ [(index, snd z)]) @ zs" using t by (simp add: m' list_update_append)
  have kd: "key_distinct env (es @ [(index, v)])" for v
    using s c by (auto simp: key_distinct_append ordered_shape_def content_of_None)
  have s': "ordered_shape env m' (es @ [(index, snd z)]) zs"
    using s k kd [of "snd z"] unfolding ordered_shape_def t' by (auto simp: m' split: if_splits)
  have p: "used m < used m'" "used m < length (table m')" "fst (table m' ! used m) = index"
    using t t' by (simp_all add: m' nth_append)
  have c': "content env m' = (\<lambda>i. if mp_obj_equal env index i then Some (snd z) else content env m i)"
    unfolding shape_content [OF s] shape_content [OF s'] by (rule content_of_new [OF c k])
  have put: "ordered_ok env (put_value m' (used m) v)"
    "content env (put_value m' (used m) v) = (\<lambda>i. if mp_obj_equal env index i then Some v else content env m' i)" for v
    using shape_put [OF s' p(1), of index v] p(3) equal_refl by simp_all
  show ?thesis
    unfolding slot_added_def using p(2) put c' c by (auto simp: shape_content [OF s])
qed

lemma ordered_add:
  assumes s: "ordered_shape env m es zs" and k: "is_key index"
  shows "\<exists>r m'. mp_map_lookup env m index MP_MAP_LOOKUP_ADD_IF_NOT_FOUND = Some (r, m')
    \<and> (case r of Inl e \<Rightarrow> e = MemoryError \<and> content env m index = None \<and> content env m' = content env m
       | Inr None \<Rightarrow> False | Inr (Some p) \<Rightarrow> slot_added env (ordered_ok env) m index p m')"
proof -
  let ?A = MP_MAP_LOOKUP_ADD_IF_NOT_FOUND
  obtain r where r: "search_ordered (\<lambda>key. key = index \<or> \<not> (all_keys_are_qstrs m \<and> (MP_OBJ_IS_QSTR index \<or> \<not> is_type_str env index))
      \<and> mp_obj_equal env key index) (table m) [0..<used m] = Some r"
    "case r of None \<Rightarrow> content_of env es index = None
       | Some p \<Rightarrow> p < used m \<and> mp_obj_equal env (fst (table m ! p)) index"
    using ordered_search [OF s refl, of index] by blast
  have step: "mp_map_lookup env m index ?A = ordered_lookup env
    (\<lambda>key. key = index \<or> \<not> (all_keys_are_qstrs m \<and> (MP_OBJ_IS_QSTR index \<or> \<not> is_type_str env index))
      \<and> mp_obj_equal env key index) m index ?A"
    by (rule ordered_step [OF s]) simp
  have l: "length (table m) = alloc m" "table m = es @ zs" "length es = used m"
    using s unfolding ordered_shape_def by blast+
  consider (found) p where "r = Some p" | (full) "r = None" "used m = alloc m" "\<not> can_alloc env (alloc m + 4)"
    | (grow) "r = None" "used m = alloc m" "can_alloc env (alloc m + 4)" | (room) "r = None" "used m < alloc m"
    using l by (cases r; cases "used m = alloc m"; cases "can_alloc env (alloc m + 4)") auto
  then show ?thesis
  proof cases
    case (found p)
    then have p: "p < used m" "mp_obj_equal env (fst (table m ! p)) index" using r(2) by simp_all
    have "content env m index = Some (snd (table m ! p))" by (rule shape_value [OF s p])
    then have "slot_added env (ordered_ok env) m index p m"
      unfolding slot_added_def using shape_put [OF s p] p(1) l by simp
    then show ?thesis using r(1) found by (simp add: step ordered_lookup_def)
  next
    case full
    then show ?thesis using r by (simp add: step ordered_lookup_def content_def [of env "alloc_update _ m"] content_def [symmetric] shape_content [OF s])
  next
    case grow
    define m1 where "m1 = m\<lparr>alloc := alloc m + 4, table := take (used m) (table m) @ new0 4\<rparr>"
    have s1: "ordered_shape env m1 es ((MP_OBJ_NULL, MP_OBJ_NULL) # new0 3)"
      using s grow l by (auto simp: ordered_shape_def m1_def new0_def numeral_eq_Suc)
    have rd1: "rd (table m1) (used m) = Some (MP_OBJ_NULL, MP_OBJ_NULL)" "used m1 = used m" "used m < length (table m1)"
      using s1 by (simp_all add: ordered_shape_def rd_in m1_def nth_append)
    define m' where "m' = m1\<lparr>used := used m1 + 1, table := (table m1)[used m1 := (index, MP_OBJ_NULL)],
      all_keys_are_qstrs := (if \<not> MP_OBJ_IS_QSTR index then False else all_keys_are_qstrs m1)\<rparr>"
    have "slot_added env (ordered_ok env) m1 index (used m1) m'"
      using r(2) grow(1) by (intro ordered_added [OF s1 k]) (simp_all add: m'_def)
    then have "slot_added env (ordered_ok env) m index (used m) m'"
      using r(2) grow(1) rd1(2) shape_content [OF s] shape_content [OF s1] by (simp add: slot_added_def cong: if_cong)
    moreover have "mp_map_lookup env m index ?A = Some (Inr (Some (used m)), m')"
      using r(1) grow rd1 unfolding step m'_def by (simp add: ordered_lookup_def Let_def wr_in m1_def)
    ultimately show ?thesis by (intro exI [of _ "Inr (Some (used m))"] exI [of _ m']) simp
  next
    case room
    then obtain z zs' where z: "zs = z # zs'" using l by (cases zs) auto
    define m' where "m' = m\<lparr>used := used m + 1, table := (table m)[used m := (index, snd z)],
      all_keys_are_qstrs := (if \<not> MP_OBJ_IS_QSTR index then False else all_keys_are_qstrs m)\<rparr>"
    have "slot_added env (ordered_ok env) m index (used m) m'"
      using r(2) room(1) s unfolding z by (intro ordered_added [OF _ k]) (simp_all add: m'_def)
    moreover have "mp_map_lookup env m index ?A = Some (Inr (Some (used m)), m')"
    proof -
      have "rd (table m) (used m) = Some (fst z, snd z)" "used m < length (table m)"
        using l room(2) by (simp_all add: rd_in z nth_append)
      then show ?thesis using r(1) room unfolding step m'_def by (simp add: ordered_lookup_def wr_in split_beta)
    qed
    ultimately show ?thesis by (intro exI [of _ "Inr (Some (used m))"] exI [of _ m']) simp
  qed
qed

end

sublocale object_keys < ordered: lookup_table env "ordered_ok env"
proof unfold_locales
  fix m index assume m: "ordered_ok env m"
  show "key_distinct env (table m)" using m by (simp add: ordered_ok_def)
  obtain es zs where s: "ordered_shape env m es zs" using m ordered_ok_shape by blast
  show "used m = length (real_entries (table m))" using shape_entries [OF s] s by (simp add: ordered_shape_def)
  show "\<exists>r. mp_map_lookup env m index MP_MAP_LOOKUP = Some (Inr r, m) \<and> slot_holds env m index r"
    by (rule ordered_find [OF s])
  show "\<exists>r m'. mp_map_lookup env m index MP_MAP_LOOKUP_REMOVE_IF_FOUND = Some (Inr r, m')
    \<and> (case r of None \<Rightarrow> m' = m \<and> content env m index = None | Some p \<Rightarrow> slot_removed env (ordered_ok env) m index p m')"
    by (rule ordered_removed [OF s])
  show "\<exists>r m'. mp_map_lookup env m index MP_MAP_LOOKUP_ADD_IF_NOT_FOUND = Some (r, m')
        \<and> (case r of Inl e \<Rightarrow> e = MemoryError \<and> content env m index = None \<and> content env m' = content env m
           | Inr None \<Rightarrow> False | Inr (Some p) \<Rightarrow> slot_added env (ordered_ok env) m index p m')"
    if "is_key index" by (rule ordered_add [OF s that])
qed

end
