(* ===== verification/Py_Qstr.thy ===== *)
theory Py_Qstr
  imports Codey_Prelude
begin

text \<open>
  Interned strings (\<open>py/qstr.c\<close>): the pools, the chunks that hold the data of the strings, search
  and insertion.  A pointer to data is the number of a chunk with an offset.  The result is \<open>None\<close>
  for an access outside of a chunk or pool, a null pointer, or a failing assertion.
\<close>

unbundle bit_operations_syntax

type_synonym qptr = "nat \<times> nat"

text \<open>
  A pool: the entries in use (\<open>len\<close> is their number) and the number of slots \<open>alloc\<close>.  The list of
  the pools starts with \<open>last_pool\<close>, every pool is followed by its \<open>prev\<close>; the last \<open>n_const\<close> of
  them are generated by the build and lie in read-only memory.
\<close>

record qstr_pool_t =
  total_prev_len :: nat
  pool_alloc :: nat
  qstrs :: "qptr list"

record qstr_state =
  pools :: "qstr_pool_t list"
  n_const :: nat
  chunks :: "u8 list list"
  qstr_last_chunk :: "nat option"
  qstr_last_alloc :: nat
  qstr_last_used :: nat

text \<open>Which allocations the heap can satisfy: a new chunk, a chunk grown in place, a new pool.\<close>

record allocator =
  new_maybe :: "qstr_state \<Rightarrow> nat \<Rightarrow> bool"
  renew_maybe :: "qstr_state \<Rightarrow> nat \<Rightarrow> bool"
  pool_maybe :: "qstr_state \<Rightarrow> nat \<Rightarrow> bool"

subsection \<open>The data of a string\<close>

definition at :: "qstr_state \<Rightarrow> qptr \<Rightarrow> nat \<Rightarrow> u8 option" where
  "at s q i = do { c \<leftarrow> rd (chunks s) (fst q); rd c (snd q + i) }"

definition Q_GET_HASH :: "qstr_state \<Rightarrow> qptr \<Rightarrow> u32 option" where
  "Q_GET_HASH s q = do { a \<leftarrow> at s q 0; b \<leftarrow> at s q 1; Some (ucast a OR push_bit 8 (ucast b)) }"

definition Q_GET_LENGTH :: "qstr_state \<Rightarrow> qptr \<Rightarrow> nat option" where
  "Q_GET_LENGTH s q = do { n \<leftarrow> at s q 2; Some (unat n) }"

text \<open>\<open>n\<close> bytes from \<open>Q_GET_DATA(q)\<close>.\<close>

definition Q_GET_DATA :: "qstr_state \<Rightarrow> qptr \<Rightarrow> nat \<Rightarrow> u8 list option" where
  "Q_GET_DATA s q n = do { c \<leftarrow> rd (chunks s) (fst q); slice c (snd q + 3) n }"

definition Q_GET_ALLOC :: "qstr_state \<Rightarrow> qptr \<Rightarrow> nat option" where
  "Q_GET_ALLOC s q = do { n \<leftarrow> Q_GET_LENGTH s q; Some (2 + 1 + n + 1) }"

definition put_chunk :: "qstr_state \<Rightarrow> nat \<Rightarrow> u8 list \<Rightarrow> qstr_state" where
  "put_chunk s c b = s\<lparr>chunks := (chunks s)[c := b]\<rparr>"

definition Q_SET_HASH :: "qstr_state \<Rightarrow> qptr \<Rightarrow> u32 \<Rightarrow> qstr_state option" where
  "Q_SET_HASH s q h = do {
     c \<leftarrow> rd (chunks s) (fst q);
     c \<leftarrow> wr c (snd q) (ucast h);
     c \<leftarrow> wr c (snd q + 1) (ucast (drop_bit 8 h));
     Some (put_chunk s (fst q) c) }"

definition Q_SET_LENGTH :: "qstr_state \<Rightarrow> qptr \<Rightarrow> nat \<Rightarrow> qstr_state option" where
  "Q_SET_LENGTH s q n = do {
     c \<leftarrow> rd (chunks s) (fst q);
     c \<leftarrow> wr c (snd q + 2) (of_nat n);
     Some (put_chunk s (fst q) c) }"

text \<open>\<open>memcpy\<close> to the data and the final zero byte.\<close>

definition put_data :: "qstr_state \<Rightarrow> qptr \<Rightarrow> u8 list \<Rightarrow> qstr_state option" where
  "put_data s q str = do {
     c \<leftarrow> rd (chunks s) (fst q);
     c \<leftarrow> blit c (snd q + 3) str;
     Some (put_chunk s (fst q) c) }"

definition put_zero :: "qstr_state \<Rightarrow> qptr \<Rightarrow> nat \<Rightarrow> qstr_state option" where
  "put_zero s q n = do {
     c \<leftarrow> rd (chunks s) (fst q);
     c \<leftarrow> wr c (snd q + 3 + n) 0;
     Some (put_chunk s (fst q) c) }"

definition qstr_compute_hash :: "u8 list \<Rightarrow> u32" where
  "qstr_compute_hash data =
     (let hash = foldl (\<lambda>hash b. (push_bit 5 hash + hash) XOR ucast b) 5381 data AND 0xffff
      in if hash = 0 then hash + 1 else hash)"

subsection \<open>The pools\<close>

definition qstr_init :: "qstr_pool_t list \<Rightarrow> u8 list list \<Rightarrow> qstr_state" where
  "qstr_init const_pools rom = \<lparr>pools = const_pools, n_const = length const_pools, chunks = rom,
     qstr_last_chunk = None, qstr_last_alloc = 0, qstr_last_used = 0\<rparr>"

fun find_in_pools :: "qstr_pool_t list \<Rightarrow> nat \<Rightarrow> qptr option option" where
  "find_in_pools [] q = Some None"
| "find_in_pools (pool # ps) q =
     (if q \<ge> total_prev_len pool
      then do { p \<leftarrow> rd (qstrs pool) (q - total_prev_len pool); Some (Some p) }
      else find_in_pools ps q)"

definition find_qstr :: "qstr_state \<Rightarrow> nat \<Rightarrow> qptr option option" where
  "find_qstr s q = find_in_pools (pools s) q"

definition qstr_add :: "allocator \<Rightarrow> qstr_state \<Rightarrow> qptr \<Rightarrow> (nat option \<times> qstr_state) option" where
  "qstr_add env s q_ptr =
     (case pools s of
        [] \<Rightarrow> None
      | pool # ps \<Rightarrow>
          let full = length (qstrs pool) \<ge> pool_alloc pool in
          if full \<and> \<not> pool_maybe env s (pool_alloc pool * 2) then Some (None, s)
          else let s = (if full
                 then s\<lparr>pools := \<lparr>total_prev_len = total_prev_len pool + length (qstrs pool),
                     pool_alloc = pool_alloc pool * 2, qstrs = []\<rparr> # pool # ps\<rparr>
                 else s) in
            (case pools s of
               [] \<Rightarrow> None
             | pool # ps \<Rightarrow>
                 if length (qstrs pool) < pool_alloc pool
                 then Some (Some (total_prev_len pool + (length (qstrs pool) + 1) - 1),
                        s\<lparr>pools := pool\<lparr>qstrs := qstrs pool @ [q_ptr]\<rparr> # ps\<rparr>)
                 else None))"

fun find_in_pool :: "qstr_state \<Rightarrow> u32 \<Rightarrow> u8 list \<Rightarrow> qptr list \<Rightarrow> nat \<Rightarrow> nat option option" where
  "find_in_pool s str_hash str [] i = Some None"
| "find_in_pool s str_hash str (q # qs) i = do {
     h \<leftarrow> Q_GET_HASH s q;
     if h = str_hash then do {
       n \<leftarrow> Q_GET_LENGTH s q;
       if n = length str then do {
         d \<leftarrow> Q_GET_DATA s q (length str);
         if d = str then Some (Some i) else find_in_pool s str_hash str qs (i + 1) }
       else find_in_pool s str_hash str qs (i + 1) }
     else find_in_pool s str_hash str qs (i + 1) }"

fun find_strn_pools :: "qstr_state \<Rightarrow> u32 \<Rightarrow> u8 list \<Rightarrow> qstr_pool_t list \<Rightarrow> nat option" where
  "find_strn_pools s str_hash str [] = Some 0"
| "find_strn_pools s str_hash str (pool # ps) = do {
     r \<leftarrow> find_in_pool s str_hash str (qstrs pool) 0;
     case r of Some i \<Rightarrow> Some (total_prev_len pool + i) | None \<Rightarrow> find_strn_pools s str_hash str ps }"

definition qstr_find_strn :: "qstr_state \<Rightarrow> u8 list \<Rightarrow> nat option" where
  "qstr_find_strn s str = find_strn_pools s (qstr_compute_hash str) str (pools s)"

subsection \<open>Interning\<close>

text \<open>No room behind the last string: grow the chunk in place, or give it up.\<close>

definition grow_chunk :: "allocator \<Rightarrow> qstr_state \<Rightarrow> nat \<Rightarrow> qstr_state option" where
  "grow_chunk env s n_bytes =
     (case qstr_last_chunk s of
        None \<Rightarrow> Some s
      | Some c \<Rightarrow>
          if qstr_last_used s + n_bytes > qstr_last_alloc s then do {
            b \<leftarrow> rd (chunks s) c;
            if renew_maybe env s (qstr_last_alloc s + n_bytes)
            then Some (s\<lparr>chunks := (chunks s)[c := b @ replicate n_bytes 0], qstr_last_alloc := qstr_last_alloc s + n_bytes\<rparr>)
            else Some (s\<lparr>chunks := (chunks s)[c := take (qstr_last_used s) b], qstr_last_chunk := None\<rparr>) }
          else Some s)"

definition MICROPY_ALLOC_QSTR_CHUNK_INIT :: nat where "MICROPY_ALLOC_QSTR_CHUNK_INIT = 128"

definition new_chunk :: "allocator \<Rightarrow> qstr_state \<Rightarrow> nat \<Rightarrow> (nat option \<times> qstr_state)" where
  "new_chunk env s n_bytes =
     (case qstr_last_chunk s of
        Some c \<Rightarrow> (Some c, s)
      | None \<Rightarrow>
          let al = (if n_bytes < MICROPY_ALLOC_QSTR_CHUNK_INIT then MICROPY_ALLOC_QSTR_CHUNK_INIT else n_bytes) in
          if \<not> new_maybe env s al \<and> \<not> new_maybe env s n_bytes then (None, s)
          else let al = (if new_maybe env s al then al else n_bytes) in
            (Some (length (chunks s)), s\<lparr>chunks := chunks s @ [replicate al 0],
               qstr_last_chunk := Some (length (chunks s)), qstr_last_alloc := al, qstr_last_used := 0\<rparr>))"

text \<open>A result \<open>None\<close> inside is the memory error that is raised.\<close>

definition qstr_from_strn :: "allocator \<Rightarrow> qstr_state \<Rightarrow> u8 list \<Rightarrow> (nat option \<times> qstr_state) option" where
  "qstr_from_strn env s str =
     (if length str \<ge> 256 then None
      else do {
        q \<leftarrow> qstr_find_strn s str;
        if q \<noteq> 0 then Some (Some q, s)
        else do {
          let n_bytes = 2 + 1 + length str + 1;
          s \<leftarrow> grow_chunk env s n_bytes;
          let (c, s) = new_chunk env s n_bytes;
          case c of
            None \<Rightarrow> Some (None, s)
          | Some c \<Rightarrow> do {
              let q_ptr = (c, qstr_last_used s);
              let s = s\<lparr>qstr_last_used := qstr_last_used s + n_bytes\<rparr>;
              s \<leftarrow> Q_SET_HASH s q_ptr (qstr_compute_hash str);
              s \<leftarrow> Q_SET_LENGTH s q_ptr (length str);
              s \<leftarrow> put_data s q_ptr str;
              s \<leftarrow> put_zero s q_ptr (length str);
              qstr_add env s q_ptr } } })"

text \<open>A string built in place: its length is set, the caller fills in the data.\<close>

definition qstr_build_start :: "allocator \<Rightarrow> qstr_state \<Rightarrow> nat \<Rightarrow> (qptr option \<times> qstr_state) option" where
  "qstr_build_start env s len =
     (if len \<ge> 256 then None
      else if \<not> new_maybe env s (2 + 1 + len + 1) then Some (None, s)
      else do {
        let q_ptr = (length (chunks s), 0);
        s \<leftarrow> Q_SET_LENGTH (s\<lparr>chunks := chunks s @ [replicate (2 + 1 + len + 1) 0]\<rparr>) q_ptr len;
        Some (Some q_ptr, s) })"

definition qstr_build_end :: "allocator \<Rightarrow> qstr_state \<Rightarrow> qptr \<Rightarrow> (nat option \<times> qstr_state) option" where
  "qstr_build_end env s q_ptr = do {
     len \<leftarrow> Q_GET_LENGTH s q_ptr;
     str \<leftarrow> Q_GET_DATA s q_ptr len;
     q \<leftarrow> qstr_find_strn s str;
     if q = 0 then do {
       s \<leftarrow> Q_SET_HASH s q_ptr (qstr_compute_hash str);
       s \<leftarrow> put_zero s q_ptr len;
       qstr_add env s q_ptr }
     else Some (Some q, put_chunk s (fst q_ptr) []) }"

definition qstr_hash :: "qstr_state \<Rightarrow> nat \<Rightarrow> u32 option" where
  "qstr_hash s q = do { qd \<leftarrow> find_qstr s q; p \<leftarrow> qd; Q_GET_HASH s p }"

definition qstr_len :: "qstr_state \<Rightarrow> nat \<Rightarrow> nat option" where
  "qstr_len s q = do { qd \<leftarrow> find_qstr s q; p \<leftarrow> qd; Q_GET_LENGTH s p }"

definition qstr_data :: "qstr_state \<Rightarrow> nat \<Rightarrow> u8 list option" where
  "qstr_data s q = do { qd \<leftarrow> find_qstr s q; p \<leftarrow> qd; len \<leftarrow> Q_GET_LENGTH s p; Q_GET_DATA s p len }"

text \<open>The sums of the report; \<open>gc_nbytes\<close> is the size of a pool in the heap.\<close>

fun pool_info :: "qstr_state \<Rightarrow> (qstr_pool_t \<Rightarrow> nat) \<Rightarrow> qstr_pool_t list \<Rightarrow> nat \<times> nat \<times> nat \<times> nat
    \<Rightarrow> (nat \<times> nat \<times> nat \<times> nat) option" where
  "pool_info s gc_nbytes [] acc = Some acc"
| "pool_info s gc_nbytes (pool # ps) (n_pool, n_qstr, n_data, n_total) = do {
     n_data \<leftarrow> fold (\<lambda>q acc. do { n \<leftarrow> acc; a \<leftarrow> Q_GET_ALLOC s q; Some (n + a) }) (qstrs pool) (Some n_data);
     pool_info s gc_nbytes ps (n_pool + 1, n_qstr + length (qstrs pool), n_data, n_total + gc_nbytes pool) }"

definition qstr_pool_info :: "qstr_state \<Rightarrow> (qstr_pool_t \<Rightarrow> nat) \<Rightarrow> (nat \<times> nat \<times> nat \<times> nat) option" where
  "qstr_pool_info s gc_nbytes = do {
     (n_pool, n_qstr, n_data, n_total) \<leftarrow> pool_info s gc_nbytes (take (length (pools s) - n_const s) (pools s)) (0, 0, 0, 0);
     Some (n_pool, n_qstr, n_data, n_total + n_data) }"

subsection \<open>Consistent pools\<close>

text \<open>All data pointers in the order of their numbers, and the bytes behind a pointer.\<close>

definition interned :: "qstr_state \<Rightarrow> qptr list" where
  "interned s = concat (map qstrs (rev (pools s)))"

definition image :: "nat \<Rightarrow> u8 list \<Rightarrow> u8 list" where
  "image i str = (if i = 0 then [0, 0, 0, 0]
     else [ucast (qstr_compute_hash str), ucast (drop_bit 8 (qstr_compute_hash str)), of_nat (length str)] @ str @ [0])"

definition holds :: "u8 list list \<Rightarrow> qptr \<Rightarrow> u8 list \<Rightarrow> bool" where
  "holds cs p b \<longleftrightarrow> fst p < length cs \<and> slice (cs ! fst p) (snd p) (length b) = Some b"

fun totals_ok :: "qstr_pool_t list \<Rightarrow> bool" where
  "totals_ok [] = True"
| "totals_ok (pool # ps) = (total_prev_len pool = length (concat (map qstrs ps)) \<and> 0 < pool_alloc pool \<and> totals_ok ps)"

definition chunk_ok :: "qstr_state \<Rightarrow> u8 list list \<Rightarrow> bool" where
  "chunk_ok s strs \<longleftrightarrow> (case qstr_last_chunk s of None \<Rightarrow> True
     | Some c \<Rightarrow> c < length (chunks s) \<and> length (chunks s ! c) = qstr_last_alloc s \<and> qstr_last_used s \<le> qstr_last_alloc s
         \<and> (\<forall>i < length strs. fst (interned s ! i) = c \<longrightarrow>
              snd (interned s ! i) + length (image i (strs ! i)) \<le> qstr_last_used s))"

text \<open>
  The pools hold the strings \<open>strs\<close>: number 0 is the null string, all others are different.
\<close>

definition qstr_ok :: "qstr_state \<Rightarrow> u8 list list \<Rightarrow> bool" where
  "qstr_ok s strs \<longleftrightarrow> pools s \<noteq> [] \<and> totals_ok (pools s) \<and> length (interned s) = length strs
   \<and> strs \<noteq> [] \<and> strs ! 0 = [] \<and> distinct (tl strs)
   \<and> (\<forall>i < length strs. length (strs ! i) < 256 \<and> holds (chunks s) (interned s ! i) (image i (strs ! i)))
   \<and> chunk_ok s strs"

lemma hash_range: "qstr_compute_hash str AND 0xffff = qstr_compute_hash str" "qstr_compute_hash str \<noteq> 0"
proof -
  let ?h = "foldl (\<lambda>hash b. (push_bit 5 hash + hash) XOR ucast b) 5381 str :: u32"
  show "qstr_compute_hash str AND 0xffff = qstr_compute_hash str"
    by (simp add: qstr_compute_hash_def Let_def and.assoc)
  show "qstr_compute_hash str \<noteq> 0" by (simp add: qstr_compute_hash_def Let_def)
qed

lemma two_bytes:
  assumes "h AND 0xffff = (h :: u32)"
  shows "ucast (ucast h :: u8) OR push_bit 8 (ucast (ucast (drop_bit 8 h) :: u8)) = h"
proof (rule bit_word_eqI)
  fix n assume n: "n < LENGTH(32)"
  have "bit h n \<longrightarrow> n < 16"
  proof -
    have "bit (h AND mask 16) n = bit h n" using assms by (simp add: mask_eq_exp_minus_1)
    then show ?thesis by (auto simp: bit_and_iff bit_mask_iff)
  qed
  then show "bit (ucast (ucast h :: u8) OR push_bit 8 (ucast (ucast (drop_bit 8 h) :: u8)) :: u32) n = bit h n"
    using n by (cases "n < 8") (auto simp: bit_or_iff bit_ucast_iff bit_push_bit_iff bit_drop_bit_eq not_less)
qed

lemma find_in_pools_run:
  "totals_ok ps \<Longrightarrow> q < length (concat (map qstrs (rev ps))) \<Longrightarrow>
   find_in_pools ps q = Some (Some (concat (map qstrs (rev ps)) ! q))"
proof (induction ps)
  case (Cons pool ps)
  have "length (concat (map qstrs (rev ps))) = length (concat (map qstrs ps))"
    by (simp add: length_concat flip: rev_map)
  then show ?case using Cons by (auto simp: rd_in nth_append)
qed simp

lemma find_qstr_run: "qstr_ok s strs \<Longrightarrow> q < length strs \<Longrightarrow> find_qstr s q = Some (Some (interned s ! q))"
  using find_in_pools_run [of "pools s" q] by (simp add: qstr_ok_def find_qstr_def interned_def)

lemma holds_at: "holds (chunks s) p b \<Longrightarrow> i < length b \<Longrightarrow> at s p i = Some (b ! i)"
proof -
  assume h: "holds (chunks s) p b" and i: "i < length b"
  then have l: "fst p < length (chunks s)" "snd p + length b \<le> length (chunks s ! fst p)"
    and b: "b = take (length b) (drop (snd p) (chunks s ! fst p))"
    by (auto simp: holds_def slice_def split: if_splits)
  have "b ! i = chunks s ! fst p ! (snd p + i)" using l i by (subst b) simp
  then show ?thesis using l i by (simp add: at_def rd_in)
qed

lemma holds_slice:
  assumes "holds cs p b" and "i + n \<le> length b"
  shows "slice (cs ! fst p) (snd p + i) n = Some (take n (drop i b))"
proof -
  have l: "snd p + length b \<le> length (cs ! fst p)" and b: "b = take (length b) (drop (snd p) (cs ! fst p))"
    using assms(1) by (auto simp: holds_def slice_def split: if_splits)
  have "take n (drop i b) = take n (drop (snd p + i) (cs ! fst p))"
    using assms(2) by (subst b) (simp add: drop_take min_def add.commute)
  then show ?thesis using l assms(2) by (simp add: slice_in)
qed

lemma image_length: "strs ! 0 = [] \<Longrightarrow> length (image i (strs ! i)) = length (strs ! i) + 4"
  by (simp add: image_def)

lemma image_hash:
  "holds (chunks s) p (image i str) \<Longrightarrow> Q_GET_HASH s p = Some (if i = 0 then 0 else qstr_compute_hash str)"
  using holds_at [of s p "image i str" 0] holds_at [of s p "image i str" 1] two_bytes [OF hash_range(1), of str]
  by (cases i) (simp_all add: Q_GET_HASH_def image_def)

lemma image_get_length:
  "holds (chunks s) p (image i str) \<Longrightarrow> length str < 256 \<Longrightarrow> (i = 0 \<Longrightarrow> str = []) \<Longrightarrow> Q_GET_LENGTH s p = Some (length str)"
  using holds_at [of s p "image i str" 2]
  by (cases i) (simp_all add: Q_GET_LENGTH_def image_def unat_of_nat)

lemma image_get_data:
  assumes "holds (chunks s) p (image i str)" and "i = 0 \<Longrightarrow> str = []"
  shows "Q_GET_DATA s p (length str) = Some str"
proof -
  have "slice (chunks s ! fst p) (snd p + 3) (length str) = Some (take (length str) (drop 3 (image i str)))"
    using assms by (intro holds_slice) (auto simp: image_def)
  moreover have "take (length str) (drop 3 (image i str)) = str" using assms(2) by (auto simp: image_def)
  moreover have "fst p < length (chunks s)" using assms(1) by (simp add: holds_def)
  ultimately show ?thesis by (simp add: Q_GET_DATA_def rd_in)
qed

lemma qstr_ok_entry:
  assumes "qstr_ok s strs" and "i < length strs"
  shows "holds (chunks s) (interned s ! i) (image i (strs ! i))" and "length (strs ! i) < 256"
    and "i = 0 \<Longrightarrow> strs ! i = []"
  using assms by (auto simp: qstr_ok_def)

lemma qstr_data_run:
  assumes "qstr_ok s strs" and "q < length strs"
  shows "qstr_data s q = Some (strs ! q)"
proof -
  note e = qstr_ok_entry [OF assms]
  have "Q_GET_LENGTH s (interned s ! q) = Some (length (strs ! q))" by (rule image_get_length [OF e])
  moreover have "Q_GET_DATA s (interned s ! q) (length (strs ! q)) = Some (strs ! q)" by (rule image_get_data [OF e(1,3)])
  ultimately show ?thesis by (simp add: qstr_data_def find_qstr_run [OF assms])
qed

lemma qstr_hash_run: "qstr_ok s strs \<Longrightarrow> q < length strs \<Longrightarrow> qstr_hash s q = Some (if q = 0 then 0 else qstr_compute_hash (strs ! q))"
  using image_hash [OF qstr_ok_entry(1)] by (simp add: qstr_hash_def find_qstr_run)


subsection \<open>Search\<close>

definition matches :: "qstr_state \<Rightarrow> u32 \<Rightarrow> u8 list \<Rightarrow> qptr \<Rightarrow> bool option" where
  "matches s h str q = do {
     h' \<leftarrow> Q_GET_HASH s q;
     if h' = h then do {
       n \<leftarrow> Q_GET_LENGTH s q;
       if n = length str then do { d \<leftarrow> Q_GET_DATA s q (length str); Some (d = str) } else Some False }
     else Some False }"

lemma find_in_pool_step:
  "find_in_pool s h str (q # qs) i = do { b \<leftarrow> matches s h str q; if b then Some (Some i) else find_in_pool s h str qs (i + 1) }"
  by (auto simp: matches_def split: bind_splits)

lemma find_in_pool_run:
  assumes "\<forall>q \<in> set qs. matches s h str q = Some (f q)"
  shows "\<exists>r. find_in_pool s h str qs i = Some r
    \<and> (case r of None \<Rightarrow> \<forall>q \<in> set qs. \<not> f q | Some j \<Rightarrow> i \<le> j \<and> j - i < length qs \<and> f (qs ! (j - i)))"
  using assms
proof (induction qs arbitrary: i)
  case (Cons q qs)
  show ?case
  proof (cases "f q")
    case True
    then show ?thesis using Cons.prems unfolding find_in_pool_step by (intro exI [of _ "Some i"]) simp
  next
    case False
    obtain r where r: "find_in_pool s h str qs (i + 1) = Some r"
        "case r of None \<Rightarrow> \<forall>q \<in> set qs. \<not> f q | Some j \<Rightarrow> i + 1 \<le> j \<and> j - (i + 1) < length qs \<and> f (qs ! (j - (i + 1)))"
      using Cons.IH [of "i + 1"] Cons.prems by auto
    then show ?thesis using False Cons.prems unfolding find_in_pool_step
      by (intro exI [of _ r]) (auto split: option.splits simp: nth_Cons')
  qed
qed simp

lemma find_strn_pools_run:
  assumes "totals_ok ps" and "\<forall>q \<in> set (concat (map qstrs (rev ps))). matches s h str q = Some (f q)"
  shows "\<exists>q. find_strn_pools s h str ps = Some q
    \<and> (q < length (concat (map qstrs (rev ps))) \<and> f (concat (map qstrs (rev ps)) ! q)
       \<or> q = 0 \<and> (\<forall>q \<in> set (concat (map qstrs (rev ps))). \<not> f q))"
  using assms
proof (induction ps)
  case (Cons pool ps)
  have l: "length (concat (map qstrs (rev ps))) = length (concat (map qstrs ps))"
    by (simp add: length_concat flip: rev_map)
  have "\<forall>q \<in> set (qstrs pool). matches s h str q = Some (f q)" using Cons.prems(2) by simp
  then obtain r where r: "find_in_pool s h str (qstrs pool) 0 = Some r"
      "case r of None \<Rightarrow> \<forall>q \<in> set (qstrs pool). \<not> f q | Some j \<Rightarrow> j < length (qstrs pool) \<and> f (qstrs pool ! j)"
    using find_in_pool_run [of "qstrs pool" s h str f 0] by (auto cong: option.case_cong)
  show ?case
  proof (cases r)
    case None
    obtain q where "find_strn_pools s h str ps = Some q"
        "q < length (concat (map qstrs (rev ps))) \<and> f (concat (map qstrs (rev ps)) ! q)
         \<or> q = 0 \<and> (\<forall>q \<in> set (concat (map qstrs (rev ps))). \<not> f q)"
      using Cons.IH Cons.prems by auto
    then show ?thesis using r None by (intro exI [of _ q]) (auto simp: nth_append)
  next
    case (Some j)
    then show ?thesis using r Cons.prems(1) l by (intro exI [of _ "total_prev_len pool + j"]) (simp add: nth_append)
  qed
qed simp

text \<open>The search finds the number of a string, or 0 when it is not interned.\<close>

lemma find_strn_run:
  assumes ok: "qstr_ok s strs" and l: "length str < 256"
  shows "\<exists>q. qstr_find_strn s str = Some q \<and> (q = 0 \<and> str \<notin> set (tl strs) \<or> 0 < q \<and> q < length strs \<and> strs ! q = str)"
proof -
  let ?h = "qstr_compute_hash str"
  define f where "f p \<longleftrightarrow> (\<exists>i < length strs. p = interned s ! i \<and> i \<noteq> 0 \<and> strs ! i = str)" for p
  have li: "length (interned s) = length strs" and t: "totals_ok (pools s)" using ok by (simp_all add: qstr_ok_def)
  have m: "matches s ?h str (interned s ! i) = Some (i \<noteq> 0 \<and> strs ! i = str)" if i: "i < length strs" for i
  proof -
    note e = qstr_ok_entry [OF ok i]
    have n: "Q_GET_LENGTH s (interned s ! i) = Some (length (strs ! i))" by (rule image_get_length [OF e])
    have d: "Q_GET_DATA s (interned s ! i) (length (strs ! i)) = Some (strs ! i)" by (rule image_get_data [OF e(1,3)])
    show ?thesis
      using image_hash [OF e(1)] n d hash_range(2) [of str] e(3) by (auto simp: matches_def)
  qed
  have mf: "matches s ?h str (interned s ! i) = Some (f (interned s ! i))" if i: "i < length strs" for i
  proof (cases "i \<noteq> 0 \<and> strs ! i = str")
    case True
    then show ?thesis using m [OF i] i by (auto simp: f_def)
  next
    case False
    have "\<not> f (interned s ! i)"
    proof
      assume "f (interned s ! i)"
      then obtain j where "j < length strs" "interned s ! i = interned s ! j" "j \<noteq> 0 \<and> strs ! j = str"
        by (auto simp: f_def)
      then show False using m [OF i] m [of j] False by simp
    qed
    then show ?thesis using m [OF i] False by auto
  qed
  then have "\<forall>q \<in> set (interned s). matches s ?h str q = Some (f q)"
    using li by (metis in_set_conv_nth)
  then obtain q where q: "qstr_find_strn s str = Some q"
      "q < length strs \<and> f (interned s ! q) \<or> q = 0 \<and> (\<forall>q \<in> set (interned s). \<not> f q)"
    using find_strn_pools_run [OF t, of s ?h str f] li unfolding qstr_find_strn_def interned_def by metis
  from q(2) show ?thesis
  proof
    assume a: "q < length strs \<and> f (interned s ! q)"
    then have "q \<noteq> 0 \<and> strs ! q = str" using m [of q] mf [of q] by simp
    then show ?thesis using q(1) a by simp
  next
    assume a: "q = 0 \<and> (\<forall>q \<in> set (interned s). \<not> f q)"
    have "str \<notin> set (tl strs)"
    proof
      assume "str \<in> set (tl strs)"
      then obtain i where i: "i < length (tl strs)" "tl strs ! i = str" by (auto simp: in_set_conv_nth)
      then have "Suc i < length strs" "strs ! Suc i = str" by (auto simp: nth_tl)
      then show False using a li by (auto simp: f_def)
    qed
    then show ?thesis using q(1) a by simp
  qed
qed

subsection \<open>Insertion\<close>

lemma holds_append: "holds cs p b \<Longrightarrow> holds (cs @ ds) p b"
  by (simp add: holds_def nth_append)

lemma holds_update:
  assumes "holds cs p b" and "fst p = c \<Longrightarrow> snd p + length b \<le> u" and "u \<le> length d" and "take u d = take u (cs ! c)"
  shows "holds (cs[c := d]) p b"
proof (cases "fst p = c")
  case True
  have l: "snd p + length b \<le> length (cs ! c)" "fst p < length cs"
    and b: "take (length b) (drop (snd p) (cs ! c)) = b"
    using assms(1) True by (auto simp: holds_def slice_def split: if_splits)
  have "take (length b) (drop (snd p) d) = take (length b) (drop (snd p) (take u d))"
    using assms(2) [OF True] by (simp add: drop_take min_def)
  also have "\<dots> = take (length b) (drop (snd p) (cs ! c))"
    unfolding assms(4) using assms(2) [OF True] by (simp add: drop_take min_def)
  finally show ?thesis using b l True assms(2) [OF True] assms(3) by (simp add: holds_def slice_in)
qed (use assms(1) in \<open>simp add: holds_def\<close>)

lemma image_add [simp]: "length (image i (strs ! i)) = (if i = 0 then 4 else length (strs ! i) + 4)"
  by (simp add: image_def)

text \<open>The last chunk changes behind the data in use: all strings stay.\<close>

lemma qstr_ok_chunk:
  assumes ok: "qstr_ok s strs" and c: "qstr_last_chunk s = Some c"
    and d: "qstr_last_used s \<le> length d" "take (qstr_last_used s) d = take (qstr_last_used s) (chunks s ! c)"
    and s': "pools s' = pools s" "chunks s' = (chunks s)[c := d]"
      "qstr_last_chunk s' = None \<or> qstr_last_chunk s' = Some c \<and> qstr_last_alloc s' = length d
        \<and> qstr_last_used s \<le> qstr_last_used s' \<and> qstr_last_used s' \<le> length d"
  shows "qstr_ok s' strs"
proof -
  have i: "interned s' = interned s" using s'(1) by (simp add: interned_def)
  have cl: "c < length (chunks s)"
    and u: "\<And>i. i < length strs \<Longrightarrow> fst (interned s ! i) = c \<Longrightarrow> snd (interned s ! i) + length (image i (strs ! i)) \<le> qstr_last_used s"
    using ok c unfolding qstr_ok_def chunk_ok_def by simp_all
  have "holds (chunks s') (interned s' ! i) (image i (strs ! i))" if "i < length strs" for i
    unfolding s'(2) \<open>interned s' = interned s\<close> using qstr_ok_entry(1) [OF ok that] u [OF that] d by (rule holds_update)
  moreover have "chunk_ok s' strs"
    using s'(2,3) i cl u by (fastforce simp: chunk_ok_def)
  ultimately show ?thesis using ok s'(1) i by (simp add: qstr_ok_def)
qed

lemma qstr_ok_new_chunk:
  assumes ok: "qstr_ok s strs" and s': "pools s' = pools s" "chunks s' = chunks s @ [d]"
    and l: "qstr_last_chunk s' = Some (length (chunks s)) \<and> qstr_last_alloc s' = length d \<and> qstr_last_used s' \<le> length d
      \<or> qstr_last_chunk s' = qstr_last_chunk s \<and> qstr_last_alloc s' = qstr_last_alloc s \<and> qstr_last_used s' = qstr_last_used s"
  shows "qstr_ok s' strs"
proof -
  have i: "interned s' = interned s" using s'(1) by (simp add: interned_def)
  have old: "fst (interned s ! i) < length (chunks s)" if "i < length strs" for i
    using qstr_ok_entry(1) [OF ok that] by (simp add: holds_def)
  have "chunk_ok s' strs"
    using l
  proof
    assume "qstr_last_chunk s' = Some (length (chunks s)) \<and> qstr_last_alloc s' = length d \<and> qstr_last_used s' \<le> length d"
    then show ?thesis using s'(2) i old by (fastforce simp: chunk_ok_def)
  next
    assume "qstr_last_chunk s' = qstr_last_chunk s \<and> qstr_last_alloc s' = qstr_last_alloc s \<and> qstr_last_used s' = qstr_last_used s"
    moreover have "chunk_ok s strs" using ok by (simp add: qstr_ok_def)
    ultimately show ?thesis using s'(2) i by (auto simp: chunk_ok_def nth_append split: option.splits)
  qed
  then show ?thesis
    using ok s'(1,2) i qstr_ok_entry(1) [OF ok] holds_append by (simp add: qstr_ok_def)
qed

lemma add_pool_run:
  assumes ok: "qstr_ok s strs" and n: "str \<notin> set (tl strs)" "length str < 256"
    and h: "holds (chunks s) p (image (length strs) str)"
    and u: "qstr_last_chunk s = Some (fst p) \<Longrightarrow> snd p + length str + 4 \<le> qstr_last_used s"
  shows "\<exists>r s'. qstr_add env s p = Some (r, s')
    \<and> (case r of None \<Rightarrow> s' = s | Some q \<Rightarrow> q = length strs \<and> qstr_ok s' (strs @ [str]))"
proof -
  obtain pool ps where ps: "pools s = pool # ps" using ok by (cases "pools s") (auto simp: qstr_ok_def)
  have t: "total_prev_len pool = length (concat (map qstrs ps))" "0 < pool_alloc pool" "totals_ok ps"
    using ok ps by (simp_all add: qstr_ok_def)
  have l: "length (concat (map qstrs (rev ps))) = length (concat (map qstrs ps))" for ps :: "qstr_pool_t list"
    by (simp add: length_concat flip: rev_map)
  have li: "length (interned s) = length strs" using ok by (simp add: qstr_ok_def)
  then have n_strs: "length strs = total_prev_len pool + length (qstrs pool)"
    using l [of ps] t(1) by (simp add: interned_def ps)
  have ext: "qstr_ok s' (strs @ [str])"
    if p': "pools s' \<noteq> []" "totals_ok (pools s')" "interned s' = interned s @ [p]"
      and same: "chunks s' = chunks s" "qstr_last_chunk s' = qstr_last_chunk s" "qstr_last_alloc s' = qstr_last_alloc s"
        "qstr_last_used s' = qstr_last_used s" for s'
  proof -
    have ne: "strs \<noteq> []" using ok by (simp add: qstr_ok_def)
    have e: "length ((strs @ [str]) ! i) < 256 \<and> holds (chunks s') (interned s' ! i) (image i ((strs @ [str]) ! i))"
      if "i < length (strs @ [str])" for i
    proof (cases "i < length strs")
      case True
      then show ?thesis using qstr_ok_entry [OF ok True] li by (simp add: p'(3) same nth_append)
    next
      case False
      then have "i = length strs" using that by simp
      then show ?thesis using n(2) h li by (simp add: p'(3) same nth_append)
    qed
    have co: "chunk_ok s' (strs @ [str])"
    proof (cases "qstr_last_chunk s")
      case (Some c)
      have old: "c < length (chunks s) \<and> length (chunks s ! c) = qstr_last_alloc s \<and> qstr_last_used s \<le> qstr_last_alloc s"
        "\<And>i. i < length strs \<Longrightarrow> fst (interned s ! i) = c \<Longrightarrow> snd (interned s ! i) + length (image i (strs ! i)) \<le> qstr_last_used s"
        using ok Some unfolding qstr_ok_def chunk_ok_def by simp_all
      have "snd (interned s' ! i) + length (image i ((strs @ [str]) ! i)) \<le> qstr_last_used s'"
        if "i < length (strs @ [str])" "fst (interned s' ! i) = c" for i
      proof (cases "i < length strs")
        case True
        then show ?thesis using old(2) [OF True] that li unfolding p'(3) same(4) by (simp add: nth_append)
      next
        case False
        then have "i = length strs" using that by simp
        then show ?thesis using u Some that li ne unfolding p'(3) same(4) by (simp add: nth_append image_def)
      qed
      then show ?thesis using old(1) Some same by (simp add: chunk_ok_def)
    qed (simp add: chunk_ok_def same)
    have "distinct (tl (strs @ [str]))" "(strs @ [str]) ! 0 = []"
      using ok n(1) ne by (auto simp: qstr_ok_def nth_append)
    then show ?thesis using p' e co li ne by (simp add: qstr_ok_def)
  qed
  consider (fail) "length (qstrs pool) \<ge> pool_alloc pool" "\<not> pool_maybe env s (pool_alloc pool * 2)"
    | (fresh) "length (qstrs pool) \<ge> pool_alloc pool" "pool_maybe env s (pool_alloc pool * 2)"
    | (room) "length (qstrs pool) < pool_alloc pool"
    by linarith
  then show ?thesis
  proof cases
    case fail
    then show ?thesis by (simp add: qstr_add_def ps Let_def)
  next
    case fresh
    then show ?thesis using t n_strs
      by (simp add: qstr_add_def ps Let_def) (rule ext; simp add: interned_def ps)
  next
    case room
    then show ?thesis using t n_strs
      by (simp add: qstr_add_def ps Let_def) (rule ext; simp add: interned_def ps)
  qed
qed

lemma grow_chunk_run:
  assumes ok: "qstr_ok s strs"
  shows "\<exists>s'. grow_chunk env s n = Some s' \<and> qstr_ok s' strs
    \<and> (\<forall>c. qstr_last_chunk s' = Some c \<longrightarrow> qstr_last_used s' + n \<le> qstr_last_alloc s')"
proof (cases "qstr_last_chunk s")
  case None
  then show ?thesis using ok by (simp add: grow_chunk_def)
next
  case (Some c)
  have c: "c < length (chunks s)" "length (chunks s ! c) = qstr_last_alloc s" "qstr_last_used s \<le> qstr_last_alloc s"
    using ok Some by (simp_all add: qstr_ok_def chunk_ok_def)
  consider (room) "qstr_last_used s + n \<le> qstr_last_alloc s"
    | (grow) "qstr_last_used s + n > qstr_last_alloc s" "renew_maybe env s (qstr_last_alloc s + n)"
    | (new) "qstr_last_used s + n > qstr_last_alloc s" "\<not> renew_maybe env s (qstr_last_alloc s + n)"
    by linarith
  then show ?thesis
  proof cases
    case room
    then show ?thesis using ok Some by (simp add: grow_chunk_def)
  next
    case grow
    define s' where "s' = s\<lparr>chunks := (chunks s)[c := chunks s ! c @ replicate n 0], qstr_last_alloc := qstr_last_alloc s + n\<rparr>"
    have "qstr_ok s' strs"
      using c Some by (intro qstr_ok_chunk [OF ok Some, of "chunks s ! c @ replicate n 0"]) (simp_all add: s'_def)
    then show ?thesis using grow Some c by (simp add: grow_chunk_def rd_in s'_def)
  next
    case new
    define s' where "s' = s\<lparr>chunks := (chunks s)[c := take (qstr_last_used s) (chunks s ! c)], qstr_last_chunk := None\<rparr>"
    have "qstr_ok s' strs"
      using c Some by (intro qstr_ok_chunk [OF ok Some, of "take (qstr_last_used s) (chunks s ! c)"]) (simp_all add: s'_def)
    then show ?thesis using new Some c by (simp add: grow_chunk_def rd_in s'_def)
  qed
qed

lemma new_chunk_run:
  assumes ok: "qstr_ok s strs" and r: "\<forall>c. qstr_last_chunk s = Some c \<longrightarrow> qstr_last_used s + n \<le> qstr_last_alloc s"
  shows "\<exists>c s'. new_chunk env s n = (c, s') \<and> qstr_ok s' strs
    \<and> (case c of None \<Rightarrow> s' = s | Some c \<Rightarrow> qstr_last_chunk s' = Some c \<and> qstr_last_used s' + n \<le> qstr_last_alloc s')"
proof (cases "qstr_last_chunk s")
  case (Some c)
  then show ?thesis using ok r by (simp add: new_chunk_def)
next
  case None
  define al where "al = (if n < MICROPY_ALLOC_QSTR_CHUNK_INIT then MICROPY_ALLOC_QSTR_CHUNK_INIT else n)"
  define bl where "bl = (if new_maybe env s al then al else n)"
  show ?thesis
  proof (cases "\<not> new_maybe env s al \<and> \<not> new_maybe env s n")
    case True
    then show ?thesis using ok None by (simp add: new_chunk_def al_def)
  next
    case False
    define s' where "s' = s\<lparr>chunks := chunks s @ [replicate bl 0],
      qstr_last_chunk := Some (length (chunks s)), qstr_last_alloc := bl, qstr_last_used := 0\<rparr>"
    have "qstr_ok s' strs" by (rule qstr_ok_new_chunk [OF ok, of _ "replicate bl 0"]) (simp_all add: s'_def)
    moreover have "new_chunk env s n = (Some (length (chunks s)), s')"
      using None False unfolding new_chunk_def s'_def Let_def al_def [symmetric] bl_def by simp
    moreover have "n \<le> bl" by (simp add: bl_def al_def)
    ultimately show ?thesis by (intro exI [of _ "Some (length (chunks s))"] exI [of _ s']) (simp add: s'_def)
  qed
qed

text \<open>The stores of header, data and final zero: exactly the image of the string.\<close>

lemma store_image:
  assumes c: "c < length (chunks s)" and u: "u + length str + 4 \<le> length (chunks s ! c)" and n: "i \<noteq> 0"
  shows "(do { s \<leftarrow> Q_SET_HASH s (c, u) (qstr_compute_hash str);
      s \<leftarrow> Q_SET_LENGTH s (c, u) (length str);
      s \<leftarrow> put_data s (c, u) str;
      put_zero s (c, u) (length str) })
    = Some (put_chunk s c (take u (chunks s ! c) @ image i str @ drop (u + length str + 4) (chunks s ! c)))"
proof -
  let ?h = "qstr_compute_hash str" and ?b = "chunks s ! c"
  have split: "?b = take u ?b @ [?b ! u, ?b ! (u + 1), ?b ! (u + 2)] @ take (length str) (drop (u + 3) ?b)
      @ [?b ! (u + 3 + length str)] @ drop (u + length str + 4) ?b"
  proof -
    have "?b = take u ?b @ drop u ?b" by simp
    also have "drop u ?b = ?b ! u # ?b ! (u + 1) # ?b ! (u + 2) # drop (u + 3) ?b"
      using u by (simp add: Cons_nth_drop_Suc numeral_eq_Suc)
    also have "drop (u + 3) ?b = take (length str) (drop (u + 3) ?b) @ drop (u + 3 + length str) ?b"
      by (metis append_take_drop_id drop_drop add.commute)
    also have "drop (u + 3 + length str) ?b = ?b ! (u + 3 + length str) # drop (u + length str + 4) ?b"
      using u by (subst Cons_nth_drop_Suc [symmetric]) (simp_all add: numeral_eq_Suc)
    finally show ?thesis by simp
  qed
  obtain a x y z d w e where b: "?b = a @ [x, y, z] @ d @ [w] @ e" "length a = u" "length d = length str"
  proof
    show "?b = take u ?b @ [?b ! u, ?b ! (u + 1), ?b ! (u + 2)] @ take (length str) (drop (u + 3) ?b)
      @ [?b ! (u + 3 + length str)] @ drop (u + length str + 4) ?b" by (rule split)
  qed (use u in simp_all)
  have o: "u + 3 + length str = length (a @ [p, q, r] @ str)" "u + 2 = length (a @ [p, q])" "u + 1 = length (a @ [p])"
    "u + 3 = length (a @ [p, q, r])" for p q r :: u8
    using b(2) by simp_all
  have "wr ?b u p = Some (a @ [p, y, z] @ d @ [w] @ e)" for p
    using b(2) unfolding b(1) by (simp add: wr_in list_update_append)
  moreover have "wr (a @ [p, y, z] @ d @ [w] @ e) (u + 1) q = Some (a @ [p, q, z] @ d @ [w] @ e)" for p q
    using b(2) by (simp add: wr_in list_update_append)
  moreover have "wr (a @ [p, q, z] @ d @ [w] @ e) (u + 2) r = Some (a @ [p, q, r] @ d @ [w] @ e)" for p q r
    using b(2) by (simp add: wr_in list_update_append)
  moreover have "blit (a @ [p, q, r] @ d @ [w] @ e) (u + 3) str = Some (a @ [p, q, r] @ str @ [w] @ e)" for p q r
  proof -
    have "drop (u + 3 + length str) (a @ [p, q, r] @ d @ [w] @ e) = [w] @ e"
      unfolding b(2,3) [symmetric] by (simp add: numeral_eq_Suc)
    moreover have "take (u + 3) (a @ [p, q, r] @ d @ [w] @ e) = a @ [p, q, r]"
      unfolding b(2) [symmetric] by (simp add: numeral_eq_Suc)
    ultimately show ?thesis using b(2,3) by (simp add: blit_in)
  qed
  moreover have "wr (a @ [p, q, r] @ str @ [w] @ e) (u + 3 + length str) 0 = Some (a @ [p, q, r] @ str @ [0] @ e)" for p q r
    using b(2) by (simp add: wr_in list_update_append)
  moreover have "take u ?b = a" "drop (u + length str + 4) ?b = e"
    unfolding b(1) b(2,3) [symmetric] by (simp_all add: numeral_eq_Suc)
  ultimately show ?thesis
    using c n unfolding image_def
    by (simp add: Q_SET_HASH_def Q_SET_LENGTH_def put_data_def put_zero_def put_chunk_def rd_in)
qed


lemma store_image_then:
  assumes "c < length (chunks s)" and "u + length str + 4 \<le> length (chunks s ! c)" and "i \<noteq> 0"
  shows "(do { s \<leftarrow> Q_SET_HASH s (c, u) (qstr_compute_hash str);
      s \<leftarrow> Q_SET_LENGTH s (c, u) (length str);
      s \<leftarrow> put_data s (c, u) str;
      s \<leftarrow> put_zero s (c, u) (length str);
      f s })
    = f (put_chunk s c (take u (chunks s ! c) @ image i str @ drop (u + length str + 4) (chunks s ! c)))"
  using arg_cong [OF store_image [OF assms], of "\<lambda>r. Option.bind r f"] by simp

text \<open>
  Interning: the number of the string, equal to an old one exactly when the string was interned
  before; a memory error leaves the strings as they are.
\<close>

lemma intern_run:
  assumes ok: "qstr_ok s strs" and l: "length str < 256"
  shows "\<exists>r s'. qstr_from_strn env s str = Some (r, s')
    \<and> (case r of None \<Rightarrow> qstr_ok s' strs
       | Some q \<Rightarrow> 0 < q \<and> (if str \<in> set (tl strs) then s' = s \<and> q < length strs \<and> strs ! q = str
           else q = length strs \<and> qstr_ok s' (strs @ [str])))"
proof -
  obtain q where q: "qstr_find_strn s str = Some q" "q = 0 \<and> str \<notin> set (tl strs) \<or> 0 < q \<and> q < length strs \<and> strs ! q = str"
    using find_strn_run [OF ok l] by blast
  show ?thesis
  proof (cases "q = 0")
    case False
    then have "0 < q" "q < length strs" "strs ! q = str" using q(2) by simp_all
    moreover have "tl strs ! (q - 1) = str" "q - 1 < length (tl strs)" using calculation by (simp_all add: nth_tl)
    then have "str \<in> set (tl strs)" by (metis nth_mem)
    ultimately show ?thesis using q(1) l by (simp add: qstr_from_strn_def)
  next
    case True
    then have new: "str \<notin> set (tl strs)" using q(2) by simp
    have ne: "length strs \<noteq> 0" using ok by (simp add: qstr_ok_def)
    let ?n = "2 + 1 + length str + 1"
    obtain s1 where s1: "grow_chunk env s ?n = Some s1" "qstr_ok s1 strs"
        "\<forall>c. qstr_last_chunk s1 = Some c \<longrightarrow> qstr_last_used s1 + ?n \<le> qstr_last_alloc s1"
      using grow_chunk_run [OF ok] by blast
    obtain c s2 where s2: "new_chunk env s1 ?n = (c, s2)" "qstr_ok s2 strs"
        "case c of None \<Rightarrow> s2 = s1 | Some c \<Rightarrow> qstr_last_chunk s2 = Some c \<and> qstr_last_used s2 + ?n \<le> qstr_last_alloc s2"
      using new_chunk_run [OF s1(2,3)] by blast
    show ?thesis
    proof (cases c)
      case None
      then show ?thesis using True q(1) l s1(1) s2 new by (simp add: qstr_from_strn_def)
    next
      case (Some c)
      let ?u = "qstr_last_used s2" and ?b = "chunks s2 ! c"
      have lc: "qstr_last_chunk s2 = Some c" and u: "?u + ?n \<le> qstr_last_alloc s2" using s2(3) Some by simp_all
      have c: "c < length (chunks s2)" "length ?b = qstr_last_alloc s2"
        using s2(2) lc by (simp_all add: qstr_ok_def chunk_ok_def)
      define d where "d = take ?u ?b @ image (length strs) str @ drop (?u + length str + 4) ?b"
      define s3 where "s3 = put_chunk (s2\<lparr>qstr_last_used := ?u + ?n\<rparr>) c d"
      have li: "length (image (length strs) str) = length str + 4" using ne by (simp add: image_def)
      have ld: "length d = length ?b" "take ?u d = take ?u ?b" using u c li by (simp_all add: d_def)
      have ok3: "qstr_ok s3 strs"
        using ld c u lc by (intro qstr_ok_chunk [OF s2(2) lc, of d]) (simp_all add: s3_def put_chunk_def)
      have h: "holds (chunks s3) (c, ?u) (image (length strs) str)"
        using c u li by (simp add: holds_def s3_def put_chunk_def slice_def d_def)
      have step: "qstr_from_strn env s str = qstr_add env s3 (c, ?u)"
      proof -
        have "do { s \<leftarrow> Q_SET_HASH (s2\<lparr>qstr_last_used := ?u + ?n\<rparr>) (c, ?u) (qstr_compute_hash str);
            s \<leftarrow> Q_SET_LENGTH s (c, ?u) (length str);
            s \<leftarrow> put_data s (c, ?u) str;
            s \<leftarrow> put_zero s (c, ?u) (length str);
            qstr_add env s (c, ?u) } = qstr_add env s3 (c, ?u)"
          using c u ne store_image_then [of c "s2\<lparr>qstr_last_used := ?u + ?n\<rparr>" ?u str "length strs"]
          by (simp add: s3_def d_def)
        then show ?thesis
          using True q(1) l s1(1) s2(1) unfolding qstr_from_strn_def Let_def Some by simp
      qed
      obtain r s' where "qstr_add env s3 (c, ?u) = Some (r, s')"
          "case r of None \<Rightarrow> s' = s3 | Some q \<Rightarrow> q = length strs \<and> qstr_ok s' (strs @ [str])"
      proof -
        have "snd (c, ?u) + length str + 4 \<le> qstr_last_used s3" by (simp add: s3_def put_chunk_def)
        then show ?thesis using add_pool_run [OF ok3 new l h] that by blast
      qed
      then show ?thesis unfolding step using ok3 new ne
        by (intro exI [of _ r] exI [of _ s']) (auto split: option.splits)
    qed
  qed
qed


text \<open>A string built in place is interned like any other, with its buffer as the data.\<close>

lemma build_start_run:
  assumes ok: "qstr_ok s strs" and l: "len < 256" and m: "new_maybe env s (len + 4)"
  shows "\<exists>s'. qstr_build_start env s len = Some (Some (length (chunks s), 0), s') \<and> qstr_ok s' strs
    \<and> chunks s' = chunks s @ [[0, 0, of_nat len] @ replicate (len + 1) 0]
    \<and> qstr_last_chunk s' = qstr_last_chunk s"
proof -
  define s' where "s' = s\<lparr>chunks := chunks s @ [[0, 0, of_nat len] @ replicate (len + 1) 0]\<rparr>"
  have "replicate (len + 4) (0 :: u8) = [0, 0, 0] @ replicate (len + 1) 0" by (simp add: numeral_eq_Suc)
  then have "qstr_build_start env s len = Some (Some (length (chunks s), 0), s')"
    using l m by (simp add: qstr_build_start_def Q_SET_LENGTH_def rd_in wr_in put_chunk_def s'_def numeral_eq_Suc)
  moreover have "qstr_ok s' strs"
    by (rule qstr_ok_new_chunk [OF ok, of _ "[0, 0, of_nat len] @ replicate (len + 1) 0"]) (simp_all add: s'_def)
  ultimately show ?thesis by (intro exI [of _ s']) (simp add: s'_def)
qed

lemma build_end_run:
  assumes ok: "qstr_ok s strs" and l: "length str < 256"
    and c: "c < length (chunks s)" "chunks s ! c = [x, y, of_nat (length str)] @ str @ [z]"
    and free: "qstr_last_chunk s \<noteq> Some c" "\<forall>i < length strs. fst (interned s ! i) \<noteq> c"
  shows "\<exists>r s'. qstr_build_end env s (c, 0) = Some (r, s')
    \<and> (case r of None \<Rightarrow> qstr_ok s' strs
       | Some q \<Rightarrow> 0 < q \<and> (if str \<in> set (tl strs) then q < length strs \<and> strs ! q = str \<and> qstr_ok s' strs
           else q = length strs \<and> qstr_ok s' (strs @ [str])))"
proof -
  have ok': "qstr_ok (s\<lparr>chunks := (chunks s)[c := d]\<rparr>) strs" for d
  proof -
    have i: "interned (s\<lparr>chunks := (chunks s)[c := d]\<rparr>) = interned s" by (simp add: interned_def)
    have "holds ((chunks s)[c := d]) (interned s ! i) (image i (strs ! i))" if "i < length strs" for i
      using qstr_ok_entry(1) [OF ok that] free(2) that by (auto simp: holds_def)
    moreover have "chunk_ok (s\<lparr>chunks := (chunks s)[c := d]\<rparr>) strs"
      using ok free(1) by (auto simp: qstr_ok_def chunk_ok_def i split: option.splits)
    ultimately show ?thesis using ok by (simp add: qstr_ok_def i)
  qed
  obtain q where q: "qstr_find_strn s str = Some q" "q = 0 \<and> str \<notin> set (tl strs) \<or> 0 < q \<and> q < length strs \<and> strs ! q = str"
    using find_strn_run [OF ok l] by blast
  have g: "Q_GET_LENGTH s (c, 0) = Some (length str)" "Q_GET_DATA s (c, 0) (length str) = Some str"
  proof -
    have "(x # y # of_nat (length str) # str @ [z]) ! 2 = of_nat (length str)" by (simp add: numeral_eq_Suc)
    then show "Q_GET_LENGTH s (c, 0) = Some (length str)"
      using c l by (simp add: Q_GET_LENGTH_def at_def rd_in unat_of_nat)
    have "take (length str) (drop 3 (x # y # of_nat (length str) # str @ [z])) = str" by (simp add: numeral_eq_Suc)
    then show "Q_GET_DATA s (c, 0) (length str) = Some str" using c by (simp add: rd_in Q_GET_DATA_def slice_in)
  qed
  show ?thesis
  proof (cases "q = 0")
    case False
    then have n: "0 < q" "q < length strs" "strs ! q = str" using q(2) by simp_all
    then have "tl strs ! (q - 1) = str" "q - 1 < length (tl strs)" by (simp_all add: nth_tl)
    then have "str \<in> set (tl strs)" by (metis nth_mem)
    then show ?thesis using q(1) g n ok' [of "[]"] by (simp add: qstr_build_end_def put_chunk_def)
  next
    case True
    then have new: "str \<notin> set (tl strs)" using q(2) by simp
    have ne: "0 < length strs" using ok by (simp add: qstr_ok_def)
    let ?d = "image (length strs) str"
    define s3 where "s3 = s\<lparr>chunks := (chunks s)[c := ?d]\<rparr>"
    have ok3: "qstr_ok s3 strs" unfolding s3_def by (rule ok')
    have step: "qstr_build_end env s (c, 0) = qstr_add env s3 (c, 0)"
    proof -
      have z: "([p, q, r] @ str @ [z])[3 + length str := 0] = [p, q, r] @ str @ [0]" for p q r :: u8
        by (simp add: numeral_eq_Suc list_update_append)
      have "Q_SET_HASH s (c, 0) (qstr_compute_hash str)
          = Some (put_chunk s c ([ucast (qstr_compute_hash str), ucast (drop_bit 8 (qstr_compute_hash str)), of_nat (length str)] @ str @ [z]))"
        using c by (simp add: Q_SET_HASH_def rd_in wr_in)
      moreover have "put_zero (put_chunk s c ([p, q, r] @ str @ [z])) (c, 0) (length str)
          = Some (put_chunk s c ([p, q, r] @ str @ [0]))" for p q r
        using c(1) z [of p q r] by (simp add: put_zero_def put_chunk_def rd_in wr_in)
      ultimately show ?thesis
        using q(1) True g ne unfolding s3_def image_def put_chunk_def
        by (simp add: qstr_build_end_def put_chunk_def)
    qed
    have h: "holds (chunks s3) (c, 0) ?d" using c(1) by (simp add: holds_def s3_def slice_def)
    obtain r s' where "qstr_add env s3 (c, 0) = Some (r, s')"
        "case r of None \<Rightarrow> s' = s3 | Some q \<Rightarrow> q = length strs \<and> qstr_ok s' (strs @ [str])"
    proof -
      have "qstr_last_chunk s3 \<noteq> Some (fst (c, 0 :: nat))" using free(1) by (simp add: s3_def)
      then show ?thesis using add_pool_run [OF ok3 new l h] that by blast
    qed
    then show ?thesis unfolding step using ok3 new ne
      by (intro exI [of _ r] exI [of _ s']) (auto split: option.splits)
  qed
qed

subsection \<open>What interning promises\<close>

lemma intern_cases:
  assumes "qstr_ok s strs" and "length str < 256" and "qstr_from_strn env s str = Some (Some q, s')"
  obtains strs' where "qstr_ok s' strs'" "0 < q" "q < length strs'" "strs' ! q = str" "take (length strs) strs' = strs"
proof -
  have r: "0 < q \<and> (if str \<in> set (tl strs) then s' = s \<and> q < length strs \<and> strs ! q = str
           else q = length strs \<and> qstr_ok s' (strs @ [str]))"
    using intern_run [OF assms(1,2), of env] assms(3) by auto
  show ?thesis
  proof (cases "str \<in> set (tl strs)")
    case True
    then show ?thesis using r assms(1) by (intro that [of strs]) simp_all
  next
    case False
    moreover have "strs \<noteq> []" using assms(1) by (simp add: qstr_ok_def)
    ultimately show ?thesis using r by (intro that [of "strs @ [str]"]) simp_all
  qed
qed

lemma strings_differ:
  assumes "qstr_ok s strs" and "0 < p" and "p < length strs" and "0 < q" and "q < length strs" and "strs ! p = strs ! q"
  shows "p = q"
proof -
  have "tl strs ! (p - 1) = tl strs ! (q - 1)" "p - 1 < length (tl strs)" "q - 1 < length (tl strs)"
    using assms(2-6) by (simp_all add: nth_tl)
  moreover have "distinct (tl strs)" using assms(1) by (simp add: qstr_ok_def)
  ultimately have "p - 1 = q - 1" by (metis nth_eq_iff_index_eq)
  then show ?thesis using assms(2,4) by simp
qed

text \<open>
  C10. Interning two strings one after the other gives the same number exactly when the strings are
  equal, the numbers give back the strings, and all strings interned before keep their numbers.
\<close>

theorem interning_identifies_strings:
  assumes "qstr_ok s strs" and "length a < 256" and "length b < 256"
    and "qstr_from_strn env s a = Some (Some p, s1)" and "qstr_from_strn env s1 b = Some (Some q, s2)"
  shows "(p = q) = (a = b) \<and> qstr_data s2 p = Some a \<and> qstr_data s2 q = Some b
    \<and> (\<forall>i < length strs. qstr_data s2 i = qstr_data s i)"
proof -
  obtain strs1 where 1: "qstr_ok s1 strs1" "0 < p" "p < length strs1" "strs1 ! p = a" "take (length strs) strs1 = strs"
    by (rule intern_cases [OF assms(1,2,4)])
  obtain strs2 where 2: "qstr_ok s2 strs2" "0 < q" "q < length strs2" "strs2 ! q = b" "take (length strs1) strs2 = strs1"
    by (rule intern_cases [OF 1(1) assms(3,5)])
  have l: "length strs \<le> length strs1" "length strs1 \<le> length strs2"
    using arg_cong [OF 1(5), of length] arg_cong [OF 2(5), of length] by (simp_all add: min_def split: if_splits)
  have p2: "p < length strs2" "strs2 ! p = a"
    using 1(3,4) l(2) nth_take [OF 1(3), of strs2] by (simp_all add: 2(5))
  have old: "qstr_data s2 i = qstr_data s i" if "i < length strs" for i
  proof -
    have "strs2 ! i = strs ! i"
      using that l nth_take [of i "length strs1" strs2] nth_take [OF that, of strs1] by (simp add: 2(5) 1(5))
    then show ?thesis using qstr_data_run [OF assms(1) that] qstr_data_run [OF 2(1), of i] that l by simp
  qed
  have "p = q" if "a = b" using strings_differ [OF 2(1) 1(2) p2(1) 2(2,3)] p2(2) 2(4) that by simp
  moreover have "a = b" if "p = q" using that p2(2) 2(4) by simp
  ultimately show ?thesis using qstr_data_run [OF 2(1)] p2 2(3,4) old by blast
qed

text \<open>A build with two strings in its pool: the empty one and \<open>a\<close>.\<close>

definition small_rom :: "u8 list list" where
  "small_rom = [[0, 0, 0, 0,  5, 21, 0, 0,  196, 181, 1, 97, 0]]"

definition small_pool :: qstr_pool_t where
  "small_pool = \<lparr>total_prev_len = 0, pool_alloc = 2, qstrs = [(0, 0), (0, 4), (0, 8)]\<rparr>"

definition all_memory :: allocator where
  "all_memory = \<lparr>new_maybe = (\<lambda>s n. True), renew_maybe = (\<lambda>s n. True), pool_maybe = (\<lambda>s n. True)\<rparr>"

lemma small_ok: "qstr_ok (qstr_init [small_pool] small_rom) [[], [], [97]]"
  by code_simp


lemma small_run:
  "(do { (r1, s1) \<leftarrow> qstr_from_strn all_memory (qstr_init [small_pool] small_rom) [97];
        (r2, s2) \<leftarrow> qstr_from_strn all_memory s1 [98];
        Some (r1, r2) }) = Some (Some 2, Some 3)"
  by code_simp

theorem interning_identifies_strings_witness:
  "\<exists>s1 s2. qstr_from_strn all_memory (qstr_init [small_pool] small_rom) [97] = Some (Some 2, s1)
    \<and> qstr_from_strn all_memory s1 [98] = Some (Some 3, s2)
    \<and> qstr_data s2 2 = Some [97] \<and> qstr_data s2 3 = Some [98]"
proof -
  obtain r1 r2 s1 s2 where s: "qstr_from_strn all_memory (qstr_init [small_pool] small_rom) [97] = Some (r1, s1)"
      "qstr_from_strn all_memory s1 [98] = Some (r2, s2)" "r1 = Some 2" "r2 = Some 3"
    using small_run by (auto simp: Option.bind_eq_Some_conv)
  have "qstr_data s2 2 = Some [97]" "qstr_data s2 3 = Some [98]"
    using interning_identifies_strings [OF small_ok, of "[97]" "[98]" all_memory 2 s1 3 s2] s by simp_all
  then show ?thesis using s by blast
qed

end
