(* ===== verification/Py_Objects.thy ===== *)
theory Py_Objects
  imports Py_Map Py_Qstr
begin

text \<open>
  Object words (\<open>py/obj.h\<close>, representation A), equality (\<open>py/obj.c\<close>, \<open>py/objstr.c\<close>) and hashing
  (\<open>py/runtime.c\<close>): small integers, interned strings, string and bytes objects in the heap, and all
  other objects with the methods of their types as arguments.  They give the maps of
  \<open>py/map.c\<close> their keys: the laws of \<open>object_keys\<close> hold for objects without a method of equality.
\<close>

unbundle bit_operations_syntax

subsection \<open>Object words\<close>

definition MP_OBJ_IS_SMALL_INT :: "mp_obj_t \<Rightarrow> bool" where
  "MP_OBJ_IS_SMALL_INT p \<longleftrightarrow> p AND 1 \<noteq> 0"

definition MP_OBJ_SMALL_INT_VALUE :: "mp_obj_t \<Rightarrow> u32" where
  "MP_OBJ_SMALL_INT_VALUE p = signed_drop_bit 1 p"

definition MP_OBJ_NEW_SMALL_INT :: "u32 \<Rightarrow> mp_obj_t" where
  "MP_OBJ_NEW_SMALL_INT small_int = push_bit 1 small_int OR 1"

definition MP_OBJ_QSTR_VALUE :: "mp_obj_t \<Rightarrow> nat" where
  "MP_OBJ_QSTR_VALUE p = unat (drop_bit 2 p)"

definition MP_OBJ_NEW_QSTR :: "nat \<Rightarrow> mp_obj_t" where
  "MP_OBJ_NEW_QSTR q = push_bit 2 (of_nat q) OR 2"

definition MP_OBJ_IS_OBJ :: "mp_obj_t \<Rightarrow> bool" where
  "MP_OBJ_IS_OBJ p \<longleftrightarrow> p AND 3 = 0"

text \<open>
  The heap: string and bytes objects with their stored hash (0 when it was not computed) and their
  data; of the other objects, which are floats, and what \<open>binary_op\<close> and \<open>unary_op\<close> of their types
  answer to \<open>MP_BINARY_OP_EQUAL\<close> and \<open>MP_UNARY_OP_HASH\<close> (\<open>None\<close> when the type does not support it).
\<close>

record heap =
  qstr_pools :: qstr_state
  str_objs :: "mp_obj_t \<Rightarrow> (u32 \<times> u8 list) option"
  bytes_objs :: "mp_obj_t \<Rightarrow> (u32 \<times> u8 list) option"
  is_float_obj :: "mp_obj_t \<Rightarrow> bool"
  binary_op_equal :: "mp_obj_t \<Rightarrow> mp_obj_t \<Rightarrow> mp_obj_t option"
  unary_op_hash :: "mp_obj_t \<Rightarrow> mp_obj_t option"
  mp_const_none :: mp_obj_t
  mp_const_true :: mp_obj_t

definition MP_OBJ_IS_STR_TYPE :: "heap \<Rightarrow> mp_obj_t \<Rightarrow> bool" where
  "MP_OBJ_IS_STR_TYPE h p \<longleftrightarrow> MP_OBJ_IS_OBJ p \<and> str_objs h p \<noteq> None"

definition MP_OBJ_IS_STR :: "heap \<Rightarrow> mp_obj_t \<Rightarrow> bool" where
  "MP_OBJ_IS_STR h p \<longleftrightarrow> MP_OBJ_IS_QSTR p \<or> MP_OBJ_IS_STR_TYPE h p"

definition MP_OBJ_IS_STR_OR_BYTES :: "heap \<Rightarrow> mp_obj_t \<Rightarrow> bool" where
  "MP_OBJ_IS_STR_OR_BYTES h p \<longleftrightarrow> MP_OBJ_IS_QSTR p \<or> MP_OBJ_IS_OBJ p \<and> (str_objs h p \<noteq> None \<or> bytes_objs h p \<noteq> None)"

definition str_obj :: "heap \<Rightarrow> mp_obj_t \<Rightarrow> (u32 \<times> u8 list) option" where
  "str_obj h p = (case str_objs h p of None \<Rightarrow> bytes_objs h p | Some s \<Rightarrow> Some s)"

definition GET_STR_HASH :: "heap \<Rightarrow> mp_obj_t \<Rightarrow> u32 option" where
  "GET_STR_HASH h p = (if MP_OBJ_IS_QSTR p then qstr_hash (qstr_pools h) (MP_OBJ_QSTR_VALUE p)
     else do { (hash, data) \<leftarrow> str_obj h p; Some hash })"

definition GET_STR_DATA_LEN :: "heap \<Rightarrow> mp_obj_t \<Rightarrow> u8 list option" where
  "GET_STR_DATA_LEN h p = (if MP_OBJ_IS_QSTR p then qstr_data (qstr_pools h) (MP_OBJ_QSTR_VALUE p)
     else do { (hash, data) \<leftarrow> str_obj h p; Some data })"

subsection \<open>Equality and hash\<close>

definition mp_obj_str_equal :: "heap \<Rightarrow> mp_obj_t \<Rightarrow> mp_obj_t \<Rightarrow> bool option" where
  "mp_obj_str_equal h s1 s2 =
     (if MP_OBJ_IS_QSTR s1 \<and> MP_OBJ_IS_QSTR s2 then Some (s1 = s2)
      else do {
        h1 \<leftarrow> GET_STR_HASH h s1;
        h2 \<leftarrow> GET_STR_HASH h s2;
        if h1 \<noteq> 0 \<and> h2 \<noteq> 0 \<and> h1 \<noteq> h2 then Some False
        else do {
          d1 \<leftarrow> GET_STR_DATA_LEN h s1;
          d2 \<leftarrow> GET_STR_DATA_LEN h s2;
          if length d1 \<noteq> length d2 then Some False else Some (d1 = d2) } })"

definition obj_equal :: "heap \<Rightarrow> mp_obj_t \<Rightarrow> mp_obj_t \<Rightarrow> bool option" where
  "obj_equal h o1 o2 =
     (if o1 = o2 \<and> \<not> is_float_obj h o1 then Some True
      else if o1 = mp_const_none h \<or> o2 = mp_const_none h then Some False
      else if MP_OBJ_IS_SMALL_INT o1 \<and> MP_OBJ_IS_SMALL_INT o2 then Some False
      else let (o1, o2) = (if MP_OBJ_IS_SMALL_INT o1 then (o2, o1) else (o1, o2)) in
        if MP_OBJ_IS_STR h o1
        then (if MP_OBJ_IS_STR h o2 then mp_obj_str_equal h o1 o2 else Some False)
        else if MP_OBJ_IS_STR h o2 then Some False
        else (case binary_op_equal h o1 o2 of
                Some r \<Rightarrow> Some (r = mp_const_true h)
              | None \<Rightarrow> Some False))"

text \<open>\<open>mp_unary_op(MP_UNARY_OP_HASH, arg)\<close>; the inner \<open>None\<close> raises the type error.\<close>

definition unary_hash :: "heap \<Rightarrow> mp_obj_t \<Rightarrow> mp_obj_t option option" where
  "unary_hash h arg =
     (if MP_OBJ_IS_SMALL_INT arg then Some (Some arg)
      else if MP_OBJ_IS_STR_OR_BYTES h arg then do {
        hash \<leftarrow> GET_STR_HASH h arg;
        hash \<leftarrow> (if hash = 0 then do { data \<leftarrow> GET_STR_DATA_LEN h arg; Some (qstr_compute_hash data) } else Some hash);
        Some (Some (MP_OBJ_NEW_SMALL_INT hash)) }
      else Some (unary_op_hash h arg))"

text \<open>The hash of an index in \<open>mp_map_lookup\<close>.\<close>

definition index_hash :: "heap \<Rightarrow> mp_obj_t \<Rightarrow> u32 option option" where
  "index_hash h index =
     (if MP_OBJ_IS_QSTR index then do { hash \<leftarrow> qstr_hash (qstr_pools h) (MP_OBJ_QSTR_VALUE index); Some (Some hash) }
      else do { r \<leftarrow> unary_hash h index; Some (map_option MP_OBJ_SMALL_INT_VALUE r) })"

text \<open>
  The objects that a map gets.  The null string is no object: it is equal to itself only.
\<close>

definition NULL_QSTR :: mp_obj_t where "NULL_QSTR = MP_OBJ_NEW_QSTR 0"

definition map_objects :: "heap \<Rightarrow> (nat \<Rightarrow> bool) \<Rightarrow> objects" where
  "map_objects h mem = \<lparr>mp_obj_equal = (\<lambda>a b. a = b \<or> a \<noteq> NULL_QSTR \<and> b \<noteq> NULL_QSTR \<and> obj_equal h a b = Some True),
     mp_obj_hash = (\<lambda>a. case index_hash h a of Some r \<Rightarrow> r | None \<Rightarrow> None),
     is_type_str = MP_OBJ_IS_STR_TYPE h,
     can_alloc = mem\<rparr>"

subsection \<open>Heaps of plain objects\<close>

text \<open>
  The stored hash of a string object is 0 or right, no float is a key, and the other types have
  no equality of their own.
\<close>

definition plain_heap :: "heap \<Rightarrow> u8 list list \<Rightarrow> bool" where
  "plain_heap h strs \<longleftrightarrow> qstr_ok (qstr_pools h) strs
   \<and> (\<forall>p hash data. str_objs h p = Some (hash, data) \<longrightarrow> hash = 0 \<or> hash = qstr_compute_hash data)
   \<and> (\<forall>p. \<not> is_float_obj h p) \<and> (\<forall>a b. binary_op_equal h a b = None)
   \<and> \<not> MP_OBJ_IS_STR h (mp_const_none h)"

lemma word_kinds:
  "MP_OBJ_IS_QSTR p \<Longrightarrow> \<not> MP_OBJ_IS_SMALL_INT p" "MP_OBJ_IS_OBJ p \<Longrightarrow> \<not> MP_OBJ_IS_SMALL_INT p"
  "MP_OBJ_IS_OBJ p \<Longrightarrow> \<not> MP_OBJ_IS_QSTR p"
proof -
  have 1: "p AND 1 = (p AND 3) AND 1" by (simp add: and.assoc)
  show "MP_OBJ_IS_QSTR p \<Longrightarrow> \<not> MP_OBJ_IS_SMALL_INT p" "MP_OBJ_IS_OBJ p \<Longrightarrow> \<not> MP_OBJ_IS_SMALL_INT p"
    unfolding MP_OBJ_IS_QSTR_def MP_OBJ_IS_SMALL_INT_def MP_OBJ_IS_OBJ_def 1 by simp_all
  show "MP_OBJ_IS_OBJ p \<Longrightarrow> \<not> MP_OBJ_IS_QSTR p" by (simp add: MP_OBJ_IS_QSTR_def MP_OBJ_IS_OBJ_def)
qed

lemma qstr_word: "MP_OBJ_IS_QSTR p \<Longrightarrow> p = MP_OBJ_NEW_QSTR (MP_OBJ_QSTR_VALUE p)"
proof -
  assume q: "MP_OBJ_IS_QSTR p"
  have "p = push_bit 2 (drop_bit 2 p) OR (p AND mask 2)"
  proof (rule bit_word_eqI)
    fix n assume "n < LENGTH(32)"
    then show "bit p n = bit (push_bit 2 (drop_bit 2 p) OR (p AND mask 2)) n"
    proof (cases "2 \<le> n")
      case True
      then have "2 + (n - 2) = n" by simp
      then show ?thesis
        using True \<open>n < LENGTH(32)\<close> by (simp add: bit_or_iff bit_push_bit_iff bit_drop_bit_eq bit_and_iff bit_mask_iff)
    next
      case False
      then show ?thesis
        using \<open>n < LENGTH(32)\<close> by (simp add: bit_or_iff bit_push_bit_iff bit_and_iff bit_mask_iff)
    qed
  qed
  then show ?thesis using q by (simp add: MP_OBJ_IS_QSTR_def MP_OBJ_NEW_QSTR_def MP_OBJ_QSTR_VALUE_def mask_eq_exp_minus_1)
qed

lemma qstr_value_inj: "MP_OBJ_IS_QSTR a \<Longrightarrow> MP_OBJ_IS_QSTR b \<Longrightarrow> MP_OBJ_QSTR_VALUE a = MP_OBJ_QSTR_VALUE b \<Longrightarrow> a = b"
  using qstr_word by metis

lemma find_out_of_range: "totals_ok ps \<Longrightarrow> length (concat (map qstrs (rev ps))) \<le> q \<Longrightarrow> ps \<noteq> [] \<Longrightarrow> find_in_pools ps q = None"
proof (cases ps)
  case (Cons pool rest)
  assume "totals_ok ps" "length (concat (map qstrs (rev ps))) \<le> q"
  moreover have "length (concat (map qstrs (rev rest))) = length (concat (map qstrs rest))"
    by (simp add: length_concat flip: rev_map)
  ultimately have "total_prev_len pool \<le> q" "length (qstrs pool) \<le> q - total_prev_len pool" using Cons by simp_all
  then show ?thesis using Cons by (simp add: rd_out)
qed simp

lemma qstr_data_range: "qstr_ok s strs \<Longrightarrow> qstr_data s q = Some d \<Longrightarrow> q < length strs \<and> strs ! q = d"
proof -
  assume ok: "qstr_ok s strs" and d: "qstr_data s q = Some d"
  have "q < length strs"
  proof (rule ccontr)
    assume "\<not> q < length strs"
    then have "find_qstr s q = None"
      using ok find_out_of_range [of "pools s" q] by (simp add: qstr_ok_def find_qstr_def interned_def)
    then show False using d by (simp add: qstr_data_def)
  qed
  then show ?thesis using qstr_data_run [OF ok] d by simp
qed

lemma new_small_int: "hash AND 0xffff = hash \<Longrightarrow> MP_OBJ_SMALL_INT_VALUE (MP_OBJ_NEW_SMALL_INT hash) = hash"
proof -
  assume h: "hash AND 0xffff = hash"
  have b: "bit hash n \<Longrightarrow> n < 16" for n
  proof -
    assume "bit hash n"
    moreover have "bit (hash AND mask 16) n = bit hash n" using h by (simp add: mask_eq_exp_minus_1)
    ultimately show ?thesis by (auto simp: bit_and_iff bit_mask_iff)
  qed
  show ?thesis
    unfolding MP_OBJ_SMALL_INT_VALUE_def MP_OBJ_NEW_SMALL_INT_def
  proof (rule bit_word_eqI)
    fix n assume n: "n < LENGTH(32)"
    define x where "x = push_bit 1 hash"
    have x: "bit x m \<longleftrightarrow> 1 \<le> m \<and> m < 32 \<and> bit hash (m - 1)" for m
      using bit_push_bit_iff [of 1 hash m] by (simp only: x_def possible_bit_word) simp
    show "bit (signed_drop_bit 1 (push_bit 1 hash OR 1)) n = bit hash n"
      unfolding x_def [symmetric]
      using n b [of 30] b [of n] x [of 31] x [of "Suc n"] by (auto simp: bit_signed_drop_bit_iff bit_or_iff bit_1_iff)
  qed
qed

text \<open>Strings are compared by their texts.\<close>

definition key_text :: "heap \<Rightarrow> mp_obj_t \<Rightarrow> u8 list option" where
  "key_text h p = (if MP_OBJ_IS_STR h p \<and> p \<noteq> NULL_QSTR then GET_STR_DATA_LEN h p else None)"

lemma qstr_text:
  assumes ok: "qstr_ok (qstr_pools h) strs" and p: "MP_OBJ_IS_QSTR p" "key_text h p = Some d"
  shows "0 < MP_OBJ_QSTR_VALUE p \<and> MP_OBJ_QSTR_VALUE p < length strs \<and> strs ! MP_OBJ_QSTR_VALUE p = d"
proof -
  have "p \<noteq> NULL_QSTR" "qstr_data (qstr_pools h) (MP_OBJ_QSTR_VALUE p) = Some d"
    using p by (simp_all add: key_text_def GET_STR_DATA_LEN_def split: if_splits)
  then show ?thesis using qstr_data_range [OF ok] qstr_word [OF p(1)] by (metis NULL_QSTR_def gr0I)
qed

lemma text_hash:
  assumes pl: "plain_heap h strs" and d: "key_text h p = Some d"
  obtains x where "GET_STR_HASH h p = Some x" "x = 0 \<or> x = qstr_compute_hash d" "MP_OBJ_IS_QSTR p \<Longrightarrow> x \<noteq> 0"
proof (cases "MP_OBJ_IS_QSTR p")
  case True
  have ok: "qstr_ok (qstr_pools h) strs" using pl by (simp add: plain_heap_def)
  have "GET_STR_HASH h p = Some (qstr_compute_hash d)"
    using qstr_text [OF ok True d] qstr_hash_run [OF ok] True by (simp add: GET_STR_HASH_def)
  then show ?thesis using that hash_range(2) by blast
next
  case False
  then obtain x where "str_objs h p = Some (x, d)"
    using d by (auto simp: key_text_def GET_STR_DATA_LEN_def MP_OBJ_IS_STR_def MP_OBJ_IS_STR_TYPE_def str_obj_def
        Option.bind_eq_Some_conv split: if_splits)
  then show ?thesis using that pl False by (simp add: GET_STR_HASH_def str_obj_def plain_heap_def)
qed

lemma str_equal_text:
  assumes pl: "plain_heap h strs" and ab: "key_text h a = Some d" "key_text h b = Some e"
  shows "mp_obj_str_equal h a b = Some (d = e)"
proof (cases "MP_OBJ_IS_QSTR a \<and> MP_OBJ_IS_QSTR b")
  case True
  have ok: "qstr_ok (qstr_pools h) strs" using pl by (simp add: plain_heap_def)
  have "(a = b) = (d = e)"
    using strings_differ [OF ok] qstr_text [OF ok] qstr_value_inj True ab by (metis option.inject)
  then show ?thesis using True by (simp add: mp_obj_str_equal_def)
next
  case False
  obtain x y where "GET_STR_HASH h a = Some x" "x = 0 \<or> x = qstr_compute_hash d"
      "GET_STR_HASH h b = Some y" "y = 0 \<or> y = qstr_compute_hash e"
    using text_hash [OF pl ab(1)] text_hash [OF pl ab(2)] by metis
  moreover have "GET_STR_DATA_LEN h a = Some d" "GET_STR_DATA_LEN h b = Some e"
    using ab by (simp_all add: key_text_def split: if_splits)
  ultimately show ?thesis using False by (auto simp: mp_obj_str_equal_def)
qed

lemma not_str_equal:
  assumes pl: "plain_heap h strs" and ab: "a \<noteq> b" and s: "\<not> (MP_OBJ_IS_STR h a \<and> MP_OBJ_IS_STR h b)"
  shows "obj_equal h a b = Some False"
  using assms by (auto simp: obj_equal_def plain_heap_def Let_def)

lemma both_str_equal:
  assumes pl: "plain_heap h strs" and ab: "a \<noteq> b" and s: "MP_OBJ_IS_STR h a" "MP_OBJ_IS_STR h b"
  shows "obj_equal h a b = mp_obj_str_equal h a b"
proof -
  have "a \<noteq> mp_const_none h" "b \<noteq> mp_const_none h" using pl s by (auto simp: plain_heap_def)
  moreover have "\<not> MP_OBJ_IS_SMALL_INT a" using s(1) word_kinds by (auto simp: MP_OBJ_IS_STR_def MP_OBJ_IS_STR_TYPE_def)
  ultimately show ?thesis using ab s by (simp add: obj_equal_def)
qed

text \<open>Objects are equal when they are the same object, or strings with the same text.\<close>

lemma obj_equal_text:
  assumes pl: "plain_heap h strs"
  shows "mp_obj_equal (map_objects h mem) a b \<longleftrightarrow> a = b \<or> (\<exists>d. key_text h a = Some d \<and> key_text h b = Some d)"
proof (cases "a = b \<or> a = NULL_QSTR \<or> b = NULL_QSTR \<or> \<not> (MP_OBJ_IS_STR h a \<and> MP_OBJ_IS_STR h b)")
  case True
  then show ?thesis using not_str_equal [OF pl, of a b]
    by (cases "a = b") (auto simp: map_objects_def key_text_def split: if_splits)
next
  case False
  then have ab: "a \<noteq> b" "a \<noteq> NULL_QSTR" "b \<noteq> NULL_QSTR" "MP_OBJ_IS_STR h a" "MP_OBJ_IS_STR h b" by simp_all
  have e: "obj_equal h a b = mp_obj_str_equal h a b" by (rule both_str_equal [OF pl ab(1,4,5)])
  show ?thesis
  proof (cases "key_text h a \<noteq> None \<and> key_text h b \<noteq> None")
    case True
    then show ?thesis using str_equal_text [OF pl] e ab by (auto simp: map_objects_def)
  next
    case False
    then have "mp_obj_str_equal h a b \<noteq> Some True"
      using ab by (auto simp: mp_obj_str_equal_def key_text_def Option.bind_eq_Some_conv split: if_splits)
    then show ?thesis using e ab False by (auto simp: map_objects_def)
  qed
qed

lemma text_index_hash:
  assumes pl: "plain_heap h strs" and d: "key_text h p = Some d"
  shows "mp_obj_hash (map_objects h mem) p = Some (qstr_compute_hash d)"
proof -
  obtain x where x: "GET_STR_HASH h p = Some x" "x = 0 \<or> x = qstr_compute_hash d" "MP_OBJ_IS_QSTR p \<Longrightarrow> x \<noteq> 0"
    using text_hash [OF pl d] by metis
  have s: "MP_OBJ_IS_STR h p" "GET_STR_DATA_LEN h p = Some d" using d by (auto simp: key_text_def split: if_splits)
  show ?thesis
  proof (cases "MP_OBJ_IS_QSTR p")
    case True
    then show ?thesis using x by (auto simp: map_objects_def index_hash_def GET_STR_HASH_def)
  next
    case False
    then have "\<not> MP_OBJ_IS_SMALL_INT p" "MP_OBJ_IS_STR_OR_BYTES h p"
      using s(1) word_kinds by (auto simp: MP_OBJ_IS_STR_def MP_OBJ_IS_STR_TYPE_def MP_OBJ_IS_STR_OR_BYTES_def)
    then show ?thesis
      using x s(2) False hash_range(1) [of d] by (auto simp: map_objects_def index_hash_def unary_hash_def new_small_int)
  qed
qed

lemma plain_keys:
  assumes pl: "plain_heap h strs"
  shows "object_keys (map_objects h mem)"
proof
  note e = obj_equal_text [OF pl, of mem]
  let ?env = "map_objects h mem"
  have ok: "qstr_ok (qstr_pools h) strs" using pl by (simp add: plain_heap_def)
  fix a b c
  show "mp_obj_equal ?env a a" by (simp add: e)
  show "mp_obj_equal ?env a b \<Longrightarrow> mp_obj_equal ?env b a" by (auto simp: e)
  show "mp_obj_equal ?env a b \<Longrightarrow> mp_obj_equal ?env b c \<Longrightarrow> mp_obj_equal ?env a c" by (auto simp: e)
  show "mp_obj_equal ?env a b \<Longrightarrow> mp_obj_hash ?env a = mp_obj_hash ?env b"
    using text_index_hash [OF pl] by (auto simp: e)
  show "a = b" if q: "MP_OBJ_IS_QSTR a" "MP_OBJ_IS_QSTR b" "mp_obj_equal ?env a b"
  proof (rule ccontr)
    assume "a \<noteq> b"
    then obtain d where "key_text h a = Some d" "key_text h b = Some d" using q(3) by (auto simp: e)
    then show False
      using \<open>a \<noteq> b\<close> qstr_text [OF ok q(1)] qstr_text [OF ok q(2)] strings_differ [OF ok] qstr_value_inj q(1,2) by metis
  qed
  show "MP_OBJ_IS_QSTR b \<or> is_type_str ?env b" if "MP_OBJ_IS_QSTR a" "mp_obj_equal ?env a b"
    using that unfolding e by (auto simp: map_objects_def key_text_def MP_OBJ_IS_STR_def split: if_splits)
qed

subsection \<open>The heap of a fresh interpreter\<close>

text \<open>The build with two strings, one string object at address 16, no other objects.\<close>

definition small_heap :: heap where
  "small_heap = \<lparr>qstr_pools = qstr_init [small_pool] small_rom,
     str_objs = (\<lambda>p. if p = 16 then Some (0, [97]) else None), bytes_objs = (\<lambda>p. None),
     is_float_obj = (\<lambda>p. False), binary_op_equal = (\<lambda>a b. None), unary_op_hash = (\<lambda>p. None),
     mp_const_none = 4, mp_const_true = 12\<rparr>"

lemma small_plain: "plain_heap small_heap [[], [], [97]]"
  using small_ok
  by (simp add: plain_heap_def small_heap_def MP_OBJ_IS_STR_def MP_OBJ_IS_STR_TYPE_def MP_OBJ_IS_QSTR_def)

interpretation small: object_keys "map_objects small_heap (\<lambda>n. n < 100)"
  by (rule plain_keys [OF small_plain])

end
