(* ===== verification/Py_Dict.thy ===== *)
theory Py_Dict
  imports Py_Objects
begin

text \<open>
  Dictionaries (\<open>py/objdict.c\<close>): the methods on the map of a dictionary, iteration, comparison,
  update and construction.  A result is a raised exception or a value, with the map afterwards.
\<close>

type_synonym 'a res = "((exc + 'a) \<times> mp_map_t) option"

subsection \<open>Iteration\<close>

fun next_filled :: "mp_map_t \<Rightarrow> nat list \<Rightarrow> nat option option" where
  "next_filled m [] = Some None"
| "next_filled m (i # is) = do {
     f \<leftarrow> MP_MAP_SLOT_IS_FILLED m i;
     if f then Some (Some i) else next_filled m is }"

text \<open>The next slot in use and the new state of the iteration.\<close>

definition dict_iter_next :: "mp_map_t \<Rightarrow> nat \<Rightarrow> (nat option \<times> nat) option" where
  "dict_iter_next m cur = do {
     r \<leftarrow> next_filled m [cur..<alloc m];
     Some (case r of None \<Rightarrow> (None, cur) | Some i \<Rightarrow> (Some i, i + 1)) }"

datatype mp_dict_view_kind_t = MP_DICT_VIEW_ITEMS | MP_DICT_VIEW_KEYS | MP_DICT_VIEW_VALUES

text \<open>What an iterator of a dictionary or of a view gives: \<open>None\<close> is the end.\<close>

definition dict_it_iternext :: "mp_map_t \<Rightarrow> nat \<Rightarrow> (mp_obj_t option \<times> nat) option" where
  "dict_it_iternext m cur = do {
     (nxt, cur) \<leftarrow> dict_iter_next m cur;
     case nxt of
       None \<Rightarrow> Some (None, cur)
     | Some i \<Rightarrow> do { (key, value) \<leftarrow> rd (table m) i; Some (Some key, cur) } }"

definition dict_view_it_iternext :: "mp_dict_view_kind_t \<Rightarrow> mp_map_t \<Rightarrow> nat \<Rightarrow> (mp_obj_t list option \<times> nat) option" where
  "dict_view_it_iternext kind m cur = do {
     (nxt, cur) \<leftarrow> dict_iter_next m cur;
     case nxt of
       None \<Rightarrow> Some (None, cur)
     | Some i \<Rightarrow> do {
         (key, value) \<leftarrow> rd (table m) i;
         Some (Some (case kind of MP_DICT_VIEW_ITEMS \<Rightarrow> [key, value] | MP_DICT_VIEW_KEYS \<Rightarrow> [key]
           | MP_DICT_VIEW_VALUES \<Rightarrow> [value]), cur) } }"

lemma next_filled_Some: "next_filled m is = Some (Some i) \<Longrightarrow> i \<in> set is"
  by (induction "is") (auto split: bind_splits if_splits)

lemma iter_next_bound:
  assumes "dict_iter_next m cur = Some (Some i, c)"
  shows "cur < c \<and> c \<le> alloc m"
proof -
  obtain r where r: "next_filled m [cur..<alloc m] = Some r" "(case r of None \<Rightarrow> (None, cur) | Some i \<Rightarrow> (Some i, i + 1)) = (Some i, c)"
    using assms unfolding dict_iter_next_def by (auto simp: Option.bind_eq_Some_conv)
  then have "r = Some i" "c = i + 1" by (cases r; simp)+
  then show ?thesis using next_filled_Some [of m _ i] r(1) by fastforce
qed

subsection \<open>Single items\<close>

definition mp_obj_dict_get :: "objects \<Rightarrow> mp_map_t \<Rightarrow> mp_obj_t \<Rightarrow> mp_obj_t res" where
  "mp_obj_dict_get env m index = do {
     (r, m) \<leftarrow> mp_map_lookup env m index MP_MAP_LOOKUP;
     case r of
       Inl e \<Rightarrow> Some (Inl e, m)
     | Inr None \<Rightarrow> Some (Inl (KeyError index), m)
     | Inr (Some elem) \<Rightarrow> do { (key, value) \<leftarrow> rd (table m) elem; Some (Inr value, m) } }"

definition mp_obj_dict_store :: "objects \<Rightarrow> mp_map_t \<Rightarrow> mp_obj_t \<Rightarrow> mp_obj_t \<Rightarrow> unit res" where
  "mp_obj_dict_store env m key value = do {
     (r, m) \<leftarrow> mp_map_lookup env m key MP_MAP_LOOKUP_ADD_IF_NOT_FOUND;
     case r of
       Inl e \<Rightarrow> Some (Inl e, m)
     | Inr None \<Rightarrow> None
     | Inr (Some elem) \<Rightarrow> do { m \<leftarrow> set_slot_value m elem value; Some (Inr (), m) } }"

text \<open>The default is \<open>None\<close> when the method is called without one (\<open>n_args = 2\<close>).\<close>

definition dict_get_helper :: "mp_obj_t \<Rightarrow> objects \<Rightarrow> mp_map_t \<Rightarrow> mp_obj_t \<Rightarrow> mp_obj_t option \<Rightarrow> mp_map_lookup_kind_t
    \<Rightarrow> mp_obj_t res" where
  "dict_get_helper none env m index deflt lookup_kind = do {
     (r, m) \<leftarrow> mp_map_lookup env m index lookup_kind;
     case r of
       Inl e \<Rightarrow> Some (Inl e, m)
     | Inr elem \<Rightarrow> do {
         old \<leftarrow> (case elem of None \<Rightarrow> Some MP_OBJ_NULL | Some p \<Rightarrow> do { (key, value) \<leftarrow> rd (table m) p; Some value });
         if elem = None \<or> old = MP_OBJ_NULL then
           (if deflt = None \<and> lookup_kind = MP_MAP_LOOKUP_REMOVE_IF_FOUND then Some (Inl (KeyError index), m)
            else let value = (case deflt of None \<Rightarrow> none | Some v \<Rightarrow> v) in
              if lookup_kind = MP_MAP_LOOKUP_ADD_IF_NOT_FOUND
              then do { p \<leftarrow> elem; m \<leftarrow> set_slot_value m p value; Some (Inr value, m) }
              else Some (Inr value, m))
         else if lookup_kind = MP_MAP_LOOKUP_REMOVE_IF_FOUND
         then do { p \<leftarrow> elem; m \<leftarrow> set_slot_value m p MP_OBJ_NULL; Some (Inr old, m) }
         else Some (Inr old, m) } }"

definition dict_get :: "mp_obj_t \<Rightarrow> objects \<Rightarrow> mp_map_t \<Rightarrow> mp_obj_t \<Rightarrow> mp_obj_t option \<Rightarrow> mp_obj_t res" where
  "dict_get none env m index deflt = dict_get_helper none env m index deflt MP_MAP_LOOKUP"

definition dict_pop :: "mp_obj_t \<Rightarrow> objects \<Rightarrow> mp_map_t \<Rightarrow> mp_obj_t \<Rightarrow> mp_obj_t option \<Rightarrow> mp_obj_t res" where
  "dict_pop none env m index deflt = dict_get_helper none env m index deflt MP_MAP_LOOKUP_REMOVE_IF_FOUND"

definition dict_setdefault :: "mp_obj_t \<Rightarrow> objects \<Rightarrow> mp_map_t \<Rightarrow> mp_obj_t \<Rightarrow> mp_obj_t option \<Rightarrow> mp_obj_t res" where
  "dict_setdefault none env m index deflt = dict_get_helper none env m index deflt MP_MAP_LOOKUP_ADD_IF_NOT_FOUND"

definition mp_obj_dict_delete :: "mp_obj_t \<Rightarrow> objects \<Rightarrow> mp_map_t \<Rightarrow> mp_obj_t \<Rightarrow> unit res" where
  "mp_obj_dict_delete none env m key = do {
     (r, m) \<leftarrow> dict_get_helper none env m key None MP_MAP_LOOKUP_REMOVE_IF_FOUND;
     Some (case r of Inl e \<Rightarrow> Inl e | Inr v \<Rightarrow> Inr (), m) }"

text \<open>The subscript operator: delete, load or store, told apart by \<open>value\<close>.\<close>

definition dict_subscr :: "mp_obj_t \<Rightarrow> objects \<Rightarrow> mp_map_t \<Rightarrow> mp_obj_t \<Rightarrow> mp_obj_t \<Rightarrow> mp_obj_t res" where
  "dict_subscr none env m index value =
     (if value = MP_OBJ_NULL then do {
        (r, m) \<leftarrow> mp_obj_dict_delete none env m index;
        Some (case r of Inl e \<Rightarrow> Inl e | Inr u \<Rightarrow> Inr none, m) }
      else if value = MP_OBJ_SENTINEL then mp_obj_dict_get env m index
      else do {
        (r, m) \<leftarrow> mp_obj_dict_store env m index value;
        Some (case r of Inl e \<Rightarrow> Inl e | Inr u \<Rightarrow> Inr none, m) })"

text \<open>\<open>popitem\<close>: the message of the exception is left out.\<close>

definition dict_popitem :: "mp_map_t \<Rightarrow> (mp_obj_t \<times> mp_obj_t) res" where
  "dict_popitem m = do {
     (nxt, cur) \<leftarrow> dict_iter_next m 0;
     case nxt of
       None \<Rightarrow> Some (Inl (KeyError MP_OBJ_NULL), m)
     | Some i \<Rightarrow> do {
         (key, value) \<leftarrow> rd (table m) i;
         t \<leftarrow> wr (table m) i (MP_OBJ_SENTINEL, MP_OBJ_NULL);
         Some (Inr (key, value), m\<lparr>used := used m - 1, table := t\<rparr>) } }"

definition dict_clear :: "mp_map_t \<Rightarrow> mp_map_t" where
  "dict_clear m = mp_map_clear m"

subsection \<open>Whole dictionaries\<close>

definition dict_copy :: "objects \<Rightarrow> mp_map_t \<Rightarrow> (exc + mp_map_t) option" where
  "dict_copy env m =
     (case mp_map_init env (alloc m) of
        Inl e \<Rightarrow> Some (Inl e)
      | Inr other \<Rightarrow> do {
          src \<leftarrow> slice (table m) 0 (alloc m);
          t \<leftarrow> blit (table other) 0 src;
          Some (Inr (other\<lparr>used := used m, all_keys_are_qstrs := all_keys_are_qstrs m, is_fixed := False,
            is_ordered := is_ordered m, table := t\<rparr>)) })"

text \<open>\<open>keys\<close> is what the iterator gives, \<open>len\<close> the length of the argument where it has one.\<close>

fun store_all :: "objects \<Rightarrow> (mp_obj_t \<times> mp_obj_t) list \<Rightarrow> mp_map_t \<Rightarrow> unit res" where
  "store_all env [] m = Some (Inr (), m)"
| "store_all env ((key, value) # es) m = do {
     (r, m) \<leftarrow> mp_obj_dict_store env m key value;
     case r of Inl e \<Rightarrow> Some (Inl e, m) | Inr u \<Rightarrow> store_all env es m }"

definition dict_fromkeys :: "mp_obj_t \<Rightarrow> objects \<Rightarrow> nat option \<Rightarrow> mp_obj_t list \<Rightarrow> mp_obj_t option \<Rightarrow> (exc + mp_map_t) option" where
  "dict_fromkeys none env len keys value =
     (case mp_map_init env (case len of None \<Rightarrow> 0 | Some n \<Rightarrow> n) of
        Inl e \<Rightarrow> Some (Inl e)
      | Inr m \<Rightarrow> do {
          (r, m) \<leftarrow> store_all env (map (\<lambda>key. (key, case value of None \<Rightarrow> none | Some v \<Rightarrow> v)) keys) m;
          Some (case r of Inl e \<Rightarrow> Inl e | Inr u \<Rightarrow> Inr m) })"

text \<open>The entries of another dictionary, one step of its iteration after the other.\<close>

function update_from :: "objects \<Rightarrow> mp_map_t \<Rightarrow> nat \<Rightarrow> mp_map_t \<Rightarrow> unit res" where
  "update_from env other cur m =
     (case dict_iter_next other cur of
        None \<Rightarrow> None
      | Some (None, cur') \<Rightarrow> Some (Inr (), m)
      | Some (Some i, cur') \<Rightarrow> do {
          (key, value) \<leftarrow> rd (table other) i;
          (r, m) \<leftarrow> mp_obj_dict_store env m key value;
          case r of Inl e \<Rightarrow> Some (Inl e, m) | Inr u \<Rightarrow> update_from env other cur' m })"
  by pat_completeness auto
termination
  by (relation "measure (\<lambda>(env, other, cur, m). alloc other - cur)") (auto dest: iter_next_bound)

text \<open>An iterable of pairs: each element is what its own iterator gives.\<close>

fun update_pairs :: "objects \<Rightarrow> mp_obj_t list list \<Rightarrow> mp_map_t \<Rightarrow> unit res" where
  "update_pairs env [] m = Some (Inr (), m)"
| "update_pairs env (xs # xss) m =
     (case xs of
        [key, value] \<Rightarrow> do {
          (r, m) \<leftarrow> mp_obj_dict_store env m key value;
          case r of Inl e \<Rightarrow> Some (Inl e, m) | Inr u \<Rightarrow> update_pairs env xss m }
      | _ \<Rightarrow> Some (Inl ValueError, m))"

fun update_kwargs :: "objects \<Rightarrow> mp_map_t \<Rightarrow> nat list \<Rightarrow> mp_map_t \<Rightarrow> unit res" where
  "update_kwargs env kwargs [] m = Some (Inr (), m)"
| "update_kwargs env kwargs (i # is) m = do {
     f \<leftarrow> MP_MAP_SLOT_IS_FILLED kwargs i;
     if f then do {
       (key, value) \<leftarrow> rd (table kwargs) i;
       (r, m) \<leftarrow> mp_obj_dict_store env m key value;
       case r of Inl e \<Rightarrow> Some (Inl e, m) | Inr u \<Rightarrow> update_kwargs env kwargs is m }
     else update_kwargs env kwargs is m }"

datatype update_arg = SameDict | OtherDict mp_map_t | Pairs "mp_obj_t list list"

text \<open>The positional arguments after \<open>self\<close>, and the keyword arguments.\<close>

definition dict_update :: "objects \<Rightarrow> mp_map_t \<Rightarrow> update_arg list \<Rightarrow> mp_map_t \<Rightarrow> unit res" where
  "dict_update env m args kwargs =
     (if length args > 1 then Some (Inl TypeError, m)
      else do {
        (r, m) \<leftarrow> (case args of
           [] \<Rightarrow> Some (Inr (), m)
         | a # as \<Rightarrow> (case a of
              SameDict \<Rightarrow> Some (Inr (), m)
            | OtherDict other \<Rightarrow> update_from env other 0 m
            | Pairs xss \<Rightarrow> update_pairs env xss m));
        case r of Inl e \<Rightarrow> Some (Inl e, m) | Inr u \<Rightarrow> update_kwargs env kwargs [0..<alloc kwargs] m })"

definition dict_make_new :: "objects \<Rightarrow> bool \<Rightarrow> update_arg list \<Rightarrow> (mp_obj_t \<times> mp_obj_t) list \<Rightarrow> (exc + mp_map_t) option" where
  "dict_make_new env ordereddict args kw =
     (case mp_map_init env 0 of
        Inl e \<Rightarrow> Some (Inl e)
      | Inr m \<Rightarrow>
          let m = (if ordereddict then m\<lparr>is_ordered := True\<rparr> else m) in
          if args \<noteq> [] \<or> kw \<noteq> [] then do {
            (r, m) \<leftarrow> dict_update env m args (mp_map_init_fixed_table (length kw) kw);
            Some (case r of Inl e \<Rightarrow> Inl e | Inr u \<Rightarrow> Inr m) }
          else Some (Inr m))"

subsection \<open>Operators\<close>

definition dict_len :: "mp_map_t \<Rightarrow> nat" where "dict_len m = used m"

definition dict_bool :: "mp_map_t \<Rightarrow> bool" where "dict_bool m \<longleftrightarrow> used m \<noteq> 0"

text \<open>\<open>in\<close> and the comparison; a lookup that raises is the exception of the operator.\<close>

definition dict_in :: "objects \<Rightarrow> mp_map_t \<Rightarrow> mp_obj_t \<Rightarrow> (exc + bool) option" where
  "dict_in env m index = do {
     (r, m) \<leftarrow> mp_map_lookup env m index MP_MAP_LOOKUP;
     Some (case r of Inl e \<Rightarrow> Inl e | Inr elem \<Rightarrow> Inr (elem \<noteq> None)) }"

function equal_from :: "objects \<Rightarrow> mp_map_t \<Rightarrow> nat \<Rightarrow> mp_map_t \<Rightarrow> (exc + bool) option" where
  "equal_from env o1 cur rhs =
     (case dict_iter_next o1 cur of
        None \<Rightarrow> None
      | Some (None, cur') \<Rightarrow> Some (Inr True)
      | Some (Some i, cur') \<Rightarrow> do {
          (key, value) \<leftarrow> rd (table o1) i;
          (r, rhs) \<leftarrow> mp_map_lookup env rhs key MP_MAP_LOOKUP;
          case r of
            Inl e \<Rightarrow> Some (Inl e)
          | Inr None \<Rightarrow> Some (Inr False)
          | Inr (Some elem) \<Rightarrow> do {
              (key', value') \<leftarrow> rd (table rhs) elem;
              if \<not> mp_obj_equal env value value' then Some (Inr False) else equal_from env o1 cur' rhs } })"
  by pat_completeness auto
termination
  by (relation "measure (\<lambda>(env, o1, cur, rhs). alloc o1 - cur)") (auto dest: iter_next_bound)

function equal_ordered :: "objects \<Rightarrow> mp_map_t \<Rightarrow> nat \<Rightarrow> mp_map_t \<Rightarrow> nat \<Rightarrow> bool option" where
  "equal_ordered env o1 c1 rhs c2 =
     (case (dict_iter_next o1 c1, dict_iter_next rhs c2) of
        (Some (Some i, c1'), Some (Some j, c2')) \<Rightarrow> do {
          (k1, v1) \<leftarrow> rd (table o1) i;
          (k2, v2) \<leftarrow> rd (table rhs) j;
          if \<not> mp_obj_equal env k1 k2 \<or> \<not> mp_obj_equal env v1 v2 then Some False
          else equal_ordered env o1 c1' rhs c2' }
      | (Some (e1, c1'), Some (e2, c2')) \<Rightarrow> Some (e1 = None \<and> e2 = None)
      | _ \<Rightarrow> None)"
  by pat_completeness auto
termination
  by (relation "measure (\<lambda>(env, o1, c1, rhs, c2). alloc o1 - c1)") (auto dest: iter_next_bound [OF sym])

declare update_from.simps [simp del] equal_from.simps [simp del] equal_ordered.simps [simp del]

text \<open>The types of the operands: a dictionary, an ordered dictionary, or anything else.\<close>

datatype dict_type = Dict | OrderedDict | NoDict

definition dict_equal :: "objects \<Rightarrow> dict_type \<Rightarrow> mp_map_t \<Rightarrow> dict_type \<Rightarrow> mp_map_t \<Rightarrow> (exc + bool) option" where
  "dict_equal env lhs_type o1 rhs_type rhs =
     (if lhs_type = OrderedDict \<and> rhs_type = OrderedDict then do {
        b \<leftarrow> equal_ordered env o1 0 rhs 0;
        Some (Inr b) }
      else if rhs_type = Dict then
        (if used o1 \<noteq> used rhs then Some (Inr False) else equal_from env o1 0 rhs)
      else Some (Inr False))"

subsection \<open>The operations against the contract of the map\<close>

context lookup_table
begin

lemma get_run:
  assumes m: "ok m" and h: "mp_obj_hash env i \<noteq> None"
  shows "mp_obj_dict_get env m i = Some (case content env m i of None \<Rightarrow> Inl (KeyError i) | Some v \<Rightarrow> Inr v, m)"
proof -
  obtain r where "mp_map_lookup env m i MP_MAP_LOOKUP = Some (Inr r, m)" "slot_holds env m i r"
    using find_law [OF m h] by blast
  then show ?thesis by (cases r) (simp_all add: mp_obj_dict_get_def slot_holds_def rd_in split_beta)
qed

lemma store_run:
  assumes m: "ok m" and h: "mp_obj_hash env i \<noteq> None" and k: "is_key i"
  shows "\<exists>r m'. mp_obj_dict_store env m i v = Some (r, m')
    \<and> (case r of Inl e \<Rightarrow> e = MemoryError \<and> content env m i = None \<and> content env m' = content env m
         \<and> mp_map_lookup env m i MP_MAP_LOOKUP_ADD_IF_NOT_FOUND = Some (Inl e, m')
       | Inr u \<Rightarrow> ok m' \<and> content env m' = (\<lambda>j. if mp_obj_equal env i j then Some v else content env m j))"
proof -
  obtain r m1 where r: "mp_map_lookup env m i MP_MAP_LOOKUP_ADD_IF_NOT_FOUND = Some (r, m1)"
      "case r of Inl e \<Rightarrow> e = MemoryError \<and> content env m i = None \<and> content env m1 = content env m
       | Inr None \<Rightarrow> False | Inr (Some p) \<Rightarrow> slot_added env ok m i p m1"
    using add_law [OF m h k] by blast
  consider (err) "r = Inl MemoryError" | (slot) p where "r = Inr (Some p)"
    using r(2) by (auto split: sum.splits option.splits)
  then show ?thesis
  proof cases
    case err
    then show ?thesis using r by (simp add: mp_obj_dict_store_def)
  next
    case (slot p)
    then have s: "slot_added env ok m i p m1" using r(2) by simp
    then have "p < length (table m1)" by (simp add: slot_added_def)
    then have "mp_obj_dict_store env m i v = Some (Inr (), put_value m1 p v)"
      using r(1) slot by (simp add: mp_obj_dict_store_def set_slot_value)
    then show ?thesis using s by (simp add: slot_added_def)
  qed
qed

lemma remove_helper_run:
  assumes m: "ok m" and h: "mp_obj_hash env i \<noteq> None" and v: "content env m i \<noteq> Some MP_OBJ_NULL"
  shows "\<exists>r m'. dict_get_helper none env m i deflt MP_MAP_LOOKUP_REMOVE_IF_FOUND = Some (r, m') \<and> ok m'
    \<and> (case content env m i of
         None \<Rightarrow> m' = m \<and> r = (case deflt of None \<Rightarrow> Inl (KeyError i) | Some d \<Rightarrow> Inr d)
       | Some w \<Rightarrow> r = Inr w \<and> content env m' = (\<lambda>j. if mp_obj_equal env i j then None else content env m j))"
proof -
  obtain r m1 where r: "mp_map_lookup env m i MP_MAP_LOOKUP_REMOVE_IF_FOUND = Some (Inr r, m1)"
      "case r of None \<Rightarrow> m1 = m \<and> content env m i = None | Some p \<Rightarrow> slot_removed env ok m i p m1"
    using remove_law [OF m h] by blast
  show ?thesis
  proof (cases r)
    case None
    then show ?thesis using r m by (cases deflt) (simp_all add: dict_get_helper_def)
  next
    case (Some p)
    then have s: "slot_removed env ok m i p m1" using r(2) by simp
    then have p: "p < length (table m1)" "content env m i = Some (snd (table m1 ! p))"
      by (simp_all add: slot_removed_def)
    then have "dict_get_helper none env m i deflt MP_MAP_LOOKUP_REMOVE_IF_FOUND
        = Some (Inr (snd (table m1 ! p)), put_value m1 p MP_OBJ_NULL)"
      using r(1) Some v by (simp add: dict_get_helper_def rd_in split_beta set_slot_value)
    then show ?thesis using s p(2) by (simp add: slot_removed_def)
  qed
qed

lemma get_helper_run:
  assumes m: "ok m" and h: "mp_obj_hash env i \<noteq> None" and v: "content env m i \<noteq> Some MP_OBJ_NULL"
  shows "dict_get none env m i deflt
    = Some (Inr (case content env m i of None \<Rightarrow> (case deflt of None \<Rightarrow> none | Some d \<Rightarrow> d) | Some w \<Rightarrow> w), m)"
proof -
  obtain r where "mp_map_lookup env m i MP_MAP_LOOKUP = Some (Inr r, m)" "slot_holds env m i r"
    using find_law [OF m h] by blast
  then show ?thesis using v
    by (cases r) (simp_all add: dict_get_def dict_get_helper_def slot_holds_def rd_in split_beta)
qed

lemma in_run:
  assumes m: "ok m" and h: "mp_obj_hash env i \<noteq> None"
  shows "dict_in env m i = Some (Inr (content env m i \<noteq> None))"
proof -
  obtain r where "mp_map_lookup env m i MP_MAP_LOOKUP = Some (Inr r, m)" "slot_holds env m i r"
    using find_law [OF m h] by blast
  then show ?thesis by (cases r) (simp_all add: dict_in_def slot_holds_def)
qed

end

context robust_table
begin

lemma setdefault_run:
  assumes m: "ok m" and h: "mp_obj_hash env i \<noteq> None" and k: "is_key i" and v: "content env m i \<noteq> Some MP_OBJ_NULL"
  shows "\<exists>r m'. dict_setdefault none env m i deflt = Some (r, m') \<and> ok m'
    \<and> (case content env m i of
         Some w \<Rightarrow> r = Inr w \<and> m' = m
       | None \<Rightarrow> r = Inl MemoryError \<and> content env m' = content env m
           \<or> r = Inr (case deflt of None \<Rightarrow> none | Some d \<Rightarrow> d)
             \<and> content env m' = (\<lambda>j. if mp_obj_equal env i j then Some (case deflt of None \<Rightarrow> none | Some d \<Rightarrow> d)
                 else content env m j))"
proof -
  obtain r m1 where r: "mp_map_lookup env m i MP_MAP_LOOKUP_ADD_IF_NOT_FOUND = Some (r, m1)"
      "case r of Inl e \<Rightarrow> e = MemoryError \<and> content env m i = None \<and> content env m1 = content env m
       | Inr None \<Rightarrow> False | Inr (Some p) \<Rightarrow> slot_added env ok m i p m1"
    using add_law [OF m h k] by blast
  consider (err) "r = Inl MemoryError" | (slot) p where "r = Inr (Some p)"
    using r(2) by (auto split: sum.splits option.splits)
  then show ?thesis
  proof cases
    case err
    then show ?thesis using r error_law [OF m h k] by (simp add: dict_setdefault_def dict_get_helper_def)
  next
    case (slot p)
    then have s: "slot_added env ok m i p m1" using r(2) by simp
    then have p: "p < length (table m1)" by (simp add: slot_added_def)
    show ?thesis
    proof (cases "content env m i")
      case None
      have "snd (table m1 ! p) = MP_OBJ_NULL" using new_law [OF m h k None] r(1) slot by blast
      then have "dict_setdefault none env m i deflt = Some (Inr (case deflt of None \<Rightarrow> none | Some d \<Rightarrow> d),
          put_value m1 p (case deflt of None \<Rightarrow> none | Some d \<Rightarrow> d))"
        using r(1) slot p by (simp add: dict_setdefault_def dict_get_helper_def rd_in split_beta set_slot_value Let_def)
      then show ?thesis using s None by (simp add: slot_added_def)
    next
      case (Some w)
      then have w: "m1 = m" "w = snd (table m ! p)" using s by (simp_all add: slot_added_def)
      then have "dict_setdefault none env m i deflt = Some (Inr w, m)"
        using r(1) slot p Some v by (simp add: dict_setdefault_def dict_get_helper_def rd_in split_beta)
      then show ?thesis using Some m by simp
    qed
  qed
qed

end


subsection \<open>Runs of operations\<close>

datatype dict_cmd = Store mp_obj_t mp_obj_t | Load mp_obj_t | Delete mp_obj_t
  | Pop mp_obj_t "mp_obj_t option" | SetDefault mp_obj_t "mp_obj_t option"

fun cmd_key :: "dict_cmd \<Rightarrow> mp_obj_t" where
  "cmd_key (Store k v) = k" | "cmd_key (Load k) = k" | "cmd_key (Delete k) = k"
| "cmd_key (Pop k d) = k" | "cmd_key (SetDefault k d) = k"

definition plain_result :: "mp_obj_t \<Rightarrow> exc + unit \<Rightarrow> exc + mp_obj_t" where
  "plain_result none r = (case r of Inl e \<Rightarrow> Inl e | Inr u \<Rightarrow> Inr none)"

fun run_cmd :: "mp_obj_t \<Rightarrow> objects \<Rightarrow> mp_map_t \<Rightarrow> dict_cmd \<Rightarrow> mp_obj_t res" where
  "run_cmd none env m (Store k v) = do { (r, m) \<leftarrow> mp_obj_dict_store env m k v; Some (plain_result none r, m) }"
| "run_cmd none env m (Load k) = mp_obj_dict_get env m k"
| "run_cmd none env m (Delete k) = do { (r, m) \<leftarrow> mp_obj_dict_delete none env m k; Some (plain_result none r, m) }"
| "run_cmd none env m (Pop k d) = dict_pop none env m k d"
| "run_cmd none env m (SetDefault k d) = dict_setdefault none env m k d"

fun run_cmds :: "mp_obj_t \<Rightarrow> objects \<Rightarrow> mp_map_t \<Rightarrow> dict_cmd list \<Rightarrow> ((exc + mp_obj_t) list \<times> mp_map_t) option" where
  "run_cmds none env m [] = Some ([], m)"
| "run_cmds none env m (c # cs) = do {
     (r, m) \<leftarrow> run_cmd none env m c;
     (rs, m) \<leftarrow> run_cmds none env m cs;
     Some (r # rs, m) }"

text \<open>
  What a map from keys to values answers: \<open>E\<close> is the equality of keys, a memory error leaves the
  map as it is.
\<close>

definition upd :: "(mp_obj_t \<Rightarrow> mp_obj_t \<Rightarrow> bool) \<Rightarrow> (mp_obj_t \<Rightarrow> mp_obj_t option) \<Rightarrow> mp_obj_t \<Rightarrow> mp_obj_t option
    \<Rightarrow> mp_obj_t \<Rightarrow> mp_obj_t option" where
  "upd E M k v = (\<lambda>j. if E k j then v else M j)"

inductive answers :: "mp_obj_t \<Rightarrow> (mp_obj_t \<Rightarrow> mp_obj_t \<Rightarrow> bool) \<Rightarrow> (mp_obj_t \<Rightarrow> mp_obj_t option) \<Rightarrow> dict_cmd
    \<Rightarrow> exc + mp_obj_t \<Rightarrow> (mp_obj_t \<Rightarrow> mp_obj_t option) \<Rightarrow> bool" for none E M where
  stored: "answers none E M (Store k v) (Inr none) (upd E M k (Some v))"
| no_room: "M k = None \<Longrightarrow> answers none E M (Store k v) (Inl MemoryError) M"
| loaded: "M k = Some v \<Longrightarrow> answers none E M (Load k) (Inr v) M"
| not_loaded: "M k = None \<Longrightarrow> answers none E M (Load k) (Inl (KeyError k)) M"
| deleted: "M k = Some v \<Longrightarrow> answers none E M (Delete k) (Inr none) (upd E M k None)"
| not_deleted: "M k = None \<Longrightarrow> answers none E M (Delete k) (Inl (KeyError k)) M"
| popped: "M k = Some v \<Longrightarrow> answers none E M (Pop k d) (Inr v) (upd E M k None)"
| not_popped: "M k = None \<Longrightarrow> answers none E M (Pop k d) (case d of None \<Rightarrow> Inl (KeyError k) | Some v \<Rightarrow> Inr v) M"
| found: "M k = Some v \<Longrightarrow> answers none E M (SetDefault k d) (Inr v) M"
| added: "M k = None \<Longrightarrow> v = (case d of None \<Rightarrow> none | Some v \<Rightarrow> v) \<Longrightarrow>
    answers none E M (SetDefault k d) (Inr v) (upd E M k (Some v))"
| not_added: "M k = None \<Longrightarrow> answers none E M (SetDefault k d) (Inl MemoryError) M"

inductive behaves :: "mp_obj_t \<Rightarrow> (mp_obj_t \<Rightarrow> mp_obj_t \<Rightarrow> bool) \<Rightarrow> (mp_obj_t \<Rightarrow> mp_obj_t option) \<Rightarrow> dict_cmd list
    \<Rightarrow> (exc + mp_obj_t) list \<Rightarrow> (mp_obj_t \<Rightarrow> mp_obj_t option) \<Rightarrow> bool" for none E where
  finished: "behaves none E M [] [] M"
| step: "answers none E M c r M' \<Longrightarrow> behaves none E M' cs rs M'' \<Longrightarrow> behaves none E M (c # cs) (r # rs) M''"

inductive_cases answersE: "answers none E M c r M'"
inductive_simps behaves_Nil [simp]: "behaves none E M [] rs M'"
inductive_simps behaves_Cons: "behaves none E M (c # cs) rs M'"

text \<open>The keys have a hash; the null object is neither key nor value.\<close>

fun cmd_ok :: "objects \<Rightarrow> dict_cmd \<Rightarrow> bool" where
  "cmd_ok env c \<longleftrightarrow> mp_obj_hash env (cmd_key c) \<noteq> None \<and> is_key (cmd_key c)
   \<and> (case c of Store k v \<Rightarrow> v \<noteq> MP_OBJ_NULL | SetDefault k d \<Rightarrow> d \<noteq> Some MP_OBJ_NULL | _ \<Rightarrow> True)"

definition no_null :: "(mp_obj_t \<Rightarrow> mp_obj_t option) \<Rightarrow> bool" where
  "no_null M \<longleftrightarrow> (\<forall>i. M i \<noteq> Some MP_OBJ_NULL)"

lemma answers_no_null:
  "answers none E M c r M' \<Longrightarrow> no_null M \<Longrightarrow> cmd_ok env c \<Longrightarrow> none \<noteq> MP_OBJ_NULL \<Longrightarrow> no_null M'"
  by (erule answersE) (auto simp: no_null_def upd_def split: option.splits)

context robust_table
begin

lemma cmd_refines:
  assumes m: "ok m" and n: "no_null (content env m)" and c: "cmd_ok env c"
  shows "\<exists>r m'. run_cmd none env m c = Some (r, m') \<and> ok m' \<and> answers none (mp_obj_equal env) (content env m) c r (content env m')"
proof (cases c)
  case (Store k v)
  have k: "mp_obj_hash env k \<noteq> None" "is_key k" using c Store by simp_all
  obtain r m' where r: "mp_obj_dict_store env m k v = Some (r, m')"
      "case r of Inl e \<Rightarrow> e = MemoryError \<and> content env m k = None \<and> content env m' = content env m
         \<and> mp_map_lookup env m k MP_MAP_LOOKUP_ADD_IF_NOT_FOUND = Some (Inl e, m')
       | Inr u \<Rightarrow> ok m' \<and> content env m' = (\<lambda>j. if mp_obj_equal env k j then Some v else content env m j)"
    using store_run [OF m k] by blast
  show ?thesis
  proof (cases r)
    case (Inl e)
    then have "ok m'" using error_law [OF m k] r(2) by simp
    then show ?thesis using r Inl Store no_room by (simp add: plain_result_def)
  next
    case (Inr u)
    then show ?thesis using r Store stored [of none "mp_obj_equal env" "content env m" k v]
      by (simp add: plain_result_def upd_def)
  qed
next
  case (Load k)
  then have "mp_obj_hash env k \<noteq> None" using c by simp
  then show ?thesis using get_run [OF m] m Load by (cases "content env m k") (simp_all add: loaded not_loaded)
next
  case (Delete k)
  have k: "mp_obj_hash env k \<noteq> None" and v: "content env m k \<noteq> Some MP_OBJ_NULL"
    using c Delete n by (simp_all add: no_null_def)
  show ?thesis
    using remove_helper_run [OF m k v, of none None] Delete
      deleted [of "content env m" k _ none "mp_obj_equal env"] not_deleted [of "content env m" k]
    by (cases "content env m k") (auto simp: mp_obj_dict_delete_def plain_result_def upd_def)
next
  case (Pop k d)
  have k: "mp_obj_hash env k \<noteq> None" and v: "content env m k \<noteq> Some MP_OBJ_NULL"
    using c Pop n by (simp_all add: no_null_def)
  show ?thesis
    using remove_helper_run [OF m k v, of none d] Pop
      popped [of "content env m" k _ none "mp_obj_equal env"] not_popped [of "content env m" k none "mp_obj_equal env" d]
    by (cases "content env m k") (auto simp: dict_pop_def upd_def)
next
  case (SetDefault k d)
  have k: "mp_obj_hash env k \<noteq> None" "is_key k" and v: "content env m k \<noteq> Some MP_OBJ_NULL"
    using c SetDefault n by (simp_all add: no_null_def)
  obtain r m' where r: "dict_setdefault none env m k d = Some (r, m')" "ok m'"
      "case content env m k of
         Some w \<Rightarrow> r = Inr w \<and> m' = m
       | None \<Rightarrow> r = Inl MemoryError \<and> content env m' = content env m
           \<or> r = Inr (case d of None \<Rightarrow> none | Some d \<Rightarrow> d)
             \<and> content env m' = (\<lambda>j. if mp_obj_equal env k j then Some (case d of None \<Rightarrow> none | Some d \<Rightarrow> d)
                 else content env m j)"
    using setdefault_run [OF m k v] by blast
  have "answers none (mp_obj_equal env) (content env m) (SetDefault k d) r (content env m')"
  proof (cases "content env m k")
    case None
    then show ?thesis
      using r(3) None not_added [of "content env m" k none "mp_obj_equal env" d]
        added [where M = "content env m" and k = k and d = d and none = none and E = "mp_obj_equal env"] by (auto simp: upd_def)
  next
    case (Some w)
    then show ?thesis using r(3) Some found [of "content env m" k w] by simp
  qed
  then show ?thesis using r SetDefault by simp
qed

lemma cmds_refine:
  assumes "ok m" and "no_null (content env m)" and "list_all (cmd_ok env) cs" and nn: "none \<noteq> MP_OBJ_NULL"
  shows "\<exists>rs m'. run_cmds none env m cs = Some (rs, m') \<and> ok m'
    \<and> behaves none (mp_obj_equal env) (content env m) cs rs (content env m')"
  using assms(1-3)
proof (induction cs arbitrary: m)
  case (Cons c cs)
  have c: "cmd_ok env c" "list_all (cmd_ok env) cs" using Cons.prems(3) by (simp_all del: cmd_ok.simps)
  obtain r m1 where r: "run_cmd none env m c = Some (r, m1)" "ok m1"
      "answers none (mp_obj_equal env) (content env m) c r (content env m1)"
    using cmd_refines [OF Cons.prems(1,2) c(1)] by blast
  have n: "no_null (content env m1)" by (rule answers_no_null [OF r(3) Cons.prems(2) c(1) nn])
  obtain rs m' where rs: "run_cmds none env m1 cs = Some (rs, m')" "ok m'"
      "behaves none (mp_obj_equal env) (content env m1) cs rs (content env m')"
    using Cons.IH [OF r(2) n c(2)] by blast
  have "run_cmds none env m (c # cs) = Some (r # rs, m')" using r(1) rs(1) by simp
  then show ?case using rs(2) behaves.step [OF r(3) rs(3)] by blast
qed simp

end

subsection \<open>Iteration over all entries\<close>

lemma next_filled_run:
  assumes "alloc m = length (table m)" and "cur \<le> alloc m"
  shows "(next_filled m [cur..<alloc m] = Some None \<and> real_entries (drop cur (table m)) = [])
    \<or> (\<exists>i. next_filled m [cur..<alloc m] = Some (Some i) \<and> cur \<le> i \<and> i < alloc m \<and> is_key (fst (table m ! i))
        \<and> real_entries (drop cur (table m)) = table m ! i # real_entries (drop (i + 1) (table m)))"
  using assms(2)
proof (induction "alloc m - cur" arbitrary: cur)
  case 0
  then show ?case using assms(1) by simp
next
  case (Suc n)
  have c: "cur < alloc m" and l: "cur < length (table m)" using Suc.hyps(2) assms(1) by simp_all
  have up: "[cur..<alloc m] = cur # [Suc cur..<alloc m]" using c by (simp add: upt_conv_Cons)
  have d: "drop cur (table m) = table m ! cur # drop (Suc cur) (table m)" using l by (simp add: Cons_nth_drop_Suc)
  have f: "MP_MAP_SLOT_IS_FILLED m cur = Some (is_key (fst (table m ! cur)))"
    using l by (simp add: MP_MAP_SLOT_IS_FILLED_def rd_in split_beta is_key_def)
  show ?case
  proof (cases "is_key (fst (table m ! cur))")
    case True
    then show ?thesis using f c d unfolding up by (intro disjI2 exI [of _ cur]) simp
  next
    case False
    then have "next_filled m [cur..<alloc m] = next_filled m [Suc cur..<alloc m]"
      "real_entries (drop cur (table m)) = real_entries (drop (Suc cur) (table m))"
      using f d unfolding up by simp_all
    moreover have "n = alloc m - Suc cur" "Suc cur \<le> alloc m" using Suc.hyps(2) c by simp_all
    ultimately show ?thesis using Suc.hyps(1) [of "Suc cur"] Suc_leD by metis
  qed
qed

lemma iter_next_cases:
  assumes "alloc m = length (table m)" and "cur \<le> alloc m"
  obtains "dict_iter_next m cur = Some (None, cur)" "real_entries (drop cur (table m)) = []"
    | i where "dict_iter_next m cur = Some (Some i, i + 1)" "cur \<le> i" "i < alloc m" "is_key (fst (table m ! i))"
      "real_entries (drop cur (table m)) = table m ! i # real_entries (drop (i + 1) (table m))"
  using next_filled_run [OF assms] by (auto simp: dict_iter_next_def)

lemma update_from_all:
  assumes l: "alloc other = length (table other)" and "cur \<le> alloc other"
  shows "update_from env other cur m = store_all env (real_entries (drop cur (table other))) m"
  using assms(2)
proof (induction "alloc other - cur" arbitrary: cur m rule: less_induct)
  case less
  show ?case
  proof (cases rule: iter_next_cases [OF l less.prems])
    case 1
    then show ?thesis by (simp add: update_from.simps)
  next
    case (2 i)
    obtain k v where kv: "table other ! i = (k, v)" by (cases "table other ! i")
    have IH: "update_from env other (i + 1) m' = store_all env (real_entries (drop (i + 1) (table other))) m'" for m'
      using 2(2,3) by (intro less.hyps) simp_all
    have "rd (table other) i = Some (k, v)" using 2(3) l kv by (simp add: rd_in)
    then show ?thesis
      using 2(1,5) kv IH by (subst update_from.simps) (simp split: bind_splits sum.splits)
  qed
qed

lemma update_kwargs_all:
  assumes "alloc kw = length (table kw)" and "cur \<le> alloc kw"
  shows "update_kwargs env kw [cur..<alloc kw] m = store_all env (real_entries (drop cur (table kw))) m"
  using assms(2)
proof (induction "alloc kw - cur" arbitrary: cur m)
  case 0
  then show ?case using assms(1) by simp
next
  case (Suc n)
  have c: "cur < alloc kw" and l: "cur < length (table kw)" using Suc.hyps(2) assms(1) by simp_all
  have up: "[cur..<alloc kw] = cur # [Suc cur..<alloc kw]" using c by (simp add: upt_conv_Cons)
  obtain k v where kv: "table kw ! cur = (k, v)" by (cases "table kw ! cur")
  have d: "drop cur (table kw) = (k, v) # drop (Suc cur) (table kw)" using l kv by (simp add: Cons_nth_drop_Suc [symmetric])
  have f: "MP_MAP_SLOT_IS_FILLED kw cur = Some (is_key k)" "rd (table kw) cur = Some (k, v)"
    using l kv by (simp_all add: MP_MAP_SLOT_IS_FILLED_def rd_in is_key_def)
  have IH: "update_kwargs env kw [Suc cur..<alloc kw] m' = store_all env (real_entries (drop (Suc cur) (table kw))) m'" for m'
    using Suc.hyps c by simp
  show ?case unfolding up using f IH by (simp add: d split: bind_splits sum.splits)
qed

lemma fixed_table_all:
  "update_kwargs env (mp_map_init_fixed_table (length kw) kw) [0..<length kw] m = store_all env (real_entries kw) m"
  using update_kwargs_all [of "mp_map_init_fixed_table (length kw) kw" 0 env m] by (simp add: mp_map_init_fixed_table_def)

context lookup_table
begin

lemma store_all_run:
  assumes "ok m" and "\<forall>e \<in> set es. mp_obj_hash env (fst e) \<noteq> None \<and> is_key (fst e)"
  shows "\<exists>r m'. store_all env es m = Some (r, m')
    \<and> (case r of Inl e \<Rightarrow> e = MemoryError
       | Inr u \<Rightarrow> ok m' \<and> content env m' = (\<lambda>i. case content_of env (rev es) i of None \<Rightarrow> content env m i | Some v \<Rightarrow> Some v))"
  using assms
proof (induction es arbitrary: m)
  case (Cons e es)
  obtain k v where e: "e = (k, v)" by (cases e)
  have k: "mp_obj_hash env k \<noteq> None" "is_key k" using Cons.prems(2) by (simp_all add: e)
  obtain r m1 where r: "mp_obj_dict_store env m k v = Some (r, m1)"
      "case r of Inl e \<Rightarrow> e = MemoryError \<and> content env m k = None \<and> content env m1 = content env m
         \<and> mp_map_lookup env m k MP_MAP_LOOKUP_ADD_IF_NOT_FOUND = Some (Inl e, m1)
       | Inr u \<Rightarrow> ok m1 \<and> content env m1 = (\<lambda>j. if mp_obj_equal env k j then Some v else content env m j)"
    using store_run [OF Cons.prems(1) k] by blast
  show ?case
  proof (cases r)
    case (Inl x)
    then show ?thesis using r by (simp add: e)
  next
    case (Inr u)
    then have m1: "ok m1" "content env m1 = (\<lambda>j. if mp_obj_equal env k j then Some v else content env m j)" using r(2) by simp_all
    obtain r' m' where r': "store_all env es m1 = Some (r', m')"
        "case r' of Inl e \<Rightarrow> e = MemoryError
         | Inr u \<Rightarrow> ok m' \<and> content env m' = (\<lambda>i. case content_of env (rev es) i of None \<Rightarrow> content env m1 i | Some v \<Rightarrow> Some v)"
      using Cons.IH [OF m1(1)] Cons.prems(2) by auto
    have "store_all env (e # es) m = Some (r', m')" using r(1) Inr r'(1) by (simp add: e)
    moreover have "(case content_of env (rev es) i of None \<Rightarrow> content env m1 i | Some v \<Rightarrow> Some v)
        = (case content_of env (rev (e # es)) i of None \<Rightarrow> content env m i | Some v \<Rightarrow> Some v)" for i
      using k(2) by (simp add: m1(2) e content_of_append split: option.split)
    ultimately show ?thesis using r'(2) by (intro exI [of _ r'] exI [of _ m']) (simp split: sum.splits)
  qed
qed simp

end

context object_keys
begin

lemma content_of_rev: "key_distinct env es \<Longrightarrow> key_distinct env (rev es) \<and> content_of env (rev es) = content_of env es"
proof
  assume kd: "key_distinct env es"
  have sym: "\<not> mp_obj_equal env a b" if "\<not> mp_obj_equal env b a" for a b using that equal_sym by blast
  show kr: "key_distinct env (rev es)"
    using kd by (induction es) (auto simp: key_distinct_append sym)
  show "content_of env (rev es) = content_of env es"
  proof
    fix i
    have "content_of env (rev es) i = Some v \<longleftrightarrow> content_of env es i = Some v" for v
      by (simp add: content_of_Some [OF kr] content_of_Some [OF kd])
    then show "content_of env (rev es) i = content_of env es i" by (metis option.exhaust)
  qed
qed

lemma content_of_real: "content_of env (real_entries es) = content_of env es"
  by (rule ext) (induction es, auto)

lemma key_distinct_real: "key_distinct env es \<Longrightarrow> key_distinct env (real_entries es)"
  by (induction es) auto

lemma real_hash:
  assumes "map_ok env m" and "e \<in> set (real_entries (table m))"
  shows "mp_obj_hash env (fst e) \<noteq> None"
proof -
  obtain p where p: "p < length (table m)" "table m ! p = e" "is_key (fst e)" using assms(2) by (auto simp: in_set_conv_nth)
  then have "slot_filled (map_keys m) p" "map_keys m ! p = fst e" by (auto simp: slot_filled_def is_key_def map_keys_def)
  then show ?thesis using assms(1) by (metis map_ok_def table_ok_def)
qed

lemma update_merges_run:
  assumes "map_ok env m" and "map_ok env other"
  shows "\<exists>r m'. dict_update env m [OtherDict other] (mp_map_init_fixed_table 0 []) = Some (r, m')
    \<and> (case r of Inl e \<Rightarrow> e = MemoryError
       | Inr u \<Rightarrow> map_ok env m'
           \<and> content env m' = (\<lambda>i. case content env other i of None \<Rightarrow> content env m i | Some v \<Rightarrow> Some v))"
proof -
  have l: "alloc other = length (table other)" using assms(2) by (simp add: map_ok_def)
  let ?es = "real_entries (table other)"
  obtain r m' where r: "store_all env ?es m = Some (r, m')"
      "case r of Inl e \<Rightarrow> e = MemoryError
       | Inr u \<Rightarrow> map_ok env m' \<and> content env m' = (\<lambda>i. case content_of env (rev ?es) i of None \<Rightarrow> content env m i | Some v \<Rightarrow> Some v)"
    using hash.store_all_run [OF assms(1), of ?es] real_hash [OF assms(2)] by auto
  have "content_of env (rev ?es) = content env other"
    using content_of_rev [OF key_distinct_real [OF map_distinct [OF assms(2)]]] by (simp add: content_of_real content_def)
  moreover have "dict_update env m [OtherDict other] (mp_map_init_fixed_table 0 []) = Some (r, m')"
    using r(1) update_from_all [OF l, of 0 env m]
    by (cases r) (simp_all add: dict_update_def mp_map_init_fixed_table_def)
  ultimately show ?thesis using r(2) by (cases r) simp_all
qed

end

text \<open>
  Updating a dictionary with another one gives, for every key, the value of the other dictionary
  where it has the key and the old value elsewhere; nothing but a memory error can come in between.
\<close>

theorem update_merges:
  assumes "object_keys env" and "map_ok env m" and "map_ok env other"
  shows "\<exists>r m'. dict_update env m [OtherDict other] (mp_map_init_fixed_table 0 []) = Some (r, m')
    \<and> (case r of Inl e \<Rightarrow> e = MemoryError
       | Inr u \<Rightarrow> map_ok env m'
           \<and> content env m' = (\<lambda>i. case content env other i of None \<Rightarrow> content env m i | Some v \<Rightarrow> Some v))"
  by (rule object_keys.update_merges_run [OF assms])

subsection \<open>Comparison\<close>

definition same_value :: "objects \<Rightarrow> mp_map_t \<Rightarrow> mp_obj_t \<times> mp_obj_t \<Rightarrow> bool" where
  "same_value env rhs e \<longleftrightarrow> (case content env rhs (fst e) of None \<Rightarrow> False | Some v \<Rightarrow> mp_obj_equal env (snd e) v)"

definition same_content :: "objects \<Rightarrow> mp_map_t \<Rightarrow> mp_map_t \<Rightarrow> bool" where
  "same_content env m m' \<longleftrightarrow> (\<forall>i. rel_option (mp_obj_equal env) (content env m i) (content env m' i))"

context object_keys
begin

lemma equal_from_run:
  assumes l: "alloc o1 = length (table o1)" and rhs: "map_ok env rhs"
    and h: "\<forall>e \<in> set (real_entries (table o1)). mp_obj_hash env (fst e) \<noteq> None" and "cur \<le> alloc o1"
  shows "equal_from env o1 cur rhs = Some (Inr (\<forall>e \<in> set (real_entries (drop cur (table o1))). same_value env rhs e))"
  using assms(4)
proof (induction "alloc o1 - cur" arbitrary: cur rule: less_induct)
  case less
  show ?case
  proof (cases rule: iter_next_cases [OF l less.prems])
    case 1
    then show ?thesis by (simp add: equal_from.simps)
  next
    case (2 i)
    obtain k v where kv: "table o1 ! i = (k, v)" by (cases "table o1 ! i")
    have il: "i < length (table o1)" using 2(3) l by simp
    have IH: "equal_from env o1 (i + 1) rhs = Some (Inr (\<forall>e \<in> set (real_entries (drop (i + 1) (table o1))). same_value env rhs e))"
      using 2(2,3) by (intro less.hyps) simp_all
    have rdi: "rd (table o1) i = Some (k, v)" using il kv by (simp add: rd_in)
    have "(k, v) \<in> set (table o1)" using il kv by (metis nth_mem)
    then have "mp_obj_hash env k \<noteq> None" using h 2(4) kv by auto
    then obtain r where r: "mp_map_lookup env rhs k MP_MAP_LOOKUP = Some (Inr r, rhs)" "slot_holds env rhs k r"
      using hash_find [OF rhs] by blast
    show ?thesis
    proof (cases r)
      case None
      then show ?thesis using 2(1,5) kv rdi r
        by (subst equal_from.simps) (simp add: same_value_def slot_holds_def)
    next
      case (Some p)
      then have p: "rd (table rhs) p = Some (table rhs ! p)" "content env rhs k = Some (snd (table rhs ! p))"
        using r(2) by (simp_all add: slot_holds_def rd_in)
      show ?thesis using 2(1,5) kv rdi r(1) Some p IH
        by (subst equal_from.simps) (simp add: same_value_def split_beta)
    qed
  qed
qed

text \<open>Two tables with pairwise different keys: a map of the entries that keeps the keys.\<close>

lemma matching:
  assumes kd: "key_distinct env xs" and k: "\<forall>e \<in> set xs. is_key (fst e)"
    and f: "\<forall>e \<in> set xs. f e \<in> set ys \<and> mp_obj_equal env (fst e) (fst (f e))"
  shows "inj_on f (set xs)"
proof (rule inj_onI)
  fix d e assume de: "d \<in> set xs" "e \<in> set xs" "f d = f e"
  have "mp_obj_equal env (fst d) (fst e)" using f de equal_sym equal_trans by metis
  moreover obtain p q where "p < length xs" "xs ! p = d" "q < length xs" "xs ! q = e" using de by (auto simp: in_set_conv_nth)
  ultimately show "d = e"
    using key_distinctD [OF kd, of p q] key_distinctD [OF kd, of q p] k de(1,2) equal_sym
    by (cases p q rule: linorder_cases) metis+
qed

lemma distinct_entries: "key_distinct env xs \<Longrightarrow> \<forall>e \<in> set xs. is_key (fst e) \<Longrightarrow> distinct xs"
  using equal_refl by (induction xs) auto

lemma equal_count:
  assumes kd: "key_distinct env xs" "key_distinct env ys" and k: "\<forall>e \<in> set xs. is_key (fst e)" "\<forall>e \<in> set ys. is_key (fst e)"
    and c: "\<forall>e \<in> set xs. content_of env ys (fst e) \<noteq> None"
  shows "length xs \<le> length ys" and "length xs = length ys \<Longrightarrow> \<forall>e \<in> set ys. content_of env xs (fst e) \<noteq> None"
proof -
  have ex: "\<forall>e \<in> set xs. \<exists>e'. e' \<in> set ys \<and> mp_obj_equal env (fst e) (fst e')"
    using c equal_sym unfolding content_of_None by blast
  then obtain f where f: "\<forall>e \<in> set xs. f e \<in> set ys \<and> mp_obj_equal env (fst e) (fst (f e))" by metis
  have inj: "inj_on f (set xs)" by (rule matching [OF kd(1) k(1) f])
  have sub: "f ` set xs \<subseteq> set ys" using f by blast
  have len: "card (set xs) = length xs" "card (set ys) = length ys"
    using distinct_card [OF distinct_entries [OF kd(1) k(1)]] distinct_card [OF distinct_entries [OF kd(2) k(2)]] by simp_all
  show "length xs \<le> length ys" using card_inj_on_le [OF inj sub] len by simp
  assume "length xs = length ys"
  then have "f ` set xs = set ys" using sub inj len by (intro card_subset_eq) (simp_all add: card_image)
  show "\<forall>e \<in> set ys. content_of env xs (fst e) \<noteq> None"
  proof
    fix e assume "e \<in> set ys"
    then obtain d where "d \<in> set xs" "e = f d" using \<open>f ` set xs = set ys\<close> by blast
    then show "content_of env xs (fst e) \<noteq> None" using f k(1) unfolding content_of_None by blast
  qed
qed

lemma same_content_iff:
  assumes kd: "key_distinct env (table o1)" "key_distinct env (table rhs)"
    and u: "used o1 = length (real_entries (table o1))" "used rhs = length (real_entries (table rhs))"
  shows "(used o1 = used rhs \<and> (\<forall>e \<in> set (real_entries (table o1)). same_value env rhs e)) = same_content env o1 rhs"
    (is "?L = ?R")
proof -
  let ?xs = "real_entries (table o1)" and ?ys = "real_entries (table rhs)"
  have kx: "key_distinct env ?xs" "\<forall>e \<in> set ?xs. is_key (fst e)" and ky: "key_distinct env ?ys" "\<forall>e \<in> set ?ys. is_key (fst e)"
    using key_distinct_real kd by auto
  have cx: "content_of env ?xs = content env o1" and cy: "content_of env ?ys = content env rhs"
    by (simp_all add: content_of_real content_def)
  have mem: "content env o1 i = Some (snd e)" if "e \<in> set ?xs" "mp_obj_equal env (fst e) i" for i e
    unfolding cx [symmetric] content_of_Some [OF kx(1)] using that by (intro exI [of _ "fst e"]) simp
  have ex: "\<exists>e. e \<in> set ?xs \<and> mp_obj_equal env (fst e) i \<and> snd e = v" if c: "content env o1 i = Some v" for i v
  proof -
    obtain k where "(k, v) \<in> set ?xs" "mp_obj_equal env k i"
      using c unfolding cx [symmetric] content_of_Some [OF kx(1)] by blast
    then show ?thesis by (intro exI [of _ "(k, v)"]) simp
  qed
  have cong: "content env rhs i = content env rhs j" if "mp_obj_equal env i j" for i j
  proof -
    have "content env rhs i = Some w \<longleftrightarrow> content env rhs j = Some w" for w
      unfolding content_Some [OF kd(2)] using that equal_sym equal_trans by blast
    then show ?thesis by (metis not_None_eq)
  qed
  show ?thesis
  proof
    assume L: ?L
    have lu: "length ?xs = length ?ys" using L u by linarith
    have sv: "same_value env rhs e" if "e \<in> set ?xs" for e using L that by blast
    have "\<forall>e \<in> set ?xs. content_of env ?ys (fst e) \<noteq> None"
    proof
      fix e assume "e \<in> set ?xs"
      then have "same_value env rhs e" by (rule sv)
      then show "content_of env ?ys (fst e) \<noteq> None" unfolding same_value_def cy by (cases "content env rhs (fst e)") simp_all
    qed
    then have covered: "\<forall>e \<in> set ?ys. content_of env ?xs (fst e) \<noteq> None"
      by (rule equal_count(2) [OF kx(1) ky(1) kx(2) ky(2) _ lu])
    show ?R
      unfolding same_content_def
    proof
      fix i
      show "rel_option (mp_obj_equal env) (content env o1 i) (content env rhs i)"
      proof (cases "content env o1 i")
        case (Some v)
        then obtain e where e: "e \<in> set ?xs" "mp_obj_equal env (fst e) i" "snd e = v" using ex by blast
        have "same_value env rhs e" by (rule sv [OF e(1)])
        then show ?thesis using cong [OF e(2)] e(3) Some unfolding same_value_def
          by (cases "content env rhs i") simp_all
      next
        case None
        have "content env rhs i = None"
        proof (rule ccontr)
          assume "content env rhs i \<noteq> None"
          then obtain e where "e \<in> set ?ys" "mp_obj_equal env (fst e) i"
            unfolding cy [symmetric] content_of_None by blast
          then obtain d where d: "d \<in> set ?xs" "mp_obj_equal env (fst d) (fst e)" "mp_obj_equal env (fst e) i"
            using covered unfolding content_of_None by blast
          have "content env o1 i = Some (snd d)" by (rule mem [OF d(1) equal_trans [OF d(2,3)]])
          then show False using None by simp
        qed
        then show ?thesis using None by simp
      qed
    qed
  next
    assume R: ?R
    have rel: "rel_option (mp_obj_equal env) (content env o1 i) (content env rhs i)" for i
      using R by (simp add: same_content_def)
    have sv: "same_value env rhs e" if "e \<in> set ?xs" for e
    proof -
      have "content env o1 (fst e) = Some (snd e)" by (rule mem [OF that equal_refl])
      then show ?thesis using rel [of "fst e"] unfolding same_value_def by (cases "content env rhs (fst e)") simp_all
    qed
    have "\<forall>e \<in> set ?xs. content_of env ?ys (fst e) \<noteq> None"
    proof
      fix e assume "e \<in> set ?xs"
      then have "same_value env rhs e" by (rule sv)
      then show "content_of env ?ys (fst e) \<noteq> None" unfolding same_value_def cy by (cases "content env rhs (fst e)") simp_all
    qed
    then have 1: "length ?xs \<le> length ?ys" by (rule equal_count(1) [OF kx(1) ky(1) kx(2) ky(2)])
    have "\<forall>e \<in> set ?ys. content_of env ?xs (fst e) \<noteq> None"
    proof
      fix e assume that: "e \<in> set ?ys"
      have "is_key (fst e)" using ky(2) that by blast
      moreover have "(fst e, snd e) \<in> set ?ys" using that by (simp only: prod.collapse)
      ultimately have "content_of env ?ys (fst e) = Some (snd e)"
        unfolding content_of_Some [OF ky(1)] using equal_refl by blast
      then have "content env rhs (fst e) = Some (snd e)" by (simp only: cy)
      then show "content_of env ?xs (fst e) \<noteq> None" using rel [of "fst e"] unfolding cx by (cases "content env o1 (fst e)") simp_all
    qed
    then have "length ?ys \<le> length ?xs" by (rule equal_count(1) [OF ky(1) kx(1) ky(2) kx(2)])
    then have "length ?xs = length ?ys" using 1 by (intro le_antisym)
    then have "used o1 = used rhs" unfolding u .
    moreover have "\<forall>e \<in> set ?xs. same_value env rhs e" using sv by (intro ballI)
    ultimately show ?L by (rule conjI)
  qed
qed

lemma dict_equal_run:
  assumes "map_ok env o1" and "map_ok env rhs"
  shows "dict_equal env Dict o1 Dict rhs = Some (Inr (same_content env o1 rhs))"
proof -
  have l: "alloc o1 = length (table o1)" using assms(1) by (simp add: map_ok_def)
  have "equal_from env o1 0 rhs = Some (Inr (\<forall>e \<in> set (real_entries (table o1)). same_value env rhs e))"
    using equal_from_run [OF l assms(2), of 0] real_hash [OF assms(1)] by simp
  then show ?thesis
    using same_content_iff [OF map_distinct [OF assms(1)] map_distinct [OF assms(2)]] used_filter [OF assms(1)] used_filter [OF assms(2)]
    by (auto simp: dict_equal_def)
qed

end

text \<open>
  C14. Comparing two dictionaries says whether they have equal keys with equal values, whatever the
  sizes of their tables and the order of their entries.
\<close>

theorem comparison_by_content:
  assumes "object_keys env" and "map_ok env o1" and "map_ok env rhs"
  shows "dict_equal env Dict o1 Dict rhs = Some (Inr (same_content env o1 rhs))"
  by (rule object_keys.dict_equal_run [OF assms])

subsection \<open>Dictionaries as maps\<close>

lemma init_ok:
  assumes "mp_map_init env n = Inr m"
  shows "map_ok env m" and "content env m = (\<lambda>i. None)"
proof -
  have m: "table m = new0 n" "alloc m = n" "used m = 0" "\<not> is_ordered m" "\<not> is_fixed m"
    using assms by (auto simp: mp_map_init_def new0_def split: if_splits)
  have k: "\<not> slot_filled (map_keys m) p" for p using new0_empty m(1) by (simp add: map_keys_def)
  have l: "length (table m) = n" using m(1) by (simp add: new0_def)
  show "map_ok env m" using m l k by (simp add: map_ok_def table_ok_def qstr_flag_ok_def)
  show "content env m = (\<lambda>i. None)" using k by (intro ext) (simp add: content_None no_key_def)
qed


context object_keys
begin

lemma map_refined:
  assumes "map_ok env m" and "no_null (content env m)" and "list_all (cmd_ok env) cs" and "none \<noteq> MP_OBJ_NULL"
  shows "\<exists>rs m'. run_cmds none env m cs = Some (rs, m') \<and> map_ok env m'
    \<and> behaves none (mp_obj_equal env) (content env m) cs rs (content env m')"
  by (rule hash.cmds_refine [OF assms])

lemma ordered_popitem:
  assumes m: "ordered_ok env m" and q: "all_keys_are_qstrs m" and u: "2 \<le> used m"
  shows "content env m (fst (table m ! (used m - 1))) \<noteq> None"
    and "\<exists>r m'. dict_popitem m = Some (Inr r, m') \<and> fst (table m ! (used m - 1)) \<noteq> fst r
    \<and> mp_obj_dict_get env m' (fst (table m ! (used m - 1))) = Some (Inl (KeyError (fst (table m ! (used m - 1)))), m')"
proof -
  obtain es zs where s: "ordered_shape env m es zs" using m ordered_ok_shape by blast
  let ?l = "used m - 1" and ?kl = "fst (table m ! (used m - 1))"
  have t: "table m = es @ zs" "length es = used m" "length (table m) = alloc m" and kd: "key_distinct env es"
    and k: "\<forall>e \<in> set es. is_key (fst e)" and flags: "is_ordered m" "\<not> is_fixed m"
    and qs: "\<forall>e \<in> set es. MP_OBJ_IS_QSTR (fst e)"
    using s q unfolding ordered_shape_def by blast+
  have lt: "?l < length es" "0 < length es" using u t(2) by simp_all
  show "content env m ?kl \<noteq> None" using shape_value [OF s, of ?l ?kl] lt(1) t(2) equal_refl by simp
  have kl: "MP_OBJ_IS_QSTR ?kl" "is_key ?kl" using qs k lt t(1) by (simp_all add: nth_append)
  have diff: "fst (table m ! p) \<noteq> ?kl" if "p < ?l" for p
  proof
    assume e: "fst (table m ! p) = ?kl"
    have "p < length es" "p < ?l" using that lt by simp_all
    then have "\<not> mp_obj_equal env (fst (es ! p)) (fst (es ! ?l))"
      using key_distinctD [OF kd \<open>p < ?l\<close> lt(1)] k lt(1) by simp
    then show False using e equal_refl \<open>p < length es\<close> lt(1) t(1) by (simp add: nth_append)
  qed
  define m' where "m' = m\<lparr>used := used m - 1, table := (table m)[0 := (MP_OBJ_SENTINEL, MP_OBJ_NULL)]\<rparr>"
  have t0: "0 < length (table m)" "is_key (fst (table m ! 0))" using lt(2) t k by (simp_all add: nth_append)
  have "[0..<alloc m] = 0 # [1..<alloc m]" using t0(1) t(3) by (simp add: upt_conv_Cons)
  then have "dict_iter_next m 0 = Some (Some 0, 1)"
    using t0 by (simp add: dict_iter_next_def MP_MAP_SLOT_IS_FILLED_def rd_in split_beta is_key_def)
  then have pop: "dict_popitem m = Some (Inr (table m ! 0), m')"
    using t0(1) by (simp add: dict_popitem_def rd_in wr_in split_beta m'_def)
  have none: "search_ordered (\<lambda>key. key = ?kl) (table m') [0..<used m'] = Some None"
  proof -
    have ul: "used m' \<le> length (table m')" using t by (simp add: m'_def)
    obtain r where r: "search_ordered (\<lambda>key. key = ?kl) (table m') [0..<used m'] = Some r"
        "first_same (\<lambda>key. key = ?kl) m' r"
      using search_first_same [OF ul] by blast
    have "fst (table m' ! p) \<noteq> ?kl" if "p < used m'" for p
      using diff [of p] that kl(2) t0(1) by (cases p) (auto simp: m'_def is_key_def)
    then have "r = None" using r(2) by (cases r) (auto simp: first_same_def)
    then show ?thesis using r(1) by simp
  qed
  have "mp_map_lookup env m' ?kl MP_MAP_LOOKUP = Some (Inr None, m')"
    using none flags q kl(1) by (simp add: mp_map_lookup_def numeral_2_eq_2 ordered_lookup_def Let_def m'_def)
  then have "mp_obj_dict_get env m' ?kl = Some (Inl (KeyError ?kl), m')" by (simp add: mp_obj_dict_get_def)
  moreover have "?kl \<noteq> fst (table m ! 0)" using diff [of 0] u by simp
  ultimately show "\<exists>r m'. dict_popitem m = Some (Inr r, m') \<and> ?kl \<noteq> fst r
    \<and> mp_obj_dict_get env m' ?kl = Some (Inl (KeyError ?kl), m')" using pop by blast
qed

lemma ordered_memory_error:
  assumes m: "ordered_ok env m" and full: "used m = alloc m" and no: "\<not> can_alloc env (alloc m + 4)" "content env m index = None"
  shows "mp_map_lookup env m index MP_MAP_LOOKUP_ADD_IF_NOT_FOUND = Some (Inl MemoryError, m\<lparr>alloc := alloc m + 4\<rparr>)"
    and "mp_map_lookup (env\<lparr>can_alloc := mem\<rparr>) (m\<lparr>alloc := alloc m + 4\<rparr>) index MP_MAP_LOOKUP_ADD_IF_NOT_FOUND = None"
proof -
  obtain es zs where s: "ordered_shape env m es zs" using m ordered_ok_shape by blast
  have flags: "is_ordered m" "\<not> is_fixed m" "length (table m) = used m"
    using m full by (simp_all add: ordered_ok_def)
  obtain r where r: "search_ordered (\<lambda>key. key = index \<or> \<not> (all_keys_are_qstrs m \<and> (MP_OBJ_IS_QSTR index \<or> \<not> is_type_str env index))
      \<and> mp_obj_equal env key index) (table m) [0..<used m] = Some r"
    "case r of None \<Rightarrow> content_of env es index = None
       | Some p \<Rightarrow> p < used m \<and> mp_obj_equal env (fst (table m ! p)) index"
    using ordered_search [OF s refl, of index] by blast
  have rn: "r = None"
  proof (rule ccontr)
    assume "r \<noteq> None"
    then obtain p where "p < used m" "mp_obj_equal env (fst (table m ! p)) index" using r(2) by auto
    then show False using shape_value [OF s] no(2) by force
  qed
  then show "mp_map_lookup env m index MP_MAP_LOOKUP_ADD_IF_NOT_FOUND = Some (Inl MemoryError, m\<lparr>alloc := alloc m + 4\<rparr>)"
    using r(1) full no(1) by (simp add: ordered_step [OF s] ordered_lookup_def)
  show "mp_map_lookup (env\<lparr>can_alloc := mem\<rparr>) (m\<lparr>alloc := alloc m + 4\<rparr>) index MP_MAP_LOOKUP_ADD_IF_NOT_FOUND = None"
    using r(1) rn full flags unfolding mp_map_lookup_def numeral_2_eq_2 lookup_depth.simps Let_def
    by (simp add: ordered_lookup_def rd_out)
qed

end

text \<open>
  C3. A dictionary behaves like a map from keys to values, up to equality of keys: every run of
  stores, loads, deletions, pops and setdefaults on a hash table answers what the map answers, where
  only a memory error can leave a new key out, and the table represents the map afterwards.
\<close>

theorem dictionary_is_a_map:
  assumes "object_keys env" and "map_ok env m" and "no_null (content env m)" and "list_all (cmd_ok env) cs"
    and "none \<noteq> MP_OBJ_NULL"
  shows "\<exists>rs m'. run_cmds none env m cs = Some (rs, m') \<and> map_ok env m'
    \<and> behaves none (mp_obj_equal env) (content env m) cs rs (content env m')"
  by (rule object_keys.map_refined [OF assms])

text \<open>
  \<open>popitem\<close> of an ordered dictionary takes the first entry and counts one entry less, without moving
  the others: with interned keys, the last key, which was there, is not found any more.
\<close>

theorem ordered_popitem_loses_last:
  assumes "object_keys env" and "ordered_ok env m" and "all_keys_are_qstrs m" and "2 \<le> used m"
  shows "content env m (fst (table m ! (used m - 1))) \<noteq> None
    \<and> (\<exists>r m'. dict_popitem m = Some (Inr r, m') \<and> fst (table m ! (used m - 1)) \<noteq> fst r
        \<and> mp_obj_dict_get env m' (fst (table m ! (used m - 1))) = Some (Inl (KeyError (fst (table m ! (used m - 1)))), m'))"
  by (intro conjI object_keys.ordered_popitem [OF assms])

text \<open>
  When an ordered map is full and cannot grow, the memory error leaves its size increased by 4 with
  the old table: the next addition of the key writes behind the table, with whatever memory there is then.
\<close>

theorem ordered_map_broken_by_memory_error:
  assumes "object_keys env" and "ordered_ok env m" and "used m = alloc m" and "\<not> can_alloc env (alloc m + 4)"
    and "content env m index = None"
  shows "\<exists>m'. mp_map_lookup env m index MP_MAP_LOOKUP_ADD_IF_NOT_FOUND = Some (Inl MemoryError, m')
    \<and> mp_map_lookup (env\<lparr>can_alloc := mem\<rparr>) m' index MP_MAP_LOOKUP_ADD_IF_NOT_FOUND = None"
  using object_keys.ordered_memory_error [OF assms] by blast

subsection \<open>Concrete dictionaries\<close>

text \<open>Word 6 is the interned empty string, 10 the interned \<open>a\<close>, 16 a string object \<open>a\<close>, 7 the number 3.\<close>

definition small_env :: objects where
  "small_env = map_objects small_heap (\<lambda>n. n < 100)"

definition one_map :: mp_map_t where
  "one_map = \<lparr>all_keys_are_qstrs = False, is_fixed = False, is_ordered = False, used = 1, alloc = 2, table = [(0, 0), (7, 20)]\<rparr>"

text \<open>A map with room for two keys.\<close>

definition two_map :: mp_map_t where
  "two_map = \<lparr>all_keys_are_qstrs = True, is_fixed = False, is_ordered = False, used = 0, alloc = 2, table = [(0, 0), (0, 0)]\<rparr>"

definition ordered_map :: mp_map_t where
  "ordered_map = \<lparr>all_keys_are_qstrs = True, is_fixed = False, is_ordered = True, used = 2, alloc = 2, table = [(6, 20), (10, 28)]\<rparr>"

lemma small_keys: "object_keys small_env"
  unfolding small_env_def by (rule plain_keys [OF small_plain])

lemma small_facts:
  "mp_obj_equal small_env 10 16" "\<not> mp_obj_equal small_env 6 10" "mp_obj_hash small_env 7 \<noteq> None"
  "list_all (cmd_ok small_env) [Store 10 20, Load 16, Delete 16, Load 10, SetDefault 7 None]"
  by code_simp+

interpretation names: object_keys small_env
  by (rule small_keys)

lemma two_ok: "map_ok small_env two_map" "content small_env two_map = (\<lambda>i. None)"
  using init_ok [of small_env 2 two_map]
  by (simp_all add: mp_map_init_def two_map_def new0_def numeral_2_eq_2 small_env_def map_objects_def MP_OBJ_NULL_def)

lemma one_store: "mp_obj_dict_store small_env two_map 7 20 = Some (Inr (), one_map)"
  by code_simp

lemma one_ok: "map_ok small_env one_map" "content small_env one_map = (\<lambda>j. if mp_obj_equal small_env 7 j then Some 20 else None)"
proof -
  have "is_key 7" by (simp add: is_key_def MP_OBJ_NULL_def MP_OBJ_SENTINEL_def)
  then have "map_ok small_env one_map \<and> content small_env one_map = (\<lambda>j. if mp_obj_equal small_env 7 j then Some 20 else content small_env two_map j)"
    using names.hash.store_run [OF two_ok(1) small_facts(3), of 20] one_store by simp
  then show "map_ok small_env one_map" "content small_env one_map = (\<lambda>j. if mp_obj_equal small_env 7 j then Some 20 else None)"
    unfolding two_ok(2) by blast+
qed


lemma small_content:
  "content small_env one_map 7 = Some 20" "content small_env one_map 10 = None"
proof -
  have "\<not> mp_obj_equal small_env 7 10" by code_simp
  then show "content small_env one_map 7 = Some 20" "content small_env one_map 10 = None"
    using names.equal_refl by (simp_all add: one_ok(2))
qed

theorem dictionary_is_a_map_witness:
  "\<exists>rs m'. run_cmds 4 small_env two_map [Store 10 20, Load 16, Delete 16, Load 10, SetDefault 7 None] = Some (rs, m')
    \<and> behaves 4 (mp_obj_equal small_env) (\<lambda>i. None) [Store 10 20, Load 16, Delete 16, Load 10, SetDefault 7 None] rs
        (content small_env m')"
  using dictionary_is_a_map [OF small_keys two_ok(1) _ small_facts(4), of 4]
  by (auto simp: two_ok(2) no_null_def MP_OBJ_NULL_def)

theorem update_merges_witness:
  "\<exists>r m'. dict_update small_env two_map [OtherDict one_map] (mp_map_init_fixed_table 0 []) = Some (r, m')
    \<and> (case r of Inl e \<Rightarrow> e = MemoryError | Inr u \<Rightarrow> content small_env m' 7 = Some 20 \<and> content small_env m' 10 = None)"
proof -
  obtain r m' where "dict_update small_env two_map [OtherDict one_map] (mp_map_init_fixed_table 0 []) = Some (r, m')"
    "case r of Inl e \<Rightarrow> e = MemoryError
       | Inr u \<Rightarrow> map_ok small_env m' \<and> content small_env m'
           = (\<lambda>i. case content small_env one_map i of None \<Rightarrow> content small_env two_map i | Some v \<Rightarrow> Some v)"
    using update_merges [OF small_keys two_ok(1) one_ok(1)] by blast
  then show ?thesis using small_content two_ok(2) by (intro exI [of _ r] exI [of _ m']) (cases r; simp)
qed

theorem comparison_by_content_witness:
  "dict_equal small_env Dict one_map Dict two_map = Some (Inr (same_content small_env one_map two_map))
    \<and> dict_equal small_env Dict one_map Dict one_map = Some (Inr (same_content small_env one_map one_map))"
  using comparison_by_content [OF small_keys one_ok(1) two_ok(1)] comparison_by_content [OF small_keys one_ok(1) one_ok(1)]
  by simp

lemma ordered_map_ok: "ordered_ok small_env ordered_map"
proof (rule shape_ok)
  show "ordered_shape small_env ordered_map [(6, 20), (10, 28)] []"
    using small_facts(2)
    by (simp add: ordered_shape_def ordered_map_def is_key_def MP_OBJ_NULL_def MP_OBJ_SENTINEL_def MP_OBJ_IS_QSTR_def)
qed

theorem ordered_popitem_loses_last_witness:
  "content small_env ordered_map 10 \<noteq> None
    \<and> (\<exists>r m'. dict_popitem ordered_map = Some (Inr r, m') \<and> mp_obj_dict_get small_env m' 10 = Some (Inl (KeyError 10), m'))"
  using ordered_popitem_loses_last [OF small_keys ordered_map_ok] by (auto simp: ordered_map_def)

theorem ordered_map_broken_by_memory_error_witness:
  "\<exists>m'. mp_map_lookup (small_env\<lparr>can_alloc := (\<lambda>n. False)\<rparr>) ordered_map 7 MP_MAP_LOOKUP_ADD_IF_NOT_FOUND = Some (Inl MemoryError, m')
    \<and> mp_map_lookup small_env m' 7 MP_MAP_LOOKUP_ADD_IF_NOT_FOUND = None"
proof -
  have k: "object_keys (small_env\<lparr>can_alloc := (\<lambda>n. False)\<rparr>)"
    using plain_keys [OF small_plain, of "\<lambda>n. False"] by (simp add: small_env_def map_objects_def)
  have s: "ordered_shape (small_env\<lparr>can_alloc := (\<lambda>n. False)\<rparr>) ordered_map [(6, 20), (10, 28)] []"
    using small_facts(2)
    by (simp add: ordered_shape_def ordered_map_def is_key_def MP_OBJ_NULL_def MP_OBJ_SENTINEL_def MP_OBJ_IS_QSTR_def)
  have "\<not> mp_obj_equal small_env 6 7" "\<not> mp_obj_equal small_env 10 7" by code_simp+
  then have c: "content (small_env\<lparr>can_alloc := (\<lambda>n. False)\<rparr>) ordered_map 7 = None"
    unfolding shape_content [OF s] by simp
  show ?thesis
    using ordered_map_broken_by_memory_error [OF k shape_ok [OF s] _ _ c, of "can_alloc small_env"]
    by (simp add: ordered_map_def)
qed

end
