(* ===== verification/Py_Set.thy ===== *)
theory Py_Set
  imports Py_Dict
begin

text \<open>
  Sets: the hash table of \<open>py/map.c\<close> without values, and the set and frozenset objects of
  \<open>py/objset.c\<close>.  The probing, its laws and the consistency of a table are those of \<open>Py_Map\<close>.  An
  iterable argument is the list of what its iterator gives.
\<close>

subsection \<open>The table\<close>

record mp_set_t =
  set_alloc :: nat
  set_used :: nat
  set_table :: "mp_obj_t list"

type_synonym 'a set_res = "((exc + 'a) \<times> mp_set_t) option"

text \<open>The kinds of lookup are bit masks.\<close>

definition adds :: "mp_map_lookup_kind_t \<Rightarrow> bool" where
  "adds k \<longleftrightarrow> k = MP_MAP_LOOKUP_ADD_IF_NOT_FOUND \<or> k = MP_MAP_LOOKUP_ADD_IF_NOT_FOUND_OR_REMOVE_IF_FOUND"

definition removes :: "mp_map_lookup_kind_t \<Rightarrow> bool" where
  "removes k \<longleftrightarrow> k = MP_MAP_LOOKUP_REMOVE_IF_FOUND \<or> k = MP_MAP_LOOKUP_ADD_IF_NOT_FOUND_OR_REMOVE_IF_FOUND"

definition mp_set_init :: "objects \<Rightarrow> nat \<Rightarrow> exc + mp_set_t" where
  "mp_set_init env n =
     (if n = 0 \<or> can_alloc env n then Inr \<lparr>set_alloc = n, set_used = 0, set_table = replicate n MP_OBJ_NULL\<rparr>
      else Inl MemoryError)"

definition MP_SET_SLOT_IS_FILLED :: "mp_set_t \<Rightarrow> nat \<Rightarrow> bool option" where
  "MP_SET_SLOT_IS_FILLED s pos = do { e \<leftarrow> rd (set_table s) pos; Some (e \<noteq> MP_OBJ_NULL \<and> e \<noteq> MP_OBJ_SENTINEL) }"

definition set_add_at :: "mp_set_t \<Rightarrow> nat \<Rightarrow> mp_obj_t \<Rightarrow> mp_obj_t set_res" where
  "set_add_at s pos index = do {
     t \<leftarrow> wr (set_table s) pos index;
     Some (Inr index, s\<lparr>set_used := set_used s + 1, set_table := t\<rparr>) }"

definition set_delete_at :: "mp_set_t \<Rightarrow> nat \<Rightarrow> mp_set_t option" where
  "set_delete_at s pos = do {
     nxt \<leftarrow> rd (set_table s) ((pos + 1) mod set_alloc s);
     t \<leftarrow> wr (set_table s) pos (if nxt = MP_OBJ_NULL then MP_OBJ_NULL else MP_OBJ_SENTINEL);
     Some (s\<lparr>set_used := set_used s - 1, set_table := t\<rparr>) }"

fun set_reinsert :: "(mp_set_t \<Rightarrow> mp_obj_t \<Rightarrow> mp_obj_t set_res) \<Rightarrow> mp_obj_t list \<Rightarrow> mp_set_t \<Rightarrow> unit set_res" where
  "set_reinsert lookup [] s = Some (Inr (), s)"
| "set_reinsert lookup (e # es) s =
     (if e \<noteq> MP_OBJ_NULL \<and> e \<noteq> MP_OBJ_SENTINEL then do {
        (r, s) \<leftarrow> lookup s e;
        case r of Inl x \<Rightarrow> Some (Inl x, s) | Inr o1 \<Rightarrow> set_reinsert lookup es s }
      else set_reinsert lookup es s)"

text \<open>The new size is stored before the allocation can fail.\<close>

definition mp_set_rehash :: "(mp_set_t \<Rightarrow> mp_obj_t \<Rightarrow> mp_obj_t set_res) \<Rightarrow> objects \<Rightarrow> mp_set_t \<Rightarrow> unit set_res" where
  "mp_set_rehash lookup env s =
     (let old_table = set_table s;
          s = s\<lparr>set_alloc := get_hash_alloc_greater_or_equal_to (set_alloc s + 1), set_used := 0\<rparr>
      in if can_alloc env (set_alloc s)
         then set_reinsert lookup old_table (s\<lparr>set_table := replicate (set_alloc s) MP_OBJ_NULL\<rparr>)
         else Some (Inl MemoryError, s))"

fun set_loop :: "nat \<Rightarrow> (mp_set_t \<Rightarrow> mp_obj_t \<Rightarrow> mp_obj_t set_res) \<Rightarrow> objects \<Rightarrow> nat \<Rightarrow> mp_set_t \<Rightarrow> mp_obj_t
    \<Rightarrow> mp_map_lookup_kind_t \<Rightarrow> mp_obj_t set_res" where
  "set_loop 0 lookup env hash s index lookup_kind = None"
| "set_loop (Suc n) lookup env hash s index lookup_kind =
     (case probe (\<lambda>e. mp_obj_equal env e index) (set_table s) (probe_order (hash mod set_alloc s) (set_alloc s)) None of
        None \<Rightarrow> None
      | Some (Empty pos avail_slot) \<Rightarrow>
          (if adds lookup_kind then set_add_at s (case avail_slot of None \<Rightarrow> pos | Some a \<Rightarrow> a) index
           else Some (Inr MP_OBJ_NULL, s))
      | Some (Found pos) \<Rightarrow> do {
          elem \<leftarrow> rd (set_table s) pos;
          s \<leftarrow> (if removes lookup_kind then set_delete_at s pos else Some s);
          Some (Inr elem, s) }
      | Some (Around avail_slot) \<Rightarrow>
          (if adds lookup_kind
           then (case avail_slot of
                   Some a \<Rightarrow> set_add_at s a index
                 | None \<Rightarrow> do {
                     (r, s) \<leftarrow> mp_set_rehash lookup env s;
                     case r of
                       Inl x \<Rightarrow> Some (Inl x, s)
                     | Inr u \<Rightarrow> set_loop n lookup env hash s index lookup_kind })
           else Some (Inr MP_OBJ_NULL, s)))"

fun set_lookup_depth :: "nat \<Rightarrow> objects \<Rightarrow> mp_set_t \<Rightarrow> mp_obj_t \<Rightarrow> mp_map_lookup_kind_t \<Rightarrow> mp_obj_t set_res" where
  "set_lookup_depth 0 env s index lookup_kind = None"
| "set_lookup_depth (Suc d) env s index lookup_kind =
     (if set_alloc s = 0 \<and> \<not> adds lookup_kind then Some (Inr MP_OBJ_NULL, s)
      else do {
        (r, s) \<leftarrow> (if set_alloc s = 0
                   then mp_set_rehash (\<lambda>s e. set_lookup_depth d env s e MP_MAP_LOOKUP_ADD_IF_NOT_FOUND) env s
                   else Some (Inr (), s));
        case r of
          Inl x \<Rightarrow> Some (Inl x, s)
        | Inr u \<Rightarrow>
            (case mp_obj_hash env index of
               None \<Rightarrow> Some (Inl TypeError, s)
             | Some h \<Rightarrow> set_loop 2 (\<lambda>s e. set_lookup_depth d env s e MP_MAP_LOOKUP_ADD_IF_NOT_FOUND) env (unat h) s
                 index lookup_kind) })"

definition mp_set_lookup :: "objects \<Rightarrow> mp_set_t \<Rightarrow> mp_obj_t \<Rightarrow> mp_map_lookup_kind_t \<Rightarrow> mp_obj_t set_res" where
  "mp_set_lookup env = set_lookup_depth 2 env"

fun remove_first_from :: "mp_set_t \<Rightarrow> nat list \<Rightarrow> (mp_obj_t \<times> mp_set_t) option" where
  "remove_first_from s [] = Some (MP_OBJ_NULL, s)"
| "remove_first_from s (pos # ps) = do {
     f \<leftarrow> MP_SET_SLOT_IS_FILLED s pos;
     if f then do { elem \<leftarrow> rd (set_table s) pos; s \<leftarrow> set_delete_at s pos; Some (elem, s) }
     else remove_first_from s ps }"

definition mp_set_remove_first :: "mp_set_t \<Rightarrow> (mp_obj_t \<times> mp_set_t) option" where
  "mp_set_remove_first s = remove_first_from s [0..<set_alloc s]"

definition mp_set_clear :: "mp_set_t \<Rightarrow> mp_set_t" where
  "mp_set_clear s = \<lparr>set_alloc = 0, set_used = 0, set_table = []\<rparr>"

subsection \<open>Set objects\<close>

text \<open>One lookup for every element of an iterable.\<close>

fun for_elements :: "(mp_set_t \<Rightarrow> mp_obj_t \<Rightarrow> mp_obj_t set_res) \<Rightarrow> mp_obj_t list \<Rightarrow> mp_set_t \<Rightarrow> unit set_res" where
  "for_elements f [] s = Some (Inr (), s)"
| "for_elements f (e # es) s = do {
     (r, s) \<leftarrow> f s e;
     case r of Inl x \<Rightarrow> Some (Inl x, s) | Inr o1 \<Rightarrow> for_elements f es s }"

definition set_update_int :: "objects \<Rightarrow> mp_set_t \<Rightarrow> mp_obj_t list \<Rightarrow> unit set_res" where
  "set_update_int env self other = for_elements (\<lambda>s e. mp_set_lookup env s e MP_MAP_LOOKUP_ADD_IF_NOT_FOUND) other self"

definition mp_obj_new_set :: "objects \<Rightarrow> mp_obj_t list \<Rightarrow> (exc + mp_set_t) option" where
  "mp_obj_new_set env items =
     (case mp_set_init env (length items) of
        Inl e \<Rightarrow> Some (Inl e)
      | Inr s \<Rightarrow> do {
          (r, s) \<leftarrow> for_elements (\<lambda>s e. mp_set_lookup env s e MP_MAP_LOOKUP_ADD_IF_NOT_FOUND) items s;
          Some (case r of Inl e \<Rightarrow> Inl e | Inr u \<Rightarrow> Inr s) })"

definition mp_obj_set_store :: "objects \<Rightarrow> mp_set_t \<Rightarrow> mp_obj_t \<Rightarrow> mp_obj_t set_res" where
  "mp_obj_set_store env s item = mp_set_lookup env s item MP_MAP_LOOKUP_ADD_IF_NOT_FOUND"

definition set_make_new :: "objects \<Rightarrow> mp_obj_t list option \<Rightarrow> (exc + mp_set_t) option" where
  "set_make_new env arg = do {
     r \<leftarrow> mp_obj_new_set env [];
     case (r, arg) of
       (Inr s, Some items) \<Rightarrow> do {
         (r, s) \<leftarrow> for_elements (mp_obj_set_store env) items s;
         Some (case r of Inl e \<Rightarrow> Inl e | Inr u \<Rightarrow> Inr s) }
     | (r, _) \<Rightarrow> Some r }"

fun next_element :: "mp_set_t \<Rightarrow> nat list \<Rightarrow> nat \<Rightarrow> (mp_obj_t option \<times> nat) option" where
  "next_element s [] cur = Some (None, cur)"
| "next_element s (i # is) cur = do {
     f \<leftarrow> MP_SET_SLOT_IS_FILLED s i;
     if f then do { e \<leftarrow> rd (set_table s) i; Some (Some e, i + 1) } else next_element s is cur }"

definition set_it_iternext :: "mp_set_t \<Rightarrow> nat \<Rightarrow> (mp_obj_t option \<times> nat) option" where
  "set_it_iternext s cur = next_element s [cur..<set_alloc s] cur"

definition set_add :: "objects \<Rightarrow> mp_set_t \<Rightarrow> mp_obj_t \<Rightarrow> unit set_res" where
  "set_add env s item = for_elements (\<lambda>s e. mp_set_lookup env s e MP_MAP_LOOKUP_ADD_IF_NOT_FOUND) [item] s"

definition set_discard :: "objects \<Rightarrow> mp_set_t \<Rightarrow> mp_obj_t \<Rightarrow> unit set_res" where
  "set_discard env s item = for_elements (\<lambda>s e. mp_set_lookup env s e MP_MAP_LOOKUP_REMOVE_IF_FOUND) [item] s"

definition set_remove :: "objects \<Rightarrow> mp_set_t \<Rightarrow> mp_obj_t \<Rightarrow> unit set_res" where
  "set_remove env s item = do {
     (r, s) \<leftarrow> mp_set_lookup env s item MP_MAP_LOOKUP_REMOVE_IF_FOUND;
     Some (case r of Inl e \<Rightarrow> Inl e | Inr elem \<Rightarrow> if elem = MP_OBJ_NULL then Inl (KeyError item) else Inr (), s) }"

definition set_clear :: "mp_set_t \<Rightarrow> mp_set_t" where
  "set_clear s = mp_set_clear s"

definition set_pop :: "mp_set_t \<Rightarrow> mp_obj_t set_res" where
  "set_pop s = do {
     (obj, s) \<leftarrow> mp_set_remove_first s;
     Some (if obj = MP_OBJ_NULL then Inl (KeyError MP_OBJ_NULL) else Inr obj, s) }"

definition set_copy :: "objects \<Rightarrow> mp_set_t \<Rightarrow> (exc + mp_set_t) option" where
  "set_copy env self =
     (case mp_set_init env (set_alloc self) of
        Inl e \<Rightarrow> Some (Inl e)
      | Inr other \<Rightarrow> do {
          src \<leftarrow> slice (set_table self) 0 (set_alloc self);
          t \<leftarrow> blit (set_table other) 0 src;
          Some (Inr (other\<lparr>set_used := set_used self, set_table := t\<rparr>)) })"

text \<open>An argument that is the set itself, or any iterable.\<close>

datatype set_other = Itself | Elements "mp_obj_t list"

fun set_diff_all :: "objects \<Rightarrow> set_other list \<Rightarrow> mp_set_t \<Rightarrow> unit set_res" where
  "set_diff_all env [] s = Some (Inr (), s)"
| "set_diff_all env (other # rest) s = do {
     (r, s) \<leftarrow> (case other of
        Itself \<Rightarrow> Some (Inr (), set_clear s)
      | Elements es \<Rightarrow> for_elements (\<lambda>s e. mp_set_lookup env s e MP_MAP_LOOKUP_REMOVE_IF_FOUND) es s);
     case r of Inl x \<Rightarrow> Some (Inl x, s) | Inr u \<Rightarrow> set_diff_all env rest s }"

definition set_diff_update :: "objects \<Rightarrow> mp_set_t \<Rightarrow> set_other list \<Rightarrow> unit set_res" where
  "set_diff_update env self rest = set_diff_all env rest self"

text \<open>On a copy no argument is the set itself.\<close>

definition set_diff :: "objects \<Rightarrow> mp_set_t \<Rightarrow> mp_obj_t list list \<Rightarrow> (exc + mp_set_t) option" where
  "set_diff env self rest = do {
     c \<leftarrow> set_copy env self;
     case c of
       Inl e \<Rightarrow> Some (Inl e)
     | Inr s \<Rightarrow> do {
         (r, s) \<leftarrow> set_diff_all env (map Elements rest) s;
         Some (case r of Inl e \<Rightarrow> Inl e | Inr u \<Rightarrow> Inr s) } }"

text \<open>The loop of the intersection: \<open>out\<close> gets the elements of the iterable that \<open>self\<close> has.\<close>

fun intersect_loop :: "objects \<Rightarrow> mp_obj_t list \<Rightarrow> mp_set_t \<Rightarrow> mp_set_t \<Rightarrow> unit set_res" where
  "intersect_loop env [] self out = Some (Inr (), out)"
| "intersect_loop env (e # es) self out = do {
     (r, self) \<leftarrow> mp_set_lookup env self e MP_MAP_LOOKUP;
     case r of
       Inl x \<Rightarrow> Some (Inl x, out)
     | Inr elem \<Rightarrow> do {
         (r, out) \<leftarrow> (if elem \<noteq> MP_OBJ_NULL then set_add env out e else Some (Inr (), out));
         case r of Inl x \<Rightarrow> Some (Inl x, out) | Inr u \<Rightarrow> intersect_loop env es self out } }"

text \<open>The result is a new set; with \<open>update\<close> it replaces the set.\<close>

definition set_intersect_int :: "objects \<Rightarrow> mp_set_t \<Rightarrow> set_other \<Rightarrow> bool \<Rightarrow> ((exc + mp_set_t) \<times> mp_set_t) option" where
  "set_intersect_int env self other update =
     (case other of
        Itself \<Rightarrow> (if update then Some (Inr self, self) else do { c \<leftarrow> set_copy env self; Some (c, self) })
      | Elements es \<Rightarrow> do {
          out \<leftarrow> mp_obj_new_set env [];
          case out of
            Inl e \<Rightarrow> Some (Inl e, self)
          | Inr out \<Rightarrow> do {
              (r, out) \<leftarrow> intersect_loop env es self out;
              Some (case r of Inl e \<Rightarrow> (Inl e, self) | Inr u \<Rightarrow> (Inr out, if update then out else self)) } })"

fun none_in :: "objects \<Rightarrow> mp_obj_t list \<Rightarrow> mp_set_t \<Rightarrow> (exc + bool) option" where
  "none_in env [] s = Some (Inr True)"
| "none_in env (e # es) s = do {
     (r, s) \<leftarrow> mp_set_lookup env s e MP_MAP_LOOKUP;
     case r of Inl x \<Rightarrow> Some (Inl x) | Inr elem \<Rightarrow> if elem \<noteq> MP_OBJ_NULL then Some (Inr False) else none_in env es s }"

definition set_isdisjoint :: "objects \<Rightarrow> mp_set_t \<Rightarrow> mp_obj_t list \<Rightarrow> (exc + bool) option" where
  "set_isdisjoint env self other = none_in env other self"

lemma next_element_bound: "next_element s is cur = Some (Some e, c) \<Longrightarrow> c - 1 \<in> set is \<and> 0 < c"
  by (induction "is") (auto split: bind_splits if_splits)

lemma it_next_bound: "set_it_iternext s cur = Some (Some e, c) \<Longrightarrow> cur < c \<and> c \<le> set_alloc s"
  using next_element_bound [of s _ cur e c] by (fastforce simp: set_it_iternext_def)

function all_in :: "objects \<Rightarrow> mp_set_t \<Rightarrow> nat \<Rightarrow> mp_set_t \<Rightarrow> (exc + bool) option" where
  "all_in env self cur other =
     (case set_it_iternext self cur of
        None \<Rightarrow> None
      | Some (None, cur') \<Rightarrow> Some (Inr True)
      | Some (Some e, cur') \<Rightarrow> do {
          (r, other) \<leftarrow> mp_set_lookup env other e MP_MAP_LOOKUP;
          case r of
            Inl x \<Rightarrow> Some (Inl x)
          | Inr elem \<Rightarrow> if elem = MP_OBJ_NULL then Some (Inr False) else all_in env self cur' other })"
  by pat_completeness auto
termination
  by (relation "measure (\<lambda>(env, self, cur, other). set_alloc self - cur)") (auto dest: it_next_bound)

declare all_in.simps [simp del]

datatype set_arg = ASet mp_set_t | Iterable "mp_obj_t list"

definition as_set :: "objects \<Rightarrow> set_arg \<Rightarrow> (exc + mp_set_t) option" where
  "as_set env a = (case a of ASet s \<Rightarrow> Some (Inr s) | Iterable es \<Rightarrow> set_make_new env (Some es))"

definition set_issubset_internal :: "objects \<Rightarrow> set_arg \<Rightarrow> set_arg \<Rightarrow> bool \<Rightarrow> (exc + bool) option" where
  "set_issubset_internal env self other proper = do {
     a \<leftarrow> as_set env self;
     case a of
       Inl e \<Rightarrow> Some (Inl e)
     | Inr self \<Rightarrow> do {
         b \<leftarrow> as_set env other;
         case b of
           Inl e \<Rightarrow> Some (Inl e)
         | Inr other \<Rightarrow>
             if proper \<and> set_used self = set_used other then Some (Inr False) else all_in env self 0 other } }"

definition set_issubset :: "objects \<Rightarrow> set_arg \<Rightarrow> set_arg \<Rightarrow> (exc + bool) option" where
  "set_issubset env self other = set_issubset_internal env self other False"

definition set_issubset_proper :: "objects \<Rightarrow> set_arg \<Rightarrow> set_arg \<Rightarrow> (exc + bool) option" where
  "set_issubset_proper env self other = set_issubset_internal env self other True"

definition set_issuperset :: "objects \<Rightarrow> set_arg \<Rightarrow> set_arg \<Rightarrow> (exc + bool) option" where
  "set_issuperset env self other = set_issubset_internal env other self False"

definition set_issuperset_proper :: "objects \<Rightarrow> set_arg \<Rightarrow> set_arg \<Rightarrow> (exc + bool) option" where
  "set_issuperset_proper env self other = set_issubset_internal env other self True"

text \<open>\<open>None\<close> for an operand that is no set.\<close>

definition set_equal :: "objects \<Rightarrow> mp_set_t \<Rightarrow> mp_set_t option \<Rightarrow> (exc + bool) option" where
  "set_equal env self other =
     (case other of
        None \<Rightarrow> Some (Inr False)
      | Some s \<Rightarrow> if set_used self \<noteq> set_used s then Some (Inr False) else set_issubset env (ASet self) (ASet s))"

definition set_symmetric_difference_update :: "objects \<Rightarrow> mp_set_t \<Rightarrow> mp_obj_t list \<Rightarrow> unit set_res" where
  "set_symmetric_difference_update env self other =
     for_elements (\<lambda>s e. mp_set_lookup env s e MP_MAP_LOOKUP_ADD_IF_NOT_FOUND_OR_REMOVE_IF_FOUND) other self"

definition on_copy :: "objects \<Rightarrow> mp_set_t \<Rightarrow> (mp_set_t \<Rightarrow> unit set_res) \<Rightarrow> (exc + mp_set_t) option" where
  "on_copy env self f = do {
     c \<leftarrow> set_copy env self;
     case c of
       Inl e \<Rightarrow> Some (Inl e)
     | Inr s \<Rightarrow> do { (r, s) \<leftarrow> f s; Some (case r of Inl e \<Rightarrow> Inl e | Inr u \<Rightarrow> Inr s) } }"

definition set_symmetric_difference :: "objects \<Rightarrow> mp_set_t \<Rightarrow> mp_obj_t list \<Rightarrow> (exc + mp_set_t) option" where
  "set_symmetric_difference env self other = on_copy env self (\<lambda>s. set_symmetric_difference_update env s other)"

fun set_update :: "objects \<Rightarrow> mp_set_t \<Rightarrow> mp_obj_t list list \<Rightarrow> unit set_res" where
  "set_update env self [] = Some (Inr (), self)"
| "set_update env self (other # rest) = do {
     (r, s) \<leftarrow> set_update_int env self other;
     case r of Inl e \<Rightarrow> Some (Inl e, s) | Inr u \<Rightarrow> set_update env s rest }"

definition set_union :: "objects \<Rightarrow> mp_set_t \<Rightarrow> mp_obj_t list \<Rightarrow> (exc + mp_set_t) option" where
  "set_union env self other = on_copy env self (\<lambda>s. set_update_int env s other)"

definition set_len :: "mp_set_t \<Rightarrow> nat" where "set_len s = set_used s"

definition set_bool :: "mp_set_t \<Rightarrow> bool" where "set_bool s \<longleftrightarrow> set_used s \<noteq> 0"

text \<open>The hash of a frozenset: \<open>start\<close> is the address of its type.\<close>

fun hash_elements :: "objects \<Rightarrow> mp_set_t \<Rightarrow> nat list \<Rightarrow> u32 \<Rightarrow> (exc + u32) option" where
  "hash_elements env s [] hash = Some (Inr hash)"
| "hash_elements env s (i # is) hash = do {
     f \<leftarrow> MP_SET_SLOT_IS_FILLED s i;
     if f then do {
       e \<leftarrow> rd (set_table s) i;
       case mp_obj_hash env e of
         None \<Rightarrow> Some (Inl TypeError)
       | Some h \<Rightarrow> hash_elements env s is (hash + h) }
     else hash_elements env s is hash }"

definition frozenset_hash :: "objects \<Rightarrow> u32 \<Rightarrow> mp_set_t \<Rightarrow> (exc + mp_obj_t) option" where
  "frozenset_hash env start s = do {
     r \<leftarrow> hash_elements env s [0..<set_alloc s] start;
     Some (case r of Inl e \<Rightarrow> Inl e | Inr hash \<Rightarrow> Inr (MP_OBJ_NEW_SMALL_INT hash)) }"

text \<open>
  The operators with a set on the right.  The left operand is a set (\<open>update\<close>) or a frozenset; the
  result is a new set, the left operand itself, or a truth value.
\<close>

datatype set_op = MP_BINARY_OP_OR | MP_BINARY_OP_XOR | MP_BINARY_OP_AND | MP_BINARY_OP_SUBTRACT
  | MP_BINARY_OP_INPLACE_OR | MP_BINARY_OP_INPLACE_XOR | MP_BINARY_OP_INPLACE_AND | MP_BINARY_OP_INPLACE_SUBTRACT
  | MP_BINARY_OP_LESS | MP_BINARY_OP_MORE | MP_BINARY_OP_EQUAL | MP_BINARY_OP_LESS_EQUAL | MP_BINARY_OP_MORE_EQUAL

datatype set_value = NewSet mp_set_t | Lhs | Bool bool

definition new_set :: "mp_set_t \<Rightarrow> exc + mp_set_t \<Rightarrow> set_value set_res" where
  "new_set lhs r = Some (case r of Inl e \<Rightarrow> Inl e | Inr s \<Rightarrow> Inr (NewSet s), lhs)"

definition lhs_set :: "(exc + unit) \<times> mp_set_t \<Rightarrow> set_value set_res" where
  "lhs_set r = Some (case fst r of Inl e \<Rightarrow> Inl e | Inr u \<Rightarrow> Inr Lhs, snd r)"

definition truth :: "mp_set_t \<Rightarrow> exc + bool \<Rightarrow> set_value set_res" where
  "truth lhs r = Some (case r of Inl e \<Rightarrow> Inl e | Inr b \<Rightarrow> Inr (Bool b), lhs)"

definition set_items :: "mp_set_t \<Rightarrow> mp_obj_t list" where
  "set_items s = filter is_key (set_table s)"

text \<open>
  \<open>rhs\<close> is the other set, or \<open>None\<close> when both operands are the same object.  A set that is iterated
  while an in-place operator changes it gives its elements as they were before: the operator adds
  nothing new, and what it deletes lies behind the cursor.
\<close>

definition set_binary_op :: "objects \<Rightarrow> bool \<Rightarrow> set_op \<Rightarrow> mp_set_t \<Rightarrow> mp_set_t option \<Rightarrow> set_value set_res" where
  "set_binary_op env update op lhs rhs =
     (let r = (case rhs of None \<Rightarrow> lhs | Some s \<Rightarrow> s);
          other = (case rhs of None \<Rightarrow> Itself | Some s \<Rightarrow> Elements (set_items s)) in
      case op of
        MP_BINARY_OP_OR \<Rightarrow> set_union env lhs (set_items r) \<bind> new_set lhs
      | MP_BINARY_OP_XOR \<Rightarrow> set_symmetric_difference env lhs (set_items r) \<bind> new_set lhs
      | MP_BINARY_OP_AND \<Rightarrow> do { (v, s) \<leftarrow> set_intersect_int env lhs other False; new_set lhs v }
      | MP_BINARY_OP_SUBTRACT \<Rightarrow> set_diff env lhs [set_items r] \<bind> new_set lhs
      | MP_BINARY_OP_INPLACE_OR \<Rightarrow> (if update then set_update env lhs [set_items r] \<bind> lhs_set
                       else set_union env lhs (set_items r) \<bind> new_set lhs)
      | MP_BINARY_OP_INPLACE_XOR \<Rightarrow> (if update then set_symmetric_difference_update env lhs (set_items r) \<bind> lhs_set
                        else set_symmetric_difference env lhs (set_items r) \<bind> new_set lhs)
      | MP_BINARY_OP_INPLACE_AND \<Rightarrow> do {
          (v, s) \<leftarrow> set_intersect_int env lhs other update;
          if update then lhs_set (map_sum (\<lambda>e. e) (\<lambda>x. ()) v, s) else new_set lhs v }
      | MP_BINARY_OP_INPLACE_SUBTRACT \<Rightarrow> (if update then set_diff_update env lhs [other] \<bind> lhs_set
                             else set_diff env lhs [set_items r] \<bind> new_set lhs)
      | MP_BINARY_OP_LESS \<Rightarrow> set_issubset_proper env (ASet lhs) (ASet r) \<bind> truth lhs
      | MP_BINARY_OP_MORE \<Rightarrow> set_issuperset_proper env (ASet lhs) (ASet r) \<bind> truth lhs
      | MP_BINARY_OP_EQUAL \<Rightarrow> set_equal env lhs (Some r) \<bind> truth lhs
      | MP_BINARY_OP_LESS_EQUAL \<Rightarrow> set_issubset env (ASet lhs) (ASet r) \<bind> truth lhs
      | MP_BINARY_OP_MORE_EQUAL \<Rightarrow> set_issuperset env (ASet lhs) (ASet r) \<bind> truth lhs)"

definition set_in :: "objects \<Rightarrow> mp_set_t \<Rightarrow> mp_obj_t \<Rightarrow> (exc + bool) option" where
  "set_in env s item = do {
     (r, s) \<leftarrow> mp_set_lookup env s item MP_MAP_LOOKUP;
     Some (case r of Inl e \<Rightarrow> Inl e | Inr elem \<Rightarrow> Inr (elem \<noteq> MP_OBJ_NULL)) }"

subsection \<open>Consistent sets\<close>

definition set_ok :: "objects \<Rightarrow> mp_set_t \<Rightarrow> bool" where
  "set_ok env s \<longleftrightarrow> length (set_table s) = set_alloc s \<and> table_ok env (set_table s)
     \<and> set_used s = card {p. slot_filled (set_table s) p}"

definition elems :: "mp_set_t \<Rightarrow> mp_obj_t set" where
  "elems s = {e \<in> set (set_table s). is_key e}"

text \<open>The objects that a set has: those equal to an element.\<close>

definition members :: "objects \<Rightarrow> mp_set_t \<Rightarrow> mp_obj_t set" where
  "members env s = {x. \<exists>e \<in> elems s. mp_obj_equal env e x}"

lemma elems_slot: "e \<in> elems s \<longleftrightarrow> (\<exists>p. slot_filled (set_table s) p \<and> set_table s ! p = e)"
  by (auto simp: elems_def slot_filled_def is_key_def in_set_conv_nth)

lemma members_key: "x \<notin> members env s \<longleftrightarrow> no_key env (set_table s) x"
  unfolding members_def no_key_def by (simp add: elems_slot Bex_def) metis

lemma slot_elem: "slot_filled (set_table s) p \<Longrightarrow> set_table s ! p \<in> elems s"
  by (auto simp: elems_slot)

lemma elem_key: "e \<in> elems s \<Longrightarrow> is_key e"
  by (simp add: elems_def)

lemma set_items_elems: "set (set_items s) = elems s"
  by (auto simp: set_items_def elems_def)

lemma set_used_le: "set_ok env s \<Longrightarrow> set_used s \<le> set_alloc s"
proof -
  assume ok: "set_ok env s"
  have "card {p. slot_filled (set_table s) p} \<le> card {..<length (set_table s)}"
    by (rule card_mono) (auto simp: slot_filled_def)
  then show ?thesis using ok by (simp add: set_ok_def)
qed

lemma set_full: "set_ok env s \<Longrightarrow> (\<forall>p < set_alloc s. slot_filled (set_table s) p) \<Longrightarrow> set_used s = set_alloc s"
proof -
  assume ok: "set_ok env s" and f: "\<forall>p < set_alloc s. slot_filled (set_table s) p"
  have "{p. slot_filled (set_table s) p} = {..<set_alloc s}"
    using ok f by (auto simp: set_ok_def slot_filled_def)
  then show ?thesis using ok by (simp add: set_ok_def)
qed

lemma elems_inj:
  assumes "object_keys env" and "set_ok env s" and "d \<in> elems s" and "e \<in> elems s" and "mp_obj_equal env d e"
  shows "d = e"
  using assms unfolding elems_slot set_ok_def table_ok_def by metis

lemma set_used_items: "set_ok env s \<Longrightarrow> set_used s = length (set_items s)"
proof -
  assume ok: "set_ok env s"
  have "{p. slot_filled (set_table s) p} = {p. p < length (set_table s) \<and> is_key (set_table s ! p)}"
    by (auto simp: slot_filled_def is_key_def)
  then show ?thesis using ok by (simp add: set_ok_def set_items_def length_filter_conv_card)
qed

fun items_distinct :: "objects \<Rightarrow> mp_obj_t list \<Rightarrow> bool" where
  "items_distinct env [] \<longleftrightarrow> True"
| "items_distinct env (e # es) \<longleftrightarrow> (\<forall>d \<in> set es. \<not> mp_obj_equal env e d) \<and> items_distinct env es"

lemma distinct_slots:
  assumes "\<And>p q. p < q \<Longrightarrow> q < length ks \<Longrightarrow> is_key (ks ! p) \<Longrightarrow> is_key (ks ! q) \<Longrightarrow> \<not> mp_obj_equal env (ks ! p) (ks ! q)"
  shows "items_distinct env (filter is_key ks)"
  using assms
proof (induction ks)
  case (Cons k ks)
  have "items_distinct env (filter is_key ks)"
  proof (rule Cons.IH)
    fix p q assume "p < q" "q < length ks" "is_key (ks ! p)" "is_key (ks ! q)"
    then show "\<not> mp_obj_equal env (ks ! p) (ks ! q)" using Cons.prems [of "Suc p" "Suc q"] by simp
  qed
  moreover have "\<not> mp_obj_equal env k d" if "d \<in> set ks" "is_key d" "is_key k" for d
  proof -
    obtain q where "q < length ks" "ks ! q = d" using \<open>d \<in> set ks\<close> by (auto simp: in_set_conv_nth)
    then show ?thesis using Cons.prems [of 0 "Suc q"] that by simp
  qed
  ultimately show ?case by simp
qed simp

lemma set_items_distinct: "set_ok env s \<Longrightarrow> items_distinct env (set_items s)"
proof -
  assume ok: "set_ok env s"
  show ?thesis unfolding set_items_def
  proof (rule distinct_slots)
    fix p q assume "p < q" "q < length (set_table s)" "is_key (set_table s ! p)" "is_key (set_table s ! q)"
    moreover from this have "slot_filled (set_table s) p" "slot_filled (set_table s) q"
      by (simp_all add: slot_filled_def is_key_def)
    ultimately show "\<not> mp_obj_equal env (set_table s ! p) (set_table s ! q)"
      using ok unfolding set_ok_def table_ok_def by (metis less_irrefl)
  qed
qed

lemma elems_update:
  assumes "a < length (set_table s)"
  shows "elems (s\<lparr>set_table := (set_table s)[a := k], set_used := n\<rparr>)
    = {e. \<exists>p. p \<noteq> a \<and> slot_filled (set_table s) p \<and> set_table s ! p = e} \<union> (if is_key k then {k} else {})"
proof -
  have "e \<in> elems (s\<lparr>set_table := (set_table s)[a := k], set_used := n\<rparr>)
      \<longleftrightarrow> (is_key k \<and> k = e) \<or> (\<exists>p. p \<noteq> a \<and> slot_filled (set_table s) p \<and> set_table s ! p = e)" for e
    using assms unfolding elems_slot by (simp add: slot_filled_update) (metis nth_list_update_eq nth_list_update_neq)
  then show ?thesis by auto
qed

text \<open>A set with one element more, with one element less.\<close>

definition element_added :: "objects \<Rightarrow> mp_set_t \<Rightarrow> mp_obj_t \<Rightarrow> mp_set_t \<Rightarrow> bool" where
  "element_added env s x t \<longleftrightarrow> set_ok env t \<and> elems t = insert x (elems s) \<and> set_used t = set_used s + 1"

definition element_removed :: "objects \<Rightarrow> mp_set_t \<Rightarrow> mp_obj_t \<Rightarrow> mp_set_t \<Rightarrow> bool" where
  "element_removed env s e t \<longleftrightarrow> set_ok env t \<and> elems t = elems s - {e} \<and> set_used t + 1 = set_used s
     \<and> set_alloc t = set_alloc s"

context object_keys
begin

lemma set_add_at_run:
  assumes ok: "set_ok env s" and h: "mp_obj_hash env x \<noteq> None" and k: "is_key x" and nk: "no_key env (set_table s) x"
    and a: "a < length (set_table s)" "\<not> slot_filled (set_table s) a" "on_path (set_table s) (hash_of env x) a"
  shows "\<exists>t. set_add_at s a x = Some (Inr x, t) \<and> element_added env s x t \<and> set_alloc t = set_alloc s"
proof -
  define t where "t = s\<lparr>set_table := (set_table s)[a := x], set_used := set_used s + 1\<rparr>"
  have f: "slot_filled (set_table t) p \<longleftrightarrow> p = a \<or> slot_filled (set_table s) p" for p
    using slot_filled_update [of a "set_table s" x p] a k by (auto simp: t_def)
  have "{p. slot_filled (set_table t) p} = insert a {p. slot_filled (set_table s) p}" by (auto simp: f)
  then have "card {p. slot_filled (set_table t) p} = set_used s + 1" using ok a(2) by (simp add: set_ok_def)
  moreover have "table_ok env (set_table t)"
    using insert_key [OF _ h k nk a(1,3)] ok by (simp add: set_ok_def t_def)
  ultimately have "set_ok env t" using ok by (simp add: set_ok_def) (simp add: t_def)
  moreover have "elems t = insert x (elems s)"
    unfolding t_def elems_update [OF a(1)] using k a(2) by (auto simp: elems_slot)
  moreover have "set_add_at s a x = Some (Inr x, t)" using a(1) by (simp add: set_add_at_def wr_in t_def)
  ultimately show ?thesis by (intro exI [of _ t]) (simp add: element_added_def t_def)
qed

lemma set_delete_at_run:
  assumes ok: "set_ok env s" and p: "slot_filled (set_table s) p"
  shows "\<exists>t. set_delete_at s p = Some t \<and> element_removed env s (set_table s ! p) t"
proof -
  define d where "d = (if set_table s ! ((p + 1) mod length (set_table s)) = MP_OBJ_NULL then MP_OBJ_NULL else MP_OBJ_SENTINEL)"
  define t where "t = s\<lparr>set_table := (set_table s)[p := d], set_used := set_used s - 1\<rparr>"
  have pl: "p < length (set_table s)" using p by (simp add: slot_filled_def)
  have nd: "\<not> is_key d" by (simp add: d_def is_key_def)
  have f: "slot_filled (set_table t) q \<longleftrightarrow> q \<noteq> p \<and> slot_filled (set_table s) q" for q
    using slot_filled_update [OF pl, of d q] nd by (auto simp: t_def)
  have "{q. slot_filled (set_table s) q} = insert p {q. slot_filled (set_table t) q}" using p by (auto simp: f)
  then have c: "set_used s = card {q. slot_filled (set_table t) q} + 1"
  proof -
    have "p \<notin> {q. slot_filled (set_table t) q}" by (simp add: f)
    then have "card (insert p {q. slot_filled (set_table t) q}) = card {q. slot_filled (set_table t) q} + 1"
      by (subst card_insert_disjoint) simp_all
    then show ?thesis using ok \<open>_ = insert p _\<close> by (simp only: set_ok_def)
  qed
  have "table_ok env (set_table t)" using remove_key [OF _ p d_def] ok by (simp add: set_ok_def t_def)
  moreover have "set_used t = card {q. slot_filled (set_table t) q}" using c by (simp add: t_def)
  ultimately have "set_ok env t" using ok by (simp add: set_ok_def) (simp add: t_def)
  moreover have "elems t = elems s - {set_table s ! p}"
  proof -
    have inj: "q = p" if "slot_filled (set_table s) q" "set_table s ! q = set_table s ! p" for q
      using ok that p equal_refl unfolding set_ok_def table_ok_def by metis
    have e: "elems t = {e. \<exists>q. q \<noteq> p \<and> slot_filled (set_table s) q \<and> set_table s ! q = e}"
      unfolding t_def elems_update [OF pl] using nd by simp
    show ?thesis
    proof (intro equalityI subsetI)
      fix x assume "x \<in> elems t"
      then obtain q where "q \<noteq> p" "slot_filled (set_table s) q" "set_table s ! q = x" unfolding e by blast
      then show "x \<in> elems s - {set_table s ! p}" using inj [of q] slot_elem [of s q] by auto
    next
      fix x assume "x \<in> elems s - {set_table s ! p}"
      then have "x \<in> elems s" "x \<noteq> set_table s ! p" by simp_all
      then obtain q where "slot_filled (set_table s) q" "set_table s ! q = x" by (auto simp: elems_slot)
      then show "x \<in> elems t" unfolding e using \<open>x \<noteq> set_table s ! p\<close> by auto
    qed
  qed
  moreover have "set_delete_at s p = Some t"
  proof -
    have "(p + 1) mod set_alloc s < length (set_table s)" using ok pl by (simp add: set_ok_def)
    then show ?thesis using pl ok by (simp add: set_delete_at_def rd_in wr_in t_def d_def set_ok_def)
  qed
  moreover have "set_used t + 1 = set_used s" "set_alloc t = set_alloc s" using c by (simp_all add: t_def)
  ultimately show ?thesis unfolding element_removed_def by blast
qed

end

subsection \<open>What a lookup does\<close>

definition lookup_result :: "objects \<Rightarrow> mp_set_t \<Rightarrow> mp_obj_t \<Rightarrow> mp_map_lookup_kind_t \<Rightarrow> mp_obj_t \<Rightarrow> mp_set_t \<Rightarrow> bool" where
  "lookup_result env s x k r t \<longleftrightarrow>
     (if x \<in> members env s
      then r \<in> elems s \<and> mp_obj_equal env r x \<and> (if removes k then element_removed env s r t else t = s)
      else if adds k then r = x \<and> element_added env s x t else r = MP_OBJ_NULL \<and> t = s)"

lemma result_kept: "lookup_result env s x k r t \<Longrightarrow> set_ok env s \<Longrightarrow> set_ok env t"
  by (auto simp: lookup_result_def element_removed_def element_added_def split: if_splits)

lemma result_moved:
  "lookup_result env s x k r t \<Longrightarrow> elems s' = elems s \<Longrightarrow> set_used s' = set_used s \<Longrightarrow> x \<notin> members env s
   \<Longrightarrow> adds k \<Longrightarrow> lookup_result env s' x k r t"
  by (simp add: lookup_result_def element_added_def members_def)

context object_keys
begin

lemma set_loop_cases:
  assumes ok: "set_ok env s" and ne: "set_alloc s \<noteq> 0" and h: "mp_obj_hash env x \<noteq> None"
  shows "(\<exists>p. slot_filled (set_table s) p \<and> mp_obj_equal env (set_table s ! p) x
      \<and> set_loop (Suc n) lookup env (hash_of env x) s x k
        = do { t \<leftarrow> (if removes k then set_delete_at s p else Some s); Some (Inr (set_table s ! p), t) })
    \<or> (\<exists>a. no_key env (set_table s) x \<and> a < length (set_table s) \<and> \<not> slot_filled (set_table s) a
      \<and> on_path (set_table s) (hash_of env x) a
      \<and> set_loop (Suc n) lookup env (hash_of env x) s x k = (if adds k then set_add_at s a x else Some (Inr MP_OBJ_NULL, s)))
    \<or> no_key env (set_table s) x \<and> set_used s = set_alloc s
      \<and> set_loop (Suc n) lookup env (hash_of env x) s x k
        = (if adds k then do {
             (r, s) \<leftarrow> mp_set_rehash lookup env s;
             case r of Inl e \<Rightarrow> Some (Inl e, s) | Inr u \<Rightarrow> set_loop n lookup env (hash_of env x) s x k }
           else Some (Inr MP_OBJ_NULL, s))"
proof -
  let ?ks = "set_table s"
  have l: "length ?ks = set_alloc s" "table_ok env ?ks" "?ks \<noteq> []" using ok ne by (auto simp: set_ok_def)
  obtain r where r: "probe (\<lambda>e. mp_obj_equal env e x) ?ks (probe_order (hash_of env x mod length ?ks) (length ?ks)) None = Some r"
    "case r of
         Found p \<Rightarrow> slot_filled ?ks p \<and> mp_obj_equal env (?ks ! p) x
       | Empty p a \<Rightarrow> no_key env ?ks x \<and> (case a of None \<Rightarrow> p | Some a \<Rightarrow> a) < length ?ks
           \<and> \<not> slot_filled ?ks (case a of None \<Rightarrow> p | Some a \<Rightarrow> a)
           \<and> on_path ?ks (hash_of env x) (case a of None \<Rightarrow> p | Some a \<Rightarrow> a)
       | Around (Some a) \<Rightarrow> no_key env ?ks x \<and> a < length ?ks \<and> \<not> slot_filled ?ks a \<and> on_path ?ks (hash_of env x) a
       | Around None \<Rightarrow> no_key env ?ks x \<and> (\<forall>p < length ?ks. slot_filled ?ks p)"
    using probe_index [OF l(2,3) h, of "\<lambda>e. mp_obj_equal env e x"] by blast
  note pr = r(1) [unfolded l(1)]
  show ?thesis
  proof (cases r)
    case (Found p)
    then show ?thesis
      using r(2) pr by (intro disjI1 exI [of _ p]) (simp add: slot_filled_def rd_in del: de_Morgan_conj)
  next
    case (Empty p a)
    then show ?thesis
      using r(2) pr by (intro disjI2 disjI1 exI [of _ "case a of None \<Rightarrow> p | Some a \<Rightarrow> a"]) simp
  next
    case (Around a)
    show ?thesis
    proof (cases a)
      case None
      then have "no_key env ?ks x" "set_used s = set_alloc s" using r(2) Around set_full [OF ok] l(1) by auto
      then show ?thesis using pr Around None by (intro disjI2) simp
    next
      case (Some b)
      then show ?thesis using r(2) pr Around by (intro disjI2 disjI1 exI [of _ b]) simp
    qed
  qed
qed

lemma set_loop_result:
  assumes ok: "set_ok env s" and ne: "set_alloc s \<noteq> 0" and h: "mp_obj_hash env x \<noteq> None" and k: "adds k \<longrightarrow> is_key x"
  shows "(\<exists>r t. set_loop (Suc n) lookup env (hash_of env x) s x k = Some (Inr r, t) \<and> lookup_result env s x k r t
      \<and> set_alloc t = set_alloc s)
    \<or> adds k \<and> x \<notin> members env s \<and> set_used s = set_alloc s
      \<and> set_loop (Suc n) lookup env (hash_of env x) s x k
        = do { (r, s) \<leftarrow> mp_set_rehash lookup env s;
               case r of Inl e \<Rightarrow> Some (Inl e, s) | Inr u \<Rightarrow> set_loop n lookup env (hash_of env x) s x k }"
  using set_loop_cases [OF ok ne h, of n lookup k]
proof (elim disjE)
  assume "\<exists>p. slot_filled (set_table s) p \<and> mp_obj_equal env (set_table s ! p) x
      \<and> set_loop (Suc n) lookup env (hash_of env x) s x k
        = do { t \<leftarrow> (if removes k then set_delete_at s p else Some s); Some (Inr (set_table s ! p), t) }"
  then obtain p where p: "slot_filled (set_table s) p" "mp_obj_equal env (set_table s ! p) x"
      "set_loop (Suc n) lookup env (hash_of env x) s x k
        = do { t \<leftarrow> (if removes k then set_delete_at s p else Some s); Some (Inr (set_table s ! p), t) }"
    by blast
  have m: "x \<in> members env s" "set_table s ! p \<in> elems s" using p slot_elem by (auto simp: members_def)
  obtain t where "set_delete_at s p = Some t" "element_removed env s (set_table s ! p) t"
    using set_delete_at_run [OF ok p(1)] by blast
  then show ?thesis
    unfolding p(3) using p(2) m by (cases "removes k") (simp_all add: lookup_result_def element_removed_def)
next
  assume "\<exists>a. no_key env (set_table s) x \<and> a < length (set_table s) \<and> \<not> slot_filled (set_table s) a
      \<and> on_path (set_table s) (hash_of env x) a
      \<and> set_loop (Suc n) lookup env (hash_of env x) s x k = (if adds k then set_add_at s a x else Some (Inr MP_OBJ_NULL, s))"
  then obtain a where nk: "no_key env (set_table s) x" and a: "a < length (set_table s)" "\<not> slot_filled (set_table s) a"
      "on_path (set_table s) (hash_of env x) a"
      "set_loop (Suc n) lookup env (hash_of env x) s x k = (if adds k then set_add_at s a x else Some (Inr MP_OBJ_NULL, s))"
    by blast
  show ?thesis
  proof (cases "adds k")
    case True
    then show ?thesis
      using set_add_at_run [OF ok h k [rule_format, OF True] nk a(1-3)] a(4) nk by (auto simp: lookup_result_def simp flip: members_key)
  next
    case False
    then show ?thesis using a(4) nk by (simp add: lookup_result_def flip: members_key)
  qed
next
  assume "no_key env (set_table s) x \<and> set_used s = set_alloc s
      \<and> set_loop (Suc n) lookup env (hash_of env x) s x k
        = (if adds k then do {
             (r, s) \<leftarrow> mp_set_rehash lookup env s;
             case r of Inl e \<Rightarrow> Some (Inl e, s) | Inr u \<Rightarrow> set_loop n lookup env (hash_of env x) s x k }
           else Some (Inr MP_OBJ_NULL, s))"
  then show ?thesis by (cases "adds k") (simp_all add: lookup_result_def flip: members_key)
qed

lemma set_loop_room:
  assumes ok: "set_ok env s" and ne: "set_alloc s \<noteq> 0" and h: "mp_obj_hash env x \<noteq> None"
    and k: "adds k \<longrightarrow> is_key x" and room: "set_used s < set_alloc s"
  shows "\<exists>r t. set_loop (Suc n) lookup env (hash_of env x) s x k = Some (Inr r, t) \<and> lookup_result env s x k r t
    \<and> set_alloc t = set_alloc s"
  using set_loop_result [OF ok ne h k, of n lookup] room by (elim disjE conjE) simp_all

lemma set_depth_loop:
  assumes "set_alloc s \<noteq> 0" and "mp_obj_hash env x \<noteq> None"
  shows "set_lookup_depth (Suc d) env s x k
    = set_loop 2 (\<lambda>s e. set_lookup_depth d env s e MP_MAP_LOOKUP_ADD_IF_NOT_FOUND) env (hash_of env x) s x k"
  using assms by (auto simp: hash_of_def simp del: set_loop.simps)

lemma set_depth_room:
  assumes ok: "set_ok env s" and room: "set_used s < set_alloc s" and h: "mp_obj_hash env x \<noteq> None" and k: "is_key x"
  shows "\<exists>r t. set_lookup_depth (Suc d) env s x MP_MAP_LOOKUP_ADD_IF_NOT_FOUND = Some (Inr r, t)
    \<and> lookup_result env s x MP_MAP_LOOKUP_ADD_IF_NOT_FOUND r t \<and> set_alloc t = set_alloc s"
proof -
  have ne: "set_alloc s \<noteq> 0" using room by simp
  show ?thesis
    unfolding set_depth_loop [OF ne h] numeral_2_eq_2 using set_loop_room [OF ok ne h] k room by blast
qed

lemma set_reinsert_run:
  assumes "set_ok env s" and "items_distinct env (filter is_key es)"
    and "set_used s + length (filter is_key es) \<le> set_alloc s"
    and "\<And>e. e \<in> set es \<Longrightarrow> is_key e \<Longrightarrow> mp_obj_hash env e \<noteq> None \<and> e \<notin> members env s"
  shows "\<exists>t. set_reinsert (\<lambda>s e. set_lookup_depth (Suc d) env s e MP_MAP_LOOKUP_ADD_IF_NOT_FOUND) es s = Some (Inr (), t)
    \<and> set_ok env t \<and> set_alloc t = set_alloc s \<and> elems t = elems s \<union> set (filter is_key es)
    \<and> set_used t = set_used s + length (filter is_key es)"
  using assms
proof (induction es arbitrary: s)
  case (Cons e es)
  show ?case
  proof (cases "is_key e")
    case False
    then have skip: "(e \<noteq> MP_OBJ_NULL \<and> e \<noteq> MP_OBJ_SENTINEL) = False" by (simp add: is_key_def)
    show ?thesis using Cons.IH [OF Cons.prems(1)] Cons.prems(2-4) False
      by (simp add: skip del: set_lookup_depth.simps de_Morgan_conj)
  next
    case True
    then have key: "(e \<noteq> MP_OBJ_NULL \<and> e \<noteq> MP_OBJ_SENTINEL) = True" by (simp add: is_key_def)
    have he: "mp_obj_hash env e \<noteq> None" "e \<notin> members env s" using Cons.prems(4) [of e] True by simp_all
    have room: "set_used s < set_alloc s" using Cons.prems(3) True by simp
    obtain r t where t: "set_lookup_depth (Suc d) env s e MP_MAP_LOOKUP_ADD_IF_NOT_FOUND = Some (Inr r, t)"
        "lookup_result env s e MP_MAP_LOOKUP_ADD_IF_NOT_FOUND r t" "set_alloc t = set_alloc s"
      using set_depth_room [OF Cons.prems(1) room he(1) True] by blast
    have add: "element_added env s e t" using t(2) he(2) by (simp add: lookup_result_def adds_def)
    have rest: "mp_obj_hash env e' \<noteq> None \<and> e' \<notin> members env t" if e': "e' \<in> set es" "is_key e'" for e'
    proof -
      have "\<not> mp_obj_equal env e e'" using Cons.prems(2) True e' by simp
      then show ?thesis using Cons.prems(4) [of e'] e' add by (auto simp: element_added_def members_def)
    qed
    have tk: "set_ok env t" and us: "set_used t + length (filter is_key es) \<le> set_alloc t"
      using add t(3) Cons.prems(3) True by (simp_all add: element_added_def)
    have di: "items_distinct env (filter is_key es)" using Cons.prems(2) True by simp
    obtain u where "set_reinsert (\<lambda>s e. set_lookup_depth (Suc d) env s e MP_MAP_LOOKUP_ADD_IF_NOT_FOUND) es t = Some (Inr (), u)"
      "set_ok env u" "set_alloc u = set_alloc t" "elems u = elems t \<union> set (filter is_key es)"
      "set_used u = set_used t + length (filter is_key es)"
      using Cons.IH [OF tk di us rest] by blast
    then show ?thesis
      using t add True by (simp add: key element_added_def del: set_lookup_depth.simps)
  qed
qed simp

lemma set_rehash_run:
  assumes ok: "set_ok env s" and mem: "can_alloc env (get_hash_alloc_greater_or_equal_to (set_alloc s + 1))"
  shows "\<exists>t. mp_set_rehash (\<lambda>s e. set_lookup_depth (Suc d) env s e MP_MAP_LOOKUP_ADD_IF_NOT_FOUND) env s = Some (Inr (), t)
    \<and> set_ok env t \<and> set_used t < set_alloc t \<and> elems t = elems s \<and> set_used t = set_used s"
proof -
  let ?n = "get_hash_alloc_greater_or_equal_to (set_alloc s + 1)"
  define s0 where "s0 = s\<lparr>set_alloc := ?n, set_used := 0, set_table := replicate ?n MP_OBJ_NULL\<rparr>"
  have n: "set_alloc s < ?n" using find_hash_alloc [of "set_alloc s + 1"] by simp
  have f0: "\<not> slot_filled (set_table s0) p" for p by (simp add: s0_def slot_filled_def)
  have ok0: "set_ok env s0" using f0 by (simp add: set_ok_def table_ok_def) (simp add: s0_def)
  have m0: "elems s0 = {}" "members env s0 = {}" using f0 by (auto simp: elems_slot members_def)
  have hs: "mp_obj_hash env e \<noteq> None \<and> e \<notin> members env s0" if e: "e \<in> set (set_table s)" "is_key e" for e
  proof -
    have "e \<in> elems s" using e by (simp add: elems_def)
    then show ?thesis using ok m0 by (auto simp: elems_slot set_ok_def table_ok_def)
  qed
  have it: "set_used s = length (filter is_key (set_table s))" "items_distinct env (filter is_key (set_table s))"
    using set_used_items [OF ok] set_items_distinct [OF ok] by (simp_all add: set_items_def)
  have us: "set_used s0 + length (filter is_key (set_table s)) \<le> set_alloc s0"
    using it(1) set_used_le [OF ok] n by (simp add: s0_def)
  obtain t where t: "set_reinsert (\<lambda>s e. set_lookup_depth (Suc d) env s e MP_MAP_LOOKUP_ADD_IF_NOT_FOUND) (set_table s) s0
      = Some (Inr (), t)" "set_ok env t" "set_alloc t = set_alloc s0"
      "elems t = elems s0 \<union> set (filter is_key (set_table s))" "set_used t = set_used s0 + length (filter is_key (set_table s))"
    using set_reinsert_run [OF ok0 it(2) us hs] by blast
  have "mp_set_rehash (\<lambda>s e. set_lookup_depth (Suc d) env s e MP_MAP_LOOKUP_ADD_IF_NOT_FOUND) env s = Some (Inr (), t)"
    using mem t(1) by (simp add: mp_set_rehash_def s0_def Let_def del: set_lookup_depth.simps)
  moreover have "set_used t = set_used s" "set_alloc t = ?n" using t(3,5) it(1) by (simp_all add: s0_def)
  moreover have "elems t = elems s" using t(4) m0 by (auto simp: elems_def)
  ultimately show ?thesis using t(2) n set_used_le [OF ok] by (intro exI [of _ t]) simp
qed


text \<open>With enough memory for a larger table a lookup always succeeds.\<close>

lemma set_lookup_run:
  assumes ok: "set_ok env s" and h: "mp_obj_hash env x \<noteq> None"
    and k: "adds k \<longrightarrow> is_key x" and mem: "adds k \<longrightarrow> can_alloc env (get_hash_alloc_greater_or_equal_to (set_alloc s + 1))"
  shows "\<exists>r t. mp_set_lookup env s x k = Some (Inr r, t) \<and> lookup_result env s x k r t"
proof -
  let ?lookup = "\<lambda>s e. set_lookup_depth 1 env s e MP_MAP_LOOKUP_ADD_IF_NOT_FOUND"
  have again: "\<exists>r t. do { (r, s) \<leftarrow> mp_set_rehash ?lookup env s;
               case r of Inl e \<Rightarrow> Some (Inl e, s) | Inr u \<Rightarrow> set_loop (Suc n) ?lookup env (hash_of env x) s x k } = Some (Inr r, t)
      \<and> lookup_result env s x k r t" if a: "adds k" "x \<notin> members env s" for n
  proof -
    obtain u where u: "mp_set_rehash ?lookup env s = Some (Inr (), u)" "set_ok env u" "set_used u < set_alloc u"
        "elems u = elems s" "set_used u = set_used s"
      using set_rehash_run [OF ok mem [rule_format, OF a(1)], of 0] by (auto simp del: set_lookup_depth.simps)
    have "set_alloc u \<noteq> 0" using u(3) by simp
    then obtain r t where "set_loop (Suc n) ?lookup env (hash_of env x) u x k = Some (Inr r, t)" "lookup_result env u x k r t"
      using set_loop_room [OF u(2) _ h k u(3)] by blast
    moreover have "x \<notin> members env u" using a(2) u(4) by (simp add: members_def)
    ultimately show ?thesis
      using u(1) result_moved [of env u x k r t s] u(4,5) a(1) by (simp del: set_lookup_depth.simps set_loop.simps)
  qed
  show ?thesis
  proof (cases "set_alloc s = 0")
    case True
    then have m: "x \<notin> members env s" using ok by (simp add: members_def elems_def set_ok_def)
    show ?thesis
    proof (cases "adds k")
      case False
      then show ?thesis using True m by (simp add: mp_set_lookup_def numeral_2_eq_2 lookup_result_def)
    next
      case add: True
      have "mp_set_lookup env s x k = do { (r, s) \<leftarrow> mp_set_rehash ?lookup env s;
               case r of Inl e \<Rightarrow> Some (Inl e, s) | Inr u \<Rightarrow> set_loop (Suc 1) ?lookup env (hash_of env x) s x k }"
        using True add h by (auto simp: mp_set_lookup_def numeral_2_eq_2 hash_of_def simp del: set_loop.simps
            split: sum.splits bind_splits)
      then show ?thesis using again [OF add m, of 1] by simp
    qed
  next
    case False
    have e: "mp_set_lookup env s x k = set_loop (Suc (Suc 0)) ?lookup env (hash_of env x) s x k"
      using set_depth_loop [OF False h, of 1] by (simp add: mp_set_lookup_def numeral_2_eq_2 del: set_lookup_depth.simps set_loop.simps)
    show ?thesis
      unfolding e using set_loop_result [OF ok False h k, of "Suc 0" ?lookup]
    proof (elim disjE conjE)
      assume a: "adds k" "x \<notin> members env s"
        "set_loop (Suc (Suc 0)) ?lookup env (hash_of env x) s x k = do { (r, s) \<leftarrow> mp_set_rehash ?lookup env s;
               case r of Inl e \<Rightarrow> Some (Inl e, s) | Inr u \<Rightarrow> set_loop (Suc 0) ?lookup env (hash_of env x) s x k }"
      show "\<exists>r t. set_loop (Suc (Suc 0)) ?lookup env (hash_of env x) s x k = Some (Inr r, t) \<and> lookup_result env s x k r t"
        unfolding a(3) by (rule again [OF a(1,2)])
    qed blast
  qed
qed

text \<open>An object without a hash, which an empty table does not ask for.\<close>

lemma set_lookup_unhashable:
  assumes "set_alloc s \<noteq> 0" and "mp_obj_hash env x = None"
  shows "mp_set_lookup env s x k = Some (Inl TypeError, s)"
  using assms by (simp add: mp_set_lookup_def numeral_2_eq_2)

end

subsection \<open>Sets of objects\<close>

text \<open>The objects equal to one of a list; a set of objects that has with an object all equal ones.\<close>

definition classes :: "objects \<Rightarrow> mp_obj_t list \<Rightarrow> mp_obj_t set" where
  "classes env es = {y. \<exists>e \<in> set es. mp_obj_equal env e y}"

definition closed :: "objects \<Rightarrow> mp_obj_t set \<Rightarrow> bool" where
  "closed env A \<longleftrightarrow> (\<forall>x y. x \<in> A \<longrightarrow> mp_obj_equal env x y \<longrightarrow> y \<in> A)"

definition after :: "objects \<Rightarrow> mp_map_lookup_kind_t \<Rightarrow> mp_obj_t \<Rightarrow> mp_obj_t set \<Rightarrow> mp_obj_t set" where
  "after env k x A = (if x \<in> A then if removes k then A - classes env [x] else A
                      else if adds k then A \<union> classes env [x] else A)"

text \<open>Objects that can be elements.\<close>

definition keyable :: "objects \<Rightarrow> mp_obj_t list \<Rightarrow> bool" where
  "keyable env es \<longleftrightarrow> (\<forall>e \<in> set es. is_key e \<and> mp_obj_hash env e \<noteq> None)"

lemma keyable_simps [simp]:
  "keyable env []" "keyable env (e # es) \<longleftrightarrow> is_key e \<and> mp_obj_hash env e \<noteq> None \<and> keyable env es"
  by (auto simp: keyable_def)

lemma classes_simps [simp]: "classes env [] = {}" "classes env (x # y # es) = classes env [x] \<union> classes env (y # es)"
  by (auto simp: classes_def)

lemma classes_Cons: "classes env (x # es) = classes env [x] \<union> classes env es"
  by (auto simp: classes_def)

lemma lookup_kinds [simp]:
  "adds MP_MAP_LOOKUP_ADD_IF_NOT_FOUND" "\<not> removes MP_MAP_LOOKUP_ADD_IF_NOT_FOUND"
  "\<not> adds MP_MAP_LOOKUP_REMOVE_IF_FOUND" "removes MP_MAP_LOOKUP_REMOVE_IF_FOUND"
  "adds MP_MAP_LOOKUP_ADD_IF_NOT_FOUND_OR_REMOVE_IF_FOUND" "removes MP_MAP_LOOKUP_ADD_IF_NOT_FOUND_OR_REMOVE_IF_FOUND"
  "\<not> adds MP_MAP_LOOKUP" "\<not> removes MP_MAP_LOOKUP"
  by (simp_all add: adds_def removes_def)

lemma members_items: "members env s = classes env (set_items s)"
  by (simp add: members_def classes_def set_items_elems)

lemma keyable_items: "set_ok env s \<Longrightarrow> keyable env (set_items s)"
  by (auto simp: keyable_def set_items_elems elems_slot set_ok_def table_ok_def slot_filled_def is_key_def)

context object_keys
begin

lemma class_of [simp]: "x \<in> classes env [x]"
  using equal_refl by (simp add: classes_def)

lemma not_via: "mp_obj_equal env a b \<Longrightarrow> mp_obj_equal env b c \<Longrightarrow> \<not> mp_obj_equal env a c \<Longrightarrow> False"
  using equal_trans by blast

lemma class_disjoint: "\<not> mp_obj_equal env a b \<Longrightarrow> classes env [a] \<inter> classes env [b] = {}"
  using not_via [of a _ b] equal_sym by (auto simp: classes_def)

lemma members_closed: "closed env (members env s)"
  unfolding closed_def members_def using equal_trans by blast

lemma classes_closed: "closed env (classes env es)"
  unfolding closed_def classes_def using equal_trans by blast

lemma closed_class: "closed env A \<Longrightarrow> x \<in> A \<Longrightarrow> classes env [x] \<subseteq> A"
  by (auto simp: closed_def classes_def)

lemma closed_outside: "closed env A \<Longrightarrow> x \<notin> A \<Longrightarrow> A \<inter> classes env [x] = {}"
  using equal_sym by (auto simp: closed_def classes_def)

lemma result_members:
  assumes ok: "set_ok env s" and r: "lookup_result env s x k r t"
  shows "members env t = after env k x (members env s)"
proof (cases "x \<in> members env s")
  case False
  then show ?thesis
    using r by (auto simp: lookup_result_def after_def element_added_def members_def classes_def)
next
  case True
  then have r: "r \<in> elems s" "mp_obj_equal env r x" "if removes k then element_removed env s r t else t = s"
    using r by (simp_all add: lookup_result_def)
  show ?thesis
  proof (cases "removes k")
    case False
    then show ?thesis using r(3) True by (simp add: after_def)
  next
    case rem: True
    then have el: "elems t = elems s - {r}" using r(3) by (simp add: element_removed_def)
    have "y \<in> members env t \<longleftrightarrow> y \<in> members env s \<and> y \<notin> classes env [x]" for y
    proof
      assume "y \<in> members env t"
      then obtain e where e: "e \<in> elems s" "e \<noteq> r" "mp_obj_equal env e y" by (auto simp: members_def el)
      have "y \<notin> classes env [x]"
      proof
        assume "y \<in> classes env [x]"
        then have "mp_obj_equal env y x" using equal_sym by (simp add: classes_def)
        then have "mp_obj_equal env e r" using equal_trans [OF e(3)] equal_trans equal_sym [OF r(2)] by blast
        then show False using elems_inj [OF object_keys_axioms ok e(1) r(1)] e(2) by simp
      qed
      then show "y \<in> members env s \<and> y \<notin> classes env [x]" using e by (auto simp: members_def)
    next
      assume y: "y \<in> members env s \<and> y \<notin> classes env [x]"
      then obtain e where e: "e \<in> elems s" "mp_obj_equal env e y" by (auto simp: members_def)
      have "e \<noteq> r"
      proof
        assume "e = r"
        then have "mp_obj_equal env x y" using equal_trans [OF equal_sym [OF r(2)]] e(2) by simp
        then show False using y by (simp add: classes_def)
      qed
      then show "y \<in> members env t" using e by (auto simp: members_def el)
    qed
    then show ?thesis using True rem by (auto simp: after_def)
  qed
qed

lemma fold_add: "closed env A \<Longrightarrow> fold (after env MP_MAP_LOOKUP_ADD_IF_NOT_FOUND) es A = A \<union> classes env es"
proof (induction es arbitrary: A)
  case (Cons e es)
  have a: "after env MP_MAP_LOOKUP_ADD_IF_NOT_FOUND e A = A \<union> classes env [e]"
    using closed_class [OF Cons.prems, of e] by (auto simp: after_def)
  have "closed env (A \<union> classes env [e])" using Cons.prems classes_closed [of "[e]"] unfolding closed_def by blast
  then show ?case using Cons.IH classes_Cons [of env e es] by (simp add: a Un_assoc)
qed simp

lemma fold_remove: "closed env A \<Longrightarrow> fold (after env MP_MAP_LOOKUP_REMOVE_IF_FOUND) es A = A - classes env es"
proof (induction es arbitrary: A)
  case (Cons e es)
  have a: "after env MP_MAP_LOOKUP_REMOVE_IF_FOUND e A = A - classes env [e]"
    using closed_outside [OF Cons.prems, of e] by (auto simp: after_def)
  have "closed env (A - classes env [e])"
    using Cons.prems classes_closed [of "[e]"] equal_sym unfolding closed_def by blast
  then show ?case using Cons.IH classes_Cons [of env e es] by (auto simp: a)
qed simp

lemma fold_toggle:
  "closed env A \<Longrightarrow> items_distinct env es \<Longrightarrow> fold (after env MP_MAP_LOOKUP_ADD_IF_NOT_FOUND_OR_REMOVE_IF_FOUND) es A
     = (A - classes env es) \<union> (classes env es - A)"
proof (induction es arbitrary: A)
  case (Cons e es)
  have a: "after env MP_MAP_LOOKUP_ADD_IF_NOT_FOUND_OR_REMOVE_IF_FOUND e A = (A - classes env [e]) \<union> (classes env [e] - A)"
    using closed_class [OF Cons.prems(1), of e] closed_outside [OF Cons.prems(1), of e] by (auto simp: after_def)
  have c: "closed env ((A - classes env [e]) \<union> (classes env [e] - A))"
    using Cons.prems(1) classes_closed [of "[e]"] equal_sym unfolding closed_def by blast
  have d: "classes env [e] \<inter> classes env es = {}"
  proof -
    have "classes env [e] \<inter> classes env [d] = {}" if "d \<in> set es" for d
      using Cons.prems(2) that by (intro class_disjoint) simp
    then show ?thesis by (auto simp: classes_def)
  qed
  show ?case
    using Cons.IH [OF c] Cons.prems(2) classes_Cons [of env e es] d by (auto simp: a)
qed simp

end

locale roomy_keys = object_keys +
  assumes memory: "can_alloc env n"
begin

lemma lookup_step:
  assumes ok: "set_ok env s" and x: "keyable env [x]"
  obtains r t where "mp_set_lookup env s x k = Some (Inr r, t)" "lookup_result env s x k r t" "set_ok env t"
    "members env t = after env k x (members env s)"
proof -
  have hk: "mp_obj_hash env x \<noteq> None" "is_key x" using x by simp_all
  obtain r t where rt: "mp_set_lookup env s x k = Some (Inr r, t)" "lookup_result env s x k r t"
    using set_lookup_run [OF ok hk(1), of k] hk(2) memory by blast
  show thesis by (rule that [OF rt result_kept [OF rt(2) ok] result_members [OF ok rt(2)]])
qed

lemma for_elements_run:
  "set_ok env s \<Longrightarrow> keyable env es \<Longrightarrow> \<exists>t. for_elements (\<lambda>s e. mp_set_lookup env s e k) es s = Some (Inr (), t)
    \<and> set_ok env t \<and> members env t = fold (after env k) es (members env s)"
proof (induction es arbitrary: s)
  case (Cons e es)
  obtain r t where rt: "mp_set_lookup env s e k = Some (Inr r, t)" "set_ok env t"
      "members env t = after env k e (members env s)"
    using lookup_step [OF Cons.prems(1), of e k] Cons.prems(2) by (metis keyable_simps)
  then show ?case using Cons.IH [OF rt(2)] Cons.prems(2) by simp
qed simp

lemma add_elements:
  assumes "set_ok env s" and "keyable env es"
  shows "\<exists>t. for_elements (\<lambda>s e. mp_set_lookup env s e MP_MAP_LOOKUP_ADD_IF_NOT_FOUND) es s = Some (Inr (), t)
    \<and> set_ok env t \<and> members env t = members env s \<union> classes env es"
  using for_elements_run [OF assms, of MP_MAP_LOOKUP_ADD_IF_NOT_FOUND] by (simp add: fold_add members_closed)

lemma remove_elements:
  assumes "set_ok env s" and "keyable env es"
  shows "\<exists>t. for_elements (\<lambda>s e. mp_set_lookup env s e MP_MAP_LOOKUP_REMOVE_IF_FOUND) es s = Some (Inr (), t)
    \<and> set_ok env t \<and> members env t = members env s - classes env es"
  using for_elements_run [OF assms, of MP_MAP_LOOKUP_REMOVE_IF_FOUND] by (simp add: fold_remove members_closed)

lemma toggle_elements:
  assumes "set_ok env s" and "keyable env es" and "items_distinct env es"
  shows "\<exists>t. for_elements (\<lambda>s e. mp_set_lookup env s e MP_MAP_LOOKUP_ADD_IF_NOT_FOUND_OR_REMOVE_IF_FOUND) es s = Some (Inr (), t)
    \<and> set_ok env t \<and> members env t = (members env s - classes env es) \<union> (classes env es - members env s)"
  using for_elements_run [OF assms(1,2), of MP_MAP_LOOKUP_ADD_IF_NOT_FOUND_OR_REMOVE_IF_FOUND]
  by (simp add: fold_toggle members_closed assms(3))

end

subsection \<open>The operations on set objects\<close>

lemma bind_Inr: "f = Some (Inr u, t) \<Longrightarrow>
    do { (r, s) \<leftarrow> f; Some (case r of Inl e \<Rightarrow> Inl e | Inr u \<Rightarrow> Inr s) } = Some (Inr t)"
  by simp

definition empty_set :: mp_set_t where
  "empty_set = \<lparr>set_alloc = 0, set_used = 0, set_table = []\<rparr>"

lemma empty_set_ok [simp]: "set_ok env empty_set" "elems empty_set = {}" "members env empty_set = {}"
  by (simp_all add: empty_set_def set_ok_def table_ok_def slot_filled_def elems_def members_def)

lemma mp_set_clear_empty: "mp_set_clear s = empty_set"
  by (simp add: mp_set_clear_def empty_set_def)

lemma new_empty_set: "mp_obj_new_set env [] = Some (Inr empty_set)"
  by (simp add: mp_obj_new_set_def mp_set_init_def empty_set_def)

lemma set_make_new_run: "set_make_new env (Some es) = do {
    (r, s) \<leftarrow> for_elements (mp_obj_set_store env) es empty_set;
    Some (case r of Inl e \<Rightarrow> Inl e | Inr u \<Rightarrow> Inr s) }"
  by (simp add: set_make_new_def new_empty_set)

context roomy_keys
begin

lemma set_copy_run: "set_ok env s \<Longrightarrow> set_copy env s = Some (Inr s)"
  by (simp add: set_copy_def mp_set_init_def memory slice_in blit_in set_ok_def)

lemma new_set_run:
  assumes "keyable env es"
  shows "\<exists>t. set_make_new env (Some es) = Some (Inr t) \<and> set_ok env t \<and> members env t = classes env es"
proof -
  obtain t where "for_elements (mp_obj_set_store env) es empty_set = Some (Inr (), t)" "set_ok env t"
      "members env t = classes env es"
    using add_elements [OF empty_set_ok(1) assms] by (auto simp: mp_obj_set_store_def [abs_def])
  then show ?thesis by (intro exI [of _ t]) (simp add: set_make_new_run)
qed

lemma set_union_run:
  assumes "set_ok env s" and "keyable env es"
  shows "\<exists>t. set_union env s es = Some (Inr t) \<and> set_ok env t \<and> members env t = members env s \<union> classes env es"
  using add_elements [OF assms] by (auto simp: set_union_def on_copy_def set_copy_run assms(1) set_update_int_def)

lemma set_update_run:
  assumes "set_ok env s" and "keyable env es"
  shows "\<exists>t. set_update env s [es] = Some (Inr (), t) \<and> set_ok env t \<and> members env t = members env s \<union> classes env es"
  using add_elements [OF assms] by (auto simp: set_update_int_def)

lemma set_diff_run:
  assumes "set_ok env s" and "keyable env es"
  shows "\<exists>t. set_diff env s [es] = Some (Inr t) \<and> set_ok env t \<and> members env t = members env s - classes env es"
  using remove_elements [OF assms] by (auto simp: set_diff_def set_copy_run assms(1))

lemma set_diff_update_run:
  assumes "set_ok env s" and "keyable env es"
  shows "\<exists>t. set_diff_update env s [Elements es] = Some (Inr (), t) \<and> set_ok env t
    \<and> members env t = members env s - classes env es"
  using remove_elements [OF assms] by (auto simp: set_diff_update_def)

lemma set_symmetric_difference_run:
  assumes "set_ok env s" and "keyable env es" and "items_distinct env es"
  shows "\<exists>t. set_symmetric_difference env s es = Some (Inr t) \<and> set_symmetric_difference_update env s es = Some (Inr (), t)
    \<and> set_ok env t \<and> members env t = (members env s - classes env es) \<union> (classes env es - members env s)"
  using toggle_elements [OF assms]
  by (auto simp: set_symmetric_difference_def on_copy_def set_copy_run assms(1) set_symmetric_difference_update_def)

lemma find_run:
  assumes "set_ok env s" and "keyable env [x]"
  shows "\<exists>r. mp_set_lookup env s x MP_MAP_LOOKUP = Some (Inr r, s) \<and> (r \<noteq> MP_OBJ_NULL \<longleftrightarrow> x \<in> members env s)"
proof -
  obtain r t where "mp_set_lookup env s x MP_MAP_LOOKUP = Some (Inr r, t)" "lookup_result env s x MP_MAP_LOOKUP r t"
    using lookup_step [OF assms, of MP_MAP_LOOKUP] by metis
  moreover from this(2) have "t = s" "r \<noteq> MP_OBJ_NULL \<longleftrightarrow> x \<in> members env s"
    using elem_key [of r s] by (auto simp: lookup_result_def is_key_def split: if_splits)
  ultimately show ?thesis by blast
qed

lemma intersect_loop_run:
  "set_ok env s \<Longrightarrow> set_ok env out \<Longrightarrow> keyable env es
   \<Longrightarrow> \<exists>t. intersect_loop env es s out = Some (Inr (), t) \<and> set_ok env t
     \<and> members env t = members env out \<union> (members env s \<inter> classes env es)"
proof (induction es arbitrary: out)
  case (Cons e es)
  have e: "keyable env [e]" and es: "keyable env es" using Cons.prems(3) by simp_all
  obtain r where r: "mp_set_lookup env s e MP_MAP_LOOKUP = Some (Inr r, s)" "r \<noteq> MP_OBJ_NULL \<longleftrightarrow> e \<in> members env s"
    using find_run [OF Cons.prems(1) e] by blast
  show ?case
  proof (cases "e \<in> members env s")
    case True
    obtain u where u: "set_add env out e = Some (Inr (), u)" "set_ok env u" "members env u = members env out \<union> classes env [e]"
      using add_elements [OF Cons.prems(2) e] unfolding set_add_def by blast
    obtain t where "intersect_loop env es s u = Some (Inr (), t)" "set_ok env t"
        "members env t = members env u \<union> (members env s \<inter> classes env es)"
      using Cons.IH [OF Cons.prems(1) u(2) es] by blast
    then show ?thesis
      using r u True closed_class [OF members_closed True] classes_Cons [of env e es] by auto
  next
    case False
    obtain t where "intersect_loop env es s out = Some (Inr (), t)" "set_ok env t"
        "members env t = members env out \<union> (members env s \<inter> classes env es)"
      using Cons.IH [OF Cons.prems(1,2) es] by blast
    then show ?thesis
      using r False closed_outside [OF members_closed False] classes_Cons [of env e es] by auto
  qed
qed simp

lemma set_intersect_run:
  assumes "set_ok env s" and "keyable env es"
  shows "\<exists>t. set_intersect_int env s (Elements es) update = Some (Inr t, if update then t else s) \<and> set_ok env t
    \<and> members env t = members env s \<inter> classes env es"
  using intersect_loop_run [OF assms(1) empty_set_ok(1) assms(2)] by (auto simp: set_intersect_int_def new_empty_set)

end

subsection \<open>Iteration and comparison\<close>

lemma slot_filled_run: "p < length (set_table s) \<Longrightarrow> MP_SET_SLOT_IS_FILLED s p = Some (slot_filled (set_table s) p)"
  by (simp add: MP_SET_SLOT_IS_FILLED_def rd_in slot_filled_def)

text \<open>The next element of an iteration: the first filled slot from the cursor on.\<close>

lemma next_element_run:
  "a \<le> length (set_table s) \<Longrightarrow>
   (if \<exists>p \<ge> a. slot_filled (set_table s) p
    then \<exists>p \<ge> a. slot_filled (set_table s) p \<and> (\<forall>q \<ge> a. q < p \<longrightarrow> \<not> slot_filled (set_table s) q)
      \<and> next_element s [a..<length (set_table s)] c = Some (Some (set_table s ! p), p + 1)
    else next_element s [a..<length (set_table s)] c = Some (None, c))"
proof (induction "length (set_table s) - a" arbitrary: a)
  case 0
  then show ?case by (simp add: slot_filled_def)
next
  case (Suc n)
  then have a: "a < length (set_table s)" by simp
  then have u: "[a..<length (set_table s)] = a # [Suc a..<length (set_table s)]" by (simp add: upt_conv_Cons)
  show ?case
  proof (cases "slot_filled (set_table s) a")
    case True
    then show ?thesis using a by (auto simp: u slot_filled_run rd_in intro!: exI [of _ a])
  next
    case False
    have ge: "(\<exists>p \<ge> a. slot_filled (set_table s) p) \<longleftrightarrow> (\<exists>p \<ge> Suc a. slot_filled (set_table s) p)"
      using False by (metis Suc_leD Suc_leI le_neq_implies_less)
    have step: "next_element s [a..<length (set_table s)] c = next_element s [Suc a..<length (set_table s)] c"
      using False a by (simp add: u slot_filled_run)
    have "n = length (set_table s) - Suc a" "Suc a \<le> length (set_table s)" using Suc.hyps(2) a by simp_all
    note ih = Suc.hyps(1) [OF this]
    show ?thesis
    proof (cases "\<exists>p \<ge> Suc a. slot_filled (set_table s) p")
      case True
      then obtain p where p: "p \<ge> Suc a" "slot_filled (set_table s) p" "\<forall>q \<ge> Suc a. q < p \<longrightarrow> \<not> slot_filled (set_table s) q"
          "next_element s [Suc a..<length (set_table s)] c = Some (Some (set_table s ! p), p + 1)"
        using ih by auto
      have "\<forall>q \<ge> a. q < p \<longrightarrow> \<not> slot_filled (set_table s) q" using p(3) False by (metis Suc_leI le_neq_implies_less)
      then show ?thesis unfolding ge step using True p(1,2,4) by (auto intro!: exI [of _ p])
    next
      case False
      then have n: "(\<exists>p \<ge> Suc a. slot_filled (set_table s) p) = False" by simp
      show ?thesis unfolding ge step n using ih [unfolded n] by simp
    qed
  qed
qed

context roomy_keys
begin

lemma all_in_run:
  assumes ok: "set_ok env s" "set_ok env t"
  shows "c \<le> set_alloc s \<Longrightarrow> all_in env s c t
    = Some (Inr (\<forall>p \<ge> c. slot_filled (set_table s) p \<longrightarrow> set_table s ! p \<in> members env t))"
proof (induction "set_alloc s - c" arbitrary: c rule: less_induct)
  case less
  have l: "length (set_table s) = set_alloc s" using ok(1) by (simp add: set_ok_def)
  note nx = next_element_run [of c s c, unfolded l, folded set_it_iternext_def, OF less.prems]
  show ?case
  proof (cases "\<exists>p \<ge> c. slot_filled (set_table s) p")
    case False
    then show ?thesis using nx by (auto simp: all_in.simps [of env s c t])
  next
    case True
    then obtain p where p: "c \<le> p" "slot_filled (set_table s) p" "\<forall>q \<ge> c. q < p \<longrightarrow> \<not> slot_filled (set_table s) q"
        "set_it_iternext s c = Some (Some (set_table s ! p), p + 1)"
      using nx by auto
    have pl: "p + 1 \<le> set_alloc s" using p(2) l by (simp add: slot_filled_def)
    have "keyable env [set_table s ! p]"
      using ok(1) p(2) by (simp add: set_ok_def table_ok_def slot_filled_def is_key_def)
    then obtain r where r: "mp_set_lookup env t (set_table s ! p) MP_MAP_LOOKUP = Some (Inr r, t)"
        "r \<noteq> MP_OBJ_NULL \<longleftrightarrow> set_table s ! p \<in> members env t"
      using find_run [OF ok(2)] by blast
    have rest: "all_in env s (p + 1) t
        = Some (Inr (\<forall>q \<ge> p + 1. slot_filled (set_table s) q \<longrightarrow> set_table s ! q \<in> members env t))"
      using p(1) pl by (intro less.hyps) simp_all
    have "(\<forall>q \<ge> c. slot_filled (set_table s) q \<longrightarrow> set_table s ! q \<in> members env t)
        \<longleftrightarrow> set_table s ! p \<in> members env t \<and> (\<forall>q \<ge> p + 1. slot_filled (set_table s) q \<longrightarrow> set_table s ! q \<in> members env t)"
    proof (intro iffI conjI allI impI)
      fix q assume a: "set_table s ! p \<in> members env t \<and> (\<forall>q \<ge> p + 1. slot_filled (set_table s) q \<longrightarrow> set_table s ! q \<in> members env t)"
        and q: "c \<le> q" "slot_filled (set_table s) q"
      consider "q < p" | "q = p" | "p + 1 \<le> q" by linarith
      then show "set_table s ! q \<in> members env t" using a q p(3) by cases auto
    qed (use p(1,2) in auto)
    then show ?thesis using p(4) r rest by (auto simp: all_in.simps [of env s c t])
  qed
qed

lemma all_in_subset:
  assumes "set_ok env s" and "set_ok env t"
  shows "all_in env s 0 t = Some (Inr (members env s \<subseteq> members env t))"
proof -
  have "(\<forall>p \<ge> 0. slot_filled (set_table s) p \<longrightarrow> set_table s ! p \<in> members env t) \<longleftrightarrow> (\<forall>e \<in> elems s. e \<in> members env t)"
    unfolding Ball_def elems_slot by auto
  also have "\<dots> \<longleftrightarrow> members env s \<subseteq> members env t"
  proof
    assume e: "\<forall>e \<in> elems s. e \<in> members env t"
    show "members env s \<subseteq> members env t"
    proof
      fix x assume "x \<in> members env s"
      then obtain e where "e \<in> elems s" "mp_obj_equal env e x" by (auto simp: members_def)
      then show "x \<in> members env t" using e members_closed unfolding closed_def by blast
    qed
  next
    assume "members env s \<subseteq> members env t"
    then show "\<forall>e \<in> elems s. e \<in> members env t" using equal_refl by (auto simp: members_def)
  qed
  finally show ?thesis using all_in_run [OF assms, of 0] by simp
qed

end

context object_keys
begin

text \<open>Equal sets have the same number of elements: a choice of equal elements is a bijection.\<close>

lemma elems_distinct: "items_distinct env es \<Longrightarrow> distinct es"
  using equal_refl by (induction es) auto

lemma used_card: "set_ok env s \<Longrightarrow> set_used s = card (elems s)"
  using set_used_items distinct_card [OF elems_distinct [OF set_items_distinct]] by (simp add: set_items_elems)

lemma finite_elems [simp]: "finite (elems s)"
  by (simp add: elems_def)

lemma element_choice:
  assumes ok: "set_ok env s" "set_ok env t" and sub: "members env s \<subseteq> members env t"
  obtains f where "inj_on f (elems s)" "f ` elems s \<subseteq> elems t" "\<And>e. e \<in> elems s \<Longrightarrow> mp_obj_equal env (f e) e"
proof -
  have "\<forall>e \<in> elems s. \<exists>d. d \<in> elems t \<and> mp_obj_equal env d e"
  proof
    fix e assume "e \<in> elems s"
    then have "e \<in> members env t" using sub equal_refl by (auto simp: members_def)
    then show "\<exists>d. d \<in> elems t \<and> mp_obj_equal env d e" by (auto simp: members_def)
  qed
  then obtain f where f: "\<forall>e \<in> elems s. f e \<in> elems t \<and> mp_obj_equal env (f e) e" by metis
  have "inj_on f (elems s)"
  proof (rule inj_onI)
    fix d e assume de: "d \<in> elems s" "e \<in> elems s" "f d = f e"
    then have "mp_obj_equal env d e" using f equal_sym equal_trans by metis
    then show "d = e" using elems_inj [OF object_keys_axioms ok(1) de(1,2)] by simp
  qed
  then show thesis using that f by blast
qed

lemma subset_count:
  assumes ok: "set_ok env s" "set_ok env t" and sub: "members env s \<subseteq> members env t"
  shows "set_used s \<le> set_used t" and "set_used s = set_used t \<longleftrightarrow> members env s = members env t"
proof -
  obtain f where f: "inj_on f (elems s)" "f ` elems s \<subseteq> elems t" "\<And>e. e \<in> elems s \<Longrightarrow> mp_obj_equal env (f e) e"
    using element_choice [OF assms] by blast
  show le: "set_used s \<le> set_used t" using card_inj_on_le [OF f(1,2)] used_card ok by simp
  show "set_used s = set_used t \<longleftrightarrow> members env s = members env t"
  proof
    assume "set_used s = set_used t"
    then have im: "f ` elems s = elems t"
      using f(1,2) used_card ok by (intro card_subset_eq) (simp_all add: card_image)
    have "members env t \<subseteq> members env s"
    proof
      fix x assume "x \<in> members env t"
      then obtain d where "d \<in> elems t" "mp_obj_equal env d x" by (auto simp: members_def)
      moreover from this have "d \<in> f ` elems s" by (simp only: im)
      ultimately obtain e where "e \<in> elems s" "mp_obj_equal env (f e) x" by auto
      moreover from this have "mp_obj_equal env e x" by (rule equal_trans [OF equal_sym [OF f(3)]])
      ultimately show "x \<in> members env s" by (auto simp: members_def)
    qed
    then show "members env s = members env t" using sub by blast
  next
    assume "members env s = members env t"
    then have "members env t \<subseteq> members env s" by simp
    then obtain g where g: "inj_on g (elems t)" "g ` elems t \<subseteq> elems s"
      using element_choice [OF ok(2,1)] by metis
    show "set_used s = set_used t" using le card_inj_on_le [OF g] used_card ok by simp
  qed
qed

end

subsection \<open>The operators\<close>

fun result_set :: "set_op \<Rightarrow> 'a set \<Rightarrow> 'a set \<Rightarrow> 'a set option" where
  "result_set MP_BINARY_OP_OR A B = Some (A \<union> B)"
| "result_set MP_BINARY_OP_XOR A B = Some ((A - B) \<union> (B - A))"
| "result_set MP_BINARY_OP_AND A B = Some (A \<inter> B)"
| "result_set MP_BINARY_OP_SUBTRACT A B = Some (A - B)"
| "result_set MP_BINARY_OP_INPLACE_OR A B = Some (A \<union> B)"
| "result_set MP_BINARY_OP_INPLACE_XOR A B = Some ((A - B) \<union> (B - A))"
| "result_set MP_BINARY_OP_INPLACE_AND A B = Some (A \<inter> B)"
| "result_set MP_BINARY_OP_INPLACE_SUBTRACT A B = Some (A - B)"
| "result_set op A B = None"

fun comparison :: "set_op \<Rightarrow> 'a set \<Rightarrow> 'a set \<Rightarrow> bool" where
  "comparison MP_BINARY_OP_LESS A B \<longleftrightarrow> A \<subset> B"
| "comparison MP_BINARY_OP_MORE A B \<longleftrightarrow> B \<subset> A"
| "comparison MP_BINARY_OP_LESS_EQUAL A B \<longleftrightarrow> A \<subseteq> B"
| "comparison MP_BINARY_OP_MORE_EQUAL A B \<longleftrightarrow> B \<subseteq> A"
| "comparison op A B \<longleftrightarrow> A = B"

definition in_place :: "set_op \<Rightarrow> bool" where
  "in_place op \<longleftrightarrow> op \<in> {MP_BINARY_OP_INPLACE_OR, MP_BINARY_OP_INPLACE_XOR, MP_BINARY_OP_INPLACE_AND, MP_BINARY_OP_INPLACE_SUBTRACT}"

text \<open>What an operator may give: a new set, the left operand, or a truth value.\<close>

definition operator_result :: "objects \<Rightarrow> bool \<Rightarrow> set_op \<Rightarrow> mp_set_t \<Rightarrow> mp_obj_t set \<Rightarrow> set_value \<Rightarrow> mp_set_t \<Rightarrow> bool" where
  "operator_result env update op s B v s' \<longleftrightarrow>
     (case v of
        NewSet u \<Rightarrow> s' = s \<and> set_ok env u \<and> result_set op (members env s) B = Some (members env u) \<and> \<not> (update \<and> in_place op)
      | Lhs \<Rightarrow> set_ok env s' \<and> result_set op (members env s) B = Some (members env s') \<and> update \<and> in_place op
      | Bool b \<Rightarrow> s' = s \<and> result_set op (members env s) B = None \<and> b = comparison op (members env s) B)"

lemma new_set_result:
  assumes "f = Some (Inr u)" and "set_ok env u" and "result_set op (members env s) B = Some (members env u)"
    and "\<not> (update \<and> in_place op)"
  shows "\<exists>v s'. f \<bind> new_set s = Some (Inr v, s') \<and> operator_result env update op s B v s'"
  using assms by (simp add: new_set_def operator_result_def)

lemma lhs_result:
  assumes "f = Some (Inr (), t)" and "set_ok env t" and "result_set op (members env s) B = Some (members env t)"
    and "update \<and> in_place op"
  shows "\<exists>v s'. f \<bind> lhs_set = Some (Inr v, s') \<and> operator_result env update op s B v s'"
  using assms by (simp add: lhs_set_def operator_result_def)

lemma truth_result:
  assumes "f = Some (Inr b)" and "result_set op (members env s) B = None" and "b = comparison op (members env s) B"
  shows "\<exists>v s'. f \<bind> truth s = Some (Inr v, s') \<and> operator_result env update op s B v s'"
  using assms by (simp add: truth_def operator_result_def)

context roomy_keys
begin

lemma set_issubset_run:
  assumes "set_ok env s" and "set_ok env t"
  shows "set_issubset_internal env (ASet s) (ASet t) proper
    = Some (Inr (if proper then members env s \<subset> members env t else members env s \<subseteq> members env t))"
  using subset_count [OF assms] all_in_subset [OF assms]
  by (auto simp: set_issubset_internal_def as_set_def)

lemma set_equal_run:
  assumes "set_ok env s" and "set_ok env t"
  shows "set_equal env s (Some t) = Some (Inr (members env s = members env t))"
  using subset_count [OF assms] set_issubset_run [OF assms, of False]
  by (auto simp: set_equal_def set_issubset_def)

lemma comparison_run:
  assumes s: "set_ok env s" and t: "set_ok env (case rhs of None \<Rightarrow> s | Some t \<Rightarrow> t)"
    and op: "op \<in> {MP_BINARY_OP_LESS, MP_BINARY_OP_MORE, MP_BINARY_OP_EQUAL, MP_BINARY_OP_LESS_EQUAL, MP_BINARY_OP_MORE_EQUAL}"
  shows "\<exists>v s'. set_binary_op env update op s rhs = Some (Inr v, s')
    \<and> operator_result env update op s (members env (case rhs of None \<Rightarrow> s | Some t \<Rightarrow> t)) v s'"
  using op set_issubset_run [OF s t] set_issubset_run [OF t s] set_equal_run [OF s t]
  by (elim insertE emptyE) (simp_all add: set_binary_op_def Let_def truth_def operator_result_def set_issubset_def
      set_issubset_proper_def set_issuperset_def set_issuperset_proper_def)

lemma new_result_run:
  assumes s: "set_ok env s" and t: "set_ok env (case rhs of None \<Rightarrow> s | Some t \<Rightarrow> t)" and op: "result_set op A B \<noteq> None"
    and n: "\<not> (update \<and> in_place op)"
  shows "\<exists>v s'. set_binary_op env update op s rhs = Some (Inr v, s')
    \<and> operator_result env update op s (members env (case rhs of None \<Rightarrow> s | Some t \<Rightarrow> t)) v s'"
proof -
  let ?t = "case rhs of None \<Rightarrow> s | Some t \<Rightarrow> t"
  note k = keyable_items [OF t]
  have m: "members env ?t = classes env (set_items ?t)" by (rule members_items)
  obtain u where u: "set_union env s (set_items ?t) = Some (Inr u)" "set_ok env u" "members env u = members env s \<union> members env ?t"
    using set_union_run [OF s k] m by auto
  obtain x where x: "set_symmetric_difference env s (set_items ?t) = Some (Inr x)" "set_ok env x"
      "members env x = (members env s - members env ?t) \<union> (members env ?t - members env s)"
    using set_symmetric_difference_run [OF s k set_items_distinct [OF t]] m by auto
  obtain d where d: "set_diff env s [set_items ?t] = Some (Inr d)" "set_ok env d" "members env d = members env s - members env ?t"
    using set_diff_run [OF s k] m by auto
  obtain i where i: "set_intersect_int env s (case rhs of None \<Rightarrow> Itself | Some t \<Rightarrow> Elements (set_items t)) False = Some (Inr i, s)"
      "set_ok env i" "members env i = members env s \<inter> members env ?t"
  proof (cases rhs)
    case None
    then show ?thesis using that [of s] s by (simp add: set_intersect_int_def set_copy_run)
  next
    case (Some t')
    then show ?thesis using that set_intersect_run [OF s, of "set_items t'" False] k members_items by auto
  qed
  show ?thesis
    using op n u x d i
    by (cases op) (auto simp: set_binary_op_def Let_def in_place_def new_set_def operator_result_def)
qed

lemma in_place_run:
  assumes s: "set_ok env s" and t: "set_ok env (case rhs of None \<Rightarrow> s | Some t \<Rightarrow> t)" and op: "in_place op"
  shows "\<exists>v s'. set_binary_op env True op s rhs = Some (Inr v, s')
    \<and> operator_result env True op s (members env (case rhs of None \<Rightarrow> s | Some t \<Rightarrow> t)) v s'"
proof -
  let ?t = "case rhs of None \<Rightarrow> s | Some t \<Rightarrow> t"
  note k = keyable_items [OF t]
  have m: "members env ?t = classes env (set_items ?t)" by (rule members_items)
  obtain u where u: "set_update env s [set_items ?t] = Some (Inr (), u)" "set_ok env u" "members env u = members env s \<union> members env ?t"
    using set_update_run [OF s k] m by auto
  obtain x where x: "set_symmetric_difference_update env s (set_items ?t) = Some (Inr (), x)" "set_ok env x"
      "members env x = (members env s - members env ?t) \<union> (members env ?t - members env s)"
    using set_symmetric_difference_run [OF s k set_items_distinct [OF t]] m by auto
  obtain d where d: "set_diff_update env s [case rhs of None \<Rightarrow> Itself | Some t \<Rightarrow> Elements (set_items t)] = Some (Inr (), d)"
      "set_ok env d" "members env d = members env s - members env ?t"
  proof (cases rhs)
    case None
    then show ?thesis using that [of empty_set] by (simp add: set_diff_update_def set_clear_def mp_set_clear_empty)
  next
    case (Some t')
    then show ?thesis using that set_diff_update_run [OF s, of "set_items t'"] k members_items by auto
  qed
  obtain i w where i: "set_intersect_int env s (case rhs of None \<Rightarrow> Itself | Some t \<Rightarrow> Elements (set_items t)) True = Some (Inr i, w)"
      "set_ok env w" "members env w = members env s \<inter> members env ?t"
  proof (cases rhs)
    case None
    then show ?thesis using that [of s s] s by (simp add: set_intersect_int_def)
  next
    case (Some t')
    then show ?thesis using that set_intersect_run [OF s, of "set_items t'" True] k members_items by auto
  qed
  show ?thesis
    using op u x d i
    by (cases op) (auto simp: set_binary_op_def Let_def in_place_def lhs_set_def operator_result_def simp del: set_update.simps)
qed

lemma operators_run:
  assumes s: "set_ok env s" and t: "set_ok env (case rhs of None \<Rightarrow> s | Some t \<Rightarrow> t)"
  shows "\<exists>v s'. set_binary_op env update op s rhs = Some (Inr v, s')
    \<and> operator_result env update op s (members env (case rhs of None \<Rightarrow> s | Some t \<Rightarrow> t)) v s'"
proof (cases "update \<and> in_place op")
  case True
  then show ?thesis using in_place_run [OF s t] by simp
next
  case False
  show ?thesis
  proof (cases "result_set op (members env s) {} = None")
    case True
    then have "op \<in> {MP_BINARY_OP_LESS, MP_BINARY_OP_MORE, MP_BINARY_OP_EQUAL, MP_BINARY_OP_LESS_EQUAL, MP_BINARY_OP_MORE_EQUAL}"
      by (cases op) simp_all
    then show ?thesis by (rule comparison_run [OF s t])
  next
    case F: False
    show ?thesis by (rule new_result_run [OF s t F False])
  qed
qed

end

subsection \<open>The hash of a frozenset\<close>

lemma filter_nth: "filter P xs = map (nth xs) (filter (\<lambda>i. P (xs ! i)) [0..<length xs])"
proof -
  have "filter P xs = filter P (map (nth xs) [0..<length xs])" by (simp add: map_nth)
  then show ?thesis by (simp add: filter_map o_def)
qed

lemma items_slots: "set_items s = map (nth (set_table s)) (filter (slot_filled (set_table s)) [0..<length (set_table s)])"
proof -
  have "filter (\<lambda>i. is_key (set_table s ! i)) [0..<length (set_table s)] = filter (slot_filled (set_table s)) [0..<length (set_table s)]"
    by (rule filter_cong) (auto simp: slot_filled_def is_key_def)
  then show ?thesis using filter_nth [of is_key "set_table s"] by (simp add: set_items_def)
qed

definition hash32 :: "objects \<Rightarrow> mp_obj_t \<Rightarrow> u32" where
  "hash32 env e = (case mp_obj_hash env e of None \<Rightarrow> 0 | Some h \<Rightarrow> h)"

lemma hash_elements_run:
  assumes "set_ok env s" and "\<forall>i \<in> set is. i < length (set_table s)"
  shows "hash_elements env s is h
    = Some (Inr (h + sum_list (map (hash32 env) (map (nth (set_table s)) (filter (slot_filled (set_table s)) is)))))"
  using assms(2)
proof (induction "is" arbitrary: h)
  case (Cons i "is")
  then have i: "i < length (set_table s)" by simp
  show ?case
  proof (cases "slot_filled (set_table s) i")
    case True
    then obtain x where "mp_obj_hash env (set_table s ! i) = Some x" using assms(1) by (auto simp: set_ok_def table_ok_def)
    then show ?thesis using True i Cons by (simp add: slot_filled_run rd_in hash32_def add.assoc)
  next
    case False
    then show ?thesis using i Cons by (simp add: slot_filled_run)
  qed
qed simp

context object_keys
begin

lemma frozenset_hash_run:
  assumes ok: "set_ok env s"
  shows "frozenset_hash env start s = Some (Inr (MP_OBJ_NEW_SMALL_INT (start + sum (hash32 env) (elems s))))"
proof -
  have l: "length (set_table s) = set_alloc s" using ok by (simp add: set_ok_def)
  have "sum_list (map (hash32 env) (set_items s)) = sum (hash32 env) (elems s)"
    using sum_list_distinct_conv_sum_set [OF elems_distinct [OF set_items_distinct [OF ok]]] by (simp add: set_items_elems)
  moreover have "hash_elements env s [0..<set_alloc s] start = Some (Inr (start + sum_list (map (hash32 env) (set_items s))))"
    using hash_elements_run [OF ok, of "[0..<set_alloc s]" start] l unfolding items_slots by simp
  ultimately show ?thesis by (simp add: frozenset_hash_def)
qed

lemma hash_agrees:
  assumes ok: "set_ok env s" "set_ok env t" and eq: "members env s = members env t"
  shows "sum (hash32 env) (elems s) = sum (hash32 env) (elems t)"
proof -
  obtain f where f: "inj_on f (elems s)" "f ` elems s \<subseteq> elems t" "\<And>e. e \<in> elems s \<Longrightarrow> mp_obj_equal env (f e) e"
    using element_choice [OF ok] eq by blast
  have "set_used s = set_used t" using subset_count(2) [OF ok] eq by simp
  then have im: "f ` elems s = elems t"
    using f(1,2) used_card ok by (intro card_subset_eq) (simp_all add: card_image)
  have "sum (hash32 env) (elems t) = sum (hash32 env \<circ> f) (elems s)"
    unfolding im [symmetric] by (rule sum.reindex [OF f(1)])
  also have "\<dots> = sum (hash32 env) (elems s)"
  proof (rule sum.cong)
    fix e assume "e \<in> elems s"
    then show "(hash32 env \<circ> f) e = hash32 env e" using equal_hash [OF f(3)] by (simp add: hash32_def)
  qed simp
  finally show ?thesis by simp
qed

end

subsection \<open>When a larger table does not fit\<close>

text \<open>A probe that starts past the end of the table.\<close>

lemma lookup_outside:
  assumes "set_alloc s \<noteq> 0" and "mp_obj_hash env y \<noteq> None" and "length (set_table s) \<le> hash_of env y mod set_alloc s"
  shows "mp_set_lookup env s y k = None"
proof -
  obtain h where h: "mp_obj_hash env y = Some h" using assms(2) by blast
  have "[0..<set_alloc s] = 0 # [1..<set_alloc s]" using assms(1) by (simp add: upt_conv_Cons)
  then have "probe f (set_table s) (probe_order (unat h mod set_alloc s) (set_alloc s)) None = None" for f
    using assms(3) h by (simp add: probe_order_def rd_out hash_of_def)
  then show ?thesis using assms(1) h by (simp add: mp_set_lookup_def numeral_2_eq_2)
qed

context object_keys
begin

lemma set_memory_error:
  assumes ok: "set_ok env s" and x: "keyable env [x]" "x \<notin> members env s" and full: "set_used s = set_alloc s"
    and mem: "\<not> can_alloc env (get_hash_alloc_greater_or_equal_to (set_alloc s + 1))"
  shows "mp_set_lookup env s x MP_MAP_LOOKUP_ADD_IF_NOT_FOUND
    = Some (Inl MemoryError, s\<lparr>set_alloc := get_hash_alloc_greater_or_equal_to (set_alloc s + 1), set_used := 0\<rparr>)"
proof -
  have h: "mp_obj_hash env x \<noteq> None" "is_key x" using x by simp_all
  have re: "mp_set_rehash lookup env s
      = Some (Inl MemoryError, s\<lparr>set_alloc := get_hash_alloc_greater_or_equal_to (set_alloc s + 1), set_used := 0\<rparr>)" for lookup
    using mem by (simp add: mp_set_rehash_def Let_def)
  show ?thesis
  proof (cases "set_alloc s = 0")
    case True
    then show ?thesis using re by (simp add: mp_set_lookup_def numeral_2_eq_2)
  next
    case False
    have len: "{p. slot_filled (set_table s) p} = {..<length (set_table s)}"
    proof (rule card_subset_eq)
      show "{p. slot_filled (set_table s) p} \<subseteq> {..<length (set_table s)}" by (auto simp: slot_filled_def)
      show "card {p. slot_filled (set_table s) p} = card {..<length (set_table s)}"
        using ok full unfolding set_ok_def by (metis card_lessThan)
    qed simp
    have e: "mp_set_lookup env s x MP_MAP_LOOKUP_ADD_IF_NOT_FOUND
      = set_loop (Suc 1) (\<lambda>s e. set_lookup_depth 1 env s e MP_MAP_LOOKUP_ADD_IF_NOT_FOUND) env (hash_of env x) s x
          MP_MAP_LOOKUP_ADD_IF_NOT_FOUND"
      using set_depth_loop [OF False h(1), of 1] by (simp add: mp_set_lookup_def numeral_2_eq_2 del: set_lookup_depth.simps set_loop.simps)
    let ?goal = "set_loop (Suc 1) (\<lambda>s e. set_lookup_depth 1 env s e MP_MAP_LOOKUP_ADD_IF_NOT_FOUND) env (hash_of env x) s x
          MP_MAP_LOOKUP_ADD_IF_NOT_FOUND
        = Some (Inl MemoryError, s\<lparr>set_alloc := get_hash_alloc_greater_or_equal_to (set_alloc s + 1), set_used := 0\<rparr>)"
    have ?goal
      using set_loop_cases [OF ok False h(1), of 1 "\<lambda>s e. set_lookup_depth 1 env s e MP_MAP_LOOKUP_ADD_IF_NOT_FOUND"
          MP_MAP_LOOKUP_ADD_IF_NOT_FOUND]
    proof (elim disjE exE conjE)
      fix p assume "slot_filled (set_table s) p" "mp_obj_equal env (set_table s ! p) x"
      then show ?goal using x(2) slot_elem by (auto simp: members_def)
    next
      fix a assume "a < length (set_table s)" "\<not> slot_filled (set_table s) a"
      then show ?goal using len by auto
    qed (simp add: re del: set_loop.simps set_lookup_depth.simps)
    then show ?thesis by (simp only: e)
  qed
qed

end

subsection \<open>Sequences of operations\<close>

datatype set_cmd = AddElem mp_obj_t | DiscardElem mp_obj_t | RemoveElem mp_obj_t | HasElem mp_obj_t | PopElem | ClearElems

datatype set_reply = Nothing | Answer bool | Element mp_obj_t

definition reply :: "('a \<Rightarrow> set_reply) \<Rightarrow> (exc + 'a) \<times> mp_set_t \<Rightarrow> (exc + set_reply) \<times> mp_set_t" where
  "reply f r = (map_sum (\<lambda>e. e) f (fst r), snd r)"

fun run_set_cmd :: "objects \<Rightarrow> mp_set_t \<Rightarrow> set_cmd \<Rightarrow> set_reply set_res" where
  "run_set_cmd env s (AddElem x) = map_option (reply (\<lambda>u. Nothing)) (set_add env s x)"
| "run_set_cmd env s (DiscardElem x) = map_option (reply (\<lambda>u. Nothing)) (set_discard env s x)"
| "run_set_cmd env s (RemoveElem x) = map_option (reply (\<lambda>u. Nothing)) (set_remove env s x)"
| "run_set_cmd env s (HasElem x) = map_option (\<lambda>r. (map_sum (\<lambda>e. e) Answer r, s)) (set_in env s x)"
| "run_set_cmd env s PopElem = map_option (reply Element) (set_pop s)"
| "run_set_cmd env s ClearElems = Some (Inr Nothing, set_clear s)"

fun run_set_cmds :: "objects \<Rightarrow> mp_set_t \<Rightarrow> set_cmd list \<Rightarrow> ((exc + set_reply) list \<times> mp_set_t) option" where
  "run_set_cmds env s [] = Some ([], s)"
| "run_set_cmds env s (c # cs) = do {
     (r, s) \<leftarrow> run_set_cmd env s c;
     (rs, s) \<leftarrow> run_set_cmds env s cs;
     Some (r # rs, s) }"

text \<open>What the commands do to a set of objects.\<close>

inductive set_step :: "objects \<Rightarrow> mp_obj_t set \<Rightarrow> set_cmd \<Rightarrow> exc + set_reply \<Rightarrow> mp_obj_t set \<Rightarrow> bool" for env where
  add: "set_step env A (AddElem x) (Inr Nothing) (A \<union> classes env [x])"
| discard: "set_step env A (DiscardElem x) (Inr Nothing) (A - classes env [x])"
| remove: "x \<in> A \<Longrightarrow> set_step env A (RemoveElem x) (Inr Nothing) (A - classes env [x])"
| missing: "x \<notin> A \<Longrightarrow> set_step env A (RemoveElem x) (Inl (KeyError x)) A"
| test: "set_step env A (HasElem x) (Inr (Answer (x \<in> A))) A"
| pop: "e \<in> A \<Longrightarrow> set_step env A PopElem (Inr (Element e)) (A - classes env [e])"
| pop_empty: "set_step env {} PopElem (Inl (KeyError MP_OBJ_NULL)) {}"
| clear: "set_step env A ClearElems (Inr Nothing) {}"

inductive set_history :: "objects \<Rightarrow> mp_obj_t set \<Rightarrow> set_cmd list \<Rightarrow> (exc + set_reply) list \<Rightarrow> mp_obj_t set \<Rightarrow> bool" for env where
  stop: "set_history env A [] [] A"
| step: "set_step env A c r B \<Longrightarrow> set_history env B cs rs C \<Longrightarrow> set_history env A (c # cs) (r # rs) C"

inductive_simps set_history_Cons: "set_history env A (c # cs) rs C"
inductive_simps set_step_has: "set_step env A (HasElem x) r B"
inductive_simps set_step_add: "set_step env A (AddElem x) r B"

fun set_cmd_ok :: "objects \<Rightarrow> set_cmd \<Rightarrow> bool" where
  "set_cmd_ok env (AddElem x) \<longleftrightarrow> keyable env [x]"
| "set_cmd_ok env (DiscardElem x) \<longleftrightarrow> keyable env [x]"
| "set_cmd_ok env (RemoveElem x) \<longleftrightarrow> keyable env [x]"
| "set_cmd_ok env (HasElem x) \<longleftrightarrow> keyable env [x]"
| "set_cmd_ok env c \<longleftrightarrow> True"

lemma remove_first_run:
  "\<forall>p \<in> set ps. p < length (set_table s) \<Longrightarrow>
   (\<exists>p. slot_filled (set_table s) p \<and> remove_first_from s ps = do { t \<leftarrow> set_delete_at s p; Some (set_table s ! p, t) })
   \<or> (\<forall>p \<in> set ps. \<not> slot_filled (set_table s) p) \<and> remove_first_from s ps = Some (MP_OBJ_NULL, s)"
proof (induction ps)
  case (Cons p ps)
  then have p: "p < length (set_table s)" by simp
  show ?case
  proof (cases "slot_filled (set_table s) p")
    case True
    then show ?thesis using p by (intro disjI1 exI [of _ p]) (simp add: slot_filled_run rd_in)
  next
    case False
    then show ?thesis using Cons p by (simp add: slot_filled_run)
  qed
qed simp

context object_keys
begin

lemma set_pop_run:
  assumes ok: "set_ok env s"
  shows "(\<exists>e t. set_pop s = Some (Inr e, t) \<and> e \<in> elems s \<and> element_removed env s e t)
    \<or> elems s = {} \<and> set_pop s = Some (Inl (KeyError MP_OBJ_NULL), s)"
proof -
  have l: "\<forall>p \<in> set [0..<set_alloc s]. p < length (set_table s)" using ok by (simp add: set_ok_def)
  show ?thesis
    using remove_first_run [OF l]
  proof (elim disjE exE conjE)
    fix p assume p: "slot_filled (set_table s) p"
      "remove_first_from s [0..<set_alloc s] = do { t \<leftarrow> set_delete_at s p; Some (set_table s ! p, t) }"
    obtain t where t: "set_delete_at s p = Some t" "element_removed env s (set_table s ! p) t"
      using set_delete_at_run [OF ok p(1)] by blast
    have "set_table s ! p \<noteq> MP_OBJ_NULL" using p(1) by (simp add: slot_filled_def)
    then show ?thesis
      using p t slot_elem [OF p(1)]
      by (intro disjI1 exI [of _ "set_table s ! p"] exI [of _ t]) (simp add: set_pop_def mp_set_remove_first_def)
  next
    assume n: "\<forall>p \<in> set [0..<set_alloc s]. \<not> slot_filled (set_table s) p"
      "remove_first_from s [0..<set_alloc s] = Some (MP_OBJ_NULL, s)"
    have "\<not> slot_filled (set_table s) p" for p using n(1) ok by (auto simp: set_ok_def slot_filled_def)
    then have "elems s = {}" by (auto simp: elems_slot)
    then show ?thesis using n(2) by (simp add: set_pop_def mp_set_remove_first_def)
  qed
qed

lemma removed_members:
  assumes ok: "set_ok env s" and e: "e \<in> elems s" and r: "element_removed env s e t"
  shows "members env t = members env s - classes env [e]"
proof -
  have "e \<in> members env s" using e equal_refl by (auto simp: members_def)
  moreover from this have "lookup_result env s e MP_MAP_LOOKUP_REMOVE_IF_FOUND e t"
    using e r equal_refl by (simp add: lookup_result_def)
  ultimately show ?thesis using result_members [OF ok] by (simp add: after_def)
qed

end

context roomy_keys
begin

lemma set_remove_run:
  assumes ok: "set_ok env s" and x: "keyable env [x]"
  shows "\<exists>r t. set_remove env s x = Some (r, t) \<and> set_ok env t
    \<and> set_step env (members env s) (RemoveElem x) (map_sum (\<lambda>e. e) (\<lambda>u. Nothing) r) (members env t)"
proof -
  obtain r t where rt: "mp_set_lookup env s x MP_MAP_LOOKUP_REMOVE_IF_FOUND = Some (Inr r, t)"
      "lookup_result env s x MP_MAP_LOOKUP_REMOVE_IF_FOUND r t" "set_ok env t"
      "members env t = after env MP_MAP_LOOKUP_REMOVE_IF_FOUND x (members env s)"
    using lookup_step [OF ok x] by metis
  show ?thesis
  proof (cases "x \<in> members env s")
    case True
    then have "r \<noteq> MP_OBJ_NULL" using rt(2) elem_key by (auto simp: lookup_result_def is_key_def)
    then show ?thesis using rt True by (auto simp: set_remove_def after_def intro: set_step.remove)
  next
    case False
    then have "r = MP_OBJ_NULL" using rt(2) by (simp add: lookup_result_def)
    then show ?thesis using rt False by (auto simp: set_remove_def after_def intro: set_step.missing)
  qed
qed

lemma set_cmd_run:
  assumes ok: "set_ok env s" and c: "set_cmd_ok env c"
  shows "\<exists>r t. run_set_cmd env s c = Some (r, t) \<and> set_ok env t \<and> set_step env (members env s) c r (members env t)"
proof (cases c)
  case (AddElem x)
  then show ?thesis using add_elements [OF ok, of "[x]"] c set_step.add [of env "members env s" x]
    by (auto simp: set_add_def reply_def simp del: for_elements.simps)
next
  case (DiscardElem x)
  then show ?thesis using remove_elements [OF ok, of "[x]"] c set_step.discard [of env "members env s" x]
    by (auto simp: set_discard_def reply_def simp del: for_elements.simps)
next
  case (RemoveElem x)
  then obtain r t where "set_remove env s x = Some (r, t)" "set_ok env t"
      "set_step env (members env s) (RemoveElem x) (map_sum (\<lambda>e. e) (\<lambda>u. Nothing) r) (members env t)"
    using set_remove_run [OF ok, of x] c by auto
  then show ?thesis using RemoveElem by (simp add: reply_def)
next
  case (HasElem x)
  then obtain r where "mp_set_lookup env s x MP_MAP_LOOKUP = Some (Inr r, s)" "r \<noteq> MP_OBJ_NULL \<longleftrightarrow> x \<in> members env s"
    using find_run [OF ok, of x] c by auto
  then show ?thesis using HasElem ok set_step.test [of env "members env s" x] by (simp add: set_in_def)
next
  case PopElem
  show ?thesis
    using set_pop_run [OF ok]
  proof (elim disjE exE conjE)
    fix e t assume e: "set_pop s = Some (Inr e, t)" "e \<in> elems s" "element_removed env s e t"
    then have "e \<in> members env s" using equal_refl by (auto simp: members_def)
    then show ?thesis
      using PopElem e removed_members [OF ok e(2,3)] set_step.pop [of e "members env s" env]
      by (simp add: reply_def element_removed_def)
  next
    assume "elems s = {}" "set_pop s = Some (Inl (KeyError MP_OBJ_NULL), s)"
    moreover from this have "members env s = {}" by (simp add: members_def)
    ultimately show ?thesis using PopElem ok set_step.pop_empty [of env] by (simp add: reply_def)
  qed
next
  case ClearElems
  then show ?thesis using set_step.clear [of env] by (simp add: set_clear_def mp_set_clear_empty)
qed

lemma set_cmds_run:
  "set_ok env s \<Longrightarrow> list_all (set_cmd_ok env) cs
   \<Longrightarrow> \<exists>rs t. run_set_cmds env s cs = Some (rs, t) \<and> set_ok env t \<and> set_history env (members env s) cs rs (members env t)"
proof (induction cs arbitrary: s)
  case Nil
  then show ?case by (simp add: set_history.stop)
next
  case (Cons c cs)
  obtain r t where r: "run_set_cmd env s c = Some (r, t)" "set_ok env t" "set_step env (members env s) c r (members env t)"
    using set_cmd_run [OF Cons.prems(1), of c] Cons.prems(2) by (metis list.pred_inject(2))
  obtain rs u where "run_set_cmds env t cs = Some (rs, u)" "set_ok env u" "set_history env (members env t) cs rs (members env u)"
    using Cons.IH [OF r(2)] Cons.prems(2) by auto
  then show ?case using r set_history.step by auto
qed

lemma duplicates_run:
  assumes ok: "set_ok env s" and x: "keyable env [x]" "x \<notin> members env s"
  shows "\<exists>t. set_symmetric_difference env s [x, x] = Some (Inr t) \<and> members env t = members env s"
proof -
  let ?k = MP_MAP_LOOKUP_ADD_IF_NOT_FOUND_OR_REMOVE_IF_FOUND
  have "keyable env [x, x]" using x(1) by simp
  then obtain t where t: "for_elements (\<lambda>s e. mp_set_lookup env s e ?k) [x, x] s = Some (Inr (), t)"
      "members env t = fold (after env ?k) [x, x] (members env s)"
    using for_elements_run [OF ok] by blast
  have "fold (after env ?k) [x, x] (members env s) = members env s"
    using x(2) closed_outside [OF members_closed x(2)] class_of [of x] by (auto simp: after_def)
  then show ?thesis
    using t by (simp add: set_symmetric_difference_def on_copy_def set_copy_run ok set_symmetric_difference_update_def
        del: for_elements.simps)
qed

end

subsection \<open>A heap with memory\<close>

definition set_env :: objects where
  "set_env = map_objects small_heap (\<lambda>n. True)"

lemma set_env_roomy: "object_keys set_env" "can_alloc set_env n"
  unfolding set_env_def by (rule plain_keys [OF small_plain]) (simp add: map_objects_def)

interpretation roomy: roomy_keys set_env
  by (intro roomy_keys.intro roomy_keys_axioms.intro set_env_roomy)

text \<open>The numbers 1 and 4 in a table of two, 4 in a table of four, and empty tables.\<close>

definition blank_set :: "nat \<Rightarrow> mp_set_t" where
  "blank_set n = \<lparr>set_alloc = n, set_used = 0, set_table = replicate n MP_OBJ_NULL\<rparr>"

definition full_set :: mp_set_t where
  "full_set = \<lparr>set_alloc = 2, set_used = 2, set_table = [9, 3]\<rparr>"

definition wide_set :: mp_set_t where
  "wide_set = \<lparr>set_alloc = 4, set_used = 1, set_table = [9, 0, 0, 0]\<rparr>"

lemma blank_set_ok: "set_ok env (blank_set n)" "members env (blank_set n) = {}"
proof -
  have n: "\<not> slot_filled (set_table (blank_set n)) p" for p by (simp add: blank_set_def slot_filled_def)
  then have "set_used (blank_set n) = card {p. slot_filled (set_table (blank_set n)) p}" by (simp add: blank_set_def)
  then show "set_ok env (blank_set n)" using n by (simp add: set_ok_def table_ok_def) (simp add: blank_set_def)
  show "members env (blank_set n) = {}" using n by (auto simp: members_def elems_slot)
qed

lemma set_keys: "keyable set_env [9, 3]" "keyable set_env [9]" "keyable set_env [7]" "keyable set_env [10]" "keyable set_env [16]"
  unfolding keyable_simps by code_simp+

lemma full_set_add: "for_elements (\<lambda>s e. mp_set_lookup set_env s e MP_MAP_LOOKUP_ADD_IF_NOT_FOUND) [9, 3] (blank_set 2)
    = Some (Inr (), full_set)"
  by code_simp

lemma wide_set_add: "for_elements (\<lambda>s e. mp_set_lookup set_env s e MP_MAP_LOOKUP_ADD_IF_NOT_FOUND) [9] (blank_set 4)
    = Some (Inr (), wide_set)"
  by code_simp

lemma full_set_ok: "set_ok set_env full_set" "members set_env full_set = classes set_env [9, 3]"
  using roomy.add_elements [OF blank_set_ok(1) set_keys(1), of 2] full_set_add blank_set_ok(2) by simp_all

lemma wide_set_ok: "set_ok set_env wide_set" "members set_env wide_set = classes set_env [9]"
  using roomy.add_elements [OF blank_set_ok(1) set_keys(2), of 4] wide_set_add blank_set_ok(2) by simp_all

subsection \<open>Properties\<close>

lemma roomy_keysI: "object_keys env \<Longrightarrow> (\<And>n. can_alloc env n) \<Longrightarrow> roomy_keys env"
  by (simp add: roomy_keys_def roomy_keys_axioms_def)

text \<open>
  C6. The operators of sets and frozensets.  On two consistent sets of hashable objects (the right
  operand may be the left one itself) every operator returns: union, symmetric difference,
  intersection and difference give a new consistent set with exactly those objects and leave the
  operands as they are, their in-place forms on a set change the left operand to it, and the
  comparisons are those of the two sets of objects, where objects are the same that compare equal.
\<close>

theorem set_operators:
  assumes "object_keys env" and "\<And>n. can_alloc env n" and "set_ok env s"
    and "set_ok env (case rhs of None \<Rightarrow> s | Some t \<Rightarrow> t)"
  shows "\<exists>v s'. set_binary_op env update op s rhs = Some (Inr v, s')
    \<and> operator_result env update op s (members env (case rhs of None \<Rightarrow> s | Some t \<Rightarrow> t)) v s'"
  by (rule roomy_keys.operators_run [OF roomy_keysI [OF assms(1,2)] assms(3,4)])

theorem set_operators_witness:
  "(\<exists>v s'. set_binary_op set_env True MP_BINARY_OP_INPLACE_XOR full_set (Some wide_set) = Some (Inr v, s')
      \<and> operator_result set_env True MP_BINARY_OP_INPLACE_XOR full_set (members set_env wide_set) v s')
    \<and> (\<exists>v s'. set_binary_op set_env False MP_BINARY_OP_MORE full_set (Some wide_set) = Some (Inr v, s')
      \<and> operator_result set_env False MP_BINARY_OP_MORE full_set (members set_env wide_set) v s')"
  using set_operators [OF set_env_roomy full_set_ok(1), of "Some wide_set"] wide_set_ok(1) by simp

text \<open>
  C15. A sequence of \<open>add\<close>, \<open>discard\<close>, \<open>remove\<close>, \<open>in\<close>, \<open>pop\<close> and \<open>clear\<close> on a consistent set refines the
  same sequence on a set of objects: every command returns, the answers and the key errors are those
  of the abstract steps, and the set is consistent and has the abstract objects at the end.
\<close>

theorem set_commands:
  assumes "object_keys env" and "\<And>n. can_alloc env n" and "set_ok env s" and "list_all (set_cmd_ok env) cs"
  shows "\<exists>rs t. run_set_cmds env s cs = Some (rs, t) \<and> set_ok env t
    \<and> set_history env (members env s) cs rs (members env t)"
  by (rule roomy_keys.set_cmds_run [OF roomy_keysI [OF assms(1,2)] assms(3,4)])

theorem set_commands_witness:
  "\<exists>rs t. run_set_cmds set_env (blank_set 2) [AddElem 10, HasElem 16, PopElem, RemoveElem 16] = Some (rs, t) \<and> set_ok set_env t
    \<and> set_history set_env {} [AddElem 10, HasElem 16, PopElem, RemoveElem 16] rs (members set_env t)"
  using set_commands [OF set_env_roomy blank_set_ok(1), of "[AddElem 10, HasElem 16, PopElem, RemoveElem 16]" 2] set_keys
    blank_set_ok(2) [of set_env 2] by simp

text \<open>
  C16. Frozensets that compare equal have the same hash, whatever the sizes of their tables and the
  order in which their elements were added.
\<close>

theorem equal_frozensets_hash:
  assumes "object_keys env" and "\<And>n. can_alloc env n" and "set_ok env s" and "set_ok env t"
    and "set_equal env s (Some t) = Some (Inr True)"
  shows "\<exists>h. frozenset_hash env start s = Some (Inr h) \<and> frozenset_hash env start t = Some (Inr h)"
proof -
  have "members env s = members env t"
    using roomy_keys.set_equal_run [OF roomy_keysI [OF assms(1,2)] assms(3,4)] assms(5) by simp
  then show ?thesis
    using object_keys.frozenset_hash_run [OF assms(1)] object_keys.hash_agrees [OF assms(1,3,4)] assms(3,4) by simp
qed

definition small_set :: mp_set_t where
  "small_set = \<lparr>set_alloc = 2, set_used = 1, set_table = [9, 0]\<rparr>"

lemma small_set_ok: "set_ok set_env small_set"
proof -
  have "for_elements (\<lambda>s e. mp_set_lookup set_env s e MP_MAP_LOOKUP_ADD_IF_NOT_FOUND) [9] (blank_set 2) = Some (Inr (), small_set)"
    by code_simp
  then show ?thesis using roomy.add_elements [OF blank_set_ok(1) set_keys(2), of 2] by simp
qed

theorem equal_frozensets_hash_witness:
  "\<exists>h. frozenset_hash set_env 100 small_set = Some (Inr h) \<and> frozenset_hash set_env 100 wide_set = Some (Inr h)"
proof -
  have "set_equal set_env small_set (Some wide_set) = Some (Inr True)" by code_simp
  then show ?thesis using equal_frozensets_hash [OF set_env_roomy small_set_ok wide_set_ok(1)] by simp
qed

text \<open>
  C37. Adding a new object to a full set when there is no memory for a larger table raises, but the
  set is left broken: \<open>mp_set_rehash\<close> has stored the new size and the count 0 before it allocates.
  The set says that it is empty while its table still holds its elements, and every later lookup
  of an object whose hash falls behind the old table reads outside it.
\<close>

theorem set_broken_by_memory_error:
  assumes "object_keys env" and "set_ok env s" and "keyable env [x]" and "x \<notin> members env s" and "set_used s = set_alloc s"
    and "\<not> can_alloc env (get_hash_alloc_greater_or_equal_to (set_alloc s + 1))"
    and "mp_obj_hash env y \<noteq> None" and "set_alloc s \<le> hash_of env y mod get_hash_alloc_greater_or_equal_to (set_alloc s + 1)"
  shows "\<exists>t. mp_set_lookup env s x MP_MAP_LOOKUP_ADD_IF_NOT_FOUND = Some (Inl MemoryError, t)
    \<and> set_len t = 0 \<and> elems t = elems s \<and> mp_set_lookup env t y k = None"
proof -
  define t where "t = s\<lparr>set_alloc := get_hash_alloc_greater_or_equal_to (set_alloc s + 1), set_used := 0\<rparr>"
  have n: "set_alloc t \<noteq> 0" using find_hash_alloc [of "set_alloc s + 1"] by (simp add: t_def)
  have "length (set_table t) \<le> hash_of env y mod set_alloc t" using assms(2,8) by (simp add: t_def set_ok_def)
  then have "mp_set_lookup env t y k = None" using lookup_outside [OF n assms(7)] by blast
  then show ?thesis
    using object_keys.set_memory_error [OF assms(1-6)] unfolding t_def [symmetric]
    by (intro exI [of _ t]) (simp add: set_len_def elems_def, simp add: t_def)
qed

theorem set_broken_by_memory_error_witness:
  "\<exists>t. mp_set_lookup (map_objects small_heap (\<lambda>n. n < 3)) full_set 7 MP_MAP_LOOKUP_ADD_IF_NOT_FOUND = Some (Inl MemoryError, t)
    \<and> set_len t = 0 \<and> elems t = elems full_set \<and> mp_set_lookup (map_objects small_heap (\<lambda>n. n < 3)) t 7 MP_MAP_LOOKUP = None"
proof -
  let ?env = "map_objects small_heap (\<lambda>n. n < 3)"
  have same: "mp_obj_equal ?env = mp_obj_equal set_env" "mp_obj_hash ?env = mp_obj_hash set_env"
    by (simp_all add: set_env_def map_objects_def)
  have ho: "hash_of ?env = hash_of set_env" by (simp add: hash_of_def same fun_eq_iff)
  have k: "object_keys ?env" by (rule plain_keys [OF small_plain])
  have "members ?env full_set = members set_env full_set" "set_ok ?env full_set"
    using full_set_ok(1) by (simp_all add: members_def set_ok_def table_ok_def same ho)
  moreover have "7 \<notin> members set_env full_set" unfolding full_set_ok(2) classes_def by simp code_simp
  moreover have "keyable ?env [7]" using set_keys(3) by (simp add: same)
  moreover have "get_hash_alloc_greater_or_equal_to (set_alloc full_set + 1) = 4"
    by (simp add: full_set_def get_hash_alloc_greater_or_equal_to_def hash_allocation_sizes_def)
  moreover have "hash_of set_env 7 = 3" by code_simp
  moreover have "\<not> can_alloc ?env 4" by (simp add: map_objects_def)
  moreover have "set_used full_set = 2" "set_alloc full_set = 2" by (simp_all add: full_set_def)
  ultimately show ?thesis
    using set_broken_by_memory_error [OF k, of full_set 7 7 MP_MAP_LOOKUP] by (simp add: ho)
qed

text \<open>
  \<open>s.symmetric_difference(iterable)\<close> toggles every item: an object that the iterable gives twice and
  that is not in the set is not in the result, although it is in exactly one of the two.
\<close>

theorem symmetric_difference_of_duplicates:
  assumes "object_keys env" and "\<And>n. can_alloc env n" and "set_ok env s" and "keyable env [x]" and "x \<notin> members env s"
  shows "\<exists>t. set_symmetric_difference env s [x, x] = Some (Inr t) \<and> members env t = members env s"
  by (rule roomy_keys.duplicates_run [OF roomy_keysI [OF assms(1,2)] assms(3-5)])

theorem symmetric_difference_of_duplicates_witness:
  "\<exists>t. set_symmetric_difference set_env wide_set [7, 7] = Some (Inr t) \<and> members set_env t = members set_env wide_set"
proof -
  have "7 \<notin> members set_env wide_set" unfolding wide_set_ok(2) classes_def by simp code_simp
  then show ?thesis by (rule symmetric_difference_of_duplicates [OF set_env_roomy wide_set_ok(1) set_keys(3)])
qed

end
