(* ===== verification/Py_Sort.thy ===== *)
theory Py_Sort
  imports Py_Objects "HOL-Library.Multiset"
begin

text \<open>
  Sorting of lists (\<open>mp_quicksort\<close> of \<open>py/objlist.c\<close>): a quicksort in place with the last item as the
  pivot, which sorts the smaller side by recursion and the larger one by its loop.  A pointer into the items
  is an index; the comparison and the key function are arbitrary Python code that may raise, with
  the items left as they are then.
\<close>

subsection \<open>The code\<close>

text \<open>\<open>do ++h; while (h < t && less)\<close>, entered with the incremented \<open>h\<close>, and the same downwards.\<close>

function scan_up :: "(mp_obj_t \<Rightarrow> exc + bool) \<Rightarrow> mp_obj_t list \<Rightarrow> nat \<Rightarrow> nat \<Rightarrow> (exc + nat) option" where
  "scan_up lo xs h t =
     (if h < t then do {
        x \<leftarrow> rd xs h;
        case lo x of
          Inl e \<Rightarrow> Some (Inl e)
        | Inr b \<Rightarrow> if b then scan_up lo xs (h + 1) t else Some (Inr h) }
      else Some (Inr h))"
  by pat_completeness auto
termination by (relation "measure (\<lambda>(lo, xs, h, t). t - h)") auto

function scan_down :: "(mp_obj_t \<Rightarrow> exc + bool) \<Rightarrow> mp_obj_t list \<Rightarrow> nat \<Rightarrow> nat \<Rightarrow> (exc + nat) option" where
  "scan_down hi xs h t =
     (if h < t then do {
        x \<leftarrow> rd xs t;
        case hi x of
          Inl e \<Rightarrow> Some (Inl e)
        | Inr b \<Rightarrow> if b then scan_down hi xs h (t - 1) else Some (Inr t) }
      else Some (Inr t))"
  by pat_completeness auto
termination by (relation "measure (\<lambda>(hi, xs, h, t). t)") auto

declare scan_up.simps [simp del] scan_down.simps [simp del]

definition swap :: "'a list \<Rightarrow> nat \<Rightarrow> nat \<Rightarrow> 'a list option" where
  "swap xs i j = do {
     x \<leftarrow> rd xs i;
     y \<leftarrow> rd xs j;
     xs \<leftarrow> wr xs i y;
     wr xs j x }"

lemma scan_down_le: "scan_down hi xs h t = Some (Inr t') \<Longrightarrow> t' \<le> t"
proof (induction hi xs h t rule: scan_down.induct)
  case (1 hi xs h t)
  then show ?case
    by (subst (asm) (2) scan_down.simps) (fastforce split: if_splits sum.splits Option.bind_splits)
qed

text \<open>The loop \<open>for (;;)\<close>, entered with the incremented \<open>h\<close>; it gives \<open>h\<close> and \<open>t\<close> at the \<open>break\<close>.\<close>

function partition_loop :: "(mp_obj_t \<Rightarrow> exc + bool) \<Rightarrow> (mp_obj_t \<Rightarrow> exc + bool) \<Rightarrow> mp_obj_t list \<Rightarrow> nat \<Rightarrow> nat
    \<Rightarrow> ((exc + nat \<times> nat) \<times> mp_obj_t list) option" where
  "partition_loop lo hi xs h t =
     (case scan_up lo xs h t of
        None \<Rightarrow> None
      | Some (Inl e) \<Rightarrow> Some (Inl e, xs)
      | Some (Inr h) \<Rightarrow>
          if t = 0 then None
          else (case scan_down hi xs h (t - 1) of
              None \<Rightarrow> None
            | Some (Inl e) \<Rightarrow> Some (Inl e, xs)
            | Some (Inr t') \<Rightarrow>
                if h \<ge> t' then Some (Inr (h, t'), xs)
                else (case swap xs h t' of None \<Rightarrow> None | Some xs \<Rightarrow> partition_loop lo hi xs (h + 1) t')))"
  by pat_completeness auto
termination by (relation "measure (\<lambda>(lo, hi, xs, h, t). t)") (auto dest!: scan_down_le)

declare partition_loop.simps [simp del]

text \<open>
  What lists ask of objects, which can be any Python code: the constants, comparison operators,
  calls, and the integer of an object that is not a small integer.
\<close>

datatype mp_binary_op_t = MP_BINARY_OP_LESS | MP_BINARY_OP_MORE | MP_BINARY_OP_EQUAL | MP_BINARY_OP_LESS_EQUAL
  | MP_BINARY_OP_MORE_EQUAL

record py_env =
  mp_const_none :: mp_obj_t
  mp_const_true :: mp_obj_t
  mp_const_false :: mp_obj_t
  mp_binary_op :: "mp_binary_op_t \<Rightarrow> mp_obj_t \<Rightarrow> mp_obj_t \<Rightarrow> exc + mp_obj_t"
  mp_call_function_1 :: "mp_obj_t \<Rightarrow> mp_obj_t \<Rightarrow> exc + mp_obj_t"
  obj_get_int_maybe :: "mp_obj_t \<Rightarrow> int option"
  obj_get_int :: "mp_obj_t \<Rightarrow> exc + int"
  obj_equal_to :: "mp_obj_t \<Rightarrow> mp_obj_t \<Rightarrow> bool"

definition item_key :: "py_env \<Rightarrow> mp_obj_t \<Rightarrow> mp_obj_t \<Rightarrow> exc + mp_obj_t" where
  "item_key env key_fn x = (if key_fn = MP_OBJ_NULL then Inr x else mp_call_function_1 env key_fn x)"

definition less_is :: "py_env \<Rightarrow> mp_obj_t \<Rightarrow> mp_obj_t \<Rightarrow> mp_obj_t \<Rightarrow> exc + bool" where
  "less_is env binop_less_result a b =
     (case mp_binary_op env MP_BINARY_OP_LESS a b of Inl e \<Rightarrow> Inl e | Inr r \<Rightarrow> Inr (r = binop_less_result))"

definition skip_low :: "py_env \<Rightarrow> mp_obj_t \<Rightarrow> mp_obj_t \<Rightarrow> mp_obj_t \<Rightarrow> mp_obj_t \<Rightarrow> exc + bool" where
  "skip_low env key_fn binop_less_result v x =
     (case item_key env key_fn x of Inl e \<Rightarrow> Inl e | Inr k \<Rightarrow> less_is env binop_less_result k v)"

definition skip_high :: "py_env \<Rightarrow> mp_obj_t \<Rightarrow> mp_obj_t \<Rightarrow> mp_obj_t \<Rightarrow> mp_obj_t \<Rightarrow> exc + bool" where
  "skip_high env key_fn binop_less_result v x =
     (case item_key env key_fn x of Inl e \<Rightarrow> Inl e | Inr k \<Rightarrow> less_is env binop_less_result v k)"

lemma scan_up_ge: "scan_up lo xs h t = Some (Inr h') \<Longrightarrow> h \<le> h'"
proof (induction lo xs h t rule: scan_up.induct)
  case (1 lo xs h t)
  then show ?case
    by (subst (asm) (2) scan_up.simps) (fastforce split: if_splits sum.splits Option.bind_splits)
qed

lemma partition_loop_bounds:
  "partition_loop lo hi xs h t = Some (Inr (h', t'), xs') \<Longrightarrow> h \<le> h' \<and> t' < t"
proof (induction lo hi xs h t rule: partition_loop.induct)
  case (1 lo hi xs h t)
  from 1(2) obtain h1 t1 where r: "scan_up lo xs h t = Some (Inr h1)" "t \<noteq> 0" "scan_down hi xs h1 (t - 1) = Some (Inr t1)"
    by (subst (asm) partition_loop.simps) (auto split: if_splits sum.splits option.splits)
  note b = scan_up_ge [OF r(1)] scan_down_le [OF r(3)]
  show ?case
  proof (cases "t1 \<le> h1")
    case True
    then show ?thesis using 1(2) r b by (subst (asm) partition_loop.simps) auto
  next
    case False
    then obtain xs1 where xs1: "swap xs h1 t1 = Some xs1"
      using 1(2) r by (subst (asm) partition_loop.simps) (auto split: option.splits)
    then have "partition_loop lo hi xs1 (h1 + 1) t1 = Some (Inr (h', t'), xs')"
      using 1(2) r False by (subst (asm) partition_loop.simps) auto
    then show ?thesis using 1(1) [OF r(1) refl r(2,3) refl False xs1] r(2) b by linarith
  qed
qed

text \<open>
  The body of \<open>mp_quicksort\<close> with \<open>depth\<close> further nested calls before the check of the stack raises; \<open>sort_call\<close>
  enters it.
\<close>

function quicksort_loop :: "py_env \<Rightarrow> mp_obj_t \<Rightarrow> mp_obj_t \<Rightarrow> nat \<Rightarrow> nat \<Rightarrow> nat \<Rightarrow> mp_obj_t list
    \<Rightarrow> ((exc + unit) \<times> mp_obj_t list) option" where
  "quicksort_loop env key_fn res depth head tail xs =
     (if head < tail then
        (case rd xs tail of None \<Rightarrow> None | Some p \<Rightarrow>
         (case item_key env key_fn p of Inl e \<Rightarrow> Some (Inl e, xs) | Inr v \<Rightarrow>
          (case partition_loop (skip_low env key_fn res v) (skip_high env key_fn res v) xs head tail of
             None \<Rightarrow> None
           | Some (Inl e, xs) \<Rightarrow> Some (Inl e, xs)
           | Some (Inr (h, t), xs) \<Rightarrow>
               (case swap xs h tail of None \<Rightarrow> None | Some xs \<Rightarrow>
                if int t - int head < int tail - int h - 1 then
                  (case (if depth = 0 then Some (Inl RuntimeError, xs) else quicksort_loop env key_fn res (depth - 1) head t xs) of
                     None \<Rightarrow> None
                   | Some (Inl e, xs) \<Rightarrow> Some (Inl e, xs)
                   | Some (Inr u, xs) \<Rightarrow> quicksort_loop env key_fn res depth (h + 1) tail xs)
                else
                  (case (if depth = 0 then Some (Inl RuntimeError, xs) else quicksort_loop env key_fn res (depth - 1) (h + 1) tail xs) of
                     None \<Rightarrow> None
                   | Some (Inl e, xs) \<Rightarrow> Some (Inl e, xs)
                   | Some (Inr u, xs) \<Rightarrow> quicksort_loop env key_fn res depth head t xs)))))
      else Some (Inr (), xs))"
  by pat_completeness auto
termination
  by (relation "measure (\<lambda>(env, key_fn, res, depth, head, tail, xs). tail - head)")
     (auto dest!: partition_loop_bounds)

declare quicksort_loop.simps [simp del]

definition mp_quicksort :: "py_env \<Rightarrow> mp_obj_t \<Rightarrow> mp_obj_t \<Rightarrow> nat \<Rightarrow> nat \<Rightarrow> nat \<Rightarrow> mp_obj_t list
    \<Rightarrow> ((exc + unit) \<times> mp_obj_t list) option" where
  "mp_quicksort env key_fn res stack head tail xs =
     (if stack = 0 then Some (Inl RuntimeError, xs) else quicksort_loop env key_fn res (stack - 1) head tail xs)"

subsection \<open>Permutations of a part of an array\<close>

definition permuted :: "nat \<Rightarrow> nat \<Rightarrow> 'a list \<Rightarrow> 'a list \<Rightarrow> bool" where
  "permuted a b xs ys \<longleftrightarrow> mset ys = mset xs \<and> (\<forall>j. j < a \<or> b \<le> j \<longrightarrow> ys ! j = xs ! j)"

lemma permuted_refl [simp]: "permuted a b xs xs"
  by (simp add: permuted_def)

lemma permuted_trans: "permuted a b xs ys \<Longrightarrow> permuted a b ys zs \<Longrightarrow> permuted a b xs zs"
  by (simp add: permuted_def)

lemma permuted_mono: "permuted c d xs ys \<Longrightarrow> a \<le> c \<Longrightarrow> d \<le> b \<Longrightarrow> permuted a b xs ys"
  by (auto simp: permuted_def)

lemma permuted_length: "permuted a b xs ys \<Longrightarrow> length ys = length xs"
  by (auto simp: permuted_def dest: mset_eq_length)

lemma permuted_outside: "permuted a b xs ys \<Longrightarrow> j < a \<or> b \<le> j \<Longrightarrow> ys ! j = xs ! j"
  by (auto simp: permuted_def)

lemma permuted_set: "permuted a b xs ys \<Longrightarrow> set ys = set xs"
  by (auto simp: permuted_def dest: mset_eq_setD)

lemma permuted_swap:
  "i < length xs \<Longrightarrow> j < length xs \<Longrightarrow> a \<le> i \<Longrightarrow> a \<le> j \<Longrightarrow> i < b \<Longrightarrow> j < b \<Longrightarrow> permuted a b xs (xs[i := xs ! j, j := xs ! i])"
  using mset_swap [of j xs i] by (auto simp: permuted_def nth_list_update)

lemma swap_run: "i < length xs \<Longrightarrow> j < length xs \<Longrightarrow> swap xs i j = Some (xs[i := xs ! j, j := xs ! i])"
  by (simp add: swap_def rd_in wr_in)

text \<open>The permuted part has the same items.\<close>

lemma permuted_nth:
  assumes p: "permuted a b xs ys" and i: "a \<le> i" "i < b" and b: "b \<le> length xs"
  shows "\<exists>j. a \<le> j \<and> j < b \<and> ys ! i = xs ! j"
proof -
  let ?seg = "\<lambda>zs. take (b - a) (drop a zs)"
  have l: "length ys = length xs" using p by (rule permuted_length)
  have t: "take a ys = take a xs" "drop b ys = drop b xs"
    using p l b i by (auto intro!: nth_equalityI simp: permuted_def)
  have cut: "zs = take a zs @ ?seg zs @ drop b zs" if "a \<le> b" for zs :: "'a list"
    using append_take_drop_id [of "b - a" "drop a zs"] that by simp
  have "mset (take a ys @ ?seg ys @ drop b ys) = mset (take a xs @ ?seg xs @ drop b xs)"
    using p cut [of xs] cut [of ys] i by (simp add: permuted_def)
  then have "mset (?seg ys) = mset (?seg xs)" by (simp add: t)
  then have s: "set (?seg ys) = set (?seg xs)" by (rule mset_eq_setD)
  have "?seg ys ! (i - a) = ys ! i" "i - a < length (?seg ys)" using i b l by simp_all
  then have "ys ! i \<in> set (?seg xs)" unfolding s [symmetric] by (metis nth_mem)
  then obtain k where "k < length (?seg xs)" "?seg xs ! k = ys ! i" by (auto simp: in_set_conv_nth)
  then show ?thesis using i b by (intro exI [of _ "a + k"]) auto
qed

subsection \<open>Scans and partition\<close>

lemma scan_up_run:
  "t \<le> length xs \<Longrightarrow> \<exists>r. scan_up lo xs h t = Some r \<and> (\<forall>h'. r = Inr h' \<longrightarrow> h \<le> h' \<and> h' \<le> max h t
     \<and> (\<forall>i. h \<le> i \<and> i < h' \<longrightarrow> lo (xs ! i) = Inr True) \<and> (h' < t \<longrightarrow> lo (xs ! h') = Inr False))
     \<and> (\<forall>e. r = Inl e \<longrightarrow> (\<exists>x \<in> set xs. lo x = Inl e))"
proof (induction lo xs h t rule: scan_up.induct)
  case (1 lo xs h t)
  show ?case
  proof (cases "h < t")
    case True
    then have rd: "rd xs h = Some (xs ! h)" using 1(2) by (simp add: rd_in)
    show ?thesis
    proof (cases "lo (xs ! h) = Inr True")
      case skip: True
      obtain r where r: "scan_up lo xs (h + 1) t = Some r" "\<And>h'. r = Inr h' \<Longrightarrow> h + 1 \<le> h' \<and> h' \<le> max (h + 1) t
          \<and> (\<forall>i. h + 1 \<le> i \<and> i < h' \<longrightarrow> lo (xs ! i) = Inr True) \<and> (h' < t \<longrightarrow> lo (xs ! h') = Inr False)"
          "\<And>e. r = Inl e \<Longrightarrow> \<exists>x \<in> set xs. lo x = Inl e"
        using 1(1) [OF True rd skip TrueI 1(2)] by blast
      have "lo (xs ! i) = Inr True" if "h \<le> i" "i < h'" "r = Inr h'" for i h'
        using that r(2) [of h'] skip by (cases "i = h") auto
      then show ?thesis using r True rd skip by (subst scan_up.simps) (fastforce simp: max_def)
    next
      case False
      moreover have "xs ! h \<in> set xs" using True 1(2) by simp
      ultimately show ?thesis using True rd by (subst scan_up.simps) (auto split: sum.splits)
    qed
  qed (subst scan_up.simps, auto)
qed

lemma scan_down_run:
  "t < length xs \<Longrightarrow> \<exists>r. scan_down hi xs h t = Some r \<and> (\<forall>t'. r = Inr t' \<longrightarrow> t' \<le> t \<and> min h t \<le> t'
     \<and> (\<forall>i. t' < i \<and> i \<le> t \<longrightarrow> hi (xs ! i) = Inr True) \<and> (h < t' \<longrightarrow> hi (xs ! t') = Inr False))
     \<and> (\<forall>e. r = Inl e \<longrightarrow> (\<exists>x \<in> set xs. hi x = Inl e))"
proof (induction hi xs h t rule: scan_down.induct)
  case (1 hi xs h t)
  show ?case
  proof (cases "h < t")
    case True
    then have rd: "rd xs t = Some (xs ! t)" using 1(2) by (simp add: rd_in)
    show ?thesis
    proof (cases "hi (xs ! t) = Inr True")
      case skip: True
      obtain r where r: "scan_down hi xs h (t - 1) = Some r" "\<And>t'. r = Inr t' \<Longrightarrow> t' \<le> t - 1 \<and> min h (t - 1) \<le> t'
          \<and> (\<forall>i. t' < i \<and> i \<le> t - 1 \<longrightarrow> hi (xs ! i) = Inr True) \<and> (h < t' \<longrightarrow> hi (xs ! t') = Inr False)"
          "\<And>e. r = Inl e \<Longrightarrow> \<exists>x \<in> set xs. hi x = Inl e"
        using 1(1) [OF True rd skip TrueI less_imp_diff_less [OF 1(2)]] by blast
      have "hi (xs ! i) = Inr True" if "t' < i" "i \<le> t" "r = Inr t'" for i t'
        using that r(2) [of t'] skip by (cases "i = t") auto
      moreover have "t' \<le> t \<and> min h t \<le> t'" if "r = Inr t'" for t' using r(2) [OF that] True by auto
      ultimately show ?thesis using r True rd skip by (subst scan_down.simps) fastforce
    next
      case False
      moreover have "xs ! t \<in> set xs" using 1(2) by simp
      ultimately show ?thesis using True rd by (subst scan_down.simps) (auto split: sum.splits)
    qed
  qed (subst scan_down.simps, auto)
qed

text \<open>An item that stays or is put before the pivot, and behind it.\<close>

definition below :: "(mp_obj_t \<Rightarrow> exc + bool) \<Rightarrow> (mp_obj_t \<Rightarrow> exc + bool) \<Rightarrow> mp_obj_t \<Rightarrow> bool" where
  "below lo hi x \<longleftrightarrow> lo x = Inr True \<or> hi x = Inr False"

definition above :: "(mp_obj_t \<Rightarrow> exc + bool) \<Rightarrow> (mp_obj_t \<Rightarrow> exc + bool) \<Rightarrow> mp_obj_t \<Rightarrow> bool" where
  "above lo hi x \<longleftrightarrow> hi x = Inr True \<or> lo x = Inr False"

definition partitioned :: "(mp_obj_t \<Rightarrow> exc + bool) \<Rightarrow> (mp_obj_t \<Rightarrow> exc + bool) \<Rightarrow> nat \<Rightarrow> nat \<Rightarrow> nat \<Rightarrow> nat
    \<Rightarrow> mp_obj_t list \<Rightarrow> bool" where
  "partitioned lo hi h t h' t' xs \<longleftrightarrow> t' \<le> h' \<and> h' \<le> t' + 1 \<and> h \<le> h' \<and> h' \<le> t \<and> t' < t \<and> (h < t \<longrightarrow> h \<le> t')
     \<and> (\<forall>i. h \<le> i \<and> i < h' \<longrightarrow> below lo hi (xs ! i)) \<and> (\<forall>i. h' \<le> i \<and> i < t \<longrightarrow> above lo hi (xs ! i))"

lemma partition_run:
  assumes "h \<le> t" and "0 < t" and "t < length xs"
  shows "\<exists>r xs'. partition_loop lo hi xs h t = Some (r, xs') \<and> permuted h t xs xs'
    \<and> (\<forall>h' t'. r = Inr (h', t') \<longrightarrow> partitioned lo hi h t h' t' xs')
    \<and> (\<forall>e. r = Inl e \<longrightarrow> (\<exists>x \<in> set xs. lo x = Inl e \<or> hi x = Inl e))"
  using assms
proof (induction lo hi xs h t rule: partition_loop.induct)
  case (1 lo hi xs h t)
  obtain r where r: "scan_up lo xs h t = Some r" "\<And>h'. r = Inr h' \<Longrightarrow> h \<le> h' \<and> h' \<le> t
      \<and> (\<forall>i. h \<le> i \<and> i < h' \<longrightarrow> lo (xs ! i) = Inr True) \<and> (h' < t \<longrightarrow> lo (xs ! h') = Inr False)"
      "\<And>e. r = Inl e \<Longrightarrow> \<exists>x \<in> set xs. lo x = Inl e"
    using scan_up_run [of t xs lo h] 1(2,4) by (auto simp: max_def)
  show ?case
  proof (cases r)
    case (Inl e)
    then show ?thesis using r(1,3) by (subst partition_loop.simps) auto
  next
    case h1: (Inr h1)
    note up = r(2) [OF h1]
    obtain q where q: "scan_down hi xs h1 (t - 1) = Some q" "\<And>t'. q = Inr t' \<Longrightarrow> t' \<le> t - 1 \<and> min h1 (t - 1) \<le> t'
        \<and> (\<forall>i. t' < i \<and> i \<le> t - 1 \<longrightarrow> hi (xs ! i) = Inr True) \<and> (h1 < t' \<longrightarrow> hi (xs ! t') = Inr False)"
        "\<And>e. q = Inl e \<Longrightarrow> \<exists>x \<in> set xs. hi x = Inl e"
      using scan_down_run [OF less_imp_diff_less [OF 1(4)], of hi h1] by blast
    show ?thesis
    proof (cases q)
      case (Inl e)
      then show ?thesis using r(1) q(1,3) h1 1(3) by (subst partition_loop.simps) auto
    next
      case t1: (Inr t1)
      note dn = q(2) [OF t1]
      show ?thesis
      proof (cases "t1 \<le> h1")
        case True
        have "above lo hi (xs ! i)" if i: "h1 \<le> i" "i < t" for i
        proof (cases "t1 < i")
          case False
          then have "i = h1" using i True by simp
          then show ?thesis using up i by (simp add: above_def)
        qed (use dn i in \<open>simp add: above_def\<close>)
        moreover have "below lo hi (xs ! i)" if "h \<le> i" "i < h1" for i using up that by (simp add: below_def)
        moreover have "h1 \<le> t1 + 1" "t1 < t" "h < t \<longrightarrow> h \<le> t1" using up dn 1(3) by auto
        ultimately have "partitioned lo hi h t h1 t1 xs" using up True by (simp add: partitioned_def)
        then show ?thesis using r(1) q(1) h1 t1 True 1(3) by (subst partition_loop.simps) auto
      next
        case False
        let ?ys = "xs[h1 := xs ! t1, t1 := xs ! h1]"
        have b: "h1 < t1" "t1 < t" "h \<le> h1" using False dn 1(3) up by auto
        then have sw: "swap xs h1 t1 = Some ?ys" using 1(4) by (intro swap_run) simp_all
        have ne: "t \<noteq> 0" using 1(3) by simp
        obtain r' zs where rec: "partition_loop lo hi ?ys (h1 + 1) t1 = Some (r', zs)" "permuted (h1 + 1) t1 ?ys zs"
          "\<And>h' t'. r' = Inr (h', t') \<Longrightarrow> partitioned lo hi (h1 + 1) t1 h' t' zs"
          "\<And>e. r' = Inl e \<Longrightarrow> \<exists>x \<in> set ?ys. lo x = Inl e \<or> hi x = Inl e"
          using 1(1) [OF r(1) h1 ne q(1) t1 False sw] b 1(4) by auto
        have pys: "permuted h t xs ?ys" using b 1(4) by (intro permuted_swap) simp_all
        moreover have "permuted h t ?ys zs" using b by (intro permuted_mono [OF rec(2)]) simp_all
        ultimately have p: "permuted h t xs zs" by (rule permuted_trans)
        have "partitioned lo hi h t h' t' zs" if "r' = Inr (h', t')" for h' t'
        proof -
          note P = rec(3) [OF that, unfolded partitioned_def]
          have out: "zs ! j = ?ys ! j" if "j < h1 + 1 \<or> t1 \<le> j" for j
            using permuted_outside [OF rec(2) that] .
          have "below lo hi (zs ! i)" if i: "h \<le> i" "i < h'" for i
          proof (cases "i \<le> h1")
            case True
            then have "zs ! i = (if i = h1 then xs ! t1 else xs ! i)" using out [of i] b 1(4) by simp
            then show ?thesis using up dn b i True by (auto simp: below_def)
          qed (use P i in simp)
          moreover have "above lo hi (zs ! i)" if i: "h' \<le> i" "i < t" for i
          proof (cases "i < t1")
            case False
            then have "zs ! i = (if i = t1 then xs ! h1 else xs ! i)" using out [of i] b 1(4) by simp
            then show ?thesis using up dn b i False by (auto simp: above_def)
          qed (use P i in simp)
          ultimately show ?thesis using P b by (auto simp: partitioned_def)
        qed
        then show ?thesis using r(1) q(1) h1 t1 False 1(3) sw rec(1,4) p unfolding permuted_set [OF pys]
          by (subst partition_loop.simps) auto
      qed
    qed
  qed
qed

subsection \<open>Sorting permutes, whatever the comparison does\<close>

text \<open>One round of the loop up to the nested call.\<close>

lemma quicksort_step:
  assumes lt: "head < tail" and tl: "tail < length xs" and v: "item_key env key_fn (xs ! tail) = Inr v"
    and part: "partition_loop (skip_low env key_fn res v) (skip_high env key_fn res v) xs head tail = Some (Inr (h, t), ys)"
    and ly: "length ys = length xs" and h: "h \<le> tail"
    and sub: "(a, b) = (if int t - int head < int tail - int h - 1 then (head, t) else (h + 1, tail))"
    and rest: "(c, d) = (if int t - int head < int tail - int h - 1 then (h + 1, tail) else (head, t))"
    and call: "(if depth = 0 then Some (Inl RuntimeError, ys[h := ys ! tail, tail := ys ! h])
        else quicksort_loop env key_fn res (depth - 1) a b (ys[h := ys ! tail, tail := ys ! h])) = Some (r, zs)"
  shows "quicksort_loop env key_fn res depth head tail xs
    = (case r of Inl e \<Rightarrow> Some (Inl e, zs) | Inr u \<Rightarrow> quicksort_loop env key_fn res depth c d zs)"
proof -
  have "rd xs tail = Some (xs ! tail)" "swap ys h tail = Some (ys[h := ys ! tail, tail := ys ! h])"
    using tl ly h by (simp_all add: rd_in swap_run)
  then show ?thesis
    using lt v part sub rest call
    by (subst quicksort_loop.simps) (cases "int t - int head < int tail - int h - 1"; cases "depth = 0"; auto split: sum.splits)
qed

text \<open>What the code of the program raises.\<close>

definition raised :: "py_env \<Rightarrow> mp_obj_t \<Rightarrow> mp_obj_t set \<Rightarrow> exc \<Rightarrow> bool" where
  "raised env key_fn X e \<longleftrightarrow> (\<exists>x \<in> X. item_key env key_fn x = Inl e)
     \<or> (\<exists>x \<in> X. \<exists>y \<in> X. \<exists>a b. item_key env key_fn x = Inr a \<and> item_key env key_fn y = Inr b
        \<and> mp_binary_op env MP_BINARY_OP_LESS a b = Inl e)"

lemma skip_raises:
  assumes "y \<in> X" and "item_key env key_fn y = Inr v" and "x \<in> X"
    and "skip_low env key_fn res v x = Inl e \<or> skip_high env key_fn res v x = Inl e"
  shows "raised env key_fn X e"
  using assms unfolding raised_def skip_low_def skip_high_def less_is_def by (fastforce split: sum.splits)

definition pivot_placed :: "py_env \<Rightarrow> mp_obj_t \<Rightarrow> mp_obj_t \<Rightarrow> nat \<Rightarrow> nat \<Rightarrow> nat \<Rightarrow> nat \<Rightarrow> mp_obj_t list \<Rightarrow> bool" where
  "pivot_placed env key_fn res head tail h t zs \<longleftrightarrow> t \<le> h \<and> h \<le> t + 1 \<and> head \<le> t \<and> h \<le> tail \<and> t < tail
     \<and> (\<exists>v. item_key env key_fn (zs ! h) = Inr v
       \<and> (\<forall>i. head \<le> i \<and> i < h \<longrightarrow> below (skip_low env key_fn res v) (skip_high env key_fn res v) (zs ! i))
       \<and> (\<forall>i. h < i \<and> i \<le> tail \<longrightarrow> above (skip_low env key_fn res v) (skip_high env key_fn res v) (zs ! i)))"

lemma quicksort_round:
  assumes lt: "head < tail" and tl: "tail < length xs"
  obtains e ys where "\<And>depth. quicksort_loop env key_fn res depth head tail xs = Some (Inl e, ys)" "permuted head (tail + 1) xs ys"
      "raised env key_fn (set xs) e"
  | h t zs a b c d where "permuted head (tail + 1) xs zs" "pivot_placed env key_fn res head tail h t zs"
      "(a, b, c, d) = (head, t, h + 1, tail) \<or> (a, b, c, d) = (h + 1, tail, head, t)" "2 * (b + 1 - a) \<le> tail + 1 - head"
      "\<And>depth r ws. (if depth = 0 then Some (Inl RuntimeError, zs) else quicksort_loop env key_fn res (depth - 1) a b zs) = Some (r, ws)
        \<Longrightarrow> quicksort_loop env key_fn res depth head tail xs
          = (case r of Inl e \<Rightarrow> Some (Inl e, ws) | Inr u \<Rightarrow> quicksort_loop env key_fn res depth c d ws)"
proof -
  let ?lo = "skip_low env key_fn res" and ?hi = "skip_high env key_fn res"
  have rd: "rd xs tail = Some (xs ! tail)" using tl by (simp add: rd_in)
  have piv: "xs ! tail \<in> set xs" using tl by simp
  show thesis
  proof (cases "item_key env key_fn (xs ! tail)")
    case (Inl e)
    then have "raised env key_fn (set xs) e" using piv by (auto simp: raised_def)
    moreover have "quicksort_loop env key_fn res depth head tail xs = Some (Inl e, xs)" for depth
      using Inl lt rd by (subst quicksort_loop.simps) simp
    ultimately show thesis using that(1) by simp
  next
    case v: (Inr v)
    obtain r ys where part: "partition_loop (?lo v) (?hi v) xs head tail = Some (r, ys)" "permuted head tail xs ys"
      "\<And>h t. r = Inr (h, t) \<Longrightarrow> partitioned (?lo v) (?hi v) head tail h t ys"
      "\<And>e. r = Inl e \<Longrightarrow> \<exists>x \<in> set xs. ?lo v x = Inl e \<or> ?hi v x = Inl e"
      using partition_run [of head tail xs "?lo v" "?hi v"] lt tl by auto
    have p1: "permuted head (tail + 1) xs ys" by (rule permuted_mono [OF part(2)]) simp_all
    show thesis
    proof (cases r)
      case (Inl e)
      then have "raised env key_fn (set xs) e" using part(4) skip_raises [OF piv v] by blast
      moreover have "quicksort_loop env key_fn res depth head tail xs = Some (Inl e, ys)" for depth
        using Inl lt rd v part(1) by (subst quicksort_loop.simps) simp
      ultimately show thesis using that(1) p1 by simp
    next
      case r: (Inr ht)
      obtain h t where ht: "ht = (h, t)" by (cases ht)
      note P = part(3) [OF r [unfolded ht], unfolded partitioned_def]
      have b: "t \<le> h" "h \<le> t + 1" "head \<le> h" "h \<le> tail" "t < tail" "head \<le> t" using P lt by auto
      have ly: "length ys = length xs" using p1 by (rule permuted_length)
      have last: "ys ! tail = xs ! tail" using permuted_outside [OF part(2), of tail] by simp
      let ?zs = "ys[h := ys ! tail, tail := ys ! h]" and ?left = "int t - int head < int tail - int h - 1"
      have "permuted head (tail + 1) ys ?zs" using b tl ly lt by (intro permuted_swap) simp_all
      then have p2: "permuted head (tail + 1) xs ?zs" using p1 permuted_trans by blast
      have zh: "?zs ! h = xs ! tail" using b tl ly last by (cases "h = tail") simp_all
      have "below (?lo v) (?hi v) (?zs ! i)" if "head \<le> i" "i < h" for i using P that b by simp
      moreover have "above (?lo v) (?hi v) (?zs ! i)" if i: "h < i" "i \<le> tail" for i
        using P i b tl ly by (cases "i = tail") simp_all
      ultimately have pp: "pivot_placed env key_fn res head tail h t ?zs"
        using b zh v by (auto simp: pivot_placed_def)
      obtain a e c d where ab: "(a, e) = (if ?left then (head, t) else (h + 1, tail))"
        "(c, d) = (if ?left then (h + 1, tail) else (head, t))" by (metis surj_pair)
      have sides: "(a, e, c, d) = (head, t, h + 1, tail) \<or> (a, e, c, d) = (h + 1, tail, head, t)"
        "2 * (e + 1 - a) \<le> tail + 1 - head"
        using ab b by (auto split: if_splits)
      have "partition_loop (?lo v) (?hi v) xs head tail = Some (Inr (h, t), ys)" using part(1) r ht by simp
      then show thesis by (rule that(2) [OF p2 pp sides quicksort_step [OF lt tl v _ ly b(4) ab]])
    qed
  qed
qed

lemma quicksort_run:
  "tail < length xs \<Longrightarrow> \<exists>r xs'. quicksort_loop env key_fn res depth head tail xs = Some (r, xs') \<and> permuted head (tail + 1) xs xs'
    \<and> (\<forall>e. r = Inl e \<longrightarrow> raised env key_fn (set xs) e \<or> e = RuntimeError \<and> 2 ^ (depth + 1) \<le> tail + 1 - head)"
proof (induction "tail - head" arbitrary: depth head tail xs rule: less_induct)
  case less
  show ?case
  proof (cases "head < tail")
    case lt: True
    show ?thesis
    proof (rule quicksort_round [OF lt less(2), of env key_fn res])
      fix e ys assume "\<And>depth. quicksort_loop env key_fn res depth head tail xs = Some (Inl e, ys)"
        "permuted head (tail + 1) xs ys" "raised env key_fn (set xs) e"
      then show ?thesis by simp
    next
      fix h t zs a b c d
      assume p: "permuted head (tail + 1) xs zs" and P: "pivot_placed env key_fn res head tail h t zs"
        and abcd: "(a, b, c, d) = (head, t, h + 1, tail) \<or> (a, b, c, d) = (h + 1, tail, head, t)"
        and half: "2 * (b + 1 - a) \<le> tail + 1 - head"
        and run: "\<And>depth r ws. (if depth = 0 then Some (Inl RuntimeError, zs) else quicksort_loop env key_fn res (depth - 1) a b zs) = Some (r, ws)
          \<Longrightarrow> quicksort_loop env key_fn res depth head tail xs
            = (case r of Inl e \<Rightarrow> Some (Inl e, ws) | Inr u \<Rightarrow> quicksort_loop env key_fn res depth c d ws)"
      have ht: "t \<le> h" "h \<le> t + 1" "head \<le> t" "h \<le> tail" "t < tail" using P by (auto simp: pivot_placed_def)
      have small: "b - a < tail - head" "d - c < tail - head" "b < length xs" "d < length xs"
        "head \<le> a" "head \<le> c" "b \<le> tail" "d \<le> tail" "d + 1 - c \<le> tail + 1 - head"
        using abcd ht lt less(2) by auto
      have "\<exists>r ws. (if depth = 0 then Some (Inl RuntimeError, zs) else quicksort_loop env key_fn res (depth - 1) a b zs) = Some (r, ws)
        \<and> permuted head (tail + 1) zs ws
        \<and> (\<forall>e. r = Inl e \<longrightarrow> raised env key_fn (set zs) e \<or> e = RuntimeError \<and> 2 ^ (depth + 1) \<le> tail + 1 - head)"
      proof (cases depth)
        case 0
        then show ?thesis using lt by auto
      next
        case (Suc n)
        obtain r ws where "quicksort_loop env key_fn res n a b zs = Some (r, ws)" "permuted a (b + 1) zs ws"
          "\<And>e. r = Inl e \<Longrightarrow> raised env key_fn (set zs) e \<or> e = RuntimeError \<and> 2 ^ (n + 1) \<le> b + 1 - a"
          using less(1) [OF small(1), of zs n] small(3) permuted_length [OF p] by auto
        moreover have "(2 :: nat) ^ (depth + 1) \<le> tail + 1 - head" if "(2 :: nat) ^ (n + 1) \<le> b + 1 - a"
          using that half by (simp add: Suc)
        moreover have "permuted head (tail + 1) zs ws" using permuted_mono [OF calculation(2)] small by simp
        ultimately show ?thesis using Suc by auto
      qed
      then obtain r ws where r: "(if depth = 0 then Some (Inl RuntimeError, zs) else quicksort_loop env key_fn res (depth - 1) a b zs) = Some (r, ws)"
        "permuted head (tail + 1) zs ws"
        "\<And>e. r = Inl e \<Longrightarrow> raised env key_fn (set zs) e \<or> e = RuntimeError \<and> 2 ^ (depth + 1) \<le> tail + 1 - head" by blast
      have p3: "permuted head (tail + 1) xs ws" using p r(2) by (rule permuted_trans)
      have sets: "set zs = set xs" "set ws = set xs" using p p3 by (simp_all add: permuted_set)
      obtain q us where q: "quicksort_loop env key_fn res depth c d ws = Some (q, us)" "permuted c (d + 1) ws us"
        "\<And>e. q = Inl e \<Longrightarrow> raised env key_fn (set ws) e \<or> e = RuntimeError \<and> 2 ^ (depth + 1) \<le> d + 1 - c"
        using less(1) [OF small(2), of ws depth] small(4) permuted_length [OF p3] by auto
      have p4: "permuted head (tail + 1) xs us"
        using p3 permuted_mono [OF q(2) small(6), of "tail + 1"] small(8) permuted_trans by auto
      show ?thesis
      proof (cases r)
        case (Inl e)
        then show ?thesis using run [OF r(1)] p3 r(3) sets by simp
      next
        case (Inr u)
        then show ?thesis using run [OF r(1)] p4 q(1,3) sets small(9) by (auto intro: order_trans)
      qed
    qed
  next
    case False
    then show ?thesis by (subst quicksort_loop.simps) simp
  qed
qed

subsection \<open>Sorting sorts, when the comparison is an order\<close>

text \<open>
  The interface of the comparison: \<open>key\<close> gives the keys of the items, \<open>le\<close> is the order in which they
  have to come, and a scan may skip only where the order allows it.
\<close>

locale sort_order =
  fixes env :: py_env and key_fn res :: mp_obj_t and items :: "mp_obj_t set"
    and key :: "mp_obj_t \<Rightarrow> mp_obj_t" and le :: "mp_obj_t \<Rightarrow> mp_obj_t \<Rightarrow> bool"
  assumes le_trans: "x \<in> items \<Longrightarrow> y \<in> items \<Longrightarrow> z \<in> items \<Longrightarrow> le (key x) (key y) \<Longrightarrow> le (key y) (key z) \<Longrightarrow> le (key x) (key z)"
    and key_is: "x \<in> items \<Longrightarrow> item_key env key_fn x = Inr (key x)"
    and skips: "x \<in> items \<Longrightarrow> y \<in> items \<Longrightarrow> \<exists>b. less_is env res (key x) (key y) = Inr b
      \<and> (if b then le (key x) (key y) else le (key y) (key x))"
begin

definition in_order :: "nat \<Rightarrow> nat \<Rightarrow> mp_obj_t list \<Rightarrow> bool" where
  "in_order a b xs \<longleftrightarrow> (\<forall>i j. a \<le> i \<and> i < j \<and> j < b \<longrightarrow> le (key (xs ! i)) (key (xs ! j)))"

lemma never_raises: "X \<subseteq> items \<Longrightarrow> \<not> raised env key_fn X e"
proof
  assume X: "X \<subseteq> items" and "raised env key_fn X e"
  then show False unfolding raised_def
  proof (elim disjE bexE exE conjE)
    fix x assume "x \<in> X" "item_key env key_fn x = Inl e"
    then show False using key_is [of x] X by auto
  next
    fix x y a b assume xy: "x \<in> X" "y \<in> X" and k: "item_key env key_fn x = Inr a" "item_key env key_fn y = Inr b"
      and e: "mp_binary_op env MP_BINARY_OP_LESS a b = Inl e"
    have i: "x \<in> items" "y \<in> items" using xy X by auto
    then have "a = key x" "b = key y" using k key_is by auto
    then show False using skips [OF i] e by (simp add: less_is_def)
  qed
qed

lemma below_le: "x \<in> items \<Longrightarrow> p \<in> items
  \<Longrightarrow> below (skip_low env key_fn res (key p)) (skip_high env key_fn res (key p)) x \<Longrightarrow> le (key x) (key p)"
  using skips [of x p] skips [of p x] by (auto simp: below_def skip_low_def skip_high_def key_is split: if_splits)

lemma above_le: "x \<in> items \<Longrightarrow> p \<in> items
  \<Longrightarrow> above (skip_low env key_fn res (key p)) (skip_high env key_fn res (key p)) x \<Longrightarrow> le (key p) (key x)"
  using skips [of x p] skips [of p x] by (auto simp: above_def skip_low_def skip_high_def key_is split: if_splits)

text \<open>Around a placed pivot two sorted sides make a sorted whole, however the sides are permuted.\<close>

lemma sides_sorted:
  assumes pp: "pivot_placed env key_fn res head tail h t zs" and tl: "tail < length zs" and X: "set zs \<subseteq> items"
    and left: "\<And>i. head \<le> i \<Longrightarrow> i \<le> t \<Longrightarrow> \<exists>k. head \<le> k \<and> k \<le> t \<and> vs ! i = zs ! k"
    and mid: "\<And>i. t < i \<Longrightarrow> i \<le> h \<Longrightarrow> vs ! i = zs ! i"
    and right: "\<And>i. h < i \<Longrightarrow> i \<le> tail \<Longrightarrow> \<exists>k. h < k \<and> k \<le> tail \<and> vs ! i = zs ! k"
    and s1: "in_order head (t + 1) vs" and s2: "in_order (h + 1) (tail + 1) vs"
  shows "in_order head (tail + 1) vs"
  unfolding in_order_def
proof (intro allI impI)
  fix i j assume ij: "head \<le> i \<and> i < j \<and> j < tail + 1"
  have b: "t \<le> h" "h \<le> t + 1" "head \<le> t" "h \<le> tail" "t < tail" using pp by (auto simp: pivot_placed_def)
  obtain v where v: "item_key env key_fn (zs ! h) = Inr v"
    "\<And>i. head \<le> i \<Longrightarrow> i < h \<Longrightarrow> below (skip_low env key_fn res v) (skip_high env key_fn res v) (zs ! i)"
    "\<And>i. h < i \<Longrightarrow> i \<le> tail \<Longrightarrow> above (skip_low env key_fn res v) (skip_high env key_fn res v) (zs ! i)"
    using pp by (auto simp: pivot_placed_def)
  have it: "zs ! i \<in> items" if "i \<le> tail" for i using X tl that by (meson le_less_trans nth_mem subsetD)
  have key_h: "v = key (zs ! h)" using v(1) key_is [OF it] b by simp
  have refl: "le (key x) (key x)" if "x \<in> items" for x using skips [OF that that] by (auto split: if_splits)
  have low: "vs ! i \<in> items \<and> le (key (vs ! i)) (key (zs ! h))" if i: "head \<le> i" "i \<le> h" for i
  proof -
    have "\<exists>k. head \<le> k \<and> k \<le> h \<and> vs ! i = zs ! k"
      using left [OF i(1)] mid [of i] i b(1) by (cases "i \<le> t") (meson order_trans, auto)
    then obtain k where k: "head \<le> k" "k \<le> h" "vs ! i = zs ! k" by blast
    have "le (key (zs ! k)) (key (zs ! h))"
    proof (cases "k = h")
      case True
      then show ?thesis using refl [OF it] b(4) by simp
    next
      case False
      then show ?thesis using below_le [OF it it v(2) [unfolded key_h]] k b by simp
    qed
    then show ?thesis using k it b by simp
  qed
  have high: "vs ! i \<in> items \<and> le (key (zs ! h)) (key (vs ! i))" if i: "h < i" "i \<le> tail" for i
  proof -
    obtain k where k: "h < k" "k \<le> tail" "vs ! i = zs ! k" using right [OF i] by blast
    then show ?thesis using above_le [OF it it v(3) [unfolded key_h]] it b by simp
  qed
  show "le (key (vs ! i)) (key (vs ! j))"
  proof (cases "j \<le> h")
    case True
    show ?thesis
    proof (cases "j < t + 1")
      case True
      then show ?thesis using s1 ij by (simp add: in_order_def)
    next
      case False
      then have "j = h" "\<not> h < t + 1" using True b by auto
      then have "vs ! j = zs ! h" using mid [of h] by simp
      then show ?thesis using low [of i] ij \<open>j = h\<close> by simp
    qed
  next
    case j: False
    show ?thesis
    proof (cases "i \<le> h")
      case True
      then show ?thesis using low [of i] high [of j] le_trans [of "vs ! i" "zs ! h" "vs ! j"] it b(4) ij j by auto
    next
      case False
      then show ?thesis using s2 ij by (simp add: in_order_def)
    qed
  qed
qed

lemma quicksort_sorts:
  "tail < length xs \<Longrightarrow> set xs \<subseteq> items \<Longrightarrow> tail + 1 - head < 2 ^ (depth + 1)
   \<Longrightarrow> \<exists>us. quicksort_loop env key_fn res depth head tail xs = Some (Inr (), us) \<and> permuted head (tail + 1) xs us
     \<and> in_order head (tail + 1) us"
proof (induction "tail - head" arbitrary: depth head tail xs rule: less_induct)
  case less
  note tl = less(2) and X = less(3) and dp = less(4)
  show ?case
  proof (cases "head < tail")
    case False
    then show ?thesis by (subst quicksort_loop.simps) (auto simp: in_order_def)
  next
    case lt: True
    show ?thesis
    proof (rule quicksort_round [OF lt tl, of env key_fn res])
      fix e assume "raised env key_fn (set xs) e"
      then show ?thesis using never_raises [OF X] by blast
    next
      fix h t zs a b c d
      assume p: "permuted head (tail + 1) xs zs" and P: "pivot_placed env key_fn res head tail h t zs"
        and abcd: "(a, b, c, d) = (head, t, h + 1, tail) \<or> (a, b, c, d) = (h + 1, tail, head, t)"
        and half: "2 * (b + 1 - a) \<le> tail + 1 - head"
        and run: "\<And>depth r ws. (if depth = 0 then Some (Inl RuntimeError, zs) else quicksort_loop env key_fn res (depth - 1) a b zs) = Some (r, ws)
          \<Longrightarrow> quicksort_loop env key_fn res depth head tail xs
            = (case r of Inl e \<Rightarrow> Some (Inl e, ws) | Inr u \<Rightarrow> quicksort_loop env key_fn res depth c d ws)"
      have ht: "t \<le> h" "h \<le> t + 1" "head \<le> t" "h \<le> tail" "t < tail" using P by (auto simp: pivot_placed_def)
      have small: "b - a < tail - head" "d - c < tail - head" "b < length xs" "d < length xs"
        "head \<le> a" "head \<le> c" "b \<le> tail" "d \<le> tail" "d + 1 - c \<le> tail + 1 - head"
        using abcd ht lt tl by auto
      have "depth \<noteq> 0" using dp lt by (intro notI) simp
      then obtain n where n: "depth = Suc n" by (cases depth) auto
      have Z: "set zs \<subseteq> items" "length zs = length xs" using p X by (simp_all add: permuted_set permuted_length)
      obtain ws where ws: "quicksort_loop env key_fn res n a b zs = Some (Inr (), ws)" "permuted a (b + 1) zs ws" "in_order a (b + 1) ws"
        using less(1) [OF small(1), of zs n] small(3) Z half dp by (auto simp: n)
      have W: "set ws \<subseteq> items" "length ws = length xs" using ws(2) Z by (simp_all add: permuted_set permuted_length)
      obtain us where us: "quicksort_loop env key_fn res depth c d ws = Some (Inr (), us)" "permuted c (d + 1) ws us" "in_order c (d + 1) us"
        using less(1) [OF small(2), of ws depth] small(4,9) W dp by auto
      have run': "quicksort_loop env key_fn res depth head tail xs = Some (Inr (), us)"
        using run [of depth "Inr ()" ws] ws(1) us(1) n by simp
      have all: "permuted head (tail + 1) xs us"
        by (rule permuted_trans [OF permuted_trans [OF p permuted_mono [OF ws(2)]] permuted_mono [OF us(2)]]) (use small in simp_all)
      have ends: "b < length zs" "d < length ws" using small Z W by simp_all
      note out = permuted_outside [OF ws(2)] permuted_outside [OF us(2)]
      note ins = permuted_nth [OF ws(2), of i for i] permuted_nth [OF us(2), of i for i]
      have keep: "in_order a (b + 1) us"
        using ws(3) out(2) abcd ht by (auto simp: in_order_def)
      have "in_order head (tail + 1) us"
      proof (rule sides_sorted [OF P _ Z(1)])
        show "tail < length zs" using tl Z by simp
        show "in_order head (t + 1) us" "in_order (h + 1) (tail + 1) us" using keep us(3) abcd by auto
        show "us ! i = zs ! i" if "t < i" "i \<le> h" for i using out [of i] abcd that by auto
        show "\<exists>k. head \<le> k \<and> k \<le> t \<and> us ! i = zs ! k" if i: "head \<le> i" "i \<le> t" for i
        proof (cases "a = head \<and> b = t")
          case True
          then have "us ! i = ws ! i" using out(2) [of i] abcd i ht by auto
          then show ?thesis using ins(1) [of i] True i ends by (auto simp: less_Suc_eq_le Suc_le_eq)
        next
          case False
          then have cd: "c = head" "d = t" "a = h + 1" using abcd by auto
          then obtain k where "head \<le> k" "k \<le> t" "us ! i = ws ! k" using ins(2) [of i] i ends by (auto simp: less_Suc_eq_le Suc_le_eq)
          then show ?thesis using out(1) [of k] cd ht by (intro exI [of _ k]) simp
        qed
        show "\<exists>k. h < k \<and> k \<le> tail \<and> us ! i = zs ! k" if i: "h < i" "i \<le> tail" for i
        proof (cases "a = h + 1 \<and> b = tail")
          case True
          then have "us ! i = ws ! i" using out(2) [of i] abcd i ht by auto
          then show ?thesis using ins(1) [of i] True i ends by (auto simp: less_Suc_eq_le Suc_le_eq)
        next
          case False
          then have cd: "c = h + 1" "d = tail" "b = t" using abcd by auto
          then obtain k where "h < k" "k \<le> tail" "us ! i = ws ! k" using ins(2) [of i] i ends by (auto simp: less_Suc_eq_le Suc_le_eq)
          then show ?thesis using out(1) [of k] cd ht by (intro exI [of _ k]) simp
        qed
      qed
      then show ?thesis using run' all by blast
    qed
  qed
qed

end

subsection \<open>Sorting a part of an array\<close>

lemma scan_up_frame: "t \<le> length xs \<Longrightarrow> scan_up lo (xs @ z) h t = scan_up lo xs h t"
proof (induction lo xs h t rule: scan_up.induct)
  case (1 lo xs h t)
  show ?case
  proof (cases "h < t")
    case True
    then have "rd (xs @ z) h = rd xs h" "rd xs h = Some (xs ! h)" using 1(2) by (simp_all add: rd_def nth_append)
    then show ?thesis
      using True 1(1) [OF True, of "xs ! h" True] 1(2) by (simp add: scan_up.simps [of lo _ h t] split: sum.splits)
  qed (simp add: scan_up.simps)
qed

lemma scan_down_frame: "t < length xs \<Longrightarrow> scan_down hi (xs @ z) h t = scan_down hi xs h t"
proof (induction hi xs h t rule: scan_down.induct)
  case (1 hi xs h t)
  show ?case
  proof (cases "h < t")
    case True
    then have "rd (xs @ z) t = rd xs t" "rd xs t = Some (xs ! t)" using 1(2) by (simp_all add: rd_def nth_append)
    then show ?thesis
      using True 1(1) [OF True, of "xs ! t" True] 1(2) by (simp add: scan_down.simps [of hi _ h t] split: sum.splits)
  qed (simp add: scan_down.simps)
qed

lemma swap_frame: "i < length xs \<Longrightarrow> j < length xs \<Longrightarrow> swap (xs @ z) i j = map_option (\<lambda>ys. ys @ z) (swap xs i j)"
  by (simp add: swap_run nth_append list_update_append)

lemma partition_frame:
  assumes "h \<le> t" and "0 < t" and "t < length xs"
  shows "partition_loop lo hi (xs @ z) h t = map_option (\<lambda>(r, ys). (r, ys @ z)) (partition_loop lo hi xs h t)"
  using assms
proof (induction lo hi xs h t rule: partition_loop.induct)
  case (1 lo hi xs h t)
  have up: "scan_up lo (xs @ z) h t = scan_up lo xs h t" using 1(4) by (intro scan_up_frame) simp
  have dn: "scan_down hi (xs @ z) h1 (t - 1) = scan_down hi xs h1 (t - 1)" for h1
    using 1(4) by (intro scan_down_frame) simp
  show ?case
  proof (cases "scan_up lo xs h t")
    case None
    then show ?thesis using up by (simp add: partition_loop.simps [of lo hi _ h t])
  next
    case (Some r)
    show ?thesis
    proof (cases r)
      case (Inl e)
      then show ?thesis using up Some by (simp add: partition_loop.simps [of lo hi _ h t])
    next
      case h1: (Inr h1)
      show ?thesis
      proof (cases "scan_down hi xs h1 (t - 1)")
        case None
        then show ?thesis using up dn Some h1 1(3) by (simp add: partition_loop.simps [of lo hi _ h t])
      next
        case q: (Some q)
        show ?thesis
        proof (cases q)
          case (Inl e)
          then show ?thesis using up dn Some h1 q 1(3) by (simp add: partition_loop.simps [of lo hi _ h t])
        next
          case t1: (Inr t1)
          show ?thesis
          proof (cases "t1 \<le> h1")
            case True
            then show ?thesis using up dn Some h1 q t1 1(3) by (simp add: partition_loop.simps [of lo hi _ h t])
          next
            case False
            have b: "h1 < t1" "t1 < length xs" using False scan_down_le [of hi xs h1 "t - 1" t1] q t1 1(4) by auto
            let ?ys = "xs[h1 := xs ! t1, t1 := xs ! h1]"
            have sw: "swap xs h1 t1 = Some ?ys" using b by (intro swap_run) simp_all
            have sz: "swap (xs @ z) h1 t1 = Some (?ys @ z)" using b swap_frame [of h1 xs t1 z] sw by simp
            have ne: "t \<noteq> 0" using 1(3) by simp
            have "partition_loop lo hi (?ys @ z) (h1 + 1) t1 = map_option (\<lambda>(r, ys). (r, ys @ z)) (partition_loop lo hi ?ys (h1 + 1) t1)"
              using 1(1) [OF Some h1 ne q t1 False sw] b by simp
            then show ?thesis using up dn Some h1 q t1 False ne sw sz
              by (subst (1 2) partition_loop.simps) simp
          qed
        qed
      qed
    qed
  qed
qed

lemma quicksort_frame:
  "tail < length xs \<Longrightarrow> quicksort_loop env key_fn res depth head tail (xs @ z)
    = map_option (\<lambda>(r, ys). (r, ys @ z)) (quicksort_loop env key_fn res depth head tail xs)"
proof (induction "tail - head" arbitrary: depth head tail xs rule: less_induct)
  case less
  note tl = less(2)
  show ?case
  proof (cases "head < tail")
    case False
    then show ?thesis by (simp add: quicksort_loop.simps [of env key_fn res depth head tail])
  next
    case lt: True
    let ?lo = "skip_low env key_fn res" and ?hi = "skip_high env key_fn res" and ?x = "xs ! tail"
    have rd: "rd xs tail = Some ?x" "rd (xs @ z) tail = Some ?x" using tl by (simp_all add: rd_def nth_append)
    show ?thesis
    proof (cases "item_key env key_fn ?x")
      case (Inl e)
      then show ?thesis using lt rd by (simp add: quicksort_loop.simps [of env key_fn res depth head tail])
    next
      case v: (Inr v)
      obtain r ys where part: "partition_loop (?lo v) (?hi v) xs head tail = Some (r, ys)" "permuted head tail xs ys"
        "\<And>h t. r = Inr (h, t) \<Longrightarrow> partitioned (?lo v) (?hi v) head tail h t ys"
        using partition_run [of head tail xs "?lo v" "?hi v"] lt tl by auto
      have pz: "partition_loop (?lo v) (?hi v) (xs @ z) head tail = Some (r, ys @ z)"
        using partition_frame [of head tail xs "?lo v" "?hi v" z] lt tl part(1) by simp
      have ly: "length ys = length xs" using part(2) by (rule permuted_length)
      show ?thesis
      proof (cases r)
        case (Inl e)
        then show ?thesis using lt rd v part(1) pz by (simp add: quicksort_loop.simps [of env key_fn res depth head tail])
      next
        case r: (Inr ht)
        obtain h t where ht: "ht = (h, t)" by (cases ht)
        note P = part(3) [OF r [unfolded ht], unfolded partitioned_def]
        have b: "head \<le> h" "h \<le> tail" "t < tail" using P by auto
        let ?w = "ys[h := ys ! tail, tail := ys ! h]" and ?left = "int t - int head < int tail - int h - 1"
        have sw: "swap ys h tail = Some ?w" using b tl ly by (intro swap_run) simp_all
        have swz: "?w @ z = (ys @ z)[h := (ys @ z) ! tail, tail := (ys @ z) ! h]"
          using b tl ly by (simp add: nth_append list_update_append)
        obtain a e c d where ab: "(a, e) = (if ?left then (head, t) else (h + 1, tail))"
          "(c, d) = (if ?left then (h + 1, tail) else (head, t))" by (metis surj_pair)
        have small: "e - a < tail - head" "d - c < tail - head" "e < length xs" "d < length xs"
          using ab b lt tl by (auto split: if_splits)
        let ?call = "\<lambda>zs. if depth = 0 then Some (Inl RuntimeError, zs) else quicksort_loop env key_fn res (depth - 1) a e zs"
        have IH1: "?call (?w @ z) = map_option (\<lambda>(r, ys). (r, ys @ z)) (?call ?w)"
          using less(1) [OF small(1), of ?w "depth - 1"] small(3) ly by simp
        obtain q ws where q: "?call ?w = Some (q, ws)" "length ws = length xs"
          using quicksort_run [of e ?w env key_fn res "depth - 1" a] small(3) ly
          by (cases "depth = 0") (auto dest: permuted_length)
        have run: "quicksort_loop env key_fn res depth head tail xs
            = (case q of Inl e \<Rightarrow> Some (Inl e, ws) | Inr u \<Rightarrow> quicksort_loop env key_fn res depth c d ws)"
          by (rule quicksort_step [OF lt tl v _ ly b(2) ab q(1)]) (use part(1) r ht in simp)
        have runz: "quicksort_loop env key_fn res depth head tail (xs @ z)
            = (case q of Inl e \<Rightarrow> Some (Inl e, ws @ z) | Inr u \<Rightarrow> quicksort_loop env key_fn res depth c d (ws @ z))"
        proof (rule quicksort_step [OF lt _ _ _ _ b(2) ab])
          show "partition_loop (?lo v) (?hi v) (xs @ z) head tail = Some (Inr (h, t), ys @ z)" using pz r ht by simp
          show "item_key env key_fn ((xs @ z) ! tail) = Inr v" using v tl by (simp add: nth_append)
          show "?call ((ys @ z)[h := (ys @ z) ! tail, tail := (ys @ z) ! h]) = Some (q, ws @ z)"
            unfolding swz [symmetric] IH1 q(1) by simp
        qed (use tl ly in simp_all)
        have "quicksort_loop env key_fn res depth c d (ws @ z)
            = map_option (\<lambda>(r, ys). (r, ys @ z)) (quicksort_loop env key_fn res depth c d ws)"
          using less(1) [OF small(2), of ws depth] small(4) q(2) by simp
        then show ?thesis unfolding run runz by (simp split: sum.split)
      qed
    qed
  qed
qed

end
