(* ===== verification/Py_Sequence.thy ===== *)
theory Py_Sequence
  imports Py_Sort
begin

text \<open>
  Indices, slices and comparison of sequences (\<open>py/sequence.c\<close>, \<open>mp_get_index\<close> of \<open>py/obj.c\<close>).  Machine
  integers of Python are integers, a signed addition that leaves 32 bits is undefined.
\<close>

subsection \<open>Indices\<close>

definition index_int :: "py_env \<Rightarrow> mp_obj_t \<Rightarrow> int option" where
  "index_int env index =
     (if MP_OBJ_IS_SMALL_INT index then Some (sint (MP_OBJ_SMALL_INT_VALUE index)) else obj_get_int_maybe env index)"

definition mp_get_index :: "py_env \<Rightarrow> nat \<Rightarrow> mp_obj_t \<Rightarrow> bool \<Rightarrow> exc + nat" where
  "mp_get_index env len index is_slice =
     (case index_int env index of
        None \<Rightarrow> Inl TypeError
      | Some i \<Rightarrow>
          let i = (if i < 0 then i + int len else i)
          in if is_slice then Inr (if i < 0 then 0 else if i > int len then len else nat i)
             else if i < 0 \<or> i \<ge> int len then Inl IndexError else Inr (nat i))"

subsection \<open>Slices\<close>

definition sadd :: "int \<Rightarrow> int \<Rightarrow> int option" where
  "sadd a b = (if - (2 ^ 31) \<le> a + b \<and> a + b < 2 ^ 31 then Some (a + b) else None)"

record mp_bound_slice_t =
  start :: int
  stop :: int
  step :: int

text \<open>A slice object gives its start, stop and step, each of which can be \<open>None\<close>.\<close>

type_synonym mp_obj_slice_t = "mp_obj_t \<times> mp_obj_t \<times> mp_obj_t"

definition slice_step :: "py_env \<Rightarrow> mp_obj_t \<Rightarrow> exc + int" where
  "slice_step env ostep =
     (if ostep \<noteq> mp_const_none env \<and> ostep \<noteq> MP_OBJ_NEW_SMALL_INT 1
      then case obj_get_int env ostep of Inl e \<Rightarrow> Inl e | Inr k \<Rightarrow> if k = 0 then Inl ValueError else Inr k
      else Inr 1)"

definition slice_start :: "py_env \<Rightarrow> nat \<Rightarrow> int \<Rightarrow> mp_obj_t \<Rightarrow> exc + int" where
  "slice_start env len k ostart =
     (if ostart = mp_const_none env then Inr (if k > 0 then 0 else int len - 1) else obj_get_int env ostart)"

definition slice_stop :: "py_env \<Rightarrow> nat \<Rightarrow> int \<Rightarrow> mp_obj_t \<Rightarrow> (exc + int) option" where
  "slice_stop env len k ostop =
     (if ostop = mp_const_none env then Some (Inr (if k > 0 then int len else 0))
      else case obj_get_int env ostop of
        Inl e \<Rightarrow> Some (Inl e)
      | Inr n \<Rightarrow> if n \<ge> 0 \<and> k < 0 then map_option Inr (sadd n 1) else Some (Inr n))"

text \<open>The bounds: out of range positions are never an error.\<close>

definition slice_bounds :: "nat \<Rightarrow> int \<Rightarrow> int \<Rightarrow> int \<Rightarrow> mp_bound_slice_t" where
  "slice_bounds len k start0 stop0 =
     (let start1 = (if start0 < 0 then
                      let s = int len + start0 in if s < 0 then (if k < 0 then - 1 else 0) else s
                    else if k > 0 \<and> start0 > int len then int len
                    else if k < 0 \<and> start0 \<ge> int len then int len - 1 else start0);
          stop1 = (if stop0 < 0 then
                     let s = int len + stop0; s = (if s < 0 then - 1 else s) in if k < 0 then s + 1 else s
                   else if stop0 > int len then int len else stop0);
          stop2 = (if k > 0 \<and> start1 > stop1 then start1
                   else if k < 0 \<and> start1 < stop1 then start1 + 1 else stop1)
      in \<lparr>start = start1, stop = stop2, step = k\<rparr>)"

definition mp_seq_get_fast_slice_indexes :: "py_env \<Rightarrow> nat \<Rightarrow> mp_obj_slice_t \<Rightarrow> (exc + bool \<times> mp_bound_slice_t) option" where
  "mp_seq_get_fast_slice_indexes env len sl =
     (case sl of (ostart, ostop, ostep) \<Rightarrow>
        (case slice_step env ostep of Inl e \<Rightarrow> Some (Inl e) | Inr k \<Rightarrow>
        (case slice_start env len k ostart of Inl e \<Rightarrow> Some (Inl e) | Inr start0 \<Rightarrow>
        (case slice_stop env len k ostop of None \<Rightarrow> None | Some (Inl e) \<Rightarrow> Some (Inl e) | Some (Inr stop0) \<Rightarrow>
           let b = slice_bounds len k start0 stop0 in Some (Inr (step b = 1, b))))))"

subsection \<open>Copies\<close>

text \<open>\<open>mp_seq_clear\<close>: the cells from \<open>n\<close> to the end of the allocation, whose count is unsigned.\<close>

definition mp_seq_clear :: "mp_obj_t list \<Rightarrow> nat \<Rightarrow> nat \<Rightarrow> mp_obj_t list option" where
  "mp_seq_clear items len alloc_len =
     (if len \<le> alloc_len then blit items len (replicate (alloc_len - len) MP_OBJ_NULL) else None)"

definition mp_seq_multiply :: "mp_obj_t list \<Rightarrow> nat \<Rightarrow> mp_obj_t list \<Rightarrow> mp_obj_t list option" where
  "mp_seq_multiply items n dest = for_upto 0 n (\<lambda>i dest. blit dest (i * length items) items) dest"

text \<open>\<open>memmove\<close> inside an array.\<close>

definition memmove :: "'a list \<Rightarrow> nat \<Rightarrow> nat \<Rightarrow> nat \<Rightarrow> 'a list option" where
  "memmove a dst src n = do { x \<leftarrow> slice a src n; blit a dst x }"

definition mp_seq_replace_slice_no_grow :: "mp_obj_t list \<Rightarrow> nat \<Rightarrow> nat \<Rightarrow> nat \<Rightarrow> mp_obj_t list \<Rightarrow> mp_obj_t list option" where
  "mp_seq_replace_slice_no_grow dest dest_len beg fin items = do {
     dest \<leftarrow> blit dest beg items;
     memmove dest (beg + length items) fin (dest_len - fin) }"

subsection \<open>Comparison\<close>

fun cmp_from :: "py_env \<Rightarrow> mp_binary_op_t \<Rightarrow> mp_obj_t list \<Rightarrow> mp_obj_t list \<Rightarrow> nat list \<Rightarrow> (exc + bool option) option" where
  "cmp_from env op items1 items2 [] = Some (Inr None)"
| "cmp_from env op items1 items2 (i # is) = do {
     a \<leftarrow> rd items1 i;
     b \<leftarrow> rd items2 i;
     if obj_equal_to env a b then cmp_from env op items1 items2 is
     else if op = MP_BINARY_OP_EQUAL then Some (Inr (Some False))
     else case mp_binary_op env op a b of
         Inl e \<Rightarrow> Some (Inl e)
       | Inr r \<Rightarrow> Some (Inr (Some (r = mp_const_true env))) }"

definition mp_seq_cmp_objs :: "py_env \<Rightarrow> mp_binary_op_t \<Rightarrow> mp_obj_t list \<Rightarrow> mp_obj_t list \<Rightarrow> (exc + bool) option" where
  "mp_seq_cmp_objs env op items1 items2 =
     (if op = MP_BINARY_OP_EQUAL \<and> length items1 \<noteq> length items2 then Some (Inr False)
      else
        let (op, items1, items2) =
              (if op = MP_BINARY_OP_LESS then (MP_BINARY_OP_MORE, items2, items1)
               else if op = MP_BINARY_OP_LESS_EQUAL then (MP_BINARY_OP_MORE_EQUAL, items2, items1)
               else (op, items1, items2));
            len = (if length items1 < length items2 then length items1 else length items2)
        in case cmp_from env op items1 items2 [0..<len] of
             None \<Rightarrow> None
           | Some (Inl e) \<Rightarrow> Some (Inl e)
           | Some (Inr (Some b)) \<Rightarrow> Some (Inr b)
           | Some (Inr None) \<Rightarrow> Some (Inr (
               if length items1 \<noteq> length items2 then (if length items1 < length items2 then False else True)
               else if op = MP_BINARY_OP_MORE then False else True)))"

subsection \<open>Search\<close>

fun index_from :: "py_env \<Rightarrow> mp_obj_t list \<Rightarrow> mp_obj_t \<Rightarrow> nat list \<Rightarrow> (exc + nat) option" where
  "index_from env items value [] = Some (Inl ValueError)"
| "index_from env items value (i # is) = do {
     x \<leftarrow> rd items i;
     if obj_equal_to env x value then Some (Inr i) else index_from env items value is }"

text \<open>The arguments behind the value are the bounds.\<close>

definition mp_seq_index_obj :: "py_env \<Rightarrow> mp_obj_t list \<Rightarrow> mp_obj_t \<Rightarrow> mp_obj_t list \<Rightarrow> (exc + nat) option" where
  "mp_seq_index_obj env items value bounds =
     (case (case bounds of [] \<Rightarrow> Inr 0 | b # bs \<Rightarrow> mp_get_index env (length items) b True) of
        Inl e \<Rightarrow> Some (Inl e)
      | Inr first \<Rightarrow>
          (case (case bounds of a # b # bs \<Rightarrow> mp_get_index env (length items) b True | _ \<Rightarrow> Inr (length items)) of
             Inl e \<Rightarrow> Some (Inl e)
           | Inr fin \<Rightarrow> index_from env items value [first..<fin]))"

definition mp_seq_count_obj :: "py_env \<Rightarrow> mp_obj_t list \<Rightarrow> mp_obj_t \<Rightarrow> nat option" where
  "mp_seq_count_obj env items value = for_upto 0 (length items) (\<lambda>i count. do {
     x \<leftarrow> rd items i;
     Some (if obj_equal_to env x value then count + 1 else count) }) 0"

text \<open>Bytes: \<open>memcmp\<close> by the first difference.\<close>

fun memcmp :: "u8 list \<Rightarrow> u8 list \<Rightarrow> int" where
  "memcmp (a # as) (b # bs) = (if a = b then memcmp as bs else if a < b then - 1 else 1)"
| "memcmp _ _ = 0"

definition mp_seq_cmp_bytes :: "mp_binary_op_t \<Rightarrow> u8 list \<Rightarrow> u8 list \<Rightarrow> bool" where
  "mp_seq_cmp_bytes op data1 data2 =
     (if op = MP_BINARY_OP_EQUAL \<and> length data1 \<noteq> length data2 then False
      else
        let (op, data1, data2) =
              (if op = MP_BINARY_OP_LESS then (MP_BINARY_OP_MORE, data2, data1)
               else if op = MP_BINARY_OP_LESS_EQUAL then (MP_BINARY_OP_MORE_EQUAL, data2, data1)
               else (op, data1, data2));
            min_len = (if length data1 < length data2 then length data1 else length data2);
            res = memcmp (take min_len data1) (take min_len data2)
        in if op = MP_BINARY_OP_EQUAL then res = 0
           else if res < 0 then False
           else if res > 0 then True
           else if length data1 \<noteq> length data2 then (if length data1 < length data2 then False else True)
           else if op = MP_BINARY_OP_MORE then False else True)"

subsection \<open>Slices as Python defines them\<close>

text \<open>The positions of a slice in a sequence of length \<open>n\<close>, after CPython's \<open>PySlice_AdjustIndices\<close>.\<close>

function py_range :: "int \<Rightarrow> int \<Rightarrow> int \<Rightarrow> int list" where
  "py_range i e k = (if k > 0 \<and> i < e \<or> k < 0 \<and> i > e then i # py_range (i + k) e k else [])"
  by pat_completeness auto
termination by (relation "measure (\<lambda>(i, e, k). nat (if k > 0 then e - i else i - e))") auto

declare py_range.simps [simp del]

text \<open>Ranges that end together, or are both empty.\<close>

lemma py_range_same:
  assumes "e = e' \<or> (if k > 0 then e \<le> i \<and> e' \<le> i else i \<le> e \<and> i \<le> e')"
  shows "py_range i e k = py_range i e' k"
proof (cases "e = e'")
  case False
  then have "\<not> (k > 0 \<and> i < e \<or> k < 0 \<and> i > e)" "\<not> (k > 0 \<and> i < e' \<or> k < 0 \<and> i > e')"
    using assms by (auto split: if_splits)
  then have "py_range i e k = []" "py_range i e' k = []" by (simp_all add: py_range.simps)
  then show ?thesis by simp
qed simp

definition python_bound :: "nat \<Rightarrow> int \<Rightarrow> int \<Rightarrow> int" where
  "python_bound n k i = (if i < 0 then (if i + int n < 0 then (if k < 0 then - 1 else 0) else i + int n)
     else if i \<ge> int n then (if k < 0 then int n - 1 else int n) else i)"

definition python_slice :: "nat \<Rightarrow> int option \<Rightarrow> int option \<Rightarrow> int \<Rightarrow> int list" where
  "python_slice n a e k = py_range
     (case a of None \<Rightarrow> if k < 0 then int n - 1 else 0 | Some i \<Rightarrow> python_bound n k i)
     (case e of None \<Rightarrow> if k < 0 then - 1 else int n | Some i \<Rightarrow> python_bound n k i) k"

text \<open>The positions that the loops over computed bounds visit.\<close>

definition visited :: "mp_bound_slice_t \<Rightarrow> int list" where
  "visited b = py_range (start b) (if step b < 0 then stop b - 1 else stop b) (step b)"

text \<open>What a bound of a slice object means: \<open>None\<close>, or an integer, which a small conversion gives.\<close>

definition bound_value :: "py_env \<Rightarrow> mp_obj_t \<Rightarrow> int option \<Rightarrow> bool" where
  "bound_value env b v \<longleftrightarrow> (if b = mp_const_none env then v = None
     else \<exists>i. obj_get_int env b = Inr i \<and> v = Some i \<and> - (2 ^ 31) \<le> i \<and> i < 2 ^ 31)"

definition step_value :: "py_env \<Rightarrow> mp_obj_t \<Rightarrow> int \<Rightarrow> bool" where
  "step_value env b k \<longleftrightarrow> k \<noteq> 0 \<and> (if b = mp_const_none env \<or> b = MP_OBJ_NEW_SMALL_INT 1 then k = 1
     else obj_get_int env b = Inr k)"

lemma bound_cases:
  fixes k S T q E :: int
  assumes "k \<noteq> 0" and "T = (if k > 0 \<and> S > q then S else if k < 0 \<and> S < q then S + 1 else q)"
    and "k > 0 \<longrightarrow> q = E \<or> q = - 1 \<and> E = 0" and "k < 0 \<longrightarrow> q = E + 1" and "k > 0 \<longrightarrow> 0 \<le> S"
  shows "py_range S (if k < 0 then T - 1 else T) k = py_range S E k"
  by (rule py_range_same) (use assms in \<open>auto split: if_splits\<close>)

lemma bounds_visited:
  assumes "k \<noteq> 0"
  shows "visited (slice_bounds n k (case a of None \<Rightarrow> if k > 0 then 0 else int n - 1 | Some i \<Rightarrow> i)
       (case e of None \<Rightarrow> if k > 0 then int n else 0 | Some i \<Rightarrow> if i \<ge> 0 \<and> k < 0 then i + 1 else i))
     = python_slice n a e k"
proof -
  let ?b = "slice_bounds n k (case a of None \<Rightarrow> if k > 0 then 0 else int n - 1 | Some i \<Rightarrow> i)
       (case e of None \<Rightarrow> if k > 0 then int n else 0 | Some i \<Rightarrow> if i \<ge> 0 \<and> k < 0 then i + 1 else i)"
  let ?a = "case a of None \<Rightarrow> if k < 0 then int n - 1 else 0 | Some i \<Rightarrow> python_bound n k i"
    and ?e = "case e of None \<Rightarrow> if k < 0 then - 1 else int n | Some i \<Rightarrow> python_bound n k i"
  have st: "step ?b = k" by (simp add: slice_bounds_def Let_def)
  have s: "start ?b = ?a"
    using assms by (cases a) (auto simp: slice_bounds_def Let_def python_bound_def)
  define q where "q = (let e0 = (case e of None \<Rightarrow> if k > 0 then int n else 0 | Some i \<Rightarrow> if i \<ge> 0 \<and> k < 0 then i + 1 else i)
     in if e0 < 0 then let s = int n + e0; s = (if s < 0 then - 1 else s) in if k < 0 then s + 1 else s
        else if e0 > int n then int n else e0)"
  have q: "stop ?b = (if k > 0 \<and> start ?b > q then start ?b else if k < 0 \<and> start ?b < q then start ?b + 1 else q)"
    by (simp add: slice_bounds_def Let_def q_def)
  have up: "k > 0 \<longrightarrow> q = ?e \<or> q = - 1 \<and> ?e = 0"
    unfolding q_def by (cases e) (auto simp: Let_def python_bound_def)
  have down: "k < 0 \<longrightarrow> q = ?e + 1"
    unfolding q_def by (cases e) (auto simp: Let_def python_bound_def)
  have "k > 0 \<longrightarrow> 0 \<le> start ?b"
    unfolding s by (cases a) (auto simp: python_bound_def)
  from bound_cases [OF assms q up down this] show ?thesis
    by (simp only: visited_def python_slice_def st s)
qed

lemma slice_indexes_run:
  assumes n: "n < 2 ^ 31" and a: "bound_value env oa a" and e: "bound_value env oe e" and k: "step_value env ok k"
    and far: "k < 0 \<longrightarrow> e \<noteq> Some (2 ^ 31 - 1)"
  shows "\<exists>b. mp_seq_get_fast_slice_indexes env n (oa, oe, ok) = Some (Inr (k = 1, b)) \<and> step b = k
    \<and> visited b = python_slice n a e k
    \<and> (k = 1 \<longrightarrow> 0 \<le> start b \<and> start b \<le> stop b \<and> stop b \<le> int n)"
proof -
  let ?a = "case a of None \<Rightarrow> if k > 0 then 0 else int n - 1 | Some i \<Rightarrow> i"
    and ?e = "case e of None \<Rightarrow> if k > 0 then int n else 0 | Some i \<Rightarrow> if i \<ge> 0 \<and> k < 0 then i + 1 else i"
  have "slice_step env ok = Inr k" using k by (auto simp: slice_step_def step_value_def split: if_splits)
  moreover have "slice_start env n k oa = Inr ?a" using a by (auto simp: slice_start_def bound_value_def split: if_splits)
  moreover have "slice_stop env n k oe = Some (Inr ?e)"
    using e far by (auto simp: slice_stop_def bound_value_def sadd_def split: if_splits)
  moreover have "step (slice_bounds n k ?a ?e) = k" by (simp add: slice_bounds_def Let_def)
  moreover have "0 \<le> start b \<and> start b \<le> stop b \<and> stop b \<le> int n" if "b = slice_bounds n 1 a0 e0" for b a0 e0
    unfolding that slice_bounds_def Let_def by (simp split: if_splits)
  ultimately show ?thesis
    using bounds_visited [of k n a e] k by (auto simp: mp_seq_get_fast_slice_indexes_def Let_def step_value_def)
qed

text \<open>All positions of a slice are in the sequence.\<close>

lemma py_range_in: "x \<in> set (py_range i e k) \<Longrightarrow> (k > 0 \<longrightarrow> i \<le> x \<and> x < e) \<and> (k < 0 \<longrightarrow> e < x \<and> x \<le> i)"
proof (induction i e k rule: py_range.induct)
  case (1 i e k)
  then show ?case by (subst (asm) (2) py_range.simps) (auto split: if_splits)
qed

lemma python_slice_in: "k \<noteq> 0 \<Longrightarrow> x \<in> set (python_slice n a e k) \<Longrightarrow> 0 \<le> x \<and> x < int n"
  unfolding python_slice_def
  by (drule py_range_in) (auto simp: python_bound_def split: option.splits if_splits)

text \<open>A slice of step 1 is a part of the sequence.\<close>

lemma py_range_1: "0 \<le> i \<Longrightarrow> py_range i e 1 = map int [nat i..<nat e]"
proof (induction "nat (e - i)" arbitrary: i)
  case 0
  then show ?case by (simp add: py_range.simps [of i e])
next
  case (Suc m)
  then have "py_range (i + 1) e 1 = map int [nat (i + 1)..<nat e]" by (intro Suc.hyps) linarith+
  then show ?case using Suc by (subst py_range.simps) (simp add: upt_conv_Cons nat_add_distrib)
qed

subsection \<open>Comparison as Python defines it\<close>

lemma memcmp_take:
  "memcmp (take n xs) (take n ys) = 0 \<longleftrightarrow> take n xs = take n ys" if "n \<le> length xs" "n \<le> length ys"
  using that
proof (induction n arbitrary: xs ys)
  case (Suc n)
  then obtain a as b bs where "xs = a # as" "ys = b # bs" by (cases xs; cases ys) auto
  then show ?case using Suc by auto
qed simp

lemma cmp_bytes_more:
  "mp_seq_cmp_bytes MP_BINARY_OP_MORE xs ys \<longleftrightarrow> ord_class.lexordp ys xs"
  "mp_seq_cmp_bytes MP_BINARY_OP_MORE_EQUAL xs ys \<longleftrightarrow> ord_class.lexordp ys xs \<or> xs = ys"
proof (induction xs ys rule: list_induct2')
  case (4 x xs y ys)
  { case 1 then show ?case using 4 by (auto simp: mp_seq_cmp_bytes_def Let_def split: if_splits) }
  { case 2 then show ?case using 4 by (auto simp: mp_seq_cmp_bytes_def Let_def split: if_splits) }
qed (simp_all add: mp_seq_cmp_bytes_def)

text \<open>Objects that are compared by their values.\<close>

fun compares :: "mp_binary_op_t \<Rightarrow> 'v::linorder \<Rightarrow> 'v \<Rightarrow> bool" where
  "compares MP_BINARY_OP_LESS a b \<longleftrightarrow> a < b"
| "compares MP_BINARY_OP_MORE a b \<longleftrightarrow> a > b"
| "compares MP_BINARY_OP_EQUAL a b \<longleftrightarrow> a = b"
| "compares MP_BINARY_OP_LESS_EQUAL a b \<longleftrightarrow> a \<le> b"
| "compares MP_BINARY_OP_MORE_EQUAL a b \<longleftrightarrow> a \<ge> b"

definition by_value :: "py_env \<Rightarrow> (mp_obj_t \<Rightarrow> 'v::linorder) \<Rightarrow> mp_obj_t set \<Rightarrow> bool" where
  "by_value env val X \<longleftrightarrow> mp_const_true env \<noteq> mp_const_false env
     \<and> (\<forall>a \<in> X. \<forall>b \<in> X. (obj_equal_to env a b \<longleftrightarrow> val a = val b)
        \<and> (\<forall>op. mp_binary_op env op a b = Inr (if compares op (val a) (val b) then mp_const_true env else mp_const_false env)))"

text \<open>The comparison of lists of values.\<close>

fun seq_compares :: "mp_binary_op_t \<Rightarrow> 'v::linorder list \<Rightarrow> 'v list \<Rightarrow> bool" where
  "seq_compares MP_BINARY_OP_LESS xs ys \<longleftrightarrow> ord_class.lexordp xs ys"
| "seq_compares MP_BINARY_OP_MORE xs ys \<longleftrightarrow> ord_class.lexordp ys xs"
| "seq_compares MP_BINARY_OP_EQUAL xs ys \<longleftrightarrow> xs = ys"
| "seq_compares MP_BINARY_OP_LESS_EQUAL xs ys \<longleftrightarrow> ord_class.lexordp xs ys \<or> xs = ys"
| "seq_compares MP_BINARY_OP_MORE_EQUAL xs ys \<longleftrightarrow> ord_class.lexordp ys xs \<or> xs = ys"

lemma cmp_from_Suc: "cmp_from env op (x # xs) (y # ys) (map Suc is) = cmp_from env op xs ys is"
  by (induction "is") (simp_all add: rd_def)

lemma upt_Suc_map: "[0..<Suc n] = 0 # map Suc [0..<n]"
  by (simp add: upt_conv_Cons map_Suc_upt)

text \<open>The two operators that the code keeps, and equality.\<close>

lemma cmp_objs_step:
  assumes "op = MP_BINARY_OP_MORE \<or> op = MP_BINARY_OP_MORE_EQUAL \<or> op = MP_BINARY_OP_EQUAL"
  shows "mp_seq_cmp_objs env op (x # xs) (y # ys)
    = (if op = MP_BINARY_OP_EQUAL \<and> length xs \<noteq> length ys then Some (Inr False)
       else if obj_equal_to env x y then mp_seq_cmp_objs env op xs ys
       else if op = MP_BINARY_OP_EQUAL then Some (Inr False)
       else case mp_binary_op env op x y of Inl e \<Rightarrow> Some (Inl e) | Inr r \<Rightarrow> Some (Inr (r = mp_const_true env)))"
proof -
  let ?m = "if length xs < length ys then length xs else length ys"
  have m: "(if length (x # xs) < length (y # ys) then length (x # xs) else length (y # ys)) = Suc ?m" by simp
  have "cmp_from env op (x # xs) (y # ys) [0..<Suc ?m] =
      (if obj_equal_to env x y then cmp_from env op xs ys [0..<?m]
       else if op = MP_BINARY_OP_EQUAL then Some (Inr (Some False))
       else case mp_binary_op env op x y of Inl e \<Rightarrow> Some (Inl e) | Inr r \<Rightarrow> Some (Inr (Some (r = mp_const_true env))))"
    unfolding upt_Suc_map by (simp only: cmp_from.simps cmp_from_Suc) (simp add: rd_def)
  then show ?thesis
    unfolding mp_seq_cmp_objs_def m using assms
    by (cases "length xs < length ys"; cases "length xs = length ys"; cases "obj_equal_to env x y"; elim disjE)
      (simp_all del: upt_Suc split: sum.splits)
qed

lemma cmp_objs_kept:
  assumes "op = MP_BINARY_OP_MORE \<or> op = MP_BINARY_OP_MORE_EQUAL \<or> op = MP_BINARY_OP_EQUAL"
  shows "by_value env val (set xs \<union> set ys)
    \<Longrightarrow> mp_seq_cmp_objs env op xs ys = Some (Inr (seq_compares op (map val xs) (map val ys)))"
proof (induction xs ys rule: list_induct2')
  case (4 x xs y ys)
  have "by_value env val (set xs \<union> set ys)" using 4(2) by (auto simp: by_value_def)
  note IH = 4(1) [OF this]
  have "obj_equal_to env x y \<longleftrightarrow> val x = val y" "mp_const_true env \<noteq> mp_const_false env"
    "mp_binary_op env op x y = Inr (if compares op (val x) (val y) then mp_const_true env else mp_const_false env)"
    using 4(2) by (auto simp: by_value_def)
  moreover have "map val xs \<noteq> map val ys" if "length xs \<noteq> length ys" using that by (metis length_map)
  ultimately show ?case
    unfolding cmp_objs_step [OF assms] IH using assms by (elim disjE) auto
next
  case 1 then show ?case using assms by (elim disjE) (simp_all add: mp_seq_cmp_objs_def)
next
  case (2 x xs) then show ?case using assms by (elim disjE) (simp_all add: mp_seq_cmp_objs_def)
next
  case (3 y ys) then show ?case using assms by (elim disjE) (simp_all add: mp_seq_cmp_objs_def)
qed

lemma cmp_objs_run:
  assumes "by_value env val (set xs \<union> set ys)"
  shows "mp_seq_cmp_objs env op xs ys = Some (Inr (seq_compares op (map val xs) (map val ys)))"
proof -
  have swap: "by_value env val (set ys \<union> set xs)" using assms by (simp add: Un_commute)
  show ?thesis
  proof (cases op)
    case MP_BINARY_OP_LESS
    then have "mp_seq_cmp_objs env op xs ys = mp_seq_cmp_objs env MP_BINARY_OP_MORE ys xs" by (simp add: mp_seq_cmp_objs_def)
    then show ?thesis using cmp_objs_kept [OF _ swap, of MP_BINARY_OP_MORE] MP_BINARY_OP_LESS by simp
  next
    case MP_BINARY_OP_LESS_EQUAL
    then have "mp_seq_cmp_objs env op xs ys = mp_seq_cmp_objs env MP_BINARY_OP_MORE_EQUAL ys xs" by (simp add: mp_seq_cmp_objs_def)
    then show ?thesis using cmp_objs_kept [OF _ swap, of MP_BINARY_OP_MORE_EQUAL] MP_BINARY_OP_LESS_EQUAL by auto
  qed (use cmp_objs_kept [OF _ assms, of op] in simp_all)
qed

lemma cmp_bytes_run: "mp_seq_cmp_bytes op xs ys \<longleftrightarrow> seq_compares op xs ys"
proof (cases op)
  case MP_BINARY_OP_LESS
  then have "mp_seq_cmp_bytes op xs ys = mp_seq_cmp_bytes MP_BINARY_OP_MORE ys xs" by (simp add: mp_seq_cmp_bytes_def)
  then show ?thesis using cmp_bytes_more(1) MP_BINARY_OP_LESS by simp
next
  case MP_BINARY_OP_LESS_EQUAL
  then have "mp_seq_cmp_bytes op xs ys = mp_seq_cmp_bytes MP_BINARY_OP_MORE_EQUAL ys xs" by (simp add: mp_seq_cmp_bytes_def)
  then show ?thesis using cmp_bytes_more(2) MP_BINARY_OP_LESS_EQUAL by auto
next
  case MP_BINARY_OP_EQUAL
  then show ?thesis
    using memcmp_take [of "length xs" xs ys] by (cases "length xs = length ys") (auto simp: mp_seq_cmp_bytes_def Let_def)
qed (use cmp_bytes_more in auto)

end
