(* ===== verification/Py_Small_Int.thy ===== *)
theory Py_Small_Int
  imports Py_Sequence "HOL-Library.Signed_Division"
begin

text \<open>
  Arithmetic of small integers: \<open>py/smallint.c\<close> and the part of \<open>mp_unary_op\<close> and
  \<open>mp_binary_op\<close> of \<open>py/runtime.c\<close> where the operands are small integers.  A value of \<open>mp_int_t\<close> is an
  integer; a signed operation that leaves 32 bits, or divides by zero, is undefined and gives \<open>None\<close>.
\<close>

subsection \<open>Machine integers\<close>

definition s32 :: "int \<Rightarrow> int option" where
  "s32 v = (if - (2 ^ 31) \<le> v \<and> v < 2 ^ 31 then Some v else None)"

definition MP_SMALL_INT_MIN :: int where "MP_SMALL_INT_MIN = drop_bit 1 (- (2 ^ 31))"
definition MP_SMALL_INT_MAX :: int where "MP_SMALL_INT_MAX = NOT MP_SMALL_INT_MIN"

definition MP_SMALL_INT_FITS :: "int \<Rightarrow> bool" where
  "MP_SMALL_INT_FITS n \<longleftrightarrow> (let w = (word_of_int n :: u32) in (w XOR push_bit 1 w) AND 0x80000000 = 0)"

definition new_small :: "int \<Rightarrow> mp_obj_t" where
  "new_small v = MP_OBJ_NEW_SMALL_INT (word_of_int v)"

definition small_value :: "mp_obj_t \<Rightarrow> int" where
  "small_value o1 = sint (MP_OBJ_SMALL_INT_VALUE o1)"

definition mp_small_int_mul_overflow :: "int \<Rightarrow> int \<Rightarrow> bool" where
  "mp_small_int_mul_overflow x y =
     (if x > 0 then (if y > 0 then x > MP_SMALL_INT_MAX sdiv y else y < MP_SMALL_INT_MIN sdiv x)
      else (if y > 0 then x < MP_SMALL_INT_MIN sdiv y else x \<noteq> 0 \<and> y < MP_SMALL_INT_MAX sdiv x))"

definition sdivide :: "int \<Rightarrow> int \<Rightarrow> int option" where
  "sdivide a b = (if b = 0 then None else s32 (a sdiv b))"

definition mp_small_int_modulo :: "int \<Rightarrow> int \<Rightarrow> int option" where
  "mp_small_int_modulo dividend divisor = do {
     q \<leftarrow> sdivide dividend divisor;
     let dividend = dividend smod divisor;
     if dividend < 0 \<and> divisor > 0 \<or> dividend > 0 \<and> divisor < 0 then s32 (dividend + divisor) else Some dividend }"

definition mp_small_int_floor_divide :: "int \<Rightarrow> int \<Rightarrow> int option" where
  "mp_small_int_floor_divide num denom = do {
     num \<leftarrow> (if num \<ge> 0 then (if denom < 0 then s32 (num + (- denom - 1)) else Some num)
       else if denom \<ge> 0 then s32 (num + (- denom + 1)) else Some num);
     sdivide num denom }"

subsection \<open>Operators\<close>

text \<open>An in-place operator is the same case of the code as the operator.\<close>

datatype int_op = MP_BINARY_OP_OR | MP_BINARY_OP_XOR | MP_BINARY_OP_AND | MP_BINARY_OP_LSHIFT | MP_BINARY_OP_RSHIFT
  | MP_BINARY_OP_ADD | MP_BINARY_OP_SUBTRACT | MP_BINARY_OP_MULTIPLY | MP_BINARY_OP_FLOOR_DIVIDE | MP_BINARY_OP_TRUE_DIVIDE
  | MP_BINARY_OP_MODULO | MP_BINARY_OP_POWER | MP_BINARY_OP_DIVMOD | Compare mp_binary_op_t

text \<open>
  What the code returns: a machine integer through \<open>mp_obj_new_int\<close>, an object, a truth value, a
  pair of objects, the operator of the types on a long left operand, or what the floating point code makes
  of the operands.
\<close>

datatype small_result = Value int | Object mp_obj_t | Truth bool | Two mp_obj_t mp_obj_t | Generic | FloatArith

text \<open>
  The power of \<open>mp_obj_float_binary_op\<close> (\<open>py/objfloat.c\<close>), which the operators of integers call for a negative
  exponent, on the floats of two integers.  The float of an integer has its sign, is zero only for zero, and is whole
  or infinite.  So the tests against zero are those of the integers, and the case of
  a negative base with an exponent that is not whole, which leads to complex numbers, is not taken.  \<open>Inr\<close>
  is the float that \<open>pow\<close> computes.
\<close>

definition float_power :: "int \<Rightarrow> int \<Rightarrow> exc + unit" where
  "float_power lhs_val rhs_val = (if lhs_val = 0 \<and> rhs_val < 0 then Inl ZeroDivisionError else Inr ())"

text \<open>The loop of the power: \<open>Some None\<close> is the jump to \<open>power_overflow\<close>.\<close>

function pow_loop :: "int \<Rightarrow> int \<Rightarrow> int \<Rightarrow> int option option" where
  "pow_loop ans lhs_val rhs_val =
     (if rhs_val > 0 then
        if rhs_val AND 1 \<noteq> 0 \<and> mp_small_int_mul_overflow ans lhs_val then Some None
        else case (if rhs_val AND 1 \<noteq> 0 then s32 (ans * lhs_val) else Some ans) of
            None \<Rightarrow> None
          | Some ans \<Rightarrow>
              if rhs_val = 1 then Some (Some ans)
              else if mp_small_int_mul_overflow lhs_val lhs_val then Some None
              else case s32 (lhs_val * lhs_val) of None \<Rightarrow> None | Some lhs_val \<Rightarrow> pow_loop ans lhs_val (rhs_val div 2)
      else Some (Some ans))"
  by pat_completeness auto
termination by (relation "measure (\<lambda>(ans, lhs_val, rhs_val). nat rhs_val)") auto

declare pow_loop.simps [simp del]

definition BITS_PER_WORD :: int where "BITS_PER_WORD = 32"

definition of_value :: "int option \<Rightarrow> (exc + small_result) option" where
  "of_value = map_option (\<lambda>v. Inr (Value v))"

fun small_binary_op :: "int_op \<Rightarrow> int \<Rightarrow> int \<Rightarrow> (exc + small_result) option" where
  "small_binary_op MP_BINARY_OP_OR lhs_val rhs_val = Some (Inr (Value (lhs_val OR rhs_val)))"
| "small_binary_op MP_BINARY_OP_XOR lhs_val rhs_val = Some (Inr (Value (lhs_val XOR rhs_val)))"
| "small_binary_op MP_BINARY_OP_AND lhs_val rhs_val = Some (Inr (Value (lhs_val AND rhs_val)))"
| "small_binary_op MP_BINARY_OP_LSHIFT lhs_val rhs_val =
     (if rhs_val < 0 then Some (Inl ValueError)
      else if rhs_val \<ge> BITS_PER_WORD \<or> lhs_val > drop_bit (nat rhs_val) MP_SMALL_INT_MAX
        \<or> lhs_val < drop_bit (nat rhs_val) MP_SMALL_INT_MIN then Some (Inr Generic)
      else of_value (s32 (push_bit (nat rhs_val) lhs_val)))"
| "small_binary_op MP_BINARY_OP_RSHIFT lhs_val rhs_val =
     (if rhs_val < 0 then Some (Inl ValueError)
      else let rhs_val = (if rhs_val \<ge> BITS_PER_WORD then BITS_PER_WORD - 1 else rhs_val)
        in Some (Inr (Value (drop_bit (nat rhs_val) lhs_val))))"
| "small_binary_op MP_BINARY_OP_ADD lhs_val rhs_val = of_value (s32 (lhs_val + rhs_val))"
| "small_binary_op MP_BINARY_OP_SUBTRACT lhs_val rhs_val = of_value (s32 (lhs_val - rhs_val))"
| "small_binary_op MP_BINARY_OP_MULTIPLY lhs_val rhs_val =
     (if mp_small_int_mul_overflow lhs_val rhs_val then Some (Inr Generic)
      else map_option (\<lambda>v. Inr (Object (new_small v))) (s32 (lhs_val * rhs_val)))"
| "small_binary_op MP_BINARY_OP_FLOOR_DIVIDE lhs_val rhs_val =
     (if rhs_val = 0 then Some (Inl ZeroDivisionError) else of_value (mp_small_int_floor_divide lhs_val rhs_val))"
| "small_binary_op MP_BINARY_OP_TRUE_DIVIDE lhs_val rhs_val =
     (if rhs_val = 0 then Some (Inl ZeroDivisionError) else Some (Inr FloatArith))"
| "small_binary_op MP_BINARY_OP_MODULO lhs_val rhs_val =
     (if rhs_val = 0 then Some (Inl ZeroDivisionError) else of_value (mp_small_int_modulo lhs_val rhs_val))"
| "small_binary_op MP_BINARY_OP_POWER lhs_val rhs_val =
     (if rhs_val < 0 then
        (case float_power lhs_val rhs_val of Inl e \<Rightarrow> Some (Inl e) | Inr r \<Rightarrow> Some (Inr FloatArith))
      else map_option (\<lambda>r. Inr (case r of None \<Rightarrow> Generic | Some ans \<Rightarrow> Value ans)) (pow_loop 1 lhs_val rhs_val))"
| "small_binary_op MP_BINARY_OP_DIVMOD lhs_val rhs_val =
     (if rhs_val = 0 then Some (Inl ZeroDivisionError)
      else do {
        q \<leftarrow> mp_small_int_floor_divide lhs_val rhs_val;
        m \<leftarrow> mp_small_int_modulo lhs_val rhs_val;
        Some (Inr (Two (new_small q) (new_small m))) })"
| "small_binary_op (Compare MP_BINARY_OP_LESS) lhs_val rhs_val = Some (Inr (Truth (lhs_val < rhs_val)))"
| "small_binary_op (Compare MP_BINARY_OP_MORE) lhs_val rhs_val = Some (Inr (Truth (lhs_val > rhs_val)))"
| "small_binary_op (Compare MP_BINARY_OP_LESS_EQUAL) lhs_val rhs_val = Some (Inr (Truth (lhs_val \<le> rhs_val)))"
| "small_binary_op (Compare MP_BINARY_OP_MORE_EQUAL) lhs_val rhs_val = Some (Inr (Truth (lhs_val \<ge> rhs_val)))"
| "small_binary_op (Compare MP_BINARY_OP_EQUAL) lhs_val rhs_val = Some (Inl TypeError)"

datatype int_unary_op = MP_UNARY_OP_BOOL | MP_UNARY_OP_HASH | MP_UNARY_OP_POSITIVE | MP_UNARY_OP_NEGATIVE | MP_UNARY_OP_ABS
  | MP_UNARY_OP_INVERT

fun small_unary_op :: "int_unary_op \<Rightarrow> mp_obj_t \<Rightarrow> small_result option" where
  "small_unary_op MP_UNARY_OP_BOOL arg = Some (Truth (small_value arg \<noteq> 0))"
| "small_unary_op MP_UNARY_OP_HASH arg = Some (Object arg)"
| "small_unary_op MP_UNARY_OP_POSITIVE arg = Some (Object arg)"
| "small_unary_op MP_UNARY_OP_NEGATIVE arg =
     (let val = small_value arg
      in if val = MP_SMALL_INT_MIN then map_option Value (s32 (- val)) else map_option (\<lambda>v. Object (new_small v)) (s32 (- val)))"
| "small_unary_op MP_UNARY_OP_ABS arg =
     (let val = small_value arg
      in if val \<ge> 0 then Some (Object arg)
         else if val = MP_SMALL_INT_MIN then map_option Value (s32 (- val))
         else map_option (\<lambda>v. Object (new_small v)) (s32 (- val)))"
| "small_unary_op MP_UNARY_OP_INVERT arg = Some (Object (new_small (NOT (small_value arg))))"

subsection \<open>Small values\<close>

definition is_small :: "int \<Rightarrow> bool" where
  "is_small v \<longleftrightarrow> - (2 ^ 30) \<le> v \<and> v < 2 ^ 30"

lemma small_limits: "MP_SMALL_INT_MIN = - (2 ^ 30)" "MP_SMALL_INT_MAX = 2 ^ 30 - 1"
  by (simp_all add: MP_SMALL_INT_MIN_def MP_SMALL_INT_MAX_def drop_bit_int_def not_int_def)

lemma s32_in [simp]: "- (2 ^ 31) \<le> v \<Longrightarrow> v < 2 ^ 31 \<Longrightarrow> s32 v = Some v"
  by (simp add: s32_def)

lemma small_int_back: "bit w 30 = bit w 31 \<Longrightarrow> MP_OBJ_SMALL_INT_VALUE (MP_OBJ_NEW_SMALL_INT w) = w"
proof (rule bit_word_eqI)
  fix n assume w: "bit w 30 = bit w 31" and n: "n < LENGTH(32)"
  show "bit (MP_OBJ_SMALL_INT_VALUE (MP_OBJ_NEW_SMALL_INT w)) n = bit w n"
  proof (cases "n = 31")
    case True
    have "bit (push_bit 1 w OR 1) 31 = bit w 30"
      by (simp only: bit_or_iff bit_push_bit_iff bit_1_iff) simp
    then show ?thesis
      using w True by (simp only: MP_OBJ_SMALL_INT_VALUE_def MP_OBJ_NEW_SMALL_INT_def bit_signed_drop_bit_iff) simp
  next
    case False
    then have "bit (push_bit 1 w OR 1) (1 + n) = bit w n"
      using n by (simp only: bit_or_iff bit_push_bit_iff bit_1_iff) simp
    then show ?thesis
      using n False by (simp only: MP_OBJ_SMALL_INT_VALUE_def MP_OBJ_NEW_SMALL_INT_def bit_signed_drop_bit_iff) simp
  qed
qed

lemma small_int_is: "MP_OBJ_IS_SMALL_INT (MP_OBJ_NEW_SMALL_INT w)"
proof -
  have "bit ((push_bit 1 w OR 1) AND (1 :: u32)) 0" by (simp add: bit_and_iff bit_or_iff bit_1_iff)
  then show ?thesis unfolding MP_OBJ_IS_SMALL_INT_def MP_OBJ_NEW_SMALL_INT_def by (metis bit_0_eq bot_apply bot_bool_def)
qed

lemma top_bits:
  assumes "- (2 ^ 31) \<le> v" and "v < 2 ^ 31"
  shows "bit v 30 = bit v 31 \<longleftrightarrow> is_small v"
proof -
  have "v div 2147483648 = (if v < 0 then - 1 else 0)"
    using assms int_div_pos_eq [of v 2147483648 "- 1" "v + 2147483648"] int_div_pos_eq [of v 2147483648 0 v] by auto
  then have "bit v 31 \<longleftrightarrow> v < 0" by (simp add: bit_iff_odd)
  moreover have "v div 1073741824 = (if v < - 1073741824 then - 2 else if v < 0 then - 1 else if v < 1073741824 then 0 else 1)"
    using assms int_div_pos_eq [of v 1073741824 "- 2" "v + 2147483648"] int_div_pos_eq [of v 1073741824 "- 1" "v + 1073741824"]
      int_div_pos_eq [of v 1073741824 0 v] int_div_pos_eq [of v 1073741824 1 "v - 1073741824"] by auto
  ultimately show ?thesis using assms by (auto simp: bit_iff_odd is_small_def)
qed

lemma fits_small:
  assumes "- (2 ^ 31) \<le> v" and "v < 2 ^ 31"
  shows "MP_SMALL_INT_FITS v \<longleftrightarrow> is_small v"
proof -
  let ?w = "word_of_int v :: u32"
  have "(?w XOR push_bit 1 ?w) AND 0x80000000 = 0 \<longleftrightarrow> \<not> bit (?w XOR push_bit 1 ?w) 31"
  proof -
    have "x AND 0x80000000 = 0 \<longleftrightarrow> \<not> bit x 31" for x :: u32
    proof -
      have e: "(0x80000000 :: u32) = push_bit 31 1" by simp
      have "x AND push_bit 31 (1 :: u32) = (if bit x 31 then push_bit 31 1 else 0)"
      proof (rule bit_word_eqI)
        fix n assume "n < LENGTH(32)"
        then have "31 \<le> n \<longleftrightarrow> n = 31" by auto
        then show "bit (x AND push_bit 31 1) n = bit (if bit x 31 then push_bit 31 1 else 0 :: u32) n"
          using \<open>n < LENGTH(32)\<close>
          by (cases "bit x 31"; simp only: if_True if_False bit_and_iff bit_push_bit_iff bit_1_iff bit_0_eq bot_apply bot_bool_def) auto
      qed
      moreover have "push_bit 31 (1 :: u32) \<noteq> 0" by simp
      ultimately show ?thesis unfolding e by simp
    qed
    then show ?thesis .
  qed
  moreover have "bit (?w XOR push_bit 1 ?w) 31 \<longleftrightarrow> bit v 31 \<noteq> bit v 30"
    by (simp only: bit_xor_iff bit_push_bit_iff bit_word_of_int_iff) simp
  ultimately show ?thesis using top_bits [OF assms] unfolding MP_SMALL_INT_FITS_def Let_def by metis
qed

lemma new_small_value:
  assumes "is_small v"
  shows "small_value (new_small v) = v" "MP_OBJ_IS_SMALL_INT (new_small v)"
proof -
  have r: "- (2 ^ 31) \<le> v" "v < 2 ^ 31" using assms by (simp_all add: is_small_def)
  have "bit (word_of_int v :: u32) 30 = bit (word_of_int v :: u32) 31"
    using top_bits [OF r] assms by (simp only: bit_word_of_int_iff) simp
  then have "MP_OBJ_SMALL_INT_VALUE (new_small v) = word_of_int v" unfolding new_small_def by (rule small_int_back)
  then show "small_value (new_small v) = v"
    using r unfolding small_value_def by (simp add: sint_sbintrunc' signed_take_bit_int_eq_self)
  show "MP_OBJ_IS_SMALL_INT (new_small v)" unfolding new_small_def by (rule small_int_is)
qed

lemma small_value_small: "is_small (small_value x)"
proof -
  have "sint (signed_drop_bit 1 x) = drop_bit 1 (sint x)" by (simp add: sint_signed_drop_bit_eq)
  moreover have "- (2 ^ 31) \<le> sint x" "sint x < 2 ^ 31" using sint_greater_eq [of x] sint_less [of x] by simp_all
  moreover have "sint x = 2 * (sint x div 2) + sint x mod 2" "0 \<le> sint x mod 2" "sint x mod 2 < 2" by simp_all
  ultimately have "- (2 ^ 30) \<le> sint (signed_drop_bit 1 x)" "sint (signed_drop_bit 1 x) < 2 ^ 30"
    unfolding drop_bit_int_def by simp_all
  then show ?thesis by (simp add: small_value_def MP_OBJ_SMALL_INT_VALUE_def is_small_def)
qed

text \<open>Small integer objects are their values.\<close>

lemma new_small_back:
  assumes "MP_OBJ_IS_SMALL_INT x"
  shows "new_small (small_value x) = x"
proof -
  have "x AND 1 \<noteq> 0" using assms by (simp add: MP_OBJ_IS_SMALL_INT_def)
  then have "bit x 0" by (auto simp: bit_0 and_one_eq odd_iff_mod_2_eq_one)
  have "push_bit 1 (signed_drop_bit 1 x) OR 1 = x"
  proof (rule bit_word_eqI)
    fix n assume n: "n < LENGTH(32)"
    show "bit (push_bit 1 (signed_drop_bit 1 x) OR 1) n = bit x n"
      using n \<open>bit x 0\<close>
      by (cases n; simp only: bit_or_iff bit_push_bit_iff bit_signed_drop_bit_iff bit_1_iff) auto
  qed
  then show ?thesis by (simp add: new_small_def small_value_def MP_OBJ_NEW_SMALL_INT_def MP_OBJ_SMALL_INT_VALUE_def)
qed

lemma small_value_inj: "MP_OBJ_IS_SMALL_INT x \<Longrightarrow> MP_OBJ_IS_SMALL_INT y \<Longrightarrow> small_value x = small_value y \<longleftrightarrow> x = y"
  by (metis new_small_back)


subsection \<open>Division and multiplication\<close>

lemma ceil_div: "0 < b \<Longrightarrow> (a + b - 1) div b = - ((- a) div b)" for a b :: int
proof (rule int_div_pos_eq)
  assume b: "0 < b"
  define q where "q = (- a) div b"
  define r where "r = (- a) mod b"
  have "- a = b * q + r" "0 \<le> r" "r < b" using b by (simp_all add: q_def r_def)
  then show "a + b - 1 = b * - ((- a) div b) + (b - 1 - r)" "0 \<le> b - 1 - r" "b - 1 - r < b"
    by (simp_all add: q_def [symmetric] algebra_simps)
qed

lemma div_small_range: "b \<noteq> 0 \<Longrightarrow> \<bar>a div b\<bar> \<le> \<bar>a\<bar> + 1" for a b :: int
  using sdiv_int_range [of a b] by (auto simp: divide_int_eq_signed_divide_int)

lemma floor_divide_run:
  assumes "is_small a" and "is_small b" and "b \<noteq> 0"
  shows "mp_small_int_floor_divide a b = Some (a div b)"
proof -
  have r: "- (2 ^ 31) \<le> a div b" "a div b < 2 ^ 31"
    using div_small_range [OF assms(3), of a] assms(1) by (auto simp: is_small_def)
  consider "a \<ge> 0" "b > 0" | "a \<ge> 0" "b < 0" | "a < 0" "b > 0" | "a < 0" "b < 0" using assms(3) by linarith
  then show ?thesis
  proof cases
    case 1
    then show ?thesis using r by (simp add: mp_small_int_floor_divide_def sdivide_def signed_divide_int_def sgn_if)
  next
    case 2
    have "- ((a + (- b - 1)) div - b) = a div b" using ceil_div [of "- b" a] 2 by (simp add: algebra_simps)
    moreover have "(a + (- b - 1)) sdiv b = - ((a + (- b - 1)) div - b)"
      using 2 by (cases "a + (- b - 1) = 0") (simp_all add: signed_divide_int_def sgn_if)
    ultimately show ?thesis using 2 r assms by (simp add: mp_small_int_floor_divide_def sdivide_def is_small_def)
  next
    case 3
    have "(- a + b - 1) div b = - (a div b)" using ceil_div [OF 3(2), of "- a"] by (simp only: minus_minus)
    then have "- ((- a + b - 1) div b) = a div b" by (simp only: minus_minus)
    moreover have neg: "m sdiv b = - ((- m) div b)" if "m \<le> 0" for m
      using 3 that by (cases "m = 0") (simp_all add: signed_divide_int_def sgn_if)
    have "(a + (- b + 1)) sdiv b = - ((- a + b - 1) div b)"
    proof -
      have e: "- (a + (- b + 1)) = - a + b - 1" by simp
      have "a + (- b + 1) \<le> 0" using 3 by linarith
      from neg [OF this, unfolded e] show ?thesis .
    qed
    ultimately show ?thesis using 3 r assms by (simp add: mp_small_int_floor_divide_def sdivide_def is_small_def)
  next
    case 4
    then show ?thesis using r by (simp add: mp_small_int_floor_divide_def sdivide_def signed_divide_int_def sgn_if)
  qed
qed

lemma modulo_run:
  assumes "is_small a" and "is_small b" and "b \<noteq> 0"
  shows "mp_small_int_modulo a b = Some (a mod b)"
proof -
  let ?d = "a smod b"
  have "- (2 ^ 31) \<le> a sdiv b" "a sdiv b < 2 ^ 31"
    using sdiv_int_range [of a b] assms(1) by (auto simp: is_small_def)
  then have q: "sdivide a b = Some (a sdiv b)" using assms(3) by (simp add: sdivide_def)
  have d0: "?d = 0 \<longleftrightarrow> b dvd a" by (auto simp: signed_modulo_int_def sgn_eq_0_iff mod_eq_0_iff_dvd)
  have sg: "sgn ?d = sgn a" if "?d \<noteq> 0"
  proof -
    have "0 \<le> \<bar>a\<bar> mod \<bar>b\<bar>" using assms(3) by simp
    then show ?thesis using that by (auto simp: signed_modulo_int_def sgn_mult sgn_if split: if_splits)
  qed
  have "?d < 0 \<and> b > 0 \<or> ?d > 0 \<and> b < 0 \<longleftrightarrow> sgn a \<noteq> sgn b \<and> \<not> b dvd a"
  proof (cases "?d = 0")
    case False
    then show ?thesis using sg d0 assms(3) by (auto simp: sgn_if split: if_splits)
  qed (use d0 in simp)
  moreover have "- (2 ^ 31) \<le> ?d + b" "?d + b < 2 ^ 31"
    using smod_int_range [OF assms(3), of a] assms(2) by (auto simp: is_small_def)
  ultimately show ?thesis
    unfolding mp_small_int_modulo_def q by (simp add: Let_def modulo_int_eq_signed_modulo_int)
qed

lemma le_div_int: "0 < b \<Longrightarrow> m \<le> n div b \<longleftrightarrow> m * b \<le> n" for b m n :: int
proof
  assume "0 < b" "m \<le> n div b"
  then have "m * b \<le> n div b * b" by simp
  also have "\<dots> \<le> n" using \<open>0 < b\<close> by (simp add: minus_mod_eq_div_mult [symmetric])
  finally show "m * b \<le> n" .
next
  assume "0 < b" "m * b \<le> n"
  then show "m \<le> n div b" using zdiv_mono1 [of "m * b" n b] by simp
qed

lemma mul_overflow_run:
  assumes "is_small x" and "is_small y"
  shows "mp_small_int_mul_overflow x y \<longleftrightarrow> \<not> is_small (x * y)"
proof -
  have pos: "m > n div b \<longleftrightarrow> m * b > n" if "0 < b" for b m n :: int using le_div_int [OF that, of m n] by linarith
  have lo: "MP_SMALL_INT_MIN sdiv b = - (2 ^ 30 div b)" if "0 < b" for b using that by (simp add: small_limits signed_divide_int_def)
  have hi: "MP_SMALL_INT_MAX sdiv b = (2 ^ 30 - 1) div b" if "0 < b" for b using that by (simp add: small_limits signed_divide_int_def)
  consider "x > 0" "y > 0" | "x > 0" "y \<le> 0" | "x \<le> 0" "y > 0" | "x = 0" "y \<le> 0" | "x < 0" "y \<le> 0" by linarith
  then show ?thesis
  proof cases
    case 1
    then have "0 < x * y" by simp
    then have "- (2 ^ 30) \<le> x * y" by (intro order_trans [OF _ less_imp_le [OF \<open>0 < x * y\<close>]]) simp
    then show ?thesis using 1 hi pos by (auto simp: mp_small_int_mul_overflow_def is_small_def)
  next
    case 2
    have "mp_small_int_mul_overflow x y \<longleftrightarrow> - y > 2 ^ 30 div x" using 2 lo [of x] by (auto simp: mp_small_int_mul_overflow_def)
    also have "\<dots> \<longleftrightarrow> x * y < - (2 ^ 30)" unfolding pos [OF 2(1)] by (auto simp: algebra_simps)
    finally show ?thesis using mult_nonneg_nonpos [of x y] 2 by (auto simp: is_small_def)
  next
    case 3
    have "mp_small_int_mul_overflow x y \<longleftrightarrow> - x > 2 ^ 30 div y" using 3 lo [of y] by (auto simp: mp_small_int_mul_overflow_def)
    also have "\<dots> \<longleftrightarrow> x * y < - (2 ^ 30)" unfolding pos [OF 3(2)] by (auto simp: algebra_simps)
    finally show ?thesis using mult_nonpos_nonneg [of x y] 3 by (auto simp: is_small_def)
  next
    case 4
    then show ?thesis by (simp add: mp_small_int_mul_overflow_def is_small_def)
  next
    case 5
    have "MP_SMALL_INT_MAX sdiv x = - (MP_SMALL_INT_MAX sdiv - x)" by simp
    then have "mp_small_int_mul_overflow x y \<longleftrightarrow> - y > (2 ^ 30 - 1) div (- x)"
      using 5 hi [of "- x"] by (auto simp: mp_small_int_mul_overflow_def)
    also have "\<dots> \<longleftrightarrow> x * y > 2 ^ 30 - 1" using pos [of "- x" "2 ^ 30 - 1" "- y"] 5 by (simp add: algebra_simps)
    finally show ?thesis using mult_nonpos_nonpos [of x y] 5 by (auto simp: is_small_def)
  qed
qed

subsection \<open>The operators compute with integers\<close>

text \<open>What Python's operators on integers give; \<open>IsFloat\<close> is a floating point number.\<close>

datatype int_answer = IsInt int | IsBool bool | IsPair int int | IsFloat

fun int_spec :: "int_op \<Rightarrow> int \<Rightarrow> int \<Rightarrow> exc + int_answer" where
  "int_spec MP_BINARY_OP_OR a b = Inr (IsInt (a OR b))"
| "int_spec MP_BINARY_OP_XOR a b = Inr (IsInt (a XOR b))"
| "int_spec MP_BINARY_OP_AND a b = Inr (IsInt (a AND b))"
| "int_spec MP_BINARY_OP_LSHIFT a b = (if b < 0 then Inl ValueError else Inr (IsInt (a * 2 ^ nat b)))"
| "int_spec MP_BINARY_OP_RSHIFT a b = (if b < 0 then Inl ValueError else Inr (IsInt (a div 2 ^ nat b)))"
| "int_spec MP_BINARY_OP_ADD a b = Inr (IsInt (a + b))"
| "int_spec MP_BINARY_OP_SUBTRACT a b = Inr (IsInt (a - b))"
| "int_spec MP_BINARY_OP_MULTIPLY a b = Inr (IsInt (a * b))"
| "int_spec MP_BINARY_OP_FLOOR_DIVIDE a b = (if b = 0 then Inl ZeroDivisionError else Inr (IsInt (a div b)))"
| "int_spec MP_BINARY_OP_TRUE_DIVIDE a b = (if b = 0 then Inl ZeroDivisionError else Inr IsFloat)"
| "int_spec MP_BINARY_OP_MODULO a b = (if b = 0 then Inl ZeroDivisionError else Inr (IsInt (a mod b)))"
| "int_spec MP_BINARY_OP_POWER a b =
     (if b < 0 then if a = 0 then Inl ZeroDivisionError else Inr IsFloat else Inr (IsInt (a ^ nat b)))"
| "int_spec MP_BINARY_OP_DIVMOD a b = (if b = 0 then Inl ZeroDivisionError else Inr (IsPair (a div b) (a mod b)))"
| "int_spec (Compare c) a b = Inr (IsBool (compares c a b))"

text \<open>A result stands for an answer; \<open>Generic\<close> leaves it to long integers.\<close>

fun small_means :: "small_result \<Rightarrow> int_answer \<Rightarrow> bool" where
  "small_means (Value v) ans \<longleftrightarrow> ans = IsInt v \<and> - (2 ^ 31) \<le> v \<and> v < 2 ^ 31"
| "small_means (Object p) ans \<longleftrightarrow> MP_OBJ_IS_SMALL_INT p \<and> ans = IsInt (small_value p)"
| "small_means (Truth b) ans \<longleftrightarrow> ans = IsBool b"
| "small_means (Two p q) ans \<longleftrightarrow> MP_OBJ_IS_SMALL_INT p \<and> MP_OBJ_IS_SMALL_INT q \<and> ans = IsPair (small_value p) (small_value q)"
| "small_means Generic ans \<longleftrightarrow> (case ans of IsInt v \<Rightarrow> True | _ \<Rightarrow> False)"
| "small_means FloatArith ans \<longleftrightarrow> ans = IsFloat"

definition small_run :: "(exc + small_result) option \<Rightarrow> exc + int_answer \<Rightarrow> bool" where
  "small_run r spec \<longleftrightarrow> (case r of
     None \<Rightarrow> False
   | Some (Inl e) \<Rightarrow> spec = Inl e
   | Some (Inr s) \<Rightarrow> (case spec of Inl e \<Rightarrow> False | Inr ans \<Rightarrow> small_means s ans))"

lemma small_bits: "is_small v \<longleftrightarrow> signed_take_bit 30 v = v"
  by (simp add: is_small_def signed_take_bit_int_eq_self_iff)

lemma bitwise_small:
  assumes "is_small a" and "is_small b"
  shows "is_small (a OR b)" "is_small (a XOR b)" "is_small (a AND b)"
proof -
  have bits: "bit v (min 30 m) = bit v m" if "is_small v" for v m
    using that bit_signed_take_bit_iff [of 30 v m] by (simp add: small_bits)
  show "is_small (a OR b)" "is_small (a XOR b)" "is_small (a AND b)"
    unfolding small_bits
    by (rule bit_eqI, simp add: bit_signed_take_bit_iff bit_or_iff bit_xor_iff bit_and_iff bits [OF assms(1)] bits [OF assms(2)])+
qed

lemma small_wide: "is_small v \<Longrightarrow> - (2 ^ 31) \<le> v \<and> v < 2 ^ 31"
  by (auto simp: is_small_def)

lemma shift_left_run:
  assumes "0 \<le> n" and "n < 32" and "v \<le> drop_bit (nat n) MP_SMALL_INT_MAX" and "drop_bit (nat n) MP_SMALL_INT_MIN \<le> v"
  shows "- (2 ^ 31) \<le> v * 2 ^ nat n \<and> v * 2 ^ nat n < 2 ^ 31"
proof -
  have hi: "v * 2 ^ nat n \<le> 2 ^ 30 - 1"
    using assms(3) le_div_int [of "2 ^ nat n" v "2 ^ 30 - 1"] by (simp add: small_limits drop_bit_int_def)
  show ?thesis
  proof (cases "n = 31")
    case True
    have "(- (2 ^ 30) :: int) div 2 ^ 31 = - 1" by simp
    then have "- 1 \<le> v" using assms(4) True by (simp add: small_limits drop_bit_int_def)
    then show ?thesis using hi True by simp
  next
    case False
    then have "nat n \<le> 30" using assms(2) by linarith
    then obtain m where m: "30 = nat n + m" using le_Suc_ex by blast
    have "(- (2 ^ 30) :: int) = - (2 ^ m) * 2 ^ nat n" unfolding m by (simp add: power_add)
    then have "(- (2 ^ 30) :: int) div 2 ^ nat n = - (2 ^ m)" by (metis nonzero_mult_div_cancel_right power_not_zero zero_neq_numeral)
    then have "- (2 ^ m) \<le> v" using assms(4) by (simp add: small_limits drop_bit_int_def)
    then have "- (2 ^ m) * 2 ^ nat n \<le> v * 2 ^ nat n" by (intro mult_right_mono) simp_all
    then show ?thesis using hi \<open>(- (2 ^ 30) :: int) = - (2 ^ m) * 2 ^ nat n\<close> by simp
  qed
qed

lemma shift_right_run:
  assumes "is_small v" and "0 \<le> n"
  shows "drop_bit (nat (if n \<ge> 32 then 31 else n)) v = v div 2 ^ nat n"
proof (cases "n \<ge> 32")
  case True
  have "v div 2 ^ k = (if v < 0 then - 1 else 0)" if "30 \<le> k" for k
  proof -
    have "(2 :: int) ^ 30 \<le> 2 ^ k" using that by (intro power_increasing) simp_all
    then show ?thesis
      using assms(1) int_div_pos_eq [of v "2 ^ k" "- 1" "v + 2 ^ k"] int_div_pos_eq [of v "2 ^ k" 0 v] by (auto simp: is_small_def)
  qed
  from this [of 31] this [of "nat n"] show ?thesis using True by (simp add: drop_bit_int_def)
qed (simp add: drop_bit_int_def)

lemma div_small: "is_small v \<Longrightarrow> is_small (v div 2 ^ n)"
proof -
  assume v: "is_small v"
  have p: "(1 :: int) \<le> 2 ^ n" by simp
  have "v div 2 ^ n \<le> 2 ^ 30 - 1"
  proof (cases "0 \<le> v")
    case True
    then show ?thesis using zdiv_mono2 [of v 1 "2 ^ n"] v p by (simp add: is_small_def)
  next
    case False
    then have "v div 2 ^ n < 0" by (simp add: pos_imp_zdiv_neg_iff)
    then show ?thesis by simp
  qed
  moreover have "- (2 ^ 30) \<le> v div 2 ^ n"
  proof -
    have "- (2 ^ 30) * 2 ^ n \<le> - (2 ^ 30) * (1 :: int)" using p by (intro mult_left_mono_neg) simp_all
    also have "- (2 ^ 30) * (1 :: int) \<le> v" using v by (simp add: is_small_def)
    finally have "- (2 ^ 30) * 2 ^ n \<le> v" .
    then show ?thesis using le_div_int [of "2 ^ n" "- (2 ^ 30)" v] by simp
  qed
  ultimately show ?thesis by (simp add: is_small_def)
qed

lemma pow_loop_run:
  assumes "is_small ans" and "is_small lhs" and "0 \<le> n"
  shows "\<exists>r. pow_loop ans lhs n = Some r \<and> (\<forall>v. r = Some v \<longrightarrow> v = ans * lhs ^ nat n \<and> is_small v)"
  using assms
proof (induction ans lhs n rule: pow_loop.induct)
  case (1 ans lhs n)
  show ?case
  proof (cases "n > 0")
    case False
    then show ?thesis using 1(2,4) by (subst pow_loop.simps) simp
  next
    case True
    let ?a = "if n AND 1 \<noteq> 0 then ans * lhs else ans"
    show ?thesis
    proof (cases "n AND 1 \<noteq> 0 \<and> mp_small_int_mul_overflow ans lhs")
      case True
      then show ?thesis using \<open>n > 0\<close> by (subst pow_loop.simps) simp
    next
      case no: False
      then have a: "is_small ?a" using 1(2,3) mul_overflow_run by auto
      then have sa: "(if n AND 1 \<noteq> 0 then s32 (ans * lhs) else Some ans) = Some ?a"
        using small_wide [OF a] by auto
      show ?thesis
      proof (cases "n = 1 \<or> mp_small_int_mul_overflow lhs lhs")
        case True
        then show ?thesis using no \<open>n > 0\<close> sa a by (subst pow_loop.simps) (auto simp: and_one_eq)
      next
        case False
        then have l: "is_small (lhs * lhs)" using 1(3) mul_overflow_run by simp
        then have sl: "s32 (lhs * lhs) = Some (lhs * lhs)" using small_wide [OF l] by simp
        have h: "0 \<le> n div 2" using True by simp
        obtain r where r: "pow_loop ?a (lhs * lhs) (n div 2) = Some r"
          "\<And>v. r = Some v \<Longrightarrow> v = ?a * (lhs * lhs) ^ nat (n div 2) \<and> is_small v"
          using 1(1) [OF True no sa _ _ sl a l h] False by blast
        have "?a * (lhs * lhs) ^ nat (n div 2) = ans * lhs ^ nat n"
        proof (cases "n AND 1 \<noteq> 0")
          case True
          then have "odd n" by (simp add: and_one_eq odd_iff_mod_2_eq_one)
          then obtain k where "n = 2 * k + 1" by (rule oddE)
          then have "nat n = Suc (2 * nat (n div 2))" using \<open>n > 0\<close> by (simp add: nat_add_distrib nat_mult_distrib)
          then show ?thesis using True by (simp add: power_mult power2_eq_square)
        next
          case False
          then have "even n" by (simp add: and_one_eq even_iff_mod_2_eq_zero)
          then obtain k where "n = 2 * k" by (rule evenE)
          then have "nat n = 2 * nat (n div 2)" using \<open>n > 0\<close> by (simp add: nat_mult_distrib)
          then show ?thesis using False by (simp add: power_mult power2_eq_square)
        qed
        then show ?thesis using r True no sa sl False by (subst pow_loop.simps) auto
      qed
    qed
  qed
qed

lemma small_op_run:
  assumes a: "is_small a" and b: "is_small b" and op: "op \<noteq> Compare MP_BINARY_OP_EQUAL"
    and wrap: "op = MP_BINARY_OP_DIVMOD \<Longrightarrow> is_small (a div b)"
  shows "small_run (small_binary_op op a b) (int_spec op a b)"
proof -
  note w = small_wide [OF a] small_wide [OF b]
  have num: "small_run (of_value (s32 v)) (Inr (IsInt v))" if "- (2 ^ 31) \<le> v" "v < 2 ^ 31" for v
    using that by (simp add: of_value_def small_run_def)
  have sm: "small_run (Some (Inr (Value v))) (Inr (IsInt v))" if "is_small v" for v
    using small_wide [OF that] by (simp add: small_run_def)
  have mm: "is_small (a mod b)" if "b \<noteq> 0"
  proof (cases "b > 0")
    case True
    then have "0 \<le> a mod b" "a mod b < b" by simp_all
    then show ?thesis using b by (simp add: is_small_def)
  next
    case False
    then have "a mod b \<le> 0" "b < a mod b" using that by simp_all
    then show ?thesis using b by (simp add: is_small_def)
  qed
  have dd: "- (2 ^ 31) \<le> a div b \<and> a div b < 2 ^ 31" if "b \<noteq> 0"
    using div_small_range [OF that, of a] a by (auto simp: is_small_def)
  show ?thesis
  proof (cases op)
    case MP_BINARY_OP_ADD
    then show ?thesis using a b num [of "a + b"] by (simp add: is_small_def)
  next
    case MP_BINARY_OP_SUBTRACT
    then show ?thesis using a b num [of "a - b"] by (simp add: is_small_def)
  next
    case MP_BINARY_OP_LSHIFT
    show ?thesis
    proof (cases "0 \<le> b \<and> b < 32 \<and> a \<le> drop_bit (nat b) MP_SMALL_INT_MAX \<and> drop_bit (nat b) MP_SMALL_INT_MIN \<le> a")
      case True
      then show ?thesis
        using MP_BINARY_OP_LSHIFT num shift_left_run [of b a] by (simp add: push_bit_eq_mult BITS_PER_WORD_def)
    next
      case False
      then have "small_binary_op op a b = Some (if b < 0 then Inl ValueError else Inr Generic)"
        using MP_BINARY_OP_LSHIFT by (auto simp: BITS_PER_WORD_def)
      then show ?thesis using MP_BINARY_OP_LSHIFT by (simp add: small_run_def)
    qed
  next
    case MP_BINARY_OP_RSHIFT
    have "small_binary_op op a b = Some (Inr (Value (a div 2 ^ nat b)))" if "0 \<le> b"
    proof -
      have "small_binary_op op a b = Some (Inr (Value (drop_bit (nat (if b \<ge> 32 then 31 else b)) a)))"
        using MP_BINARY_OP_RSHIFT that by (simp add: BITS_PER_WORD_def Let_def)
      then show ?thesis unfolding shift_right_run [OF a that] .
    qed
    then show ?thesis
      using sm [OF div_small [OF a, of "nat b"]] MP_BINARY_OP_RSHIFT by (cases "b < 0") (simp_all add: small_run_def)
  next
    case MP_BINARY_OP_MULTIPLY
    then show ?thesis
      using mul_overflow_run [OF a b] new_small_value [of "a * b"] small_wide [of "a * b"] by (auto simp: small_run_def)
  next
    case MP_BINARY_OP_FLOOR_DIVIDE
    then show ?thesis using floor_divide_run [OF a b] dd by (simp add: small_run_def of_value_def)
  next
    case MP_BINARY_OP_MODULO
    then show ?thesis using modulo_run [OF a b] mm small_wide by (simp add: small_run_def of_value_def)
  next
    case MP_BINARY_OP_POWER
    have "is_small 1" by (simp add: is_small_def)
    then show ?thesis
      using MP_BINARY_OP_POWER pow_loop_run [of 1 a b] a small_wide
      by (cases "b < 0"; cases "a = 0") (auto simp: small_run_def float_power_def split: option.split)
  next
    case MP_BINARY_OP_DIVMOD
    then show ?thesis
      using floor_divide_run [OF a b] modulo_run [OF a b] new_small_value [OF mm] new_small_value [OF wrap] by (simp add: small_run_def)
  next
    case (Compare c)
    then show ?thesis using op by (cases c) (simp_all add: small_run_def)
  qed (use w bitwise_small [OF a b] sm num in \<open>auto simp: small_run_def of_value_def is_small_def\<close>)
qed

text \<open>The pair of the smallest integer and \<open>-1\<close> has a quotient that is not a small integer: it wraps.\<close>

lemma divmod_wraps:
  "small_binary_op MP_BINARY_OP_DIVMOD (- (2 ^ 30)) (- 1) = Some (Inr (Two (new_small (2 ^ 30)) (new_small 0)))"
  "small_value (new_small (2 ^ 30)) = - (2 ^ 30)"
proof -
  have s: "is_small (- (2 ^ 30))" "is_small (- 1)" by (simp_all add: is_small_def)
  show "small_binary_op MP_BINARY_OP_DIVMOD (- (2 ^ 30)) (- 1) = Some (Inr (Two (new_small (2 ^ 30)) (new_small 0)))"
    using floor_divide_run [OF s] modulo_run [OF s] by simp
  show "small_value (new_small (2 ^ 30)) = - (2 ^ 30)" by code_simp
qed


subsection \<open>Small integers as objects\<close>

text \<open>
  The environment of code that uses only small integers: comparison is \<open>mp_binary_op\<close> on them, with
  equality by \<open>mp_obj_equal\<close>, where two small integers are equal if they are the same word.
\<close>

definition bool_obj :: "bool \<Rightarrow> mp_obj_t" where
  "bool_obj b = (if b then 0x2008 else 0x2004)"

definition int_env :: py_env where
  "int_env = \<lparr>mp_const_none = 0x2000, mp_const_true = bool_obj True, mp_const_false = bool_obj False,
     mp_binary_op = (\<lambda>op a b. if op = MP_BINARY_OP_EQUAL then Inr (bool_obj (a = b))
       else case small_binary_op (Compare op) (small_value a) (small_value b) of
           Some (Inr (Truth t)) \<Rightarrow> Inr (bool_obj t)
         | _ \<Rightarrow> Inl TypeError),
     mp_call_function_1 = (\<lambda>f x. Inl TypeError),
     obj_get_int_maybe = (\<lambda>x. None),
     obj_get_int = (\<lambda>x. if MP_OBJ_IS_SMALL_INT x then Inr (small_value x) else Inl TypeError),
     obj_equal_to = (\<lambda>a b. a = b)\<rparr>"

lemma small_ints_by_value: "by_value int_env small_value {x. MP_OBJ_IS_SMALL_INT x}"
proof -
  have t: "mp_const_true int_env = bool_obj True" "mp_const_false int_env = bool_obj False" "bool_obj True \<noteq> bool_obj False"
    by (simp_all add: int_env_def bool_obj_def)
  have "mp_binary_op int_env op a b = Inr (bool_obj (compares op (small_value a) (small_value b)))"
    if "MP_OBJ_IS_SMALL_INT a" "MP_OBJ_IS_SMALL_INT b" for op a b
    using small_value_inj [OF that] by (cases op) (simp_all add: int_env_def)
  then show ?thesis
    using t small_value_inj by (auto simp: by_value_def) (simp_all add: int_env_def)
qed

text \<open>Sorting small integers without a key, upwards and downwards.\<close>

lemma small_ints_less:
  assumes "MP_OBJ_IS_SMALL_INT a" and "MP_OBJ_IS_SMALL_INT b"
  shows "less_is int_env (bool_obj t) a b = Inr ((small_value a < small_value b) = t)"
  by (simp add: less_is_def int_env_def bool_obj_def)

interpretation ints: sort_order int_env MP_OBJ_NULL "bool_obj True" "{x. MP_OBJ_IS_SMALL_INT x}" "\<lambda>x. x"
  "\<lambda>a b. small_value a \<le> small_value b"
  by unfold_locales (auto simp: item_key_def small_ints_less)

interpretation ints_down: sort_order int_env MP_OBJ_NULL "bool_obj False" "{x. MP_OBJ_IS_SMALL_INT x}" "\<lambda>x. x"
  "\<lambda>a b. small_value b \<le> small_value a"
  by unfold_locales (auto simp: item_key_def small_ints_less)

end
