(* ===== verification/Py_List.thy ===== *)
theory Py_List
  imports Py_Small_Int
begin

text \<open>
  Lists (\<open>py/objlist.c\<close>): an array of items that grows and shrinks with the list, its methods, subscripts
  and operators.  The memory is an argument: whether a reallocation fails, stays in place or moves, and the words
  of fresh memory.
\<close>

definition LIST_MIN_ALLOC :: nat where "LIST_MIN_ALLOC = 4"

record mp_obj_list_t =
  l_alloc :: nat
  l_len :: nat
  l_items :: "mp_obj_t list"

datatype renewal = Fails | InPlace | Moves

record memory =
  renewal_of :: "nat \<Rightarrow> nat \<Rightarrow> renewal"
  can_new :: "nat \<Rightarrow> bool"
  junk :: "nat \<Rightarrow> mp_obj_t"

definition m_renew :: "memory \<Rightarrow> mp_obj_t list \<Rightarrow> nat \<Rightarrow> nat \<Rightarrow> exc + mp_obj_t list" where
  "m_renew mem items old_num new_num =
     (if renewal_of mem old_num new_num = Fails then Inl MemoryError
      else Inr (take new_num items @ map (junk mem) [length items..<new_num]))"

text \<open>The result of a method: a raised exception or a value, with the list afterwards.\<close>

type_synonym 'a list_res = "((exc + 'a) \<times> mp_obj_list_t) option"

subsection \<open>Construction\<close>

definition mp_obj_list_init :: "memory \<Rightarrow> nat \<Rightarrow> (exc + mp_obj_list_t) option" where
  "mp_obj_list_init mem n =
     (let alloc = (if n < LIST_MIN_ALLOC then LIST_MIN_ALLOC else n)
      in if \<not> can_new mem alloc then Some (Inl MemoryError)
         else map_option (\<lambda>items. Inr \<lparr>l_alloc = alloc, l_len = n, l_items = items\<rparr>)
           (mp_seq_clear (map (junk mem) [0..<alloc]) n alloc))"

definition list_new :: "memory \<Rightarrow> nat \<Rightarrow> (exc + mp_obj_list_t) option" where
  "list_new mem n = mp_obj_list_init mem n"

text \<open>A new list with copied items, by the loop of \<open>mp_obj_new_list\<close> or by \<open>memcpy\<close>.\<close>

definition mp_obj_new_list :: "memory \<Rightarrow> mp_obj_t list \<Rightarrow> (exc + mp_obj_list_t) option" where
  "mp_obj_new_list mem items =
     (case list_new mem (length items) of
        None \<Rightarrow> None
      | Some (Inl e) \<Rightarrow> Some (Inl e)
      | Some (Inr o1) \<Rightarrow> do {
          t \<leftarrow> for_upto 0 (length items) (\<lambda>i t. do { x \<leftarrow> rd items i; wr t i x }) (l_items o1);
          Some (Inr (o1\<lparr>l_items := t\<rparr>)) })"

subsection \<open>Methods\<close>

definition mp_obj_list_append :: "memory \<Rightarrow> mp_obj_list_t \<Rightarrow> mp_obj_t \<Rightarrow> unit list_res" where
  "mp_obj_list_append mem self arg =
     (if l_len self \<ge> l_alloc self then
        (case m_renew mem (l_items self) (l_alloc self) (l_alloc self * 2) of
           Inl e \<Rightarrow> Some (Inl e, self)
         | Inr items \<Rightarrow> do {
             items \<leftarrow> mp_seq_clear items (l_len self + 1) (l_alloc self * 2);
             items \<leftarrow> wr items (l_len self) arg;
             Some (Inr (), \<lparr>l_alloc = l_alloc self * 2, l_len = l_len self + 1, l_items = items\<rparr>) })
      else do {
        items \<leftarrow> wr (l_items self) (l_len self) arg;
        Some (Inr (), self\<lparr>l_len := l_len self + 1, l_items := items\<rparr>) })"

fun list_extend_from_iter :: "memory \<Rightarrow> mp_obj_list_t \<Rightarrow> mp_obj_t list \<Rightarrow> unit list_res" where
  "list_extend_from_iter mem l [] = Some (Inr (), l)"
| "list_extend_from_iter mem l (item # rest) =
     (case mp_obj_list_append mem l item of
        None \<Rightarrow> None
      | Some (Inl e, l) \<Rightarrow> Some (Inl e, l)
      | Some (Inr u, l) \<Rightarrow> list_extend_from_iter mem l rest)"

text \<open>The constructor: an empty list, or what an iterable yields.\<close>

definition list_make_new :: "memory \<Rightarrow> mp_obj_t list option \<Rightarrow> (exc + mp_obj_list_t) option" where
  "list_make_new mem arg =
     (case mp_obj_new_list mem [] of
        None \<Rightarrow> None
      | Some (Inl e) \<Rightarrow> Some (Inl e)
      | Some (Inr l) \<Rightarrow>
          (case arg of
             None \<Rightarrow> Some (Inr l)
           | Some items \<Rightarrow> map_option (\<lambda>(r, l). map_sum (\<lambda>e. e) (\<lambda>u. l) r) (list_extend_from_iter mem l items)))"

text \<open>The argument of a method: the list itself, another list, or an iterable given by what it yields.\<close>

datatype list_arg = Itself | AnotherList mp_obj_list_t | Iterable "mp_obj_t list"

definition list_extend :: "memory \<Rightarrow> mp_obj_list_t \<Rightarrow> list_arg \<Rightarrow> unit list_res" where
  "list_extend mem self arg_in =
     (case arg_in of
        Iterable items \<Rightarrow> list_extend_from_iter mem self items
      | _ \<Rightarrow>
        let arg_len = (case arg_in of AnotherList arg \<Rightarrow> l_len arg | _ \<Rightarrow> l_len self);
            grown = (if l_len self + arg_len > l_alloc self then
              (case m_renew mem (l_items self) (l_alloc self) (l_len self + arg_len + 4) of
                 Inl e \<Rightarrow> Some (Inl e)
               | Inr items \<Rightarrow> map_option (\<lambda>items. Inr (self\<lparr>l_items := items, l_alloc := l_len self + arg_len + 4\<rparr>))
                   (mp_seq_clear items (l_len self + arg_len) (l_len self + arg_len + 4)))
              else Some (Inr self))
        in (case grown of
              None \<Rightarrow> None
            | Some (Inl e) \<Rightarrow> Some (Inl e, self)
            | Some (Inr self) \<Rightarrow> do {
                src \<leftarrow> slice (case arg_in of AnotherList arg \<Rightarrow> l_items arg | _ \<Rightarrow> l_items self) 0 arg_len;
                items \<leftarrow> blit (l_items self) (l_len self) src;
                Some (Inr (), self\<lparr>l_items := items, l_len := l_len self + arg_len\<rparr>) }))"

definition list_pop :: "memory \<Rightarrow> py_env \<Rightarrow> mp_obj_list_t \<Rightarrow> mp_obj_t option \<Rightarrow> mp_obj_t list_res" where
  "list_pop mem env self arg =
     (if l_len self = 0 then Some (Inl IndexError, self)
      else case mp_get_index env (l_len self) (case arg of None \<Rightarrow> MP_OBJ_NEW_SMALL_INT (- 1) | Some i \<Rightarrow> i) False of
        Inl e \<Rightarrow> Some (Inl e, self)
      | Inr index \<Rightarrow> do {
          ret \<leftarrow> rd (l_items self) index;
          let len = l_len self - 1;
          items \<leftarrow> memmove (l_items self) index (index + 1) (len - index);
          items \<leftarrow> wr items len MP_OBJ_NULL;
          let self = self\<lparr>l_len := len, l_items := items\<rparr>;
          if l_alloc self > LIST_MIN_ALLOC \<and> l_alloc self > 2 * len then
            (case m_renew mem items (l_alloc self) (l_alloc self div 2) of
               Inl e \<Rightarrow> Some (Inl e, self)
             | Inr items \<Rightarrow> Some (Inr ret, self\<lparr>l_items := items, l_alloc := l_alloc self div 2\<rparr>))
          else Some (Inr ret, self) })"

definition mp_obj_list_sort :: "py_env \<Rightarrow> nat \<Rightarrow> mp_obj_list_t \<Rightarrow> mp_obj_t \<Rightarrow> bool \<Rightarrow> unit list_res" where
  "mp_obj_list_sort env stack self key reverse =
     (if l_len self > 1 then do {
        (r, items) \<leftarrow> mp_quicksort env (if key = mp_const_none env then MP_OBJ_NULL else key)
          (if reverse then mp_const_false env else mp_const_true env) stack 0 (l_len self - 1) (l_items self);
        Some (r, self\<lparr>l_items := items\<rparr>) }
      else Some (Inr (), self))"

definition list_clear :: "memory \<Rightarrow> mp_obj_list_t \<Rightarrow> unit list_res" where
  "list_clear mem self =
     (case m_renew mem (l_items self) (l_alloc self) LIST_MIN_ALLOC of
        Inl e \<Rightarrow> Some (Inl e, self\<lparr>l_len := 0\<rparr>)
      | Inr items \<Rightarrow> do {
          items \<leftarrow> mp_seq_clear items 0 LIST_MIN_ALLOC;
          Some (Inr (), \<lparr>l_alloc = LIST_MIN_ALLOC, l_len = 0, l_items = items\<rparr>) })"

definition list_copy :: "memory \<Rightarrow> mp_obj_list_t \<Rightarrow> (exc + mp_obj_list_t) option" where
  "list_copy mem self = do {
     src \<leftarrow> slice (l_items self) 0 (l_len self);
     mp_obj_new_list mem src }"

definition list_count :: "py_env \<Rightarrow> mp_obj_list_t \<Rightarrow> mp_obj_t \<Rightarrow> nat option" where
  "list_count env self value = do {
     src \<leftarrow> slice (l_items self) 0 (l_len self);
     mp_seq_count_obj env src value }"

definition list_index :: "py_env \<Rightarrow> mp_obj_list_t \<Rightarrow> mp_obj_t \<Rightarrow> mp_obj_t list \<Rightarrow> (exc + nat) option" where
  "list_index env self value bounds = do {
     src \<leftarrow> slice (l_items self) 0 (l_len self);
     mp_seq_index_obj env src value bounds }"

text \<open>The index is taken as a small integer whatever object it is.\<close>

definition list_insert :: "memory \<Rightarrow> py_env \<Rightarrow> mp_obj_list_t \<Rightarrow> mp_obj_t \<Rightarrow> mp_obj_t \<Rightarrow> unit list_res" where
  "list_insert mem env self idx obj =
     (let index = sint (MP_OBJ_SMALL_INT_VALUE idx);
          index = (if index < 0 then index + int (l_len self) else index);
          index = (if index < 0 then 0 else index);
          index = (if index > int (l_len self) then int (l_len self) else index)
      in case mp_obj_list_append mem self (mp_const_none env) of
           None \<Rightarrow> None
         | Some (Inl e, self) \<Rightarrow> Some (Inl e, self)
         | Some (Inr u, self) \<Rightarrow> do {
             items \<leftarrow> foldM (\<lambda>i items. do { x \<leftarrow> rd items (i - 1); wr items i x })
               (rev [nat index + 1..<l_len self]) (l_items self);
             items \<leftarrow> wr items (nat index) obj;
             Some (Inr (), self\<lparr>l_items := items\<rparr>) })"

definition mp_obj_list_remove :: "memory \<Rightarrow> py_env \<Rightarrow> mp_obj_list_t \<Rightarrow> mp_obj_t \<Rightarrow> unit list_res" where
  "mp_obj_list_remove mem env self value =
     (case list_index env self value [] of
        None \<Rightarrow> None
      | Some (Inl e) \<Rightarrow> Some (Inl e, self)
      | Some (Inr i) \<Rightarrow> do {
          (r, self) \<leftarrow> list_pop mem env self (Some (MP_OBJ_NEW_SMALL_INT (of_nat i)));
          Some (map_sum id (\<lambda>ret. ()) r, self) })"

definition list_reverse :: "mp_obj_list_t \<Rightarrow> mp_obj_list_t option" where
  "list_reverse self = do {
     items \<leftarrow> for_upto 0 (l_len self div 2) (\<lambda>i items. do {
       a \<leftarrow> rd items i;
       b \<leftarrow> rd items (l_len self - i - 1);
       items \<leftarrow> wr items i b;
       wr items (l_len self - i - 1) a }) (l_items self);
     Some (self\<lparr>l_items := items\<rparr>) }"

definition mp_obj_list_set_len :: "mp_obj_list_t \<Rightarrow> nat \<Rightarrow> mp_obj_list_t" where
  "mp_obj_list_set_len self len = self\<lparr>l_len := len\<rparr>"

definition mp_obj_list_store :: "py_env \<Rightarrow> mp_obj_list_t \<Rightarrow> mp_obj_t \<Rightarrow> mp_obj_t \<Rightarrow> unit list_res" where
  "mp_obj_list_store env self index value =
     (case mp_get_index env (l_len self) index False of
        Inl e \<Rightarrow> Some (Inl e, self)
      | Inr i \<Rightarrow> do { items \<leftarrow> wr (l_items self) i value; Some (Inr (), self\<lparr>l_items := items\<rparr>) })"

definition list_it_iternext :: "mp_obj_list_t \<Rightarrow> nat \<Rightarrow> (mp_obj_t option \<times> nat) option" where
  "list_it_iternext l cur =
     (if cur < l_len l then do { o_out \<leftarrow> rd (l_items l) cur; Some (Some o_out, cur + 1) } else Some (None, cur))"

subsection \<open>Subscripts\<close>

text \<open>The loop of \<open>mp_seq_extract_slice\<close>, which runs until a step leaves the bounds (or 32 bits).\<close>

partial_function (option) extract_loop :: "memory \<Rightarrow> mp_obj_t list \<Rightarrow> int \<Rightarrow> int \<Rightarrow> int \<Rightarrow> mp_obj_list_t
    \<Rightarrow> (exc + mp_obj_list_t) option" where
  "extract_loop mem seq i e k res =
     (if (if k < 0 then i \<ge> e else i < e) then
        if i < 0 then None
        else do {
          x \<leftarrow> rd seq (nat i);
          (r, res) \<leftarrow> mp_obj_list_append mem res x;
          case r of
            Inl exc \<Rightarrow> Some (Inl exc)
          | Inr u \<Rightarrow> do { i \<leftarrow> sadd i k; extract_loop mem seq i e k res } }
      else Some (Inr res))"

definition mp_seq_extract_slice :: "memory \<Rightarrow> mp_obj_t list \<Rightarrow> mp_bound_slice_t \<Rightarrow> (exc + mp_obj_list_t) option" where
  "mp_seq_extract_slice mem seq b =
     (case mp_obj_new_list mem [] of
        None \<Rightarrow> None
      | Some (Inl e) \<Rightarrow> Some (Inl e)
      | Some (Inr res) \<Rightarrow> extract_loop mem seq (start b) (stop b) (step b) res)"

text \<open>An index object is a slice object or another object.\<close>

datatype subscript = Slice mp_obj_slice_t | Index mp_obj_t

definition list_load :: "memory \<Rightarrow> py_env \<Rightarrow> mp_obj_list_t \<Rightarrow> subscript \<Rightarrow> (exc + mp_obj_t + mp_obj_list_t) option" where
  "list_load mem env self index =
     (case index of
        Slice s \<Rightarrow>
          (case mp_seq_get_fast_slice_indexes env (l_len self) s of
             None \<Rightarrow> None
           | Some (Inl e) \<Rightarrow> Some (Inl e)
           | Some (Inr (fast, b)) \<Rightarrow>
               if \<not> fast then map_option (map_sum id Inr) (mp_seq_extract_slice mem (take (l_len self) (l_items self)) b)
               else (case list_new mem (nat (stop b - start b)) of
                   None \<Rightarrow> None
                 | Some (Inl e) \<Rightarrow> Some (Inl e)
                 | Some (Inr res) \<Rightarrow> do {
                     src \<leftarrow> slice (l_items self) (nat (start b)) (l_len res);
                     items \<leftarrow> blit (l_items res) 0 src;
                     Some (Inr (Inr (res\<lparr>l_items := items\<rparr>))) }))
      | Index i \<Rightarrow>
          (case mp_get_index env (l_len self) i False of
             Inl e \<Rightarrow> Some (Inl e)
           | Inr n \<Rightarrow> do { x \<leftarrow> rd (l_items self) n; Some (Inr (Inl x)) }))"

definition list_delete :: "memory \<Rightarrow> py_env \<Rightarrow> mp_obj_list_t \<Rightarrow> subscript \<Rightarrow> unit list_res" where
  "list_delete mem env self index =
     (case index of
        Slice s \<Rightarrow>
          (case mp_seq_get_fast_slice_indexes env (l_len self) s of
             None \<Rightarrow> None
           | Some (Inl e) \<Rightarrow> Some (Inl e, self)
           | Some (Inr (fast, b)) \<Rightarrow>
               if \<not> fast then Some (Inl NotImplementedError, self)
               else do {
                 items \<leftarrow> mp_seq_replace_slice_no_grow (l_items self) (l_len self) (nat (start b)) (nat (stop b)) [];
                 items \<leftarrow> mp_seq_clear items (nat (int (l_len self) + (start b - stop b))) (l_len self);
                 Some (Inr (), self\<lparr>l_items := items, l_len := nat (int (l_len self) + (start b - stop b))\<rparr>) })
      | Index i \<Rightarrow> do { (r, self) \<leftarrow> list_pop mem env self (Some i); Some (map_sum id (\<lambda>x. ()) r, self) })"

text \<open>
  The value of an assignment to a slice is an array of items: those of the list itself, those of
  another list or tuple, or not an array.  The items of the list itself are read where they are at
  that moment, and not at all after the list has moved.
\<close>

datatype slice_value = OwnItems | ItemsOf "mp_obj_t list" | NoArray

definition value_items :: "slice_value \<Rightarrow> bool \<Rightarrow> nat \<Rightarrow> mp_obj_t list \<Rightarrow> mp_obj_t list option" where
  "value_items value moved value_len items =
     (case value of OwnItems \<Rightarrow> if moved then None else slice items 0 value_len | ItemsOf v \<Rightarrow> Some v | NoArray \<Rightarrow> None)"

definition list_store_slice :: "memory \<Rightarrow> py_env \<Rightarrow> mp_obj_list_t \<Rightarrow> mp_obj_slice_t \<Rightarrow> slice_value \<Rightarrow> unit list_res" where
  "list_store_slice mem env self s value =
     (if value = NoArray then Some (Inl TypeError, self)
      else
       let value_len = (case value of ItemsOf v \<Rightarrow> length v | _ \<Rightarrow> l_len self)
       in (case mp_seq_get_fast_slice_indexes env (l_len self) s of
           None \<Rightarrow> None
         | Some (Inl e) \<Rightarrow> Some (Inl e, self)
         | Some (Inr (fast, b)) \<Rightarrow>
             if \<not> fast then Some (Inl NotImplementedError, self)
             else
              let len_adj = int value_len - (stop b - start b); new_len = nat (int (l_len self) + len_adj);
                  beg = nat (start b)
              in if len_adj > 0 then
                 (let grown = (if new_len > l_alloc self
                    then case m_renew mem (l_items self) (l_alloc self) new_len of
                        Inl e \<Rightarrow> Inl e
                      | Inr items \<Rightarrow> Inr (renewal_of mem (l_alloc self) new_len = Moves, self\<lparr>l_items := items, l_alloc := new_len\<rparr>)
                    else Inr (False, self))
                  in case grown of
                       Inl e \<Rightarrow> Some (Inl e, self)
                     | Inr (moved, self) \<Rightarrow> do {
                         items \<leftarrow> memmove (l_items self) (beg + value_len) (nat (stop b)) (new_len - (beg + value_len));
                         v \<leftarrow> value_items value moved value_len items;
                         items \<leftarrow> blit items beg v;
                         Some (Inr (), self\<lparr>l_items := items, l_len := new_len\<rparr>) })
               else do {
                 v \<leftarrow> value_items value False value_len (l_items self);
                 items \<leftarrow> mp_seq_replace_slice_no_grow (l_items self) (l_len self) beg (nat (stop b)) v;
                 items \<leftarrow> mp_seq_clear items new_len (l_len self);
                 Some (Inr (), self\<lparr>l_items := items, l_len := new_len\<rparr>) }))"

subsection \<open>Operators\<close>

definition list_add :: "memory \<Rightarrow> mp_obj_list_t \<Rightarrow> mp_obj_list_t \<Rightarrow> (exc + mp_obj_list_t) option" where
  "list_add mem self p =
     (case list_new mem (l_len self + l_len p) of
        None \<Rightarrow> None
      | Some (Inl e) \<Rightarrow> Some (Inl e)
      | Some (Inr s) \<Rightarrow> do {
          x \<leftarrow> slice (l_items self) 0 (l_len self);
          items \<leftarrow> blit (l_items s) 0 x;
          y \<leftarrow> slice (l_items p) 0 (l_len p);
          items \<leftarrow> blit items (l_len self) y;
          Some (Inr (s\<lparr>l_items := items\<rparr>)) })"

definition list_multiply :: "memory \<Rightarrow> mp_obj_list_t \<Rightarrow> int \<Rightarrow> (exc + mp_obj_list_t) option" where
  "list_multiply mem self n =
     (let n = (if n < 0 then 0 else n)
      in case list_new mem (l_len self * nat n) of
           None \<Rightarrow> None
         | Some (Inl e) \<Rightarrow> Some (Inl e)
         | Some (Inr s) \<Rightarrow> do {
             x \<leftarrow> slice (l_items self) 0 (l_len self);
             items \<leftarrow> mp_seq_multiply x (nat n) (l_items s);
             Some (Inr (s\<lparr>l_items := items\<rparr>)) })"

definition list_compare :: "py_env \<Rightarrow> mp_binary_op_t \<Rightarrow> mp_obj_list_t \<Rightarrow> mp_obj_list_t \<Rightarrow> (exc + bool) option" where
  "list_compare env op self another = do {
     x \<leftarrow> slice (l_items self) 0 (l_len self);
     y \<leftarrow> slice (l_items another) 0 (l_len another);
     mp_seq_cmp_objs env op x y }"

definition list_len :: "mp_obj_list_t \<Rightarrow> nat" where "list_len self = l_len self"
definition list_bool :: "mp_obj_list_t \<Rightarrow> bool" where "list_bool self \<longleftrightarrow> l_len self \<noteq> 0"

subsection \<open>Well-formed lists\<close>

text \<open>
  The items fill the first cells of the array, and the others are null, so that the collector does
  not see stale pointers.
\<close>

definition list_ok :: "mp_obj_list_t \<Rightarrow> bool" where
  "list_ok l \<longleftrightarrow> length (l_items l) = l_alloc l \<and> l_len l \<le> l_alloc l \<and> 2 \<le> l_alloc l
     \<and> drop (l_len l) (l_items l) = replicate (l_alloc l - l_len l) MP_OBJ_NULL"

definition items_of :: "mp_obj_list_t \<Rightarrow> mp_obj_t list" where
  "items_of l = take (l_len l) (l_items l)"

text \<open>A list that holds exactly some items.\<close>

definition holds_items :: "mp_obj_list_t \<Rightarrow> mp_obj_t list \<Rightarrow> bool" where
  "holds_items l xs \<longleftrightarrow> list_ok l \<and> items_of l = xs"

lemma holds_items_iff: "holds_items l xs \<longleftrightarrow> l_len l = length xs \<and> length xs \<le> l_alloc l \<and> 2 \<le> l_alloc l
    \<and> l_items l = xs @ replicate (l_alloc l - length xs) MP_OBJ_NULL" (is "?a \<longleftrightarrow> ?b")
proof
  assume ?a
  then have l: "length (l_items l) = l_alloc l" "l_len l \<le> l_alloc l" "2 \<le> l_alloc l"
    "drop (l_len l) (l_items l) = replicate (l_alloc l - l_len l) MP_OBJ_NULL" "take (l_len l) (l_items l) = xs"
    by (simp_all add: holds_items_def list_ok_def items_of_def)
  then have "l_len l = length xs" by auto
  then show ?b using l append_take_drop_id [of "l_len l" "l_items l"] by simp
qed (auto simp: holds_items_def list_ok_def items_of_def)

definition shrinks :: "memory \<Rightarrow> bool" where
  "shrinks mem \<longleftrightarrow> (\<forall>old new. new \<le> max old LIST_MIN_ALLOC \<longrightarrow> renewal_of mem old new \<noteq> Fails)"

text \<open>A method ends with a result and a list of some items, or with a memory error and the list as it was.\<close>

definition runs :: "'a list_res \<Rightarrow> mp_obj_list_t \<Rightarrow> exc + 'a \<Rightarrow> mp_obj_t list \<Rightarrow> bool" where
  "runs res l r ys \<longleftrightarrow> (\<exists>l'. res = Some (r, l') \<and> holds_items l' ys) \<or> res = Some (Inl MemoryError, l)"

lemma clear_cells: "length items = n + k \<Longrightarrow> mp_seq_clear items n (n + k) = Some (take n items @ replicate k MP_OBJ_NULL)"
  by (simp add: mp_seq_clear_def blit_in)

lemma renew_grow:
  assumes "renewal_of mem old new \<noteq> Fails" and "length items \<le> new"
  obtains t where "m_renew mem items old new = Inr (items @ t)" "length t = new - length items"
  using assms by (simp add: m_renew_def)

lemma update_end: "n = length xs \<Longrightarrow> (xs @ y # r)[n := x] = xs @ x # r"
  by simp

lemma append_run:
  assumes h: "holds_items l xs"
  shows "runs (mp_obj_list_append mem l x) l (Inr ()) (xs @ [x])"
proof -
  note l = h [unfolded holds_items_iff]
  show ?thesis
  proof (cases "l_len l \<ge> l_alloc l")
    case True
    then have items: "l_items l = xs" "l_alloc l = length xs" using l by auto
    show ?thesis
    proof (cases "renewal_of mem (l_alloc l) (l_alloc l * 2) = Fails")
      case True
      then show ?thesis using \<open>l_len l \<ge> l_alloc l\<close> by (simp add: runs_def mp_obj_list_append_def m_renew_def)
    next
      case False
      obtain t where t: "m_renew mem (l_items l) (l_alloc l) (l_alloc l * 2) = Inr (xs @ t)" "length t = length xs"
        using renew_grow [OF False, of xs] items by auto
      then obtain y t' where t': "t = y # t'" using l items by (cases t) auto
      have "mp_seq_clear (xs @ t) (l_len l + 1) (l_alloc l * 2) = Some (xs @ y # replicate (length xs - 1) MP_OBJ_NULL)"
      proof -
        have two: "l_alloc l * 2 = (l_len l + 1) + (length xs - 1)" "length (xs @ t) = (l_len l + 1) + (length xs - 1)"
          using t(2) l items by auto
        show ?thesis unfolding two(1) clear_cells [OF two(2)] using l t' by simp
      qed
      then have "mp_obj_list_append mem l x
          = Some (Inr (), \<lparr>l_alloc = l_alloc l * 2, l_len = l_len l + 1, l_items = xs @ x # replicate (length xs - 1) MP_OBJ_NULL\<rparr>)"
        using \<open>l_len l \<ge> l_alloc l\<close> t(1) l items by (simp add: mp_obj_list_append_def wr_in update_end)
      then show ?thesis using l items by (auto simp: runs_def holds_items_iff)
    qed
  next
    case False
    then obtain k where k: "l_alloc l - length xs = Suc k" using l by (cases "l_alloc l - length xs") auto
    then show ?thesis using False l by (auto simp: runs_def mp_obj_list_append_def wr_in holds_items_iff)
  qed
qed

lemma extend_iter_run:
  "holds_items l xs \<Longrightarrow> runs (list_extend_from_iter mem l ys) l (Inr ()) (xs @ ys)
    \<or> (\<exists>l' zs. list_extend_from_iter mem l ys = Some (Inl MemoryError, l') \<and> zs \<noteq> [] \<and> holds_items l' (xs @ zs) \<and> (\<exists>rest. ys = zs @ rest))"
proof (induction ys arbitrary: l xs)
  case Nil
  then show ?case by (simp add: runs_def)
next
  case (Cons y ys)
  show ?case
  proof (cases "mp_obj_list_append mem l y = Some (Inl MemoryError, l)")
    case True
    then show ?thesis by (simp add: runs_def)
  next
    case False
    then obtain l1 where l1: "mp_obj_list_append mem l y = Some (Inr (), l1)" "holds_items l1 (xs @ [y])"
      using append_run [OF Cons(2), of mem y] by (auto simp: runs_def)
    have e: "list_extend_from_iter mem l (y # ys) = list_extend_from_iter mem l1 ys" using l1(1) by simp
    from Cons(1) [OF l1(2), of] show ?thesis
    proof
      assume "runs (list_extend_from_iter mem l1 ys) l1 (Inr ()) ((xs @ [y]) @ ys)"
      then show ?thesis unfolding e runs_def
        using l1(2) by (elim disjE exE conjE) (auto intro: exI [of _ "[y]"])
    next
      assume "\<exists>l' zs. list_extend_from_iter mem l1 ys = Some (Inl MemoryError, l') \<and> zs \<noteq> [] \<and> holds_items l' ((xs @ [y]) @ zs)
        \<and> (\<exists>rest. ys = zs @ rest)"
      then obtain l' zs rest where "list_extend_from_iter mem l1 ys = Some (Inl MemoryError, l')" "holds_items l' ((xs @ [y]) @ zs)" "ys = zs @ rest"
        by blast
      then show ?thesis unfolding e by (intro disjI2 exI [of _ l'] exI [of _ "y # zs"]) auto
    qed
  qed
qed

lemma extend_run:
  assumes h: "holds_items l xs" and a: "arg = Itself \<and> ys = xs \<or> (\<exists>p. arg = AnotherList p \<and> holds_items p ys)"
  shows "runs (list_extend mem l arg) l (Inr ()) (xs @ ys)"
proof -
  note l = h [unfolded holds_items_iff]
  let ?n = "length xs + length ys"
  have len: "(case arg of AnotherList p \<Rightarrow> l_len p | _ \<Rightarrow> l_len l) = length ys"
    using a l by (auto simp: holds_items_iff)
  have src: "slice (case arg of AnotherList p \<Rightarrow> l_items p | _ \<Rightarrow> l_items s) 0 (length ys) = Some ys"
    if "l_items s = xs @ t" for s :: mp_obj_list_t and t
    using a that by (auto simp: holds_items_iff slice_def)
  have iter: "arg \<noteq> Iterable zs" for zs using a by auto
  have run: "list_extend mem l arg = (let grown = (if ?n > l_alloc l then
        (case m_renew mem (l_items l) (l_alloc l) (?n + 4) of
           Inl e \<Rightarrow> Some (Inl e)
         | Inr items \<Rightarrow> map_option (\<lambda>items. Inr (l\<lparr>l_items := items, l_alloc := ?n + 4\<rparr>)) (mp_seq_clear items ?n (?n + 4)))
        else Some (Inr l))
      in (case grown of None \<Rightarrow> None | Some (Inl e) \<Rightarrow> Some (Inl e, l) | Some (Inr self) \<Rightarrow> do {
            src \<leftarrow> slice (case arg of AnotherList arg \<Rightarrow> l_items arg | _ \<Rightarrow> l_items self) 0 (length ys);
            items \<leftarrow> blit (l_items self) (l_len self) src;
            Some (Inr (), self\<lparr>l_items := items, l_len := l_len self + length ys\<rparr>) }))"
  proof -
    have n: "l_len l = length xs" using l by simp
    show ?thesis
    proof (cases arg)
      case Itself
      then have "ys = xs" using a by auto
      then show ?thesis by (simp only: list_extend_def Itself list_arg.case Let_def n)
    next
      case (AnotherList p)
      then have "l_len p = length ys" using a by (auto simp: holds_items_iff)
      then show ?thesis by (simp only: list_extend_def AnotherList list_arg.case Let_def n)
    qed (use iter in simp)
  qed
  show ?thesis
  proof (cases "?n > l_alloc l")
    case True
    show ?thesis
    proof (cases "renewal_of mem (l_alloc l) (?n + 4) = Fails")
      case True
      then show ?thesis using \<open>?n > l_alloc l\<close> by (simp add: runs_def run m_renew_def)
    next
      case False
      obtain t where t: "m_renew mem (l_items l) (l_alloc l) (?n + 4) = Inr (l_items l @ t)" "length t = ?n + 4 - length (l_items l)"
        using renew_grow [OF False, of "l_items l"] l True by auto
      let ?all = "l_items l @ t"
      have "length ?all = ?n + 4" using t(2) l True by simp
      then have c: "mp_seq_clear ?all ?n (?n + 4) = Some (take ?n ?all @ replicate 4 MP_OBJ_NULL)" by (rule clear_cells)
      have "\<exists>u. take ?n ?all = xs @ u \<and> length u = length ys"
        using l t(2) True \<open>length ?all = ?n + 4\<close> by (auto simp: take_append)
      then obtain all u where r: "m_renew mem (l_items l) (l_alloc l) (?n + 4) = Inr all"
        "mp_seq_clear all ?n (?n + 4) = Some ((xs @ u) @ replicate 4 MP_OBJ_NULL)" "length u = length ys"
        using t(1) c by metis
      let ?l = "l\<lparr>l_items := xs @ u @ replicate 4 MP_OBJ_NULL, l_alloc := ?n + 4\<rparr>"
      have "slice (case arg of AnotherList p \<Rightarrow> l_items p | _ \<Rightarrow> l_items ?l) 0 (length ys) = Some ys" by (rule src) simp
      then have "list_extend mem l arg = Some (Inr (), ?l\<lparr>l_items := (xs @ ys) @ replicate 4 MP_OBJ_NULL, l_len := ?n\<rparr>)"
        unfolding run Let_def using True r l by (simp add: blit_in)
      then show ?thesis by (simp add: runs_def holds_items_iff)
    qed
  next
    case False
    then show ?thesis
      using src [of l] l by (auto simp: runs_def run blit_def holds_items_iff)
  qed
qed

subsection \<open>Methods on the items\<close>

definition py_index :: "nat \<Rightarrow> int \<Rightarrow> nat option" where
  "py_index n i = (let j = (if i < 0 then i + int n else i) in if 0 \<le> j \<and> j < int n then Some (nat j) else None)"

lemma py_index_in: "py_index n i = Some j \<Longrightarrow> j < n"
  by (auto simp: py_index_def Let_def split: if_splits)

lemma get_index_run: "mp_get_index env n obj False = (case index_int env obj of None \<Rightarrow> Inl TypeError
    | Some i \<Rightarrow> (case py_index n i of None \<Rightarrow> Inl IndexError | Some j \<Rightarrow> Inr j))"
  by (auto simp: mp_get_index_def py_index_def Let_def split: option.splits)

lemma small_int_index: "i < 2 ^ 30 \<Longrightarrow> index_int env (MP_OBJ_NEW_SMALL_INT (of_nat i)) = Some (int i)"
proof -
  assume i: "i < 2 ^ 30"
  then have z: "\<not> bit (of_nat i :: u32) k" if "30 \<le> k" for k
  proof -
    have "take_bit 30 i = i" using i by (simp add: take_bit_nat_eq_self)
    then have "\<not> bit i k" using that by (metis bit_take_bit_iff not_le)
    then show ?thesis by (simp add: bit_of_nat_iff)
  qed
  then have "MP_OBJ_SMALL_INT_VALUE (MP_OBJ_NEW_SMALL_INT (of_nat i)) = of_nat i" by (intro small_int_back) simp
  moreover have "sint (of_nat i :: u32) = int i" using i by (simp add: signed_of_nat signed_take_bit_int_eq_self)
  ultimately show ?thesis by (simp add: index_int_def small_int_is)
qed

lemma minus_one_index: "index_int env (MP_OBJ_NEW_SMALL_INT (- 1)) = Some (- 1)"
proof -
  have "MP_OBJ_SMALL_INT_VALUE (MP_OBJ_NEW_SMALL_INT (- 1)) = - 1" by (rule small_int_back) simp
  then show ?thesis by (simp add: index_int_def small_int_is)
qed

definition py_pop :: "py_env \<Rightarrow> mp_obj_t list \<Rightarrow> mp_obj_t option \<Rightarrow> (exc + mp_obj_t) \<times> mp_obj_t list" where
  "py_pop env xs arg =
     (if xs = [] then (Inl IndexError, xs)
      else case (case arg of None \<Rightarrow> Some (- 1) | Some i \<Rightarrow> index_int env i) of
        None \<Rightarrow> (Inl TypeError, xs)
      | Some i \<Rightarrow> (case py_index (length xs) i of
          None \<Rightarrow> (Inl IndexError, xs) | Some j \<Rightarrow> (Inr (xs ! j), take j xs @ drop (Suc j) xs)))"

lemma take_cells: "length ys \<le> n \<Longrightarrow> n \<le> length ys + k \<Longrightarrow> take n (ys @ replicate k x) = ys @ replicate (n - length ys) x"
  by (simp add: min_absorb1)

lemma remove_cell:
  assumes j: "j < length xs"
  shows "(do { items \<leftarrow> memmove (xs @ t) j (j + 1) (length xs - 1 - j); wr items (length xs - 1) MP_OBJ_NULL })
    = Some ((take j xs @ drop (Suc j) xs) @ MP_OBJ_NULL # t)"
proof -
  have "take (length xs - 1 - j) (drop (j + 1) (xs @ t)) = drop (Suc j) xs" using j by simp
  moreover have "drop (length xs - 1) (xs @ t) = last xs # t"
    using j by (cases xs rule: rev_cases) simp_all
  ultimately have "memmove (xs @ t) j (j + 1) (length xs - 1 - j) = Some ((take j xs @ drop (Suc j) xs) @ last xs # t)"
    using j by (simp add: memmove_def slice_in blit_in)
  moreover have "((take j xs @ drop (Suc j) xs) @ last xs # t)[length xs - 1 := MP_OBJ_NULL] = (take j xs @ drop (Suc j) xs) @ MP_OBJ_NULL # t"
    using j by (intro update_end) simp
  ultimately show ?thesis using j by (simp add: wr_in)
qed

lemma pop_run:
  assumes h: "holds_items l xs" and sh: "shrinks mem"
  shows "\<exists>l'. list_pop mem env l arg = Some (fst (py_pop env xs arg), l') \<and> holds_items l' (snd (py_pop env xs arg))"
proof -
  note l = h [unfolded holds_items_iff]
  have idx: "index_int env (case arg of None \<Rightarrow> MP_OBJ_NEW_SMALL_INT (- 1) | Some i \<Rightarrow> i)
      = (case arg of None \<Rightarrow> Some (- 1) | Some i \<Rightarrow> index_int env i)"
    by (cases arg) (simp_all add: minus_one_index)
  show ?thesis
  proof (cases "xs = []")
    case True
    then show ?thesis using h l by (simp add: list_pop_def py_pop_def)
  next
    case ne: False
    show ?thesis
    proof (cases "case arg of None \<Rightarrow> Some (- 1) | Some i \<Rightarrow> index_int env i")
      case None
      then show ?thesis using h l ne by (simp add: list_pop_def py_pop_def get_index_run idx)
    next
      case i: (Some i)
      show ?thesis
      proof (cases "py_index (length xs) i")
        case None
        then show ?thesis using h l ne i by (simp add: list_pop_def py_pop_def get_index_run idx)
      next
        case j: (Some j)
        have jl: "j < length xs" using py_index_in [OF j] .
        let ?k = "l_alloc l - length xs" and ?ys = "take j xs @ drop (Suc j) xs"
        let ?items = "?ys @ MP_OBJ_NULL # replicate ?k MP_OBJ_NULL"
        let ?l = "l\<lparr>l_len := length xs - 1, l_items := ?items\<rparr>"
        have P: "fst (py_pop env xs arg) = Inr (xs ! j)" "snd (py_pop env xs arg) = ?ys"
          using ne i j by (simp_all add: py_pop_def)
        have r: "rd (l_items l) j = Some (xs ! j)" using l jl by (simp add: rd_in nth_append)
        have g: "mp_get_index env (length xs) (case arg of None \<Rightarrow> MP_OBJ_NEW_SMALL_INT (- 1) | Some i \<Rightarrow> i) False = Inr j"
          using i j by (simp add: get_index_run idx)
        have m: "(do { items \<leftarrow> memmove (l_items l) j (j + 1) (length xs - 1 - j); wr items (length xs - 1) MP_OBJ_NULL }) = Some ?items"
          using remove_cell [OF jl] l by simp
        then obtain mid where mid: "memmove (l_items l) j (j + 1) (length xs - 1 - j) = Some mid" "wr mid (length xs - 1) MP_OBJ_NULL = Some ?items"
          by (cases "memmove (l_items l) j (j + 1) (length xs - 1 - j)") auto
        have ly: "length ?ys = length xs - 1" using jl by simp
        have run: "list_pop mem env l arg = (if l_alloc ?l > LIST_MIN_ALLOC \<and> l_alloc ?l > 2 * (length xs - 1)
            then (case m_renew mem ?items (l_alloc ?l) (l_alloc ?l div 2) of
                Inl e \<Rightarrow> Some (Inl e, ?l)
              | Inr items \<Rightarrow> Some (Inr (xs ! j), ?l\<lparr>l_items := items, l_alloc := l_alloc ?l div 2\<rparr>))
            else Some (Inr (xs ! j), ?l))"
        proof -
          have n: "l_len l = length xs" using l by simp
          have z: "(length xs = 0) = False" using ne by simp
          show ?thesis by (simp only: list_pop_def n z if_False g Let_def sum.case Option.bind.simps r mid)
        qed
        show ?thesis
        proof (cases "l_alloc l > LIST_MIN_ALLOC \<and> l_alloc l > 2 * (length xs - 1)")
          case True
          have nf: "renewal_of mem (l_alloc l) (l_alloc l div 2) \<noteq> Fails"
            using sh by (auto simp: shrinks_def)
          have cells: "?items = ?ys @ replicate (Suc ?k) MP_OBJ_NULL" by simp
          have len: "length ?items = l_alloc l" using jl l ly by simp
          have half: "length ?ys \<le> l_alloc l div 2" unfolding ly using True by linarith
          have "take (l_alloc l div 2) ?items = ?ys @ replicate (l_alloc l div 2 - length ?ys) MP_OBJ_NULL"
            unfolding cells by (rule take_cells) (use half len [unfolded cells] in simp_all)
          then have "m_renew mem ?items (l_alloc l) (l_alloc l div 2) = Inr (?ys @ replicate (l_alloc l div 2 - length ?ys) MP_OBJ_NULL)"
            using nf len by (simp add: m_renew_def)
          then show ?thesis using run True P ly half by (auto simp: holds_items_iff LIST_MIN_ALLOC_def)
        next
          case False
          then show ?thesis using run P l jl ly by (auto simp: holds_items_iff Suc_diff_le)
        qed
      qed
    qed
  qed
qed

text \<open>The shift of \<open>insert\<close>.\<close>

lemma shift_run:
  "j \<le> n \<Longrightarrow> n < length a \<Longrightarrow> foldM (\<lambda>i items. do { x \<leftarrow> rd items (i - 1); wr items i x }) (rev [j + 1..<n + 1]) a
    = Some (map (\<lambda>k. if j < k \<and> k \<le> n then a ! (k - 1) else a ! k) [0..<length a])"
proof (induction n arbitrary: a)
  case 0
  have "map (\<lambda>k. if j < k \<and> k \<le> 0 then a ! (k - 1) else a ! k) [0..<length a] = a" by (rule nth_equalityI) auto
  then show ?case using 0 by simp
next
  case (Suc n)
  show ?case
  proof (cases "j = Suc n")
    case True
    have "map (\<lambda>k. if j < k \<and> k \<le> Suc n then a ! (k - 1) else a ! k) [0..<length a] = map (\<lambda>k. a ! k) [0..<length a]"
      using True by (intro map_cong) auto
    then show ?thesis using True by (simp add: map_nth)
  next
    case False
    then have j: "j \<le> n" using Suc.prems by simp
    let ?a = "a[Suc n := a ! n]"
    have "rev [j + 1..<Suc n + 1] = Suc n # rev [j + 1..<n + 1]" using j by simp
    moreover have "foldM (\<lambda>i items. do { x \<leftarrow> rd items (i - 1); wr items i x }) (rev [j + 1..<n + 1]) ?a
        = Some (map (\<lambda>k. if j < k \<and> k \<le> n then ?a ! (k - 1) else ?a ! k) [0..<length ?a])"
      using Suc.prems by (intro Suc.IH j) simp
    moreover have "map (\<lambda>k. if j < k \<and> k \<le> n then ?a ! (k - 1) else ?a ! k) [0..<length ?a]
        = map (\<lambda>k. if j < k \<and> k \<le> Suc n then a ! (k - 1) else a ! k) [0..<length a]"
      using j Suc.prems by (auto simp: le_Suc_eq nth_list_update)
    ultimately show ?thesis using Suc.prems by (simp add: rd_in wr_in)
  qed
qed

lemma shifted_cells:
  assumes m: "m \<le> length xs"
  shows "(map (\<lambda>k. if m < k \<and> k \<le> length xs then (xs @ y # t) ! (k - 1) else (xs @ y # t) ! k) [0..<length (xs @ y # t)])[m := x]
    = take m xs @ x # drop m xs @ t" (is "?f[m := x] = ?r")
proof (rule nth_equalityI)
  fix k assume "k < length (?f[m := x])"
  then have k: "k < length (xs @ y # t)" by simp
  then have f: "?f[m := x] ! k = (if k = m then x else if m < k \<and> k \<le> length xs then (xs @ y # t) ! (k - 1) else (xs @ y # t) ! k)"
    by (simp add: nth_list_update del: upt_Suc)
  consider "k < m" | "k = m" | "m < k" "k \<le> length xs" | "length xs < k" by linarith
  then show "?f[m := x] ! k = ?r ! k" unfolding f
  proof cases
    case 3
    then obtain q where q: "k = Suc q" "m \<le> q" "q < length xs" by (cases k) auto
    then have "q - m < length (drop m xs)" "drop m xs ! (q - m) = xs ! q" by auto
    then show "(if k = m then x else if m < k \<and> k \<le> length xs then (xs @ y # t) ! (k - 1) else (xs @ y # t) ! k) = ?r ! k"
      using q m by (simp add: nth_append Suc_diff_le)
  next
    case 4
    then obtain q where q: "k = Suc q" "length xs \<le> q" by (cases k) auto
    then have "\<not> q - m < length xs - m" "q - m - (length xs - m) = q - length xs" using m by auto
    then show "(if k = m then x else if m < k \<and> k \<le> length xs then (xs @ y # t) ! (k - 1) else (xs @ y # t) ! k) = ?r ! k"
      using q m by (simp add: nth_append Suc_diff_le)
  qed (use m k in \<open>simp_all add: nth_append\<close>)
qed (use m in simp)

definition py_insert :: "mp_obj_t list \<Rightarrow> int \<Rightarrow> mp_obj_t \<Rightarrow> mp_obj_t list" where
  "py_insert xs i x = (let j = nat (min (int (length xs)) (max 0 (if i < 0 then i + int (length xs) else i)))
     in take j xs @ x # drop j xs)"

lemma insert_run:
  assumes h: "holds_items l xs"
  shows "runs (list_insert mem env l idx x) l (Inr ()) (py_insert xs (sint (MP_OBJ_SMALL_INT_VALUE idx)) x)"
proof -
  let ?i = "sint (MP_OBJ_SMALL_INT_VALUE idx)" and ?n = "length xs"
  define j where "j = nat (min (int ?n) (max 0 (if ?i < 0 then ?i + int ?n else ?i)))"
  have n: "l_len l = ?n" using h by (simp add: holds_items_iff)
  have run: "list_insert mem env l idx x = (case mp_obj_list_append mem l (mp_const_none env) of
      None \<Rightarrow> None
    | Some (Inl e, self) \<Rightarrow> Some (Inl e, self)
    | Some (Inr u, self) \<Rightarrow> do {
        items \<leftarrow> foldM (\<lambda>i items. do { x \<leftarrow> rd items (i - 1); wr items i x }) (rev [j + 1..<l_len self]) (l_items self);
        items \<leftarrow> wr items j x;
        Some (Inr (), self\<lparr>l_items := items\<rparr>) })"
  proof -
    have "(let index = ?i; index = (if index < 0 then index + int (l_len l) else index);
          index = (if index < 0 then 0 else index); index = (if index > int (l_len l) then int (l_len l) else index)
        in nat index) = j"
      unfolding n Let_def j_def by (simp add: min_def max_def) linarith?
    note j = this [unfolded Let_def]
    show ?thesis by (simp only: list_insert_def Let_def j)
  qed
  show ?thesis
  proof (cases "mp_obj_list_append mem l (mp_const_none env) = Some (Inl MemoryError, l)")
    case True
    then show ?thesis by (simp add: run runs_def)
  next
    case False
    then obtain l1 where l1: "mp_obj_list_append mem l (mp_const_none env) = Some (Inr (), l1)" "holds_items l1 (xs @ [mp_const_none env])"
      using append_run [OF h, of mem "mp_const_none env"] by (auto simp: runs_def)
    define t where "t = replicate (l_alloc l1 - Suc ?n) MP_OBJ_NULL"
    let ?a = "xs @ mp_const_none env # t"
    have a: "l_items l1 = ?a" "l_len l1 = ?n + 1" "Suc ?n \<le> l_alloc l1" "2 \<le> l_alloc l1" using l1(2) by (auto simp: holds_items_iff t_def)
    have jn: "j \<le> ?n" by (simp add: j_def)
    let ?f = "map (\<lambda>k. if j < k \<and> k \<le> ?n then ?a ! (k - 1) else ?a ! k) [0..<length ?a]"
    have s: "foldM (\<lambda>i items. do { x \<leftarrow> rd items (i - 1); wr items i x }) (rev [j + 1..<l_len l1]) (l_items l1) = Some ?f"
      unfolding a using jn by (intro shift_run) simp_all
    have w: "wr ?f j x = Some (take j xs @ x # drop j xs @ t)"
      using jn shifted_cells [OF jn, of "mp_const_none env" t x] by (simp add: wr_in del: upt_Suc)
    have "list_insert mem env l idx x = Some (Inr (), l1\<lparr>l_items := take j xs @ x # drop j xs @ t\<rparr>)"
      by (simp only: run l1(1) option.case prod.case sum.case s w Option.bind.simps)
    moreover have "holds_items (l1\<lparr>l_items := take j xs @ x # drop j xs @ t\<rparr>) (take j xs @ x # drop j xs)"
      using a jn by (simp add: holds_items_iff t_def)
    ultimately show ?thesis by (auto simp: runs_def py_insert_def Let_def j_def)
  qed
qed

lemma list_clear_run:
  assumes h: "holds_items l xs" and sh: "shrinks mem"
  shows "\<exists>l'. list_clear mem l = Some (Inr (), l') \<and> holds_items l' []"
proof -
  have "renewal_of mem (l_alloc l) LIST_MIN_ALLOC \<noteq> Fails" using sh by (simp add: shrinks_def)
  then obtain items where "m_renew mem (l_items l) (l_alloc l) LIST_MIN_ALLOC = Inr items" "length items = LIST_MIN_ALLOC"
    using h by (auto simp: m_renew_def holds_items_iff)
  then show ?thesis
    using clear_cells [of items 0 LIST_MIN_ALLOC] by (simp add: list_clear_def holds_items_iff LIST_MIN_ALLOC_def)
qed

definition py_store :: "py_env \<Rightarrow> mp_obj_t list \<Rightarrow> mp_obj_t \<Rightarrow> mp_obj_t \<Rightarrow> (exc + unit) \<times> mp_obj_t list" where
  "py_store env xs index x = (case index_int env index of
     None \<Rightarrow> (Inl TypeError, xs)
   | Some i \<Rightarrow> (case py_index (length xs) i of None \<Rightarrow> (Inl IndexError, xs) | Some j \<Rightarrow> (Inr (), xs[j := x])))"

lemma list_store_run:
  assumes h: "holds_items l xs"
  shows "\<exists>l'. mp_obj_list_store env l index x = Some (fst (py_store env xs index x), l') \<and> holds_items l' (snd (py_store env xs index x))"
proof (cases "index_int env index")
  case (Some i)
  then show ?thesis
    using h py_index_in [of "length xs" i]
    by (cases "py_index (length xs) i")
      (auto simp: mp_obj_list_store_def py_store_def get_index_run holds_items_iff wr_in list_update_append)
qed (use h in \<open>simp add: mp_obj_list_store_def py_store_def get_index_run\<close>)

text \<open>Searching.\<close>

definition py_find :: "py_env \<Rightarrow> mp_obj_t list \<Rightarrow> mp_obj_t \<Rightarrow> nat option" where
  "py_find env xs value = (let j = length (takeWhile (\<lambda>x. \<not> obj_equal_to env x value) xs) in if j < length xs then Some j else None)"

lemma index_from_Suc: "index_from env (x # xs) value (map Suc is) = map_option (map_sum id Suc) (index_from env xs value is)"
  by (induction "is") (simp_all add: rd_def)

lemma index_from_run: "index_from env xs value [0..<length xs]
    = Some (case py_find env xs value of None \<Rightarrow> Inl ValueError | Some j \<Rightarrow> Inr j)"
proof (induction xs)
  case Nil
  then show ?case by (simp add: py_find_def)
next
  case (Cons x xs)
  have "index_from env (x # xs) value [0..<length (x # xs)]
      = (if obj_equal_to env x value then Some (Inr 0) else map_option (map_sum id Suc) (index_from env xs value [0..<length xs]))"
    by (simp only: length_Cons upt_Suc_map index_from.simps index_from_Suc) (simp add: rd_def)
  then show ?case using Cons by (auto simp: py_find_def Let_def)
qed

lemma index_run:
  "holds_items l xs \<Longrightarrow> list_index env l value [] = Some (case py_find env xs value of None \<Rightarrow> Inl ValueError | Some j \<Rightarrow> Inr j)"
  using index_from_run [of env xs "value"] by (simp add: list_index_def holds_items_iff slice_def mp_seq_index_obj_def)

definition py_remove :: "py_env \<Rightarrow> mp_obj_t list \<Rightarrow> mp_obj_t \<Rightarrow> (exc + unit) \<times> mp_obj_t list" where
  "py_remove env xs value = (case py_find env xs value of
     None \<Rightarrow> (Inl ValueError, xs) | Some j \<Rightarrow> (Inr (), take j xs @ drop (Suc j) xs))"

lemma list_remove_run:
  assumes h: "holds_items l xs" and sh: "shrinks mem" and n: "length xs < 2 ^ 30"
  shows "\<exists>l'. mp_obj_list_remove mem env l value = Some (fst (py_remove env xs value), l') \<and> holds_items l' (snd (py_remove env xs value))"
proof (cases "py_find env xs value")
  case None
  then show ?thesis using h by (simp add: mp_obj_list_remove_def index_run py_remove_def)
next
  case (Some j)
  then have j: "j < length xs" by (auto simp: py_find_def Let_def split: if_splits)
  have "py_pop env xs (Some (MP_OBJ_NEW_SMALL_INT (of_nat j))) = (Inr (xs ! j), take j xs @ drop (Suc j) xs)"
    using j n by (auto simp: py_pop_def small_int_index py_index_def)
  then obtain l' where "list_pop mem env l (Some (MP_OBJ_NEW_SMALL_INT (of_nat j))) = Some (Inr (xs ! j), l')"
    "holds_items l' (take j xs @ drop (Suc j) xs)"
    using pop_run [OF h sh, of env "Some (MP_OBJ_NEW_SMALL_INT (of_nat j))"] by auto
  then show ?thesis using h Some by (simp add: mp_obj_list_remove_def index_run py_remove_def)
qed

lemma reverse_run:
  assumes h: "holds_items l xs"
  shows "\<exists>l'. list_reverse l = Some l' \<and> holds_items l' (rev xs)"
proof -
  let ?n = "length xs"
  define t where "t = replicate (l_alloc l - ?n) MP_OBJ_NULL"
  have l: "l_len l = ?n" "l_items l = xs @ t" using h by (simp_all add: holds_items_iff t_def)
  define swapped where "swapped i = map (\<lambda>k. if k < i \<or> ?n - 1 - k < i then xs ! (?n - 1 - k) else xs ! k) [0..<?n]" for i
  have len: "length (swapped i) = ?n" for i by (simp add: swapped_def)
  have at: "swapped i ! k = (if k < i \<or> ?n - 1 - k < i then xs ! (?n - 1 - k) else xs ! k)" if "k < ?n" for i k
    using that by (simp add: swapped_def)
  have "\<exists>a. for_upto 0 (l_len l div 2) (\<lambda>i items. do {
       a \<leftarrow> rd items i;
       b \<leftarrow> rd items (l_len l - i - 1);
       items \<leftarrow> wr items i b;
       wr items (l_len l - i - 1) a }) (l_items l) = Some a \<and> a = swapped (l_len l div 2) @ t"
  proof (rule for_upto_rule)
    have "swapped 0 = xs" by (rule nth_equalityI) (simp_all add: len at)
    then show "l_items l = swapped 0 @ t" by (simp add: l)
  next
    fix i a assume i: "i < l_len l div 2" and a: "a = swapped i @ t"
    then have b: "i < ?n" "?n - i - 1 < ?n" "i < ?n - i - 1" using l(1) by auto
    have step: "(swapped i)[i := swapped i ! (?n - i - 1), ?n - i - 1 := swapped i ! i] = swapped (Suc i)"
    proof (rule nth_equalityI)
      fix k assume "k < length ((swapped i)[i := swapped i ! (?n - i - 1), ?n - i - 1 := swapped i ! i])"
      then have k: "k < ?n" by (simp add: len)
      consider "k = i" | "k = ?n - i - 1" | "k \<noteq> i" "k \<noteq> ?n - i - 1" by blast
      then show "(swapped i)[i := swapped i ! (?n - i - 1), ?n - i - 1 := swapped i ! i] ! k = swapped (Suc i) ! k"
        using b k by cases (auto simp: len at nth_list_update)
    qed (simp add: len)
    show "\<exists>a'. (do {
        x \<leftarrow> rd a i;
        y \<leftarrow> rd a (l_len l - i - 1);
        items \<leftarrow> wr a i y;
        wr items (l_len l - i - 1) x }) = Some a' \<and> a' = swapped (Suc i) @ t"
      using b step by (simp add: a l rd_in wr_in nth_append len list_update_append)
  qed simp
  moreover have "swapped (?n div 2) = rev xs"
  proof (rule nth_equalityI)
    fix k assume "k < length (swapped (?n div 2))"
    then have k: "k < ?n" by (simp add: len)
    show "swapped (?n div 2) ! k = rev xs ! k"
    proof (cases "k < ?n div 2 \<or> ?n - 1 - k < ?n div 2")
      case False
      then have "?n - 1 - k = k" using k by auto
      then show ?thesis using k False by (simp add: at rev_nth)
    qed (use k in \<open>simp add: at rev_nth\<close>)
  qed (simp add: len)
  ultimately show ?thesis using h by (simp add: list_reverse_def l holds_items_iff t_def)
qed

subsection \<open>New lists\<close>

lemma list_new_run:
  "list_new mem n = Some (Inl MemoryError) \<or> (\<exists>l t. list_new mem n = Some (Inr l) \<and> l_len l = n \<and> l_alloc l = max n LIST_MIN_ALLOC
    \<and> l_items l = t @ replicate (l_alloc l - n) MP_OBJ_NULL \<and> length t = n)"
proof -
  define a where "a = (if n < LIST_MIN_ALLOC then LIST_MIN_ALLOC else n)"
  have a: "a = n + (a - n)" "a = max n LIST_MIN_ALLOC" by (auto simp: a_def)
  have "mp_seq_clear (map (junk mem) [0..<a]) n a = Some (take n (map (junk mem) [0..<a]) @ replicate (a - n) MP_OBJ_NULL)"
    using clear_cells [of "map (junk mem) [0..<a]" n "a - n"] a(1) by simp
  then show ?thesis
    using a(2) by (cases "can_new mem a") (auto simp: list_new_def mp_obj_list_init_def Let_def a_def [symmetric])
qed

text \<open>A result that is a fresh list of some items, or a memory error.\<close>

definition gives_list :: "(exc + mp_obj_list_t) option \<Rightarrow> mp_obj_t list \<Rightarrow> bool" where
  "gives_list r ys \<longleftrightarrow> r = Some (Inl MemoryError) \<or> (\<exists>l. r = Some (Inr l) \<and> holds_items l ys)"

lemma blit_new:
  assumes "l_len l = length ys" "l_alloc l = max (length ys) LIST_MIN_ALLOC" "length t = length ys"
    and "l_items l = t @ replicate (l_alloc l - length ys) MP_OBJ_NULL"
  shows "blit (l_items l) 0 ys = Some (ys @ replicate (l_alloc l - length ys) MP_OBJ_NULL)
    \<and> holds_items (l\<lparr>l_items := ys @ replicate (l_alloc l - length ys) MP_OBJ_NULL\<rparr>) ys"
  using assms by (auto simp: blit_def holds_items_iff LIST_MIN_ALLOC_def)

lemma new_list_run: "gives_list (mp_obj_new_list mem ys) ys"
proof (cases "list_new mem (length ys) = Some (Inl MemoryError)")
  case True
  then show ?thesis by (simp add: mp_obj_new_list_def gives_list_def)
next
  case False
  let ?n = "length ys"
  obtain l t where l: "list_new mem ?n = Some (Inr l)" "l_len l = ?n" "l_alloc l = max ?n LIST_MIN_ALLOC"
    "l_items l = t @ replicate (l_alloc l - ?n) MP_OBJ_NULL" "length t = ?n"
    using list_new_run [of mem ?n] False by auto
  define z where "z = replicate (l_alloc l - ?n) MP_OBJ_NULL"
  have "\<exists>a. for_upto 0 ?n (\<lambda>i t. do { x \<leftarrow> rd ys i; wr t i x }) (l_items l) = Some a \<and> a = (take ?n ys @ drop ?n t) @ z"
  proof (rule for_upto_rule)
    show "l_items l = (take 0 ys @ drop 0 t) @ z" using l by (simp add: z_def)
  next
    fix i a assume i: "i < ?n" and a: "a = (take i ys @ drop i t) @ z"
    have "(take i ys @ drop i t)[i := ys ! i] = take (Suc i) ys @ drop (Suc i) t"
      using i l(5) by (simp add: list_update_append take_Suc_conv_app_nth Cons_nth_drop_Suc [symmetric])
    then show "\<exists>a'. (do { x \<leftarrow> rd ys i; wr a i x }) = Some a' \<and> a' = (take (Suc i) ys @ drop (Suc i) t) @ z"
      using i l(5) by (simp add: a rd_in wr_in list_update_append)
  qed simp
  then have "mp_obj_new_list mem ys = Some (Inr (l\<lparr>l_items := ys @ z\<rparr>))" using l by (simp add: mp_obj_new_list_def)
  moreover have "holds_items (l\<lparr>l_items := ys @ z\<rparr>) ys" using blit_new [OF l(2,3,5,4)] by (simp add: z_def)
  ultimately show ?thesis by (simp add: gives_list_def)
qed

lemma make_new_run: "gives_list (list_make_new mem (Some ys)) ys"
proof (cases "mp_obj_new_list mem [] = Some (Inl MemoryError)")
  case True
  then show ?thesis by (simp add: list_make_new_def gives_list_def)
next
  case False
  then obtain l where l: "mp_obj_new_list mem [] = Some (Inr l)" "holds_items l []"
    using new_list_run [of mem "[]"] by (auto simp: gives_list_def)
  from extend_iter_run [OF l(2), of mem ys] show ?thesis
    by (auto simp: list_make_new_def l(1) runs_def gives_list_def)
qed

lemma copy_run: "holds_items l xs \<Longrightarrow> gives_list (list_copy mem l) xs"
  using new_list_run [of mem xs] by (simp add: list_copy_def holds_items_iff slice_def)

lemma list_add_run:
  assumes "holds_items l xs" and "holds_items p ys"
  shows "gives_list (list_add mem l p) (xs @ ys)"
proof -
  have n: "l_len l = length xs" "l_len p = length ys" "slice (l_items l) 0 (length xs) = Some xs" "slice (l_items p) 0 (length ys) = Some ys"
    using assms by (simp_all add: holds_items_iff slice_def)
  show ?thesis
  proof (cases "list_new mem (length (xs @ ys)) = Some (Inl MemoryError)")
    case True
    then show ?thesis by (simp add: list_add_def n gives_list_def)
  next
    case False
    obtain s t where s: "list_new mem (length (xs @ ys)) = Some (Inr s)" "l_len s = length (xs @ ys)" "l_alloc s = max (length (xs @ ys)) LIST_MIN_ALLOC"
      "l_items s = t @ replicate (l_alloc s - length (xs @ ys)) MP_OBJ_NULL" "length t = length (xs @ ys)"
      using list_new_run [of mem "length (xs @ ys)"] False by auto
    define z where "z = replicate (l_alloc s - length (xs @ ys)) MP_OBJ_NULL"
    have b1: "blit (l_items s) 0 xs = Some ((xs @ drop (length xs) t) @ z)" using s(4,5) by (simp add: blit_def z_def)
    have b2: "blit ((xs @ drop (length xs) t) @ z) (length xs) ys = Some ((xs @ ys) @ z)" using s(5) by (simp add: blit_def)
    have "list_add mem l p = Some (Inr (s\<lparr>l_items := (xs @ ys) @ z\<rparr>))"
      using s(1) n b1 b2 by (simp add: list_add_def)
    then show ?thesis using blit_new [OF s(2,3,5,4)] by (simp add: gives_list_def z_def)
  qed
qed

text \<open>The part of a sequence that a slice of step 1 selects.\<close>

definition slice_span :: "nat \<Rightarrow> int option \<Rightarrow> int option \<Rightarrow> nat \<times> nat" where
  "slice_span n a e = (let s = (case a of None \<Rightarrow> 0 | Some i \<Rightarrow> python_bound n 1 i);
     t = (case e of None \<Rightarrow> int n | Some i \<Rightarrow> python_bound n 1 i) in (nat s, nat (max s t)))"

lemma python_bound_range: "0 \<le> python_bound n 1 i" "python_bound n 1 i \<le> int n"
  by (simp_all add: python_bound_def)

lemma slice_span_run:
  assumes n: "n < 2 ^ 31" and a: "bound_value env oa a" and e: "bound_value env oe e" and k: "step_value env ok 1"
  shows "\<exists>b. mp_seq_get_fast_slice_indexes env n (oa, oe, ok) = Some (Inr (True, b))
    \<and> start b = int (fst (slice_span n a e)) \<and> stop b = int (snd (slice_span n a e))
    \<and> fst (slice_span n a e) \<le> snd (slice_span n a e) \<and> snd (slice_span n a e) \<le> n"
proof -
  let ?a0 = "case a of None \<Rightarrow> 0 | Some i \<Rightarrow> i" and ?e0 = "case e of None \<Rightarrow> int n | Some i \<Rightarrow> i"
  let ?s = "case a of None \<Rightarrow> 0 | Some i \<Rightarrow> python_bound n 1 i" and ?t = "case e of None \<Rightarrow> int n | Some i \<Rightarrow> python_bound n 1 i"
  let ?b = "slice_bounds n 1 ?a0 ?e0"
  have "slice_step env ok = Inr 1" using k by (auto simp: slice_step_def step_value_def split: if_splits)
  moreover have "slice_start env n 1 oa = Inr ?a0" using a by (auto simp: slice_start_def bound_value_def split: if_splits)
  moreover have "slice_stop env n 1 oe = Some (Inr ?e0)"
    using e by (auto simp: slice_stop_def bound_value_def sadd_def split: if_splits)
  moreover have "step ?b = 1" by (simp add: slice_bounds_def Let_def)
  moreover have s: "start ?b = ?s" by (cases a) (auto simp: slice_bounds_def Let_def python_bound_def)
  moreover have range: "0 \<le> ?s" "?s \<le> int n" "0 \<le> ?t" "?t \<le> int n"
    by (cases a; cases e; simp add: python_bound_range)+
  moreover have "stop ?b = max ?s ?t"
  proof -
    define q where "q = (if ?e0 < 0 then (let s = int n + ?e0 in if s < 0 then - 1 else s) else if ?e0 > int n then int n else ?e0)"
    have "stop ?b = (if start ?b > q then start ?b else q)" by (simp add: slice_bounds_def Let_def q_def)
    moreover have "q = ?t \<or> q = - 1 \<and> ?t = 0" unfolding q_def by (cases e) (auto simp: python_bound_def Let_def)
    ultimately show ?thesis using s range(1) by auto
  qed
  ultimately show ?thesis
    by (auto simp: mp_seq_get_fast_slice_indexes_def Let_def slice_span_def)
qed

lemma python_slice_span: "python_slice n a e 1 = map int [fst (slice_span n a e)..<snd (slice_span n a e)]"
proof -
  have "0 \<le> (case a of None \<Rightarrow> 0 | Some i \<Rightarrow> python_bound n 1 i)" by (cases a) (simp_all add: python_bound_range)
  then show ?thesis by (auto simp: python_slice_def py_range_1 slice_span_def Let_def max_def)
qed

lemma extract_loop_run:
  "k \<noteq> 0 \<Longrightarrow> \<bar>k\<bar> < 2 ^ 30 \<Longrightarrow> length seq < 2 ^ 30 \<Longrightarrow> \<forall>x \<in> set (py_range i e k). 0 \<le> x \<and> x < int (length seq)
   \<Longrightarrow> holds_items res ys
   \<Longrightarrow> gives_list (extract_loop mem seq i (if k < 0 then e + 1 else e) k res) (ys @ map (\<lambda>x. seq ! nat x) (py_range i e k))"
proof (induction i e k arbitrary: res ys rule: py_range.induct)
  case (1 i e k)
  let ?e = "if k < 0 then e + 1 else e"
  show ?case
  proof (cases "k > 0 \<and> i < e \<or> k < 0 \<and> i > e")
    case False
    then have c: "\<not> (if k < 0 then ?e \<le> i else i < ?e)" "py_range i e k = []" using 1(2) by (auto simp: py_range.simps [of i e k])
    then have "extract_loop mem seq i ?e k res = Some (Inr res)" by (subst extract_loop.simps) simp
    then show ?thesis using 1(6) c(2) by (simp add: gives_list_def)
  next
    case True
    then have r: "py_range i e k = i # py_range (i + k) e k" by (subst py_range.simps) simp
    have i: "0 \<le> i" "i < int (length seq)" using 1(5) by (simp_all add: r)
    have c: "k < 0 \<longrightarrow> e + 1 \<le> i" "\<not> k < 0 \<longrightarrow> i < e" using True by auto
    have rd: "rd seq (nat i) = Some (seq ! nat i)" using i by (simp add: rd_in nat_less_iff)
    have add: "sadd i k = Some (i + k)" using i 1(3,4) by (auto simp: sadd_def)
    show ?thesis
    proof (cases "mp_obj_list_append mem res (seq ! nat i) = Some (Inl MemoryError, res)")
      case True
      then have "extract_loop mem seq i ?e k res = Some (Inl MemoryError)"
        using c i rd by (subst extract_loop.simps) simp
      then show ?thesis by (simp add: gives_list_def)
    next
      case False
      then obtain l1 where l1: "mp_obj_list_append mem res (seq ! nat i) = Some (Inr (), l1)" "holds_items l1 (ys @ [seq ! nat i])"
        using append_run [OF 1(6), of mem "seq ! nat i"] by (auto simp: runs_def)
      have "extract_loop mem seq i ?e k res = extract_loop mem seq (i + k) ?e k l1"
        using c i rd l1(1) add by (subst extract_loop.simps) simp
      moreover have "\<forall>x \<in> set (py_range (i + k) e k). 0 \<le> x \<and> x < int (length seq)" using 1(5) by (simp add: r)
      ultimately show ?thesis using 1(1) [OF True 1(2-4) _ l1(2)] by (simp add: r)
    qed
  qed
qed

text \<open>Loading a slice.\<close>

lemma load_slice_run:
  assumes h: "holds_items l xs" and n: "length xs < 2 ^ 30" and a: "bound_value env oa a" and e: "bound_value env oe e"
    and k: "step_value env ok k" "\<bar>k\<bar> < 2 ^ 30" and far: "k < 0 \<longrightarrow> e \<noteq> Some (2 ^ 31 - 1)"
  shows "list_load mem env l (Slice (oa, oe, ok)) = Some (Inl MemoryError)
    \<or> (\<exists>l'. list_load mem env l (Slice (oa, oe, ok)) = Some (Inr (Inr l')) \<and> holds_items l' (map (\<lambda>i. xs ! nat i) (python_slice (length xs) a e k)))"
proof -
  have l: "l_len l = length xs" "take (length xs) (l_items l) = xs" "\<exists>t. l_items l = xs @ t" using h by (auto simp: holds_items_iff)
  have k0: "k \<noteq> 0" using k(1) by (simp add: step_value_def)
  have n31: "length xs < 2 ^ 31" using n by simp
  show ?thesis
  proof (cases "k = 1")
    case True
    obtain s t where st: "slice_span (length xs) a e = (s, t)" by (cases "slice_span (length xs) a e")
    obtain b where b: "mp_seq_get_fast_slice_indexes env (length xs) (oa, oe, ok) = Some (Inr (True, b))"
      "start b = int s" "stop b = int t" "s \<le> t" "t \<le> length xs"
      using slice_span_run [OF n31 a e, of ok] k(1) True st by auto
    define ys where "ys = take (t - s) (drop s xs)"
    have ys: "map (\<lambda>i. xs ! nat i) (python_slice (length xs) a e k) = ys"
      unfolding True python_slice_span st ys_def using b(4,5) by (intro nth_equalityI) (simp_all add: comp_def)
    have ly: "t - s = length ys" using b(5) by (simp add: ys_def)
    have d: "nat (stop b - start b) = length ys" "nat (start b) = s" using b(2-4) ly by simp_all
    show ?thesis
    proof (cases "list_new mem (length ys) = Some (Inl MemoryError)")
      case True
      then show ?thesis by (simp add: list_load_def l(1) b(1) d)
    next
      case False
      obtain r u where r: "list_new mem (length ys) = Some (Inr r)" "l_len r = length ys" "l_alloc r = max (length ys) LIST_MIN_ALLOC"
        "l_items r = u @ replicate (l_alloc r - length ys) MP_OBJ_NULL" "length u = length ys"
        using list_new_run [of mem "length ys"] False by auto
      have "slice (l_items l) s (length ys) = Some ys"
        using l(3) b(4,5) ly by (auto simp: slice_def ys_def)
      then show ?thesis
        unfolding ys using r(1,2) blit_new [OF r(2,3,5,4)] by (auto simp: list_load_def l(1) b(1) d)
    qed
  next
    case False
    obtain b where b: "mp_seq_get_fast_slice_indexes env (length xs) (oa, oe, ok) = Some (Inr (False, b))" "step b = k"
      "visited b = python_slice (length xs) a e k"
      using slice_indexes_run [OF n31 a e k(1) far] False by auto
    let ?E = "if k < 0 then stop b - 1 else stop b"
    have E: "(if k < 0 then ?E + 1 else ?E) = stop b" by simp
    have V: "py_range (start b) ?E k = python_slice (length xs) a e k" using b(2,3) by (simp add: visited_def)
    show ?thesis
    proof (cases "mp_obj_new_list mem [] = Some (Inl MemoryError)")
      case True
      then show ?thesis by (simp add: list_load_def l b(1) mp_seq_extract_slice_def)
    next
      case new: False
      then obtain r where r: "mp_obj_new_list mem [] = Some (Inr r)" "holds_items r []"
        using new_list_run [of mem "[]"] by (auto simp: gives_list_def)
      have "\<forall>x \<in> set (py_range (start b) ?E k). 0 \<le> x \<and> x < int (length xs)"
        unfolding V using python_slice_in [OF k0] by blast
      from extract_loop_run [OF k0 k(2) n this r(2), of mem]
      have "gives_list (mp_seq_extract_slice mem xs b) (map (\<lambda>x. xs ! nat x) (python_slice (length xs) a e k))"
        unfolding E V by (simp add: mp_seq_extract_slice_def r(1) b(2))
      then show ?thesis by (auto simp: list_load_def l b(1) gives_list_def)
    qed
  qed
qed

text \<open>Replacing a part by at most as many items, and by more.\<close>

lemma shrink_cells:
  assumes st: "s \<le> t" "t \<le> length xs" and v: "length v \<le> t - s"
  shows "(do { items \<leftarrow> mp_seq_replace_slice_no_grow (xs @ z) (length xs) s t v;
       mp_seq_clear items (length xs - (t - s) + length v) (length xs) })
    = Some ((take s xs @ v @ drop t xs) @ replicate (t - s - length v) MP_OBJ_NULL @ z)"
proof -
  let ?n = "length xs"
  let ?m = "?n - (t - s) + length v"
  have m: "s + length v + (?n - t) = ?m" "?m \<le> ?n" "?n - ?m = t - s - length v" "s + length v \<le> t" using st v by auto
  let ?a = "take s xs @ v @ drop (s + length v) (xs @ z)"
  have b1: "blit (xs @ z) s v = Some ?a" using st v by (simp add: blit_def)
  have "take (?n - t) (drop t ?a) = drop t xs" using st v by simp
  moreover have "length ?a = ?n + length z" using st v by simp
  ultimately have "memmove ?a (s + length v) t (?n - t) = Some (take (s + length v) ?a @ drop t xs @ drop ?m ?a)"
    using st m by (simp add: memmove_def slice_in blit_in)
  moreover have "take (s + length v) ?a = take s xs @ v" using st by simp
  ultimately have "mp_seq_replace_slice_no_grow (xs @ z) ?n s t v = Some ((take s xs @ v @ drop t xs) @ drop ?m ?a)"
    using b1 by (simp add: mp_seq_replace_slice_no_grow_def)
  moreover have "mp_seq_clear ((take s xs @ v @ drop t xs) @ drop ?m ?a) ?m ?n
      = Some ((take s xs @ v @ drop t xs) @ replicate (t - s - length v) MP_OBJ_NULL @ z)"
  proof -
    have l: "length (take s xs @ v @ drop t xs) = ?m" using st m(1) by simp
    have "drop (?n - ?m) (drop ?m ?a) = z" using st v m by simp
    then show ?thesis using m l st v by (simp add: mp_seq_clear_def blit_def)
  qed
  ultimately show ?thesis by simp
qed

lemma grow_cells:
  assumes st: "s \<le> t" "t \<le> length xs" and v: "t - s < n" and A: "A = xs @ w" and len: "length xs - (t - s) + n \<le> length A"
    and src: "\<And>items. (\<exists>u. items = xs @ u) \<or> n \<noteq> length xs \<Longrightarrow> src items = Some v'" and lv: "length v' = n"
  shows "(do { items \<leftarrow> memmove A (s + n) t (length xs - (t - s) + n - (s + n)); v \<leftarrow> src items; blit items s v })
    = Some ((take s xs @ v' @ drop t xs) @ drop (length xs - (t - s) + n) A)"
proof -
  let ?k = "length xs"
  let ?m = "?k - (t - s) + n"
  have m: "?m - (s + n) = ?k - t" "s + n + (?k - t) = ?m" using st by auto
  have "take (?k - t) (drop t A) = drop t xs" using st by (simp add: A)
  then have mv: "memmove A (s + n) t (?k - t) = Some (take (s + n) A @ drop t xs @ drop ?m A)"
    using st m len by (simp add: memmove_def slice_in blit_in A)
  let ?B = "take (s + n) A @ drop t xs @ drop ?m A"
  have "?B = xs @ drop ?k (take (s + n) A) @ drop t xs @ drop ?m A" if "n = ?k"
    using that st by (simp add: A)
  then have "src ?B = Some v'" by (intro src) blast
  moreover have "blit ?B s v' = Some ((take s xs @ v' @ drop t xs) @ drop ?m A)"
  proof -
    have c: "length (take (s + n) A) = s + n" "take s (take (s + n) A) = take s xs"
      using st len m by (simp, simp add: A min_def)
    have "blit (c @ d) s v' = Some (take s xs @ v' @ d)" if "length c = s + n" "take s c = take s xs" for c d
      using that lv by (simp add: blit_def)
    from this [OF c] show ?thesis by simp
  qed
  ultimately show ?thesis unfolding m(1) using mv by simp
qed

lemma delete_slice_run:
  assumes h: "holds_items l xs" and n: "length xs < 2 ^ 31" and a: "bound_value env oa a" and e: "bound_value env oe e"
    and k: "step_value env ok 1" and st: "slice_span (length xs) a e = (s, t)"
  shows "\<exists>l'. list_delete mem env l (Slice (oa, oe, ok)) = Some (Inr (), l') \<and> holds_items l' (take s xs @ drop t xs)"
proof -
  define z where "z = replicate (l_alloc l - length xs) MP_OBJ_NULL"
  have l: "l_len l = length xs" "l_items l = xs @ z" using h by (auto simp: holds_items_iff z_def)
  obtain b where b: "mp_seq_get_fast_slice_indexes env (length xs) (oa, oe, ok) = Some (Inr (True, b))"
    "start b = int s" "stop b = int t" "s \<le> t" "t \<le> length xs"
    using slice_span_run [OF n a e k] st by auto
  have m: "nat (int (l_len l) + (start b - stop b)) = length xs - (t - s) + length ([] :: mp_obj_t list)" "nat (start b) = s" "nat (stop b) = t"
    using b l by auto
  obtain c where c: "mp_seq_replace_slice_no_grow (xs @ z) (length xs) s t [] = Some c"
    "mp_seq_clear c (length xs - (t - s) + length ([] :: mp_obj_t list)) (length xs) = Some ((take s xs @ drop t xs) @ replicate (t - s) MP_OBJ_NULL @ z)"
    using shrink_cells [OF b(4,5), of "[]" z] by (cases "mp_seq_replace_slice_no_grow (xs @ z) (length xs) s t []") auto
  have "list_delete mem env l (Slice (oa, oe, ok)) = Some (Inr (),
      l\<lparr>l_items := (take s xs @ drop t xs) @ replicate (t - s) MP_OBJ_NULL @ z, l_len := length xs - (t - s)\<rparr>)"
    using b(1) c m unfolding l by (simp add: list_delete_def l)
  moreover have "holds_items (l\<lparr>l_items := (take s xs @ drop t xs) @ replicate (t - s) MP_OBJ_NULL @ z, l_len := length xs - (t - s)\<rparr>)
      (take s xs @ drop t xs)"
    using h b(4,5) by (auto simp: holds_items_iff z_def simp flip: replicate_add)
  ultimately show ?thesis by blast
qed

end
