(* ===== verification/Py_List_Laws.thy ===== *)
theory Py_List_Laws
  imports Py_List
begin

text \<open>The code of an assignment to a slice, once the slice and the value are known.\<close>

lemma store_slice_code:
  assumes b: "mp_seq_get_fast_slice_indexes env (l_len l) sl = Some (Inr (True, b))" and v: "value \<noteq> NoArray"
    and lens: "vl = (case value of ItemsOf v \<Rightarrow> length v | _ \<Rightarrow> l_len l)" "start b = int s" "stop b = int t" "s \<le> t" "t \<le> l_len l"
  shows "list_store_slice mem env l sl value =
    (let new_len = l_len l - (t - s) + vl
     in if vl > t - s then
          (case (if new_len > l_alloc l
              then case m_renew mem (l_items l) (l_alloc l) new_len of
                  Inl e \<Rightarrow> Inl e
                | Inr items \<Rightarrow> Inr (renewal_of mem (l_alloc l) new_len = Moves, l\<lparr>l_items := items, l_alloc := new_len\<rparr>)
              else Inr (False, l)) of
             Inl e \<Rightarrow> Some (Inl e, l)
           | Inr (moved, l) \<Rightarrow> do {
               items \<leftarrow> memmove (l_items l) (s + vl) t (new_len - (s + vl));
               v \<leftarrow> value_items value moved vl items;
               items \<leftarrow> blit items s v;
               Some (Inr (), l\<lparr>l_items := items, l_len := new_len\<rparr>) })
        else do {
          v \<leftarrow> value_items value False vl (l_items l);
          items \<leftarrow> mp_seq_replace_slice_no_grow (l_items l) (l_len l) s t v;
          items \<leftarrow> mp_seq_clear items new_len (l_len l);
          Some (Inr (), l\<lparr>l_items := items, l_len := new_len\<rparr>) })"
proof -
  have n: "nat (int (l_len l) + (int vl - (int t - int s))) = l_len l - (t - s) + vl" using lens(4,5) by auto
  have g: "int vl - (int t - int s) > 0 \<longleftrightarrow> vl > t - s" using lens(4) by auto
  show ?thesis
    by (simp only: list_store_slice_def v if_False b option.case sum.case prod.case Let_def lens(1) [symmetric] lens(2,3) n g
        nat_int not_True_eq_False)
qed

lemma store_slice_run:
  assumes h: "holds_items l xs" and n: "length xs < 2 ^ 31" and a: "bound_value env oa a" and e: "bound_value env oe e"
    and k: "step_value env ok 1" and st: "slice_span (length xs) a e = (s, t)"
    and v: "value = ItemsOf v \<or> value = OwnItems \<and> v = xs \<and> (\<forall>x y. renewal_of mem x y \<noteq> Moves)"
  shows "runs (list_store_slice mem env l (oa, oe, ok) value) l (Inr ()) (take s xs @ v @ drop t xs)"
proof -
  define z where "z = replicate (l_alloc l - length xs) MP_OBJ_NULL"
  have l: "l_len l = length xs" "l_items l = xs @ z" "length xs \<le> l_alloc l" "2 \<le> l_alloc l" "length (l_items l) = l_alloc l"
    using h by (auto simp: holds_items_iff z_def)
  obtain b where b: "mp_seq_get_fast_slice_indexes env (length xs) (oa, oe, ok) = Some (Inr (True, b))"
    "start b = int s" "stop b = int t" "s \<le> t" "t \<le> length xs"
    using slice_span_run [OF n a e k] st by auto
  let ?n = "length v" and ?m = "length xs - (t - s) + length v"
  have vl: "?n = (case value of ItemsOf v \<Rightarrow> length v | _ \<Rightarrow> l_len l)" "value \<noteq> NoArray" using v l by auto
  note code = store_slice_code [OF b(1) [folded l(1)] vl(2,1) b(2-4) b(5) [folded l(1)], of mem, unfolded l(1)]
  have src: "value_items value mv ?n items = Some v" if "mv = True \<longrightarrow> value \<noteq> OwnItems" "(\<exists>u. items = xs @ u) \<or> ?n \<noteq> length xs" for mv items
    using v that by (auto simp: value_items_def slice_def)
  show ?thesis
  proof (cases "?n > t - s")
    case False
    obtain c where c: "mp_seq_replace_slice_no_grow (xs @ z) (length xs) s t v = Some c"
      "mp_seq_clear c ?m (length xs) = Some ((take s xs @ v @ drop t xs) @ replicate (t - s - ?n) MP_OBJ_NULL @ z)"
      using shrink_cells [OF b(4,5), of v z] False by (cases "mp_seq_replace_slice_no_grow (xs @ z) (length xs) s t v") auto
    have "value_items value False ?n (xs @ z) = Some v" by (rule src) auto
    then have "list_store_slice mem env l (oa, oe, ok) value = Some (Inr (),
        l\<lparr>l_items := (take s xs @ v @ drop t xs) @ replicate (t - s - ?n) MP_OBJ_NULL @ z, l_len := ?m\<rparr>)"
      unfolding code Let_def l(2) using False c by simp
    moreover have "holds_items (l\<lparr>l_items := (take s xs @ v @ drop t xs) @ replicate (t - s - ?n) MP_OBJ_NULL @ z, l_len := ?m\<rparr>)
        (take s xs @ v @ drop t xs)"
      using l False b(4,5) by (auto simp: holds_items_iff z_def simp flip: replicate_add)
    ultimately show ?thesis by (auto simp: runs_def)
  next
    case grow: True
    have fill: "list_store_slice mem env l (oa, oe, ok) value = Some (Inr (), l1\<lparr>l_items := (take s xs @ v @ drop t xs) @ drop ?m (l_items l1), l_len := ?m\<rparr>)"
      if l1: "(if ?m > l_alloc l
              then case m_renew mem (l_items l) (l_alloc l) ?m of
                  Inl e \<Rightarrow> Inl e
                | Inr items \<Rightarrow> Inr (renewal_of mem (l_alloc l) ?m = Moves, l\<lparr>l_items := items, l_alloc := ?m\<rparr>)
              else Inr (False, l)) = Inr (mv, l1)" "l_items l1 = xs @ w" "?m \<le> length (xs @ w)" "mv \<longrightarrow> value \<noteq> OwnItems" for mv l1 w
    proof -
      have "(do { items \<leftarrow> memmove (xs @ w) (s + ?n) t (?m - (s + ?n)); v \<leftarrow> value_items value mv ?n items; blit items s v })
        = Some ((take s xs @ v @ drop t xs) @ drop ?m (xs @ w))"
        using grow_cells [OF b(4,5) grow refl l1(3), of "value_items value mv ?n" v] src l1(4) by auto
      then obtain i1 v1 where "memmove (xs @ w) (s + ?n) t (?m - (s + ?n)) = Some i1" "value_items value mv ?n i1 = Some v1"
        "blit i1 s v1 = Some ((take s xs @ v @ drop t xs) @ drop ?m (xs @ w))"
        by (auto simp: bind_eq_Some_conv)
      then show ?thesis unfolding code Let_def l1(1) using grow l1(2) by simp
    qed
    show ?thesis
    proof (cases "?m > l_alloc l")
      case False
      have "?m \<le> length (xs @ z)" using False l by simp
      then have "list_store_slice mem env l (oa, oe, ok) value = Some (Inr (), l\<lparr>l_items := (take s xs @ v @ drop t xs) @ drop ?m (l_items l), l_len := ?m\<rparr>)"
        using False l(2) by (intro fill [of False l z]) simp_all
      moreover have "drop ?m (l_items l) = replicate (l_alloc l - ?m) MP_OBJ_NULL"
        using l b(4,5) grow by (simp add: z_def)
      ultimately show ?thesis using l b(4,5) grow False by (auto simp: runs_def holds_items_iff)
    next
      case True
      show ?thesis
      proof (cases "renewal_of mem (l_alloc l) ?m = Fails")
        case True
        then show ?thesis using \<open>?m > l_alloc l\<close> grow unfolding code by (simp add: runs_def m_renew_def)
      next
        case False
        obtain w where w: "m_renew mem (l_items l) (l_alloc l) ?m = Inr (l_items l @ w)" "length w = ?m - length (l_items l)"
          using renew_grow [OF False, of "l_items l"] True l(5) by auto
        let ?l = "l\<lparr>l_items := xs @ z @ w, l_alloc := ?m\<rparr>"
        have "length xs + length z = l_alloc l" using l(2,5) by simp
        moreover have "length w = ?m - l_alloc l" using w(2) l(5) by simp
        ultimately have "length xs + (length z + length w) = ?m" using True by linarith
        then have lw: "?m \<le> length (xs @ z @ w)" "drop ?m (xs @ z @ w) = []" by simp_all
        have "list_store_slice mem env l (oa, oe, ok) value = Some (Inr (), ?l\<lparr>l_items := (take s xs @ v @ drop t xs) @ drop ?m (l_items ?l), l_len := ?m\<rparr>)"
          using True w l v lw(1) by (intro fill [of "renewal_of mem (l_alloc l) ?m = Moves" ?l "z @ w"]) auto
        moreover have "drop ?m (l_items ?l) = []" using lw(2) by simp
        ultimately show ?thesis using l b(4,5) grow True by (auto simp: runs_def holds_items_iff)
      qed
    qed
  qed
qed

lemma store_own_moved:
  assumes h: "holds_items l xs" and n: "length xs < 2 ^ 31" and a: "bound_value env oa a" and e: "bound_value env oe e"
    and k: "step_value env ok 1" and st: "slice_span (length xs) a e = (s, t)"
    and grow: "l_alloc l < length xs - (t - s) + length xs" and mv: "renewal_of mem (l_alloc l) (length xs - (t - s) + length xs) = Moves"
  shows "list_store_slice mem env l (oa, oe, ok) OwnItems = None"
proof -
  have l: "l_len l = length xs" "length xs \<le> l_alloc l" using h by (auto simp: holds_items_iff)
  obtain b where b: "mp_seq_get_fast_slice_indexes env (length xs) (oa, oe, ok) = Some (Inr (True, b))"
    "start b = int s" "stop b = int t" "s \<le> t" "t \<le> length xs"
    using slice_span_run [OF n a e k] st by auto
  have vl: "length xs = (case OwnItems of ItemsOf v \<Rightarrow> length v | _ \<Rightarrow> l_len l)" "OwnItems \<noteq> NoArray" using l by auto
  have "length xs > t - s" using grow l(2) by simp
  then show ?thesis
    unfolding store_slice_code [OF b(1) [folded l(1)] vl(2,1) b(2-4) b(5) [folded l(1)], of mem, unfolded l(1)]
    using grow mv by (simp add: m_renew_def value_items_def Let_def split: Option.bind_splits)
qed

subsection \<open>Sorting lists\<close>

lemma sort_run:
  assumes h: "holds_items l xs" and q: "1 < length xs"
  shows "\<exists>r ys. mp_quicksort env kf res stack 0 (length xs - 1) xs = Some (r, ys) \<and> mset ys = mset xs
    \<and> (\<exists>l'. mp_quicksort env kf res stack 0 (length xs - 1) (l_items l) = Some (r, l') \<and> holds_items (l\<lparr>l_items := l'\<rparr>) ys)
    \<and> (\<forall>e. r = Inl e \<longrightarrow> raised env kf (set xs) e \<or> e = RuntimeError \<and> 2 ^ stack \<le> length xs)"
proof -
  define z where "z = replicate (l_alloc l - length xs) MP_OBJ_NULL"
  have l: "l_items l = xs @ z" using h by (simp add: holds_items_iff z_def)
  have tl: "length xs - 1 < length xs" using q by simp
  show ?thesis
  proof (cases stack)
    case 0
    have "holds_items (l\<lparr>l_items := l_items l\<rparr>) xs" using h by simp
    then show ?thesis using 0 q by (auto simp: mp_quicksort_def)
  next
    case (Suc n)
    obtain r ys where r: "quicksort_loop env kf res n 0 (length xs - 1) xs = Some (r, ys)" "permuted 0 (length xs - 1 + 1) xs ys"
      "\<And>e. r = Inl e \<Longrightarrow> raised env kf (set xs) e \<or> e = RuntimeError \<and> 2 ^ (n + 1) \<le> length xs - 1 + 1 - 0"
      using quicksort_run [OF tl, of env kf res n 0] by blast
    have "holds_items (l\<lparr>l_items := ys @ z\<rparr>) ys"
      using h permuted_length [OF r(2)] by (simp add: holds_items_iff z_def)
    moreover have "mset ys = mset xs" using r(2) by (simp add: permuted_def)
    moreover have "quicksort_loop env kf res n 0 (length xs - 1) (xs @ z) = Some (r, ys @ z)"
      using quicksort_frame [OF tl, of env kf res n 0 z] r(1) by simp
    moreover have "mp_quicksort env kf res stack 0 (length xs - 1) xs = Some (r, ys)" using r(1) by (simp add: mp_quicksort_def Suc)
    moreover have "mp_quicksort env kf res stack 0 (length xs - 1) (l_items l) = Some (r, ys @ z)"
      using \<open>quicksort_loop env kf res n 0 (length xs - 1) (xs @ z) = Some (r, ys @ z)\<close> by (simp add: mp_quicksort_def Suc l)
    moreover have "\<forall>e. r = Inl e \<longrightarrow> raised env kf (set xs) e \<or> e = RuntimeError \<and> 2 ^ stack \<le> length xs"
    proof (intro allI impI)
      fix e assume "r = Inl e"
      from r(3) [OF this] show "raised env kf (set xs) e \<or> e = RuntimeError \<and> 2 ^ stack \<le> length xs"
        using q Suc_diff_Suc [of 0 "length xs"] by (auto simp: Suc)
    qed
    ultimately show ?thesis by blast
  qed
qed

lemma list_sort_run:
  assumes h: "holds_items l xs"
  shows "\<exists>r l' ys. mp_obj_list_sort env stack l key reverse = Some (r, l') \<and> holds_items l' ys \<and> mset ys = mset xs
    \<and> (\<forall>e. r = Inl e \<longrightarrow> raised env (if key = mp_const_none env then MP_OBJ_NULL else key) (set xs) e
        \<or> e = RuntimeError \<and> 2 ^ stack \<le> length xs)"
proof (cases "l_len l > 1")
  case False
  then show ?thesis using h by (auto simp: mp_obj_list_sort_def)
next
  case True
  then have "1 < length xs" "l_len l = length xs" using h by (simp_all add: holds_items_iff)
  then show ?thesis
    using sort_run [OF h, of env "if key = mp_const_none env then MP_OBJ_NULL else key"
        "if reverse then mp_const_false env else mp_const_true env" stack] True
    by (fastforce simp: mp_obj_list_sort_def)
qed

text \<open>The order of a sort with keys: by the values of the keys, descending for \<open>reverse\<close>.\<close>

definition sort_le :: "(mp_obj_t \<Rightarrow> 'v::linorder) \<Rightarrow> bool \<Rightarrow> mp_obj_t \<Rightarrow> mp_obj_t \<Rightarrow> bool" where
  "sort_le val reverse a b \<longleftrightarrow> (if reverse then val b \<le> val a else val a \<le> val b)"

lemma value_order:
  assumes v: "by_value env val (key ` X)" and k: "\<And>x. x \<in> X \<Longrightarrow> item_key env kf x = Inr (key x)"
  shows "sort_order env kf (if reverse then mp_const_false env else mp_const_true env) X key (sort_le val reverse)"
proof
  fix x y assume xy: "x \<in> X" "y \<in> X"
  then have "mp_binary_op env MP_BINARY_OP_LESS (key x) (key y)
      = Inr (if val (key x) < val (key y) then mp_const_true env else mp_const_false env)"
    "mp_const_true env \<noteq> mp_const_false env"
    using v by (auto simp: by_value_def)
  then show "\<exists>b. less_is env (if reverse then mp_const_false env else mp_const_true env) (key x) (key y) = Inr b
      \<and> (if b then sort_le val reverse (key x) (key y) else sort_le val reverse (key y) (key x))"
    by (auto simp: less_is_def sort_le_def)
qed (use k in \<open>auto simp: sort_le_def split: if_splits\<close>)

lemma list_sort_sorted:
  assumes h: "holds_items l xs" and v: "by_value env val (key ` set xs)"
    and k: "\<And>x. x \<in> set xs \<Longrightarrow> item_key env (if kf = mp_const_none env then MP_OBJ_NULL else kf) x = Inr (key x)"
    and st: "length xs < 2 ^ stack"
  shows "\<exists>l' ys. mp_obj_list_sort env stack l kf reverse = Some (Inr (), l') \<and> holds_items l' ys \<and> mset ys = mset xs
    \<and> sorted_wrt (\<lambda>x y. sort_le val reverse (key x) (key y)) ys"
proof (cases "1 < length xs")
  case False
  then have "sorted_wrt (\<lambda>x y. sort_le val reverse (key x) (key y)) xs"
    by (cases xs) auto
  moreover have "l_len l = length xs" using h by (simp add: holds_items_iff)
  ultimately show ?thesis using h False by (auto simp: mp_obj_list_sort_def)
next
  case True
  define f where "f = (if kf = mp_const_none env then MP_OBJ_NULL else kf)"
  define res where "res = (if reverse then mp_const_false env else mp_const_true env)"
  define z where "z = replicate (l_alloc l - length xs) MP_OBJ_NULL"
  have l: "l_len l = length xs" "l_items l = xs @ z" using h by (auto simp: holds_items_iff z_def)
  have tl: "length xs - 1 < length xs" and m: "length xs - 1 + 1 = length xs" using True by simp_all
  have so: "sort_order env f res (set xs) key (sort_le val reverse)"
    unfolding res_def f_def by (rule value_order [OF v k])
  obtain n where n: "stack = Suc n" using st True by (cases stack) auto
  have "length xs - 1 + 1 - 0 < 2 ^ (n + 1)" using st True by (simp add: n)
  then obtain ys where ys: "quicksort_loop env f res n 0 (length xs - 1) xs = Some (Inr (), ys)" "permuted 0 (length xs) xs ys"
    "sort_order.in_order key (sort_le val reverse) 0 (length xs) ys"
    using sort_order.quicksort_sorts [OF so tl subset_refl, of 0 n] m by auto
  have ly: "length ys = length xs" using permuted_length [OF ys(2)] .
  have "sorted_wrt (\<lambda>x y. sort_le val reverse (key x) (key y)) ys"
    using ys(3) ly by (simp add: sorted_wrt_iff_nth_less sort_order.in_order_def [OF so])
  moreover have "quicksort_loop env f res n 0 (length xs - 1) (xs @ z) = Some (Inr (), ys @ z)"
    using quicksort_frame [OF tl, of env f res n 0 z] ys(1) by simp
  then have "mp_obj_list_sort env stack l kf reverse = Some (Inr (), l\<lparr>l_items := ys @ z\<rparr>)"
    using True by (simp add: mp_obj_list_sort_def mp_quicksort_def n l flip: f_def res_def)
  moreover have "holds_items (l\<lparr>l_items := ys @ z\<rparr>) ys" using h ly by (simp add: holds_items_iff z_def)
  moreover have "mset ys = mset xs" using ys(2) by (simp add: permuted_def)
  ultimately show ?thesis by blast
qed

subsection \<open>Sequences of commands\<close>

text \<open>
  A list and the commands on it; the memory may answer differently at every command.  The slices of the
  commands are those with step 1, a sort carries the free stack.
\<close>

datatype list_cmd = Append mp_obj_t | Extend list_arg | PopAt "mp_obj_t option" | InsertAt mp_obj_t mp_obj_t | ClearItems
  | Reverse | StoreAt mp_obj_t mp_obj_t | RemoveValue mp_obj_t | DeleteAt mp_obj_t | DeleteSlice mp_obj_slice_t
  | StoreSlice mp_obj_slice_t "mp_obj_t list" | Sort nat mp_obj_t bool

definition no_value :: "(exc + unit) \<times> 'a \<Rightarrow> (exc + mp_obj_t option) \<times> 'a" where
  "no_value r = (map_sum (\<lambda>e. e) (\<lambda>u. None) (fst r), snd r)"



text \<open>The same on a list of objects.\<close>

definition bound_of :: "py_env \<Rightarrow> mp_obj_t \<Rightarrow> int option" where
  "bound_of env b = (if b = mp_const_none env then None else case obj_get_int env b of Inl e \<Rightarrow> None | Inr i \<Rightarrow> Some i)"

definition span_of :: "py_env \<Rightarrow> nat \<Rightarrow> mp_obj_slice_t \<Rightarrow> nat \<times> nat" where
  "span_of env n sl = (case sl of (oa, oe, ok) \<Rightarrow> slice_span n (bound_of env oa) (bound_of env oe))"

definition arg_items :: "mp_obj_t list \<Rightarrow> list_arg \<Rightarrow> mp_obj_t list" where
  "arg_items xs arg = (case arg of Itself \<Rightarrow> xs | AnotherList p \<Rightarrow> items_of p | Iterable ys \<Rightarrow> ys)"

fun list_effect :: "py_env \<Rightarrow> mp_obj_t list \<Rightarrow> list_cmd \<Rightarrow> (exc + mp_obj_t option) \<times> mp_obj_t list" where
  "list_effect env xs (Append x) = (Inr None, xs @ [x])"
| "list_effect env xs (Extend arg) = (Inr None, xs @ arg_items xs arg)"
| "list_effect env xs (PopAt arg) = map_prod (map_sum (\<lambda>e. e) Some) (\<lambda>l. l) (py_pop env xs arg)"
| "list_effect env xs (InsertAt idx x) = (Inr None, py_insert xs (sint (MP_OBJ_SMALL_INT_VALUE idx)) x)"
| "list_effect env xs ClearItems = (Inr None, [])"
| "list_effect env xs Reverse = (Inr None, rev xs)"
| "list_effect env xs (StoreAt idx x) = no_value (py_store env xs idx x)"
| "list_effect env xs (RemoveValue x) = no_value (py_remove env xs x)"
| "list_effect env xs (DeleteAt idx) = map_prod (map_sum (\<lambda>e. e) (\<lambda>x. None)) (\<lambda>l. l) (py_pop env xs (Some idx))"
| "list_effect env xs (DeleteSlice sl) = (Inr None, take (fst (span_of env (length xs) sl)) xs @ drop (snd (span_of env (length xs) sl)) xs)"
| "list_effect env xs (StoreSlice sl v)
    = (Inr None, take (fst (span_of env (length xs) sl)) xs @ v @ drop (snd (span_of env (length xs) sl)) xs)"
| "list_effect env xs (Sort stack key desc) = (Inr None, xs)"

definition sort_key_of :: "py_env \<Rightarrow> mp_obj_t \<Rightarrow> mp_obj_t" where
  "sort_key_of env key = (if key = mp_const_none env then MP_OBJ_NULL else key)"

inductive list_step :: "py_env \<Rightarrow> mp_obj_t list \<Rightarrow> list_cmd \<Rightarrow> exc + mp_obj_t option \<Rightarrow> mp_obj_t list \<Rightarrow> bool" for env where
  effect: "\<forall>stack key desc. c \<noteq> Sort stack key desc \<Longrightarrow> list_step env xs c (fst (list_effect env xs c)) (snd (list_effect env xs c))"
| no_memory: "c = Append x \<or> c = Extend arg \<or> c = InsertAt idx x \<or> c = StoreSlice sl v \<Longrightarrow> list_step env xs c (Inl MemoryError) xs"
| part_added: "list_step env xs (Extend (Iterable (ys @ zs))) (Inl MemoryError) (xs @ ys)"
| sort: "mset ys = mset xs \<Longrightarrow> list_step env xs (Sort stack key desc) (Inr None) ys"
| sort_raises: "mset ys = mset xs \<Longrightarrow> raised env (sort_key_of env key) (set xs) e \<or> e = RuntimeError \<and> 2 ^ stack \<le> length xs
    \<Longrightarrow> list_step env xs (Sort stack key desc) (Inl e) ys"

inductive list_history :: "py_env \<Rightarrow> mp_obj_t list \<Rightarrow> list_cmd list \<Rightarrow> (exc + mp_obj_t option) list \<Rightarrow> mp_obj_t list \<Rightarrow> bool" for env where
  finished: "list_history env xs [] [] xs"
| further: "list_step env xs c r ys \<Longrightarrow> list_history env ys cs rs zs \<Longrightarrow> list_history env xs (c # cs) (r # rs) zs"

inductive_simps list_history_Cons: "list_history env xs (c # cs) rs zs"
inductive_simps list_step_append: "list_step env xs (Append x) r ys"
inductive_simps list_step_pop: "list_step env xs (PopAt arg) r ys"
inductive_simps list_step_reverse: "list_step env xs Reverse r ys"













subsection \<open>A list of small integers\<close>

definition roomy_mem :: memory where
  "roomy_mem = \<lparr>renewal_of = (\<lambda>old new. Moves), can_new = (\<lambda>n. True), junk = (\<lambda>i. 0x1234)\<rparr>"


definition full_list :: "mp_obj_t list \<Rightarrow> mp_obj_list_t" where
  "full_list xs = \<lparr>l_alloc = length xs, l_len = length xs, l_items = xs\<rparr>"

lemma full_list_ok: "2 \<le> length xs \<Longrightarrow> list_ok (full_list xs)" "items_of (full_list xs) = xs"
  by (simp_all add: full_list_def list_ok_def items_of_def)

lemma list_ok_items: "list_ok l \<longleftrightarrow> holds_items l (items_of l)"
  by (simp add: holds_items_def)

lemma int_values:
  "list_all MP_OBJ_IS_SMALL_INT xs \<Longrightarrow> by_value int_env small_value (set xs)"
  using small_ints_by_value by (auto simp: by_value_def list_all_iff)

lemma int_bounds: "bound_value int_env 0x2000 None" "step_value int_env 0x2000 1"
  "bound_value int_env 3 (Some 1)" "step_value int_env 0xFFFFFFFF (- 1)" "step_value int_env 3 1"
proof -
  have "small_value 3 = 1" "small_value 0xFFFFFFFF = - 1" "MP_OBJ_IS_SMALL_INT 3" "MP_OBJ_IS_SMALL_INT 0xFFFFFFFF"
    "MP_OBJ_NEW_SMALL_INT 1 = 3" by code_simp+
  then show "bound_value int_env 0x2000 None" "step_value int_env 0x2000 1"
    "bound_value int_env 3 (Some 1)" "step_value int_env 0xFFFFFFFF (- 1)" "step_value int_env 3 1"
    by (simp_all add: bound_value_def step_value_def int_env_def)
qed

subsection \<open>Properties\<close>



text \<open>
  C7. Sorting ends and keeps the items, whatever the comparison and the key function do: they may raise or
  give inconsistent answers.  The list is consistent and a permutation of what it was, and the call raises
  only what they raise, or a runtime error for the stack, which takes at least \<open>2 ^ n\<close> items for
  \<open>n\<close> nested calls that fit.
\<close>

theorem sort_permutes:
  assumes "list_ok l"
  shows "\<exists>r l'. mp_obj_list_sort env stack l key reverse = Some (r, l') \<and> list_ok l' \<and> mset (items_of l') = mset (items_of l)
    \<and> (case r of Inr u \<Rightarrow> True
       | Inl e \<Rightarrow> raised env (sort_key_of env key) (set (items_of l)) e \<or> e = RuntimeError \<and> 2 ^ stack \<le> length (items_of l))"
proof -
  obtain r l' where "mp_obj_list_sort env stack l key reverse = Some (r, l')" "holds_items l' (items_of l')"
    "mset (items_of l') = mset (items_of l)"
    "\<And>e. r = Inl e \<Longrightarrow> raised env (sort_key_of env key) (set (items_of l)) e \<or> e = RuntimeError \<and> 2 ^ stack \<le> length (items_of l)"
    using list_sort_run [OF assms [unfolded list_ok_items], of env stack key reverse] unfolding sort_key_of_def
    by (metis holds_items_def)
  then show ?thesis by (auto simp: list_ok_items split: sum.split)
qed

theorem sort_permutes_witness:
  "\<exists>r l'. mp_obj_list_sort int_env 2 (full_list [7, 3, 4, 5]) 0x2000 False = Some (r, l') \<and> list_ok l'
    \<and> mset (items_of l') = {#7, 3, 4, 5#}"
  using sort_permutes [OF full_list_ok(1) [of "[7, 3, 4, 5]"], of int_env 2 "0x2000" False] by (auto simp: full_list_ok)

text \<open>
  C11. Sorting sorts: if the keys of the items are compared by values of a linear order, and the stack has room
  for \<open>n\<close> nested calls with fewer than \<open>2 ^ n\<close> items, the items come out ascending by the values of
  their keys, or descending for \<open>reverse\<close>.
\<close>

theorem sort_sorts:
  assumes "list_ok l" and "by_value env val (key ` set (items_of l))"
    and "\<And>x. x \<in> set (items_of l) \<Longrightarrow> item_key env (sort_key_of env kf) x = Inr (key x)"
    and "length (items_of l) < 2 ^ stack"
  shows "\<exists>l'. mp_obj_list_sort env stack l kf reverse = Some (Inr (), l') \<and> list_ok l' \<and> mset (items_of l') = mset (items_of l)
    \<and> sorted_wrt (\<lambda>x y. sort_le val reverse (key x) (key y)) (items_of l')"
  using list_sort_sorted [OF assms(1) [unfolded list_ok_items] assms(2) _ assms(4), of kf reverse] assms(3)
  unfolding sort_key_of_def by (metis holds_items_def)

theorem sort_sorts_witness:
  "\<exists>l'. mp_obj_list_sort int_env 3 (full_list [7, 3, 0xFFFFFFFF, 5]) 0x2000 True = Some (Inr (), l') \<and> list_ok l'
    \<and> mset (items_of l') = {#7, 3, 0xFFFFFFFF, 5#} \<and> sorted_wrt (\<lambda>x y. small_value y \<le> small_value x) (items_of l')"
proof -
  have "list_all MP_OBJ_IS_SMALL_INT [7, 3, 0xFFFFFFFF, 5]" by code_simp
  then have v: "by_value int_env small_value ((\<lambda>x. x) ` set (items_of (full_list [7, 3, 0xFFFFFFFF, 5])))"
    using int_values [of "[7, 3, 0xFFFFFFFF, 5]"] by (simp add: full_list_ok)
  have k: "item_key int_env (sort_key_of int_env 0x2000) x = Inr x" for x
    by (simp add: sort_key_of_def item_key_def int_env_def)
  show ?thesis
    using sort_sorts [OF full_list_ok(1) [of "[7, 3, 0xFFFFFFFF, 5]"] v k, of 3 True] by (simp add: full_list_ok sort_le_def)
qed

text \<open>
  C12. A slice of a list holds exactly the items at the positions that Python's slice visits, in their
  order, for every start, stop and step (negative ones and \<open>None\<close> included), the stop
  \<open>2 ^ 31 - 1\<close> with a negative step excepted, and steps of less than 30 bits; or there is no memory.
\<close>

theorem slices_as_python:
  assumes "list_ok l" and "length (items_of l) < 2 ^ 30" and "bound_value env oa a" and "bound_value env oe e"
    and "step_value env ok k" and "\<bar>k\<bar> < 2 ^ 30" and "k < 0 \<Longrightarrow> e \<noteq> Some (2 ^ 31 - 1)"
  shows "list_load mem env l (Slice (oa, oe, ok)) = Some (Inl MemoryError)
    \<or> (\<exists>l'. list_load mem env l (Slice (oa, oe, ok)) = Some (Inr (Inr l')) \<and> list_ok l'
        \<and> items_of l' = map (\<lambda>i. items_of l ! nat i) (python_slice (length (items_of l)) a e k))"
  using load_slice_run [OF assms(1) [unfolded list_ok_items] assms(2-6), of mem] assms(7) by (auto simp: holds_items_def)

theorem slices_as_python_witness:
  "list_load roomy_mem int_env (full_list [7, 3, 4, 5]) (Slice (0x2000, 3, 0xFFFFFFFF)) = Some (Inl MemoryError)
    \<or> (\<exists>l'. list_load roomy_mem int_env (full_list [7, 3, 4, 5]) (Slice (0x2000, 3, 0xFFFFFFFF)) = Some (Inr (Inr l'))
      \<and> list_ok l' \<and> items_of l' = [5, 4])"
proof -
  have "python_slice (Suc (Suc (Suc (Suc 0)))) None (Some 1) (- 1) = [3, 2]" by code_simp
  then show ?thesis
    using slices_as_python [OF full_list_ok(1) [of "[7, 3, 4, 5]"], of int_env "0x2000" None 3 "Some 1" "0xFFFFFFFF" "- 1" roomy_mem] int_bounds
    by (simp add: full_list_ok)
qed

text \<open>
  C24. Assigning to a slice of step 1 and deleting one replace exactly the items of the slice, shorter or longer, with
  the list growing where it has to; a slice may be assigned the list itself when the reallocation stays in
  place.
\<close>

theorem slice_assignment:
  assumes "list_ok l" and "length (items_of l) < 2 ^ 31" and "bound_value env oa a" and "bound_value env oe e" and "step_value env ok 1"
    and "slice_span (length (items_of l)) a e = (s, t)"
    and "value = ItemsOf v \<or> value = OwnItems \<and> v = items_of l \<and> (\<forall>x y. renewal_of mem x y \<noteq> Moves)"
  shows "runs (list_store_slice mem env l (oa, oe, ok) value) l (Inr ()) (take s (items_of l) @ v @ drop t (items_of l))
    \<and> runs (list_delete mem env l (Slice (oa, oe, ok))) l (Inr ()) (take s (items_of l) @ drop t (items_of l))"
  using store_slice_run [OF assms(1) [unfolded list_ok_items] assms(2-7)]
    delete_slice_run [OF assms(1) [unfolded list_ok_items] assms(2-6), of mem] by (auto simp: runs_def)

theorem slice_assignment_witness:
  "runs (list_store_slice roomy_mem int_env (full_list [7, 3, 4, 5]) (3, 0x2000, 0x2000) (ItemsOf [9, 9, 9, 9])) (full_list [7, 3, 4, 5])
      (Inr ()) [7, 9, 9, 9, 9]
    \<and> runs (list_delete roomy_mem int_env (full_list [7, 3, 4, 5]) (Slice (3, 0x2000, 0x2000))) (full_list [7, 3, 4, 5]) (Inr ()) [7]"
proof -
  have "slice_span (length (items_of (full_list [7, 3, 4, 5]))) (Some 1) None = (1, 4)" by code_simp
  moreover have "step_value int_env 0x2000 1" "bound_value int_env 3 (Some 1)" "bound_value int_env 0x2000 None" by (rule int_bounds)+
  ultimately show ?thesis
    using slice_assignment [OF full_list_ok(1) [of "[7, 3, 4, 5]"], of int_env 3 "Some 1" "0x2000" None "0x2000" 1 4 "ItemsOf [9, 9, 9, 9]"
      "[9, 9, 9, 9]" roomy_mem] by (simp add: full_list_ok)
qed

text \<open>
  C38. Assigning a list to a slice of itself reads freed memory when the list grows and its items move: the
  items of the value are copied from the block that \<open>m_renew\<close> has freed.
\<close>

theorem own_slice_after_move:
  assumes "list_ok l" and "length (items_of l) < 2 ^ 31" and "bound_value env oa a" and "bound_value env oe e" and "step_value env ok 1"
    and "slice_span (length (items_of l)) a e = (s, t)"
    and "l_alloc l < length (items_of l) - (t - s) + length (items_of l)"
    and "renewal_of mem (l_alloc l) (length (items_of l) - (t - s) + length (items_of l)) = Moves"
  shows "list_store_slice mem env l (oa, oe, ok) OwnItems = None"
  by (rule store_own_moved [OF assms(1) [unfolded list_ok_items] assms(2-8)])

theorem own_slice_after_move_witness:
  "list_store_slice roomy_mem int_env (full_list [7, 3, 4, 5]) (3, 0x2000, 0x2000) OwnItems = None"
proof -
  have "slice_span (length (items_of (full_list [7, 3, 4, 5]))) (Some 1) None = (1, 4)" by code_simp
  moreover have "step_value int_env 0x2000 1" "bound_value int_env 3 (Some 1)" "bound_value int_env 0x2000 None" by (rule int_bounds)+
  ultimately show ?thesis
    using own_slice_after_move [OF full_list_ok(1) [of "[7, 3, 4, 5]"], of int_env 3 "Some 1" "0x2000" None "0x2000" 1 4 roomy_mem]
    by (simp add: full_list_ok) (simp add: full_list_def roomy_mem_def)
qed

text \<open>
  C23. Lists of objects that are compared by values of a linear order compare like the lists of the values, by every
  operator, in the lexicographic order; so do sequences of bytes.
\<close>

theorem list_comparison:
  assumes "list_ok l" and "list_ok p" and "by_value env val (set (items_of l) \<union> set (items_of p))"
  shows "list_compare env op l p = Some (Inr (seq_compares op (map val (items_of l)) (map val (items_of p))))"
proof -
  have "slice (l_items x) 0 (l_len x) = Some (items_of x)" if "list_ok x" for x
    using that by (auto simp: list_ok_def items_of_def slice_def)
  then show ?thesis using assms cmp_objs_run [OF assms(3)] by (simp add: list_compare_def)
qed

theorem list_comparison_witness:
  "list_compare int_env MP_BINARY_OP_LESS_EQUAL (full_list [7, 0xFFFFFFFF]) (full_list [7, 3, 5]) = Some (Inr True)"
proof -
  have "list_all MP_OBJ_IS_SMALL_INT [7, 0xFFFFFFFF, 7, 3, 5]" by code_simp
  moreover have "seq_compares MP_BINARY_OP_LESS_EQUAL (map small_value [7, 0xFFFFFFFF]) (map small_value [7, 3, 5])" by code_simp
  ultimately show ?thesis
    using list_comparison [OF full_list_ok(1) [of "[7, 0xFFFFFFFF]"] full_list_ok(1) [of "[7, 3, 5]"], of int_env small_value MP_BINARY_OP_LESS_EQUAL]
      int_values [of "[7, 0xFFFFFFFF, 7, 3, 5]"] by (simp add: full_list_ok insert_commute)
qed

text \<open>A slice with the largest step adds it to the position of its first item, which leaves 32 bits.\<close>

lemma slice_step_overflow:
  assumes "k = 2 ^ 31 - 1"
  shows "extract_loop mem [x, y] 1 2 k (full_list [z, z]) = None
    \<or> extract_loop mem [x, y] 1 2 k (full_list [z, z]) = Some (Inl MemoryError)"
proof -
  have s: "sadd 1 2147483647 = None" by (simp add: sadd_def)
  have "holds_items (full_list [z, z]) [z, z]" by (simp add: holds_items_def full_list_ok)
  from append_run [OF this, of mem y] show ?thesis
    by (subst (1 2) extract_loop.simps) (auto simp: runs_def rd_def s assms)
qed

end
