(* ===== verification/Py_Int.thy ===== *)
theory Py_Int
  imports Py_Small_Int Py_Mpz_Text
begin

text \<open>
  Integer objects: a small integer in the object word, or an object that holds a number of
  \<open>Py_Mpz\<close> (\<open>py/objint_mpz.c\<close>), and the operators on them (\<open>mp_unary_op\<close>, \<open>mp_binary_op\<close> of
  \<open>py/runtime.c\<close>).  A long integer is its number: the objects are immutable.  Memory suffices.
\<close>

subsection \<open>Objects\<close>

datatype int_obj = Small mp_obj_t | Long mpz_t

datatype num_obj = Number int_obj | TruthVal bool | Pair int_obj int_obj | FloatNumber

definition long_result :: "mpz_t option \<Rightarrow> (exc + num_obj) option" where
  "long_result = map_option (\<lambda>z. Inr (Number (Long z)))"

text \<open>\<open>mp_obj_new_int_from_ll\<close>, \<open>mp_obj_new_int_from_ull\<close>: a new object with the number.\<close>

definition mp_obj_new_int_from_ll :: "int \<Rightarrow> mpz_t option" where
  "mp_obj_new_int_from_ll val = mpz_set_from_ll mpz_init_zero (word_of_int val) True"

definition mp_obj_new_int_from_ull :: "64 word \<Rightarrow> mpz_t option" where
  "mp_obj_new_int_from_ull val = mpz_set_from_ll mpz_init_zero val False"

definition mp_obj_new_int :: "int \<Rightarrow> int_obj option" where
  "mp_obj_new_int v = (if MP_SMALL_INT_FITS v then Some (Small (new_small v)) else map_option Long (mp_obj_new_int_from_ll v))"

definition mp_obj_new_int_from_uint :: "u32 \<Rightarrow> int_obj option" where
  "mp_obj_new_int_from_uint v =
     (if v AND NOT (NOT (WORD_MSBIT_HIGH OR drop_bit 1 WORD_MSBIT_HIGH)) = 0 then Some (Small (MP_OBJ_NEW_SMALL_INT v))
      else map_option Long (mp_obj_new_int_from_ull (ucast v)))"

definition mp_obj_new_int_from_str_len :: "u8 list \<Rightarrow> bool \<Rightarrow> u32 \<Rightarrow> (mpz_t \<times> nat) option" where
  "mp_obj_new_int_from_str_len str negative base = mpz_set_from_str mpz_init_zero str negative base"

definition mp_obj_int_from_bytes_impl :: "bool \<Rightarrow> u8 list \<Rightarrow> mpz_t option" where
  "mp_obj_int_from_bytes_impl big_endian buf = mpz_set_from_bytes mpz_init_zero big_endian buf"

definition mp_obj_int_to_bytes_impl :: "mpz_t \<Rightarrow> bool \<Rightarrow> nat \<Rightarrow> u8 list option" where
  "mp_obj_int_to_bytes_impl z big_endian len = mpz_as_bytes z big_endian (replicate len 0)"

fun mp_obj_int_sign :: "int_obj \<Rightarrow> int" where
  "mp_obj_int_sign (Small p) = (let val = small_value p in if val < 0 then - 1 else if val > 0 then 1 else 0)"
| "mp_obj_int_sign (Long z) = (if dig z = [] then 0 else if \<not> neg z then 1 else - 1)"

fun mp_obj_int_get_truncated :: "int_obj \<Rightarrow> u32" where
  "mp_obj_int_get_truncated (Small p) = MP_OBJ_SMALL_INT_VALUE p"
| "mp_obj_int_get_truncated (Long z) = mpz_hash z"

fun mp_obj_int_get_checked :: "int_obj \<Rightarrow> exc + int" where
  "mp_obj_int_get_checked (Small p) = Inr (small_value p)"
| "mp_obj_int_get_checked (Long z) = (case mpz_as_int_checked z of None \<Rightarrow> Inl OverflowError | Some v \<Rightarrow> Inr (sint v))"

subsection \<open>Unary operators\<close>

fun mp_obj_int_unary_op :: "int_unary_op \<Rightarrow> mpz_t \<Rightarrow> (exc + num_obj) option" where
  "mp_obj_int_unary_op MP_UNARY_OP_BOOL z = Some (Inr (TruthVal (\<not> mpz_is_zero z)))"
| "mp_obj_int_unary_op MP_UNARY_OP_HASH z = Some (Inr (Number (Small (MP_OBJ_NEW_SMALL_INT (mpz_hash z)))))"
| "mp_obj_int_unary_op MP_UNARY_OP_POSITIVE z = Some (Inr (Number (Long z)))"
| "mp_obj_int_unary_op MP_UNARY_OP_NEGATIVE z = long_result (mpz_neg_inpl False mpz_init_zero z)"
| "mp_obj_int_unary_op MP_UNARY_OP_INVERT z = long_result (mpz_not_inpl False mpz_init_zero z)"
| "mp_obj_int_unary_op MP_UNARY_OP_ABS z =
     (if \<not> neg z then Some (Inr (Number (Long z))) else long_result (mpz_abs_inpl False mpz_init_zero z))"

text \<open>What a result of the code for small integers becomes; \<open>generic\<close> is the operator of the type.\<close>

fun small_object :: "(exc + num_obj) option \<Rightarrow> small_result \<Rightarrow> (exc + num_obj) option" where
  "small_object generic (Value v) = map_option (\<lambda>p. Inr (Number p)) (mp_obj_new_int v)"
| "small_object generic (Object p) = Some (Inr (Number (Small p)))"
| "small_object generic (Truth b) = Some (Inr (TruthVal b))"
| "small_object generic (Two p q) = Some (Inr (Pair (Small p) (Small q)))"
| "small_object generic Generic = generic"
| "small_object generic FloatArith = Some (Inr FloatNumber)"

fun int_unary :: "int_unary_op \<Rightarrow> int_obj \<Rightarrow> (exc + num_obj) option" where
  "int_unary op (Small p) = Option.bind (small_unary_op op p) (small_object None)"
| "int_unary op (Long z) = mp_obj_int_unary_op op z"

subsection \<open>Binary operators\<close>

fun as_mpz :: "int_obj \<Rightarrow> mpz_t option" where
  "as_mpz (Small p) = mpz_init_fixed_from_int MPZ_NUM_DIG_FOR_INT (MP_OBJ_SMALL_INT_VALUE p)"
| "as_mpz (Long z) = Some z"

text \<open>
  The floats of integers (\<open>mpz_as_float\<close>, \<open>mp_obj_get_float_maybe\<close>) before rounding: the loop
  over the digits computed with integers, as \<open>float_power\<close> only looks at signs and zero.
\<close>

definition DIG_BASE :: int where "DIG_BASE = push_bit DIG_SIZE 1"

definition mpz_as_float :: "mpz_t \<Rightarrow> int" where
  "mpz_as_float i = (let val = fold (\<lambda>d val. val * DIG_BASE + uint d) (rev (dig i)) 0 in if neg i then - val else val)"

fun int_as_float :: "int_obj \<Rightarrow> int" where
  "int_as_float (Small p) = small_value p"
| "int_as_float (Long z) = mpz_as_float z"

text \<open>A shift by a count that fits a machine integer.\<close>

definition long_shift :: "int_obj \<Rightarrow> (nat \<Rightarrow> mpz_t option) \<Rightarrow> (exc + num_obj) option" where
  "long_shift rhs shift =
     (case mp_obj_int_get_checked rhs of
        Inl e \<Rightarrow> Some (Inl e)
      | Inr irhs \<Rightarrow> if irhs < 0 then Some (Inl ValueError) else long_result (shift (nat irhs)))"

fun mpz_binary_op :: "int_op \<Rightarrow> mpz_t \<Rightarrow> mpz_t \<Rightarrow> int_obj \<Rightarrow> (exc + num_obj) option" where
  "mpz_binary_op MP_BINARY_OP_TRUE_DIVIDE zlhs zrhs rhs =
     (if mpz_is_zero zrhs then Some (Inl ZeroDivisionError) else Some (Inr FloatNumber))"
| "mpz_binary_op MP_BINARY_OP_ADD zlhs zrhs rhs = long_result (mpz_add_inpl mpz_init_zero zlhs zrhs)"
| "mpz_binary_op MP_BINARY_OP_SUBTRACT zlhs zrhs rhs = long_result (mpz_sub_inpl mpz_init_zero zlhs zrhs)"
| "mpz_binary_op MP_BINARY_OP_MULTIPLY zlhs zrhs rhs = long_result (mpz_mul_inpl mpz_init_zero zlhs zrhs)"
| "mpz_binary_op MP_BINARY_OP_FLOOR_DIVIDE zlhs zrhs rhs =
     (if mpz_is_zero zrhs then Some (Inl ZeroDivisionError)
      else long_result (map_option fst (mpz_divmod_inpl mpz_init_zero mpz_init_zero zlhs zrhs)))"
| "mpz_binary_op MP_BINARY_OP_MODULO zlhs zrhs rhs =
     (if mpz_is_zero zrhs then Some (Inl ZeroDivisionError)
      else long_result (map_option snd (mpz_divmod_inpl mpz_init_zero mpz_init_zero zlhs zrhs)))"
| "mpz_binary_op MP_BINARY_OP_AND zlhs zrhs rhs = long_result (mpz_and_inpl mpz_init_zero zlhs zrhs)"
| "mpz_binary_op MP_BINARY_OP_OR zlhs zrhs rhs = long_result (mpz_or_inpl mpz_init_zero zlhs zrhs)"
| "mpz_binary_op MP_BINARY_OP_XOR zlhs zrhs rhs = long_result (mpz_xor_inpl mpz_init_zero zlhs zrhs)"
| "mpz_binary_op MP_BINARY_OP_LSHIFT zlhs zrhs rhs = long_shift rhs (mpz_shl_inpl mpz_init_zero zlhs)"
| "mpz_binary_op MP_BINARY_OP_RSHIFT zlhs zrhs rhs = long_shift rhs (mpz_shr_inpl False mpz_init_zero zlhs)"
| "mpz_binary_op MP_BINARY_OP_POWER zlhs zrhs rhs =
     (if mpz_is_neg zrhs then
        (case float_power (mpz_as_float zlhs) (int_as_float rhs) of Inl e \<Rightarrow> Some (Inl e) | Inr r \<Rightarrow> Some (Inr FloatNumber))
      else long_result (mpz_pow_inpl mpz_init_zero zlhs zrhs))"
| "mpz_binary_op MP_BINARY_OP_DIVMOD zlhs zrhs rhs =
     (if mpz_is_zero zrhs then Some (Inl ZeroDivisionError)
      else map_option (\<lambda>(quo, rem). Inr (Pair (Long quo) (Long rem))) (mpz_divmod_inpl mpz_init_zero mpz_init_zero zlhs zrhs))"
| "mpz_binary_op (Compare c) zlhs zrhs rhs =
     (let cmp = mpz_cmp zlhs zrhs
      in Some (Inr (TruthVal (case c of
           MP_BINARY_OP_LESS \<Rightarrow> cmp < 0
         | MP_BINARY_OP_MORE \<Rightarrow> cmp > 0
         | MP_BINARY_OP_LESS_EQUAL \<Rightarrow> cmp \<le> 0
         | MP_BINARY_OP_MORE_EQUAL \<Rightarrow> cmp \<ge> 0
         | MP_BINARY_OP_EQUAL \<Rightarrow> cmp = 0))))"

definition mp_obj_int_binary_op :: "int_op \<Rightarrow> int_obj \<Rightarrow> int_obj \<Rightarrow> (exc + num_obj) option" where
  "mp_obj_int_binary_op op lhs rhs = do {
     zlhs \<leftarrow> as_mpz lhs;
     zrhs \<leftarrow> as_mpz rhs;
     mpz_binary_op op zlhs zrhs rhs }"

text \<open>
  \<open>mp_obj_equal\<close> on integer objects: two small ones are equal when they are the same word, otherwise
  the operator of the type is asked with a long integer on the left.  An object is equal to itself.
\<close>

definition int_equal :: "int_obj \<Rightarrow> int_obj \<Rightarrow> bool option" where
  "int_equal o1 o2 =
     (case (o1, o2) of
        (Small p, Small q) \<Rightarrow> Some (p = q)
      | _ \<Rightarrow>
        let (o1, o2) = (case o1 of Small p \<Rightarrow> (o2, o1) | Long z \<Rightarrow> (o1, o2))
        in (case mp_obj_int_binary_op (Compare MP_BINARY_OP_EQUAL) o1 o2 of
              Some (Inr (TruthVal b)) \<Rightarrow> Some b
            | _ \<Rightarrow> None))"

fun int_binary :: "int_op \<Rightarrow> int_obj \<Rightarrow> int_obj \<Rightarrow> (exc + num_obj) option" where
  "int_binary op lhs rhs =
     (if op = Compare MP_BINARY_OP_EQUAL then map_option (\<lambda>b. Inr (TruthVal b)) (int_equal lhs rhs)
      else case (lhs, rhs) of
          (Small p, Small q) \<Rightarrow>
            (case small_binary_op op (small_value p) (small_value q) of
               None \<Rightarrow> None
             | Some (Inl e) \<Rightarrow> Some (Inl e)
             | Some (Inr r) \<Rightarrow>
                 small_object (Option.bind (mp_obj_new_int_from_ll (small_value p)) (\<lambda>z. mp_obj_int_binary_op op (Long z) rhs)) r)
        | _ \<Rightarrow> mp_obj_int_binary_op op lhs rhs)"

text \<open>\<open>pow\<close> with a modulus.\<close>

fun mp_mpz_for_int :: "int_obj \<Rightarrow> mpz_t option" where
  "mp_mpz_for_int (Small p) = mpz_init_from_int (MP_OBJ_SMALL_INT_VALUE p)"
| "mp_mpz_for_int (Long z) = Some z"

definition mp_obj_int_pow3 :: "int_obj \<Rightarrow> int_obj \<Rightarrow> int_obj \<Rightarrow> int_obj option" where
  "mp_obj_int_pow3 base exponent modulus = do {
     res \<leftarrow> mp_obj_new_int_from_ull 0;
     lhs \<leftarrow> mp_mpz_for_int base;
     rhs \<leftarrow> mp_mpz_for_int exponent;
     m \<leftarrow> mp_mpz_for_int modulus;
     map_option Long (mpz_pow3_inpl res lhs rhs m) }"

subsection \<open>Machine integers as numbers\<close>

lemma word_digits_value:
  "uint w < 65536 ^ n \<Longrightarrow> mval (word_digits n w) = uint w \<and> normalised (word_digits n w) \<and> length (word_digits n w) \<le> n
    \<and> (w \<noteq> 0 \<longrightarrow> word_digits n w \<noteq> [])"
proof (induction n arbitrary: w)
  case 0
  then have "uint w < 1" by simp
  then have "uint w = 0" using uint_ge_0 [of w] by linarith
  then show ?case by (simp add: normalised_def uint_0_iff)
next
  case (Suc n)
  show ?case
  proof (cases "w = 0")
    case False
    let ?h = "drop_bit DIG_SIZE w"
    have h: "uint ?h = uint w div 65536" unfolding DIG_SIZE_def unsigned_drop_bit_eq by (simp add: drop_bit_eq_div take_bit_int_eq_self)
    have d: "uint (ucast w :: mpz_dig_t) = uint w mod 65536" by (simp add: unsigned_ucast_eq take_bit_eq_mod)
    have "\<not> 65536 ^ n \<le> uint ?h"
      using Suc.prems le_div_int [of 65536 "65536 ^ n" "uint w"] unfolding h by (simp add: mult.commute)
    then have "uint ?h < 65536 ^ n" by simp
    note IH = Suc.IH [OF this]
    have "mval (word_digits (Suc n) w) = uint w" using False IH h d by simp
    moreover have "normalised (word_digits (Suc n) w)"
    proof (cases "word_digits n ?h = []")
      case True
      then have "uint w div 65536 = 0" using IH h by (metis mval.simps(1))
      then have "uint w mod 65536 \<noteq> 0" using False by (metis mod_div_trivial add_cancel_right_left div_mult_mod_eq mult_zero_left uint_0_iff)
      then have "(ucast w :: mpz_dig_t) \<noteq> 0" using d by (metis unsigned_0)
      then show ?thesis using False True by (simp add: normalised_def)
    next
      case ne: False
      then show ?thesis using False IH by (simp add: normalised_def)
    qed
    ultimately show ?thesis using False IH by simp
  qed (simp add: normalised_def)
qed

lemma uint_negative: "sint w < 0 \<Longrightarrow> uint (- w) = - sint w" for w :: "'a::len word"
proof -
  assume n: "sint w < 0"
  have "(2 :: int) ^ (LENGTH('a) - Suc 0) < 2 ^ LENGTH('a)" by (intro power_strict_increasing) simp_all
  then have "- sint w < 2 ^ LENGTH('a)" using sint_greater_eq [of w] by linarith
  moreover have "uint (- w) = (- sint w) mod 2 ^ LENGTH('a)"
    unfolding uint_word_ariths(4) uint_sint [of w] take_bit_eq_mod by (rule mod_minus_eq)
  ultimately show ?thesis using n by simp
qed

lemma uint_nonnegative: "0 \<le> sint w \<Longrightarrow> uint w = sint w" for w :: "'a::len word"
proof -
  assume n: "0 \<le> sint w"
  have "(2 :: int) ^ (LENGTH('a) - Suc 0) < 2 ^ LENGTH('a)" by (intro power_strict_increasing) simp_all
  then have "sint w < 2 ^ LENGTH('a)" using sint_less [of w] by linarith
  then show ?thesis using n by (simp add: uint_sint take_bit_eq_mod)
qed

lemma set_from_int_run:
  assumes "\<not> neg z" and "2 \<le> alloc z \<or> \<not> fixed_dig z"
  shows "\<exists>r. mpz_set_from_int z w = Some r \<and> mpz_ok r \<and> mpz_val r = sint w \<and> fixed_dig r = fixed_dig z"
proof (cases "w = 0")
  case True
  then show ?thesis using assms by (simp add: mpz_set_from_int_def mpz_ok_def mpz_wf_def mpz_val_def normalised_def)
next
  case False
  let ?s = "sint w < 0"
  let ?u = "if ?s then - w else w"
  let ?ds = "word_digits MPZ_NUM_DIG_FOR_INT ?u"
  have u: "uint ?u = \<bar>sint w\<bar>" using uint_negative [of w] uint_nonnegative [of w] by auto
  have "uint ?u < 65536 ^ 2" using uint_bounded [of ?u] by simp
  from word_digits_value [OF this] have ds: "mval ?ds = \<bar>sint w\<bar>" "normalised ?ds" "length ?ds \<le> 2" "?ds \<noteq> []"
    using False u by (simp_all add: MPZ_NUM_DIG_FOR_INT_def)
  obtain z' where z': "mpz_need_dig z MPZ_NUM_DIG_FOR_INT = Some z'" "2 \<le> alloc z'" "fixed_dig z' = fixed_dig z"
    using assms(2) by (cases "alloc z < 2") (auto simp: mpz_need_dig_def MPZ_NUM_DIG_FOR_INT_def MIN_ALLOC_def)
  then show ?thesis
    using ds False by (auto simp: mpz_set_from_int_def mpz_put_def mpn_digits_def mpz_ok_def mpz_wf_def mpz_val_def sgn_val_def Let_def)
qed

lemma set_from_ll_run:
  assumes "\<not> fixed_dig z"
  shows "mpz_canonical (mpz_set_from_ll z w True) (sint w)" "mpz_canonical (mpz_set_from_ll z w False) (uint w)"
proof -
  have run: "mpz_canonical (mpz_put z' (word_digits MPZ_NUM_DIG_FOR_LL u, length (word_digits MPZ_NUM_DIG_FOR_LL u)) s) (sgn_val s (uint u))"
    if "4 \<le> alloc z'" "\<not> fixed_dig z'" "s \<longrightarrow> u \<noteq> 0" for z' s and u :: "64 word"
  proof -
    let ?ds = "word_digits MPZ_NUM_DIG_FOR_LL u"
    have "uint u < 65536 ^ 4" using uint_bounded [of u] by simp
    from word_digits_value [OF this] have "mval ?ds = uint u" "normalised ?ds" "length ?ds \<le> 4" "u \<noteq> 0 \<longrightarrow> ?ds \<noteq> []"
      by (simp_all add: MPZ_NUM_DIG_FOR_LL_def)
    then show ?thesis
      using that by (auto simp: mpz_canonical_def mpz_put_def mpn_digits_def mpz_ok_def mpz_wf_def mpz_val_def)
  qed
  let ?z = "z\<lparr>alloc := max (alloc z) 4\<rparr>"
  have z: "mpz_need_dig z MPZ_NUM_DIG_FOR_LL = Some ?z" using assms by (simp add: mpz_need_dig MPZ_NUM_DIG_FOR_LL_def)
  show "mpz_canonical (mpz_set_from_ll z w False) (uint w)"
    using run [of ?z False w] assms z by (simp add: mpz_set_from_ll_def Let_def)
  show "mpz_canonical (mpz_set_from_ll z w True) (sint w)"
    using run [of ?z "sint w < 0" "if sint w < 0 then - w else w"] assms z uint_negative [of w] uint_nonnegative [of w]
    by (cases "w = 0"; cases "sint w < 0") (auto simp: mpz_set_from_ll_def Let_def)
qed


subsection \<open>The value of an integer object\<close>

fun int_val :: "int_obj \<Rightarrow> int" where
  "int_val (Small p) = small_value p"
| "int_val (Long z) = mpz_val z"

fun int_ok :: "int_obj \<Rightarrow> bool" where
  "int_ok (Small p) \<longleftrightarrow> MP_OBJ_IS_SMALL_INT p"
| "int_ok (Long z) \<longleftrightarrow> mpz_wf z \<and> \<not> fixed_dig z"

text \<open>Zero without a sign.\<close>

fun int_plain :: "int_obj \<Rightarrow> bool" where
  "int_plain (Small p) \<longleftrightarrow> True"
| "int_plain (Long z) \<longleftrightarrow> mpz_ok z"

lemma long_canonical:
  "mpz_canonical r v \<Longrightarrow> \<exists>z. r = Some z \<and> int_ok (Long z) \<and> int_plain (Long z) \<and> int_val (Long z) = v"
  by (auto simp: mpz_canonical_def mpz_ok_def)

lemma long_wf: "mpz_result r v \<Longrightarrow> \<exists>z. r = Some z \<and> int_ok (Long z) \<and> int_val (Long z) = v"
  by (auto simp: mpz_result_def)

lemma zero_dest: "\<not> fixed_dig mpz_init_zero" "\<not> neg mpz_init_zero"
  by (simp_all add: mpz_init_zero_def)

lemma as_mpz_run:
  assumes "int_ok i"
  shows "\<exists>z. as_mpz i = Some z \<and> mpz_wf z \<and> mpz_val z = int_val i \<and> (int_plain i \<longrightarrow> mpz_ok z)"
proof (cases i)
  case (Small p)
  then show ?thesis
    using set_from_int_run [of "\<lparr>neg = False, fixed_dig = True, alloc = MPZ_NUM_DIG_FOR_INT, dig = []\<rparr>" "MP_OBJ_SMALL_INT_VALUE p"]
    by (auto simp: mpz_init_fixed_from_int_def MPZ_NUM_DIG_FOR_INT_def small_value_def mpz_ok_def)
qed (use assms in auto)

lemma new_from_ll_run: "- (2 ^ 63) \<le> v \<Longrightarrow> v < 2 ^ 63 \<Longrightarrow> mpz_canonical (mp_obj_new_int_from_ll v) v"
  using set_from_ll_run(1) [OF zero_dest(1), of "word_of_int v"]
  by (simp add: mp_obj_new_int_from_ll_def sint_sbintrunc' signed_take_bit_int_eq_self)

lemma new_int_run:
  assumes "- (2 ^ 31) \<le> v" and "v < 2 ^ 31"
  shows "\<exists>i. mp_obj_new_int v = Some i \<and> int_ok i \<and> int_plain i \<and> int_val i = v"
proof (cases "is_small v")
  case True
  then show ?thesis using fits_small [OF assms] new_small_value [OF True] by (simp add: mp_obj_new_int_def)
next
  case False
  then show ?thesis
    using fits_small [OF assms] long_canonical [OF new_from_ll_run [of v]] assms by (auto simp: mp_obj_new_int_def)
qed

text \<open>What a result stands for.\<close>

fun num_means :: "num_obj \<Rightarrow> int_answer \<Rightarrow> bool" where
  "num_means (Number i) ans \<longleftrightarrow> int_ok i \<and> ans = IsInt (int_val i)"
| "num_means (TruthVal b) ans \<longleftrightarrow> ans = IsBool b"
| "num_means (Pair i j) ans \<longleftrightarrow> int_ok i \<and> int_ok j \<and> ans = IsPair (int_val i) (int_val j)"
| "num_means FloatNumber ans \<longleftrightarrow> ans = IsFloat"

definition computes :: "(exc + num_obj) option \<Rightarrow> exc + int_answer \<Rightarrow> bool" where
  "computes r spec \<longleftrightarrow> (case r of
     None \<Rightarrow> False
   | Some (Inl e) \<Rightarrow> spec = Inl e
   | Some (Inr x) \<Rightarrow> (case spec of Inl e \<Rightarrow> False | Inr ans \<Rightarrow> num_means x ans))"

lemma computes_long: "mpz_result r v \<Longrightarrow> computes (long_result r) (Inr (IsInt v))"
  by (auto simp: mpz_result_def computes_def long_result_def)

text \<open>
  The operands for which an operator on long integers is right: no zero with a sign for the bitwise
  operators and powers, counts of shifts within a machine integer, divisors that the long division is safe for, and
  not \<open>0 ** 0\<close>.
\<close>

fun operands_ok :: "int_op \<Rightarrow> int_obj \<Rightarrow> int_obj \<Rightarrow> bool" where
  "operands_ok MP_BINARY_OP_OR lhs rhs \<longleftrightarrow> int_plain lhs \<and> int_plain rhs"
| "operands_ok MP_BINARY_OP_XOR lhs rhs \<longleftrightarrow> int_plain lhs \<and> int_plain rhs"
| "operands_ok MP_BINARY_OP_AND lhs rhs \<longleftrightarrow> int_plain lhs \<and> int_plain rhs"
| "operands_ok MP_BINARY_OP_LSHIFT lhs rhs \<longleftrightarrow> int_plain lhs \<and> \<bar>int_val rhs\<bar> < 2 ^ 31"
| "operands_ok MP_BINARY_OP_RSHIFT lhs rhs \<longleftrightarrow> int_plain lhs \<and> \<bar>int_val rhs\<bar> < 2 ^ 31"
| "operands_ok MP_BINARY_OP_POWER lhs rhs \<longleftrightarrow> int_plain rhs \<and> (int_val lhs \<noteq> 0 \<or> int_val rhs \<noteq> 0)"
| "operands_ok MP_BINARY_OP_FLOOR_DIVIDE lhs rhs \<longleftrightarrow> (case as_mpz rhs of None \<Rightarrow> False | Some z \<Rightarrow> div_safe (dig z))"
| "operands_ok MP_BINARY_OP_MODULO lhs rhs \<longleftrightarrow> (case as_mpz rhs of None \<Rightarrow> False | Some z \<Rightarrow> div_safe (dig z))"
| "operands_ok MP_BINARY_OP_DIVMOD lhs rhs \<longleftrightarrow> (case as_mpz rhs of None \<Rightarrow> False | Some z \<Rightarrow> div_safe (dig z))"
| "operands_ok op lhs rhs \<longleftrightarrow> True"

lemma checked_run:
  assumes "int_ok i" and "\<bar>int_val i\<bar> < 2 ^ 31"
  shows "mp_obj_int_get_checked i = Inr (int_val i)"
proof (cases i)
  case (Long z)
  have v: "- (2 ^ 31) \<le> mpz_val z" "mpz_val z < 2 ^ 31" using assms(2) Long by auto
  then have "sint (word_of_int (mpz_val z) :: u32) = mpz_val z"
    by (simp add: sint_sbintrunc' signed_take_bit_int_eq_self)
  then show ?thesis using Long assms(2) mpz_to_machine_words [of z] by simp
qed (simp add: small_value_def)

lemma zero_digits: "mpz_wf z \<Longrightarrow> mpz_is_zero z \<longleftrightarrow> mpz_val z = 0"
  by (auto simp: mpz_is_zero_def mpz_val_def mpz_wf_def sgn_val_def mval_zero_normalised)

lemma as_float_fold: "fold (\<lambda>d val. val * DIG_BASE + uint d) (rev ds) v = v * 65536 ^ length ds + mval ds"
  by (induction ds arbitrary: v rule: rev_induct)
    (simp_all add: DIG_BASE_def DIG_SIZE_def mval_append push_bit_eq_mult algebra_simps)

lemma as_float_value: "mpz_as_float z = mpz_val z" "int_as_float i = int_val i"
proof -
  show z: "mpz_as_float z = mpz_val z" for z by (simp add: mpz_as_float_def as_float_fold mpz_val_def Let_def)
  show "int_as_float i = int_val i" by (cases i) (simp_all add: z)
qed

lemma long_op_run:
  assumes l: "int_ok lhs" and r: "int_ok rhs" and op: "operands_ok op lhs rhs"
  shows "computes (mp_obj_int_binary_op op lhs rhs) (int_spec op (int_val lhs) (int_val rhs))"
proof -
  obtain zl where zl: "as_mpz lhs = Some zl" "mpz_wf zl" "mpz_val zl = int_val lhs" "int_plain lhs \<Longrightarrow> mpz_ok zl"
    using as_mpz_run [OF l] by blast
  obtain zr where zr: "as_mpz rhs = Some zr" "mpz_wf zr" "mpz_val zr = int_val rhs" "int_plain rhs \<Longrightarrow> mpz_ok zr"
    using as_mpz_run [OF r] by blast
  have run: "mp_obj_int_binary_op op lhs rhs = mpz_binary_op op zl zr rhs" by (simp add: mp_obj_int_binary_op_def zl zr)
  note w = zl(2) zr(2) and d = zero_dest
  have zero: "mpz_is_zero zr \<longleftrightarrow> int_val rhs = 0" using zero_digits [OF zr(2)] zr(3) by simp
  have sgn: "mpz_is_neg zr \<longleftrightarrow> int_val rhs < 0"
    unfolding zr(3) [symmetric] using mval_pos [OF mpz_wf_normalised [OF w(2)]]
    by (cases "dig zr = []"; cases "neg zr") (simp_all add: mpz_is_neg_def mpz_val_def)
  note long = computes_long [OF mpz_canonical_result]
  have division: "computes (mpz_binary_op op zl zr rhs) (int_spec op (int_val lhs) (int_val rhs))"
    if safe: "div_safe (dig zr)" and o: "op = MP_BINARY_OP_FLOOR_DIVIDE \<or> op = MP_BINARY_OP_MODULO \<or> op = MP_BINARY_OP_DIVMOD"
  proof (cases "int_val rhs = 0")
    case True
    then show ?thesis using o zero by (auto simp: computes_def)
  next
    case False
    then have "dig zr \<noteq> []" using zero by (simp add: mpz_is_zero_def)
    from mpz_divmod_ok [OF w this safe d(1,1,2)]
    obtain q m where "mpz_divmod_inpl mpz_init_zero mpz_init_zero zl zr = Some (q, m)"
      "mpz_result (Some q) (int_val lhs div int_val rhs)" "mpz_result (Some m) (int_val lhs mod int_val rhs)"
      by (auto simp: divmod_result_def zl(3) zr(3))
    then show ?thesis
      using o zero False computes_long by (auto simp: mpz_result_def) (simp_all add: computes_def long_result_def)
  qed
  show ?thesis unfolding run
  proof (cases op)
    case MP_BINARY_OP_OR
    then show "computes (mpz_binary_op op zl zr rhs) (int_spec op (int_val lhs) (int_val rhs))"
      using long [OF mpz_or_ok [OF zl(4) zr(4) d(1)]] op zl(3) zr(3) by simp
  next
    case MP_BINARY_OP_XOR
    then show "computes (mpz_binary_op op zl zr rhs) (int_spec op (int_val lhs) (int_val rhs))"
      using long [OF mpz_xor_ok [OF zl(4) zr(4) d(1)]] op zl(3) zr(3) by simp
  next
    case MP_BINARY_OP_AND
    then show "computes (mpz_binary_op op zl zr rhs) (int_spec op (int_val lhs) (int_val rhs))"
      using long [OF mpz_and_ok [OF zl(4) zr(4) d(1)]] op zl(3) zr(3) by simp
  next
    case MP_BINARY_OP_LSHIFT
    then show "computes (mpz_binary_op op zl zr rhs) (int_spec op (int_val lhs) (int_val rhs))"
      using long [OF mpz_shl_ok [OF zl(4) d(1), of "nat (int_val rhs)"]] op zl(3) checked_run [OF r]
      by (auto simp: long_shift_def) (simp add: computes_def)
  next
    case MP_BINARY_OP_RSHIFT
    then show "computes (mpz_binary_op op zl zr rhs) (int_spec op (int_val lhs) (int_val rhs))"
      using long [OF mpz_shr_ok [OF zl(4) d(1), of "nat (int_val rhs)"]] op zl(3) checked_run [OF r]
      by (auto simp: long_shift_def) (simp add: computes_def)
  next
    case MP_BINARY_OP_ADD
    then show "computes (mpz_binary_op op zl zr rhs) (int_spec op (int_val lhs) (int_val rhs))"
      using computes_long [OF mpz_add_ok [OF w d(1)]] zl(3) zr(3) by simp
  next
    case MP_BINARY_OP_SUBTRACT
    then show "computes (mpz_binary_op op zl zr rhs) (int_spec op (int_val lhs) (int_val rhs))"
      using computes_long [OF mpz_sub_ok [OF w d(1)]] zl(3) zr(3) by simp
  next
    case MP_BINARY_OP_MULTIPLY
    then show "computes (mpz_binary_op op zl zr rhs) (int_spec op (int_val lhs) (int_val rhs))"
      using computes_long [OF mpz_mul_ok [OF w d(1)]] zl(3) zr(3) by simp
  next
    case MP_BINARY_OP_TRUE_DIVIDE
    then show "computes (mpz_binary_op op zl zr rhs) (int_spec op (int_val lhs) (int_val rhs))"
      using zero by (simp add: computes_def)
  next
    case MP_BINARY_OP_POWER
    show "computes (mpz_binary_op op zl zr rhs) (int_spec op (int_val lhs) (int_val rhs))"
    proof (cases "int_val rhs < 0")
      case True
      then show ?thesis
        using MP_BINARY_OP_POWER sgn zl(3) by (simp add: computes_def float_power_def as_float_value)
    next
      case False
      have ok: "mpz_ok zr" using op zr(4) MP_BINARY_OP_POWER by simp
      have nn: "\<not> neg zr" using False sgn ok by (auto simp: mpz_is_neg_def mpz_ok_def)
      show ?thesis
      proof (cases "dig zl = []")
        case True
        then have "int_val lhs = 0" using zl(3) by (cases "neg zl") (simp_all add: mpz_val_def)
        moreover from this have "int_val rhs > 0" using op MP_BINARY_OP_POWER False by auto
        moreover have "mpz_result (mpz_pow_inpl mpz_init_zero zl zr) 0"
          using True by (simp add: mpz_pow_inpl_def mpz_set_from_int_def mpz_result_def mpz_wf_def mpz_val_def mpz_init_zero_def normalised_def)
        ultimately show ?thesis using MP_BINARY_OP_POWER sgn computes_long by (simp add: power_0_left)
      next
        case ne: False
        then show ?thesis
          using computes_long [OF mpz_pow_ok [OF w ne nn d(1)]] MP_BINARY_OP_POWER False sgn zl(3) zr(3) by simp
      qed
    qed
  next
    case (Compare c)
    have "sgn (mpz_cmp zl zr) = sgn (int_val lhs - int_val rhs)" using mpz_cmp_ok [OF w] zl(3) zr(3) by simp
    then show "computes (mpz_binary_op op zl zr rhs) (int_spec op (int_val lhs) (int_val rhs))"
      using Compare by (cases c) (auto simp: computes_def Let_def sgn_if split: if_splits)
  next
    case MP_BINARY_OP_FLOOR_DIVIDE
    then show "computes (mpz_binary_op op zl zr rhs) (int_spec op (int_val lhs) (int_val rhs))"
      using division op by (auto simp: zr(1))
  next
    case MP_BINARY_OP_MODULO
    then show "computes (mpz_binary_op op zl zr rhs) (int_spec op (int_val lhs) (int_val rhs))"
      using division op by (auto simp: zr(1))
  next
    case MP_BINARY_OP_DIVMOD
    then show "computes (mpz_binary_op op zl zr rhs) (int_spec op (int_val lhs) (int_val rhs))"
      using division op by (auto simp: zr(1))
  qed
qed


subsection \<open>The operators on all integers\<close>

definition op_ok :: "int_op \<Rightarrow> int_obj \<Rightarrow> int_obj \<Rightarrow> bool" where
  "op_ok op lhs rhs \<longleftrightarrow> (case (lhs, rhs) of
     (Small p, Small q) \<Rightarrow> op = MP_BINARY_OP_DIVMOD \<longrightarrow> is_small (small_value p div small_value q)
   | _ \<Rightarrow> operands_ok op lhs rhs)"

lemma equal_run:
  assumes "int_ok i" and "int_ok j"
  shows "int_equal i j = Some (int_val i = int_val j)"
proof -
  have eq: "mp_obj_int_binary_op (Compare MP_BINARY_OP_EQUAL) a b = Some (Inr (TruthVal (int_val a = int_val b)))"
    if "int_ok a" "int_ok b" for a b
  proof -
    have "computes (mp_obj_int_binary_op (Compare MP_BINARY_OP_EQUAL) a b) (Inr (IsBool (int_val a = int_val b)))"
      using long_op_run [OF that, of "Compare MP_BINARY_OP_EQUAL"] by simp
    then obtain x where x: "mp_obj_int_binary_op (Compare MP_BINARY_OP_EQUAL) a b = Some (Inr x)" "num_means x (IsBool (int_val a = int_val b))"
      by (auto simp: computes_def split: option.splits sum.splits)
    then show ?thesis by (cases x) auto
  qed
  show ?thesis
    using assms eq [of i j] eq [of j i] small_value_inj
    by (cases i; cases j) (auto simp: int_equal_def)
qed

lemma generic_result:
  assumes "is_small a" and "is_small b" and "small_binary_op op a b = Some (Inr Generic)"
  shows "op = MP_BINARY_OP_LSHIFT \<and> 0 \<le> b \<or> op = MP_BINARY_OP_MULTIPLY \<or> op = MP_BINARY_OP_POWER \<and> 0 < b"
proof (cases op)
  case MP_BINARY_OP_POWER
  then show ?thesis using assms(3) by (cases "b = 0") (auto simp: pow_loop.simps split: if_splits option.splits sum.splits)
next
  case (Compare c)
  then show ?thesis using assms(3) by (cases c) auto
qed (use assms(3) in \<open>auto simp: of_value_def Let_def split: if_splits Option.bind_splits\<close>)

lemma small_object_computes:
  assumes "small_means r ans" and "r = Generic \<Longrightarrow> computes g (Inr ans)"
  shows "computes (small_object g r) (Inr ans)"
proof (cases r)
  case (Value v)
  then show ?thesis using assms(1) new_int_run [of v] by (auto simp: computes_def)
qed (use assms in \<open>auto simp: computes_def\<close>)

lemma binary_run:
  assumes l: "int_ok lhs" and r: "int_ok rhs" and op: "op_ok op lhs rhs"
  shows "computes (int_binary op lhs rhs) (int_spec op (int_val lhs) (int_val rhs))"
proof (cases "op = Compare MP_BINARY_OP_EQUAL")
  case True
  then show ?thesis using equal_run [OF l r] by (simp add: computes_def)
next
  case ne: False
  show ?thesis
  proof (cases "\<exists>p q. lhs = Small p \<and> rhs = Small q")
    case False
    then have "operands_ok op lhs rhs" "int_binary op lhs rhs = mp_obj_int_binary_op op lhs rhs"
      using op ne by (cases lhs; cases rhs; simp add: op_ok_def)+
    then show ?thesis using long_op_run [OF l r] by simp
  next
    case True
    then obtain p q where pq: "lhs = Small p" "rhs = Small q" by blast
    let ?a = "small_value p" and ?b = "small_value q"
    let ?spec = "int_spec op ?a ?b"
    have ab: "is_small ?a" "is_small ?b" by (rule small_value_small)+
    have run: "small_run (small_binary_op op ?a ?b) ?spec"
      using small_op_run [OF ab ne] op pq by (simp add: op_ok_def)
    define g where "g = Option.bind (mp_obj_new_int_from_ll ?a) (\<lambda>z. mp_obj_int_binary_op op (Long z) rhs)"
    have g: "computes g ?spec" if "small_binary_op op ?a ?b = Some (Inr Generic)"
    proof -
      have "mpz_canonical (mp_obj_new_int_from_ll ?a) ?a" using ab(1) by (intro new_from_ll_run) (auto simp: is_small_def)
      then obtain z where z: "mp_obj_new_int_from_ll ?a = Some z" "int_ok (Long z)" "int_plain (Long z)" "int_val (Long z) = ?a"
        using long_canonical by blast
      have "operands_ok op (Long z) rhs"
        using generic_result [OF ab that] z(3,4) pq ab(2) by (auto simp: is_small_def)
      from long_op_run [OF z(2) r this] show ?thesis using z(1,4) pq by (simp add: g_def)
    qed
    have code: "int_binary op lhs rhs = (case small_binary_op op ?a ?b of None \<Rightarrow> None | Some (Inl e) \<Rightarrow> Some (Inl e) | Some (Inr r) \<Rightarrow> small_object g r)"
      using ne unfolding g_def pq by simp
    show ?thesis
    proof (cases "small_binary_op op ?a ?b")
      case (Some s)
      show ?thesis
      proof (cases s)
        case (Inl e)
        then show ?thesis using Some run pq unfolding code by (simp add: small_run_def computes_def)
      next
        case (Inr res)
        then obtain ans where "?spec = Inr ans" "small_means res ans"
          using Some run by (auto simp: small_run_def split: sum.splits)
        then show ?thesis using Some Inr g pq small_object_computes [of res ans g] unfolding code by simp
      qed
    qed (use run in \<open>simp add: small_run_def\<close>)
  qed
qed

subsection \<open>Unary operators, sign and conversions\<close>

fun unary_spec :: "int_unary_op \<Rightarrow> int \<Rightarrow> int_answer" where
  "unary_spec MP_UNARY_OP_BOOL v = IsBool (v \<noteq> 0)"
| "unary_spec MP_UNARY_OP_HASH v = IsInt (small_value (new_small v))"
| "unary_spec MP_UNARY_OP_POSITIVE v = IsInt v"
| "unary_spec MP_UNARY_OP_NEGATIVE v = IsInt (- v)"
| "unary_spec MP_UNARY_OP_ABS v = IsInt \<bar>v\<bar>"
| "unary_spec MP_UNARY_OP_INVERT v = IsInt (NOT v)"

lemma new_small_is: "MP_OBJ_IS_SMALL_INT (new_small v)"
  by (simp add: new_small_def small_int_is)

text \<open>The hash of an integer is the small integer with its low bits, whichever object holds it.\<close>

lemma hash_run: "int_ok i \<Longrightarrow> int_unary MP_UNARY_OP_HASH i = Some (Inr (Number (Small (new_small (int_val i)))))"
  by (cases i) (simp add: new_small_back, simp add: mpz_hash_value new_small_def)

lemma small_not: "is_small v \<Longrightarrow> is_small (NOT v)"
  by (simp add: is_small_def not_int_def)

lemma negated_small: "is_small v \<Longrightarrow> v \<noteq> MP_SMALL_INT_MIN \<Longrightarrow> is_small (- v)"
  by (auto simp: is_small_def small_limits)

lemma neg_long: "mpz_wf z \<Longrightarrow> mpz_result (mpz_neg_inpl False mpz_init_zero z) (- mpz_val z)"
  by (cases "neg z") (simp_all add: mpz_neg_inpl_def mpz_copy_def zero_dest mpz_result_def mpz_wf_def mpz_val_def mpz_init_zero_def)

lemma abs_long: "mpz_wf z \<Longrightarrow> mpz_result (mpz_abs_inpl False mpz_init_zero z) \<bar>mpz_val z\<bar>"
  using mval_nonneg [of "dig z"]
  by (cases "neg z") (simp_all add: mpz_abs_inpl_def mpz_copy_def zero_dest mpz_result_def mpz_wf_def mpz_val_def mpz_init_zero_def)

lemma unary_run:
  assumes ok: "int_ok i"
  shows "computes (int_unary op i) (Inr (unary_spec op (int_val i)))"
proof (cases "op = MP_UNARY_OP_HASH")
  case True
  then show ?thesis using hash_run [OF ok] new_small_is by (simp add: computes_def)
next
  case ne: False
  show ?thesis
  proof (cases i)
    case (Small p)
    let ?v = "small_value p"
    have v: "is_small ?v" by (rule small_value_small)
    have neg: "- (2 ^ 31) \<le> - ?v" "- ?v < 2 ^ 31" using v by (simp_all add: is_small_def)
    note w = new_int_run [OF neg]
    have o: "MP_OBJ_IS_SMALL_INT p" using ok Small by simp
    show ?thesis
    proof (cases "op = MP_UNARY_OP_NEGATIVE \<or> op = MP_UNARY_OP_ABS \<and> ?v < 0")
      case True
      show ?thesis
      proof (cases "?v = MP_SMALL_INT_MIN")
        case min: True
        then have "int_unary op i = map_option (\<lambda>p. Inr (Number p)) (mp_obj_new_int (- ?v))"
          using True Small s32_in [OF neg] by (auto simp: Let_def small_limits)
        then show ?thesis using w True Small min by (auto simp: computes_def small_limits)
      next
        case False
        then have "int_unary op i = Some (Inr (Number (Small (new_small (- ?v)))))"
          using True Small s32_in [OF neg] by (auto simp: Let_def)
        then show ?thesis using new_small_value [OF negated_small [OF v False]] True Small by (auto simp: computes_def)
      qed
    next
      case False
      then show ?thesis using Small o ne new_small_value [OF small_not [OF v]] by (cases op) (auto simp: computes_def Let_def)
    qed
  next
    case (Long z)
    have z: "mpz_wf z" "\<not> fixed_dig z" using ok Long by simp_all
    show ?thesis
    proof (cases op)
      case MP_UNARY_OP_BOOL
      then show ?thesis using Long zero_digits [OF z(1)] by (simp add: computes_def)
    next
      case MP_UNARY_OP_POSITIVE
      then show ?thesis using Long z by (simp add: computes_def)
    next
      case MP_UNARY_OP_NEGATIVE
      then show ?thesis using Long computes_long [OF neg_long [OF z(1)]] by simp
    next
      case MP_UNARY_OP_INVERT
      then show ?thesis
        using Long computes_long [OF mpz_canonical_result [OF mpz_not_ok [OF z(1) zero_dest(1) z(2), of False]]] by simp
    next
      case MP_UNARY_OP_ABS
      show ?thesis
      proof (cases "neg z")
        case True
        then show ?thesis using Long MP_UNARY_OP_ABS computes_long [OF abs_long [OF z(1)]] by simp
      next
        case False
        then show ?thesis using Long MP_UNARY_OP_ABS z mval_nonneg [of "dig z"] by (simp add: computes_def mpz_val_def)
      qed
    qed (use ne in simp)
  qed
qed

lemma sign_run: "int_ok i \<Longrightarrow> mp_obj_int_sign i = sgn (int_val i)"
proof (cases i)
  case (Long z)
  assume "int_ok i"
  then have "mpz_wf z" using Long by simp
  then show ?thesis
    using Long mval_pos [OF mpz_wf_normalised, of z]
    by (cases "dig z = []"; cases "neg z") (simp_all add: mpz_val_def sgn_if)
qed (simp add: Let_def sgn_if)

lemma truncated_run: "mp_obj_int_get_truncated i = word_of_int (int_val i)"
  by (cases i) (simp_all add: mpz_hash_value small_value_def)

lemma overflow_run: "2 ^ 31 \<le> \<bar>int_val i\<bar> \<Longrightarrow> mp_obj_int_get_checked i = Inl OverflowError"
proof (cases i)
  case (Small p)
  assume "2 ^ 31 \<le> \<bar>int_val i\<bar>"
  then show ?thesis using small_value_small [of p] Small by (auto simp: is_small_def)
qed (simp add: mpz_to_machine_words)

text \<open>Powers with a modulus.\<close>

lemma for_int_run:
  assumes "int_ok i"
  shows "\<exists>z. mp_mpz_for_int i = Some z \<and> mpz_wf z \<and> mpz_val z = int_val i \<and> (int_plain i \<longrightarrow> mpz_ok z)"
proof (cases i)
  case (Small p)
  then show ?thesis
    using set_from_int_run [of mpz_init_zero "MP_OBJ_SMALL_INT_VALUE p"] zero_dest
    by (auto simp: mpz_init_from_int_def small_value_def mpz_ok_def)
qed (use assms in auto)

lemma pow3_run:
  assumes "int_ok base" and "int_ok exponent" and "int_plain exponent" and "int_ok modulus"
    and "int_val base \<noteq> 0" and "0 < int_val exponent" and "int_val modulus \<noteq> 0"
    and "case mp_mpz_for_int modulus of None \<Rightarrow> False | Some z \<Rightarrow> div_safe (dig z)"
  shows "\<exists>i. mp_obj_int_pow3 base exponent modulus = Some i \<and> int_ok i
    \<and> int_val i = int_val base ^ nat (int_val exponent) mod int_val modulus"
proof -
  obtain l where l: "mp_mpz_for_int base = Some l" "mpz_wf l" "mpz_val l = int_val base" using for_int_run [OF assms(1)] by blast
  obtain r where r: "mp_mpz_for_int exponent = Some r" "mpz_wf r" "mpz_val r = int_val exponent" "mpz_ok r"
    using for_int_run [OF assms(2)] assms(3) by blast
  obtain m where m: "mp_mpz_for_int modulus = Some m" "mpz_wf m" "mpz_val m = int_val modulus" using for_int_run [OF assms(4)] by blast
  obtain res where res: "mp_obj_new_int_from_ull 0 = Some res" "\<not> fixed_dig res"
    using set_from_ll_run(2) [OF zero_dest(1), of 0] by (auto simp: mp_obj_new_int_from_ull_def mpz_canonical_def)
  have ne: "dig l \<noteq> []" "dig r \<noteq> []" "dig m \<noteq> []"
    using l(3) r(3) m(3) assms(5-7) zero_digits [OF l(2)] zero_digits [OF r(2)] zero_digits [OF m(2)]
    by (auto simp: mpz_is_zero_def)
  have "\<not> neg r" using mpz_ok_neg [OF r(4)] r(3) assms(6) by (auto simp: mpz_val_def)
  from mpz_pow3_ok [OF l(2) r(2) ne(1,2) this m(2) ne(3) _ res(2)]
  have "mpz_result (mpz_pow3_inpl res l r m) (int_val base ^ nat (int_val exponent) mod int_val modulus)"
    using assms(8) l(3) r(3) m(1,3) by simp
  then show ?thesis using l r m res long_wf by (fastforce simp: mp_obj_int_pow3_def)
qed


subsection \<open>Properties\<close>

text \<open>
  C4. Arithmetic of integers.  Every binary operator on two integers, small or long, gives what Python defines: or, exclusive
  or, and, shifts, sum, difference, product, floor division, remainder, power, \<open>divmod\<close> and the
  comparisons compute with the mathematical integers, division by zero, a power of zero with a
  negative exponent and negative shift counts raise, other powers with a negative exponent are floats, and no
  signed operation overflows on the way.  The operands are such that
  the long operators are right: no zero with a sign for bitwise operators and
  exponents, no \<open>0 ** 0\<close> with a long operand, long divisors that the long division is safe for, a quotient of
  small integers in \<open>divmod\<close> that is one.
\<close>

theorem integer_operators:
  assumes "int_ok lhs" and "int_ok rhs" and "op_ok op lhs rhs"
  shows "computes (int_binary op lhs rhs) (int_spec op (int_val lhs) (int_val rhs))"
  by (rule binary_run [OF assms])

theorem integer_operators_witness:
  "computes (int_binary MP_BINARY_OP_POWER (Small 0xFFFFFFFB) (Small 81)) (Inr (IsInt ((- 3) ^ 40)))
    \<and> computes (int_binary MP_BINARY_OP_FLOOR_DIVIDE (Long \<lparr>neg = True, fixed_dig = False, alloc = 3, dig = [5, 0, 1]\<rparr>) (Small 15))
        (Inr (IsInt (- 613566758)))
    \<and> computes (int_binary MP_BINARY_OP_POWER (Small 1) (Small 0xFFFFFFFF)) (Inl ZeroDivisionError)
    \<and> computes (int_binary MP_BINARY_OP_POWER (Long mpz_init_zero) (Small 0xFFFFFFFF)) (Inl ZeroDivisionError)"
proof -
  have v: "small_value 0xFFFFFFFB = - 3" "small_value 81 = 40" "small_value 15 = 7" "small_value 1 = 0" "small_value 0xFFFFFFFF = - 1"
    "MP_OBJ_IS_SMALL_INT 0xFFFFFFFB" "MP_OBJ_IS_SMALL_INT 81" "MP_OBJ_IS_SMALL_INT 15" "MP_OBJ_IS_SMALL_INT 1"
    "MP_OBJ_IS_SMALL_INT 0xFFFFFFFF" by code_simp+
  let ?n = "Long \<lparr>neg = True, fixed_dig = False, alloc = 3, dig = [5, 0, 1]\<rparr>" and ?z = "Long mpz_init_zero"
  have "as_mpz (Small 15) = Some \<lparr>neg = False, fixed_dig = True, alloc = 2, dig = [7]\<rparr>" by code_simp
  then have n: "op_ok MP_BINARY_OP_FLOOR_DIVIDE ?n (Small 15)"
    by (simp add: op_ok_def div_safe_def del: as_mpz.simps)
  have p: "op_ok MP_BINARY_OP_POWER (Small 0xFFFFFFFB) (Small 81)" "op_ok MP_BINARY_OP_POWER (Small 1) (Small 0xFFFFFFFF)"
    "op_ok MP_BINARY_OP_POWER ?z (Small 0xFFFFFFFF)" using v by (simp_all add: op_ok_def)
  have z: "int_ok ?z" "int_val ?z = 0" by (simp_all add: mpz_init_zero_def mpz_eval)
  show ?thesis
    using integer_operators [of "Small 0xFFFFFFFB" "Small 81" MP_BINARY_OP_POWER] integer_operators [of ?n "Small 15" MP_BINARY_OP_FLOOR_DIVIDE]
      integer_operators [of "Small 1" "Small 0xFFFFFFFF" MP_BINARY_OP_POWER] integer_operators [of ?z "Small 0xFFFFFFFF" MP_BINARY_OP_POWER] v n p z
    by (simp add: mpz_eval del: int_binary.simps)
qed

text \<open>
  C22. Every unary operator on an integer gives a well-formed integer (or truth value) with the value that Python
  defines, a zero with a sign included; equal integers have the same hash object, whether they are small
  or long, and the sign and the truncation to a word are those of the value.
\<close>

theorem integer_unary_operators:
  assumes "int_ok i" and "int_ok j" and "int_val i = int_val j"
  shows "computes (int_unary op i) (Inr (unary_spec op (int_val i)))
    \<and> int_unary MP_UNARY_OP_HASH i = int_unary MP_UNARY_OP_HASH j
    \<and> mp_obj_int_sign i = sgn (int_val i) \<and> mp_obj_int_get_truncated i = word_of_int (int_val i)"
  using unary_run [OF assms(1)] hash_run [OF assms(1)] hash_run [OF assms(2)] assms(3) sign_run [OF assms(1)] truncated_run
  by simp

theorem integer_unary_operators_witness:
  "computes (int_unary MP_UNARY_OP_INVERT (Long \<lparr>neg = True, fixed_dig = False, alloc = 2, dig = [3]\<rparr>)) (Inr (IsInt 2))
    \<and> int_unary MP_UNARY_OP_HASH (Long \<lparr>neg = True, fixed_dig = False, alloc = 2, dig = [3]\<rparr>)
      = int_unary MP_UNARY_OP_HASH (Small 0xFFFFFFFB)"
proof -
  have v: "small_value 0xFFFFFFFB = - 3" "MP_OBJ_IS_SMALL_INT 0xFFFFFFFB" by code_simp+
  show ?thesis
    using integer_unary_operators [of "Long \<lparr>neg = True, fixed_dig = False, alloc = 2, dig = [3]\<rparr>" "Small 0xFFFFFFFB" MP_UNARY_OP_INVERT] v
    by (simp add: mpz_eval not_int_def del: int_unary.simps)
qed

text \<open>
  C39. The machine arithmetic of small integers: the check before a product says exactly whether the product is a
  small integer, and division and remainder on machine integers, which round towards zero, are turned into
  those of Python, which round towards minus infinity, without leaving 32 bits.
\<close>

theorem small_arithmetic:
  assumes "is_small a" and "is_small b"
  shows "(mp_small_int_mul_overflow a b \<longleftrightarrow> \<not> is_small (a * b))
    \<and> (b = 0 \<or> mp_small_int_floor_divide a b = Some (a div b) \<and> mp_small_int_modulo a b = Some (a mod b))"
  using mul_overflow_run [OF assms] floor_divide_run [OF assms] modulo_run [OF assms] by blast

theorem small_arithmetic_witness:
  "mp_small_int_mul_overflow (- 32768) (- 32768) \<and> mp_small_int_floor_divide (- 7) 2 = Some (- 4) \<and> mp_small_int_modulo (- 7) 2 = Some 1"
  using small_arithmetic [of "- 32768" "- 32768"] small_arithmetic [of "- 7" 2] by (simp add: is_small_def)

text \<open>
  C40. \<open>divmod\<close> of the smallest small integer and \<open>-1\<close> returns the wrong quotient: \<open>2 ^ 30\<close> is not a small
  integer, and it is made one without the check, which turns it into \<open>- 2 ^ 30\<close>; the floor division
  operator is right.
\<close>

theorem divmod_quotient_wraps:
  "int_binary MP_BINARY_OP_DIVMOD (Small (new_small (- (2 ^ 30)))) (Small (new_small (- 1)))
     = Some (Inr (Pair (Small (new_small (- (2 ^ 30)))) (Small (new_small 0))))
   \<and> computes (int_binary MP_BINARY_OP_FLOOR_DIVIDE (Small (new_small (- (2 ^ 30)))) (Small (new_small (- 1)))) (Inr (IsInt (2 ^ 30)))"
proof -
  have s: "is_small (- (2 ^ 30))" "is_small (- 1)" by (simp_all add: is_small_def)
  note v = new_small_value [OF s(1)] new_small_value [OF s(2)]
  have "new_small (2 ^ 30) = new_small (- (2 ^ 30))" by code_simp
  then have "int_binary MP_BINARY_OP_DIVMOD (Small (new_small (- (2 ^ 30)))) (Small (new_small (- 1)))
     = Some (Inr (Pair (Small (new_small (- (2 ^ 30)))) (Small (new_small 0))))"
    using divmod_wraps(1) by (simp add: v [simplified] del: small_binary_op.simps)
  moreover have "computes (int_binary MP_BINARY_OP_FLOOR_DIVIDE (Small (new_small (- (2 ^ 30)))) (Small (new_small (- 1)))) (Inr (IsInt (2 ^ 30)))"
    using binary_run [of "Small (new_small (- (2 ^ 30)))" "Small (new_small (- 1))" MP_BINARY_OP_FLOOR_DIVIDE] v
    by (simp add: op_ok_def del: int_binary.simps)
  ultimately show ?thesis by blast
qed

end
