(* ===== verification/Spec2Isabelle.thy ===== *)
theory Spec2Isabelle
  imports Codey_Prelude Bounded_Queue Codey_Utils Codey_Ble FF55_Protocol Comm_Protocol Super_Var Sensor_Report
    Codey_Commands Socket_Fifo Py_Scheduler Py_Console Py_Mpn Py_Mpn_Div Py_Mpz Py_Mpz_Text Neurons_Protocol
    Neurons_Engine Neurons_Block_List Py_Gc Py_Gc_Collect Py_Gc_Alloc Py_Map Py_Qstr Py_Objects Py_Dict Py_Set
    Py_Sort Py_Sequence Py_Small_Int Py_List Py_List_Laws Py_Int
begin

text \<open>
  Verification of the Codey firmware: MicroPython for the ESP32 with the application code of
  Makeblock.  Paths below are relative to \<open>src/micropython-esp32/\<close>; \<open>MB\<close> stands for
  \<open>ports/esp32/makeblock/src\<close>.

  \<^bold>\<open>The program.\<close>  A Codey talks to a host over a UART and a BLE serial service and to its sensor
  blocks (``neurons'') over a second UART.  Bytes from the host run through two protocol automata at
  once, the FF 55 requests (\<open>MB/sys/codey_ff_55_comm_protocol.c\<close>) and the F3 frames
  (\<open>MB/sys/codey_comm_protocol.c\<close>); a complete F3 frame calls the handler registered for its
  protocol id, whose answer goes back in a frame over the channel.  Bytes that are no protocol are the
  console input of the interpreter.  The BLE service puts received bytes into a ring
  (\<open>MB/utils/codey_ringbuf.c\<close>) that the interpreter's reader empties.  The engine of the neurons
  (\<open>MB/hardware/neurons\<close>) keeps a table of the blocks on line, sends commands to them and stores their
  answers for the threads of Python programs.  The interpreter (\<open>py\<close>) gives the programs its heap with
  a mark and sweep collector, multi-digit arithmetic, interned strings, maps, dictionaries, sets, lists, small and long
  integers as objects and the scheduler of callbacks.

  \<^bold>\<open>Conventions.\<close>  Integers of C are words of their width; sizes and indices that the code keeps far
  from the width are naturals.  An array is a list of its length.  The result \<open>None\<close> is undefined
  behaviour of C (an access outside an array, a null pointer, an endless loop in a \<open>partial_function\<close>);
  raised errors and refusals are values.  External code (drivers, FreeRTOS, the methods of other object
  types, whether an allocation succeeds) is an argument of the definitions that use it.

  \<^bold>\<open>Theories and what they model.\<close>
  \<^item> \<open>Codey_Prelude\<close>: bounded reads, writes and copies, counted loops, the laws of byte sums and words
    that the protocols share (the collection \<open>mem_simps\<close>).
  \<^item> \<open>Bounded_Queue\<close>: the interface of a bounded first-in first-out queue as the locale \<open>bounded_queue\<close> with
    its refinement of a list over every sequence of calls; interpreted by the BLE ring, the console ring, the socket FIFO
    and the command buffer of the neurons engine.
  \<^item> \<open>Codey_Utils\<close> (\<open>MB/utils/codey_utils.c\<close>): hexadecimal text, check sums, reading and storing of numbers.
  \<^item> \<open>Codey_Ble\<close> (\<open>MB/utils/codey_ringbuf.[ch]\<close>, \<open>MB/bt/codey_ble_sys_dev_func.c\<close>): the receive ring and
    its writer and reader.
  \<^item> \<open>FF55_Protocol\<close>, \<open>Comm_Protocol\<close>, \<open>Codey_Commands\<close> (\<open>MB/sys\<close>): both automata, frame building, the
    handlers for MAC address, firmware, DTR, ready, channel, product test, baud rate and file system, and
    the composition: a whole request frame is answered.
  \<^item> \<open>Neurons_Protocol\<close>, \<open>Neurons_Engine\<close>, \<open>Neurons_Block_List\<close> (\<open>MB/hardware/neurons\<close>): value codecs, receiver
    and sender of the serial protocol, the block tables, commands and answers, and the linked list of
    library entries in a heap of nodes.
  \<^item> \<open>Super_Var\<close> (\<open>MB/hardware/onboard/codey_super_var.c\<close>): the variables that programs share with the host and
    other Codeys; a value that one side sets is framed, decoded by the automaton of \<open>Comm_Protocol\<close> and read on the other.
  \<^item> \<open>Sensor_Report\<close> (\<open>MB/sys/codey_sensor_report.c\<close>): the table of the sensors, the requests of the host that
    switch reports, and a round of the task that sends the changed values.
  \<^item> \<open>Socket_Fifo\<close> (\<open>MB/wifi/mb_ftp/drive\<close>): the queue of the FTP server over its generic FIFO.
  \<^item> \<open>Py_Scheduler\<close> (\<open>py/scheduler.c\<close>), \<open>Py_Console\<close> (\<open>py/ringbuf.h\<close>, \<open>ports/esp32/uart.c\<close>): scheduled
    callbacks as a step relation, and the interrupt handler of the console.
  \<^item> \<open>Py_Mpn\<close>, \<open>Py_Mpn_Div\<close>, \<open>Py_Mpz\<close>, \<open>Py_Mpz_Text\<close> (\<open>py/mpz.c\<close>): digit arrays with 16-bit digits, long division,
    signed integers, powers, bytes and text.
  \<^item> \<open>Py_Gc\<close>, \<open>Py_Gc_Collect\<close>, \<open>Py_Gc_Alloc\<close> (\<open>py/gc.c\<close>): the tables of the heap, collection, allocation, freeing
    and reallocation.
  \<^item> \<open>Py_Map\<close> (\<open>py/map.c\<close>), \<open>Py_Qstr\<close> (\<open>py/qstr.c\<close>), \<open>Py_Objects\<close> (\<open>py/obj.[ch]\<close>, parts of
    \<open>py/objstr.c\<close> and \<open>py/runtime.c\<close>), \<open>Py_Dict\<close> (\<open>py/objdict.c\<close>), \<open>Py_Set\<close> (sets of \<open>py/map.c\<close>, \<open>py/objset.c\<close>): hash
    tables, interned strings, equality and hash of objects, dictionaries and sets.
  \<^item> \<open>Py_Sort\<close>, \<open>Py_List\<close>, \<open>Py_List_Laws\<close> (\<open>py/objlist.c\<close>) and \<open>Py_Sequence\<close> (\<open>py/sequence.c\<close>, \<open>mp_get_index\<close> of
    \<open>py/obj.c\<close>): lists with their array of items, methods, subscripts, slices, comparison and the quicksort.  Whether a
    reallocation fails, stays in place or moves is a parameter.
  \<^item> \<open>Py_Small_Int\<close> (\<open>py/smallint.[ch]\<close>), \<open>Py_Int\<close> (\<open>py/objint_mpz.c\<close>), with the integer parts of \<open>mp_unary_op\<close> and
    \<open>mp_binary_op\<close> (\<open>py/runtime.c\<close>): the operators on small and long integers over \<open>Py_Mpz\<close>.

  \<^bold>\<open>What the lemmas show.\<close>  Queues: the operations refine a bounded list, including full and empty.
  Protocols: a stream with noise is decoded into exactly its frames in order, damaged frames
  are dropped, built frames are decoded back, an automaton stays inside its buffer except for the lengths that the
  code does not test, for which the overrun is proved.  Long integers: every operation computes the
  integer it stands for and keeps the representation; printing and parsing are inverse; the long division is exact for
  every divisor for which its borrow is wide enough, and wrong outside.  Heap: a collection keeps
  exactly what the roots reach, with any number of overflows of the mark stack; allocations are fresh and zeroed; freeing and moving are exact.
  Maps: probing finds a key exactly when it is in the table (\<open>probe_index\<close>, \<open>insert_key\<close>, \<open>remove_key\<close>),
  which gives the contracts \<open>lookup_table\<close> (any map) and \<open>robust_table\<close> (also consistent after a memory error) that
  the dictionary lemmas are proved in; the locale \<open>object_keys\<close> states the laws of equality and hash, which
  \<open>Py_Objects\<close> proves for small integers and strings; \<open>roomy_keys\<close> adds that allocations succeed, for the operations of sets on sets.
  Lists: every run of commands refines a run on a list of objects, in every memory, and every slice is that of
  Python; assigning a list to its own slice is the exception, and is proved to read freed memory when the items move.  Sorting permutes
  whatever the comparison does, and sorts in the locale \<open>sort_order\<close>, which \<open>Py_Small_Int\<close> interprets on the comparison of
  small integers, ascending and descending.  Integer objects: every operator computes with the mathematical integers, in either
  representation, or raises (a power of zero with a negative exponent too; other negative exponents end in the float of \<open>pow\<close>), with the one
  quotient of \<open>divmod\<close> that does not fit as the proved exception.

  \<^bold>\<open>Bounds and fuel.\<close>  \<open>mp_map_lookup\<close> and \<open>mp_set_lookup\<close> call themselves through the rehash: depth 2 is enough, because the
  lookups of a rehash go to a table with room, and one rehash gives that room, so that \<open>hash_loop\<close> and \<open>set_loop\<close>
  need two rounds; the lemmas prove that a result is returned.  The mark stack has its 64 entries of the
  port.  \<open>word_digits\<close> takes one round for each digit of a word.  Loops whose end is not
  structural have measures (\<open>all_in\<close>, \<open>update_from\<close>) or are \<open>partial_function\<close>s with lemmas that they return
  (\<open>div_adjust\<close>, \<open>gc_drain_stack\<close>, \<open>list_tail\<close>).  The quicksort has the stack depth as an argument: the
  nested call takes the smaller side, so a depth of \<open>n\<close> is enough for fewer than \<open>2 ^ n\<close> items.  Lengths of lists are below \<open>2 ^ 30\<close>, since
  their items are words of four bytes in a 32-bit address space.

  \<^bold>\<open>Not modelled.\<close>  Drivers and glue to hardware and to the ESP-IDF, which have no logic of their own beyond
  register and API calls (LED matrix, gyroscope, RMT, infrared, voice, speaker, battery, buttons, WLAN, GATT tables
  of the BLE service); the FTP server's dialogue, file systems and over-the-air update, which are sequences of calls into
  lwIP, FatFs and the flash driver; the compiler, the virtual machine and the other object types of the
  interpreter; floating point, except for the tests of a power of two integers; debug dumps and printing.  The comparison and the key function of a sort may raise but
  do not change the list that is sorted; integer operators have integers on both sides, and the constructor of \<open>int\<close> is left out.  The vendored libraries (\<open>lib\<close>, the other ports) are left aside.
\<close>

end
